(* ===== verification/Prelude.thy ===== *)
theory Prelude
  imports Main "HOL-Library.Word" "HOL-Library.Multiset"
begin

text \<open>
  Shared vocabulary of the development: the C integer types as words, the error codes of
  C-kern/api/err/errornr.h and errno.h that the modelled operations return, the result type of
  a fallible operation, and the generic lemmas on words, lists and little-endian digit
  sequences that the component theories use.
\<close>

unbundle bit_operations_syntax

section \<open>Types\<close>

type_synonym u8 = "8 word"
type_synonym u16 = "16 word"
type_synonym u32 = "32 word"
type_synonym u64 = "64 word"

text \<open>
  The non-zero values of an \<open>int err\<close> return. A C function that returns 0 on success and an
  error code otherwise is a function into \<open>errno + 'a\<close>: \<open>Inl\<close> carries the code,
  \<open>Inr\<close> the values the function wrote through its out parameters.
\<close>

datatype errno = EINVAL | ENOMEM | EOVERFLOW | EILSEQ | ENODATA | EINVARIANT | ESRCH | EEXIST

type_synonym 'a cres = "errno + 'a"

section \<open>Lemma collections\<close>

named_theorems word_nat_simps \<open>unsigned word arithmetic read as arithmetic on nat\<close>

section \<open>Words as natural numbers\<close>

lemma unat_lt_pow: "unat (w :: 'a::len word) < 2 ^ LENGTH('a)"
  by (rule unsigned_less)

lemma unat_u8_bound: "unat (w :: u8) < 256"
  using unsigned_less [of w] by simp

lemma unat_u32_bound: "unat (w :: u32) < 2 ^ 32"
  using unsigned_less [of w] by simp

lemma unat_u64_bound: "unat (w :: u64) < 2 ^ 64"
  using unsigned_less [of w] by simp

lemma unat_add_no_wrap:
  "unat a + unat b < 2 ^ LENGTH('a) \<Longrightarrow> unat (a + b :: 'a::len word) = unat a + unat b"
  by (simp add: unat_word_ariths)

lemma unat_add_eq:
  "unat x = a \<Longrightarrow> unat y = b \<Longrightarrow> a + b < 2 ^ LENGTH('a) \<Longrightarrow> unat (x + y :: 'a::len word) = a + b"
  by (simp add: unat_word_ariths)

lemma unat_mult_no_wrap:
  "unat a * unat b < 2 ^ LENGTH('a) \<Longrightarrow> unat (a * b :: 'a::len word) = unat a * unat b"
  by (simp add: unat_word_ariths)

lemma unat_sub_no_wrap:
  "unat b \<le> unat a \<Longrightarrow> unat (a - b :: 'a::len word) = unat a - unat b"
  by (simp add: unat_sub word_le_nat_alt)

lemma unat_drop_bit: "unat (drop_bit n w :: 'a::len word) = unat w div 2 ^ n"
  by (simp only: unat_drop_bit_eq drop_bit_eq_div [where 'a = nat])

lemma unat_push_bit_mod:
  "unat (push_bit n w :: 'a::len word) = unat w * 2 ^ n mod 2 ^ LENGTH('a)"
  by (simp only: unsigned_push_bit_eq take_bit_eq_mod [where 'a = nat] push_bit_eq_mult [where 'a = nat])

lemma unat_push_bit_no_wrap:
  "unat w * 2 ^ n < 2 ^ LENGTH('a) \<Longrightarrow> unat (push_bit n w :: 'a::len word) = unat w * 2 ^ n"
  by (simp add: unat_push_bit_mod)

lemma unat_ucast_mod: "unat (ucast (w :: 'a::len word) :: 'b::len word) = unat w mod 2 ^ LENGTH('b)"
  by (simp add: unsigned_ucast_eq take_bit_eq_mod)

lemma unat_ucast_down:
  "unat w < 2 ^ LENGTH('b) \<Longrightarrow> unat (ucast (w :: 'a::len word) :: 'b::len word) = unat w"
  by (simp add: unat_ucast_mod)

lemma unat_ucast_up:
  assumes "LENGTH('a) \<le> LENGTH('b)"
  shows "unat (ucast (w :: 'a::len word) :: 'b::len word) = unat w"
proof -
  have "unat w < 2 ^ LENGTH('b)"
    using unsigned_less [of w] assms by (meson less_le_trans one_le_numeral power_increasing)
  then show ?thesis by (rule unat_ucast_down)
qed

text \<open>A disjunction of words without a common bit is their sum.\<close>

lemma or_eq_add_of_and_zero: "a AND b = 0 \<Longrightarrow> a OR b = (a + b :: 'a::len word)"
  using disjunctive_add [of a b] by (metis bit_and_iff bit_0_eq bot_apply bot_bool_def)

lemma and_zero_dvd:
  fixes a b :: "'a::len word"
  assumes "2 ^ k dvd unat a" and "unat b < 2 ^ k"
  shows "a AND b = 0"
proof -
  have "take_bit k a = 0"
    using assms(1)
    by (simp only: word_unat_eq_iff unsigned_take_bit_eq take_bit_eq_mod [where 'a = nat]
        mod_eq_0_iff_dvd unat_0)
  then have a: "\<not> (n < k \<and> bit a n)" for n
    by (metis bit_take_bit_iff bit_0_eq bot_apply bot_bool_def)
  have "take_bit k b = b"
    using assms(2)
    by (simp only: word_unat_eq_iff unsigned_take_bit_eq take_bit_eq_mod [where 'a = nat] mod_less)
  then have b: "bit b n \<Longrightarrow> n < k" for n
    by (metis bit_take_bit_iff)
  show ?thesis
    by (rule bit_eqI) (use a b in \<open>auto simp: bit_and_iff\<close>)
qed

lemma or_eq_add_dvd:
  fixes a b :: "'a::len word"
  assumes "2 ^ k dvd unat a" and "unat b < 2 ^ k"
  shows "a OR b = a + b"
  by (rule or_eq_add_of_and_zero [OF and_zero_dvd [OF assms]])

section \<open>Bitwise operations on concatenated digits\<close>

text \<open>
  \<open>a + 2 ^ k * x\<close> with \<open>a\<close> below \<open>2 ^ k\<close> is the number with low digit \<open>a\<close>: bitwise
  operations act on the digit and on the rest separately.
\<close>

lemma digit_concat_bit: "0 \<le> a \<Longrightarrow> a < 2 ^ k \<Longrightarrow> a + 2 ^ k * x = concat_bit k a (x :: int)"
  by (simp add: concat_bit_eq take_bit_int_eq_self push_bit_eq_mult mult.commute)

lemma digit_and:
  fixes a c x y :: int
  assumes "0 \<le> a" "a < 2 ^ k" "0 \<le> c" "c < 2 ^ k"
  shows "(a + 2 ^ k * x) AND (c + 2 ^ k * y) = (a AND c) + 2 ^ k * (x AND y)"
proof -
  have "0 \<le> a AND c" using assms by simp
  moreover have "a AND c \<le> a" using assms by (intro AND_upper1)
  then have "a AND c < 2 ^ k" using assms(2) by simp
  ultimately show ?thesis
    using assms by (simp add: digit_concat_bit) (auto intro!: bit_eqI simp: bit_simps)
qed

lemma digit_not:
  fixes a x :: int
  assumes "0 \<le> a" "a < 2 ^ k"
  shows "NOT (a + 2 ^ k * x) = (2 ^ k - 1 - a) + 2 ^ k * NOT x"
  by (simp add: not_int_def algebra_simps)

section \<open>Sizes\<close>

text \<open>\<open>size_t\<close> arithmetic on sizes and offsets kept as nat: the results wrap at \<open>2 ^ 64\<close>.\<close>

definition wrap_size :: "nat \<Rightarrow> nat" where
  "wrap_size n = n mod 2 ^ 64"

definition sub_size :: "nat \<Rightarrow> nat \<Rightarrow> nat" where
  "sub_size a b = wrap_size (a + (2 ^ 64 - b))"

lemma wrap_size_id [simp]: "n < 2 ^ 64 \<Longrightarrow> wrap_size n = n"
  by (simp add: wrap_size_def)

lemma wrap_size_less [simp]: "wrap_size n < 2 ^ 64"
  by (simp add: wrap_size_def)

lemma sub_size_id [simp]: "b \<le> a \<Longrightarrow> a < 2 ^ 64 \<Longrightarrow> sub_size a b = a - b"
proof -
  assume "b \<le> a" "a < 2 ^ 64"
  then have "a + (2 ^ 64 - b) = (a - b) + 2 ^ 64" by simp
  then show ?thesis using \<open>a < 2 ^ 64\<close> unfolding sub_size_def wrap_size_def by (metis less_imp_diff_less mod_add_self2 mod_less)
qed

section \<open>Array accesses\<close>

text \<open>An access outside an array is the result \<open>None\<close>.\<close>

definition at :: "'a list \<Rightarrow> nat \<Rightarrow> 'a option" where
  "at xs i = (if i < length xs then Some (xs ! i) else None)"

definition at_int :: "'a list \<Rightarrow> int \<Rightarrow> 'a option" where
  "at_int xs i = (if 0 \<le> i \<and> i < int (length xs) then Some (xs ! nat i) else None)"

definition put_at :: "'a list \<Rightarrow> nat \<Rightarrow> 'a \<Rightarrow> 'a list option" where
  "put_at xs i x = (if i < length xs then Some (xs[i := x]) else None)"

lemma at_nth [simp]: "i < length xs \<Longrightarrow> at xs i = Some (xs ! i)"
  by (simp add: at_def)

lemma put_at_update [simp]: "i < length xs \<Longrightarrow> put_at xs i x = Some (xs[i := x])"
  by (simp add: put_at_def)

lemma at_int_sub [simp]:
  "i \<le> j \<Longrightarrow> j - i < length xs \<Longrightarrow> at_int xs (int j - int i) = Some (xs ! (j - i))"
  by (simp add: at_int_def nat_diff_distrib' flip: of_nat_diff)

section \<open>Copying into an array\<close>

text \<open>
  \<open>memcpy (dst + pos, src, n)\<close> on arrays as lists: the elements from \<open>pos\<close> on are replaced by those
  of \<open>src\<close>. The models use it only where the copied range lies within \<open>dst\<close>; elsewhere the C
  call is undefined.
\<close>

definition blit :: "nat \<Rightarrow> 'a list \<Rightarrow> 'a list \<Rightarrow> 'a list" where
  "blit pos src dst = take pos dst @ src @ drop (pos + length src) dst"

lemma length_blit [simp]: "pos + length src \<le> length dst \<Longrightarrow> length (blit pos src dst) = length dst"
  by (simp add: blit_def)

lemma blit_nil [simp]: "blit pos [] dst = dst"
  by (simp add: blit_def)

lemma take_blit: "pos \<le> length dst \<Longrightarrow> take (pos + length src) (blit pos src dst) = take pos dst @ src"
  by (simp add: blit_def)

lemma take_blit_0: "take (length src) (blit 0 src dst) = src"
  by (simp add: blit_def)

lemma drop_blit: "pos \<le> length dst \<Longrightarrow> drop (pos + length src) (blit pos src dst) = drop (pos + length src) dst"
  by (simp add: blit_def)

lemma nth_blit:
  "pos + length src \<le> length dst \<Longrightarrow> i < length dst \<Longrightarrow>
   blit pos src dst ! i = (if pos \<le> i \<and> i < pos + length src then src ! (i - pos) else dst ! i)"
  by (auto simp: blit_def nth_append min_def)

lemma last_take_nth: "0 < n \<Longrightarrow> n \<le> length xs \<Longrightarrow> last (take n xs) = xs ! (n - 1)"
proof -
  assume n: "0 < n" "n \<le> length xs"
  then have "take n xs \<noteq> []" by auto
  then show ?thesis using n by (simp add: last_conv_nth min_absorb2)
qed

end
