(* ===== verification/Int_Sqroot.thy ===== *)
theory Int_Sqroot
  imports Prelude
begin

text \<open>
  The integer square root of C-kern/math/int/sqroot.c: the binary high-school algorithm on 32
  bit numbers and its two-phase version on 64 bit numbers. The unrolled \<open>NEXT\<close> macros are
  iterated step functions; the state of a step is the triple \<open>(one, a, r)\<close> of the C locals.
  The lemmas show that a step keeps the loop invariant \<open>root_state\<close>, hence that the result is
  the floor of the square root.
\<close>

section \<open>Model\<close>

text \<open>The macro \<open>NEXT\<close> of \<open>sqroot_int32\<close> and of the first phase of \<open>sqroot_int64\<close>.\<close>

definition sqroot_next32 :: "u32 \<times> u32 \<times> u32 \<Rightarrow> u32 \<times> u32 \<times> u32" where
  "sqroot_next32 st = (case st of (one0, a, r) \<Rightarrow>
     let one1 = drop_bit 2 one0;
         a4_plus_1 = a + one1;
         a1 = drop_bit 1 a
     in if a4_plus_1 \<le> r then (one1, a1 + one1, r - a4_plus_1) else (one1, a1, r))"

definition sqroot_first32 :: "u32 \<Rightarrow> u32 \<times> u32 \<times> u32" where
  "sqroot_first32 number =
     (let one0 = 0x40000000; a = 0; r = number; a4_plus_1 = one0
      in if a4_plus_1 \<le> r then (one0, a + one0, r - a4_plus_1) else (one0, a, r))"

definition sqroot_int32 :: "u32 \<Rightarrow> u16" where
  "sqroot_int32 number =
     (case (sqroot_next32 ^^ 15) (sqroot_first32 number) of (one0, a, r) \<Rightarrow> ucast a)"

text \<open>The 64 bit step works with \<open>|\<close> and \<open>|=\<close> in place of the additions.\<close>

definition sqroot_body64 :: "u32 \<times> u64 \<times> u64 \<Rightarrow> u32 \<times> u64 \<times> u64" where
  "sqroot_body64 st = (case st of (one1, a, r) \<Rightarrow>
     let a4_plus_1 = a OR ucast one1;
         a1 = drop_bit 1 a
     in if a4_plus_1 \<le> r then (one1, a1 OR ucast one1, r - a4_plus_1) else (one1, a1, r))"

definition sqroot_next64 :: "u32 \<times> u64 \<times> u64 \<Rightarrow> u32 \<times> u64 \<times> u64" where
  "sqroot_next64 st = (case st of (one0, a, r) \<Rightarrow> sqroot_body64 (drop_bit 2 one0, a, r))"

definition sqroot_int64 :: "u64 \<Rightarrow> u32" where
  "sqroot_int64 number =
     (if (ucast (drop_bit 32 number) :: u32) = 0
      then ucast (sqroot_int32 (ucast number))
      else (case (sqroot_next32 ^^ 15) (sqroot_first32 (ucast (drop_bit 32 number)))
            of (one2, a2, r2) \<Rightarrow>
              (let a = push_bit 32 (ucast a2);
                   r = push_bit 32 (ucast r2) + ucast (ucast number :: u32)
               in case (sqroot_next64 ^^ 15) (sqroot_body64 (0x40000000, a, r))
                  of (one0, a', r') \<Rightarrow> ucast a')))"

section \<open>The loop invariant\<close>

text \<open>
  After the pair of bits number \<open>j\<close> is processed, \<open>one\<close> is \<open>4 ^ j\<close>, \<open>a\<close> is \<open>s * 4 ^ j\<close>
  for the root \<open>s\<close> of the processed prefix, and \<open>r\<close> is what is left of the number.
\<close>

definition root_state :: "nat \<Rightarrow> nat \<Rightarrow> nat \<times> nat \<times> nat \<Rightarrow> bool" where
  "root_state n j st \<longleftrightarrow> (case st of (one0, a, r) \<Rightarrow>
     one0 = 4 ^ j \<and> (\<exists>s. a = s * 4 ^ j \<and> r + s\<^sup>2 * 4 ^ j = n \<and> n < (s + 1)\<^sup>2 * 4 ^ j))"

definition nat_step :: "nat \<times> nat \<times> nat \<Rightarrow> nat \<times> nat \<times> nat" where
  "nat_step st = (case st of (one0, a, r) \<Rightarrow>
     let one1 = one0 div 4
     in if a + one1 \<le> r then (one1, a div 2 + one1, r - (a + one1)) else (one1, a div 2, r))"

lemma nat_step_root_state:
  assumes "root_state n (Suc j) st"
  shows "root_state n j (nat_step st)"
proof -
  obtain a r s where st: "st = (4 ^ Suc j, a, r)" and a: "a = s * 4 ^ Suc j"
    and r: "r + s\<^sup>2 * 4 ^ Suc j = n" and n: "n < (s + 1)\<^sup>2 * 4 ^ Suc j"
    using assms by (cases st) (auto simp: root_state_def)
  define q u v :: nat where q: "q = 4 ^ j" and u: "u = s * q" and v: "v = s\<^sup>2 * q"
  have one: "(4::nat) ^ Suc j div 4 = q" by (simp add: q)
  have a': "a = 4 * u" by (simp add: a u q)
  have r': "r + 4 * v = n" using r by (simp add: v q)
  have n': "n < 4 * v + 8 * u + 4 * q"
    using n by (simp add: q u v power2_eq_square algebra_simps)
  have even: "(2 * s) * q = 2 * u" "(2 * s)\<^sup>2 * q = 4 * v"
    by (simp_all add: u v power2_eq_square)
  have odd: "(2 * s + 1) * q = 2 * u + q" "(2 * s + 1)\<^sup>2 * q = 4 * v + 4 * u + q"
    "(2 * s + 1 + 1)\<^sup>2 * q = 4 * v + 8 * u + 4 * q"
    by (simp_all add: u v power2_eq_square algebra_simps)
  show ?thesis
  proof (cases "a + q \<le> r")
    case True
    have "nat_step st = (q, (2 * s + 1) * q, r - (a + q))"
      using True unfolding nat_step_def st prod.case one Let_def odd by (simp add: a')
    moreover have "r - (a + q) + (2 * s + 1)\<^sup>2 * q = n"
      using True r' unfolding odd a' by linarith
    moreover have "n < (2 * s + 1 + 1)\<^sup>2 * q"
      using n' unfolding odd .
    ultimately show ?thesis unfolding root_state_def q by auto
  next
    case False
    have "nat_step st = (q, (2 * s) * q, r)"
      using False unfolding nat_step_def st prod.case one Let_def even by (simp add: a')
    moreover have "r + (2 * s)\<^sup>2 * q = n"
      using r' unfolding even by simp
    moreover have "n < (2 * s + 1)\<^sup>2 * q"
      using False r' unfolding odd a' by linarith
    ultimately show ?thesis unfolding root_state_def q by auto
  qed
qed

text \<open>The values of an invariant state stay below the width of the C variables.\<close>

lemma root_state_bound:
  assumes "root_state n j (one0, a, r)" and "n < 4 ^ m" and "j \<le> m"
  shows "a + 4 ^ j \<le> 2 ^ (m + j)"
proof -
  obtain s where a: "a = s * 4 ^ j" and r: "r + s\<^sup>2 * 4 ^ j = n"
    using assms(1) by (auto simp: root_state_def)
  have "s\<^sup>2 * 4 ^ j < 4 ^ (m - j) * 4 ^ j"
    using r assms(2,3) by (simp add: power_add [symmetric])
  then have "s\<^sup>2 < (2 ^ (m - j))\<^sup>2"
    by (simp add: power_mult [symmetric] mult.commute [of "m - j"])
       (simp add: power_mult)
  then have "s < 2 ^ (m - j)" by (rule power_less_imp_less_base) simp
  then have "(s + 1) * 4 ^ j \<le> 2 ^ (m - j) * 4 ^ j" by (intro mult_right_mono) auto
  also have "\<dots> = 2 ^ (m - j) * 2 ^ (2 * j)" by (simp add: power_mult)
  also have "\<dots> = 2 ^ (m + j)" using assms(3) by (simp add: power_add [symmetric])
  finally show ?thesis by (simp add: a algebra_simps)
qed

section \<open>The word steps compute the natural-number step\<close>

definition nat_of_state :: "'a::len word \<times> 'b::len word \<times> 'c::len word \<Rightarrow> nat \<times> nat \<times> nat" where
  "nat_of_state st = (case st of (one0, a, r) \<Rightarrow> (unat one0, unat a, unat r))"

lemma root_state_one: "root_state n j (one0, a, r) \<Longrightarrow> one0 = 4 ^ j"
  by (simp add: root_state_def)

lemma sqroot_next32_nat:
  assumes inv: "root_state n (Suc j) (nat_of_state st)" and n: "n < 4 ^ 16" and j: "Suc j \<le> 15"
  shows "nat_of_state (sqroot_next32 st) = nat_step (nat_of_state st)"
proof -
  obtain one0 a r where st: "st = (one0, a, r)" by (cases st)
  let ?one1 = "drop_bit 2 one0 :: u32"
  have inv': "root_state n (Suc j) (unat one0, unat a, unat r)"
    using inv by (simp add: nat_of_state_def st)
  have "unat a + 4 ^ Suc j \<le> 2 ^ (16 + Suc j)"
    using root_state_bound [OF inv' n] j by simp
  also have "\<dots> \<le> (2::nat) ^ 31" using j by (intro power_increasing) auto
  finally have bound: "unat a + 4 ^ Suc j \<le> 2 ^ 31" .
  have one1: "unat ?one1 = unat one0 div 4" "unat ?one1 = 4 ^ j"
    using root_state_one [OF inv'] by (simp_all add: unat_drop_bit)
  have add: "unat (a + ?one1) = unat a + unat one0 div 4"
    using bound one1 by (subst unat_add_no_wrap) simp_all
  have half: "unat (drop_bit (Suc 0) a) = unat a div 2" by (simp add: unat_drop_bit)
  have add': "unat (drop_bit (Suc 0) a + ?one1) = unat a div 2 + unat one0 div 4"
    using bound one1 by (subst unat_add_no_wrap) (simp_all add: half)
  have sub: "a + ?one1 \<le> r \<Longrightarrow> unat (r - (a + ?one1)) = unat r - (unat a + unat one0 div 4)"
    by (simp add: unat_sub add)
  show ?thesis
    by (simp add: st nat_of_state_def sqroot_next32_def nat_step_def Let_def
        word_le_nat_alt [of "a + ?one1"] add add' half one1(1) sub [unfolded word_le_nat_alt add])
qed

lemma sqroot_body64_nat:
  assumes inv: "root_state n (Suc j) (4 ^ Suc j, unat a, unat r)" and n: "n < 4 ^ 32"
    and j: "Suc j \<le> 16" and one1: "unat one1 = 4 ^ j"
  shows "nat_of_state (sqroot_body64 (one1, a, r)) = nat_step (4 ^ Suc j, unat a, unat r)"
proof -
  let ?o = "ucast one1 :: u64"
  have o: "unat ?o = 4 ^ j" using one1 by (simp add: unat_ucast_up)
  have "unat a + 4 ^ Suc j \<le> 2 ^ (32 + Suc j)"
    using root_state_bound [OF inv n] j by simp
  also have "\<dots> \<le> (2::nat) ^ 48" using j by (intro power_increasing) auto
  finally have bound: "unat a + 4 ^ Suc j \<le> 2 ^ 48" .
  obtain s where s: "unat a = s * 4 ^ Suc j" using inv by (auto simp: root_state_def)
  have pow: "(4::nat) ^ j = 2 ^ (2 * j)" by (simp add: power_mult)
  have half: "unat (drop_bit (Suc 0) a) = unat a div 2" by (simp add: unat_drop_bit)
  have or1: "a OR ?o = a + ?o"
    by (rule or_eq_add_dvd [of "2 * j + 1"]) (simp_all add: s o pow power_add)
  have or2: "drop_bit (Suc 0) a OR ?o = drop_bit (Suc 0) a + ?o"
    by (rule or_eq_add_dvd [of "2 * j + 1"]) (simp_all add: half s o pow power_add)
  have add: "unat (a + ?o) = unat a + 4 ^ j"
    using bound o by (subst unat_add_no_wrap) simp_all
  have add': "unat (drop_bit (Suc 0) a + ?o) = unat a div 2 + 4 ^ j"
    using bound o by (subst unat_add_no_wrap) (simp_all add: half)
  have sub: "a + ?o \<le> r \<Longrightarrow> unat (r - (a + ?o)) = unat r - (unat a + 4 ^ j)"
    by (simp add: unat_sub add)
  show ?thesis
    by (simp add: nat_of_state_def sqroot_body64_def nat_step_def Let_def or1 or2 one1
        word_le_nat_alt [of "a + ?o"] add add' half sub [unfolded word_le_nat_alt add])
qed

lemma sqroot_next32_iterate:
  assumes "root_state n 15 (nat_of_state st)" and "n < 4 ^ 16" and "k \<le> 15"
  shows "root_state n (15 - k) (nat_of_state ((sqroot_next32 ^^ k) st))"
  using assms(3)
proof (induction k)
  case 0
  then show ?case using assms(1) by simp
next
  case (Suc k)
  let ?st = "(sqroot_next32 ^^ k) st"
  have suc: "15 - k = Suc (15 - Suc k)" using Suc.prems by simp
  have "root_state n (Suc (15 - Suc k)) (nat_of_state ?st)"
    using Suc suc by (metis Suc_leD)
  then have "nat_of_state (sqroot_next32 ?st) = nat_step (nat_of_state ?st)"
    and "root_state n (15 - Suc k) (nat_step (nat_of_state ?st))"
    using assms(2) by (auto intro!: sqroot_next32_nat nat_step_root_state)
  then show ?case by simp
qed

lemma sqroot_first32_root_state:
  "root_state (unat number) 15 (nat_of_state (sqroot_first32 number))"
proof -
  have n: "unat number < 4 * 4 ^ 15" using unat_u32_bound [of number] by simp
  show ?thesis
  proof (cases "(0x40000000 :: u32) \<le> number")
    case True
    then have "4 ^ 15 \<le> unat number" by (simp add: word_le_nat_alt)
    with True n show ?thesis
      by (auto simp: root_state_def nat_of_state_def sqroot_first32_def unat_sub
          power2_eq_square intro!: exI [of _ 1])
  next
    case False
    then have "unat number < 4 ^ 15" by (simp add: word_le_nat_alt)
    with False show ?thesis
      by (auto simp: root_state_def nat_of_state_def sqroot_first32_def intro!: exI [of _ 0])
  qed
qed

lemma sqroot_phase32:
  obtains a r where "(sqroot_next32 ^^ 15) (sqroot_first32 number) = (1, a, r)"
    and "unat r + (unat a)\<^sup>2 = unat number" and "unat number < (unat a + 1)\<^sup>2"
    and "unat a < 2 ^ 16"
proof -
  let ?st = "(sqroot_next32 ^^ 15) (sqroot_first32 number)"
  have n: "unat number < 4 ^ 16" using unat_u32_bound [of number] by simp
  have "root_state (unat number) (15 - 15) (nat_of_state ?st)"
    using sqroot_first32_root_state n by (intro sqroot_next32_iterate) auto
  moreover obtain one0 a r where st: "?st = (one0, a, r)" by (cases ?st)
  ultimately have inv: "root_state (unat number) 0 (unat one0, unat a, unat r)"
    by (simp add: nat_of_state_def)
  have "unat a + 4 ^ 0 \<le> 2 ^ (16 + 0)" using root_state_bound [OF inv n] by simp
  moreover have "one0 = 1" using root_state_one [OF inv] by (simp add: word_unat_eq_iff)
  ultimately show ?thesis using inv st by (intro that [of a r]) (auto simp: root_state_def)
qed

section \<open>Correctness\<close>

text \<open>\<open>sqroot_int32\<close> returns the floor of the square root of every 32 bit number.\<close>

theorem sqroot_int32_floor:
  "(unat (sqroot_int32 number))\<^sup>2 \<le> unat number \<and>
   unat number < (unat (sqroot_int32 number) + 1)\<^sup>2"
proof -
  obtain a r where "(sqroot_next32 ^^ 15) (sqroot_first32 number) = (1, a, r)"
    and "unat r + (unat a)\<^sup>2 = unat number" and "unat number < (unat a + 1)\<^sup>2"
    and "unat a < 2 ^ 16"
    by (rule sqroot_phase32)
  then show ?thesis by (simp add: sqroot_int32_def unat_ucast_down)
qed

lemma sqroot_next64_iterate:
  assumes "root_state n 15 (nat_of_state st)" and "n < 4 ^ 32" and "k \<le> 15"
  shows "root_state n (15 - k) (nat_of_state ((sqroot_next64 ^^ k) st))"
  using assms(3)
proof (induction k)
  case 0
  then show ?case using assms(1) by simp
next
  case (Suc k)
  let ?st = "(sqroot_next64 ^^ k) st"
  obtain one0 a r where st: "?st = (one0, a, r)" by (cases ?st)
  have suc: "15 - k = Suc (15 - Suc k)" using Suc.prems by simp
  have "root_state n (Suc (15 - Suc k)) (nat_of_state ?st)"
    using Suc suc by (metis Suc_leD)
  then have inv: "root_state n (Suc (15 - Suc k)) (unat one0, unat a, unat r)"
    by (simp add: st nat_of_state_def)
  note one0 = root_state_one [OF inv]
  have "nat_of_state (sqroot_body64 (drop_bit 2 one0, a, r))
    = nat_step (4 ^ Suc (15 - Suc k), unat a, unat r)"
    using inv one0 assms(2) by (intro sqroot_body64_nat) (auto simp: unat_drop_bit)
  moreover have "root_state n (15 - Suc k) (nat_step (4 ^ Suc (15 - Suc k), unat a, unat r))"
    using inv one0 by (intro nat_step_root_state) simp
  moreover have "(sqroot_next64 ^^ Suc k) st = sqroot_body64 (drop_bit 2 one0, a, r)"
    using st by (simp add: sqroot_next64_def [of "(one0, a, r)"])
  ultimately show ?case by simp
qed

lemma unat_split32: "unat (number :: u64)
  = unat (ucast (drop_bit 32 number) :: u32) * 2 ^ 32 + unat (ucast number :: u32)"
proof -
  have "unat number div 2 ^ 32 < 2 ^ 32"
    using unat_u64_bound [of number] by (simp add: less_mult_imp_div_less)
  then show ?thesis
    by (simp add: unat_ucast_mod unat_drop_bit)
qed

text \<open>\<open>sqroot_int64\<close> returns the floor of the square root of every 64 bit number.\<close>

theorem sqroot_int64_floor:
  "(unat (sqroot_int64 number))\<^sup>2 \<le> unat number \<and>
   unat number < (unat (sqroot_int64 number) + 1)\<^sup>2"
proof (cases "(ucast (drop_bit 32 number) :: u32) = 0")
  case True
  then have "unat number = unat (ucast number :: u32)"
    using unat_split32 [of number] by simp
  moreover have "unat (sqroot_int64 number) = unat (sqroot_int32 (ucast number))"
    using True by (simp add: sqroot_int64_def unat_ucast_up)
  ultimately show ?thesis using sqroot_int32_floor [of "ucast number"] by simp
next
  case False
  let ?hi = "ucast (drop_bit 32 number) :: u32" and ?lo = "ucast number :: u32"
  obtain a2 r2 where ph: "(sqroot_next32 ^^ 15) (sqroot_first32 ?hi) = (1, a2, r2)"
    and r2: "unat r2 + (unat a2)\<^sup>2 = unat ?hi" and hi: "unat ?hi < (unat a2 + 1)\<^sup>2"
    and a2: "unat a2 < 2 ^ 16"
    by (rule sqroot_phase32)
  define a where "a = push_bit 32 (ucast a2 :: u64)"
  define r where "r = push_bit 32 (ucast r2 :: u64) + ucast ?lo"
  have lo: "unat ?lo < 2 ^ 32" by (rule unat_u32_bound)
  have ua: "unat a = unat a2 * 4 ^ 16"
    using a2 by (simp add: a_def unat_push_bit_no_wrap unat_ucast_up)
  have "unat r2 < 2 ^ 32" by (rule unat_u32_bound)
  then have ur: "unat r = unat r2 * 4 ^ 16 + unat ?lo"
    using lo unfolding r_def
    by (subst unat_add_no_wrap) (simp_all add: unat_push_bit_no_wrap unat_ucast_up)
  have n: "unat number = unat ?hi * 4 ^ 16 + unat ?lo"
    using unat_split32 [of number] by simp
  have inv: "root_state (unat number) (Suc 15) (4 ^ Suc 15, unat a, unat r)"
  proof -
    have "unat r + (unat a2)\<^sup>2 * 4 ^ 16 = unat number"
      by (simp add: ur n r2 [symmetric] algebra_simps)
    moreover have "unat number < (unat a2 + 1)\<^sup>2 * 4 ^ 16"
      using hi lo n by simp
    ultimately show ?thesis by (auto simp: root_state_def ua intro!: exI [of _ "unat a2"])
  qed
  have bound: "unat number < 4 ^ 32" using unat_u64_bound [of number] by simp
  have "root_state (unat number) 15 (nat_of_state (sqroot_body64 (0x40000000, a, r)))"
    using nat_step_root_state [OF inv] sqroot_body64_nat [OF inv bound, of "0x40000000"] by simp
  then have "root_state (unat number) (15 - 15)
      (nat_of_state ((sqroot_next64 ^^ 15) (sqroot_body64 (0x40000000, a, r))))"
    using bound by (intro sqroot_next64_iterate) auto
  moreover obtain one0 a' r' where
    st: "(sqroot_next64 ^^ 15) (sqroot_body64 (0x40000000, a, r)) = (one0, a', r')"
    by (cases "(sqroot_next64 ^^ 15) (sqroot_body64 (0x40000000, a, r))")
  ultimately have fin: "root_state (unat number) 0 (unat one0, unat a', unat r')"
    by (simp add: nat_of_state_def)
  then have res: "unat r' + (unat a')\<^sup>2 = unat number" "unat number < (unat a' + 1)\<^sup>2"
    by (auto simp: root_state_def)
  have "unat a' < 2 ^ 32" using root_state_bound [OF fin bound] by simp
  moreover have "sqroot_int64 number = ucast a'"
    using False ph st by (simp add: sqroot_int64_def Let_def a_def r_def)
  ultimately show ?thesis using res by (simp add: unat_ucast_down)
qed

text \<open>C39: \<open>sqroot_int32\<close> and \<open>sqroot_int64\<close> return the floor of the square root of every number of
  their width.\<close>

theorem sqroot_int_floor:
  "(unat (sqroot_int32 n))\<^sup>2 \<le> unat n \<and> unat n < (unat (sqroot_int32 n) + 1)\<^sup>2 \<and>
   (unat (sqroot_int64 m))\<^sup>2 \<le> unat m \<and> unat m < (unat (sqroot_int64 m) + 1)\<^sup>2"
  using sqroot_int32_floor sqroot_int64_floor by simp

end
