(* ===== verification/Int_Bits.thy ===== *)
theory Int_Bits
  imports Prelude
begin

text \<open>
  The bit-level integer helpers of C-kern/api/math/int: \<open>log2_int\<close>, the power-of-two macros,
  absolute value and sign, bit reversal, the zero-byte finder and the Galois shift register.
  The macros are generic over the C integer types; they are functions on \<open>'a word\<close> here, or
  one function per width where the macro selects by \<open>sizeof\<close>.
\<close>

section \<open>Count leading zeros and log2\<close>

text \<open>
  The compiler builtins \<open>__builtin_clz\<close> and \<open>__builtin_clzl\<close>: the number of zero bits above
  the highest set bit. \<open>clz_from n\<close> looks at the bits below position \<open>n\<close>.
\<close>

primrec clz_from :: "nat \<Rightarrow> 'a::len word \<Rightarrow> nat" where
  "clz_from 0 w = 0"
| "clz_from (Suc n) w = (if bit w n then 0 else Suc (clz_from n w))"

definition builtin_clz :: "'a::len word \<Rightarrow> nat" where
  "builtin_clz w = clz_from LENGTH('a) w"

text \<open>The branch of \<open>log2_int\<close> for operands of at most 32 bits, and the one for 64 bits.\<close>

definition log2_int32 :: "u32 \<Rightarrow> u8" where
  "log2_int32 i = of_nat (of_bool (i \<noteq> 0) * (31 XOR builtin_clz i))"

definition log2_int64 :: "u64 \<Rightarrow> u8" where
  "log2_int64 i = of_nat (of_bool (i \<noteq> 0) * (63 XOR builtin_clz i))"

lemma clz_from_bounds:
  assumes "unat (w :: 'a::len word) < 2 ^ n" and "w \<noteq> 0" and "n \<le> LENGTH('a)"
  shows "clz_from n w < n \<and> 2 ^ (n - 1 - clz_from n w) \<le> unat w \<and> unat w < 2 ^ (n - clz_from n w)"
  using assms
proof (induction n)
  case 0
  then show ?case by (simp add: unat_gt_0 [symmetric])
next
  case (Suc n)
  have bit: "bit w n \<longleftrightarrow> odd (unat w div 2 ^ n)"
    by (metis bit_iff_odd bit_unsigned_iff possible_bit_nat)
  show ?case
  proof (cases "bit w n")
    case True
    then have "unat w div 2 ^ n \<noteq> 0" using bit by (metis even_zero)
    then have "2 ^ n \<le> unat w" by (simp add: div_eq_0_iff not_less)
    with True Suc.prems show ?thesis by simp
  next
    case False
    have "unat w div 2 ^ n < 2" using Suc.prems(1) by (simp add: less_mult_imp_div_less)
    with False bit have "unat w div 2 ^ n = 0" by (auto simp: less_2_cases_iff)
    then have "unat w < 2 ^ n" by (simp add: div_eq_0_iff)
    with Suc False show ?thesis by auto
  qed
qed

lemma xor_31: "k < 32 \<Longrightarrow> 31 XOR k = 31 - (k :: nat)"
proof -
  have "\<forall>k\<in>set [0..<32]. 31 XOR k = 31 - (k :: nat)" by code_simp
  then show "k < 32 \<Longrightarrow> ?thesis" by simp
qed

lemma xor_63: "k < 64 \<Longrightarrow> 63 XOR k = 63 - (k :: nat)"
proof -
  have "\<forall>k\<in>set [0..<64]. 63 XOR k = 63 - (k :: nat)" by code_simp
  then show "k < 64 \<Longrightarrow> ?thesis" by simp
qed

lemma builtin_clz_bounds:
  assumes "(w :: 'a::len word) \<noteq> 0"
  shows "builtin_clz w < LENGTH('a)"
    and "2 ^ (LENGTH('a) - 1 - builtin_clz w) \<le> unat w"
    and "unat w < 2 ^ (LENGTH('a) - builtin_clz w)"
  using clz_from_bounds [of w "LENGTH('a)"] assms unat_lt_pow [of w]
  by (auto simp: builtin_clz_def)

lemma unat_log2_int32: "i \<noteq> 0 \<Longrightarrow> unat (log2_int32 i) = 31 - builtin_clz i"
  using builtin_clz_bounds(1) [of i]
  by (simp add: log2_int32_def xor_31 unat_of_nat take_bit_eq_mod del: of_nat_diff)

lemma unat_log2_int64: "i \<noteq> 0 \<Longrightarrow> unat (log2_int64 i) = 63 - builtin_clz i"
  using builtin_clz_bounds(1) [of i]
  by (simp add: log2_int64_def xor_63 unat_of_nat take_bit_eq_mod del: of_nat_diff)

lemma log2_int32_0 [simp]: "log2_int32 0 = 0"
  by (simp add: log2_int32_def)

lemma log2_int64_0 [simp]: "log2_int64 0 = 0"
  by (simp add: log2_int64_def)

lemma log2_int32_bounds:
  assumes "i \<noteq> 0"
  shows "2 ^ unat (log2_int32 i) \<le> unat i" and "unat i < 2 ^ (unat (log2_int32 i) + 1)"
    and "unat (log2_int32 i) < 32"
proof -
  have "2 ^ (32 - builtin_clz i) = (2::nat) ^ (31 - builtin_clz i + 1)"
    using builtin_clz_bounds(1) [OF assms] by (intro arg_cong [of _ _ "power 2"]) simp
  then show "2 ^ unat (log2_int32 i) \<le> unat i" "unat i < 2 ^ (unat (log2_int32 i) + 1)"
    "unat (log2_int32 i) < 32"
    using builtin_clz_bounds [OF assms] by (simp_all add: unat_log2_int32 assms)
qed

lemma log2_int64_bounds:
  assumes "i \<noteq> 0"
  shows "2 ^ unat (log2_int64 i) \<le> unat i" and "unat i < 2 ^ (unat (log2_int64 i) + 1)"
    and "unat (log2_int64 i) < 64"
proof -
  have "2 ^ (64 - builtin_clz i) = (2::nat) ^ (63 - builtin_clz i + 1)"
    using builtin_clz_bounds(1) [OF assms] by (intro arg_cong [of _ _ "power 2"]) simp
  then show "2 ^ unat (log2_int64 i) \<le> unat i" "unat i < 2 ^ (unat (log2_int64 i) + 1)"
    "unat (log2_int64 i) < 64"
    using builtin_clz_bounds [OF assms] by (simp_all add: unat_log2_int64 assms)
qed

section \<open>Powers of two\<close>

definition alignpower2_int :: "'a::len word \<Rightarrow> 'a word \<Rightarrow> 'a word" where
  "alignpower2_int i size' = (let m = size' - 1 in (i + m) AND NOT m)"

definition ispowerof2_int :: "'a::len word \<Rightarrow> bool" where
  "ispowerof2_int i \<longleftrightarrow> (i - 1) AND i = 0"

text \<open>
  \<open>makepowerof2_int\<close> for an operand type of width 32 (\<open>unsigned\<close>, \<open>__builtin_clz\<close>) or 64
  (\<open>unsigned long\<close>, \<open>__builtin_clzl\<close>): the shifted constant has the width of the operand.
\<close>

definition makepowerof2_int :: "'a::len word \<Rightarrow> 'a word" where
  "makepowerof2_int i =
     (if \<not> ispowerof2_int i \<and> i < push_bit 1 i
      then (let i1 = push_bit 1 i in drop_bit (builtin_clz i1) (push_bit (LENGTH('a) - 1) 1))
      else i)"

lemma push_bit_1_less_iff:
  "i < push_bit 1 i \<longleftrightarrow> 0 < unat i \<and> unat (i :: 'a::len word) < 2 ^ (LENGTH('a) - 1)"
proof -
  let ?h = "2 ^ (LENGTH('a) - 1) :: nat"
  have two: "2 ^ LENGTH('a) = 2 * ?h"
    using len_gt_0 [where 'a = 'a] by (cases "LENGTH('a)") simp_all
  have i: "unat i < 2 * ?h" using unat_lt_pow [of i] two by simp
  have p: "unat (push_bit 1 i) = 2 * unat i mod (2 * ?h)"
    using unat_push_bit_mod [of 1 i] two by (simp add: mult.commute)
  show ?thesis
  proof (cases "unat i < ?h")
    case True
    then show ?thesis using p by (simp add: word_less_nat_alt)
  next
    case False
    then have "2 * unat i mod (2 * ?h) = 2 * unat i - 2 * ?h"
      using i by (simp add: mod_if)
    then show ?thesis using False i p by (simp add: word_less_nat_alt)
  qed
qed

lemma highest_bit:
  assumes "(i :: 'a::len word) \<noteq> 0"
  obtains k where "k < LENGTH('a)" "2 ^ k \<le> unat i" "unat i < 2 ^ (k + 1)"
    "k = LENGTH('a) - 1 - builtin_clz i"
proof (rule that [of "LENGTH('a) - 1 - builtin_clz i"])
  have "LENGTH('a) - builtin_clz i = (LENGTH('a) - 1 - builtin_clz i) + 1"
    using builtin_clz_bounds(1) [OF assms] by simp
  then show "unat i < 2 ^ (LENGTH('a) - 1 - builtin_clz i + 1)"
    using builtin_clz_bounds(3) [OF assms] by simp
qed (use builtin_clz_bounds [OF assms] in simp_all)

lemma ispowerof2_int_iff:
  "ispowerof2_int i \<longleftrightarrow> i = 0 \<or> (\<exists>k. unat (i :: 'a::len word) = 2 ^ k)"
proof (cases "i = 0")
  case True
  then show ?thesis by (simp add: ispowerof2_int_def)
next
  case False
  then obtain k where k: "k < LENGTH('a)" "2 ^ k \<le> unat i" "unat i < 2 ^ (k + 1)"
    by (rule highest_bit)
  have dec: "unat (i - 1) = unat i - 1" using False by (simp add: unat_minus_one)
  have top: "bit w k" if "2 ^ k \<le> unat w" "unat w < 2 ^ (k + 1)" for w :: "'a word"
  proof -
    have "unat w div 2 ^ k = 1"
      using that by (intro div_nat_eqI) (simp_all add: algebra_simps)
    then show ?thesis by (metis bit_iff_odd bit_unsigned_iff odd_one)
  qed
  show ?thesis
  proof
    assume zero: "ispowerof2_int i"
    have "\<not> 2 ^ k < unat i"
    proof
      assume "2 ^ k < unat i"
      then have "bit (i - 1) k" "bit i k" using k dec by (auto intro!: top)
      then have "bit ((i - 1) AND i) k" by (simp add: bit_and_iff)
      with zero show False by (simp add: ispowerof2_int_def)
    qed
    then show "i = 0 \<or> (\<exists>k. unat i = 2 ^ k)" using k by (metis le_neq_implies_less)
  next
    assume "i = 0 \<or> (\<exists>k. unat i = 2 ^ k)"
    with False obtain m where "unat i = 2 ^ m" by auto
    then have "i AND (i - 1) = 0" using dec by (intro and_zero_dvd [of m]) auto
    then show "ispowerof2_int i" by (simp add: ispowerof2_int_def and.commute)
  qed
qed

lemma makepowerof2_int_rounds:
  assumes "(i :: 'a::len word) \<noteq> 0" and "unat i \<le> 2 ^ (LENGTH('a) - 1)"
  shows "\<exists>k. unat (makepowerof2_int i) = 2 ^ k \<and> unat i \<le> 2 ^ k \<and> 2 ^ k < 2 * unat i"
proof (cases "ispowerof2_int i")
  case True
  then show ?thesis using assms by (auto simp: makepowerof2_int_def ispowerof2_int_iff)
next
  case False
  let ?i1 = "push_bit 1 i"
  have "unat i \<noteq> 2 ^ (LENGTH('a) - 1)" using False by (auto simp: ispowerof2_int_iff)
  then have less: "unat i < 2 ^ (LENGTH('a) - 1)" using assms(2) by simp
  have pos: "0 < unat i" using assms(1) by (simp add: unat_gt_0)
  have two: "2 ^ LENGTH('a) = 2 * (2 ^ (LENGTH('a) - 1) :: nat)"
    using len_gt_0 [where 'a = 'a] by (cases "LENGTH('a)") simp_all
  have i1: "unat ?i1 = 2 * unat i"
    using less two by (subst unat_push_bit_no_wrap) simp_all
  then have "?i1 \<noteq> 0" using pos by (metis unat_0 mult_is_0 not_gr0 zero_neq_numeral)
  then obtain k where k: "k < LENGTH('a)" "2 ^ k \<le> unat ?i1" "unat ?i1 < 2 ^ (k + 1)"
    "k = LENGTH('a) - 1 - builtin_clz ?i1"
    by (rule highest_bit)
  have c: "builtin_clz ?i1 \<le> LENGTH('a) - 1"
    using builtin_clz_bounds(1) [OF \<open>?i1 \<noteq> 0\<close>] by simp
  have high: "unat (push_bit (LENGTH('a) - 1) (1 :: 'a word)) = 2 ^ (LENGTH('a) - 1)"
    using two by (subst unat_push_bit_no_wrap) simp_all
  have "makepowerof2_int i = drop_bit (builtin_clz ?i1) (push_bit (LENGTH('a) - 1) 1)"
    using False push_bit_1_less_iff [of i] less pos unfolding makepowerof2_int_def Let_def by simp
  then have "unat (makepowerof2_int i) = 2 ^ (LENGTH('a) - 1) div 2 ^ builtin_clz ?i1"
    by (simp only: unat_drop_bit high)
  also have "2 ^ (LENGTH('a) - 1) = 2 ^ k * (2 :: nat) ^ builtin_clz ?i1"
    unfolding k(4) power_add [symmetric] using c by simp
  also have "2 ^ k * 2 ^ builtin_clz ?i1 div (2 :: nat) ^ builtin_clz ?i1 = 2 ^ k"
    by (rule nonzero_mult_div_cancel_right) simp
  finally have "unat (makepowerof2_int i) = 2 ^ k" .
  moreover have "unat i \<le> 2 ^ k" using k i1 by simp
  moreover have "2 ^ k < 2 * unat i"
  proof -
    have "unat i \<noteq> 2 ^ (k - 1)" using False by (auto simp: ispowerof2_int_iff)
    then have "2 ^ k \<noteq> 2 * unat i" by (cases k) auto
    then show ?thesis using k(2) i1 by simp
  qed
  ultimately show ?thesis by blast
qed

lemma makepowerof2_int_unrepresentable:
  "2 ^ (LENGTH('a) - 1) < unat (i :: 'a::len word) \<Longrightarrow> makepowerof2_int i = i"
  using push_bit_1_less_iff [of i] by (simp add: makepowerof2_int_def)

section \<open>Absolute value and sign\<close>

text \<open>The signed operands are given by the value of their C type, an \<open>int\<close> in its range.\<close>

definition abs_int32 :: "32 word \<Rightarrow> u32" where
  "abs_int32 i = (if sint i < 0 then - i else i)"

definition abs_int64 :: "64 word \<Rightarrow> u64" where
  "abs_int64 i = (if sint i < 0 then - i else i)"

definition sign_int :: "int \<Rightarrow> int" where
  "sign_int i = of_bool (i > 0) - of_bool (i < 0)"

lemma sign_int_sgn: "sign_int i = sgn i"
  by (simp add: sign_int_def sgn_if)

section \<open>Bit reversal\<close>

text \<open>One turn of the loop of \<open>reversebits_int\<close> on the pair \<open>(_i, _ri)\<close>.\<close>

definition reversebits_body :: "'a::len word \<times> 'a word \<Rightarrow> 'a word \<times> 'a word" where
  "reversebits_body st = (case st of (i, ri) \<Rightarrow> (drop_bit 1 i, push_bit 1 ri OR (i AND 1)))"

definition reversebits_int :: "'a::len word \<Rightarrow> 'a word" where
  "reversebits_int i = snd ((reversebits_body ^^ LENGTH('a)) (i, 0))"

section \<open>Zero bytes\<close>

text \<open>The search loop: the byte counter \<open>s\<close> starts at 0 and the last byte needs no test.\<close>

primrec findzero_loop :: "nat \<Rightarrow> nat \<Rightarrow> 'a::len word \<Rightarrow> nat" where
  "findzero_loop 0 s val = s + 1"
| "findzero_loop (Suc n) s val =
     (if val AND 0xff \<noteq> 0 then 1 + s else findzero_loop n (s + 1) (drop_bit 8 val))"

definition findzerobyte_int32 :: "u32 \<Rightarrow> nat" where
  "findzerobyte_int32 val0 =
     (let val = NOT val0 AND (val0 - 0x01010101) AND 0x80808080
      in if val = 0 then 0 else findzero_loop 3 0 val)"

definition findzerobyte_int64 :: "u64 \<Rightarrow> nat" where
  "findzerobyte_int64 val0 =
     (let val = NOT val0 AND (val0 - 0x0101010101010101) AND 0x8080808080808080
      in if val = 0 then 0 else findzero_loop 7 0 val)"

section \<open>The shift register\<close>

record lfsr_t =
  state_lfsr :: u64
  tapbits_lfsr :: u64

definition init_lfsr :: "u64 \<Rightarrow> u64 \<Rightarrow> lfsr_t" where
  "init_lfsr st taps = \<lparr>state_lfsr = st, tapbits_lfsr = taps\<rparr>"

definition reset_lfsr :: "lfsr_t \<Rightarrow> u64 \<Rightarrow> lfsr_t" where
  "reset_lfsr lfsr st = lfsr\<lparr>state_lfsr := st\<rparr>"

definition next_lfsr :: "lfsr_t \<Rightarrow> u64 \<times> lfsr_t" where
  "next_lfsr lfsr =
     (let st0 = state_lfsr lfsr;
          bit0 = (st0 AND 1 \<noteq> 0);
          st1 = drop_bit 1 st0;
          st2 = (if bit0 then st1 XOR tapbits_lfsr lfsr else st1)
      in (st2, lfsr\<lparr>state_lfsr := st2\<rparr>))"

section \<open>Alignment\<close>

lemma and_not_mask: "x AND NOT (mask k) = push_bit k (drop_bit k (x :: 'a::len word))"
  by (rule bit_word_eqI) (auto simp: bit_simps)

lemma alignpower2_int_aligns:
  assumes size: "unat size' = 2 ^ k" and no_wrap: "unat i + 2 ^ k \<le> 2 ^ LENGTH('a)"
  shows "2 ^ k dvd unat (alignpower2_int (i :: 'a::len word) size') \<and>
         unat i \<le> unat (alignpower2_int i size') \<and>
         unat (alignpower2_int i size') < unat i + 2 ^ k"
proof -
  have k: "k < LENGTH('a)"
    using size unat_lt_pow [of size'] by (metis nat_power_less_imp_less zero_less_numeral)
  have "size' = 2 ^ k"
    using size unat_push_bit_no_wrap [of "1 :: 'a word" k] k
    by (simp add: word_unat_eq_iff)
  then have m: "size' - 1 = mask k" by (simp add: mask_eq_exp_minus_1)
  have "unat (mask k :: 'a word) = 2 ^ k - 1"
    using k size m by (metis unat_minus_one power_eq_0_iff unat_0 zero_neq_numeral)
  moreover have one_le: "(1::nat) \<le> 2 ^ k" by simp
  ultimately have sum: "unat (i + mask k) = unat i + (2 ^ k - 1)"
    using no_wrap one_le by (subst unat_add_no_wrap) linarith+
  let ?q = "(unat i + (2 ^ k - 1)) div 2 ^ k"
  have "unat (alignpower2_int i size') = unat (push_bit k (drop_bit k (i + mask k)))"
    by (simp add: alignpower2_int_def m and_not_mask)
  also have "\<dots> = ?q * 2 ^ k"
  proof -
    have "?q * 2 ^ k \<le> unat (i + mask k)" by (simp add: sum)
    then have "?q * 2 ^ k < 2 ^ LENGTH('a)"
      using unat_lt_pow [of "i + mask k"] by (rule le_less_trans)
    then show ?thesis
      by (subst unat_push_bit_no_wrap) (simp_all only: unat_drop_bit sum)
  qed
  finally have res: "unat (alignpower2_int i size') = ?q * 2 ^ k" .
  have "?q * 2 ^ k + (unat i + (2 ^ k - 1)) mod 2 ^ k = unat i + (2 ^ k - 1)"
    by (rule div_mult_mod_eq)
  moreover have "(unat i + (2 ^ k - 1)) mod 2 ^ k < 2 ^ k" by simp
  ultimately have "unat i \<le> ?q * 2 ^ k" "?q * 2 ^ k < unat i + 2 ^ k"
    using one_le by linarith+
  then show ?thesis by (simp add: res)
qed

section \<open>Absolute value\<close>

lemma abs_int32_abs: "uint (abs_int32 i) = \<bar>sint i\<bar>"
proof -
  have lo: "- (2 ^ 31) \<le> sint i" and hi: "sint i < 2 ^ 31"
    using sint_ge [of i] sint_lt [of i] by simp_all
  have neg: "uint (- i) = (- sint i) mod 2 ^ 32"
    using uint_word_of_int [of "- sint i", where 'a = 32] by simp
  have pos: "uint i = sint i mod 2 ^ 32"
    using uint_sint [of i] by (simp add: take_bit_eq_mod)
  show ?thesis
    using lo hi neg pos by (cases "sint i < 0") (simp_all add: abs_int32_def)
qed

lemma abs_int64_abs: "uint (abs_int64 i) = \<bar>sint i\<bar>"
proof -
  have lo: "- (2 ^ 63) \<le> sint i" and hi: "sint i < 2 ^ 63"
    using sint_ge [of i] sint_lt [of i] by simp_all
  have neg: "uint (- i) = (- sint i) mod 2 ^ 64"
    using uint_word_of_int [of "- sint i", where 'a = 64] by simp
  have pos: "uint i = sint i mod 2 ^ 64"
    using uint_sint [of i] by (simp add: take_bit_eq_mod)
  show ?thesis
    using lo hi neg pos by (cases "sint i < 0") (simp_all add: abs_int64_def)
qed

section \<open>Reversal is the reversed bit order\<close>

lemma reversebits_iterate:
  assumes "k \<le> LENGTH('a)"
  shows "\<exists>ri. (reversebits_body ^^ k) (i, 0) = (drop_bit k (i :: 'a::len word), ri) \<and>
    (\<forall>n < LENGTH('a). bit ri n \<longleftrightarrow> n < k \<and> bit i (k - 1 - n))"
  using assms
proof (induction k)
  case 0
  then show ?case by simp
next
  case (Suc k)
  then obtain ri where IH: "(reversebits_body ^^ k) (i, 0) = (drop_bit k i, ri)"
    and ri: "\<forall>n < LENGTH('a). bit ri n \<longleftrightarrow> n < k \<and> bit i (k - 1 - n)"
    by auto
  let ?ri = "push_bit 1 ri OR (drop_bit k i AND 1)"
  have "(reversebits_body ^^ Suc k) (i, 0) = (drop_bit (Suc k) i, ?ri)"
    by (simp add: IH reversebits_body_def drop_bit_drop_bit)
  moreover have "bit ?ri n \<longleftrightarrow> n < Suc k \<and> bit i (Suc k - 1 - n)" if n: "n < LENGTH('a)" for n
  proof (cases n)
    case 0
    then show ?thesis
      unfolding bit_or_iff bit_and_iff bit_push_bit_iff bit_drop_bit_eq by (simp add: bit_simps)
  next
    case (Suc m)
    then show ?thesis
      using n ri unfolding bit_or_iff bit_and_iff bit_push_bit_iff bit_drop_bit_eq
      by (simp add: bit_simps possible_bit_def)
  qed
  ultimately show ?case by blast
qed

lemma reversebits_int_bit:
  "n < LENGTH('a) \<Longrightarrow> bit (reversebits_int (i :: 'a::len word)) n \<longleftrightarrow> bit i (LENGTH('a) - 1 - n)"
  using reversebits_iterate [of "LENGTH('a)" i] by (auto simp: reversebits_int_def)

lemma reversebits_int_eq_word_reverse: "reversebits_int i = word_reverse (i :: 'a::len word)"
  by (rule bit_word_eqI) (simp add: reversebits_int_bit bit_word_reverse_iff)

section \<open>The lowest zero byte\<close>

text \<open>
  The flag word on integers, for \<open>n\<close> bytes: \<open>ones n\<close> is \<open>0x0101\<dots>01\<close>. The low byte splits
  off while it is not zero, since then no borrow leaves it.
\<close>

primrec ones_bytes :: "nat \<Rightarrow> int" where
  "ones_bytes 0 = 0"
| "ones_bytes (Suc n) = 1 + 256 * ones_bytes n"

definition zero_flags :: "nat \<Rightarrow> int \<Rightarrow> int" where
  "zero_flags n v = NOT v AND (v - ones_bytes n) AND (128 * ones_bytes n)"

definition byte_of :: "int \<Rightarrow> nat \<Rightarrow> int" where
  "byte_of v k = v div 256 ^ k mod 256"

primrec flag_loop :: "nat \<Rightarrow> nat \<Rightarrow> int \<Rightarrow> nat" where
  "flag_loop 0 s val = s + 1"
| "flag_loop (Suc n) s val = (if val mod 256 \<noteq> 0 then 1 + s else flag_loop n (s + 1) (val div 256))"

lemma byte_flag_nonzero: "1 \<le> b \<Longrightarrow> b < 256 \<Longrightarrow> (255 - b) AND (b - 1) AND 128 = (0 :: int)"
proof -
  have "\<forall>b\<in>set [1..<256]. (255 - int b) AND (int b - 1) AND 128 = 0" by code_simp
  then have "nat b \<in> set [1..<256] \<Longrightarrow> (255 - int (nat b)) AND (int (nat b) - 1) AND 128 = 0"
    by blast
  then show "1 \<le> b \<Longrightarrow> b < 256 \<Longrightarrow> ?thesis" by (simp add: nat_le_iff le_nat_iff)
qed

lemma byte_and:
  "0 \<le> a \<Longrightarrow> a < 256 \<Longrightarrow> 0 \<le> c \<Longrightarrow> c < 256 \<Longrightarrow>
   (a + 256 * x) AND (c + 256 * y) = (a AND c) + 256 * (x AND (y :: int))"
  using digit_and [of a 8 c x y] by simp

lemma byte_and_bounds:
  "0 \<le> a \<Longrightarrow> a < 256 \<Longrightarrow> 0 \<le> c \<Longrightarrow> 0 \<le> a AND c \<and> a AND c < (256 :: int)"
  using AND_upper1 [of a c] by (simp add: le_less_trans)

lemma byte_and3:
  assumes "0 \<le> a" "a < 256" "0 \<le> c" "c < 256" "0 \<le> e" "e < 256"
  shows "(a + 256 * x) AND (c + 256 * y) AND (e + 256 * z)
    = (a AND c AND e) + 256 * (x AND y AND (z :: int))"
  using assms byte_and [of c e y z] byte_and [of a "c AND e" x "y AND z"]
    byte_and_bounds [of c e] by simp

lemma zero_flags_nonzero_byte:
  assumes "1 \<le> b" "b < 256"
  shows "zero_flags (Suc n) (b + 256 * v) = 256 * zero_flags n v"
proof -
  have "NOT (b + 256 * v) = (255 - b) + 256 * NOT v"
    using digit_not [of b 8 v] assms by simp
  moreover have "b + 256 * v - ones_bytes (Suc n) = (b - 1) + 256 * (v - ones_bytes n)"
    by simp
  moreover have "128 * ones_bytes (Suc n) = 128 + 256 * (128 * ones_bytes n)"
    by simp
  ultimately have "zero_flags (Suc n) (b + 256 * v)
    = ((255 - b) AND (b - 1) AND 128) + 256 * zero_flags n v"
    unfolding zero_flags_def using assms by (simp only: byte_and3)
  then show ?thesis
    using byte_flag_nonzero [OF assms] by simp
qed

lemma zero_flags_zero_byte: "zero_flags (Suc n) (256 * v) mod 256 = 128"
proof -
  have "NOT (256 * v) = 255 + 256 * NOT v"
    using digit_not [of 0 8 v] by simp
  moreover have "256 * v - ones_bytes (Suc n) = 255 + 256 * (v - 1 - ones_bytes n)"
    by simp
  moreover have "128 * ones_bytes (Suc n) = 128 + 256 * (128 * ones_bytes n)"
    by simp
  moreover have "(255 + 256 * NOT v) AND (255 + 256 * (v - 1 - ones_bytes n))
      AND (128 + 256 * (128 * ones_bytes n))
    = 128 + 256 * (NOT v AND (v - 1 - ones_bytes n) AND (128 * ones_bytes n))"
    by (subst byte_and3) simp_all
  ultimately have "zero_flags (Suc n) (256 * v)
    = 128 + 256 * (NOT v AND (v - 1 - ones_bytes n) AND (128 * ones_bytes n))"
    unfolding zero_flags_def by (simp only:)
  then show ?thesis by simp
qed

text \<open>The specification: one more than the least index of a zero byte, or 0.\<close>

definition is_zero_byte_position :: "nat \<Rightarrow> int \<Rightarrow> nat \<Rightarrow> bool" where
  "is_zero_byte_position n v r \<longleftrightarrow>
     (r = 0 \<and> (\<forall>k<n. byte_of v k \<noteq> 0)) \<or>
     (\<exists>k<n. r = Suc k \<and> byte_of v k = 0 \<and> (\<forall>j<k. byte_of v j \<noteq> 0))"

lemma byte_of_0: "byte_of v 0 = v mod 256"
  by (simp add: byte_of_def)

lemma byte_of_Suc: "byte_of v (Suc k) = byte_of (v div 256) k"
  by (simp add: byte_of_def div_mult2_eq' zdiv_zmult2_eq)

lemma flags_position:
  "if zero_flags (Suc n) v = 0 then (\<forall>k<Suc n. byte_of v k \<noteq> 0)
   else \<exists>k<Suc n. flag_loop n s (zero_flags (Suc n) v) = s + Suc k \<and> byte_of v k = 0 \<and>
          (\<forall>j<k. byte_of v j \<noteq> 0)"
proof (induction n arbitrary: v s)
  case 0
  show ?case
  proof (cases "v mod 256 = 0")
    case True
    then obtain w where "v = 256 * w" by (auto elim: dvdE)
    then have "zero_flags (Suc 0) v \<noteq> 0" using zero_flags_zero_byte [of 0 w] by auto
    with True show ?thesis by (auto simp: byte_of_0)
  next
    case False
    then have "1 \<le> v mod 256" using pos_mod_sign [of 256 v] by linarith
    then have "zero_flags (Suc 0) (v mod 256 + 256 * (v div 256)) = 256 * zero_flags 0 (v div 256)"
      by (intro zero_flags_nonzero_byte) simp_all
    then have "zero_flags (Suc 0) v = 0" by (simp add: zero_flags_def)
    with False show ?thesis by (auto simp: byte_of_0)
  qed
next
  case (Suc n)
  show ?case
  proof (cases "v mod 256 = 0")
    case True
    then obtain w where "v = 256 * w" by (auto elim: dvdE)
    then have f: "zero_flags (Suc (Suc n)) v mod 256 = 128"
      using zero_flags_zero_byte [of "Suc n" w] by simp
    then have "zero_flags (Suc (Suc n)) v \<noteq> 0" by auto
    with True f show ?thesis by (auto simp: byte_of_0 intro!: exI [of _ 0])
  next
    case False
    then have "1 \<le> v mod 256" using pos_mod_sign [of 256 v] by linarith
    then have "zero_flags (Suc (Suc n)) (v mod 256 + 256 * (v div 256))
      = 256 * zero_flags (Suc n) (v div 256)"
      by (intro zero_flags_nonzero_byte) simp_all
    then have f: "zero_flags (Suc (Suc n)) v = 256 * zero_flags (Suc n) (v div 256)" by simp
    have byte0: "byte_of v 0 \<noteq> 0" using False by (simp add: byte_of_0)
    show ?thesis
    proof (cases "zero_flags (Suc n) (v div 256) = 0")
      case True
      then have "\<forall>k<Suc n. byte_of (v div 256) k \<noteq> 0" using Suc.IH [of "v div 256"] by simp
      then have "\<forall>k<Suc (Suc n). byte_of v k \<noteq> 0"
        using byte0 by (metis byte_of_Suc less_Suc_eq_0_disj)
      with True f show ?thesis by simp
    next
      case False
      then obtain k where k: "k < Suc n"
        "flag_loop n (s + 1) (zero_flags (Suc n) (v div 256)) = s + 1 + Suc k"
        "byte_of (v div 256) k = 0" "\<forall>j<k. byte_of (v div 256) j \<noteq> 0"
        using Suc.IH [of "v div 256" "s + 1"] by auto
      then have "\<forall>j<Suc k. byte_of v j \<noteq> 0"
        using byte0 by (metis byte_of_Suc less_Suc_eq_0_disj)
      with False f k show ?thesis by (auto simp: byte_of_Suc intro!: exI [of _ "Suc k"])
    qed
  qed
qed

lemma findzero_loop_int: "findzero_loop n s (val :: 'a::len word) = flag_loop n s (uint val)"
  if "8 \<le> LENGTH('a)"
proof (induction n arbitrary: s val)
  case 0
  then show ?case by simp
next
  case (Suc n)
  have "val AND 0xff = take_bit 8 val"
    by (simp add: take_bit_eq_mask mask_eq_exp_minus_1)
  then have "val AND 0xff = 0 \<longleftrightarrow> uint val mod 256 = 0"
    by (simp add: word_uint_eq_iff unsigned_take_bit_eq take_bit_eq_mod [where 'a = int]
        del: take_bit_eq_mod)
  moreover have "uint (drop_bit 8 val) = uint val div 256"
    by (simp only: unsigned_drop_bit_eq take_bit_eq_mod [where 'a = int]
        drop_bit_eq_div [where 'a = int]) simp
  ultimately show ?case using Suc by simp
qed

lemma uint_flag_word:
  fixes val ones highs :: "'a::len word"
  assumes "LENGTH('a) = 8 * n" and "uint ones = ones_bytes n" and "uint highs = 128 * ones_bytes n"
  shows "uint (NOT val AND (val - ones) AND highs) = zero_flags n (uint val)"
proof -
  have h: "0 \<le> 128 * ones_bytes n" "128 * ones_bytes n < 2 ^ LENGTH('a)"
    using assms(3) uint_lt2p [of highs] uint_ge_0 [of highs] by simp_all
  have "0 \<le> zero_flags n (uint val)"
    using h(1) by (simp add: zero_flags_def)
  moreover have "zero_flags n (uint val) \<le> 128 * ones_bytes n"
  proof -
    have "zero_flags n (uint val)
      = 128 * ones_bytes n AND (NOT (uint val) AND (uint val - ones_bytes n))"
      by (simp add: zero_flags_def ac_simps)
    then show ?thesis using AND_upper1 [OF h(1)] by simp
  qed
  ultimately have self: "take_bit LENGTH('a) (zero_flags n (uint val)) = zero_flags n (uint val)"
    using h(2) by (simp add: take_bit_int_eq_self)
  have "uint (NOT val AND (val - ones) AND highs)
    = take_bit LENGTH('a) (NOT (uint val)) AND take_bit LENGTH('a) (uint val - uint ones) AND uint highs"
    by (simp only: unsigned_and_eq unsigned_not_eq uint_word_arith_bintrs(2) and.assoc)
  also have "\<dots> = take_bit LENGTH('a) (NOT (uint val) AND (uint val - uint ones) AND uint highs)"
    by (simp add: take_bit_int_eq_self and.assoc)
  finally show ?thesis using self assms by (simp add: zero_flags_def)
qed

lemma ones_bytes_4: "ones_bytes (Suc 3) = 0x01010101"
  by (simp add: numeral_3_eq_3)

lemma ones_bytes_8: "ones_bytes (Suc 7) = 0x0101010101010101"
  by (simp add: eval_nat_numeral)

lemma is_zero_byte_positionI:
  assumes "r = (if zero_flags (Suc n) v = 0 then 0 else flag_loop n 0 (zero_flags (Suc n) v))"
  shows "is_zero_byte_position (Suc n) v r"
  using flags_position [of n v 0] unfolding assms is_zero_byte_position_def
  by (cases "zero_flags (Suc n) v = 0") auto

text \<open>\<open>findzerobyte_int32\<close> returns one more than the index of the lowest zero byte of its
  argument, and 0 exactly when no byte is zero.\<close>

theorem findzerobyte_int32_position:
  "is_zero_byte_position 4 (uint val) (findzerobyte_int32 val)"
proof -
  let ?f = "NOT val AND (val - 0x01010101) AND 0x80808080"
  have w: "uint ?f = zero_flags (Suc 3) (uint val)"
    by (rule uint_flag_word) (simp_all only: ones_bytes_4, simp_all)
  then have z: "?f = 0 \<longleftrightarrow> zero_flags (Suc 3) (uint val) = 0"
    by (simp only: uint_0_iff [symmetric])
  have "findzero_loop 3 0 ?f = flag_loop 3 0 (zero_flags (Suc 3) (uint val))"
    using w by (simp add: findzero_loop_int)
  then have r: "findzerobyte_int32 val
    = (if zero_flags (Suc 3) (uint val) = 0 then 0 else flag_loop 3 0 (zero_flags (Suc 3) (uint val)))"
    by (simp only: findzerobyte_int32_def Let_def z)
  have "is_zero_byte_position (Suc 3) (uint val) (findzerobyte_int32 val)"
    by (rule is_zero_byte_positionI [OF r])
  then show ?thesis by simp
qed

text \<open>the same for the eight bytes of a 64-bit word.\<close>

theorem findzerobyte_int64_position:
  "is_zero_byte_position 8 (uint val) (findzerobyte_int64 val)"
proof -
  let ?f = "NOT val AND (val - 0x0101010101010101) AND 0x8080808080808080"
  have w: "uint ?f = zero_flags (Suc 7) (uint val)"
    by (rule uint_flag_word) (simp_all only: ones_bytes_8, simp_all)
  then have z: "?f = 0 \<longleftrightarrow> zero_flags (Suc 7) (uint val) = 0"
    by (simp only: uint_0_iff [symmetric])
  have "findzero_loop 7 0 ?f = flag_loop 7 0 (zero_flags (Suc 7) (uint val))"
    using w by (simp add: findzero_loop_int)
  then have r: "findzerobyte_int64 val
    = (if zero_flags (Suc 7) (uint val) = 0 then 0 else flag_loop 7 0 (zero_flags (Suc 7) (uint val)))"
    by (simp only: findzerobyte_int64_def Let_def z)
  have "is_zero_byte_position (Suc 7) (uint val) (findzerobyte_int64 val)"
    by (rule is_zero_byte_positionI [OF r])
  then show ?thesis by simp
qed


section \<open>The shift register\<close>

text \<open>The register state after one clock of \<open>next_lfsr\<close>, as a function of the state alone.\<close>

definition lfsr_step :: "u64 \<Rightarrow> u64 \<Rightarrow> u64" where
  "lfsr_step taps s = (if bit s 0 then drop_bit 1 s XOR taps else drop_bit 1 s)"

lemma next_lfsr_step:
  "next_lfsr l = (lfsr_step (tapbits_lfsr l) (state_lfsr l),
     l\<lparr>state_lfsr := lfsr_step (tapbits_lfsr l) (state_lfsr l)\<rparr>)"
  by (simp add: next_lfsr_def lfsr_step_def Let_def one_and_eq and_one_eq bit_0 odd_iff_mod_2_eq_one)

text \<open>States and taps of a register of \<open>m\<close> bits have no bit at position \<open>m\<close> or above.\<close>

definition fits_bits :: "nat \<Rightarrow> u64 \<Rightarrow> bool" where
  "fits_bits m w \<longleftrightarrow> take_bit m w = w"

lemma fits_bits_bit: "fits_bits m w \<Longrightarrow> bit w k \<Longrightarrow> k < m"
  unfolding fits_bits_def by (metis bit_take_bit_iff)

lemma fits_bitsI: "(\<And>k. bit w k \<Longrightarrow> k < m) \<Longrightarrow> fits_bits m w"
  unfolding fits_bits_def by (rule bit_eqI) (auto simp: bit_take_bit_iff)

lemma bit_lfsr_step: "bit (lfsr_step taps s) k \<longleftrightarrow> (bit s (Suc k) \<noteq> (bit s 0 \<and> bit taps k))"
  by (simp add: lfsr_step_def bit_xor_iff bit_drop_bit_eq)

lemma lfsr_step_fits:
  assumes "fits_bits m taps" and "fits_bits m s"
  shows "fits_bits m (lfsr_step taps s)"
proof (rule fits_bitsI)
  fix k
  assume "bit (lfsr_step taps s) k"
  then have "bit s (Suc k) \<or> bit taps k" by (auto simp: bit_lfsr_step)
  then show "k < m" using fits_bits_bit [OF assms(1)] fits_bits_bit [OF assms(2)] by (meson Suc_lessD)
qed

lemma lfsr_step_top:
  assumes "bit taps (m - 1)" and "0 < m" and "fits_bits m s"
  shows "bit (lfsr_step taps s) (m - 1) \<longleftrightarrow> bit s 0"
proof -
  have "\<not> bit s (Suc (m - 1))" using fits_bits_bit [OF assms(3)] assms(2) by fastforce
  then show ?thesis using assms(1) by (simp add: bit_lfsr_step)
qed

lemma lfsr_step_inj:
  assumes "bit taps (m - 1)" and "0 < m" and "fits_bits m s" and "fits_bits m t"
    and eq: "lfsr_step taps s = lfsr_step taps t"
  shows "s = t"
proof (rule bit_eqI)
  fix k
  have 0: "bit s 0 \<longleftrightarrow> bit t 0"
    using lfsr_step_top [OF assms(1-3)] lfsr_step_top [OF assms(1,2,4)] eq by simp
  show "bit s k \<longleftrightarrow> bit t k"
  proof (cases k)
    case (Suc j)
    have "bit (lfsr_step taps s) j \<longleftrightarrow> bit (lfsr_step taps t) j" using eq by simp
    then show ?thesis using 0 Suc by (auto simp: bit_lfsr_step)
  qed (use 0 in simp)
qed

lemma lfsr_step_0 [simp]: "lfsr_step taps 0 = 0"
  by (simp add: lfsr_step_def)

lemma fits_bits_0 [simp]: "fits_bits m 0"
  by (simp add: fits_bits_def)

text \<open>
  An injective map of a finite set into itself returns to its starting point.
\<close>

lemma inj_on_returns:
  assumes "finite A" and "f ` A \<subseteq> A" and "inj_on f A" and "a \<in> A"
  shows "\<exists>p>0. (f ^^ p) a = a"
proof -
  have mem: "(f ^^ k) a \<in> A" for k
    using assms(2,4) by (induction k) auto
  have "\<not> inj_on (\<lambda>k. (f ^^ k) a) {..card A}"
  proof
    assume "inj_on (\<lambda>k. (f ^^ k) a) {..card A}"
    then have "card {..card A} \<le> card A"
      using mem assms(1) by (intro card_inj_on_le [of "\<lambda>k. (f ^^ k) a"]) auto
    then show False by simp
  qed
  then obtain i j where ij: "i < j" "(f ^^ i) a = (f ^^ j) a"
    by (auto simp: inj_on_def) (metis linorder_neqE_nat)
  have "(f ^^ i) a = (f ^^ i) b \<Longrightarrow> b \<in> A \<Longrightarrow> a = b" for b
  proof (induction i)
    case (Suc i)
    have "f ((f ^^ i) a) = f ((f ^^ i) b)" using Suc.prems(1) by simp
    moreover have "(f ^^ i) b \<in> A" using assms(2) Suc.prems(2) by (induction i) auto
    ultimately have "(f ^^ i) a = (f ^^ i) b" using assms(3) mem by (meson inj_onD)
    then show ?case using Suc by blast
  qed simp
  moreover have "(f ^^ j) a = (f ^^ i) ((f ^^ (j - i)) a)"
    using ij(1) by (metis add_diff_inverse_nat funpow_add comp_apply less_imp_not_less)
  ultimately have "a = (f ^^ (j - i)) a" using ij(2) mem by metis
  then show ?thesis using ij(1) by (intro exI [of _ "j - i"]) simp
qed

text \<open>The states after \<open>p\<close> calls of \<open>next_lfsr\<close>.\<close>

definition run_lfsr :: "nat \<Rightarrow> lfsr_t \<Rightarrow> lfsr_t" where
  "run_lfsr p l = ((\<lambda>l. snd (next_lfsr l)) ^^ p) l"

lemma run_lfsr_step:
  "state_lfsr (run_lfsr p l) = (lfsr_step (tapbits_lfsr l) ^^ p) (state_lfsr l) \<and>
   tapbits_lfsr (run_lfsr p l) = tapbits_lfsr l"
  by (induction p) (simp_all add: run_lfsr_def next_lfsr_step)

text \<open>The first return to a state visits different states before.\<close>

lemma first_return:
  assumes "\<exists>p>0. (f ^^ p) a = a"
  shows "\<exists>p>0. (f ^^ p) a = a \<and> inj_on (\<lambda>i. (f ^^ i) a) {..<p}"
proof -
  define p where "p = (LEAST p. 0 < p \<and> (f ^^ p) a = a)"
  have "0 < p \<and> (f ^^ p) a = a" unfolding p_def by (rule LeastI_ex) (use assms in blast)
  moreover have "(f ^^ m) a \<noteq> a" if "0 < m" "m < p" for m using not_less_Least [of m] that unfolding p_def by blast
  ultimately show ?thesis using inj_on_funpow_least [of p f a] by (auto simp: lessThan_atLeast0)
qed

text \<open>C40: One clock of the register: every call of \<open>next_lfsr\<close> returns the new state, which is the old one shifted
  by one place with the tap bits flipped in exactly when the bit that is shifted out is set, and keeps the tap bits. Over
  many calls, a register whose most significant tap bit is bit \<open>m - 1\<close> (it "determines the size of the
  register") runs through a cycle: from a state of \<open>m\<close> bits other than 0 every later state has
  \<open>m\<close> bits and is not 0, and after some number of clocks, before which no state occurs twice, the register is
  back in its first state.
\<close>

theorem next_lfsr_cycles:
  assumes "0 < m" and "fits_bits m taps" and "bit taps (m - 1)" and "fits_bits m st" and "st \<noteq> 0"
  shows "(\<forall>p k. bit (fst (next_lfsr (run_lfsr p (init_lfsr st taps)))) k \<longleftrightarrow>
        bit (state_lfsr (run_lfsr p (init_lfsr st taps))) (Suc k) \<noteq>
          (bit (state_lfsr (run_lfsr p (init_lfsr st taps))) 0 \<and> bit taps k)) \<and>
    (\<forall>p. state_lfsr (run_lfsr (Suc p) (init_lfsr st taps)) = fst (next_lfsr (run_lfsr p (init_lfsr st taps))) \<and>
         tapbits_lfsr (run_lfsr p (init_lfsr st taps)) = taps) \<and>
    (\<forall>p. fits_bits m (state_lfsr (run_lfsr p (init_lfsr st taps))) \<and>
         state_lfsr (run_lfsr p (init_lfsr st taps)) \<noteq> 0) \<and>
    (\<exists>p>0. run_lfsr p (init_lfsr st taps) = init_lfsr st taps \<and>
       inj_on (\<lambda>i. state_lfsr (run_lfsr i (init_lfsr st taps))) {..<p})"
proof -
  let ?A = "{s. fits_bits m s \<and> s \<noteq> 0}"
  have inj: "inj_on (lfsr_step taps) {s. fits_bits m s}"
    using lfsr_step_inj [OF assms(3,1)] by (auto simp: inj_on_def)
  have step: "lfsr_step taps ` ?A \<subseteq> ?A"
  proof clarify
    fix s
    assume s: "fits_bits m s" "s \<noteq> 0"
    then have "lfsr_step taps s \<noteq> 0"
      using lfsr_step_inj [OF assms(3,1) s(1) fits_bits_0] by auto
    then show "fits_bits m (lfsr_step taps s) \<and> lfsr_step taps s \<noteq> 0"
      using lfsr_step_fits [OF assms(2) s(1)] by simp
  qed
  have run: "run_lfsr p (init_lfsr st taps) = init_lfsr ((lfsr_step taps ^^ p) st) taps" for p
    using run_lfsr_step [of p "init_lfsr st taps"] by (simp add: init_lfsr_def)
  have "(lfsr_step taps ^^ p) st \<in> ?A" for p
    by (induction p) (use assms(4,5) step in auto)
  moreover have "\<exists>p>0. (lfsr_step taps ^^ p) st = st"
    using assms(4,5) by (intro inj_on_returns [OF _ step]) (auto intro: inj_on_subset [OF inj])
  ultimately show ?thesis
    using first_return [of "lfsr_step taps" st] unfolding run by (simp add: init_lfsr_def next_lfsr_step bit_lfsr_step)
qed

lemma next_lfsr_cycles_witness:
  "\<exists>p>0. run_lfsr p (init_lfsr 1 0xb400) = init_lfsr 1 0xb400"
proof -
  have "fits_bits 16 (0xb400 :: u64)" "bit (0xb400 :: u64) (16 - 1)" "fits_bits 16 (1 :: u64)"
    by (simp_all add: fits_bits_def)
  then show ?thesis using next_lfsr_cycles [of 16 "0xb400" 1, THEN conjunct2, THEN conjunct2, THEN conjunct2] by auto
qed

text \<open>\<open>findzerobyte_int32\<close> and \<open>findzerobyte_int64\<close> return one more than the index of the lowest
  zero byte of their argument, and 0 exactly when no byte is zero.\<close>

theorem findzerobyte_int_position:
  "is_zero_byte_position 4 (uint v) (findzerobyte_int32 v) \<and>
   is_zero_byte_position 8 (uint w) (findzerobyte_int64 w)"
  using findzerobyte_int32_position findzerobyte_int64_position by simp

end
