(* ===== verification/Int_Digits.thy ===== *)
theory Int_Digits
  imports Int_Bits
begin

text \<open>
  Decimal digits: the integer logarithm to base 10 (C-kern/math/int/log10.c) and the binary to
  BCD conversion by the double-dabble method (C-kern/math/int/bcd.c). Both start from
  \<open>log2_int\<close>.
\<close>

section \<open>log10\<close>

text \<open>The table of powers of ten; entry 0 is 0, so that \<open>log10_int 0\<close> is 0.\<close>

definition s_pow10 :: "u64 list" where
  "s_pow10 = [0, 10, 100, 1000, 10000, 100000, 1000000, 10000000, 100000000,
     1000000000, 10000000000, 100000000000, 1000000000000, 10000000000000,
     100000000000000, 1000000000000000, 10000000000000000, 100000000000000000,
     1000000000000000000, 10000000000000000000]"

definition log10_int32 :: "u32 \<Rightarrow> nat" where
  "log10_int32 i =
     (let lg10 = unat (log2_int32 i) div 3
      in if s_pow10 ! lg10 > ucast i then lg10 - 1 else lg10)"

definition log10_int64 :: "u64 \<Rightarrow> nat" where
  "log10_int64 i =
     (let lg10 = unat (log2_int64 i) div 3;
          lg10 = lg10 - of_bool (10 \<le> lg10);
          lg10 = lg10 - of_bool (20 \<le> lg10)
      in if s_pow10 ! lg10 > i then lg10 - 1 else lg10)"

section \<open>Binary to BCD\<close>

text \<open>
  One round of the loop on \<open>(bcd, i)\<close>: double every BCD digit, add 6 to the digits that were
  5 or more, and shift the next bit of \<open>i\<close> in.
\<close>

definition bcd_round :: "'a::len word \<Rightarrow> 'a word \<Rightarrow> 'a word \<times> 'a word \<Rightarrow> 'a word \<times> 'a word" where
  "bcd_round incr msk = (\<lambda>(bcd, i).
     let tmp = bcd + incr;
         bcd = push_bit 1 bcd;
         tmp = tmp AND msk;
         bcd = bcd OR drop_bit (LENGTH('a) - 1) i;
         i = push_bit 1 i;
         bcd = bcd + drop_bit 2 tmp;
         bcd = bcd + drop_bit 1 tmp
     in (bcd, i))"

definition convert2bcd_int32 :: "u32 \<Rightarrow> u32" where
  "convert2bcd_int32 i =
     (if 9 < i then
        let nbit = unat (log2_int32 i) - 3
        in if nbit \<noteq> 0 then
             let bcd = drop_bit nbit i;
                 i = push_bit (32 - nbit) i;
                 bcd = (if 9 < bcd then bcd + 6 else bcd)
             in fst ((bcd_round 0x33333333 0x88888888 ^^ nbit) (bcd, i))
           else i + 6
      else i)"

definition convert2bcd_int64 :: "u64 \<Rightarrow> u64" where
  "convert2bcd_int64 i =
     (if 9 < i then
        let nbit = unat (log2_int64 i) - 3
        in if nbit \<noteq> 0 then
             let bcd = drop_bit nbit i;
                 i = push_bit (64 - nbit) i;
                 bcd = (if 9 < bcd then bcd + 6 else bcd)
             in fst ((bcd_round 0x3333333333333333 0x8888888888888888 ^^ nbit) (bcd, i))
           else i + 6
      else i)"

section \<open>Correctness of log10\<close>

lemma s_pow10_nth: "0 < k \<Longrightarrow> k < 20 \<Longrightarrow> unat (s_pow10 ! k) = 10 ^ k"
proof -
  have "\<forall>k\<in>set [1..<20]. uint (s_pow10 ! k) = 10 ^ k" by code_simp
  then show "0 < k \<Longrightarrow> k < 20 \<Longrightarrow> ?thesis"
    by (simp add: of_nat_eq_iff [where 'a = int, symmetric] del: of_nat_eq_iff)
qed

text \<open>
  The estimate \<open>l\<close> of the logarithm is right or one too large when it is so at both ends of the
  interval that \<open>log2\<close> gives; the comparison with the table decides which.
\<close>

lemma log10_correct:
  assumes "2 ^ k \<le> n" and "n < 2 ^ Suc k" and "l < 20"
    and "10 ^ (l - 1) \<le> (2 :: nat) ^ k" and "2 ^ Suc k \<le> (10 :: nat) ^ Suc l"
    and "r = (if unat (s_pow10 ! l) > n then l - 1 else l)"
  shows "10 ^ r \<le> n \<and> n < 10 ^ Suc r"
proof (cases "l = 0")
  case True
  moreover have "s_pow10 ! 0 = 0" by (simp add: s_pow10_def)
  ultimately show ?thesis using assms by (auto intro: le_trans less_le_trans)
next
  case False
  then have "unat (s_pow10 ! l) = 10 ^ l" using assms(3) by (simp add: s_pow10_nth)
  moreover have "(10 :: nat) ^ Suc (l - 1) = 10 ^ l" using False by (intro arg_cong [of _ _ "power 10"]) simp
  ultimately show ?thesis using assms by (cases "10 ^ l > n") (simp_all del: power_Suc)
qed

text \<open>The powers are compared as integers, where evaluation is fast, and carried over to \<open>nat\<close>.\<close>

definition estimate_ok :: "nat \<Rightarrow> nat \<Rightarrow> bool" where
  "estimate_ok k l \<longleftrightarrow> l < 20 \<and> (10 :: int) ^ (l - 1) \<le> 2 ^ k \<and> (2 :: int) ^ Suc k \<le> 10 ^ Suc l"

lemma estimate_okD:
  assumes "estimate_ok k l"
  shows "l < 20" and "10 ^ (l - 1) \<le> (2 :: nat) ^ k" and "2 ^ Suc k \<le> (10 :: nat) ^ Suc l"
proof -
  have nat: "a ^ m \<le> b ^ n" if "int a ^ m \<le> int b ^ n" for a b m n
    using that by (simp flip: of_nat_power)
  show "l < 20" using assms by (simp add: estimate_ok_def)
  show "10 ^ (l - 1) \<le> (2 :: nat) ^ k" "2 ^ Suc k \<le> (10 :: nat) ^ Suc l"
    using assms by (auto intro!: nat simp: estimate_ok_def simp del: power_Suc)
qed

lemma log10_estimate32: "k < 32 \<Longrightarrow> estimate_ok k (k div 3)"
proof -
  have "\<forall>k\<in>set [0..<32]. estimate_ok k (k div 3)" by code_simp
  then show "k < 32 \<Longrightarrow> ?thesis" by simp
qed

definition estimate64 :: "nat \<Rightarrow> nat" where
  "estimate64 k = (let l = k div 3; l = l - of_bool (10 \<le> l) in l - of_bool (20 \<le> l))"

lemma log10_estimate64: "k < 64 \<Longrightarrow> estimate_ok k (estimate64 k)"
proof -
  have "\<forall>k\<in>set [0..<64]. estimate_ok k (estimate64 k)" by code_simp
  then show "k < 64 \<Longrightarrow> ?thesis" by simp
qed

text \<open>\<open>log10_int32\<close> is the floor of the logarithm to base 10, for every argument but 0.\<close>

theorem log10_int32_floor:
  assumes "i \<noteq> 0"
  shows "10 ^ log10_int32 i \<le> unat i \<and> unat i < 10 ^ Suc (log10_int32 i)"
proof -
  let ?k = "unat (log2_int32 i)"
  have k: "2 ^ ?k \<le> unat i" "unat i < 2 ^ Suc ?k" "?k < 32"
    using log2_int32_bounds [OF assms] by simp_all
  have "log10_int32 i = (if unat (s_pow10 ! (?k div 3)) > unat i then ?k div 3 - 1 else ?k div 3)"
    by (simp add: log10_int32_def Let_def word_less_nat_alt unat_ucast_up)
  then show ?thesis
    using k(1,2) by (intro log10_correct [OF _ _ estimate_okD [OF log10_estimate32 [OF k(3)]]])
qed

lemma log10_int32_floor_witness: "log10_int32 999 = 2 \<and> (10 :: nat) ^ 2 \<le> 999"
proof -
  have "log10_int32 999 = 2" by code_simp
  then show ?thesis using log10_int32_floor [of 999] by simp
qed

text \<open>\<open>log10_int64\<close> is the floor of the logarithm to base 10, for every argument but 0.\<close>

theorem log10_int64_floor:
  assumes "i \<noteq> 0"
  shows "10 ^ log10_int64 i \<le> unat i \<and> unat i < 10 ^ Suc (log10_int64 i)"
proof -
  let ?k = "unat (log2_int64 i)"
  have k: "2 ^ ?k \<le> unat i" "unat i < 2 ^ Suc ?k" "?k < 64"
    using log2_int64_bounds [OF assms] by simp_all
  have "log10_int64 i = (if unat (s_pow10 ! estimate64 ?k) > unat i then estimate64 ?k - 1 else estimate64 ?k)"
    by (simp add: log10_int64_def estimate64_def Let_def word_less_nat_alt)
  then show ?thesis
    using k(1,2) by (intro log10_correct [OF _ _ estimate_okD [OF log10_estimate64 [OF k(3)]]])
qed

lemma log10_int64_floor_witness: "log10_int64 10000000000 = 10 \<and> (10 :: nat) ^ 10 \<le> unat (10000000000 :: u64)"
proof -
  have "log10_int64 10000000000 = 10" by code_simp
  then show ?thesis using log10_int64_floor [of 10000000000] by simp
qed

section \<open>Correctness of the BCD conversion\<close>

text \<open>
  The number whose \<open>m\<close> hexadecimal digits are the decimal digits of \<open>n\<close>, the digits of \<open>n\<close>
  that are 5 or more as a bit mask, and the two constants of the source.
\<close>

primrec bcd_enc :: "nat \<Rightarrow> nat \<Rightarrow> nat" where
  "bcd_enc 0 n = 0"
| "bcd_enc (Suc m) n = n mod 10 + 16 * bcd_enc m (n div 10)"

primrec bcd_flags :: "nat \<Rightarrow> nat \<Rightarrow> nat" where
  "bcd_flags 0 n = 0"
| "bcd_flags (Suc m) n = of_bool (5 \<le> n mod 10) + 16 * bcd_flags m (n div 10)"

primrec rep_nibble :: "nat \<Rightarrow> nat \<Rightarrow> nat" where
  "rep_nibble d 0 = 0"
| "rep_nibble d (Suc m) = d + 16 * rep_nibble d m"

lemma bcd_enc_nibble: "k < m \<Longrightarrow> bcd_enc m n div 16 ^ k mod 16 = n div 10 ^ k mod 10"
proof (induction m arbitrary: k n)
  case (Suc m)
  then show ?case
    by (cases k) (simp_all add: div_mult2_eq)
qed simp

lemma bcd_enc_bound: "bcd_enc m n + rep_nibble 3 m < 16 ^ m"
proof (induction m arbitrary: n)
  case (Suc m)
  have "n mod 10 < 10" by simp
  then show ?case using Suc [of "n div 10"] by (simp del: mod_less_divisor)
qed simp

lemma bcd_double:
  assumes "b \<le> 1" and "2 * n + b < 10 ^ m"
  shows "bcd_enc m (2 * n + b) = 2 * bcd_enc m n + b + 6 * bcd_flags m n"
  using assms
proof (induction m arbitrary: n b)
  case (Suc m)
  define d c where "d = n mod 10" and "c = (of_bool (5 \<le> n mod 10) :: nat)"
  have d: "d < 10" "n = 10 * (n div 10) + d" by (simp_all add: d_def)
  have split: "2 * n + b = 10 * (2 * (n div 10) + c) + (2 * d + b - 10 * c)" "10 * c \<le> 2 * d + b"
    "2 * d + b - 10 * c < 10"
    using d Suc.prems(1) by (auto simp: c_def d_def [symmetric])
  have q: "(2 * n + b) div 10 = 2 * (n div 10) + c" "(2 * n + b) mod 10 = 2 * d + b - 10 * c"
    using split(3) by (subst split(1), simp only: div_mult_self4 mod_mult_self4 div_less mod_less)+
  have "2 * (n div 10) + c < 10 ^ m"
    using Suc.prems(2) q(1) by (metis div_less_iff_less_mult mult.commute power_Suc zero_less_numeral)
  then have "bcd_enc m (2 * (n div 10) + c) = 2 * bcd_enc m (n div 10) + c + 6 * bcd_flags m (n div 10)"
    by (intro Suc.IH) (simp add: c_def)
  then show ?case using split(2) by (simp add: q c_def flip: d_def)
qed simp

lemma digit_and_nat:
  fixes a c x y :: nat
  assumes "a < 2 ^ k" and "c < 2 ^ k"
  shows "(a + 2 ^ k * x) AND (c + 2 ^ k * y) = (a AND c) + 2 ^ k * (x AND y)"
proof -
  have "int a < 2 ^ k" "int c < 2 ^ k" using assms by (simp_all flip: of_nat_less_iff)
  then have "int ((a + 2 ^ k * x) AND (c + 2 ^ k * y)) = int ((a AND c) + 2 ^ k * (x AND y))"
    using digit_and [of "int a" k "int c" "int x" "int y"] by (simp add: of_nat_and_eq)
  then show ?thesis by (simp only: of_nat_eq_iff)
qed

lemma nibble_flag: "d < 10 \<Longrightarrow> (d + 3) AND 8 = 8 * (of_bool (5 \<le> d) :: nat)"
proof -
  have "\<forall>d\<in>set [0..<10]. (d + 3) AND 8 = 8 * (of_bool (5 \<le> d) :: nat)" by code_simp
  then show "d < 10 \<Longrightarrow> ?thesis" by simp
qed

lemma bcd_enc_flags: "(bcd_enc m n + rep_nibble 3 m) AND rep_nibble 8 m = 8 * bcd_flags m n"
proof (induction m arbitrary: n)
  case (Suc m)
  have "(bcd_enc (Suc m) n + rep_nibble 3 (Suc m)) AND rep_nibble 8 (Suc m)
    = ((n mod 10 + 3) + 2 ^ 4 * (bcd_enc m (n div 10) + rep_nibble 3 m)) AND (8 + 2 ^ 4 * rep_nibble 8 m)"
    by (simp add: algebra_simps)
  also have "\<dots> = ((n mod 10 + 3) AND 8)
      + 2 ^ 4 * ((bcd_enc m (n div 10) + rep_nibble 3 m) AND rep_nibble 8 m)"
  proof (rule digit_and_nat)
    have "n mod 10 < 10" by simp
    then show "n mod 10 + 3 < 2 ^ 4" by simp
  qed simp
  finally show ?case by (simp add: Suc nibble_flag)
qed simp

lemma unat_top_bit:
  "unat (drop_bit (LENGTH('a) - 1) (push_bit (LENGTH('a) - Suc nb) w) :: 'a::len word)
   = unat w div 2 ^ nb mod 2" if "nb < LENGTH('a)"
proof -
  have "drop_bit (LENGTH('a) - 1) (push_bit (LENGTH('a) - Suc nb) w) = (of_bool (bit w nb) :: 'a word)"
  proof (rule bit_eqI)
    fix n
    show "bit (drop_bit (LENGTH('a) - 1) (push_bit (LENGTH('a) - Suc nb) w)) n
      \<longleftrightarrow> bit (of_bool (bit w nb) :: 'a word) n"
      using that by (cases n) (auto simp: bit_simps)
  qed
  moreover have "bit w nb \<longleftrightarrow> odd (unat w div 2 ^ nb)"
    by (metis bit_iff_odd bit_unsigned_iff possible_bit_nat)
  ultimately show ?thesis by (simp add: odd_iff_mod_2_eq_one even_iff_mod_2_eq_zero)
qed

text \<open>One round of the loop doubles the encoded number and adds the bit that is shifted in.\<close>

lemma bcd_round_enc:
  fixes bcd i :: "'a::len word"
  assumes len: "LENGTH('a) = 4 * m"
    and incr: "unat incr = rep_nibble 3 m" and msk: "unat msk = rep_nibble 8 m"
    and bcd: "unat bcd = bcd_enc m n"
    and b: "unat (drop_bit (LENGTH('a) - 1) i) = b" "b \<le> 1"
    and bound: "2 * n + b < 10 ^ m"
  shows "\<exists>bcd'. bcd_round incr msk (bcd, i) = (bcd', push_bit 1 i) \<and> unat bcd' = bcd_enc m (2 * n + b)"
proof -
  have pow: "2 ^ LENGTH('a) = (16 :: nat) ^ m" by (simp add: len power_mult)
  have enc: "bcd_enc m (2 * n + b) = 2 * bcd_enc m n + b + 6 * bcd_flags m n"
    by (rule bcd_double [OF b(2) bound])
  have lt: "2 * bcd_enc m n + b + 6 * bcd_flags m n < 16 ^ m"
    using bcd_enc_bound [of m "2 * n + b"] enc by linarith
  let ?tmp = "(bcd + incr) AND msk"
  have "unat (bcd + incr) = bcd_enc m n + rep_nibble 3 m"
    using bcd_enc_bound [of m n] by (simp add: unat_add_no_wrap bcd incr pow)
  then have tmp: "unat ?tmp = 8 * bcd_flags m n"
    by (simp add: unsigned_and_eq msk bcd_enc_flags)
  then have t2: "unat (drop_bit 2 ?tmp) = 2 * bcd_flags m n" "unat (drop_bit 1 ?tmp) = 4 * bcd_flags m n"
    by (simp_all only: unat_drop_bit) simp_all
  have "unat (push_bit 1 bcd) = 2 * bcd_enc m n"
    using lt by (subst unat_push_bit_no_wrap) (simp_all add: bcd pow)
  moreover from this have "push_bit 1 bcd OR drop_bit (LENGTH('a) - 1) i
    = push_bit 1 bcd + drop_bit (LENGTH('a) - 1) i"
    using b by (intro or_eq_add_dvd [of 1]) simp_all
  ultimately have o: "unat (push_bit 1 bcd OR drop_bit (LENGTH('a) - 1) i) = 2 * bcd_enc m n + b"
    using lt b(1) by (simp add: unat_add_no_wrap pow)
  then have o2: "unat ((push_bit 1 bcd OR drop_bit (LENGTH('a) - 1) i) + drop_bit 2 ?tmp)
    = 2 * bcd_enc m n + b + 2 * bcd_flags m n"
    using lt by (intro unat_add_eq o t2(1)) (simp only: pow)
  have "unat ((push_bit 1 bcd OR drop_bit (LENGTH('a) - 1) i) + drop_bit 2 ?tmp + drop_bit 1 ?tmp)
    = 2 * bcd_enc m n + b + 2 * bcd_flags m n + 4 * bcd_flags m n"
    using lt by (intro unat_add_eq o2 t2(2)) (simp only: pow)
  then show ?thesis by (simp only: bcd_round_def Let_def prod.case) (simp add: enc)
qed

text \<open>The loop: after the rounds all \<open>nb\<close> low bits of the number are shifted in.\<close>

lemma bcd_loop_enc:
  fixes bcd w :: "'a::len word"
  assumes len: "LENGTH('a) = 4 * m"
    and incr: "unat incr = rep_nibble 3 m" and msk: "unat msk = rep_nibble 8 m"
    and bound: "unat w < 10 ^ m"
  shows "nb \<le> LENGTH('a) \<Longrightarrow> unat bcd = bcd_enc m (unat w div 2 ^ nb) \<Longrightarrow>
    unat (fst ((bcd_round incr msk ^^ nb) (bcd, push_bit (LENGTH('a) - nb) w))) = bcd_enc m (unat w)"
proof (induction nb arbitrary: bcd)
  case (Suc nb)
  define n b where "n = unat w div 2 ^ Suc nb" and "b = unat w div 2 ^ nb mod 2"
  have step: "2 * n + b = unat w div 2 ^ nb"
    unfolding n_def b_def by (simp add: div_mult2_eq mult.commute [of 2] del: mult_div_mod_eq) 
  then have "2 * n + b < 10 ^ m" using bound by (metis div_le_dividend le_less_trans)
  moreover have "unat (drop_bit (LENGTH('a) - 1) (push_bit (LENGTH('a) - Suc nb) w)) = b"
    unfolding b_def using Suc.prems(1) by (intro unat_top_bit) simp
  moreover have "unat bcd = bcd_enc m n" using Suc.prems(2) by (simp only: n_def)
  moreover have "b \<le> 1" by (simp add: b_def)
  ultimately obtain bcd' where bcd': "unat bcd' = bcd_enc m (2 * n + b)"
    "bcd_round incr msk (bcd, push_bit (LENGTH('a) - Suc nb) w)
      = (bcd', push_bit 1 (push_bit (LENGTH('a) - Suc nb) w))"
    using bcd_round_enc [OF len incr msk] by blast
  have "push_bit 1 (push_bit (LENGTH('a) - Suc nb) w) = push_bit (LENGTH('a) - nb) w"
    using Suc.prems(1) by (simp only: push_bit_push_bit) (simp add: Suc_diff_Suc)
  then have "(bcd_round incr msk ^^ Suc nb) (bcd, push_bit (LENGTH('a) - Suc nb) w)
    = (bcd_round incr msk ^^ nb) (bcd', push_bit (LENGTH('a) - nb) w)"
    by (simp only: funpow_Suc_right comp_apply bcd'(2))
  then show ?case using Suc bcd'(1) step by simp
qed simp

text \<open>The start of the loop: the topmost four bits are one number below 16.\<close>

lemma bcd_enc_0: "bcd_enc m 0 = 0"
  by (induction m) simp_all

lemma bcd_start:
  assumes "n < 16"
  shows "(if 9 < n then n + 6 else n) = bcd_enc (Suc (Suc m)) n"
proof -
  have "n div 10 = of_bool (9 < n)" using assms by auto
  moreover from this have "n mod 10 = n - 10 * of_bool (9 < n)"
    by (simp only: minus_div_mult_eq_mod [symmetric])
  ultimately show ?thesis by (simp add: bcd_enc_0)
qed

lemma convert2bcd_general:
  fixes w :: "'a::len word"
  assumes len: "LENGTH('a) = 4 * m" "2 \<le> m"
    and incr: "unat incr = rep_nibble 3 m" and msk: "unat msk = rep_nibble 8 m"
    and bound: "unat w < 10 ^ m" and k: "2 ^ k \<le> unat w" "unat w < 2 ^ (k + 1)" "k < LENGTH('a)"
    and r: "r = (if 9 < w then
        let nbit = k - 3
        in if nbit \<noteq> 0 then
             let bcd = drop_bit nbit w;
                 i = push_bit (LENGTH('a) - nbit) w;
                 bcd = (if 9 < bcd then bcd + 6 else bcd)
             in fst ((bcd_round incr msk ^^ nbit) (bcd, i))
           else w + 6
      else w)"
  shows "unat r = bcd_enc m (unat w)"
proof -
  obtain m' where m': "m = Suc (Suc m')" using len(2) by (metis Suc_le_D numeral_2_eq_2 Suc_le_mono)
  have "(2 :: nat) ^ 8 \<le> 2 ^ LENGTH('a)" using len by (intro power_increasing) simp_all
  then have lt: "9 < (2 :: nat) ^ LENGTH('a)" "6 < (2 :: nat) ^ LENGTH('a)" by simp_all
  have nine: "unat (9 :: 'a word) = 9" "unat (6 :: 'a word) = 6"
    by (simp_all only: unsigned_numeral take_bit_nat_eq_self [OF lt(1)] take_bit_nat_eq_self [OF lt(2)] of_nat_numeral)
  then have cmp: "9 < x \<longleftrightarrow> 9 < unat x" for x :: "'a word"
    by (simp add: word_less_nat_alt)
  have start: "unat (if 9 < x then x + 6 else x) = bcd_enc m (unat x)" if "unat x < 16" for x :: "'a word"
  proof -
    have "unat (x + 6) = unat x + 6"
      by (rule unat_add_eq [OF refl nine(2)]) (use that \<open>2 ^ 8 \<le> 2 ^ LENGTH('a)\<close> in simp)
    then show ?thesis using bcd_start [OF that, of m', folded m'] by (auto simp: cmp)
  qed
  show ?thesis
  proof (cases "9 < w \<and> k - 3 \<noteq> 0")
    case True
    then have "(2 :: nat) ^ (k + 1) = 16 * 2 ^ (k - 3)" 
      using power_add [of "2 :: nat" 4 "k - 3"] by simp
    then have "unat w div 2 ^ (k - 3) < 16" using k(2) by (intro less_mult_imp_div_less) simp
    then have "unat (drop_bit (k - 3) w) < 16" by (simp only: unat_drop_bit)
    from start [OF this, unfolded unat_drop_bit]
    have "unat (fst ((bcd_round incr msk ^^ (k - 3))
      (if 9 < drop_bit (k - 3) w then drop_bit (k - 3) w + 6 else drop_bit (k - 3) w,
       push_bit (LENGTH('a) - (k - 3)) w))) = bcd_enc m (unat w)"
      using k(3) by (intro bcd_loop_enc [OF len(1) incr msk bound]) simp_all
    then show ?thesis using True unfolding r Let_def by (simp only: if_True simp_thms)
  next
    case False
    have "unat w < 16"
    proof (cases "9 < w")
      case True
      with False have "k + 1 \<le> 4" by simp
      then have "(2 :: nat) ^ (k + 1) \<le> 2 ^ 4" by (intro power_increasing) simp_all
      then show ?thesis using k(2) by simp
    qed (simp add: cmp)
    from start [OF this] show ?thesis using False unfolding r Let_def by (auto split: if_splits)
  qed
qed

text \<open>
  The nibbles of the result are the decimal digits of the argument, for every argument in the
  range the header documents.
\<close>

lemma rep_nibble_add: "rep_nibble d (m + n) = rep_nibble d m + 16 ^ m * rep_nibble d n"
  by (induction m) (simp_all add: algebra_simps)

lemma rep_nibble_8: "rep_nibble d 8 = 0x11111111 * d"
proof -
  have "rep_nibble d 2 = 0x11 * d" by (simp add: numeral_2_eq_2)
  then have "rep_nibble d 4 = 0x1111 * d" using rep_nibble_add [of d 2 2] by simp
  then show ?thesis using rep_nibble_add [of d 4 4] by simp
qed

lemma rep_nibble_16: "rep_nibble d 16 = 0x1111111111111111 * d"
  using rep_nibble_add [of d 8 8] by (simp add: rep_nibble_8)

lemma bcd_enc_digits:
  assumes "n < 10 ^ m"
  shows "bcd_enc m n div 16 ^ k mod 16 = n div 10 ^ k mod 10"
proof (cases "k < m")
  case False
  then have "n < 10 ^ k" "bcd_enc m n < 16 ^ k"
    using assms bcd_enc_bound [of m n]
    by (auto intro: less_le_trans [OF _ power_increasing] dest: add_lessD1)
  then show ?thesis by simp
qed (rule bcd_enc_nibble)

text \<open>\<open>convert2bcd_int32\<close>: hexadecimal digit \<open>k\<close> of the result is decimal digit \<open>k\<close> of the
  argument, for every argument of at most eight decimal digits.\<close>

theorem convert2bcd_int32_digits:
  assumes "unat i \<le> 99999999"
  shows "unat (convert2bcd_int32 i) div 16 ^ k mod 16 = unat i div 10 ^ k mod 10"
proof -
  have "unat (convert2bcd_int32 i) = bcd_enc 8 (unat i)"
  proof (cases "i = 0")
    case False
    show ?thesis
      by (rule convert2bcd_general [where k = "unat (log2_int32 i)" and incr = "0x33333333" and msk = "0x88888888"])
        (use assms log2_int32_bounds [OF False] in \<open>simp_all add: rep_nibble_8 rep_nibble_16 Let_def convert2bcd_int32_def\<close>)
  qed (simp add: convert2bcd_int32_def bcd_enc_0)
  then show ?thesis using assms by (simp add: bcd_enc_digits)
qed

lemma convert2bcd_int32_digits_witness:
  "convert2bcd_int32 90123456 = 0x90123456 \<and> unat (convert2bcd_int32 90123456) div 16 ^ 7 mod 16 = 9"
proof -
  have "convert2bcd_int32 90123456 = 0x90123456" by code_simp
  then show ?thesis using convert2bcd_int32_digits [of 90123456 7] by simp
qed

text \<open>\<open>convert2bcd_int64\<close>: the same for arguments of at most sixteen decimal digits.\<close>

theorem convert2bcd_int64_digits:
  assumes "unat i \<le> 9999999999999999"
  shows "unat (convert2bcd_int64 i) div 16 ^ k mod 16 = unat i div 10 ^ k mod 10"
proof -
  have "unat (convert2bcd_int64 i) = bcd_enc 16 (unat i)"
  proof (cases "i = 0")
    case False
    show ?thesis
      by (rule convert2bcd_general [where k = "unat (log2_int64 i)" and incr = "0x3333333333333333" and msk = "0x8888888888888888"])
        (use assms log2_int64_bounds [OF False] in \<open>simp_all add: rep_nibble_8 rep_nibble_16 Let_def convert2bcd_int64_def\<close>)
  qed (simp add: convert2bcd_int64_def bcd_enc_0)
  then show ?thesis using assms by (simp add: bcd_enc_digits)
qed

lemma convert2bcd_int64_digits_witness:
  "convert2bcd_int64 1234567890123456 = 0x1234567890123456 \<and>
   unat (convert2bcd_int64 1234567890123456) div 16 ^ 15 mod 16 = 1"
proof -
  have "convert2bcd_int64 1234567890123456 = 0x1234567890123456" by code_simp
  then show ?thesis using convert2bcd_int64_digits [of 1234567890123456 15] by simp
qed

section \<open>Both widths\<close>

text \<open>\<open>log10_int32\<close> and \<open>log10_int64\<close> are the floor of the logarithm to base 10, for every
  argument but 0.\<close>

theorem log10_int_floor:
  assumes "i \<noteq> 0" and "j \<noteq> 0"
  shows "10 ^ log10_int32 i \<le> unat i \<and> unat i < 10 ^ Suc (log10_int32 i) \<and>
    10 ^ log10_int64 j \<le> unat j \<and> unat j < 10 ^ Suc (log10_int64 j)"
  using log10_int32_floor [OF assms(1)] log10_int64_floor [OF assms(2)] by simp

lemma log10_int_floor_witness: "log10_int32 999 = 2 \<and> (10 :: nat) ^ 2 \<le> 999"
proof -
  have "log10_int32 999 = 2" by code_simp
  then show ?thesis using log10_int_floor [of 999 1] by simp
qed

text \<open>Hexadecimal digit \<open>k\<close> of the result of \<open>convert2bcd_int32\<close> and \<open>convert2bcd_int64\<close> is decimal
  digit \<open>k\<close> of the argument, for arguments of at most eight and sixteen decimal digits.\<close>

theorem convert2bcd_int_digits:
  assumes "unat i \<le> 99999999" and "unat j \<le> 9999999999999999"
  shows "unat (convert2bcd_int32 i) div 16 ^ k mod 16 = unat i div 10 ^ k mod 10 \<and>
    unat (convert2bcd_int64 j) div 16 ^ k mod 16 = unat j div 10 ^ k mod 10"
  using convert2bcd_int32_digits [OF assms(1)] convert2bcd_int64_digits [OF assms(2)] by simp

lemma convert2bcd_int_digits_witness:
  "convert2bcd_int32 90123456 = 0x90123456 \<and> unat (convert2bcd_int32 90123456) div 16 ^ 7 mod 16 = 9"
proof -
  have "convert2bcd_int32 90123456 = 0x90123456" by code_simp
  then show ?thesis using convert2bcd_int_digits [of 90123456 1 7] by simp
qed

end
