(* ===== verification/Int_Factorise.thy ===== *)
theory Int_Factorise
  imports Prelude
begin

text \<open>
  Common factors: Euclid's algorithm and its extended form, C-kern/math/int/factorise.c. The
  functions exist for 32 and 64 bit operands with the same body; the bodies are functions on
  \<open>'a word\<close> here, and the two entry points are their instances. The extended algorithm keeps
  all coefficients as magnitudes and never forms a negative number.
\<close>

section \<open>Definitions\<close>

function commonfactors_loop :: "'a::len word \<Rightarrow> 'a word \<Rightarrow> 'a word" where
  "commonfactors_loop r0 r1 =
     (if r1 \<noteq> 0 then
        let q = r0 div r1;
            r2 = r0 - q * r1
        in commonfactors_loop r1 r2
      else r0)"
  by pat_completeness auto

definition commonfactors_int32 :: "u32 \<Rightarrow> u32 \<Rightarrow> u32" where
  "commonfactors_int32 a b = commonfactors_loop a b"

definition commonfactors_int64 :: "u64 \<Rightarrow> u64 \<Rightarrow> u64" where
  "commonfactors_int64 a b = commonfactors_loop a b"

text \<open>The loop of the extended algorithm; the result is the returned value with \<open>*s\<close> and \<open>*t\<close>.\<close>

function extCommonfactors_loop ::
  "'a::len word \<Rightarrow> 'a word \<Rightarrow> 'a word \<Rightarrow> 'a word \<Rightarrow> 'a word \<Rightarrow> 'a word \<Rightarrow> 'a word \<times> 'a word \<times> 'a word" where
  "extCommonfactors_loop r0 r1 s0 t0 s1 t1 =
     (if r1 \<noteq> 0 then
        let q = r0 div r1;
            r0 = r0 - q * r1;
            s0 = s0 + q * s1;
            t0 = t0 + q * t1
        in if r0 = 0 then (r1, s1, t1)
           else let q = r1 div r0;
                    r1 = r1 - q * r0;
                    s1 = s1 + q * s0;
                    t1 = t1 + q * t0
                in extCommonfactors_loop r0 r1 s0 t0 s1 t1
      else if s1 > s0 then (r0, s1 - s0, t1 - t0)
      else (r0, s0, t0))"
  by pat_completeness auto

definition extCommonfactors_int32 :: "u32 \<Rightarrow> u32 \<Rightarrow> u32 \<times> u32 \<times> u32" where
  "extCommonfactors_int32 a b = extCommonfactors_loop a b 1 0 0 1"

definition extCommonfactors_int64 :: "u64 \<Rightarrow> u64 \<Rightarrow> u64 \<times> u64 \<times> u64" where
  "extCommonfactors_int64 a b = extCommonfactors_loop a b 1 0 0 1"

section \<open>Termination\<close>

lemma word_minus_div_mult: "a - a div b * b = a mod (b :: 'a::len word)"
  by (simp add: minus_div_mult_eq_mod)

lemma unat_word_mod: "unat (a mod b :: 'a::len word) = unat a mod unat b"
  by (rule unat_mod)

lemma unat_word_div: "unat (a div b :: 'a::len word) = unat a div unat b"
  by (rule unat_div)

lemma word_mod_less: "b \<noteq> 0 \<Longrightarrow> unat (a mod b :: 'a::len word) < unat b"
  by (simp add: unat_word_mod unat_gt_0)

termination commonfactors_loop
  by (relation "measure (\<lambda>(r0, r1). unat r1)") (simp_all add: word_minus_div_mult word_mod_less)

termination extCommonfactors_loop
proof (relation "measure (\<lambda>(r0, r1, s0, t0, s1, t1). unat r1)", goal_cases)
  case (2 r0 r1 s0 t0 s1 t1 q r0' s0' t0' q' r1' s1' t1')
  then have "unat r1' < unat r0'" "unat r0' < unat r1"
    by (simp_all add: word_minus_div_mult word_mod_less)
  then show ?case by simp
qed simp

declare commonfactors_loop.simps [simp del] extCommonfactors_loop.simps [simp del]

section \<open>Correctness\<close>

lemma commonfactors_loop_gcd:
  "unat (commonfactors_loop r0 r1) = gcd (unat r0) (unat r1)"
proof (induction r0 r1 rule: commonfactors_loop.induct)
  case (1 r0 r1)
  then show ?case
    by (subst commonfactors_loop.simps)
      (auto simp: Let_def word_minus_div_mult unat_word_mod gcd_red_nat [of "unat r0" "unat r1"])
qed

text \<open>\<open>commonfactors_int32\<close> and \<open>commonfactors_int64\<close> compute the greatest common divisor; both
  loops end for all arguments, 0 included.\<close>

theorem commonfactors_int_gcd:
  "unat (commonfactors_int32 a b) = gcd (unat a) (unat b) \<and>
   unat (commonfactors_int64 c d) = gcd (unat c) (unat d)"
  by (simp add: commonfactors_int32_def commonfactors_int64_def commonfactors_loop_gcd)

text \<open>
  The loop invariant of the extended algorithm at the loop head, over the values as natural
  numbers: the remainders as combinations of \<open>a\<close> and \<open>b\<close>, and \<open>a\<close> and \<open>b\<close> as combinations of the
  remainders, which bounds the coefficients.
\<close>

definition ext_inv :: "nat \<Rightarrow> nat \<Rightarrow> nat \<Rightarrow> nat \<Rightarrow> nat \<Rightarrow> nat \<Rightarrow> nat \<Rightarrow> nat \<Rightarrow> bool" where
  "ext_inv a b r0 r1 s0 t0 s1 t1 \<longleftrightarrow>
     a * s0 = r0 + b * t0 \<and> b * t1 = r1 + a * s1 \<and>
     b = r0 * s1 + r1 * s0 \<and> a = r0 * t1 + r1 * t0 \<and>
     gcd r0 r1 = gcd a b \<and> 0 < r0 \<and> 0 < s0 \<and> 0 < t1"

text \<open>The first half of the body.\<close>

lemma ext_half:
  fixes a b r0 r1 s0 t0 s1 t1 :: nat
  assumes "a * s0 = r0 + b * t0" and "b * t1 = r1 + a * s1"
    and "b = r0 * s1 + r1 * s0" and "a = r0 * t1 + r1 * t0" and "0 < r1"
  defines "q \<equiv> r0 div r1"
  shows "a * (s0 + q * s1) = r0 mod r1 + b * (t0 + q * t1)"
    and "b = (r0 mod r1) * s1 + r1 * (s0 + q * s1)"
    and "a = (r0 mod r1) * t1 + r1 * (t0 + q * t1)"
    and "s0 + q * s1 \<le> b" and "t0 + q * t1 \<le> a"
proof -
  have r0: "r0 = q * r1 + r0 mod r1" unfolding q_def by (rule div_mult_mod_eq [symmetric])
  have "a * (s0 + q * s1) + q * r1 = r0 + b * t0 + q * (r1 + a * s1)"
    using assms(1) by (simp add: algebra_simps)
  also have "\<dots> = r0 mod r1 + b * (t0 + q * t1) + q * r1"
    using assms(2) r0 by (simp add: algebra_simps flip: assms(2))
  finally show "a * (s0 + q * s1) = r0 mod r1 + b * (t0 + q * t1)" by simp
  show b: "b = (r0 mod r1) * s1 + r1 * (s0 + q * s1)"
    using assms(3) by (subst (asm) r0) (simp add: algebra_simps)
  show a: "a = (r0 mod r1) * t1 + r1 * (t0 + q * t1)"
    using assms(4) by (subst (asm) r0) (simp add: algebra_simps)
  have "s0 + q * s1 \<le> r1 * (s0 + q * s1)" "t0 + q * t1 \<le> r1 * (t0 + q * t1)"
    using assms(5) by simp_all
  then show "s0 + q * s1 \<le> b" "t0 + q * t1 \<le> a" using a b by linarith+
qed

text \<open>What the call promises for positive arguments.\<close>

definition ext_result :: "nat \<Rightarrow> nat \<Rightarrow> nat \<Rightarrow> nat \<Rightarrow> nat \<Rightarrow> bool" where
  "ext_result a b c s t \<longleftrightarrow>
     c = gcd a b \<and> b * t = c + a * s \<and> s < b div c \<and> t \<le> a div c \<and> (a div c \<noteq> 1 \<longrightarrow> t < a div c)"

text \<open>The strict bound on \<open>t\<close> follows from the equation: otherwise \<open>a div c\<close> divides 1.\<close>

lemma ext_resultI:
  assumes "c = gcd a b" and "b * t = c + a * s" and "s < b div c" and "t \<le> a div c"
  shows "ext_result a b c s t"
proof -
  have "a div c = 1" if "t = a div c"
  proof -
    have c: "0 < c" "c dvd a" "c dvd b" using assms(1,3) by (auto intro: Nat.gr0I)
    then have "c * (b div c * t) = c * (1 + a div c * s)"
      using assms(2) by (metis (no_types, lifting) distrib_left dvd_mult_div_cancel mult.assoc mult.right_neutral)
    then have "b div c * t = 1 + a div c * s" using c(1) by (metis mult_left_cancel not_gr0)
    then have "a div c dvd 1" using that by (metis dvd_add_left_iff dvd_triv_left dvd_triv_right)
    then show ?thesis by simp
  qed
  then show ?thesis using assms by (auto simp: ext_result_def intro: le_neq_implies_less)
qed

lemma ext_exit:
  assumes inv: "ext_inv a b r0 0 s0 t0 s1 t1" and "s0 < s1" and "t0 \<le> t1"
  shows "ext_result a b r0 (s1 - s0) (t1 - t0)"
proof (rule ext_resultI)
  have g: "a * s0 = r0 + b * t0" "b * t1 = 0 + a * s1" "b = r0 * s1 + 0 * s0" "a = r0 * t1 + 0 * t0"
    "gcd r0 0 = gcd a b" "0 < r0" "0 < s0"
    using inv unfolding ext_inv_def by blast+
  note * = g(1) g(2-4) [unfolded add_0 mult_0 add_0_right] g(6,7)
  show "r0 = gcd a b" using g(5) by simp
  have "a * s0 \<le> a * s1" "b * t0 \<le> b * t1" using assms(2,3) by simp_all
  then show "b * (t1 - t0) = r0 + a * (s1 - s0)" using *(1,2) unfolding diff_mult_distrib2 by linarith
  have "b div r0 = s1" "a div r0 = t1" by (subst *(3) *(4), use *(5) in simp)+
  then show "s1 - s0 < b div r0" "t1 - t0 \<le> a div r0" using *(6) assms(2) by simp_all
qed

lemma ext_early:
  assumes inv: "ext_inv a b r0 r1 s0 t0 s1 t1" and "0 < r1" and "r0 mod r1 = 0"
  shows "ext_result a b r1 s1 t1"
proof (rule ext_resultI)
  define q where "q = r0 div r1"
  have *: "a * s0 = r0 + b * t0" "b * t1 = r1 + a * s1" "b = r0 * s1 + r1 * s0" "a = r0 * t1 + r1 * t0"
    "gcd r0 r1 = gcd a b" "0 < r0" "0 < s0"
    using inv unfolding ext_inv_def by blast+
  have h: "b = r1 * (s0 + q * s1)" "a = r1 * (t0 + q * t1)"
    using ext_half(2,3) [OF *(1-4) assms(2)] by (simp_all only: assms(3) q_def mult_0 add_0)
  have "0 < q" using *(6) assms(2,3) by (simp add: q_def div_greater_zero_iff dvd_imp_le mod_eq_0_iff_dvd)
  then have q: "s1 < s0 + q * s1" "t1 \<le> t0 + q * t1"
    using *(7) mult_le_mono1 [of 1 q s1] mult_le_mono1 [of 1 q t1] by linarith+
  show "r1 = gcd a b" using *(5) assms(3) by (metis gcd_nat.absorb_iff2 mod_eq_0_iff_dvd)
  show "b * t1 = r1 + a * s1" by (rule *(2))
  show "s1 < b div r1" "t1 \<le> a div r1"
    using assms(2) q by (simp_all add: h(1) h(2) del: mult_Suc)
qed

lemma ext_step:
  assumes inv: "ext_inv a b r0 r1 s0 t0 s1 t1" and "0 < r1" and "r0 mod r1 \<noteq> 0"
  defines "r0' \<equiv> r0 mod r1" and "s0' \<equiv> s0 + r0 div r1 * s1" and "t0' \<equiv> t0 + r0 div r1 * t1"
  defines "r1' \<equiv> r1 mod r0'" and "s1' \<equiv> s1 + r1 div r0' * s0'" and "t1' \<equiv> t1 + r1 div r0' * t0'"
  shows "ext_inv a b r0' r1' s0' t0' s1' t1'" and "r1' = 0 \<Longrightarrow> s0' < s1' \<and> t0' \<le> t1'"
    and "s0' \<le> b" "t0' \<le> a" "s1' \<le> b" "t1' \<le> a"
proof -
  have *: "a * s0 = r0 + b * t0" "b * t1 = r1 + a * s1" "b = r0 * s1 + r1 * s0" "a = r0 * t1 + r1 * t0"
    "gcd r0 r1 = gcd a b" "0 < s0" "0 < t1"
    using inv unfolding ext_inv_def by blast+
  note half1 = ext_half [OF *(1-4) assms(2), folded r0'_def s0'_def t0'_def]
  have r0': "0 < r0'" using assms(3) by (simp add: r0'_def)
  have sym: "a = r1 * t0' + r0' * t1" "b = r1 * s0' + r0' * s1"
    using half1(2,3) by (simp_all only: add.commute)
  note half2 = ext_half [OF *(2) half1(1) sym r0', folded r1'_def s1'_def t1'_def]
  have "gcd r0' r1' = gcd a b"
    unfolding r1'_def r0'_def by (metis *(5) gcd.commute gcd_red_nat)
  moreover have "0 < s0'" "0 < t1'" using *(6,7) by (simp_all add: s0'_def t1'_def)
  moreover have "b = r0' * s1' + r1' * s0'" "a = r0' * t1' + r1' * t0'"
    using half2(2,3) by (simp_all only: add.commute)
  ultimately show "ext_inv a b r0' r1' s0' t0' s1' t1'"
    unfolding ext_inv_def using half1(1) half2(1) r0' by blast
  show "s0' \<le> b" "t0' \<le> a" "s1' \<le> b" "t1' \<le> a" by (fact half1 half2)+
  assume "r1' = 0"
  moreover have "r0' < r1" using assms(2) by (simp add: r0'_def)
  ultimately have "2 \<le> r1 div r0'"
    using r0' unfolding r1'_def by (metis One_nat_def Suc_leI div_mult_mod_eq add_0_right less_2_cases_iff mult_0 mult_1 nat_less_le not_less)
  then have "2 * s0' \<le> r1 div r0' * s0'" "1 * t0' \<le> r1 div r0' * t0'" by (intro mult_right_mono; simp)+
  then show "s0' < s1' \<and> t0' \<le> t1'" using \<open>0 < s0'\<close> unfolding s1'_def t1'_def by linarith
qed

lemma unat_fma:
  "unat x + unat q * unat y < 2 ^ LENGTH('a) \<Longrightarrow> unat (x + q * y :: 'a::len word) = unat x + unat q * unat y"
  by (intro unat_add_eq refl unat_mult_no_wrap) simp_all

text \<open>The loop on words: no coefficient wraps, because all stay below \<open>a\<close> and \<open>b\<close>.\<close>

lemma ext_loop_result:
  fixes r0 :: "'a::len word"
  assumes "ext_inv a b (unat r0) (unat r1) (unat s0) (unat t0) (unat s1) (unat t1)"
    and "a < 2 ^ LENGTH('a)" and "b < 2 ^ LENGTH('a)"
    and "r1 = 0 \<Longrightarrow> unat s0 < unat s1 \<and> unat t0 \<le> unat t1"
    and "extCommonfactors_loop r0 r1 s0 t0 s1 t1 = (c, s, t)"
  shows "ext_result a b (unat c) (unat s) (unat t)"
  using assms(1,4,5)
proof (induction r0 r1 s0 t0 s1 t1 rule: extCommonfactors_loop.induct)
  case (1 r0 r1 s0 t0 s1 t1)
  note inv = "1.prems"(1)
  show ?case
  proof (cases "r1 = 0")
    case True
    then have less: "unat s0 < unat s1" "unat t0 \<le> unat t1" using "1.prems"(2) by simp_all
    then have "(c, s, t) = (r0, s1 - s0, t1 - t0)"
      using "1.prems"(3) True by (subst (asm) extCommonfactors_loop.simps) (simp add: word_less_nat_alt)
    then show ?thesis
      using ext_exit [of a b "unat r0" "unat s0" "unat t0" "unat s1" "unat t1"] inv less True
      by (simp add: unat_sub_no_wrap)
  next
    case False
    then have pos: "0 < unat r1" by (simp add: unat_gt_0)
    define r0' s0' t0' where "r0' = r0 - r0 div r1 * r1" and "s0' = s0 + r0 div r1 * s1"
      and "t0' = t0 + r0 div r1 * t1"
    have r0': "unat r0' = unat r0 mod unat r1"
      by (simp add: r0'_def word_minus_div_mult unat_word_mod)
    show ?thesis
    proof (cases "r0' = 0")
      case True
      then have "(c, s, t) = (r1, s1, t1)"
        using "1.prems"(3) False
        by (subst (asm) extCommonfactors_loop.simps) (simp add: Let_def r0'_def)
      then show ?thesis using ext_early [OF inv pos] r0' True by simp
    next
      case r0'_nz: False
      then have nz: "unat r0 mod unat r1 \<noteq> 0" by (simp flip: r0' add: unat_eq_0)
      define r1' s1' t1' where "r1' = r1 - r1 div r0' * r0'" and "s1' = s1 + r1 div r0' * s0'"
        and "t1' = t1 + r1 div r0' * t0'"
      note step = ext_step [OF inv pos nz]
      have r1': "unat r1' = unat r1 mod (unat r0 mod unat r1)"
        by (simp add: r1'_def word_minus_div_mult unat_word_mod r0')
      have s0': "unat s0' = unat s0 + unat r0 div unat r1 * unat s1"
        unfolding s0'_def using step(3) assms(3) by (subst unat_fma) (simp_all add: unat_word_div)
      have t0': "unat t0' = unat t0 + unat r0 div unat r1 * unat t1"
        unfolding t0'_def using step(4) assms(2) by (subst unat_fma) (simp_all add: unat_word_div)
      have s1': "unat s1' = unat s1 + unat r1 div (unat r0 mod unat r1) * (unat s0 + unat r0 div unat r1 * unat s1)"
        unfolding s1'_def using step(5) assms(3) by (subst unat_fma) (simp_all add: unat_word_div r0' s0')
      have t1': "unat t1' = unat t1 + unat r1 div (unat r0 mod unat r1) * (unat t0 + unat r0 div unat r1 * unat t1)"
        unfolding t1'_def using step(6) assms(2) by (subst unat_fma) (simp_all add: unat_word_div r0' t0')
      have "ext_inv a b (unat r0') (unat r1') (unat s0') (unat t0') (unat s1') (unat t1')"
        using step(1) by (simp only: r0' r1' s0' t0' s1' t1')
      moreover have "r1' = 0 \<Longrightarrow> unat s0' < unat s1' \<and> unat t0' \<le> unat t1'"
        using step(2) r1' by (simp add: s0' t0' s1' t1')
      moreover have "extCommonfactors_loop r0' r1' s0' t0' s1' t1' = (c, s, t)"
        using "1.prems"(3) False r0'_nz
        by (subst (asm) extCommonfactors_loop.simps)
          (simp add: Let_def r0'_def s0'_def t0'_def r1'_def s1'_def t1'_def)
      ultimately show ?thesis
        using "1.IH" [OF False refl r0'_def s0'_def t0'_def r0'_nz refl r1'_def s1'_def t1'_def] by blast
    qed
  qed
qed

lemma ext_start:
  assumes "a \<noteq> 0" and "b \<noteq> (0 :: 'a::len word)" and "extCommonfactors_loop a b 1 0 0 1 = (c, s, t)"
  shows "ext_result (unat a) (unat b) (unat c) (unat s) (unat t)"
  by (rule ext_loop_result [OF _ unat_lt_pow unat_lt_pow _ assms(3)])
    (use assms(1,2) in \<open>auto simp: ext_inv_def unat_gt_0\<close>)

text \<open>The extended algorithm for positive arguments returns the greatest common divisor \<open>c\<close> and
  the coefficients of \<open>b * t - a * s = c\<close> with \<open>s < b / c\<close> and \<open>t \<le> a / c\<close>, where \<open>t = a / c\<close>
  only when \<open>a / c\<close> is 1; no intermediate product wraps. (32 bit operands)
\<close>

theorem extCommonfactors_int32_bezout:
  assumes "a \<noteq> 0" and "b \<noteq> 0" and "extCommonfactors_int32 a b = (c, s, t)"
  shows "ext_result (unat a) (unat b) (unat c) (unat s) (unat t)"
  using assms unfolding extCommonfactors_int32_def by (rule ext_start)

lemma extCommonfactors_int32_bezout_witness:
  "extCommonfactors_int32 240 46 = (2, 9, 47) \<and> 46 * 47 = (2 :: nat) + 240 * 9"
proof -
  have "extCommonfactors_int32 240 46 = (2, 9, 47)" by code_simp
  then show ?thesis
    using extCommonfactors_int32_bezout [of 240 46 2 9 47] by (simp add: ext_result_def)
qed

lemma ext_result_equation: "ext_result a b c s t \<Longrightarrow> b * t = c + a * s"
  by (simp add: ext_result_def)

text \<open>The same for 64 bit operands.\<close>

theorem extCommonfactors_int64_bezout:
  assumes "a \<noteq> 0" and "b \<noteq> 0" and "extCommonfactors_int64 a b = (c, s, t)"
  shows "ext_result (unat a) (unat b) (unat c) (unat s) (unat t)"
  using assms unfolding extCommonfactors_int64_def by (rule ext_start)

text \<open>The example of the header: the inverse of 5 modulo \<open>2 ^ 32\<close>.\<close>

lemma extCommonfactors_int64_bezout_witness:
  "extCommonfactors_int64 4294967296 5 = (1, 4, 3435973837) \<and>
   5 * 3435973837 = (1 :: nat) + 4294967296 * 4"
proof -
  have "extCommonfactors_int64 4294967296 5 = (1, 4, 3435973837)" by code_simp
  then show ?thesis
    using ext_result_equation [OF extCommonfactors_int64_bezout [of 4294967296 5 1 4 3435973837]] by simp
qed

text \<open>
  The header promises \<open>t < a / c\<close>. When \<open>a\<close> divides \<open>b\<close> the code returns \<open>t = 1 = a / c\<close>.
\<close>

lemma extCommonfactors_t_not_strict:
  "extCommonfactors_int64 1 5 = (1, 4, 1) \<and> \<not> (1 :: nat) < 1 div 1"
proof -
  have "extCommonfactors_int64 1 5 = (1, 4, 1)" by code_simp
  then show ?thesis by simp
qed

text \<open>For \<open>b = 0\<close> the result is the gcd \<open>a\<close>, but the coefficients are those the header calls wrong.\<close>

lemma extCommonfactors_b_0:
  "extCommonfactors_int32 a 0 = (a, 1, 0)" and "extCommonfactors_int64 c 0 = (c, 1, 0)"
  by (simp_all add: extCommonfactors_int32_def extCommonfactors_int64_def
      extCommonfactors_loop.simps [of _ 0])

text \<open>C38: Both widths of \<open>extCommonfactors_int\<close> compute the greatest common divisor \<open>c\<close> and coefficients
  with \<open>b * t - a * s = c\<close>, \<open>s < b / c\<close> and \<open>t \<le> a / c\<close>.\<close>

theorem extCommonfactors_int_bezout:
  assumes "a \<noteq> 0" and "b \<noteq> 0" and "extCommonfactors_int32 a b = (c, s, t)"
    and "a' \<noteq> 0" and "b' \<noteq> 0" and "extCommonfactors_int64 a' b' = (c', s', t')"
  shows "ext_result (unat a) (unat b) (unat c) (unat s) (unat t) \<and>
    ext_result (unat a') (unat b') (unat c') (unat s') (unat t')"
  using extCommonfactors_int32_bezout [OF assms(1-3)] extCommonfactors_int64_bezout [OF assms(4-6)] by simp

lemma extCommonfactors_int_bezout_witness:
  "extCommonfactors_int32 240 46 = (2, 9, 47) \<and> 46 * 47 = (2 :: nat) + 240 * 9"
proof -
  have "extCommonfactors_int32 240 46 = (2, 9, 47)" "extCommonfactors_int64 4294967296 5 = (1, 4, 3435973837)"
    by code_simp+
  then show ?thesis
    using extCommonfactors_int_bezout [of 240 46 2 9 47 4294967296 5 1 4 3435973837] by (simp add: ext_result_def)
qed

end
