(* ===== verification/Hash_Crc.thy ===== *)
theory Hash_Crc
  imports Prelude
begin

text \<open>
  The cyclic redundancy checks of C-kern/math/hash: CRC-7, CRC-16 and CRC-32. Each has a table
  of 256 precomputed remainders and an update function that consumes a data block byte by byte.
  The locale \<open>crc_register\<close> is what the three share: a linear shift register, and a table that
  does the work of eight shifts. It is interpreted for each of the three, and each update
  function is thereby the bit-serial division by its polynomial.
\<close>

section \<open>CRC-7\<close>

text \<open>The entries are written as in the source, as doubled 7-bit remainders.\<close>

definition s_crc7_precomputed :: "u8 list" where
  "s_crc7_precomputed = [
    2 * 0x00, 2 * 0x09, 2 * 0x12, 2 * 0x1b, 2 * 0x24, 2 * 0x2d, 2 * 0x36, 2 * 0x3f,
    2 * 0x48, 2 * 0x41, 2 * 0x5a, 2 * 0x53, 2 * 0x6c, 2 * 0x65, 2 * 0x7e, 2 * 0x77,
    2 * 0x19, 2 * 0x10, 2 * 0x0b, 2 * 0x02, 2 * 0x3d, 2 * 0x34, 2 * 0x2f, 2 * 0x26,
    2 * 0x51, 2 * 0x58, 2 * 0x43, 2 * 0x4a, 2 * 0x75, 2 * 0x7c, 2 * 0x67, 2 * 0x6e,
    2 * 0x32, 2 * 0x3b, 2 * 0x20, 2 * 0x29, 2 * 0x16, 2 * 0x1f, 2 * 0x04, 2 * 0x0d,
    2 * 0x7a, 2 * 0x73, 2 * 0x68, 2 * 0x61, 2 * 0x5e, 2 * 0x57, 2 * 0x4c, 2 * 0x45,
    2 * 0x2b, 2 * 0x22, 2 * 0x39, 2 * 0x30, 2 * 0x0f, 2 * 0x06, 2 * 0x1d, 2 * 0x14,
    2 * 0x63, 2 * 0x6a, 2 * 0x71, 2 * 0x78, 2 * 0x47, 2 * 0x4e, 2 * 0x55, 2 * 0x5c,
    2 * 0x64, 2 * 0x6d, 2 * 0x76, 2 * 0x7f, 2 * 0x40, 2 * 0x49, 2 * 0x52, 2 * 0x5b,
    2 * 0x2c, 2 * 0x25, 2 * 0x3e, 2 * 0x37, 2 * 0x08, 2 * 0x01, 2 * 0x1a, 2 * 0x13,
    2 * 0x7d, 2 * 0x74, 2 * 0x6f, 2 * 0x66, 2 * 0x59, 2 * 0x50, 2 * 0x4b, 2 * 0x42,
    2 * 0x35, 2 * 0x3c, 2 * 0x27, 2 * 0x2e, 2 * 0x11, 2 * 0x18, 2 * 0x03, 2 * 0x0a,
    2 * 0x56, 2 * 0x5f, 2 * 0x44, 2 * 0x4d, 2 * 0x72, 2 * 0x7b, 2 * 0x60, 2 * 0x69,
    2 * 0x1e, 2 * 0x17, 2 * 0x0c, 2 * 0x05, 2 * 0x3a, 2 * 0x33, 2 * 0x28, 2 * 0x21,
    2 * 0x4f, 2 * 0x46, 2 * 0x5d, 2 * 0x54, 2 * 0x6b, 2 * 0x62, 2 * 0x79, 2 * 0x70,
    2 * 0x07, 2 * 0x0e, 2 * 0x15, 2 * 0x1c, 2 * 0x23, 2 * 0x2a, 2 * 0x31, 2 * 0x38,
    2 * 0x41, 2 * 0x48, 2 * 0x53, 2 * 0x5a, 2 * 0x65, 2 * 0x6c, 2 * 0x77, 2 * 0x7e,
    2 * 0x09, 2 * 0x00, 2 * 0x1b, 2 * 0x12, 2 * 0x2d, 2 * 0x24, 2 * 0x3f, 2 * 0x36,
    2 * 0x58, 2 * 0x51, 2 * 0x4a, 2 * 0x43, 2 * 0x7c, 2 * 0x75, 2 * 0x6e, 2 * 0x67,
    2 * 0x10, 2 * 0x19, 2 * 0x02, 2 * 0x0b, 2 * 0x34, 2 * 0x3d, 2 * 0x26, 2 * 0x2f,
    2 * 0x73, 2 * 0x7a, 2 * 0x61, 2 * 0x68, 2 * 0x57, 2 * 0x5e, 2 * 0x45, 2 * 0x4c,
    2 * 0x3b, 2 * 0x32, 2 * 0x29, 2 * 0x20, 2 * 0x1f, 2 * 0x16, 2 * 0x0d, 2 * 0x04,
    2 * 0x6a, 2 * 0x63, 2 * 0x78, 2 * 0x71, 2 * 0x4e, 2 * 0x47, 2 * 0x5c, 2 * 0x55,
    2 * 0x22, 2 * 0x2b, 2 * 0x30, 2 * 0x39, 2 * 0x06, 2 * 0x0f, 2 * 0x14, 2 * 0x1d,
    2 * 0x25, 2 * 0x2c, 2 * 0x37, 2 * 0x3e, 2 * 0x01, 2 * 0x08, 2 * 0x13, 2 * 0x1a,
    2 * 0x6d, 2 * 0x64, 2 * 0x7f, 2 * 0x76, 2 * 0x49, 2 * 0x40, 2 * 0x5b, 2 * 0x52,
    2 * 0x3c, 2 * 0x35, 2 * 0x2e, 2 * 0x27, 2 * 0x18, 2 * 0x11, 2 * 0x0a, 2 * 0x03,
    2 * 0x74, 2 * 0x7d, 2 * 0x66, 2 * 0x6f, 2 * 0x50, 2 * 0x59, 2 * 0x42, 2 * 0x4b,
    2 * 0x17, 2 * 0x1e, 2 * 0x05, 2 * 0x0c, 2 * 0x33, 2 * 0x3a, 2 * 0x21, 2 * 0x28,
    2 * 0x5f, 2 * 0x56, 2 * 0x4d, 2 * 0x44, 2 * 0x7b, 2 * 0x72, 2 * 0x69, 2 * 0x60,
    2 * 0x0e, 2 * 0x07, 2 * 0x1c, 2 * 0x15, 2 * 0x2a, 2 * 0x23, 2 * 0x38, 2 * 0x31,
    2 * 0x46, 2 * 0x4f, 2 * 0x54, 2 * 0x5d, 2 * 0x62, 2 * 0x6b, 2 * 0x70, 2 * 0x79]"

record crc7_t =
  value7 :: u8

definition init_crc7 :: crc7_t where
  "init_crc7 = \<lparr>value7 = 0\<rparr>"

definition update2_crc7 :: "u8 \<Rightarrow> u8 list \<Rightarrow> u8" where
  "update2_crc7 crcvalue datablock =
     foldl (\<lambda>crc next. s_crc7_precomputed ! unat (next XOR crc)) crcvalue datablock"

definition update_crc7 :: "crc7_t \<Rightarrow> u8 list \<Rightarrow> crc7_t" where
  "update_crc7 crc datablock = crc\<lparr>value7 := update2_crc7 (value7 crc) datablock\<rparr>"

definition value_crc7 :: "crc7_t \<Rightarrow> u8" where
  "value_crc7 crc = drop_bit 1 (value7 crc)"

section \<open>CRC-16\<close>

definition s_crc16_precomputed :: "u16 list" where
  "s_crc16_precomputed = [
    0x0000, 0x1021, 0x2042, 0x3063, 0x4084, 0x50a5, 0x60c6, 0x70e7,
    0x8108, 0x9129, 0xa14a, 0xb16b, 0xc18c, 0xd1ad, 0xe1ce, 0xf1ef,
    0x1231, 0x0210, 0x3273, 0x2252, 0x52b5, 0x4294, 0x72f7, 0x62d6,
    0x9339, 0x8318, 0xb37b, 0xa35a, 0xd3bd, 0xc39c, 0xf3ff, 0xe3de,
    0x2462, 0x3443, 0x0420, 0x1401, 0x64e6, 0x74c7, 0x44a4, 0x5485,
    0xa56a, 0xb54b, 0x8528, 0x9509, 0xe5ee, 0xf5cf, 0xc5ac, 0xd58d,
    0x3653, 0x2672, 0x1611, 0x0630, 0x76d7, 0x66f6, 0x5695, 0x46b4,
    0xb75b, 0xa77a, 0x9719, 0x8738, 0xf7df, 0xe7fe, 0xd79d, 0xc7bc,
    0x48c4, 0x58e5, 0x6886, 0x78a7, 0x0840, 0x1861, 0x2802, 0x3823,
    0xc9cc, 0xd9ed, 0xe98e, 0xf9af, 0x8948, 0x9969, 0xa90a, 0xb92b,
    0x5af5, 0x4ad4, 0x7ab7, 0x6a96, 0x1a71, 0x0a50, 0x3a33, 0x2a12,
    0xdbfd, 0xcbdc, 0xfbbf, 0xeb9e, 0x9b79, 0x8b58, 0xbb3b, 0xab1a,
    0x6ca6, 0x7c87, 0x4ce4, 0x5cc5, 0x2c22, 0x3c03, 0x0c60, 0x1c41,
    0xedae, 0xfd8f, 0xcdec, 0xddcd, 0xad2a, 0xbd0b, 0x8d68, 0x9d49,
    0x7e97, 0x6eb6, 0x5ed5, 0x4ef4, 0x3e13, 0x2e32, 0x1e51, 0x0e70,
    0xff9f, 0xefbe, 0xdfdd, 0xcffc, 0xbf1b, 0xaf3a, 0x9f59, 0x8f78,
    0x9188, 0x81a9, 0xb1ca, 0xa1eb, 0xd10c, 0xc12d, 0xf14e, 0xe16f,
    0x1080, 0x00a1, 0x30c2, 0x20e3, 0x5004, 0x4025, 0x7046, 0x6067,
    0x83b9, 0x9398, 0xa3fb, 0xb3da, 0xc33d, 0xd31c, 0xe37f, 0xf35e,
    0x02b1, 0x1290, 0x22f3, 0x32d2, 0x4235, 0x5214, 0x6277, 0x7256,
    0xb5ea, 0xa5cb, 0x95a8, 0x8589, 0xf56e, 0xe54f, 0xd52c, 0xc50d,
    0x34e2, 0x24c3, 0x14a0, 0x0481, 0x7466, 0x6447, 0x5424, 0x4405,
    0xa7db, 0xb7fa, 0x8799, 0x97b8, 0xe75f, 0xf77e, 0xc71d, 0xd73c,
    0x26d3, 0x36f2, 0x0691, 0x16b0, 0x6657, 0x7676, 0x4615, 0x5634,
    0xd94c, 0xc96d, 0xf90e, 0xe92f, 0x99c8, 0x89e9, 0xb98a, 0xa9ab,
    0x5844, 0x4865, 0x7806, 0x6827, 0x18c0, 0x08e1, 0x3882, 0x28a3,
    0xcb7d, 0xdb5c, 0xeb3f, 0xfb1e, 0x8bf9, 0x9bd8, 0xabbb, 0xbb9a,
    0x4a75, 0x5a54, 0x6a37, 0x7a16, 0x0af1, 0x1ad0, 0x2ab3, 0x3a92,
    0xfd2e, 0xed0f, 0xdd6c, 0xcd4d, 0xbdaa, 0xad8b, 0x9de8, 0x8dc9,
    0x7c26, 0x6c07, 0x5c64, 0x4c45, 0x3ca2, 0x2c83, 0x1ce0, 0x0cc1,
    0xef1f, 0xff3e, 0xcf5d, 0xdf7c, 0xaf9b, 0xbfba, 0x8fd9, 0x9ff8,
    0x6e17, 0x7e36, 0x4e55, 0x5e74, 0x2e93, 0x3eb2, 0x0ed1, 0x1ef0]"

record crc16_t =
  value16 :: u16

definition init_crc16 :: crc16_t where
  "init_crc16 = \<lparr>value16 = 0\<rparr>"

definition update2_crc16 :: "u16 \<Rightarrow> u8 list \<Rightarrow> u16" where
  "update2_crc16 crcvalue datablock =
     foldl (\<lambda>crc next.
       s_crc16_precomputed ! unat (next XOR ucast (drop_bit 8 crc) :: u8) XOR push_bit 8 crc)
       crcvalue datablock"

definition update_crc16 :: "crc16_t \<Rightarrow> u8 list \<Rightarrow> crc16_t" where
  "update_crc16 crc datablock = crc\<lparr>value16 := update2_crc16 (value16 crc) datablock\<rparr>"

definition value_crc16 :: "crc16_t \<Rightarrow> u16" where
  "value_crc16 crc = value16 crc"

section \<open>CRC-32\<close>

definition s_crc32_precomputed :: "u32 list" where
  "s_crc32_precomputed = [
    0x00000000, 0x77073096, 0xee0e612c, 0x990951ba, 0x076dc419, 0x706af48f, 0xe963a535, 0x9e6495a3,
    0x0edb8832, 0x79dcb8a4, 0xe0d5e91e, 0x97d2d988, 0x09b64c2b, 0x7eb17cbd, 0xe7b82d07, 0x90bf1d91,
    0x1db71064, 0x6ab020f2, 0xf3b97148, 0x84be41de, 0x1adad47d, 0x6ddde4eb, 0xf4d4b551, 0x83d385c7,
    0x136c9856, 0x646ba8c0, 0xfd62f97a, 0x8a65c9ec, 0x14015c4f, 0x63066cd9, 0xfa0f3d63, 0x8d080df5,
    0x3b6e20c8, 0x4c69105e, 0xd56041e4, 0xa2677172, 0x3c03e4d1, 0x4b04d447, 0xd20d85fd, 0xa50ab56b,
    0x35b5a8fa, 0x42b2986c, 0xdbbbc9d6, 0xacbcf940, 0x32d86ce3, 0x45df5c75, 0xdcd60dcf, 0xabd13d59,
    0x26d930ac, 0x51de003a, 0xc8d75180, 0xbfd06116, 0x21b4f4b5, 0x56b3c423, 0xcfba9599, 0xb8bda50f,
    0x2802b89e, 0x5f058808, 0xc60cd9b2, 0xb10be924, 0x2f6f7c87, 0x58684c11, 0xc1611dab, 0xb6662d3d,
    0x76dc4190, 0x01db7106, 0x98d220bc, 0xefd5102a, 0x71b18589, 0x06b6b51f, 0x9fbfe4a5, 0xe8b8d433,
    0x7807c9a2, 0x0f00f934, 0x9609a88e, 0xe10e9818, 0x7f6a0dbb, 0x086d3d2d, 0x91646c97, 0xe6635c01,
    0x6b6b51f4, 0x1c6c6162, 0x856530d8, 0xf262004e, 0x6c0695ed, 0x1b01a57b, 0x8208f4c1, 0xf50fc457,
    0x65b0d9c6, 0x12b7e950, 0x8bbeb8ea, 0xfcb9887c, 0x62dd1ddf, 0x15da2d49, 0x8cd37cf3, 0xfbd44c65,
    0x4db26158, 0x3ab551ce, 0xa3bc0074, 0xd4bb30e2, 0x4adfa541, 0x3dd895d7, 0xa4d1c46d, 0xd3d6f4fb,
    0x4369e96a, 0x346ed9fc, 0xad678846, 0xda60b8d0, 0x44042d73, 0x33031de5, 0xaa0a4c5f, 0xdd0d7cc9,
    0x5005713c, 0x270241aa, 0xbe0b1010, 0xc90c2086, 0x5768b525, 0x206f85b3, 0xb966d409, 0xce61e49f,
    0x5edef90e, 0x29d9c998, 0xb0d09822, 0xc7d7a8b4, 0x59b33d17, 0x2eb40d81, 0xb7bd5c3b, 0xc0ba6cad,
    0xedb88320, 0x9abfb3b6, 0x03b6e20c, 0x74b1d29a, 0xead54739, 0x9dd277af, 0x04db2615, 0x73dc1683,
    0xe3630b12, 0x94643b84, 0x0d6d6a3e, 0x7a6a5aa8, 0xe40ecf0b, 0x9309ff9d, 0x0a00ae27, 0x7d079eb1,
    0xf00f9344, 0x8708a3d2, 0x1e01f268, 0x6906c2fe, 0xf762575d, 0x806567cb, 0x196c3671, 0x6e6b06e7,
    0xfed41b76, 0x89d32be0, 0x10da7a5a, 0x67dd4acc, 0xf9b9df6f, 0x8ebeeff9, 0x17b7be43, 0x60b08ed5,
    0xd6d6a3e8, 0xa1d1937e, 0x38d8c2c4, 0x4fdff252, 0xd1bb67f1, 0xa6bc5767, 0x3fb506dd, 0x48b2364b,
    0xd80d2bda, 0xaf0a1b4c, 0x36034af6, 0x41047a60, 0xdf60efc3, 0xa867df55, 0x316e8eef, 0x4669be79,
    0xcb61b38c, 0xbc66831a, 0x256fd2a0, 0x5268e236, 0xcc0c7795, 0xbb0b4703, 0x220216b9, 0x5505262f,
    0xc5ba3bbe, 0xb2bd0b28, 0x2bb45a92, 0x5cb36a04, 0xc2d7ffa7, 0xb5d0cf31, 0x2cd99e8b, 0x5bdeae1d,
    0x9b64c2b0, 0xec63f226, 0x756aa39c, 0x026d930a, 0x9c0906a9, 0xeb0e363f, 0x72076785, 0x05005713,
    0x95bf4a82, 0xe2b87a14, 0x7bb12bae, 0x0cb61b38, 0x92d28e9b, 0xe5d5be0d, 0x7cdcefb7, 0x0bdbdf21,
    0x86d3d2d4, 0xf1d4e242, 0x68ddb3f8, 0x1fda836e, 0x81be16cd, 0xf6b9265b, 0x6fb077e1, 0x18b74777,
    0x88085ae6, 0xff0f6a70, 0x66063bca, 0x11010b5c, 0x8f659eff, 0xf862ae69, 0x616bffd3, 0x166ccf45,
    0xa00ae278, 0xd70dd2ee, 0x4e048354, 0x3903b3c2, 0xa7672661, 0xd06016f7, 0x4969474d, 0x3e6e77db,
    0xaed16a4a, 0xd9d65adc, 0x40df0b66, 0x37d83bf0, 0xa9bcae53, 0xdebb9ec5, 0x47b2cf7f, 0x30b5ffe9,
    0xbdbdf21c, 0xcabac28a, 0x53b39330, 0x24b4a3a6, 0xbad03605, 0xcdd70693, 0x54de5729, 0x23d967bf,
    0xb3667a2e, 0xc4614ab8, 0x5d681b02, 0x2a6f2b94, 0xb40bbe37, 0xc30c8ea1, 0x5a05df1b, 0x2d02ef8d]"

record crc32_t =
  value32 :: u32

definition init_crc32 :: crc32_t where
  "init_crc32 = \<lparr>value32 = -1\<rparr>"

definition update2_crc32 :: "u32 \<Rightarrow> u8 list \<Rightarrow> u32" where
  "update2_crc32 crcvalue datablock =
     foldl (\<lambda>v next. drop_bit 8 v XOR s_crc32_precomputed ! unat (next XOR ucast v :: u8))
       crcvalue datablock"

definition update_crc32 :: "crc32_t \<Rightarrow> u8 list \<Rightarrow> crc32_t" where
  "update_crc32 crc datablock = crc\<lparr>value32 := update2_crc32 (value32 crc) datablock\<rparr>"

definition value_crc32 :: "crc32_t \<Rightarrow> u32" where
  "value_crc32 crc = value32 crc XOR -1"

definition calculate_crc32 :: "u8 list \<Rightarrow> u32" where
  "calculate_crc32 datablock = update2_crc32 (-1) datablock XOR -1"

section \<open>The shift register behind a table\<close>

text \<open>
  \<open>shift\<close> is one step of the register without input. A byte enters at the places
  \<open>pos 0, ..., pos 7\<close>, in the order its bits \<open>nth_bit b 0, ..., nth_bit b 7\<close> are processed. The
  table holds the register after eight shifts of a byte; a register splits into the byte
  \<open>hi r\<close> that leaves within eight shifts and the part \<open>rest r\<close> that is only moved.
\<close>

locale crc_register =
  fixes shift :: "'a::len word \<Rightarrow> 'a word"
    and pos :: "nat \<Rightarrow> 'a word"
    and nth_bit :: "u8 \<Rightarrow> nat \<Rightarrow> bool"
    and table :: "u8 \<Rightarrow> 'a word"
    and embed :: "u8 \<Rightarrow> 'a word"
    and hi :: "'a word \<Rightarrow> u8"
    and rest :: "'a word \<Rightarrow> 'a word"
  assumes shift_xor: "shift (x XOR y) = shift x XOR shift y"
    and shift_pos: "k < 7 \<Longrightarrow> shift (pos (Suc k)) = pos k"
    and embed_xor: "embed (a XOR b) = embed a XOR embed b"
    and embed_bits: "embed b = foldr (\<lambda>k x. (if nth_bit b k then pos k else 0) XOR x) [0..<8] 0"
    and table_shift: "table b = (shift ^^ 8) (embed b)"
    and shift_split: "(shift ^^ 8) r = table (hi r) XOR rest r"
begin

text \<open>One step of the bit-serial division, and the step of the table algorithm.\<close>

definition bit_step :: "'a word \<Rightarrow> bool \<Rightarrow> 'a word" where
  "bit_step r c = shift (r XOR (if c then pos 0 else 0))"

definition byte_step :: "'a word \<Rightarrow> u8 \<Rightarrow> 'a word" where
  "byte_step r b = table (b XOR hi r) XOR rest r"

lemma shift_0: "shift 0 = 0"
  using shift_xor [of 0 0] by simp

lemma iter_xor: "(shift ^^ k) (x XOR y) = (shift ^^ k) x XOR (shift ^^ k) y"
  by (induction k) (simp_all add: shift_xor)

lemma iter_pos: "k < 8 \<Longrightarrow> (shift ^^ k) (if c then pos k else 0) = (if c then pos 0 else 0)"
proof (induction k)
  case (Suc k)
  have "(shift ^^ Suc k) (if c then pos (Suc k) else 0) = (shift ^^ k) (if c then pos k else 0)"
    using Suc.prems by (simp add: funpow_Suc_right shift_pos shift_0 del: funpow.simps)
  then show ?case using Suc by simp
qed simp

lemma bits_step:
  "n \<le> 8 \<Longrightarrow> foldl bit_step r (map (nth_bit b) [0..<n])
   = (shift ^^ n) (r XOR foldr (\<lambda>k x. (if nth_bit b k then pos k else 0) XOR x) [0..<n] 0)"
proof (induction n)
  case (Suc n)
  let ?c = "if nth_bit b n then pos n else 0"
  let ?f = "\<lambda>k x. (if nth_bit b k then pos k else 0) XOR x"
  have snoc: "foldr ?f xs x = foldr ?f xs 0 XOR x" for xs x
    by (induction xs) (simp_all add: ac_simps)
  have "foldl bit_step r (map (nth_bit b) [0..<Suc n])
    = bit_step ((shift ^^ n) (r XOR foldr ?f [0..<n] 0)) (nth_bit b n)"
    using Suc by simp
  also have "\<dots> = shift ((shift ^^ n) (r XOR foldr ?f [0..<n] 0) XOR (if nth_bit b n then pos 0 else 0))"
    by (rule bit_step_def)
  also have "\<dots> = shift ((shift ^^ n) (r XOR foldr ?f [0..<n] 0) XOR (shift ^^ n) ?c)"
    using Suc.prems by (simp add: iter_pos)
  also have "\<dots> = (shift ^^ Suc n) (r XOR foldr ?f [0..<n] 0 XOR ?c)"
    by (simp add: iter_xor xor.assoc)
  also have "r XOR foldr ?f [0..<n] 0 XOR ?c = r XOR foldr ?f [0..<Suc n] 0"
    using snoc [of "[0..<n]" ?c] by (simp add: ac_simps)
  finally show ?case .
qed simp

text \<open>One table step is eight bit-serial steps.\<close>

lemma byte_step_bits: "byte_step r b = foldl bit_step r (map (nth_bit b) [0..<8])"
proof -
  have "foldl bit_step r (map (nth_bit b) [0..<8]) = (shift ^^ 8) (r XOR embed b)"
    unfolding embed_bits by (rule bits_step) simp
  also have "\<dots> = (shift ^^ 8) r XOR (shift ^^ 8) (embed b)" by (rule iter_xor)
  also have "\<dots> = (table (hi r) XOR rest r) XOR table b"
    unfolding shift_split [of r] table_shift [of b] ..
  also have "\<dots> = (table b XOR table (hi r)) XOR rest r" by (simp only: ac_simps)
  also have "table b XOR table (hi r) = table (b XOR hi r)"
    unfolding table_shift embed_xor iter_xor ..
  finally show ?thesis by (simp only: byte_step_def)
qed

lemma block_bits:
  "foldl byte_step r bs = foldl bit_step r (concat (map (\<lambda>b. map (nth_bit b) [0..<8]) bs))"
  by (induction bs arbitrary: r) (simp_all add: byte_step_bits del: upt_rec upt_Suc)

end

section \<open>The three registers\<close>

text \<open>
  Registers that shift to the left, with the polynomial \<open>p\<close> below the bit that leaves, and
  registers that shift to the right.
\<close>

definition shift_left :: "'a::len word \<Rightarrow> 'a word \<Rightarrow> 'a word" where
  "shift_left p r = (if bit r (LENGTH('a) - 1) then push_bit 1 r XOR p else push_bit 1 r)"

definition shift_right :: "'a::len word \<Rightarrow> 'a word \<Rightarrow> 'a word" where
  "shift_right p r = (if bit r 0 then drop_bit 1 r XOR p else drop_bit 1 r)"

definition crc7_entry :: "u8 \<Rightarrow> u8" where "crc7_entry b = s_crc7_precomputed ! unat b"
definition crc16_entry :: "u8 \<Rightarrow> u16" where "crc16_entry b = s_crc16_precomputed ! unat b"
definition crc32_entry :: "u8 \<Rightarrow> u32" where "crc32_entry b = s_crc32_precomputed ! unat b"

lemma shift_left_xor: "shift_left p (x XOR y) = shift_left p x XOR shift_left p y"
  by (simp add: shift_left_def bit_xor_iff push_bit_xor ac_simps)

lemma shift_right_xor: "shift_right p (x XOR y) = shift_right p x XOR shift_right p y"
  by (simp add: shift_right_def bit_xor_iff drop_bit_xor ac_simps)

text \<open>
  The values of a linear function on the bytes, listed by doubling: the second half of the list
  is the first half with the value at the new bit added. A table is compared with it at the
  cost of one XOR for each entry.
\<close>

primrec linear_table :: "(u8 \<Rightarrow> 'a::len word) \<Rightarrow> nat \<Rightarrow> 'a word list" where
  "linear_table f 0 = [0]"
| "linear_table f (Suc k) = (let l = linear_table f k; b = f (push_bit k 1) in l @ map (\<lambda>x. b XOR x) l)"

lemma of_nat_add_power_xor:
  assumes "n < 2 ^ k" and "k < 8"
  shows "(of_nat (n + 2 ^ k) :: u8) = push_bit k 1 XOR of_nat n"
proof -
  have "unat (of_nat n :: u8) = n"
    using assms power_strict_increasing [of k 8 "2 :: nat"] by (simp add: unat_of_nat)
  moreover have "unat (push_bit k 1 :: u8) = 2 ^ k"
    using assms(2) power_strict_increasing [of k 8 "2 :: nat"] by (subst unat_push_bit_no_wrap) simp_all
  ultimately have "push_bit k 1 AND of_nat n = (0 :: u8)"
    using assms(1) by (intro and_zero_dvd [of k]) (simp_all del: push_bit_of_1)
  then have "push_bit k 1 XOR of_nat n = (push_bit k 1 + of_nat n :: u8)"
    by (simp only: disjunctive_add_eq_xor)
  then show ?thesis by (simp add: push_bit_eq_mult)
qed

lemma linear_table_nth:
  assumes lin: "\<And>x y. f (x XOR y) = f x XOR f y"
  shows "k \<le> 8 \<Longrightarrow> length (linear_table f k) = 2 ^ k \<and> (\<forall>n<2 ^ k. linear_table f k ! n = f (of_nat n))"
proof (induction k)
  case 0
  have "f 0 = 0" using lin [of 0 0] by simp
  then show ?case by simp
next
  case (Suc k)
  have "linear_table f (Suc k) ! n = f (of_nat n)" if n: "n < 2 ^ Suc k" for n
  proof (cases "n < 2 ^ k")
    case True
    with Suc show ?thesis by (simp add: Let_def nth_append)
  next
    case False
    then have m: "n = n - 2 ^ k + 2 ^ k" "n - 2 ^ k < 2 ^ k" using n by simp_all
    have "linear_table f (Suc k) ! n = f (push_bit k 1) XOR f (of_nat (n - 2 ^ k))"
      using Suc False m(2) by (simp add: Let_def nth_append)
    then show ?thesis
      using of_nat_add_power_xor [OF m(2)] Suc.prems by (simp add: lin flip: m(1))
  qed
  with Suc show ?case by (simp add: Let_def)
qed

lemma linear_table_entry:
  assumes "\<And>x y. f (x XOR y) = f x XOR f y" and "t = linear_table f 8"
  shows "t ! unat b = f b"
  using linear_table_nth [OF assms(1), of 8] unat_u8_bound [of b] assms(2) by simp

lemma shift_left_iter_xor: "(shift_left p ^^ k) (x XOR y) = (shift_left p ^^ k) x XOR (shift_left p ^^ k) y"
  by (induction k) (simp_all add: shift_left_xor)

lemma shift_right_iter_xor: "(shift_right p ^^ k) (x XOR y) = (shift_right p ^^ k) x XOR (shift_right p ^^ k) y"
  by (induction k) (simp_all add: shift_right_xor)

lemma crc7_table: "crc7_entry b = (shift_left 0x12 ^^ 8) b"
  unfolding crc7_entry_def
proof (rule linear_table_entry)
  show "s_crc7_precomputed = linear_table (shift_left 0x12 ^^ 8) 8" by code_simp
qed (rule shift_left_iter_xor)

lemma crc16_table: "crc16_entry b = (shift_left 0x1021 ^^ 8) (push_bit 8 (ucast b))"
  unfolding crc16_entry_def
proof (rule linear_table_entry)
  show "s_crc16_precomputed = linear_table (\<lambda>b. (shift_left 0x1021 ^^ 8) (push_bit 8 (ucast b))) 8" by code_simp
qed (simp add: shift_left_iter_xor unsigned_xor_eq push_bit_xor)

lemma crc32_table: "crc32_entry b = (shift_right 0xedb88320 ^^ 8) (ucast b)"
  unfolding crc32_entry_def
proof (rule linear_table_entry)
  show "s_crc32_precomputed = linear_table (\<lambda>b. (shift_right 0xedb88320 ^^ 8) (ucast b)) 8" by code_simp
qed (simp add: shift_right_iter_xor unsigned_xor_eq)

text \<open>A register loses its topmost (lowest) byte within eight shifts; the rest is only moved.\<close>

lemma shift_left_iter_low:
  fixes x :: "'a::len word"
  assumes "\<And>n. bit x n \<Longrightarrow> n + k < LENGTH('a)"
  shows "(shift_left p ^^ k) x = push_bit k x"
  using assms
proof (induction k)
  case (Suc k)
  have "(shift_left p ^^ k) x = push_bit k x"
    using Suc.prems by (intro Suc.IH) fastforce
  moreover have "\<not> bit (push_bit k x) (LENGTH('a) - 1)"
    using Suc.prems [of "LENGTH('a) - 1 - k"] by (auto simp: bit_push_bit_iff)
  ultimately have "(shift_left p ^^ Suc k) x = push_bit 1 (push_bit k x)"
    by (simp only: funpow.simps comp_apply shift_left_def if_False)
  then show ?case by (simp only: push_bit_push_bit plus_1_eq_Suc)
qed simp

lemma shift_right_iter_high:
  fixes x :: "'a::len word"
  assumes "\<And>n. bit x n \<Longrightarrow> k \<le> n"
  shows "(shift_right p ^^ k) x = drop_bit k x"
  using assms
proof (induction k)
  case (Suc k)
  have "(shift_right p ^^ k) x = drop_bit k x"
    using Suc.prems by (intro Suc.IH) (meson Suc_leD)
  moreover have "\<not> bit (drop_bit k x) 0"
    using Suc.prems [of k] by (auto simp: bit_drop_bit_eq)
  ultimately have "(shift_right p ^^ Suc k) x = drop_bit 1 (drop_bit k x)"
    by (simp only: funpow.simps comp_apply shift_right_def if_False)
  then show ?case by (simp only: drop_bit_drop_bit plus_1_eq_Suc)
qed simp

lemma shift_left_split:
  fixes r :: "'a::len word"
  assumes "8 \<le> LENGTH('a)"
  shows "(shift_left p ^^ 8) r
    = (shift_left p ^^ 8) (push_bit (LENGTH('a) - 8) (drop_bit (LENGTH('a) - 8) r)) XOR push_bit 8 r"
proof -
  let ?lo = "take_bit (LENGTH('a) - 8) r"
  have "r = push_bit (LENGTH('a) - 8) (drop_bit (LENGTH('a) - 8) r) XOR ?lo"
    by (rule bit_eqI) (auto simp: bit_simps)
  then have "(shift_left p ^^ 8) r
    = (shift_left p ^^ 8) (push_bit (LENGTH('a) - 8) (drop_bit (LENGTH('a) - 8) r)) XOR (shift_left p ^^ 8) ?lo"
    by (metis shift_left_iter_xor)
  moreover have "(shift_left p ^^ 8) ?lo = push_bit 8 ?lo"
    by (rule shift_left_iter_low) (auto simp: bit_take_bit_iff)
  moreover have "push_bit 8 ?lo = push_bit 8 r"
    using assms by (intro bit_eqI) (auto simp: bit_simps)
  ultimately show ?thesis by simp
qed

lemma shift_right_split:
  fixes r :: "'a::len word"
  shows "(shift_right p ^^ 8) r = (shift_right p ^^ 8) (take_bit 8 r) XOR drop_bit 8 r"
proof -
  let ?hi = "push_bit 8 (drop_bit 8 r)"
  have "r = take_bit 8 r XOR ?hi"
    by (rule bit_eqI) (auto simp: bit_simps)
  then have "(shift_right p ^^ 8) r = (shift_right p ^^ 8) (take_bit 8 r) XOR (shift_right p ^^ 8) ?hi"
    by (metis shift_right_iter_xor)
  moreover have "(shift_right p ^^ 8) ?hi = drop_bit 8 ?hi"
    by (rule shift_right_iter_high) (auto simp: bit_push_bit_iff)
  moreover have "drop_bit 8 ?hi = drop_bit 8 r"
    by (rule bit_eqI) (auto simp: bit_simps dest: bit_imp_le_length)
  ultimately show ?thesis by simp
qed

text \<open>The byte is the sum of its bits at their places.\<close>

lemma bit_sum_places:
  "distinct (map m ks) \<Longrightarrow>
   bit (foldr (\<lambda>k x. (if P k then push_bit (m k) 1 else 0) XOR x) ks 0 :: 'a::len word) n
   \<longleftrightarrow> n < LENGTH('a) \<and> (\<exists>k\<in>set ks. m k = n \<and> P k)"
proof (induction ks)
  case (Cons a ks)
  then have "m a \<noteq> m k" if "k \<in> set ks" for k using that by auto
  then have "\<not> (\<exists>k\<in>set ks. m k = n \<and> P k)" if "m a = n" using that by fastforce
  with Cons show ?case by (cases "m a = n") (auto simp: bit_simps)
qed simp

lemma shift_left_pos:
  "m = Suc n \<Longrightarrow> m < LENGTH('a) \<Longrightarrow> shift_left p (push_bit n 1 :: 'a::len word) = push_bit m 1"
  by (auto simp: shift_left_def bit_simps push_bit_eq_mult)

interpretation crc7: crc_register "shift_left 0x12" "\<lambda>k. push_bit (7 - k) 1 :: u8" "\<lambda>b k. bit b (7 - k)"
  crc7_entry "\<lambda>b. b" "\<lambda>r. r" "\<lambda>_. 0"
proof unfold_locales
  fix b :: u8 and k :: nat
  show "shift_left 0x12 (push_bit (7 - Suc k) 1) = (push_bit (7 - k) 1 :: u8)" if "k < 7"
    using that by (intro shift_left_pos) auto
  show "b = foldr (\<lambda>k x. (if bit b (7 - k) then push_bit (7 - k) 1 else 0) XOR x) [0..<8] 0"
  proof (rule bit_eqI)
    fix n
    show "bit b n \<longleftrightarrow> bit (foldr (\<lambda>k x. (if bit b (7 - k) then push_bit (7 - k) 1 else 0) XOR x) [0..<8] 0 :: u8) n"
      using bit_imp_le_length [of b n]
      by (subst bit_sum_places) (auto simp: distinct_map inj_on_def intro: bexI [of _ "7 - n"])
  qed
qed (simp_all add: shift_left_xor crc7_table)

interpretation crc16: crc_register "shift_left 0x1021" "\<lambda>k. push_bit (15 - k) 1 :: u16" "\<lambda>b k. bit b (7 - k)"
  crc16_entry "\<lambda>b. push_bit 8 (ucast b)" "\<lambda>r. ucast (drop_bit 8 r)" "push_bit 8"
proof unfold_locales
  fix b :: u8 and k :: nat and r :: u16
  show "shift_left 0x1021 (push_bit (15 - Suc k) 1) = (push_bit (15 - k) 1 :: u16)" if "k < 7"
    using that by (intro shift_left_pos) auto
  show "push_bit 8 (ucast b) = foldr (\<lambda>k x. (if bit b (7 - k) then push_bit (15 - k) 1 else 0) XOR x) [0..<8] (0 :: u16)"
  proof (rule bit_eqI)
    fix n
    show "bit (push_bit 8 (ucast b) :: u16) n
      \<longleftrightarrow> bit (foldr (\<lambda>k x. (if bit b (7 - k) then push_bit (15 - k) 1 else 0) XOR x) [0..<8] 0 :: u16) n"
      using bit_imp_le_length [of b "n - 8"]
      by (subst bit_sum_places) (auto simp: distinct_map inj_on_def bit_simps intro: bexI [of _ "15 - n"])
  qed
  have "push_bit 8 (ucast (ucast (drop_bit 8 r) :: u8)) = (push_bit 8 (drop_bit 8 r) :: u16)"
    by (rule bit_eqI) (auto simp: bit_simps)
  then show "(shift_left 0x1021 ^^ 8) r = crc16_entry (ucast (drop_bit 8 r)) XOR push_bit 8 r"
    using shift_left_split [of "0x1021" r] by (simp add: crc16_table)
qed (simp_all add: shift_left_xor crc16_table unsigned_xor_eq push_bit_xor)

interpretation crc32: crc_register "shift_right 0xedb88320" "\<lambda>k. push_bit k 1 :: u32" "bit"
  crc32_entry ucast ucast "drop_bit 8"
proof unfold_locales
  fix b :: u8 and k :: nat and r :: u32
  show "shift_right 0xedb88320 (push_bit (Suc k) 1) = (push_bit k 1 :: u32)" if "k < 7"
    using that by (intro bit_eqI) (auto simp: shift_right_def bit_simps)
  show "ucast b = foldr (\<lambda>k x. (if bit b k then push_bit k 1 else 0) XOR x) [0..<8] (0 :: u32)"
  proof (rule bit_eqI)
    fix n
    show "bit (ucast b :: u32) n
      \<longleftrightarrow> bit (foldr (\<lambda>k x. (if bit b k then push_bit k 1 else 0) XOR x) [0..<8] 0 :: u32) n"
      using bit_imp_le_length [of b n]
      by (subst bit_sum_places) (auto simp: bit_simps)
  qed
  have "ucast (ucast r :: u8) = (take_bit 8 r :: u32)"
    by (rule bit_eqI) (auto simp: bit_simps)
  then show "(shift_right 0xedb88320 ^^ 8) r = crc32_entry (ucast r) XOR drop_bit 8 r"
    using shift_right_split [of "0xedb88320" r] by (simp add: crc32_table)
qed (simp_all add: shift_right_xor crc32_table unsigned_xor_eq)

section \<open>The checksums are bit-serial divisions\<close>

text \<open>
  The reference: a register of exactly the width of the checksum that takes in one message bit
  at a time. CRC-7 and CRC-16 process the bits of a byte from the most significant one, CRC-32
  from the least significant one.
\<close>

definition serial_left :: "'a::len word \<Rightarrow> 'a word \<Rightarrow> bool \<Rightarrow> 'a word" where
  "serial_left p r c = shift_left p (r XOR (if c then push_bit (LENGTH('a) - 1) 1 else 0))"

definition serial_right :: "'a::len word \<Rightarrow> 'a word \<Rightarrow> bool \<Rightarrow> 'a word" where
  "serial_right p r c = shift_right p (r XOR (if c then 1 else 0))"

definition msb_bits :: "u8 list \<Rightarrow> bool list" where
  "msb_bits bs = concat (map (\<lambda>b. map (\<lambda>k. bit b (7 - k)) [0..<8]) bs)"

definition lsb_bits :: "u8 list \<Rightarrow> bool list" where
  "lsb_bits bs = concat (map (\<lambda>b. map (bit b) [0..<8]) bs)"

lemma crc7_update_steps: "update2_crc7 v bs = foldl crc7.byte_step v bs"
proof -
  have "crc7.byte_step = (\<lambda>crc next. s_crc7_precomputed ! unat (next XOR crc))"
    by (intro ext) (simp only: crc7.byte_step_def crc7_entry_def xor.right_neutral)
  then show ?thesis by (simp only: update2_crc7_def)
qed

lemma crc16_update_steps: "update2_crc16 v bs = foldl crc16.byte_step v bs"
proof -
  have "crc16.byte_step
    = (\<lambda>crc next. s_crc16_precomputed ! unat (next XOR ucast (drop_bit 8 crc) :: u8) XOR push_bit 8 crc)"
    by (intro ext) (simp only: crc16.byte_step_def crc16_entry_def)
  then show ?thesis by (simp only: update2_crc16_def)
qed

lemma crc32_update_steps: "update2_crc32 v bs = foldl crc32.byte_step v bs"
proof -
  have "crc32.byte_step = (\<lambda>v next. drop_bit 8 v XOR s_crc32_precomputed ! unat (next XOR ucast v :: u8))"
    by (intro ext) (simp only: crc32.byte_step_def crc32_entry_def xor.commute)
  then show ?thesis by (simp only: update2_crc32_def)
qed

lemma update2_crc16_serial: "update2_crc16 v bs = foldl (serial_left 0x1021) v (msb_bits bs)"
proof -
  have "serial_left 0x1021 = crc16.bit_step"
    by (intro ext) (simp only: serial_left_def crc16.bit_step_def, simp)
  then show ?thesis by (simp only: crc16_update_steps crc16.block_bits msb_bits_def)
qed

lemma update2_crc32_serial: "update2_crc32 v bs = foldl (serial_right 0xedb88320) v (lsb_bits bs)"
proof -
  have "serial_right 0xedb88320 = crc32.bit_step"
    by (intro ext) (simp only: serial_right_def crc32.bit_step_def, simp)
  then show ?thesis by (simp only: crc32_update_steps crc32.block_bits lsb_bits_def)
qed

text \<open>The 8-bit register of the code holds the 7-bit register in its upper bits.\<close>

lemma crc7_bit_step_7:
  "crc7.bit_step (push_bit 1 (ucast (r :: 7 word))) c = push_bit 1 (ucast (serial_left 0x09 r c))"
proof -
  have p: "push_bit 1 (ucast (0x09 :: 7 word)) = (0x12 :: u8)" by simp
  have u: "push_bit 1 (ucast (push_bit 1 y :: 7 word)) = (push_bit 1 (push_bit 1 (ucast y)) :: u8)" for y :: "7 word"
    by (rule bit_eqI) (unfold bit_push_bit_iff bit_unsigned_iff, auto dest: bit_imp_le_length)
  have shift: "shift_left 0x12 (push_bit 1 (ucast y)) = (push_bit 1 (ucast (shift_left 0x09 y)) :: u8)" for y :: "7 word"
  proof -
    have b: "bit (push_bit 1 (ucast y) :: u8) (LENGTH(8) - 1) \<longleftrightarrow> bit y (LENGTH(7) - 1)"
      by (simp only: bit_push_bit_iff bit_unsigned_iff) simp
    have x: "push_bit 1 (ucast (push_bit 1 y XOR 0x09)) = (push_bit 1 (push_bit 1 (ucast y)) XOR 0x12 :: u8)"
      by (simp only: unsigned_xor_eq push_bit_xor p u)
    show ?thesis
      by (cases "bit y (LENGTH(7) - 1)") (simp_all only: shift_left_def b if_True if_False u x)
  qed
  have q: "push_bit 1 (ucast (push_bit 6 1 :: 7 word)) = (push_bit (7 - 0) 1 :: u8)" by simp
  have "push_bit 1 (ucast r) XOR (if c then push_bit (7 - 0) 1 else 0)
    = (push_bit 1 (ucast (r XOR (if c then push_bit 6 1 else 0))) :: u8)"
    by (cases c) (simp_all only: if_True if_False unsigned_xor_eq push_bit_xor q xor.right_neutral)
  then show ?thesis
    by (simp only: crc7.bit_step_def shift serial_left_def) simp
qed

lemma update2_crc7_serial:
  "update2_crc7 (push_bit 1 (ucast r)) bs = push_bit 1 (ucast (foldl (serial_left (0x09 :: 7 word)) r (msb_bits bs)))"
proof -
  have "foldl crc7.bit_step (push_bit 1 (ucast r)) cs = push_bit 1 (ucast (foldl (serial_left (0x09 :: 7 word)) r cs))" for cs
    by (induction cs arbitrary: r) (simp_all only: foldl.simps crc7_bit_step_7)
  then show ?thesis by (simp only: crc7_update_steps crc7.block_bits msb_bits_def)
qed

text \<open>The table-driven CRC-32, fed in two blocks of any size, is the bit-serial division by the
  reflected polynomial \<open>0xedb88320\<close> of the concatenated data with initial register and final
  complement; \<open>calculate_crc32\<close> computes the same in one call.
\<close>

theorem crc32_bit_serial:
  "value_crc32 (update_crc32 (update_crc32 init_crc32 xs) ys)
     = NOT (foldl (serial_right 0xedb88320) (-1) (lsb_bits (xs @ ys))) \<and>
   calculate_crc32 (xs @ ys) = value_crc32 (update_crc32 (update_crc32 init_crc32 xs) ys)"
  by (simp add: value_crc32_def update_crc32_def init_crc32_def calculate_crc32_def
      update2_crc32_serial lsb_bits_def)

text \<open>The table-driven CRC-16, fed in two blocks, is the division by \<open>0x11021\<close>.\<close>

theorem crc16_bit_serial:
  "value_crc16 (update_crc16 (update_crc16 init_crc16 xs) ys)
     = foldl (serial_left 0x1021) 0 (msb_bits (xs @ ys))"
  by (simp add: value_crc16_def update_crc16_def init_crc16_def update2_crc16_serial msb_bits_def)

text \<open>The table-driven CRC-7, fed in two blocks, is the 7-bit division by \<open>0x89\<close>.\<close>

theorem crc7_bit_serial:
  "value_crc7 (update_crc7 (update_crc7 init_crc7 xs) ys)
     = ucast (foldl (serial_left (0x09 :: 7 word)) 0 (msb_bits (xs @ ys)))"
proof -
  have "drop_bit 1 (push_bit 1 (ucast r)) = (ucast r :: u8)" for r :: "7 word"
    by (rule bit_eqI) (unfold bit_drop_bit_eq bit_push_bit_iff bit_unsigned_iff, auto dest: bit_imp_le_length)
  then show ?thesis
    using update2_crc7_serial [of 0 "xs @ ys"]
    by (simp add: value_crc7_def update_crc7_def init_crc7_def update2_crc7_def)
qed

text \<open>C36: The three table-driven checksums, fed in two blocks, are the bit-serial divisions of the
  concatenated data by their polynomials.\<close>

theorem crc_bit_serial:
  "value_crc32 (update_crc32 (update_crc32 init_crc32 xs) ys)
     = NOT (foldl (serial_right 0xedb88320) (-1) (lsb_bits (xs @ ys))) \<and>
   calculate_crc32 (xs @ ys) = value_crc32 (update_crc32 (update_crc32 init_crc32 xs) ys) \<and>
   value_crc16 (update_crc16 (update_crc16 init_crc16 xs) ys)
     = foldl (serial_left 0x1021) 0 (msb_bits (xs @ ys)) \<and>
   value_crc7 (update_crc7 (update_crc7 init_crc7 xs) ys)
     = ucast (foldl (serial_left (0x09 :: 7 word)) 0 (msb_bits (xs @ ys)))"
  by (intro conjI crc32_bit_serial [THEN conjunct1] crc32_bit_serial [THEN conjunct2] crc16_bit_serial crc7_bit_serial)

end
