(* ===== verification/Hash_Sha1.thy ===== *)
theory Hash_Sha1
  imports Prelude
begin

text \<open>
  The SHA-1 implementation of C-kern/math/hash/sha1.c: the 80 unrolled steps over a rolling
  schedule of 16 words, the buffering of partial blocks, and the padding. The words are stored
  through pointers to the byte block, in the byte order of the machine, which is taken to be
  little endian; the block is the scratch area of the schedule, as in the source.
\<close>

section \<open>Words and bytes\<close>

text \<open>The bytes of a word in memory, and a word loaded from four bytes of memory.\<close>

definition native_bytes :: "u32 \<Rightarrow> u8 list" where
  "native_bytes w = [ucast w, ucast (drop_bit 8 w), ucast (drop_bit 16 w), ucast (drop_bit 24 w)]"

definition native_load :: "u8 list \<Rightarrow> u32" where
  "native_load bs = ucast (bs ! 0) OR push_bit 8 (ucast (bs ! 1)) OR push_bit 16 (ucast (bs ! 2))
     OR push_bit 24 (ucast (bs ! 3))"

text \<open>\<open>ntohl\<close> and \<open>htonl\<close> on a little endian machine.\<close>

definition ntohl :: "u32 \<Rightarrow> u32" where
  "ntohl w = push_bit 24 (w AND 0xff) OR push_bit 8 (w AND 0xff00)
     OR (drop_bit 8 w AND 0xff00) OR drop_bit 24 w"

definition htonl :: "u32 \<Rightarrow> u32" where
  "htonl w = ntohl w"

section \<open>The steps\<close>

definition ROTATE_LEFT :: "u32 \<Rightarrow> nat \<Rightarrow> u32" where
  "ROTATE_LEFT v nr = push_bit nr v OR drop_bit (32 - nr) v"

definition F1 :: "u32 \<Rightarrow> u32 \<Rightarrow> u32 \<Rightarrow> u32" where
  "F1 b c d = d XOR (b AND (c XOR d))"

definition F2 :: "u32 \<Rightarrow> u32 \<Rightarrow> u32 \<Rightarrow> u32" where
  "F2 b c d = b XOR c XOR d"

definition F3 :: "u32 \<Rightarrow> u32 \<Rightarrow> u32 \<Rightarrow> u32" where
  "F3 b c d = (b AND c) OR (d AND (b OR c))"

definition F4 :: "u32 \<Rightarrow> u32 \<Rightarrow> u32 \<Rightarrow> u32" where
  "F4 b c d = b XOR c XOR d"

definition K1 :: u32 where "K1 = 0x5A827999"
definition K2 :: u32 where "K2 = 0x6ED9EBA1"
definition K3 :: u32 where "K3 = 0x8F1BBCDC"
definition K4 :: u32 where "K4 = 0xCA62C1D6"

text \<open>
  The macro \<open>STEP\<close>. The five variables are kept in the order of its arguments; the next use of
  the macro names them rotated by one place, which the result does here.
\<close>

type_synonym sha1_vars = "u32 \<times> u32 \<times> u32 \<times> u32 \<times> u32"

definition STEP :: "(u32 \<Rightarrow> u32 \<Rightarrow> u32 \<Rightarrow> u32) \<Rightarrow> u32 \<Rightarrow> u32 \<Rightarrow> sha1_vars \<Rightarrow> sha1_vars" where
  "STEP f k val = (\<lambda>(a, b, c, d, e).
     (e + (ROTATE_LEFT a 5 + f b c d + k + val), a, ROTATE_LEFT b 30, c, d))"

definition step_fun :: "nat \<Rightarrow> u32 \<Rightarrow> u32 \<Rightarrow> u32 \<Rightarrow> u32" where
  "step_fun i = (if i < 20 then F1 else if i < 40 then F2 else if i < 60 then F3 else F4)"

definition step_const :: "nat \<Rightarrow> u32" where
  "step_const i = (if i < 20 then K1 else if i < 40 then K2 else if i < 60 then K3 else K4)"

text \<open>The three definitions of \<open>read_value\<close>: unaligned input, aligned input, and the schedule.\<close>

definition read_unaligned :: "u8 list \<Rightarrow> nat \<Rightarrow> u32" where
  "read_unaligned block i =
     (let val = ucast (block ! (4 * i));
          val = push_bit 8 val OR ucast (block ! (4 * i + 1));
          val = push_bit 8 val OR ucast (block ! (4 * i + 2));
          val = push_bit 8 val OR ucast (block ! (4 * i + 3))
      in val)"

definition read_aligned :: "u8 list \<Rightarrow> nat \<Rightarrow> u32" where
  "read_aligned block i = ntohl (native_load (take 4 (drop (4 * i) block)))"

definition read_schedule :: "u32 list \<Rightarrow> nat \<Rightarrow> u32" where
  "read_schedule w i =
     ROTATE_LEFT (w ! ((i - 16) AND 0xf) XOR w ! ((i - 14) AND 0xf) XOR w ! ((i - 8) AND 0xf)
       XOR w ! ((i - 3) AND 0xf)) 1"

text \<open>One step with its read: the word read is also stored into the schedule.\<close>

definition sha1_round :: "bool \<Rightarrow> u8 list \<Rightarrow> nat \<Rightarrow> u32 list \<times> sha1_vars \<Rightarrow> u32 list \<times> sha1_vars" where
  "sha1_round aligned block i = (\<lambda>(w, vars).
     let val = (if i < 16 then (if aligned then read_aligned block i else read_unaligned block i)
                else read_schedule w i)
     in (w[i AND 0xf := val], STEP (step_fun i) (step_const i) val vars))"

section \<open>State and operations\<close>

record sha1_hash_t =
  datalen :: u64
  h :: "u32 list"
  block :: "u8 list"

text \<open>
  \<open>update_sha1hash\<close> on the block \<open>blk\<close> at an address divisible by 4 or not. The schedule starts
  as the words that the scratch block holds; all of them are written before they are read.
\<close>

definition update_sha1hash :: "sha1_hash_t \<Rightarrow> bool \<Rightarrow> u8 list \<Rightarrow> sha1_hash_t" where
  "update_sha1hash sha1 aligned blk =
     (let w0 = map (\<lambda>i. native_load (take 4 (drop (4 * i) (block sha1)))) [0..<16];
          hs = h sha1;
          (w, a, b, c, d, e) =
            foldl (\<lambda>s i. sha1_round aligned blk i s) (w0, hs ! 0, hs ! 1, hs ! 2, hs ! 3, hs ! 4) [0..<80]
      in sha1\<lparr>h := [hs ! 0 + a, hs ! 1 + b, hs ! 2 + c, hs ! 3 + d, hs ! 4 + e],
              block := concat (map native_bytes w)\<rparr>)"

definition init_sha1hash :: "sha1_hash_t \<Rightarrow> sha1_hash_t" where
  "init_sha1hash sha1 = sha1\<lparr>datalen := 0,
     h := [0x67452301, 0xEFCDAB89, 0x98BADCFE, 0x10325476, 0xC3D2E1F0]\<rparr>"

text \<open>
  The loop of \<open>calculate_sha1hash\<close> over whole blocks at address \<open>addr\<close>, and the copy of the rest.
\<close>

function calculate_loop :: "sha1_hash_t \<Rightarrow> u64 \<Rightarrow> u8 list \<Rightarrow> sha1_hash_t" where
  "calculate_loop sha1 addr next =
     (if 64 \<le> length next
      then calculate_loop (update_sha1hash sha1 (addr AND 3 = 0) (take 64 next)) (addr + 64) (drop 64 next)
      else if next \<noteq> [] then sha1\<lparr>block := blit 0 next (block sha1)\<rparr>
      else sha1)"
  by pat_completeness auto
termination by (relation "measure (\<lambda>(sha1, addr, next). length next)") simp_all

declare calculate_loop.simps [simp del]

definition calculate_sha1hash :: "sha1_hash_t \<Rightarrow> u64 \<Rightarrow> u8 list \<Rightarrow> unit cres \<times> sha1_hash_t" where
  "calculate_sha1hash sha1 addr buffer =
     (let buffer_size = of_nat (length buffer) :: u64;
          sha1 = (if datalen sha1 = -1 then init_sha1hash sha1 else sha1);
          blocksize = unat (datalen sha1 AND 63);
          sha1 = sha1\<lparr>datalen := datalen sha1 + buffer_size\<rparr>
      in if buffer_size AND NOT (drop_bit 1 (-1)) \<noteq> 0 \<or> datalen sha1 AND 0xe000000000000000 \<noteq> 0
         then (Inl EOVERFLOW, sha1)
         else let datasize = blocksize + length buffer
              in if datasize < 64
                 then (Inr (), sha1\<lparr>block := blit blocksize buffer (block sha1)\<rparr>)
                 else if blocksize \<noteq> 0
                 then let missing_size = 64 - blocksize;
                          sha1 = sha1\<lparr>block := blit blocksize (take missing_size buffer) (block sha1)\<rparr>;
                          sha1 = update_sha1hash sha1 True (block sha1)
                      in (Inr (), calculate_loop sha1 (addr + of_nat missing_size) (drop missing_size buffer))
                 else (Inr (), calculate_loop sha1 addr buffer))"

definition value_sha1hash :: "sha1_hash_t \<Rightarrow> u8 list \<times> sha1_hash_t" where
  "value_sha1hash sha1 =
     (let sha1 =
        (if datalen sha1 \<noteq> -1 then
           let blocksize = unat (datalen sha1 AND 63);
               sha1 = sha1\<lparr>block := (block sha1)[blocksize := 0x80]\<rparr>;
               blocksize = blocksize + 1;
               (sha1, blocksize) =
                 (if 56 < blocksize then
                    (let sha1 = sha1\<lparr>block := blit blocksize (replicate (64 - blocksize) 0) (block sha1)\<rparr>
                     in (update_sha1hash sha1 True (block sha1), 0))
                  else (sha1, blocksize));
               sha1 = sha1\<lparr>block := blit blocksize (replicate (56 - blocksize) 0) (block sha1)\<rparr>;
               sha1 = sha1\<lparr>block := blit 56 (native_bytes (htonl (ucast (drop_bit 29 (datalen sha1))))) (block sha1)\<rparr>;
               sha1 = sha1\<lparr>block := blit 60 (native_bytes (htonl (ucast (push_bit 3 (datalen sha1))))) (block sha1)\<rparr>;
               sha1 = update_sha1hash sha1 True (block sha1);
               sha1 = sha1\<lparr>h := map htonl (h sha1)\<rparr>
           in sha1\<lparr>datalen := -1\<rparr>
         else sha1)
      in (concat (map native_bytes (h sha1)), sha1))"

section \<open>The specification of SHA-1\<close>

text \<open>
  The hash function as FIPS 180-4 states it: a message schedule of 80 words, the functions
  Ch, Parity and Maj, and the padding with the length in bits. Only the rotation of the library
  and the big endian reading of bytes are used.
\<close>

definition be_word :: "u8 \<Rightarrow> u8 \<Rightarrow> u8 \<Rightarrow> u8 \<Rightarrow> u32" where
  "be_word b0 b1 b2 b3 = push_bit 24 (ucast b0) OR push_bit 16 (ucast b1) OR push_bit 8 (ucast b2) OR ucast b3"

definition be_bytes :: "u32 \<Rightarrow> u8 list" where
  "be_bytes w = [ucast (drop_bit 24 w), ucast (drop_bit 16 w), ucast (drop_bit 8 w), ucast w]"

definition be_bytes64 :: "u64 \<Rightarrow> u8 list" where
  "be_bytes64 w = map (\<lambda>k. ucast (drop_bit (56 - 8 * k) w)) [0..<8]"

definition message_word :: "u8 list \<Rightarrow> nat \<Rightarrow> u32" where
  "message_word blk t = be_word (blk ! (4 * t)) (blk ! (4 * t + 1)) (blk ! (4 * t + 2)) (blk ! (4 * t + 3))"

text \<open>The first \<open>16 + n\<close> words of the schedule.\<close>

primrec schedule :: "u8 list \<Rightarrow> nat \<Rightarrow> u32 list" where
  "schedule blk 0 = map (message_word blk) [0..<16]"
| "schedule blk (Suc n) =
     (let W = schedule blk n; t = 16 + n
      in W @ [word_rotl 1 (W ! (t - 3) XOR W ! (t - 8) XOR W ! (t - 14) XOR W ! (t - 16))])"

definition sha1_f :: "nat \<Rightarrow> u32 \<Rightarrow> u32 \<Rightarrow> u32 \<Rightarrow> u32" where
  "sha1_f t x y z =
     (if t < 20 then (x AND y) XOR (NOT x AND z)
      else if t < 40 then x XOR y XOR z
      else if t < 60 then (x AND y) XOR (x AND z) XOR (y AND z)
      else x XOR y XOR z)"

definition sha1_k :: "nat \<Rightarrow> u32" where
  "sha1_k t = (if t < 20 then 0x5a827999 else if t < 40 then 0x6ed9eba1
     else if t < 60 then 0x8f1bbcdc else 0xca62c1d6)"

definition compress_step :: "u32 list \<Rightarrow> sha1_vars \<Rightarrow> nat \<Rightarrow> sha1_vars" where
  "compress_step W = (\<lambda>(a, b, c, d, e) t.
     (word_rotl 5 a + sha1_f t b c d + e + sha1_k t + W ! t, a, word_rotl 30 b, c, d))"

definition compress :: "u32 list \<Rightarrow> u8 list \<Rightarrow> u32 list" where
  "compress hs blk =
     (let (a, b, c, d, e) =
        foldl (compress_step (schedule blk 64)) (hs ! 0, hs ! 1, hs ! 2, hs ! 3, hs ! 4) [0..<80]
      in [hs ! 0 + a, hs ! 1 + b, hs ! 2 + c, hs ! 3 + d, hs ! 4 + e])"

text \<open>The chaining value after all whole blocks of a message.\<close>

function hash_blocks :: "u32 list \<Rightarrow> u8 list \<Rightarrow> u32 list" where
  "hash_blocks hs m = (if 64 \<le> length m then hash_blocks (compress hs (take 64 m)) (drop 64 m) else hs)"
  by pat_completeness auto
termination by (relation "measure (length \<circ> snd)") simp_all

declare hash_blocks.simps [simp del]

definition sha1_H0 :: "u32 list" where
  "sha1_H0 = [0x67452301, 0xefcdab89, 0x98badcfe, 0x10325476, 0xc3d2e1f0]"

definition sha1_pad :: "u8 list \<Rightarrow> u8 list" where
  "sha1_pad m = m @ [0x80] @ replicate ((119 - length m mod 64) mod 64) 0 @ be_bytes64 (of_nat (8 * length m))"

definition sha1_digest :: "u8 list \<Rightarrow> u8 list" where
  "sha1_digest m = concat (map be_bytes (hash_blocks sha1_H0 (sha1_pad m)))"

section \<open>Byte order\<close>

lemma and_ff: "w AND 0xff = take_bit 8 (w :: u32)"
  by (simp add: take_bit_eq_mask mask_eq_exp_minus_1)

lemma and_ff00: "w AND 0xff00 = push_bit 8 (take_bit 8 (drop_bit 8 (w :: u32)))"
proof -
  have "w AND 0xff00 = w AND push_bit 8 (mask 8)" by (simp add: mask_eq_exp_minus_1 push_bit_eq_mult)
  also have "\<dots> = push_bit 8 (take_bit 8 (drop_bit 8 w))"
    by (rule bit_eqI) (auto simp: bit_simps)
  finally show ?thesis .
qed

lemma ntohl_alt: "ntohl w = push_bit 24 (take_bit 8 w) OR push_bit 16 (take_bit 8 (drop_bit 8 w))
    OR push_bit 8 (take_bit 8 (drop_bit 16 w)) OR drop_bit 24 w"
  by (simp add: ntohl_def and_ff and_ff00 push_bit_push_bit drop_bit_drop_bit)

lemma native_bytes_htonl: "native_bytes (htonl w) = be_bytes w"
  unfolding native_bytes_def be_bytes_def htonl_def ntohl_alt
  by (intro arg_cong2 [of _ _ _ _ Cons] refl; rule bit_eqI) (auto simp: bit_simps)

lemma native_load_parts:
  fixes b0 b1 b2 b3 :: u8
  defines "w \<equiv> native_load [b0, b1, b2, b3]"
  shows "take_bit 8 w = ucast b0" and "take_bit 8 (drop_bit 8 w) = ucast b1"
    and "take_bit 8 (drop_bit 16 w) = ucast b2" and "drop_bit 24 w = ucast b3"
proof -
  have bit: "bit w n \<longleftrightarrow> n < 32 \<and> (if n < 8 then bit b0 n else if n < 16 then bit b1 (n - 8)
      else if n < 24 then bit b2 (n - 16) else bit b3 (n - 24))" for n
    using bit_imp_le_length [of b0 n] bit_imp_le_length [of b1 "n - 8"] bit_imp_le_length [of b2 "n - 16"]
    by (auto simp: w_def native_load_def bit_or_iff bit_push_bit_iff bit_unsigned_iff)
  note bits = bit_take_bit_iff bit_drop_bit_eq bit bit_unsigned_iff comp_apply
  show "take_bit 8 w = ucast b0"
    by (rule bit_eqI) (use bit_imp_le_length [of b0] in \<open>auto simp: bits\<close>)
  show "take_bit 8 (drop_bit 8 w) = ucast b1"
    by (rule bit_eqI) (use bit_imp_le_length [of b1] in \<open>auto simp: bits\<close>)
  show "take_bit 8 (drop_bit 16 w) = ucast b2"
    by (rule bit_eqI) (use bit_imp_le_length [of b2] in \<open>auto simp: bits\<close>)
  show "drop_bit 24 w = ucast b3"
    by (rule bit_eqI) (use bit_imp_le_length [of b3] in \<open>auto simp: bits\<close>)
qed

lemma native_load_word: "ntohl (native_load [b0, b1, b2, b3]) = be_word b0 b1 b2 b3"
  by (simp only: ntohl_alt native_load_parts be_word_def)

lemma take_4_drop: "i + 4 \<le> length xs \<Longrightarrow> take 4 (drop i xs) = [xs ! i, xs ! (i + 1), xs ! (i + 2), xs ! (i + 3)]"
  by (rule nth_equalityI) (auto simp: less_Suc_eq numeral_eq_Suc)

lemma read_aligned_word: "4 * i + 4 \<le> length blk \<Longrightarrow> read_aligned blk i = message_word blk i"
  by (simp add: read_aligned_def take_4_drop native_load_word message_word_def)

lemma read_unaligned_word: "read_unaligned blk i = message_word blk i"
  by (simp add: read_unaligned_def message_word_def be_word_def Let_def push_bit_or push_bit_push_bit or.assoc)

lemma ROTATE_LEFT_rotl:
  assumes "0 < n" and "n < 32"
  shows "ROTATE_LEFT v n = word_rotl n v"
proof (rule bit_word_eqI)
  fix k
  assume "k < LENGTH(32)"
  then have k: "k < 32" by simp
  have m: "(k + (32 - n)) mod 32 = (if n \<le> k then k - n else k + (32 - n))"
    using k assms by (auto simp: mod_if)
  have b: "bit v (32 - n + k) \<Longrightarrow> k < n"
    using bit_imp_le_length [of v "32 - n + k"] assms(2) by simp
  have "bit (ROTATE_LEFT v n) k \<longleftrightarrow> (n \<le> k \<and> bit v (k - n)) \<or> bit v (32 - n + k)"
    using k by (simp add: ROTATE_LEFT_def bit_or_iff bit_push_bit_iff bit_drop_bit_eq)
  also have "\<dots> \<longleftrightarrow> bit v ((k + (32 - n)) mod 32)"
    unfolding m using b by (auto simp: add.commute [of k])
  also have "\<dots> \<longleftrightarrow> bit (word_rotl n v) k"
    using k assms by (simp add: bit_word_rotl_iff del: bit_drop_bit_eq)
  finally show "bit (ROTATE_LEFT v n) k \<longleftrightarrow> bit (word_rotl n v) k" .
qed

lemma step_fun_f: "step_fun i = sha1_f i"
  by (intro ext bit_eqI) (auto simp: step_fun_def sha1_f_def F1_def F2_def F3_def F4_def bit_simps)

lemma step_const_k: "step_const i = sha1_k i"
  by (simp add: step_const_def sha1_k_def K1_def K2_def K3_def K4_def)

section \<open>The compression function\<close>

lemma length_schedule: "length (schedule blk n) = 16 + n"
  by (induction n) (simp_all add: Let_def)

lemma schedule_prefix: "m \<le> n \<Longrightarrow> i < 16 + m \<Longrightarrow> schedule blk n ! i = schedule blk m ! i"
  by (induction n rule: dec_induct) (simp_all add: Let_def nth_append length_schedule)

lemma schedule_message: "i < 16 \<Longrightarrow> schedule blk n ! i = message_word blk i"
  using schedule_prefix [of 0 n i blk] by (simp del: upt_Suc upt_rec_numeral)

lemma schedule_next:
  assumes "16 \<le> i" and "i < 80"
  shows "schedule blk 64 ! i = word_rotl 1 (schedule blk 64 ! (i - 3) XOR schedule blk 64 ! (i - 8)
    XOR schedule blk 64 ! (i - 14) XOR schedule blk 64 ! (i - 16))"
proof -
  define n where "n = i - 16"
  have i: "i = 16 + n" "Suc n \<le> 64" using assms by (simp_all add: n_def)
  have less: "schedule blk 64 ! j = schedule blk n ! j" if "j < i" for j
    using schedule_prefix [of n 64 j blk] that i by simp
  have "schedule blk 64 ! i = schedule blk (Suc n) ! i"
    using schedule_prefix [of "Suc n" 64 i blk] i by simp
  also have "\<dots> = word_rotl 1 (schedule blk n ! (i - 3) XOR schedule blk n ! (i - 8)
    XOR schedule blk n ! (i - 14) XOR schedule blk n ! (i - 16))"
    using i(1) by (simp add: Let_def nth_append length_schedule)
  finally show ?thesis using assms(1) by (simp add: less)
qed

text \<open>
  The rolling schedule: after \<open>t\<close> steps entry \<open>j mod 16\<close> holds word \<open>j\<close> for the last 16 words.
\<close>

definition rolling :: "u32 list \<Rightarrow> nat \<Rightarrow> u32 list \<Rightarrow> bool" where
  "rolling W t w \<longleftrightarrow> length w = 16 \<and> (\<forall>j<t. t \<le> j + 16 \<longrightarrow> w ! (j mod 16) = W ! j)"

lemma and_f: "i AND 0xf = i mod (16 :: nat)"
  using take_bit_eq_mask [of 4 i] by (simp add: mask_eq_exp_minus_1 take_bit_eq_mod)

lemma rolling_nth: "rolling W t w \<Longrightarrow> j < t \<Longrightarrow> t \<le> j + 16 \<Longrightarrow> w ! (j AND 0xf) = W ! j"
  by (simp add: rolling_def and_f)

lemma rolling_update: "rolling W t w \<Longrightarrow> rolling W (Suc t) (w[t AND 0xf := W ! t])"
proof -
  assume r: "rolling W t w"
  have "w[t mod 16 := W ! t] ! (j mod 16) = W ! j" if j: "j < Suc t" "Suc t \<le> j + 16" for j
  proof (cases "j = t")
    case False
    then have "j mod 16 \<noteq> t mod 16"
      using j by (metis Suc_le_eq add.commute dvd_imp_le leD le_add_diff_inverse less_SucE mod_eq_dvd_iff_nat nat_less_le
          zero_less_diff nat_add_left_cancel_less)
    then show ?thesis using r j False by (simp add: rolling_def)
  qed (use r in \<open>simp add: rolling_def\<close>)
  then show ?thesis using r by (simp add: rolling_def and_f)
qed

lemma sha1_round_spec:
  assumes w: "rolling (schedule blk 64) i w" and i: "i < 80" and len: "length blk = 64"
  shows "\<exists>w'. sha1_round aligned blk i (w, vars) = (w', compress_step (schedule blk 64) vars i) \<and>
    rolling (schedule blk 64) (Suc i) w'"
proof -
  let ?W = "schedule blk 64"
  have val: "(if i < 16 then (if aligned then read_aligned blk i else read_unaligned blk i)
     else read_schedule w i) = ?W ! i"
  proof (cases "i < 16")
    case True
    then show ?thesis
      using len by (simp add: read_aligned_word read_unaligned_word schedule_message)
  next
    case False
    then have "w ! ((i - 16) AND 0xf) = ?W ! (i - 16)" "w ! ((i - 14) AND 0xf) = ?W ! (i - 14)"
      "w ! ((i - 8) AND 0xf) = ?W ! (i - 8)" "w ! ((i - 3) AND 0xf) = ?W ! (i - 3)"
      using w by (auto intro!: rolling_nth)
    then have "read_schedule w i = word_rotl 1 (?W ! (i - 16) XOR ?W ! (i - 14) XOR ?W ! (i - 8) XOR ?W ! (i - 3))"
      by (simp only: read_schedule_def) (simp add: ROTATE_LEFT_rotl)
    then show ?thesis
      using False schedule_next [of i blk] i by (simp add: ac_simps)
  qed
  obtain a b c d e where vars: "vars = (a, b, c, d, e)" by (cases vars) auto
  have "sha1_round aligned blk i (w, vars) = (w[i AND 0xf := ?W ! i], compress_step ?W vars i)"
    unfolding sha1_round_def prod.case Let_def val
    by (simp add: vars STEP_def compress_step_def step_fun_f step_const_k ROTATE_LEFT_rotl ac_simps)
  with rolling_update [OF w] show ?thesis by blast
qed

lemma sha1_rounds_spec:
  assumes len: "length blk = 64" and w0: "length w0 = 16"
  shows "t \<le> 80 \<Longrightarrow> \<exists>w. foldl (\<lambda>s i. sha1_round aligned blk i s) (w0, vars) [0..<t]
    = (w, foldl (compress_step (schedule blk 64)) vars [0..<t]) \<and> rolling (schedule blk 64) t w"
proof (induction t)
  case 0
  then show ?case using w0 by (simp add: rolling_def)
next
  case (Suc t)
  then obtain w where w: "foldl (\<lambda>s i. sha1_round aligned blk i s) (w0, vars) [0..<t]
    = (w, foldl (compress_step (schedule blk 64)) vars [0..<t])" "rolling (schedule blk 64) t w"
    by auto
  from sha1_round_spec [OF this(2) _ len, of aligned "foldl (compress_step (schedule blk 64)) vars [0..<t]"]
  show ?case using w(1) Suc.prems by auto
qed

lemma update_sha1hash_spec:
  assumes "length blk = 64"
  shows "h (update_sha1hash sha1 aligned blk) = compress (h sha1) blk"
    and "length (block (update_sha1hash sha1 aligned blk)) = 64"
    and "datalen (update_sha1hash sha1 aligned blk) = datalen sha1"
proof -
  let ?w0 = "map (\<lambda>i. native_load (take 4 (drop (4 * i) (block sha1)))) [0..<16]"
  let ?vars = "(h sha1 ! 0, h sha1 ! 1, h sha1 ! 2, h sha1 ! 3, h sha1 ! 4)"
  have "length ?w0 = 16" by simp
  from sha1_rounds_spec [OF assms this, of 80 aligned ?vars] obtain w where
    w: "foldl (\<lambda>s i. sha1_round aligned blk i s) (?w0, ?vars) [0..<80]
      = (w, foldl (compress_step (schedule blk 64)) ?vars [0..<80])" "length w = 16"
    by (auto simp only: rolling_def order_refl)
  obtain a b c d e where f: "foldl (compress_step (schedule blk 64)) ?vars [0..<80] = (a, b, c, d, e)"
    by (cases "foldl (compress_step (schedule blk 64)) ?vars [0..<80]") auto
  have u: "update_sha1hash sha1 aligned blk
    = sha1\<lparr>h := compress (h sha1) blk, block := concat (map native_bytes w)\<rparr>"
    unfolding update_sha1hash_def compress_def Let_def w(1) f prod.case ..
  have "length (concat (map native_bytes w)) = 4 * length w"
    by (induction w) (simp_all add: native_bytes_def)
  then show "h (update_sha1hash sha1 aligned blk) = compress (h sha1) blk"
    "length (block (update_sha1hash sha1 aligned blk)) = 64"
    "datalen (update_sha1hash sha1 aligned blk) = datalen sha1"
    using w(2) by (simp_all add: u)
qed

section \<open>Streaming\<close>

lemma hash_blocks_short: "length m < 64 \<Longrightarrow> hash_blocks hs m = hs"
  by (subst hash_blocks.simps) simp

lemma hash_blocks_block: "length b = 64 \<Longrightarrow> hash_blocks hs (b @ m) = hash_blocks (compress hs b) m"
  by (subst hash_blocks.simps) simp

lemma hash_blocks_append:
  "length p mod 64 = 0 \<Longrightarrow> hash_blocks hs (p @ q) = hash_blocks (hash_blocks hs p) q"
proof (induction hs p rule: hash_blocks.induct)
  case (1 hs p)
  show ?case
  proof (cases "64 \<le> length p")
    case True
    then have "hash_blocks hs (take 64 p @ drop 64 p @ q) = hash_blocks (compress hs (take 64 p)) (drop 64 p @ q)"
      by (intro hash_blocks_block) simp
    moreover have "hash_blocks hs (take 64 p @ drop 64 p) = hash_blocks (compress hs (take 64 p)) (drop 64 p)"
      using True by (intro hash_blocks_block) simp
    ultimately show ?thesis
      using 1 True by (simp add: le_mod_geq flip: append_assoc)
  next
    case False
    then have "p = []" using "1.prems" by simp
    then show ?thesis by (simp add: hash_blocks_short)
  qed
qed

text \<open>
  The invariant of the state between calls: it stands for the message \<open>m\<close> fed so far. The whole
  blocks of \<open>m\<close> are hashed, the rest of \<open>m\<close> is the prefix of \<open>block\<close>.
\<close>

definition sha1_inv :: "u8 list \<Rightarrow> sha1_hash_t \<Rightarrow> bool" where
  "sha1_inv m sha1 \<longleftrightarrow>
     length m < 2 ^ 61 \<and> datalen sha1 = of_nat (length m) \<and> length (block sha1) = 64 \<and>
     h sha1 = hash_blocks sha1_H0 m \<and>
     take (length m mod 64) (block sha1) = drop (length m - length m mod 64) m"

lemma sha1_inv_init: "length (block sha1) = 64 \<Longrightarrow> sha1_inv [] (init_sha1hash sha1)"
  by (simp add: sha1_inv_def init_sha1hash_def sha1_H0_def hash_blocks_short)

lemma unat_datalen: "sha1_inv m sha1 \<Longrightarrow> unat (datalen sha1) = length m"
  by (simp add: sha1_inv_def unat_of_nat)

lemma datalen_not_free: "sha1_inv m sha1 \<Longrightarrow> datalen sha1 \<noteq> -1"
proof
  assume "sha1_inv m sha1" "datalen sha1 = -1"
  then have "unat (-1 :: u64) < 2 ^ 61" using unat_datalen by (metis sha1_inv_def)
  then show False by (simp add: unsigned_minus_1_eq_mask mask_eq_exp_minus_1)
qed

lemma and_63: "unat (w AND 63 :: u64) = unat w mod 64"
proof -
  have "w AND 63 = take_bit 6 w" by (simp add: take_bit_eq_mask mask_eq_exp_minus_1)
  then show ?thesis by (simp only: unsigned_take_bit_eq take_bit_eq_mod [where 'a = nat]) simp
qed

text \<open>The loop over whole blocks, starting at a block boundary.\<close>

lemma calculate_loop_spec:
  assumes "length p mod 64 = 0" and "h sha1 = hash_blocks sha1_H0 p" and "length (block sha1) = 64"
  shows "h (calculate_loop sha1 addr next) = hash_blocks sha1_H0 (p @ next) \<and>
    length (block (calculate_loop sha1 addr next)) = 64 \<and>
    datalen (calculate_loop sha1 addr next) = datalen sha1 \<and>
    take (length next mod 64) (block (calculate_loop sha1 addr next)) = drop (length next - length next mod 64) next"
  using assms
proof (induction sha1 addr "next" arbitrary: p rule: calculate_loop.induct)
  case (1 sha1 addr xs)
  show ?case
  proof (cases "64 \<le> length xs")
    case True
    let ?s = "update_sha1hash sha1 (addr AND 3 = 0) (take 64 xs)"
    have len: "length (take 64 xs) = 64" using True by simp
    have "hash_blocks sha1_H0 (p @ take 64 xs) = compress (hash_blocks sha1_H0 p) (take 64 xs)"
      using hash_blocks_append [OF "1.prems"(1), of sha1_H0 "take 64 xs"]
        hash_blocks_block [OF len, of _ "[]"] by (simp add: hash_blocks_short)
    then have "h ?s = hash_blocks sha1_H0 (p @ take 64 xs)"
      using "1.prems"(2) update_sha1hash_spec(1) [OF len] by simp
    moreover have "length (p @ take 64 xs) mod 64 = 0" using len "1.prems"(1) by simp
    moreover have "length xs - length xs mod 64 = length (drop 64 xs) - length (drop 64 xs) mod 64 + 64"
      "length (drop 64 xs) mod 64 = length xs mod 64"
      using True mod_less_eq_dividend [of "length xs - 64" 64]
      by (simp_all add: le_mod_geq)
    ultimately show ?thesis
      using "1.IH" [OF True, of "p @ take 64 xs"] True update_sha1hash_spec(2,3) [OF len, of sha1 "addr AND 3 = 0"]
      by (simp add: calculate_loop.simps [of sha1 addr xs] del: length_drop)
  next
    case False
    then have "hash_blocks sha1_H0 (p @ xs) = hash_blocks sha1_H0 p"
      using hash_blocks_append [OF "1.prems"(1)] by (simp add: hash_blocks_short)
    moreover have "calculate_loop sha1 addr xs = (if xs \<noteq> [] then sha1\<lparr>block := blit 0 xs (block sha1)\<rparr> else sha1)"
      using False by (simp add: calculate_loop.simps [of sha1 addr xs])
    ultimately show ?thesis
      using False "1.prems" by (simp add: take_blit_0)
  qed
qed

text \<open>The error check and the length field.\<close>

lemma and_high3: "w AND 0xe000000000000000 = 0 \<longleftrightarrow> unat (w :: u64) < 2 ^ 61"
proof -
  have "w AND 0xe000000000000000 = push_bit 61 (drop_bit 61 w)"
  proof -
    have "w AND push_bit 61 (mask 3) = push_bit 61 (drop_bit 61 w)"
      by (rule bit_word_eqI) (auto simp: bit_simps)
    then show ?thesis by (simp add: mask_eq_exp_minus_1 push_bit_eq_mult)
  qed
  also have "\<dots> = 0 \<longleftrightarrow> drop_bit 61 w = 0"
  proof
    assume "push_bit 61 (drop_bit 61 w) = 0"
    then have b: "\<not> bit (push_bit 61 (drop_bit 61 w)) n" for n by simp
    show "drop_bit 61 w = 0"
    proof (rule bit_word_eqI)
      fix n
      show "bit (drop_bit 61 w) n \<longleftrightarrow> bit (0 :: u64) n"
        using b [of "61 + n"] bit_imp_le_length [of w "61 + n"] by (auto simp: bit_simps)
    qed
  qed simp
  also have "\<dots> \<longleftrightarrow> unat w div 2 ^ 61 = 0" by (simp only: unat_drop_bit flip: unat_eq_0)
  finally show ?thesis by (simp add: div_eq_0_iff)
qed

lemma and_high1: "w AND NOT (drop_bit 1 (-1)) = 0 \<longleftrightarrow> unat (w :: u64) < 2 ^ 63"
proof -
  have "w AND NOT (drop_bit 1 (-1)) = push_bit 63 (drop_bit 63 w)"
  proof (rule bit_word_eqI)
    fix n
    assume "n < LENGTH(64)"
    then show "bit (w AND NOT (drop_bit 1 (-1))) n \<longleftrightarrow> bit (push_bit 63 (drop_bit 63 w)) n"
      by (cases "n = 63") (auto simp: bit_simps)
  qed
  also have "\<dots> = 0 \<longleftrightarrow> drop_bit 63 w = 0"
  proof
    assume "push_bit 63 (drop_bit 63 w) = 0"
    then have b: "\<not> bit (push_bit 63 (drop_bit 63 w)) n" for n by simp
    show "drop_bit 63 w = 0"
    proof (rule bit_word_eqI)
      fix n
      show "bit (drop_bit 63 w) n \<longleftrightarrow> bit (0 :: u64) n"
        using b [of "63 + n"] bit_imp_le_length [of w "63 + n"] by (auto simp: bit_simps)
    qed
  qed simp
  also have "\<dots> \<longleftrightarrow> unat w div 2 ^ 63 = 0" by (simp only: unat_drop_bit flip: unat_eq_0)
  finally show ?thesis by (simp add: div_eq_0_iff)
qed

lemma calculate_overflow:
  assumes inv: "sha1_inv m sha1" and "length buffer < 2 ^ 64"
  shows "(of_nat (length buffer) AND NOT (drop_bit 1 (-1)) \<noteq> (0 :: u64)
      \<or> (datalen sha1 + of_nat (length buffer)) AND 0xe000000000000000 \<noteq> 0)
    \<longleftrightarrow> 2 ^ 61 \<le> length m + length buffer"
proof -
  have n: "unat (of_nat (length buffer) :: u64) = length buffer"
    using assms(2) by (simp add: unat_of_nat)
  have m: "length m < 2 ^ 61" using inv by (simp add: sha1_inv_def)
  show ?thesis
  proof (cases "length buffer < 2 ^ 63")
    case True
    then have "unat (datalen sha1 + of_nat (length buffer)) = length m + length buffer"
      using m n unat_datalen [OF inv] by (intro unat_add_eq) simp_all
    then show ?thesis using True n by (simp only: and_high1 and_high3) auto
  next
    case False
    then show ?thesis using n by (simp only: and_high1) auto
  qed
qed

lemma drop_end_append: "r \<le> length q \<Longrightarrow> drop (length (p @ q) - r) (p @ q) = drop (length q - r) q"
  by simp

lemma drop_mod_append:
  assumes "length m mod 64 + length buffer < 64"
  shows "length (m @ buffer) mod 64 = length m mod 64 + length buffer"
    and "drop (length (m @ buffer) - length (m @ buffer) mod 64) (m @ buffer)
      = drop (length m - length m mod 64) m @ buffer"
proof -
  have "(length m mod 64 + length buffer) mod 64 = length m mod 64 + length buffer"
    using assms by simp
  then show 1: "length (m @ buffer) mod 64 = length m mod 64 + length buffer"
    by (simp add: mod_add_left_eq)
  then show "drop (length (m @ buffer) - length (m @ buffer) mod 64) (m @ buffer)
      = drop (length m - length m mod 64) m @ buffer"
    by (simp add: drop_append)
qed

text \<open>The whole blocks of a message, and the rest.\<close>

lemma hash_blocks_whole: "hash_blocks hs m = hash_blocks hs (take (length m - length m mod 64) m)"
proof -
  let ?n = "length m - length m mod 64"
  have "hash_blocks hs (take ?n m @ drop ?n m) = hash_blocks (hash_blocks hs (take ?n m)) (drop ?n m)"
    by (rule hash_blocks_append) (simp add: minus_mod_eq_mult_div)
  then show ?thesis by (simp add: hash_blocks_short)
qed

text \<open>A call within the limit of \<open>2 ^ 61 - 1\<close> bytes extends the message.\<close>

lemma calculate_sha1hash_inv:
  assumes inv: "sha1_inv m sha1" and fits: "length m + length buffer < 2 ^ 61"
  shows "fst (calculate_sha1hash sha1 addr buffer) = Inr ()"
    and "sha1_inv (m @ buffer) (snd (calculate_sha1hash sha1 addr buffer))"
proof -
  define k where "k = length m mod 64"
  define sha where "sha = sha1\<lparr>datalen := datalen sha1 + of_nat (length buffer)\<rparr>"
  have k: "unat (datalen sha1 AND 63) = k" "k < 64"
    using unat_datalen [OF inv] by (simp_all add: and_63 k_def)
  have ok: "\<not> (of_nat (length buffer) AND NOT (drop_bit 1 (-1)) \<noteq> (0 :: u64)
      \<or> datalen sha AND 0xe000000000000000 \<noteq> 0)"
    using calculate_overflow [OF inv, of buffer] fits by (simp add: sha_def)
  have free: "(if datalen sha1 = -1 then init_sha1hash sha1 else sha1) = sha1"
    using datalen_not_free [OF inv] by simp
  have dl: "datalen sha = of_nat (length (m @ buffer))"
    using inv by (simp add: sha_def sha1_inv_def)
  have blk: "length (block sha) = 64" "h sha = hash_blocks sha1_H0 m"
    "take k (block sha) = drop (length m - k) m"
    using inv by (simp_all add: sha_def sha1_inv_def k_def)
  define p where "p = take (length m - k) m"
  have "k \<le> length m" by (simp add: k_def)
  moreover have "length p mod 64 = 0" by (simp add: p_def k_def minus_mod_eq_mult_div)
  ultimately have p: "length p mod 64 = 0" "h sha = hash_blocks sha1_H0 p" "m = p @ drop (length m - k) m"
    "length (drop (length m - k) m) = k"
    using blk(2) hash_blocks_whole [of sha1_H0 m] by (simp_all add: p_def flip: k_def)
  note call = calculate_sha1hash_def [of sha1 addr buffer, unfolded free Let_def k(1), folded sha_def]
  have "fst (calculate_sha1hash sha1 addr buffer) = Inr () \<and>
    sha1_inv (m @ buffer) (snd (calculate_sha1hash sha1 addr buffer))"
  proof (cases "k + length buffer < 64")
    case True
    then have c: "calculate_sha1hash sha1 addr buffer = (Inr (), sha\<lparr>block := blit k buffer (block sha)\<rparr>)"
      using ok by (simp add: call)
    have "hash_blocks sha1_H0 (m @ buffer) = hash_blocks sha1_H0 p"
      using True hash_blocks_append [OF p(1), of sha1_H0 "drop (length m - k) m @ buffer"] p(3,4)
      by (metis append_assoc hash_blocks_short length_append)
    then show ?thesis
      using True blk p(2) drop_mod_append [of m buffer] fits dl take_blit [of k "block sha" buffer]
      by (simp add: c sha1_inv_def k_def [symmetric])
  next
    case big: False
    show ?thesis
    proof (cases "k = 0")
      case True
      then have c: "calculate_sha1hash sha1 addr buffer = (Inr (), calculate_loop sha addr buffer)"
        using ok big by (simp add: call)
      have "length m mod 64 = 0" using True by (simp add: k_def)
      from calculate_loop_spec [OF this blk(2,1), of addr buffer] show ?thesis
        using fits dl \<open>length m mod 64 = 0\<close> mod_less_eq_dividend [of "length buffer" 64]
        by (simp add: c sha1_inv_def mod_add_left_eq mod_add_eq [of "length m" 64, symmetric])
    next
      case False
      define missing where "missing = 64 - k"
      define b where "b = blit k (take missing buffer) (block sha)"
      define sha' where "sha' = update_sha1hash (sha\<lparr>block := b\<rparr>) True b"
      have c: "calculate_sha1hash sha1 addr buffer
        = (Inr (), calculate_loop sha' (addr + of_nat missing) (drop missing buffer))"
        using ok big False unfolding call sha'_def b_def missing_def by simp
      have miss: "missing \<le> length buffer" "k + missing = 64"
        using big k(2) by (simp_all add: missing_def)
      have "b = take 64 (blit k (take missing buffer) (block sha))"
        using blk(1) miss by (simp add: b_def)
      then have b: "b = drop (length m - k) m @ take missing buffer" "length b = 64"
        using take_blit [of k "block sha" "take missing buffer"] blk miss p(4) by simp_all
      have h: "h sha' = hash_blocks sha1_H0 (p @ b)"
        using hash_blocks_append [OF p(1), of sha1_H0 b] hash_blocks_block [OF b(2), of _ "[]"] p(2)
        by (simp add: sha'_def update_sha1hash_spec(1) [OF b(2)] hash_blocks_short)
      have s: "length (block sha') = 64" "datalen sha' = datalen sha"
        by (simp_all add: sha'_def update_sha1hash_spec(2,3) [OF b(2)])
      have pb: "length (p @ b) mod 64 = 0" using p(1) b(2) by simp
      have eq: "(p @ b) @ drop missing buffer = m @ buffer"
        using p(3) b(1) by (metis append.assoc append_take_drop_id)
      have len: "length (m @ buffer) = length (p @ b) + length (drop missing buffer)"
        by (metis eq length_append)
      have mod: "length (m @ buffer) mod 64 = length (drop missing buffer) mod 64"
        unfolding len using pb by (metis add_0 mod_add_left_eq)
      have "drop (length (m @ buffer) - length (m @ buffer) mod 64) (m @ buffer)
        = drop (length (drop missing buffer) - length (drop missing buffer) mod 64) (drop missing buffer)"
        using drop_end_append [of "length (drop missing buffer) mod 64" "drop missing buffer" "p @ b"]
        unfolding eq mod by (simp only: mod_less_eq_dividend)
      then show ?thesis
        using calculate_loop_spec [OF pb h s(1), of "addr + of_nat missing" "drop missing buffer"] fits dl s(2)
        unfolding eq by (simp add: c sha1_inv_def mod del: length_append length_drop) simp
    qed
  qed
  then show "fst (calculate_sha1hash sha1 addr buffer) = Inr ()"
    and "sha1_inv (m @ buffer) (snd (calculate_sha1hash sha1 addr buffer))" by simp_all
qed

section \<open>Padding\<close>

lemma length_field:
  fixes d :: u64
  assumes "d = of_nat n"
  shows "be_bytes (ucast (drop_bit 29 d)) @ be_bytes (ucast (push_bit 3 d)) = be_bytes64 (of_nat (8 * n))"
proof -
  have w: "(of_nat (8 * n) :: u64) = push_bit 3 d" using assms by (simp add: push_bit_eq_mult mult.commute)
  have up: "[0..<8] = [0, 1, 2, 3, 4, 5, 6, 7 :: nat]" by code_simp
  have hi: "(ucast (drop_bit k (ucast (drop_bit 29 d) :: u32)) :: u8) = ucast (drop_bit (32 + k) (push_bit 3 d))"
    if "k \<le> 24" for k
    by (rule bit_word_eqI) (use that in \<open>auto simp: bit_simps\<close>)
  have lo: "(ucast (drop_bit k (ucast (push_bit 3 d) :: u32)) :: u8) = ucast (drop_bit k (push_bit 3 d))"
    if "k \<le> 24" for k
    by (rule bit_word_eqI) (use that in \<open>auto simp: bit_simps\<close>)
  show ?thesis
    unfolding be_bytes64_def w be_bytes_def up using hi [of 0] hi lo [of 0] lo by simp
qed

lemma length_native_bytes [simp]: "length (native_bytes w) = 4" "length (be_bytes w) = 4"
  by (simp_all add: native_bytes_def be_bytes_def)

text \<open>Writing behind a known prefix of a block of fixed length.\<close>

lemma blit_prefix:
  assumes "take n b = xs" and "length b = 64" and "n + length src \<le> 64"
  shows "take (n + length src) (blit n src b) = xs @ src" and "length (blit n src b) = 64"
  using assms take_blit [of n b src] by simp_all

lemma update_prefix:
  assumes "take n b = xs" and "length b = 64" and "n < 64"
  shows "take (n + 1) (b[n := x]) = xs @ [x]" and "length (b[n := x]) = 64"
  using assms by (simp_all add: take_Suc_conv_app_nth)

text \<open>The last block: zeros up to the length field, then the length.\<close>

lemma final_block:
  fixes d :: u64
  assumes "take n b = xs" and "length b = 64" and "n \<le> 56" and d: "d = of_nat len"
  defines "b1 \<equiv> blit n (replicate (56 - n) 0) b"
  defines "b2 \<equiv> blit 56 (native_bytes (htonl (ucast (drop_bit 29 d)))) b1"
  shows "blit 60 (native_bytes (htonl (ucast (push_bit 3 d)))) b2
    = xs @ replicate (56 - n) 0 @ be_bytes64 (of_nat (8 * len))"
proof -
  have 1: "take 56 b1 = xs @ replicate (56 - n) 0" "length b1 = 64"
    using blit_prefix [OF assms(1,2), of "replicate (56 - n) 0"] assms(3) by (simp_all add: b1_def)
  have 2: "take 60 b2 = (xs @ replicate (56 - n) 0) @ be_bytes (ucast (drop_bit 29 d))" "length b2 = 64"
    using blit_prefix [OF 1, of "be_bytes (ucast (drop_bit 29 d))"] by (simp_all add: b2_def native_bytes_htonl)
  show ?thesis
    using blit_prefix [OF 2, of "be_bytes (ucast (push_bit 3 d))"]
    by (simp add: native_bytes_htonl length_field [OF d] del: of_nat_mult)
qed

lemma zeros_short: "(119 - k) mod 64 = 55 - (k :: nat)" if "k \<le> 55"
proof -
  have "119 - k = (55 - k) + 64" using that by simp
  then have "(119 - k) mod 64 = (55 - k) mod 64" by (simp only: mod_add_self2)
  also have "\<dots> = 55 - k" by (rule mod_less) simp
  finally show ?thesis .
qed

lemma zeros_long: "(119 - k) mod 64 = (63 - k) + (56 :: nat)" if "55 < k" and "k < 64"
proof -
  have "(119 - k) mod 64 = 119 - k" by (rule mod_less) (use that in simp)
  then show ?thesis using that by simp
qed

lemma pad_short: "length m mod 64 \<le> 55 \<Longrightarrow>
  sha1_pad m = m @ [0x80] @ replicate (55 - length m mod 64) 0 @ be_bytes64 (of_nat (8 * length m))"
  by (simp only: sha1_pad_def zeros_short)

lemma pad_long: "55 < length m mod 64 \<Longrightarrow>
  sha1_pad m = m @ [0x80] @ replicate (63 - length m mod 64) 0 @ replicate 56 0 @ be_bytes64 (of_nat (8 * length m))"
  using zeros_long [of "length m mod 64"] mod_less_divisor [of 64 "length m"]
  by (simp only: sha1_pad_def replicate_add append_assoc zero_less_numeral)

lemma value_sha1hash_final:
  assumes inv: "sha1_inv m sha1"
  shows "fst (value_sha1hash sha1) = sha1_digest m" and "datalen (snd (value_sha1hash sha1)) = -1"
    and "concat (map native_bytes (h (snd (value_sha1hash sha1)))) = sha1_digest m"
proof -
  define k where "k = length m mod 64"
  have k: "unat (datalen sha1 AND 63) = k" "k < 64" "k \<le> length m"
    using unat_datalen [OF inv] by (simp_all add: and_63 k_def)
  define r where "r = drop (length m - k) m"
  define p where "p = take (length m - k) m"
  have dl: "datalen sha1 = of_nat (length m)" and free: "datalen sha1 \<noteq> -1"
    using inv datalen_not_free [OF inv] by (simp_all add: sha1_inv_def)
  have blk: "take k (block sha1) = r" "length (block sha1) = 64" "h sha1 = hash_blocks sha1_H0 p"
    using inv hash_blocks_whole [of sha1_H0 m] by (simp_all add: sha1_inv_def k_def r_def p_def)
  have m: "m = p @ r" "length p mod 64 = 0" "length r = k"
    using k(3) by (simp_all add: p_def r_def) (simp add: k_def minus_mod_eq_mult_div)
  have hash: "hash_blocks sha1_H0 (p @ b) = compress (h sha1) b" if "length b = 64" for b
    using hash_blocks_append [OF m(2), of sha1_H0 b] hash_blocks_block [OF that, of _ "[]"] blk(3)
    by (simp add: hash_blocks_short)
  define b1 where "b1 = (block sha1)[k := 0x80]"
  have b1: "take (k + 1) b1 = r @ [0x80]" "length b1 = 64"
    using update_prefix [OF blk(1,2) k(2)] by (simp_all add: b1_def)
  obtain fin where fin: "value_sha1hash sha1 = (concat (map native_bytes (map htonl fin)),
      snd (value_sha1hash sha1))" "h (snd (value_sha1hash sha1)) = map htonl fin"
    "datalen (snd (value_sha1hash sha1)) = -1" "fin = hash_blocks sha1_H0 (sha1_pad m)"
  proof (cases "56 < k + 1")
    case False
    define b2 where "b2 = r @ [0x80] @ replicate (56 - (k + 1)) 0 @ be_bytes64 (of_nat (8 * length m))"
    have b2: "blit 60 (native_bytes (htonl (ucast (push_bit 3 (datalen sha1)))))
       (blit 56 (native_bytes (htonl (ucast (drop_bit 29 (datalen sha1)))))
         (blit (k + 1) (replicate (56 - (k + 1)) 0) b1)) = b2"
      using final_block [OF b1 _ dl] False by (simp add: b2_def)
    have len: "length b2 = 64" using False m(3) by (simp add: b2_def be_bytes64_def)
    have pad: "sha1_pad m = p @ b2"
      using pad_short [of m] False m(1) by (simp add: b2_def k_def)
    show ?thesis
    proof (rule that [of "h (update_sha1hash (sha1\<lparr>block := b2\<rparr>) True b2)"])
      show "h (update_sha1hash (sha1\<lparr>block := b2\<rparr>) True b2) = hash_blocks sha1_H0 (sha1_pad m)"
        by (simp add: update_sha1hash_spec(1) [OF len] pad hash [OF len])
    qed (use False free k b2 in \<open>simp_all add: value_sha1hash_def Let_def flip: b1_def\<close>)
  next
    case True
    define b2 where "b2 = r @ [0x80] @ replicate (64 - (k + 1)) 0"
    define b3 where "b3 = replicate 56 0 @ be_bytes64 (of_nat (8 * length m))"
    have "take ((k + 1) + (64 - (k + 1))) (blit (k + 1) (replicate (64 - (k + 1)) 0) b1) = b2"
      using blit_prefix [OF b1, of "replicate (64 - (k + 1)) 0"] k(2) by (simp add: b2_def)
    then have b2: "blit (k + 1) (replicate (64 - (k + 1)) 0) b1 = b2"
      using blit_prefix(2) [OF b1, of "replicate (64 - (k + 1)) 0"] k(2) by simp
    have len: "length b2 = 64" "length b3 = 64"
      using k(2) m(3) by (simp_all add: b2_def b3_def be_bytes64_def)
    define sha where "sha = update_sha1hash (sha1\<lparr>block := b2\<rparr>) True b2"
    have sha: "h sha = hash_blocks sha1_H0 (p @ b2)" "length (block sha) = 64" "datalen sha = datalen sha1"
      by (simp_all add: sha_def update_sha1hash_spec [OF len(1)] hash [OF len(1)])
    have b3: "blit 60 (native_bytes (htonl (ucast (push_bit 3 (datalen sha)))))
       (blit 56 (native_bytes (htonl (ucast (drop_bit 29 (datalen sha)))))
         (blit 0 (replicate (56 - 0) 0) (block sha))) = b3"
      using final_block [of 0 "block sha" "[]" "datalen sha"] sha dl by (simp add: b3_def)
    have pb: "length (p @ b2) mod 64 = 0" using m(2) len(1) by simp
    have pad: "sha1_pad m = (p @ b2) @ b3"
      using pad_long [of m] True m(1) by (simp add: b2_def b3_def k_def)
    show ?thesis
    proof (rule that [of "h (update_sha1hash (sha\<lparr>block := b3\<rparr>) True b3)"])
      show "h (update_sha1hash (sha\<lparr>block := b3\<rparr>) True b3) = hash_blocks sha1_H0 (sha1_pad m)"
        using hash_blocks_append [OF pb, of sha1_H0 b3] hash_blocks_block [OF len(2), of _ "[]"]
        by (simp add: update_sha1hash_spec(1) [OF len(2)] pad sha(1) hash_blocks_short)
    qed (use True free k b2 b3 in \<open>simp_all add: value_sha1hash_def Let_def flip: b1_def sha_def\<close>)
  qed
  have "concat (map native_bytes (map htonl fin)) = sha1_digest m"
    using native_bytes_htonl by (simp add: sha1_digest_def fin(4) comp_def)
  then show "fst (value_sha1hash sha1) = sha1_digest m" "datalen (snd (value_sha1hash sha1)) = -1"
    "concat (map native_bytes (h (snd (value_sha1hash sha1)))) = sha1_digest m"
    using fin(1-3) by (metis fst_conv, simp_all)
qed

section \<open>Properties\<close>

text \<open>Feeding a message in pieces, each at its own address.\<close>

primrec calculate_pieces :: "(u64 \<times> u8 list) list \<Rightarrow> sha1_hash_t \<Rightarrow> unit cres \<times> sha1_hash_t" where
  "calculate_pieces [] sha1 = (Inr (), sha1)"
| "calculate_pieces (c # cs) sha1 =
     (case calculate_sha1hash sha1 (fst c) (snd c) of
        (Inl e, sha1') \<Rightarrow> (Inl e, sha1')
      | (Inr _, sha1') \<Rightarrow> calculate_pieces cs sha1')"

lemma calculate_pieces_inv:
  "sha1_inv m sha1 \<Longrightarrow> length m + length (concat (map snd cs)) < 2 ^ 61 \<Longrightarrow>
   \<exists>sha1'. calculate_pieces cs sha1 = (Inr (), sha1') \<and> sha1_inv (m @ concat (map snd cs)) sha1'"
proof (induction cs arbitrary: m sha1)
  case (Cons c cs)
  then have "length m + length (snd c) < 2 ^ 61" by simp
  note step = calculate_sha1hash_inv [OF Cons.prems(1) this, of "fst c"]
  show ?case
    using Cons.IH [OF step(2)] Cons.prems(2) step(1)
    by (cases "calculate_sha1hash sha1 (fst c) (snd c)") (auto simp: add.assoc)
qed simp

lemma value_sha1hash_free: "datalen sha1 = -1 \<Longrightarrow> value_sha1hash sha1 = (concat (map native_bytes (h sha1)), sha1)"
  by (simp add: value_sha1hash_def)

lemma calculate_sha1hash_free:
  assumes "datalen sha1 = -1"
  shows "calculate_sha1hash sha1 addr buffer = calculate_sha1hash (init_sha1hash sha1) addr buffer"
proof -
  have "datalen (init_sha1hash sha1) \<noteq> -1" by (simp add: init_sha1hash_def)
  then show ?thesis using assms by (simp only: calculate_sha1hash_def if_True if_False simp_thms)
qed

text \<open>C34: A message of less than \<open>2 ^ 61\<close> bytes, fed in pieces of any sizes from any addresses, is
  accepted, and \<open>value_sha1hash\<close> returns the SHA-1 digest of the whole message; calling it
  again returns the same value and changes nothing.
\<close>

theorem sha1_digest_of_pieces:
  assumes "length (block sha1) = 64" and "length (concat (map snd cs)) < 2 ^ 61"
  shows "\<exists>sha1'. calculate_pieces cs (init_sha1hash sha1) = (Inr (), sha1') \<and>
    fst (value_sha1hash sha1') = sha1_digest (concat (map snd cs)) \<and>
    value_sha1hash (snd (value_sha1hash sha1')) = value_sha1hash sha1'"
proof -
  obtain sha1' where 1: "calculate_pieces cs (init_sha1hash sha1) = (Inr (), sha1')"
    "sha1_inv (concat (map snd cs)) sha1'"
    using calculate_pieces_inv [OF sha1_inv_init [OF assms(1)], of cs] assms(2) by auto
  have "value_sha1hash (snd (value_sha1hash sha1')) = value_sha1hash sha1'"
    using value_sha1hash_free [OF value_sha1hash_final(2) [OF 1(2)]] value_sha1hash_final(1,3) [OF 1(2)]
    by (simp add: prod_eq_iff)
  then show ?thesis using 1 value_sha1hash_final(1) [OF 1(2)] by blast
qed

lemma sha1_digest_of_pieces_witness:
  "\<exists>sha1'. calculate_pieces [(1, [0x61]), (2, [0x62, 0x63])]
      (init_sha1hash \<lparr>datalen = 0, h = [], block = replicate 64 0\<rparr>) = (Inr (), sha1') \<and>
    fst (value_sha1hash sha1') = sha1_digest [0x61, 0x62, 0x63]"
  using sha1_digest_of_pieces [of "\<lparr>datalen = 0, h = [], block = replicate 64 0\<rparr>"
      "[(1, [0x61]), (2, [0x62, 0x63])]"] by auto

text \<open>A state whose value was read starts a new message with the next call: it behaves as after
  \<open>init_sha1hash\<close>.
\<close>

theorem sha1_restarts_after_value:
  assumes "sha1_inv m sha1"
  shows "calculate_sha1hash (snd (value_sha1hash sha1)) addr buffer
    = calculate_sha1hash (init_sha1hash (snd (value_sha1hash sha1))) addr buffer"
  by (rule calculate_sha1hash_free [OF value_sha1hash_final(2) [OF assms]])

lemma sha1_restarts_after_value_witness:
  "calculate_sha1hash (snd (value_sha1hash (init_sha1hash \<lparr>datalen = 7, h = [], block = replicate 64 0\<rparr>))) 0 [1]
   = calculate_sha1hash (init_sha1hash (snd (value_sha1hash (init_sha1hash \<lparr>datalen = 7, h = [], block = replicate 64 0\<rparr>)))) 0 [1]"
  by (rule sha1_restarts_after_value [of "[]"]) (rule sha1_inv_init, simp)

text \<open>C35: Exactly the pieces that take the message to \<open>2 ^ 61\<close> bytes or more, where the length in bits would not
  fit into 64 bits, are refused, with \<open>EOVERFLOW\<close>. The hash and the block keep their contents then, but the length
  has already been advanced by the length of the piece: the object no longer stands for the message before the call.
\<close>

theorem sha1_refuses_overflow:
  assumes inv: "sha1_inv m sha1" and "length buffer < 2 ^ 64"
  shows "if 2 ^ 61 \<le> length m + length buffer
    then calculate_sha1hash sha1 addr buffer = (Inl EOVERFLOW, sha1\<lparr>datalen := datalen sha1 + of_nat (length buffer)\<rparr>)
    else fst (calculate_sha1hash sha1 addr buffer) = Inr () \<and> sha1_inv (m @ buffer) (snd (calculate_sha1hash sha1 addr buffer))"
proof (cases "2 ^ 61 \<le> length m + length buffer")
  case True
  have "(if datalen sha1 = -1 then init_sha1hash sha1 else sha1) = sha1"
    using datalen_not_free [OF inv] by simp
  then show ?thesis
    using calculate_overflow [OF inv assms(2)] True unfolding calculate_sha1hash_def Let_def
    by simp
next
  case False
  then show ?thesis using calculate_sha1hash_inv [OF inv, of buffer addr] by simp
qed

lemma sha1_refuses_overflow_witness:
  "fst (calculate_sha1hash (init_sha1hash \<lparr>datalen = 7, h = [], block = replicate 64 0\<rparr>) 0
     (replicate (2 ^ 61) 0)) = Inl EOVERFLOW"
proof -
  have "sha1_inv [] (init_sha1hash \<lparr>datalen = 7, h = [], block = replicate 64 0\<rparr>)"
    by (rule sha1_inv_init) simp
  from sha1_refuses_overflow [OF this, of "replicate (2 ^ 61) 0"] show ?thesis by simp
qed

end
