(* ===== verification/Big_Base.thy ===== *)
theory Big_Base
  imports Prelude
begin

text \<open>
  The data structure of C-kern/math/int/bigint.c, its allocation and the operations that change
  one number in place. A \<open>bigint_t\<close> holds little endian digits of 32 bits, a field that is the
  number of digits in use with the sign of the number, and an exponent that counts digits 0
  below the stored ones. \<open>bval\<close> is the integer such an object stands for.
\<close>

section \<open>Fixed width fields\<close>

text \<open>The casts to \<open>int16_t\<close> and \<open>uint16_t\<close>.\<close>

definition cast_int16 :: "int \<Rightarrow> int" where
  "cast_int16 i = (i + 2 ^ 15) mod 2 ^ 16 - 2 ^ 15"

definition cast_uint16 :: "nat \<Rightarrow> nat" where
  "cast_uint16 n = n mod 2 ^ 16"

lemma cast_int16_id [simp]: "- (2 ^ 15) \<le> i \<Longrightarrow> i < 2 ^ 15 \<Longrightarrow> cast_int16 i = i"
  by (simp add: cast_int16_def)

lemma cast_uint16_id [simp]: "n < 2 ^ 16 \<Longrightarrow> cast_uint16 n = n"
  by (simp add: cast_uint16_def)

section \<open>The object\<close>

record bigint_t =
  allocated_digits :: nat
  sign_and_used_digits :: int
  exponent :: nat
  digits :: "u32 list"

definition nrdigits_bigint :: "bigint_t \<Rightarrow> nat" where
  "nrdigits_bigint big = nat (if sign_and_used_digits big < 0 then - sign_and_used_digits big
     else sign_and_used_digits big)"

definition exponent_bigint :: "bigint_t \<Rightarrow> nat" where
  "exponent_bigint big = exponent big"

definition firstdigit_bigint :: "bigint_t \<Rightarrow> u32" where
  "firstdigit_bigint big =
     (if sign_and_used_digits big \<noteq> 0 then digits big ! (nrdigits_bigint big - 1) else 0)"

definition isnegative_bigint :: "bigint_t \<Rightarrow> bool" where
  "isnegative_bigint big \<longleftrightarrow> sign_and_used_digits big < 0"

definition iszero_bigint :: "bigint_t \<Rightarrow> bool" where
  "iszero_bigint big \<longleftrightarrow> 0 = sign_and_used_digits big"

definition negate_bigint :: "bigint_t \<Rightarrow> bigint_t" where
  "negate_bigint big = big\<lparr>sign_and_used_digits := cast_int16 (- sign_and_used_digits big)\<rparr>"

definition setnegative_bigint :: "bigint_t \<Rightarrow> bigint_t" where
  "setnegative_bigint big = big\<lparr>sign_and_used_digits := cast_int16
     (if sign_and_used_digits big < 0 then sign_and_used_digits big else - sign_and_used_digits big)\<rparr>"

definition setpositive_bigint :: "bigint_t \<Rightarrow> bigint_t" where
  "setpositive_bigint big = big\<lparr>sign_and_used_digits := cast_int16
     (if sign_and_used_digits big < 0 then - sign_and_used_digits big else sign_and_used_digits big)\<rparr>"

definition sign_bigint :: "bigint_t \<Rightarrow> int" where
  "sign_bigint big = of_bool (sign_and_used_digits big > 0) - of_bool (sign_and_used_digits big < 0)"

definition size_bigint :: "bigint_t \<Rightarrow> nat" where
  "size_bigint big = exponent_bigint big + nrdigits_bigint big"

section \<open>Allocation\<close>

text \<open>
  The memory manager behind \<open>RESIZE_ERR_MM\<close> is a parameter: for a size in bytes it may refuse
  with an error code, it may move a block that it resizes, and the new part of a block has
  arbitrary content. The old content is kept up to the new size.
\<close>

record mm_t =
  mm_refuses :: "nat \<Rightarrow> errno option"
  mm_moves :: "nat \<Rightarrow> bool"
  mm_fill :: "nat \<Rightarrow> u32"

definition objectsize_bigint :: "nat \<Rightarrow> nat" where
  "objectsize_bigint allocated = 8 + 4 * allocated"

text \<open>
  \<open>allocate_bigint\<close> for \<open>*big = 0\<close> or an object: the error code or success, and \<open>*big\<close> after it.
\<close>

definition allocate_bigint :: "mm_t \<Rightarrow> bigint_t option \<Rightarrow> nat \<Rightarrow> unit cres \<times> bigint_t option" where
  "allocate_bigint mm big allocate_digits =
     (let allocate_digits = (if allocate_digits < 4 then 4 else allocate_digits)
      in if allocate_digits > 0x7fff then (Inl EOVERFLOW, big)
         else if big \<noteq> None \<and> allocated_digits (the big) = 0 then (Inl EINVAL, big)
         else case mm_refuses mm (objectsize_bigint (cast_uint16 allocate_digits)) of
                Some err \<Rightarrow> (Inl err, big)
              | None \<Rightarrow>
                  let old = (case big of None \<Rightarrow> [] | Some b \<Rightarrow> digits b)
                  in (Inr (), Some \<lparr>allocated_digits = cast_uint16 allocate_digits,
                        sign_and_used_digits = 0, exponent = 0,
                        digits = take allocate_digits old @ map (mm_fill mm) [length old..<allocate_digits]\<rparr>))"

text \<open>The test that precedes most calls: \<open>if (big->allocated_digits < size) allocate_bigint(...)\<close>.\<close>

definition reserve_bigint :: "mm_t \<Rightarrow> bigint_t \<Rightarrow> nat \<Rightarrow> unit cres \<times> bigint_t" where
  "reserve_bigint mm big sz =
     (if allocated_digits big < sz then map_prod id the (allocate_bigint mm (Some big) sz)
      else (Inr (), big))"

definition new_bigint :: "mm_t \<Rightarrow> nat \<Rightarrow> bigint_t cres" where
  "new_bigint mm nrdigits =
     (case allocate_bigint mm None nrdigits of
        (Inl err, _) \<Rightarrow> Inl err
      | (Inr _, new_big) \<Rightarrow> Inr (the new_big))"

section \<open>Values\<close>

text \<open>The value of little endian digits, and of an object.\<close>

primrec dval :: "u32 list \<Rightarrow> nat" where
  "dval [] = 0"
| "dval (d # ds) = unat d + 2 ^ 32 * dval ds"

definition used_digits :: "bigint_t \<Rightarrow> u32 list" where
  "used_digits big = take (nrdigits_bigint big) (digits big)"

definition bmag :: "bigint_t \<Rightarrow> nat" where
  "bmag big = dval (used_digits big) * 2 ^ (32 * exponent big)"

definition bval :: "bigint_t \<Rightarrow> int" where
  "bval big = sgn (sign_and_used_digits big) * int (bmag big)"

text \<open>
  The invariant. \<open>allocated_digits = 0\<close> marks a \<open>bigint_fixed_t\<close>, whose array cannot be resized.
  A number in use has no leading zero digit, and zero has exponent 0.
\<close>

definition bigint_inv :: "bigint_t \<Rightarrow> bool" where
  "bigint_inv big \<longleftrightarrow>
     allocated_digits big < 2 ^ 15 \<and>
     (allocated_digits big \<noteq> 0 \<longrightarrow> length (digits big) = allocated_digits big) \<and>
     nrdigits_bigint big \<le> length (digits big) \<and> nrdigits_bigint big < 2 ^ 15 \<and>
     exponent big < 2 ^ 16 \<and>
     (sign_and_used_digits big \<noteq> 0 \<longrightarrow> digits big ! (nrdigits_bigint big - 1) \<noteq> 0) \<and>
     (sign_and_used_digits big = 0 \<longrightarrow> exponent big = 0)"

subsection \<open>Digits\<close>

lemma dval_append: "dval (xs @ ys) = dval xs + 2 ^ (32 * length xs) * dval ys"
  by (induction xs) (simp_all add: power_add algebra_simps)

lemma dval_bound: "dval ds < 2 ^ (32 * length ds)"
proof (induction ds)
  case (Cons d ds)
  have "unat d + 2 ^ 32 * dval ds < 2 ^ 32 * (dval ds + 1)"
    using unat_u32_bound [of d] by simp
  also have "\<dots> \<le> 2 ^ 32 * 2 ^ (32 * length ds)"
    using Cons by (intro mult_left_mono) simp_all
  also have "\<dots> = 2 ^ (32 * length (d # ds))" by (simp add: power_add)
  finally show ?case by simp
qed simp

lemma dval_zeros [simp]: "dval (replicate n 0) = 0"
  by (induction n) simp_all

lemma dval_0_iff: "dval ds = 0 \<longleftrightarrow> (\<forall>d\<in>set ds. d = 0)"
  by (induction ds) (auto simp: unat_eq_0)

lemma dval_take_drop: "n \<le> length ds \<Longrightarrow> dval ds = dval (take n ds) + 2 ^ (32 * n) * dval (drop n ds)"
  using dval_append [of "take n ds" "drop n ds"] by simp

text \<open>The value is at least a power of the base exactly when the top digit is not 0.\<close>

lemma dval_top:
  assumes "ds \<noteq> []" and "last ds \<noteq> 0"
  shows "2 ^ (32 * (length ds - 1)) \<le> dval ds"
proof -
  have "dval ds = dval (butlast ds) + 2 ^ (32 * (length ds - 1)) * unat (last ds)"
    using dval_append [of "butlast ds" "[last ds]"] assms(1) by simp
  moreover have "1 \<le> unat (last ds)" using assms(2) by (simp add: Suc_le_eq unat_gt_0)
  ultimately show ?thesis by (metis mult.right_neutral mult_le_mono2 le_add2 le_trans)
qed

lemma last_nonzero_dval:
  assumes "2 ^ (32 * (length ds - 1)) \<le> dval ds" and "ds \<noteq> []"
  shows "last ds \<noteq> 0"
proof
  assume "last ds = 0"
  then have "butlast ds @ [0] = ds" using append_butlast_last_id [OF assms(2)] by simp
  then have "dval ds = dval (butlast ds)"
    using dval_append [of "butlast ds" "[0]"] by simp
  then show False using dval_bound [of "butlast ds"] assms by simp
qed

subsection \<open>Fields\<close>

lemma nrdigits_abs: "int (nrdigits_bigint b) = \<bar>sign_and_used_digits b\<bar>"
  by (simp add: nrdigits_bigint_def)

lemma nrdigits_0_iff: "nrdigits_bigint b = 0 \<longleftrightarrow> sign_and_used_digits b = 0"
  by (auto simp: nrdigits_bigint_def)

lemma length_used: "bigint_inv b \<Longrightarrow> length (used_digits b) = nrdigits_bigint b"
  by (simp add: used_digits_def bigint_inv_def)

lemma last_used:
  assumes "bigint_inv b" and "sign_and_used_digits b \<noteq> 0"
  shows "used_digits b \<noteq> []" and "last (used_digits b) \<noteq> 0"
proof -
  have n: "nrdigits_bigint b \<noteq> 0" using assms(2) by (simp add: nrdigits_0_iff)
  then show ne: "used_digits b \<noteq> []" using length_used [OF assms(1)] by fastforce
  have "last (used_digits b) = digits b ! (nrdigits_bigint b - 1)"
    using ne n length_used [OF assms(1)] by (simp add: last_conv_nth) (simp add: used_digits_def)
  then show "last (used_digits b) \<noteq> 0" using assms by (simp add: bigint_inv_def)
qed

lemma bmag_0_iff: "bigint_inv b \<Longrightarrow> bmag b = 0 \<longleftrightarrow> sign_and_used_digits b = 0"
proof
  assume inv: "bigint_inv b" and "bmag b = 0"
  then have "dval (used_digits b) = 0" by (simp add: bmag_def)
  then show "sign_and_used_digits b = 0"
    using last_used [OF inv] by (metis dval_0_iff last_in_set)
qed (simp add: bmag_def used_digits_def nrdigits_bigint_def)

lemma bval_0_iff: "bigint_inv b \<Longrightarrow> bval b = 0 \<longleftrightarrow> sign_and_used_digits b = 0"
  by (auto simp: bval_def bmag_0_iff sgn_0_0)

lemma sgn_bval: "bigint_inv b \<Longrightarrow> sgn (bval b) = sgn (sign_and_used_digits b)"
  using bmag_0_iff [of b] by (auto simp: bval_def sgn_mult)

lemma abs_bval: "\<bar>bval b\<bar> = int (bmag b)"
  by (auto simp: bval_def abs_mult bmag_def used_digits_def nrdigits_bigint_def sgn_if)

lemma bval_sign: "bigint_inv b \<Longrightarrow> bval b = (if isnegative_bigint b then - int (bmag b) else int (bmag b))"
  using bmag_0_iff [of b] by (auto simp: bval_def isnegative_bigint_def sgn_if)

text \<open>The magnitude lies between the powers that the number of digits and the exponent give.\<close>

lemma bmag_bounds:
  assumes "bigint_inv b" and "sign_and_used_digits b \<noteq> 0"
  shows "2 ^ (32 * (size_bigint b - 1)) \<le> bmag b" and "bmag b < 2 ^ (32 * size_bigint b)"
proof -
  have n: "nrdigits_bigint b \<noteq> 0" using assms(2) by (simp add: nrdigits_0_iff)
  have e: "32 * (size_bigint b - 1) = 32 * (nrdigits_bigint b - 1) + 32 * exponent b"
    "32 * size_bigint b = 32 * nrdigits_bigint b + 32 * exponent b"
    using n by (simp_all add: size_bigint_def exponent_bigint_def)
  show "2 ^ (32 * (size_bigint b - 1)) \<le> bmag b"
    unfolding e bmag_def power_add
    using dval_top [OF last_used [OF assms]] length_used [OF assms(1)] by simp
  show "bmag b < 2 ^ (32 * size_bigint b)"
    unfolding e bmag_def power_add
    using dval_bound [of "used_digits b"] length_used [OF assms(1)] by simp
qed

section \<open>Building results\<close>

text \<open>
  What an operation writes: \<open>n\<close> digits \<open>ds\<close> from index 0 on, the sign and the exponent. This is
  the shape of the result of every operation below.
\<close>

lemma set_result:
  fixes neg :: bool
  assumes "length ds \<le> length (digits b)" and "n \<le> length ds" and "n < 2 ^ 15"
    and "e < 2 ^ 16" and "n \<noteq> 0 \<Longrightarrow> ds ! (n - 1) \<noteq> 0" and "n = 0 \<Longrightarrow> e = 0"
    and "allocated_digits b < 2 ^ 15" and "allocated_digits b \<noteq> 0 \<Longrightarrow> length (digits b) = allocated_digits b"
  defines "r \<equiv> b\<lparr>sign_and_used_digits := cast_int16 (if neg then - int n else int n),
      exponent := cast_uint16 e, digits := blit 0 ds (digits b)\<rparr>"
  shows "bigint_inv r" and "bval r = (if neg then -1 else 1) * int (dval (take n ds) * 2 ^ (32 * e))"
proof -
  have s: "sign_and_used_digits r = (if neg then - int n else int n)"
    using assms(3) by (auto simp: r_def)
  have n: "nrdigits_bigint r = n" using s by (simp add: nrdigits_bigint_def)
  have d: "digits r = blit 0 ds (digits b)" and e: "exponent r = e"
    and a: "allocated_digits r = allocated_digits b"
    using assms(4) by (simp_all add: r_def)
  have u: "used_digits r = take n ds"
    using assms(2) by (simp add: used_digits_def n d blit_def)
  have "n \<noteq> 0 \<Longrightarrow> digits r ! (n - 1) \<noteq> 0"
    using assms(1,2,5) by (cases n) (auto simp: d nth_blit)
  then show "bigint_inv r"
    using assms s n d e by (auto simp: bigint_inv_def a)
  show "bval r = (if neg then -1 else 1) * int (dval (take n ds) * 2 ^ (32 * e))"
    by (cases "n = 0") (auto simp: bval_def bmag_def s u e)
qed

text \<open>The effect of reserving digits: success gives enough of them, failure changes nothing.\<close>

lemma allocate_bigint_Some:
  assumes "allocate_bigint mm (Some big) n = (r, Some big')"
  shows "(\<exists>err. r = Inl err \<and> big' = big) \<or>
    (r = Inr () \<and> n < 2 ^ 15 \<and> allocated_digits big' < 2 ^ 15 \<and> 0 < allocated_digits big' \<and>
     n \<le> allocated_digits big' \<and> length (digits big') = allocated_digits big' \<and>
     allocated_digits big' = max 4 n \<and>
     sign_and_used_digits big' = 0 \<and> exponent big' = 0 \<and>
     (\<forall>k. k \<le> length (digits big) \<longrightarrow> k \<le> n \<longrightarrow> take k (digits big') = take k (digits big)))"
  using assms
  by (auto simp: allocate_bigint_def Let_def split: if_splits option.splits)

lemma allocate_bigint_result: "\<exists>r big'. allocate_bigint mm (Some big) n = (r, Some big')"
  by (auto simp: allocate_bigint_def Let_def split: option.splits)

lemma allocate_bigint_None:
  assumes "allocate_bigint mm None n = (Inr (), big')"
  shows "\<exists>b. big' = Some b \<and> allocated_digits b < 2 ^ 15 \<and> 0 < allocated_digits b \<and>
     n \<le> allocated_digits b \<and> length (digits b) = allocated_digits b \<and>
     sign_and_used_digits b = 0 \<and> exponent b = 0"
  using assms
  by (auto simp: allocate_bigint_def Let_def split: if_splits option.splits)

lemma reserve_bigint_cases:
  assumes "bigint_inv big"
  obtains (error) err where "reserve_bigint mm big n = (Inl err, big)"
  | (ok) big' where "reserve_bigint mm big n = (Inr (), big')" and "n \<le> length (digits big')"
      and "allocated_digits big' < 2 ^ 15" and "n < 2 ^ 15"
      and "allocated_digits big' \<noteq> 0 \<Longrightarrow> length (digits big') = allocated_digits big'"
      and "\<And>k. k \<le> length (digits big) \<Longrightarrow> k \<le> n \<Longrightarrow> take k (digits big') = take k (digits big)"
proof (cases "allocated_digits big < n")
  case True
  obtain r big' where a: "allocate_bigint mm (Some big) n = (r, Some big')"
    using allocate_bigint_result by blast
  then have "reserve_bigint mm big n = (r, big')" using True by (simp add: reserve_bigint_def)
  with allocate_bigint_Some [OF a] show ?thesis by (elim disjE) (auto intro: error ok)
next
  case False
  then have "reserve_bigint mm big n = (Inr (), big)" by (simp add: reserve_bigint_def)
  then show ?thesis
    using assms False by (cases "allocated_digits big = 0") (auto simp: bigint_inv_def intro: ok)
qed

text \<open>
  What the operations promise: on success the object satisfies the invariant and has value \<open>v\<close>;
  on an error it is what it was.
\<close>

fun delivers :: "bigint_t \<Rightarrow> unit cres \<times> bigint_t \<Rightarrow> int \<Rightarrow> bool" where
  "delivers old (Inl err, new) v \<longleftrightarrow> new = old"
| "delivers old (Inr _, new) v \<longleftrightarrow> bigint_inv new \<and> bval new = v"

text \<open>A memory manager that has memory, and an object that may be resized.\<close>

definition generous :: "mm_t \<Rightarrow> bool" where
  "generous mm \<longleftrightarrow> mm_refuses mm = (\<lambda>_. None)"

lemma reserve_bigint_succeeds:
  assumes "n < 2 ^ 15" and "generous mm" and "allocated_digits big \<noteq> 0"
  shows "fst (reserve_bigint mm big n) = Inr ()"
  using assms by (auto simp: reserve_bigint_def allocate_bigint_def generous_def Let_def)

lemma allocate_bigint_None_succeeds:
  "n < 2 ^ 15 \<Longrightarrow> generous mm \<Longrightarrow> \<exists>b. allocate_bigint mm None n = (Inr (), Some b)"
  by (cases "n < 4") (simp_all add: allocate_bigint_def generous_def Let_def)

lemma reserve_bigint_enough: "n \<le> allocated_digits big \<Longrightarrow> reserve_bigint mm big n = (Inr (), big)"
  by (simp add: reserve_bigint_def)

text \<open>An object of value 0 after a successful allocation.\<close>

lemma bigint_inv_new:
  assumes "allocated_digits b < 2 ^ 15" and "length (digits b) = allocated_digits b"
    and "sign_and_used_digits b = 0" and "exponent b = 0"
  shows "bigint_inv b"
  using assms by (simp add: bigint_inv_def nrdigits_bigint_def)

end
