(* ===== verification/Big_Set.thy ===== *)
theory Big_Set
  imports Big_Base Int_Bits
begin

text \<open>
  Comparison, assignment and the in-place operations of C-kern/math/int/bigint.c that do no
  arithmetic: \<open>cmp_bigint\<close>, \<open>copy_bigint\<close>, the \<open>set\<close> functions, \<open>clearfirstdigit_bigint\<close>,
  \<open>removetrailingzero_bigint\<close>. Each is shown to do on \<open>bval\<close> what its header says.
\<close>

section \<open>Definitions\<close>

text \<open>
  The two loops of \<open>cmpmagnitude_bigint\<close> on the digits from the most significant one down: the
  common digits, then the test of the longer number for a digit that is not 0.
\<close>

primrec any_nonzero :: "u32 list \<Rightarrow> bool" where
  "any_nonzero [] \<longleftrightarrow> False"
| "any_nonzero (d # ds) \<longleftrightarrow> (if d \<noteq> 0 then True else any_nonzero ds)"

fun cmp_loop :: "u32 list \<Rightarrow> u32 list \<Rightarrow> int" where
  "cmp_loop [] rds = (if any_nonzero rds then -1 else 0)"
| "cmp_loop (ld # lds) [] = (if any_nonzero (ld # lds) then 1 else 0)"
| "cmp_loop (ld # lds) (rd # rds) =
     (if ld \<noteq> rd then (if ld > rd then 1 else -1) else cmp_loop lds rds)"

definition cmpmagnitude_bigint :: "bigint_t \<Rightarrow> bigint_t \<Rightarrow> int" where
  "cmpmagnitude_bigint lbig rbig =
     (let lnrdigits = nrdigits_bigint lbig;
          rnrdigits = nrdigits_bigint rbig;
          lmaxexp = int lnrdigits + int (exponent lbig);
          rmaxexp = int rnrdigits + int (exponent rbig)
      in if lnrdigits = 0 \<or> rnrdigits = 0 then sign_int (int lnrdigits - int rnrdigits)
         else if lmaxexp \<noteq> rmaxexp then sign_int (lmaxexp - rmaxexp)
         else cmp_loop (rev (take lnrdigits (digits lbig))) (rev (take rnrdigits (digits rbig))))"

definition cmp_bigint :: "bigint_t \<Rightarrow> bigint_t \<Rightarrow> int" where
  "cmp_bigint lbig rbig =
     (let lsign = sign_bigint lbig; rsign = sign_bigint rbig
      in if lsign \<noteq> rsign then sign_int (lsign - rsign)
         else if 0 > lsign then cmpmagnitude_bigint rbig lbig
         else cmpmagnitude_bigint lbig rbig)"

definition clear_bigint :: "bigint_t \<Rightarrow> bigint_t" where
  "clear_bigint big = big\<lparr>sign_and_used_digits := 0, exponent := 0\<rparr>"

definition copy_bigint :: "mm_t \<Rightarrow> bigint_t \<Rightarrow> bigint_t \<Rightarrow> unit cres \<times> bigint_t" where
  "copy_bigint mm big copyfrom =
     (let n = nrdigits_bigint copyfrom
      in case reserve_bigint mm big n of
           (Inl err, big) \<Rightarrow> (Inl err, big)
         | (Inr _, copy) \<Rightarrow>
             (Inr (), copy\<lparr>sign_and_used_digits := sign_and_used_digits copyfrom,
                exponent := exponent copyfrom,
                digits := blit 0 (take n (digits copyfrom)) (digits copy)\<rparr>))"

definition newcopy_bigint :: "mm_t \<Rightarrow> bigint_t \<Rightarrow> bigint_t cres" where
  "newcopy_bigint mm copyfrom =
     (let n = nrdigits_bigint copyfrom
      in case allocate_bigint mm None (if n < 4 then 4 else n) of
           (Inl err, _) \<Rightarrow> Inl err
         | (Inr _, new_big) \<Rightarrow>
             (case copy_bigint mm (the new_big) copyfrom of
                (Inl err, _) \<Rightarrow> Inl err
              | (Inr _, big) \<Rightarrow> Inr big))"

definition setPi32_bigint :: "bigint_t \<Rightarrow> 32 word \<Rightarrow> bigint_t" where
  "setPi32_bigint big val =
     (if val = 0 then big\<lparr>sign_and_used_digits := 0, exponent := 0\<rparr>
      else if val <s 0 then
        big\<lparr>sign_and_used_digits := -1, digits := (digits big)[0 := - val], exponent := 0\<rparr>
      else big\<lparr>sign_and_used_digits := 1, digits := (digits big)[0 := val], exponent := 0\<rparr>)"

definition setPu32_bigint :: "bigint_t \<Rightarrow> u32 \<Rightarrow> bigint_t" where
  "setPu32_bigint big val =
     (if val = 0 then big\<lparr>sign_and_used_digits := 0, exponent := 0\<rparr>
      else big\<lparr>sign_and_used_digits := 1, digits := (digits big)[0 := val], exponent := 0\<rparr>)"

definition setPu64_bigint :: "bigint_t \<Rightarrow> u64 \<Rightarrow> bigint_t" where
  "setPu64_bigint big val =
     (if (ucast (drop_bit 32 val) :: u32) \<noteq> 0 then
        big\<lparr>sign_and_used_digits := 2,
          digits := (digits big)[0 := ucast val, 1 := ucast (drop_bit 32 val)], exponent := 0\<rparr>
      else if (ucast val :: u32) \<noteq> 0 then
        big\<lparr>sign_and_used_digits := 1, digits := (digits big)[0 := ucast val], exponent := 0\<rparr>
      else big\<lparr>sign_and_used_digits := 0, exponent := 0\<rparr>)"

text \<open>The loops that skip zero digits at one end of an array.\<close>

primrec skip_zeros :: "u32 list \<Rightarrow> nat \<times> u32 list" where
  "skip_zeros [] = (0, [])"
| "skip_zeros (d # ds) = (if d = 0 then map_prod Suc id (skip_zeros ds) else (0, d # ds))"

text \<open>
  \<open>setbigfirst_bigint\<close>: trailing zeros of the (big endian) argument raise the exponent, leading
  zeros are dropped, the rest is stored in reverse order.
\<close>

definition setbigfirst_bigint ::
  "mm_t \<Rightarrow> bigint_t \<Rightarrow> int \<Rightarrow> u32 list \<Rightarrow> nat \<Rightarrow> unit cres \<times> bigint_t" where
  "setbigfirst_bigint mm big sign numbers expo =
     (if sign = 0 then (Inl EINVAL, big)
      else let (trail, rest) = skip_zeros (rev numbers);
               expo2 = expo + trail
           in if rest = [] then (Inr (), clear_bigint big)
              else if expo2 > 0xffff then (Inl EOVERFLOW, big)
              else let (offset, num) = skip_zeros (rev rest);
                       size2 = length num
                   in case reserve_bigint mm big size2 of
                        (Inl err, big) \<Rightarrow> (Inl err, big)
                      | (Inr _, big2) \<Rightarrow>
                          (Inr (), big2\<lparr>sign_and_used_digits := cast_int16 (if sign < 0 then - int size2 else int size2),
                             exponent := cast_uint16 expo2,
                             digits := blit 0 (rev num) (digits big2)\<rparr>))"

definition setlittlefirst_bigint ::
  "mm_t \<Rightarrow> bigint_t \<Rightarrow> int \<Rightarrow> u32 list \<Rightarrow> nat \<Rightarrow> unit cres \<times> bigint_t" where
  "setlittlefirst_bigint mm big sign numbers expo =
     (if sign = 0 then (Inl EINVAL, big)
      else let (lead, rest) = skip_zeros (rev numbers)
           in if rest = [] then (Inr (), clear_bigint big)
              else let (offset, num) = skip_zeros (rev rest);
                       expo2 = expo + offset;
                       size2 = length num
                   in if expo2 > 0xffff then (Inl EOVERFLOW, big)
                      else case reserve_bigint mm big size2 of
                        (Inl err, big) \<Rightarrow> (Inl err, big)
                      | (Inr _, big2) \<Rightarrow>
                          (Inr (), big2\<lparr>sign_and_used_digits := cast_int16 (if sign < 0 then - int size2 else int size2),
                             exponent := cast_uint16 expo2,
                             digits := blit 0 num (digits big2)\<rparr>))"

text \<open>The loop of \<open>clearfirstdigit_bigint\<close> on the number of digits.\<close>

primrec used_below :: "u32 list \<Rightarrow> nat \<Rightarrow> nat" where
  "used_below ds 0 = 0"
| "used_below ds (Suc n) = (if n \<noteq> 0 \<and> ds ! (n - 1) = 0 then used_below ds n else n)"

definition clearfirstdigit_bigint :: "bigint_t \<Rightarrow> bigint_t" where
  "clearfirstdigit_bigint big =
     (let n = used_below (digits big) (nrdigits_bigint big);
          big = (if sign_and_used_digits big < 0 then big\<lparr>sign_and_used_digits := - int n\<rparr>
                 else if sign_and_used_digits big > 0 then big\<lparr>sign_and_used_digits := int n\<rparr>
                 else big)
      in if sign_and_used_digits big = 0 then big\<lparr>exponent := 0\<rparr> else big)"

text \<open>The loop of \<open>removetrailingzero_bigint\<close> on \<open>nrdigits\<close>, \<open>rshift\<close> and the exponent.\<close>

function trailing_loop :: "u32 list \<Rightarrow> nat \<Rightarrow> nat \<Rightarrow> nat \<Rightarrow> nat \<times> nat \<times> nat" where
  "trailing_loop ds n rshift expo =
     (if 1 < n \<and> ds ! rshift = 0 \<and> 0xffff \<noteq> expo then trailing_loop ds (n - 1) (rshift + 1) (expo + 1)
      else (n, rshift, expo))"
  by pat_completeness auto
termination by (relation "measure (\<lambda>(ds, n, rshift, expo). n)") simp_all

declare trailing_loop.simps [simp del]

definition removetrailingzero_bigint :: "bigint_t \<Rightarrow> bigint_t" where
  "removetrailingzero_bigint big =
     (let (n, rshift, expo) = trailing_loop (digits big) (nrdigits_bigint big) 0 (exponent big);
          big = big\<lparr>exponent := expo\<rparr>
      in if rshift \<noteq> 0 then
           big\<lparr>sign_and_used_digits := cast_int16 (if sign_and_used_digits big < 0 then - int n else int n),
               digits := blit 0 (take n (drop rshift (digits big))) (digits big)\<rparr>
         else big)"

section \<open>Comparison\<close>

lemma any_nonzero_iff: "any_nonzero ds \<longleftrightarrow> dval (rev ds) \<noteq> 0"
  by (induction ds) (auto simp: dval_append unat_eq_0)

text \<open>The value of digits listed from the most significant one.\<close>

definition beval :: "u32 list \<Rightarrow> int" where
  "beval ds = int (dval (rev ds))"

lemma beval_Cons: "beval (d # ds) = int (unat d) * 2 ^ (32 * length ds) + beval ds"
  by (simp add: beval_def dval_append mult.commute)

lemma beval_bounds: "0 \<le> beval ds" "beval ds < 2 ^ (32 * length ds)"
proof -
  have "int (dval (rev ds)) < int (2 ^ (32 * length ds))"
    using dval_bound [of "rev ds"] by (simp only: of_nat_less_iff length_rev)
  then show "0 \<le> beval ds" "beval ds < 2 ^ (32 * length ds)" by (simp_all add: beval_def)
qed

text \<open>The loop compares the numbers as fractions with the point in front of the first digit.\<close>

lemma cmp_loop_sgn:
  "cmp_loop xs ys = sgn (beval xs * 2 ^ (32 * length ys) - beval ys * 2 ^ (32 * length xs))"
proof (induction xs ys rule: cmp_loop.induct)
  case (1 rds)
  then show ?case by (auto simp: any_nonzero_iff beval_def)
next
  case (2 ld lds)
  have "cmp_loop (ld # lds) [] = sgn (beval (ld # lds))"
    by (simp only: cmp_loop.simps any_nonzero_iff beval_def) simp
  then show ?case by (simp add: beval_def)
next
  case (3 x xs y ys)
  define A B p q where "A = beval xs" and "B = beval ys"
    and "p = (2 :: int) ^ (32 * length xs)" and "q = (2 :: int) ^ (32 * length ys)"
  have pq: "0 < p" "0 < q" by (simp_all add: p_def q_def)
  have b: "0 \<le> A" "A < p" "0 \<le> B" "B < q"
    using beval_bounds [of xs] beval_bounds [of ys] by (simp_all add: A_def B_def p_def q_def)
  define u v where "u = int (unat x)" and "v = int (unat y)"
  let ?d = "beval (x # xs) * 2 ^ (32 * length (y # ys)) - beval (y # ys) * 2 ^ (32 * length (x # xs))"
  have d: "?d = 2 ^ 32 * ((A * q - B * p) + (u - v) * (p * q))"
    by (simp add: beval_Cons A_def B_def p_def q_def u_def v_def power_add algebra_simps)
  have Aq: "0 \<le> A * q" "A * q < p * q" and Bp: "0 \<le> B * p" "B * p < p * q"
    using b pq by (simp_all add: mult.commute [of p q] mult.commute [of B p])
  show ?case
  proof (cases "x = y")
    case True
    then have e: "?d = 2 ^ 32 * (A * q - B * p)" using d by (simp add: u_def v_def)
    have "sgn ?d = sgn (A * q - B * p)" unfolding e sgn_mult by simp
    then show ?thesis using 3 True by (simp only: cmp_loop.simps A_def B_def p_def q_def simp_thms if_False)
  next
    case False
    then have uv: "u \<noteq> v" unfolding u_def v_def by (metis of_nat_eq_iff word_unat_eq_iff)
    show ?thesis
    proof (cases "x > y")
      case True
      then have "1 \<le> u - v" unfolding word_less_nat_alt u_def v_def by linarith
      then have "1 * (p * q) \<le> (u - v) * (p * q)" using pq by (intro mult_right_mono) simp_all
      then have "0 < ?d" unfolding d using Aq Bp by simp
      then have "sgn ?d = 1" by (rule sgn_pos)
      then show ?thesis using False True by (simp only: cmp_loop.simps if_True simp_thms)
    next
      case False
      then have "u - v \<le> -1" using uv unfolding word_less_nat_alt u_def v_def by linarith
      then have "(u - v) * (p * q) \<le> -1 * (p * q)" using pq by (intro mult_right_mono) simp_all
      then have "?d < 0" unfolding d using Aq Bp by simp
      then have "sgn ?d = -1" by (rule sgn_neg)
      then show ?thesis using False \<open>x \<noteq> y\<close> by (simp only: cmp_loop.simps if_True if_False simp_thms)
    qed
  qed
qed

lemma sgn_diff_less: "a < b \<Longrightarrow> sgn (int a - int b) = -1" "b < a \<Longrightarrow> sgn (int a - int b) = 1"
  by simp_all

lemma bmag_size_less:
  assumes "bigint_inv l" and "bigint_inv r" and "sign_and_used_digits l \<noteq> 0" and "sign_and_used_digits r \<noteq> 0"
    and "size_bigint l < size_bigint r"
  shows "bmag l < bmag r"
proof -
  have "bmag l < 2 ^ (32 * size_bigint l)" by (rule bmag_bounds(2) [OF assms(1,3)])
  also have "\<dots> \<le> 2 ^ (32 * (size_bigint r - 1))" using assms(5) by (intro power_increasing) simp_all
  also have "\<dots> \<le> bmag r" by (rule bmag_bounds(1) [OF assms(2,4)])
  finally show ?thesis .
qed

lemma cmpmagnitude_sgn:
  assumes inv: "bigint_inv l" "bigint_inv r"
  shows "cmpmagnitude_bigint l r = sgn (int (bmag l) - int (bmag r))"
proof (cases "nrdigits_bigint l = 0 \<or> nrdigits_bigint r = 0")
  case True
  have "nrdigits_bigint b = 0 \<longleftrightarrow> bmag b = 0" if "bigint_inv b" for b
    using bmag_0_iff [OF that] nrdigits_0_iff [of b] by simp
  then have "nrdigits_bigint l = 0 \<longleftrightarrow> bmag l = 0" "nrdigits_bigint r = 0 \<longleftrightarrow> bmag r = 0"
    using inv by blast+
  then show ?thesis
    using True by (cases "nrdigits_bigint l = 0"; cases "nrdigits_bigint r = 0")
      (simp_all add: cmpmagnitude_bigint_def Let_def sign_int_sgn)
next
  case False
  then have nz: "sign_and_used_digits l \<noteq> 0" "sign_and_used_digits r \<noteq> 0" by (simp_all add: nrdigits_0_iff)
  let ?nl = "nrdigits_bigint l" and ?nr = "nrdigits_bigint r"
  show ?thesis
  proof (cases "size_bigint l = size_bigint r")
    case diff: False
    then have "cmpmagnitude_bigint l r = sgn (int (size_bigint l) - int (size_bigint r))"
      using False by (auto simp: cmpmagnitude_bigint_def Let_def sign_int_sgn size_bigint_def exponent_bigint_def algebra_simps)
    also have "\<dots> = sgn (int (bmag l) - int (bmag r))"
    proof (cases "size_bigint l < size_bigint r")
      case True
      then show ?thesis using bmag_size_less [OF inv nz True] by (simp only: sgn_diff_less)
    next
      case False
      then have "size_bigint r < size_bigint l" using diff by simp
      then show ?thesis using bmag_size_less [OF inv(2,1) nz(2,1)] by (simp only: sgn_diff_less)
    qed
    finally show ?thesis .
  next
    case True
    then have e: "?nl + exponent l = ?nr + exponent r"
      by (simp add: size_bigint_def exponent_bigint_def add.commute)
    let ?A = "int (dval (used_digits l))" and ?B = "int (dval (used_digits r))"
    have "cmpmagnitude_bigint l r = cmp_loop (rev (used_digits l)) (rev (used_digits r))"
      using False e by (simp add: cmpmagnitude_bigint_def Let_def used_digits_def flip: of_nat_add)
    also have "\<dots> = sgn (?A * 2 ^ (32 * ?nr) - ?B * 2 ^ (32 * ?nl))"
      by (simp add: cmp_loop_sgn beval_def length_used inv)
    also have "\<dots> = sgn ((?A * 2 ^ (32 * ?nr) - ?B * 2 ^ (32 * ?nl)) * 2 ^ (32 * (?nl + exponent l)))"
      by (simp add: sgn_mult)
    also have "(?A * 2 ^ (32 * ?nr) - ?B * 2 ^ (32 * ?nl)) * 2 ^ (32 * (?nl + exponent l))
      = (int (bmag l) - int (bmag r)) * 2 ^ (32 * (?nl + ?nr))"
    proof -
      have "?A * 2 ^ (32 * ?nr) * 2 ^ (32 * (?nl + exponent l)) = int (bmag l) * 2 ^ (32 * (?nl + ?nr))"
        by (simp add: bmag_def power_add algebra_simps)
      moreover have "?B * 2 ^ (32 * ?nl) * 2 ^ (32 * (?nl + exponent l)) = int (bmag r) * 2 ^ (32 * (?nl + ?nr))"
        unfolding e by (simp add: bmag_def power_add algebra_simps)
      ultimately show ?thesis by (simp only: left_diff_distrib)
    qed
    also have "sgn \<dots> = sgn (int (bmag l) - int (bmag r))" by (simp add: sgn_mult)
    finally show ?thesis .
  qed
qed

lemma cmp_bigint_sgn:
  assumes inv: "bigint_inv l" "bigint_inv r"
  shows "cmp_bigint l r = sgn (bval l - bval r)"
proof -
  have sg: "sign_bigint b = sgn (bval b)" if "bigint_inv b" for b
    using sgn_bval [OF that] by (auto simp: sign_bigint_def sgn_if)
  have v: "bval b = sgn (bval b) * int (bmag b)" for b
    by (metis abs_bval mult_sgn_abs)
  show ?thesis
  proof (cases "sign_bigint l = sign_bigint r")
    case True
    then have s: "sgn (bval l) = sgn (bval r)" using sg inv by simp
    show ?thesis
    proof (cases "sgn (bval l) = -1")
      case neg: True
      then have "cmp_bigint l r = cmpmagnitude_bigint r l"
        using True sg [OF inv(1)] by (simp add: cmp_bigint_def)
      moreover have "bval l = - int (bmag l)" "bval r = - int (bmag r)"
        using v [of l] v [of r] unfolding s [symmetric] neg by simp_all
      ultimately show ?thesis by (simp add: cmpmagnitude_sgn inv)
    next
      case False
      then have c: "cmp_bigint l r = sgn (int (bmag l) - int (bmag r))"
        using True sg [OF inv(1)] by (auto simp: cmp_bigint_def cmpmagnitude_sgn inv sgn_if split: if_splits)
      have "bval l = int (bmag l)" "bval r = int (bmag r)"
        using False s abs_bval [of l] abs_bval [of r] by (auto simp: sgn_if split: if_splits)
      then show ?thesis using c by simp
    qed
  next
    case False
    then show ?thesis
      using sg [OF inv(1)] sg [OF inv(2)] by (auto simp: cmp_bigint_def sign_int_sgn sgn_if)
  qed
qed

text \<open>C32: \<open>cmp_bigint\<close> compares the values, \<open>cmpmagnitude_bigint\<close> the absolute values.\<close>

theorem cmp_bigint_compares:
  assumes "bigint_inv l" and "bigint_inv r"
  shows "cmp_bigint l r = sgn (bval l - bval r) \<and> cmpmagnitude_bigint l r = sgn (\<bar>bval l\<bar> - \<bar>bval r\<bar>)"
  using assms by (simp add: cmp_bigint_sgn cmpmagnitude_sgn abs_bval)

lemma cmp_bigint_compares_witness:
  "cmp_bigint \<lparr>allocated_digits = 4, sign_and_used_digits = -2, exponent = 0, digits = [7, 1, 0, 0]\<rparr>
     \<lparr>allocated_digits = 4, sign_and_used_digits = -1, exponent = 1, digits = [1, 5, 0, 0]\<rparr> = -1"
proof -
  let ?l = "\<lparr>allocated_digits = 4, sign_and_used_digits = -2, exponent = 0, digits = [7, 1, 0, 0]\<rparr>"
  let ?r = "\<lparr>allocated_digits = 4, sign_and_used_digits = -1, exponent = 1, digits = [1, 5, 0, 0]\<rparr>"
  have "bigint_inv ?l" "bigint_inv ?r" by (simp_all add: bigint_inv_def nrdigits_bigint_def)
  moreover have "bval ?l = -4294967303" "bval ?r = -4294967296"
    by (simp_all add: bval_def bmag_def used_digits_def nrdigits_bigint_def)
  ultimately show ?thesis using cmp_bigint_compares [of ?l ?r] by simp
qed

section \<open>Assignment\<close>

lemma clear_bigint_inv [simp]: "bigint_inv b \<Longrightarrow> bigint_inv (clear_bigint b)"
  by (simp add: clear_bigint_def bigint_inv_def nrdigits_bigint_def)

lemma bval_clear [simp]: "bval (clear_bigint b) = 0"
  by (simp add: clear_bigint_def bval_def)

lemma copy_bigint_delivers:
  assumes inv: "bigint_inv big" "bigint_inv from"
  shows "delivers big (copy_bigint mm big from) (bval from)"
proof -
  let ?n = "nrdigits_bigint from"
  show ?thesis
  proof (rule reserve_bigint_cases [OF inv(1), of mm ?n])
    fix err
    assume "reserve_bigint mm big ?n = (Inl err, big)"
    then show ?thesis by (simp add: copy_bigint_def Let_def)
  next
    fix big'
    assume r: "reserve_bigint mm big ?n = (Inr (), big')" "?n \<le> length (digits big')"
      "allocated_digits big' < 2 ^ 15"
      "allocated_digits big' \<noteq> 0 \<Longrightarrow> length (digits big') = allocated_digits big'"
    define c where "c = big'\<lparr>sign_and_used_digits := sign_and_used_digits from,
        exponent := exponent from, digits := blit 0 (take ?n (digits from)) (digits big')\<rparr>"
    have c: "copy_bigint mm big from = (Inr (), c)"
      using r(1) by (simp add: copy_bigint_def Let_def c_def)
    have n: "nrdigits_bigint c = ?n" by (simp add: c_def nrdigits_bigint_def)
    have len: "?n \<le> length (digits from)" using inv(2) by (simp add: bigint_inv_def)
    then have u: "used_digits c = used_digits from"
      unfolding used_digits_def n by (simp add: c_def blit_def)
    have "?n \<noteq> 0 \<Longrightarrow> digits c ! (?n - 1) = digits from ! (?n - 1)"
      using r(2) len by (simp add: c_def nth_blit)
    then have "bigint_inv c"
      using inv(2) r len n nrdigits_0_iff [of "from"] by (auto simp: bigint_inv_def c_def)
    moreover have "bval c = bval from" unfolding bval_def bmag_def u by (simp add: c_def)
    ultimately show ?thesis by (simp add: c)
  qed
qed

text \<open>C33: \<open>copy_bigint\<close> gives the object the value of the source or leaves it as it was, and
  \<open>newcopy_bigint\<close> returns a new object of that value; with memory available they succeed.
\<close>

theorem copy_bigint_copies:
  assumes "bigint_inv big" and "bigint_inv from"
  shows "delivers big (copy_bigint mm big from) (bval from) \<and>
    (\<forall>b. newcopy_bigint mm from = Inr b \<longrightarrow> bigint_inv b \<and> bval b = bval from) \<and>
    (generous mm \<and> allocated_digits big \<noteq> 0 \<longrightarrow>
       fst (copy_bigint mm big from) = Inr () \<and> (\<exists>b. newcopy_bigint mm from = Inr b))"
proof (intro conjI allI impI)
  show "delivers big (copy_bigint mm big from) (bval from)"
    by (rule copy_bigint_delivers [OF assms])
  let ?n = "if nrdigits_bigint from < 4 then 4 else nrdigits_bigint from"
  {
    fix b
    assume b: "newcopy_bigint mm from = Inr b"
    then obtain nb where nb: "allocate_bigint mm None ?n = (Inr (), nb)"
      by (auto simp: newcopy_bigint_def Let_def split: sum.splits prod.splits)
    obtain nb' where nb': "nb = Some nb'" "bigint_inv nb'"
      using allocate_bigint_None [OF nb] bigint_inv_new by auto
    then have "delivers nb' (copy_bigint mm nb' from) (bval from)"
      by (intro copy_bigint_delivers assms(2)) simp
    moreover have "copy_bigint mm nb' from = (Inr (), b)"
      using b nb nb' by (auto simp: newcopy_bigint_def Let_def split: sum.splits prod.splits if_splits)
    ultimately show "bigint_inv b" "bval b = bval from" by simp_all
  }
  assume g: "generous mm \<and> allocated_digits big \<noteq> 0"
  have n: "nrdigits_bigint from < 2 ^ 15" using assms(2) by (simp add: bigint_inv_def)
  show "fst (copy_bigint mm big from) = Inr ()"
    using reserve_bigint_succeeds [OF n, of mm big] g
    by (cases "reserve_bigint mm big (nrdigits_bigint from)") (simp add: copy_bigint_def Let_def)
  obtain nb where nb: "allocate_bigint mm None ?n = (Inr (), Some nb)"
  proof -
    have "?n < 2 ^ 15" using n by simp
    then show ?thesis using allocate_bigint_None_succeeds g that by blast
  qed
  then have "nrdigits_bigint from \<le> allocated_digits nb"
    using allocate_bigint_None [OF nb] by (auto split: if_splits)
  then have "fst (copy_bigint mm nb from) = Inr ()"
    by (simp add: copy_bigint_def Let_def reserve_bigint_enough)
  then show "\<exists>b. newcopy_bigint mm from = Inr b"
    using nb by (cases "copy_bigint mm nb from") (auto simp: newcopy_bigint_def Let_def split: if_splits)
qed

lemma copy_bigint_copies_witness:
  "bval (snd (copy_bigint \<lparr>mm_refuses = \<lambda>_. None, mm_moves = \<lambda>_. True, mm_fill = \<lambda>_. 9\<rparr>
      \<lparr>allocated_digits = 4, sign_and_used_digits = 1, exponent = 7, digits = [3, 0, 0, 0]\<rparr>
      \<lparr>allocated_digits = 0, sign_and_used_digits = -2, exponent = 1, digits = [5, 1]\<rparr>))
   = bval \<lparr>allocated_digits = 0, sign_and_used_digits = -2, exponent = 1, digits = [5, 1]\<rparr>"
proof -
  let ?m = "\<lparr>mm_refuses = \<lambda>_. None, mm_moves = \<lambda>_. True, mm_fill = \<lambda>_. 9\<rparr>"
  let ?b = "\<lparr>allocated_digits = 4, sign_and_used_digits = 1, exponent = 7, digits = [3, 0, 0, 0]\<rparr>"
  let ?f = "\<lparr>allocated_digits = 0, sign_and_used_digits = -2, exponent = 1, digits = [5, 1]\<rparr>"
  have "bigint_inv ?b" "bigint_inv ?f" by (simp_all add: bigint_inv_def nrdigits_bigint_def)
  from copy_bigint_copies [OF this, of ?m] have "delivers ?b (copy_bigint ?m ?b ?f) (bval ?f)"
    "fst (copy_bigint ?m ?b ?f) = Inr ()" by (simp_all add: generous_def)
  then show ?thesis by (cases "copy_bigint ?m ?b ?f") auto
qed

text \<open>Numbers of one and two digits.\<close>

lemma set_small:
  assumes "bigint_inv big" and "n \<le> length (digits big)" and "length ds = n" and "0 < n" and "n < 2 ^ 15"
    and "last ds \<noteq> 0" and "abs k = int n"
  defines "r \<equiv> big\<lparr>sign_and_used_digits := k, digits := ds @ drop n (digits big), exponent := 0\<rparr>"
  shows "bigint_inv r \<and> bval r = sgn k * int (dval ds)"
proof -
  have n: "nrdigits_bigint r = n" using assms(7) by (auto simp: r_def nrdigits_bigint_def)
  have u: "used_digits r = ds" using assms(3) unfolding used_digits_def n by (simp add: r_def)
  have "ds \<noteq> []" using assms(3,4) by auto
  then have "digits r ! (n - 1) = last ds"
    using assms(3,4) by (simp add: r_def nth_append last_conv_nth)
  then show ?thesis
    using assms n by (auto simp: bigint_inv_def r_def bval_def bmag_def u [unfolded r_def])
qed

lemma update_front_1: "1 \<le> length ds \<Longrightarrow> ds[0 := x] = [x] @ drop 1 ds"
  by (cases ds) simp_all

lemma update_front_2: "2 \<le> length ds \<Longrightarrow> ds[0 := x, 1 := y] = [x, y] @ drop 2 ds"
  by (cases ds; cases "tl ds") simp_all

lemma set_zero: "bigint_inv big \<Longrightarrow> bigint_inv (big\<lparr>sign_and_used_digits := 0, exponent := 0\<rparr>) \<and>
    bval (big\<lparr>sign_and_used_digits := 0, exponent := 0\<rparr>) = 0"
  using clear_bigint_inv [of big] bval_clear [of big] by (simp add: clear_bigint_def)

lemma setPu32_bigint_val:
  assumes "bigint_inv big" and "1 \<le> length (digits big)"
  shows "bigint_inv (setPu32_bigint big val) \<and> bval (setPu32_bigint big val) = int (unat val)"
proof (cases "val = 0")
  case False
  have u: "(digits big)[0 := val] = [val] @ drop 1 (digits big)"
    by (rule update_front_1) (fact assms(2))
  show ?thesis
    unfolding setPu32_bigint_def u using False set_small [OF assms(1,2), of "[val]" 1] by simp
qed (use set_zero [OF assms(1)] in \<open>simp add: setPu32_bigint_def\<close>)

lemma setPi32_bigint_val:
  assumes "bigint_inv big" and "1 \<le> length (digits big)"
  shows "bigint_inv (setPi32_bigint big val) \<and> bval (setPi32_bigint big val) = sint val"
proof -
  have u: "(digits big)[0 := x] = [x] @ drop 1 (digits big)" for x
    by (rule update_front_1) (fact assms(2))
  consider "val = 0" | "val \<noteq> 0" "val <s 0" | "val \<noteq> 0" "\<not> val <s 0" by blast
  then show ?thesis
  proof cases
    case 1
    then show ?thesis using set_zero [OF assms(1)] by (simp add: setPi32_bigint_def)
  next
    case 2
    have "int (unat (- val)) = - sint val"
      using abs_int32_abs [of val] 2(2) by (simp add: abs_int32_def word_sless_alt)
    then show ?thesis
      unfolding setPi32_bigint_def u using 2 set_small [OF assms(1,2), of "[- val]" "-1"] by simp
  next
    case 3
    have "int (unat val) = sint val"
      using abs_int32_abs [of val] 3(2) by (simp add: abs_int32_def word_sless_alt)
    then show ?thesis
      unfolding setPi32_bigint_def u using 3 set_small [OF assms(1,2), of "[val]" 1] by simp
  qed
qed

lemma unat_halves: "unat (w :: u64) = unat (ucast w :: u32) + 2 ^ 32 * unat (ucast (drop_bit 32 w) :: u32)"
proof -
  have "unat (drop_bit 32 w) = unat w div 2 ^ 32" by (rule unat_drop_bit)
  moreover have "unat w div 2 ^ 32 < 2 ^ 32"
    using unat_u64_bound [of w] by (simp add: less_mult_imp_div_less)
  ultimately show ?thesis
    by (simp add: unat_ucast_mod)
qed

lemma setPu64_bigint_val:
  assumes "bigint_inv big" and "2 \<le> length (digits big)"
  shows "bigint_inv (setPu64_bigint big val) \<and> bval (setPu64_bigint big val) = int (unat val)"
proof -
  let ?lo = "ucast val :: u32" and ?hi = "ucast (drop_bit 32 val) :: u32"
  have u: "(digits big)[0 := ?lo, 1 := ?hi] = [?lo, ?hi] @ drop 2 (digits big)"
    "(digits big)[0 := ?lo] = [?lo] @ drop 1 (digits big)"
    using assms(2) by (intro update_front_2 update_front_1; simp)+
  consider "?hi \<noteq> 0" | "?hi = 0" "?lo \<noteq> 0" | "?hi = 0" "?lo = 0" by blast
  then show ?thesis
  proof cases
    case 1
    then show ?thesis
      unfolding setPu64_bigint_def u(1) using set_small [OF assms, of "[?lo, ?hi]" 2] unat_halves [of val] by simp
  next
    case 2
    then show ?thesis
      unfolding setPu64_bigint_def u(2)
      using set_small [OF assms(1), of 1 "[?lo]" 1] assms(2) unat_halves [of val] by simp
  next
    case 3
    then have "unat val = 0" using unat_halves [of val] by simp
    with 3 show ?thesis using set_zero [OF assms(1)] by (simp add: setPu64_bigint_def)
  qed
qed

section \<open>Assignment from arrays\<close>

lemma skip_zeros_split: "skip_zeros ds = (k, r) \<Longrightarrow> ds = replicate k 0 @ r \<and> (r \<noteq> [] \<longrightarrow> hd r \<noteq> 0)"
proof (induction ds arbitrary: k r)
  case (Cons d ds)
  then show ?case by (cases "skip_zeros ds") (auto split: if_splits)
qed simp

lemma dval_shift: "dval (replicate k 0 @ ds) = 2 ^ (32 * k) * dval ds"
  by (simp add: dval_append)

text \<open>Storing the digits \<open>ds\<close>, whose last one is not 0, with sign and exponent.\<close>

lemma store_delivers:
  fixes neg :: bool
  assumes inv: "bigint_inv big" and ds: "ds \<noteq> []" "last ds \<noteq> 0" and e: "e < 2 ^ 16"
  shows "delivers big
    (case reserve_bigint mm big (length ds) of
       (Inl err, big) \<Rightarrow> (Inl err, big)
     | (Inr _, big2) \<Rightarrow>
         (Inr (), big2\<lparr>sign_and_used_digits := cast_int16 (if neg then - int (length ds) else int (length ds)),
            exponent := cast_uint16 e, digits := blit 0 ds (digits big2)\<rparr>))
    ((if neg then -1 else 1) * int (dval ds * 2 ^ (32 * e)))"
proof (rule reserve_bigint_cases [OF inv, of mm "length ds"])
  fix big'
  assume r: "reserve_bigint mm big (length ds) = (Inr (), big')" "length ds \<le> length (digits big')"
    "allocated_digits big' < 2 ^ 15" "length ds < 2 ^ 15"
    "allocated_digits big' \<noteq> 0 \<Longrightarrow> length (digits big') = allocated_digits big'"
  have "ds ! (length ds - 1) \<noteq> 0" using ds by (simp add: last_conv_nth)
  with set_result [of ds big' "length ds" e neg] r e ds show ?thesis by (cases neg) simp_all
qed simp

lemma setbigfirst_bigint_delivers:
  assumes inv: "bigint_inv big" and "sign \<noteq> 0"
  shows "delivers big (setbigfirst_bigint mm big sign numbers expo)
    (sgn sign * int (dval (rev numbers) * 2 ^ (32 * expo)))"
proof -
  obtain trail rest where s: "skip_zeros (rev numbers) = (trail, rest)" by force
  note split = skip_zeros_split [OF s, THEN conjunct1]
  show ?thesis
  proof (cases "rest = [] \<or> expo + trail > 0xffff")
    case True
    then have "setbigfirst_bigint mm big sign numbers expo
      = (if rest = [] then (Inr (), clear_bigint big) else (Inl EOVERFLOW, big))"
      using assms(2) by (cases "rest = []") (simp_all add: setbigfirst_bigint_def s)
    then show ?thesis using inv by (simp add: split)
  next
    case False
    obtain offset num where t: "skip_zeros (rev rest) = (offset, num)" by force
    note split2 = skip_zeros_split [OF t]
    have rest: "rest = rev num @ replicate offset 0"
      using split2 by (metis rev_append rev_replicate rev_rev_ident)
    have num: "num \<noteq> []"
    proof
      assume "num = []"
      then have "hd rest = 0" using rest False by (cases offset) simp_all
      then show False using skip_zeros_split [OF s] False by simp
    qed
    have last: "rev num \<noteq> []" "last (rev num) \<noteq> 0"
      using num split2 by (simp_all add: last_rev)
    have v: "dval (rev numbers) * 2 ^ (32 * expo) = dval (rev num) * 2 ^ (32 * (expo + trail))"
      unfolding split dval_shift rest by (simp add: dval_append power_add algebra_simps)
    have e: "expo + trail < 2 ^ 16" using False by simp
    have "setbigfirst_bigint mm big sign numbers expo =
      (case reserve_bigint mm big (length num) of
         (Inl err, big) \<Rightarrow> (Inl err, big)
       | (Inr _, big2) \<Rightarrow>
           (Inr (), big2\<lparr>sign_and_used_digits := cast_int16 (if sign < 0 then - int (length num) else int (length num)),
              exponent := cast_uint16 (expo + trail), digits := blit 0 (rev num) (digits big2)\<rparr>))"
      using assms(2) False by (simp add: setbigfirst_bigint_def s t Let_def split del: if_split)
    moreover have "sgn sign = (if sign < 0 then -1 else 1)" using assms(2) by simp
    ultimately show ?thesis
      using store_delivers [OF inv last e, where mm = mm and neg = "sign < 0"] unfolding length_rev
      by (simp only: v)
  qed
qed

lemma setlittlefirst_bigint_delivers:
  assumes inv: "bigint_inv big" and "sign \<noteq> 0"
  shows "delivers big (setlittlefirst_bigint mm big sign numbers expo)
    (sgn sign * int (dval numbers * 2 ^ (32 * expo)))"
proof -
  obtain lead rest where s: "skip_zeros (rev numbers) = (lead, rest)" by force
  obtain offset num where t: "skip_zeros (rev rest) = (offset, num)" by force
  have numbers: "numbers = rev rest @ replicate lead 0"
    using skip_zeros_split [OF s] by (metis rev_append rev_replicate rev_rev_ident)
  note split2 = skip_zeros_split [OF t]
  show ?thesis
  proof (cases "rest = [] \<or> expo + offset > 0xffff")
    case True
    then have "setlittlefirst_bigint mm big sign numbers expo
      = (if rest = [] then (Inr (), clear_bigint big) else (Inl EOVERFLOW, big))"
      using assms(2) by (cases "rest = []") (simp_all add: setlittlefirst_bigint_def s t)
    then show ?thesis using inv by (simp add: numbers)
  next
    case False
    have num: "num \<noteq> []"
    proof
      assume "num = []"
      then have "rest = replicate offset 0" using split2 by (metis append_Nil2 rev_replicate rev_rev_ident)
      then have "hd rest = 0" using False by (cases offset) simp_all
      then show False using skip_zeros_split [OF s] False by simp
    qed
    have "last num = hd rest"
      using num split2 False by (simp add: hd_rev flip: last_rev)
    then have last: "num \<noteq> []" "last num \<noteq> 0"
      using num skip_zeros_split [OF s] False by simp_all
    have v: "dval numbers * 2 ^ (32 * expo) = dval num * 2 ^ (32 * (expo + offset))"
      unfolding numbers using split2 by (simp add: dval_append power_add algebra_simps)
    have e: "expo + offset < 2 ^ 16" using False by simp
    have "setlittlefirst_bigint mm big sign numbers expo =
      (case reserve_bigint mm big (length num) of
         (Inl err, big) \<Rightarrow> (Inl err, big)
       | (Inr _, big2) \<Rightarrow>
           (Inr (), big2\<lparr>sign_and_used_digits := cast_int16 (if sign < 0 then - int (length num) else int (length num)),
              exponent := cast_uint16 (expo + offset), digits := blit 0 num (digits big2)\<rparr>))"
      using assms(2) False by (simp add: setlittlefirst_bigint_def s t Let_def split del: if_split)
    moreover have "sgn sign = (if sign < 0 then -1 else 1)" using assms(2) by simp
    ultimately show ?thesis
      using store_delivers [OF inv last e, where mm = mm and neg = "sign < 0"] unfolding length_rev
      by (simp only: v)
  qed
qed

text \<open>\<open>setbigfirst_bigint\<close> and \<open>setlittlefirst_bigint\<close> store the number that the array spells in
  big endian or little endian order, times \<open>2 ^ (32 * exponent)\<close>, with the given sign; zeros at
  either end are dropped. A sign of 0 is refused.
\<close>

theorem set_from_array:
  assumes "bigint_inv big" and "sign \<noteq> 0"
  shows "delivers big (setbigfirst_bigint mm big sign numbers expo)
      (sgn sign * int (dval (rev numbers) * 2 ^ (32 * expo))) \<and>
    delivers big (setlittlefirst_bigint mm big sign numbers expo)
      (sgn sign * int (dval numbers * 2 ^ (32 * expo))) \<and>
    setbigfirst_bigint mm big 0 numbers expo = (Inl EINVAL, big) \<and>
    setlittlefirst_bigint mm big 0 numbers expo = (Inl EINVAL, big)"
  using setbigfirst_bigint_delivers [OF assms] setlittlefirst_bigint_delivers [OF assms]
  by (simp add: setbigfirst_bigint_def [of _ _ 0] setlittlefirst_bigint_def [of _ _ 0])

lemma set_from_array_witness:
  "bval (snd (setbigfirst_bigint \<lparr>mm_refuses = \<lambda>_. None, mm_moves = \<lambda>_. True, mm_fill = \<lambda>_. 9\<rparr>
      \<lparr>allocated_digits = 4, sign_and_used_digits = 0, exponent = 0, digits = [3, 0, 0, 0]\<rparr>
      (-1) [0, 2, 1, 0] 1)) = - int ((1 + 2 * 2 ^ 32) * 2 ^ 64)"
proof -
  let ?m = "\<lparr>mm_refuses = \<lambda>_. None, mm_moves = \<lambda>_. True, mm_fill = \<lambda>_. 9\<rparr>"
  let ?b = "\<lparr>allocated_digits = 4, sign_and_used_digits = 0, exponent = 0, digits = [3, 0, 0, 0]\<rparr>"
  let ?r = "setbigfirst_bigint ?m ?b (-1) [0, 2, 1, 0] 1"
  have r: "?r = (Inr (), snd ?r)" by (simp add: setbigfirst_bigint_def reserve_bigint_def)
  have "bigint_inv ?b" by (simp add: bigint_inv_def nrdigits_bigint_def)
  then have "delivers ?b ?r (sgn (-1) * int (dval (rev [0, 2, 1, 0]) * 2 ^ (32 * 1)))"
    using set_from_array [of ?b "-1" ?m "[0, 2, 1, 0]" 1] by simp
  then show ?thesis by (subst (asm) r) simp
qed

text \<open>The small setters: the value as a mathematical integer, whatever the object held.\<close>

theorem set_integers:
  assumes "bigint_inv big" and "2 \<le> length (digits big)"
  shows "bigint_inv (setPi32_bigint big i) \<and> bval (setPi32_bigint big i) = sint i \<and>
    bigint_inv (setPu32_bigint big u) \<and> bval (setPu32_bigint big u) = uint u \<and>
    bigint_inv (setPu64_bigint big w) \<and> bval (setPu64_bigint big w) = uint w"
  using setPi32_bigint_val [of big i] setPu32_bigint_val [of big u] setPu64_bigint_val [of big w] assms
  by simp

lemma set_integers_witness:
  "bval (setPi32_bigint \<lparr>allocated_digits = 4, sign_and_used_digits = 1, exponent = 7, digits = [3, 0, 0, 0]\<rparr>
      (- 2147483648)) = - 2147483648"
proof -
  have "bigint_inv \<lparr>allocated_digits = 4, sign_and_used_digits = 1, exponent = 7, digits = [3, 0, 0, 0]\<rparr>"
    by (simp add: bigint_inv_def nrdigits_bigint_def)
  from set_integers [OF this, of "- 2147483648"] show ?thesis by simp
qed

section \<open>In-place changes\<close>

lemma used_below_spec:
  assumes "0 < n" and "n \<le> length ds"
  shows "used_below ds n < n \<and> dval (take (used_below ds n) ds) = dval (take (n - 1) ds) \<and>
    (used_below ds n \<noteq> 0 \<longrightarrow> ds ! (used_below ds n - 1) \<noteq> 0)"
  using assms
proof (induction n)
  case (Suc n)
  show ?case
  proof (cases "n \<noteq> 0 \<and> ds ! (n - 1) = 0")
    case True
    then have "take n ds = take (n - 1) ds @ [0]"
      using Suc.prems(2) take_Suc_conv_app_nth [of "n - 1" ds] by simp
    then have "dval (take n ds) = dval (take (n - 1) ds)" by (simp add: dval_append)
    then show ?thesis using Suc True by simp
  next
    case False
    then have "used_below ds (Suc n) = n" by auto
    then show ?thesis unfolding \<open>used_below ds (Suc n) = n\<close> using False by auto
  qed
qed simp

lemma clearfirstdigit_bigint_val:
  assumes inv: "bigint_inv big" and nz: "sign_and_used_digits big \<noteq> 0"
  shows "bigint_inv (clearfirstdigit_bigint big) \<and>
    bval (clearfirstdigit_bigint big)
      = bval big - sgn (bval big) * (uint (firstdigit_bigint big) * 2 ^ (32 * (size_bigint big - 1)))"
proof -
  let ?n = "nrdigits_bigint big"
  define k where "k = used_below (digits big) ?n"
  have n: "0 < ?n" "?n \<le> length (digits big)"
    using inv nz nrdigits_0_iff [of big] by (simp_all add: bigint_inv_def)
  note k = used_below_spec [OF n, folded k_def]
  define s where "s = sgn (sign_and_used_digits big)"
  have s: "s = 1 \<or> s = -1" using nz by (auto simp: s_def sgn_if)
  define r where "r = clearfirstdigit_bigint big"
  have r: "r = big\<lparr>sign_and_used_digits := s * int k, exponent := if k = 0 then 0 else exponent big\<rparr>"
    using nz by (auto simp: r_def clearfirstdigit_bigint_def Let_def s_def simp flip: k_def)
  have rn: "nrdigits_bigint r = k" using s by (auto simp: r nrdigits_bigint_def)
  have "bigint_inv r"
    using inv k n s unfolding bigint_inv_def rn by (auto simp: r)
  moreover have "bval r = s * int (dval (take (?n - 1) (digits big)) * 2 ^ (32 * exponent big))"
  proof (cases "k = 0")
    case True
    then show ?thesis using k by (simp add: bval_def bmag_def used_digits_def rn)
  next
    case False
    then have "sgn (s * int k) = s" using s by auto
    then show ?thesis using False k by (simp add: bval_def bmag_def used_digits_def rn) (simp add: r)
  qed
  moreover have "used_digits big = take (?n - 1) (digits big) @ [firstdigit_bigint big]"
    using n nz take_Suc_conv_app_nth [of "?n - 1" "digits big"]
    by (simp add: used_digits_def firstdigit_bigint_def)
  then have "bmag big = dval (take (?n - 1) (digits big)) * 2 ^ (32 * exponent big)
      + unat (firstdigit_bigint big) * 2 ^ (32 * (size_bigint big - 1))"
    using n by (simp add: bmag_def dval_append size_bigint_def exponent_bigint_def algebra_simps flip: power_add)
  ultimately show ?thesis
    using sgn_bval [OF inv] unfolding r_def [symmetric]
    by (simp add: bval_def s_def algebra_simps)
qed

lemma trailing_loop_spec:
  "trailing_loop ds n rs e = (n', rs', e') \<Longrightarrow> rs + n \<le> length ds \<Longrightarrow> e < 2 ^ 16 \<Longrightarrow>
   \<exists>k. n = n' + k \<and> rs' = rs + k \<and> e' = e + k \<and> e' < 2 ^ 16 \<and> (n \<noteq> 0 \<longrightarrow> n' \<noteq> 0) \<and>
     take n (drop rs ds) = replicate k 0 @ take n' (drop rs' ds)"
proof (induction ds n rs e rule: trailing_loop.induct)
  case (1 ds n rs e)
  show ?case
  proof (cases "1 < n \<and> ds ! rs = 0 \<and> 0xffff \<noteq> e")
    case True
    then have "trailing_loop ds (n - 1) (rs + 1) (e + 1) = (n', rs', e')"
      using "1.prems"(1) by (subst (asm) trailing_loop.simps) simp
    then obtain k where k: "n - 1 = n' + k" "rs' = rs + 1 + k" "e' = e + 1 + k" "e' < 2 ^ 16" "n' \<noteq> 0"
      "take (n - 1) (drop (rs + 1) ds) = replicate k 0 @ take n' (drop rs' ds)"
      using "1.IH" True "1.prems"(2,3) by auto
    have "drop rs ds = 0 # drop (rs + 1) ds"
      using True "1.prems"(2) Cons_nth_drop_Suc [of rs ds] by simp
    moreover have "n = Suc (n - 1)" using True by simp
    ultimately have "take n (drop rs ds) = 0 # take (n - 1) (drop (rs + 1) ds)"
      by (metis take_Suc_Cons)
    then show ?thesis using k True by (intro exI [of _ "Suc k"]) auto
  next
    case False
    then have "(n', rs', e') = (n, rs, e)"
      using "1.prems"(1) by (subst (asm) trailing_loop.simps) (simp split: if_splits)
    then show ?thesis using "1.prems"(3) by (intro exI [of _ 0]) simp
  qed
qed

lemma removetrailingzero_bigint_val:
  assumes inv: "bigint_inv big"
  shows "bigint_inv (removetrailingzero_bigint big) \<and> bval (removetrailingzero_bigint big) = bval big"
proof -
  let ?n = "nrdigits_bigint big"
  obtain n rs e where l: "trailing_loop (digits big) ?n 0 (exponent big) = (n, rs, e)"
    by (metis prod_cases3)
  have len: "?n \<le> length (digits big)" and e16: "exponent big < 2 ^ 16" and n15: "?n < 2 ^ 15"
    using inv by (simp_all add: bigint_inv_def)
  obtain k where k: "?n = n + k" "rs = k" "e = exponent big + k" "e < 2 ^ 16" "?n \<noteq> 0 \<longrightarrow> n \<noteq> 0"
    "used_digits big = replicate k 0 @ take n (drop k (digits big))"
    using trailing_loop_spec [OF l] len e16 by (auto simp: used_digits_def)
  show ?thesis
  proof (cases "k = 0")
    case True
    then have "removetrailingzero_bigint big = big"
      using l k by (simp add: removetrailingzero_bigint_def)
    then show ?thesis using inv by simp
  next
    case False
    define ds where "ds = take n (drop k (digits big))"
    have ds: "length ds = n" "n \<noteq> 0" using k(1,5) len False by (auto simp: ds_def)
    have nz: "sign_and_used_digits big \<noteq> 0" using k(1) False nrdigits_0_iff [of big] by simp
    have r: "removetrailingzero_bigint big
      = big\<lparr>sign_and_used_digits := cast_int16 (if isnegative_bigint big then - int n else int n),
          exponent := cast_uint16 e, digits := blit 0 ds (digits big)\<rparr>"
      using l k(2,4) False by (simp add: removetrailingzero_bigint_def ds_def isnegative_bigint_def)
    have ne: "ds \<noteq> []" using ds by auto
    have "last (used_digits big) = last ds"
      unfolding k(6) k(2) [symmetric] using ne k(2) by (simp flip: ds_def)
    also have "last ds = ds ! (n - 1)" using ne ds(1) by (simp add: last_conv_nth)
    finally have "ds ! (n - 1) \<noteq> 0" using last_used(2) [OF inv nz] by simp
    then have set: "bigint_inv (removetrailingzero_bigint big) \<and> bval (removetrailingzero_bigint big)
        = (if isnegative_bigint big then -1 else 1) * int (dval (take n ds) * 2 ^ (32 * e))"
      unfolding r using set_result [of ds big n e "isnegative_bigint big"] ds inv len k(1,4) n15
      by (simp add: bigint_inv_def)
    have "bmag big = dval ds * 2 ^ (32 * e)"
      unfolding bmag_def k(6) k(3) ds_def [symmetric] by (simp add: dval_append power_add algebra_simps)
    then show ?thesis using set ds bval_sign [OF inv] by simp
  qed
qed

lemma sign_change:
  assumes "bigint_inv big" and "\<bar>k\<bar> = \<bar>sign_and_used_digits big\<bar>"
  defines "r \<equiv> big\<lparr>sign_and_used_digits := cast_int16 k\<rparr>"
  shows "bigint_inv r" and "bval r = sgn k * \<bar>bval big\<bar>"
proof -
  have "nrdigits_bigint big < 32768" using assms(1) by (simp add: bigint_inv_def)
  then have "\<bar>k\<bar> < 32768" unfolding assms(2) using nrdigits_abs [of big] by linarith
  then have k: "cast_int16 k = k" by (intro cast_int16_id) (simp_all add: abs_if split: if_splits)
  have n: "nrdigits_bigint r = nrdigits_bigint big"
    using nrdigits_abs [of r] nrdigits_abs [of big] assms(2) k by (simp add: r_def)
  have "k = 0 \<longleftrightarrow> sign_and_used_digits big = 0" using assms(2) by auto
  then show "bigint_inv r"
    using assms(1) unfolding bigint_inv_def n by (simp add: r_def k)
  have "bmag r = bmag big" by (simp add: bmag_def used_digits_def n) (simp add: r_def)
  then show "bval r = sgn k * \<bar>bval big\<bar>"
    by (simp add: abs_bval) (simp add: bval_def r_def k)
qed

text \<open>\<open>clearfirstdigit_bigint\<close> takes away the most significant digit (and zeros that come to the
  front); \<open>removetrailingzero_bigint\<close> keeps the value; \<open>negate_bigint\<close>, \<open>setnegative_bigint\<close> and
  \<open>setpositive_bigint\<close> change the sign. All keep the invariant.
\<close>

theorem in_place_changes:
  assumes "bigint_inv big"
  shows "(sign_and_used_digits big \<noteq> 0 \<longrightarrow> bigint_inv (clearfirstdigit_bigint big) \<and>
      bval (clearfirstdigit_bigint big)
        = bval big - sgn (bval big) * (uint (firstdigit_bigint big) * 2 ^ (32 * (size_bigint big - 1)))) \<and>
    bigint_inv (removetrailingzero_bigint big) \<and> bval (removetrailingzero_bigint big) = bval big \<and>
    bigint_inv (negate_bigint big) \<and> bval (negate_bigint big) = - bval big \<and>
    bigint_inv (setnegative_bigint big) \<and> bval (setnegative_bigint big) = - \<bar>bval big\<bar> \<and>
    bigint_inv (setpositive_bigint big) \<and> bval (setpositive_bigint big) = \<bar>bval big\<bar>"
proof -
  let ?s = "sign_and_used_digits big"
  have s: "sgn ?s * \<bar>bval big\<bar> = bval big"
    using sgn_bval [OF assms] by (metis sgn_mult_abs)
  have z: "?s = 0 \<Longrightarrow> bval big = 0" by (simp add: bval_def)
  have "bval (negate_bigint big) = sgn (- ?s) * \<bar>bval big\<bar>" "bigint_inv (negate_bigint big)"
    using sign_change [OF assms, of "- ?s"] by (simp_all add: negate_bigint_def)
  moreover have "bval (setnegative_bigint big) = sgn (if ?s < 0 then ?s else - ?s) * \<bar>bval big\<bar>"
    "bigint_inv (setnegative_bigint big)"
    unfolding setnegative_bigint_def by (rule sign_change [OF assms], simp)+
  moreover have "bval (setpositive_bigint big) = sgn (if ?s < 0 then - ?s else ?s) * \<bar>bval big\<bar>"
    "bigint_inv (setpositive_bigint big)"
    unfolding setpositive_bigint_def by (rule sign_change [OF assms], simp)+
  ultimately show ?thesis
    using clearfirstdigit_bigint_val [OF assms] removetrailingzero_bigint_val [OF assms] s z
    by (auto simp: sgn_if split: if_splits)
qed

lemma in_place_changes_witness:
  "bval (removetrailingzero_bigint \<lparr>allocated_digits = 4, sign_and_used_digits = -3, exponent = 1, digits = [0, 0, 5, 9]\<rparr>)
   = bval \<lparr>allocated_digits = 4, sign_and_used_digits = -3, exponent = 1, digits = [0, 0, 5, 9]\<rparr>"
proof -
  have "bigint_inv \<lparr>allocated_digits = 4, sign_and_used_digits = -3, exponent = 1, digits = [0, 0, 5, 9]\<rparr>"
    by (simp add: bigint_inv_def nrdigits_bigint_def)
  from in_place_changes [OF this] show ?thesis by simp
qed

end
