(* ===== verification/Big_AddSub.thy ===== *)
theory Big_AddSub
  imports Big_Set
begin

text \<open>
  Addition and subtraction of C-kern/math/int/bigint.c. The helpers work on magnitudes with
  different exponents: the digits below the higher exponent (the trail) are copied or
  complemented, the overlapping digits are added or subtracted with a carry, the leading digits
  of the bigger number take the carry. The digits are written one after the other from index 0
  of the result, which is a list built in that order here.
\<close>

section \<open>Definitions\<close>

text \<open>The loops of \<open>add_biginthelper\<close>: overlapping part and leading part.\<close>

fun add_overlap :: "bool \<Rightarrow> u32 list \<Rightarrow> u32 list \<Rightarrow> u32 list \<times> bool" where
  "add_overlap carry (l # ls) (r # rs) =
     (let dl = l + of_bool carry;
          sum = r + dl;
          (out, carry') = add_overlap (sum < dl \<or> (carry \<and> 0 = dl)) ls rs
      in (sum # out, carry'))"
| "add_overlap carry _ _ = ([], carry)"

primrec add_lead :: "bool \<Rightarrow> u32 list \<Rightarrow> u32 list \<times> bool" where
  "add_lead carry [] = ([], carry)"
| "add_lead carry (l # ls) =
     (let dl = l + of_bool carry;
          (out, carry') = add_lead (carry \<and> 0 = dl) ls
      in (dl # out, carry'))"

text \<open>The part below the higher exponent: its digits, and what is left of both operands.\<close>

definition add_trail :: "int \<Rightarrow> u32 list \<Rightarrow> u32 list \<Rightarrow> u32 list \<times> u32 list \<times> u32 list" where
  "add_trail expdiff ldigits rdigits =
     (if expdiff < 0 then
        let e = nat (- expdiff) in (take e ldigits, drop e ldigits, rdigits)
      else if expdiff > 0 then
        let e = nat expdiff
        in if length rdigits < e then (rdigits @ replicate (e - length rdigits) 0, ldigits, [])
           else (take e rdigits, ldigits, drop e rdigits)
      else ([], ldigits, rdigits))"

definition add_biginthelper :: "mm_t \<Rightarrow> bigint_t \<Rightarrow> bigint_t \<Rightarrow> bigint_t \<Rightarrow> unit cres \<times> bigint_t" where
  "add_biginthelper mm result lbig rbig =
     (let isNegSign = isnegative_bigint lbig;
          (lskip, ldigits) = skip_zeros (take (nrdigits_bigint lbig) (digits lbig));
          lexp = exponent_bigint lbig + lskip;
          (rskip, rdigits) = skip_zeros (take (nrdigits_bigint rbig) (digits rbig));
          rexp = exponent_bigint rbig + rskip
      in if lexp > 0xffff \<and> rexp > 0xffff then (Inl EOVERFLOW, result)
         else if rdigits = [] then copy_bigint mm result lbig
         else if ldigits = [] then
           (case copy_bigint mm result rbig of
              (Inl err, result) \<Rightarrow> (Inl err, result)
            | (Inr _, result) \<Rightarrow> (Inr (), setpositive_bigint result))
         else
           let lorder = lexp + length ldigits;
               rorder = rexp + length rdigits;
               (lexp, ldigits, rexp, rdigits) =
                 (if lorder < rorder then (rexp, rdigits, lexp, ldigits) else (lexp, ldigits, rexp, rdigits));
               expdiff = int lexp - int rexp;
               sz = length ldigits + 1 + (if expdiff > 0 then nat expdiff else 0)
           in case reserve_bigint mm result sz of
                (Inl err, result) \<Rightarrow> (Inl err, result)
              | (Inr _, result) \<Rightarrow>
                  let (trail, ldigits, rdigits) = add_trail expdiff ldigits rdigits;
                      (overlap, carry) = add_overlap False (take (length rdigits) ldigits) rdigits;
                      (lead, carry) = add_lead carry (drop (length rdigits) ldigits);
                      dest = trail @ overlap @ lead @ [of_bool carry];
                      sz = sz - of_bool (\<not> carry)
                  in (Inr (), result\<lparr>
                        sign_and_used_digits := cast_int16 (if isNegSign then - int sz else int sz),
                        exponent := cast_uint16 (if lexp < rexp then lexp else rexp),
                        digits := blit 0 dest (digits result)\<rparr>))"

text \<open>
  \<open>sub_biginthelper\<close>: the comparison of numbers of the same order drops equal digits from the
  most significant end (the lists are given from that end).
\<close>

fun strip_equal :: "u32 list \<Rightarrow> u32 list \<Rightarrow> u32 list \<times> u32 list" where
  "strip_equal (l # ls) (r # rs) = (if l \<noteq> r then (l # ls, r # rs) else strip_equal ls rs)"
| "strip_equal ls rs = (ls, rs)"

fun sub_overlap :: "bool \<Rightarrow> u32 list \<Rightarrow> u32 list \<Rightarrow> u32 list \<times> bool" where
  "sub_overlap carry (dl # ls) (dr # rs) =
     (let isUnderflow = (dl < dr \<or> (dl = dr \<and> carry));
          (out, carry') = sub_overlap isUnderflow ls rs
      in ((dl - dr - of_bool carry) # out, carry'))"
| "sub_overlap carry _ _ = ([], carry)"

primrec sub_lead :: "bool \<Rightarrow> u32 list \<Rightarrow> u32 list \<times> bool" where
  "sub_lead carry [] = ([], carry)"
| "sub_lead carry (dl # ls) =
     (let (out, carry') = sub_lead (dl < of_bool carry) ls
      in ((dl - of_bool carry) # out, carry'))"

definition sub_trail :: "int \<Rightarrow> u32 list \<Rightarrow> u32 list \<Rightarrow> u32 list \<times> u32 list \<times> u32 list \<times> bool" where
  "sub_trail expdiff ldigits rdigits =
     (if expdiff < 0 then
        let e = nat (- expdiff) in (take e ldigits, drop e ldigits, rdigits, False)
      else if expdiff > 0 then
        let e = nat expdiff;
            first = 0xffffffff - hd rdigits + 1
        in if length rdigits < e
           then (first # map (\<lambda>d. 0xffffffff - d) (tl rdigits) @ replicate (e - length rdigits) 0xffffffff,
                 ldigits, [], True)
           else (first # map (\<lambda>d. 0xffffffff - d) (take (e - 1) (tl rdigits)),
                 ldigits, drop e rdigits, True)
      else ([], ldigits, rdigits, False))"

definition sub_biginthelper :: "mm_t \<Rightarrow> bigint_t \<Rightarrow> bigint_t \<Rightarrow> bigint_t \<Rightarrow> unit cres \<times> bigint_t" where
  "sub_biginthelper mm result lbig rbig =
     (let isNegSign = isnegative_bigint lbig;
          (lskip, ldigits) = skip_zeros (take (nrdigits_bigint lbig) (digits lbig));
          lexp = exponent_bigint lbig + lskip;
          (rskip, rdigits) = skip_zeros (take (nrdigits_bigint rbig) (digits rbig));
          rexp = exponent_bigint rbig + rskip
      in if lexp > 0xffff \<and> rexp > 0xffff then (Inl EOVERFLOW, result)
         else if rdigits = [] then copy_bigint mm result lbig
         else if ldigits = [] then
           (case copy_bigint mm result rbig of
              (Inl err, result) \<Rightarrow> (Inl err, result)
            | (Inr _, result) \<Rightarrow> (Inr (), setnegative_bigint result))
         else
           let lorder = lexp + length ldigits;
               rorder = rexp + length rdigits;
               (ltop, rtop) = (if lorder = rorder then strip_equal (rev ldigits) (rev rdigits)
                               else (rev ldigits, rev rdigits))
           in if ltop = [] \<and> rtop = [] then (Inr (), setPu32_bigint result 0)
              else
                let isSwap = (if lorder = rorder
                              then (if ltop \<noteq> [] \<and> rtop \<noteq> [] then hd ltop < hd rtop else rtop \<noteq> [])
                              else lorder < rorder);
                    isNegSign = (if isSwap then \<not> isNegSign else isNegSign);
                    (lexp, ldigits, rexp, rdigits) =
                      (if isSwap then (rexp, rev rtop, lexp, rev ltop) else (lexp, rev ltop, rexp, rev rtop));
                    expdiff = int lexp - int rexp;
                    sz = length ldigits + (if expdiff > 0 then nat expdiff else 0)
                in case reserve_bigint mm result sz of
                     (Inl err, result) \<Rightarrow> (Inl err, result)
                   | (Inr _, result) \<Rightarrow>
                       let (trail, ldigits, rdigits, carry) = sub_trail expdiff ldigits rdigits;
                           (overlap, carry) = sub_overlap carry (take (length rdigits) ldigits) rdigits;
                           (lead, carry) = sub_lead carry (drop (length rdigits) ldigits);
                           dest = trail @ overlap @ lead;
                           sz = sz - fst (skip_zeros (rev dest))
                       in (Inr (), result\<lparr>
                             sign_and_used_digits := cast_int16 (if isNegSign then - int sz else int sz),
                             exponent := cast_uint16 (if lexp < rexp then lexp else rexp),
                             digits := blit 0 dest (digits result)\<rparr>))"

definition add_bigint :: "mm_t \<Rightarrow> bigint_t \<Rightarrow> bigint_t \<Rightarrow> bigint_t \<Rightarrow> unit cres \<times> bigint_t" where
  "add_bigint mm result lbig rbig =
     (if isnegative_bigint lbig = isnegative_bigint rbig then add_biginthelper mm result lbig rbig
      else sub_biginthelper mm result lbig rbig)"

definition sub_bigint :: "mm_t \<Rightarrow> bigint_t \<Rightarrow> bigint_t \<Rightarrow> bigint_t \<Rightarrow> unit cres \<times> bigint_t" where
  "sub_bigint mm result lbig rbig =
     (if isnegative_bigint lbig = isnegative_bigint rbig then sub_biginthelper mm result lbig rbig
      else add_biginthelper mm result lbig rbig)"

section \<open>The loops on values\<close>

text \<open>One digit of an addition and of a subtraction.\<close>

lemma add_digit:
  fixes l r :: u32
  assumes "carry' \<longleftrightarrow> r + (l + of_bool carry) < l + of_bool carry \<or> (carry \<and> 0 = l + of_bool carry)"
  shows "unat (r + (l + of_bool carry)) + 2 ^ 32 * of_bool carry' = unat l + unat r + of_bool carry"
proof -
  have b: "unat l < 2 ^ 32" "unat r < 2 ^ 32" using unat_u32_bound by blast+
  show ?thesis
  proof (cases "carry \<and> unat l = 2 ^ 32 - 1")
    case True
    then have "l = -1" by (simp add: word_unat_eq_iff unsigned_minus_1_eq_mask mask_eq_exp_minus_1)
    then show ?thesis using True assms by simp
  next
    case False
    then have dl: "unat (l + of_bool carry) = unat l + of_bool carry"
      using b by (intro unat_add_eq) (auto split: split_of_bool)
    then have "\<not> (carry \<and> 0 = l + of_bool carry)" by (auto simp: word_unat_eq_iff)
    then have c: "carry' \<longleftrightarrow> unat (r + (l + of_bool carry)) < unat l + of_bool carry"
      using assms dl by (simp add: word_less_nat_alt)
    have s: "unat (r + (l + of_bool carry)) = (unat r + (unat l + of_bool carry)) mod 2 ^ 32"
      using unat_word_ariths(1) [of r "l + of_bool carry"] unfolding dl by simp
    have dlb: "unat l + of_bool carry < 2 ^ 32" using dl unat_u32_bound [of "l + of_bool carry"] by simp
    show ?thesis
    proof (cases "unat r + (unat l + of_bool carry) < 2 ^ 32")
      case True
      then show ?thesis using s c by simp
    next
      case False
      then have "(unat r + (unat l + of_bool carry)) mod 2 ^ 32 = unat r + (unat l + of_bool carry) - 2 ^ 32"
        using b dlb by (simp add: mod_if)
      then have "unat (r + (l + of_bool carry)) + 2 ^ 32 = unat r + (unat l + of_bool carry)"
        using s False by linarith
      moreover from this have carry' using c b by linarith
      ultimately show ?thesis by simp
    qed
  qed
qed

lemma add_lead_digit:
  fixes l :: u32
  assumes "carry' \<longleftrightarrow> carry \<and> 0 = l + of_bool carry"
  shows "unat (l + of_bool carry) + 2 ^ 32 * of_bool carry' = unat l + of_bool carry"
proof -
  have "\<not> (0 :: u32) + (l + of_bool carry) < l + of_bool carry" by simp
  then show ?thesis using add_digit [of carry' 0 l carry] assms by simp
qed

lemma sub_digit:
  fixes l r :: u32
  shows "int (unat (l - r - of_bool carry)) + int (unat r) + of_bool carry
    = int (unat l) + 2 ^ 32 * of_bool (l < r \<or> (l = r \<and> carry))"
proof -
  have b: "unat l < 2 ^ 32" "unat r < 2 ^ 32" using unat_u32_bound by blast+
  have u: "uint (l - r - of_bool carry) = (uint l - uint r - of_bool carry) mod 2 ^ 32"
    by (cases carry) (simp_all add: uint_word_ariths mod_simps)
  have c: "(l < r \<or> (l = r \<and> carry)) \<longleftrightarrow> uint l - uint r - of_bool carry < 0"
    by (cases carry) (auto simp: word_less_def word_uint_eq_iff)
  have lb: "0 \<le> uint l" "uint l < 2 ^ 32" "0 \<le> uint r" "uint r < 2 ^ 32"
    using uint_lt2p [of l] uint_lt2p [of r] by simp_all
  define d where "d = uint l - uint r - of_bool carry"
  have "(0 :: int) \<le> of_bool carry" "of_bool carry \<le> (1 :: int)" by simp_all
  then have db: "- (2 ^ 32) \<le> d" "d < 2 ^ 32" using lb unfolding d_def by linarith+
  have "d mod 2 ^ 32 = d + 2 ^ 32 * of_bool (d < 0)"
  proof (cases "d < 0")
    case True
    have "d mod 2 ^ 32 = (d + 2 ^ 32) mod 2 ^ 32" by simp
    also have "\<dots> = d + 2 ^ 32" using True db by (intro mod_pos_pos_trivial) simp_all
    finally show ?thesis using True by simp
  qed (use db in simp)
  then show ?thesis using u c by (simp add: d_def)
qed


lemma add_overlap_val:
  "length ls = length rs \<Longrightarrow> add_overlap c ls rs = (out, c') \<Longrightarrow>
   length out = length ls \<and>
   dval out + 2 ^ (32 * length ls) * of_bool c' = dval ls + dval rs + of_bool c"
proof (induction c ls rs arbitrary: out c' rule: add_overlap.induct)
  case (1 c l ls r rs)
  define dl where "dl = l + of_bool c"
  define c1 where "c1 \<longleftrightarrow> r + dl < dl \<or> (c \<and> 0 = dl)"
  obtain out1 c2 where o: "add_overlap c1 ls rs = (out1, c2)" by fastforce
  then have r: "out = (r + dl) # out1" "c' = c2"
    using 1(3) by (auto simp: Let_def dl_def c1_def)
  have ih: "length out1 = length ls"
    "dval out1 + 2 ^ (32 * length ls) * of_bool c2 = dval ls + dval rs + of_bool c1"
    using 1(1) [OF dl_def refl, folded c1_def, OF _ o] 1(2) by simp_all
  have d: "unat (r + dl) + 2 ^ 32 * of_bool c1 = unat l + unat r + of_bool c"
    unfolding dl_def by (rule add_digit) (simp add: c1_def dl_def)
  have "dval out + 2 ^ (32 * length (l # ls)) * of_bool c'
      = unat (r + dl) + 2 ^ 32 * (dval out1 + 2 ^ (32 * length ls) * of_bool c2)"
    by (simp add: r power_add algebra_simps)
  also have "\<dots> = (unat (r + dl) + 2 ^ 32 * of_bool c1) + 2 ^ 32 * (dval ls + dval rs)"
    unfolding ih by (simp add: algebra_simps)
  finally have "dval out + 2 ^ (32 * length (l # ls)) * of_bool c' = dval (l # ls) + dval (r # rs) + of_bool c"
    unfolding d by simp
  then show ?case using ih(1) r(1) by simp
qed simp_all

lemma add_lead_val:
  "add_lead c ls = (out, c') \<Longrightarrow>
   length out = length ls \<and> dval out + 2 ^ (32 * length ls) * of_bool c' = dval ls + of_bool c"
proof (induction ls arbitrary: c out c')
  case (Cons l ls)
  define c1 where "c1 \<longleftrightarrow> c \<and> 0 = l + of_bool c"
  obtain out1 c2 where o: "add_lead c1 ls = (out1, c2)" by fastforce
  then have r: "out = (l + of_bool c) # out1" "c' = c2"
    using Cons.prems by (auto simp: Let_def c1_def)
  note ih = Cons.IH [OF o]
  have d: "unat (l + of_bool c) + 2 ^ 32 * of_bool c1 = unat l + of_bool c"
    by (rule add_lead_digit) (simp add: c1_def)
  have "dval out + 2 ^ (32 * length (l # ls)) * of_bool c'
      = unat (l + of_bool c) + 2 ^ 32 * (dval out1 + 2 ^ (32 * length ls) * of_bool c2)"
    by (simp add: r power_add algebra_simps)
  also have "\<dots> = (unat (l + of_bool c) + 2 ^ 32 * of_bool c1) + 2 ^ 32 * dval ls"
    using ih by (simp add: algebra_simps)
  finally have "dval out + 2 ^ (32 * length (l # ls)) * of_bool c' = dval (l # ls) + of_bool c"
    unfolding d by simp
  then show ?case using conjunct1 [OF ih] r(1) by simp
qed simp

lemma sub_overlap_val:
  "length ls = length rs \<Longrightarrow> sub_overlap c ls rs = (out, c') \<Longrightarrow>
   length out = length ls \<and>
   int (dval out) + int (dval rs) + of_bool c = int (dval ls) + 2 ^ (32 * length ls) * of_bool c'"
proof (induction c ls rs arbitrary: out c' rule: sub_overlap.induct)
  case (1 c l ls r rs)
  define c1 where "c1 \<longleftrightarrow> l < r \<or> (l = r \<and> c)"
  obtain out1 c2 where o: "sub_overlap c1 ls rs = (out1, c2)" by fastforce
  then have r: "out = (l - r - of_bool c) # out1" "c' = c2"
    using 1(3) by (auto simp: Let_def c1_def)
  have ih: "length out1 = length ls"
    "int (dval out1) + int (dval rs) + of_bool c1 = int (dval ls) + 2 ^ (32 * length ls) * of_bool c2"
    using 1(1) [OF c1_def _ o] 1(2) by simp_all
  have d: "int (unat (l - r - of_bool c)) + int (unat r) + of_bool c = int (unat l) + 2 ^ 32 * of_bool c1"
    unfolding c1_def by (rule sub_digit)
  have "int (dval out) + int (dval (r # rs)) + of_bool c
      = (int (unat (l - r - of_bool c)) + int (unat r) + of_bool c) + 2 ^ 32 * (int (dval out1) + int (dval rs))"
    by (simp add: r algebra_simps)
  also have "\<dots> = int (unat l) + 2 ^ 32 * (int (dval out1) + int (dval rs) + of_bool c1)"
    unfolding d by (simp add: algebra_simps)
  also have "\<dots> = int (dval (l # ls)) + 2 ^ (32 * length (l # ls)) * of_bool c'"
    unfolding ih by (simp add: r power_add algebra_simps)
  finally show ?case using ih(1) r(1) by simp
qed simp_all

lemma sub_lead_val:
  "sub_lead c ls = (out, c') \<Longrightarrow>
   length out = length ls \<and> int (dval out) + of_bool c = int (dval ls) + 2 ^ (32 * length ls) * of_bool c'"
proof (induction ls arbitrary: c out c')
  case (Cons l ls)
  define c1 where "c1 \<longleftrightarrow> l < of_bool c"
  obtain out1 c2 where o: "sub_lead c1 ls = (out1, c2)" by fastforce
  then have r: "out = (l - of_bool c) # out1" "c' = c2"
    using Cons.prems by (auto simp: Let_def c1_def)
  note ih = Cons.IH [OF o]
  have "c1 \<longleftrightarrow> l < 0 \<or> (l = 0 \<and> c)"
    by (cases c) (simp_all add: c1_def word_less_nat_alt unat_eq_0)
  then have d: "int (unat (l - of_bool c)) + of_bool c = int (unat l) + 2 ^ 32 * of_bool c1"
    using sub_digit [of l 0 c] by simp
  have "int (dval out) + of_bool c
      = (int (unat (l - of_bool c)) + of_bool c) + 2 ^ 32 * int (dval out1)"
    by (simp add: r)
  also have "\<dots> = int (unat l) + 2 ^ 32 * (int (dval out1) + of_bool c1)"
    unfolding d by (simp add: algebra_simps)
  also have "\<dots> = int (dval (l # ls)) + 2 ^ (32 * length (l # ls)) * of_bool c'"
    using ih by (simp add: r power_add algebra_simps)
  finally show ?case using conjunct1 [OF ih] r(1) by simp
qed simp


text \<open>The part below the higher exponent and what is left describe the sum and the difference.\<close>

lemma add_trail_val:
  assumes t: "add_trail (int le - int re) l r = (t, l', r')" and ord: "re + length r \<le> le + length l"
  shows "length r' \<le> length l'" and "length t + length l' = length l + (le - re)"
    and "dval t * 2 ^ (32 * min le re) + (dval l' + dval r') * 2 ^ (32 * (min le re + length t))
      = dval l * 2 ^ (32 * le) + dval r * 2 ^ (32 * re)"
proof -
  have "length r' \<le> length l' \<and> length t + length l' = length l + (le - re) \<and>
    dval t * 2 ^ (32 * min le re) + (dval l' + dval r') * 2 ^ (32 * (min le re + length t))
      = dval l * 2 ^ (32 * le) + dval r * 2 ^ (32 * re)"
  proof (cases le re rule: linorder_cases)
    case less
    then obtain e where e: "re = le + e" "0 < e" by (metis less_imp_add_positive)
    then have r: "t = take e l" "l' = drop e l" "r' = r" using t by (simp_all add: add_trail_def Let_def)
    have el: "e \<le> length l" using ord e by simp
    have "dval l = dval t + 2 ^ (32 * e) * dval l'" unfolding r by (rule dval_take_drop [OF el])
    then show ?thesis using el ord e r by (simp add: power_add algebra_simps)
  next
    case equal
    then show ?thesis using t ord by (simp add: add_trail_def algebra_simps)
  next
    case greater
    then obtain e where e: "le = re + e" "0 < e" by (metis less_imp_add_positive)
    show ?thesis
    proof (cases "length r < e")
      case True
      then have "t = r @ replicate (e - length r) 0" "l' = l" "r' = []"
        using t e by (simp_all add: add_trail_def Let_def)
      then show ?thesis using e True by (simp add: dval_append power_add algebra_simps)
    next
      case False
      then have r: "t = take e r" "l' = l" "r' = drop e r"
        using t e by (simp_all add: add_trail_def Let_def)
      have "dval r = dval t + 2 ^ (32 * e) * dval r'" unfolding r by (rule dval_take_drop) (use False in simp)
      then show ?thesis using e r False ord by (simp add: power_add algebra_simps)
    qed
  qed
  then show "length r' \<le> length l'" and "length t + length l' = length l + (le - re)"
    and "dval t * 2 ^ (32 * min le re) + (dval l' + dval r') * 2 ^ (32 * (min le re + length t))
      = dval l * 2 ^ (32 * le) + dval r * 2 ^ (32 * re)" by blast+
qed

text \<open>Complemented digits.\<close>

lemma dval_complement: "dval (map (\<lambda>d. 0xffffffff - d) ds) + dval ds + 1 = 2 ^ (32 * length ds)"
proof (induction ds)
  case (Cons d ds)
  have "d \<le> (0xffffffff :: u32)" using unat_u32_bound [of d] by (simp add: word_le_nat_alt)
  then have "unat (0xffffffff - d) = 0xffffffff - unat d" by (simp add: unat_sub)
  moreover have "unat d < 2 ^ 32" by (rule unat_u32_bound)
  ultimately have d: "unat (0xffffffff - d) + unat d + 1 = 2 ^ 32" by simp
  have "dval (map (\<lambda>d. 0xffffffff - d) (d # ds)) + dval (d # ds) + 1
      = (unat (0xffffffff - d) + unat d + 1) + 2 ^ 32 * (dval (map (\<lambda>d. 0xffffffff - d) ds) + dval ds)"
    by simp
  also have "\<dots> = 2 ^ 32 * (dval (map (\<lambda>d. 0xffffffff - d) ds) + dval ds + 1)" unfolding d by simp
  finally show ?case unfolding Cons by (simp add: power_add)
qed simp

lemma dval_negate:
  assumes "h \<noteq> (0 :: u32)"
  shows "dval ((0xffffffff - h + 1) # map (\<lambda>d. 0xffffffff - d) ds) + dval (h # ds) = 2 ^ (32 * Suc (length ds))"
proof -
  have m: "0xffffffff - h + 1 = 0 - h - of_bool False" by simp
  have "0 < h" using assms by (simp add: word_neq_0_conv)
  then have "int (unat (0xffffffff - h + 1)) + int (unat h) = 2 ^ 32"
    using sub_digit [of 0 h False] unfolding m by simp
  then have h: "unat (0xffffffff - h + 1) + unat h = 2 ^ 32"
    unfolding of_nat_eq_iff [where 'a = int, symmetric] of_nat_add of_nat_power of_nat_numeral .
  have "dval ((0xffffffff - h + 1) # map (\<lambda>d. 0xffffffff - d) ds) + dval (h # ds)
      = (unat (0xffffffff - h + 1) + unat h) + 2 ^ 32 * (dval (map (\<lambda>d. 0xffffffff - d) ds) + dval ds)"
    by simp
  also have "\<dots> = 2 ^ 32 * (dval (map (\<lambda>d. 0xffffffff - d) ds) + dval ds + 1)" unfolding h by simp
  finally show ?thesis unfolding dval_complement by (simp add: power_add)
qed

lemma sub_trail_low:
  assumes "0 < e" and "r \<noteq> []" and "hd r \<noteq> 0" and t: "sub_trail (int e) l r = (t, l', r', c)"
  shows "c \<and> l' = l \<and> length t = e \<and> length r' = length r - e \<and>
    (\<exists>low. dval t + low = 2 ^ (32 * e) \<and> dval r = low + 2 ^ (32 * e) * dval r')"
proof (cases "length r < e")
  case True
  define z where "z = tl r @ replicate (e - length r) (0 :: u32)"
  have z: "length z = e - 1" "Suc (length z) = e" using True assms(2) by (cases r; simp add: z_def)+
  have r: "t = (0xffffffff - hd r + 1) # map (\<lambda>d. 0xffffffff - d) z" "l' = l" "r' = []" "c"
    using t True assms(1) by (simp_all add: sub_trail_def Let_def z_def)
  have "dval t + dval (hd r # z) = 2 ^ (32 * e)"
    using dval_negate [OF assms(3), of z] unfolding r(1) z(2) .
  moreover have "dval (hd r # z) = dval r"
    using assms(2) by (cases r) (simp_all add: z_def dval_append)
  ultimately show ?thesis using r z True by auto
next
  case False
  define z where "z = take (e - 1) (tl r)"
  have z: "length z = e - 1" "Suc (length z) = e" "hd r # z = take e r"
    using False assms(1,2) by (cases r; cases e; simp add: z_def)+
  have r: "t = (0xffffffff - hd r + 1) # map (\<lambda>d. 0xffffffff - d) z" "l' = l" "r' = drop e r" "c"
    using t False assms(1) by (simp_all add: sub_trail_def Let_def z_def)
  have "dval t + dval (take e r) = 2 ^ (32 * e)"
    using dval_negate [OF assms(3), of z] unfolding r(1) z(2,3) .
  moreover have "dval r = dval (take e r) + 2 ^ (32 * e) * dval r'"
    unfolding r by (rule dval_take_drop) (use False in simp)
  ultimately show ?thesis using r z False by auto
qed

lemma sub_trail_val:
  assumes t: "sub_trail (int le - int re) l r = (t, l', r', c)" and ord: "re + length r \<le> le + length l"
    and low: "re < le \<longrightarrow> r \<noteq> [] \<and> hd r \<noteq> 0"
  shows "length r' \<le> length l'" and "length t + length l' = length l + (le - re)"
    and "int (dval t) * 2 ^ (32 * min le re)
        + (int (dval l') - int (dval r') - of_bool c) * 2 ^ (32 * (min le re + length t))
      = int (dval l) * 2 ^ (32 * le) - int (dval r) * 2 ^ (32 * re)"
proof -
  have "length r' \<le> length l' \<and> length t + length l' = length l + (le - re) \<and>
    int (dval t) * 2 ^ (32 * min le re)
        + (int (dval l') - int (dval r') - of_bool c) * 2 ^ (32 * (min le re + length t))
      = int (dval l) * 2 ^ (32 * le) - int (dval r) * 2 ^ (32 * re)"
  proof (cases le re rule: linorder_cases)
    case less
    then obtain e where e: "re = le + e" "0 < e" by (metis less_imp_add_positive)
    then have r: "t = take e l" "l' = drop e l" "r' = r" "\<not> c" using t by (simp_all add: sub_trail_def Let_def)
    have el: "e \<le> length l" using ord e by simp
    have "dval l = dval t + 2 ^ (32 * e) * dval l'" unfolding r by (rule dval_take_drop [OF el])
    then show ?thesis using el ord e r by (simp add: power_add algebra_simps)
  next
    case equal
    then show ?thesis using t ord by (simp add: sub_trail_def algebra_simps)
  next
    case greater
    then obtain e where e: "le = re + e" "0 < e" by (metis less_imp_add_positive)
    have "sub_trail (int e) l r = (t, l', r', c)" using t e by simp
    with sub_trail_low [OF e(2) _ _ this] low greater
    obtain lo where lo: "c" "l' = l" "length t = e" "length r' = length r - e"
      "dval t + lo = 2 ^ (32 * e)" "dval r = lo + 2 ^ (32 * e) * dval r'" by blast
    have i: "int lo = 2 ^ (32 * e) - int (dval t)" using arg_cong [OF lo(5), of int] by simp
    have "int (dval r) = 2 ^ (32 * e) - int (dval t) + 2 ^ (32 * e) * int (dval r')"
      using lo(6) i by simp
    then have "int (dval t) * 2 ^ (32 * re) + (int (dval l) - int (dval r') - 1) * 2 ^ (32 * (re + e))
      = int (dval l) * 2 ^ (32 * (re + e)) - int (dval r) * 2 ^ (32 * re)"
      by (simp only:) (simp add: power_add algebra_simps)
    then show ?thesis using e ord lo(1-4) by simp
  qed
  then show "length r' \<le> length l'" and "length t + length l' = length l + (le - re)"
    and "int (dval t) * 2 ^ (32 * min le re)
        + (int (dval l') - int (dval r') - of_bool c) * 2 ^ (32 * (min le re + length t))
      = int (dval l) * 2 ^ (32 * le) - int (dval r) * 2 ^ (32 * re)" by blast+
qed


section \<open>The helpers\<close>

text \<open>The digits of an operand after its trailing zeros are skipped.\<close>

lemma operand:
  assumes "bigint_inv b" and "skip_zeros (take (nrdigits_bigint b) (digits b)) = (k, ds)"
  shows "bmag b = dval ds * 2 ^ (32 * (exponent b + k))"
    and "ds \<noteq> [] \<Longrightarrow> hd ds \<noteq> 0 \<and> last ds \<noteq> 0" and "ds = [] \<Longrightarrow> bmag b = 0"
    and "ds = [] \<Longrightarrow> exponent b + k = 0" and "length ds \<le> nrdigits_bigint b"
proof -
  have u: "used_digits b = replicate k 0 @ ds" and hd: "ds \<noteq> [] \<Longrightarrow> hd ds \<noteq> 0"
    using skip_zeros_split [OF assms(2)] by (auto simp: used_digits_def)
  show v: "bmag b = dval ds * 2 ^ (32 * (exponent b + k))"
    unfolding bmag_def u dval_shift by (simp add: power_add)
  have "sign_and_used_digits b \<noteq> 0" if "ds \<noteq> []"
    using that u by (auto simp: used_digits_def nrdigits_bigint_def)
  then show "ds \<noteq> [] \<Longrightarrow> hd ds \<noteq> 0 \<and> last ds \<noteq> 0"
    using last_used(2) [OF assms(1)] hd unfolding u by simp
  show "ds = [] \<Longrightarrow> bmag b = 0" using v by simp
  show "length ds \<le> nrdigits_bigint b"
    using length_used [OF assms(1)] unfolding u by simp
  assume "ds = []"
  then have z: "sign_and_used_digits b = 0" using v bmag_0_iff [OF assms(1)] by simp
  then have "exponent b = 0" "nrdigits_bigint b = 0"
    using assms(1) by (simp_all add: bigint_inv_def nrdigits_0_iff)
  then show "exponent b + k = 0" using u by (simp add: used_digits_def)
qed

text \<open>The digits of a sum: their value, and the number of digits that are in use.\<close>

lemma add_digits:
  assumes t: "add_trail (int le - int re) l r = (t, l', r')" and ord: "re + length r \<le> le + length l"
    and o: "add_overlap False (take (length r') l') r' = (ov, c)"
    and h: "add_lead c (drop (length r') l') = (ld, c')"
    and l: "l \<noteq> []" "last l \<noteq> 0"
  defines "dest \<equiv> t @ ov @ ld @ [of_bool c']"
  defines "sz \<equiv> length l + 1 + (le - re) - of_bool (\<not> c')"
  shows "length dest = length l + 1 + (le - re)"
    and "dval (take sz dest) * 2 ^ (32 * min le re) = dval l * 2 ^ (32 * le) + dval r * 2 ^ (32 * re)"
    and "dest ! (sz - 1) \<noteq> 0"
proof -
  note t' = add_trail_val [OF t ord]
  have lo: "length ov = length r'"
    "dval ov + 2 ^ (32 * length r') * of_bool c = dval (take (length r') l') + dval r'"
    using add_overlap_val [OF _ o] t'(1) by simp_all
  have ll: "length ld = length l' - length r'"
    "dval ld + 2 ^ (32 * (length l' - length r')) * of_bool c' = dval (drop (length r') l') + of_bool c"
    using add_lead_val [OF h] by simp_all
  show len: "length dest = length l + 1 + (le - re)"
    using t'(1,2) lo(1) ll(1) by (simp add: dest_def)
  have "dval (ov @ ld @ [of_bool c']) = dval ov + 2 ^ (32 * length r')
      * (dval ld + 2 ^ (32 * (length l' - length r')) * of_bool c')"
    by (simp add: dval_append lo(1) ll(1))
  also have "\<dots> = dval ov + 2 ^ (32 * length r') * of_bool c + 2 ^ (32 * length r') * dval (drop (length r') l')"
    unfolding ll(2) by (simp add: algebra_simps)
  also have "\<dots> = dval l' + dval r'"
    unfolding lo(2) using dval_take_drop [OF t'(1)] by simp
  finally have "dval dest = dval t + 2 ^ (32 * length t) * (dval l' + dval r')"
    by (simp add: dest_def dval_append)
  then have D: "dval dest * 2 ^ (32 * min le re) = dval l * 2 ^ (32 * le) + dval r * 2 ^ (32 * re)"
    unfolding t'(3) [symmetric] by (simp add: power_add algebra_simps)
  have tk: "dval (take sz dest) = dval dest" "length (take sz dest) = sz" "0 < sz"
    using len l(1) by (cases c'; simp add: sz_def dest_def dval_append)+
  show "dval (take sz dest) * 2 ^ (32 * min le re) = dval l * 2 ^ (32 * le) + dval r * 2 ^ (32 * re)"
    using D tk(1) by simp
  show "dest ! (sz - 1) \<noteq> 0"
  proof (cases c')
    case True
    then have "sz = length dest" "last dest \<noteq> 0" using len by (simp_all add: sz_def dest_def)
    moreover have "dest \<noteq> []" by (simp add: dest_def)
    ultimately show ?thesis by (simp add: last_conv_nth)
  next
    case False
    have ne: "take sz dest \<noteq> []" using tk(2,3) by auto
    have e: "32 * (sz - 1) + 32 * min le re = 32 * (length l - 1) + 32 * le"
      using False l(1) by (cases l) (auto simp: sz_def min_def)
    have "2 ^ (32 * (sz - 1)) * 2 ^ (32 * min le re) = (2 :: nat) ^ (32 * (length l - 1)) * 2 ^ (32 * le)"
      using e by (simp flip: power_add)
    also have "\<dots> \<le> dval l * 2 ^ (32 * le)" using dval_top [OF l] by simp
    also have "\<dots> \<le> dval (take sz dest) * 2 ^ (32 * min le re)" using D tk(1) by simp
    finally have "last (take sz dest) \<noteq> 0"
      using last_nonzero_dval [OF _ ne] tk(2) by simp
    moreover have "last (take sz dest) = dest ! (sz - 1)"
      using ne tk(2,3) by (simp add: last_conv_nth)
    ultimately show ?thesis by simp
  qed
qed


text \<open>The result of \<open>add_biginthelper\<close> once the bigger operand is known.\<close>

lemma add_store_delivers:
  fixes neg :: bool
  assumes inv: "bigint_inv result" and ord: "re + length r \<le> le + length l" and l: "l \<noteq> []" "last l \<noteq> 0"
    and e: "min le re < 2 ^ 16"
  shows "delivers result
    (case reserve_bigint mm result (length l + 1 + (if int le - int re > 0 then nat (int le - int re) else 0)) of
       (Inl err, result) \<Rightarrow> (Inl err, result)
     | (Inr _, result) \<Rightarrow>
         let (trail, ldigits, rdigits) = add_trail (int le - int re) l r;
             (overlap, carry) = add_overlap False (take (length rdigits) ldigits) rdigits;
             (lead, carry) = add_lead carry (drop (length rdigits) ldigits);
             dest = trail @ overlap @ lead @ [of_bool carry];
             sz = length l + 1 + (if int le - int re > 0 then nat (int le - int re) else 0) - of_bool (\<not> carry)
         in (Inr (), result\<lparr>
               sign_and_used_digits := cast_int16 (if neg then - int sz else int sz),
               exponent := cast_uint16 (if le < re then le else re),
               digits := blit 0 dest (digits result)\<rparr>))
    ((if neg then -1 else 1) * int (dval l * 2 ^ (32 * le) + dval r * 2 ^ (32 * re)))"
proof -
  have d: "(if int le - int re > 0 then nat (int le - int re) else 0) = le - re" by auto
  have m: "(if le < re then le else re) = min le re" by simp
  obtain t l' r' where t: "add_trail (int le - int re) l r = (t, l', r')" by (metis prod_cases3)
  obtain ov c where o: "add_overlap False (take (length r') l') r' = (ov, c)" by fastforce
  obtain ld c' where h: "add_lead c (drop (length r') l') = (ld, c')" by fastforce
  let ?dest = "t @ ov @ ld @ [of_bool c']"
  let ?sz = "length l + 1 + (le - re) - of_bool (\<not> c')"
  note A = add_digits [OF t ord o h l]
  show ?thesis
    unfolding d m
  proof (rule reserve_bigint_cases [OF inv, of mm "length l + 1 + (le - re)"], goal_cases)
    case (1 err)
    then show ?case by simp
  next
    case (2 big')
    define res where "res = big'\<lparr>sign_and_used_digits := cast_int16 (if neg then - int ?sz else int ?sz),
      exponent := cast_uint16 (min le re), digits := blit 0 ?dest (digits big')\<rparr>"
    have sz: "?sz \<le> length ?dest" "?sz \<noteq> 0" "?sz < 2 ^ 15"
      unfolding A(1) using l(1) 2(4) by (cases l; simp)+
    have ld: "length ?dest \<le> length (digits big')" unfolding A(1) by (rule 2(2))
    have z: "?sz = 0 \<Longrightarrow> min le re = 0" using sz(2) by blast
    note R = set_result [where neg = neg, OF ld sz(1,3) e A(3) z 2(3) 2(5), folded res_def]
    have v: "bval res = (if neg then -1 else 1) * int (dval l * 2 ^ (32 * le) + dval r * 2 ^ (32 * re))"
      using R(2) unfolding A(2) .
    show ?case
      unfolding 2(1) sum.case prod.case t o h Let_def res_def [symmetric]
      using R(1) v by simp
  qed
qed


lemma setpositive_bigint_val:
  assumes "bigint_inv big"
  shows "bigint_inv (setpositive_bigint big)" and "bval (setpositive_bigint big) = \<bar>bval big\<bar>"
  unfolding setpositive_bigint_def
  using sign_change [OF assms, of "if sign_and_used_digits big < 0 then - sign_and_used_digits big
    else sign_and_used_digits big"] bval_0_iff [OF assms]
  by (auto simp: sgn_if)

lemma setnegative_bigint_val:
  assumes "bigint_inv big"
  shows "bigint_inv (setnegative_bigint big)" and "bval (setnegative_bigint big) = - \<bar>bval big\<bar>"
  unfolding setnegative_bigint_def
  using sign_change [OF assms, of "if sign_and_used_digits big < 0 then sign_and_used_digits big
    else - sign_and_used_digits big"] bval_0_iff [OF assms]
  by (auto simp: sgn_if)

lemma add_biginthelper_delivers:
  assumes inv: "bigint_inv result" "bigint_inv l" "bigint_inv r"
    and sg: "sign_and_used_digits l = 0 \<Longrightarrow> \<not> isnegative_bigint l"
  shows "delivers result (add_biginthelper mm result l r)
    ((if isnegative_bigint l then -1 else 1) * (int (bmag l) + int (bmag r)))"
proof -
  obtain lk ld where lo: "skip_zeros (take (nrdigits_bigint l) (digits l)) = (lk, ld)" by fastforce
  obtain rk rd where ro: "skip_zeros (take (nrdigits_bigint r) (digits r)) = (rk, rd)" by fastforce
  let ?le = "exponent l + lk" and ?re = "exponent r + rk"
  note L = operand [OF inv(2) lo] and R = operand [OF inv(3) ro]
  note defs = add_biginthelper_def lo ro Let_def prod.case exponent_bigint_def
  show ?thesis
  proof (cases "?le > 0xffff \<and> ?re > 0xffff")
    case True
    then show ?thesis unfolding defs by simp
  next
    case e: False
    show ?thesis
    proof (cases "rd = []")
      case True
      then have "(if isnegative_bigint l then -1 else 1) * (int (bmag l) + int (bmag r)) = bval l"
        using R(3) bval_sign [OF inv(2)] by simp
      then show ?thesis
        unfolding defs using e True copy_bigint_delivers [OF inv(1,2), of mm] by simp
    next
      case rd: False
      show ?thesis
      proof (cases "ld = []")
        case True
        then have "bmag l = 0" using L(3) by simp
        then have v: "(if isnegative_bigint l then -1 else 1) * (int (bmag l) + int (bmag r)) = \<bar>bval r\<bar>"
          using sg bmag_0_iff [OF inv(2)] by (simp add: abs_bval)
        obtain res big where c: "copy_bigint mm result r = (res, big)" by fastforce
        have "delivers result (res, big) (bval r)"
          using copy_bigint_delivers [OF inv(1,3), of mm] unfolding c .
        then show ?thesis
          unfolding v unfolding defs c using e rd True setpositive_bigint_val [of big]
          by (cases res) auto
      next
        case ld: False
        have E: "min ?le ?re < 2 ^ 16" using e by auto
        note conds = if_not_P [OF e] if_not_P [OF rd] if_not_P [OF ld]
        note store = add_store_delivers [OF inv(1), unfolded Let_def prod.case]
        show ?thesis
        proof (cases "?le + length ld < ?re + length rd")
          case True
          then have ord: "?le + length ld \<le> ?re + length rd" by simp
          have E': "min ?re ?le < 2 ^ 16" using E by (simp add: min.commute)
          have v: "int (bmag l) + int (bmag r) = int (dval rd * 2 ^ (32 * ?re) + dval ld * 2 ^ (32 * ?le))"
            unfolding L(1) R(1) by simp
          show ?thesis
            unfolding v add_biginthelper_def lo ro Let_def prod.case exponent_bigint_def conds if_P [OF True]
            by (rule store [OF ord rd conjunct2 [OF R(2) [OF rd]] E'])
        next
          case False
          then have ord: "?re + length rd \<le> ?le + length ld" by simp
          have v: "int (bmag l) + int (bmag r) = int (dval ld * 2 ^ (32 * ?le) + dval rd * 2 ^ (32 * ?re))"
            unfolding L(1) R(1) by simp
          show ?thesis
            unfolding v add_biginthelper_def lo ro Let_def prod.case exponent_bigint_def conds if_not_P [OF False]
            by (rule store [OF ord ld conjunct2 [OF L(2) [OF ld]] E])
        qed
      qed
    qed
  qed
qed

subsection \<open>Subtraction\<close>

lemma strip_equal_spec:
  "strip_equal xs ys = (xs', ys') \<Longrightarrow>
   (\<exists>p. xs = p @ xs' \<and> ys = p @ ys') \<and> (xs' \<noteq> [] \<longrightarrow> ys' \<noteq> [] \<longrightarrow> hd xs' \<noteq> hd ys')"
proof (induction xs ys rule: strip_equal.induct)
  case (1 l ls r rs)
  show ?case
  proof (cases "l = r")
    case True
    then obtain p where "ls = p @ xs'" "rs = p @ ys'" "xs' \<noteq> [] \<longrightarrow> ys' \<noteq> [] \<longrightarrow> hd xs' \<noteq> hd ys'"
      using 1 by auto
    then show ?thesis using True by (intro conjI exI [of _ "l # p"]) auto
  qed (use 1 in auto)
qed auto

text \<open>Of two numbers that end at the same place, the one with the smaller top digit is smaller.\<close>

lemma dval_top_less:
  assumes "hd xs < hd ys" and "xs \<noteq> []" and "ys \<noteq> []" and "le + length xs = re + length ys"
  shows "dval (rev xs) * 2 ^ (32 * le) < dval (rev ys) * 2 ^ (32 * re)"
proof -
  obtain x xt y yt where xy: "xs = x # xt" "ys = y # yt" using assms(2,3) by (metis list.exhaust)
  have e: "32 * le + 32 * length xt = 32 * re + 32 * length yt" using assms(4) xy by simp
  have "dval (rev xs) < 2 ^ (32 * length xt) * (unat x + 1)"
    using dval_bound [of "rev xt"] by (simp add: xy dval_append)
  then have "dval (rev xs) * 2 ^ (32 * le) < 2 ^ (32 * length xt) * (unat x + 1) * 2 ^ (32 * le)"
    by simp
  also have "\<dots> = (unat x + 1) * 2 ^ (32 * re + 32 * length yt)"
    unfolding e [symmetric] by (simp add: power_add algebra_simps)
  also have "\<dots> \<le> unat y * 2 ^ (32 * re + 32 * length yt)"
    using assms(1) by (intro mult_right_mono) (simp_all add: xy word_less_nat_alt)
  also have "\<dots> \<le> dval (rev ys) * 2 ^ (32 * re)"
    by (simp add: xy dval_append power_add algebra_simps)
  finally show ?thesis .
qed

lemma dval_order_less:
  assumes "le + length xs < re + length ys" and "ys \<noteq> []" and "last ys \<noteq> 0"
  shows "dval xs * 2 ^ (32 * le) < dval ys * 2 ^ (32 * re)"
proof -
  have "dval xs * 2 ^ (32 * le) < 2 ^ (32 * length xs) * 2 ^ (32 * le)"
    using dval_bound [of xs] by simp
  also have "\<dots> \<le> 2 ^ (32 * (length ys - 1)) * 2 ^ (32 * re)"
    unfolding power_add [symmetric] using assms(1,2) by (intro power_increasing) (cases ys; simp)+
  also have "\<dots> \<le> dval ys * 2 ^ (32 * re)" using dval_top [OF assms(2,3)] by simp
  finally show ?thesis .
qed

lemma int_less_pow:
  assumes "a * 2 ^ i < b * 2 ^ j"
  shows "int a * 2 ^ i < int b * 2 ^ j"
proof -
  have "int (a * 2 ^ i) < int (b * 2 ^ j)" using assms by (simp only: of_nat_less_iff)
  then show ?thesis by simp
qed

text \<open>The digits of a difference of a number and a smaller one.\<close>

lemma sub_digits:
  assumes t: "sub_trail (int le - int re) l r = (t, l', r', c0)" and ord: "re + length r \<le> le + length l"
    and low: "re < le \<longrightarrow> r \<noteq> [] \<and> hd r \<noteq> 0"
    and o: "sub_overlap c0 (take (length r') l') r' = (ov, c)"
    and h: "sub_lead c (drop (length r') l') = (ld, c')"
    and less: "dval r * 2 ^ (32 * re) < dval l * 2 ^ (32 * le)"
  defines "dest \<equiv> t @ ov @ ld"
  shows "length dest = length l + (le - re)"
    and "int (dval dest) * 2 ^ (32 * min le re) = int (dval l) * 2 ^ (32 * le) - int (dval r) * 2 ^ (32 * re)"
proof -
  note t' = sub_trail_val [OF t ord low]
  have lo: "length ov = length r'"
    "int (dval ov) + int (dval r') + of_bool c0
      = int (dval (take (length r') l')) + 2 ^ (32 * length r') * of_bool c"
    using sub_overlap_val [OF _ o] t'(1) by simp_all
  have ll: "length ld = length l' - length r'"
    "int (dval ld) + of_bool c = int (dval (drop (length r') l')) + 2 ^ (32 * (length l' - length r')) * of_bool c'"
    using sub_lead_val [OF h] by simp_all
  show len: "length dest = length l + (le - re)"
    using t'(1,2) lo(1) ll(1) by (simp add: dest_def)
  have "int (dval l') = int (dval (take (length r') l')) + 2 ^ (32 * length r') * int (dval (drop (length r') l'))"
    using dval_take_drop [OF t'(1)] by simp
  moreover have "int (dval (ov @ ld)) = int (dval ov) + 2 ^ (32 * length r') * int (dval ld)"
    by (simp add: dval_append lo(1))
  moreover have "int (dval ov) = int (dval (take (length r') l')) + 2 ^ (32 * length r') * of_bool c
      - int (dval r') - of_bool c0" using lo(2) by linarith
  moreover have "int (dval ld) = int (dval (drop (length r') l'))
      + 2 ^ (32 * (length l' - length r')) * of_bool c' - of_bool c" using ll(2) by linarith
  moreover have "(2 :: int) ^ (32 * length r') * 2 ^ (32 * (length l' - length r')) = 2 ^ (32 * length l')"
    using t'(1) by (simp flip: power_add)
  ultimately have "int (dval (ov @ ld))
      = int (dval l') - int (dval r') - of_bool c0 + 2 ^ (32 * length l') * of_bool c'"
    by (simp only: distrib_left right_diff_distrib mult.assoc [symmetric])
  then have D0: "int (dval dest) = int (dval t) + 2 ^ (32 * length t)
      * (int (dval l') - int (dval r') - of_bool c0 + 2 ^ (32 * length l') * of_bool c')"
    by (simp add: dest_def dval_append)
  then have D: "int (dval dest) * 2 ^ (32 * min le re) = int (dval l) * 2 ^ (32 * le) - int (dval r) * 2 ^ (32 * re)
      + 2 ^ (32 * length dest) * of_bool c' * 2 ^ (32 * min le re)"
  proof -
    let ?X = "int (dval l') - int (dval r') - of_bool c0"
    have ld: "length dest = length t + length l'" using len t'(2) by simp
    have "int (dval dest) * 2 ^ (32 * min le re)
        = (int (dval t) * 2 ^ (32 * min le re) + ?X * 2 ^ (32 * (min le re + length t)))
          + 2 ^ (32 * length dest) * of_bool c' * 2 ^ (32 * min le re)"
      unfolding D0 ld by (simp add: power_add algebra_simps)
    then show ?thesis unfolding t'(3) .
  qed
  have "\<not> c'"
  proof
    assume c'
    have "int (dval r) * 2 ^ (32 * re) < int (dval l) * 2 ^ (32 * le)"
      using less by (rule int_less_pow)
    then have "2 ^ (32 * length dest) * 2 ^ (32 * min le re) < int (dval dest) * 2 ^ (32 * min le re)"
      using D \<open>c'\<close> by simp
    then have "int (2 ^ (32 * length dest)) < int (dval dest)" by simp
    then show False using dval_bound [of dest] unfolding of_nat_less_iff by simp
  qed
  then show "int (dval dest) * 2 ^ (32 * min le re) = int (dval l) * 2 ^ (32 * le) - int (dval r) * 2 ^ (32 * re)"
    using D by simp
qed


lemma sub_store_delivers:
  fixes neg :: bool
  assumes inv: "bigint_inv result" and ord: "re + length r \<le> le + length l" and l: "l \<noteq> []"
    and low: "re < le \<longrightarrow> r \<noteq> [] \<and> hd r \<noteq> 0" and e: "min le re < 2 ^ 16"
    and less: "dval r * 2 ^ (32 * re) < dval l * 2 ^ (32 * le)"
  shows "delivers result
    (case reserve_bigint mm result (length l + (if int le - int re > 0 then nat (int le - int re) else 0)) of
       (Inl err, result) \<Rightarrow> (Inl err, result)
     | (Inr _, result) \<Rightarrow>
         let (trail, ldigits, rdigits, carry) = sub_trail (int le - int re) l r;
             (overlap, carry) = sub_overlap carry (take (length rdigits) ldigits) rdigits;
             (lead, carry) = sub_lead carry (drop (length rdigits) ldigits);
             dest = trail @ overlap @ lead;
             sz = length l + (if int le - int re > 0 then nat (int le - int re) else 0)
               - fst (skip_zeros (rev dest))
         in (Inr (), result\<lparr>
               sign_and_used_digits := cast_int16 (if neg then - int sz else int sz),
               exponent := cast_uint16 (if le < re then le else re),
               digits := blit 0 dest (digits result)\<rparr>))
    ((if neg then -1 else 1) * (int (dval l * 2 ^ (32 * le)) - int (dval r * 2 ^ (32 * re))))"
proof -
  have d: "(if int le - int re > 0 then nat (int le - int re) else 0) = le - re" by auto
  have m: "(if le < re then le else re) = min le re" by simp
  obtain t l' r' c0 where t: "sub_trail (int le - int re) l r = (t, l', r', c0)" by (metis prod_cases4)
  obtain ov c where o: "sub_overlap c0 (take (length r') l') r' = (ov, c)" by fastforce
  obtain ld c' where h: "sub_lead c (drop (length r') l') = (ld, c')" by fastforce
  define dest where "dest = t @ ov @ ld"
  note A = sub_digits [OF t ord low o h less, folded dest_def]
  obtain k z where k: "skip_zeros (rev dest) = (k, z)" by fastforce
  define sz where "sz = length l + (le - re) - k"
  have dest: "dest = rev z @ replicate k 0" "z \<noteq> [] \<Longrightarrow> hd z \<noteq> 0"
    using skip_zeros_split [OF k] by (simp_all add: rev_swap)
  have "length dest = length z + k" by (simp add: dest(1))
  then have sz: "sz = length z" using A(1) by (simp add: sz_def)
  have tk: "take sz dest = rev z" by (simp add: dest(1) sz)
  have "int (dval r) * 2 ^ (32 * re) < int (dval l) * 2 ^ (32 * le)"
    using less by (rule int_less_pow)
  then have "dval dest \<noteq> 0" using A(2) by (intro notI) simp
  then have zne: "z \<noteq> []" by (intro notI) (simp add: dest(1))
  have top: "dest ! (sz - 1) \<noteq> 0"
    using dest(2) zne by (cases z) (auto simp: dest(1) sz nth_append)
  show ?thesis
    unfolding d m
  proof (rule reserve_bigint_cases [OF inv, of mm "length l + (le - re)"], goal_cases)
    case (1 err)
    then show ?case by simp
  next
    case (2 big')
    define res where "res = big'\<lparr>sign_and_used_digits := cast_int16 (if neg then - int sz else int sz),
      exponent := cast_uint16 (min le re), digits := blit 0 dest (digits big')\<rparr>"
    have "sz \<le> length dest" "sz < 2 ^ 15" using 2(4) A(1) by (simp_all add: sz_def)
    moreover have "sz \<noteq> 0" using zne by (simp add: sz)
    ultimately have szb: "sz \<le> length dest" "sz \<noteq> 0" "sz < 2 ^ 15" by simp_all
    have ld: "length dest \<le> length (digits big')" unfolding A(1) by (rule 2(2))
    have z: "sz = 0 \<Longrightarrow> min le re = 0" using szb(2) by blast
    note R = set_result [where neg = neg, OF ld szb(1,3) e top z 2(3) 2(5), folded res_def]
    have "int (dval (take sz dest) * 2 ^ (32 * min le re))
        = int (dval l * 2 ^ (32 * le)) - int (dval r * 2 ^ (32 * re))"
      using A(2) unfolding tk by (simp add: dest(1) dval_append)
    then have v: "bval res = (if neg then -1 else 1) * (int (dval l * 2 ^ (32 * le)) - int (dval r * 2 ^ (32 * re)))"
      using R(2) by simp
    show ?case
      unfolding 2(1) sum.case prod.case t o h Let_def dest_def [symmetric] k fst_conv
        sz_def [symmetric] res_def [symmetric]
      using R(1) v by simp
  qed
qed

text \<open>The digits that \<open>sub_biginthelper\<close> compares when both numbers have the same order.\<close>

lemma strip_equal_digits:
  assumes s: "strip_equal (rev l) (rev r) = (lt, rt)" and ord: "le + length l = re + length r"
    and hd: "hd l \<noteq> 0" "hd r \<noteq> 0" and lr: "lt \<noteq> [] \<or> rt \<noteq> []"
  shows "int (dval l * 2 ^ (32 * le)) - int (dval r * 2 ^ (32 * re))
      = int (dval (rev lt) * 2 ^ (32 * le)) - int (dval (rev rt) * 2 ^ (32 * re))"
    and "le + length (rev lt) = re + length (rev rt)"
    and "rev lt \<noteq> [] \<Longrightarrow> hd (rev lt) \<noteq> 0" and "rev rt \<noteq> [] \<Longrightarrow> hd (rev rt) \<noteq> 0"
    and "(if lt \<noteq> [] \<and> rt \<noteq> [] then hd lt < hd rt else rt \<noteq> []) \<longleftrightarrow>
      dval (rev lt) * 2 ^ (32 * le) < dval (rev rt) * 2 ^ (32 * re)"
    and "\<not> (if lt \<noteq> [] \<and> rt \<noteq> [] then hd lt < hd rt else rt \<noteq> []) \<Longrightarrow>
      dval (rev rt) * 2 ^ (32 * re) < dval (rev lt) * 2 ^ (32 * le)"
proof -
  obtain p where p: "rev l = p @ lt" "rev r = p @ rt"
    and ne: "lt \<noteq> [] \<Longrightarrow> rt \<noteq> [] \<Longrightarrow> hd lt \<noteq> hd rt"
    using strip_equal_spec [OF s] by blast
  have lr': "l = rev lt @ rev p" "r = rev rt @ rev p" using p by (metis rev_append rev_rev_ident)+
  show o: "le + length (rev lt) = re + length (rev rt)" using ord by (simp add: lr')
  have o': "le + length lt = re + length rt" "re + length rt = le + length lt" using o by simp_all
  have pw: "(2::nat) ^ (32 * length lt) * 2 ^ (32 * le) = 2 ^ (32 * length rt) * 2 ^ (32 * re)"
  proof -
    have "32 * length lt + 32 * le = 32 * length rt + 32 * re" using o'(1) by simp
    then show ?thesis by (simp only: power_add [symmetric])
  qed
  have "dval l * 2 ^ (32 * le) = dval (rev lt) * 2 ^ (32 * le) + dval (rev p) * (2 ^ (32 * length lt) * 2 ^ (32 * le))"
    "dval r * 2 ^ (32 * re) = dval (rev rt) * 2 ^ (32 * re) + dval (rev p) * (2 ^ (32 * length rt) * 2 ^ (32 * re))"
    by (simp_all add: lr' dval_append algebra_simps)
  then show "int (dval l * 2 ^ (32 * le)) - int (dval r * 2 ^ (32 * re))
      = int (dval (rev lt) * 2 ^ (32 * le)) - int (dval (rev rt) * 2 ^ (32 * re))"
    unfolding pw by simp
  show h: "rev lt \<noteq> [] \<Longrightarrow> hd (rev lt) \<noteq> 0" "rev rt \<noteq> [] \<Longrightarrow> hd (rev rt) \<noteq> 0"
    using hd by (simp_all add: lr')
  have pos: "0 < dval ds * 2 ^ (32 * k)" if "ds \<noteq> []" "hd ds \<noteq> 0" for ds k
    using that dval_0_iff [of ds] hd_in_set [OF that(1)] by auto
  have tri: "dval (rev lt) * 2 ^ (32 * le) < dval (rev rt) * 2 ^ (32 * re)"
    if "if lt \<noteq> [] \<and> rt \<noteq> [] then hd lt < hd rt else rt \<noteq> []"
  proof (cases "lt = []")
    case True
    then show ?thesis using that pos [OF _ h(2), of re] by simp
  next
    case False
    then show ?thesis using that o' by (intro dval_top_less) (auto split: if_splits)
  qed
  show ge: "dval (rev rt) * 2 ^ (32 * re) < dval (rev lt) * 2 ^ (32 * le)"
    if n: "\<not> (if lt \<noteq> [] \<and> rt \<noteq> [] then hd lt < hd rt else rt \<noteq> [])"
  proof (cases "rt = []")
    case True
    then show ?thesis using lr pos [OF _ h(1), of le] by simp
  next
    case False
    then have "lt \<noteq> []" "\<not> hd lt < hd rt" using n by (auto split: if_splits)
    then have "hd rt < hd lt" "lt \<noteq> []" using ne False by auto
    then show ?thesis using False o' by (intro dval_top_less) auto
  qed
  show "(if lt \<noteq> [] \<and> rt \<noteq> [] then hd lt < hd rt else rt \<noteq> []) \<longleftrightarrow>
      dval (rev lt) * 2 ^ (32 * le) < dval (rev rt) * 2 ^ (32 * re)"
    using tri ge by (meson less_asym)
qed


lemma sub_biginthelper_delivers:
  assumes inv: "bigint_inv result" "bigint_inv l" "bigint_inv r"
    and alloc: "1 \<le> length (digits result)"
    and sg: "sign_and_used_digits l = 0 \<Longrightarrow> \<not> isnegative_bigint l"
  shows "delivers result (sub_biginthelper mm result l r)
    ((if isnegative_bigint l then -1 else 1) * (int (bmag l) - int (bmag r)))"
proof -
  obtain lk ld where lo: "skip_zeros (take (nrdigits_bigint l) (digits l)) = (lk, ld)" by fastforce
  obtain rk rd where ro: "skip_zeros (take (nrdigits_bigint r) (digits r)) = (rk, rd)" by fastforce
  let ?le = "exponent l + lk" and ?re = "exponent r + rk"
  note L = operand [OF inv(2) lo] and R = operand [OF inv(3) ro]
  note defs = sub_biginthelper_def lo ro Let_def prod.case exponent_bigint_def
  show ?thesis
  proof (cases "?le > 0xffff \<and> ?re > 0xffff")
    case True
    then show ?thesis unfolding defs by simp
  next
    case e: False
    show ?thesis
    proof (cases "rd = []")
      case True
      then have "(if isnegative_bigint l then -1 else 1) * (int (bmag l) - int (bmag r)) = bval l"
        using R(3) bval_sign [OF inv(2)] by simp
      then show ?thesis
        unfolding defs using e True copy_bigint_delivers [OF inv(1,2), of mm] by simp
    next
      case rd: False
      show ?thesis
      proof (cases "ld = []")
        case True
        then have "bmag l = 0" using L(3) by simp
        then have v: "(if isnegative_bigint l then -1 else 1) * (int (bmag l) - int (bmag r)) = - \<bar>bval r\<bar>"
          using sg bmag_0_iff [OF inv(2)] by (simp add: abs_bval)
        obtain res big where c: "copy_bigint mm result r = (res, big)" by fastforce
        have "delivers result (res, big) (bval r)"
          using copy_bigint_delivers [OF inv(1,3), of mm] unfolding c .
        then show ?thesis
          unfolding v unfolding defs c using e rd True setnegative_bigint_val [of big]
          by (cases res) auto
      next
        case ld: False
        have E: "min ?le ?re < 2 ^ 16" "min ?re ?le < 2 ^ 16" using e by auto
        note top = L(2) [OF ld] R(2) [OF rd]
        note conds = if_not_P [OF e] if_not_P [OF rd] if_not_P [OF ld]
        note store = sub_store_delivers [OF inv(1), unfolded Let_def prod.case]
        note unf = sub_biginthelper_def lo ro Let_def prod.case exponent_bigint_def conds
        have w: "(if isnegative_bigint l then -1 else 1) * (int (bmag l) - int (bmag r))
          = (if \<not> isnegative_bigint l then -1 else 1) * (int (bmag r) - int (bmag l))" by simp
        show ?thesis
        proof (cases "?le + length ld = ?re + length rd")
          case ord: False
          have ne: "\<not> (rev ld = [] \<and> rev rd = [])" using ld by simp
          note unf' = unf if_not_P [OF ord] if_not_P [OF ne] rev_rev_ident
          show ?thesis
          proof (cases "?le + length ld < ?re + length rd")
            case True
            then have o: "?le + length ld \<le> ?re + length rd" by simp
            have low: "?le < ?re \<longrightarrow> ld \<noteq> [] \<and> hd ld \<noteq> 0" using top ld by simp
            show ?thesis
              unfolding w unfolding L(1) R(1) unf' if_P [OF True]
              by (rule store [OF o rd low E(2) dval_order_less [OF True rd conjunct2 [OF top(2)]]])
          next
            case False
            then have o: "?re + length rd \<le> ?le + length ld"
              and lt: "?re + length rd < ?le + length ld" using ord by simp_all
            have low: "?re < ?le \<longrightarrow> rd \<noteq> [] \<and> hd rd \<noteq> 0" using top rd by simp
            show ?thesis
              unfolding L(1) R(1) unf' if_not_P [OF False]
              by (rule store [OF o ld low E(1) dval_order_less [OF lt ld conjunct2 [OF top(1)]]])
          qed
        next
          case ord: True
          obtain lt rt where s: "strip_equal (rev ld) (rev rd) = (lt, rt)" by fastforce
          note unf' = unf if_P [OF ord] s
          note D = strip_equal_digits [OF s ord conjunct1 [OF top(1)] conjunct1 [OF top(2)]]
          show ?thesis
          proof (cases "lt = [] \<and> rt = []")
            case True
            then have "rev ld = rev rd" using strip_equal_spec [OF s] by auto
            then have "ld = rd" "?le = ?re" using ord by simp_all
            then have v: "(if isnegative_bigint l then -1 else 1) * (int (bmag l) - int (bmag r)) = 0"
              unfolding L(1) R(1) by simp
            show ?thesis
              unfolding v unf' if_P [OF True] using setPu32_bigint_val [OF inv(1) alloc, of 0] by simp
          next
            case ne: False
            then have ne': "lt \<noteq> [] \<or> rt \<noteq> []" by simp
            note D = D [OF ne'] and unf' = unf' if_not_P [OF ne]
            have v: "int (bmag l) - int (bmag r)
              = int (dval (rev lt) * 2 ^ (32 * ?le)) - int (dval (rev rt) * 2 ^ (32 * ?re))"
              unfolding L(1) R(1) by (rule D(1))
            show ?thesis
            proof (cases "if lt \<noteq> [] \<and> rt \<noteq> [] then hd lt < hd rt else rt \<noteq> []")
              case True
              have o: "?le + length (rev lt) \<le> ?re + length (rev rt)" using D(2) by simp
              have rne: "rev rt \<noteq> []" using True by (auto split: if_splits)
              have low: "?le < ?re \<longrightarrow> rev lt \<noteq> [] \<and> hd (rev lt) \<noteq> 0"
                using D(2,3) by (cases "lt = []") simp_all
              have v': "int (bmag r) - int (bmag l)
                = int (dval (rev rt) * 2 ^ (32 * ?re)) - int (dval (rev lt) * 2 ^ (32 * ?le))"
                using v by linarith
              show ?thesis
                unfolding w unfolding v' unf' if_P [OF True]
                by (rule store [OF o rne low E(2) iffD1 [OF D(5) True]])
            next
              case False
              have o: "?re + length (rev rt) \<le> ?le + length (rev lt)" using D(2) by simp
              have lne: "rev lt \<noteq> []" using False ne' by (auto split: if_splits)
              have low: "?re < ?le \<longrightarrow> rev rt \<noteq> [] \<and> hd (rev rt) \<noteq> 0"
                using D(2,4) by (cases "rt = []") simp_all
              show ?thesis
                unfolding v unf' if_not_P [OF False]
                by (rule store [OF o lne low E(1) D(6) [OF False]])
            qed
          qed
        qed
      qed
    qed
  qed
qed


section \<open>Sums and differences\<close>

lemma add_bigint_delivers:
  assumes "bigint_inv result" and "bigint_inv lbig" and "bigint_inv rbig" and "1 \<le> length (digits result)"
  shows "delivers result (add_bigint mm result lbig rbig) (bval lbig + bval rbig)"
proof (cases "isnegative_bigint lbig = isnegative_bigint rbig")
  case True
  have "bval lbig + bval rbig = (if isnegative_bigint lbig then -1 else 1) * (int (bmag lbig) + int (bmag rbig))"
    using True bval_sign [OF assms(2)] bval_sign [OF assms(3)] by simp
  then show ?thesis
    unfolding add_bigint_def if_P [OF True]
    by (simp only:) (rule add_biginthelper_delivers [OF assms(1-3)], simp add: isnegative_bigint_def)
next
  case False
  have "bval lbig + bval rbig = (if isnegative_bigint lbig then -1 else 1) * (int (bmag lbig) - int (bmag rbig))"
    using False bval_sign [OF assms(2)] bval_sign [OF assms(3)] by simp
  then show ?thesis
    unfolding add_bigint_def if_not_P [OF False]
    by (simp only:) (rule sub_biginthelper_delivers [OF assms(1-4)], simp add: isnegative_bigint_def)
qed

text \<open>C30: \<open>add_bigint\<close> writes the sum of its operands to the result, for every state of the result
  that satisfies the invariant, whatever the signs and exponents; when the memory manager
  refuses or the number is too big it returns an error and leaves the result as it was.
\<close>

theorem add_bigint_adds:
  assumes "bigint_inv result" and "bigint_inv lbig" and "bigint_inv rbig" and "1 \<le> length (digits result)"
  shows "delivers result (add_bigint mm result lbig rbig) (bval lbig + bval rbig)"
  by (rule add_bigint_delivers [OF assms])

lemma sub_bigint_delivers:
  assumes "bigint_inv result" and "bigint_inv lbig" and "bigint_inv rbig" and "1 \<le> length (digits result)"
  shows "delivers result (sub_bigint mm result lbig rbig) (bval lbig - bval rbig)"
proof (cases "isnegative_bigint lbig = isnegative_bigint rbig")
  case True
  have "bval lbig - bval rbig = (if isnegative_bigint lbig then -1 else 1) * (int (bmag lbig) - int (bmag rbig))"
    using True bval_sign [OF assms(2)] bval_sign [OF assms(3)] by simp
  then show ?thesis
    unfolding sub_bigint_def if_P [OF True]
    by (simp only:) (rule sub_biginthelper_delivers [OF assms(1-4)], simp add: isnegative_bigint_def)
next
  case False
  have "bval lbig - bval rbig = (if isnegative_bigint lbig then -1 else 1) * (int (bmag lbig) + int (bmag rbig))"
    using False bval_sign [OF assms(2)] bval_sign [OF assms(3)] by simp
  then show ?thesis
    unfolding sub_bigint_def if_not_P [OF False]
    by (simp only:) (rule add_biginthelper_delivers [OF assms(1-3)], simp add: isnegative_bigint_def)
qed

text \<open>C31: \<open>sub_bigint\<close> writes the difference of its operands.\<close>

theorem sub_bigint_subtracts:
  assumes "bigint_inv result" and "bigint_inv lbig" and "bigint_inv rbig" and "1 \<le> length (digits result)"
  shows "delivers result (sub_bigint mm result lbig rbig) (bval lbig - bval rbig)"
  by (rule sub_bigint_delivers [OF assms])


subsection \<open>Success\<close>

lemma reserve_then:
  assumes "n < 2 ^ 15" and "generous mm" and "allocated_digits big \<noteq> 0"
  shows "fst (case reserve_bigint mm big n of (Inl err, b) \<Rightarrow> (Inl err, b) | (Inr u, b) \<Rightarrow> (Inr (), f b)) = Inr ()"
  using reserve_bigint_succeeds [OF assms] by (cases "reserve_bigint mm big n") auto

lemma reserve_bigint_Inr:
  "n < 2 ^ 15 \<Longrightarrow> generous mm \<Longrightarrow> allocated_digits big \<noteq> 0 \<Longrightarrow> \<exists>b. reserve_bigint mm big n = (Inr (), b)"
  using reserve_bigint_succeeds [of n mm big] by (cases "reserve_bigint mm big n") auto

lemma copy_bigint_succeeds:
  assumes "bigint_inv from" and "generous mm" and "allocated_digits big \<noteq> 0"
  shows "fst (copy_bigint mm big from) = Inr ()"
  unfolding copy_bigint_def Let_def
  by (rule reserve_then [OF _ assms(2,3)]) (use assms(1) in \<open>simp add: bigint_inv_def\<close>)

lemma order_of_operand:
  assumes "bigint_inv b" and "skip_zeros (take (nrdigits_bigint b) (digits b)) = (k, ds)"
  shows "exponent b + k + length ds = size_bigint b"
proof -
  have "length (take (nrdigits_bigint b) (digits b)) = nrdigits_bigint b"
    using assms(1) by (simp add: bigint_inv_def)
  then show ?thesis
    using skip_zeros_split [OF assms(2)] by (simp add: size_bigint_def exponent_bigint_def)
qed

lemma add_biginthelper_succeeds:
  assumes inv: "bigint_inv l" "bigint_inv r" and mm: "generous mm" "allocated_digits result \<noteq> 0"
    and sz: "size_bigint l < 2 ^ 15 - 1" "size_bigint r < 2 ^ 15 - 1"
  shows "fst (add_biginthelper mm result l r) = Inr ()"
proof -
  obtain lk ld where lo: "skip_zeros (take (nrdigits_bigint l) (digits l)) = (lk, ld)" by fastforce
  obtain rk rd where ro: "skip_zeros (take (nrdigits_bigint r) (digits r)) = (rk, rd)" by fastforce
  let ?le = "exponent l + lk" and ?re = "exponent r + rk"
  have o: "?le + length ld < 2 ^ 15 - 1" "?re + length rd < 2 ^ 15 - 1"
    using order_of_operand [OF inv(1) lo] order_of_operand [OF inv(2) ro] sz by simp_all
  then have e: "\<not> (?le > 0xffff \<and> ?re > 0xffff)" by simp
  note copies = copy_bigint_succeeds [OF inv(1) mm] copy_bigint_succeeds [OF inv(2) mm]
  note unf = add_biginthelper_def lo ro Let_def prod.case exponent_bigint_def if_not_P [OF e]
  consider "rd = []" | "rd \<noteq> []" "ld = []" | "rd \<noteq> []" "ld \<noteq> []" by blast
  then show ?thesis
  proof cases
    case 1
    then show ?thesis unfolding unf using copies by simp
  next
    case 2
    then show ?thesis unfolding unf using copies by (auto split: prod.splits sum.splits)
  next
    case 3
    have "length rd + 1 + (if int ?re - int ?le > 0 then nat (int ?re - int ?le) else 0) < 2 ^ 15"
      "length ld + 1 + (if int ?le - int ?re > 0 then nat (int ?le - int ?re) else 0) < 2 ^ 15"
      using o by auto
    then obtain b1 b2 where
      res: "reserve_bigint mm result (length rd + 1 + (if int ?re - int ?le > 0 then nat (int ?re - int ?le) else 0)) = (Inr (), b1)"
        "reserve_bigint mm result (length ld + 1 + (if int ?le - int ?re > 0 then nat (int ?le - int ?re) else 0)) = (Inr (), b2)"
      using reserve_bigint_Inr [OF _ mm] by meson
    note unf' = unf if_not_P [OF 3(1)] if_not_P [OF 3(2)]
    show ?thesis
    proof (cases "?le + length ld < ?re + length rd")
      case True
      show ?thesis unfolding unf' if_P [OF True] prod.case res sum.case by (simp add: split_beta)
    next
      case False
      show ?thesis unfolding unf' if_not_P [OF False] prod.case res sum.case by (simp add: split_beta)
    qed
  qed
qed

lemma sub_biginthelper_succeeds:
  assumes inv: "bigint_inv l" "bigint_inv r" and mm: "generous mm" "allocated_digits result \<noteq> 0"
    and sz: "size_bigint l < 2 ^ 15 - 1" "size_bigint r < 2 ^ 15 - 1"
  shows "fst (sub_biginthelper mm result l r) = Inr ()"
proof -
  obtain lk ld where lo: "skip_zeros (take (nrdigits_bigint l) (digits l)) = (lk, ld)" by fastforce
  obtain rk rd where ro: "skip_zeros (take (nrdigits_bigint r) (digits r)) = (rk, rd)" by fastforce
  let ?le = "exponent l + lk" and ?re = "exponent r + rk"
  have o: "?le + length ld < 2 ^ 15 - 1" "?re + length rd < 2 ^ 15 - 1"
    using order_of_operand [OF inv(1) lo] order_of_operand [OF inv(2) ro] sz by simp_all
  then have e: "\<not> (?le > 0xffff \<and> ?re > 0xffff)" by simp
  note copies = copy_bigint_succeeds [OF inv(1) mm] copy_bigint_succeeds [OF inv(2) mm]
  note unf = sub_biginthelper_def lo ro Let_def prod.case exponent_bigint_def if_not_P [OF e]
  consider "rd = []" | "rd \<noteq> []" "ld = []" | "rd \<noteq> []" "ld \<noteq> []" by blast
  then show ?thesis
  proof cases
    case 1
    then show ?thesis unfolding unf using copies by simp
  next
    case 2
    then show ?thesis unfolding unf using copies by (auto split: prod.splits sum.splits)
  next
    case 3
    obtain lt rt where t: "(if ?le + length ld = ?re + length rd then strip_equal (rev ld) (rev rd)
        else (rev ld, rev rd)) = (lt, rt)" by fastforce
    have "length lt \<le> length ld \<and> length rt \<le> length rd"
    proof (cases "?le + length ld = ?re + length rd")
      case True
      then obtain p where "rev ld = p @ lt" "rev rd = p @ rt"
        using t strip_equal_spec [of "rev ld" "rev rd" lt rt] by auto
      then have "length (rev ld) = length p + length lt" "length (rev rd) = length p + length rt" by simp_all
      then show ?thesis by simp
    qed (use t in auto)
    then have "length (rev rt) + (if int ?re - int ?le > 0 then nat (int ?re - int ?le) else 0) < 2 ^ 15"
      "length (rev lt) + (if int ?le - int ?re > 0 then nat (int ?le - int ?re) else 0) < 2 ^ 15"
      using o by auto
    then obtain b1 b2 where
      res: "reserve_bigint mm result (length (rev rt) + (if int ?re - int ?le > 0 then nat (int ?re - int ?le) else 0)) = (Inr (), b1)"
        "reserve_bigint mm result (length (rev lt) + (if int ?le - int ?re > 0 then nat (int ?le - int ?re) else 0)) = (Inr (), b2)"
      using reserve_bigint_Inr [OF _ mm] by meson
    note unf' = unf if_not_P [OF 3(1)] if_not_P [OF 3(2)] t
    show ?thesis
    proof (cases "if ?le + length ld = ?re + length rd
            then if lt \<noteq> [] \<and> rt \<noteq> [] then hd lt < hd rt else rt \<noteq> []
            else ?le + length ld < ?re + length rd")
      case True
      show ?thesis unfolding unf' if_P [OF True] prod.case res sum.case by (simp add: split_beta)
    next
      case False
      show ?thesis unfolding unf' if_not_P [OF False] prod.case res sum.case by (simp add: split_beta)
    qed
  qed
qed

text \<open>With memory at hand and a resizable result, sums and differences of numbers of fewer than
  \<open>2 ^ 15 - 1\<close> digits (exponent included) are always computed.
\<close>

theorem sums_and_differences_succeed:
  assumes "bigint_inv lbig" and "bigint_inv rbig" and "generous mm" and "allocated_digits result \<noteq> 0"
    and "size_bigint lbig < 2 ^ 15 - 1" and "size_bigint rbig < 2 ^ 15 - 1"
  shows "fst (add_bigint mm result lbig rbig) = Inr () \<and> fst (sub_bigint mm result lbig rbig) = Inr ()"
  using add_biginthelper_succeeds [OF assms] sub_biginthelper_succeeds [OF assms]
  by (simp add: add_bigint_def sub_bigint_def)


lemma add_bigint_adds_witness:
  "delivers \<lparr>allocated_digits = 4, sign_and_used_digits = 0, exponent = 0, digits = [7, 7, 7, 7]\<rparr>
     (add_bigint \<lparr>mm_refuses = \<lambda>_. None, mm_moves = \<lambda>_. True, mm_fill = \<lambda>_. 3\<rparr>
        \<lparr>allocated_digits = 4, sign_and_used_digits = 0, exponent = 0, digits = [7, 7, 7, 7]\<rparr>
        \<lparr>allocated_digits = 4, sign_and_used_digits = -2, exponent = 1, digits = [0xffffffff, 0xffffffff, 0, 0]\<rparr>
        \<lparr>allocated_digits = 0, sign_and_used_digits = -1, exponent = 1, digits = [1]\<rparr>)
     (- (2 ^ 64 * 2 ^ 32))"
proof -
  let ?b = "\<lparr>allocated_digits = 4, sign_and_used_digits = 0, exponent = 0, digits = [7, 7, 7, 7]\<rparr> :: bigint_t"
  let ?l = "\<lparr>allocated_digits = 4, sign_and_used_digits = -2, exponent = 1, digits = [0xffffffff, 0xffffffff, 0, 0]\<rparr> :: bigint_t"
  let ?r = "\<lparr>allocated_digits = 0, sign_and_used_digits = -1, exponent = 1, digits = [1]\<rparr> :: bigint_t"
  have inv: "bigint_inv ?b" "bigint_inv ?l" "bigint_inv ?r" by (simp_all add: bigint_inv_def nrdigits_bigint_def)
  have v: "bval ?l + bval ?r = - (2 ^ 64 * 2 ^ 32)"
    by (simp add: bval_def bmag_def used_digits_def nrdigits_bigint_def)
  have "1 \<le> length (digits ?b)" by simp
  from add_bigint_adds [OF inv this] show ?thesis unfolding v .
qed

lemma sub_bigint_subtracts_witness:
  "delivers \<lparr>allocated_digits = 4, sign_and_used_digits = 0, exponent = 0, digits = [7, 7, 7, 7]\<rparr>
     (sub_bigint \<lparr>mm_refuses = \<lambda>_. None, mm_moves = \<lambda>_. True, mm_fill = \<lambda>_. 3\<rparr>
        \<lparr>allocated_digits = 4, sign_and_used_digits = 0, exponent = 0, digits = [7, 7, 7, 7]\<rparr>
        \<lparr>allocated_digits = 0, sign_and_used_digits = 1, exponent = 2, digits = [1]\<rparr>
        \<lparr>allocated_digits = 0, sign_and_used_digits = 1, exponent = 0, digits = [1]\<rparr>)
     (2 ^ 64 - 1)"
proof -
  let ?b = "\<lparr>allocated_digits = 4, sign_and_used_digits = 0, exponent = 0, digits = [7, 7, 7, 7]\<rparr> :: bigint_t"
  let ?l = "\<lparr>allocated_digits = 0, sign_and_used_digits = 1, exponent = 2, digits = [1]\<rparr> :: bigint_t"
  let ?r = "\<lparr>allocated_digits = 0, sign_and_used_digits = 1, exponent = 0, digits = [1]\<rparr> :: bigint_t"
  have inv: "bigint_inv ?b" "bigint_inv ?l" "bigint_inv ?r" by (simp_all add: bigint_inv_def nrdigits_bigint_def)
  have v: "bval ?l - bval ?r = 2 ^ 64 - 1"
    by (simp add: bval_def bmag_def used_digits_def nrdigits_bigint_def)
  have "1 \<le> length (digits ?b)" by simp
  from sub_bigint_subtracts [OF inv this] show ?thesis unfolding v .
qed

lemma sums_and_differences_succeed_witness:
  "fst (add_bigint \<lparr>mm_refuses = \<lambda>_. None, mm_moves = \<lambda>_. True, mm_fill = \<lambda>_. 3\<rparr>
        \<lparr>allocated_digits = 4, sign_and_used_digits = 0, exponent = 0, digits = [7, 7, 7, 7]\<rparr>
        \<lparr>allocated_digits = 0, sign_and_used_digits = 1, exponent = 9, digits = [1]\<rparr>
        \<lparr>allocated_digits = 0, sign_and_used_digits = -1, exponent = 0, digits = [1]\<rparr>) = Inr ()"
proof -
  let ?mm = "\<lparr>mm_refuses = \<lambda>_. None, mm_moves = \<lambda>_. True, mm_fill = \<lambda>_. 3\<rparr> :: mm_t"
  let ?b = "\<lparr>allocated_digits = 4, sign_and_used_digits = 0, exponent = 0, digits = [7, 7, 7, 7]\<rparr> :: bigint_t"
  let ?l = "\<lparr>allocated_digits = 0, sign_and_used_digits = 1, exponent = 9, digits = [1]\<rparr> :: bigint_t"
  let ?r = "\<lparr>allocated_digits = 0, sign_and_used_digits = -1, exponent = 0, digits = [1]\<rparr> :: bigint_t"
  have inv: "bigint_inv ?l" "bigint_inv ?r" by (simp_all add: bigint_inv_def nrdigits_bigint_def)
  have "generous ?mm" "allocated_digits ?b \<noteq> 0" "size_bigint ?l < 2 ^ 15 - 1" "size_bigint ?r < 2 ^ 15 - 1"
    by (simp_all add: generous_def size_bigint_def exponent_bigint_def nrdigits_bigint_def)
  from sums_and_differences_succeed [OF inv this] show ?thesis by blast
qed

end
