(* ===== verification/Big_Mul.thy ===== *)
theory Big_Mul
  imports Big_AddSub
begin

text \<open>
  Multiplication of C-kern/math/int/bigint.c: by a digit, by the schoolbook algorithm, and by
  splitting the operands (Karatsuba) when the shorter one has more than 48 digits.
\<close>

section \<open>Definitions\<close>

text \<open>Casts of an \<open>int16_t\<close> to the unsigned types.\<close>

definition uint16_of_int :: "int \<Rightarrow> nat" where
  "uint16_of_int i = nat (i mod 2 ^ 16)"

definition uint32_of_int :: "int \<Rightarrow> nat" where
  "uint32_of_int i = nat (i mod 2 ^ 32)"

text \<open>
  The inner loops: a row of products with a carry, and a row that is added to the digits in place.
\<close>

primrec mul_row :: "u32 \<Rightarrow> u32 \<Rightarrow> u32 list \<Rightarrow> u32 list \<times> u32" where
  "mul_row factor carry [] = ([], carry)"
| "mul_row factor carry (l # ls) =
     (let product = (ucast l * ucast factor + ucast carry :: u64);
          (out, carry') = mul_row factor (ucast (drop_bit 32 product)) ls
      in (ucast product # out, carry'))"

fun muladd_row :: "u32 \<Rightarrow> u32 \<Rightarrow> u32 list \<Rightarrow> u32 list \<Rightarrow> u32 list \<times> u32" where
  "muladd_row factor carry (l # ls) (d # ds) =
     (let product = (ucast l * ucast factor + ucast d + ucast carry :: u64);
          (out, carry') = muladd_row factor (ucast (drop_bit 32 product)) ls ds
      in (ucast product # out, carry'))"
| "muladd_row factor carry _ _ = ([], carry)"

definition multui32_bigint :: "mm_t \<Rightarrow> bigint_t \<Rightarrow> bigint_t \<Rightarrow> u32 \<Rightarrow> unit cres \<times> bigint_t" where
  "multui32_bigint mm result lbig factor =
     (let lnrdigits = nrdigits_bigint lbig;
          sz = 1 + lnrdigits
      in if 0 = lnrdigits \<or> 0 = factor then (Inr (), clear_bigint result)
         else case reserve_bigint mm result sz of
                (Inl err, result) \<Rightarrow> (Inl err, result)
              | (Inr _, big) \<Rightarrow>
                  let (out, carry) = mul_row factor 0 (take lnrdigits (digits lbig));
                      sz = sz - of_bool (0 = carry)
                  in (Inr (), big\<lparr>
                        sign_and_used_digits := cast_int16 (if sign_and_used_digits lbig < 0 then - int sz else int sz),
                        exponent := exponent lbig,
                        digits := blit 0 (out @ [carry]) (digits big)\<rparr>))"

text \<open>
  The outer loop of \<open>mult_biginthelper\<close>: \<open>window\<close> are the digits from the current position of
  \<open>digits\<close> on, one more than \<open>lnrdigits\<close>; the digit it starts with is final.
\<close>

primrec mult_rows :: "u32 list \<Rightarrow> u32 list \<Rightarrow> u32 \<Rightarrow> u32 list \<Rightarrow> u32 list \<times> u32" where
  "mult_rows ldigits window carry [] = (window, carry)"
| "mult_rows ldigits window carry (factor # rs) =
     (let (out, carry) = (if factor \<noteq> 0 then muladd_row factor 0 ldigits (tl window) else (tl window, 0));
          (rest, carry) = mult_rows ldigits (out @ [carry]) carry rs
      in (hd window # rest, carry))"

definition mult_biginthelper :: "bigint_t \<Rightarrow> u32 list \<Rightarrow> u32 list \<Rightarrow> nat \<Rightarrow> bigint_t" where
  "mult_biginthelper big ldigits rdigits expo =
     (let factor = hd rdigits;
          (window, carry) =
            (if 0 = factor then (replicate (1 + length ldigits) 0, 0)
             else (let (out, carry) = mul_row factor 0 ldigits in (out @ [carry], carry)));
          (dest, carry) = mult_rows ldigits window carry (tl rdigits);
          sz = length ldigits + length rdigits - of_bool (0 = carry)
      in big\<lparr>sign_and_used_digits := cast_int16 (int sz), exponent := expo,
             digits := blit 0 dest (digits big)\<rparr>)"

text \<open>
  \<open>addsplit_biginthelper\<close> adds two digit arrays into the digits of \<open>big\<close> from an offset on. Its
  loops are those of \<open>add_biginthelper\<close>.
\<close>

definition addsplit_biginthelper :: "bigint_t \<Rightarrow> nat \<Rightarrow> u32 list \<Rightarrow> u32 list \<Rightarrow> bigint_t" where
  "addsplit_biginthelper big digitsoffset ldigits rdigits =
     (let (ldigits, rdigits) =
            (if length ldigits < length rdigits then (rdigits, ldigits) else (ldigits, rdigits));
          (overlap, carry) = add_overlap False (take (length rdigits) ldigits) rdigits;
          (lead, carry) = add_lead carry (drop (length rdigits) ldigits);
          sz = length ldigits + digitsoffset + of_bool carry
      in big\<lparr>sign_and_used_digits := cast_int16 (int sz),
             digits := blit digitsoffset (overlap @ lead @ (if carry then [1] else [])) (digits big)\<rparr>)"

text \<open>The digits that \<open>(uint16_t) big->sign_and_used_digits, big->digits\<close> passes as an operand.\<close>

definition operand_digits :: "bigint_t \<Rightarrow> u32 list" where
  "operand_digits big = take (uint16_of_int (sign_and_used_digits big)) (digits big)"

text \<open>The low part of an operand without its leading zeros (the loops on \<open>lsplit\<close>, \<open>rsplit\<close>).\<close>

definition split_low :: "nat \<Rightarrow> u32 list \<Rightarrow> u32 list" where
  "split_low split ds = rev (snd (skip_zeros (rev (take split ds))))"

text \<open>The last part of \<open>multsplit_biginthelper\<close>: the products are put together.\<close>

definition multsplit_combine :: "mm_t \<Rightarrow> bigint_t \<Rightarrow> nat \<Rightarrow> nat \<Rightarrow> bigint_t \<Rightarrow> bigint_t \<Rightarrow> bigint_t \<Rightarrow> unit cres \<times> bigint_t" where
  "multsplit_combine mm result split expo t0 t1 t4 =
     (case sub_bigint mm result t4 t0 of
        (Inl err, result) \<Rightarrow> (Inl err, clear_bigint result)
      | (Inr _, result) \<Rightarrow>
      (case sub_bigint mm t4 result t1 of
        (Inl err, t4) \<Rightarrow> (Inl err, clear_bigint result)
      | (Inr _, t4) \<Rightarrow>
      (let t0 = t0\<lparr>exponent := cast_uint16 (exponent t0 + 2 * split)\<rparr>
       in case add_bigint mm result t0 t1 of
        (Inl err, result) \<Rightarrow> (Inl err, clear_bigint result)
      | (Inr _, result) \<Rightarrow>
         let offset = uint16_of_int (int (exponent t4) + int split - int (exponent result));
             lnrdigits = uint16_of_int (sign_and_used_digits result - int offset);
             result = addsplit_biginthelper result offset
               (take lnrdigits (drop offset (digits result))) (operand_digits t4)
         in (Inr (), result\<lparr>exponent := cast_uint16 (exponent result + expo)\<rparr>))))"

lemma uint16_cast_int16: "uint16_of_int (cast_int16 (int n)) = n mod 2 ^ 16"
proof -
  have "cast_int16 (int n) mod 2 ^ 16 = int (n mod 2 ^ 16)"
    by (simp add: cast_int16_def mod_simps zmod_int)
  then show ?thesis by (simp add: uint16_of_int_def)
qed

lemma addsplit_used:
  "\<exists>c. sign_and_used_digits (addsplit_biginthelper big off l r)
    = cast_int16 (int (max (length l) (length r) + off + of_bool c))"
proof (cases "length l < length r")
  case True
  then show ?thesis
    by (simp add: addsplit_biginthelper_def Let_def split_beta max_def del: of_nat_add) blast
next
  case False
  then show ?thesis
    by (simp add: addsplit_biginthelper_def Let_def split_beta max_def del: of_nat_add) blast
qed

lemma length_operand_addsplit:
  "length (operand_digits (addsplit_biginthelper big 0 l r)) \<le> max (length l) (length r) + 1"
proof -
  obtain c where c: "sign_and_used_digits (addsplit_biginthelper big 0 l r)
    = cast_int16 (int (max (length l) (length r) + 0 + of_bool c))"
    using addsplit_used by blast
  have "(max (length l) (length r) + 0 + of_bool c) mod 2 ^ 16 \<le> max (length l) (length r) + 0 + of_bool c"
    by (rule mod_less_eq_dividend)
  also have "\<dots> \<le> max (length l) (length r) + 1" by simp
  finally show ?thesis unfolding operand_digits_def c uint16_cast_int16 by (simp add: min.coboundedI2)
qed

lemma length_split_low: "length (split_low n ds) \<le> n" "length (split_low n ds) \<le> length ds"
proof -
  obtain k z where k: "skip_zeros (rev (take n ds)) = (k, z)" by fastforce
  from skip_zeros_split [OF k] have "length (rev (take n ds)) = k + length z" by simp
  then show "length (split_low n ds) \<le> n" "length (split_low n ds) \<le> length ds"
    by (simp_all add: split_low_def k)
qed

lemma length_skip_zeros: "skip_zeros ds = (k, z) \<Longrightarrow> k + length z = length ds"
  using skip_zeros_split [of ds k z] by simp

lemmas length_skip_zeros' = length_skip_zeros [OF sym]

lemma karatsuba_decreases:
  assumes "s = length l div 2" and "48 < length l" and "length l \<le> length r"
  shows "length (operand_digits (addsplit_biginthelper b2 0 (drop s l) (split_low s l)))
    + length (operand_digits (addsplit_biginthelper b3 0 (drop s r) (split_low s r))) < length l + length r"
proof -
  have s: "24 \<le> s" "2 * s \<le> length l" using assms(1,2) by simp_all
  then have "length (split_low s l) \<le> length l - s" "length (split_low s r) \<le> length r - s"
    using length_split_low(1) [of s l] length_split_low(1) [of s r] assms(3) by linarith+
  then show ?thesis
    using length_operand_addsplit [of b2 "drop s l" "split_low s l"]
      length_operand_addsplit [of b3 "drop s r" "split_low s r"] s assms(3) by simp
qed

function multsplit_biginthelper :: "mm_t \<Rightarrow> bigint_t \<Rightarrow> u32 list \<Rightarrow> u32 list \<Rightarrow> unit cres \<times> bigint_t" where
  "multsplit_biginthelper mm result ldigits rdigits =
     (let (lskip, ldigits) = skip_zeros ldigits;
          (rskip, rdigits) = skip_zeros rdigits;
          expo = lskip + rskip;
          (ldigits, rdigits) =
            (if length ldigits > length rdigits then (rdigits, ldigits) else (ldigits, rdigits))
      in if length ldigits \<le> 48 then (Inr (), mult_biginthelper result ldigits rdigits (cast_uint16 expo))
         else
           let split = length ldigits div 2;
               l0 = drop split ldigits; l1 = split_low split ldigits;
               r0 = drop split rdigits; r1 = split_low split rdigits
           in case allocate_bigint mm None (length l0 + length r0) of
                (Inl err, _) \<Rightarrow> (Inl err, clear_bigint result)
              | (Inr _, t0) \<Rightarrow>
              (case multsplit_biginthelper mm (the t0) l0 r0 of
                (Inl err, _) \<Rightarrow> (Inl err, clear_bigint result)
              | (Inr _, t0) \<Rightarrow>
              (case allocate_bigint mm None (length l1 + length r1) of
                (Inl err, _) \<Rightarrow> (Inl err, clear_bigint result)
              | (Inr _, t1) \<Rightarrow>
              (case multsplit_biginthelper mm (the t1) l1 r1 of
                (Inl err, _) \<Rightarrow> (Inl err, clear_bigint result)
              | (Inr _, t1) \<Rightarrow>
              (case allocate_bigint mm None (length ldigits - split + 1) of
                (Inl err, _) \<Rightarrow> (Inl err, clear_bigint result)
              | (Inr _, t2) \<Rightarrow>
              (case allocate_bigint mm None (length rdigits - split + 1) of
                (Inl err, _) \<Rightarrow> (Inl err, clear_bigint result)
              | (Inr _, t3) \<Rightarrow>
              (let t2 = addsplit_biginthelper (the t2) 0 l0 l1;
                   t3 = addsplit_biginthelper (the t3) 0 r0 r1
               in case allocate_bigint mm None
                    (uint32_of_int (sign_and_used_digits t2) + uint32_of_int (sign_and_used_digits t3)) of
                (Inl err, _) \<Rightarrow> (Inl err, clear_bigint result)
              | (Inr _, t4) \<Rightarrow>
              (case multsplit_biginthelper mm (the t4) (operand_digits t2) (operand_digits t3) of
                (Inl err, _) \<Rightarrow> (Inl err, clear_bigint result)
              | (Inr _, t4) \<Rightarrow> multsplit_combine mm result split expo t0 t1 t4))))))))"
  by pat_completeness auto

termination
proof (relation "measure (\<lambda>(mm, result, l, r). length l + length r)", goal_cases)
  case 1
  show ?case by simp
next
  case (2 mm result l r x lk l' x' rk r' expo x'' l'' r'' split l0 l1 r0 r1)
  then show ?case
    using length_skip_zeros [of l lk l'] length_skip_zeros [of r rk r'] by (auto split: if_splits)
next
  case (3 mm result l r x lk l' x' rk r' expo x'' l'' r'' split l0 l1 r0 r1)
  then show ?case
    using length_skip_zeros [of l lk l'] length_skip_zeros [of r rk r']
      length_split_low [of split l''] length_split_low [of split r''] by (auto split: if_splits)
next
  case 4
  then show ?case
    by (auto split: if_splits dest!: length_skip_zeros' intro!: less_le_trans [OF karatsuba_decreases [OF refl]])
qed


declare multsplit_biginthelper.simps [simp del]

definition xorsign_biginthelper :: "int \<Rightarrow> int \<Rightarrow> int" where
  "xorsign_biginthelper lsign rsign = lsign XOR rsign"

definition mult_bigint :: "mm_t \<Rightarrow> bigint_t \<Rightarrow> bigint_t \<Rightarrow> bigint_t \<Rightarrow> unit cres \<times> bigint_t" where
  "mult_bigint mm result lbig rbig =
     (let xorsign = xorsign_biginthelper (sign_and_used_digits lbig) (sign_and_used_digits rbig);
          (lskip, ldigits) = skip_zeros (take (nrdigits_bigint lbig) (digits lbig));
          (rskip, rdigits) = skip_zeros (take (nrdigits_bigint rbig) (digits rbig));
          expo = exponent lbig + exponent rbig + lskip + rskip
      in if rdigits = [] \<or> ldigits = [] then (Inr (), clear_bigint result)
         else if expo > 0xffff then (Inl EOVERFLOW, result)
         else case reserve_bigint mm result (length ldigits + length rdigits) of
                (Inl err, result) \<Rightarrow> (Inl err, result)
              | (Inr _, result) \<Rightarrow>
              (case multsplit_biginthelper mm result ldigits rdigits of
                (Inl err, result) \<Rightarrow> (Inl err, result)
              | (Inr _, result) \<Rightarrow>
                  (Inr (), result\<lparr>
                     sign_and_used_digits := cast_int16 (if xorsign < 0 then - sign_and_used_digits result
                       else sign_and_used_digits result),
                     exponent := cast_uint16 (exponent result + expo)\<rparr>)))"

section \<open>Rows of products\<close>

lemma product_digit:
  fixes l f d c :: u32
  shows "unat (ucast (ucast l * ucast f + ucast d + ucast c :: u64) :: u32)
    + 2 ^ 32 * unat (ucast (drop_bit 32 (ucast l * ucast f + ucast d + ucast c :: u64)) :: u32)
    = unat l * unat f + unat d + unat c"
proof -
  let ?L = "ucast l :: u64" and ?F = "ucast f :: u64" and ?D = "ucast d :: u64" and ?C = "ucast c :: u64"
  have b: "unat l \<le> 2 ^ 32 - 1" "unat f \<le> 2 ^ 32 - 1" "unat d \<le> 2 ^ 32 - 1" "unat c \<le> 2 ^ 32 - 1"
    using unat_u32_bound [of l] unat_u32_bound [of f] unat_u32_bound [of d] unat_u32_bound [of c]
    by linarith+
  have u: "unat ?L = unat l" "unat ?F = unat f" "unat ?D = unat d" "unat ?C = unat c"
    by (rule unat_ucast_up, simp)+
  have "unat l * unat f \<le> (2 ^ 32 - 1) * (2 ^ 32 - 1)" using b by (intro mult_le_mono)
  then have s: "unat l * unat f + unat d + unat c < 2 ^ 64" using b by simp
  have m: "unat (?L * ?F) = unat l * unat f"
    using s by (subst unat_mult_no_wrap) (simp_all add: u)
  have md: "unat (?L * ?F + ?D) = unat l * unat f + unat d"
    using s by (intro unat_add_eq [OF m u(3)]) simp
  have "unat (?L * ?F + ?D + ?C) = unat l * unat f + unat d + unat c"
    using s by (intro unat_add_eq [OF md u(4)]) simp
  then show ?thesis using unat_halves [of "?L * ?F + ?D + ?C"] by simp
qed

lemma mul_row_val:
  "mul_row f c ls = (out, c') \<Longrightarrow>
   length out = length ls \<and> dval out + 2 ^ (32 * length ls) * unat c' = dval ls * unat f + unat c"
proof (induction ls arbitrary: c out c')
  case (Cons l ls)
  define p where "p = (ucast l * ucast f + ucast c :: u64)"
  obtain o1 c1 where o: "mul_row f (ucast (drop_bit 32 p)) ls = (o1, c1)" by fastforce
  then have r: "out = ucast p # o1" "c' = c1" using Cons.prems by (auto simp: Let_def p_def)
  note ih = Cons.IH [OF o]
  have d: "unat (ucast p :: u32) + 2 ^ 32 * unat (ucast (drop_bit 32 p) :: u32) = unat l * unat f + unat c"
    using product_digit [of l f 0 c] by (simp add: p_def)
  have "dval out + 2 ^ (32 * length (l # ls)) * unat c'
      = unat (ucast p :: u32) + 2 ^ 32 * (dval o1 + 2 ^ (32 * length ls) * unat c1)"
    by (simp add: r power_add algebra_simps)
  also have "\<dots> = (unat (ucast p :: u32) + 2 ^ 32 * unat (ucast (drop_bit 32 p) :: u32)) + 2 ^ 32 * (dval ls * unat f)"
    unfolding conjunct2 [OF ih] by (simp add: algebra_simps)
  finally have "dval out + 2 ^ (32 * length (l # ls)) * unat c' = dval (l # ls) * unat f + unat c"
    unfolding d by (simp add: algebra_simps)
  then show ?case using conjunct1 [OF ih] r(1) by simp
qed simp

lemma muladd_row_val:
  "length ls = length ds \<Longrightarrow> muladd_row f c ls ds = (out, c') \<Longrightarrow>
   length out = length ls \<and> dval out + 2 ^ (32 * length ls) * unat c' = dval ls * unat f + dval ds + unat c"
proof (induction f c ls ds arbitrary: out c' rule: muladd_row.induct)
  case (1 f c l ls d ds)
  define p where "p = (ucast l * ucast f + ucast d + ucast c :: u64)"
  obtain o1 c1 where o: "muladd_row f (ucast (drop_bit 32 p)) ls ds = (o1, c1)" by fastforce
  then have r: "out = ucast p # o1" "c' = c1" using 1(3) by (auto simp: Let_def p_def)
  have ih: "length o1 = length ls"
    "dval o1 + 2 ^ (32 * length ls) * unat c1 = dval ls * unat f + dval ds + unat (ucast (drop_bit 32 p) :: u32)"
    using 1(1) [OF p_def _ o] 1(2) by simp_all
  have d: "unat (ucast p :: u32) + 2 ^ 32 * unat (ucast (drop_bit 32 p) :: u32) = unat l * unat f + unat d + unat c"
    unfolding p_def by (rule product_digit)
  have "dval out + 2 ^ (32 * length (l # ls)) * unat c'
      = unat (ucast p :: u32) + 2 ^ 32 * (dval o1 + 2 ^ (32 * length ls) * unat c1)"
    by (simp add: r power_add algebra_simps)
  also have "\<dots> = (unat (ucast p :: u32) + 2 ^ 32 * unat (ucast (drop_bit 32 p) :: u32))
      + 2 ^ 32 * (dval ls * unat f + dval ds)"
    unfolding ih by (simp add: algebra_simps)
  finally have "dval out + 2 ^ (32 * length (l # ls)) * unat c' = dval (l # ls) * unat f + dval (d # ds) + unat c"
    unfolding d by (simp add: algebra_simps)
  then show ?case using ih(1) r(1) by simp
qed simp_all

lemma mult_rows_val:
  "length w = Suc (length ls) \<Longrightarrow> last w = c \<Longrightarrow> mult_rows ls w c rs = (ds, c') \<Longrightarrow>
   length ds = length w + length rs \<and> dval ds = dval w + 2 ^ 32 * dval ls * dval rs \<and> last ds = c'"
proof (induction rs arbitrary: w c ds c')
  case (Cons f rs)
  obtain h t where w: "w = h # t" "length t = length ls" using Cons.prems(1) by (cases w) auto
  define oc where "oc = (if f \<noteq> 0 then muladd_row f 0 ls t else (t, 0))"
  obtain out c1 where oc: "oc = (out, c1)" by fastforce
  have row: "length out = length ls \<and> dval out + 2 ^ (32 * length ls) * unat c1 = dval ls * unat f + dval t"
  proof (cases "f = 0")
    case False
    then have "muladd_row f 0 ls t = (out, c1)" using oc by (simp add: oc_def)
    from muladd_row_val [OF w(2) [symmetric] this] show ?thesis by simp
  qed (use oc w in \<open>auto simp: oc_def\<close>)
  obtain rest c2 where m: "mult_rows ls (out @ [c1]) c1 rs = (rest, c2)" by fastforce
  have "mult_rows ls w c (f # rs) = (h # rest, c2)"
    by (simp only: mult_rows.simps w list.sel oc_def [symmetric] oc Let_def prod.case m)
  then have r: "ds = h # rest" "c' = c2" using Cons.prems(3) by simp_all
  have ih: "length rest = length (out @ [c1]) + length rs"
    "dval rest = dval (out @ [c1]) + 2 ^ 32 * dval ls * dval rs" "last rest = c2"
    using Cons.IH [OF _ _ m] row by simp_all
  have "dval (out @ [c1]) = dval ls * unat f + dval t" using row by (simp add: dval_append)
  then have "dval ds = dval w + 2 ^ 32 * dval ls * dval (f # rs)"
    using ih(2) by (simp add: r w algebra_simps)
  moreover have "rest \<noteq> []" using ih(1) by auto
  ultimately show ?case using ih row by (simp add: r w)
qed simp

text \<open>The result of \<open>multui32_bigint\<close>.\<close>

lemma multui32_delivers:
  assumes inv: "bigint_inv result" "bigint_inv lbig"
  shows "delivers result (multui32_bigint mm result lbig factor) (bval lbig * int (unat factor))"
proof (cases "nrdigits_bigint lbig = 0 \<or> factor = 0")
  case True
  then have "bval lbig * int (unat factor) = 0"
    using nrdigits_0_iff [of lbig] bval_0_iff [OF inv(2)] by auto
  then show ?thesis using True inv by (auto simp: multui32_bigint_def)
next
  case False
  let ?n = "nrdigits_bigint lbig"
  let ?ls = "take ?n (digits lbig)"
  obtain out c where o: "mul_row factor 0 ?ls = (out, c)" by fastforce
  have nz: "sign_and_used_digits lbig \<noteq> 0" using False nrdigits_0_iff [of lbig] by simp
  have lu: "length ?ls = ?n" "?ls \<noteq> []" "last ?ls \<noteq> 0"
    using length_used [OF inv(2)] last_used [OF inv(2) nz] by (simp_all add: used_digits_def)
  define ds where "ds = out @ [c]"
  have len: "length out = ?n" using mul_row_val [OF o] lu(1) by simp
  have v: "dval ds = dval ?ls * unat factor"
    using mul_row_val [OF o] lu(1) by (simp add: ds_def dval_append)
  define sz where "sz = 1 + ?n - of_bool (0 = c)"
  have sz: "sz \<noteq> 0" "sz \<le> length ds" using False by (auto simp: sz_def ds_def len)
  have tk: "dval (take sz ds) = dval ds" "length (take sz ds) = sz"
    by (auto simp: sz_def ds_def len dval_append)
  have f1: "1 \<le> unat factor" using False by (simp add: Suc_le_eq unat_gt_0)
  have top: "ds ! (sz - 1) \<noteq> 0"
  proof (cases "c = 0")
    case True
    have "2 ^ (32 * (length ?ls - 1)) \<le> dval ?ls" by (rule dval_top [OF lu(2,3)])
    also have "\<dots> \<le> dval (take sz ds)" using f1 unfolding tk v by (metis mult_le_mono2 nat_mult_1_right)
    finally have "last (take sz ds) \<noteq> 0"
      using True sz tk(2) lu(1) by (intro last_nonzero_dval) (auto simp: sz_def)
    then show ?thesis using sz by (simp add: last_take_nth)
  next
    case False
    then show ?thesis by (simp add: sz_def ds_def nth_append len)
  qed
  have e: "exponent lbig < 2 ^ 16" using inv(2) by (simp add: bigint_inv_def)
  show ?thesis
  proof (rule reserve_bigint_cases [OF inv(1), of mm "1 + ?n"], goal_cases)
    case (1 err)
    then show ?case using False by (simp add: multui32_bigint_def Let_def)
  next
    case (2 big')
    let ?neg = "sign_and_used_digits lbig < 0"
    have ld: "length ds \<le> length (digits big')" using 2(2) by (simp add: ds_def len)
    have s15: "sz < 2 ^ 15" using 2(4) by (simp add: sz_def)
    have z: "sz = 0 \<Longrightarrow> exponent lbig = 0" using sz by simp
    note R = set_result [where neg = ?neg, OF ld sz(2) s15 e top z 2(3) 2(5)]
    have "bval lbig = (if ?neg then -1 else 1) * int (dval ?ls * 2 ^ (32 * exponent lbig))"
      using bval_sign [OF inv(2)] by (simp add: isnegative_bigint_def bmag_def used_digits_def)
    then have b: "(if ?neg then -1 else 1) * int (dval (take sz ds) * 2 ^ (32 * exponent lbig)) = bval lbig * int (unat factor)"
      unfolding tk(1) v by simp
    have "multui32_bigint mm result lbig factor = (Inr (), big'\<lparr>
        sign_and_used_digits := cast_int16 (if ?neg then - int sz else int sz),
        exponent := cast_uint16 (exponent lbig), digits := blit 0 ds (digits big')\<rparr>)"
      using False 2(1) o e by (simp add: multui32_bigint_def Let_def sz_def ds_def)
    then show ?case using R unfolding b by simp
  qed
qed


section \<open>The schoolbook algorithm\<close>

lemma length_used_le: "bigint_inv b \<Longrightarrow> nrdigits_bigint b \<le> length (digits b)"
  by (simp add: bigint_inv_def)

lemma mult_biginthelper_val:
  assumes inv: "bigint_inv big" and l: "l \<noteq> []" "last l \<noteq> 0" and r: "r \<noteq> []" "last r \<noteq> 0"
    and len: "length l + length r \<le> length (digits big)" "length l + length r < 2 ^ 15" and e: "e < 2 ^ 16"
  shows "bigint_inv (mult_biginthelper big l r e)"
    and "bval (mult_biginthelper big l r e) = int (dval l * dval r * 2 ^ (32 * e))"
proof -
  define wc where "wc = (if 0 = hd r then (replicate (1 + length l) 0, 0)
             else (let (out, carry) = mul_row (hd r) 0 l in (out @ [carry], carry)))"
  obtain w c where wc: "wc = (w, c)" by fastforce
  have w: "length w = Suc (length l) \<and> last w = c \<and> dval w = dval l * unat (hd r)"
  proof (cases "hd r = 0")
    case False
    obtain out c1 where o: "mul_row (hd r) 0 l = (out, c1)" by fastforce
    then have "w = out @ [c1]" "c = c1" using wc False by (auto simp: wc_def)
    then show ?thesis using mul_row_val [OF o] by (simp add: dval_append)
  qed (use wc in \<open>auto simp: wc_def\<close>)
  obtain ds c' where m: "mult_rows l w c (tl r) = (ds, c')" by fastforce
  have M: "length ds = length w + length (tl r)" "dval ds = dval w + 2 ^ 32 * dval l * dval (tl r)" "last ds = c'"
    using mult_rows_val [OF _ _ m] w by simp_all
  have n: "length ds = length l + length r" using M(1) w r(1) by (cases r) simp_all
  have v: "dval ds = dval l * dval r" using M(2) w r(1) by (cases r) (simp_all add: algebra_simps)
  define sz where "sz = length l + length r - of_bool (0 = c')"
  have ne: "ds \<noteq> []" using n l(1) by auto
  have l2: "2 \<le> length l + length r" using l(1) r(1) by (cases l; cases r; simp)
  have sz: "0 < sz" "sz \<le> length ds" "sz < 2 ^ 15" using l2 len(2) l(1) by (simp_all add: sz_def n)
  have tk: "dval (take sz ds) = dval ds"
  proof (cases "c' = 0")
    case True
    then have "take sz ds = butlast ds" by (simp add: sz_def n butlast_conv_take)
    moreover have "ds = butlast ds @ [0]" using True M(3) append_butlast_last_id [OF ne] by simp
    ultimately show ?thesis using dval_append [of "butlast ds" "[0]"] by simp
  qed (simp add: sz_def n)
  have top: "ds ! (sz - 1) \<noteq> 0"
  proof (cases "c' = 0")
    case True
    have "2 ^ (32 * (sz - 1)) = 2 ^ (32 * (length l - 1)) * (2 :: nat) ^ (32 * (length r - 1))"
      using True l(1) r(1) by (cases l; cases r) (simp_all add: sz_def flip: power_add)
    also have "\<dots> \<le> dval l * dval r" by (rule mult_le_mono [OF dval_top [OF l] dval_top [OF r]])
    also have "\<dots> = dval (take sz ds)" by (simp add: tk v)
    finally have "last (take sz ds) \<noteq> 0"
      using sz by (intro last_nonzero_dval) (auto simp: min_absorb2)
    then show ?thesis using sz by (simp add: last_take_nth)
  next
    case False
    then show ?thesis using M(3) ne by (simp add: sz_def n last_conv_nth)
  qed
  have ld: "length ds \<le> length (digits big)" using len n by simp
  have al: "allocated_digits big < 2 ^ 15" "allocated_digits big \<noteq> 0 \<Longrightarrow> length (digits big) = allocated_digits big"
    using inv by (simp_all add: bigint_inv_def)
  have z: "sz = 0 \<Longrightarrow> e = 0" using sz by simp
  note R = set_result [where neg = False, OF ld sz(2,3) e top z al]
  have eq: "mult_biginthelper big l r e = big\<lparr>sign_and_used_digits := cast_int16 (if False then - int sz else int sz),
      exponent := cast_uint16 e, digits := blit 0 ds (digits big)\<rparr>"
    unfolding mult_biginthelper_def Let_def wc_def [symmetric, unfolded Let_def] wc prod.case m
    using e by (simp add: sz_def)
  show "bigint_inv (mult_biginthelper big l r e)" unfolding eq by (rule R(1))
  show "bval (mult_biginthelper big l r e) = int (dval l * dval r * 2 ^ (32 * e))"
    using R(2) unfolding eq [symmetric] tk v by simp
qed

section \<open>Adding into the result\<close>

lemma addsplit_val:
  obtains ds c where "addsplit_biginthelper big off l r
      = big\<lparr>sign_and_used_digits := cast_int16 (int (max (length l) (length r) + off + of_bool c)),
          digits := blit off ds (digits big)\<rparr>"
    and "length ds = max (length l) (length r) + of_bool c" and "dval ds = dval l + dval r"
    and "c \<longrightarrow> last ds \<noteq> 0"
proof -
  define ab where "ab = (if length l < length r then (r, l) else (l, r))"
  obtain a b where ab: "ab = (a, b)" by fastforce
  have m: "length a = max (length l) (length r)" "length b \<le> length a" "dval a + dval b = dval l + dval r"
    using ab by (auto simp: ab_def split: if_splits)
  obtain ov c1 where o: "add_overlap False (take (length b) a) b = (ov, c1)" by fastforce
  obtain ld c where h: "add_lead c1 (drop (length b) a) = (ld, c)" by fastforce
  let ?ds = "ov @ ld @ (if c then [1] else [])"
  have lo: "length ov = length b" "dval ov + 2 ^ (32 * length b) * of_bool c1 = dval (take (length b) a) + dval b"
    using add_overlap_val [OF _ o] m(2) by simp_all
  have ll: "length ld = length a - length b"
    "dval ld + 2 ^ (32 * (length a - length b)) * of_bool c = dval (drop (length b) a) + of_bool c1"
    using add_lead_val [OF h] by simp_all
  have "dval ?ds = dval ov + 2 ^ (32 * length b) * (dval ld + 2 ^ (32 * (length a - length b)) * of_bool c)"
    by (simp add: dval_append lo(1) ll(1))
  also have "\<dots> = dval ov + 2 ^ (32 * length b) * of_bool c1 + 2 ^ (32 * length b) * dval (drop (length b) a)"
    unfolding ll(2) by (simp add: algebra_simps)
  also have "\<dots> = dval a + dval b" unfolding lo(2) using dval_take_drop [OF m(2)] by simp
  finally have v: "dval ?ds = dval l + dval r" using m(3) by simp
  have len: "length ?ds = max (length l) (length r) + of_bool c"
    using lo(1) ll(1) m(1,2) by simp
  have "addsplit_biginthelper big off l r
      = big\<lparr>sign_and_used_digits := cast_int16 (int (max (length l) (length r) + off + of_bool c)),
          digits := blit off ?ds (digits big)\<rparr>"
    unfolding addsplit_biginthelper_def Let_def ab_def [symmetric] ab prod.case o h m(1) by simp
  then show thesis using len v by (rule that) simp
qed

text \<open>The top digit of the sum is not 0 when those of the operands are not.\<close>

lemma sum_top:
  assumes "length ds = max (length l) (length r) + of_bool c" and "dval ds = dval l + dval r"
    and "c \<longrightarrow> last ds \<noteq> 0" and "l \<noteq> [] \<Longrightarrow> last l \<noteq> 0" and "r \<noteq> [] \<Longrightarrow> last r \<noteq> 0" and "ds \<noteq> []"
  shows "last ds \<noteq> 0"
proof (cases c)
  case False
  have "2 ^ (32 * (length ds - 1)) \<le> dval ds"
  proof (cases "length l < length r")
    case True
    then have "r \<noteq> []" by auto
    from dval_top [OF this assms(5) [OF this]] show ?thesis using True False assms(1,2) by simp
  next
    case l: False
    then have "l \<noteq> []" using assms(1,6) False by auto
    from dval_top [OF this assms(4) [OF this]] show ?thesis using l False assms(1,2) by simp
  qed
  then show ?thesis by (rule last_nonzero_dval [OF _ assms(6)])
qed (use assms(3) in simp)

text \<open>The sums of the halves, computed into fresh objects.\<close>

lemma operand_addsplit:
  fixes big :: bigint_t
  assumes l: "l \<noteq> []" "last l \<noteq> 0" and r: "r \<noteq> []" "last r \<noteq> 0"
    and len: "max (length l) (length r) + 1 < 2 ^ 15"
  defines "t \<equiv> addsplit_biginthelper big 0 l r"
  shows "dval (operand_digits t) = dval l + dval r" and "operand_digits t \<noteq> []"
    and "last (operand_digits t) \<noteq> 0" and "length (operand_digits t) = uint32_of_int (sign_and_used_digits t)"
proof -
  obtain ds c where t: "t = big\<lparr>sign_and_used_digits := cast_int16 (int (max (length l) (length r) + 0 + of_bool c)),
          digits := blit 0 ds (digits big)\<rparr>"
    and ds: "length ds = max (length l) (length r) + of_bool c" "dval ds = dval l + dval r" "c \<longrightarrow> last ds \<noteq> 0"
    using addsplit_val [of big 0 l r] unfolding t_def by blast
  have n: "length ds < 2 ^ 15" using len ds(1) by simp
  have "sign_and_used_digits t = cast_int16 (int (length ds))" by (simp add: t ds(1))
  also have "\<dots> = int (length ds)" using n by (intro cast_int16_id) simp_all
  finally have s: "sign_and_used_digits t = int (length ds)" .
  have u: "uint16_of_int (int (length ds)) = length ds" "uint32_of_int (int (length ds)) = length ds"
    using n by (simp_all add: uint16_of_int_def uint32_of_int_def)
  have od: "operand_digits t = ds"
    unfolding operand_digits_def s u by (simp add: t take_blit_0)
  have ne: "ds \<noteq> []" using ds(1) l(1) by (cases l) auto
  show "dval (operand_digits t) = dval l + dval r" "operand_digits t \<noteq> []"
    "length (operand_digits t) = uint32_of_int (sign_and_used_digits t)"
    using ds(2) ne unfolding od s u by simp_all
  show "last (operand_digits t) \<noteq> 0"
    unfolding od using sum_top [OF ds l(2) r(2) ne] .
qed


section \<open>Putting the products together\<close>

text \<open>Operations never shrink the digit array of their result.\<close>

lemma length_blit_ge: "length dst \<le> length (blit 0 src dst)"
  by (simp add: blit_def)

lemma reserve_bigint_grows:
  assumes "bigint_inv big" and "reserve_bigint mm big n = (x, big')"
  shows "length (digits big) \<le> length (digits big')"
proof (cases "allocated_digits big < n")
  case True
  show ?thesis
  proof (cases "allocated_digits big = 0")
    case True
    then have "big' = big"
      using assms(2) by (auto simp: reserve_bigint_def allocate_bigint_def Let_def split: if_splits)
    then show ?thesis by simp
  next
    case False
    then have l: "length (digits big) = allocated_digits big" using assms(1) by (simp add: bigint_inv_def)
    show ?thesis
      using assms(2) True False l
      by (auto simp: reserve_bigint_def allocate_bigint_def Let_def split: if_splits option.splits)
  qed
qed (use assms(2) in \<open>simp add: reserve_bigint_def\<close>)

lemma reserve_case_grows:
  assumes "bigint_inv big" and "\<And>u b. length (digits b) \<le> length (digits (snd (f u b)))"
  shows "length (digits big) \<le> length (digits (snd
    (case reserve_bigint mm big n of (Inl err, b) \<Rightarrow> (Inl err, b) | (Inr u, b) \<Rightarrow> f u b)))"
proof -
  obtain x b where r: "reserve_bigint mm big n = (x, b)" by fastforce
  have "length (digits big) \<le> length (digits b)" by (rule reserve_bigint_grows [OF assms(1) r])
  then show ?thesis using assms(2) [where b = b] r by (cases x) (auto intro: le_trans)
qed

lemma copy_bigint_grows:
  "bigint_inv big \<Longrightarrow> length (digits big) \<le> length (digits (snd (copy_bigint mm big from)))"
  unfolding copy_bigint_def Let_def by (rule reserve_case_grows) (simp_all add: length_blit_ge)

lemma copy_case_grows:
  assumes "bigint_inv big" and "\<And>u b. length (digits b) \<le> length (digits (snd (f u b)))"
  shows "length (digits big) \<le> length (digits (snd
    (case copy_bigint mm big from of (Inl err, b) \<Rightarrow> (Inl err, b) | (Inr u, b) \<Rightarrow> f u b)))"
proof -
  obtain x b where r: "copy_bigint mm big from = (x, b)" by fastforce
  have "length (digits big) \<le> length (digits b)" using copy_bigint_grows [OF assms(1), of mm "from"] r by simp
  then show ?thesis using assms(2) [where b = b] r by (cases x) (auto intro: le_trans)
qed

lemma control_grows:
  "n \<le> length (digits (snd x)) \<Longrightarrow> n \<le> length (digits (snd y)) \<Longrightarrow> n \<le> length (digits (snd (if b then x else y)))"
  "(\<And>a. n \<le> length (digits (snd (f a)))) \<Longrightarrow> n \<le> length (digits (snd (Let v f)))"
  "(\<And>a b. n \<le> length (digits (snd (g a b)))) \<Longrightarrow> n \<le> length (digits (snd (case p of (a, b) \<Rightarrow> g a b)))"
  by (simp_all split: prod.split)

lemma add_biginthelper_grows:
  assumes inv: "bigint_inv res"
  shows "length (digits res) \<le> length (digits (snd (add_biginthelper mm res l r)))"
  unfolding add_biginthelper_def
  by (rule reserve_case_grows [OF inv] copy_case_grows [OF inv] copy_bigint_grows [OF inv] | rule control_grows
    | (simp add: setpositive_bigint_def length_blit_ge; fail))+

lemma sub_biginthelper_grows:
  assumes inv: "bigint_inv res"
  shows "length (digits res) \<le> length (digits (snd (sub_biginthelper mm res l r)))"
  unfolding sub_biginthelper_def
  by (rule reserve_case_grows [OF inv] copy_case_grows [OF inv] copy_bigint_grows [OF inv] | rule control_grows
    | (simp add: setnegative_bigint_def setPu32_bigint_def length_blit_ge; fail))+

lemma add_bigint_grows:
  "bigint_inv res \<Longrightarrow> length (digits res) \<le> length (digits (snd (add_bigint mm res l r)))"
  using add_biginthelper_grows sub_biginthelper_grows by (simp add: add_bigint_def)

lemma sub_bigint_grows:
  "bigint_inv res \<Longrightarrow> length (digits res) \<le> length (digits (snd (sub_bigint mm res l r)))"
  using add_biginthelper_grows sub_biginthelper_grows by (simp add: sub_bigint_def)

text \<open>Low zero digits of a product.\<close>

lemma pow2_dvd_mult:
  fixes x y :: nat
  shows "2 ^ (i + j) dvd x * y \<Longrightarrow> 2 ^ i dvd x \<or> 2 ^ j dvd y"
proof (induction i arbitrary: x)
  case (Suc i)
  show ?case
  proof (cases "even x")
    case True
    then obtain z where z: "x = 2 * z" by blast
    then have "2 * 2 ^ (i + j) dvd 2 * (z * y)" using Suc.prems by (simp add: mult.assoc)
    then have "2 ^ (i + j) dvd z * y" using dvd_mult_cancel_left [of 2] by simp
    then show ?thesis using Suc.IH [of z] z by auto
  next
    case False
    then have "coprime (2 ^ (Suc i + j)) x" by simp
    then have "2 ^ (Suc i + j) dvd y" using Suc.prems coprime_dvd_mult_right_iff by blast
    then have "2 ^ j dvd y" by (meson dvd_trans le_imp_power_dvd le_add2)
    then show ?thesis by simp
  qed
qed simp

text \<open>Bounds from the value of a positive number.\<close>

lemma positive_number:
  assumes "bigint_inv b" and "bval b = int v" and "0 < v"
  shows "0 < sign_and_used_digits b" and "\<not> isnegative_bigint b" and "bmag b = v"
    and "operand_digits b = used_digits b" and "0 < nrdigits_bigint b"
    and "sign_and_used_digits b = int (nrdigits_bigint b)"
proof -
  have "sgn (sign_and_used_digits b) = 1" using sgn_bval [OF assms(1)] assms(2,3) by simp
  then show s: "0 < sign_and_used_digits b" by (simp add: sgn_1_pos)
  then show n: "\<not> isnegative_bigint b" by (simp add: isnegative_bigint_def)
  show "bmag b = v" using bval_sign [OF assms(1)] n assms(2) by simp
  show sn: "sign_and_used_digits b = int (nrdigits_bigint b)" using nrdigits_abs [of b] s by simp
  show "0 < nrdigits_bigint b" using sn s by simp
  have "nrdigits_bigint b < 2 ^ 15" using assms(1) by (simp add: bigint_inv_def)
  then show "operand_digits b = used_digits b"
    unfolding operand_digits_def used_digits_def uint16_of_int_def sn by simp
qed

lemma size_of_value:
  assumes "bigint_inv b" and "0 < sign_and_used_digits b" and "bmag b < 2 ^ (32 * n)"
  shows "size_bigint b \<le> n"
proof -
  have nz: "sign_and_used_digits b \<noteq> 0" using assms(2) by simp
  have "2 ^ (32 * (size_bigint b - 1)) < (2 :: nat) ^ (32 * n)"
    using bmag_bounds(1) [OF assms(1) nz] assms(3) by (rule le_less_trans)
  then have "32 * (size_bigint b - 1) < 32 * n" by (rule power_less_imp_less_exp [rotated]) simp
  then show ?thesis by simp
qed

lemma exponent_dvd: "2 ^ (32 * exponent b) dvd bmag b"
  by (simp add: bmag_def)


text \<open>
  What \<open>multsplit_biginthelper\<close> promises: an error leaves the number 0 in the result, success a
  product; in both cases the invariant holds.
\<close>

fun multiplies :: "unit cres \<times> bigint_t \<Rightarrow> nat \<Rightarrow> bool" where
  "multiplies (Inl err, res) v \<longleftrightarrow> bigint_inv res \<and> bval res = 0"
| "multiplies (Inr u, res) v \<longleftrightarrow> bigint_inv res \<and> bval res = int v"

lemma multiplies_error [simp]: "bigint_inv res \<Longrightarrow> multiplies (Inl err, clear_bigint res) v"
  by simp

text \<open>The last step: the middle product is added into the digits of the sum of the other two.\<close>

lemma shifted_exponent:
  assumes inv: "bigint_inv b" and s: "0 < sign_and_used_digits b" and e: "exponent b + k < 2 ^ 16"
  defines "b' \<equiv> b\<lparr>exponent := cast_uint16 (exponent b + k)\<rparr>"
  shows "bigint_inv b'" and "bval b' = bval b * 2 ^ (32 * k)"
proof -
  have n: "nrdigits_bigint b' = nrdigits_bigint b" by (simp add: b'_def nrdigits_bigint_def)
  have x: "exponent b' = exponent b + k" "digits b' = digits b" "allocated_digits b' = allocated_digits b"
    "sign_and_used_digits b' = sign_and_used_digits b"
    using e by (simp_all add: b'_def)
  show "bigint_inv b'" using inv e s unfolding bigint_inv_def n x by simp
  show "bval b' = bval b * 2 ^ (32 * k)"
    unfolding bval_def bmag_def used_digits_def n x by (simp add: power_add)
qed

lemma add_middle:
  assumes inv: "bigint_inv res" "bigint_inv m" and v: "bval res = int V" "bval m = int M" "0 < V" "0 < M"
    and off: "exponent res + off = exponent m + split" and offu: "off \<le> nrdigits_bigint res"
    and N: "V + M * 2 ^ (32 * split) < 2 ^ (32 * N)" "N \<le> length (digits res)" "N + k < 2 ^ 15"
  defines "r \<equiv> addsplit_biginthelper res off
      (take (nrdigits_bigint res - off) (drop off (digits res))) (used_digits m)"
  shows "multiplies (Inr (), r\<lparr>exponent := cast_uint16 (exponent r + k)\<rparr>) ((V + M * 2 ^ (32 * split)) * 2 ^ (32 * k))"
proof -
  let ?hi = "take (nrdigits_bigint res - off) (drop off (digits res))" and ?md = "used_digits m"
  let ?u = "nrdigits_bigint res" and ?e = "exponent res"
  obtain ds c where r: "r = res\<lparr>sign_and_used_digits := cast_int16 (int (max (length ?hi) (length ?md) + off + of_bool c)),
          digits := blit off ds (digits res)\<rparr>"
    and ds: "length ds = max (length ?hi) (length ?md) + of_bool c" "dval ds = dval ?hi + dval ?md" "c \<longrightarrow> last ds \<noteq> 0"
    using addsplit_val [of res off ?hi ?md] unfolding r_def by blast
  note P = positive_number [OF inv(1) v(1,3)] and Q = positive_number [OF inv(2) v(2,4)]
  have nz: "sign_and_used_digits res \<noteq> 0" "sign_and_used_digits m \<noteq> 0" using P(1) Q(1) by simp_all
  have ud: "used_digits res = take off (digits res) @ ?hi"
    using offu by (simp add: used_digits_def flip: take_add)
  have ul: "off \<le> length (digits res)" using offu length_used_le [OF inv(1)] by simp
  have md: "?md \<noteq> []" "last ?md \<noteq> 0" using last_used [OF inv(2) nz(2)] by simp_all
  have hi: "?hi \<noteq> [] \<longrightarrow> last ?hi \<noteq> 0" using last_used(2) [OF inv(1) nz(1)] unfolding ud last_append by auto
  have dne: "ds \<noteq> []" using ds(1) md(1) by (cases ?md) auto
  have dl: "last ds \<noteq> 0" by (rule sum_top [OF ds _ md(2) dne]) (use hi in blast)
  define D where "D = take off (digits res) @ ds"
  have lD: "length D = off + length ds" using ul by (simp add: D_def)
  have eoff: "2 ^ (32 * off) * (2 ^ (32 * ?e) * dval ?md) = M * (2 :: nat) ^ (32 * split)"
  proof -
    have "M = dval ?md * 2 ^ (32 * exponent m)" using Q(3) by (simp add: bmag_def)
    then have "M * 2 ^ (32 * split) = dval ?md * 2 ^ (32 * (exponent m + split))" by (simp add: power_add)
    also have "\<dots> = dval ?md * 2 ^ (32 * (?e + off))" unfolding off ..
    finally show ?thesis by (simp add: power_add)
  qed
  have V: "V = dval (used_digits res) * 2 ^ (32 * ?e)" using P(3) by (simp add: bmag_def)
  have DV: "dval D * 2 ^ (32 * ?e) = V + M * 2 ^ (32 * split)"
    unfolding V eoff [symmetric] ud D_def dval_append ds(2) using ul by (simp add: min_absorb2 algebra_simps)
  have top: "last D \<noteq> 0" "D \<noteq> []" using dl dne by (simp_all add: D_def)
  have "2 ^ (32 * (length D - 1)) * 2 ^ (32 * ?e) \<le> dval D * 2 ^ (32 * ?e)"
    using dval_top [OF top(2,1)] by simp
  also have "\<dots> < 2 ^ (32 * N)" unfolding DV by (rule N(1))
  finally have "(2 :: nat) ^ (32 * (length D - 1) + 32 * ?e) < 2 ^ (32 * N)" by (simp add: power_add)
  then have "32 * (length D - 1) + 32 * ?e < 32 * N" by (rule power_less_imp_less_exp [rotated]) simp
  then have n: "length D + ?e \<le> N" using top(2) by (cases D) simp_all
  have nD: "max (length ?hi) (length ?md) + off + of_bool c = length D" unfolding lD ds(1) by simp
  have bl: "blit off ds (digits res) = blit 0 D (digits res)"
    unfolding blit_def D_def using ul by (simp add: min_absorb2)
  have e16: "?e + k < 2 ^ 16" using n N(3) by simp
  have fin: "r\<lparr>exponent := cast_uint16 (exponent r + k)\<rparr> = res\<lparr>
      sign_and_used_digits := cast_int16 (if False then - int (length D) else int (length D)),
      exponent := cast_uint16 (?e + k), digits := blit 0 D (digits res)\<rparr>"
    unfolding r nD bl by simp
  have ld: "length D \<le> length (digits res)" "length D < 2 ^ 15" using n N(2,3) by simp_all
  have tp: "D ! (length D - 1) \<noteq> 0" using top by (simp add: last_conv_nth)
  have z: "length D = 0 \<Longrightarrow> ?e + k = 0" using top(2) by simp
  have al: "allocated_digits res < 2 ^ 15" "allocated_digits res \<noteq> 0 \<Longrightarrow> length (digits res) = allocated_digits res"
    using inv(1) by (simp_all add: bigint_inv_def)
  note R = set_result [where neg = False, OF ld(1) order_refl ld(2) e16 tp z al, folded fin]
  have "dval D * 2 ^ (32 * (?e + k)) = (V + M * 2 ^ (32 * split)) * 2 ^ (32 * k)"
    unfolding DV [symmetric] by (simp add: power_add)
  then show ?thesis using R by simp
qed


lemma delivers_error: "delivers old (Inl err, new) v \<Longrightarrow> new = old"
  by simp

lemma multsplit_combine_val:
  fixes L0 L1 R0 R1 :: nat
  assumes inv: "bigint_inv result" "bigint_inv t0" "bigint_inv t1" "bigint_inv t4"
    and v: "bval t0 = int (L0 * R0)" "bval t1 = int (L1 * R1)" "bval t4 = int ((L0 + L1) * (R0 + R1))"
    and pos: "0 < L0" "0 < R0" and odd: "\<not> 2 ^ 32 dvd L1" "\<not> 2 ^ 32 dvd R1"
    and lt: "L1 < 2 ^ (32 * split)" "R1 < 2 ^ (32 * split)" and split: "2 \<le> split"
    and N: "(L0 * 2 ^ (32 * split) + L1) * (R0 * 2 ^ (32 * split) + R1) < 2 ^ (32 * N)"
      "N \<le> length (digits result)" "N + k < 2 ^ 15"
  shows "multiplies (multsplit_combine mm result split k t0 t1 t4)
    ((L0 * 2 ^ (32 * split) + L1) * (R0 * 2 ^ (32 * split) + R1) * 2 ^ (32 * k))"
proof -
  define X where "X = (2 :: nat) ^ (32 * split)"
  have X: "0 < X" by (simp add: X_def)
  have XX: "(2 :: nat) ^ (32 * (2 * split)) = X * X"
    unfolding X_def power_add [symmetric] by (simp add: mult_2)
  have L1: "0 < L1" "0 < R1" using odd by (auto intro: gr0I)
  define M where "M = L0 * R1 + L1 * R0"
  have M: "0 < M" using pos L1 by (simp add: M_def)
  define V where "V = L0 * R0 * (X * X) + L1 * R1"
  have prod: "(L0 * X + L1) * (R0 * X + R1) = V + M * X"
    by (simp add: V_def M_def algebra_simps)
  have V: "0 < V" using pos X by (simp add: V_def)
  have "L0 * R0 * (X * X) \<le> V + M * X" by (simp add: V_def)
  then have T0: "L0 * R0 * (X * X) < 2 ^ (32 * N)"
    using N(1) unfolding X_def [symmetric] prod by simp
  have one: "1 \<le> length (digits b)" if "bigint_inv b" "bval b = int u" "0 < u" for b u
    using positive_number(5) [OF that] length_used_le [OF that(1)] by simp
  have N1: "1 \<le> N"
  proof (rule ccontr)
    assume "\<not> 1 \<le> N"
    then have "N = 0" by simp
    then show False using T0 pos X by simp
  qed
  obtain x1 r1 where s1: "sub_bigint mm result t4 t0 = (x1, r1)" by fastforce
  have d1: "delivers result (x1, r1) (int (M + L1 * R1))"
    using sub_bigint_delivers [OF inv(1,4,2), of mm] N1 N(2)
    unfolding s1 v by (simp add: M_def algebra_simps)
  show ?thesis
  proof (cases x1)
    case (Inl err)
    then show ?thesis using d1 inv(1) by (simp add: multsplit_combine_def s1)
  next
    case x1: (Inr u1)
    then have r1: "bigint_inv r1" "bval r1 = int (M + L1 * R1)" using d1 by simp_all
    have g1: "length (digits result) \<le> length (digits r1)" using sub_bigint_grows [OF inv(1), of mm t4 t0] s1 by simp
    obtain x2 m where s2: "sub_bigint mm t4 r1 t1 = (x2, m)" by fastforce
    have "1 \<le> length (digits t4)" using one [OF inv(4) v(3)] pos by simp
    then have d2: "delivers t4 (x2, m) (int M)"
      using sub_bigint_delivers [OF inv(4) r1(1) inv(3), of mm] unfolding s2 r1 v by simp
    show ?thesis
    proof (cases x2)
      case (Inl err)
      then show ?thesis using r1(1) x1 by (simp add: multsplit_combine_def s1 s2)
    next
      case x2: (Inr u2)
      then have m: "bigint_inv m" "bval m = int M" using d2 by simp_all
      note m0 = positive_number [OF inv(2) v(1)] and mm' = positive_number [OF m M]
      define t0' where "t0' = t0\<lparr>exponent := cast_uint16 (exponent t0 + 2 * split)\<rparr>"
      have p0: "0 < L0 * R0" using pos by simp
      have "2 ^ (32 * exponent t0) \<le> L0 * R0"
        using exponent_dvd [of t0] p0 unfolding m0(3) [OF p0] by (rule dvd_imp_le)
      then have "2 ^ (32 * exponent t0) * 2 ^ (32 * (2 * split)) \<le> L0 * R0 * (X * X)" unfolding XX by simp
      then have "(2 :: nat) ^ (32 * exponent t0 + 32 * (2 * split)) < 2 ^ (32 * N)"
        unfolding power_add using T0 by (rule le_less_trans)
      then have "32 * exponent t0 + 32 * (2 * split) < 32 * N" by (rule power_less_imp_less_exp [rotated]) simp
      then have e0: "exponent t0 + 2 * split < 2 ^ 16" using N(3) by simp
      note t0' = shifted_exponent [OF inv(2) m0(1) [OF p0] e0, folded t0'_def, unfolded v]
      obtain x3 r2 where s3: "add_bigint mm r1 t0' t1 = (x3, r2)" by fastforce
      have "int (L0 * R0) * 2 ^ (32 * (2 * split)) = int (L0 * R0 * (X * X))" unfolding XX [symmetric] by simp
      then have "int (L0 * R0) * 2 ^ (32 * (2 * split)) + int (L1 * R1) = int V" by (simp add: V_def)
      then have d3: "delivers r1 (x3, r2) (int V)"
        using add_bigint_delivers [OF r1(1) t0'(1) inv(3), of mm] N1 N(2) g1 unfolding s3 t0'(2) v by simp
      show ?thesis
      proof (cases x3)
        case (Inl err)
        then show ?thesis using r1(1) x1 x2 d3
          by (simp add: multsplit_combine_def s1 s2 s3 Let_def flip: t0'_def)
      next
        case x3: (Inr u3)
        then have r2: "bigint_inv r2" "bval r2 = int V" using d3 by simp_all
        have g2: "N \<le> length (digits r2)"
          using add_bigint_grows [OF r1(1), of mm t0' t1] s3 g1 N(2) by simp
        note P = positive_number [OF r2 V]
        text \<open>The sum has at most one low zero digit.\<close>
        have e1: "exponent r2 \<le> 1"
        proof (rule ccontr)
          assume "\<not> exponent r2 \<le> 1"
          then have "(2 :: nat) ^ (32 + 32) dvd 2 ^ (32 * exponent r2)" by (intro le_imp_power_dvd) simp
          then have dv: "2 ^ (32 + 32) dvd V" using exponent_dvd [of r2] unfolding P(3) by (rule dvd_trans)
          have "(2 :: nat) ^ (32 + 32) dvd X" unfolding X_def using split by (intro le_imp_power_dvd) simp
          then have "2 ^ (32 + 32) dvd L0 * R0 * (X * X)" by (meson dvd_mult dvd_mult2)
          then have "2 ^ (32 + 32) dvd L1 * R1" using dv unfolding V_def by (meson dvd_add_right_iff)
          then show False using pow2_dvd_mult odd by blast
        qed
        text \<open>The middle product fits under the top of the sum.\<close>
        have "2 ^ (32 * exponent m) \<le> M"
          using exponent_dvd [of m] M unfolding mm'(3) by (rule dvd_imp_le)
        then have "2 ^ (32 * exponent m) * X \<le> M * X" by simp
        also have "\<dots> < 2 * V"
        proof -
          have a: "L0 * R1 < L0 * R0 * X"
          proof -
            have "R1 < R0 * X" using lt(2) pos(2) unfolding X_def [symmetric]
              by (metis less_le_trans mult.left_neutral mult_le_mono1 Suc_leI One_nat_def)
            then show ?thesis using pos(1) by simp
          qed
          have b: "L1 * R0 < L0 * R0 * X"
          proof -
            have "L1 < L0 * X" using lt(1) pos(1) unfolding X_def [symmetric]
              by (metis less_le_trans mult.left_neutral mult_le_mono1 Suc_leI One_nat_def)
            then have "L1 * R0 < L0 * X * R0" using pos(2) by simp
            then show ?thesis by (simp add: algebra_simps)
          qed
          have "M < 2 * (L0 * R0 * X)" unfolding M_def using a b by linarith
          then have "M * X < 2 * (L0 * R0 * X) * X" using X by simp
          also have "\<dots> \<le> 2 * V" by (simp add: V_def algebra_simps)
          finally show ?thesis .
        qed
        also have "2 * V < 2 ^ (32 * size_bigint r2 + 1)"
          using bmag_bounds(2) [OF r2(1)] P(1,3) by simp
        finally have "(2 :: nat) ^ (32 * exponent m + 32 * split) < 2 ^ (32 * size_bigint r2 + 1)"
          by (simp add: X_def power_add)
        then have "32 * exponent m + 32 * split < 32 * size_bigint r2 + 1"
          by (rule power_less_imp_less_exp [rotated]) simp
        then have os: "exponent m + split \<le> exponent r2 + nrdigits_bigint r2"
          by (simp add: size_bigint_def exponent_bigint_def)
        define off where "off = exponent m + split - exponent r2"
        have off: "exponent r2 + off = exponent m + split" "off \<le> nrdigits_bigint r2"
          using e1 split os by (simp_all add: off_def)
        have n15: "nrdigits_bigint r2 < 2 ^ 15" using r2(1) by (simp add: bigint_inv_def)
        have o16: "uint16_of_int (int (exponent m) + int split - int (exponent r2)) = off"
          using off n15 by (simp add: uint16_of_int_def)
        have l16: "uint16_of_int (sign_and_used_digits r2 - int off) = nrdigits_bigint r2 - off"
          unfolding P(6) using off(2) n15 by (simp add: uint16_of_int_def flip: of_nat_diff)
        have B: "V + M * 2 ^ (32 * split) < 2 ^ (32 * N)"
          using N(1) unfolding X_def [symmetric] prod .
        have "multiplies (multsplit_combine mm result split k t0 t1 t4) ((V + M * 2 ^ (32 * split)) * 2 ^ (32 * k))"
          unfolding multsplit_combine_def s1 x1 prod.case sum.case s2 x2 Let_def t0'_def [symmetric] s3 x3
            o16 l16 mm'(4)
          by (rule add_middle [OF r2(1) m(1) r2(2) m(2) V M off B g2 N(3)])
        then show ?thesis unfolding X_def [symmetric] prod .
      qed
    qed
  qed
qed


section \<open>Multiplication by splitting\<close>

lemma skip_zeros_nonempty:
  assumes "skip_zeros ds = (k, z)" and "ds \<noteq> []" and "last ds \<noteq> 0"
  shows "z \<noteq> []" and "last z \<noteq> 0" and "hd z \<noteq> 0" and "dval ds = 2 ^ (32 * k) * dval z"
    and "k + length z = length ds"
proof -
  have d: "ds = replicate k 0 @ z" and h: "z \<noteq> [] \<longrightarrow> hd z \<noteq> 0"
    using skip_zeros_split [OF assms(1)] by blast+
  show z: "z \<noteq> []"
  proof
    assume "z = []"
    then have "last ds \<in> {0}" using d assms(2) by (cases k) (simp_all add: last_replicate)
    then show False using assms(3) by simp
  qed
  then show "last z \<noteq> 0" "hd z \<noteq> 0" using assms(3) h d by simp_all
  show "dval ds = 2 ^ (32 * k) * dval z" unfolding d by (rule dval_shift)
  show "k + length z = length ds" by (simp add: d)
qed

lemma split_low_val:
  assumes "ds \<noteq> []" and "hd ds \<noteq> 0" and "0 < s"
  shows "dval (split_low s ds) = dval (take s ds)" and "split_low s ds \<noteq> []"
    and "last (split_low s ds) \<noteq> 0" and "\<not> 2 ^ 32 dvd dval (split_low s ds)"
    and "dval (split_low s ds) < 2 ^ (32 * s)"
proof -
  obtain k z where k: "skip_zeros (rev (take s ds)) = (k, z)" by fastforce
  have t: "take s ds = rev z @ replicate k 0" and h: "z \<noteq> [] \<longrightarrow> hd z \<noteq> 0"
    using skip_zeros_split [OF k] by (auto simp: rev_swap)
  have sl: "split_low s ds = rev z" by (simp add: split_low_def k)
  show v: "dval (split_low s ds) = dval (take s ds)" by (simp add: sl t dval_append)
  obtain d dt where ds: "take s ds = d # dt" "d \<noteq> 0" using assms by (cases ds; cases s) auto
  show nd: "\<not> 2 ^ 32 dvd dval (split_low s ds)"
  proof
    assume "2 ^ 32 dvd dval (split_low s ds)"
    then have "2 ^ 32 dvd unat d" unfolding v ds(1) by (simp add: dvd_add_left_iff)
    then have "unat d = 0" using unat_u32_bound [of d] nat_dvd_not_less by blast
    then show False using ds(2) by (simp add: unat_eq_0)
  qed
  then have "z \<noteq> []" by (auto simp: sl)
  then show "split_low s ds \<noteq> []" "last (split_low s ds) \<noteq> 0" using h by (simp_all add: sl last_rev)
  have "dval (take s ds) < 2 ^ (32 * length (take s ds))" by (rule dval_bound)
  also have "\<dots> \<le> 2 ^ (32 * s)" by simp
  finally show "dval (split_low s ds) < 2 ^ (32 * s)" unfolding v .
qed

lemma fresh_number:
  assumes "allocate_bigint mm None n = (Inr u, b)"
  shows "bigint_inv (the b)" and "n \<le> length (digits (the b))"
  using allocate_bigint_None [of mm n b] assms bigint_inv_new by auto


lemma multsplit_val:
  assumes "bigint_inv result" and "length l + length r \<le> length (digits result)" and "length l + length r < 2 ^ 15"
    and "l \<noteq> []" and "last l \<noteq> 0" and "r \<noteq> []" and "last r \<noteq> 0"
  shows "multiplies (multsplit_biginthelper mm result l r) (dval l * dval r)"
  using assms
proof (induction "length l + length r" arbitrary: result l r rule: less_induct)
  case less
  note inv = less.prems(1)
  obtain lk l1 where lo: "skip_zeros l = (lk, l1)" by fastforce
  obtain rk r1 where ro: "skip_zeros r = (rk, r1)" by fastforce
  note ln = skip_zeros_nonempty [OF lo less.prems(4,5)] and rn = skip_zeros_nonempty [OF ro less.prems(6,7)]
  define ab where "ab = (if length l1 > length r1 then (r1, l1) else (l1, r1))"
  obtain a b where ab: "ab = (a, b)" by fastforce
  have ne: "a \<noteq> []" "last a \<noteq> 0" "hd a \<noteq> 0" "b \<noteq> []" "last b \<noteq> 0" "hd b \<noteq> 0"
    and le: "length a \<le> length b" and sum: "lk + rk + (length a + length b) = length l + length r"
    and prod: "dval l * dval r = dval a * dval b * 2 ^ (32 * (lk + rk))"
    using ab ln rn by (auto simp: ab_def power_add split: if_splits)
  have ks: "lk + rk < 2 ^ 16" using sum less.prems(3) by simp
  show ?case
  proof (cases "length a \<le> 48")
    case True
    have "multsplit_biginthelper mm result l r = (Inr (), mult_biginthelper result a b (lk + rk))"
      unfolding multsplit_biginthelper.simps [of mm result l r] lo ro Let_def prod.case ab_def [symmetric] ab
      using True ks by simp
    moreover have len: "length a + length b \<le> length (digits result)" "length a + length b < 2 ^ 15"
      using sum less.prems(2,3) by simp_all
    ultimately show ?thesis
      unfolding prod using mult_biginthelper_val [OF inv ne(1,2,4,5) len ks] by simp
  next
    case long: False
    define s where "s = length a div 2"
    have s: "24 \<le> s" "2 * s \<le> length a" using long by (simp_all add: s_def)
    let ?a0 = "drop s a" and ?a1 = "split_low s a" and ?b0 = "drop s b" and ?b1 = "split_low s b"
    have ds: "?a0 \<noteq> []" "last ?a0 \<noteq> 0" "?b0 \<noteq> []" "last ?b0 \<noteq> 0" using s le ne by simp_all
    note la = split_low_val [OF ne(1,3), of s] and lb = split_low_val [OF ne(4,6), of s]
    have lens: "length ?a1 \<le> s" "length ?b1 \<le> s" by (rule length_split_low)+
    obtain x0 c0 where A0: "allocate_bigint mm None (length ?a0 + length ?b0) = (x0, c0)" by fastforce
    obtain y0 t0 where B0: "multsplit_biginthelper mm (the c0) ?a0 ?b0 = (y0, t0)" by fastforce
    obtain x1 c1 where A1: "allocate_bigint mm None (length ?a1 + length ?b1) = (x1, c1)" by fastforce
    obtain y1 t1 where B1: "multsplit_biginthelper mm (the c1) ?a1 ?b1 = (y1, t1)" by fastforce
    obtain x2 c2 where A2: "allocate_bigint mm None (length a - s + 1) = (x2, c2)" by fastforce
    obtain x3 c3 where A3: "allocate_bigint mm None (length b - s + 1) = (x3, c3)" by fastforce
    define t2 t3 where t23: "t2 = addsplit_biginthelper (the c2) 0 ?a0 ?a1"
      "t3 = addsplit_biginthelper (the c3) 0 ?b0 ?b1"
    obtain x4 c4 where A4: "allocate_bigint mm None
        (uint32_of_int (sign_and_used_digits t2) + uint32_of_int (sign_and_used_digits t3)) = (x4, c4)" by fastforce
    obtain y4 t4 where B4: "multsplit_biginthelper mm (the c4) (operand_digits t2) (operand_digits t3) = (y4, t4)"
      by fastforce
    note unf = multsplit_biginthelper.simps [of mm result l r] lo ro Let_def prod.case ab_def [symmetric] ab
      if_not_P [OF long] s_def [symmetric] A0 B0 A1 B1 A2 A3 t23 [symmetric] A4 B4
    show ?thesis
    proof (cases "isl x0 \<or> isl y0 \<or> isl x1 \<or> isl y1 \<or> isl x2 \<or> isl x3 \<or> isl x4 \<or> isl y4")
      case True
      then show ?thesis
        unfolding unf using inv by (auto simp del: multiplies.simps split: sum.split)
    next
      case False
      then have ok: "x0 = Inr ()" "y0 = Inr ()" "x1 = Inr ()" "y1 = Inr ()" "x2 = Inr ()" "x3 = Inr ()"
        "x4 = Inr ()" "y4 = Inr ()"
        by (metis old.unit.exhaust isl_def sum.exhaust)+
      have tot: "length a + length b \<le> length l + length r" "length a + length b < 2 ^ 15"
        using sum less.prems(3) by simp_all
      note F0 = fresh_number [OF A0 [unfolded ok]] and F1 = fresh_number [OF A1 [unfolded ok]]
        and F4 = fresh_number [OF A4 [unfolded ok]]
      have m0: "multiplies (Inr (), t0) (dval ?a0 * dval ?b0)"
        using less.hyps [of ?a0 ?b0 "the c0"] F0 ds s le tot B0 ok(2) by simp
      have m1: "multiplies (Inr (), t1) (dval ?a1 * dval ?b1)"
        using less.hyps [of ?a1 ?b1 "the c1"] F1 la(2,3) lb(2,3) s le tot lens B1 ok(4) by simp
      have n2: "max (length ?a0) (length ?a1) + 1 < 2 ^ 15" "max (length ?b0) (length ?b1) + 1 < 2 ^ 15"
        using s le tot lens by simp_all
      have s0: "0 < s" using s by simp
      note O2 = operand_addsplit [OF ds(1,2) la(2,3) [OF s0] n2(1), of "the c2", folded t23]
        and O3 = operand_addsplit [OF ds(3,4) lb(2,3) [OF s0] n2(2), of "the c3", folded t23]
      have dec: "length (operand_digits t2) + length (operand_digits t3) < length a + length b"
        unfolding t23 by (rule karatsuba_decreases [OF s_def _ le]) (use long in simp)
      have m4: "multiplies (Inr (), t4) (dval (operand_digits t2) * dval (operand_digits t3))"
        using less.hyps [of "operand_digits t2" "operand_digits t3" "the c4"] F4 O2(2-4) O3(2-4) dec tot B4 ok(8)
        by simp
      define L0 L1 R0 R1 where LR: "L0 = dval ?a0" "L1 = dval ?a1" "R0 = dval ?b0" "R1 = dval ?b1"
      have va: "dval a = L0 * 2 ^ (32 * s) + L1" "dval b = R0 * 2 ^ (32 * s) + R1"
        using dval_take_drop [of s a] dval_take_drop [of s b] s le la(1) lb(1) s0 by (simp_all add: LR)
      have pos: "0 < L0" "0 < R0" using dval_0_iff [of ?a0] dval_0_iff [of ?b0] ds last_in_set
        unfolding LR by (metis gr0I)+
      have B: "(L0 * 2 ^ (32 * s) + L1) * (R0 * 2 ^ (32 * s) + R1) < 2 ^ (32 * (length a + length b))"
        unfolding va [symmetric] distrib_left power_add
        using dval_bound [of a] dval_bound [of b] by (rule mult_strict_mono) simp_all
      have N: "length a + length b \<le> length (digits result)" "length a + length b + (lk + rk) < 2 ^ 15"
        using sum less.prems(2,3) by simp_all
      have iv: "bigint_inv t0" "bigint_inv t1" "bigint_inv t4"
        and bv: "bval t0 = int (L0 * R0)" "bval t1 = int (L1 * R1)" "bval t4 = int ((L0 + L1) * (R0 + R1))"
        using m0 m1 m4 by (simp_all add: LR O2(1) O3(1))
      have s2: "2 \<le> s" using s by simp
      have "multiplies (multsplit_combine mm result s (lk + rk) t0 t1 t4)
          ((L0 * 2 ^ (32 * s) + L1) * (R0 * 2 ^ (32 * s) + R1) * 2 ^ (32 * (lk + rk)))"
        by (rule multsplit_combine_val [OF inv iv bv pos _ _ _ _ s2 B N])
          (use la(4,5) lb(4,5) s0 in \<open>simp_all add: LR\<close>)
      then show ?thesis
        unfolding unf ok sum.case prod va .
    qed
  qed
qed


section \<open>Products of numbers\<close>

lemma reserve_bigint_state:
  assumes "bigint_inv big" and "reserve_bigint mm big n = (Inr u, big')"
  shows "bigint_inv big' \<and> n \<le> length (digits big') \<and> (allocated_digits big \<noteq> 0 \<longrightarrow> allocated_digits big' \<noteq> 0)"
proof (cases "allocated_digits big < n")
  case True
  obtain x b where a: "allocate_bigint mm (Some big) n = (x, Some b)" using allocate_bigint_result by blast
  then have "x = Inr ()" "b = big'" using assms(2) True by (simp_all add: reserve_bigint_def)
  then show ?thesis using allocate_bigint_Some [OF a] by (auto intro: bigint_inv_new)
next
  case False
  then have "big' = big" using assms(2) by (simp add: reserve_bigint_def)
  then show ?thesis using assms(1) False by (cases "allocated_digits big = 0") (auto simp: bigint_inv_def)
qed

lemma xorsign_negative: "xorsign_biginthelper a b < 0 \<longleftrightarrow> (a < 0) \<noteq> (b < 0)"
  unfolding xorsign_biginthelper_def xor_negative_int_iff by blast

lemma resign:
  fixes neg :: bool
  assumes inv: "bigint_inv b" and v: "bval b = int v" "0 < v" and e: "exponent b + k < 2 ^ 16"
  defines "b' \<equiv> b\<lparr>sign_and_used_digits := cast_int16 (if neg then - sign_and_used_digits b else sign_and_used_digits b),
      exponent := cast_uint16 (exponent b + k)\<rparr>"
  shows "bigint_inv b'" and "bval b' = (if neg then -1 else 1) * int (v * 2 ^ (32 * k))"
proof -
  note P = positive_number [OF inv v]
  note S = shifted_exponent [OF inv P(1) e]
  let ?s = "b\<lparr>exponent := cast_uint16 (exponent b + k)\<rparr>"
  have eq: "b' = ?s\<lparr>sign_and_used_digits := cast_int16 (if neg then - sign_and_used_digits ?s else sign_and_used_digits ?s)\<rparr>"
    by (simp add: b'_def)
  have a: "\<bar>if neg then - sign_and_used_digits ?s else sign_and_used_digits ?s\<bar> = \<bar>sign_and_used_digits ?s\<bar>"
    by simp
  show "bigint_inv b'" unfolding eq by (rule sign_change(1) [OF S(1) a])
  have "bval b' = sgn (if neg then - sign_and_used_digits ?s else sign_and_used_digits ?s) * \<bar>bval ?s\<bar>"
    unfolding eq by (rule sign_change(2) [OF S(1) a])
  then show "bval b' = (if neg then -1 else 1) * int (v * 2 ^ (32 * k))"
    unfolding S(2) v(1) using P(1) by (simp add: abs_mult)
qed

text \<open>
  What \<open>mult_bigint\<close> delivers. An error of a later allocation leaves the number 0 in the result.
\<close>

fun delivers_or_clears :: "bigint_t \<Rightarrow> unit cres \<times> bigint_t \<Rightarrow> int \<Rightarrow> bool" where
  "delivers_or_clears old (Inl err, new) v \<longleftrightarrow> bigint_inv new \<and> (new = old \<or> bval new = 0)"
| "delivers_or_clears old (Inr _, new) v \<longleftrightarrow> bigint_inv new \<and> bval new = v"

lemma mult_bigint_delivers:
  assumes inv: "bigint_inv result" "bigint_inv lbig" "bigint_inv rbig"
    and sz: "size_bigint lbig + size_bigint rbig < 2 ^ 16"
  shows "delivers_or_clears result (mult_bigint mm result lbig rbig) (bval lbig * bval rbig)"
proof -
  obtain lk ld where lo: "skip_zeros (take (nrdigits_bigint lbig) (digits lbig)) = (lk, ld)" by fastforce
  obtain rk rd where ro: "skip_zeros (take (nrdigits_bigint rbig) (digits rbig)) = (rk, rd)" by fastforce
  note L = operand [OF inv(2) lo] and R = operand [OF inv(3) ro]
  let ?expo = "exponent lbig + exponent rbig + lk + rk"
  define xs where "xs = xorsign_biginthelper (sign_and_used_digits lbig) (sign_and_used_digits rbig)"
  note unf = mult_bigint_def lo ro Let_def prod.case xs_def [symmetric]
  have abs0: "bval b = 0" if "bmag b = 0" for b using abs_bval [of b] that by simp
  show ?thesis
  proof (cases "rd = [] \<or> ld = []")
    case True
    then have "bval lbig * bval rbig = 0" using L(3) R(3) abs0 by auto
    then show ?thesis unfolding unf if_P [OF True] using inv(1) by simp
  next
    case ne: False
    then have ld: "ld \<noteq> []" "last ld \<noteq> 0" and rd: "rd \<noteq> []" "last rd \<noteq> 0" using L(2) R(2) by auto
    note unf = unf if_not_P [OF ne]
    show ?thesis
    proof (cases "?expo > 0xffff")
      case True
      then show ?thesis unfolding unf using inv(1) by simp
    next
      case e: False
      note unf = unf if_not_P [OF e]
      show ?thesis
      proof (rule reserve_bigint_cases [OF inv(1), of mm "length ld + length rd"], goal_cases)
        case (1 err)
        then show ?case unfolding unf using inv(1) by simp
      next
        case (2 big)
        have binv: "bigint_inv big" using reserve_bigint_state [OF inv(1) 2(1)] by blast
        obtain x res where m: "multsplit_biginthelper mm big ld rd = (x, res)" by fastforce
        have M: "multiplies (x, res) (dval ld * dval rd)"
          using multsplit_val [OF binv 2(2,4) ld rd, of mm] unfolding m .
        show ?case
        proof (cases x)
          case (Inl err)
          then show ?thesis unfolding unf 2(1) sum.case prod.case m using M by simp
        next
          case (Inr u)
          have res: "bigint_inv res" "bval res = int (dval ld * dval rd)" using M Inr by simp_all
          have "0 < dval ld" "0 < dval rd" using dval_0_iff ld rd last_in_set by (metis gr0I)+
          then have pos: "0 < dval ld * dval rd" by simp
          note P = positive_number [OF res pos]
          have "dval ld * dval rd < 2 ^ (32 * (length ld + length rd))"
            unfolding distrib_left power_add using dval_bound [of ld] dval_bound [of rd]
            by (rule mult_strict_mono) simp_all
          then have "size_bigint res \<le> length ld + length rd"
            using size_of_value [OF res(1) P(1)] P(3) by simp
          then have "exponent res + ?expo \<le> size_bigint lbig + size_bigint rbig"
            using order_of_operand [OF inv(2) lo] order_of_operand [OF inv(3) ro]
            by (simp add: size_bigint_def exponent_bigint_def)
          then have e16: "exponent res + ?expo < 2 ^ 16" using sz by simp
          have sgn: "xs < 0 \<longleftrightarrow> isnegative_bigint lbig \<noteq> isnegative_bigint rbig"
            unfolding xs_def xorsign_negative isnegative_bigint_def ..
          have "bval lbig * bval rbig = (if xs < 0 then -1 else 1) * int (bmag lbig * bmag rbig)"
            unfolding sgn using bval_sign [OF inv(2)] bval_sign [OF inv(3)] by simp
          also have "bmag lbig * bmag rbig = dval ld * dval rd * 2 ^ (32 * ?expo)"
            unfolding L(1) R(1) by (simp add: power_add algebra_simps)
          finally have v: "bval lbig * bval rbig = (if xs < 0 then -1 else 1) * int (dval ld * dval rd * 2 ^ (32 * ?expo))" .
          show ?thesis
            unfolding unf 2(1) sum.case prod.case m Inr delivers_or_clears.simps v
            using resign [OF res pos e16, of "xs < 0"] by blast
        qed
      qed
    qed
  qed
qed


subsection \<open>Success\<close>

text \<open>An object that may be resized stays one.\<close>

definition resizable :: "bigint_t \<Rightarrow> bool" where
  "resizable b \<longleftrightarrow> allocated_digits b \<noteq> 0"

lemma reserve_bigint_resizable:
  "bigint_inv big \<Longrightarrow> resizable big \<Longrightarrow> resizable (snd (reserve_bigint mm big n))"
proof -
  assume r: "resizable big"
  show ?thesis
  proof (cases "allocated_digits big < n")
    case True
    obtain x b where a: "allocate_bigint mm (Some big) n = (x, Some b)" using allocate_bigint_result by blast
    show ?thesis
      using allocate_bigint_Some [OF a] r True a by (auto simp: resizable_def reserve_bigint_def)
  qed (use r in \<open>simp add: reserve_bigint_def\<close>)
qed

lemma reserve_case_resizable:
  assumes "bigint_inv big" and "resizable big" and "\<And>u b. resizable b \<Longrightarrow> resizable (snd (f u b))"
  shows "resizable (snd (case reserve_bigint mm big n of (Inl err, b) \<Rightarrow> (Inl err, b) | (Inr u, b) \<Rightarrow> f u b))"
proof -
  obtain x b where r: "reserve_bigint mm big n = (x, b)" by fastforce
  have "resizable b" using reserve_bigint_resizable [OF assms(1,2), of mm n] r by simp
  then show ?thesis using assms(3) r by (cases x) auto
qed

lemma copy_bigint_resizable:
  "bigint_inv big \<Longrightarrow> resizable big \<Longrightarrow> resizable (snd (copy_bigint mm big from))"
  unfolding copy_bigint_def Let_def by (rule reserve_case_resizable) (simp_all add: resizable_def)

lemma copy_case_resizable:
  assumes "bigint_inv big" and "resizable big" and "\<And>u b. resizable b \<Longrightarrow> resizable (snd (f u b))"
  shows "resizable (snd (case copy_bigint mm big from of (Inl err, b) \<Rightarrow> (Inl err, b) | (Inr u, b) \<Rightarrow> f u b))"
proof -
  obtain x b where r: "copy_bigint mm big from = (x, b)" by fastforce
  have "resizable b" using copy_bigint_resizable [OF assms(1,2), of mm "from"] r by simp
  then show ?thesis using assms(3) r by (cases x) auto
qed

lemma control_resizable:
  "resizable (snd x) \<Longrightarrow> resizable (snd y) \<Longrightarrow> resizable (snd (if b then x else y))"
  "(\<And>a. resizable (snd (f a))) \<Longrightarrow> resizable (snd (Let v f))"
  "(\<And>a b. resizable (snd (g a b))) \<Longrightarrow> resizable (snd (case p of (a, b) \<Rightarrow> g a b))"
  by (simp_all split: prod.split)

lemma add_bigint_resizable:
  assumes "bigint_inv res" and "resizable res"
  shows "resizable (snd (add_bigint mm res l r))" and "resizable (snd (sub_bigint mm res l r))"
proof -
  have "resizable (snd (add_biginthelper mm res l r))"
    unfolding add_biginthelper_def
    by (rule reserve_case_resizable [OF assms] copy_case_resizable [OF assms] copy_bigint_resizable [OF assms]
        | rule control_resizable
        | (use assms(2) in \<open>simp add: setpositive_bigint_def resizable_def\<close>; fail))+
  moreover have "resizable (snd (sub_biginthelper mm res l r))"
    unfolding sub_biginthelper_def
    by (rule reserve_case_resizable [OF assms] copy_case_resizable [OF assms] copy_bigint_resizable [OF assms]
        | rule control_resizable
        | (use assms(2) in \<open>simp add: setnegative_bigint_def setPu32_bigint_def resizable_def\<close>; fail))+
  ultimately show "resizable (snd (add_bigint mm res l r))" and "resizable (snd (sub_bigint mm res l r))"
    by (simp_all add: add_bigint_def sub_bigint_def)
qed

lemma add_bigint_succeeds:
  assumes "bigint_inv l" and "bigint_inv r" and "generous mm" and "resizable result"
    and "size_bigint l < 2 ^ 15 - 1" and "size_bigint r < 2 ^ 15 - 1"
  shows "\<exists>b. add_bigint mm result l r = (Inr (), b)" and "\<exists>b. sub_bigint mm result l r = (Inr (), b)"
proof -
  have "fst (add_bigint mm result l r) = Inr () \<and> fst (sub_bigint mm result l r) = Inr ()"
    using add_biginthelper_succeeds [OF assms(1-3) _ assms(5,6)] sub_biginthelper_succeeds [OF assms(1-3) _ assms(5,6)]
      assms(4) unfolding resizable_def by (simp add: add_bigint_def sub_bigint_def)
  then show "\<exists>b. add_bigint mm result l r = (Inr (), b)" and "\<exists>b. sub_bigint mm result l r = (Inr (), b)"
    by (simp_all add: prod_eq_iff)
qed

lemma fresh_resizable: "allocate_bigint mm None n = (Inr u, b) \<Longrightarrow> resizable (the b)"
  using allocate_bigint_None [of mm n b] by (auto simp: resizable_def)

lemma multsplit_combine_succeeds:
  assumes inv: "bigint_inv result" "bigint_inv t0" "bigint_inv t1" "bigint_inv t4"
    and v: "bval t0 = int T0" "bval t1 = int T1" "bval t4 = int (T0 + T1 + M)"
    and pos: "0 < T0" "0 < T1" "0 < M"
    and N: "T0 * 2 ^ (32 * (2 * split)) + T1 < 2 ^ (32 * N)" "T0 + T1 + M < 2 ^ (32 * N)" "N < 2 ^ 15 - 1"
    and mm: "generous mm" "resizable result" "resizable t4" and d: "1 \<le> length (digits result)"
  shows "\<exists>b. multsplit_combine mm result split k t0 t1 t4 = (Inr (), b) \<and> resizable b"
proof -
  have size: "size_bigint b \<le> N" if "bigint_inv b" "bval b = int u" "0 < u" "u < 2 ^ (32 * N)" for b u
    using positive_number(1,3) [OF that(1-3)] size_of_value that(1,4) by blast
  have p2: "T0 \<le> T0 * 2 ^ (32 * (2 * split))" by simp
  have lt: "T0 < 2 ^ (32 * N)" "T1 < 2 ^ (32 * N)" "M + T1 < 2 ^ (32 * N)" using N(1,2) p2 by linarith+
  have p4: "0 < T0 + T1 + M" "0 < M + T1" using pos by simp_all
  note sz = size [OF inv(2) v(1) pos(1) lt(1)] size [OF inv(3) v(2) pos(2) lt(2)] size [OF inv(4) v(3) p4(1) N(2)]
  obtain r1 where s1: "sub_bigint mm result t4 t0 = (Inr (), r1)"
    using add_bigint_succeeds(2) [OF inv(4,2) mm(1,2)] sz N(3) by fastforce
  have r1: "bigint_inv r1" "bval r1 = int (M + T1)"
    using sub_bigint_delivers [OF inv(1,4,2) d, of mm] unfolding s1 v by simp_all
  have rr1: "resizable r1" using add_bigint_resizable(2) [OF inv(1) mm(2), of mm t4 t0] s1 by simp
  note sz1 = size [OF r1 p4(2) lt(3)]
  obtain m where s2: "sub_bigint mm t4 r1 t1 = (Inr (), m)"
    using add_bigint_succeeds(2) [OF r1(1) inv(3) mm(1,3)] sz sz1 N(3) by fastforce
  note P0 = positive_number [OF inv(2) v(1) pos(1)]
  have "2 ^ (32 * exponent t0) \<le> T0" using exponent_dvd [of t0] pos(1) unfolding P0(3) by (rule dvd_imp_le)
  then have "2 ^ (32 * exponent t0) * 2 ^ (32 * (2 * split)) \<le> T0 * 2 ^ (32 * (2 * split))" by simp
  then have "(2 :: nat) ^ (32 * exponent t0 + 32 * (2 * split)) < 2 ^ (32 * N)"
    unfolding power_add using N(1) by linarith
  then have "32 * exponent t0 + 32 * (2 * split) < 32 * N" by (rule power_less_imp_less_exp [rotated]) simp
  then have e0: "exponent t0 + 2 * split < 2 ^ 16" using N(3) by simp
  define t0' where "t0' = t0\<lparr>exponent := cast_uint16 (exponent t0 + 2 * split)\<rparr>"
  note t0' = shifted_exponent [OF inv(2) P0(1) e0, folded t0'_def]
  have v0: "bval t0' = int (T0 * 2 ^ (32 * (2 * split)))" unfolding t0'(2) v(1) by simp
  have "size_bigint t0' \<le> N" by (rule size [OF t0'(1) v0]) (use pos N(1) in simp_all)
  then obtain r2 where s3: "add_bigint mm r1 t0' t1 = (Inr (), r2)"
    using add_bigint_succeeds(1) [OF t0'(1) inv(3) mm(1) rr1] sz N(3) by fastforce
  have "resizable r2" using add_bigint_resizable(1) [OF r1(1) rr1, of mm t0' t1] s3 by simp
  then show ?thesis
    by (simp add: multsplit_combine_def s1 s2 s3 Let_def addsplit_biginthelper_def resizable_def split_beta
        flip: t0'_def)
qed


lemma multsplit_succeeds:
  assumes "bigint_inv result" and "length l + length r \<le> length (digits result)" and "length l + length r < 2 ^ 15 - 1"
    and "l \<noteq> []" and "last l \<noteq> 0" and "r \<noteq> []" and "last r \<noteq> 0" and mm: "generous mm" and "resizable result"
  shows "\<exists>b. multsplit_biginthelper mm result l r = (Inr (), b) \<and> resizable b"
  using assms
proof (induction "length l + length r" arbitrary: result l r rule: less_induct)
  case less
  note inv = less.prems(1)
  obtain lk l1 where lo: "skip_zeros l = (lk, l1)" by fastforce
  obtain rk r1 where ro: "skip_zeros r = (rk, r1)" by fastforce
  note ln = skip_zeros_nonempty [OF lo less.prems(4,5)] and rn = skip_zeros_nonempty [OF ro less.prems(6,7)]
  define ab where "ab = (if length l1 > length r1 then (r1, l1) else (l1, r1))"
  obtain a b where ab: "ab = (a, b)" by fastforce
  have ne: "a \<noteq> []" "last a \<noteq> 0" "hd a \<noteq> 0" "b \<noteq> []" "last b \<noteq> 0" "hd b \<noteq> 0"
    and le: "length a \<le> length b" and sum: "lk + rk + (length a + length b) = length l + length r"
    using ab ln rn by (auto simp: ab_def power_add split: if_splits)
  show ?case
  proof (cases "length a \<le> 48")
    case True
    then show ?thesis
      unfolding multsplit_biginthelper.simps [of mm result l r] lo ro Let_def prod.case ab_def [symmetric] ab
      using less.prems(9) by (simp add: mult_biginthelper_def resizable_def Let_def split_beta)
  next
    case long: False
    define s where "s = length a div 2"
    have s: "24 \<le> s" "2 * s \<le> length a" "0 < s" using long by (simp_all add: s_def)
    let ?a0 = "drop s a" and ?a1 = "split_low s a" and ?b0 = "drop s b" and ?b1 = "split_low s b"
    have ds: "?a0 \<noteq> []" "last ?a0 \<noteq> 0" "?b0 \<noteq> []" "last ?b0 \<noteq> 0" using s le ne by simp_all
    note la = split_low_val [OF ne(1,3) s(3)] and lb = split_low_val [OF ne(4,6) s(3)]
    have lens: "length ?a1 \<le> s" "length ?b1 \<le> s" by (rule length_split_low)+
    have tot: "length a + length b < 2 ^ 15 - 1" using sum less.prems(3) by simp
    have alloc: "\<exists>c. allocate_bigint mm None n = (Inr (), c)" if "n < 2 ^ 15" for n
      using allocate_bigint_None_succeeds [OF that mm] by blast
    obtain c0 where A0: "allocate_bigint mm None (length ?a0 + length ?b0) = (Inr (), c0)"
      using alloc tot by fastforce
    obtain c1 where A1: "allocate_bigint mm None (length ?a1 + length ?b1) = (Inr (), c1)"
      using alloc [of "length ?a1 + length ?b1"] tot s le lens by fastforce
    obtain c2 where A2: "allocate_bigint mm None (length a - s + 1) = (Inr (), c2)"
      using alloc [of "length a - s + 1"] tot by fastforce
    obtain c3 where A3: "allocate_bigint mm None (length b - s + 1) = (Inr (), c3)"
      using alloc [of "length b - s + 1"] tot s by fastforce
    define t2 t3 where t23: "t2 = addsplit_biginthelper (the c2) 0 ?a0 ?a1"
      "t3 = addsplit_biginthelper (the c3) 0 ?b0 ?b1"
    have n2: "max (length ?a0) (length ?a1) + 1 < 2 ^ 15" "max (length ?b0) (length ?b1) + 1 < 2 ^ 15"
      using s le tot lens by simp_all
    note O2 = operand_addsplit [OF ds(1,2) la(2,3) n2(1), of "the c2", folded t23]
      and O3 = operand_addsplit [OF ds(3,4) lb(2,3) n2(2), of "the c3", folded t23]
    have dec: "length (operand_digits t2) + length (operand_digits t3) < length a + length b"
      unfolding t23 by (rule karatsuba_decreases [OF s_def _ le]) (use long in simp)
    obtain c4 where A4: "allocate_bigint mm None
        (uint32_of_int (sign_and_used_digits t2) + uint32_of_int (sign_and_used_digits t3)) = (Inr (), c4)"
      using alloc dec tot unfolding O2(4) [symmetric] O3(4) [symmetric] by fastforce
    note F0 = fresh_number [OF A0] fresh_resizable [OF A0] and F1 = fresh_number [OF A1] fresh_resizable [OF A1]
      and F4 = fresh_number [OF A4] fresh_resizable [OF A4]
    obtain t0 where B0: "multsplit_biginthelper mm (the c0) ?a0 ?b0 = (Inr (), t0)"
      using less.hyps [of ?a0 ?b0 "the c0"] F0 ds s le tot sum mm by fastforce
    obtain t1 where B1: "multsplit_biginthelper mm (the c1) ?a1 ?b1 = (Inr (), t1)"
      using less.hyps [of ?a1 ?b1 "the c1"] F1 la(2,3) lb(2,3) s le tot sum lens mm by fastforce
    obtain t4 where B4: "multsplit_biginthelper mm (the c4) (operand_digits t2) (operand_digits t3) = (Inr (), t4)"
        "resizable t4"
      using less.hyps [of "operand_digits t2" "operand_digits t3" "the c4"] F4 O2(2-4) O3(2-4) dec tot sum mm
      by fastforce
    define L0 L1 R0 R1 where LR: "L0 = dval ?a0" "L1 = dval ?a1" "R0 = dval ?b0" "R1 = dval ?b1"
    define X where "X = (2 :: nat) ^ (32 * s)"
    have XX: "(2 :: nat) ^ (32 * (2 * s)) = X * X"
      unfolding X_def power_add [symmetric] by (simp add: mult_2)
    have X: "1 \<le> X" "0 < X" by (simp_all add: X_def)
    have va: "dval a = L0 * X + L1" "dval b = R0 * X + R1"
      using dval_take_drop [of s a] dval_take_drop [of s b] s le la(1) lb(1) by (simp_all add: LR X_def)
    have pos: "0 < L0" "0 < R0" "0 < L1" "0 < R1"
      using dval_0_iff ds la(2,3) lb(2,3) last_in_set unfolding LR by (metis gr0I)+
    have B: "(L0 * X + L1) * (R0 * X + R1) < 2 ^ (32 * (length a + length b))"
      unfolding va [symmetric] distrib_left power_add
      using dval_bound [of a] dval_bound [of b] by (rule mult_strict_mono) simp_all
    have "multiplies (Inr (), t0) (dval ?a0 * dval ?b0)"
      using multsplit_val [OF F0(1) _ _ ds, of mm] F0(2) tot unfolding B0 by simp
    moreover have "multiplies (Inr (), t1) (dval ?a1 * dval ?b1)"
      using multsplit_val [OF F1(1) _ _ la(2,3) lb(2,3), of mm] F1(2) tot s le lens unfolding B1 by simp
    moreover have "multiplies (Inr (), t4) (dval (operand_digits t2) * dval (operand_digits t3))"
      using multsplit_val [OF F4(1) _ _ O2(2,3) O3(2,3), of mm] F4(2) tot dec O2(4) O3(4) unfolding B4(1) by simp
    ultimately have iv: "bigint_inv t0" "bigint_inv t1" "bigint_inv t4"
      and bv: "bval t0 = int (L0 * R0)" "bval t1 = int (L1 * R1)"
        "bval t4 = int (L0 * R0 + L1 * R1 + (L0 * R1 + L1 * R0))"
      by (simp_all add: LR O2(1) O3(1) algebra_simps)
    have "L0 * R0 * (X * X) + L1 * R1 \<le> (L0 * X + L1) * (R0 * X + R1)" by (simp add: algebra_simps)
    then have N1: "L0 * R0 * 2 ^ (32 * (2 * s)) + L1 * R1 < 2 ^ (32 * (length a + length b))"
      unfolding XX using B by linarith
    have "(L0 + L1) * (R0 + R1) \<le> (L0 * X + L1) * (R0 * X + R1)"
      using X by (intro mult_le_mono add_mono) simp_all
    then have N2: "L0 * R0 + L1 * R1 + (L0 * R1 + L1 * R0) < 2 ^ (32 * (length a + length b))"
      using B by (simp add: algebra_simps)
    have p: "0 < L0 * R0" "0 < L1 * R1" "0 < L0 * R1 + L1 * R0" using pos by simp_all
    have d: "1 \<le> length (digits result)" using less.prems(2,4) by (cases l) simp_all
    have t4: "resizable t4" by (rule B4(2))
    obtain res where c: "multsplit_combine mm result s (lk + rk) t0 t1 t4 = (Inr (), res)" "resizable res"
      using multsplit_combine_succeeds [OF inv iv bv p N1 N2 tot mm less.prems(9) t4 d] by blast
    show ?thesis
      unfolding multsplit_biginthelper.simps [of mm result l r] lo ro Let_def prod.case ab_def [symmetric] ab
        if_not_P [OF long] s_def [symmetric] A0 B0 A1 B1 A2 A3 t23 [symmetric] A4 B4(1) sum.case
      using c by blast
  qed
qed


section \<open>Properties\<close>

text \<open>C29: \<open>multui32_bigint\<close> writes the product with a digit.
\<close>

theorem multui32_bigint_multiplies:
  assumes "bigint_inv result" and "bigint_inv lbig"
  shows "delivers result (multui32_bigint mm result lbig factor) (bval lbig * uint factor)"
  using multui32_delivers [OF assms, of mm factor] by simp

lemma multui32_bigint_multiplies_witness:
  "delivers \<lparr>allocated_digits = 4, sign_and_used_digits = 0, exponent = 0, digits = [7, 7, 7, 7]\<rparr>
     (multui32_bigint \<lparr>mm_refuses = \<lambda>_. None, mm_moves = \<lambda>_. True, mm_fill = \<lambda>_. 3\<rparr>
        \<lparr>allocated_digits = 4, sign_and_used_digits = 0, exponent = 0, digits = [7, 7, 7, 7]\<rparr>
        \<lparr>allocated_digits = 0, sign_and_used_digits = -2, exponent = 1, digits = [0xffffffff, 0xffffffff]\<rparr> 0x80000000)
     (- ((2 ^ 64 - 1) * 2 ^ 32 * 2 ^ 31))"
proof -
  let ?b = "\<lparr>allocated_digits = 4, sign_and_used_digits = 0, exponent = 0, digits = [7, 7, 7, 7]\<rparr> :: bigint_t"
  let ?l = "\<lparr>allocated_digits = 0, sign_and_used_digits = -2, exponent = 1, digits = [0xffffffff, 0xffffffff]\<rparr> :: bigint_t"
  have inv: "bigint_inv ?b" "bigint_inv ?l" by (simp_all add: bigint_inv_def nrdigits_bigint_def)
  have v: "bval ?l * uint (0x80000000 :: u32) = - ((2 ^ 64 - 1) * 2 ^ 32 * 2 ^ 31)"
    by (simp add: bval_def bmag_def used_digits_def nrdigits_bigint_def)
  from multui32_bigint_multiplies [OF inv] show ?thesis unfolding v [symmetric] by blast
qed

text \<open>C27: \<open>mult_bigint\<close> writes the product of its operands, whichever algorithm their sizes choose; after
  an error the result is as it was or 0, and the invariant holds.
\<close>

theorem mult_bigint_multiplies:
  assumes "bigint_inv result" and "bigint_inv lbig" and "bigint_inv rbig"
    and "size_bigint lbig + size_bigint rbig < 2 ^ 16"
  shows "delivers_or_clears result (mult_bigint mm result lbig rbig) (bval lbig * bval rbig)"
  by (rule mult_bigint_delivers [OF assms])

lemma mult_bigint_multiplies_witness:
  "delivers_or_clears \<lparr>allocated_digits = 4, sign_and_used_digits = 0, exponent = 0, digits = [7, 7, 7, 7]\<rparr>
     (mult_bigint \<lparr>mm_refuses = \<lambda>_. None, mm_moves = \<lambda>_. True, mm_fill = \<lambda>_. 3\<rparr>
        \<lparr>allocated_digits = 4, sign_and_used_digits = 0, exponent = 0, digits = [7, 7, 7, 7]\<rparr>
        \<lparr>allocated_digits = 0, sign_and_used_digits = -2, exponent = 1, digits = [0xffffffff, 0xffffffff]\<rparr>
        \<lparr>allocated_digits = 0, sign_and_used_digits = 1, exponent = 0, digits = [2]\<rparr>)
     (- ((2 ^ 64 - 1) * 2 ^ 32 * 2))"
proof -
  let ?b = "\<lparr>allocated_digits = 4, sign_and_used_digits = 0, exponent = 0, digits = [7, 7, 7, 7]\<rparr> :: bigint_t"
  let ?l = "\<lparr>allocated_digits = 0, sign_and_used_digits = -2, exponent = 1, digits = [0xffffffff, 0xffffffff]\<rparr> :: bigint_t"
  let ?r = "\<lparr>allocated_digits = 0, sign_and_used_digits = 1, exponent = 0, digits = [2]\<rparr> :: bigint_t"
  have inv: "bigint_inv ?b" "bigint_inv ?l" "bigint_inv ?r" by (simp_all add: bigint_inv_def nrdigits_bigint_def)
  have v: "bval ?l * bval ?r = - ((2 ^ 64 - 1) * 2 ^ 32 * 2)"
    by (simp add: bval_def bmag_def used_digits_def nrdigits_bigint_def)
  have "size_bigint ?l + size_bigint ?r < 2 ^ 16"
    by (simp add: size_bigint_def exponent_bigint_def nrdigits_bigint_def)
  from mult_bigint_multiplies [OF inv this] show ?thesis unfolding v [symmetric] by blast
qed

text \<open>C28: With memory at hand and a resizable result, the product of numbers with fewer than
  \<open>2 ^ 15 - 1\<close> digits together is always computed: the recursion of the splitting algorithm ends
  and none of its steps fails.
\<close>

theorem mult_bigint_succeeds:
  assumes "bigint_inv result" and "bigint_inv lbig" and "bigint_inv rbig" and "generous mm"
    and "allocated_digits result \<noteq> 0" and "size_bigint lbig + size_bigint rbig < 2 ^ 15 - 1"
  shows "fst (mult_bigint mm result lbig rbig) = Inr () \<and> fst (multui32_bigint mm result lbig factor) = Inr ()"
proof
  obtain lk ld where lo: "skip_zeros (take (nrdigits_bigint lbig) (digits lbig)) = (lk, ld)" by fastforce
  obtain rk rd where ro: "skip_zeros (take (nrdigits_bigint rbig) (digits rbig)) = (rk, rd)" by fastforce
  note L = operand [OF assms(2) lo] and R = operand [OF assms(3) ro]
  note o = order_of_operand [OF assms(2) lo] order_of_operand [OF assms(3) ro]
  note unf = mult_bigint_def lo ro Let_def prod.case
  show "fst (mult_bigint mm result lbig rbig) = Inr ()"
  proof (cases "rd = [] \<or> ld = []")
    case True
    then show ?thesis unfolding unf by simp
  next
    case ne: False
    have e: "\<not> exponent lbig + exponent rbig + lk + rk > 0xffff" using o assms(6) by simp
    have n: "length ld + length rd < 2 ^ 15 - 1" using o assms(6) by simp
    then obtain big where b: "reserve_bigint mm result (length ld + length rd) = (Inr (), big)"
      using reserve_bigint_Inr [OF _ assms(4,5)] by fastforce
    have big: "bigint_inv big \<and> resizable big \<and> length ld + length rd \<le> length (digits big)"
      using reserve_bigint_state [OF assms(1) b] assms(5) by (simp add: resizable_def)
    obtain res where "multsplit_biginthelper mm big ld rd = (Inr (), res)"
      using multsplit_succeeds [of big ld rd mm] big n ne L(2) R(2) assms(4) by blast
    then show ?thesis unfolding unf if_not_P [OF ne] if_not_P [OF e] b by simp
  qed
  have "1 + nrdigits_bigint lbig < 2 ^ 15"
    using assms(6) by (simp add: size_bigint_def)
  then obtain big where "reserve_bigint mm result (1 + nrdigits_bigint lbig) = (Inr (), big)"
    using reserve_bigint_Inr [OF _ assms(4,5)] by blast
  then show "fst (multui32_bigint mm result lbig factor) = Inr ()"
    by (simp add: multui32_bigint_def Let_def split_beta)
qed

lemma mult_bigint_succeeds_witness:
  "fst (mult_bigint \<lparr>mm_refuses = \<lambda>_. None, mm_moves = \<lambda>_. True, mm_fill = \<lambda>_. 3\<rparr>
        \<lparr>allocated_digits = 4, sign_and_used_digits = 0, exponent = 0, digits = [7, 7, 7, 7]\<rparr>
        \<lparr>allocated_digits = 0, sign_and_used_digits = -2, exponent = 1, digits = [0xffffffff, 0xffffffff]\<rparr>
        \<lparr>allocated_digits = 0, sign_and_used_digits = 1, exponent = 0, digits = [2]\<rparr>) = Inr ()"
proof -
  let ?mm = "\<lparr>mm_refuses = \<lambda>_. None, mm_moves = \<lambda>_. True, mm_fill = \<lambda>_. 3\<rparr> :: mm_t"
  let ?b = "\<lparr>allocated_digits = 4, sign_and_used_digits = 0, exponent = 0, digits = [7, 7, 7, 7]\<rparr> :: bigint_t"
  let ?l = "\<lparr>allocated_digits = 0, sign_and_used_digits = -2, exponent = 1, digits = [0xffffffff, 0xffffffff]\<rparr> :: bigint_t"
  let ?r = "\<lparr>allocated_digits = 0, sign_and_used_digits = 1, exponent = 0, digits = [2]\<rparr> :: bigint_t"
  have inv: "bigint_inv ?b" "bigint_inv ?l" "bigint_inv ?r" by (simp_all add: bigint_inv_def nrdigits_bigint_def)
  have "generous ?mm" "allocated_digits ?b \<noteq> 0" "size_bigint ?l + size_bigint ?r < 2 ^ 15 - 1"
    by (simp_all add: generous_def size_bigint_def exponent_bigint_def nrdigits_bigint_def)
  from mult_bigint_succeeds [OF inv this] show ?thesis by blast
qed

end
