(* ===== verification/Big_Div_Ring.thy ===== *)
theory Big_Div_Ring
  imports Big_Set "HOL-Library.Monad_Syntax"
begin

text \<open>
  The digits of a quotient, C-kern/math/int/bigint.c: the loop of \<open>divmod_biginthelper\<close> with its
  helpers, and its correctness. A quotient digit is estimated from the three highest
  digits of the dividend and the two highest of the divisor and corrected when the lower digits
  show that it is one too large. The digits of the dividend are a ring buffer: a digit that has
  moved into the register \<open>dividend\<close> is replaced by 0, so that the digits continue with zeros
  for ever. A read or write outside an array is the result \<open>None\<close>.
\<close>

section \<open>The state of a division\<close>

record bigint_divstate_t =
  dividend :: u64
  divisor :: u64
  nextdigit :: u32
  loffset :: nat
  lnrdigits :: nat
  rnrdigits :: nat
  ldigits :: "u32 list"
  rdigits :: "u32 list"

text \<open>One round of the bitwise division of three digits by two, on \<open>quot\<close>, \<open>dividend\<close> and \<open>nextdigit\<close>.\<close>

definition div3by2_round :: "u64 \<Rightarrow> u32 \<times> u64 \<times> u32 \<Rightarrow> u32 \<times> u64 \<times> u32" where
  "div3by2_round dvs = (\<lambda>(quot, dd, next).
     let quot = push_bit 1 quot;
         isHighbit = (0 \<noteq> dd AND 0x8000000000000000);
         dd = push_bit 1 dd;
         dd = dd + of_bool (0 \<noteq> next AND 0x80000000);
         next = push_bit 1 next
     in if isHighbit \<or> dd \<ge> dvs then (quot + 1, dd - dvs, next) else (quot, dd, next))"

definition div3by2digits_biginthelper :: "bigint_divstate_t \<Rightarrow> bigint_divstate_t" where
  "div3by2digits_biginthelper st =
     (let (quot, dd, next) = (div3by2_round (divisor st) ^^ 32) (0, dividend st, nextdigit st)
      in st\<lparr>dividend := dd, nextdigit := quot\<rparr>)"

section \<open>Multiply and subtract\<close>

text \<open>
  The four loops of \<open>submul_biginthelper\<close> walk through the ring from index \<open>i\<close> to \<open>loffset\<close> and
  through the digits of the divisor; they differ in the body \<open>f\<close>, which gets the carry, the digit
  of the ring and the digit of the divisor.
\<close>

primrec ring_loop :: "('c \<Rightarrow> u32 \<Rightarrow> u32 \<Rightarrow> u32 \<times> 'c) \<Rightarrow> nat \<Rightarrow> nat \<Rightarrow> u32 list \<Rightarrow> int \<Rightarrow> 'c \<Rightarrow> u32 list \<Rightarrow> (u32 list \<times> 'c) option" where
  "ring_loop f lnr loff [] i c ds = (if i = int loff then Some (ds, c) else None)"
| "ring_loop f lnr loff (r # rs) i c ds =
     (if i = int loff then Some (ds, c)
      else let i = (if i = int lnr then 0 else i)
           in if 0 \<le> i \<and> i < int (length ds) then
                let (d, c) = f c (ds ! nat i) r
                in ring_loop f lnr loff rs (i + 1) c (ds[nat i := d])
              else None)"

definition submul_product :: "u32 \<Rightarrow> u32 \<Rightarrow> u32 \<Rightarrow> u32 \<Rightarrow> u32 \<times> u32" where
  "submul_product next carry d r =
     (let product = (ucast r * ucast next + ucast carry :: u64);
          carry = of_bool (d < ucast product) + ucast (drop_bit 32 product)
      in (d - ucast product, carry))"

definition submul_once :: "u32 \<Rightarrow> u32 \<Rightarrow> u32 \<Rightarrow> u32 \<times> u32" where
  "submul_once carry d r =
     (let diff = uint d - uint r - uint carry
      in (word_of_int diff, of_bool (diff < 0)))"

definition submul_max :: "u32 \<times> u32 \<Rightarrow> u32 \<Rightarrow> u32 \<Rightarrow> u32 \<times> u32 \<times> u32" where
  "submul_max = (\<lambda>(lastdigit, carry) d r.
     let diff = (ucast d + ucast r - ucast lastdigit + ucast carry - 1 :: u64)
     in (ucast diff, r, ucast (drop_bit 32 diff) + 1))"

definition submul_correct :: "u32 \<Rightarrow> u32 \<Rightarrow> u32 \<Rightarrow> u32 \<times> u32" where
  "submul_correct carry d r =
     (let sum = (ucast d + ucast r + ucast carry :: u64)
      in (ucast sum, ucast (drop_bit 32 sum)))"

text \<open>The index of the lowest digit of the divisor in the ring.\<close>

definition ring_start :: "bigint_divstate_t \<Rightarrow> int" where
  "ring_start st =
     (let i = int (loffset st) + 2 - int (rnrdigits st)
      in if i < 0 then i + int (lnrdigits st) else i)"

definition submul_biginthelper :: "bigint_divstate_t \<Rightarrow> bigint_divstate_t option" where
  "submul_biginthelper st =
     (if rnrdigits st > 2 then do {
        (st, carry) \<leftarrow>
          if nextdigit st > 1 then do {
            (ds, carry) \<leftarrow> ring_loop (submul_product (nextdigit st)) (lnrdigits st) (loffset st) (rdigits st)
                             (ring_start st) 0 (ldigits st);
            Some (st\<lparr>ldigits := ds\<rparr>, carry) }
          else if nextdigit st \<noteq> 0 then do {
            (ds, carry) \<leftarrow> ring_loop submul_once (lnrdigits st) (loffset st) (rdigits st)
                             (ring_start st) 0 (ldigits st);
            Some (st\<lparr>ldigits := ds\<rparr>, carry) }
          else do {
            (ds, lastdigit, carry) \<leftarrow> ring_loop submul_max (lnrdigits st) (loffset st) (rdigits st)
                             (ring_start st) (0, 1) (ldigits st);
            Some (st\<lparr>ldigits := ds, dividend := dividend st - ucast lastdigit - 1 + ucast carry,
                     nextdigit := nextdigit st - 1\<rparr>, 0) };
        if ucast carry \<le> dividend st then Some (st\<lparr>dividend := dividend st - ucast carry\<rparr>)
        else do {
          let st = st\<lparr>dividend := dividend st - ucast carry, nextdigit := nextdigit st - 1\<rparr>;
          (ds, carry) \<leftarrow> ring_loop submul_correct (lnrdigits st) (loffset st) (rdigits st)
                           (ring_start st) 0 (ldigits st);
          Some (st\<lparr>ldigits := ds, dividend := dividend st + divisor st + ucast carry\<rparr>) } }
      else Some st)"

section \<open>The digits of the quotient\<close>

definition quot_rem :: "bigint_divstate_t \<Rightarrow> bigint_divstate_t" where
  "quot_rem st = st\<lparr>nextdigit := ucast (dividend st div divisor st), dividend := dividend st mod divisor st\<rparr>"

definition wrap_loffset :: "bigint_divstate_t \<Rightarrow> bigint_divstate_t" where
  "wrap_loffset st = (if loffset st = 0 then st\<lparr>loffset := lnrdigits st\<rparr> else st)"

text \<open>The highest digit, and whether the quotient has one digit less because it is 0.\<close>

definition divmod_first :: "bigint_divstate_t \<Rightarrow> (bool \<times> bigint_divstate_t) option" where
  "divmod_first st =
     (if divisor st < dividend st then do {
        st \<leftarrow> submul_biginthelper (quot_rem st);
        Some (False, st) }
      else if divisor st = dividend st then do {
        st \<leftarrow> submul_biginthelper (st\<lparr>nextdigit := 1, dividend := 0\<rparr>);
        Some (nextdigit st = 0, st) }
      else Some (True, st))"

text \<open>The body of the loop for one digit.\<close>

definition divmod_next :: "bigint_divstate_t \<Rightarrow> bigint_divstate_t option" where
  "divmod_next st =
     (if loffset st = 0 \<or> loffset st > length (ldigits st) then None
      else
        let off = loffset st - 1;
            st = wrap_loffset (st\<lparr>loffset := off, nextdigit := ldigits st ! off, ldigits := (ldigits st)[off := 0]\<rparr>)
        in if (ucast (drop_bit 32 (dividend st)) :: u32) \<noteq> 0 then
             if dividend st = divisor st then
               submul_biginthelper (st\<lparr>dividend := dividend st + ucast (nextdigit st), nextdigit := 0\<rparr>)
             else submul_biginthelper (div3by2digits_biginthelper st)
           else if (ucast (dividend st) :: u32) \<noteq> 0 then
             let st = st\<lparr>dividend := push_bit 32 (dividend st) + ucast (nextdigit st)\<rparr>
             in if divisor st \<le> dividend st then submul_biginthelper (quot_rem st)
                else Some (st\<lparr>nextdigit := 0\<rparr>)
           else Some (st\<lparr>dividend := ucast (nextdigit st), nextdigit := 0\<rparr>))"

text \<open>The digits come from the highest one down; \<open>qs\<close> are the digits so far.\<close>

primrec divmod_loop :: "nat \<Rightarrow> bigint_divstate_t \<Rightarrow> u32 list \<Rightarrow> (bigint_divstate_t \<times> u32 list) option" where
  "divmod_loop 0 st qs = Some (st, qs)"
| "divmod_loop (Suc n) st qs = do {
     st \<leftarrow> divmod_next st;
     divmod_loop n st (nextdigit st # qs) }"

section \<open>The ring\<close>

text \<open>
  The digits below the register in the order of their weight: the ring read from \<open>loffset\<close> on. The
  loops change the highest of them.
\<close>

definition ring_from :: "nat \<Rightarrow> u32 list \<Rightarrow> u32 list" where
  "ring_from loff ds = drop loff ds @ take loff ds"

fun list_loop :: "('c \<Rightarrow> u32 \<Rightarrow> u32 \<Rightarrow> u32 \<times> 'c) \<Rightarrow> 'c \<Rightarrow> u32 list \<Rightarrow> u32 list \<Rightarrow> u32 list \<times> 'c" where
  "list_loop f c (d # ds) (r # rs) =
     (let (x, c) = f c d r; (xs, c) = list_loop f c ds rs in (x # xs, c))"
| "list_loop f c ds rs = ([], c)"

lemma length_list_loop: "length ds \<le> length rs \<Longrightarrow> list_loop f c ds rs = (w, c') \<Longrightarrow> length w = length ds"
  by (induction f c ds rs arbitrary: w c' rule: list_loop.induct) (auto split: prod.splits)

lemma ring_loop_straight:
  "i \<le> loff \<Longrightarrow> loff \<le> length ds \<Longrightarrow> loff \<le> lnr \<Longrightarrow> loff - i \<le> length rs \<Longrightarrow>
   ring_loop f lnr loff rs (int i) c ds =
     (let (w, c) = list_loop f c (take (loff - i) (drop i ds)) rs in Some (take i ds @ w @ drop loff ds, c))"
proof (induction rs arbitrary: i c ds)
  case Nil
  then show ?case by simp
next
  case (Cons r rs)
  show ?case
  proof (cases "i = loff")
    case False
    then have i: "i < length ds" "i < loff" "i \<noteq> lnr" using Cons.prems by simp_all
    obtain x c1 where f: "f c (ds ! i) r = (x, c1)" by fastforce
    have t: "take (loff - i) (drop i ds) = ds ! i # take (loff - Suc i) (drop (Suc i) ds)"
      using i by (metis Cons_nth_drop_Suc Suc_diff_Suc take_Suc_Cons)
    have "ring_loop f lnr loff (r # rs) (int i) c ds = ring_loop f lnr loff rs (int (Suc i)) c1 (ds[i := x])"
      using i f by (simp add: add.commute)
    also have "\<dots> = (let (w, c) = list_loop f c1 (take (loff - Suc i) (drop (Suc i) (ds[i := x]))) rs
      in Some (take (Suc i) (ds[i := x]) @ w @ drop loff (ds[i := x]), c))"
      by (rule Cons.IH) (use Cons.prems i in simp_all)
    finally show ?thesis
      using i by (simp add: t f split_beta take_Suc_conv_app_nth drop_update_cancel)
  qed simp
qed

lemma ring_loop_wrapped:
  "loff < i \<Longrightarrow> i \<le> length ds \<Longrightarrow> lnr = length ds \<Longrightarrow> 0 < loff \<Longrightarrow> (lnr - i) + loff \<le> length rs \<Longrightarrow>
   ring_loop f lnr loff rs (int i) c ds =
     (let (w, c) = list_loop f c (drop i ds @ take loff ds) rs
      in Some (drop (lnr - i) w @ take (i - loff) (drop loff ds) @ take (lnr - i) w, c))"
proof (induction "lnr - i" arbitrary: rs i c ds)
  case 0
  then have i: "i = lnr" by simp
  have "ring_loop f lnr loff rs (int i) c ds = ring_loop f lnr loff rs (int 0) c ds"
    using 0 i by (cases rs) auto
  also have "\<dots> = (let (w, c) = list_loop f c (take (loff - 0) (drop 0 ds)) rs in Some (take 0 ds @ w @ drop loff ds, c))"
    by (rule ring_loop_straight) (use 0 i in simp_all)
  finally show ?case using 0 i by (simp add: split_beta Let_def)
next
  case (Suc n)
  then have i: "i < length ds" "i \<noteq> loff" "i \<noteq> lnr" by simp_all
  obtain r rs' where rs: "rs = r # rs'" using Suc.prems(5) Suc.hyps(2) by (cases rs) auto
  obtain x c1 where f: "f c (ds ! i) r = (x, c1)" by fastforce
  have d: "drop i ds = ds ! i # drop (Suc i) ds" using i by (simp add: Cons_nth_drop_Suc)
  have k: "lnr - i = Suc (lnr - Suc i)" using Suc.hyps(2) by simp
  have "ring_loop f lnr loff rs (int i) c ds = ring_loop f lnr loff rs' (int (Suc i)) c1 (ds[i := x])"
    using i f rs by (simp add: add.commute)
  also have "\<dots> = (let (w, c) = list_loop f c1 (drop (Suc i) (ds[i := x]) @ take loff (ds[i := x])) rs'
    in Some (drop (lnr - Suc i) w @ take (Suc i - loff) (drop loff (ds[i := x])) @ take (lnr - Suc i) w, c))"
    by (rule Suc.hyps(1)) (use Suc.prems Suc.hyps(2) rs in auto)
  also have "take (Suc i - loff) (drop loff (ds[i := x])) = take (i - loff) (drop loff ds) @ [x]"
    using i Suc.prems(1) by (simp add: Suc_diff_le take_Suc_conv_app_nth drop_update_swap)
  finally show ?case
    using i Suc.prems(1) by (simp add: rs f d k split_beta Let_def)
qed

text \<open>The loops change the highest \<open>rnrdigits - 2\<close> digits of the ring.\<close>

lemma ring_loop_window:
  assumes "2 \<le> rnrdigits st" "rnrdigits st \<le> lnrdigits st" "lnrdigits st = length ds"
    and "1 \<le> loffset st" "loffset st \<le> lnrdigits st" and rs: "length rs = rnrdigits st"
    and w: "list_loop f c (drop (length ds + 2 - rnrdigits st) (ring_from (loffset st) ds)) rs = (w, c')"
  shows "\<exists>ds'. ring_loop f (lnrdigits st) (loffset st) rs (ring_start st) c ds = Some (ds', c') \<and> length ds' = length ds \<and>
    ring_from (loffset st) ds' = take (length ds + 2 - rnrdigits st) (ring_from (loffset st) ds) @ w"
proof -
  define n where "n = rnrdigits st - 2"
  define loff where "loff = loffset st"
  have n: "n < length ds" "rnrdigits st = n + 2" "loff \<le> length ds" "1 \<le> loff"
    using assms(1-5) by (simp_all add: n_def loff_def)
  have w: "list_loop f c (drop (length ds - n) (ring_from loff ds)) rs = (w, c')"
    using w n by (simp add: loff_def)
  have lw: "length w = n"
    using length_list_loop [OF _ w] n rs by (simp add: ring_from_def)
  show ?thesis
  proof (cases "n \<le> loff")
    case True
    define i where "i = loff - n"
    have win: "drop (length ds - n) (ring_from loff ds) = take (loff - i) (drop i ds)"
      using True n by (simp add: ring_from_def i_def drop_take)
    have s: "ring_start st = int i" using True n by (simp add: ring_start_def i_def loff_def)
    have "ring_loop f (lnrdigits st) loff rs (int i) c ds = Some (take i ds @ w @ drop loff ds, c')"
      using ring_loop_straight [of i loff ds "lnrdigits st" rs f c] w n rs assms(3) by (simp add: win i_def)
    moreover have "ring_from loff (take i ds @ w @ drop loff ds) = take (length ds - n) (ring_from loff ds) @ w"
      using True n lw by (cases "n = 0") (simp_all add: ring_from_def i_def take_drop)
    ultimately show ?thesis using True n lw by (simp add: s loff_def [symmetric] i_def)
  next
    case False
    define i where "i = loff + length ds - n"
    have i: "loff < i" "i \<le> length ds" using False n by (simp_all add: i_def)
    have win: "drop (length ds - n) (ring_from loff ds) = drop i ds @ take loff ds"
      using False n by (simp add: ring_from_def i_def add.commute)
    have s: "ring_start st = int i" using False n assms(3) by (simp add: ring_start_def i_def loff_def)
    have "ring_loop f (lnrdigits st) loff rs (int i) c ds =
      Some (drop (length ds - i) w @ take (i - loff) (drop loff ds) @ take (length ds - i) w, c')"
      using ring_loop_wrapped [of loff i ds "lnrdigits st" rs f c] w n rs assms(3) i by (simp add: win i_def)
    moreover have "ring_from loff (drop (length ds - i) w @ take (i - loff) (drop loff ds) @ take (length ds - i) w) =
      take (length ds - n) (ring_from loff ds) @ w"
      using False n lw by (simp add: ring_from_def i_def)
    ultimately show ?thesis using False n lw i by (simp add: s loff_def [symmetric]) (simp add: i_def)
  qed
qed

section \<open>The loops on numbers\<close>

lemma submul_product_digit:
  assumes "submul_product q c d r = (x, c')"
  shows "unat x + unat q * unat r + unat c = unat d + 2 ^ 32 * unat c'"
proof -
  define p :: u64 where "p = ucast r * ucast q + ucast c"
  have "unat r * unat q \<le> (2 ^ 32 - 1) * (2 ^ 32 - 1)"
    by (rule mult_le_mono) (use unat_u32_bound [of r] unat_u32_bound [of q] in linarith)+
  then have b: "unat r * unat q + unat c \<le> (2 ^ 32 - 1) * 2 ^ 32"
    using unat_u32_bound [of c] by simp
  have p: "unat p = unat r * unat q + unat c"
    using b by (simp add: p_def unat_word_ariths unat_ucast_up)
  define lo where "lo = unat p mod 2 ^ 32"
  define hi where "hi = unat p div 2 ^ 32"
  have ph: "unat p = lo + 2 ^ 32 * hi" "lo < 2 ^ 32" by (simp_all add: lo_def hi_def)
  have hi: "hi \<le> 2 ^ 32 - 1" "hi = 2 ^ 32 - 1 \<Longrightarrow> lo = 0" using b p ph by simp_all
  have l: "unat (ucast p :: u32) = lo" by (simp add: unat_ucast_mod lo_def)
  have h: "unat (ucast (drop_bit 32 p) :: u32) = hi"
    using hi(1) by (simp add: unat_ucast_mod unat_drop_bit hi_def)
  have xc: "x = d - ucast p" "c' = of_bool (d < ucast p) + ucast (drop_bit 32 p)"
    using assms by (simp_all add: submul_product_def Let_def p_def)
  show ?thesis
  proof (cases "unat d < lo")
    case True
    then have "hi < 2 ^ 32 - 1" using hi by (metis le_neq_implies_less not_less_zero)
    then have "unat c' = 1 + hi"
      using True xc(2) l h by (simp add: word_less_nat_alt unat_word_ariths)
    moreover have "unat x = unat d + 2 ^ 32 - lo"
      using True l xc(1) unat_u32_bound [of d] by (simp add: unat_sub_if_size word_size)
    ultimately show ?thesis using True p ph by (simp add: algebra_simps)
  next
    case False
    then have "unat c' = hi" using xc(2) l h by (simp add: word_less_nat_alt)
    moreover have "unat x = unat d - lo" using False l xc(1) by (simp add: unat_sub_no_wrap)
    ultimately show ?thesis using False p ph by (simp add: algebra_simps)
  qed
qed

lemma digit_difference_bounds:
  assumes "a < 2 ^ 32" "b < 2 ^ 32" "c < (2 ^ 32 :: nat)" "k \<le> 1"
  shows "- (2 ^ 32) \<le> int a - int b - int k" "int a - int b - int k < 2 ^ 32"
  using assms by simp_all

lemma submul_once_digit:
  assumes "submul_once c d r = (x, c')" and "unat c \<le> 1"
  shows "unat x + unat r + unat c = unat d + 2 ^ 32 * unat c'" "unat c' \<le> 1"
proof -
  define diff where "diff = uint d - uint r - uint c"
  have xc: "x = word_of_int diff" "c' = of_bool (diff < 0)"
    using assms(1) by (simp_all add: submul_once_def Let_def diff_def)
  have diff_def: "diff = int (unat d) - int (unat r) - int (unat c)"
    by (simp only: diff_def uint_nat)
  have b: "- (2 ^ 32) \<le> diff" "diff < 2 ^ 32"
    unfolding diff_def by (rule digit_difference_bounds [OF unat_u32_bound unat_u32_bound unat_u32_bound assms(2)])+
  have "int (unat x) = (if diff < 0 then diff + 2 ^ 32 else diff)"
  proof -
    have "int (unat x) = diff mod 2 ^ 32"
      unfolding xc uint_nat [symmetric] by (simp add: uint_word_of_int)
    moreover have "diff < 0 \<Longrightarrow> diff mod 2 ^ 32 = diff + 2 ^ 32"
      using b(1) mod_pos_pos_trivial [of "diff + 2 ^ 32" "2 ^ 32"] by simp
    moreover have "\<not> diff < 0 \<Longrightarrow> diff mod 2 ^ 32 = diff"
      using b(2) by simp
    ultimately show ?thesis by presburger
  qed
  then have "int (unat x + unat r + unat c) = int (unat d + 2 ^ 32 * unat c')"
    by (auto simp: xc(2) diff_def)
  then show "unat x + unat r + unat c = unat d + 2 ^ 32 * unat c'" by (simp only: of_nat_eq_iff)
  show "unat c' \<le> 1" by (simp add: xc(2))
qed

lemma submul_correct_digit:
  assumes "submul_correct c d r = (x, c')" and "unat c \<le> 1"
  shows "unat x + 2 ^ 32 * unat c' = unat d + unat r + unat c" "unat c' \<le> 1"
proof -
  define s :: u64 where "s = ucast d + ucast r + ucast c"
  have b: "unat d + unat r + unat c < 2 * 2 ^ 32"
    using assms(2) unat_u32_bound [of d] unat_u32_bound [of r] by linarith
  have s: "unat s = unat d + unat r + unat c"
    using b by (simp add: s_def unat_word_ariths unat_ucast_up)
  have xc: "x = ucast s" "c' = ucast (drop_bit 32 s)"
    using assms(1) by (simp_all add: submul_correct_def Let_def s_def)
  have h: "unat s div 2 ^ 32 \<le> 1" using b by (simp add: s [symmetric] less_mult_imp_div_less flip: less_Suc_eq_le)
  then have c: "unat c' = unat s div 2 ^ 32"
    by (simp add: xc unat_ucast_mod unat_drop_bit)
  have "unat x = unat s mod 2 ^ 32" by (simp add: xc unat_ucast_mod)
  then show "unat x + 2 ^ 32 * unat c' = unat d + unat r + unat c" by (simp add: c s [symmetric])
  show "unat c' \<le> 1" using h c by simp
qed

lemma digit_sum_bounds:
  assumes "a < 2 ^ 32" "b < 2 ^ 32" "c < (2 ^ 32 :: nat)" "k \<le> 2"
  shows "- (2 ^ 32) \<le> int a + int b - int c + int k - 1" "int a + int b - int c + int k - 1 < 2 * 2 ^ 32"
  using assms by simp_all

lemma submul_max_digit:
  assumes "submul_max (l, c) d r = (x, l', c')" and "unat c \<le> 2"
  shows "int (unat x) + 2 ^ 32 * (int (unat c') - 1) = int (unat d) + int (unat r) - int (unat l) + (int (unat c) - 1)"
    "unat c' \<le> 2" "l' = r"
proof -
  define diff :: u64 where "diff = ucast d + ucast r - ucast l + ucast c - 1"
  define z where "z = int (unat d) + int (unat r) - int (unat l) + int (unat c) - 1"
  have xc: "x = ucast diff" "l' = r" "c' = ucast (drop_bit 32 diff) + 1"
    using assms(1) unfolding submul_max_def diff_def by (auto simp: Let_def)
  have b: "- (2 ^ 32) \<le> z" "z < 2 * 2 ^ 32"
    unfolding z_def by (rule digit_sum_bounds [OF unat_u32_bound unat_u32_bound unat_u32_bound assms(2)])+
  have "diff = word_of_int z"
    by (simp add: diff_def z_def)
  then have dz: "int (unat diff) = z mod 2 ^ 64"
    by (simp add: uint_word_of_int)
  have x: "int (unat x) = z mod 2 ^ 32"
    unfolding xc(1) unat_ucast_mod of_nat_mod dz by (simp add: mod_mod_cancel)
  have cw: "c' = word_of_int (z div 2 ^ 32) + 1"
  proof -
    have "int (unat (drop_bit 32 diff)) = (z mod 2 ^ 64) div 2 ^ 32"
      by (simp only: unat_drop_bit zdiv_int of_nat_power of_nat_numeral dz)
    also have "\<dots> mod 2 ^ 32 = (z div 2 ^ 32) mod 2 ^ 32"
    proof (cases "z < 0")
      case True
      then have "z mod 2 ^ 64 = z + 2 ^ 64" using b(1) mod_pos_pos_trivial [of "z + 2 ^ 64" "2 ^ 64"] by simp
      moreover have "(z + 2 ^ 64) div 2 ^ 32 = z div 2 ^ 32 + 2 ^ 32"
        using div_mult_self1 [of "2 ^ 32" z "2 ^ 32"] by simp
      ultimately show ?thesis by simp
    next
      case False
      then show ?thesis using b(2) by simp
    qed
    finally have "int (unat (drop_bit 32 diff)) mod 2 ^ 32 = (z div 2 ^ 32) mod 2 ^ 32" .
    then have "int (unat (ucast (drop_bit 32 diff) :: u32)) = int (unat (word_of_int (z div 2 ^ 32) :: u32))"
      by (simp only: unat_ucast_mod of_nat_mod) (simp add: uint_word_of_int)
    then have "(ucast (drop_bit 32 diff) :: u32) = word_of_int (z div 2 ^ 32)"
      by (simp only: of_nat_eq_iff word_unat_eq_iff)
    then show ?thesis by (simp only: xc(3))
  qed
  have q: "-1 \<le> z div 2 ^ 32" "z div 2 ^ 32 \<le> 1"
    using zdiv_mono1 [OF b(1), of "2 ^ 32"] zdiv_mono1 [of z "2 * 2 ^ 32 - 1" "2 ^ 32"] b(2) by simp_all
  then consider "z div 2 ^ 32 = -1" | "z div 2 ^ 32 = 0" | "z div 2 ^ 32 = 1" by linarith
  then have c: "int (unat c') = z div 2 ^ 32 + 1" by cases (simp_all add: cw)
  show "int (unat x) + 2 ^ 32 * (int (unat c') - 1) = int (unat d) + int (unat r) - int (unat l) + (int (unat c) - 1)"
  proof -
    have "int (unat d) + int (unat r) - int (unat l) + (int (unat c) - 1) = z" by (simp add: z_def)
    then show ?thesis unfolding x c by (simp only: add_diff_cancel_right' mod_mult_div_eq)
  qed
  have "int (unat c') \<le> int 2" unfolding c using q by simp
  then show "unat c' \<le> 2" by (simp only: of_nat_le_iff)
  show "l' = r" by (rule xc(2))
qed

lemma list_loop_product:
  "length ds \<le> length rs \<Longrightarrow> list_loop (submul_product q) c ds rs = (w, c') \<Longrightarrow>
   dval w + unat q * dval (take (length ds) rs) + unat c = dval ds + 2 ^ (32 * length ds) * unat c'"
proof (induction "submul_product q" c ds rs arbitrary: w c' rule: list_loop.induct)
  case (1 c d ds r rs)
  obtain x c1 where x: "submul_product q c d r = (x, c1)" by fastforce
  obtain xs c2 where xs: "list_loop (submul_product q) c1 ds rs = (xs, c2)" by fastforce
  have w: "w = x # xs" "c' = c2" using "1.prems" x xs by simp_all
  have "dval xs + unat q * dval (take (length ds) rs) + unat c1 = dval ds + 2 ^ (32 * length ds) * unat c2"
    using "1.prems"(1) by (intro "1.hyps" [OF x [symmetric] refl]) (simp_all add: xs)
  then have "2 ^ 32 * (dval xs + unat q * dval (take (length ds) rs) + unat c1) =
    2 ^ 32 * (dval ds + 2 ^ (32 * length ds) * unat c2)" by simp
  then show ?case
    using submul_product_digit [OF x] by (simp add: w power_add algebra_simps)
qed simp_all

lemma list_loop_once:
  "length ds \<le> length rs \<Longrightarrow> unat c \<le> 1 \<Longrightarrow> list_loop submul_once c ds rs = (w, c') \<Longrightarrow>
   dval w + dval (take (length ds) rs) + unat c = dval ds + 2 ^ (32 * length ds) * unat c' \<and> unat c' \<le> 1"
proof (induction "submul_once" c ds rs arbitrary: w c' rule: list_loop.induct)
  case (1 c d ds r rs)
  obtain x c1 where x: "submul_once c d r = (x, c1)" by fastforce
  obtain xs c2 where xs: "list_loop submul_once c1 ds rs = (xs, c2)" by fastforce
  have w: "w = x # xs" "c' = c2" using "1.prems" x xs by simp_all
  note d = submul_once_digit [OF x "1.prems"(2)]
  have "dval xs + dval (take (length ds) rs) + unat c1 = dval ds + 2 ^ (32 * length ds) * unat c2 \<and> unat c2 \<le> 1"
    using "1.prems"(1) d(2) by (intro "1.hyps" [OF x [symmetric] refl]) (simp_all add: xs)
  moreover from this have "2 ^ 32 * (dval xs + dval (take (length ds) rs) + unat c1) =
    2 ^ 32 * (dval ds + 2 ^ (32 * length ds) * unat c2)" by simp
  ultimately show ?case
    using d(1) by (simp add: w power_add algebra_simps)
qed simp_all

lemma list_loop_correct:
  "length ds \<le> length rs \<Longrightarrow> unat c \<le> 1 \<Longrightarrow> list_loop submul_correct c ds rs = (w, c') \<Longrightarrow>
   dval w + 2 ^ (32 * length ds) * unat c' = dval ds + dval (take (length ds) rs) + unat c \<and> unat c' \<le> 1"
proof (induction "submul_correct" c ds rs arbitrary: w c' rule: list_loop.induct)
  case (1 c d ds r rs)
  obtain x c1 where x: "submul_correct c d r = (x, c1)" by fastforce
  obtain xs c2 where xs: "list_loop submul_correct c1 ds rs = (xs, c2)" by fastforce
  have w: "w = x # xs" "c' = c2" using "1.prems" x xs by simp_all
  note d = submul_correct_digit [OF x "1.prems"(2)]
  have "dval xs + 2 ^ (32 * length ds) * unat c2 = dval ds + dval (take (length ds) rs) + unat c1 \<and> unat c2 \<le> 1"
    using "1.prems"(1) d(2) by (intro "1.hyps" [OF x [symmetric] refl]) (simp_all add: xs)
  moreover from this have "2 ^ 32 * (dval xs + 2 ^ (32 * length ds) * unat c2) =
    2 ^ 32 * (dval ds + dval (take (length ds) rs) + unat c1)" by simp
  ultimately show ?case
    using d(1) by (simp add: w power_add algebra_simps)
qed simp_all

lemma list_loop_max:
  "length ds \<le> length rs \<Longrightarrow> unat c \<le> 2 \<Longrightarrow> list_loop submul_max (l, c) ds rs = (w, l', c') \<Longrightarrow>
   int (dval w) + 2 ^ (32 * length ds) * (int (unat c') - 1 - int (unat l')) =
   int (dval ds) - (2 ^ 32 - 1) * int (dval (take (length ds) rs)) - int (unat l) + (int (unat c) - 1)"
proof (induction ds arbitrary: rs l c w)
  case Nil
  then show ?case by (cases rs) simp_all
next
  case (Cons d ds)
  obtain r rs' where rs: "rs = r # rs'" using Cons.prems(1) by (cases rs) simp_all
  obtain x l1 c1 where x: "submul_max (l, c) d r = (x, l1, c1)" by (rule prod_cases3)
  obtain xs l2 c2 where xs: "list_loop submul_max (l1, c1) ds rs' = (xs, l2, c2)" by (rule prod_cases3)
  have w: "w = x # xs" "c' = c2" "l' = l2" using Cons.prems x xs rs by simp_all
  note d = submul_max_digit [OF x Cons.prems(2)]
  have "int (dval xs) + 2 ^ (32 * length ds) * (int (unat c') - 1 - int (unat l')) =
     int (dval ds) - (2 ^ 32 - 1) * int (dval (take (length ds) rs')) - int (unat l1) + (int (unat c1) - 1)"
    by (rule Cons.IH) (use Cons.prems(1) rs d(2) xs w in simp_all)
  then have "2 ^ 32 * (int (dval xs) + 2 ^ (32 * length ds) * (int (unat c') - 1 - int (unat l'))) =
     2 ^ 32 * (int (dval ds) - (2 ^ 32 - 1) * int (dval (take (length ds) rs')) - int (unat l1) + (int (unat c1) - 1))"
    by (rule arg_cong)
  then show ?case
    using d(1) by (simp add: w rs d(3) power_add algebra_simps)
qed

section \<open>The value of a state\<close>

definition wf_div :: "bigint_divstate_t \<Rightarrow> bool" where
  "wf_div st \<longleftrightarrow> 2 \<le> rnrdigits st \<and> rnrdigits st \<le> lnrdigits st \<and> lnrdigits st = length (ldigits st) \<and>
     rnrdigits st = length (rdigits st) \<and> 1 \<le> loffset st \<and> loffset st \<le> lnrdigits st \<and>
     unat (divisor st) = dval (drop (rnrdigits st - 2) (rdigits st)) \<and> 2 ^ 32 \<le> unat (divisor st)"

lemma wf_div_register [simp]:
  "wf_div (st\<lparr>dividend := d\<rparr>) = wf_div st" "wf_div (st\<lparr>nextdigit := n\<rparr>) = wf_div st"
  by (simp_all add: wf_div_def)

lemma wf_divD:
  assumes "wf_div st"
  shows "2 ^ 32 \<le> unat (divisor st)" "length (ldigits st) = lnrdigits st" "length (rdigits st) = rnrdigits st"
    "1 \<le> loffset st" "loffset st \<le> lnrdigits st" "2 \<le> rnrdigits st" "rnrdigits st \<le> lnrdigits st"
    "unat (divisor st) = dval (drop (rnrdigits st - 2) (rdigits st))"
  using assms unfolding wf_div_def by metis+

text \<open>
  \<open>remv\<close> is the number in the register and the ring. The divisor is aligned with the register:
  \<open>scale\<close> is the weight of its lowest digit.
\<close>

definition ring_top :: "bigint_divstate_t \<Rightarrow> nat" where
  "ring_top st = 2 ^ (32 * lnrdigits st)"

definition scale :: "bigint_divstate_t \<Rightarrow> nat" where
  "scale st = 2 ^ (32 * (lnrdigits st + 2 - rnrdigits st))"

definition ringv :: "bigint_divstate_t \<Rightarrow> nat" where
  "ringv st = dval (ring_from (loffset st) (ldigits st))"

definition remv :: "bigint_divstate_t \<Rightarrow> nat" where
  "remv st = ringv st + ring_top st * unat (dividend st)"

definition lowdiv :: "bigint_divstate_t \<Rightarrow> nat" where
  "lowdiv st = scale st * dval (take (rnrdigits st - 2) (rdigits st))"

definition divv :: "bigint_divstate_t \<Rightarrow> nat" where
  "divv st = scale st * dval (rdigits st)"

definition frame :: "bigint_divstate_t \<Rightarrow> bigint_divstate_t \<Rightarrow> bool" where
  "frame st st' \<longleftrightarrow> lnrdigits st' = lnrdigits st \<and> rnrdigits st' = rnrdigits st \<and> rdigits st' = rdigits st \<and>
     divisor st' = divisor st"

lemma frame_values:
  "frame st st' \<Longrightarrow> ring_top st' = ring_top st \<and> scale st' = scale st \<and> lowdiv st' = lowdiv st \<and> divv st' = divv st"
  by (simp add: frame_def ring_top_def scale_def lowdiv_def divv_def)

lemma frame_trans: "frame a b \<Longrightarrow> frame b c \<Longrightarrow> frame a c"
  by (simp add: frame_def)

lemma scale_top: "wf_div st \<Longrightarrow> scale st * 2 ^ (32 * (rnrdigits st - 2)) = ring_top st"
  by (simp add: wf_div_def scale_def ring_top_def flip: power_add add_mult_distrib2)

lemma divv_split: "wf_div st \<Longrightarrow> divv st = lowdiv st + ring_top st * unat (divisor st)"
proof -
  assume wf: "wf_div st"
  then have "dval (rdigits st) = dval (take (rnrdigits st - 2) (rdigits st)) + 2 ^ (32 * (rnrdigits st - 2)) * unat (divisor st)"
    using dval_take_drop [of "rnrdigits st - 2" "rdigits st"] by (simp add: wf_div_def)
  then show ?thesis by (simp add: divv_def lowdiv_def scale_top [OF wf, symmetric] algebra_simps)
qed

lemma lowdiv_less: "wf_div st \<Longrightarrow> lowdiv st < ring_top st"
proof -
  assume wf: "wf_div st"
  have "dval (take (rnrdigits st - 2) (rdigits st)) < 2 ^ (32 * (rnrdigits st - 2))"
    using dval_bound [of "take (rnrdigits st - 2) (rdigits st)"] wf by (simp add: wf_div_def min_absorb2)
  then show ?thesis by (simp add: lowdiv_def scale_top [OF wf, symmetric]) (simp add: scale_def)
qed

lemma ring_less: "length ds = lnrdigits st \<Longrightarrow> dval (ring_from loff ds) < ring_top st"
proof -
  assume "length ds = lnrdigits st"
  moreover have "length (ring_from loff ds) = length ds" by (simp add: ring_from_def)
  ultimately show ?thesis using dval_bound [of "ring_from loff ds"] by (simp add: ring_top_def)
qed

lemma divv_less: "wf_div st \<Longrightarrow> int (divv st) < int (ring_top st) * (int (unat (divisor st)) + 1)"
proof -
  assume wf: "wf_div st"
  have "divv st < ring_top st * (unat (divisor st) + 1)"
    using lowdiv_less [OF wf] by (simp add: divv_split [OF wf])
  then show ?thesis by (simp only: of_nat_less_iff [symmetric, where 'a = int] of_nat_mult of_nat_add of_nat_1)
qed

text \<open>What a loop over the window does to the ring.\<close>

lemma ring_loop_value:
  assumes wf: "wf_div st" and ds: "length ds = lnrdigits st"
  obtains w win c' ds' where "list_loop f c win (rdigits st) = (w, c')" "length win = rnrdigits st - 2" "length w = rnrdigits st - 2"
    "ring_loop f (lnrdigits st) (loffset st) (rdigits st) (ring_start st) c ds = Some (ds', c')" "length ds' = lnrdigits st"
    "dval (ring_from (loffset st) ds') + scale st * dval win = dval (ring_from (loffset st) ds) + scale st * dval w"
proof -
  define R where "R = ring_from (loffset st) ds"
  define m where "m = length ds + 2 - rnrdigits st"
  have lR: "length R = length ds" by (simp add: R_def ring_from_def)
  have "2 \<le> rnrdigits st" "rnrdigits st \<le> length ds" using wf ds by (simp_all add: wf_div_def)
  then have m: "m \<le> length R" "length R - m = rnrdigits st - 2" by (simp_all add: lR m_def)
  obtain w c' where w: "list_loop f c (drop m R) (rdigits st) = (w, c')" by fastforce
  have lw: "length w = rnrdigits st - 2"
    using length_list_loop [OF _ w] m wf by (simp add: wf_div_def)
  obtain ds' where ds': "ring_loop f (lnrdigits st) (loffset st) (rdigits st) (ring_start st) c ds = Some (ds', c')"
      "length ds' = length ds" "ring_from (loffset st) ds' = take m R @ w"
  proof -
    have "\<exists>ds'. ring_loop f (lnrdigits st) (loffset st) (rdigits st) (ring_start st) c ds = Some (ds', c') \<and>
        length ds' = length ds \<and> ring_from (loffset st) ds' = take m R @ w"
      unfolding R_def m_def
      by (rule ring_loop_window [OF _ _ _ _ _ _ w [unfolded R_def m_def]]) (use wf ds in \<open>simp_all add: wf_div_def\<close>)
    then show ?thesis using that by blast
  qed
  have sc: "scale st = 2 ^ (32 * m)" by (simp add: scale_def m_def ds)
  show ?thesis
  proof (rule that [OF w _ lw ds'(1)])
    show "length (drop m R) = rnrdigits st - 2" using m by simp
    show "length ds' = lnrdigits st" using ds' ds by simp
    show "dval (ring_from (loffset st) ds') + scale st * dval (drop m R) = dval (ring_from (loffset st) ds) + scale st * dval w"
      using dval_take_drop [OF m(1)] m(1) by (simp add: ds'(3) R_def [symmetric] dval_append sc min_def)
  qed
qed

lemma ring_subtract:
  assumes wf: "wf_div st" and nd: "nextdigit st \<noteq> 0"
  obtains ds c where "(if nextdigit st > 1 then ring_loop (submul_product (nextdigit st)) (lnrdigits st) (loffset st) (rdigits st) (ring_start st) 0 (ldigits st)
      else ring_loop submul_once (lnrdigits st) (loffset st) (rdigits st) (ring_start st) 0 (ldigits st)) = Some (ds, c)"
    "length ds = lnrdigits st"
    "dval (ring_from (loffset st) ds) + unat (nextdigit st) * lowdiv st = ringv st + ring_top st * unat c"
proof (cases "nextdigit st > 1")
  case True
  obtain w win c' ds' where l: "list_loop (submul_product (nextdigit st)) 0 win (rdigits st) = (w, c')" "length win = rnrdigits st - 2"
    and r: "ring_loop (submul_product (nextdigit st)) (lnrdigits st) (loffset st) (rdigits st) (ring_start st) 0 (ldigits st) = Some (ds', c')"
      "length ds' = lnrdigits st"
    and v: "dval (ring_from (loffset st) ds') + scale st * dval win = ringv st + scale st * dval w"
    using ring_loop_value [OF wf, of "ldigits st" "submul_product (nextdigit st)" 0] wf
    by (metis ringv_def wf_div_def)
  have "dval w + unat (nextdigit st) * dval (take (rnrdigits st - 2) (rdigits st)) = dval win + 2 ^ (32 * (rnrdigits st - 2)) * unat c'"
    using list_loop_product [OF _ l(1)] l(2) wf by (simp add: wf_div_def)
  then have "scale st * (dval w + unat (nextdigit st) * dval (take (rnrdigits st - 2) (rdigits st))) =
      scale st * dval win + ring_top st * unat c'"
    by (simp add: scale_top [OF wf, symmetric] algebra_simps)
  then have "dval (ring_from (loffset st) ds') + unat (nextdigit st) * lowdiv st = ringv st + ring_top st * unat c'"
    using v by (simp add: lowdiv_def algebra_simps)
  then show ?thesis using that r True by simp
next
  case False
  then have nd1: "unat (nextdigit st) = 1"
    using nd by (simp add: word_less_nat_alt unat_gt_0 flip: word_unat_eq_iff) (metis Suc_lessI unat_gt_0)
  obtain w win c' ds' where l: "list_loop submul_once 0 win (rdigits st) = (w, c')" "length win = rnrdigits st - 2"
    and r: "ring_loop submul_once (lnrdigits st) (loffset st) (rdigits st) (ring_start st) 0 (ldigits st) = Some (ds', c')"
      "length ds' = lnrdigits st"
    and v: "dval (ring_from (loffset st) ds') + scale st * dval win = ringv st + scale st * dval w"
    using ring_loop_value [OF wf, of "ldigits st" "submul_once" 0] wf
    by (metis ringv_def wf_div_def)
  have "dval w + dval (take (rnrdigits st - 2) (rdigits st)) = dval win + 2 ^ (32 * (rnrdigits st - 2)) * unat c'"
    using list_loop_once [OF _ _ l(1)] l(2) wf by (simp add: wf_div_def)
  then have "scale st * (dval w + dval (take (rnrdigits st - 2) (rdigits st))) =
      scale st * dval win + ring_top st * unat c'"
    by (simp add: scale_top [OF wf, symmetric] algebra_simps)
  then have "dval (ring_from (loffset st) ds') + unat (nextdigit st) * lowdiv st = ringv st + ring_top st * unat c'"
    using v by (simp add: lowdiv_def nd1 algebra_simps)
  then show ?thesis using that r False by simp
qed

lemma ring_correct:
  assumes wf: "wf_div st" and ds: "length ds = lnrdigits st"
  obtains ds' c where "ring_loop submul_correct (lnrdigits st) (loffset st) (rdigits st) (ring_start st) 0 ds = Some (ds', c)"
    "length ds' = lnrdigits st"
    "dval (ring_from (loffset st) ds') + ring_top st * unat c = dval (ring_from (loffset st) ds) + lowdiv st"
proof -
  obtain w win c' ds' where l: "list_loop submul_correct 0 win (rdigits st) = (w, c')" "length win = rnrdigits st - 2"
    and r: "ring_loop submul_correct (lnrdigits st) (loffset st) (rdigits st) (ring_start st) 0 ds = Some (ds', c')"
      "length ds' = lnrdigits st"
    and v: "dval (ring_from (loffset st) ds') + scale st * dval win = dval (ring_from (loffset st) ds) + scale st * dval w"
    using ring_loop_value [OF wf ds, of "submul_correct" 0] by metis
  have "dval w + 2 ^ (32 * (rnrdigits st - 2)) * unat c' = dval win + dval (take (rnrdigits st - 2) (rdigits st))"
    using list_loop_correct [OF _ _ l(1)] l(2) wf by (simp add: wf_div_def)
  then have "scale st * (dval w + 2 ^ (32 * (rnrdigits st - 2)) * unat c') = scale st * (dval win + dval (take (rnrdigits st - 2) (rdigits st)))"
    by (rule arg_cong)
  then have "scale st * (dval win + dval (take (rnrdigits st - 2) (rdigits st))) =
      scale st * dval w + ring_top st * unat c'"
    by (simp only: scale_top [OF wf, symmetric] add_mult_distrib2 mult.assoc)
  then have "dval (ring_from (loffset st) ds') + ring_top st * unat c' = dval (ring_from (loffset st) ds) + lowdiv st"
    using v by (simp add: lowdiv_def algebra_simps)
  then show ?thesis using that r by simp
qed

lemma ring_max:
  assumes wf: "wf_div st"
  obtains ds l c where "ring_loop submul_max (lnrdigits st) (loffset st) (rdigits st) (ring_start st) (0, 1) (ldigits st) = Some (ds, l, c)"
    "length ds = lnrdigits st"
    "int (dval (ring_from (loffset st) ds)) + int (ring_top st) * (int (unat c) - 1 - int (unat l)) =
     int (ringv st) - (2 ^ 32 - 1) * int (lowdiv st)"
proof -
  obtain w win c' ds' where l: "list_loop submul_max (0, 1) win (rdigits st) = (w, c')" "length win = rnrdigits st - 2"
    and r: "ring_loop submul_max (lnrdigits st) (loffset st) (rdigits st) (ring_start st) (0, 1) (ldigits st) = Some (ds', c')"
      "length ds' = lnrdigits st"
    and v: "dval (ring_from (loffset st) ds') + scale st * dval win = ringv st + scale st * dval w"
    using ring_loop_value [OF wf, of "ldigits st" "submul_max" "(0, 1)"] wf
    by (metis ringv_def wf_div_def)
  obtain la ca where c': "c' = (la, ca)" by fastforce
  define D where "D = int (dval (take (rnrdigits st - 2) (rdigits st)))"
  define k where "k = int (unat ca) - 1 - int (unat la)"
  have "int (dval w) + 2 ^ (32 * (rnrdigits st - 2)) * k = int (dval win) - (2 ^ 32 - 1) * D"
    using list_loop_max [OF _ _ l(1) [unfolded c']] l(2) wf by (simp add: wf_div_def k_def D_def)
  then have "int (scale st) * (int (dval w) + 2 ^ (32 * (rnrdigits st - 2)) * k) = int (scale st) * (int (dval win) - (2 ^ 32 - 1) * D)"
    by (rule arg_cong)
  moreover have "int (ring_top st) = int (scale st) * 2 ^ (32 * (rnrdigits st - 2))"
    by (simp add: scale_top [OF wf, symmetric])
  moreover have "int (dval (ring_from (loffset st) ds')) + int (scale st) * int (dval win) = int (ringv st) + int (scale st) * int (dval w)"
    using v by (simp only: of_nat_add [symmetric] of_nat_mult [symmetric])
  moreover have "int (lowdiv st) = int (scale st) * D" by (simp add: lowdiv_def D_def)
  ultimately have "int (dval (ring_from (loffset st) ds')) + int (ring_top st) * k = int (ringv st) - (2 ^ 32 - 1) * int (lowdiv st)"
    by (simp add: algebra_simps)
  then show ?thesis using that [of ds' la ca] r by (simp add: c' k_def)
qed

section \<open>Estimating a digit\<close>

lemma high_bit_64: "(0 \<noteq> (w :: u64) AND 0x8000000000000000) \<longleftrightarrow> 2 ^ 63 \<le> unat w"
proof -
  have "(0x8000000000000000 :: u64) = 2 ^ 63" by simp
  then have "(0 \<noteq> w AND 0x8000000000000000) \<longleftrightarrow> bit w 63"
    by (metis and_exp_eq_0_iff_not_bit)
  also have "\<dots> \<longleftrightarrow> bit (unat w) 63" by (simp add: bit_unsigned_iff)
  also have "\<dots> \<longleftrightarrow> odd (unat w div 2 ^ 63)" by (rule bit_iff_odd)
  also have "\<dots> \<longleftrightarrow> 2 ^ 63 \<le> unat w"
  proof -
    have "unat w div 2 ^ 63 < 2" using unat_u64_bound [of w] by (simp add: less_mult_imp_div_less)
    then consider "unat w div 2 ^ 63 = 0" | "unat w div 2 ^ 63 = 1" by linarith
    then show ?thesis by cases (auto simp: div_eq_0_iff)
  qed
  finally show ?thesis .
qed

lemma high_bit_32: "(0 \<noteq> (w :: u32) AND 0x80000000) \<longleftrightarrow> unat w div 2 ^ 31 = 1"
proof -
  have "(0x80000000 :: u32) = 2 ^ 31" by simp
  then have "(0 \<noteq> w AND 0x80000000) \<longleftrightarrow> bit w 31"
    by (metis and_exp_eq_0_iff_not_bit)
  also have "\<dots> \<longleftrightarrow> bit (unat w) 31" by (simp add: bit_unsigned_iff)
  also have "\<dots> \<longleftrightarrow> odd (unat w div 2 ^ 31)" by (rule bit_iff_odd)
  also have "\<dots> \<longleftrightarrow> unat w div 2 ^ 31 = 1"
  proof -
    have "unat w div 2 ^ 31 < 2" using unat_u32_bound [of w] by (simp add: less_mult_imp_div_less)
    then consider "unat w div 2 ^ 31 = 0" | "unat w div 2 ^ 31 = 1" by linarith
    then show ?thesis by cases simp_all
  qed
  finally show ?thesis .
qed

text \<open>A word given by sums and differences, when the value fits.\<close>

lemma unat_of_int_word: "w = word_of_int z \<Longrightarrow> z = int n \<Longrightarrow> n < 2 ^ 64 \<Longrightarrow> unat (w :: u64) = n"
  by (simp add: unat_of_nat take_bit_eq_mod)

lemma div3by2_round_step:
  assumes r: "div3by2_round dvs (q, dd, n) = (q', dd', n')" and lt: "unat dd < unat dvs" and q: "unat q < 2 ^ 31"
  shows "unat q' * unat dvs + unat dd' = 2 * (unat q * unat dvs + unat dd) + unat n div 2 ^ 31"
    "unat dd' < unat dvs" "unat q' \<le> 2 * unat q + 1" "unat n' = 2 * unat n mod 2 ^ 32"
proof -
  define b where "b = unat n div 2 ^ 31"
  define D where "D = push_bit 1 dd + of_bool (0 \<noteq> n AND 0x80000000)"
  have b: "b < 2" using unat_u32_bound [of n] by (simp add: b_def less_mult_imp_div_less)
  have ob: "(of_bool (0 \<noteq> n AND 0x80000000) :: u64) = of_nat b"
  proof -
    have h: "(0 \<noteq> n AND 0x80000000) = (b = 1)" using high_bit_32 [of n] by (simp only: b_def)
    show ?thesis unfolding h using b by (cases "b = 1") (simp_all add: less_2_cases_iff)
  qed
  have D: "D = of_nat (2 * unat dd + b)"
    unfolding D_def ob by (simp add: push_bit_eq_mult)
  define v where "v = 2 * unat dd + b"
  have uD: "unat D = v mod 2 ^ 64" by (simp add: D v_def unat_of_nat take_bit_eq_mod del: of_nat_add of_nat_mult)
  have v: "v < 2 * unat dvs" using lt b by (simp add: v_def)
  have q2: "unat (push_bit 1 q) = 2 * unat q" using q unat_push_bit_no_wrap [of q 1] by simp
  have q3: "unat (push_bit 1 q + 1) = 2 * unat q + 1" using q q2 by (simp add: unat_word_ariths)
  have c: "(0 \<noteq> dd AND 0x8000000000000000) \<or> D \<ge> dvs \<longleftrightarrow> unat dvs \<le> v"
  proof (cases "2 ^ 63 \<le> unat dd")
    case True
    then have "2 ^ 64 \<le> v" by (simp add: v_def)
    then have "unat dvs \<le> v" using unat_u64_bound [of dvs] by linarith
    then show ?thesis using True by (simp only: high_bit_64 simp_thms)
  next
    case False
    then have "v < 2 ^ 64" using b by (simp add: v_def)
    then show ?thesis using False uD by (simp only: high_bit_64 simp_thms word_le_nat_alt mod_less)
  qed
  have res: "(q', dd', n') = (if unat dvs \<le> v then (push_bit 1 q + 1, D - dvs, push_bit 1 n) else (push_bit 1 q, D, push_bit 1 n))"
    using r unfolding div3by2_round_def Let_def prod.case D_def [symmetric] c by (rule sym)
  have "n' = push_bit 1 n" using res by (simp split: if_splits)
  then have n': "unat n' = 2 * unat n mod 2 ^ 32"
    using unat_push_bit_mod [of 1 n] by (simp add: mult.commute)
  have "unat q' * unat dvs + unat dd' = 2 * (unat q * unat dvs + unat dd) + b \<and> unat dd' < unat dvs \<and> unat q' \<le> 2 * unat q + 1"
  proof (cases "unat dvs \<le> v")
    case True
    have "dd' = D - dvs" using True res by simp
    also have "\<dots> = word_of_int (int v - int (unat dvs))" by (simp add: D v_def)
    finally have "dd' = word_of_int (int v - int (unat dvs))" .
    then have "unat dd' = v - unat dvs"
      by (rule unat_of_int_word) (use True v unat_u64_bound [of dvs] in simp_all)
    then show ?thesis using True res q3 v by (simp add: v_def algebra_simps)
  next
    case False
    then have "v < 2 ^ 64" using unat_u64_bound [of dvs] by linarith
    then have "unat dd' = v" using False res uD by simp
    then show ?thesis using False res q2 by (simp add: v_def algebra_simps)
  qed
  then show "unat q' * unat dvs + unat dd' = 2 * (unat q * unat dvs + unat dd) + unat n div 2 ^ 31"
    "unat dd' < unat dvs" "unat q' \<le> 2 * unat q + 1" by (simp_all add: b_def)
  show "unat n' = 2 * unat n mod 2 ^ 32" by (rule n')
qed

lemma div3by2_rounds:
  assumes lt: "unat dd < unat dvs" and k: "k \<le> 32"
    and r: "(div3by2_round dvs ^^ k) (0, dd, n) = (q', dd', n')"
  shows "unat q' * unat dvs + unat dd' = 2 ^ k * unat dd + unat n div 2 ^ (32 - k) \<and> unat dd' < unat dvs \<and>
    unat q' < 2 ^ k \<and> unat n' = 2 ^ k * unat n mod 2 ^ 32"
  using k r
proof (induction k arbitrary: q' dd' n')
  case 0
  then show ?case using lt unat_u32_bound [of n] by simp
next
  case (Suc k)
  obtain q1 dd1 n1 where s: "(div3by2_round dvs ^^ k) (0, dd, n) = (q1, dd1, n1)" by (rule prod_cases3)
  then have r: "div3by2_round dvs (q1, dd1, n1) = (q', dd', n')" using Suc.prems(2) by simp
  have ih: "unat q1 * unat dvs + unat dd1 = 2 ^ k * unat dd + unat n div 2 ^ (32 - k)" "unat dd1 < unat dvs"
      "unat q1 < 2 ^ k" "unat n1 = 2 ^ k * unat n mod 2 ^ 32"
    using Suc.IH [OF _ s] Suc.prems(1) by simp_all
  have k31: "k \<le> 31" using Suc.prems(1) by simp
  then have "(2 :: nat) ^ k \<le> 2 ^ 31" by (rule power_increasing) simp
  then have q31: "unat q1 < 2 ^ 31" using ih(3) by linarith
  note st = div3by2_round_step [OF r ih(2) q31]
  have bits: "unat n div 2 ^ (32 - Suc k) = 2 * (unat n div 2 ^ (32 - k)) + unat n1 div 2 ^ 31"
  proof -
    define x where "x = unat n div 2 ^ (31 - k)"
    have e1: "(2 :: nat) ^ 31 = 2 ^ k * 2 ^ (31 - k)" "(2 :: nat) ^ 32 = 2 ^ k * 2 ^ (32 - k)"
      using k31 by (simp_all only: flip: power_add) simp_all
    have "unat n1 = 2 ^ k * (unat n mod 2 ^ (32 - k))" by (simp only: ih(4) e1(2) mult_mod_right)
    then have "unat n1 div 2 ^ 31 = (unat n mod 2 ^ (32 - k)) div 2 ^ (31 - k)" by (simp only: e1(1)) simp
    also have k32: "(2 :: nat) ^ (32 - k) = 2 ^ (31 - k) * 2" proof -
      have "32 - k = Suc (31 - k)" using k31 by simp
      then show ?thesis by (simp only: power_Suc2)
    qed
    finally have "unat n1 div 2 ^ 31 = x mod 2"
      by (simp add: x_def mod_mult2_eq)
    moreover have "unat n div 2 ^ (32 - k) = x div 2"
      by (simp only: x_def k32 div_mult2_eq)
    ultimately show ?thesis by (simp add: x_def)
  qed
  show ?case
    using st ih bits by (simp add: mod_mult_right_eq algebra_simps)
qed

lemma div3by2_spec:
  assumes "unat (dividend st) < unat (divisor st)"
  shows "frame st (div3by2digits_biginthelper st) \<and> ldigits (div3by2digits_biginthelper st) = ldigits st \<and>
    loffset (div3by2digits_biginthelper st) = loffset st \<and>
    unat (nextdigit (div3by2digits_biginthelper st)) * unat (divisor st) + unat (dividend (div3by2digits_biginthelper st)) =
      2 ^ 32 * unat (dividend st) + unat (nextdigit st) \<and>
    unat (dividend (div3by2digits_biginthelper st)) < unat (divisor st)"
proof -
  obtain q dd n where r: "(div3by2_round (divisor st) ^^ 32) (0, dividend st, nextdigit st) = (q, dd, n)" by (rule prod_cases3)
  show ?thesis
    using div3by2_rounds [OF assms _ r] by (simp add: div3by2digits_biginthelper_def r frame_def del: funpow.simps)
qed

section \<open>Multiply and subtract on numbers\<close>

text \<open>
  \<open>submul_biginthelper\<close> subtracts the product with the lower digits of the divisor. When the result is
  negative, the digit was one too large and the divisor is added again.
\<close>

definition subtracts :: "bigint_divstate_t \<Rightarrow> int \<Rightarrow> bigint_divstate_t option \<Rightarrow> bool" where
  "subtracts st x res \<longleftrightarrow> (\<exists>st'. res = Some st' \<and> wf_div st' \<and> frame st st' \<and>
     (if 0 \<le> x then int (remv st') = x \<and> nextdigit st' = nextdigit st
      else int (remv st') = x + int (divv st) \<and> nextdigit st' = nextdigit st - 1))"

lemma wf_div_update:
  "wf_div st \<Longrightarrow> length ds = lnrdigits st \<Longrightarrow> wf_div (st\<lparr>ldigits := ds, dividend := dd, nextdigit := nd\<rparr>)"
  "wf_div st \<Longrightarrow> length ds = lnrdigits st \<Longrightarrow> wf_div (st\<lparr>ldigits := ds, dividend := dd\<rparr>)"
  by (clarsimp simp: wf_div_def)+

lemma remv_update:
  "remv (st\<lparr>ldigits := ds, dividend := dd, nextdigit := nd\<rparr>) = dval (ring_from (loffset st) ds) + ring_top st * unat dd"
  "remv (st\<lparr>ldigits := ds, dividend := dd\<rparr>) = dval (ring_from (loffset st) ds) + ring_top st * unat dd"
  by (simp_all add: remv_def ringv_def ring_top_def)

lemma nonneg_digit: "0 \<le> a + P * z \<Longrightarrow> a < P \<Longrightarrow> 0 < P \<Longrightarrow> 0 \<le> (z :: int)"
proof (rule ccontr)
  assume "0 \<le> a + P * z" "a < P" "0 < P" "\<not> 0 \<le> z"
  then have "P * z \<le> P * (-1)" by (intro mult_left_mono) simp_all
  then show False using \<open>0 \<le> a + P * z\<close> \<open>a < P\<close> by simp
qed

lemma small_digit: "a + P * z < P * b \<Longrightarrow> 0 \<le> a \<Longrightarrow> 0 < P \<Longrightarrow> z < (b :: int)"
proof -
  assume "a + P * z < P * b" "0 \<le> a" "0 < P"
  then have "P * z < P * b" by linarith
  then show "z < b" using \<open>0 < P\<close> by (simp add: mult_less_cancel_left_pos)
qed

lemma submul_subtracts:
  assumes wf: "wf_div st" and nd: "nextdigit st \<noteq> 0"
    and nn: "0 \<le> int (remv st) - int (unat (nextdigit st) * lowdiv st) + int (divv st)"
  shows "subtracts st (int (remv st) - int (unat (nextdigit st) * lowdiv st)) (submul_biginthelper st)"
proof (cases "rnrdigits st > 2")
  case False
  then have "rnrdigits st = 2" using wf by (simp add: wf_div_def)
  then have "lowdiv st = 0" by (simp add: lowdiv_def)
  then show ?thesis
    using False wf by (simp add: subtracts_def submul_biginthelper_def frame_def)
next
  case True
  define P where "P = int (ring_top st)"
  have P: "0 < P" by (simp add: P_def ring_top_def)
  define x where "x = int (remv st) - int (unat (nextdigit st) * lowdiv st)"
  obtain ds c where r: "(if nextdigit st > 1 then ring_loop (submul_product (nextdigit st)) (lnrdigits st) (loffset st) (rdigits st) (ring_start st) 0 (ldigits st)
      else ring_loop submul_once (lnrdigits st) (loffset st) (rdigits st) (ring_start st) 0 (ldigits st)) = Some (ds, c)"
    and ds: "length ds = lnrdigits st"
    and v: "dval (ring_from (loffset st) ds) + unat (nextdigit st) * lowdiv st = ringv st + ring_top st * unat c"
    by (rule ring_subtract [OF wf nd])
  define a where "a = int (dval (ring_from (loffset st) ds))"
  have a: "0 \<le> a" "a < P" using ring_less [OF ds, of "loffset st"] by (simp_all add: a_def P_def)
  have xa: "x = a + P * (int (unat (dividend st)) - int (unat c))"
  proof -
    have "a + int (unat (nextdigit st) * lowdiv st) = int (ringv st) + P * int (unat c)"
      unfolding a_def P_def using v by (simp only: of_nat_add [symmetric] of_nat_mult [symmetric])
    then show ?thesis by (simp add: x_def remv_def P_def [symmetric] algebra_simps)
  qed
  obtain ds2 c2 where r2: "ring_loop submul_correct (lnrdigits st) (loffset st) (rdigits st) (ring_start st) 0 ds = Some (ds2, c2)"
    and ds2: "length ds2 = lnrdigits st"
    and v2: "dval (ring_from (loffset st) ds2) + ring_top st * unat c2 = dval (ring_from (loffset st) ds) + lowdiv st"
    by (rule ring_correct [OF wf ds])
  have start: "ring_start (st\<lparr>ldigits := d, dividend := e, nextdigit := n\<rparr>) = ring_start st"
      "ring_start (st\<lparr>ldigits := d\<rparr>) = ring_start st" for d e n
    by (simp_all add: ring_start_def Let_def)
  have body: "submul_biginthelper st =
    (if ucast c \<le> dividend st then Some (st\<lparr>ldigits := ds, dividend := dividend st - ucast c\<rparr>)
     else Some (st\<lparr>ldigits := ds2, dividend := dividend st - ucast c + divisor st + ucast c2, nextdigit := nextdigit st - 1\<rparr>))"
    using True nd r r2 by (auto simp: submul_biginthelper_def start Let_def split: if_splits)
  have cc: "unat (ucast c :: u64) = unat c" "unat (ucast c2 :: u64) = unat c2" by (simp_all add: unat_ucast_up)
  show ?thesis
  proof (cases "ucast c \<le> dividend st")
    case le: True
    then have le': "unat c \<le> unat (dividend st)" by (simp only: word_le_nat_alt cc)
    have "unat (dividend st - ucast c) = unat (dividend st) - unat c"
      using le' unat_sub_no_wrap [of "ucast c" "dividend st"] by (simp only: cc)
    then have rv: "int (remv (st\<lparr>ldigits := ds, dividend := dividend st - ucast c\<rparr>)) = x"
      using le' by (simp only: remv_update) (simp add: xa a_def P_def of_nat_diff)
    then have "0 \<le> x" by (metis of_nat_0_le_iff)
    then show ?thesis
      using rv le wf_div_update(2) [OF wf ds] unfolding subtracts_def x_def [symmetric] body by (simp add: frame_def)
  next
    case gt: False
    then have gt': "unat (dividend st) < unat c" by (simp only: word_le_nat_alt cc not_le)
    have neg: "x < 0"
    proof (rule ccontr)
      assume "\<not> x < 0"
      then have "0 \<le> a + P * (int (unat (dividend st)) - int (unat c))" by (simp only: xa not_less)
      from nonneg_digit [OF this a(2) P] have "unat c \<le> unat (dividend st)"
        by (simp only: diff_ge_0_iff_ge of_nat_le_iff)
      then show False using gt' by linarith
    qed
    define z where "z = int (unat (dividend st)) - int (unat c) + int (unat (divisor st)) + int (unat c2)"
    define a2 where "a2 = int (dval (ring_from (loffset st) ds2))"
    have a2: "0 \<le> a2" "a2 < P" using ring_less [OF ds2, of "loffset st"] by (simp_all add: a2_def P_def)
    have xz: "x + int (divv st) = a2 + P * z"
    proof -
      have "a2 + P * int (unat c2) = a + int (lowdiv st)"
        unfolding a_def a2_def P_def using v2 by (simp only: of_nat_add [symmetric] of_nat_mult [symmetric])
      then show ?thesis
        by (simp add: xa divv_split [OF wf] z_def P_def [symmetric] algebra_simps)
    qed
    have z0: "0 \<le> z" by (rule nonneg_digit [OF nn [folded x_def, unfolded xz] a2(2) P])
    have "x + int (divv st) < int (divv st)" using neg by simp
    also have "\<dots> < P * (int (unat (divisor st)) + 1)"
      unfolding P_def by (rule divv_less [OF wf])
    finally have "a2 + P * z < P * (int (unat (divisor st)) + 1)" by (simp only: xz)
    then have "z < int (unat (divisor st)) + 1" by (rule small_digit [OF _ a2(1) P])
    then have zb: "nat z < 2 ^ 64" using unat_u64_bound [of "divisor st"] z0 by linarith
    have "unat (dividend st - ucast c + divisor st + ucast c2) = nat z"
      by (rule unat_of_int_word [OF _ _ zb, of _ z]) (use z0 in \<open>simp_all add: z_def\<close>)
    then have rv: "int (remv (st\<lparr>ldigits := ds2, dividend := dividend st - ucast c + divisor st + ucast c2, nextdigit := nextdigit st - 1\<rparr>)) = x + int (divv st)"
      using z0 by (simp only: remv_update) (simp add: xz a2_def P_def)
    show ?thesis
      using rv gt neg wf_div_update(1) [OF wf ds2] unfolding subtracts_def x_def [symmetric] body by (simp add: frame_def)
  qed
qed

text \<open>The special case: the digit is the highest one, and the register may have overflown.\<close>

lemma submul_max_subtracts:
  assumes wf: "wf_div st" and nd: "nextdigit st = 0" and rn: "rnrdigits st > 2"
    and dd: "dividend st = word_of_int dd"
    and x: "x = int (ringv st) + int (ring_top st) * dd - (2 ^ 32 - 1) * int (lowdiv st)"
    and lo: "0 \<le> x" and hi: "x < int (divv st)"
  shows "\<exists>st'. submul_biginthelper st = Some st' \<and> wf_div st' \<and> frame st st' \<and> int (remv st') = x \<and> nextdigit st' = - 1"
proof -
  define P where "P = int (ring_top st)"
  have P: "0 < P" by (simp add: P_def ring_top_def)
  obtain ds l c where r: "ring_loop submul_max (lnrdigits st) (loffset st) (rdigits st) (ring_start st) (0, 1) (ldigits st) = Some (ds, l, c)"
    and ds: "length ds = lnrdigits st"
    and v: "int (dval (ring_from (loffset st) ds)) + P * (int (unat c) - 1 - int (unat l)) =
       int (ringv st) - (2 ^ 32 - 1) * int (lowdiv st)"
    unfolding P_def by (rule ring_max [OF wf])
  define a where "a = int (dval (ring_from (loffset st) ds))"
  have a: "0 \<le> a" "a < P" using ring_less [OF ds, of "loffset st"] by (simp_all add: a_def P_def)
  define z where "z = dd - int (unat l) - 1 + int (unat c)"
  have xz: "x = a + P * z"
    using v [folded a_def] by (simp only: x P_def [symmetric] z_def) (simp only: algebra_simps)
  have z0: "0 \<le> z" by (rule nonneg_digit [OF lo [unfolded xz] a(2) P])
  have "x < P * (int (unat (divisor st)) + 1)"
    unfolding P_def by (rule less_trans [OF hi divv_less [OF wf]])
  then have "z < int (unat (divisor st)) + 1" unfolding xz by (rule small_digit [OF _ a(1) P])
  then have zb: "nat z < 2 ^ 64" using unat_u64_bound [of "divisor st"] z0 by linarith
  have "dividend st - ucast l - 1 + ucast c = word_of_int z" by (simp add: z_def dd)
  then have "unat (dividend st - ucast l - 1 + ucast c) = nat z"
    by (rule unat_of_int_word) (use z0 zb in simp_all)
  then have rv: "int (remv (st\<lparr>ldigits := ds, dividend := dividend st - ucast l - 1 + ucast c, nextdigit := - 1\<rparr>)) = x"
    using z0 by (simp only: remv_update) (simp add: xz a_def P_def)
  moreover have "submul_biginthelper st = Some (st\<lparr>ldigits := ds, dividend := dividend st - ucast l - 1 + ucast c, nextdigit := - 1\<rparr>)"
    using rn nd r by (simp add: submul_biginthelper_def)
  ultimately show ?thesis
    using wf_div_update(1) [OF wf ds] by (auto simp: frame_def)
qed

section \<open>One digit of the quotient\<close>

text \<open>The next digit leaves the ring: the number in the ring moves up by one digit.\<close>

definition fetch_digit :: "bigint_divstate_t \<Rightarrow> bigint_divstate_t" where
  "fetch_digit st = (let off = loffset st - 1
     in wrap_loffset (st\<lparr>loffset := off, nextdigit := ldigits st ! off, ldigits := (ldigits st)[off := 0]\<rparr>))"

lemma fetch_digit_spec:
  assumes wf: "wf_div st"
  shows "wf_div (fetch_digit st) \<and> frame st (fetch_digit st) \<and> dividend (fetch_digit st) = dividend st \<and>
    ringv (fetch_digit st) + ring_top st * unat (nextdigit (fetch_digit st)) = 2 ^ 32 * ringv st"
proof -
  define off where "off = loffset st - 1"
  define ds where "ds = ldigits st"
  have off: "loffset st = Suc off" "off < length ds" "length ds = lnrdigits st"
    using wf_divD [OF wf] by (simp_all add: off_def ds_def)
  define rest where "rest = drop (Suc off) ds @ take off ds"
  have old: "ring_from (Suc off) ds = rest @ [ds ! off]"
    using off by (simp add: ring_from_def rest_def take_Suc_conv_app_nth)
  have new: "ring_from off (ds[off := 0]) = 0 # rest"
    using off by (simp add: ring_from_def rest_def Cons_nth_drop_Suc [symmetric])
  have len: "length rest = lnrdigits st - 1"
    using off by (simp add: rest_def)
  have t: "ring_top st = 2 ^ 32 * 2 ^ (32 * (lnrdigits st - 1))"
  proof -
    obtain n where "lnrdigits st = Suc n" using off by (cases "lnrdigits st") simp_all
    then show ?thesis by (simp add: ring_top_def power_add)
  qed
  have val: "dval (ring_from off (ds[off := 0])) + ring_top st * unat (ds ! off) = 2 ^ 32 * ringv st"
    unfolding new ringv_def off(1) ds_def [symmetric] old dval_append len t by (simp add: algebra_simps)
  show ?thesis
  proof (cases "off = 0")
    case True
    have "ring_from (lnrdigits st) (ds[0 := 0]) = ring_from 0 (ds[0 := 0])"
      using off by (simp add: ring_from_def)
    then show ?thesis
      using val True wf off by (clarsimp simp: fetch_digit_def wrap_loffset_def ds_def ringv_def wf_div_def frame_def Let_def)
  next
    case False
    then show ?thesis
      using val wf off by (clarsimp simp: fetch_digit_def wrap_loffset_def ds_def ringv_def wf_div_def frame_def Let_def)
  qed
qed

text \<open>The digit that \<open>submul_biginthelper\<close> leaves is the right one, and the register and the ring the remainder.\<close>

definition yields :: "bigint_divstate_t \<Rightarrow> nat \<Rightarrow> bigint_divstate_t option \<Rightarrow> bool" where
  "yields st u res \<longleftrightarrow> (\<exists>st'. res = Some st' \<and> wf_div st' \<and> frame st st' \<and>
     u = unat (nextdigit st') * divv st + remv st' \<and> remv st' < divv st)"

lemma yields_frame: "frame a b \<Longrightarrow> yields b u res \<Longrightarrow> yields a u res"
  unfolding yields_def using frame_trans frame_values by metis

lemma estimate_yields:
  assumes wf: "wf_div st" and nd: "nextdigit st \<noteq> 0" and dd: "unat (dividend st) < unat (divisor st)"
    and u: "u = remv st + unat (nextdigit st) * (ring_top st * unat (divisor st))"
  shows "yields st u (submul_biginthelper st)"
proof -
  define q where "q = unat (nextdigit st)"
  have q: "0 < q" using nd by (simp add: q_def unat_gt_0)
  define x where "x = int (remv st) - int (q * lowdiv st)"
  have low: "q * lowdiv st \<le> divv st"
  proof -
    have "q * lowdiv st \<le> 2 ^ 32 * ring_top st"
      using lowdiv_less [OF wf] unat_u32_bound [of "nextdigit st"] by (intro mult_le_mono) (simp_all add: q_def)
    also have "\<dots> \<le> unat (divisor st) * ring_top st" by (intro mult_le_mono1) (rule wf_divD(1) [OF wf])
    also have "\<dots> \<le> divv st" using divv_split [OF wf] by (simp add: mult.commute)
    finally show ?thesis .
  qed
  have high: "remv st < divv st"
  proof -
    have "ringv st < ring_top st" unfolding ringv_def by (rule ring_less) (use wf in \<open>simp add: wf_div_def\<close>)
    then have "remv st < ring_top st * Suc (unat (dividend st))" by (simp add: remv_def)
    also have "\<dots> \<le> ring_top st * unat (divisor st)" using dd by (intro mult_le_mono2) simp
    also have "\<dots> \<le> divv st" using divv_split [OF wf] by simp
    finally show ?thesis .
  qed
  have ux: "int u = int q * int (divv st) + x"
    by (simp only: u divv_split [OF wf] x_def q_def [symmetric] of_nat_add of_nat_mult) (simp only: algebra_simps)
  have nn: "0 \<le> x + int (divv st)" using low by (simp only: x_def)
  obtain st' where st': "submul_biginthelper st = Some st'" "wf_div st'" "frame st st'"
      "if 0 \<le> x then int (remv st') = x \<and> nextdigit st' = nextdigit st
       else int (remv st') = x + int (divv st) \<and> nextdigit st' = nextdigit st - 1"
    using submul_subtracts [OF wf nd nn [unfolded x_def q_def]] unfolding subtracts_def x_def q_def by blast
  have "int u = int (unat (nextdigit st')) * int (divv st) + int (remv st') \<and> remv st' < divv st"
  proof (cases "0 \<le> x")
    case True
    then have r: "int (remv st') = x" "unat (nextdigit st') = q" using st'(4) by (simp_all add: q_def)
    have "int (remv st') \<le> int (remv st)" unfolding r x_def by simp
    then have "remv st' < divv st" using high by (simp only: of_nat_le_iff)
    then show ?thesis using ux by (simp only: r)
  next
    case False
    then have r: "int (remv st') = x + int (divv st)" "nextdigit st' = nextdigit st - 1" using st'(4) by simp_all
    have "unat (nextdigit st') = q - 1"
      using q by (simp add: r(2) q_def unat_sub word_le_nat_alt)
    then have q': "int (unat (nextdigit st')) = int q - 1" using q by (simp only: of_nat_diff)
    have "int (remv st') < int (divv st)" using False r(1) by linarith
    then have "remv st' < divv st" by (simp only: of_nat_less_iff)
    then show ?thesis using ux unfolding q' r(1) by (simp only: algebra_simps mult_1 simp_thms)
  qed
  then have "u = unat (nextdigit st') * divv st + remv st'" "remv st' < divv st"
    by (simp_all only: of_nat_mult [symmetric] of_nat_add [symmetric] of_nat_eq_iff)
  then show ?thesis unfolding yields_def using st'(1-3) by blast
qed

lemma quot_rem_yields:
  assumes wf: "wf_div st" and ge: "unat (divisor st) \<le> unat (dividend st)"
  shows "yields st (remv st) (submul_biginthelper (quot_rem st))"
proof -
  define st1 where "st1 = quot_rem st"
  have fr: "frame st st1" and wf1: "wf_div st1"
    using wf by (simp_all add: st1_def quot_rem_def frame_def)
  have d0: "0 < unat (divisor st)" by (rule less_le_trans [OF _ wf_divD(1) [OF wf]]) simp
  have "unat (dividend st) div unat (divisor st) < 2 ^ 32"
  proof -
    have "unat (dividend st) < 2 ^ 32 * 2 ^ 32" using unat_u64_bound [of "dividend st"] by simp
    also have "\<dots> \<le> 2 ^ 32 * unat (divisor st)" using wf_divD(1) [OF wf] by (rule mult_le_mono2)
    finally show ?thesis by (simp only: less_mult_imp_div_less)
  qed
  then have q: "unat (nextdigit st1) = unat (dividend st) div unat (divisor st)"
    by (simp add: st1_def quot_rem_def unat_ucast_mod unat_div)
  have r: "unat (dividend st1) = unat (dividend st) mod unat (divisor st)"
    by (simp add: st1_def quot_rem_def unat_mod)
  have "yields st1 (remv st) (submul_biginthelper st1)"
  proof (rule estimate_yields [OF wf1])
    have "unat (nextdigit st1) \<noteq> 0" unfolding q using ge d0 by (simp add: div_eq_0_iff)
    then show "nextdigit st1 \<noteq> 0" by (metis unat_0)
    have dv: "divisor st1 = divisor st" by (simp add: st1_def quot_rem_def)
    show "unat (dividend st1) < unat (divisor st1)" using d0 by (simp only: r dv mod_less_divisor)
    have "ringv st1 = ringv st" "ring_top st1 = ring_top st" by (simp_all add: st1_def quot_rem_def ringv_def ring_top_def)
    moreover have "unat (dividend st) = unat (nextdigit st1) * unat (divisor st) + unat (dividend st1)"
      by (simp only: q r div_mult_mod_eq)
    ultimately show "remv st = remv st1 + unat (nextdigit st1) * (ring_top st1 * unat (divisor st1))"
      by (simp only: remv_def dv) (simp only: algebra_simps)
  qed
  then show ?thesis unfolding st1_def [symmetric] by (rule yields_frame [OF fr])
qed

lemma dividend_le_divisor:
  assumes wf: "wf_div st" and lt: "remv st < divv st"
  shows "unat (dividend st) \<le> unat (divisor st)"
proof (rule ccontr)
  assume "\<not> ?thesis"
  then have "ring_top st * Suc (unat (divisor st)) \<le> ring_top st * unat (dividend st)" by (intro mult_le_mono2) simp
  then show False using lt lowdiv_less [OF wf] divv_split [OF wf] by (simp add: remv_def)
qed

lemma small_remainder: "wf_div st \<Longrightarrow> unat (dividend st) < unat (divisor st) \<Longrightarrow> remv st < divv st"
proof -
  assume wf: "wf_div st" and dd: "unat (dividend st) < unat (divisor st)"
  have "ringv st < ring_top st" unfolding ringv_def by (rule ring_less) (use wf_divD(2) [OF wf] in simp)
  then have "remv st < ring_top st * Suc (unat (dividend st))" by (simp add: remv_def)
  also have "\<dots> \<le> ring_top st * unat (divisor st)" using dd by (intro mult_le_mono2) simp
  also have "\<dots> \<le> divv st" using divv_split [OF wf] by simp
  finally show "remv st < divv st" .
qed

lemma equal_tops_yields:
  assumes wf: "wf_div st" and eq: "dividend st = divisor st" and lt: "ringv st + ring_top st * unat (nextdigit st) = 2 ^ 32 * r"
    and r: "r + ring_top st * unat (dividend st) < divv st"
  shows "yields st (2 ^ 32 * (r + ring_top st * unat (dividend st)))
    (submul_biginthelper (st\<lparr>dividend := dividend st + ucast (nextdigit st), nextdigit := 0\<rparr>))"
proof -
  define st1 where "st1 = st\<lparr>dividend := dividend st + ucast (nextdigit st), nextdigit := 0\<rparr>"
  have fr: "frame st st1" and wf1: "wf_div st1" and rv: "ringv st1 = ringv st"
    using wf by (simp_all add: st1_def frame_def ringv_def)
  note fv = frame_values [OF fr]
  define D where "D = unat (divisor st)"
  define U where "U = 2 ^ 32 * (r + ring_top st * D)"
  have rl: "r < lowdiv st" using r divv_split [OF wf] eq by (simp add: D_def)
  have rn: "rnrdigits st1 > 2"
  proof (rule ccontr)
    assume "\<not> ?thesis"
    then have "rnrdigits st = 2" using wf_divD(6) [OF wf1] fr by (simp add: frame_def)
    then show False using rl by (simp add: lowdiv_def)
  qed
  define x where "x = int U - (2 ^ 32 - 1) * int (divv st)"
  have x: "x = int (ringv st1) + int (ring_top st1) * (int D + int (unat (nextdigit st))) - (2 ^ 32 - 1) * int (lowdiv st1)"
  proof -
    have e: "int (ringv st) + int (ring_top st) * int (unat (nextdigit st)) = 2 ^ 32 * int r"
      using lt by (simp only: of_nat_add [symmetric] of_nat_mult [symmetric]) simp
    have "x = 2 ^ 32 * int r + 2 ^ 32 * (int (ring_top st) * int D) - (2 ^ 32 - 1) * (int (lowdiv st) + int (ring_top st) * int D)"
      by (simp add: x_def U_def divv_split [OF wf] D_def algebra_simps)
    then show ?thesis
      unfolding rv fv [THEN conjunct1] fv [THEN conjunct2, THEN conjunct2, THEN conjunct1] e [symmetric]
      by (simp only: algebra_simps)
  qed
  have hi: "x < int (divv st)"
  proof -
    have "U < 2 ^ 32 * divv st" using r eq by (simp add: U_def D_def)
    then have "int U < 2 ^ 32 * int (divv st)" by (simp only: of_nat_less_iff [symmetric, where 'a = int]) simp
    then show ?thesis by (simp add: x_def algebra_simps)
  qed
  have lo: "0 \<le> x"
  proof -
    have "(2 ^ 32 - 1) * divv st \<le> U"
    proof -
      have "(2 ^ 32 - 1) * divv st = (2 ^ 32 - 1) * lowdiv st + (2 ^ 32 - 1) * (ring_top st * D)"
        by (simp add: divv_split [OF wf] D_def algebra_simps)
      also have "(2 ^ 32 - 1) * lowdiv st \<le> 2 ^ 32 * ring_top st" using lowdiv_less [OF wf] by (intro mult_le_mono) simp_all
      also have "\<dots> \<le> D * ring_top st" unfolding D_def by (intro mult_le_mono1) (rule wf_divD(1) [OF wf])
      finally have "(2 ^ 32 - 1) * divv st \<le> D * ring_top st + (2 ^ 32 - 1) * (ring_top st * D)" by simp
      also have "\<dots> = 2 ^ 32 * (ring_top st * D)" by (simp add: algebra_simps)
      also have "\<dots> \<le> U" by (simp add: U_def)
      finally show ?thesis .
    qed
    then have "int ((2 ^ 32 - 1) * divv st) \<le> int U" by (simp only: of_nat_le_iff)
    then show ?thesis by (simp add: x_def)
  qed
  have "dividend st1 = word_of_int (int D + int (unat (nextdigit st)))"
    by (simp add: st1_def D_def eq)
  then obtain st' where st': "submul_biginthelper st1 = Some st'" "wf_div st'" "frame st1 st'" "int (remv st') = x" "nextdigit st' = - 1"
    using submul_max_subtracts [OF wf1 _ rn _ x lo] hi fv by (auto simp: st1_def)
  have nd: "unat (nextdigit st') = 2 ^ 32 - 1" by (simp add: st' unsigned_minus_1_eq_mask mask_eq_exp_minus_1)
  have "int U = int (unat (nextdigit st') * divv st + remv st')"
    unfolding of_nat_add of_nat_mult st'(4) nd x_def by simp
  then have "U = unat (nextdigit st') * divv st + remv st'" by (simp only: of_nat_eq_iff)
  moreover have "remv st' < divv st" using st'(4) hi by simp
  ultimately have "yields st1 U (Some st')" using st' fv by (auto simp: yields_def)
  then have "yields st U (submul_biginthelper st1)" unfolding st'(1) by (rule yields_frame [OF fr])
  then show ?thesis by (simp only: st1_def U_def D_def eq)
qed

lemma divmod_next_yields:
  assumes wf: "wf_div st" and lt: "remv st < divv st"
  shows "yields st (2 ^ 32 * remv st) (divmod_next st)"
proof -
  define f where "f = fetch_digit st"
  have f: "wf_div f" "frame st f" "dividend f = dividend st" "ringv f + ring_top st * unat (nextdigit f) = 2 ^ 32 * ringv st"
    using fetch_digit_spec [OF wf] by (simp_all add: f_def)
  note fv = frame_values [OF f(2)]
  have dv: "divisor f = divisor st" using f(2) by (simp add: frame_def)
  define D where "D = unat (dividend st)"
  define d where "d = unat (nextdigit f)"
  have d: "d < 2 ^ 32" unfolding d_def by (rule unat_u32_bound)
  have U: "2 ^ 32 * remv st = ringv f + ring_top st * (2 ^ 32 * D + d)"
    using f(4) by (simp add: remv_def D_def d_def algebra_simps)
  have body: "divmod_next st = (if (ucast (drop_bit 32 (dividend f)) :: u32) \<noteq> 0 then
       if dividend f = divisor f then submul_biginthelper (f\<lparr>dividend := dividend f + ucast (nextdigit f), nextdigit := 0\<rparr>)
       else submul_biginthelper (div3by2digits_biginthelper f)
     else if (ucast (dividend f) :: u32) \<noteq> 0 then
       let st = f\<lparr>dividend := push_bit 32 (dividend f) + ucast (nextdigit f)\<rparr>
       in if divisor st \<le> dividend st then submul_biginthelper (quot_rem st) else Some (st\<lparr>nextdigit := 0\<rparr>)
     else Some (f\<lparr>dividend := ucast (nextdigit f), nextdigit := 0\<rparr>))"
    using wf_divD(2,4,5) [OF wf] by (simp add: divmod_next_def f_def fetch_digit_def Let_def)
  have high: "(ucast (drop_bit 32 (dividend f)) :: u32) \<noteq> 0 \<longleftrightarrow> 2 ^ 32 \<le> D"
  proof -
    have "D div 2 ^ 32 < 2 ^ 32" using unat_u64_bound [of "dividend st"] by (simp add: D_def less_mult_imp_div_less)
    then have "unat (ucast (drop_bit 32 (dividend f)) :: u32) = D div 2 ^ 32"
      by (simp add: unat_ucast_mod unat_drop_bit f(3) D_def)
    then show ?thesis by (metis div_eq_0_iff not_le unat_eq_0 zero_neq_numeral power_not_zero)
  qed
  show ?thesis
  proof (cases "2 ^ 32 \<le> D")
    case True
    show ?thesis
    proof (cases "dividend f = divisor f")
      case eq: True
      have "yields f (2 ^ 32 * (ringv st + ring_top f * unat (dividend f)))
        (submul_biginthelper (f\<lparr>dividend := dividend f + ucast (nextdigit f), nextdigit := 0\<rparr>))"
        by (rule equal_tops_yields [OF f(1) eq]) (use f lt fv in \<open>simp_all add: remv_def\<close>)
      then have "yields f (2 ^ 32 * remv st) (divmod_next st)"
        unfolding body high if_P [OF True] if_P [OF eq] by (simp only: remv_def fv f(3))
      then show ?thesis by (rule yields_frame [OF f(2)])
    next
      case ne: False
      define st1 where "st1 = div3by2digits_biginthelper f"
      have "unat (dividend f) \<le> unat (divisor f)" using dividend_le_divisor [OF wf lt] by (simp only: f(3) dv)
      moreover have "unat (dividend f) \<noteq> unat (divisor f)" using ne unfolding word_unat_eq_iff .
      ultimately have less: "unat (dividend f) < unat (divisor f)" by linarith
      have s: "frame f st1" "ldigits st1 = ldigits f" "loffset st1 = loffset f"
        "unat (nextdigit st1) * unat (divisor f) + unat (dividend st1) = 2 ^ 32 * D + d" "unat (dividend st1) < unat (divisor f)"
        using div3by2_spec [OF less] by (simp_all add: st1_def D_def d_def f(3))
      note sv = frame_values [OF s(1)]
      have wf1: "wf_div st1" using wf_divD [OF f(1)] s(1-3) by (simp add: wf_div_def frame_def)
      have "yields st1 (2 ^ 32 * remv st) (submul_biginthelper st1)"
      proof (rule estimate_yields [OF wf1])
        show "unat (dividend st1) < unat (divisor st1)" using s(1,5) by (simp add: frame_def)
        show "nextdigit st1 \<noteq> 0"
        proof
          assume "nextdigit st1 = 0"
          then have "2 ^ 32 * D + d < unat (divisor st)" using s(4,5) dv by simp
          also have "\<dots> \<le> 2 ^ 32 * 2 ^ 32" using unat_u64_bound [of "divisor st"] by simp
          also have "\<dots> \<le> 2 ^ 32 * D" using True by (rule mult_le_mono2)
          finally show False by simp
        qed
        have "ringv st1 = ringv f" "divisor st1 = divisor f" using s(1-3) by (simp_all add: ringv_def frame_def)
        then show "2 ^ 32 * remv st = remv st1 + unat (nextdigit st1) * (ring_top st1 * unat (divisor st1))"
          unfolding U s(4) [symmetric] using sv fv by (simp only: remv_def) (simp only: algebra_simps)
      qed
      then have "yields st1 (2 ^ 32 * remv st) (divmod_next st)"
        unfolding body high if_P [OF True] if_not_P [OF ne] st1_def .
      then show ?thesis by (intro yields_frame [OF f(2)] yields_frame [OF s(1)])
    qed
  next
    case False
    then have Dlt: "D < 2 ^ 32" by simp
    show ?thesis
    proof (cases "D = 0")
      case True
      define st1 where "st1 = f\<lparr>dividend := ucast (nextdigit f), nextdigit := 0\<rparr>"
      have ud: "unat (dividend st1) = d" by (simp add: st1_def d_def unat_ucast_up)
      have fr: "frame f st1" and wf1: "wf_div st1" and rv: "ringv st1 = ringv f"
        using f(1) by (simp_all add: st1_def frame_def ringv_def)
      have "unat (divisor st1) = unat (divisor st)" using fr dv by (simp add: frame_def)
      then have "unat (dividend st1) < unat (divisor st1)"
        using d wf_divD(1) [OF wf] by (simp only: ud)
      then have "remv st1 < divv st1" by (rule small_remainder [OF wf1])
      moreover have "2 ^ 32 * remv st = remv st1"
        unfolding U True using frame_values [OF fr] fv by (simp add: remv_def rv ud)
      ultimately have "yields st1 (2 ^ 32 * remv st) (Some st1)"
        using wf1 by (simp add: yields_def frame_def) (simp add: st1_def)
      moreover have "(ucast (dividend f) :: u32) = 0" using True by (simp add: f(3) D_def unat_eq_0)
      ultimately have "yields st1 (2 ^ 32 * remv st) (divmod_next st)"
        unfolding body high if_not_P [OF False] st1_def by simp
      then show ?thesis by (intro yields_frame [OF f(2)] yields_frame [OF fr])
    next
      case D0: False
      define st1 where "st1 = f\<lparr>dividend := push_bit 32 (dividend f) + ucast (nextdigit f)\<rparr>"
      have ud: "unat (dividend st1) = 2 ^ 32 * D + d"
      proof -
        have "2 ^ 32 * D + d < 2 ^ 32 * (D + 1)" using d by simp
        also have "\<dots> \<le> 2 ^ 32 * 2 ^ 32" using Dlt by (intro mult_le_mono2) simp
        finally have b: "D * 2 ^ 32 + d < 2 ^ 64" by simp
        have p: "unat (push_bit 32 (dividend f)) = D * 2 ^ 32"
          using unat_push_bit_no_wrap [of "dividend f" 32] Dlt by (simp add: f(3) D_def)
        have n: "unat (ucast (nextdigit f) :: u64) = d" by (simp add: d_def unat_ucast_up)
        have "unat (dividend st1) = D * 2 ^ 32 + d"
        proof -
          have "dividend st1 = push_bit 32 (dividend f) + ucast (nextdigit f)" by (simp add: st1_def)
          then show ?thesis by (simp only:) (rule unat_add_eq [OF p n], use b in simp)
        qed
        then show ?thesis by (simp only: mult.commute)
      qed
      have fr: "frame f st1" and wf1: "wf_div st1" and rv: "ringv st1 = ringv f"
        using f(1) by (simp_all add: st1_def frame_def ringv_def)
      note sv = frame_values [OF fr]
      have u: "2 ^ 32 * remv st = remv st1"
        unfolding U using sv fv by (simp only: remv_def rv ud)
      have lowd: "(ucast (dividend f) :: u32) \<noteq> 0"
      proof -
        have "unat (ucast (dividend f) :: u32) = D" using Dlt by (simp add: unat_ucast_mod f(3) D_def)
        then show ?thesis using D0 by (metis unat_0)
      qed
      show ?thesis
      proof (cases "divisor st1 \<le> dividend st1")
        case True
        then have "yields st1 (remv st1) (submul_biginthelper (quot_rem st1))"
          by (intro quot_rem_yields [OF wf1]) (simp add: word_le_nat_alt)
        then have "yields st1 (2 ^ 32 * remv st) (divmod_next st)"
          unfolding body high if_not_P [OF False] if_P [OF lowd] Let_def st1_def [symmetric] if_P [OF True] u .
        then show ?thesis by (intro yields_frame [OF f(2)] yields_frame [OF fr])
      next
        case lt: False
        define st2 where "st2 = st1\<lparr>nextdigit := 0\<rparr>"
        have "remv st1 < divv st1" using lt by (intro small_remainder [OF wf1]) (simp add: word_le_nat_alt)
        moreover have "remv st2 = remv st1" "divv st2 = divv st1" "frame st1 st2" "wf_div st2" "nextdigit st2 = 0"
          using wf1 by (simp_all add: st2_def remv_def ringv_def ring_top_def divv_def scale_def frame_def)
        ultimately have "yields st1 (remv st1) (Some st2)"
          by (simp add: yields_def)
        then have "yields st1 (2 ^ 32 * remv st) (divmod_next st)"
          unfolding body high if_not_P [OF False] if_P [OF lowd] Let_def st1_def [symmetric] if_not_P [OF lt] u st2_def .
        then show ?thesis by (intro yields_frame [OF f(2)] yields_frame [OF fr])
      qed
    qed
  qed
qed

text \<open>The highest digit; it is 0 exactly when the quotient has one digit less.\<close>

lemma divmod_first_yields:
  assumes wf: "wf_div st" and nd: "nextdigit st = 0"
  shows "\<exists>st'. divmod_first st = Some (nextdigit st' = 0, st') \<and> yields st (remv st) (Some st')"
proof -
  define u where "u = remv st"
  consider (more) "divisor st < dividend st" | (same) "divisor st = dividend st" | (less) "dividend st < divisor st" by (rule linorder_cases)
  then show ?thesis
  proof cases
    case more
    then have m: "unat (divisor st) < unat (dividend st)" by (simp add: word_less_nat_alt)
    then have "yields st (remv st) (submul_biginthelper (quot_rem st))"
      by (intro quot_rem_yields [OF wf]) simp
    then obtain st' where st': "submul_biginthelper (quot_rem st) = Some st'" "yields st (remv st) (Some st')"
      unfolding yields_def by blast
    have "nextdigit st' \<noteq> 0"
    proof
      assume "nextdigit st' = 0"
      then have "remv st < divv st" using st'(2) by (auto simp: yields_def)
      then show False using dividend_le_divisor [OF wf] m by simp
    qed
    then show ?thesis using more st' by (simp add: divmod_first_def)
  next
    case same
    define st1 where "st1 = st\<lparr>nextdigit := 1, dividend := 0\<rparr>"
    have fr: "frame st st1" and wf1: "wf_div st1" and rv: "ringv st1 = ringv st" and n1: "nextdigit st1 = 1" "dividend st1 = 0"
      using wf by (simp_all add: st1_def frame_def ringv_def)
    have "yields st1 (remv st) (submul_biginthelper st1)"
    proof (rule estimate_yields [OF wf1])
      show "unat (dividend st1) < unat (divisor st1)"
        using less_le_trans [OF _ wf_divD(1) [OF wf1], of 0] by (simp add: n1)
      have "divisor st1 = divisor st" by (simp add: st1_def)
      then show "remv st = remv st1 + unat (nextdigit st1) * (ring_top st1 * unat (divisor st1))"
        using frame_values [OF fr] by (simp add: remv_def rv n1 same)
    qed (simp add: n1)
    then have "yields st (remv st) (submul_biginthelper st1)" by (rule yields_frame [OF fr])
    then show ?thesis using same by (auto simp: divmod_first_def st1_def yields_def)
  next
    case less
    then have "remv st < divv st" by (intro small_remainder [OF wf]) (simp add: word_less_nat_alt)
    then have "yields st (remv st) (Some st)" using wf nd by (simp add: yields_def frame_def)
    then show ?thesis using less nd by (auto simp: divmod_first_def)
  qed
qed

text \<open>All further digits.\<close>

lemma divmod_loop_yields:
  assumes "wf_div st" and "remv st < divv st"
  shows "\<exists>st' new. divmod_loop n st qs = Some (st', new @ qs) \<and> length new = n \<and> wf_div st' \<and> frame st st' \<and>
    2 ^ (32 * n) * remv st = dval new * divv st + remv st' \<and> remv st' < divv st"
  using assms
proof (induction n arbitrary: st qs)
  case 0
  then show ?case by (simp add: frame_def)
next
  case (Suc n)
  obtain st1 where st1: "divmod_next st = Some st1" "wf_div st1" "frame st st1"
      "2 ^ 32 * remv st = unat (nextdigit st1) * divv st + remv st1" "remv st1 < divv st"
    using divmod_next_yields [OF Suc.prems] unfolding yields_def by blast
  note fv = frame_values [OF st1(3)]
  obtain st' new where st': "divmod_loop n st1 (nextdigit st1 # qs) = Some (st', new @ nextdigit st1 # qs)" "length new = n" "wf_div st'" "frame st1 st'"
      "2 ^ (32 * n) * remv st1 = dval new * divv st1 + remv st'" "remv st' < divv st1"
    using Suc.IH [OF st1(2), of "nextdigit st1 # qs"] st1(5) fv by auto
  have "2 ^ (32 * Suc n) * remv st = 2 ^ (32 * n) * (2 ^ 32 * remv st)" by (simp add: power_add)
  also have "\<dots> = 2 ^ (32 * n) * (unat (nextdigit st1) * divv st) + 2 ^ (32 * n) * remv st1"
    by (simp only: st1(4) add_mult_distrib2)
  also have "\<dots> = dval (new @ [nextdigit st1]) * divv st + remv st'"
    unfolding st'(5) dval_append st'(2) using fv by (simp add: algebra_simps)
  finally have v: "2 ^ (32 * Suc n) * remv st = dval (new @ [nextdigit st1]) * divv st + remv st'" .
  show ?case
    by (rule exI [of _ st'], rule exI [of _ "new @ [nextdigit st1]"])
      (use st1 st' v fv frame_trans [OF st1(3) st'(4)] in \<open>simp del: mult_Suc_right\<close>)
qed

end
