(* ===== verification/Big_Div.thy ===== *)
theory Big_Div
  imports Big_Mul Big_Div_Ring
begin

text \<open>
  The helpers of the division of C-kern/math/int/bigint.c: \<open>divmod_biginthelper\<close>, which runs the
  loop of Big_Div_Ring and stores quotient and remainder, and \<open>divmodui32_biginthelper\<close> for a divisor
  of one digit. A read or write outside an array is the result \<open>None\<close>; a null pointer for one of the
  two results is \<open>None\<close> for its object.
\<close>

section \<open>The results\<close>

definition write_digits :: "nat \<Rightarrow> u32 list \<Rightarrow> bigint_t \<Rightarrow> bigint_t option" where
  "write_digits pos ds big =
     (if pos + length ds \<le> length (digits big) then Some (big\<lparr>digits := blit pos ds (digits big)\<rparr>) else None)"

definition set_sign :: "int \<Rightarrow> nat \<Rightarrow> bigint_t \<Rightarrow> bigint_t" where
  "set_sign sg n big = big\<lparr>sign_and_used_digits := cast_int16 (if sg < 0 then - int n else int n)\<rparr>"

text \<open>The loop that strips leading zeros of the remainder, on \<open>modnrdigits2\<close> and \<open>loffset\<close>.\<close>

primrec strip_ring :: "nat \<Rightarrow> u32 list \<Rightarrow> nat \<Rightarrow> nat \<Rightarrow> (nat \<times> nat) option" where
  "strip_ring lnr ds 0 loff = Some (0, loff)"
| "strip_ring lnr ds (Suc m) loff =
     (if loff = 0 \<or> loff > length ds then None
      else if ds ! (loff - 1) = 0 then strip_ring lnr ds m (if loff - 1 = 0 then lnr else loff - 1)
      else Some (Suc m, loff))"

text \<open>The two copies at the end of \<open>divmod_biginthelper\<close>.\<close>

definition copy_ring :: "nat \<Rightarrow> u32 list \<Rightarrow> nat \<Rightarrow> nat \<Rightarrow> bigint_t \<Rightarrow> bigint_t option" where
  "copy_ring lnr ds m loff modresult = do {
     (m, loff, modresult) \<leftarrow>
       if m > loff then
         if loff > length ds then None
         else do { r \<leftarrow> write_digits (m - loff) (take loff ds) modresult; Some (m - loff, lnr, r) }
       else Some (m, loff, modresult);
     if m > 0 then
       if m > loff \<or> loff > length ds then None
       else write_digits 0 (take m (drop (loff - m) ds)) modresult
     else Some modresult }"

text \<open>The remainder is stored in \<open>modresult\<close>.\<close>

definition store_mod :: "bigint_divstate_t \<Rightarrow> nat \<Rightarrow> int \<Rightarrow> bigint_t \<Rightarrow> bigint_t option" where
  "store_mod st modnrdigits lsign modresult =
     (let high = (ucast (drop_bit 32 (dividend st)) :: u32);
          low = (ucast (dividend st) :: u32)
      in do {
        (m, loff) \<leftarrow>
          if high = 0 \<and> modnrdigits \<noteq> 0 then
            let m = modnrdigits - 1
            in if low = 0 \<and> m \<noteq> 0 then strip_ring (lnrdigits st) (ldigits st) (m - 1) (loffset st)
               else Some (m, loffset st)
          else Some (modnrdigits, loffset st);
        if m = 0 then Some (clear_bigint modresult)
        else do {
          let modresult = set_sign lsign m modresult;
          (m, modresult) \<leftarrow>
            if high \<noteq> 0 then
              if m < 2 then None
              else do { r \<leftarrow> write_digits (m - 2) [low, high] modresult; Some (m - 2, r) }
            else if low \<noteq> 0 then do { r \<leftarrow> write_digits (m - 1) [low] modresult; Some (m - 1, r) }
            else Some (m, modresult);
          copy_ring (lnrdigits st) (ldigits st) m loff modresult } })"

text \<open>The state after the highest two digits have been read.\<close>

definition divstate_start :: "u32 list \<Rightarrow> u32 list \<Rightarrow> bigint_divstate_t" where
  "divstate_start lds rds = (let ln = length lds; rn = length rds in
     wrap_loffset \<lparr>dividend = push_bit 32 (ucast (lds ! (ln - 1))) + ucast (lds ! (ln - 2)),
        divisor = push_bit 32 (ucast (rds ! (rn - 1))) + ucast (rds ! (rn - 2)),
        nextdigit = 0, loffset = ln - 2, lnrdigits = ln, rnrdigits = rn,
        ldigits = lds[ln - 1 := 0, ln - 2 := 0], rdigits = rds\<rparr>)"

definition divmod_biginthelper ::
  "bigint_t option \<Rightarrow> bigint_t option \<Rightarrow> nat \<Rightarrow> nat \<Rightarrow> int \<Rightarrow> int \<Rightarrow> u32 list \<Rightarrow> u32 list \<Rightarrow> (bigint_t option \<times> bigint_t option) option" where
  "divmod_biginthelper divresult modresult divnrdigits modnrdigits divsign lsign lds rds =
     (if length lds < 2 \<or> length rds < 2 then None
      else do {
        (dropped, st) \<leftarrow> divmod_first (divstate_start lds rds);
        let divnrdigits = (if dropped then uint16_of_int (int divnrdigits - 1) else divnrdigits);
        (st', qs) \<leftarrow> divmod_loop (uint16_of_int (int divnrdigits - of_bool (nextdigit st \<noteq> 0))) st
                       (if nextdigit st \<noteq> 0 then [nextdigit st] else []);
        divresult \<leftarrow> (case divresult of
            None \<Rightarrow> Some None
          | Some d \<Rightarrow>
              if divnrdigits = 0 then Some (Some (clear_bigint d))
              else do {
                d \<leftarrow> write_digits (divnrdigits - length qs) qs (set_sign divsign divnrdigits d);
                Some (Some d) });
        modresult \<leftarrow> (case modresult of
            None \<Rightarrow> Some None
          | Some m \<Rightarrow> do { m \<leftarrow> store_mod st' modnrdigits lsign m; Some (Some m) });
        Some (divresult, modresult) })"

section \<open>Division by a digit\<close>

text \<open>The loops over the digits of the dividend, from the highest one down, and over the zeros after them.\<close>

primrec divui32_loop :: "u32 \<Rightarrow> u32 list \<Rightarrow> u32 \<Rightarrow> u32 list \<Rightarrow> u32 \<times> u32 list" where
  "divui32_loop dvs [] dhigh qs = (dhigh, qs)"
| "divui32_loop dvs (l # ls) dhigh qs =
     (let d = (push_bit 32 (ucast dhigh) + ucast l :: u64)
      in divui32_loop dvs ls (ucast (d mod ucast dvs)) (ucast (d div ucast dvs) # qs))"

primrec divui32_zeros :: "u32 \<Rightarrow> nat \<Rightarrow> u32 \<Rightarrow> u32 list \<Rightarrow> nat \<times> u32 \<times> u32 list" where
  "divui32_zeros dvs 0 dhigh qs = (0, dhigh, qs)"
| "divui32_zeros dvs (Suc n) dhigh qs =
     (if dhigh \<noteq> 0 then
        let d = (push_bit 32 (ucast dhigh) :: u64)
        in divui32_zeros dvs n (ucast (d mod ucast dvs)) (ucast (d div ucast dvs) # qs)
      else (Suc n, dhigh, qs))"

text \<open>The loop that strips the leading zeros of the remainder.\<close>

primrec strip_top :: "u32 list \<Rightarrow> nat \<Rightarrow> nat" where
  "strip_top ds 0 = 0"
| "strip_top ds (Suc n) = (if ds ! n = 0 then strip_top ds n else Suc n)"

definition divmodui32_biginthelper ::
  "bigint_t option \<Rightarrow> bigint_t option \<Rightarrow> nat \<Rightarrow> int \<Rightarrow> int \<Rightarrow> u32 list \<Rightarrow> u32 \<Rightarrow> (bigint_t option \<times> bigint_t option) option" where
  "divmodui32_biginthelper divresult modresult divnrdigits divsign lsign lds dvs =
     (if lds = [] then None
      else do {
        let (dhigh, lnr, divnr) =
          (if last lds < dvs then (last lds, length lds - 1, uint16_of_int (int divnrdigits - 1))
           else (0, length lds, divnrdigits));
        let minnr = (if divnr < lnr then divnr else lnr);
        let modnr = 1 + lnr - minnr;
        let (dhigh, qs) = divui32_loop dvs (rev (take minnr (drop (lnr - minnr) lds))) dhigh [];
        let (nrzero, dhigh, qs) = divui32_zeros dvs (divnr - minnr) dhigh qs;
        divresult \<leftarrow> (case divresult of
            None \<Rightarrow> Some None
          | Some d \<Rightarrow>
              if divnr = 0 then Some (Some (clear_bigint d))
              else do {
                d \<leftarrow> write_digits 0 (replicate nrzero 0 @ qs) d;
                Some (Some (set_sign divsign divnr d)) });
        modresult \<leftarrow> (case modresult of
            None \<Rightarrow> Some None
          | Some m \<Rightarrow>
              let modnr = (if dhigh = 0 then strip_top lds (modnr - 1) else modnr)
              in if modnr = 0 then Some (Some (clear_bigint m))
                 else do {
                   m \<leftarrow> write_digits 0 (take (modnr - of_bool (dhigh \<noteq> 0)) lds @ (if dhigh \<noteq> 0 then [dhigh] else [])) m;
                   Some (Some (set_sign lsign modnr m)) });
        Some (divresult, modresult) })"

section \<open>Storing digits\<close>

text \<open>An object with room for \<open>n\<close> digits, and what it means that a value has been stored in it.\<close>

definition room :: "nat \<Rightarrow> bigint_t \<Rightarrow> bool" where
  "room n b \<longleftrightarrow> allocated_digits b < 2 ^ 15 \<and> (allocated_digits b \<noteq> 0 \<longrightarrow> length (digits b) = allocated_digits b) \<and>
     n \<le> length (digits b) \<and> n < 2 ^ 15 \<and> exponent b < 2 ^ 16"

definition stored :: "int \<Rightarrow> nat \<Rightarrow> bigint_t \<Rightarrow> bigint_t \<Rightarrow> bool" where
  "stored sg v b b' \<longleftrightarrow> bigint_inv b' \<and> bval b' = (if sg < 0 then -1 else 1) * int (v * 2 ^ (32 * exponent b))"

lemma room_le: "room n b \<Longrightarrow> m \<le> n \<Longrightarrow> room m b"
  by (simp add: room_def)

lemma stored_clear: "room n b \<Longrightarrow> stored sg 0 b (clear_bigint b)"
  by (simp add: stored_def room_def clear_bigint_def bigint_inv_def nrdigits_bigint_def bval_def)

lemma stored_digits:
  assumes r: "room n b" and n: "0 < n" and D: "length D = length (digits b)" "D ! (n - 1) \<noteq> 0" "dval (take n D) = v"
  shows "stored sg v b (b\<lparr>sign_and_used_digits := cast_int16 (if sg < 0 then - int n else int n), digits := D\<rparr>)"
proof -
  define b' where "b' = b\<lparr>sign_and_used_digits := cast_int16 (if sg < 0 then - int n else int n), digits := D\<rparr>"
  have n15: "n < 2 ^ 15" using r by (simp add: room_def)
  then have s: "sign_and_used_digits b' = (if sg < 0 then - int n else int n)" by (auto simp: b'_def)
  have nr: "nrdigits_bigint b' = n" using s by (simp add: nrdigits_bigint_def)
  have "bigint_inv b'"
    using r n D n15 s nr unfolding bigint_inv_def by (auto simp: room_def b'_def)
  moreover have "used_digits b' = take n D" by (simp add: used_digits_def nr) (simp add: b'_def)
  then have "bval b' = (if sg < 0 then -1 else 1) * int (v * 2 ^ (32 * exponent b))"
    using n D(3) by (simp add: bval_def bmag_def s) (simp add: b'_def)
  ultimately show ?thesis by (simp add: stored_def b'_def)
qed

section \<open>Storing the remainder\<close>

text \<open>The \<open>m\<close> digits below position \<open>loff\<close> of the ring.\<close>

definition below :: "nat \<Rightarrow> nat \<Rightarrow> u32 list \<Rightarrow> u32 list" where
  "below loff m ds = drop (length ds - m) (ring_from loff ds)"

lemma length_below [simp]: "loff \<le> length ds \<Longrightarrow> m \<le> length ds \<Longrightarrow> length (below loff m ds) = m"
  by (simp add: below_def ring_from_def)

lemma below_Suc:
  assumes "1 \<le> loff" "loff \<le> length ds" "m < length ds"
  shows "below loff (Suc m) ds = below (if loff - 1 = 0 then length ds else loff - 1) m ds @ [ds ! (loff - 1)]"
proof -
  obtain k where k: "loff = Suc k" "k < length ds" using assms by (cases loff) simp_all
  define xs where "xs = drop loff ds @ take k ds"
  have r: "ring_from loff ds = xs @ [ds ! k]"
    using k by (simp add: ring_from_def xs_def take_Suc_conv_app_nth)
  have r': "ring_from k ds = ds ! k # xs"
    using k by (simp add: ring_from_def xs_def Cons_nth_drop_Suc [symmetric])
  have w: "ring_from (if k = 0 then length ds else k) ds = ring_from k ds" by (simp add: ring_from_def)
  have lx: "length xs = length ds - 1" using k by (simp add: xs_def)
  obtain j where j: "length ds - m = Suc j" using assms(3) by (metis Suc_diff_Suc)
  have "length ds - Suc m = j" using j by simp
  moreover have "j \<le> length xs" using j lx by simp
  moreover have "(if loff - 1 = 0 then length ds else loff - 1) = (if k = 0 then length ds else k)"
    "ds ! (loff - 1) = ds ! k" by (simp_all add: k(1))
  ultimately show ?thesis unfolding below_def r by (simp only: w r' j drop_Suc_Cons drop_append) simp
qed

lemma strip_ring_spec:
  assumes "1 \<le> loff" "loff \<le> length ds" "m \<le> length ds"
  shows "\<exists>m' loff'. strip_ring (length ds) ds m loff = Some (m', loff') \<and> m' \<le> m \<and> 1 \<le> loff' \<and> loff' \<le> length ds \<and>
    below loff m ds = below loff' m' ds @ replicate (m - m') 0 \<and> (m' \<noteq> 0 \<longrightarrow> below loff' m' ds ! (m' - 1) \<noteq> 0)"
  using assms
proof (induction m arbitrary: loff)
  case 0
  then show ?case by simp
next
  case (Suc m)
  define l where "l = (if loff - 1 = 0 then length ds else loff - 1)"
  have l: "1 \<le> l" "l \<le> length ds" using Suc.prems by (auto simp: l_def)
  have b: "below loff (Suc m) ds = below l m ds @ [ds ! (loff - 1)]"
    unfolding l_def by (rule below_Suc) (use Suc.prems in simp_all)
  show ?case
  proof (cases "ds ! (loff - 1) = 0")
    case True
    obtain m' loff' where ih: "strip_ring (length ds) ds m l = Some (m', loff')" "m' \<le> m" "1 \<le> loff'" "loff' \<le> length ds"
      "below l m ds = below loff' m' ds @ replicate (m - m') 0" "m' \<noteq> 0 \<longrightarrow> below loff' m' ds ! (m' - 1) \<noteq> 0"
      using Suc.IH [OF l] Suc.prems(3) by auto
    have "replicate (Suc m - m') (0 :: u32) = replicate (m - m') 0 @ [0]"
      using ih(2) by (simp add: Suc_diff_le replicate_append_same)
    moreover have "strip_ring (length ds) ds (Suc m) loff = strip_ring (length ds) ds m l"
      using True Suc.prems by (simp add: l_def)
    ultimately show ?thesis
      using ih True b by (metis append.assoc le_SucI)
  next
    case False
    have "below loff (Suc m) ds ! m = ds ! (loff - 1)"
      using b l Suc.prems(3) by (simp add: nth_append)
    then show ?thesis using False Suc.prems by simp
  qed
qed

lemma copy_ring_spec:
  assumes "1 \<le> loff" "loff \<le> length ds" "m \<le> length ds" "m \<le> length (digits b)"
  shows "copy_ring (length ds) ds m loff b = Some (b\<lparr>digits := blit 0 (below loff m ds) (digits b)\<rparr>)"
proof (cases "m > loff")
  case True
  have "below loff m ds = drop (length ds - (m - loff)) ds @ take loff ds"
    using True assms by (simp add: below_def ring_from_def)
  then show ?thesis
    using True assms by (auto simp: copy_ring_def write_digits_def blit_def min_def)
next
  case False
  have "below loff m ds = take m (drop (loff - m) ds)"
    using False assms by (simp add: below_def ring_from_def drop_take)
  then show ?thesis
    using False assms by (cases "m = 0") (simp_all add: copy_ring_def write_digits_def blit_def min_def)
qed

lemma stored_blits:
  assumes r: "room n b" and n: "n = length xs + length ys" and ne: "xs @ ys \<noteq> []" "last (xs @ ys) \<noteq> 0" and v: "dval (xs @ ys) = v"
  shows "stored sg v b (b\<lparr>sign_and_used_digits := cast_int16 (if sg < 0 then - int n else int n),
    digits := blit 0 xs (blit (length xs) ys (digits b))\<rparr>)"
proof (rule stored_digits [OF r])
  define D where "D = blit 0 xs (blit (length xs) ys (digits b))"
  have len: "length xs + length ys \<le> length (digits b)" using r n by (simp add: room_def)
  then have t: "take n D = xs @ ys" by (simp add: D_def blit_def n min_def)
  show n0: "0 < n" using ne(1) n by auto
  show "length D = length (digits b)" using len by (simp add: D_def)
  show "dval (take n D) = v" using t v by simp
  have "D ! (n - 1) = take n D ! (n - 1)" using n0 by simp
  also have "\<dots> = last (xs @ ys)" unfolding t using ne(1) by (simp add: last_conv_nth n)
  finally show "D ! (n - 1) \<noteq> 0" using ne(2) by simp
qed

lemma store_mod_spec:
  assumes wf: "wf_div st" and m: "2 \<le> modnr" "modnr - 2 \<le> lnrdigits st" and r: "room modnr b"
    and v: "v = dval (below (loffset st) (modnr - 2) (ldigits st)) + 2 ^ (32 * (modnr - 2)) * unat (dividend st)"
  shows "\<exists>b'. store_mod st modnr sg b = Some b' \<and> stored sg v b b'"
proof -
  define high where "high = (ucast (drop_bit 32 (dividend st)) :: u32)"
  define low where "low = (ucast (dividend st) :: u32)"
  define ds where "ds = ldigits st"
  define loff where "loff = loffset st"
  define k where "k = modnr - 2"
  have k: "modnr = k + 2" "k \<le> length ds" using m wf_divD(2) [OF wf] by (simp_all add: k_def ds_def)
  have loff: "1 \<le> loff" "loff \<le> length ds" and ln: "lnrdigits st = length ds"
    using wf_divD(2,4,5) [OF wf] by (simp_all add: loff_def ds_def)
  have len: "k + 2 \<le> length (digits b)" using r k by (simp add: room_def)
  define xs where "xs = below loff k ds"
  have lx: "length xs = k" using k loff by (simp add: xs_def)
  have dd: "unat (dividend st) = unat low + 2 ^ 32 * unat high" unfolding low_def high_def by (rule unat_halves)
  have v: "v = dval (xs @ [low, high])"
  proof -
    have "v = dval xs + 2 ^ (32 * k) * unat (dividend st)" by (simp only: v xs_def k_def loff_def ds_def)
    then show ?thesis by (simp add: dval_append lx dd)
  qed
  note unf = store_mod_def high_def [symmetric] low_def [symmetric] loff_def [symmetric] ds_def [symmetric] Let_def ln
  note cp = copy_ring_spec [OF loff k(2)]
  have wr: "\<And>c ys. digits c = digits b \<Longrightarrow> length ys \<le> 2 \<Longrightarrow>
      write_digits k ys c = Some (c\<lparr>digits := blit k ys (digits b)\<rparr>)"
    using len by (simp add: write_digits_def)
  show ?thesis
  proof (cases "high = 0 \<and> low = 0")
    case False
    define ys where "ys = (if high = 0 then [low] else [low, high])"
    define n where "n = length xs + length ys"
    have ly: "length ys \<le> 2" and n: "n \<le> modnr" "n \<noteq> 0" by (simp_all add: ys_def n_def lx k)
    define b' where "b' = b\<lparr>sign_and_used_digits := cast_int16 (if sg < 0 then - int n else int n),
        digits := blit 0 xs (blit (length xs) ys (digits b))\<rparr>"
    have "stored sg v b b'"
      unfolding b'_def
    proof (rule stored_blits [OF room_le [OF r n(1)] n_def])
      show "xs @ ys \<noteq> []" "last (xs @ ys) \<noteq> 0" using False by (auto simp: ys_def)
      show "dval (xs @ ys) = v" by (auto simp: ys_def v dval_append)
    qed
    moreover have "store_mod st modnr sg b = Some b'"
    proof -
      have c: "copy_ring (length ds) ds k loff (b\<lparr>sign_and_used_digits := s, digits := blit k ys (digits b)\<rparr>) =
          Some (b\<lparr>sign_and_used_digits := s, digits := blit 0 xs (blit k ys (digits b))\<rparr>)" for s
        using cp [of "b\<lparr>sign_and_used_digits := s, digits := blit k ys (digits b)\<rparr>"] len ly by (simp add: xs_def)
      show ?thesis
        using False wr [of "set_sign sg n b" ys] ly c n(2) lx
        unfolding unf b'_def by (auto simp: ys_def n_def set_sign_def k split: if_splits)
    qed
    ultimately show ?thesis by blast
  next
    case True
    obtain m' loff' where s: "strip_ring (length ds) ds k loff = Some (m', loff')" "m' \<le> k" "1 \<le> loff'" "loff' \<le> length ds"
      "xs = below loff' m' ds @ replicate (k - m') 0" "m' \<noteq> 0 \<longrightarrow> below loff' m' ds ! (m' - 1) \<noteq> 0"
      using strip_ring_spec [OF loff k(2)] unfolding xs_def by blast
    have lb: "length (below loff' m' ds) = m'" using s k(2) by simp
    have v': "v = dval (below loff' m' ds)" using True by (simp add: v s(5) dval_append)
    show ?thesis
    proof (cases "m' = 0")
      case m0: True
      then have "store_mod st modnr sg b = Some (clear_bigint b)" unfolding unf using True s(1) by (simp add: k)
      moreover have "v = 0" using v' lb m0 by simp
      ultimately show ?thesis using stored_clear [OF r] by auto
    next
      case m0: False
      define b' where "b' = b\<lparr>sign_and_used_digits := cast_int16 (if sg < 0 then - int m' else int m'),
        digits := blit 0 (below loff' m' ds) (digits b)\<rparr>"
      have "stored sg v b b'"
      proof -
        have "stored sg v b (b\<lparr>sign_and_used_digits := cast_int16 (if sg < 0 then - int m' else int m'),
          digits := blit 0 (below loff' m' ds) (blit (length (below loff' m' ds)) [] (digits b))\<rparr>)"
        proof (rule stored_blits)
          show "room m' b" using r s(2) k by (auto intro: room_le)
          show "below loff' m' ds @ [] \<noteq> []" using lb m0 by auto
          then show "last (below loff' m' ds @ []) \<noteq> 0" using s(6) m0 lb by (simp add: last_conv_nth)
        qed (use lb v' in simp_all)
        then show ?thesis by (simp add: b'_def)
      qed
      moreover have "m' \<le> length ds" "m' \<le> length (digits b)" using s(2) len k(2) by simp_all
      then have "store_mod st modnr sg b = Some b'"
        unfolding unf b'_def using True s(1) m0
        by (simp add: k set_sign_def copy_ring_spec [OF s(3,4)])
      ultimately show ?thesis by blast
    qed
  qed
qed

section \<open>Division by more than one digit\<close>

lemma unat_two_digits: "unat (push_bit 32 (ucast (h :: u32)) + ucast (l :: u32) :: u64) = unat l + 2 ^ 32 * unat h"
proof -
  have p: "unat (push_bit 32 (ucast h) :: u64) = unat h * 2 ^ 32"
    using unat_push_bit_no_wrap [of "ucast h :: u64" 32] unat_u32_bound [of h] by (simp add: unat_ucast_up)
  have "unat h * 2 ^ 32 + unat l < (unat h + 1) * 2 ^ 32" using unat_u32_bound [of l] by simp
  also have "\<dots> \<le> 2 ^ 32 * 2 ^ 32" using unat_u32_bound [of h] by (intro mult_le_mono1) simp
  finally have b: "unat h * 2 ^ 32 + unat l < 2 ^ LENGTH(64)" by simp
  have "unat (ucast l :: u64) = unat l" by (simp add: unat_ucast_up)
  from unat_add_eq [OF p this b] show ?thesis by simp
qed

lemma last_two: "2 \<le> length ds \<Longrightarrow> ds = take (length ds - 2) ds @ [ds ! (length ds - 2), ds ! (length ds - 1)]"
proof -
  assume "2 \<le> length ds"
  then obtain k where k: "length ds = Suc (Suc k)" by (metis add_2_eq_Suc le_Suc_ex)
  then show ?thesis
    using take_Suc_conv_app_nth [of "Suc k" ds] take_Suc_conv_app_nth [of k ds] by simp
qed

lemma divstate_start_spec:
  assumes ln: "length rds \<le> length lds" and rn: "2 \<le> length rds" and top: "last rds \<noteq> 0"
  shows "wf_div (divstate_start lds rds)" "remv (divstate_start lds rds) = 2 ^ 64 * dval lds"
    "divv (divstate_start lds rds) = 2 ^ (32 * (length lds + 2 - length rds)) * dval rds"
    "lnrdigits (divstate_start lds rds) = length lds" "nextdigit (divstate_start lds rds) = 0"
proof -
  define st where "st = divstate_start lds rds"
  define n where "n = length lds - 2"
  define dd where "dd = (push_bit 32 (ucast (lds ! (length lds - 1))) + ucast (lds ! (length lds - 2)) :: u64)"
  define ds where "ds = lds[length lds - 1 := 0, length lds - 2 := 0]"
  have n: "length lds = n + 2" using ln rn by (simp add: n_def)
  have st: "lnrdigits st = length lds" "rnrdigits st = length rds" "rdigits st = rds" "dividend st = dd" "nextdigit st = 0"
    "ldigits st = ds" "loffset st = (if n = 0 then length lds else n)"
    "divisor st = push_bit 32 (ucast (rds ! (length rds - 1))) + ucast (rds ! (length rds - 2))"
    by (simp_all add: st_def divstate_start_def Let_def wrap_loffset_def n_def dd_def ds_def)
  have dv: "unat (divisor st) = dval (drop (length rds - 2) rds)"
    unfolding st(8) unat_two_digits by (subst (3) last_two [OF rn]) (simp add: rn)
  have "rds ! (length rds - 1) \<noteq> 0" using top rn by (metis last_conv_nth list.size(3) not_numeral_le_zero)
  then have "1 \<le> unat (rds ! (length rds - 1))" by (simp add: Suc_le_eq unat_gt_0)
  then have big: "2 ^ 32 \<le> unat (divisor st)" unfolding st(8) unat_two_digits by simp
  show "wf_div (divstate_start lds rds)"
    using ln rn dv big n unfolding st_def [symmetric] wf_div_def by (simp add: st) (simp add: ds_def)
  have take_n: "ds = take n lds @ [0, 0]"
    unfolding ds_def n by (rule nth_equalityI) (auto simp: n nth_append nth_list_update less_Suc_eq)
  have "ring_from (loffset st) ds = [0, 0] @ take n lds"
    unfolding st(7) take_n using n by (simp add: ring_from_def)
  then have "ringv st = 2 ^ 64 * dval (take n lds)" by (simp add: ringv_def st dval_append)
  moreover have "dval lds = dval (take n lds) + 2 ^ (32 * n) * unat dd"
    using last_two [of lds] n unfolding dd_def unat_two_digits
    by (metis (no_types, lifting) add_diff_cancel_right' dval.simps dval_append le_add2 length_take min_absorb2 le_add1 mult_0_right add_0_right)
  moreover have "ring_top st = 2 ^ 64 * 2 ^ (32 * n)" by (simp add: ring_top_def st n power_add)
  ultimately show "remv (divstate_start lds rds) = 2 ^ 64 * dval lds"
    unfolding st_def [symmetric] remv_def by (simp add: st algebra_simps)
  show "divv (divstate_start lds rds) = 2 ^ (32 * (length lds + 2 - length rds)) * dval rds"
    unfolding st_def [symmetric] by (simp add: divv_def scale_def st)
  show "lnrdigits (divstate_start lds rds) = length lds" "nextdigit (divstate_start lds rds) = 0"
    using st by (simp_all add: st_def)
qed

lemma quotient_unique: "a * w + r = b * w + s \<Longrightarrow> r < w \<Longrightarrow> s < w \<Longrightarrow> a = b \<and> r = (s :: nat)"
  by (metis div_mult_self3 div_less add.commute add_cancel_right_right add_left_cancel less_nat_zero_code)

lemma remainder_digits:
  assumes wf: "wf_div st" and m: "2 \<le> modnr" "modnr - 2 \<le> lnrdigits st"
    and r: "remv st = 2 ^ (32 * (lnrdigits st + 2 - modnr)) * M"
  shows "M = dval (below (loffset st) (modnr - 2) (ldigits st)) + 2 ^ (32 * (modnr - 2)) * unat (dividend st)"
proof -
  define k where "k = lnrdigits st + 2 - modnr"
  define R where "R = ring_from (loffset st) (ldigits st)"
  define X where "X = dval (below (loffset st) (modnr - 2) (ldigits st)) + 2 ^ (32 * (modnr - 2)) * unat (dividend st)"
  have lR: "length R = lnrdigits st" using wf_divD(2) [OF wf] by (simp add: R_def ring_from_def)
  have k: "k \<le> length R" "k = lnrdigits st - (modnr - 2)" using m lR by (simp_all add: k_def)
  have b: "below (loffset st) (modnr - 2) (ldigits st) = drop k R"
    using wf_divD(2) [OF wf] by (simp add: below_def R_def k(2))
  have top: "ring_top st = 2 ^ (32 * k) * 2 ^ (32 * (modnr - 2))"
    using m by (simp add: ring_top_def k(2) flip: power_add add_mult_distrib2)
  have "remv st = dval (take k R) + 2 ^ (32 * k) * X"
    unfolding remv_def ringv_def R_def [symmetric] top X_def b using dval_take_drop [OF k(1)] by (simp add: algebra_simps)
  then have "M * 2 ^ (32 * k) + 0 = X * 2 ^ (32 * k) + dval (take k R)"
    using r unfolding k_def [symmetric] by (simp add: mult.commute)
  moreover have "dval (take k R) < 2 ^ (32 * k)" using dval_bound [of "take k R"] k(1) by (simp add: min_absorb2)
  ultimately show ?thesis unfolding X_def [symmetric] using quotient_unique [of M "2 ^ (32 * k)" 0 X "dval (take k R)"] by simp
qed

lemma divmod_biginthelper_spec:
  assumes ln: "length rds \<le> length lds" and rn: "2 \<le> length rds" and top: "last rds \<noteq> 0" "last lds \<noteq> 0"
    and n: "divnr = Suc n" "divnr < 2 ^ 16" and md: "2 \<le> modnr" "modnr - 2 \<le> length lds"
    and W: "W = 2 ^ (32 * (length lds + 2 - length rds)) * dval rds"
    and eq: "2 ^ (32 * n) * (2 ^ 64 * dval lds) = Q * W + 2 ^ (32 * (length lds + 2 - modnr)) * M"
    and lt: "2 ^ (32 * (length lds + 2 - modnr)) * M < W"
    and room: "pred_option (room divnr) divresult" "pred_option (room modnr) modresult"
  shows "\<exists>d m. divmod_biginthelper divresult modresult divnr modnr divsign lsign lds rds = Some (d, m) \<and>
    rel_option (stored divsign Q) divresult d \<and> rel_option (stored lsign M) modresult m"
proof -
  define st where "st = divstate_start lds rds"
  note S = divstate_start_spec [OF ln rn top(1), folded st_def W]
  obtain st1 where f: "divmod_first st = Some (nextdigit st1 = 0, st1)" and "yields st (2 ^ 64 * dval lds) (Some st1)"
    using divmod_first_yields [OF S(1,5)] unfolding S(2) by blast
  then have f1: "wf_div st1" "frame st st1" "2 ^ 64 * dval lds = unat (nextdigit st1) * W + remv st1" "remv st1 < W"
    unfolding yields_def S(3) by simp_all
  have W1: "divv st1 = W" using frame_values [OF f1(2)] S(3) by simp
  define qs where "qs = (if nextdigit st1 = 0 then [] else [nextdigit st1])"
  obtain st2 new where l: "divmod_loop n st1 qs = Some (st2, new @ qs)" "length new = n" "wf_div st2" "frame st1 st2"
      "2 ^ (32 * n) * remv st1 = dval new * W + remv st2" "remv st2 < W"
    using divmod_loop_yields [OF f1(1), of n qs] f1(4) unfolding W1 by blast
  have ln2: "lnrdigits st2 = length lds" using l(4) f1(2) S(4) by (simp add: frame_def)
  define T where "T = new @ qs"
  have dT: "dval T = dval new + 2 ^ (32 * n) * unat (nextdigit st1)" by (simp add: T_def qs_def dval_append l(2))
  have "dval T * W + remv st2 = 2 ^ (32 * n) * (2 ^ 64 * dval lds)"
    unfolding f1(3) dT distrib_left l(5) by (simp add: algebra_simps)
  then have QM: "dval T = Q" "remv st2 = 2 ^ (32 * (length lds + 2 - modnr)) * M"
    using quotient_unique [OF _ l(6) lt] eq by simp_all
  have lT: "length T = (if nextdigit st1 = 0 then n else Suc n)" by (simp add: T_def qs_def l(2))
  have lastT: "last T \<noteq> 0" if "T \<noteq> []"
  proof (cases "nextdigit st1 = 0")
    case True
    then have T: "T = new" "length T = n" "n \<noteq> 0" using that lT l(2) by (auto simp: T_def qs_def)
    have ldn: "lds \<noteq> []" using ln rn by auto
    have "W < 2 ^ (32 * (length lds + 2 - length rds)) * 2 ^ (32 * length rds)"
      unfolding W using dval_bound [of rds] by simp
    also have "\<dots> = 2 ^ (32 * (length lds + 2))" using ln by (simp flip: power_add add_mult_distrib2)
    finally have Wb: "W \<le> 2 ^ (32 * (length lds + 2))" by simp
    obtain k where k: "n = Suc k" using T(3) by (cases n) simp_all
    have "2 ^ (32 * k) * W \<le> 2 ^ (32 * k) * 2 ^ (32 * (length lds + 2))" using Wb by (rule mult_le_mono2)
    also have "\<dots> = 2 ^ (32 * n) * (2 ^ 64 * 2 ^ (32 * (length lds - 1)))"
    proof -
      obtain j where "length lds = Suc j" using ldn by (cases lds) simp_all
      then show ?thesis by (simp add: k power_add)
    qed
    also have "\<dots> \<le> 2 ^ (32 * n) * (2 ^ 64 * dval lds)" using dval_top [OF ldn top(2)] by simp
    also have "\<dots> = dval new * W + remv st2" using l(5) f1(3) True by simp
    also have "\<dots> < (dval new + 1) * W" using l(6) by simp
    finally have "2 ^ (32 * k) < dval new + 1" by (simp only: mult_less_cancel2)
    then have "2 ^ (32 * (length T - 1)) \<le> dval T" unfolding T using T(2) T(1) k by simp
    then show ?thesis using last_nonzero_dval that by blast
  next
    case False
    then show ?thesis by (simp add: T_def qs_def)
  qed
  have cnt: "(if nextdigit st1 = 0 then uint16_of_int (int divnr - 1) else divnr) = length T"
    using n unfolding lT by (simp add: uint16_of_int_def)
  have cnt2: "uint16_of_int (int (length T) - of_bool (nextdigit st1 \<noteq> 0)) = n"
    using n unfolding lT by (simp add: uint16_of_int_def)
  have qs: "(if nextdigit st1 \<noteq> 0 then [nextdigit st1] else []) = qs" by (simp add: qs_def)
  obtain d where d: "(case divresult of None \<Rightarrow> Some None
      | Some d \<Rightarrow> if length T = 0 then Some (Some (clear_bigint d))
          else do { d \<leftarrow> write_digits (length T - length (new @ qs)) (new @ qs) (set_sign divsign (length T) d); Some (Some d) }) = Some d"
    and dr: "rel_option (stored divsign Q) divresult d"
  proof (cases divresult)
    case None
    then show ?thesis by (intro that [of None]) simp_all
  next
    case (Some b)
    then have r: "room divnr b" using room(1) by simp
    have r': "room (length T) b" by (rule room_le [OF r]) (simp add: lT n)
    show ?thesis
    proof (cases "T = []")
      case True
      then have "Q = 0" using QM(1) by simp
      then show ?thesis
        using Some True stored_clear [OF r] by (intro that [of "Some (clear_bigint b)"]) simp_all
    next
      case False
      define b' where "b' = b\<lparr>sign_and_used_digits := cast_int16 (if divsign < 0 then - int (length T) else int (length T)),
        digits := blit 0 [] (blit (length ([] :: u32 list)) T (digits b))\<rparr>"
      have "stored divsign Q b b'"
        unfolding b'_def by (rule stored_blits [OF r']) (use False lastT QM in simp_all)
      moreover have "write_digits 0 T (set_sign divsign (length T) b) = Some b'"
        using r' by (simp add: write_digits_def set_sign_def b'_def room_def)
      ultimately show ?thesis
        using Some False by (intro that [of "Some b'"]) (simp_all add: T_def [symmetric])
    qed
  qed
  obtain m where m: "(case modresult of None \<Rightarrow> Some None
      | Some m \<Rightarrow> do { m \<leftarrow> store_mod st2 modnr lsign m; Some (Some m) }) = Some m"
    and mr: "rel_option (stored lsign M) modresult m"
  proof (cases modresult)
    case None
    then show ?thesis by (intro that [of None]) simp_all
  next
    case (Some b)
    then have r: "room modnr b" using room(2) by simp
    have "M = dval (below (loffset st2) (modnr - 2) (ldigits st2)) + 2 ^ (32 * (modnr - 2)) * unat (dividend st2)"
      by (rule remainder_digits [OF l(3) md(1)]) (use md(2) QM(2) in \<open>simp_all add: ln2\<close>)
    then obtain b' where "store_mod st2 modnr lsign b = Some b'" "stored lsign M b b'"
      using store_mod_spec [OF l(3) md(1) _ r, of M lsign] md(2) ln2 by auto
    then show ?thesis using Some by (intro that [of "Some b'"]) simp_all
  qed
  have "divmod_biginthelper divresult modresult divnr modnr divsign lsign lds rds = Some (d, m)"
  proof -
    have c: "\<not> (length lds < 2 \<or> length rds < 2)" using ln rn by simp
    show ?thesis
      unfolding divmod_biginthelper_def if_not_P [OF c] st_def [symmetric] f
        Option.bind.simps prod.case Let_def cnt cnt2 qs l(1) d m ..
  qed
  then show ?thesis using dr mr by blast
qed

section \<open>Division by one digit\<close>

lemma digit_step:
  fixes l :: u32
  assumes "unat dhigh < unat dvs"
  defines "d \<equiv> push_bit 32 (ucast (dhigh :: u32)) + ucast (l :: u32) :: u64"
  shows "unat (ucast (d div ucast dvs) :: u32) * unat dvs + unat (ucast (d mod ucast dvs) :: u32) = 2 ^ 32 * unat dhigh + unat l"
    "unat (ucast (d mod ucast dvs) :: u32) < unat (dvs :: u32)"
proof -
  have d: "unat d = unat l + 2 ^ 32 * unat dhigh" unfolding d_def by (rule unat_two_digits)
  have c: "unat (ucast dvs :: u64) = unat dvs" by (simp add: unat_ucast_up)
  have "unat d < 2 ^ 32 * Suc (unat dhigh)" unfolding d using unat_u32_bound [of l] by simp
  also have "\<dots> \<le> 2 ^ 32 * unat dvs" using assms(1) by (intro mult_le_mono2) simp
  finally have "unat d div unat dvs < 2 ^ 32" by (simp only: less_mult_imp_div_less)
  then have q: "unat (ucast (d div ucast dvs) :: u32) = unat d div unat dvs"
    using unat_ucast_down [of "d div ucast dvs", where 'b = 32] by (simp only: unat_div c len_num1 len_bit0) simp
  have "unat d mod unat dvs < unat dvs" using assms(1) by simp
  moreover from this have "unat d mod unat dvs < 2 ^ 32" using unat_u32_bound [of dvs] by linarith
  then have r: "unat (ucast (d mod ucast dvs) :: u32) = unat d mod unat dvs"
    using unat_ucast_down [of "d mod ucast dvs", where 'b = 32] by (simp only: unat_mod c len_num1 len_bit0) simp
  ultimately show "unat (ucast (d mod ucast dvs) :: u32) < unat dvs" by (simp only: r)
  show "unat (ucast (d div ucast dvs) :: u32) * unat dvs + unat (ucast (d mod ucast dvs) :: u32) = 2 ^ 32 * unat dhigh + unat l"
    unfolding q r div_mult_mod_eq d by (rule add.commute)
qed

lemma divui32_loop_val:
  assumes "unat dhigh < unat dvs"
  shows "\<exists>dh new. divui32_loop dvs ls dhigh qs = (dh, new @ qs) \<and> length new = length ls \<and> unat dh < unat dvs \<and>
    2 ^ (32 * length ls) * unat dhigh + dval (rev ls) = dval new * unat dvs + unat dh"
  using assms
proof (induction ls arbitrary: dhigh qs)
  case Nil
  then show ?case by simp
next
  case (Cons l ls)
  define d where "d = (push_bit 32 (ucast dhigh) + ucast l :: u64)"
  define q where "q = (ucast (d div ucast dvs) :: u32)"
  define r where "r = (ucast (d mod ucast dvs) :: u32)"
  have s: "unat q * unat dvs + unat r = 2 ^ 32 * unat dhigh + unat l" "unat r < unat dvs"
    using digit_step [OF Cons.prems, of l] by (simp_all only: d_def q_def r_def)
  obtain dh new where ih: "divui32_loop dvs ls r (q # qs) = (dh, new @ q # qs)" "length new = length ls" "unat dh < unat dvs"
      "2 ^ (32 * length ls) * unat r + dval (rev ls) = dval new * unat dvs + unat dh"
    using Cons.IH [OF s(2)] by blast
  have "2 ^ (32 * length (l # ls)) * unat dhigh + dval (rev (l # ls)) =
      2 ^ (32 * length ls) * (2 ^ 32 * unat dhigh + unat l) + dval (rev ls)"
    by (simp add: dval_append power_add algebra_simps)
  also have "\<dots> = dval (new @ [q]) * unat dvs + unat dh"
    unfolding s(1) [symmetric] distrib_left add.assoc ih(4) by (simp add: dval_append ih(2) algebra_simps)
  finally have "2 ^ (32 * length (l # ls)) * unat dhigh + dval (rev (l # ls)) = dval (new @ [q]) * unat dvs + unat dh" .
  moreover have "divui32_loop dvs (l # ls) dhigh qs = (dh, (new @ [q]) @ qs)"
    using ih(1) by (simp add: d_def q_def r_def Let_def)
  ultimately show ?case using ih(2,3) by (intro exI [of _ dh] exI [of _ "new @ [q]"]) simp
qed

lemma divui32_zeros_val:
  assumes "unat dhigh < unat dvs"
  shows "\<exists>nz dh new. divui32_zeros dvs n dhigh qs = (nz, dh, new @ qs) \<and> nz + length new = n \<and> unat dh < unat dvs \<and>
    2 ^ (32 * n) * unat dhigh = dval (replicate nz 0 @ new) * unat dvs + unat dh"
  using assms
proof (induction n arbitrary: dhigh qs)
  case 0
  then show ?case by simp
next
  case (Suc n)
  show ?case
  proof (cases "dhigh = 0")
    case True
    then show ?thesis using Suc.prems by (intro exI [of _ "Suc n"] exI [of _ dhigh] exI [of _ "[]"]) simp
  next
    case False
    define d where "d = (push_bit 32 (ucast dhigh) :: u64)"
    define q where "q = (ucast (d div ucast dvs) :: u32)"
    define r where "r = (ucast (d mod ucast dvs) :: u32)"
    have s: "unat q * unat dvs + unat r = 2 ^ 32 * unat dhigh" "unat r < unat dvs"
      using digit_step [OF Suc.prems, of 0] by (simp_all add: d_def q_def r_def)
    obtain nz dh new where ih: "divui32_zeros dvs n r (q # qs) = (nz, dh, new @ q # qs)" "nz + length new = n" "unat dh < unat dvs"
        "2 ^ (32 * n) * unat r = dval (replicate nz 0 @ new) * unat dvs + unat dh"
      using Suc.IH [OF s(2)] by blast
    have "2 ^ (32 * Suc n) * unat dhigh = 2 ^ (32 * n) * (2 ^ 32 * unat dhigh)" by (simp add: power_add)
    also have "\<dots> = dval ((replicate nz 0 @ new) @ [q]) * unat dvs + unat dh"
      unfolding s(1) [symmetric] distrib_left ih(4)
      by (subst dval_append) (simp add: ih(2) algebra_simps)
    finally have "2 ^ (32 * Suc n) * unat dhigh = dval (replicate nz 0 @ new @ [q]) * unat dvs + unat dh" by simp
    moreover have "divui32_zeros dvs (Suc n) dhigh qs = (nz, dh, (new @ [q]) @ qs)"
      using ih(1) False by (simp add: d_def q_def r_def Let_def)
    ultimately show ?thesis using ih(2,3) by (intro exI [of _ nz] exI [of _ dh] exI [of _ "new @ [q]"]) simp
  qed
qed

lemma strip_top_val:
  "n \<le> length ds \<Longrightarrow> strip_top ds n \<le> n \<and> dval (take (strip_top ds n) ds) = dval (take n ds) \<and>
    (strip_top ds n \<noteq> 0 \<longrightarrow> ds ! (strip_top ds n - 1) \<noteq> 0)"
  by (induction n) (auto simp: take_Suc_conv_app_nth dval_append)

text \<open>Both loops together divide the number of all digits and the zeros that follow.\<close>

lemma divui32_digits:
  assumes "unat dhigh < unat dvs" and "divui32_loop dvs (rev xs) dhigh [] = (dh, qs)" and "divui32_zeros dvs k dh qs = (nz, dh', qs')"
  shows "nz + length qs' = length xs + k" "unat dh' < unat dvs"
    "2 ^ (32 * k) * (2 ^ (32 * length xs) * unat dhigh + dval xs) = dval (replicate nz 0 @ qs') * unat dvs + unat dh'"
proof -
  have l: "length qs = length xs" "unat dh < unat dvs" "2 ^ (32 * length xs) * unat dhigh + dval xs = dval qs * unat dvs + unat dh"
    using divui32_loop_val [OF assms(1), of "rev xs" "[]"] assms(2) by auto
  obtain new where z: "qs' = new @ qs" "nz + length new = k" "unat dh' < unat dvs"
      "2 ^ (32 * k) * unat dh = dval (replicate nz 0 @ new) * unat dvs + unat dh'"
    using divui32_zeros_val [OF l(2), of k qs] assms(3) by auto
  show "nz + length qs' = length xs + k" "unat dh' < unat dvs" using z l(1) by simp_all
  have "dval (replicate nz 0 @ qs') = dval (replicate nz 0 @ new) + 2 ^ (32 * k) * dval qs"
    using dval_append [of "replicate nz 0 @ new" qs] z(1,2) by simp
  then show "2 ^ (32 * k) * (2 ^ (32 * length xs) * unat dhigh + dval xs) = dval (replicate nz 0 @ qs') * unat dvs + unat dh'"
    unfolding l(3) distrib_left z(4) by (simp add: algebra_simps)
qed

text \<open>
  Where the quotient has more digits than the dividend, zeros follow the digits of the dividend; where
  it has less, the lowest digits of the dividend belong to the remainder.
\<close>

lemma divmodui32_biginthelper_spec:
  assumes lds: "lds \<noteq> []" "last lds \<noteq> 0" and dvs: "dvs \<noteq> 0" and n: "1 \<le> divnr" "divnr < 2 ^ 16"
    and eq: "2 ^ (32 * (divnr - length lds)) * dval lds = Q * (unat dvs * 2 ^ (32 * (length lds - divnr))) + M"
    and lt: "M < unat dvs * 2 ^ (32 * (length lds - divnr))"
    and room: "pred_option (room divnr) divresult" "pred_option (room (1 + (length lds - divnr))) modresult"
  shows "\<exists>d m. divmodui32_biginthelper divresult modresult divnr divsign lsign lds dvs = Some (d, m) \<and>
    rel_option (stored divsign Q) divresult d \<and> rel_option (stored lsign M) modresult m"
proof -
  define small where "small \<longleftrightarrow> last lds < dvs"
  define dhigh where "dhigh = (if small then last lds else 0)"
  define lnr where "lnr = (if small then length lds - 1 else length lds)"
  define nr where "nr = (if small then divnr - 1 else divnr)"
  define minnr where "minnr = (if nr < lnr then nr else lnr)"
  define low where "low = take (lnr - minnr) lds"
  define mid where "mid = take minnr (drop (lnr - minnr) lds)"
  define k where "k = divnr - length lds"
  have len0: "1 \<le> length lds" using lds(1) by (cases lds) simp_all
  have lens: "length low = length lds - divnr" "length mid = minnr" "lnr - minnr = length lds - divnr" "nr - minnr = k" "minnr + k = nr"
    using len0 n(1) by (auto simp: low_def mid_def minnr_def lnr_def nr_def k_def)
  have parts: "take lnr lds = low @ mid"
  proof -
    have "take ((lnr - minnr) + minnr) lds = low @ mid" unfolding low_def mid_def by (rule take_add)
    then show ?thesis by (simp add: minnr_def)
  qed
  have dl: "dval lds = dval low + 2 ^ (32 * length low) * (2 ^ (32 * length mid) * unat dhigh + dval mid)"
  proof (cases small)
    case True
    then have "lds = low @ mid @ [last lds]"
      using parts lds(1) by (metis append.assoc append_butlast_last_id butlast_conv_take lnr_def)
    then have "dval lds = dval (low @ mid @ [last lds])" by simp
    then show ?thesis using True by (simp add: dval_append dhigh_def)
  next
    case False
    then have "lds = low @ mid" using parts by (simp add: lnr_def)
    then have "dval lds = dval (low @ mid)" by simp
    then show ?thesis using False by (simp add: dval_append dhigh_def)
  qed
  have d0: "1 \<le> unat dvs" using dvs by (simp add: Suc_le_eq unat_gt_0)
  have dhl: "unat dhigh < unat dvs" using d0 by (auto simp: dhigh_def small_def word_less_nat_alt)
  obtain dh qs where l: "divui32_loop dvs (rev mid) dhigh [] = (dh, qs)" by fastforce
  obtain nz dh' qs' where z: "divui32_zeros dvs k dh qs = (nz, dh', qs')" by (rule prod_cases3)
  note D = divui32_digits [OF dhl l z]
  define T where "T = replicate nz 0 @ qs'"
  have lT: "length T = nr" using D(1) lens by (simp add: T_def)
  have R: "dval low + 2 ^ (32 * length low) * unat dh' < unat dvs * 2 ^ (32 * length low)"
  proof -
    have "dval low + 2 ^ (32 * length low) * unat dh' < 2 ^ (32 * length low) * Suc (unat dh')" using dval_bound [of low] by simp
    also have "\<dots> \<le> 2 ^ (32 * length low) * unat dvs" using D(2) by (intro mult_le_mono2) simp
    finally show ?thesis by (simp only: mult.commute)
  qed
  have "k = 0 \<or> low = []" using lens(1) by (cases low) (simp_all add: k_def)
  then have same: "2 ^ (32 * k) * dval low = dval low" by auto
  have "2 ^ (32 * k) * dval lds = 2 ^ (32 * k) * dval low +
      2 ^ (32 * length low) * (2 ^ (32 * k) * (2 ^ (32 * length mid) * unat dhigh + dval mid))"
    unfolding dl distrib_left [of "2 ^ (32 * k)" "dval low"] by (simp only: mult.left_commute)
  also have "\<dots> = dval low + 2 ^ (32 * length low) * (dval T * unat dvs + unat dh')"
    by (simp only: same D(3) [folded T_def])
  also have "\<dots> = dval T * (unat dvs * 2 ^ (32 * length low)) + (dval low + 2 ^ (32 * length low) * unat dh')"
    by (simp add: algebra_simps)
  finally have "2 ^ (32 * k) * dval lds = dval T * (unat dvs * 2 ^ (32 * length low)) + (dval low + 2 ^ (32 * length low) * unat dh')" .
  then have "dval T * (unat dvs * 2 ^ (32 * length low)) + (dval low + 2 ^ (32 * length low) * unat dh') =
      Q * (unat dvs * 2 ^ (32 * length low)) + M"
    using eq by (simp only: k_def [symmetric] lens(1) [symmetric])
  from quotient_unique [OF this R lt [folded lens(1)]]
  have QM: "dval T = Q" "M = dval (low @ [dh'])" by (simp_all add: dval_append)
  have lastT: "last T \<noteq> 0" if "T \<noteq> []"
  proof -
    obtain j where j: "nr = Suc j" using \<open>T \<noteq> []\<close> lT by (cases nr) simp_all
    have "unat dvs * 2 ^ (32 * j) \<le> 2 ^ (32 * k) * (2 ^ (32 * length mid) * unat dhigh + dval mid)"
    proof (cases small)
      case True
      have "unat dvs * 2 ^ (32 * j) \<le> 2 ^ 32 * 2 ^ (32 * j)" using unat_u32_bound [of dvs] by (intro mult_le_mono1) simp
      also have "\<dots> = 2 ^ (32 * k) * (2 ^ (32 * length mid) * 1)"
      proof -
        have "k + length mid = Suc j" using lens j by simp
        then have "2 ^ (32 * k) * 2 ^ (32 * length mid) = (2 :: nat) ^ (32 * Suc j)"
          by (metis power_add add_mult_distrib2)
        then show ?thesis by (simp add: power_add)
      qed
      also have "\<dots> \<le> 2 ^ (32 * k) * (2 ^ (32 * length mid) * unat dhigh)"
        using lds(2) True by (intro mult_le_mono2) (simp add: dhigh_def Suc_le_eq unat_gt_0)
      finally show ?thesis by (simp add: distrib_left trans_le_add1)
    next
      case False
      have m1: "length mid \<noteq> 0" using False n(1) len0 lens by (simp add: minnr_def nr_def lnr_def)
      then have me: "mid \<noteq> []" by auto
      have "last mid = last lds" using parts me False by (simp add: lnr_def)
      then have "unat dvs \<le> unat (last mid)" using False by (simp add: small_def not_less word_le_nat_alt)
      then have "2 ^ (32 * (length mid - 1)) * unat dvs \<le> 2 ^ (32 * (length mid - 1)) * unat (last mid)" by (rule mult_le_mono2)
      also have "\<dots> \<le> dval mid"
      proof -
        have "dval mid = dval (butlast mid) + 2 ^ (32 * (length mid - 1)) * unat (last mid)"
          using dval_append [of "butlast mid" "[last mid]"] me by simp
        then show ?thesis by simp
      qed
      finally have "2 ^ (32 * (length mid - 1)) * unat dvs \<le> dval mid" .
      then have "2 ^ (32 * k) * (2 ^ (32 * (length mid - 1)) * unat dvs) \<le> 2 ^ (32 * k) * dval mid" by (rule mult_le_mono2)
      moreover have "k + (length mid - 1) = j" using lens j m1 by simp
      then have "2 ^ (32 * k) * 2 ^ (32 * (length mid - 1)) = (2 :: nat) ^ (32 * j)"
        by (metis power_add add_mult_distrib2)
      ultimately have "2 ^ (32 * j) * unat dvs \<le> 2 ^ (32 * k) * dval mid" by (simp only: mult.assoc [symmetric])
      then show ?thesis unfolding distrib_left by (simp only: mult.commute [of "unat dvs"] trans_le_add2)
    qed
    also have "\<dots> = dval T * unat dvs + unat dh'" unfolding T_def by (rule D(3))
    also have "\<dots> < (dval T + 1) * unat dvs" using D(2) by simp
    finally have "2 ^ (32 * j) * unat dvs < (dval T + 1) * unat dvs" by (simp only: mult.commute)
    then have "2 ^ (32 * j) < dval T + 1" by (simp only: mult_less_cancel2)
    then have "2 ^ (32 * (length T - 1)) \<le> dval T" using lT j by simp
    then show ?thesis using last_nonzero_dval that by blast
  qed
  obtain d where d: "(case divresult of None \<Rightarrow> Some None
      | Some d \<Rightarrow> if nr = 0 then Some (Some (clear_bigint d))
          else do { d \<leftarrow> write_digits 0 (replicate nz 0 @ qs') d; Some (Some (set_sign divsign nr d)) }) = Some d"
    and dr: "rel_option (stored divsign Q) divresult d"
  proof (cases divresult)
    case None
    then show ?thesis by (intro that [of None]) simp_all
  next
    case (Some b)
    then have r: "room divnr b" using room(1) by simp
    have r': "room nr b" by (rule room_le [OF r]) (simp add: nr_def)
    show ?thesis
    proof (cases "T = []")
      case True
      then have "Q = 0" "nr = 0" using QM(1) lT by simp_all
      then show ?thesis
        using Some stored_clear [OF r] by (intro that [of "Some (clear_bigint b)"]) simp_all
    next
      case False
      define b' where "b' = b\<lparr>sign_and_used_digits := cast_int16 (if divsign < 0 then - int nr else int nr),
        digits := blit 0 [] (blit (length ([] :: u32 list)) T (digits b))\<rparr>"
      have "stored divsign Q b b'"
        unfolding b'_def by (rule stored_blits [OF r']) (use False lastT QM lT in simp_all)
      moreover have "write_digits 0 T b = Some (b\<lparr>digits := blit 0 T (digits b)\<rparr>)"
        using r' lT by (simp add: write_digits_def room_def)
      moreover have "set_sign divsign nr (b\<lparr>digits := blit 0 T (digits b)\<rparr>) = b'"
        by (simp add: b'_def set_sign_def)
      moreover have "nr \<noteq> 0" using False lT by auto
      ultimately show ?thesis
        using Some by (intro that [of "Some b'"]) (simp_all add: T_def [symmetric])
    qed
  qed
  define modnr where "modnr = 1 + lnr - minnr"
  have "minnr \<le> lnr" by (simp add: minnr_def)
  then have mn: "modnr = Suc (length low)" using lens(1,3) by (simp add: modnr_def)
  have lowt: "low = take (length low) lds" "length low \<le> length lds" using lens by (simp_all add: low_def)
  obtain m where m: "(case modresult of None \<Rightarrow> Some None
      | Some m \<Rightarrow>
          let modnr = (if dh' = 0 then strip_top lds (modnr - 1) else modnr)
          in if modnr = 0 then Some (Some (clear_bigint m))
             else do {
               m \<leftarrow> write_digits 0 (take (modnr - of_bool (dh' \<noteq> 0)) lds @ (if dh' \<noteq> 0 then [dh'] else [])) m;
               Some (Some (set_sign lsign modnr m)) }) = Some m"
    and mr: "rel_option (stored lsign M) modresult m"
  proof (cases modresult)
    case None
    then show ?thesis by (intro that [of None]) simp_all
  next
    case (Some b)
    then have r: "room modnr b" using room(2) lens mn by simp
    define j where "j = (if dh' = 0 then strip_top lds (modnr - 1) else modnr)"
    define xs where "xs = take (j - of_bool (dh' \<noteq> 0)) lds @ (if dh' \<noteq> 0 then [dh'] else [])"
    have st: "strip_top lds (length low) \<le> length low" "dval (take (strip_top lds (length low)) lds) = dval low"
        "strip_top lds (length low) \<noteq> 0 \<Longrightarrow> lds ! (strip_top lds (length low) - 1) \<noteq> 0"
      using strip_top_val [OF lowt(2)] lowt(1) by simp_all
    have j: "j \<le> modnr" "length xs = j" "dval xs = M"
    proof -
      show "j \<le> modnr" using st(1) by (simp add: j_def mn)
      show "length xs = j" using st(1) lowt(2) by (simp add: xs_def j_def mn)
      show "dval xs = M"
      proof (cases "dh' = 0")
        case True
        then show ?thesis using st(2) by (simp add: xs_def j_def mn QM(2) dval_append)
      next
        case False
        then have "xs = low @ [dh']" using lowt(1) by (simp add: xs_def j_def mn)
        then show ?thesis by (simp only: QM(2))
      qed
    qed
    have r': "room j b" by (rule room_le [OF r j(1)])
    show ?thesis
    proof (cases "j = 0")
      case True
      then have "M = 0" using j by simp
      then show ?thesis
        using Some True stored_clear [OF r] by (intro that [of "Some (clear_bigint b)"]) (simp_all add: j_def [symmetric])
    next
      case False
      define b' where "b' = b\<lparr>sign_and_used_digits := cast_int16 (if lsign < 0 then - int j else int j),
        digits := blit 0 [] (blit (length ([] :: u32 list)) xs (digits b))\<rparr>"
      have lastx: "last xs \<noteq> 0"
      proof (cases "dh' = 0")
        case True
        then have "j = strip_top lds (length low)" "xs = take j lds" by (simp_all add: j_def mn xs_def)
        then show ?thesis using st(1,3) False lowt(2) by (simp add: last_take_nth)
      qed (simp add: xs_def)
      have "stored lsign M b b'"
        unfolding b'_def by (rule stored_blits [OF r']) (use False lastx j in auto)
      moreover have "write_digits 0 xs b = Some (b\<lparr>digits := blit 0 xs (digits b)\<rparr>)"
        using r' j by (simp add: write_digits_def room_def)
      moreover have "set_sign lsign j (b\<lparr>digits := blit 0 xs (digits b)\<rparr>) = b'"
        by (simp add: b'_def set_sign_def)
      ultimately show ?thesis
        using Some False by (intro that [of "Some b'"]) (simp_all add: j_def [symmetric] xs_def [symmetric] Let_def)
    qed
  qed
  have u16: "uint16_of_int (int divnr - 1) = divnr - 1" using n by (simp add: uint16_of_int_def of_nat_diff)
  have "divmodui32_biginthelper divresult modresult divnr divsign lsign lds dvs = Some (d, m)"
  proof -
    have first: "(if last lds < dvs then (last lds, length lds - 1, uint16_of_int (int divnr - 1)) else (0, length lds, divnr)) = (dhigh, lnr, nr)"
      by (simp add: small_def [symmetric] dhigh_def lnr_def nr_def u16)
    show ?thesis
      unfolding divmodui32_biginthelper_def if_not_P [OF lds(1)] first Let_def prod.case minnr_def [symmetric] mid_def [symmetric] l
        lens(4) z d [unfolded Let_def] Option.bind.simps modnr_def [symmetric] m [unfolded Let_def] ..
  qed
  then show ?thesis using dr mr by blast
qed

end
