(* ===== verification/Big_Divmod.thy ===== *)
theory Big_Divmod
  imports Big_Div "HOL-Library.Signed_Division"
begin

text \<open>
  The division operations of C-kern/math/int/bigint.c and what they deliver: quotient and remainder
  of the division that truncates, \<open>sdiv\<close> and \<open>smod\<close> of the library.
\<close>

section \<open>The operations\<close>

definition divisorisbigger_biginthelper ::
  "mm_t \<Rightarrow> bigint_t option \<Rightarrow> bigint_t option \<Rightarrow> bigint_t \<Rightarrow> unit cres \<times> bigint_t option \<times> bigint_t option" where
  "divisorisbigger_biginthelper mm divresult modresult lbig =
     (let divresult = map_option clear_bigint divresult
      in if nrdigits_bigint lbig = 0 then (Inr (), divresult, map_option clear_bigint modresult)
         else case modresult of
                None \<Rightarrow> (Inr (), divresult, None)
              | Some m \<Rightarrow> (case copy_bigint mm m lbig of (err, m) \<Rightarrow> (err, divresult, Some m)))"

text \<open>The reservation of digits for a result, if it is wanted.\<close>

definition reserve_result :: "mm_t \<Rightarrow> bigint_t option \<Rightarrow> nat \<Rightarrow> nat \<Rightarrow> unit cres \<times> bigint_t option" where
  "reserve_result mm result n expo =
     (case result of
        None \<Rightarrow> (Inr (), None)
      | Some r \<Rightarrow>
          (case reserve_bigint mm r n of
             (Inl err, r) \<Rightarrow> (Inl err, Some r)
           | (Inr _, r) \<Rightarrow> (Inr (), Some (r\<lparr>exponent := expo\<rparr>))))"

definition divmodui32_bigint ::
  "mm_t \<Rightarrow> bigint_t option \<Rightarrow> bigint_t option \<Rightarrow> bigint_t \<Rightarrow> u32 \<Rightarrow> (unit cres \<times> bigint_t option \<times> bigint_t option) option" where
  "divmodui32_bigint mm divresult modresult lbig dvs =
     (let divsize = nrdigits_bigint lbig + exponent lbig
      in if dvs = 0 then Some (Inl EINVAL, divresult, modresult)
         else if divsize = 0 then Some (divisorisbigger_biginthelper mm divresult modresult lbig)
         else
           let (lskip, lds) = skip_zeros (take (nrdigits_bigint lbig) (digits lbig))
           in case reserve_result mm divresult divsize 0 of
                (Inl err, divresult) \<Rightarrow> Some (Inl err, divresult, modresult)
              | (Inr _, divresult) \<Rightarrow> do {
                  let modresult = map_option (\<lambda>m. m\<lparr>exponent := 0\<rparr>) modresult;
                  (divresult, modresult) \<leftarrow> divmodui32_biginthelper divresult modresult (cast_uint16 divsize)
                     (sign_and_used_digits lbig) (sign_and_used_digits lbig) lds dvs;
                  Some (Inr (), divresult, modresult) })"

text \<open>
  The part of \<open>divmod_bigint\<close> after the reservation of the results. \<open>free_err\<close> is the error with which
  the memory manager refuses to free the copy of the dividend, after both results have been computed.
\<close>

definition divmod_digits :: "mm_t \<Rightarrow> errno option \<Rightarrow> bigint_t option \<Rightarrow> bigint_t option \<Rightarrow> nat \<Rightarrow> nat \<Rightarrow> int \<Rightarrow> int \<Rightarrow> u32 list \<Rightarrow> u32 list \<Rightarrow>
    (unit cres \<times> bigint_t option \<times> bigint_t option) option" where
  "divmod_digits mm free_err divresult modresult divnrdigits modnrdigits divsign lsign lds rds =
     (if length rds = 1 then do {
        (divresult, modresult) \<leftarrow>
          divmodui32_biginthelper divresult modresult (cast_uint16 divnrdigits) divsign lsign lds (rds ! 0);
        Some (Inr (), divresult, modresult) }
      else
        let maxnrdigits = (if length lds > length rds then length lds else length rds)
        in case allocate_bigint mm None maxnrdigits of
             (Inl err, _) \<Rightarrow> Some (Inl err, divresult, modresult)
           | (Inr _, diff) \<Rightarrow> do {
               let diff = take maxnrdigits (blit 0 (replicate (maxnrdigits - length lds) 0 @ lds) (digits (the diff)));
               (divresult, modresult) \<leftarrow>
                 divmod_biginthelper divresult modresult (cast_uint16 divnrdigits) (cast_uint16 modnrdigits)
                   divsign lsign diff rds;
               Some (case free_err of None \<Rightarrow> Inr () | Some err \<Rightarrow> Inl err, divresult, modresult) })"

definition divmod_bigint ::
  "mm_t \<Rightarrow> errno option \<Rightarrow> bigint_t option \<Rightarrow> bigint_t option \<Rightarrow> bigint_t \<Rightarrow> bigint_t \<Rightarrow> (unit cres \<times> bigint_t option \<times> bigint_t option) option" where
  "divmod_bigint mm free_err divresult modresult lbig rbig =
     (let divsign = xorsign_biginthelper (sign_and_used_digits lbig) (sign_and_used_digits rbig);
          lsign = sign_and_used_digits lbig;
          lsize = nrdigits_bigint lbig + exponent lbig;
          rsize = nrdigits_bigint rbig + exponent rbig
      in if nrdigits_bigint rbig = 0 then Some (Inl EINVAL, divresult, modresult)
         else if lsize < rsize then Some (divisorisbigger_biginthelper mm divresult modresult lbig)
         else
           let (lskip, lds) = skip_zeros (take (nrdigits_bigint lbig) (digits lbig));
               (rskip, rds) = skip_zeros (take (nrdigits_bigint rbig) (digits rbig));
               lexponent = exponent lbig + lskip;
               rexponent = exponent rbig + rskip;
               divnrdigits = 1 + lsize - rsize;
               modexpo = cast_uint16 (if rexponent < lexponent then rexponent else lexponent);
               modnrdigits = rsize - modexpo
           in case reserve_result mm divresult divnrdigits 0 of
                (Inl err, divresult) \<Rightarrow> Some (Inl err, divresult, modresult)
              | (Inr _, divresult) \<Rightarrow>
              (case reserve_result mm modresult modnrdigits modexpo of
                (Inl err, modresult) \<Rightarrow> Some (Inl err, divresult, modresult)
              | (Inr _, modresult) \<Rightarrow>
                  divmod_digits mm free_err divresult modresult divnrdigits modnrdigits divsign lsign lds rds))"

definition div_bigint :: "mm_t \<Rightarrow> errno option \<Rightarrow> bigint_t \<Rightarrow> bigint_t \<Rightarrow> bigint_t \<Rightarrow> (unit cres \<times> bigint_t option \<times> bigint_t option) option" where
  "div_bigint mm free_err result lbig rbig = divmod_bigint mm free_err (Some result) None lbig rbig"

definition mod_bigint :: "mm_t \<Rightarrow> errno option \<Rightarrow> bigint_t \<Rightarrow> bigint_t \<Rightarrow> bigint_t \<Rightarrow> (unit cres \<times> bigint_t option \<times> bigint_t option) option" where
  "mod_bigint mm free_err result lbig rbig = divmod_bigint mm free_err None (Some result) lbig rbig"

definition divui32_bigint :: "mm_t \<Rightarrow> bigint_t \<Rightarrow> bigint_t \<Rightarrow> u32 \<Rightarrow> (unit cres \<times> bigint_t option \<times> bigint_t option) option" where
  "divui32_bigint mm result lbig dvs = divmodui32_bigint mm (Some result) None lbig dvs"

section \<open>The contract\<close>

text \<open>
  Without an error the results that are wanted satisfy the invariant and have the expected values.
  After an error their digits are valid, but the exponent may not be: \<open>divmod_bigint\<close> sets it before the
  last allocation. \<open>None\<close>, an access outside an array, does not happen.
\<close>

definition keeps :: "bool \<Rightarrow> int \<Rightarrow> bigint_t option \<Rightarrow> bigint_t option \<Rightarrow> bool" where
  "keeps success v = rel_option (\<lambda>_ b. if success then bigint_inv b \<and> bval b = v else bigint_inv (b\<lparr>exponent := 0\<rparr>))"

lemma inv_exponent_0: "bigint_inv b \<Longrightarrow> bigint_inv (b\<lparr>exponent := 0\<rparr>)"
proof -
  assume inv: "bigint_inv b"
  have "nrdigits_bigint (b\<lparr>exponent := 0\<rparr>) = nrdigits_bigint b" by (simp add: nrdigits_bigint_def)
  then show ?thesis using inv by (simp add: bigint_inv_def)
qed

fun divides :: "bigint_t option \<Rightarrow> bigint_t option \<Rightarrow> int \<Rightarrow> int \<Rightarrow> (unit cres \<times> bigint_t option \<times> bigint_t option) option \<Rightarrow> bool" where
  "divides divresult modresult q m None \<longleftrightarrow> False"
| "divides divresult modresult q m (Some (r, d', m')) \<longleftrightarrow>
     keeps (r = Inr ()) q divresult d' \<and> keeps (r = Inr ()) m modresult m'"

definition succeeds :: "(unit cres \<times> bigint_t option \<times> bigint_t option) option \<Rightarrow> bool" where
  "succeeds res \<longleftrightarrow> (\<exists>d m. res = Some (Inr (), d, m))"

lemma keeps_None [simp]: "keeps s v None r \<longleftrightarrow> r = None"
  by (cases r) (simp_all add: keeps_def)

lemma keeps_same: "pred_option bigint_inv old \<Longrightarrow> keeps False v old old"
  by (cases old) (simp_all add: keeps_def inv_exponent_0)

lemma keeps_clear: "pred_option bigint_inv old \<Longrightarrow> keeps s 0 old (map_option clear_bigint old)"
  by (cases old) (simp_all add: keeps_def inv_exponent_0)

lemma keeps_stored:
  assumes "rel_option (\<lambda>_ b. exponent b = e) old res" and "rel_option (stored sg v) res new"
  shows "keeps s ((if sg < 0 then -1 else 1) * int (v * 2 ^ (32 * e))) old new"
  using assms by (cases old; cases res; cases new) (auto simp: keeps_def stored_def inv_exponent_0)

lemma reserve_result_cases:
  assumes inv: "pred_option bigint_inv res" and e: "e < 2 ^ 16"
  obtains (error) err where "reserve_result mm res n e = (Inl err, res)"
  | (ok) res' where "reserve_result mm res n e = (Inr (), res')" "pred_option (room n) res'"
      "rel_option (\<lambda>_ b. exponent b = e) res res'" "\<And>v. keeps False v res res'"
proof (cases res)
  case None
  then show ?thesis by (intro ok [of None]) (simp_all add: reserve_result_def keeps_def)
next
  case (Some b)
  then have b: "bigint_inv b" using inv by simp
  show ?thesis
  proof (rule reserve_bigint_cases [OF b, of mm n], goal_cases)
    case (1 err)
    then show ?case using Some by (intro error [of err]) (simp add: reserve_result_def)
  next
    case (2 b')
    then have inv': "bigint_inv b'" using reserve_bigint_state [OF b 2(1)] by blast
    show ?case
    proof (rule ok [of "Some (b'\<lparr>exponent := e\<rparr>)"])
      show "reserve_result mm res n e = (Inr (), Some (b'\<lparr>exponent := e\<rparr>))"
        using 2 Some by (simp add: reserve_result_def)
      show "pred_option (room n) (Some (b'\<lparr>exponent := e\<rparr>))" using 2 e by (simp add: room_def)
      show "rel_option (\<lambda>_ b. exponent b = e) res (Some (b'\<lparr>exponent := e\<rparr>))" using Some by simp
      show "keeps False v res (Some (b'\<lparr>exponent := e\<rparr>))" for v
        using inv_exponent_0 [OF inv'] Some by (simp add: keeps_def)
    qed
  qed
qed

lemma reserve_result_succeeds:
  assumes "n < 2 ^ 15" "generous mm" "pred_option resizable res"
  shows "fst (reserve_result mm res n e) = Inr ()"
proof (cases res)
  case (Some b)
  then have "fst (reserve_bigint mm b n) = Inr ()"
    using assms by (intro reserve_bigint_succeeds) (simp_all add: resizable_def)
  then show ?thesis using Some by (cases "reserve_bigint mm b n") (simp add: reserve_result_def)
qed (simp add: reserve_result_def)

section \<open>A dividend that is too small\<close>

lemma divisorisbigger_keeps:
  assumes inv: "pred_option bigint_inv divresult" "pred_option bigint_inv modresult" "bigint_inv lbig"
  shows "divides divresult modresult 0 (bval lbig) (Some (divisorisbigger_biginthelper mm divresult modresult lbig))"
proof (cases "nrdigits_bigint lbig = 0")
  case True
  then have "bval lbig = 0" by (simp add: nrdigits_0_iff bval_def)
  then show ?thesis using True keeps_clear [OF inv(1)] keeps_clear [OF inv(2)]
    by (simp add: divisorisbigger_biginthelper_def)
next
  case False
  show ?thesis
  proof (cases modresult)
    case None
    then show ?thesis using False keeps_clear [OF inv(1)] by (simp add: divisorisbigger_biginthelper_def)
  next
    case (Some b)
    obtain r c where c: "copy_bigint mm b lbig = (r, c)" by fastforce
    have "delivers b (r, c) (bval lbig)" using copy_bigint_delivers [of b lbig mm] inv Some c by simp
    then have "bigint_inv c \<and> (r = Inr () \<longrightarrow> bval c = bval lbig)" using inv(2) Some by (cases r) auto
    then have "if r = Inr () then bigint_inv c \<and> bval c = bval lbig else bigint_inv (c\<lparr>exponent := 0\<rparr>)"
      by (simp add: inv_exponent_0)
    then show ?thesis using False Some keeps_clear [OF inv(1)]
      by (simp add: divisorisbigger_biginthelper_def c keeps_def)
  qed
qed

lemma divisorisbigger_succeeds:
  assumes "pred_option resizable modresult" "bigint_inv lbig" "generous mm"
  shows "fst (divisorisbigger_biginthelper mm divresult modresult lbig) = Inr ()"
proof (cases modresult)
  case (Some b)
  then have "fst (copy_bigint mm b lbig) = Inr ()"
    using assms by (intro copy_bigint_succeeds) (simp_all add: resizable_def)
  then show ?thesis using Some by (cases "copy_bigint mm b lbig") (simp add: divisorisbigger_biginthelper_def Let_def)
qed (simp add: divisorisbigger_biginthelper_def Let_def)

section \<open>The operations deliver quotient and remainder\<close>

text \<open>An operand without its trailing zeros.\<close>

lemma skipped_operand:
  assumes inv: "bigint_inv b" "sign_and_used_digits b \<noteq> 0" and s: "skip_zeros (take (nrdigits_bigint b) (digits b)) = (k, ds)"
  shows "ds \<noteq> []" "last ds \<noteq> 0" "bmag b = dval ds * 2 ^ (32 * (exponent b + k))" "k + length ds = nrdigits_bigint b"
    "length ds < 2 ^ 15"
proof -
  note u = last_used [OF inv]
  note z = skip_zeros_nonempty [OF s [folded used_digits_def] u]
  show "ds \<noteq> []" "last ds \<noteq> 0" by (rule z)+
  show "bmag b = dval ds * 2 ^ (32 * (exponent b + k))"
    by (simp add: bmag_def z(4) power_add algebra_simps)
  show k: "k + length ds = nrdigits_bigint b" using z(5) length_used [OF inv(1)] by simp
  show "length ds < 2 ^ 15" using k inv(1) by (simp add: bigint_inv_def)
qed

lemma truncated_values:
  assumes "bigint_inv l" "bigint_inv r"
    and dsg: "dsg < 0 \<longleftrightarrow> (sign_and_used_digits l < 0) \<noteq> (sign_and_used_digits r < 0)" and "bmag r \<noteq> 0"
  shows "bval l sdiv bval r = (if dsg < 0 then -1 else 1) * int (bmag l div bmag r)"
    "bval l smod bval r = (if sign_and_used_digits l < 0 then -1 else 1) * int (bmag l mod bmag r)"
proof -
  have l: "bval l = (if sign_and_used_digits l < 0 then - int (bmag l) else int (bmag l))"
    using bval_sign [OF assms(1)] by (simp add: isnegative_bigint_def)
  have r: "bval r = (if sign_and_used_digits r < 0 then - int (bmag r) else int (bmag r))"
    using bval_sign [OF assms(2)] by (simp add: isnegative_bigint_def)
  show "bval l sdiv bval r = (if dsg < 0 then -1 else 1) * int (bmag l div bmag r)"
    using assms(4) unfolding signed_divide_int_def abs_bval dsg
    by (cases "bmag l = 0") (auto simp: l r zdiv_int sgn_if)
  show "bval l smod bval r = (if sign_and_used_digits l < 0 then -1 else 1) * int (bmag l mod bmag r)"
    unfolding signed_modulo_int_def abs_bval
    by (cases "bmag l = 0") (auto simp: l zmod_int sgn_if)
qed

lemma truncated_by_number:
  assumes "bigint_inv l" "0 < D"
  shows "bval l sdiv int D = (if sign_and_used_digits l < 0 then -1 else 1) * int (bmag l div D)"
    "bval l smod int D = (if sign_and_used_digits l < 0 then -1 else 1) * int (bmag l mod D)"
  using bval_sign [OF assms(1)] assms(2)
  by (cases "bmag l = 0"; simp add: signed_divide_int_def signed_modulo_int_def isnegative_bigint_def zdiv_int zmod_int sgn_if)+

text \<open>The common factor of dividend, divisor and remainder is the power that the exponents share.\<close>

lemma div_mod_common:
  fixes a b x y e :: nat
  defines "Q \<equiv> (a * 2 ^ (32 * x)) div (b * 2 ^ (32 * y))" and "M \<equiv> (a * 2 ^ (32 * x)) mod (b * 2 ^ (32 * y))"
  assumes "0 < b"
  shows "2 ^ (32 * x) * a = Q * (b * 2 ^ (32 * y)) + M" "M < b * 2 ^ (32 * y)"
    "(a * 2 ^ (32 * (x + e))) div (b * 2 ^ (32 * (y + e))) = Q" "(a * 2 ^ (32 * (x + e))) mod (b * 2 ^ (32 * (y + e))) = M * 2 ^ (32 * e)"
proof -
  show "2 ^ (32 * x) * a = Q * (b * 2 ^ (32 * y)) + M" by (simp add: Q_def M_def mult.commute)
  show "M < b * 2 ^ (32 * y)" using assms(3) by (simp add: M_def)
  have e: "a * 2 ^ (32 * (x + e)) = a * 2 ^ (32 * x) * 2 ^ (32 * e)" "b * 2 ^ (32 * (y + e)) = b * 2 ^ (32 * y) * 2 ^ (32 * e)"
    by (simp_all add: power_add add_mult_distrib2)
  show "(a * 2 ^ (32 * (x + e))) div (b * 2 ^ (32 * (y + e))) = Q"
    unfolding e Q_def by (rule div_mult_mult2) simp
  show "(a * 2 ^ (32 * (x + e))) mod (b * 2 ^ (32 * (y + e))) = M * 2 ^ (32 * e)"
    unfolding e M_def by (rule mult_mod_left [symmetric])
qed

lemma divmodui32_bigint_delivers:
  assumes inv: "pred_option bigint_inv divresult" "pred_option bigint_inv modresult" "bigint_inv lbig"
    and sz: "size_bigint lbig < 2 ^ 16" and md: "pred_option (\<lambda>b. digits b \<noteq> []) modresult"
  shows "dvs = 0 \<Longrightarrow> divmodui32_bigint mm divresult modresult lbig dvs = Some (Inl EINVAL, divresult, modresult)"
    and "dvs \<noteq> 0 \<Longrightarrow> divides divresult modresult (bval lbig sdiv int (unat dvs)) (bval lbig smod int (unat dvs))
      (divmodui32_bigint mm divresult modresult lbig dvs)"
    and "dvs \<noteq> 0 \<Longrightarrow> generous mm \<Longrightarrow> pred_option resizable divresult \<Longrightarrow> pred_option resizable modresult \<Longrightarrow>
      size_bigint lbig < 2 ^ 15 \<Longrightarrow> succeeds (divmodui32_bigint mm divresult modresult lbig dvs)"
proof -
  show "dvs = 0 \<Longrightarrow> divmodui32_bigint mm divresult modresult lbig dvs = Some (Inl EINVAL, divresult, modresult)"
    by (simp add: divmodui32_bigint_def)
  define size where "size = nrdigits_bigint lbig + exponent lbig"
  have size: "size = size_bigint lbig" by (simp add: size_def size_bigint_def exponent_bigint_def add.commute)
  have goal: "divides divresult modresult (bval lbig sdiv int (unat dvs)) (bval lbig smod int (unat dvs))
      (divmodui32_bigint mm divresult modresult lbig dvs) \<and>
    (generous mm \<longrightarrow> pred_option resizable divresult \<longrightarrow> pred_option resizable modresult \<longrightarrow> size < 2 ^ 15 \<longrightarrow>
      succeeds (divmodui32_bigint mm divresult modresult lbig dvs))" if dvs: "dvs \<noteq> 0"
  proof (cases "size = 0")
    case True
    then have z: "bval lbig = 0" by (simp add: size_def nrdigits_0_iff bval_def)
    have e: "divmodui32_bigint mm divresult modresult lbig dvs = Some (divisorisbigger_biginthelper mm divresult modresult lbig)"
      using dvs True by (simp add: divmodui32_bigint_def size_def)
    have "generous mm \<Longrightarrow> pred_option resizable modresult \<Longrightarrow> succeeds (Some (divisorisbigger_biginthelper mm divresult modresult lbig))"
      using divisorisbigger_succeeds [OF _ inv(3), of modresult mm divresult]
      by (cases "divisorisbigger_biginthelper mm divresult modresult lbig") (simp add: succeeds_def)
    then show ?thesis
      using divisorisbigger_keeps [OF inv, of mm] by (simp only: e z signed_divide_int_def signed_modulo_int_def) simp
  next
    case False
    then have sgn: "sign_and_used_digits lbig \<noteq> 0"
      using inv(3) by (auto simp: size_def bigint_inv_def nrdigits_bigint_def)
    obtain k lds where s: "skip_zeros (take (nrdigits_bigint lbig) (digits lbig)) = (k, lds)" by fastforce
    note L = skipped_operand [OF inv(3) sgn s]
    define x where "x = exponent lbig + k"
    have sx: "size = length lds + x" using L(4) by (simp add: size_def x_def)
    have d0: "0 < unat dvs" using dvs by (simp add: unat_gt_0)
    define Q where "Q = bmag lbig div unat dvs"
    define M where "M = bmag lbig mod unat dvs"
    have eq: "2 ^ (32 * (size - length lds)) * dval lds = Q * (unat dvs * 2 ^ (32 * (length lds - size))) + M"
      "M < unat dvs * 2 ^ (32 * (length lds - size))"
      using d0 L(3) by (simp_all add: Q_def M_def sx x_def mult.commute)
    have c: "cast_uint16 size = size" using sz size by simp
    have tv: "bval lbig sdiv int (unat dvs) = (if sign_and_used_digits lbig < 0 then -1 else 1) * int (Q * 2 ^ (32 * 0))"
      "bval lbig smod int (unat dvs) = (if sign_and_used_digits lbig < 0 then -1 else 1) * int (M * 2 ^ (32 * 0))"
      unfolding truncated_by_number [OF inv(3) d0] by (simp_all add: Q_def M_def)
    define m0 where "m0 = map_option (\<lambda>m. m\<lparr>exponent := 0\<rparr>) modresult"
    have m0: "pred_option (room (1 + (length lds - size))) m0" "rel_option (\<lambda>_ b. exponent b = 0) modresult m0"
      using inv(2) md by (cases modresult; simp add: m0_def room_def bigint_inv_def sx Suc_le_eq)+
    have unf: "divmodui32_bigint mm divresult modresult lbig dvs = (case reserve_result mm divresult size 0 of
                (Inl err, divresult) \<Rightarrow> Some (Inl err, divresult, modresult)
              | (Inr _, divresult) \<Rightarrow> do {
                  (divresult, modresult) \<leftarrow> divmodui32_biginthelper divresult m0 size
                     (sign_and_used_digits lbig) (sign_and_used_digits lbig) lds dvs;
                  Some (Inr (), divresult, modresult) })"
      using dvs False by (simp add: divmodui32_bigint_def size_def [symmetric] s c m0_def split: prod.splits sum.splits)
    show ?thesis
    proof (rule reserve_result_cases [OF inv(1), of 0 mm size], simp, goal_cases)
      case (1 err)
      have "\<not> (generous mm \<and> pred_option resizable divresult \<and> size < 2 ^ 15)"
        using reserve_result_succeeds [of size mm divresult 0] 1 by auto
      then show ?case unfolding unf 1 using keeps_same [OF inv(1)] keeps_same [OF inv(2)] by auto
    next
      case (2 d0)
      obtain d m where h: "divmodui32_biginthelper d0 m0 size (sign_and_used_digits lbig) (sign_and_used_digits lbig) lds dvs = Some (d, m)"
          "rel_option (stored (sign_and_used_digits lbig) Q) d0 d" "rel_option (stored (sign_and_used_digits lbig) M) m0 m"
        using divmodui32_biginthelper_spec [OF L(1,2) dvs _ _ eq 2(2) m0(1)] False sz size by force
      have "keeps True (bval lbig sdiv int (unat dvs)) divresult d" "keeps True (bval lbig smod int (unat dvs)) modresult m"
        unfolding tv by (rule keeps_stored [OF 2(3) h(2)], rule keeps_stored [OF m0(2) h(3)])
      then show ?case unfolding unf 2 by (simp add: h(1) succeeds_def)
    qed
  qed
  show "dvs \<noteq> 0 \<Longrightarrow> divides divresult modresult (bval lbig sdiv int (unat dvs)) (bval lbig smod int (unat dvs))
      (divmodui32_bigint mm divresult modresult lbig dvs)" using goal by blast
  show "dvs \<noteq> 0 \<Longrightarrow> generous mm \<Longrightarrow> pred_option resizable divresult \<Longrightarrow> pred_option resizable modresult \<Longrightarrow>
      size_bigint lbig < 2 ^ 15 \<Longrightarrow> succeeds (divmodui32_bigint mm divresult modresult lbig dvs)" using goal size by simp
qed

lemma smaller_dividend:
  assumes inv: "bigint_inv l" "bigint_inv r" and lt: "size_bigint l < size_bigint r" and nz: "sign_and_used_digits r \<noteq> 0"
  shows "bval l sdiv bval r = 0" "bval l smod bval r = bval l"
proof -
  have "bmag l < bmag r"
  proof (cases "sign_and_used_digits l = 0")
    case True
    then show ?thesis using bmag_0_iff [OF inv(1)] bmag_0_iff [OF inv(2)] nz by simp
  next
    case False
    have "bmag l < 2 ^ (32 * size_bigint l)" by (rule bmag_bounds(2) [OF inv(1) False])
    also have "\<dots> \<le> 2 ^ (32 * (size_bigint r - 1))" using lt by (intro power_increasing) simp_all
    also have "\<dots> \<le> bmag r" by (rule bmag_bounds(1) [OF inv(2) nz])
    finally show ?thesis .
  qed
  then have "bmag l div bmag r = 0" "bmag l mod bmag r = bmag l" "bmag r \<noteq> 0" by simp_all
  then show "bval l sdiv bval r = 0" "bval l smod bval r = bval l"
    by (simp_all add: signed_divide_int_def signed_modulo_int_def abs_bval flip: zdiv_int zmod_int)
      (simp add: abs_bval [symmetric] sgn_mult_abs)
qed

text \<open>\<open>x\<close> and \<open>y\<close> are the exponents of dividend and divisor above the shared one.\<close>

lemma divmod_digits_spec:
  assumes l: "lds \<noteq> []" "last lds \<noteq> 0" "length lds < 2 ^ 15" and r: "rds \<noteq> []" "last rds \<noteq> 0" "length rds < 2 ^ 15"
    and sz: "length rds + y \<le> length lds + x" "x = 0 \<or> y = 0" "length lds + x < length rds + y + (2 ^ 16 - 1)"
    and eq: "2 ^ (32 * x) * dval lds = Q * (dval rds * 2 ^ (32 * y)) + M" and lt: "M < dval rds * 2 ^ (32 * y)"
    and divnr: "divnr = 1 + (length lds + x) - (length rds + y)"
    and room: "pred_option (room divnr) divresult" "pred_option (room (length rds + y)) modresult"
  shows "(\<exists>err. divmod_digits mm free_err divresult modresult divnr (length rds + y) dsg lsg lds rds = Some (Inl err, divresult, modresult) \<and> \<not> generous mm) \<or>
    (\<exists>r d m. divmod_digits mm free_err divresult modresult divnr (length rds + y) dsg lsg lds rds = Some (r, d, m) \<and>
      rel_option (stored dsg Q) divresult d \<and> rel_option (stored lsg M) modresult m \<and> (free_err = None \<longrightarrow> r = Inr ()))"
proof -
  have c: "cast_uint16 divnr = divnr" using sz divnr by simp
  show ?thesis
  proof (cases "length rds = 1")
    case True
    then obtain dvs where dvs: "rds = [dvs]" by (cases rds) simp_all
    have xy: "divnr - length lds = x" "length lds - divnr = y" using sz True by (auto simp: divnr)
    have "\<exists>d m. divmodui32_biginthelper divresult modresult divnr dsg lsg lds dvs = Some (d, m) \<and>
      rel_option (stored dsg Q) divresult d \<and> rel_option (stored lsg M) modresult m"
      by (rule divmodui32_biginthelper_spec [OF l(1,2)])
        (use r dvs eq lt room xy sz in \<open>simp_all add: divnr\<close>)
    then show ?thesis by (auto simp: divmod_digits_def dvs c)
  next
    case False
    define L where "L = (if length lds > length rds then length lds else length rds)"
    have L: "length lds \<le> L" "length rds \<le> L" "L < 2 ^ 15" using l r by (auto simp: L_def)
    have rn: "2 \<le> length rds" using False r(1) by (cases rds) (simp_all add: Suc_le_eq)
    obtain a diff where a: "allocate_bigint mm None L = (a, diff)" by fastforce
    show ?thesis
    proof (cases a)
      case (Inl err)
      have "\<not> generous mm" using a Inl by (auto dest: allocate_bigint_None_succeeds [OF L(3)])
      then show ?thesis using False Inl a by (simp add: divmod_digits_def L_def [symmetric])
    next
      case (Inr u)
      define ds where "ds = replicate (L - length lds) 0 @ lds"
      have ld: "length ds = L" using L by (simp add: ds_def)
      have "L \<le> length (digits (the diff))" using fresh_number(2) a Inr by blast
      then have dd: "take L (blit 0 ds (digits (the diff))) = ds" using take_blit_0 [of ds] ld by simp
      have vd: "dval ds = 2 ^ (32 * (L - length lds)) * dval lds" by (simp add: ds_def dval_shift)
      have mL: "length rds + y \<le> L" using sz L by auto
      define k where "k = L + 2 - (length rds + y)"
      obtain n where n: "divnr = Suc n" using sz by (cases divnr) (simp_all add: divnr)
      have ex: "n + 2 + (L - length lds) = k + x" "L + 2 - length rds = k + y"
        using n sz L mL by (simp_all add: divnr k_def)
      have cm: "cast_uint16 (length rds + y) = length rds + y" using mL L by simp
      have e1: "2 ^ (32 * n) * (2 ^ 64 * dval ds) = 2 ^ (32 * k) * (2 ^ (32 * x) * dval lds)"
      proof -
        have "2 ^ (32 * n) * (2 ^ 64 * dval ds) = 2 ^ (32 * n + 64 + 32 * (L - length lds)) * dval lds"
          by (simp add: vd power_add)
        also have "32 * n + 64 + 32 * (L - length lds) = 32 * k + 32 * x" using ex(1) by simp
        finally show ?thesis by (simp add: power_add)
      qed
      define W where "W = 2 ^ (32 * (length ds + 2 - length rds)) * dval rds"
      have W: "W = 2 ^ (32 * k) * (dval rds * 2 ^ (32 * y))" unfolding W_def ld ex(2) by (simp add: power_add add_mult_distrib2)
      have "\<exists>d m. divmod_biginthelper divresult modresult divnr (length rds + y) dsg lsg ds rds = Some (d, m) \<and>
        rel_option (stored dsg Q) divresult d \<and> rel_option (stored lsg M) modresult m"
      proof (rule divmod_biginthelper_spec [OF _ rn r(2) _ n _ _ _ W_def])
        show "length rds \<le> length ds" "length rds + y - 2 \<le> length ds" "2 \<le> length rds + y" using ld L mL rn by simp_all
        show "last ds \<noteq> 0" using l by (simp add: ds_def)
        show "divnr < 2 ^ 16" using sz by (simp add: divnr)
        show "2 ^ (32 * n) * (2 ^ 64 * dval ds) = Q * W + 2 ^ (32 * (length ds + 2 - (length rds + y))) * M"
          unfolding e1 eq W ld k_def [symmetric] by (simp add: algebra_simps)
        show "2 ^ (32 * (length ds + 2 - (length rds + y))) * M < W"
          unfolding W ld k_def [symmetric] using lt by simp
        show "pred_option (room divnr) divresult" "pred_option (room (length rds + y)) modresult" by (rule room)+
      qed
      then show ?thesis
        using False Inr a dd by (auto simp: divmod_digits_def L_def [symmetric] ds_def [symmetric] c cm split: option.splits)
    qed
  qed
qed

lemma divmod_bigint_main:
  assumes inv: "pred_option bigint_inv divresult" "pred_option bigint_inv modresult" "bigint_inv lbig" "bigint_inv rbig"
    and sz: "size_bigint lbig < 2 ^ 16" and nz: "sign_and_used_digits rbig \<noteq> 0"
  shows "divides divresult modresult (bval lbig sdiv bval rbig) (bval lbig smod bval rbig)
      (divmod_bigint mm free_err divresult modresult lbig rbig) \<and>
    (generous mm \<longrightarrow> pred_option resizable divresult \<longrightarrow> pred_option resizable modresult \<longrightarrow> size_bigint lbig < 2 ^ 15 \<longrightarrow>
      free_err = None \<longrightarrow> succeeds (divmod_bigint mm free_err divresult modresult lbig rbig))"
proof -
  define lsize where "lsize = nrdigits_bigint lbig + exponent lbig"
  define rsize where "rsize = nrdigits_bigint rbig + exponent rbig"
  have sizes: "lsize = size_bigint lbig" "rsize = size_bigint rbig"
    by (simp_all add: lsize_def rsize_def size_bigint_def exponent_bigint_def add.commute)
  have rn0: "nrdigits_bigint rbig \<noteq> 0" using nz by (simp add: nrdigits_0_iff)
  show ?thesis
  proof (cases "lsize < rsize")
    case True
    then have e: "divmod_bigint mm free_err divresult modresult lbig rbig = Some (divisorisbigger_biginthelper mm divresult modresult lbig)"
      using rn0 by (simp add: divmod_bigint_def lsize_def rsize_def Let_def)
    have "generous mm \<Longrightarrow> pred_option resizable modresult \<Longrightarrow> succeeds (Some (divisorisbigger_biginthelper mm divresult modresult lbig))"
      using divisorisbigger_succeeds [OF _ inv(3), of modresult mm divresult]
      by (cases "divisorisbigger_biginthelper mm divresult modresult lbig") (simp add: succeeds_def)
    then show ?thesis
      using divisorisbigger_keeps [OF inv(1-3), of mm] smaller_dividend [OF inv(3,4) True [unfolded sizes] nz] by (simp only: e) simp
  next
    case ge: False
    have ls0: "sign_and_used_digits lbig \<noteq> 0"
    proof
      assume "sign_and_used_digits lbig = 0"
      then have "lsize = 0" using inv(3) by (simp add: lsize_def bigint_inv_def nrdigits_bigint_def)
      then show False using ge rn0 by (simp add: rsize_def)
    qed
    obtain lk lds where ls: "skip_zeros (take (nrdigits_bigint lbig) (digits lbig)) = (lk, lds)" by fastforce
    obtain rk rds where rs: "skip_zeros (take (nrdigits_bigint rbig) (digits rbig)) = (rk, rds)" by fastforce
    note L = skipped_operand [OF inv(3) ls0 ls] and R = skipped_operand [OF inv(4) nz rs]
    define lexpo where "lexpo = exponent lbig + lk"
    define rexpo where "rexpo = exponent rbig + rk"
    have Ls: "lsize = length lds + lexpo" and Rs: "rsize = length rds + rexpo"
      using L(4) R(4) by (simp_all add: lsize_def rsize_def lexpo_def rexpo_def)
    define e where "e = (if rexpo < lexpo then rexpo else lexpo)"
    define x where "x = lexpo - e"
    define y where "y = rexpo - e"
    have xy: "lexpo = x + e" "rexpo = y + e" "x = 0 \<or> y = 0" by (auto simp: x_def y_def e_def)
    have e16: "e < 2 ^ 16" using sz Ls sizes(1) by (simp add: e_def)
    define divnr where "divnr = 1 + lsize - rsize"
    have nr: "divnr = 1 + (length lds + x) - (length rds + y)" "rsize - e = length rds + y"
      by (simp_all add: divnr_def Ls Rs xy)
    have order: "length rds + y \<le> length lds + x" "length lds + x < length rds + y + (2 ^ 16 - 1)"
      using ge sz Ls Rs xy sizes rn0 R(1) by (cases rds; simp)+
    have b0: "0 < dval rds" using dval_top [OF R(1,2)] by (metis gr0I le_zero_eq power_eq_0_iff zero_neq_numeral)
    define Q where "Q = (dval lds * 2 ^ (32 * x)) div (dval rds * 2 ^ (32 * y))"
    define M where "M = (dval lds * 2 ^ (32 * x)) mod (dval rds * 2 ^ (32 * y))"
    note QM = div_mod_common(1,2) [OF b0, where a = "dval lds" and x = x and y = y, folded Q_def M_def]
      div_mod_common(3,4) [OF b0, where a = "dval lds" and x = x and y = y and e = e, folded Q_def M_def]
    define lsg where "lsg = sign_and_used_digits lbig"
    define dsg where "dsg = xorsign_biginthelper lsg (sign_and_used_digits rbig)"
    have tv: "bval lbig sdiv bval rbig = (if dsg < 0 then -1 else 1) * int (Q * 2 ^ (32 * 0))"
      "bval lbig smod bval rbig = (if lsg < 0 then -1 else 1) * int (M * 2 ^ (32 * e))"
    proof -
      have "bmag lbig div bmag rbig = Q" "bmag lbig mod bmag rbig = M * 2 ^ (32 * e)"
        using QM(3,4) L(3) R(3) by (simp_all add: xy lexpo_def [symmetric] rexpo_def [symmetric])
      moreover have "bmag rbig \<noteq> 0" using bmag_0_iff [OF inv(4)] nz by simp
      ultimately show "bval lbig sdiv bval rbig = (if dsg < 0 then -1 else 1) * int (Q * 2 ^ (32 * 0))"
        "bval lbig smod bval rbig = (if lsg < 0 then -1 else 1) * int (M * 2 ^ (32 * e))"
        using truncated_values [OF inv(3,4), of dsg] by (simp_all add: dsg_def xorsign_negative lsg_def)
    qed
    have unf: "divmod_bigint mm free_err divresult modresult lbig rbig = (case reserve_result mm divresult divnr 0 of
                (Inl err, divresult) \<Rightarrow> Some (Inl err, divresult, modresult)
              | (Inr _, divresult) \<Rightarrow>
              (case reserve_result mm modresult (length rds + y) e of
                (Inl err, modresult) \<Rightarrow> Some (Inl err, divresult, modresult)
              | (Inr _, modresult) \<Rightarrow> divmod_digits mm free_err divresult modresult divnr (length rds + y) dsg lsg lds rds))"
    proof -
      have c: "cast_uint16 (if rexpo < lexpo then rexpo else lexpo) = e" using e16 by (simp add: e_def)
      show ?thesis
        unfolding divmod_bigint_def Let_def ls rs prod.case if_not_P [OF rn0] lexpo_def [symmetric] rexpo_def [symmetric]
          lsize_def [symmetric] rsize_def [symmetric] if_not_P [OF ge] c divnr_def [symmetric] nr(2) lsg_def [symmetric] dsg_def [symmetric] ..
    qed
    have small: "divnr < 2 ^ 15" "length rds + y < 2 ^ 15" if "lsize < 2 ^ 15"
      using that order Ls xy R(1) by (cases rds; simp add: nr)+
    show ?thesis
    proof (rule reserve_result_cases [OF inv(1), of 0 mm divnr], simp, goal_cases)
      case (1 err)
      have "\<not> (generous mm \<and> pred_option resizable divresult \<and> lsize < 2 ^ 15)"
        using reserve_result_succeeds [of divnr mm divresult 0] small 1 by auto
      then show ?case unfolding unf 1 using keeps_same [OF inv(1)] keeps_same [OF inv(2)] sizes by auto
    next
      case (2 d0)
      show ?case
      proof (rule reserve_result_cases [OF inv(2) e16, of mm "length rds + y"], goal_cases)
        case (1 err)
        have "\<not> (generous mm \<and> pred_option resizable modresult \<and> lsize < 2 ^ 15)"
          using reserve_result_succeeds [of "length rds + y" mm modresult e] small 1 by auto
        then show ?case unfolding unf 2(1) 1 using 2(4) keeps_same [OF inv(2)] sizes by auto
      next
        case m: (2 m0)
        have sp: "(\<exists>err. divmod_digits mm free_err d0 m0 divnr (length rds + y) dsg lsg lds rds = Some (Inl err, d0, m0) \<and> \<not> generous mm) \<or>
          (\<exists>r d m. divmod_digits mm free_err d0 m0 divnr (length rds + y) dsg lsg lds rds = Some (r, d, m) \<and>
            rel_option (stored dsg Q) d0 d \<and> rel_option (stored lsg M) m0 m \<and> (free_err = None \<longrightarrow> r = Inr ()))"
          by (rule divmod_digits_spec [OF L(1,2,5) R(1,2,5) order(1) xy(3) order(2) QM(1,2) nr(1) 2(2) m(2)])
        then consider (error) err where "divmod_digits mm free_err d0 m0 divnr (length rds + y) dsg lsg lds rds = Some (Inl err, d0, m0)" "\<not> generous mm"
          | (computed) r d m1 where "divmod_digits mm free_err d0 m0 divnr (length rds + y) dsg lsg lds rds = Some (r, d, m1)"
            "rel_option (stored dsg Q) d0 d" "rel_option (stored lsg M) m0 m1" "free_err = None \<longrightarrow> r = Inr ()" by blast
        then show ?case
        proof cases
          case error
          then show ?thesis unfolding unf 2(1) m(1) using 2(4) m(4) by simp
        next
          case computed
          have "keeps s (bval lbig sdiv bval rbig) divresult d" "keeps s (bval lbig smod bval rbig) modresult m1" for s
            unfolding tv by (rule keeps_stored [OF 2(3) computed(2)], rule keeps_stored [OF m(3) computed(3)])
          then show ?thesis unfolding unf 2(1) m(1) using computed(1,4) by (auto simp: succeeds_def)
        qed
      qed
    qed
  qed
qed

text \<open>
  After the last allocation of \<open>divmod_bigint\<close> has failed, the number 0 in the remainder can have an
  exponent, which no other operation leaves: here with operands of two digits and the exponent 1.
\<close>

lemma divmod_bigint_exponent_of_zero:
  "case divmod_bigint \<lparr>mm_refuses = \<lambda>n. if n = 24 then Some ENOMEM else None, mm_moves = \<lambda>_. False, mm_fill = \<lambda>_. 0\<rparr> None None
      (Some \<lparr>allocated_digits = 4, sign_and_used_digits = 0, exponent = 0, digits = [0, 0, 0, 0]\<rparr>)
      \<lparr>allocated_digits = 0, sign_and_used_digits = 2, exponent = 1, digits = [1, 1]\<rparr>
      \<lparr>allocated_digits = 0, sign_and_used_digits = 2, exponent = 1, digits = [2, 1]\<rparr> of
     Some (r, None, Some m) \<Rightarrow> r = Inl ENOMEM \<and> sign_and_used_digits m = 0 \<and> exponent m = 1
   | _ \<Rightarrow> False"
  by (simp add: divmod_bigint_def divmod_digits_def Let_def nrdigits_bigint_def reserve_result_def reserve_bigint_def
      allocate_bigint_def objectsize_bigint_def)

text \<open>
  Beyond the bound on the size the number of quotient digits wraps to 0 if it is not limited by a
  reservation, and the dividend is not reduced at all: here \<open>5 * 2 ^ (32 * 65535)\<close> is divided by 3.
\<close>

lemma divmod_bigint_wraps:
  "case divmod_bigint \<lparr>mm_refuses = \<lambda>_. None, mm_moves = \<lambda>_. False, mm_fill = \<lambda>_. 0\<rparr> None None
      (Some \<lparr>allocated_digits = 4, sign_and_used_digits = 0, exponent = 0, digits = [0, 0, 0, 0]\<rparr>)
      \<lparr>allocated_digits = 0, sign_and_used_digits = 1, exponent = 65535, digits = [5]\<rparr>
      \<lparr>allocated_digits = 0, sign_and_used_digits = 1, exponent = 0, digits = [3]\<rparr> of
     Some (r, None, Some m) \<Rightarrow> r = Inr () \<and> bval m = 5
   | _ \<Rightarrow> False"
  by (simp add: divmod_bigint_def divmod_digits_def Let_def nrdigits_bigint_def reserve_result_def reserve_bigint_def
      divmodui32_biginthelper_def cast_uint16_def write_digits_def set_sign_def xorsign_biginthelper_def
      bval_def bmag_def used_digits_def blit_def)

section \<open>The properties\<close>

text \<open>C25: \<open>divmod_bigint\<close> refuses exactly the divisor 0. Otherwise it gives the quotient and the remainder of
  the division that truncates towards 0, for all signs, exponents and sizes of the operands, into
  whichever of the two results is wanted; with memory at hand and resizable results it succeeds.
\<close>

theorem divmod_bigint_divides:
  assumes "pred_option bigint_inv divresult" and "pred_option bigint_inv modresult" and "bigint_inv lbig" and "bigint_inv rbig"
    and "size_bigint lbig < 2 ^ 16"
  shows "if bval rbig = 0 then divmod_bigint mm free_err divresult modresult lbig rbig = Some (Inl EINVAL, divresult, modresult)
    else divides divresult modresult (bval lbig sdiv bval rbig) (bval lbig smod bval rbig)
           (divmod_bigint mm free_err divresult modresult lbig rbig) \<and>
      (generous mm \<and> pred_option resizable divresult \<and> pred_option resizable modresult \<and> size_bigint lbig < 2 ^ 15 \<and>
        free_err = None \<longrightarrow> succeeds (divmod_bigint mm free_err divresult modresult lbig rbig))"
proof (cases "bval rbig = 0")
  case True
  then have "nrdigits_bigint rbig = 0" using bval_0_iff [OF assms(4)] by (simp add: nrdigits_0_iff)
  then show ?thesis using True by (simp add: divmod_bigint_def Let_def)
next
  case False
  then have "sign_and_used_digits rbig \<noteq> 0" using bval_0_iff [OF assms(4)] by simp
  from divmod_bigint_main [OF assms this] show ?thesis using False by simp
qed

lemma divmod_bigint_divides_witness:
  "divides (Some \<lparr>allocated_digits = 4, sign_and_used_digits = 0, exponent = 0, digits = [7, 7, 7, 7]\<rparr>) None
     (- 3) (- (2 ^ 33))
     (divmod_bigint \<lparr>mm_refuses = \<lambda>_. None, mm_moves = \<lambda>_. True, mm_fill = \<lambda>_. 3\<rparr> None
        (Some \<lparr>allocated_digits = 4, sign_and_used_digits = 0, exponent = 0, digits = [7, 7, 7, 7]\<rparr>) None
        \<lparr>allocated_digits = 0, sign_and_used_digits = -2, exponent = 1, digits = [2, 3]\<rparr>
        \<lparr>allocated_digits = 0, sign_and_used_digits = 1, exponent = 2, digits = [1]\<rparr>)"
proof -
  let ?b = "\<lparr>allocated_digits = 4, sign_and_used_digits = 0, exponent = 0, digits = [7, 7, 7, 7]\<rparr> :: bigint_t"
  let ?l = "\<lparr>allocated_digits = 0, sign_and_used_digits = -2, exponent = 1, digits = [2, 3]\<rparr> :: bigint_t"
  let ?r = "\<lparr>allocated_digits = 0, sign_and_used_digits = 1, exponent = 2, digits = [1]\<rparr> :: bigint_t"
  have inv: "pred_option bigint_inv (Some ?b)" "pred_option bigint_inv None" "bigint_inv ?l" "bigint_inv ?r"
    by (simp_all add: bigint_inv_def nrdigits_bigint_def)
  have v: "bval ?l = - 55340232229718589440" "bval ?r = 18446744073709551616"
    by (simp_all add: bval_def bmag_def used_digits_def nrdigits_bigint_def)
  have q: "bval ?l sdiv bval ?r = - 3" "bval ?l smod bval ?r = - (2 ^ 33)" and nz: "\<not> bval ?r = 0"
    unfolding v by (simp_all add: signed_divide_int_def signed_modulo_int_def)
  have "size_bigint ?l < 2 ^ 16" by (simp add: size_bigint_def exponent_bigint_def nrdigits_bigint_def)
  from divmod_bigint_divides [OF inv this, unfolded if_not_P [OF nz] q] show ?thesis by blast
qed

text \<open>C26: \<open>divmodui32_bigint\<close> divides by a digit: it refuses exactly the divisor 0, delivers the quotient and
  the remainder of the division that truncates, and succeeds with memory at hand. The remainder needs
  no reservation, one digit is enough.
\<close>

theorem divmodui32_bigint_divides:
  assumes "pred_option bigint_inv divresult" and "pred_option bigint_inv modresult" and "bigint_inv lbig"
    and "size_bigint lbig < 2 ^ 16" and "pred_option (\<lambda>b. digits b \<noteq> []) modresult"
  shows "if dvs = 0 then divmodui32_bigint mm divresult modresult lbig dvs = Some (Inl EINVAL, divresult, modresult)
    else divides divresult modresult (bval lbig sdiv int (unat dvs)) (bval lbig smod int (unat dvs))
           (divmodui32_bigint mm divresult modresult lbig dvs) \<and>
      (generous mm \<and> pred_option resizable divresult \<and> pred_option resizable modresult \<and> size_bigint lbig < 2 ^ 15 \<longrightarrow>
        succeeds (divmodui32_bigint mm divresult modresult lbig dvs))"
  using divmodui32_bigint_delivers [OF assms, of dvs mm] by simp

lemma divmodui32_bigint_divides_witness:
  "divides None (Some \<lparr>allocated_digits = 4, sign_and_used_digits = 0, exponent = 0, digits = [7, 7, 7, 7]\<rparr>)
     (- 5) (- (2 ^ 31 - 5))
     (divmodui32_bigint \<lparr>mm_refuses = \<lambda>_. None, mm_moves = \<lambda>_. True, mm_fill = \<lambda>_. 3\<rparr>
        None (Some \<lparr>allocated_digits = 4, sign_and_used_digits = 0, exponent = 0, digits = [7, 7, 7, 7]\<rparr>)
        \<lparr>allocated_digits = 0, sign_and_used_digits = -1, exponent = 1, digits = [3]\<rparr> 0x80000001)"
proof -
  let ?b = "\<lparr>allocated_digits = 4, sign_and_used_digits = 0, exponent = 0, digits = [7, 7, 7, 7]\<rparr> :: bigint_t"
  let ?l = "\<lparr>allocated_digits = 0, sign_and_used_digits = -1, exponent = 1, digits = [3]\<rparr> :: bigint_t"
  have inv: "pred_option bigint_inv None" "pred_option bigint_inv (Some ?b)" "bigint_inv ?l"
    by (simp_all add: bigint_inv_def nrdigits_bigint_def)
  have v: "bval ?l = - 12884901888" by (simp add: bval_def bmag_def used_digits_def nrdigits_bigint_def)
  have q: "bval ?l sdiv int (unat (0x80000001 :: u32)) = - 5" "bval ?l smod int (unat (0x80000001 :: u32)) = - (2 ^ 31 - 5)"
    and nz: "\<not> (0x80000001 :: u32) = 0"
    unfolding v by (simp_all add: signed_divide_int_def signed_modulo_int_def)
  have "size_bigint ?l < 2 ^ 16" "pred_option (\<lambda>b. digits b \<noteq> []) (Some ?b)"
    by (simp_all add: size_bigint_def exponent_bigint_def nrdigits_bigint_def)
  from divmodui32_bigint_divides [OF inv this, of "0x80000001", unfolded if_not_P [OF nz] q] show ?thesis by blast
qed

end
