(* ===== verification/Big_Shift.thy ===== *)
theory Big_Shift
  imports Big_AddSub
begin

text \<open>
  The shifts of C-kern/math/int/bigint.c, which change a number in place. \<open>shiftright_bigint\<close>
  takes a pointer to the first digit before it enlarges the object; when the memory manager
  moves the block the digits are written through the old pointer. The model gives \<open>None\<close> for
  that undefined run.
\<close>

section \<open>Definitions\<close>

primrec shl_loop :: "nat \<Rightarrow> u64 \<Rightarrow> u32 list \<Rightarrow> u32 list" where
  "shl_loop digit_shift shifted_digit [] = []"
| "shl_loop digit_shift shifted_digit (digit # ds) =
     (let overflow_digit = (ucast (drop_bit 32 shifted_digit) :: u32);
          shifted_digit = push_bit digit_shift (ucast digit) OR ucast overflow_digit
      in ucast shifted_digit # shl_loop digit_shift shifted_digit ds)"

definition shiftleft_bigint :: "mm_t \<Rightarrow> bigint_t \<Rightarrow> u32 \<Rightarrow> unit cres \<times> bigint_t" where
  "shiftleft_bigint mm result shift_count =
     (let resultsign = sign_and_used_digits result;
          nrdigits = nrdigits_bigint result;
          incr_expont = unat shift_count div 32;
          digit_shift = unat shift_count mod 32
      in if 0 = nrdigits then (Inr (), result)
         else
           let new_exponent = incr_expont + exponent result
           in if new_exponent > 0xffff then (Inl EOVERFLOW, result)
              else if digit_shift = 0 then (Inr (), result\<lparr>exponent := cast_uint16 new_exponent\<rparr>)
              else
                let maxdigit = digits result ! (nrdigits - 1);
                    overflow_maxdigit = (ucast (drop_bit 32 (push_bit digit_shift (ucast maxdigit :: u64))) :: u32);
                    sz = 1 + nrdigits
                in case (if overflow_maxdigit \<noteq> 0 then
                           (case reserve_bigint mm result sz of
                              (Inl err, result) \<Rightarrow> (Inl err, result)
                            | (Inr _, result) \<Rightarrow>
                                (Inr (), result\<lparr>
                                   sign_and_used_digits := cast_int16 (if resultsign < 0 then - int sz else int sz),
                                   digits := (digits result)[nrdigits := overflow_maxdigit]\<rparr>))
                         else (Inr (), result)) of
                     (Inl err, result) \<Rightarrow> (Inl err, result)
                   | (Inr _, result) \<Rightarrow>
                       let shifted_digit = push_bit digit_shift (ucast (digits result ! 0) :: u64);
                           dest = ucast shifted_digit # shl_loop digit_shift shifted_digit (tl (take nrdigits (digits result)))
                       in (Inr (), result\<lparr>exponent := cast_uint16 new_exponent,
                             digits := blit 0 dest (digits result)\<rparr>))"

text \<open>The loop of \<open>shiftright_bigint\<close>; its last write is the digit that is left.\<close>

primrec shr_loop :: "nat \<Rightarrow> u32 \<Rightarrow> u32 list \<Rightarrow> u32 list" where
  "shr_loop digit_shift digit [] = [digit]"
| "shr_loop digit_shift digit (leftdigit # ds) =
     (let shifted_digit = (push_bit (32 - digit_shift) (ucast leftdigit) OR ucast digit :: u64)
      in ucast shifted_digit # shr_loop digit_shift (ucast (drop_bit 32 shifted_digit)) ds)"

definition shiftright_bigint :: "mm_t \<Rightarrow> bigint_t \<Rightarrow> u32 \<Rightarrow> (unit cres \<times> bigint_t) option" where
  "shiftright_bigint mm result shift_count =
     (let resultsign = sign_and_used_digits result;
          nrdigits = nrdigits_bigint result;
          expo = exponent_bigint result;
          decr_expont = unat shift_count div 32;
          digit_shift = unat shift_count mod 32;
          (skip_digits, new_exponent) =
            (if decr_expont < expo then (0, expo - decr_expont) else (decr_expont - expo, 0))
      in if \<not> decr_expont < expo \<and> nrdigits \<le> skip_digits then
           Some (Inr (), result\<lparr>sign_and_used_digits := 0, exponent := 0\<rparr>)
         else
           let new_nrdigits = nrdigits - skip_digits;
               finish = (\<lambda>result new_nrdigits new_exponent dest.
                 Some (Inr (), result\<lparr>
                   sign_and_used_digits := cast_int16 (if resultsign < 0 then - int new_nrdigits else int new_nrdigits),
                   exponent := cast_uint16 new_exponent,
                   digits := blit 0 dest (digits result)\<rparr>))
           in if digit_shift \<noteq> 0 then
                let digit = drop_bit digit_shift (digits result ! skip_digits);
                    rightbitsdigit = push_bit (32 - digit_shift) (digits result ! 0)
                in if new_exponent \<noteq> 0 \<and> rightbitsdigit \<noteq> 0 then
                     let new_exponent = new_exponent - 1;
                         new_nrdigits = new_nrdigits + 1;
                         moved = (allocated_digits result < new_nrdigits \<and>
                           mm_moves mm (objectsize_bigint (if new_nrdigits < 4 then 4 else new_nrdigits)))
                     in case reserve_bigint mm result new_nrdigits of
                          (Inl err, result) \<Rightarrow> Some (Inl err, result)
                        | (Inr _, result) \<Rightarrow>
                            if moved then None
                            else
                              let dest = shr_loop digit_shift digit (drop (skip_digits + 1) (take nrdigits (digits result)))
                              in finish result (new_nrdigits - of_bool (0 = last dest)) new_exponent
                                   (rightbitsdigit # dest)
                   else
                     let dest = shr_loop digit_shift digit (drop (skip_digits + 1) (take nrdigits (digits result)))
                     in finish result (new_nrdigits - of_bool (0 = last dest)) new_exponent dest
              else finish result new_nrdigits new_exponent
                     (if skip_digits \<noteq> 0 then take new_nrdigits (drop skip_digits (digits result)) else []))"

section \<open>Shifting digits\<close>

text \<open>One digit of a left shift: the bits that leave it and those that enter it.\<close>

lemma shl_digit:
  fixes d :: u32 and s :: u64
  assumes "k < 32" and "unat (drop_bit 32 s) < 2 ^ k"
  defines "s' \<equiv> push_bit k (ucast d) OR (ucast (ucast (drop_bit 32 s) :: u32) :: u64)"
  shows "unat s' = unat d * 2 ^ k + unat (drop_bit 32 s)" and "unat (drop_bit 32 s') < 2 ^ k"
proof -
  have d: "unat d < 2 ^ 32" by (rule unat_u32_bound)
  have dk: "unat d * 2 ^ k < 2 ^ 64"
  proof -
    have "unat d * 2 ^ k < 2 ^ 32 * 2 ^ k" using d by simp
    also have "\<dots> \<le> 2 ^ 32 * 2 ^ 32" using assms(1) by (intro mult_left_mono power_increasing) simp_all
    finally show ?thesis by simp
  qed
  have u: "unat (ucast d :: u64) = unat d" by (rule unat_ucast_up) simp
  have p: "unat (push_bit k (ucast d) :: u64) = unat d * 2 ^ k"
    using dk by (subst unat_push_bit_no_wrap) (simp_all add: u)
  have k32: "(2 :: nat) ^ k < 2 ^ 32" using assms(1) by (intro power_strict_increasing) simp_all
  have o: "unat (ucast (ucast (drop_bit 32 s) :: u32) :: u64) = unat (drop_bit 32 s)"
    using assms(2) k32 by (subst unat_ucast_up, simp, subst unat_ucast_down) simp_all
  have "s' = push_bit k (ucast d) + ucast (ucast (drop_bit 32 s) :: u32)"
    unfolding s'_def by (rule or_eq_add_dvd [where k = k]) (simp_all only: p o assms(2) dvd_triv_right)
  moreover have sum: "unat d * 2 ^ k + unat (drop_bit 32 s) < 2 ^ 32 * 2 ^ k"
  proof -
    have "(unat d + 1) * 2 ^ k \<le> 2 ^ 32 * 2 ^ k" using d by (intro mult_right_mono) simp_all
    then have "unat d * 2 ^ k + 2 ^ k \<le> 2 ^ 32 * 2 ^ k" by (simp only: distrib_right mult_1)
    then show ?thesis using assms(2) by linarith
  qed
  moreover have "(2 :: nat) ^ 32 * 2 ^ k \<le> 2 ^ 64"
  proof -
    have "(2 :: nat) ^ 32 * 2 ^ k \<le> 2 ^ 32 * 2 ^ 32"
      using assms(1) by (intro mult_left_mono power_increasing) simp_all
    then show ?thesis by simp
  qed
  ultimately show v: "unat s' = unat d * 2 ^ k + unat (drop_bit 32 s)"
    by (simp only: p o unat_add_no_wrap) (intro unat_add_eq [OF p o], simp)
  show "unat (drop_bit 32 s') < 2 ^ k"
    unfolding unat_drop_bit [of 32 s'] v
    by (rule less_mult_imp_div_less) (use sum in \<open>simp only: mult.commute [of "2 ^ k"]\<close>)
qed


lemma shl_loop_val:
  assumes "k < 32"
  shows "unat (drop_bit 32 s) < 2 ^ k \<Longrightarrow>
    length (shl_loop k s ds) = length ds \<and>
    dval (shl_loop k s ds) = (dval ds * 2 ^ k + unat (drop_bit 32 s)) mod 2 ^ (32 * length ds)"
proof (induction ds arbitrary: s)
  case (Cons d ds)
  define s' where "s' = push_bit k (ucast d) OR (ucast (ucast (drop_bit 32 s) :: u32) :: u64)"
  note D = shl_digit [OF assms Cons.prems, of d, folded s'_def]
  note ih = Cons.IH [OF D(2)]
  have u: "unat (ucast s' :: u32) = unat s' mod 2 ^ 32" by (simp add: unat_ucast_mod)
  have "dval (shl_loop k s (d # ds)) = unat s' mod 2 ^ 32 + 2 ^ 32 * dval (shl_loop k s' ds)"
    by (simp add: Let_def u flip: s'_def)
  also have "\<dots> = unat s' mod 2 ^ 32 + 2 ^ 32 * ((dval ds * 2 ^ k + unat s' div 2 ^ 32) mod 2 ^ (32 * length ds))"
    by (simp only: conjunct2 [OF ih] unat_drop_bit)
  also have "\<dots> = (unat s' + 2 ^ 32 * (dval ds * 2 ^ k)) mod (2 ^ 32 * 2 ^ (32 * length ds))"
    by (simp add: mod_mult2_eq)
  also have "unat s' + 2 ^ 32 * (dval ds * 2 ^ k) = dval (d # ds) * 2 ^ k + unat (drop_bit 32 s)"
    unfolding D(1) by (simp add: algebra_simps)
  finally have "dval (shl_loop k s (d # ds))
      = (dval (d # ds) * 2 ^ k + unat (drop_bit 32 s)) mod 2 ^ (32 * length (d # ds))"
    by (simp add: power_add)
  moreover have "length (shl_loop k s (d # ds)) = length (d # ds)"
    using conjunct1 [OF ih] by (simp add: Let_def flip: s'_def)
  ultimately show ?case by blast
qed simp


lemma overflow_digit:
  assumes "k < 32" and "ds \<noteq> []"
  shows "dval ds * 2 ^ k div 2 ^ (32 * length ds)
    = unat (ucast (drop_bit 32 (push_bit k (ucast (last ds) :: u64))) :: u32)"
proof -
  let ?n = "length ds" and ?m = "unat (last ds)" and ?low = "dval (butlast ds)"
  have v: "dval ds = ?low + 2 ^ (32 * (?n - 1)) * ?m"
    using dval_append [of "butlast ds" "[last ds]"] assms(2) by simp
  have low: "?low < 2 ^ (32 * (?n - 1))" using dval_bound [of "butlast ds"] by simp
  have n: "(2 :: nat) ^ (32 * ?n) = 2 ^ (32 * (?n - 1)) * 2 ^ 32"
    using assms(2) by (cases ds) (simp_all add: power_add)
  have k32: "(2 :: nat) ^ 32 = 2 ^ (32 - k) * 2 ^ k" using assms(1) by (simp flip: power_add)
  define q where "q = ?low * 2 ^ k div 2 ^ (32 * (?n - 1))"
  have "?low * 2 ^ k < 2 ^ (32 * (?n - 1)) * 2 ^ k" using low by simp
  then have q: "q < 2 ^ k" unfolding q_def by (simp add: less_mult_imp_div_less mult.commute)
  have "dval ds * 2 ^ k div 2 ^ (32 * ?n) = (?low * 2 ^ k + ?m * 2 ^ k * 2 ^ (32 * (?n - 1))) div 2 ^ (32 * (?n - 1)) div 2 ^ 32"
    unfolding n by (simp only: div_mult2_eq v) (simp add: algebra_simps)
  also have "\<dots> = (q + ?m * 2 ^ k) div 2 ^ 32" unfolding q_def by simp
  also have "\<dots> = (q + ?m * 2 ^ k) div 2 ^ k div 2 ^ (32 - k)"
    unfolding k32 by (simp only: div_mult2_eq mult.commute [of "2 ^ (32 - k)"])
  also have "(q + ?m * 2 ^ k) div 2 ^ k = ?m * 2 ^ k div 2 ^ k" using q by simp
  also have "?m * 2 ^ k div 2 ^ k div 2 ^ (32 - k) = ?m * 2 ^ k div 2 ^ 32"
    unfolding k32 by (simp only: div_mult2_eq mult.commute [of "2 ^ (32 - k)"])
  also have "\<dots> = unat (ucast (drop_bit 32 (push_bit k (ucast (last ds) :: u64))) :: u32)"
  proof -
    have m: "?m < 2 ^ 32" by (rule unat_u32_bound)
    have "?m * 2 ^ k < 2 ^ 32 * 2 ^ k" using m by simp
    also have "\<dots> \<le> 2 ^ 32 * 2 ^ 32" using assms(1) by (intro mult_left_mono power_increasing) simp_all
    finally have mk: "?m * 2 ^ k < 2 ^ 64" by simp
    have u: "unat (ucast (last ds) :: u64) = ?m" by (rule unat_ucast_up) simp
    have "unat (push_bit k (ucast (last ds)) :: u64) = ?m * 2 ^ k"
      using mk by (subst unat_push_bit_no_wrap) (simp_all add: u)
    then have p: "unat (drop_bit 32 (push_bit k (ucast (last ds) :: u64))) = ?m * 2 ^ k div 2 ^ 32"
      by (simp only: unat_drop_bit)
    have "?m * 2 ^ k div 2 ^ 32 < 2 ^ 32" using mk by (simp add: less_mult_imp_div_less)
    then show ?thesis by (subst unat_ucast_down) (simp_all only: p len_num1 len_bit0 len_num0, simp_all)
  qed
  finally show ?thesis .
qed


lemma shl_digits:
  assumes "k < 32" and "ds \<noteq> []"
  defines "s0 \<equiv> push_bit k (ucast (hd ds) :: u64)"
  defines "dest \<equiv> ucast s0 # shl_loop k s0 (tl ds)"
    and "ov \<equiv> (ucast (drop_bit 32 (push_bit k (ucast (last ds) :: u64))) :: u32)"
  shows "length dest = length ds" and "dval (dest @ [ov]) = dval ds * 2 ^ k"
proof -
  have d: "dest = shl_loop k 0 ds"
    using assms(2) by (cases ds) (simp_all add: dest_def s0_def Let_def)
  have "unat (drop_bit 32 (0 :: u64)) < 2 ^ k" by simp
  note L = shl_loop_val [OF assms(1) this, of ds, folded d]
  show len: "length dest = length ds" using L by simp
  have "dval (dest @ [ov]) = dval dest + 2 ^ (32 * length ds) * unat ov" by (simp add: dval_append len)
  also have "\<dots> = dval ds * 2 ^ k mod 2 ^ (32 * length ds) + 2 ^ (32 * length ds) * (dval ds * 2 ^ k div 2 ^ (32 * length ds))"
    using L unfolding ov_def overflow_digit [OF assms(1,2)] by simp
  finally show "dval (dest @ [ov]) = dval ds * 2 ^ k" by simp
qed

section \<open>Shift left\<close>

text \<open>Writing shifted digits to an object that has room for them.\<close>

lemma shl_store:
  fixes neg :: bool
  assumes k: "k < 32" and ds: "ds \<noteq> []" "last ds \<noteq> 0" and e: "e < 2 ^ 16"
    and al: "allocated_digits b < 2 ^ 15" "allocated_digits b \<noteq> 0 \<Longrightarrow> length (digits b) = allocated_digits b"
  defines "s0 \<equiv> push_bit k (ucast (hd ds) :: u64)"
  defines "dest \<equiv> ucast s0 # shl_loop k s0 (tl ds)"
    and "ov \<equiv> (ucast (drop_bit 32 (push_bit k (ucast (last ds) :: u64))) :: u32)"
  defines "sz \<equiv> length ds + of_bool (ov \<noteq> 0)"
  assumes sz: "sz \<le> length (digits b)" "sz < 2 ^ 15"
  defines "r \<equiv> b\<lparr>sign_and_used_digits := cast_int16 (if neg then - int sz else int sz), exponent := cast_uint16 e,
      digits := blit 0 (dest @ (if ov \<noteq> 0 then [ov] else [])) (digits b)\<rparr>"
  shows "bigint_inv r" and "bval r = (if neg then -1 else 1) * int (dval ds * 2 ^ k * 2 ^ (32 * e))"
proof -
  note D = shl_digits [OF k ds(1), folded s0_def, folded dest_def ov_def]
  let ?out = "dest @ (if ov \<noteq> 0 then [ov] else [])"
  have len: "length ?out = sz" using D(1) by (simp add: sz_def)
  have v: "dval ?out = dval ds * 2 ^ k"
    using D(2) by (cases "ov = 0") (simp_all add: dval_append)
  have ne: "?out \<noteq> []" by (simp add: dest_def)
  have "last ?out \<noteq> 0"
  proof (cases "ov = 0")
    case True
    have "2 ^ (32 * (length ?out - 1)) \<le> dval ds" using dval_top [OF ds] True D(1) by simp
    also have "\<dots> \<le> dval ?out" unfolding v by simp
    finally show ?thesis by (rule last_nonzero_dval [OF _ ne])
  qed simp
  then have top: "?out ! (sz - 1) \<noteq> 0" unfolding last_conv_nth [OF ne] len .
  have z: "sz = 0 \<Longrightarrow> e = 0" using ds(1) by (simp add: sz_def)
  have ol: "length ?out \<le> length (digits b)" "sz \<le> length ?out" using sz len by simp_all
  note R = set_result [where neg = neg, OF ol sz(2) e top z al, folded r_def]
  have "take sz ?out = ?out" using len by simp
  then show "bigint_inv r" and "bval r = (if neg then -1 else 1) * int (dval ds * 2 ^ k * 2 ^ (32 * e))"
    using R v by simp_all
qed


lemma sign_of_nrdigits:
  assumes "bigint_inv b"
  shows "cast_int16 (if sign_and_used_digits b < 0 then - int (nrdigits_bigint b) else int (nrdigits_bigint b))
    = sign_and_used_digits b"
proof -
  have s: "(if sign_and_used_digits b < 0 then - int (nrdigits_bigint b) else int (nrdigits_bigint b))
      = sign_and_used_digits b"
    using nrdigits_abs [of b] by auto
  have "int (nrdigits_bigint b) < 2 ^ 15" using assms by (simp add: bigint_inv_def)
  then have "- (2 ^ 15) \<le> sign_and_used_digits b \<and> sign_and_used_digits b < 2 ^ 15"
    using nrdigits_abs [of b] by linarith
  then show ?thesis unfolding s by (intro cast_int16_id) simp_all
qed

lemma shiftleft_bigint_delivers:
  assumes inv: "bigint_inv big"
  shows "delivers big (shiftleft_bigint mm big shift_count) (bval big * 2 ^ unat shift_count)"
proof (cases "nrdigits_bigint big = 0")
  case True
  then have "bval big = 0" using nrdigits_0_iff [of big] bval_0_iff [OF inv] by simp
  then show ?thesis using True inv by (simp add: shiftleft_bigint_def)
next
  case n0: False
  define k i where ki: "k = unat shift_count mod 32" "i = unat shift_count div 32"
  let ?n = "nrdigits_bigint big" and ?e = "i + exponent big"
  let ?neg = "sign_and_used_digits big < 0"
  have nz: "sign_and_used_digits big \<noteq> 0" using n0 nrdigits_0_iff [of big] by simp
  have sh: "unat shift_count = k + 32 * i" by (simp add: ki)
  note sdef = shiftleft_bigint_def [of mm big shift_count, folded ki]
  have i: "?n \<le> length (digits big)" "?n < 2 ^ 15" using inv by (simp_all add: bigint_inv_def)
  have bv: "bval big * 2 ^ unat shift_count
      = (if ?neg then -1 else 1) * int (dval (used_digits big) * 2 ^ k * 2 ^ (32 * ?e))"
    using bval_sign [OF inv] unfolding sh
    by (simp add: isnegative_bigint_def bmag_def power_add algebra_simps)
  show ?thesis
  proof (cases "?e > 0xffff")
    case True
    then show ?thesis using n0 by (simp add: sdef)
  next
    case e: False
    then have e16: "?e < 2 ^ 16" by simp
    show ?thesis
    proof (cases "k = 0")
      case True
      note s16 = sign_of_nrdigits [OF inv]
      have top: "used_digits big ! (?n - 1) \<noteq> 0"
        using inv nz n0 by (simp add: bigint_inv_def used_digits_def)
      have al: "allocated_digits big < 2 ^ 15" "allocated_digits big \<noteq> 0 \<Longrightarrow> length (digits big) = allocated_digits big"
        using inv by (simp_all add: bigint_inv_def)
      have z: "?n = 0 \<Longrightarrow> ?e = 0" using n0 by simp
      have lu: "length (used_digits big) \<le> length (digits big)" "?n \<le> length (used_digits big)"
        using length_used [OF inv] i by simp_all
      have bl: "blit 0 (used_digits big) (digits big) = digits big"
        using i(1) by (simp add: blit_def used_digits_def min_absorb2)
      note R = set_result [where neg = ?neg, OF lu i(2) e16 top z al, unfolded s16 bl]
      have "take ?n (used_digits big) = used_digits big" using length_used [OF inv] by simp
      then show ?thesis unfolding sdef bv using R True n0 e by simp
    next
      case k: False
      have k32: "k < 32" by (simp add: ki)
      have ne: "used_digits big \<noteq> []" "last (used_digits big) \<noteq> 0" by (rule last_used [OF inv nz])+
      have l: "length (used_digits big) = ?n" by (rule length_used [OF inv])
      have hd: "digits big ! 0 = hd (used_digits big)" and la: "digits big ! (?n - 1) = last (used_digits big)"
        using n0 i(1) ne l by (simp_all add: hd_conv_nth last_conv_nth) (simp_all add: used_digits_def)
      define s0 where "s0 = push_bit k (ucast (hd (used_digits big)) :: u64)"
      define ov where "ov = (ucast (drop_bit 32 (push_bit k (ucast (last (used_digits big)) :: u64))) :: u32)"
      have s0': "s0 = push_bit k (ucast (digits big ! 0))" by (simp add: s0_def hd)
      define dest where "dest = ucast s0 # shl_loop k s0 (tl (used_digits big))"
      have dest': "ucast (push_bit k (ucast (digits big ! 0)) :: u64)
          # shl_loop k (push_bit k (ucast (digits big ! 0))) (tl (take ?n (digits big))) = dest"
        by (simp add: dest_def s0' used_digits_def)
      note ST = shl_store [OF k32 ne e16, folded s0_def, folded dest_def ov_def, unfolded l]
      have ld: "length dest = ?n"
        using shl_digits(1) [OF k32 ne(1), folded s0_def, folded dest_def] l by simp
      show ?thesis
      proof (cases "ov = 0")
        case True
        have al: "allocated_digits big < 2 ^ 15" "allocated_digits big \<noteq> 0 \<Longrightarrow> length (digits big) = allocated_digits big"
          using inv by (simp_all add: bigint_inv_def)
        have eq: "shiftleft_bigint mm big shift_count
            = (Inr (), big\<lparr>exponent := cast_uint16 ?e, digits := blit 0 dest (digits big)\<rparr>)"
          using n0 e k True unfolding sdef Let_def la ov_def [symmetric]
          by (simp add: dest_def s0' used_digits_def)
        have o: "?n + of_bool (ov \<noteq> 0) = ?n" "dest @ (if ov \<noteq> 0 then [ov] else []) = dest" using True by simp_all
        note R = ST [where neg = ?neg, OF al, unfolded o sign_of_nrdigits [OF inv], OF _ i]
        then show ?thesis unfolding eq bv by simp
      next
        case ov: False
        show ?thesis
        proof (rule reserve_bigint_cases [OF inv, of mm "1 + ?n"], goal_cases)
          case (1 err)
          then show ?case
            using n0 e k ov unfolding sdef Let_def la ov_def [symmetric] by simp
        next
          case (2 b)
          let ?b1 = "b\<lparr>sign_and_used_digits := cast_int16 (if ?neg then - int (1 + ?n) else int (1 + ?n)),
              digits := (digits b)[?n := ov]\<rparr>"
          have o: "?n + of_bool (ov \<noteq> 0) = ?n + 1" "dest @ (if ov \<noteq> 0 then [ov] else []) = dest @ [ov]"
            using ov by simp_all
          have n1: "?n + 1 \<le> length (digits b)" "?n + 1 < 2 ^ 15" using 2(2,4) by simp_all
          have tk: "take ?n (digits b) = take ?n (digits big)" by (rule 2(6)) (use i in simp_all)
          then have b0: "digits b ! 0 = digits big ! 0" using n0 by (metis gr0I nth_take)
          have bl: "blit 0 dest ((digits b)[?n := ov]) = blit 0 (dest @ [ov]) (digits b)"
            using 2(2) by (simp add: blit_def ld drop_update_swap upd_conv_take_nth_drop)
          have "shiftleft_bigint mm big shift_count
              = (Inr (), b\<lparr>sign_and_used_digits := cast_int16 (if ?neg then - int (?n + 1) else int (?n + 1)),
                  exponent := cast_uint16 ?e, digits := blit 0 (dest @ [ov]) (digits b)\<rparr>)"
            using n0 e k ov 2(1) unfolding sdef Let_def la ov_def [symmetric]
            by (simp add: tk b0 dest' bl)
          then show ?case
            unfolding bv using ST [where neg = ?neg, OF 2(3,5), unfolded o, OF _ n1] by simp
        qed
      qed
    qed
  qed
qed


section \<open>Shift right\<close>

text \<open>The digits of a right shift, from the bits of the digit before them on.\<close>

lemma shr_digit:
  fixes l d :: u32
  assumes "0 < k" and "k < 32" and "unat d < 2 ^ (32 - k)"
  defines "s \<equiv> (push_bit (32 - k) (ucast l) OR ucast d :: u64)"
  shows "unat s = unat l * 2 ^ (32 - k) + unat d" and "unat (ucast (drop_bit 32 s) :: u32) = unat l div 2 ^ k"
    and "unat (ucast s :: u32) + 2 ^ 32 * (unat l div 2 ^ k) = unat l * 2 ^ (32 - k) + unat d"
proof -
  have l: "unat l < 2 ^ 32" by (rule unat_u32_bound)
  have pk: "(2 :: nat) ^ (32 - k) < 2 ^ 32" using assms(1,2) by (intro power_strict_increasing) simp_all
  have u: "unat (ucast l :: u64) = unat l" "unat (ucast d :: u64) = unat d" by (rule unat_ucast_up, simp)+
  have "unat l * 2 ^ (32 - k) < 2 ^ 32 * 2 ^ (32 - k)" using l by simp
  also have "\<dots> \<le> 2 ^ 32 * 2 ^ 32" using pk by (intro mult_left_mono) simp_all
  finally have lk: "unat l * 2 ^ (32 - k) < 2 ^ 64" by simp
  have p: "unat (push_bit (32 - k) (ucast l) :: u64) = unat l * 2 ^ (32 - k)"
    using lk by (subst unat_push_bit_no_wrap) (simp_all add: u)
  have "(unat l + 1) * 2 ^ (32 - k) \<le> 2 ^ 32 * 2 ^ (32 - k)" using l by (intro mult_right_mono) simp_all
  then have "unat l * 2 ^ (32 - k) + 2 ^ (32 - k) \<le> 2 ^ 32 * 2 ^ (32 - k)" by (simp only: distrib_right mult_1)
  then have sum: "unat l * 2 ^ (32 - k) + unat d < 2 ^ 32 * 2 ^ (32 - k)" using assms(3) by linarith
  have "s = push_bit (32 - k) (ucast l) + ucast d"
    unfolding s_def by (rule or_eq_add_dvd [where k = "32 - k"]) (simp_all only: p u assms(3) dvd_triv_right)
  moreover have "(2 :: nat) ^ 32 * 2 ^ (32 - k) \<le> 2 ^ 64"
  proof -
    have "(2 :: nat) ^ 32 * 2 ^ (32 - k) \<le> 2 ^ 32 * 2 ^ 32" using pk by (intro mult_left_mono) simp_all
    then show ?thesis by simp
  qed
  ultimately show v: "unat s = unat l * 2 ^ (32 - k) + unat d"
    using sum by (simp only: p u) (intro unat_add_eq [OF p u(2)], simp)
  have k32: "(2 :: nat) ^ 32 = 2 ^ (32 - k) * 2 ^ k" using assms(2) by (simp flip: power_add)
  have "unat (drop_bit 32 s) = (unat l * 2 ^ (32 - k) + unat d) div 2 ^ (32 - k) div 2 ^ k"
    unfolding unat_drop_bit v k32 by (simp only: div_mult2_eq)
  also have "(unat l * 2 ^ (32 - k) + unat d) div 2 ^ (32 - k) = unat l"
    using assms(3) by simp
  finally have h: "unat (drop_bit 32 s) = unat l div 2 ^ k" .
  have "unat l div 2 ^ k < 2 ^ 32" using l by (meson div_le_dividend le_less_trans)
  then show d: "unat (ucast (drop_bit 32 s) :: u32) = unat l div 2 ^ k"
    by (subst unat_ucast_down) (simp_all only: h len_num1 len_bit0 len_num0, simp_all)
  have "unat (ucast s :: u32) + 2 ^ 32 * unat (ucast (drop_bit 32 s) :: u32) = unat s"
    by (rule unat_halves [symmetric])
  then show "unat (ucast s :: u32) + 2 ^ 32 * (unat l div 2 ^ k) = unat l * 2 ^ (32 - k) + unat d"
    unfolding d v .
qed

lemma shr_loop_val:
  assumes "0 < k" and "k < 32"
  shows "unat d < 2 ^ (32 - k) \<Longrightarrow>
    length (shr_loop k d ds) = Suc (length ds) \<and>
    dval (shr_loop k d ds) = unat d + dval ds * 2 ^ (32 - k) \<and>
    (ds \<noteq> [] \<longrightarrow> unat (last (shr_loop k d ds)) = unat (last ds) div 2 ^ k) \<and>
    (ds = [] \<longrightarrow> last (shr_loop k d ds) = d)"
proof (induction ds arbitrary: d)
  case (Cons l ds)
  define s where "s = (push_bit (32 - k) (ucast l) OR ucast d :: u64)"
  define h where "h = (ucast (drop_bit 32 s) :: u32)"
  note S = shr_digit [OF assms Cons.prems, of l, folded s_def h_def]
  have k32: "(2 :: nat) ^ 32 = 2 ^ k * 2 ^ (32 - k)" using assms(2) by (simp flip: power_add)
  have "unat l < 2 ^ k * 2 ^ (32 - k)" using unat_u32_bound [of l] unfolding k32 .
  then have hb: "unat h < 2 ^ (32 - k)" unfolding S(2) by (simp add: less_mult_imp_div_less mult.commute)
  note ih = Cons.IH [OF hb]
  have e: "shr_loop k d (l # ds) = ucast s # shr_loop k h ds"
    by (simp add: Let_def flip: s_def h_def)
  have ne: "shr_loop k h ds \<noteq> []" using ih by auto
  have "dval (shr_loop k d (l # ds)) = unat (ucast s :: u32) + 2 ^ 32 * unat h + 2 ^ 32 * (dval ds * 2 ^ (32 - k))"
    unfolding e using ih by (simp add: algebra_simps)
  also have "\<dots> = unat d + dval (l # ds) * 2 ^ (32 - k)"
    unfolding S(2) S(3) by (simp add: algebra_simps)
  finally have "dval (shr_loop k d (l # ds)) = unat d + dval (l # ds) * 2 ^ (32 - k)" .
  moreover have "unat (last (shr_loop k d (l # ds))) = unat (last (l # ds)) div 2 ^ k"
    unfolding e using ih ne S(2) by (cases "ds = []") simp_all
  ultimately show ?case unfolding e using ih by simp
qed simp


text \<open>The end of \<open>shiftright_bigint\<close>: a leading digit 0 is dropped.\<close>

lemma shr_store:
  fixes neg :: bool
  assumes out: "out \<noteq> []" "length out \<le> length (digits b)" and sz: "length out - of_bool (0 = last out) < 2 ^ 15"
    and e: "e < 2 ^ 16" and top: "last out = 0 \<longrightarrow> (butlast out \<noteq> [] \<longrightarrow> last (butlast out) \<noteq> 0) \<and> (butlast out = [] \<longrightarrow> e = 0)"
    and al: "allocated_digits b < 2 ^ 15" "allocated_digits b \<noteq> 0 \<Longrightarrow> length (digits b) = allocated_digits b"
  defines "n \<equiv> length out - of_bool (0 = last out)"
  defines "r \<equiv> b\<lparr>sign_and_used_digits := cast_int16 (if neg then - int n else int n), exponent := cast_uint16 e,
      digits := blit 0 out (digits b)\<rparr>"
  shows "bigint_inv r" and "bval r = (if neg then -1 else 1) * int (dval out * 2 ^ (32 * e))"
proof -
  have n: "n \<le> length out" by (simp add: n_def)
  have split: "out = butlast out @ [last out]" using out(1) by simp
  have tk: "take n out = (if last out = 0 then butlast out else out)"
    by (simp add: n_def butlast_conv_take)
  have v: "dval (take n out) = dval out"
  proof (cases "last out = 0")
    case True
    then have "dval out = dval (butlast out)" using dval_append [of "butlast out" "[last out]"] split by simp
    then show ?thesis using True by (simp add: tk)
  qed (simp add: tk)
  have t: "out ! (n - 1) \<noteq> 0" if "n \<noteq> 0"
  proof -
    have "last (take n out) = out ! (n - 1)" using that n by (simp add: last_take_nth)
    moreover have "last (take n out) \<noteq> 0"
    proof (cases "last out = 0")
      case True
      then have "butlast out \<noteq> []" using that tk n by auto
      then show ?thesis using top True by (simp add: tk)
    qed (simp add: tk)
    ultimately show ?thesis by simp
  qed
  have z: "n = 0 \<Longrightarrow> e = 0"
  proof -
    assume "n = 0"
    then have "last out = 0" "butlast out = []"
      using out(1) by (simp_all add: n_def split: split_of_bool_asm) (cases out; simp)+
    then show "e = 0" using top by simp
  qed
  have n15: "n < 2 ^ 15" using sz by (simp add: n_def)
  note R = set_result [where neg = neg, OF out(2) n n15 e t z al, folded r_def]
  show "bigint_inv r" and "bval r = (if neg then -1 else 1) * int (dval out * 2 ^ (32 * e))"
    using R v by simp_all
qed

lemma shr_digits:
  fixes d0 :: u32
  assumes k: "0 < k" "k < 32" and ds: "last (d0 # ds) \<noteq> 0"
  defines "dest \<equiv> shr_loop k (drop_bit k d0) ds" and "rb \<equiv> push_bit (32 - k) d0"
  shows "length dest = Suc (length ds)" and "dval dest = dval (d0 # ds) div 2 ^ k"
    and "unat rb + 2 ^ 32 * dval dest = dval (d0 # ds) * 2 ^ (32 - k)"
    and "last dest = 0 \<Longrightarrow> butlast dest \<noteq> [] \<Longrightarrow> last (butlast dest) \<noteq> 0"
    and "last dest = 0 \<Longrightarrow> ds = [] \<Longrightarrow> rb \<noteq> 0"
proof -
  have k32: "(2 :: nat) ^ 32 = 2 ^ (32 - k) * 2 ^ k" using k(2) by (simp flip: power_add)
  have ub: "unat (drop_bit k d0) = unat d0 div 2 ^ k" by (rule unat_drop_bit)
  have d0b: "unat d0 < 2 ^ (32 - k) * 2 ^ k" using unat_u32_bound [of d0] unfolding k32 .
  then have "unat (drop_bit k d0) < 2 ^ (32 - k)" unfolding ub by (rule less_mult_imp_div_less)
  note L = shr_loop_val [OF k this, of ds, folded dest_def]
  show len: "length dest = Suc (length ds)" using L by simp
  have e: "dval (d0 # ds) = unat d0 + dval ds * 2 ^ (32 - k) * 2 ^ k"
    using k32 by (simp add: mult.assoc) 
  have v: "dval dest = unat d0 div 2 ^ k + dval ds * 2 ^ (32 - k)" using L ub by simp
  then show v': "dval dest = dval (d0 # ds) div 2 ^ k" unfolding e by simp
  have "unat rb = unat d0 * 2 ^ (32 - k) mod (2 ^ (32 - k) * 2 ^ k)"
    unfolding rb_def unat_push_bit_mod using k32 by simp
  then have rb: "unat rb = 2 ^ (32 - k) * (unat d0 mod 2 ^ k)" by (simp add: mult.commute mult_mod_right)
  have "unat d0 * 2 ^ (32 - k) = 2 ^ (32 - k) * (unat d0 mod 2 ^ k) + 2 ^ (32 - k) * 2 ^ k * (unat d0 div 2 ^ k)"
  proof -
    define q m where qm: "q = unat d0 div 2 ^ k" "m = unat d0 mod 2 ^ k"
    have "unat d0 = m + 2 ^ k * q" unfolding qm by simp
    then show ?thesis unfolding qm [symmetric] by (simp add: algebra_simps)
  qed
  then show "unat rb + 2 ^ 32 * dval dest = dval (d0 # ds) * 2 ^ (32 - k)"
    unfolding rb v e k32 by (simp add: algebra_simps)
  show "rb \<noteq> 0" if z: "last dest = 0" and n: "ds = []"
  proof
    assume "rb = 0"
    then have "unat d0 mod 2 ^ k = 0" using rb by simp
    moreover have "drop_bit k d0 = 0" using L z n by simp
    then have "unat d0 div 2 ^ k = 0" using ub by simp
    ultimately have "unat d0 = 0" using mod_mult_div_eq [of "unat d0" "2 ^ k"] by simp
    then show False using ds n by (simp add: unat_eq_0)
  qed
  show "last (butlast dest) \<noteq> 0" if z: "last dest = 0" and b: "butlast dest \<noteq> []"
  proof -
    have dne: "dest \<noteq> []" using b by auto
    then have "dest = butlast dest @ [last dest]" by simp
    then have bv: "dval (butlast dest) = dval dest" using dval_append [of "butlast dest" "[last dest]"] z by simp
    have lb: "length (butlast dest) = length ds" by (simp add: len)
    then have dl: "0 < length ds" by (metis b lb length_greater_0_conv)
    have "2 ^ (32 * (length ds - 1)) * 2 ^ 32 = (2 :: nat) ^ (32 * length ds)"
      using dl by (cases "length ds") (simp_all add: power_add)
    moreover have "2 ^ (32 * length ds) \<le> dval (d0 # ds)" using dval_top [OF _ ds] by simp
    moreover have "2 ^ (32 * (length ds - 1)) * 2 ^ k \<le> 2 ^ (32 * (length ds - 1)) * (2 :: nat) ^ 32"
      using k(2) by (intro mult_left_mono power_increasing) simp_all
    ultimately have "2 ^ (32 * (length ds - 1)) * 2 ^ k \<le> dval (d0 # ds)" by linarith
    then have "2 ^ (32 * (length ds - 1)) \<le> dval (d0 # ds) div 2 ^ k"
      by (simp add: less_eq_div_iff_mult_less_eq)
    then have "2 ^ (32 * (length (butlast dest) - 1)) \<le> dval (butlast dest)"
      unfolding lb bv v' .
    then show ?thesis by (rule last_nonzero_dval [OF _ b])
  qed
qed


text \<open>
  A right shift truncates the magnitude; it is undefined only when the object is moved.
\<close>

lemma shiftright_bigint_delivers:
  assumes inv: "bigint_inv big"
  shows "case shiftright_bigint mm big shift_count of
      None \<Rightarrow> allocated_digits big = nrdigits_bigint big \<and> unat shift_count div 32 < exponent big \<and>
        mm_moves mm (objectsize_bigint (max 4 (nrdigits_bigint big + 1)))
    | Some r \<Rightarrow> delivers big r (sgn (bval big) * (\<bar>bval big\<bar> div 2 ^ unat shift_count))"
proof -
  define k c where kc: "k = unat shift_count mod 32" "c = unat shift_count div 32"
  let ?n = "nrdigits_bigint big" and ?e = "exponent big" and ?neg = "sign_and_used_digits big < 0"
  let ?U = "used_digits big"
  have sh: "unat shift_count = 32 * c + k" by (simp add: kc)
  note sdef = shiftright_bigint_def [of mm big shift_count, folded kc] exponent_bigint_def
  have i: "?n \<le> length (digits big)" "?n < 2 ^ 15" "?e < 2 ^ 16"
    and al: "allocated_digits big < 2 ^ 15" "allocated_digits big \<noteq> 0 \<Longrightarrow> length (digits big) = allocated_digits big"
    using inv by (simp_all add: bigint_inv_def)
  have l: "length ?U = ?n" by (rule length_used [OF inv])
  define T where "T = bmag big div 2 ^ unat shift_count"
  have tv: "sgn (bval big) * (\<bar>bval big\<bar> div 2 ^ unat shift_count) = (if ?neg then -1 else 1) * int T"
  proof (cases "bmag big = 0")
    case True
    then have "bval big = 0" using abs_bval [of big] by simp
    then show ?thesis using True by (simp add: T_def)
  next
    case False
    then have "sgn (bval big) = (if ?neg then -1 else 1)"
      using bval_sign [OF inv] by (simp add: isnegative_bigint_def)
    then show ?thesis unfolding abs_bval T_def by (simp add: zdiv_int)
  qed
  define s where "s = c - ?e"
  define ne where "ne = ?e - c"
  show ?thesis
  proof (cases "\<not> c < ?e \<and> ?n \<le> s")
    case True
    have "dval ?U < 2 ^ (32 * ?n)" using dval_bound [of ?U] l by simp
    also have "\<dots> \<le> 2 ^ (32 * s)" using True by (intro power_increasing) simp_all
    finally have "dval ?U * 2 ^ (32 * ?e) < 2 ^ (32 * s) * 2 ^ (32 * ?e)" by simp
    also have "\<dots> = 2 ^ (32 * c)"
    proof -
      have "?e \<le> c" using True by simp
      then have "32 * s + 32 * ?e = 32 * c" unfolding s_def by linarith
      then show ?thesis by (simp only: power_add [symmetric])
    qed
    also have "\<dots> \<le> 2 ^ unat shift_count" unfolding sh by (intro power_increasing) simp_all
    finally have "T = 0" by (simp add: T_def bmag_def)
    then have v0: "sgn (bval big) * (\<bar>bval big\<bar> div 2 ^ unat shift_count) = 0" using tv by simp
    have eq: "shiftright_bigint mm big shift_count = Some (Inr (), big\<lparr>sign_and_used_digits := 0, exponent := 0\<rparr>)"
      using True by (simp add: sdef s_def)
    show ?thesis unfolding eq option.case v0 using set_zero [OF inv] by simp
  next
    case nz: False
    define ds where "ds = drop s ?U"
    have n0: "?n \<noteq> 0"
    proof
      assume "?n = 0"
      then have "?e = 0" using inv nrdigits_0_iff [of big] by (simp add: bigint_inv_def)
      then show False using nz \<open>?n = 0\<close> by simp
    qed
    then have nz': "sign_and_used_digits big \<noteq> 0" using nrdigits_0_iff [of big] by simp
    have sl: "s < ?n" using nz n0 by (cases "c < ?e") (simp_all add: s_def)
    have ds: "ds \<noteq> []" "last ds \<noteq> 0" "length ds = ?n - s"
      using sl l last_used(2) [OF inv nz'] by (simp_all add: ds_def)
    have Tds: "T = dval ds * 2 ^ (32 * ne) div 2 ^ k"
    proof (cases "c < ?e")
      case True
      then have "(2 :: nat) ^ (32 * ?e) = 2 ^ (32 * ne) * 2 ^ (32 * c)"
        by (simp add: ne_def flip: power_add distrib_left)
      then show ?thesis using True
        by (simp add: T_def bmag_def sh power_add div_mult2_eq ds_def s_def mult.assoc [symmetric])
    next
      case False
      have "32 * c = 32 * s + 32 * ?e" using False by (simp add: s_def)
      then have "(2 :: nat) ^ (32 * c) = 2 ^ (32 * s) * 2 ^ (32 * ?e)" by (simp only: power_add)
      then have "T = dval ?U * 2 ^ (32 * ?e) div (2 ^ (32 * ?e) * 2 ^ (32 * s)) div 2 ^ k"
        by (simp only: T_def bmag_def sh power_add div_mult2_eq mult.commute [of "2 ^ (32 * s)"])
      also have "dval ?U * 2 ^ (32 * ?e) div (2 ^ (32 * ?e) * 2 ^ (32 * s)) = dval ?U div 2 ^ (32 * s)"
        by (simp only: div_mult2_eq) simp
      also have "\<dots> = dval ds"
      proof -
        have "dval ?U = dval (take s ?U) + 2 ^ (32 * s) * dval ds"
          unfolding ds_def by (rule dval_take_drop) (use sl l in simp)
        moreover have "dval (take s ?U) < 2 ^ (32 * s)" using dval_bound [of "take s ?U"] sl l by simp
        ultimately show ?thesis by simp
      qed
      finally show ?thesis using False by (simp add: ne_def)
    qed
    obtain d0 rest where dc: "ds = d0 # rest" using ds(1) by (cases ds) auto
    have dU: "ds = drop s (take ?n (digits big))" by (simp add: ds_def used_digits_def)
    have d0: "digits big ! s = d0"
    proof -
      have "hd ds = digits big ! s" unfolding dU using sl i(1) by (subst hd_drop_conv_nth) simp_all
      then show ?thesis by (simp add: dc)
    qed
    have rest: "drop (s + 1) (take ?n (digits big)) = rest"
    proof -
      have "drop (s + 1) (take ?n (digits big)) = tl ds" unfolding dU by (simp add: tl_drop drop_Suc)
      then show ?thesis by (simp add: dc)
    qed
    have nei: "ne < 2 ^ 16" using i(3) by (simp add: ne_def)
    have sne: "ne \<noteq> 0 \<Longrightarrow> s = 0" by (simp add: ne_def s_def)
    have step: "(if c < ?e then (0, ?e - c) else (c - ?e, 0)) = (s, ne)" by (simp add: s_def ne_def)
    note unf = sdef Let_def step prod.case if_not_P [OF nz]
    show ?thesis
    proof (cases "k = 0")
      case True
      have bl: "blit 0 (if s \<noteq> 0 then take (?n - s) (drop s (digits big)) else []) (digits big) = blit 0 ds (digits big)"
      proof (cases "s = 0")
        case True
        then have "ds = take ?n (digits big)" using dU by simp
        then show ?thesis using True i(1) by (simp add: blit_def min_absorb2)
      next
        case False
        then show ?thesis unfolding dU by (simp add: drop_take)
      qed
      have eq: "shiftright_bigint mm big shift_count = Some (Inr (), big\<lparr>
          sign_and_used_digits := cast_int16 (if ?neg then - int (?n - s) else int (?n - s)),
          exponent := cast_uint16 ne, digits := blit 0 ds (digits big)\<rparr>)"
        unfolding unf using True bl by simp
      have p: "length ds \<le> length (digits big)" "?n - s \<le> length ds" "?n - s < 2 ^ 15" using ds(3) i by simp_all
      have tp: "ds ! (?n - s - 1) \<noteq> 0" using ds by (simp add: last_conv_nth)
      have z: "?n - s = 0 \<Longrightarrow> ne = 0" using sl by simp
      note R = set_result [where neg = ?neg, OF p nei tp z al]
      have "dval (take (?n - s) ds) * 2 ^ (32 * ne) = T" using Tds True ds(3) by simp
      then show ?thesis unfolding eq option.case tv using R by simp
    next
      case k0: False
      have k: "0 < k" "k < 32" using k0 by (simp_all add: kc)
      define rb where "rb = push_bit (32 - k) d0"
      define dest where "dest = shr_loop k (drop_bit k d0) rest"
      note D = shr_digits [OF k ds(2) [unfolded dc], folded dest_def rb_def, folded dc]
      have ld: "length dest = ?n - s" using D(1) ds(3) by (simp add: dc)
      have dne: "dest \<noteq> []" using ld sl by auto
      have rb0: "ne \<noteq> 0 \<Longrightarrow> push_bit (32 - k) (digits big ! 0) = rb" using sne d0 by (simp add: rb_def)
      note unf = unf d0 rest dest_def [symmetric]
      show ?thesis
      proof (cases "ne \<noteq> 0 \<and> rb \<noteq> 0")
        case False
        then have rbz: "ne \<noteq> 0 \<Longrightarrow> rb = 0" by simp
        have eq: "shiftright_bigint mm big shift_count = Some (Inr (), big\<lparr>
          sign_and_used_digits := cast_int16 (if ?neg then - int (length dest - of_bool (0 = last dest))
            else int (length dest - of_bool (0 = last dest))),
          exponent := cast_uint16 ne, digits := blit 0 dest (digits big)\<rparr>)"
          unfolding unf using k0 False rb0 ld by (cases "ne = 0") simp_all
        have p: "length dest \<le> length (digits big)" "length dest - of_bool (0 = last dest) < 2 ^ 15"
          using ld i by simp_all
        have tp: "last dest = 0 \<longrightarrow> (butlast dest \<noteq> [] \<longrightarrow> last (butlast dest) \<noteq> 0) \<and> (butlast dest = [] \<longrightarrow> ne = 0)"
        proof (intro impI conjI)
          assume z: "last dest = 0"
          show "last (butlast dest) \<noteq> 0" if "butlast dest \<noteq> []" using D(4) z that by blast
          assume "butlast dest = []"
          then have "length (butlast dest) = 0" by simp
          then have "rest = []" using D(1) by simp
          then have "rb \<noteq> 0" using D(5) z by blast
          then show "ne = 0" using rbz by blast
        qed
        note R = shr_store [where neg = ?neg, OF dne p nei tp al]
        have "dval dest * 2 ^ (32 * ne) = T"
        proof (cases "ne = 0")
          case False
          then have "2 ^ 32 * dval dest = dval ds * 2 ^ (32 - k)" using D(3) rbz by simp
          moreover have "(2 :: nat) ^ 32 = 2 ^ k * 2 ^ (32 - k)" using k by (simp flip: power_add)
          ultimately have "2 ^ (32 - k) * (2 ^ k * dval dest) = 2 ^ (32 - k) * dval ds"
            by (metis mult.assoc mult.commute)
          then have "2 ^ k * dval dest = dval ds" by simp
          then have "dval ds * 2 ^ (32 * ne) = 2 ^ k * (dval dest * 2 ^ (32 * ne))" by simp
          then show ?thesis unfolding Tds by simp
        qed (simp add: Tds D(2))
        then show ?thesis unfolding eq option.case tv using R by simp
      next
        case pres: True
        then have s0: "s = 0" using sne by blast
        have c1: "c < ?e" using pres by (simp add: ne_def)
        have rbp: "push_bit (32 - k) (digits big ! 0) = rb" using rb0 pres by blast
        define moved where "moved \<longleftrightarrow> allocated_digits big < ?n + 1 \<and>
          mm_moves mm (objectsize_bigint (if ?n + 1 < 4 then 4 else ?n + 1))"
        show ?thesis
        proof (rule reserve_bigint_cases [OF inv, of mm "?n + 1"], goal_cases)
          case (1 err)
          then show ?case unfolding unf rbp using k0 pres s0 by simp
        next
          case (2 b)
          show ?case
          proof (cases moved)
            case True
            then have m: "(allocated_digits big < ?n - s + 1 \<and>
              mm_moves mm (objectsize_bigint (if ?n - s + 1 < 4 then 4 else ?n - s + 1))) = True"
              unfolding moved_def s0 diff_zero by (rule eqTrueI)
            have "shiftright_bigint mm big shift_count = None"
              unfolding unf rbp m if_True using k0 pres s0 2(1) by simp
            moreover have "allocated_digits big \<noteq> 0"
              using 2(1) True by (auto simp: reserve_bigint_def allocate_bigint_def Let_def moved_def split: if_splits)
            then have "allocated_digits big = ?n" using al(2) i(1) True by (simp add: moved_def)
            moreover have "mm_moves mm (objectsize_bigint (max 4 (?n + 1)))"
            proof -
              have "(if ?n + 1 < 4 then 4 else ?n + 1) = max 4 (?n + 1)" by simp
              then show ?thesis using True unfolding moved_def by metis
            qed
            ultimately show ?thesis using c1 unfolding kc by simp
          next
            case False
            then have m: "(allocated_digits big < ?n - s + 1 \<and>
              mm_moves mm (objectsize_bigint (if ?n - s + 1 < 4 then 4 else ?n - s + 1))) = False"
              unfolding moved_def s0 diff_zero by (simp only: eq_False not_False_eq_True)
            have "take ?n (digits b) = take ?n (digits big)" by (rule 2(6) [OF i(1)]) simp
            then have dr: "drop (s + 1) (take ?n (digits b)) = rest" using rest by simp
            then have dr: "shr_loop k (drop_bit k d0) (drop (Suc 0) (take ?n (digits b))) = dest"
              using s0 by (simp add: dest_def)
            let ?out = "rb # dest"
            have eq: "shiftright_bigint mm big shift_count = Some (Inr (), b\<lparr>
              sign_and_used_digits := cast_int16 (if ?neg then - int (length ?out - of_bool (0 = last ?out))
                else int (length ?out - of_bool (0 = last ?out))),
              exponent := cast_uint16 (ne - 1), digits := blit 0 ?out (digits b)\<rparr>)"
              unfolding unf rbp m if_False using k0 pres s0 2(1) dne ld by (simp add: dr)
            have p: "length ?out \<le> length (digits b)" "length ?out - of_bool (0 = last ?out) < 2 ^ 15"
              using ld s0 2(2,4) by simp_all
            have e1: "ne - 1 < 2 ^ 16" using nei by simp
            have tp: "last ?out = 0 \<longrightarrow> (butlast ?out \<noteq> [] \<longrightarrow> last (butlast ?out) \<noteq> 0) \<and> (butlast ?out = [] \<longrightarrow> ne - 1 = 0)"
              using D(4) pres dne by auto
            note R = shr_store [where neg = ?neg and out = ?out, OF _ p e1 tp 2(3,5)]
            have kpos: "0 < (2 :: nat) ^ k" by simp
            have "dval ?out = dval ds * 2 ^ (32 - k)" using D(3) by simp
            moreover have X: "dval ds * 2 ^ (32 * ne) = dval ds * 2 ^ (32 - k) * 2 ^ (32 * (ne - 1)) * 2 ^ k"
            proof -
              have "32 * ne = (32 - k) + 32 * (ne - 1) + k" using pres k by (cases ne) simp_all
              then show ?thesis by (simp only: power_add mult.assoc)
            qed
            ultimately have "dval ?out * 2 ^ (32 * (ne - 1)) = T" unfolding Tds X by (simp only: div_mult_self_is_m [OF kpos])
            then show ?thesis unfolding eq option.case tv using R by simp
          qed
        qed
      qed
    qed
  qed
qed

section \<open>Properties\<close>

text \<open>C23: \<open>shiftleft_bigint\<close> multiplies by a power of two or reports an error and changes nothing.\<close>

theorem shiftleft_bigint_multiplies:
  assumes "bigint_inv big"
  shows "delivers big (shiftleft_bigint mm big shift_count) (bval big * 2 ^ unat shift_count)"
  by (rule shiftleft_bigint_delivers [OF assms])

lemma shiftleft_bigint_multiplies_witness:
  "delivers \<lparr>allocated_digits = 4, sign_and_used_digits = -1, exponent = 2, digits = [0x80000001, 7, 7, 7]\<rparr>
     (shiftleft_bigint \<lparr>mm_refuses = \<lambda>_. None, mm_moves = \<lambda>_. True, mm_fill = \<lambda>_. 3\<rparr>
       \<lparr>allocated_digits = 4, sign_and_used_digits = -1, exponent = 2, digits = [0x80000001, 7, 7, 7]\<rparr> 33)
     (- 0x80000001 * 2 ^ 97)"
proof -
  let ?b = "\<lparr>allocated_digits = 4, sign_and_used_digits = -1, exponent = 2, digits = [0x80000001, 7, 7, 7]\<rparr> :: bigint_t"
  have inv: "bigint_inv ?b" by (simp add: bigint_inv_def nrdigits_bigint_def)
  have "bval ?b * 2 ^ unat (33 :: u32) = - 0x80000001 * 2 ^ 97"
    by (simp add: bval_def bmag_def used_digits_def nrdigits_bigint_def)
  with shiftleft_bigint_multiplies [OF inv, where shift_count = 33] show ?thesis by simp
qed

text \<open>C24: Unless it has to enlarge an object that the memory manager then moves,
  \<open>shiftright_bigint\<close> divides the magnitude by a power of two, rounds towards zero and keeps the
  sign, or reports an error and changes nothing.\<close>

theorem shiftright_bigint_truncates:
  assumes "bigint_inv big"
    and "nrdigits_bigint big < allocated_digits big \<or> (\<forall>n. \<not> mm_moves mm n)"
  shows "\<exists>r. shiftright_bigint mm big shift_count = Some r \<and>
    delivers big r (sgn (bval big) * (\<bar>bval big\<bar> div 2 ^ unat shift_count))"
  using shiftright_bigint_delivers [OF assms(1), where mm = mm and shift_count = shift_count] assms(2)
  by (auto split: option.splits)

lemma shiftright_bigint_truncates_witness:
  "\<exists>r. shiftright_bigint \<lparr>mm_refuses = \<lambda>_. None, mm_moves = \<lambda>_. False, mm_fill = \<lambda>_. 3\<rparr>
       \<lparr>allocated_digits = 1, sign_and_used_digits = -1, exponent = 1, digits = [5]\<rparr> 1 = Some r \<and>
    delivers \<lparr>allocated_digits = 1, sign_and_used_digits = -1, exponent = 1, digits = [5]\<rparr> r (- 0x280000000)"
proof -
  let ?b = "\<lparr>allocated_digits = 1, sign_and_used_digits = -1, exponent = 1, digits = [5]\<rparr> :: bigint_t"
  let ?mm = "\<lparr>mm_refuses = \<lambda>_. None, mm_moves = \<lambda>_. False, mm_fill = \<lambda>_. 3\<rparr> :: mm_t"
  have inv: "bigint_inv ?b" by (simp add: bigint_inv_def nrdigits_bigint_def)
  have "bval ?b = - 0x500000000"
    by (simp add: bval_def bmag_def used_digits_def nrdigits_bigint_def)
  then have "sgn (bval ?b) * (\<bar>bval ?b\<bar> div 2 ^ unat (1 :: u32)) = - 0x280000000" by simp
  moreover have "nrdigits_bigint ?b < allocated_digits ?b \<or> (\<forall>n. \<not> mm_moves ?mm n)" by simp
  ultimately show ?thesis using shiftright_bigint_truncates [OF inv, where mm = ?mm and shift_count = 1] by metis
qed

end
