(* ===== verification/Mem_Wbuffer.thy ===== *)
theory Mem_Wbuffer
  imports Prelude
begin

text \<open>
  The write buffer of C-kern/memory/wbuffer.c. A \<open>wbuffer_t\<close> appends bytes to the memory of a
  wrapped object and reaches this object only through the function table \<open>wbuffer_it\<close>. The
  theory holds the three tables of the source (a growing \<open>cstring_t\<close>, a growing
  \<open>memblock_t\<close>, a static buffer), the operations of the client, and the interface as a locale
  that each of the three tables fulfils.
\<close>

section \<open>Memory\<close>

text \<open>
  \<open>size_t\<close> arithmetic, which wraps. The memory manager behind \<open>RESIZE_MM\<close> is a parameter: a
  function from the requested size and the old block to an error or the new block. Its
  documentation (api/memory/mm/mm_impl.h) allows a block larger than requested; the content is
  kept as \<open>realloc\<close> keeps it.
\<close>

type_synonym resize_t = "nat \<Rightarrow> u8 list \<Rightarrow> u8 list cres"

definition keeps_content :: "resize_t \<Rightarrow> bool" where
  "keeps_content resize \<longleftrightarrow> (\<forall>n b b'. resize n b = Inr b' \<longrightarrow>
     n \<le> length b' \<and> length b' < 2 ^ 64 \<and> (\<forall>k \<le> min n (length b). take k b' = take k b))"

lemma keeps_contentD:
  assumes "keeps_content resize" and "resize n b = Inr b'"
  shows "n \<le> length b'" and "length b' < 2 ^ 64"
    and "k \<le> n \<Longrightarrow> k \<le> length b \<Longrightarrow> take k b' = take k b"
  using assms by (simp_all add: keeps_content_def)

section \<open>The object\<close>

text \<open>
  The pointers \<open>next\<close> and \<open>end\<close> as positions in the memory of the wrapped object: \<open>wb_mem\<close> holds
  the bytes from the start of this memory to \<open>end\<close> (its length is the capacity of the
  \<open>cstring_t\<close> or the size of the \<open>memblock_t\<close>), and \<open>next\<close> is the start plus \<open>wb_used\<close>.
\<close>

record wbuffer_t =
  wb_mem :: "u8 list"
  wb_used :: nat

record wbuffer_it =
  it_alloc :: "nat \<Rightarrow> wbuffer_t \<Rightarrow> unit cres \<times> wbuffer_t"
  it_shrink :: "nat \<Rightarrow> wbuffer_t \<Rightarrow> unit cres \<times> wbuffer_t"
  it_size :: "wbuffer_t \<Rightarrow> nat"

definition wb_inv :: "wbuffer_t \<Rightarrow> bool" where
  "wb_inv w \<longleftrightarrow> wb_used w \<le> length (wb_mem w) \<and> length (wb_mem w) < 2 ^ 64"

text \<open>The appended bytes, the abstract value of the buffer.\<close>

definition appended :: "wbuffer_t \<Rightarrow> u8 list" where
  "appended w = take (wb_used w) (wb_mem w)"

section \<open>The tables\<close>

definition allocate_cstring :: "resize_t \<Rightarrow> u8 list \<Rightarrow> nat \<Rightarrow> u8 list cres" where
  "allocate_cstring resize chars capacity =
     (if capacity > length chars then
        let new_size = wrap_size (2 * length chars);
            new_size = (if new_size < capacity then capacity else new_size)
        in case resize new_size chars of
             Inl err \<Rightarrow> Inl err
           | Inr strmem \<Rightarrow> Inr (if chars = [] then strmem[0 := 0] else strmem)
      else Inr chars)"

definition alloc_cstring_wbuffer :: "resize_t \<Rightarrow> nat \<Rightarrow> wbuffer_t \<Rightarrow> unit cres \<times> wbuffer_t" where
  "alloc_cstring_wbuffer resize freesize w =
     (let used = wb_used w;
          capacity = wrap_size (used + freesize)
      in if capacity < used then (Inl ENOMEM, w)
         else case allocate_cstring resize (wb_mem w) capacity of
                Inl err \<Rightarrow> (Inl err, w)
              | Inr chars \<Rightarrow> (Inr (), w\<lparr>wb_mem := chars, wb_used := used\<rparr>))"

definition shrink_cstring_wbuffer :: "nat \<Rightarrow> wbuffer_t \<Rightarrow> unit cres \<times> wbuffer_t" where
  "shrink_cstring_wbuffer new_size w =
     (if wb_used w < new_size then (Inl EINVAL, w) else (Inr (), w\<lparr>wb_used := new_size\<rparr>))"

definition size_cstring_wbuffer :: "wbuffer_t \<Rightarrow> nat" where
  "size_cstring_wbuffer w = wb_used w"

definition alloc_memblock_wbuffer :: "resize_t \<Rightarrow> nat \<Rightarrow> wbuffer_t \<Rightarrow> unit cres \<times> wbuffer_t" where
  "alloc_memblock_wbuffer resize freesize w =
     (let used = wb_used w;
          mb_size = length (wb_mem w);
          memsize = (if mb_size \<ge> freesize then wrap_size (2 * mb_size) else wrap_size (mb_size + freesize))
      in if memsize \<le> mb_size then (Inl ENOMEM, w)
         else case resize memsize (wb_mem w) of
                Inl err \<Rightarrow> (Inl err, w)
              | Inr mb \<Rightarrow> (Inr (), w\<lparr>wb_mem := mb, wb_used := used\<rparr>))"

definition shrink_memblock_wbuffer :: "nat \<Rightarrow> wbuffer_t \<Rightarrow> unit cres \<times> wbuffer_t" where
  "shrink_memblock_wbuffer keepsize w =
     (if wb_used w < keepsize then (Inl EINVAL, w) else (Inr (), w\<lparr>wb_used := keepsize\<rparr>))"

definition size_memblock_wbuffer :: "wbuffer_t \<Rightarrow> nat" where
  "size_memblock_wbuffer w = wb_used w"

definition alloc_static_wbuffer :: "nat \<Rightarrow> wbuffer_t \<Rightarrow> unit cres \<times> wbuffer_t" where
  "alloc_static_wbuffer freesize w = (Inl ENOMEM, w)"

definition shrink_static_wbuffer :: "nat \<Rightarrow> wbuffer_t \<Rightarrow> unit cres \<times> wbuffer_t" where
  "shrink_static_wbuffer keepsize w =
     (if wb_used w < keepsize then (Inl EINVAL, w) else (Inr (), w\<lparr>wb_used := keepsize\<rparr>))"

definition size_static_wbuffer :: "wbuffer_t \<Rightarrow> nat" where
  "size_static_wbuffer w = wb_used w"

definition g_wbuffer_cstring :: "resize_t \<Rightarrow> wbuffer_it" where
  "g_wbuffer_cstring resize = \<lparr>it_alloc = alloc_cstring_wbuffer resize,
     it_shrink = shrink_cstring_wbuffer, it_size = size_cstring_wbuffer\<rparr>"

definition g_wbuffer_memblock :: "resize_t \<Rightarrow> wbuffer_it" where
  "g_wbuffer_memblock resize = \<lparr>it_alloc = alloc_memblock_wbuffer resize,
     it_shrink = shrink_memblock_wbuffer, it_size = size_memblock_wbuffer\<rparr>"

definition g_wbuffer_static :: wbuffer_it where
  "g_wbuffer_static = \<lparr>it_alloc = alloc_static_wbuffer,
     it_shrink = shrink_static_wbuffer, it_size = size_static_wbuffer\<rparr>"

section \<open>The operations\<close>

definition sizefree_wbuffer :: "wbuffer_t \<Rightarrow> nat" where
  "sizefree_wbuffer w = length (wb_mem w) - wb_used w"

definition size_wbuffer :: "wbuffer_it \<Rightarrow> wbuffer_t \<Rightarrow> nat" where
  "size_wbuffer it w = it_size it w"

definition shrink_wbuffer :: "wbuffer_it \<Rightarrow> nat \<Rightarrow> wbuffer_t \<Rightarrow> unit cres \<times> wbuffer_t" where
  "shrink_wbuffer it newsize w = it_shrink it newsize w"

definition clear_wbuffer :: "wbuffer_it \<Rightarrow> wbuffer_t \<Rightarrow> wbuffer_t" where
  "clear_wbuffer it w = snd (it_shrink it 0 w)"

definition appendbyte_wbuffer :: "wbuffer_it \<Rightarrow> u8 \<Rightarrow> wbuffer_t \<Rightarrow> unit cres \<times> wbuffer_t" where
  "appendbyte_wbuffer it c w =
     (case (if sizefree_wbuffer w \<noteq> 0 then (Inr (), w) else it_alloc it 1 w) of
        (Inl err, w) \<Rightarrow> (Inl err, w)
      | (Inr _, w) \<Rightarrow> (Inr (), w\<lparr>wb_mem := (wb_mem w)[wb_used w := c], wb_used := wb_used w + 1\<rparr>))"

text \<open>\<open>appendbytes_wbuffer\<close> returns the position of the memory it reserved.\<close>

definition appendbytes_wbuffer :: "wbuffer_it \<Rightarrow> nat \<Rightarrow> wbuffer_t \<Rightarrow> nat cres \<times> wbuffer_t" where
  "appendbytes_wbuffer it buffer_size w =
     (case (if buffer_size \<le> sizefree_wbuffer w then (Inr (), w) else it_alloc it buffer_size w) of
        (Inl err, w) \<Rightarrow> (Inl err, w)
      | (Inr _, w) \<Rightarrow> (Inr (wb_used w), w\<lparr>wb_used := wb_used w + buffer_size\<rparr>))"

definition appendcopy_wbuffer :: "wbuffer_it \<Rightarrow> u8 list \<Rightarrow> wbuffer_t \<Rightarrow> unit cres \<times> wbuffer_t" where
  "appendcopy_wbuffer it buffer w =
     (let buffer_size = length buffer;
          free = sizefree_wbuffer w
      in if free \<ge> buffer_size then
           (Inr (), w\<lparr>wb_mem := blit (wb_used w) buffer (wb_mem w), wb_used := wb_used w + buffer_size\<rparr>)
         else
           let w = (if free \<noteq> 0 then w\<lparr>wb_mem := blit (wb_used w) (take free buffer) (wb_mem w),
                      wb_used := wb_used w + free\<rparr> else w);
               missing = buffer_size - free
           in case it_alloc it missing w of
                (Inl err, w) \<Rightarrow> (Inl err, w\<lparr>wb_used := wb_used w - free\<rparr>)
              | (Inr _, w) \<Rightarrow> (Inr (), w\<lparr>wb_mem := blit (wb_used w) (drop free buffer) (wb_mem w),
                                  wb_used := wb_used w + missing\<rparr>))"

section \<open>The interface\<close>

text \<open>
  What the client relies on: \<open>alloc\<close> provides the free bytes and keeps the appended ones or
  changes nothing, \<open>shrink\<close> and \<open>size\<close> as documented for the table.
\<close>

locale wbuffer_interface =
  fixes it :: wbuffer_it
  assumes alloc_error: "it_alloc it n w = (Inl err, w') \<Longrightarrow> w' = w"
    and alloc_ok: "wb_inv w \<Longrightarrow> n < 2 ^ 64 \<Longrightarrow> it_alloc it n w = (Inr u, w') \<Longrightarrow>
      wb_inv w' \<and> wb_used w' = wb_used w \<and> n \<le> sizefree_wbuffer w' \<and> appended w' = appended w"
    and shrink_spec: "it_shrink it n w =
      (if wb_used w < n then (Inl EINVAL, w) else (Inr (), w\<lparr>wb_used := n\<rparr>))"
    and size_spec: "it_size it w = wb_used w"
begin

text \<open>Reserving bytes: an error changes nothing, success leaves the appended bytes in place.\<close>

lemma appendbytes_cases:
  assumes "wb_inv w" and "n < 2 ^ 64"
  obtains (error) err where "appendbytes_wbuffer it n w = (Inl err, w)"
  | (ok) w' where "appendbytes_wbuffer it n w = (Inr (wb_used w), w'\<lparr>wb_used := wb_used w + n\<rparr>)"
      and "wb_inv w'" and "wb_used w' = wb_used w" and "wb_used w + n \<le> length (wb_mem w')"
      and "take (wb_used w) (wb_mem w') = appended w"
proof (cases "n \<le> sizefree_wbuffer w")
  case True
  then show ?thesis using assms
    by (intro ok [of w]) (auto simp: appendbytes_wbuffer_def sizefree_wbuffer_def wb_inv_def appended_def)
next
  case False
  show ?thesis
  proof (cases "it_alloc it n w")
    case (Pair r w')
    show ?thesis
    proof (cases r)
      case (Inl err)
      then show ?thesis using False Pair alloc_error by (intro error [of err]) (auto simp: appendbytes_wbuffer_def)
    next
      case (Inr u)
      note a = alloc_ok [OF assms Pair [unfolded Inr]]
      from a have "wb_used w + n \<le> length (wb_mem w')"
        by (auto simp: sizefree_wbuffer_def wb_inv_def)
      with a False Pair Inr show ?thesis
        by (intro ok [of w']) (auto simp: appendbytes_wbuffer_def appended_def)
    qed
  qed
qed

lemma appendcopy_spec:
  assumes "wb_inv w" and "length buffer < 2 ^ 64"
  shows "case appendcopy_wbuffer it buffer w of
      (Inl err, w') \<Rightarrow> wb_inv w' \<and> appended w' = appended w
    | (Inr _, w') \<Rightarrow> wb_inv w' \<and> appended w' = appended w @ buffer"
proof -
  let ?free = "sizefree_wbuffer w"
  have i: "wb_used w \<le> length (wb_mem w)" "length (wb_mem w) < 2 ^ 64" using assms(1) by (simp_all add: wb_inv_def)
  show ?thesis
  proof (cases "length buffer \<le> ?free")
    case True
    then have "wb_used w + length buffer \<le> length (wb_mem w)" using i by (simp add: sizefree_wbuffer_def)
    then show ?thesis using True i
      by (simp add: appendcopy_wbuffer_def wb_inv_def appended_def take_blit)
  next
    case False
    define v where "v = (if ?free \<noteq> 0 then w\<lparr>wb_mem := blit (wb_used w) (take ?free buffer) (wb_mem w),
      wb_used := wb_used w + ?free\<rparr> else w)"
    have fu: "wb_used w + ?free = length (wb_mem w)" using i by (simp add: sizefree_wbuffer_def)
    have lt: "length (take ?free buffer) = ?free" using False by simp
    have used: "wb_used v = wb_used w + ?free" by (simp add: v_def)
    have mem: "wb_mem v = blit (wb_used w) (take ?free buffer) (wb_mem w)" by (simp add: v_def)
    have inv: "wb_inv v"
      using fu lt i by (simp add: wb_inv_def used mem del: length_take)
    have app: "appended v = appended w @ take ?free buffer"
      unfolding appended_def used mem using take_blit [OF i(1), of "take ?free buffer"] lt by metis
    have n: "length buffer - ?free < 2 ^ 64" using assms(2) by simp
    have unf: "appendcopy_wbuffer it buffer w = (case it_alloc it (length buffer - ?free) v of
      (Inl err, w) \<Rightarrow> (Inl err, w\<lparr>wb_used := wb_used w - ?free\<rparr>)
    | (Inr _, w) \<Rightarrow> (Inr (), w\<lparr>wb_mem := blit (wb_used w) (drop ?free buffer) (wb_mem w),
        wb_used := wb_used w + (length buffer - ?free)\<rparr>))"
      unfolding appendcopy_wbuffer_def Let_def v_def [symmetric] using False by (simp only: if_False)
    show ?thesis
    proof (cases "it_alloc it (length buffer - ?free) v")
      case (Pair r w')
      show ?thesis
      proof (cases r)
        case (Inl err)
        then have w': "w' = v" using alloc_error Pair by blast
        have "take (wb_used w) (wb_mem v) = appended w"
          unfolding mem blit_def appended_def using i by simp
        then have "appended (v\<lparr>wb_used := wb_used v - ?free\<rparr>) = appended w"
          by (simp add: appended_def used)
        moreover have "wb_inv (v\<lparr>wb_used := wb_used v - ?free\<rparr>)"
          using inv unfolding wb_inv_def by auto
        ultimately show ?thesis unfolding unf Pair w' Inl by simp
      next
        case (Inr u)
        note a = alloc_ok [OF inv n Pair [unfolded Inr]]
        then have fit: "wb_used w' + length (drop ?free buffer) \<le> length (wb_mem w')"
          by (auto simp: sizefree_wbuffer_def wb_inv_def)
        moreover have "take (wb_used w' + length (drop ?free buffer)) (blit (wb_used w') (drop ?free buffer) (wb_mem w'))
          = appended w @ buffer"
        proof -
          have "take (wb_used w') (wb_mem w') = appended w @ take ?free buffer"
            using a app unfolding appended_def by metis
          then show ?thesis using take_blit [of "wb_used w'" "wb_mem w'" "drop ?free buffer"] fit by simp
        qed
        ultimately show ?thesis using a fit unfolding unf Pair Inr
          by (simp add: wb_inv_def appended_def)
      qed
    qed
  qed
qed

lemma appendbyte_spec:
  assumes "wb_inv w"
  shows "case appendbyte_wbuffer it c w of
      (Inl err, w') \<Rightarrow> w' = w
    | (Inr _, w') \<Rightarrow> wb_inv w' \<and> appended w' = appended w @ [c]"
proof -
  have store: "wb_inv (v\<lparr>wb_mem := (wb_mem v)[wb_used v := c], wb_used := wb_used v + 1\<rparr>) \<and>
      appended (v\<lparr>wb_mem := (wb_mem v)[wb_used v := c], wb_used := wb_used v + 1\<rparr>) = appended v @ [c]"
    if "wb_inv v" and "1 \<le> sizefree_wbuffer v" for v
    using that by (simp add: wb_inv_def appended_def sizefree_wbuffer_def take_Suc_conv_app_nth)
  show ?thesis
  proof (cases "sizefree_wbuffer w = 0")
    case False
    then show ?thesis using store [OF assms] by (simp add: appendbyte_wbuffer_def)
  next
    case True
    show ?thesis
    proof (cases "it_alloc it 1 w")
      case (Pair r w')
      then show ?thesis
        using True alloc_error [of 1 w _ w'] alloc_ok [OF assms, of 1 _ w'] store [of w']
        by (cases r) (auto simp: appendbyte_wbuffer_def)
    qed
  qed
qed

lemma shrink_appended:
  "n \<le> wb_used w \<Longrightarrow> wb_inv w \<Longrightarrow>
   fst (shrink_wbuffer it n w) = Inr () \<and> wb_inv (snd (shrink_wbuffer it n w)) \<and>
   appended (snd (shrink_wbuffer it n w)) = take n (appended w)"
  by (auto simp: shrink_wbuffer_def shrink_spec wb_inv_def appended_def min_def)

lemma shrink_refuses: "wb_used w < n \<Longrightarrow> shrink_wbuffer it n w = (Inl EINVAL, w)"
  by (simp add: shrink_wbuffer_def shrink_spec)

lemma clear_appended: "wb_inv w \<Longrightarrow> wb_inv (clear_wbuffer it w) \<and> appended (clear_wbuffer it w) = []"
  by (simp add: clear_wbuffer_def shrink_spec wb_inv_def appended_def)

lemma size_appended: "wb_inv w \<Longrightarrow> size_wbuffer it w = length (appended w)"
  by (simp add: size_wbuffer_def size_spec wb_inv_def appended_def)

end

section \<open>The three tables fulfil the interface\<close>

lemma allocate_cstring_Inr:
  assumes "keeps_content resize" and "length chars < 2 ^ 64" and "allocate_cstring resize chars n = Inr chars'"
  shows "n \<le> length chars'" and "length chars' < 2 ^ 64" and "k \<le> length chars \<Longrightarrow> take k chars' = take k chars"
    and "length chars \<le> length chars'"
proof -
  have *: "n \<le> length chars' \<and> length chars' < 2 ^ 64 \<and> (k \<le> length chars \<longrightarrow> take k chars' = take k chars) \<and>
    length chars \<le> length chars'" for k
  proof (cases "length chars < n")
    case True
    define m where "m = (if wrap_size (2 * length chars) < n then n else wrap_size (2 * length chars))"
    have m: "n \<le> m" "length chars < m" using True by (auto simp: m_def)
    from assms(3) True obtain b where b: "resize m chars = Inr b"
      and c: "chars' = (if chars = [] then b[0 := 0] else b)"
      by (auto simp: allocate_cstring_def Let_def m_def split: sum.splits)
    note K = keeps_contentD [OF assms(1) b]
    from K(1,2) m K(3) [of k] show ?thesis by (auto simp: c)
  next
    case False
    then show ?thesis using assms by (simp add: allocate_cstring_def)
  qed
  from * [of k] show "n \<le> length chars'" "length chars' < 2 ^ 64"
    "k \<le> length chars \<Longrightarrow> take k chars' = take k chars" "length chars \<le> length chars'" by auto
qed

lemma cstring_wbuffer:
  assumes "keeps_content resize"
  shows "wbuffer_interface (g_wbuffer_cstring resize)"
proof
  fix n w err w'
  show "it_alloc (g_wbuffer_cstring resize) n w = (Inl err, w') \<Longrightarrow> w' = w"
    by (auto simp: g_wbuffer_cstring_def alloc_cstring_wbuffer_def Let_def split: if_splits sum.splits)
next
  fix n w u w'
  assume "wb_inv w" and n: "n < 2 ^ 64" and "it_alloc (g_wbuffer_cstring resize) n w = (Inr u, w')"
  moreover from this obtain c where c: "allocate_cstring resize (wb_mem w) (wrap_size (wb_used w + n)) = Inr c"
    and w': "w' = w\<lparr>wb_mem := c\<rparr>" and nw: "\<not> wrap_size (wb_used w + n) < wb_used w"
    by (auto simp: g_wbuffer_cstring_def alloc_cstring_wbuffer_def Let_def split: if_splits sum.splits)
  ultimately have i: "wb_used w \<le> length (wb_mem w)" "length (wb_mem w) < 2 ^ 64" by (simp_all add: wb_inv_def)
  have "wrap_size (wb_used w + n) = wb_used w + n"
  proof (cases "wb_used w + n < 2 ^ 64")
    case False
    then have "(wb_used w + n) mod 2 ^ 64 = wb_used w + n - 2 ^ 64"
      using n i by (subst le_mod_geq) simp_all
    then show ?thesis using nw n False by (simp add: wrap_size_def)
  qed (simp add: wrap_size_def)
  then show "wb_inv w' \<and> wb_used w' = wb_used w \<and> n \<le> sizefree_wbuffer w' \<and> appended w' = appended w"
    using allocate_cstring_Inr(1,2,4) [OF assms i(2) c] allocate_cstring_Inr(3) [OF assms i(2) c, of "wb_used w"] i
    by (auto simp: w' wb_inv_def sizefree_wbuffer_def appended_def)
qed (simp_all add: g_wbuffer_cstring_def shrink_cstring_wbuffer_def size_cstring_wbuffer_def)

lemma memblock_wbuffer:
  assumes "keeps_content resize"
  shows "wbuffer_interface (g_wbuffer_memblock resize)"
proof
  fix n w err w'
  show "it_alloc (g_wbuffer_memblock resize) n w = (Inl err, w') \<Longrightarrow> w' = w"
    by (auto simp: g_wbuffer_memblock_def alloc_memblock_wbuffer_def Let_def split: if_splits sum.splits)
next
  fix n w u w'
  assume "wb_inv w" and n: "n < 2 ^ 64" and a: "it_alloc (g_wbuffer_memblock resize) n w = (Inr u, w')"
  then have i: "wb_used w \<le> length (wb_mem w)" "length (wb_mem w) < 2 ^ 64" by (simp_all add: wb_inv_def)
  let ?s = "length (wb_mem w)"
  let ?d = "if n \<le> ?s then ?s else n"
  define m where "m = wrap_size (?s + ?d)"
  have "it_alloc (g_wbuffer_memblock resize) n w = (if m \<le> ?s then (Inl ENOMEM, w)
      else case resize m (wb_mem w) of Inl err \<Rightarrow> (Inl err, w)
        | Inr mb \<Rightarrow> (Inr (), w\<lparr>wb_mem := mb, wb_used := wb_used w\<rparr>))"
    by (simp add: g_wbuffer_memblock_def alloc_memblock_wbuffer_def Let_def m_def mult_2)
  with a obtain c where c: "resize m (wb_mem w) = Inr c" and w': "w' = w\<lparr>wb_mem := c\<rparr>" and nw: "\<not> m \<le> ?s"
    by (auto split: if_splits sum.splits)
  have "m = ?s + ?d"
  proof (cases "?s + ?d < 2 ^ 64")
    case False
    then have "(?s + ?d) mod 2 ^ 64 = ?s + ?d - 2 ^ 64"
      using n i by (subst le_mod_geq) simp_all
    then show ?thesis using nw n i False by (simp add: m_def wrap_size_def split: if_splits)
  qed (simp add: m_def wrap_size_def)
  then show "wb_inv w' \<and> wb_used w' = wb_used w \<and> n \<le> sizefree_wbuffer w' \<and> appended w' = appended w"
    using keeps_contentD(1,2) [OF assms c] keeps_contentD(3) [OF assms c, of "wb_used w"] i
    by (auto simp: w' wb_inv_def sizefree_wbuffer_def appended_def split: if_splits)
qed (simp_all add: g_wbuffer_memblock_def shrink_memblock_wbuffer_def size_memblock_wbuffer_def)

lemma static_wbuffer: "wbuffer_interface g_wbuffer_static"
  by unfold_locales
    (simp_all add: g_wbuffer_static_def alloc_static_wbuffer_def shrink_static_wbuffer_def size_static_wbuffer_def)

interpretation static: wbuffer_interface g_wbuffer_static
  by (rule static_wbuffer)

text \<open>
  The two growing tables fulfil it for every memory manager that keeps the content of a block;
  one that returns exactly the requested size is an example.
\<close>

locale memory_manager =
  fixes resize :: resize_t
  assumes keeps: "keeps_content resize"

sublocale memory_manager \<subseteq> cstring: wbuffer_interface "g_wbuffer_cstring resize"
  by (rule cstring_wbuffer [OF keeps])

sublocale memory_manager \<subseteq> memblock: wbuffer_interface "g_wbuffer_memblock resize"
  by (rule memblock_wbuffer [OF keeps])

definition exact_resize :: resize_t where
  "exact_resize n b = (if n < 2 ^ 63 then Inr (take n b @ replicate (n - length b) 0) else Inl ENOMEM)"

lemma exact_resize_keeps: "keeps_content exact_resize"
  by (auto simp: keeps_content_def exact_resize_def min_def split: if_splits)

interpretation exact: memory_manager exact_resize
  by unfold_locales (rule exact_resize_keeps)

definition wbuffer_tables :: "resize_t \<Rightarrow> wbuffer_it list" where
  "wbuffer_tables resize = [g_wbuffer_cstring resize, g_wbuffer_memblock resize, g_wbuffer_static]"

lemma tables_fulfil:
  "keeps_content resize \<Longrightarrow> it \<in> set (wbuffer_tables resize) \<Longrightarrow> wbuffer_interface it"
  by (auto simp: wbuffer_tables_def intro: cstring_wbuffer memblock_wbuffer static_wbuffer)

section \<open>Properties\<close>

text \<open>C20: With each table \<open>appendcopy_wbuffer\<close> and \<open>appendbyte_wbuffer\<close> append their bytes to the
  content or report an error and leave the content as it was; the invariant holds after both.\<close>

theorem wbuffer_appends:
  assumes "keeps_content resize" and "it \<in> set (wbuffer_tables resize)" and "wb_inv w"
    and "length buffer < 2 ^ 64"
  shows "(case appendcopy_wbuffer it buffer w of
      (Inl err, w') \<Rightarrow> wb_inv w' \<and> appended w' = appended w
    | (Inr _, w') \<Rightarrow> wb_inv w' \<and> appended w' = appended w @ buffer) \<and>
    (case appendbyte_wbuffer it c w of
      (Inl err, w') \<Rightarrow> w' = w
    | (Inr _, w') \<Rightarrow> wb_inv w' \<and> appended w' = appended w @ [c])"
  by (rule conjI [OF wbuffer_interface.appendcopy_spec [OF tables_fulfil [OF assms(1,2)] assms(3,4)]
        wbuffer_interface.appendbyte_spec [OF tables_fulfil [OF assms(1,2)] assms(3)]])

lemma wbuffer_appends_witness:
  "appended (snd (appendcopy_wbuffer (g_wbuffer_cstring exact_resize) [4, 5, 6] \<lparr>wb_mem = [1, 2, 9], wb_used = 2\<rparr>))
     = [1, 2, 4, 5, 6]"
proof -
  let ?w = "\<lparr>wb_mem = [1, 2, 9], wb_used = 2\<rparr> :: wbuffer_t"
  have "wb_inv ?w" "g_wbuffer_cstring exact_resize \<in> set (wbuffer_tables exact_resize)"
    "length [4, 5, 6 :: u8] < 2 ^ 64" by (simp_all add: wb_inv_def wbuffer_tables_def)
  note P = wbuffer_appends [OF exact_resize_keeps this(2,1,3)]
  have "fst (appendcopy_wbuffer (g_wbuffer_cstring exact_resize) [4, 5, 6] ?w) = Inr ()"
    by (simp add: appendcopy_wbuffer_def sizefree_wbuffer_def g_wbuffer_cstring_def alloc_cstring_wbuffer_def
        allocate_cstring_def wrap_size_def exact_resize_def blit_def)
  with P show ?thesis
    by (cases "appendcopy_wbuffer (g_wbuffer_cstring exact_resize) [4, 5, 6] ?w") (auto simp: appended_def)
qed

end
