(* ===== verification/Str_Base64.thy ===== *)
theory Str_Base64
  imports Mem_Wbuffer
begin

text \<open>
  Base64 of C-kern/string/base64encode.c: encoding and decoding of a string into a write buffer.
  The reference is the encoding of RFC 4648 by digits to the base 64; the code is shown to
  compute it, to decode what it encoded, and to leave the buffer as it was on every error.
\<close>

section \<open>Definitions\<close>

definition s_base64chars :: "u8 list" where
  "s_base64chars = map of_char ''ABCDEFGHIJKLMNOPQRSTUVWXYZabcdefghijklmnopqrstuvwxyz0123456789+/''"

text \<open>The value of a character, \<open>-1\<close> for every other; entry 63 is the one of \<open>?\<close>.\<close>

definition s_base64values :: "int list" where
  "s_base64values = replicate 43 (-1) @ [62] @ replicate 3 (-1) @ [63] @ [52..61] @
     replicate 5 (-1) @ [62] @ [-1] @ [0..25] @ replicate 6 (-1) @ [26..51] @ replicate 133 (-1)"

definition sizebase64encode_string :: "u8 list \<Rightarrow> nat" where
  "sizebase64encode_string str = wrap_size (4 * (wrap_size (2 + length str) div 3))"

definition sizebase64decode_string :: "u8 list \<Rightarrow> nat" where
  "sizebase64decode_string str =
     (let sz = length str div 4
      in if sz \<noteq> 0 then
           let sz = sz * 3
           in if str ! (length str - 1) = 61 then
                (let sz = sz - 1 in if str ! (length str - 2) = 61 then sz - 1 else sz)
              else sz
         else sz)"

text \<open>\<open>char6\<close> is the lookup of the lowest six bits, \<open>bits6\<close> the value of a character as the C
  conversion from \<open>int32_t\<close> to \<open>uint32_t\<close> gives it.\<close>

definition char6 :: "u32 \<Rightarrow> u8" where
  "char6 tripple = s_base64chars ! unat (tripple AND 63)"

definition bits6 :: "u8 \<Rightarrow> u32" where
  "bits6 c = word_of_int (s_base64values ! unat c)"

fun encode_loop :: "nat \<Rightarrow> u8 list \<Rightarrow> u8 list \<times> u8 list" where
  "encode_loop 0 next = ([], next)"
| "encode_loop (Suc cnt) next =
     (let tripple = ucast (next ! 0) :: u32;
          tripple = push_bit 8 tripple;
          tripple = tripple + ucast (next ! 1);
          tripple = push_bit 8 tripple;
          tripple = tripple + ucast (next ! 2);
          dest3 = char6 tripple;
          tripple = drop_bit 6 tripple;
          dest2 = char6 tripple;
          tripple = drop_bit 6 tripple;
          dest1 = char6 tripple;
          tripple = drop_bit 6 tripple;
          dest0 = s_base64chars ! unat tripple;
          (dest, next) = encode_loop cnt (drop 3 next)
      in (dest0 # dest1 # dest2 # dest3 # dest, next))"

definition encode_tail :: "nat \<Rightarrow> u8 list \<Rightarrow> u8 list" where
  "encode_tail mod3 next =
     (if mod3 = 1 then
        let tripple = push_bit 4 (ucast (next ! 0) :: u32);
            dest1 = char6 tripple;
            tripple = drop_bit 6 tripple
        in [s_base64chars ! unat tripple, dest1, 61, 61]
      else if mod3 = 2 then
        let tripple = push_bit 8 (ucast (next ! 0) :: u32);
            tripple = push_bit 2 (tripple + ucast (next ! 1));
            dest2 = char6 tripple;
            tripple = drop_bit 6 tripple;
            dest1 = char6 tripple;
            tripple = drop_bit 6 tripple
        in [s_base64chars ! unat tripple, dest1, dest2, 61]
      else [])"

definition base64encode_string :: "wbuffer_it \<Rightarrow> u8 list \<Rightarrow> wbuffer_t \<Rightarrow> unit cres \<times> wbuffer_t" where
  "base64encode_string it str result =
     (let cnt = length str div 3;
          mod3 = length str mod 3;
          oldsize = size_wbuffer it result;
          quadruples = cnt + of_bool (mod3 \<noteq> 0);
          result_size = wrap_size (4 * quadruples)
      in if result_size \<le> quadruples then (Inl EOVERFLOW, snd (shrink_wbuffer it oldsize result))
         else case appendbytes_wbuffer it result_size result of
                (Inl err, result) \<Rightarrow> (Inl err, snd (shrink_wbuffer it oldsize result))
              | (Inr dest, result) \<Rightarrow>
                  let (bytes, next) = encode_loop cnt str
                  in (Inr (), result\<lparr>wb_mem := blit dest (bytes @ encode_tail mod3 next) (wb_mem result)\<rparr>))"

text \<open>The decoding loops give the bytes they wrote and, without an invalid character, the rest.\<close>

fun decode_loop :: "nat \<Rightarrow> u8 list \<Rightarrow> u8 list \<times> u8 list option" where
  "decode_loop 0 next = ([], Some next)"
| "decode_loop (Suc cnt) next =
     (let quadr = bits6 (next ! 0);
          quadr = push_bit 6 quadr OR bits6 (next ! 1);
          quadr = push_bit 6 quadr OR bits6 (next ! 2);
          quadr = push_bit 6 quadr OR bits6 (next ! 3)
      in if 0 \<noteq> quadr AND 0x80000000 then ([], None)
         else let dest2 = ucast quadr;
                  quadr = drop_bit 8 quadr;
                  dest1 = ucast quadr;
                  quadr = drop_bit 8 quadr;
                  dest0 = ucast quadr;
                  (dest, next) = decode_loop cnt (drop 4 next)
              in (dest0 # dest1 # dest2 # dest, next))"

definition decode_tail :: "nat \<Rightarrow> u8 list \<Rightarrow> u8 list option" where
  "decode_tail mod3 next =
     (if mod3 = 1 then
        let quadr = bits6 (next ! 0);
            quadr = push_bit 6 quadr OR bits6 (next ! 1);
            quadr = push_bit 6 quadr OR bits6 (next ! 2)
        in if 0 \<noteq> quadr AND 0x80000000 then None
           else let quadr = drop_bit 2 quadr;
                    dest1 = ucast quadr;
                    quadr = drop_bit 8 quadr
                in Some [ucast quadr, dest1]
      else if mod3 = 2 then
        let quadr = bits6 (next ! 0);
            quadr = push_bit 6 quadr OR bits6 (next ! 1)
        in if 0 \<noteq> quadr AND 0x80000000 then None
           else let quadr = drop_bit 4 quadr in Some [ucast quadr]
      else Some [])"

definition base64decode_string :: "wbuffer_it \<Rightarrow> u8 list \<Rightarrow> wbuffer_t \<Rightarrow> unit cres \<times> wbuffer_t" where
  "base64decode_string it str result =
     (let cnt = length str div 4;
          oldsize = size_wbuffer it result
      in if length str mod 4 \<noteq> 0 then (Inl EINVAL, snd (shrink_wbuffer it oldsize result))
         else if cnt = 0 then (Inr (), result)
         else
           let mod3 = of_bool (str ! (length str - 1) = 61) + of_bool (str ! (length str - 2) = 61);
               result_size = wrap_size (3 * cnt - mod3)
           in case appendbytes_wbuffer it result_size result of
                (Inl err, result) \<Rightarrow> (Inl err, snd (shrink_wbuffer it oldsize result))
              | (Inr dest, result) \<Rightarrow>
                  (case decode_loop (cnt - of_bool (mod3 \<noteq> 0)) str of
                     (bytes, None) \<Rightarrow> (Inl EINVAL,
                       snd (shrink_wbuffer it oldsize (result\<lparr>wb_mem := blit dest bytes (wb_mem result)\<rparr>)))
                   | (bytes, Some next) \<Rightarrow>
                       (case decode_tail mod3 next of
                          None \<Rightarrow> (Inl EINVAL,
                            snd (shrink_wbuffer it oldsize (result\<lparr>wb_mem := blit dest bytes (wb_mem result)\<rparr>)))
                        | Some bytes_tail \<Rightarrow> (Inr (), result\<lparr>wb_mem := blit dest (bytes @ bytes_tail) (wb_mem result)\<rparr>))))"

section \<open>The reference\<close>

text \<open>RFC 4648: three bytes are the digits of a number to the base 256, the four characters its
  digits to the base 64; a shorter end is filled with zero bits and padded with \<open>=\<close>.\<close>

definition digit64 :: "nat \<Rightarrow> u8" where
  "digit64 n = s_base64chars ! (n mod 64)"

fun base64 :: "u8 list \<Rightarrow> u8 list" where
  "base64 [] = []"
| "base64 [a] = (let n = unat a * 2 ^ 4 in [digit64 (n div 64), digit64 n, 61, 61])"
| "base64 [a, b] = (let n = (unat a * 2 ^ 8 + unat b) * 2 ^ 2
     in [digit64 (n div 64 div 64), digit64 (n div 64), digit64 n, 61])"
| "base64 (a # b # c # bs) = (let n = unat a * 2 ^ 16 + unat b * 2 ^ 8 + unat c
     in [digit64 (n div 64 div 64 div 64), digit64 (n div 64 div 64), digit64 (n div 64), digit64 n] @ base64 bs)"


lemma digit64_mod: "digit64 (n mod 64) = digit64 n"
  by (simp add: digit64_def)

section \<open>Encoding\<close>

text \<open>The lookups of the code are digits of the number in its register.\<close>

lemma char6_digit64: "char6 w = digit64 (unat w)"
proof -
  have "w AND 63 = take_bit 6 w" by (simp add: take_bit_eq_mask mask_eq_exp_minus_1)
  then have "unat (w AND 63) = unat w mod 64" by (simp add: take_bit_eq_mod unat_mod)
  then show ?thesis by (simp add: char6_def digit64_def)
qed

lemma top_digit64: "n < 64 \<Longrightarrow> s_base64chars ! n = digit64 n"
  by (simp add: digit64_def)

lemma unat_triple:
  fixes a b c :: u8
  shows "unat (push_bit 8 (push_bit 8 (ucast a) + ucast b) + ucast c :: u32) = unat a * 2 ^ 16 + unat b * 2 ^ 8 + unat c"
proof -
  have u: "unat (ucast x :: u32) = unat x" for x :: u8 by (rule unat_ucast_up) simp
  have *: "unat a < 256" "unat b < 256" "unat c < 256" by (rule unat_u8_bound)+
  have "unat (push_bit 8 (ucast a) :: u32) = unat a * 2 ^ 8"
    using * by (subst unat_push_bit_no_wrap) (simp_all add: u)
  then have 1: "unat (push_bit 8 (ucast a) + ucast b :: u32) = unat a * 2 ^ 8 + unat b"
    using * by (subst unat_add_no_wrap) (simp_all add: u)
  then have "unat (push_bit 8 (push_bit 8 (ucast a) + ucast b) :: u32) = (unat a * 2 ^ 8 + unat b) * 2 ^ 8"
    using * by (subst unat_push_bit_no_wrap) simp_all
  then have 2: "unat (push_bit 8 (push_bit 8 (ucast a) + ucast b) :: u32) = unat a * 2 ^ 16 + unat b * 2 ^ 8"
    by simp
  show ?thesis by (rule unat_add_eq [OF 2 u]) (use * in simp)
qed

lemma encode_loop_base64:
  "base64 str = fst (encode_loop (length str div 3) str) @
     encode_tail (length str mod 3) (snd (encode_loop (length str div 3) str))"
proof (induction str rule: base64.induct)
  case 1
  then show ?case by (simp add: encode_tail_def)
next
  case (2 a)
  have u: "unat (ucast a :: u32) = unat a" by (rule unat_ucast_up) simp
  have "unat (push_bit 4 (ucast a) :: u32) = unat a * 2 ^ 4"
    using unat_u8_bound [of a] by (subst unat_push_bit_no_wrap) (simp_all add: u)
  then show ?case using unat_u8_bound [of a]
    by (simp add: encode_tail_def Let_def char6_digit64 top_digit64 unat_drop_bit)
next
  case (3 a b)
  have u: "unat (ucast x :: u32) = unat x" for x :: u8 by (rule unat_ucast_up) simp
  have *: "unat a < 256" "unat b < 256" by (rule unat_u8_bound)+
  have "unat (push_bit 8 (ucast a) :: u32) = unat a * 2 ^ 8"
    using * by (subst unat_push_bit_no_wrap) (simp_all add: u)
  then have "unat (push_bit 8 (ucast a) + ucast b :: u32) = unat a * 2 ^ 8 + unat b"
    using * by (subst unat_add_no_wrap) (simp_all add: u)
  then have "unat (push_bit 2 (push_bit 8 (ucast a) + ucast b) :: u32) = (unat a * 2 ^ 8 + unat b) * 2 ^ 2"
    using * by (subst unat_push_bit_no_wrap) simp_all
  then show ?case using *
    by (simp add: encode_tail_def Let_def char6_digit64 top_digit64 unat_drop_bit)
next
  case (4 a b c bs)
  have *: "unat a < 256" "unat b < 256" "unat c < 256" by (rule unat_u8_bound)+
  have l: "length (a # b # c # bs) div 3 = Suc (length bs div 3)" "length (a # b # c # bs) mod 3 = length bs mod 3"
    by simp_all
  show ?case unfolding l using 4 *
    by (simp add: Let_def char6_digit64 top_digit64 unat_drop_bit unat_triple split_beta)
qed


section \<open>Decoding\<close>

text \<open>The two tables are inverse on digits, and no digit is a padding character.\<close>

lemma bits6_digit64: "bits6 (digit64 n) = of_nat (n mod 64)"
proof -
  have "\<forall>i \<in> set [0..<64]. s_base64values ! unat (s_base64chars ! i) = int i"
    by code_simp
  then have "s_base64values ! unat (digit64 n) = int (n mod 64)" by (simp add: digit64_def)
  then show ?thesis by (simp add: bits6_def)
qed

lemma digit64_not_pad: "digit64 n \<noteq> 61"
proof -
  have "\<forall>i \<in> set [0..<64]. s_base64chars ! i \<noteq> 61" by code_simp
  then show ?thesis by (simp add: digit64_def)
qed

lemma join6:
  fixes w :: u32
  assumes "unat w < 2 ^ 26"
  shows "unat (push_bit 6 w OR of_nat (n mod 64)) = unat w * 64 + n mod 64"
proof -
  have p: "unat (push_bit 6 w) = unat w * 2 ^ 6" using assms by (subst unat_push_bit_no_wrap) simp_all
  have q: "unat (of_nat (n mod 64) :: u32) = n mod 64"
    by (simp only: unat_of_nat) (simp add: take_bit_eq_mod)
  have "push_bit 6 w OR of_nat (n mod 64) = push_bit 6 w + of_nat (n mod 64)"
    by (rule or_eq_add_dvd [where k = 6]) (simp_all only: p q dvd_triv_right, simp)
  also have "unat \<dots> = unat w * 2 ^ 6 + n mod 64"
    by (rule unat_add_eq [OF p q]) (use assms in simp)
  finally show ?thesis by simp
qed

lemma no_highbit: "unat (w :: u32) < 2 ^ 31 \<Longrightarrow> w AND 0x80000000 = 0"
proof -
  assume w: "unat w < 2 ^ 31"
  have "0x80000000 AND w = 0"
    by (rule and_zero_dvd [where k = 31]) (use w in simp_all)
  then show ?thesis by (simp add: and.commute)
qed

text \<open>The loop turns the digits of a number back into its three bytes.\<close>

lemma low_byte: "unat w = unat a + 256 * m \<Longrightarrow> ucast w = a" for w :: u32 and a :: u8
  by (simp add: word_unat_eq_iff unat_ucast_mod unat_u8_bound)

lemma digits_register:
  assumes "unat w = n div 64" and "n < 2 ^ 32"
  shows "unat (push_bit 6 w OR bits6 (digit64 n)) = n"
proof -
  have "unat w < 2 ^ 26" using assms by simp
  from join6 [OF this, of n] show ?thesis unfolding bits6_digit64 assms(1) by simp
qed

lemma first_register: "n < 64 \<Longrightarrow> unat (bits6 (digit64 n)) = n"
  unfolding bits6_digit64 by (simp only: unat_of_nat) (simp add: take_bit_eq_mod)

text \<open>The number in the register after two, three and four characters.\<close>

lemma register2:
  "n < 64 ^ 2 \<Longrightarrow> unat (push_bit 6 (bits6 (digit64 (n div 64))) OR bits6 (digit64 n)) = n"
  by (rule digits_register [OF first_register]) simp_all

lemma register3:
  "n < 64 ^ 3 \<Longrightarrow> unat (push_bit 6 (push_bit 6 (bits6 (digit64 (n div 64 div 64))) OR bits6 (digit64 (n div 64)))
     OR bits6 (digit64 n)) = n"
  by (rule digits_register [OF register2]) simp_all

lemma register4:
  "n < 64 ^ 4 \<Longrightarrow> unat (push_bit 6 (push_bit 6 (push_bit 6 (bits6 (digit64 (n div 64 div 64 div 64)))
     OR bits6 (digit64 (n div 64 div 64))) OR bits6 (digit64 (n div 64))) OR bits6 (digit64 n)) = n"
  by (rule digits_register [OF register3]) simp_all

lemma decode_step:
  assumes "q = push_bit 6 (push_bit 6 (push_bit 6 (bits6 x0) OR bits6 x1) OR bits6 x2) OR bits6 x3"
  shows "decode_loop (Suc k) (x0 # x1 # x2 # x3 # rest) =
    (if 0 \<noteq> q AND 0x80000000 then ([], None)
     else let (ds, r) = decode_loop k rest
       in (ucast (drop_bit 8 (drop_bit 8 q)) # ucast (drop_bit 8 q) # ucast q # ds, r))"
  by (simp add: assms Let_def)

lemma decode_tail_step2:
  assumes "q = push_bit 6 (bits6 x0) OR bits6 x1"
  shows "decode_tail 2 (x0 # x1 # rest) =
    (if 0 \<noteq> q AND 0x80000000 then None else Some [ucast (drop_bit 4 q)])"
  by (simp add: assms decode_tail_def Let_def)

lemma decode_tail_step1:
  assumes "q = push_bit 6 (push_bit 6 (bits6 x0) OR bits6 x1) OR bits6 x2"
  shows "decode_tail 1 (x0 # x1 # x2 # rest) =
    (if 0 \<noteq> q AND 0x80000000 then None
     else Some [ucast (drop_bit 8 (drop_bit 2 q)), ucast (drop_bit 2 q)])"
  by (simp add: assms decode_tail_def Let_def)

lemma decode_quad:
  fixes a b c :: u8
  defines "n \<equiv> unat a * 2 ^ 16 + unat b * 2 ^ 8 + unat c"
  shows "decode_loop (Suc k) ([digit64 (n div 64 div 64 div 64), digit64 (n div 64 div 64), digit64 (n div 64),
      digit64 n] @ rest) = (let (ds, r) = decode_loop k rest in (a # b # c # ds, r))"
proof -
  define q where "q = push_bit 6 (push_bit 6 (push_bit 6 (bits6 (digit64 (n div 64 div 64 div 64)))
     OR bits6 (digit64 (n div 64 div 64))) OR bits6 (digit64 (n div 64))) OR bits6 (digit64 n)"
  have *: "unat a < 256" "unat b < 256" "unat c < 256" by (rule unat_u8_bound)+
  then have "n < 64 ^ 4" by (simp add: n_def)
  then have q: "unat q = n" unfolding q_def by (rule register4)
  have h: "q AND 0x80000000 = 0" by (rule no_highbit) (use \<open>n < 64 ^ 4\<close> in \<open>simp add: q\<close>)
  have c: "ucast q = c" by (rule low_byte [where m = "unat a * 256 + unat b"]) (simp add: q n_def)
  have b: "ucast (drop_bit 8 q) = b"
    by (rule low_byte [where m = "unat a"]) (use * in \<open>simp add: unat_drop_bit q n_def\<close>)
  have a: "ucast (drop_bit 8 (drop_bit 8 q)) = a"
    by (rule low_byte [where m = 0]) (use * in \<open>simp add: unat_drop_bit q n_def\<close>)
  show ?thesis
    unfolding append.simps decode_step [OF q_def] h a b c by simp
qed

lemma decode_tail1:
  fixes a :: u8
  defines "n \<equiv> unat a * 2 ^ 4"
  shows "decode_tail 2 (digit64 (n div 64) # digit64 n # rest) = Some [a]"
proof -
  define q where "q = push_bit 6 (bits6 (digit64 (n div 64))) OR bits6 (digit64 n)"
  have "n < 64 ^ 2" using unat_u8_bound [of a] by (simp add: n_def)
  then have q: "unat q = n" unfolding q_def by (rule register2)
  have h: "q AND 0x80000000 = 0" by (rule no_highbit) (use \<open>n < 64 ^ 2\<close> in \<open>simp add: q\<close>)
  have "ucast (drop_bit 4 q) = a"
    by (rule low_byte [where m = 0]) (simp add: unat_drop_bit q n_def)
  then show ?thesis unfolding decode_tail_step2 [OF q_def] h by simp
qed

lemma decode_tail2:
  fixes a b :: u8
  defines "n \<equiv> (unat a * 2 ^ 8 + unat b) * 2 ^ 2"
  shows "decode_tail 1 (digit64 (n div 64 div 64) # digit64 (n div 64) # digit64 n # rest) = Some [a, b]"
proof -
  define q where "q = push_bit 6 (push_bit 6 (bits6 (digit64 (n div 64 div 64))) OR bits6 (digit64 (n div 64)))
     OR bits6 (digit64 n)"
  have *: "unat a < 256" "unat b < 256" by (rule unat_u8_bound)+
  then have "n < 64 ^ 3" by (simp add: n_def)
  then have q: "unat q = n" unfolding q_def by (rule register3)
  have h: "q AND 0x80000000 = 0" by (rule no_highbit) (use \<open>n < 64 ^ 3\<close> in \<open>simp add: q\<close>)
  have b: "ucast (drop_bit 2 q) = b"
    by (rule low_byte [where m = "unat a"]) (simp add: unat_drop_bit q n_def)
  have a: "ucast (drop_bit 8 (drop_bit 2 q)) = a"
    by (rule low_byte [where m = 0]) (use * in \<open>simp add: unat_drop_bit q n_def\<close>)
  show ?thesis
    unfolding decode_tail_step1 [OF q_def] h a b by simp
qed

text \<open>The number of padding characters.\<close>

definition pad64 :: "u8 list \<Rightarrow> nat" where
  "pad64 str = (if length str mod 3 = 1 then 2 else if length str mod 3 = 2 then 1 else 0)"

lemma pad64_3 [simp]: "pad64 (a # b # c # str) = pad64 str"
  by (simp add: pad64_def)

lemma pad64_nonzero: "0 < pad64 str \<longleftrightarrow> 0 < length str mod 3"
proof -
  have "length str mod 3 < 3" by simp
  then show ?thesis unfolding pad64_def by (simp split: if_splits; linarith)
qed

lemma length_base64: "length (base64 str) = 4 * (length str div 3 + of_bool (pad64 str \<noteq> 0))"
proof (induction str rule: base64.induct)
  case (4 a b c bs)
  have "length (a # b # c # bs) div 3 = Suc (length bs div 3)" by simp
  then show ?case using 4 by (simp add: Let_def)
qed (simp_all add: Let_def pad64_def)

lemma base64_end:
  "str \<noteq> [] \<Longrightarrow> (base64 str ! (length (base64 str) - 1) = 61 \<longleftrightarrow> pad64 str \<noteq> 0) \<and>
     (base64 str ! (length (base64 str) - 2) = 61 \<longleftrightarrow> pad64 str = 2)"
proof (induction str rule: base64.induct)
  case (4 a b c bs)
  show ?case
  proof (cases "bs = []")
    case False
    then have "base64 bs \<noteq> []" using length_base64 [of bs] by (cases bs rule: base64.cases) (simp_all add: Let_def)
    moreover from this have "4 \<le> length (base64 bs)"
      using length_base64 [of bs] by (cases "length bs div 3 + of_bool (pad64 bs \<noteq> 0)") simp_all
    ultimately show ?thesis using 4 False
      by (simp add: Let_def nth_Cons' numeral_2_eq_2)
  qed (simp add: Let_def digit64_not_pad pad64_def)
qed (simp_all add: Let_def digit64_not_pad pad64_def)

lemma decode_base64:
  "\<exists>front next tail. decode_loop (length str div 3) (base64 str) = (front, Some next) \<and>
     decode_tail (pad64 str) next = Some tail \<and> str = front @ tail"
proof (induction str rule: base64.induct)
  case (4 a b c bs)
  have l: "length (a # b # c # bs) div 3 = Suc (length bs div 3)" by simp
  from 4 obtain front nxt tail where "decode_loop (length bs div 3) (base64 bs) = (front, Some nxt)"
    "decode_tail (pad64 bs) nxt = Some tail" "bs = front @ tail" by blast
  then show ?case unfolding l base64.simps Let_def decode_quad by simp
next
  case (2 a)
  have "pad64 [a] = 2" by (simp add: pad64_def)
  then have "decode_tail (pad64 [a]) (base64 [a]) = Some [a]"
    unfolding base64.simps Let_def by (simp only: decode_tail1)
  then show ?case by simp
next
  case (3 a b)
  have "pad64 [a, b] = 1" by (simp add: pad64_def)
  then have "decode_tail (pad64 [a, b]) (base64 [a, b]) = Some [a, b]"
    unfolding base64.simps Let_def by (simp only: decode_tail2)
  then show ?case by simp
qed (simp add: pad64_def decode_tail_def)


section \<open>The operations on a write buffer\<close>

lemma wb_update_same [simp]: "w\<lparr>wb_used := wb_used w\<rparr> = w"
  by simp

lemma appended_blit:
  assumes "u + length bs \<le> length m"
  shows "appended (w\<lparr>wb_used := u + length bs, wb_mem := blit u bs m\<rparr>) = take u m @ bs"
  using take_blit [of u m bs] assms by (simp add: appended_def)

lemma take_blit_prefix: "u \<le> length m \<Longrightarrow> take u (blit u bs m) = take u m"
  by (simp add: blit_def)

lemma length_decode_loop:
  "decode_loop k xs = (front, r) \<Longrightarrow>
   length front \<le> 3 * k \<and> (\<forall>rest. r = Some rest \<longrightarrow> length front = 3 * k \<and> rest = drop (4 * k) xs)"
proof (induction k arbitrary: xs front r)
  case (Suc k)
  show ?case
  proof (cases "decode_loop k (drop 4 xs)")
    case (Pair f r')
    with Suc.prems Suc.IH [OF Pair] show ?thesis by (auto simp: Let_def add.commute split: if_splits)
  qed
qed auto

lemma length_decode_tail:
  "decode_tail m xs = Some bs \<Longrightarrow> m \<le> 2 \<Longrightarrow> length bs + m = 3 * of_bool (m \<noteq> 0)"
  by (auto simp: decode_tail_def Let_def split: if_splits)

context wbuffer_interface
begin

lemma encode_spec:
  assumes "wb_inv w" and "length str < 2 ^ 64"
  shows "case base64encode_string it str w of
      (Inl err, w') \<Rightarrow> w' = w
    | (Inr _, w') \<Rightarrow> wb_inv w' \<and> appended w' = appended w @ base64 str"
proof -
  define q where "q = length str div 3 + of_bool (length str mod 3 \<noteq> 0)"
  define bs where "bs = fst (encode_loop (length str div 3) str) @
    encode_tail (length str mod 3) (snd (encode_loop (length str div 3) str))"
  have bs: "bs = base64 str" by (simp add: bs_def encode_loop_base64 [of str])
  have restore: "snd (shrink_wbuffer it (size_wbuffer it w) w) = w"
    by (simp add: shrink_wbuffer_def shrink_spec size_wbuffer_def size_spec)
  have eq: "base64encode_string it str w = (if wrap_size (4 * q) \<le> q then (Inl EOVERFLOW, w)
    else case appendbytes_wbuffer it (wrap_size (4 * q)) w of
        (Inl err, w') \<Rightarrow> (Inl err, snd (shrink_wbuffer it (size_wbuffer it w) w'))
      | (Inr dest, w') \<Rightarrow> (Inr (), w'\<lparr>wb_mem := blit dest bs (wb_mem w')\<rparr>))"
    unfolding base64encode_string_def Let_def q_def [symmetric] restore split_beta bs_def ..
  show ?thesis
  proof (cases "wrap_size (4 * q) \<le> q")
    case True
    then show ?thesis unfolding eq by simp
  next
    case False
    have q3: "3 * q < 2 ^ 64" using assms(2) by (simp add: q_def of_bool_def) presburger
    have w4: "wrap_size (4 * q) = 4 * q"
    proof (cases "4 * q < 2 ^ 64")
      case c: False
      then have "(4 * q) mod 2 ^ 64 = 4 * q - 2 ^ 64"
        using q3 by (subst le_mod_geq) simp_all
      then show ?thesis using False q3 by (simp add: wrap_size_def)
    qed (simp add: wrap_size_def)
    then have n: "wrap_size (4 * q) = length bs"
      by (simp add: bs length_base64 q_def pad64_nonzero)
    have b: "length bs < 2 ^ 64" unfolding n [symmetric] wrap_size_def by simp
    show ?thesis
    proof (rule appendbytes_cases [OF assms(1) b], goal_cases)
      case (1 err)
      then show ?case using False unfolding eq n by (simp add: restore)
    next
      case (2 w')
      then show ?case using False unfolding eq n
        by (simp add: bs appended_blit wb_inv_def)
    qed
  qed
qed

text \<open>What the decoder makes of a string, apart from the buffer.\<close>

end

definition padding :: "u8 list \<Rightarrow> nat" where
  "padding str = of_bool (str ! (length str - 1) = 61) + of_bool (str ! (length str - 2) = 61)"

definition decoded :: "u8 list \<Rightarrow> u8 list option" where
  "decoded str =
     (if length str mod 4 \<noteq> 0 then None
      else if length str div 4 = 0 then Some []
      else case decode_loop (length str div 4 - of_bool (padding str \<noteq> 0)) str of
          (front, None) \<Rightarrow> None
        | (front, Some rest) \<Rightarrow> map_option ((@) front) (decode_tail (padding str) rest))"

lemma decoded_base64:
  assumes "str \<noteq> []"
  shows "decoded (base64 str) = Some str"
proof -
  have "padding (base64 str) = pad64 str"
    using base64_end [OF assms] unfolding padding_def by (auto simp: pad64_def)
  moreover have "length str div 3 + of_bool (pad64 str \<noteq> 0) \<noteq> 0"
  proof -
    have "\<not> (length str div 3 = 0 \<and> length str mod 3 = 0)"
    proof
      assume "length str div 3 = 0 \<and> length str mod 3 = 0"
      then have "length str = 0" by presburger
      then show False using assms by simp
    qed
    then show ?thesis using pad64_nonzero [of str] by (auto simp: of_bool_def)
  qed
  ultimately show ?thesis using decode_base64 [of str]
    by (auto simp: decoded_def length_base64)
qed

lemma bits6_equals: "bits6 61 = - 1"
  by code_simp

lemma padding_bound: "padding str \<le> 2"
  by (simp add: padding_def)

lemma length_decoded:
  assumes "decoded str = Some bs"
  shows "length bs = sizebase64decode_string str" and "length bs + padding str = 3 * (length str div 4) \<or> str = []"
proof -
  let ?c = "length str div 4" and ?p = "padding str"
  have l: "length str = 4 * ?c" using assms by (simp add: decoded_def split: if_splits) presburger
  show "length bs = sizebase64decode_string str" "length bs + ?p = 3 * ?c \<or> str = []"
  proof (atomize (full), cases "?c = 0")
    case True
    then have "bs = []" "str = []" using assms l by (simp_all add: decoded_def)
    then show "length bs = sizebase64decode_string str \<and> (length bs + ?p = 3 * ?c \<or> str = [])"
      by (simp add: sizebase64decode_string_def)
  next
    case False
    with assms obtain front rest t where d: "decode_loop (?c - of_bool (?p \<noteq> 0)) str = (front, Some rest)"
      and t: "decode_tail ?p rest = Some t" and bs: "bs = front @ t"
      by (auto simp: decoded_def split: if_splits prod.splits option.splits)
    from length_decode_loop [OF d] have f: "length front = 3 * (?c - of_bool (?p \<noteq> 0))"
      and r: "rest = drop (4 * (?c - of_bool (?p \<noteq> 0))) str" by simp_all
    have n: "length bs + ?p = 3 * ?c"
      using f length_decode_tail [OF t padding_bound] False by (auto simp: bs of_bool_def split: if_splits)
    have "\<not> (str ! (length str - 1) \<noteq> 61 \<and> str ! (length str - 2) = 61)"
    proof
      assume a: "str ! (length str - 1) \<noteq> 61 \<and> str ! (length str - 2) = 61"
      then have p: "?p = 1" by (simp add: padding_def)
      have "rest ! 2 = str ! (4 * (?c - 1) + 2)" unfolding r p using False l by (simp add: nth_drop)
      also have "4 * (?c - 1) + 2 = length str - 2" using False by (subst l) simp
      finally have "bits6 (rest ! 2) = - 1" using a bits6_equals by simp
      then show False using t unfolding p by (simp add: decode_tail_def Let_def)
    qed
    then show "length bs = sizebase64decode_string str \<and> (length bs + ?p = 3 * ?c \<or> str = [])"
      using n False by (auto simp: sizebase64decode_string_def padding_def Let_def)
  qed
qed

context wbuffer_interface
begin

lemma decode_spec:
  assumes "wb_inv w" and "length str < 2 ^ 64"
  shows "case base64decode_string it str w of
      (Inl err, w') \<Rightarrow> wb_inv w' \<and> appended w' = appended w \<and>
        (err = EINVAL \<and> decoded str = None \<or> 
         fst (appendbytes_wbuffer it (3 * (length str div 4) - padding str) w) = Inl err)
    | (Inr _, w') \<Rightarrow> wb_inv w' \<and> (\<exists>bs. decoded str = Some bs \<and> appended w' = appended w @ bs)"
proof -
  let ?c = "length str div 4" and ?p = "padding str"
  define n where "n = 3 * ?c - ?p"
  have size: "size_wbuffer it w = wb_used w" by (simp add: size_wbuffer_def size_spec)
  have restore: "snd (shrink_wbuffer it (size_wbuffer it w) w) = w"
    by (simp add: shrink_wbuffer_def shrink_spec size)
  consider "length str mod 4 \<noteq> 0" | "length str mod 4 = 0" "?c = 0" | "length str mod 4 = 0" "?c \<noteq> 0" by blast
  then show ?thesis
  proof cases
    case 1
    then show ?thesis using assms(1) by (simp add: base64decode_string_def Let_def restore decoded_def)
  next
    case 2
    then show ?thesis using assms(1) by (simp add: base64decode_string_def decoded_def)
  next
    case 3
    have n64: "n < 2 ^ 64" using assms(2) by (simp add: n_def)
    obtain front r where d: "decode_loop (?c - of_bool (?p \<noteq> 0)) str = (front, r)" by fastforce
    have lf: "length front \<le> n"
      using length_decode_loop [OF d] 3(2) padding_bound [of str]
      by (auto simp: n_def of_bool_def split: if_splits)
    define res where "res = (case r of None \<Rightarrow> None | Some rest \<Rightarrow> map_option ((@) front) (decode_tail ?p rest))"
    have dec: "decoded str = res" using 3 d by (simp add: decoded_def res_def)
    have eq: "base64decode_string it str w = (case appendbytes_wbuffer it n w of
        (Inl err, w') \<Rightarrow> (Inl err, snd (shrink_wbuffer it (wb_used w) w'))
      | (Inr dest, w') \<Rightarrow> (case res of
          None \<Rightarrow> (Inl EINVAL, snd (shrink_wbuffer it (wb_used w) (w'\<lparr>wb_mem := blit dest front (wb_mem w')\<rparr>)))
        | Some bs \<Rightarrow> (Inr (), w'\<lparr>wb_mem := blit dest bs (wb_mem w')\<rparr>)))"
    proof -
      have "wrap_size (3 * ?c - ?p) = n" using n64 by (simp add: wrap_size_def n_def)
      then show ?thesis using 3
        unfolding base64decode_string_def Let_def padding_def [symmetric] size d res_def
        by (simp add: size d split: sum.split prod.split option.split)
    qed
    show ?thesis
    proof (rule appendbytes_cases [OF assms(1) n64], goal_cases)
      case (1 err)
      then show ?case using assms(1) by (simp add: eq restore [unfolded size] n_def)
    next
      case (2 w')
      have m: "wb_used w + length front \<le> length (wb_mem w')" using 2 lf by simp
      show ?case
      proof (cases res)
        case None
        have "take (wb_used w) (blit (wb_used w) front (wb_mem w')) = appended w"
          using 2(3,5) m take_blit_prefix [of "wb_used w" "wb_mem w'" front] by simp
        then show ?thesis using 2 m None
          by (simp add: eq dec shrink_wbuffer_def shrink_spec wb_inv_def appended_def)
      next
        case (Some bs)
        have n: "n = length bs" using length_decoded(2) [of str bs] dec Some 3 by (auto simp: n_def)
        show ?thesis using 2 Some appended_blit [of "wb_used w" bs "wb_mem w'" w'] unfolding n
          by (simp add: eq dec wb_inv_def n)
      qed
    qed
  qed
qed

end


section \<open>Properties\<close>

text \<open>C18: What \<open>base64encode_string\<close> wrote, \<open>base64decode_string\<close> turns back into the string, for
  all tables of write buffers; only the reservation of memory can fail, and then the content of
  the second buffer is what it was.\<close>

theorem base64_roundtrip:
  assumes "keeps_content resize" and "it \<in> set (wbuffer_tables resize)" and "it' \<in> set (wbuffer_tables resize)"
    and "wb_inv w" and "wb_inv v" and "length str < 2 ^ 64"
    and "base64encode_string it str w = (Inr (), w')"
  defines "encoded \<equiv> drop (length (appended w)) (appended w')"
  shows "case base64decode_string it' encoded v of
      (Inl err, v') \<Rightarrow> appended v' = appended v \<and> fst (appendbytes_wbuffer it' (length str) v) = Inl err
    | (Inr _, v') \<Rightarrow> appended v' = appended v @ str"
proof -
  note if1 = tables_fulfil [OF assms(1,2)] and if2 = tables_fulfil [OF assms(1,3)]
  from wbuffer_interface.encode_spec [OF if1 assms(4,6)] assms(7)
  have inv: "wb_inv w'" and app: "appended w' = appended w @ base64 str" by simp_all
  have e: "encoded = base64 str" by (simp add: encoded_def app)
  have ne: "str \<noteq> []"
    using assms(7) by (auto simp: base64encode_string_def wrap_size_def Let_def)
  have "length (base64 str) \<le> length (appended w')" by (simp add: app)
  also have "\<dots> < 2 ^ 64" using inv by (simp add: wb_inv_def appended_def)
  finally have l: "length encoded < 2 ^ 64" by (simp add: e)
  have "length str + padding (base64 str) = 3 * (length (base64 str) div 4)"
    using length_decoded(2) [OF decoded_base64 [OF ne]] ne
    by (cases str rule: base64.cases) (simp_all add: Let_def)
  then have n: "3 * (length encoded div 4) - padding encoded = length str" by (simp add: e)
  show ?thesis
    using wbuffer_interface.decode_spec [OF if2 assms(5) l] unfolding n
    by (auto simp: e decoded_base64 [OF ne] split: sum.splits)
qed

lemma base64_roundtrip_witness:
  "appended (snd (base64decode_string (g_wbuffer_memblock exact_resize)
     (appended (snd (base64encode_string g_wbuffer_static [77, 97] \<lparr>wb_mem = replicate 9 0, wb_used = 0\<rparr>)))
     \<lparr>wb_mem = [], wb_used = 0\<rparr>)) = [77, 97]"
proof -
  let ?w = "\<lparr>wb_mem = replicate 9 0, wb_used = 0\<rparr> :: wbuffer_t" and ?v = "\<lparr>wb_mem = [], wb_used = 0\<rparr> :: wbuffer_t"
  have t: "g_wbuffer_static \<in> set (wbuffer_tables exact_resize)"
    "g_wbuffer_memblock exact_resize \<in> set (wbuffer_tables exact_resize)"
    "wb_inv ?w" "wb_inv ?v" "length [77, 97 :: u8] < 2 ^ 64"
    by (simp_all add: wb_inv_def wbuffer_tables_def)
  have a: "appended ?w = []" "appended ?v = []" by (simp_all add: appended_def)
  obtain w' where e: "base64encode_string g_wbuffer_static [77, 97] ?w = (Inr (), w')"
    by (simp add: base64encode_string_def Let_def wrap_size_def appendbytes_wbuffer_def sizefree_wbuffer_def)
  have "fst (appendbytes_wbuffer (g_wbuffer_memblock exact_resize) (length [77, 97 :: u8]) ?v) = Inr 0"
    by (simp add: appendbytes_wbuffer_def sizefree_wbuffer_def g_wbuffer_memblock_def alloc_memblock_wbuffer_def
        wrap_size_def exact_resize_def)
  moreover obtain r v' where d: "base64decode_string (g_wbuffer_memblock exact_resize) (appended w') ?v = (r, v')"
    by fastforce
  ultimately show ?thesis using base64_roundtrip [OF exact_resize_keeps t e]
    by (cases r) (simp_all add: a e)
qed

text \<open>C19: \<open>base64encode_string\<close> appends the encoding of RFC 4648, \<open>base64decode_string\<close> as many
  bytes as \<open>sizebase64decode_string\<close> announces, and both leave buffers as they were on errors.\<close>

theorem base64_appends:
  assumes "keeps_content resize" and "it \<in> set (wbuffer_tables resize)" and "wb_inv w" and "length str < 2 ^ 64"
  shows "(case base64encode_string it str w of
      (Inl err, w') \<Rightarrow> w' = w
    | (Inr _, w') \<Rightarrow> wb_inv w' \<and> appended w' = appended w @ base64 str) \<and>
    (case base64decode_string it str w of
      (Inl err, w') \<Rightarrow> wb_inv w' \<and> appended w' = appended w
    | (Inr _, w') \<Rightarrow> wb_inv w' \<and> (\<exists>bs. length bs = sizebase64decode_string str \<and> appended w' = appended w @ bs))"
  using wbuffer_interface.encode_spec [OF tables_fulfil [OF assms(1,2)] assms(3,4)]
    wbuffer_interface.decode_spec [OF tables_fulfil [OF assms(1,2)] assms(3,4)] length_decoded(1)
  by (auto split: sum.splits prod.splits)

lemma base64_appends_witness:
  "appended (snd (base64encode_string g_wbuffer_static [77, 97] \<lparr>wb_mem = replicate 9 0, wb_used = 1\<rparr>))
     = [0, 84, 87, 69, 61]"
proof -
  let ?w = "\<lparr>wb_mem = replicate 9 0, wb_used = 1\<rparr> :: wbuffer_t"
  have t: "g_wbuffer_static \<in> set (wbuffer_tables exact_resize)" "wb_inv ?w" "length [77, 97 :: u8] < 2 ^ 64"
    by (simp_all add: wb_inv_def wbuffer_tables_def)
  have "fst (base64encode_string g_wbuffer_static [77, 97] ?w) = Inr ()"
    by (simp add: base64encode_string_def Let_def wrap_size_def appendbytes_wbuffer_def sizefree_wbuffer_def)
  moreover have "appended ?w @ base64 [77, 97] = [0, 84, 87, 69, 61]"
  proof -
    have "s_base64chars ! 19 = 84 \<and> s_base64chars ! 22 = 87 \<and> s_base64chars ! 4 = 69" by code_simp
    then show ?thesis by (simp add: digit64_def appended_def Let_def)
  qed
  moreover obtain r v' where d: "base64encode_string g_wbuffer_static [77, 97] ?w = (r, v')"
    by fastforce
  ultimately show ?thesis using base64_appends [OF exact_resize_keeps t]
    by (cases r) simp_all
qed

end
