(* ===== verification/Str_Utf8.thy ===== *)
theory Str_Utf8
  imports Prelude "HOL-Library.Monad_Syntax" "HOL-Library.Sublist"
begin

text \<open>
  UTF-8 of C-kern/string/utf8.c and its header: encoding and decoding of one character (up to
  six bytes, 31 bits), the queries on strings, and the validator that checks a text given in
  blocks and keeps a sequence cut at the end of a block. Strings are lists of bytes, pointers
  into them are positions.
\<close>

section \<open>Definitions\<close>

subsection \<open>Characters\<close>

definition g_utf8_bytesperchar :: "nat list" where
  "g_utf8_bytesperchar = replicate 32 1 @ replicate 16 1 @ replicate 8 2 @ replicate 4 3 @ replicate 2 4 @ [5] @ [6]"

definition maxchar_utf8 :: u32 where
  "maxchar_utf8 = 0x7fffffff"

definition maxsize_utf8 :: nat where
  "maxsize_utf8 = 6"

definition isfirstbyte_utf8 :: "u8 \<Rightarrow> bool" where
  "isfirstbyte_utf8 firstbyte \<longleftrightarrow> 0x80 \<noteq> firstbyte AND 0xc0"

definition issinglebyte_utf8 :: "u8 \<Rightarrow> bool" where
  "issinglebyte_utf8 firstbyte \<longleftrightarrow> 0 = firstbyte AND 0x80"

definition sizePfirst_utf8 :: "u8 \<Rightarrow> nat" where
  "sizePfirst_utf8 firstbyte = g_utf8_bytesperchar ! unat (drop_bit 2 firstbyte)"

definition sizechar_utf8 :: "u32 \<Rightarrow> nat" where
  "sizechar_utf8 ch = 1 + of_bool (ch > 0x7f) + of_bool (ch > 0x7ff) + of_bool (ch > 0xffff)
     + of_bool (ch > 0x1fffff) + of_bool (ch > 0x3FFFFFF)"

definition skipchar_utf8 :: "u8 list \<Rightarrow> nat" where
  "skipchar_utf8 strstart = sizePfirst_utf8 (strstart ! 0)"

text \<open>The result of \<open>decodechar_utf8\<close> with the character, if it is written.\<close>

definition decodechar_utf8 :: "u8 list \<Rightarrow> nat \<times> u32 option" where
  "decodechar_utf8 strstart =
     (let firstbyte = strstart ! 0;
          str = (\<lambda>i. ucast (strstart ! i) :: u32)
      in if firstbyte \<le> 127 then (1, Some (ucast firstbyte))
         else if firstbyte \<le> 191 then (0, None)
         else if firstbyte \<le> 193 then (0, None)
         else if firstbyte \<le> 223 then
           let uchr = push_bit 6 (ucast (firstbyte AND 0x1F));
               uchr = uchr OR ucast (strstart ! 1 XOR 0x80)
           in (2, Some uchr)
         else if firstbyte \<le> 239 then
           let uchr = push_bit 12 (ucast (firstbyte AND 0xF));
               uchr = uchr XOR push_bit 6 (str 1);
               uchr = uchr XOR str 2
           in (3, Some (uchr XOR (push_bit 6 0x80 OR 0x80)))
         else if firstbyte \<le> 247 then
           let uchr = push_bit 18 (ucast (firstbyte AND 0x7));
               uchr = uchr XOR push_bit 12 (str 1);
               uchr = uchr XOR push_bit 6 (str 2);
               uchr = uchr XOR str 3
           in (4, Some (uchr XOR (push_bit 6 (push_bit 6 0x80 OR 0x80) OR 0x80)))
         else if firstbyte \<le> 251 then
           let uchr = push_bit 24 (ucast (firstbyte AND 0x3));
               uchr = uchr XOR push_bit 18 (str 1);
               uchr = uchr XOR push_bit 12 (str 2);
               uchr = uchr XOR push_bit 6 (str 3);
               uchr = uchr XOR str 4
           in (5, Some (uchr XOR (push_bit 6 (push_bit 6 (push_bit 6 0x80 OR 0x80) OR 0x80) OR 0x80)))
         else if firstbyte \<le> 253 then
           let uchr = push_bit 30 (ucast (firstbyte AND 0x1));
               uchr = uchr XOR push_bit 24 (str 1);
               uchr = uchr XOR push_bit 18 (str 2);
               uchr = uchr XOR push_bit 12 (str 3);
               uchr = uchr XOR push_bit 6 (str 4);
               uchr = uchr XOR str 5
           in (6, Some (uchr XOR (push_bit 6 (push_bit 6 (push_bit 6 (push_bit 6 0x80 OR 0x80) OR 0x80) OR 0x80) OR 0x80)))
         else (0, None))"

text \<open>The bytes that \<open>encodechar_utf8\<close> writes; it returns their number.\<close>

definition encodechar_utf8 :: "u32 \<Rightarrow> nat \<Rightarrow> u8 list" where
  "encodechar_utf8 uchar strsize =
     (let follow = (\<lambda>n. ucast (0x80 OR (drop_bit n uchar AND 0x3f)) :: u8)
      in if uchar \<le> 0xffff then
           if uchar \<le> 0x7f then (if strsize < 1 then [] else [ucast uchar])
           else if uchar \<le> 0x7ff then
             (if strsize < 2 then [] else [ucast (0xC0 OR drop_bit 6 uchar), follow 0])
           else
             (if strsize < 3 then [] else [ucast (0xE0 OR drop_bit 12 uchar), follow 6, follow 0])
         else if uchar \<le> 0x1fffff then
           (if strsize < 4 then [] else [ucast (0xF0 OR drop_bit 18 uchar), follow 12, follow 6, follow 0])
         else if uchar \<le> 0x3FFFFFF then
           (if strsize < 5 then []
            else [ucast (0xF8 OR drop_bit 24 uchar), follow 18, follow 12, follow 6, follow 0])
         else if uchar \<le> 0x7FFFFFFF then
           (if strsize < 6 then []
            else [ucast (0xFC OR drop_bit 30 uchar), follow 24, follow 18, follow 12, follow 6, follow 0])
         else [])"

subsection \<open>Strings\<close>

lemma sizePfirst_range: "1 \<le> sizePfirst_utf8 b \<and> sizePfirst_utf8 b \<le> 6"
proof -
  have "\<forall>i \<in> set [0..<64]. 1 \<le> g_utf8_bytesperchar ! i \<and> g_utf8_bytesperchar ! i \<le> 6" by code_simp
  moreover have "unat (drop_bit 2 b) < 64" using unat_u8_bound [of b] by (simp add: unat_drop_bit)
  ultimately show ?thesis by (simp add: sizePfirst_utf8_def)
qed

text \<open>The two loops of \<open>length_utf8\<close>: the first reads without a test of the end while at least
  \<open>maxsize_utf8\<close> bytes are left.\<close>

function length_loop1 :: "u8 list \<Rightarrow> nat \<Rightarrow> nat \<Rightarrow> nat \<times> nat" where
  "length_loop1 str next len =
     (let sizechr = sizePfirst_utf8 (str ! next);
          next = next + sizechr;
          len = len + 1
      in if next \<le> length str - maxsize_utf8 then length_loop1 str next len else (next, len))"
  by pat_completeness auto

termination length_loop1
proof (relation "measure (\<lambda>(str, next, _). length str - next)", goal_cases)
  case (2 str nx len sz nx' len')
  then show ?case using sizePfirst_range [of "str ! nx"] by (simp add: maxsize_utf8_def; linarith)
qed simp

function length_loop2 :: "u8 list \<Rightarrow> nat \<Rightarrow> nat \<Rightarrow> nat" where
  "length_loop2 str next len =
     (if next < length str then
        let sizechr = sizePfirst_utf8 (str ! next);
            next = (if length str - next < sizechr then length str else next + sizechr)
        in length_loop2 str next (len + 1)
      else len)"
  by pat_completeness auto

termination length_loop2
proof (relation "measure (\<lambda>(str, next, _). length str - next)", goal_cases)
  case (2 str nx len sz nx')
  then show ?case using sizePfirst_range [of "str ! nx"] by (simp split: if_splits)
qed simp

declare length_loop1.simps [simp del] length_loop2.simps [simp del]

definition length_utf8 :: "u8 list \<Rightarrow> nat" where
  "length_utf8 str =
     (if 0 < length str then
        let (next, len) = (if length str \<ge> maxsize_utf8 then length_loop1 str 0 0 else (0, 0))
        in length_loop2 str next len
      else 0)"

text \<open>\<open>memchr\<close> of the C library from a position on, and the search for a character with it; the
  comparison of the bytes gives \<open>None\<close> when it reads behind the string.\<close>

definition memchr :: "u8 list \<Rightarrow> nat \<Rightarrow> u8 \<Rightarrow> nat option" where
  "memchr str from c = map_option (\<lambda>(i, _). i) (find (\<lambda>(i, b). from \<le> i \<and> b = c) (enumerate 0 str))"

fun same_bytes :: "u8 list \<Rightarrow> u8 list \<Rightarrow> bool option" where
  "same_bytes [] found = Some True"
| "same_bytes (b # utf8) [] = None"
| "same_bytes (b # utf8) (c # found) = (if b \<noteq> c then Some False else same_bytes utf8 found)"

partial_function (option) find_loop :: "u8 list \<Rightarrow> u8 list \<Rightarrow> nat option \<Rightarrow> nat option option" where
  "find_loop utf8 str found =
     (case found of
        None \<Rightarrow> Some None
      | Some found \<Rightarrow>
          do {
            same \<leftarrow> same_bytes (tl utf8) (drop (found + 1) str);
            if same then Some (Some found)
            else if length str < found + length utf8 then None
            else find_loop utf8 str (memchr str (found + length utf8) (hd utf8))
          })"

definition find_utf8 :: "u8 list \<Rightarrow> u32 \<Rightarrow> nat option option" where
  "find_utf8 str uchar =
     (let utf8 = encodechar_utf8 uchar maxsize_utf8
      in if utf8 = [] then Some None else find_loop utf8 str (memchr str 0 (hd utf8)))"

subsection \<open>The validator\<close>

record utf8validator_t =
  sizeprefix :: nat
  prefix :: "u8 list"

definition init_utf8validator :: utf8validator_t where
  "init_utf8validator = \<lparr>sizeprefix = 0, prefix = [0, 0, 0, 0, 0, 0]\<rparr>"

definition free_utf8validator :: "utf8validator_t \<Rightarrow> unit cres \<times> utf8validator_t" where
  "free_utf8validator v =
     (let err = (if sizeprefix v \<noteq> 0 then Inl EILSEQ else Inr ())
      in (err, v\<lparr>sizeprefix := 0\<rparr>))"

definition sizeprefix_utf8validator :: "utf8validator_t \<Rightarrow> nat" where
  "sizeprefix_utf8validator v = sizeprefix v"

text \<open>
  The \<open>switch\<close> after the label \<open>VALIDATE\<close>. It reads \<open>next[i]\<close> in the order of the code; a read
  outside the object gives \<open>None\<close>. The verdict is the number of bytes to skip or the
  value of \<open>erroff\<close> at \<open>ONERR\<close>.
\<close>

datatype verdict = Skip nat | Bad nat

definition isfollow :: "u8 \<Rightarrow> bool" where
  "isfollow b \<longleftrightarrow> b AND 0xC0 = 0x80"

function check_common :: "(nat \<Rightarrow> u8 option) \<Rightarrow> nat \<Rightarrow> nat \<Rightarrow> verdict option" where
  "check_common rd n i =
     (if i < n then
        do { b \<leftarrow> rd i; if \<not> isfollow b then Some (Bad i) else check_common rd n (i + 1) }
      else Some (Skip n))"
  by pat_completeness auto

termination check_common
  by (relation "measure (\<lambda>(_, n, i). n - i)") auto

declare check_common.simps [simp del]

definition check_first :: "(nat \<Rightarrow> u8 option) \<Rightarrow> nat \<Rightarrow> u8 \<Rightarrow> verdict option" where
  "check_first rd n low =
     do { b \<leftarrow> rd 1;
          if \<not> isfollow b then Some (Bad 1)
          else do { b \<leftarrow> rd 1; if b < low then Some (Bad 1) else check_common rd n 2 } }"

definition check_sequence :: "(nat \<Rightarrow> u8 option) \<Rightarrow> verdict option" where
  "check_sequence rd =
     do { b \<leftarrow> rd 0;
          if b \<le> 127 then Some (Skip 1)
          else if b \<le> 191 then Some (Bad 0)
          else if b \<le> 193 then Some (Bad 0)
          else if b \<le> 223 then check_common rd 2 1
          else if b = 224 then check_first rd 3 0xA0
          else if b \<le> 239 then check_common rd 3 1
          else if b = 240 then check_first rd 4 0x90
          else if b \<le> 247 then check_common rd 4 1
          else if b = 248 then check_first rd 5 0x88
          else if b \<le> 251 then check_common rd 5 1
          else if b = 252 then check_first rd 6 0x84
          else if b = 253 then check_common rd 6 1
          else Some (Bad 0) }"

text \<open>
  The variables of \<open>validate_utf8validator\<close>: the object, the array that \<open>next\<close> and \<open>endnext\<close>
  point into (the prefix or the data) with their positions, and \<open>size_missing\<close>.
\<close>

record vstate =
  val :: utf8validator_t
  inprefix :: bool
  nxt :: nat
  endnext :: nat
  size_missing :: nat

definition vread :: "u8 list \<Rightarrow> vstate \<Rightarrow> nat \<Rightarrow> u8 option" where
  "vread data st i =
     (let xs = (if inprefix st then prefix (val st) else data)
      in if nxt st + i < length xs then Some (xs ! (nxt st + i)) else None)"

text \<open>The test at the head of the loop: \<open>Inl\<close> leaves the loop, \<open>Inr\<close> goes on to \<open>VALIDATE\<close>.\<close>

definition vlast :: "u8 list \<Rightarrow> vstate \<Rightarrow> vstate + vstate" where
  "vlast data st =
     (let nrbytes = length data - nxt st
      in if nrbytes = 0 then Inl st
         else if sizePfirst_utf8 (data ! nxt st) > nrbytes then
           Inr (st\<lparr>val := \<lparr>sizeprefix = nrbytes,
                             prefix = drop (nxt st) data @ replicate (6 - nrbytes) 0\<rparr>,
                    inprefix := True, nxt := 0, endnext := 0\<rparr>)
         else Inr (st\<lparr>endnext := nxt st\<rparr>))"

definition vhead :: "u8 list \<Rightarrow> vstate \<Rightarrow> vstate + vstate" where
  "vhead data st =
     (if nxt st \<ge> endnext st then
        if sizeprefix (val st) \<noteq> 0 then
          let st = st\<lparr>val := (val st)\<lparr>sizeprefix := 0\<rparr>, inprefix := False, nxt := size_missing st,
                      endnext := length data, size_missing := 0\<rparr>
          in if length data - nxt st \<ge> maxsize_utf8 then Inr (st\<lparr>endnext := length data - maxsize_utf8\<rparr>)
             else vlast data st
        else vlast data st
      else Inr st)"

text \<open>The label \<open>ONERR\<close>: the error code, the object and the error offset.\<close>

definition vonerr :: "u8 list \<Rightarrow> vstate \<Rightarrow> nat \<Rightarrow> unit cres \<times> utf8validator_t \<times> int option" where
  "vonerr data st erroff =
     (let v = val st
      in if sizeprefix v \<noteq> 0 then
           if sizeprefix v \<le> erroff then (Inr (), v, None)
           else if size_missing st \<noteq> 0 then
             (Inl EILSEQ, v\<lparr>sizeprefix := 0\<rparr>, Some (int erroff - (int (sizeprefix v) - int (size_missing st))))
           else (Inl EILSEQ, v\<lparr>sizeprefix := 0\<rparr>, Some (int erroff + (int (length data) - int (sizeprefix v))))
         else (Inl EILSEQ, v, Some (int erroff + int (nxt st))))"

partial_function (option) vloop ::
  "u8 list \<Rightarrow> vstate \<Rightarrow> (unit cres \<times> utf8validator_t \<times> int option) option" where
  "vloop data st =
     do {
       verdict \<leftarrow> check_sequence (vread data st);
       case verdict of
         Bad erroff \<Rightarrow> Some (vonerr data st erroff)
       | Skip n \<Rightarrow>
           (case vhead data (st\<lparr>nxt := nxt st + n\<rparr>) of
              Inl st \<Rightarrow> Some (Inr (), val st, None)
            | Inr st \<Rightarrow> vloop data st)
     }"

declare vloop.simps [code] find_loop.simps [code]

definition validate_utf8validator ::
  "utf8validator_t \<Rightarrow> u8 list \<Rightarrow> (unit cres \<times> utf8validator_t \<times> int option) option" where
  "validate_utf8validator v data =
     (let endnext = (if length data \<ge> maxsize_utf8 then length data - maxsize_utf8 else 0)
      in if length data = 0 then Some (Inr (), v, None)
         else if sizeprefix v \<noteq> 0 then
           let size_needed = sizePfirst_utf8 (prefix v ! 0);
               missing = size_needed - sizeprefix v;
               missing = (if length data < missing then length data else missing);
               v = \<lparr>sizeprefix = sizeprefix v + missing,
                    prefix = blit (sizeprefix v) (take missing data) (prefix v)\<rparr>
           in vloop data \<lparr>val = v, inprefix = True, nxt = 0, endnext = 0, size_missing = missing\<rparr>
         else
           (case vhead data \<lparr>val = v, inprefix = False, nxt = 0, endnext = endnext, size_missing = 0\<rparr> of
              Inl st \<Rightarrow> Some (Inr (), val st, None)
            | Inr st \<Rightarrow> vloop data st))"


section \<open>One sequence\<close>

text \<open>
  Which byte may stand at position \<open>i\<close> of a sequence: the first one determines the number of
  bytes, the second one has a lower bound that excludes encodings longer than necessary.
\<close>

definition lead_ok :: "u8 \<Rightarrow> bool" where
  "lead_ok b \<longleftrightarrow> b \<le> 127 \<or> 194 \<le> b \<and> b \<le> 253"

definition low_follow :: "u8 \<Rightarrow> u8" where
  "low_follow b = (if b = 224 then 0xA0 else if b = 240 then 0x90 else if b = 248 then 0x88
     else if b = 252 then 0x84 else 0x80)"

definition allowed :: "u8 list \<Rightarrow> nat \<Rightarrow> bool" where
  "allowed xs i \<longleftrightarrow>
     (if i = 0 then lead_ok (xs ! 0) else isfollow (xs ! i) \<and> (i = 1 \<longrightarrow> low_follow (xs ! 0) \<le> xs ! 1))"

definition first_wrong :: "u8 list \<Rightarrow> nat \<Rightarrow> nat option" where
  "first_wrong xs n = find (\<lambda>i. \<not> allowed xs i) [0..<n]"

lemma allowed_append: "i < length xs \<Longrightarrow> allowed (xs @ ys) i = allowed xs i"
  by (auto simp: allowed_def nth_append)

lemma first_wrong_cong: "(\<And>i. i < n \<Longrightarrow> allowed xs i = allowed ys i) \<Longrightarrow> first_wrong xs n = first_wrong ys n"
  unfolding first_wrong_def by (rule find_cong) simp_all

lemma first_wrong_None: "first_wrong xs n = None \<longleftrightarrow> (\<forall>i < n. allowed xs i)"
  by (auto simp: first_wrong_def find_None_iff)

lemma first_wrong_Some:
  "first_wrong xs n = Some e \<longleftrightarrow> e < n \<and> \<not> allowed xs e \<and> (\<forall>i < e. allowed xs i)"
proof -
  have "first_wrong xs n = Some e \<longleftrightarrow>
    (\<exists>i < n. \<not> allowed xs i \<and> e = i \<and> (\<forall>j < i. allowed xs j))"
    by (auto simp: first_wrong_def find_Some_iff)
  then show ?thesis by auto
qed

lemma first_wrong_mono: "first_wrong xs n = Some e \<Longrightarrow> e < m \<Longrightarrow> first_wrong xs m = Some e"
  by (simp add: first_wrong_Some)

text \<open>The size of a sequence by the ranges of the \<open>switch\<close>.\<close>

lemma sizePfirst_cases:
  "sizePfirst_utf8 b = (if b \<le> 191 then 1 else if b \<le> 223 then 2 else if b \<le> 239 then 3
     else if b \<le> 247 then 4 else if b \<le> 251 then 5 else 6)"
proof -
  have "\<forall>i \<in> set [0..<256]. g_utf8_bytesperchar ! (i div 4) = (if i \<le> 191 then 1 else if i \<le> 223 then 2
     else if i \<le> 239 then 3 else if i \<le> 247 then 4 else if i \<le> 251 then 5 else 6)"
    by code_simp
  moreover have "unat b < 256" by (rule unat_u8_bound)
  ultimately show ?thesis by (simp add: sizePfirst_utf8_def unat_drop_bit word_le_nat_alt)
qed

lemma isfollow_range: "isfollow b \<longleftrightarrow> 0x80 \<le> b \<and> b \<le> 0xBF"
proof -
  have "\<forall>i \<in> set [0..<256]. ((of_nat i :: u8) AND 0xC0 = 0x80) = (0x80 \<le> (of_nat i :: u8) \<and> (of_nat i :: u8) \<le> 0xBF)"
    by code_simp
  then have "((of_nat (unat b) :: u8) AND 0xC0 = 0x80) = (0x80 \<le> (of_nat (unat b) :: u8) \<and> (of_nat (unat b) :: u8) \<le> 0xBF)"
    by (rule bspec) (use unat_u8_bound [of b] in simp)
  then show ?thesis by (simp add: isfollow_def)
qed

text \<open>The checks of the code find the first byte that is not allowed.\<close>

lemma check_common_first:
  assumes "\<forall>i < n. rd i = Some (xs ! i)"
  shows "check_common rd n i =
    Some (case find (\<lambda>j. \<not> isfollow (xs ! j)) [i..<n] of None \<Rightarrow> Skip n | Some e \<Rightarrow> Bad e)"
  using assms
proof (induction rd n i rule: check_common.induct)
  case (1 rd n i)
  show ?case
  proof (cases "i < n")
    case True
    then have "[i..<n] = i # [i + 1..<n]" by (simp add: upt_conv_Cons)
    then show ?thesis using 1 True by (simp add: check_common.simps [of rd n i])
  qed (simp add: check_common.simps)
qed

lemma first_wrong_lead: "0 < n \<Longrightarrow> \<not> lead_ok (xs ! 0) \<Longrightarrow> first_wrong xs n = Some 0"
  by (simp add: first_wrong_Some allowed_def)

lemma first_wrong_from1:
  assumes "0 < n" and "lead_ok (xs ! 0)" and "low_follow (xs ! 0) = 0x80"
  shows "first_wrong xs n = find (\<lambda>j. \<not> isfollow (xs ! j)) [1..<n]"
proof -
  have "[0..<n] = 0 # [1..<n]" using assms(1) by (simp add: upt_conv_Cons)
  moreover have "find (\<lambda>i. \<not> allowed xs i) [1..<n] = find (\<lambda>j. \<not> isfollow (xs ! j)) [1..<n]"
    using assms(3) by (intro find_cong) (auto simp: allowed_def isfollow_range)
  moreover have "allowed xs 0" using assms(2) by (simp add: allowed_def)
  ultimately show ?thesis by (simp add: first_wrong_def)
qed

lemma first_wrong_from2:
  assumes "1 < n" and "lead_ok (xs ! 0)"
  shows "first_wrong xs n = (if isfollow (xs ! 1) \<and> low_follow (xs ! 0) \<le> xs ! 1
     then find (\<lambda>j. \<not> isfollow (xs ! j)) [2..<n] else Some 1)"
proof -
  have "[0..<n] = 0 # 1 # [2..<n]" using assms(1) by (simp add: upt_conv_Cons numeral_2_eq_2)
  moreover have "find (\<lambda>i. \<not> allowed xs i) [2..<n] = find (\<lambda>j. \<not> isfollow (xs ! j)) [2..<n]"
    by (intro find_cong) (auto simp: allowed_def)
  moreover have "allowed xs 0" using assms(2) by (simp add: allowed_def)
  moreover have "allowed xs 1 \<longleftrightarrow> isfollow (xs ! 1) \<and> low_follow (xs ! 0) \<le> xs ! 1" by (simp add: allowed_def)
  ultimately show ?thesis by (simp add: first_wrong_def del: One_nat_def)
qed

definition verdict_of :: "u8 list \<Rightarrow> nat \<Rightarrow> verdict" where
  "verdict_of xs n = (case first_wrong xs n of None \<Rightarrow> Skip n | Some e \<Rightarrow> Bad e)"

lemma check_first_verdict:
  assumes "1 < n" and "\<forall>i < n. rd i = Some (xs ! i)" and "lead_ok (xs ! 0)"
  shows "check_first rd n (low_follow (xs ! 0)) = Some (verdict_of xs n)"
  unfolding verdict_of_def first_wrong_from2 [OF assms(1,3)] check_first_def
    check_common_first [OF assms(2)] using assms(1,2) by (auto simp del: One_nat_def)

lemma check_common_verdict:
  assumes "0 < n" and "\<forall>i < n. rd i = Some (xs ! i)" and "lead_ok (xs ! 0)"
    and "low_follow (xs ! 0) = 0x80"
  shows "check_common rd n 1 = Some (verdict_of xs n)"
  unfolding verdict_of_def first_wrong_from1 [OF assms(1,3,4)] check_common_first [OF assms(2)] ..

lemma check_sequence_verdict:
  assumes rd: "\<forall>i < n. rd i = Some (xs ! i)" and n: "n = sizePfirst_utf8 (xs ! 0)"
  shows "check_sequence rd = Some (verdict_of xs n)"
proof -
  define b where "b = xs ! 0"
  have pos: "0 < n" using sizePfirst_range [of "xs ! 0"] n by simp
  have r0: "rd 0 = Some (xs ! 0)" using rd pos by blast
  note common = check_common_verdict [OF pos rd] and first = check_first_verdict [OF _ rd]
  have bad: "\<not> lead_ok b \<Longrightarrow> verdict_of xs n = Bad 0"
    using first_wrong_lead [OF pos, of xs] by (simp add: verdict_of_def b_def)
  consider "b \<le> 127" | "\<not> lead_ok b" | "lead_ok b" "127 < b" "low_follow b = 0x80"
    | "b = 224" | "b = 240" | "b = 248" | "b = 252"
    by (metis low_follow_def linorder_not_le)
  then show ?thesis
  proof cases
    case 1
    have "b \<le> 191" by (rule order_trans [OF 1]) simp
    then have "n = 1" "lead_ok (xs ! 0)" "low_follow (xs ! 0) = 0x80"
      using 1 by (auto simp: n b_def [symmetric] sizePfirst_cases lead_ok_def low_follow_def)
    then have "verdict_of xs n = Skip 1" using first_wrong_from1 [OF pos, of xs] by (simp add: verdict_of_def)
    then show ?thesis using 1 r0 by (simp add: check_sequence_def b_def)
  next
    case 2
    then have "b \<le> 191 \<or> b \<le> 193 \<or> 253 < b" and not_ascii: "\<not> b \<le> 127"
      by (auto simp: lead_ok_def word_le_nat_alt word_less_nat_alt)
    then consider "b \<le> 191" | "b \<le> 193" | "253 < b" by blast
    then show ?thesis
    proof cases
      case h: 3
      have *: "c \<le> 253 \<Longrightarrow> \<not> b \<le> c" "c \<le> 253 \<Longrightarrow> b \<noteq> c" for c using h by auto
      show ?thesis using bad [OF 2] r0 by (simp add: check_sequence_def b_def [symmetric] *)
    qed (use bad [OF 2] r0 not_ascii in \<open>simp_all add: check_sequence_def b_def\<close>)
  next
    case 3
    then have "check_common rd n 1 = Some (verdict_of xs n)" by (intro common) (simp_all add: b_def)
    moreover have "193 < b" using 3(1,2) by (auto simp: lead_ok_def word_le_nat_alt word_less_nat_alt)
    moreover have "b \<le> 253" "b \<noteq> 224" "b \<noteq> 240" "b \<noteq> 248" "b \<noteq> 252"
      using 3 by (auto simp: lead_ok_def low_follow_def)
    moreover have "\<not> b \<le> 251 \<Longrightarrow> b = 253"
      using \<open>b \<le> 253\<close> \<open>b \<noteq> 252\<close> by (simp add: word_le_nat_alt word_unat_eq_iff)
    moreover have "c \<le> 193 \<Longrightarrow> \<not> b \<le> c" for c using \<open>193 < b\<close> by auto
    ultimately show ?thesis using r0 unfolding check_sequence_def n b_def [symmetric] sizePfirst_cases
      by (cases "b \<le> 223"; cases "b \<le> 239"; cases "b \<le> 247"; cases "b \<le> 251") simp_all
  qed (use first r0 in \<open>simp_all add: check_sequence_def b_def n low_follow_def lead_ok_def sizePfirst_cases\<close>)
qed


section \<open>A text\<close>

text \<open>
  The reference for the validator: sequence by sequence, with the rest at the end that is a
  sequence cut off, or the position of the first byte that is not allowed.
\<close>

datatype scanned = Rest "u8 list" | Wrong nat

primrec shift_wrong :: "nat \<Rightarrow> scanned \<Rightarrow> scanned" where
  "shift_wrong n (Rest p) = Rest p"
| "shift_wrong n (Wrong e) = Wrong (n + e)"

function scan :: "u8 list \<Rightarrow> scanned" where
  "scan xs =
     (if xs = [] then Rest []
      else let n = sizePfirst_utf8 (xs ! 0)
        in case first_wrong xs (min n (length xs)) of
             Some e \<Rightarrow> Wrong e
           | None \<Rightarrow> if length xs < n then Rest xs else shift_wrong n (scan (drop n xs)))"
  by pat_completeness auto

termination scan
proof (relation "measure length", goal_cases)
  case (2 xs n)
  then show ?case using sizePfirst_range [of "xs ! 0"] by (simp; linarith)
qed simp

declare scan.simps [simp del]

lemma scan_Nil [simp]: "scan [] = Rest []"
  by (simp add: scan.simps)

lemma scan_Wrong:
  assumes "e < length xs" and "first_wrong xs (sizePfirst_utf8 (xs ! 0)) = Some e"
  shows "scan xs = Wrong e"
proof -
  have "first_wrong xs (min (sizePfirst_utf8 (xs ! 0)) (length xs)) = Some e"
    using assms by (intro first_wrong_mono [OF assms(2)]) (simp add: first_wrong_Some)
  then show ?thesis using assms(1) by (subst scan.simps) (auto simp: Let_def)
qed

lemma scan_skip:
  assumes "n = sizePfirst_utf8 (xs ! 0)" and "n \<le> length xs" and "first_wrong xs n = None"
  shows "scan xs = shift_wrong n (scan (drop n xs))"
proof -
  have "xs \<noteq> []" using assms(1,2) sizePfirst_range [of "xs ! 0"] by auto
  then show ?thesis using assms by (subst scan.simps) (simp add: Let_def min_absorb1)
qed

text \<open>A sequence cut off, and the object that holds one.\<close>

definition cut :: "u8 list \<Rightarrow> bool" where
  "cut p \<longleftrightarrow> p \<noteq> [] \<and> length p < sizePfirst_utf8 (p ! 0) \<and> (\<forall>i < length p. allowed p i)"

lemma scan_cut: "cut p \<Longrightarrow> scan p = Rest p"
  by (subst scan.simps) (simp add: cut_def Let_def min_absorb2 first_wrong_None [THEN iffD2])

definition holds :: "utf8validator_t \<Rightarrow> u8 list \<Rightarrow> bool" where
  "holds v p \<longleftrightarrow> length (prefix v) = 6 \<and> sizeprefix v = length p \<and>
     (p \<noteq> [] \<longrightarrow> cut p \<and> prefix v = p @ replicate (6 - length p) 0)"

text \<open>What a run over the data from a position on gives.\<close>

definition outcome :: "int \<Rightarrow> scanned \<Rightarrow> (unit cres \<times> utf8validator_t \<times> int option) option \<Rightarrow> bool" where
  "outcome pos sc r \<longleftrightarrow> (\<exists>v. case sc of
       Rest p \<Rightarrow> r = Some (Inr (), v, None) \<and> holds v p
     | Wrong e \<Rightarrow> r = Some (Inl EILSEQ, v, Some (pos + int e)) \<and> holds v [])"

lemma outcome_shift: "outcome (pos + int n) sc r \<Longrightarrow> outcome pos (shift_wrong n sc) r"
  by (cases sc) (auto simp: outcome_def algebra_simps)

lemma not_allowed_zero: "xs \<noteq> [] \<Longrightarrow> k \<noteq> 0 \<Longrightarrow> \<not> allowed (xs @ replicate k 0) (length xs)"
  by (simp add: allowed_def nth_append isfollow_def)

text \<open>The sequence in the prefix, with zeros behind the bytes that are known.\<close>

lemma first_wrong_padded:
  assumes "xs \<noteq> []" and "length xs \<le> n" and "n \<le> 6" and "n = sizePfirst_utf8 (xs ! 0)"
  shows "first_wrong (xs @ replicate (6 - length xs) 0) n =
    (case first_wrong xs (length xs) of Some e \<Rightarrow> Some e
     | None \<Rightarrow> if length xs < n then Some (length xs) else None)"
proof (cases "first_wrong xs (length xs)")
  case None
  then have "\<forall>i < length xs. allowed xs i" by (simp add: first_wrong_None)
  then have a: "\<forall>i < length xs. allowed (xs @ replicate (6 - length xs) 0) i" by (simp add: allowed_append)
  show ?thesis
  proof (cases "length xs < n")
    case True
    then have "\<not> allowed (xs @ replicate (6 - length xs) 0) (length xs)"
      using assms by (intro not_allowed_zero) simp_all
    then show ?thesis using a True None by (simp add: first_wrong_Some)
  next
    case False
    then have n: "n = length xs" using assms(2) by simp
    have "first_wrong (xs @ replicate (6 - length xs) 0) n = None" unfolding first_wrong_None n by (rule a)
    then show ?thesis using None False by simp
  qed
next
  case (Some e)
  then have "first_wrong (xs @ replicate (6 - length xs) 0) n = Some e"
    using assms(2) by (auto simp: first_wrong_Some allowed_append)
  then show ?thesis using Some by simp
qed


section \<open>The validator\<close>

text \<open>The verdict on the bytes at \<open>next\<close>, for a sequence in the data and for the prefix.\<close>

lemma check_data:
  assumes "\<not> inprefix st" and "nxt st + n \<le> length data" and "n = sizePfirst_utf8 (data ! nxt st)"
  shows "check_sequence (vread data st) = Some (verdict_of (drop (nxt st) data) n)"
  using assms by (intro check_sequence_verdict) (auto simp: vread_def)

lemma check_prefix:
  assumes "inprefix st" and "nxt st = 0" and "prefix (val st) = xs @ replicate (6 - length xs) 0"
    and "xs \<noteq> []" and "length xs \<le> n" and "n = sizePfirst_utf8 (xs ! 0)"
  shows "check_sequence (vread data st) = Some (case first_wrong xs (length xs) of Some e \<Rightarrow> Bad e
     | None \<Rightarrow> if length xs < n then Bad (length xs) else Skip n)"
proof -
  have n6: "n \<le> 6" using assms(6) sizePfirst_range by simp
  have "check_sequence (vread data st) = Some (verdict_of (prefix (val st)) n)"
    using assms n6 by (intro check_sequence_verdict) (auto simp: vread_def nth_append)
  then show ?thesis
    unfolding verdict_of_def assms(3) first_wrong_padded [OF assms(4,5) n6 assms(6)]
    by (simp split: option.split)
qed

text \<open>The loop from its head on.\<close>

definition vcontinue :: "u8 list \<Rightarrow> vstate \<Rightarrow> (unit cres \<times> utf8validator_t \<times> int option) option" where
  "vcontinue data st = (case vhead data st of Inl st \<Rightarrow> Some (Inr (), val st, None) | Inr st \<Rightarrow> vloop data st)"

lemma vloop_Skip:
  "check_sequence (vread data st) = Some (Skip n) \<Longrightarrow> vloop data st = vcontinue data (st\<lparr>nxt := nxt st + n\<rparr>)"
  by (subst vloop.simps) (simp add: vcontinue_def)

lemma vloop_Bad:
  "check_sequence (vread data st) = Some (Bad e) \<Longrightarrow> vloop data st = Some (vonerr data st e)"
  by (subst vloop.simps) simp

text \<open>A sequence that the end of the data cuts off is checked and kept.\<close>

lemma vloop_stored:
  assumes "val st = \<lparr>sizeprefix = length p, prefix = p @ replicate (6 - length p) 0\<rparr>"
    and "inprefix st" and "nxt st = 0" and "size_missing st = 0"
    and "p = drop k data" and "p \<noteq> []" and "length p < sizePfirst_utf8 (p ! 0)"
  shows "outcome (int k) (scan p) (vloop data st)"
proof -
  have n6: "length p < 6" using assms(7) sizePfirst_range [of "p ! 0"] by simp
  have kl: "int (length data) - int (length p) = int k" using assms(5,6) by simp
  note chk = check_prefix [OF assms(2,3) _ assms(6) less_imp_le [OF assms(7)] refl, of data, unfolded assms(1)]
  show ?thesis
  proof (cases "first_wrong p (length p)")
    case (Some e)
    then have e: "e < length p" by (simp add: first_wrong_Some)
    have bad: "check_sequence (vread data st) = Some (Bad e)" using chk Some by simp
    have "vloop data st = Some (Inl EILSEQ, (val st)\<lparr>sizeprefix := 0\<rparr>, Some (int k + int e))"
      unfolding vloop_Bad [OF bad] vonerr_def assms(1) Let_def using e assms(4,6) kl by simp
    moreover have "scan p = Wrong e"
      by (rule scan_Wrong [OF e first_wrong_mono [OF Some]]) (use e assms(7) in simp)
    ultimately show ?thesis using n6 by (simp add: outcome_def holds_def assms(1))
  next
    case None
    then have c: "cut p" using assms(6,7) by (simp add: cut_def first_wrong_None)
    have bad: "check_sequence (vread data st) = Some (Bad (length p))" using chk None assms(7) by simp
    have "vloop data st = Some (Inr (), val st, None)"
      unfolding vloop_Bad [OF bad] vonerr_def assms(1) Let_def using assms(6) by simp
    then show ?thesis using c n6 by (simp add: outcome_def holds_def scan_cut assms(1))
  qed
qed

lemma vcontinue_scan:
  assumes "\<not> inprefix st" and "sizeprefix (val st) = 0" and "length (prefix (val st)) = 6"
    and "size_missing st = 0" and "nxt st \<le> length data" and "endnext st \<le> nxt st \<or> endnext st + 6 \<le> length data"
  shows "outcome (int (nxt st)) (scan (drop (nxt st) data)) (vcontinue data st)"
  using assms
proof (induction "length data - nxt st" arbitrary: st rule: less_induct)
  case less
  define n where "n = sizePfirst_utf8 (data ! nxt st)"
  have n: "1 \<le> n" "n \<le> 6" using sizePfirst_range by (simp_all add: n_def)
  have hd: "nxt st < length data \<Longrightarrow> n = sizePfirst_utf8 (drop (nxt st) data ! 0)" by (simp add: n_def)
  have step: "outcome (int (nxt st)) (scan (drop (nxt st) data)) (vloop data (st\<lparr>endnext := e\<rparr>))"
    if "nxt st + n \<le> length data" and "e \<le> nxt st \<or> e + 6 \<le> length data" for e
  proof -
    let ?st = "st\<lparr>endnext := e\<rparr>" and ?xs = "drop (nxt st) data"
    have lt: "nxt st < length data" using that n by simp
    have chk: "check_sequence (vread data ?st) = Some (verdict_of ?xs n)"
      using check_data [of ?st n data] less.prems that by (simp add: n_def)
    show ?thesis
    proof (cases "first_wrong ?xs n")
      case (Some e')
      then have "e' < n" by (simp add: first_wrong_Some)
      then have "e' < length ?xs" using that by simp
      then have "scan ?xs = Wrong e'"
        by (rule scan_Wrong) (simp only: hd [OF lt, symmetric] Some)
      moreover have "vloop data ?st = Some (Inl EILSEQ, val st, Some (int (nxt st) + int e'))"
        using vloop_Bad [of data ?st e'] chk Some less.prems by (simp add: verdict_of_def vonerr_def)
      ultimately show ?thesis using less.prems by (simp add: outcome_def holds_def)
    next
      case None
      have "vloop data ?st = vcontinue data (?st\<lparr>nxt := nxt st + n\<rparr>)"
        using vloop_Skip [of data ?st n] chk None by (simp add: verdict_of_def)
      moreover have "outcome (int (nxt st + n)) (scan (drop (nxt st + n) data)) (vcontinue data (?st\<lparr>nxt := nxt st + n\<rparr>))"
        using less.hyps [of "?st\<lparr>nxt := nxt st + n\<rparr>"] less.prems that n lt by auto
      moreover have "scan ?xs = shift_wrong n (scan (drop (nxt st + n) data))"
        using scan_skip [of n ?xs] hd [OF lt] that None by (simp add: add.commute)
      ultimately show ?thesis by (simp add: outcome_shift)
    qed
  qed
  show ?case
  proof (cases "nxt st < endnext st")
    case True
    then have "vcontinue data st = vloop data (st\<lparr>endnext := endnext st\<rparr>)" by (simp add: vcontinue_def vhead_def)
    moreover have "nxt st + n \<le> length data" using True less.prems n by simp
    ultimately show ?thesis using step [of "endnext st"] less.prems by simp
  next
    case False
    then have h: "vhead data st = vlast data st" using less.prems by (simp add: vhead_def)
    consider "nxt st = length data" | "nxt st < length data" "nxt st + n \<le> length data"
      | "nxt st < length data" "length data < nxt st + n" using less.prems by linarith
    then show ?thesis
    proof cases
      case 1
      then show ?thesis using less.prems
        by (simp add: vcontinue_def h vlast_def outcome_def holds_def)
    next
      case 2
      then have "\<not> length data - nxt st < n" by linarith
      then have "vcontinue data st = vloop data (st\<lparr>endnext := nxt st\<rparr>)"
        using 2(1) by (simp add: vcontinue_def h vlast_def n_def Let_def)
      then show ?thesis using step 2 by simp
    next
      case 3
      let ?p = "drop (nxt st) data"
      let ?st = "st\<lparr>val := \<lparr>sizeprefix = length ?p, prefix = ?p @ replicate (6 - length ?p) 0\<rparr>,
        inprefix := True, nxt := 0, endnext := 0\<rparr>"
      have "length data - nxt st < n" using 3 by linarith
      then have "vcontinue data st = vloop data ?st"
        using 3(1) by (simp add: vcontinue_def h vlast_def n_def Let_def)
      moreover have "outcome (int (nxt st)) (scan ?p) (vloop data ?st)"
        by (rule vloop_stored [where p = ?p]) (use 3 less.prems hd in simp_all)
      ultimately show ?thesis by simp
    qed
  qed
qed


text \<open>A sequence that the last call kept, completed with the first bytes of the data.\<close>

lemma validate_completes:
  assumes "holds v p" and "p \<noteq> []" and "data \<noteq> []"
  shows "outcome (- int (length p)) (scan (p @ data)) (validate_utf8validator v data)"
proof -
  define n where "n = sizePfirst_utf8 (p ! 0)"
  define m where "m = min (length data) (n - length p)"
  define xs where "xs = p @ take m data"
  have h: "cut p" "prefix v = p @ replicate (6 - length p) 0" "sizeprefix v = length p"
    using assms(1,2) by (simp_all add: holds_def)
  then have pn: "length p < n" "\<forall>i < length p. allowed p i" by (simp_all add: cut_def n_def)
  have n6: "n \<le> 6" using sizePfirst_range by (simp add: n_def)
  have m: "m \<le> length data" "0 < m" "length p + m \<le> n" using assms(3) pn by (auto simp: m_def)
  have lx: "length xs = length p + m" and xne: "xs \<noteq> []" using m assms(2) by (simp_all add: xs_def)
  have x0: "xs ! 0 = p ! 0" "(p @ data) ! 0 = p ! 0" using assms(2) by (simp_all add: xs_def nth_append)
  have nx: "n = sizePfirst_utf8 (xs ! 0)" by (simp add: n_def x0)
  have split: "p @ data = xs @ drop m data" by (simp add: xs_def)
  define st where "st = \<lparr>val = \<lparr>sizeprefix = length xs, prefix = xs @ replicate (6 - length xs) 0\<rparr>,
    inprefix = True, nxt = 0, endnext = 0, size_missing = m\<rparr>"
  have start: "validate_utf8validator v data = vloop data st"
  proof -
    have "prefix v ! 0 = p ! 0" using h(2) assms(2) by (simp add: nth_append)
    moreover have "(if length data < n - length p then length data else n - length p) = m" by (simp add: m_def)
    moreover have "blit (length p) (take m data) (prefix v) = xs @ replicate (6 - length xs) 0"
      using m n6 by (simp add: h(2) blit_def lx xs_def)
    ultimately show ?thesis using assms(2,3) m
      by (simp add: validate_utf8validator_def Let_def h(3) n_def [symmetric] st_def lx)
  qed
  have chk: "check_sequence (vread data st) = Some (case first_wrong xs (length xs) of Some e \<Rightarrow> Bad e
     | None \<Rightarrow> if length xs < n then Bad (length xs) else Skip n)"
    by (rule check_prefix) (use xne lx m nx in \<open>simp_all add: st_def\<close>)
  have l6: "length xs \<le> 6" using lx m n6 by simp
  show ?thesis
  proof (cases "first_wrong xs (length xs)")
    case (Some e)
    then have e: "e < length xs" "\<not> allowed xs e" "\<forall>i < e. allowed xs i" by (simp_all add: first_wrong_Some)
    have "\<not> e < length p" using e(2) pn(2) by (auto simp: xs_def allowed_append)
    have bad: "check_sequence (vread data st) = Some (Bad e)" using chk Some by simp
    have "vloop data st = Some (Inl EILSEQ, (val st)\<lparr>sizeprefix := 0\<rparr>, Some (- int (length p) + int e))"
      by (subst vloop_Bad [OF bad]) (use e m lx in \<open>simp add: vonerr_def st_def\<close>)
    moreover have "scan (p @ data) = Wrong e"
    proof (rule scan_Wrong)
      show "first_wrong (p @ data) (sizePfirst_utf8 ((p @ data) ! 0)) = Some e"
      proof -
        have "e < n" "\<not> allowed (xs @ drop m data) e" "\<forall>i < e. allowed (xs @ drop m data) i"
          using e lx m by (simp_all add: allowed_append)
        then show ?thesis using x0(2) by (simp add: first_wrong_Some split n_def)
      qed
    qed (use e in \<open>simp add: split\<close>)
    ultimately show ?thesis using l6 unfolding start by (simp add: outcome_def holds_def st_def)
  next
    case ok: None
    then have all: "\<forall>i < length xs. allowed xs i" by (simp add: first_wrong_None)
    show ?thesis
    proof (cases "length xs < n")
      case True
      then have "m = length data" using lx by (simp add: m_def min_def split: if_splits)
      then have pd: "p @ data = xs" by (simp add: split)
      have bad: "check_sequence (vread data st) = Some (Bad (length xs))" using chk ok True by simp
      have "vloop data st = Some (Inr (), val st, None)"
        by (subst vloop_Bad [OF bad]) (use xne in \<open>simp add: vonerr_def st_def\<close>)
      moreover have "cut xs" using xne True all nx by (simp add: cut_def)
      ultimately show ?thesis using l6 unfolding start pd
        by (simp add: outcome_def holds_def st_def scan_cut)
    next
      case False
      then have ln: "length xs = n" using lx m by simp
      define st' where "st' = \<lparr>val = \<lparr>sizeprefix = 0, prefix = xs @ replicate (6 - length xs) 0\<rparr>,
        inprefix = False, nxt = m, endnext = length data - 6, size_missing = 0\<rparr>"
      have "vloop data st = vcontinue data (st\<lparr>nxt := nxt st + n\<rparr>)"
        by (rule vloop_Skip) (use chk ok False in simp)
      also have "\<dots> = vcontinue data st'"
      proof -
        have "6 \<le> length data - m \<Longrightarrow> length data - 6 \<le> m \<Longrightarrow> length data - 6 = m" by linarith
        then show ?thesis using xne m sizePfirst_range [of "data ! m"]
          by (auto simp: vcontinue_def vhead_def vlast_def maxsize_utf8_def Let_def st_def st'_def)
      qed
      finally have "validate_utf8validator v data = vcontinue data st'" by (simp add: start)
      moreover have "outcome (int m) (scan (drop m data)) (vcontinue data st')"
      proof -
        have "length data - 6 \<le> m \<or> length data - 6 + 6 \<le> length data" by linarith
        then show ?thesis using vcontinue_scan [of st' data] m(1) l6 by (simp add: st'_def)
      qed
      moreover have "scan (p @ data) = shift_wrong n (scan (drop m data))"
      proof -
        have "scan (xs @ drop m data) = shift_wrong n (scan (drop n (xs @ drop m data)))"
          by (rule scan_skip) (use ln nx x0 all xne in \<open>auto simp: first_wrong_None allowed_append nth_append\<close>)
        then show ?thesis by (simp add: split ln [symmetric])
      qed
      ultimately show ?thesis using lx ln by (simp add: outcome_shift)
    qed
  qed
qed


lemma validate_outcome:
  assumes "holds v p"
  shows "outcome (- int (length p)) (scan (p @ data)) (validate_utf8validator v data)"
proof (cases "data = []")
  case True
  have "scan p = Rest p" using assms scan_cut [of p] by (cases "p = []") (simp_all add: holds_def)
  then show ?thesis using True assms by (simp add: outcome_def validate_utf8validator_def Let_def)
next
  case False
  show ?thesis
  proof (cases "p = []")
    case True
    then have h: "sizeprefix v = 0" "length (prefix v) = 6" using assms by (simp_all add: holds_def)
    let ?e = "if length data \<ge> 6 then length data - 6 else 0"
    let ?st = "\<lparr>val = v, inprefix = False, nxt = 0, endnext = ?e, size_missing = 0\<rparr>"
    have "validate_utf8validator v data = vcontinue data ?st"
      using False h by (simp add: validate_utf8validator_def vcontinue_def maxsize_utf8_def Let_def)
    moreover have "outcome (int 0) (scan (drop 0 data)) (vcontinue data ?st)"
      using vcontinue_scan [of ?st data] h by auto
    ultimately show ?thesis using True by simp
  qed (use validate_completes assms False in blast)
qed

text \<open>The validator on a text in blocks: it stops at the first block that it rejects.\<close>

fun validate_blocks :: "utf8validator_t \<Rightarrow> u8 list list \<Rightarrow> (unit cres \<times> utf8validator_t \<times> int option) option" where
  "validate_blocks v [] = Some (Inr (), v, None)"
| "validate_blocks v (d # ds) =
     do {
       (err, v, erroffset) \<leftarrow> validate_utf8validator v d;
       case err of
         Inl e \<Rightarrow> Some (Inl e, v, erroffset)
       | Inr _ \<Rightarrow> validate_blocks v ds
     }"

lemma scan_cases:
  assumes "xs \<noteq> []"
  obtains (wrong) e where "e < length xs" and "first_wrong xs (sizePfirst_utf8 (xs ! 0)) = Some e" and "scan xs = Wrong e"
  | (rest) "cut xs" and "scan xs = Rest xs"
  | (skip) n where "n = sizePfirst_utf8 (xs ! 0)" and "1 \<le> n" and "n \<le> length xs" and "first_wrong xs n = None"
      and "scan xs = shift_wrong n (scan (drop n xs))"
proof -
  define n where "n = sizePfirst_utf8 (xs ! 0)"
  show ?thesis
  proof (cases "first_wrong xs n")
    case None
    show ?thesis
    proof (cases "length xs < n")
      case True
      then have "cut xs" using None assms by (simp add: cut_def n_def first_wrong_None)
      then show ?thesis by (rule rest) (rule scan_cut [OF \<open>cut xs\<close>])
    next
      case False
      then show ?thesis
        using None skip [of n] scan_skip [of n xs] sizePfirst_range [of "xs ! 0"] by (simp add: n_def)
    qed
  next
    case (Some e)
    show ?thesis
    proof (cases "e < length xs")
      case True
      then show ?thesis using Some wrong [of e] scan_Wrong [of e xs] by (simp add: n_def)
    next
      case False
      then have "cut xs" using Some assms by (auto simp: cut_def n_def first_wrong_Some)
      then show ?thesis by (rule rest) (rule scan_cut [OF \<open>cut xs\<close>])
    qed
  qed
qed

lemma scan_skip_append:
  assumes "n = sizePfirst_utf8 (xs ! 0)" and "n \<le> length xs" and "first_wrong xs n = None" and "xs \<noteq> []"
  shows "scan (xs @ ys) = shift_wrong n (scan (drop n xs @ ys))"
proof -
  have "scan (xs @ ys) = shift_wrong n (scan (drop n (xs @ ys)))"
    by (rule scan_skip) (use assms in \<open>auto simp: nth_append first_wrong_None allowed_append\<close>)
  then show ?thesis using assms(2) by simp
qed

lemma shift_wrong_0 [simp]: "shift_wrong 0 r = r"
  by (cases r) simp_all

lemma shift_wrong_shift [simp]: "shift_wrong m (shift_wrong n r) = shift_wrong (m + n) r"
  by (cases r) simp_all

lemma scan_Rest_append:
  "scan xs = Rest p \<Longrightarrow> length p \<le> length xs \<and> scan (xs @ ys) = shift_wrong (length xs - length p) (scan (p @ ys))"
proof (induction xs arbitrary: p rule: measure_induct_rule [where f = length])
  case (less xs)
  show ?case
  proof (cases "xs = []")
    case False
    then show ?thesis
    proof (cases rule: scan_cases)
      case (skip n)
      then have r: "scan (drop n xs) = Rest p" using less.prems by (cases "scan (drop n xs)") simp_all
      have "length (drop n xs) < length xs" using skip False by simp
      note ih = less.IH [OF this r]
      then have "length p \<le> length xs \<and> n + (length (drop n xs) - length p) = length xs - length p"
        using skip(3) unfolding length_drop by linarith
      then show ?thesis using ih scan_skip_append [OF skip(1,3,4) False, of ys] by (simp del: length_drop)
    qed (use less.prems in simp_all)
  qed (use less.prems in simp)
qed

lemma scan_Wrong_append: "scan xs = Wrong e \<Longrightarrow> scan (xs @ ys) = Wrong e \<and> e < length xs"
proof (induction xs arbitrary: e rule: measure_induct_rule [where f = length])
  case (less xs)
  have ne: "xs \<noteq> []" using less.prems by auto
  then show ?case
  proof (cases rule: scan_cases)
    case (wrong e')
    have "scan (xs @ ys) = Wrong e'"
      using wrong(1,2) ne by (intro scan_Wrong) (auto simp: first_wrong_Some allowed_append nth_append)
    then show ?thesis using wrong less.prems by simp
  next
    case (skip n)
    then obtain e' where r: "scan (drop n xs) = Wrong e'" "e = n + e'"
      using less.prems by (cases "scan (drop n xs)") simp_all
    have "length (drop n xs) < length xs" using skip ne by simp
    note ih = less.IH [OF this r(1)]
    then have "n + e' < length xs" using skip(3) unfolding length_drop by linarith
    then show ?thesis using ih scan_skip_append [OF skip(1,3,4) ne, of ys] r(2) by simp
  qed (use less.prems in simp)
qed

lemma scan_Wrong_cut:
  assumes "cut p" and "scan (p @ d) = Wrong e"
  shows "length p \<le> e"
proof -
  have c: "p \<noteq> []" "length p < sizePfirst_utf8 ((p @ d) ! 0)" "\<forall>i < length p. allowed (p @ d) i"
    using assms(1) by (auto simp: cut_def nth_append allowed_append)
  have "p @ d \<noteq> []" using c(1) by simp
  then show ?thesis
  proof (cases rule: scan_cases)
    case (wrong e')
    then show ?thesis using assms(2) c(3) by (auto simp: first_wrong_Some not_le [symmetric])
  next
    case (skip n)
    then show ?thesis using assms(2) c(2) by (cases "scan (drop n (p @ d))") auto
  qed (use assms(2) in simp)
qed

text \<open>The offset of an error counts from the start of the block that contains the wrong byte.\<close>

lemma validate_blocks_outcome:
  assumes "holds v p"
  shows "\<exists>err v' off. validate_blocks v ds = Some (err, v', off) \<and>
    (case scan (p @ concat ds) of
       Rest q \<Rightarrow> err = Inr () \<and> holds v' q
     | Wrong e \<Rightarrow> err = Inl EILSEQ \<and> holds v' [] \<and>
         (\<exists>ds1 d ds2 i. ds = ds1 @ d # ds2 \<and> off = Some (int i) \<and> i < length d \<and>
            e = length p + length (concat ds1) + i))"
  using assms
proof (induction ds arbitrary: v p)
  case Nil
  have "scan p = Rest p" using Nil scan_cut [of p] by (cases "p = []") (simp_all add: holds_def)
  then show ?case using Nil by simp
next
  case (Cons d ds)
  note V = validate_outcome [OF Cons.prems, of d]
  show ?case
  proof (cases "scan (p @ d)")
    case (Wrong e)
    have "length p \<le> e"
      using scan_Wrong_cut [OF _ Wrong] Cons.prems by (cases "p = []") (simp_all add: holds_def)
    moreover have "e < length (p @ d)" using scan_Wrong_append [OF Wrong] by blast
    ultimately obtain i where i: "e = length p + i" "i < length d" using le_Suc_ex by fastforce
    from V Wrong obtain v' where v': "validate_utf8validator v d = Some (Inl EILSEQ, v', Some (int i))" "holds v' []"
      by (auto simp: outcome_def i)
    have "d # ds = [] @ d # ds" by simp
    moreover have "scan (p @ concat (d # ds)) = Wrong e" using scan_Wrong_append [OF Wrong, of "concat ds"] by simp
    ultimately show ?thesis using v' i by fastforce
  next
    case (Rest q)
    from V Rest obtain v' where v': "validate_utf8validator v d = Some (Inr (), v', None)" "holds v' q"
      by (auto simp: outcome_def)
    note A = scan_Rest_append [OF Rest, of "concat ds"]
    have sc: "scan (p @ concat (d # ds)) = shift_wrong (length p + length d - length q) (scan (q @ concat ds))"
      using A by simp
    have eq: "validate_blocks v (d # ds) = validate_blocks v' ds" using v'(1) by simp
    show ?thesis
    proof (cases "scan (q @ concat ds)")
      case r: (Rest q')
      then show ?thesis using Cons.IH [OF v'(2)] unfolding eq sc by simp
    next
      case w: (Wrong e')
      with Cons.IH [OF v'(2)] obtain err v'' ds1 d' ds2 i where
        X: "validate_blocks v' ds = Some (Inl EILSEQ, v'', Some (int i))" "holds v'' []" "ds = ds1 @ d' # ds2"
          "i < length d'" "e' = length q + length (concat ds1) + i"
        by auto
      have "d # ds = (d # ds1) @ d' # ds2" using X(3) by simp
      moreover have "length p + length d - length q + e' = length p + length (concat (d # ds1)) + i"
        using X(5) A by simp
      ultimately show ?thesis using X(1,2,4) unfolding eq sc w shift_wrong.simps scanned.case by blast
    qed
  qed
qed

end
