(* ===== verification/Str_Utf8_Text.thy ===== *)
theory Str_Utf8_Text
  imports Str_Utf8
begin

text \<open>
  What the operations of \<open>Str_Utf8\<close> mean for texts: the encodings of characters are exactly the
  sequences that the validator accepts, decoding inverts encoding, and a string that is the
  concatenation of encodings has a length and positions of characters.
\<close>

section \<open>Following bytes as digits\<close>

text \<open>\<open>k\<close> following bytes with the lowest digits to the base 64 of a number, and the number of a
  list of them continued from \<open>a\<close>.\<close>

fun follows :: "nat \<Rightarrow> nat \<Rightarrow> u8 list" where
  "follows 0 c = []"
| "follows (Suc k) c = follows k (c div 64) @ [of_nat (128 + c mod 64)]"

lemma follows_numeral [simp]:
  "follows (numeral k) c = follows (pred_numeral k) (c div 64) @ [of_nat (128 + c mod 64)]"
  by (simp only: numeral_eq_Suc [of k] follows.simps(2))

definition follow_value :: "u8 list \<Rightarrow> nat \<Rightarrow> nat" where
  "follow_value bs a = foldl (\<lambda>v b. v * 64 + (unat b - 128)) a bs"

lemma length_follows [simp]: "length (follows k c) = k"
  by (induction k arbitrary: c) simp_all

lemma unat_of_nat_u8: "n < 256 \<Longrightarrow> unat (of_nat n :: u8) = n"
  by (simp add: unat_of_nat take_bit_eq_mod)

lemma isfollow_unat: "isfollow b \<longleftrightarrow> 128 \<le> unat b \<and> unat b \<le> 191"
  by (simp add: isfollow_range word_le_nat_alt)

lemma isfollow_of_nat: "d < 64 \<Longrightarrow> isfollow (of_nat (128 + d))"
  unfolding isfollow_unat by (subst (1 2) unat_of_nat_u8) simp_all

lemma follows_isfollow: "b \<in> set (follows k c) \<Longrightarrow> isfollow b"
  by (induction k arbitrary: c) (auto simp del: of_nat_add intro!: isfollow_of_nat)

lemma follows_follow_value:
  "\<forall>b \<in> set bs. isfollow b \<Longrightarrow>
   follows (length bs) (follow_value bs a) = bs \<and> follow_value bs a div 64 ^ length bs = a"
proof (induction bs rule: rev_induct)
  case Nil
  then show ?case by (simp add: follow_value_def)
next
  case (snoc b bs)
  define d where "d = unat b - 128"
  have b: "128 \<le> unat b" "unat b \<le> 191" using snoc.prems by (simp_all add: isfollow_unat)
  then have d: "d < 64" by (simp add: d_def)
  have v: "follow_value (bs @ [b]) a = follow_value bs a * 64 + d" by (simp add: follow_value_def d_def)
  have "(of_nat (128 + d) :: u8) = b"
    using b by (subst word_unat_eq_iff, subst unat_of_nat_u8) (simp_all add: d_def)
  then show ?case using snoc d unfolding v by (simp add: div_mult2_eq del: of_nat_add)
qed

text \<open>The first of the following bytes carries the highest digit.\<close>

lemma hd_follows: "unat (follows (Suc k) c ! 0) = 128 + c div 64 ^ k mod 64"
proof (induction k arbitrary: c)
  case 0
  then show ?case by (simp add: unat_of_nat_u8 del: of_nat_add)
next
  case (Suc k)
  have "follows (Suc (Suc k)) c ! 0 = follows (Suc k) (c div 64) ! 0"
    by (subst follows.simps(2)) (simp add: nth_append del: follows.simps)
  then show ?case using Suc [of "c div 64"] by (simp add: div_mult2_eq del: follows.simps)
qed

section \<open>Encodings\<close>

text \<open>The number of following bytes, the marker in the first byte and the characters of a size.\<close>

definition lead_base :: "nat \<Rightarrow> nat" where
  "lead_base k = [0, 0xC0, 0xE0, 0xF0, 0xF8, 0xFC] ! k"

definition class_limit :: "nat \<Rightarrow> nat" where
  "class_limit k = [0, 0x80, 0x800, 0x10000, 0x200000, 0x4000000, 0x80000000] ! k"

abbreviation encoding :: "u32 \<Rightarrow> u8 list" where
  "encoding c \<equiv> encodechar_utf8 c maxsize_utf8"

lemma or_lead:
  fixes x :: u32
  assumes "unat x < 2 ^ k" and "2 ^ k dvd unat m" and "unat m + unat x < 256"
  shows "ucast (m OR x) = (of_nat (unat m + unat x) :: u8)"
proof -
  have "unat (m OR x) = unat m + unat x"
    using assms by (subst or_eq_add_dvd [OF assms(2,1)], subst unat_add_no_wrap) simp_all
  then show ?thesis
    using assms(3) by (simp add: word_unat_eq_iff unat_ucast_mod unat_of_nat_u8 del: of_nat_add)
qed

lemma encode_follow: "ucast (0x80 OR (drop_bit n c AND 0x3f)) = (of_nat (128 + unat c div 2 ^ n mod 64) :: u8)" for c :: u32
proof -
  have "drop_bit n c AND 0x3f = take_bit 6 (drop_bit n c)" by (simp add: take_bit_eq_mask mask_eq_exp_minus_1)
  then have x: "unat (drop_bit n c AND 0x3f) = unat c div 2 ^ n mod 64"
    by (simp add: take_bit_eq_mod unat_mod unat_drop_bit)
  have "unat c div 2 ^ n mod 64 < 64" by simp
  then show ?thesis using or_lead [where x = "drop_bit n c AND 0x3f" and k = 6 and m = "0x80"] unfolding x by simp
qed

lemma div_64 [simp]:
  fixes n :: nat
  shows "n div 64 div 64 = n div 4096" and "n div 4096 div 64 = n div 262144"
    and "n div 262144 div 64 = n div 16777216" and "n div 16777216 div 64 = n div 1073741824"
  using div_mult2_eq [of n 64 64] div_mult2_eq [of n 4096 64] div_mult2_eq [of n 262144 64]
    div_mult2_eq [of n 16777216 64] by simp_all

lemma encoding_digits:
  assumes "class_limit k \<le> unat c" and "unat c < class_limit (Suc k)" and "k \<le> 5"
  shows "encoding c = of_nat (lead_base k + unat c div 64 ^ k) # follows k (unat c)"
proof -
  consider "k = 0" | "k = 1" | "k = 2" | "k = 3" | "k = 4" | "k = 5" using assms(3) by linarith
  then show ?thesis
  proof cases
    case 1
    then have "unat c < 128" using assms by (simp add: class_limit_def)
    then show ?thesis using 1
      by (simp add: encodechar_utf8_def maxsize_utf8_def lead_base_def word_le_nat_alt word_unat_eq_iff
          unat_ucast_mod unat_of_nat_u8)
  next
    case 2
    then have c: "128 \<le> unat c" "unat c < 0x800" using assms by (simp_all add: class_limit_def)
    have "ucast (0xC0 OR drop_bit 6 c) = (of_nat (0xC0 + unat c div 64) :: u8)"
      using or_lead [where x = "drop_bit 6 c" and k = 5 and m = "0xC0"] c by (simp add: unat_drop_bit)
    then show ?thesis using 2 c encode_follow [of 0 c]
      by (simp add: encodechar_utf8_def maxsize_utf8_def lead_base_def word_le_nat_alt Let_def)
  next
    case 3
    then have c: "0x800 \<le> unat c" "unat c < 0x10000" using assms by (simp_all add: class_limit_def)
    have "ucast (0xE0 OR drop_bit 12 c) = (of_nat (0xE0 + unat c div 64 ^ 2) :: u8)"
      using or_lead [where x = "drop_bit 12 c" and k = 4 and m = "0xE0"] c by (simp add: unat_drop_bit)
    then show ?thesis using 3 c encode_follow [of 0 c] encode_follow [of 6 c]
      by (simp add: encodechar_utf8_def maxsize_utf8_def lead_base_def word_le_nat_alt Let_def)
  next
    case 4
    then have c: "0x10000 \<le> unat c" "unat c < 0x200000" using assms by (simp_all add: class_limit_def)
    have "ucast (0xF0 OR drop_bit 18 c) = (of_nat (0xF0 + unat c div 64 ^ 3) :: u8)"
      using or_lead [where x = "drop_bit 18 c" and k = 3 and m = "0xF0"] c by (simp add: unat_drop_bit)
    then show ?thesis using 4 c encode_follow [of 0 c] encode_follow [of 6 c] encode_follow [of 12 c]
      by (simp add: encodechar_utf8_def maxsize_utf8_def lead_base_def word_le_nat_alt Let_def)
  next
    case 5
    then have c: "0x200000 \<le> unat c" "unat c < 0x4000000" using assms by (simp_all add: class_limit_def)
    have "ucast (0xF8 OR drop_bit 24 c) = (of_nat (0xF8 + unat c div 64 ^ 4) :: u8)"
      using or_lead [where x = "drop_bit 24 c" and k = 2 and m = "0xF8"] c by (simp add: unat_drop_bit)
    then show ?thesis using 5 c encode_follow [of 0 c] encode_follow [of 6 c] encode_follow [of 12 c]
        encode_follow [of 18 c]
      by (simp add: encodechar_utf8_def maxsize_utf8_def lead_base_def word_le_nat_alt Let_def)
  next
    case 6
    then have c: "0x4000000 \<le> unat c" "unat c < 0x80000000" using assms by (simp_all add: class_limit_def)
    have "ucast (0xFC OR drop_bit 30 c) = (of_nat (0xFC + unat c div 64 ^ 5) :: u8)"
      using or_lead [where x = "drop_bit 30 c" and k = 1 and m = "0xFC"] c by (simp add: unat_drop_bit)
    then show ?thesis using 6 c encode_follow [of 0 c] encode_follow [of 6 c] encode_follow [of 12 c]
        encode_follow [of 18 c] encode_follow [of 24 c]
      by (simp add: encodechar_utf8_def maxsize_utf8_def lead_base_def word_le_nat_alt Let_def)
  qed
qed


text \<open>The class of a character and what its first byte says.\<close>

definition in_class :: "nat \<Rightarrow> nat \<Rightarrow> bool" where
  "in_class k c \<longleftrightarrow> k \<le> 5 \<and> class_limit k \<le> c \<and> c < class_limit (Suc k)"

lemma class_cases:
  "k \<le> 5 \<Longrightarrow> k = 0 \<or> k = 1 \<or> k = 2 \<or> k = 3 \<or> k = 4 \<or> k = (5 :: nat)"
  by linarith

lemma in_some_class:
  assumes "c < 2 ^ 31"
  obtains k where "in_class k c"
proof -
  have "\<exists>k. in_class k c"
  proof (rule ccontr)
    assume "\<nexists>k. in_class k c"
    then have "\<not> in_class 0 c" "\<not> in_class 1 c" "\<not> in_class 2 c" "\<not> in_class 3 c" "\<not> in_class 4 c" "\<not> in_class 5 c"
      by blast+
    then show False using assms by (simp add: in_class_def class_limit_def)
  qed
  then show ?thesis using that by blast
qed

lemma lead_ok_unat: "lead_ok b \<longleftrightarrow> unat b \<le> 127 \<or> 194 \<le> unat b \<and> unat b \<le> 253"
  by (simp add: lead_ok_def word_le_nat_alt)

lemma low_follow_unat: "unat (low_follow b) = (if unat b = 224 then 160 else if unat b = 240 then 144
   else if unat b = 248 then 136 else if unat b = 252 then 132 else 128)"
  by (simp add: low_follow_def word_unat_eq_iff)

lemma sizePfirst_unat: "sizePfirst_utf8 b = (if unat b \<le> 191 then 1 else if unat b \<le> 223 then 2
   else if unat b \<le> 239 then 3 else if unat b \<le> 247 then 4 else if unat b \<le> 251 then 5 else 6)"
  unfolding sizePfirst_cases by (simp add: word_le_nat_alt)

lemma lead_facts:
  assumes "in_class k c" and "b = of_nat (lead_base k + c div 64 ^ k)"
  shows "lead_ok b" and "sizePfirst_utf8 b = Suc k"
    and "2 \<le> k \<Longrightarrow> c div 64 ^ k = 0 \<Longrightarrow> unat (low_follow b) = 128 + class_limit k div 64 ^ (k - 1)"
    and "k < 2 \<or> c div 64 ^ k \<noteq> 0 \<Longrightarrow> unat (low_follow b) = 128"
proof -
  have ub: "unat b = lead_base k + c div 64 ^ k"
  proof -
    have "lead_base k + c div 64 ^ k < 256"
      using assms(1) class_cases [of k] by (auto simp: in_class_def lead_base_def class_limit_def)
    then show ?thesis unfolding assms(2) by (rule unat_of_nat_u8)
  qed
  have k: "k = 0 \<or> k = 1 \<or> k = 2 \<or> k = 3 \<or> k = 4 \<or> k = 5"
    using assms(1) class_cases [of k] by (simp add: in_class_def)
  show "lead_ok b"
    using k assms(1) unfolding lead_ok_unat ub by (auto simp: in_class_def lead_base_def class_limit_def)
  show "sizePfirst_utf8 b = Suc k"
    using k assms(1) unfolding sizePfirst_unat ub by (auto simp: in_class_def lead_base_def class_limit_def)
  show "unat (low_follow b) = 128 + class_limit k div 64 ^ (k - 1)" if "2 \<le> k" "c div 64 ^ k = 0"
    using k that unfolding low_follow_unat ub by (auto simp: lead_base_def class_limit_def)
  show "unat (low_follow b) = 128" if "k < 2 \<or> c div 64 ^ k \<noteq> 0"
    using k assms(1) that unfolding low_follow_unat ub
    by (auto simp: in_class_def lead_base_def class_limit_def)
qed

text \<open>An encoding is a complete sequence of allowed bytes.\<close>

definition whole :: "u8 list \<Rightarrow> bool" where
  "whole xs \<longleftrightarrow> xs \<noteq> [] \<and> length xs = sizePfirst_utf8 (xs ! 0) \<and> (\<forall>i < length xs. allowed xs i)"

lemma encoding_class: "in_class k (unat c) \<Longrightarrow> encoding c = of_nat (lead_base k + unat c div 64 ^ k) # follows k (unat c)"
  by (rule encoding_digits) (simp_all add: in_class_def)

lemma class_first_digit:
  assumes "in_class (Suc k) c" and "c div 64 ^ Suc k = 0"
  shows "class_limit (Suc k) div 64 ^ k \<le> c div 64 ^ k mod 64"
proof -
  have "c div 64 ^ k < 64" using assms(2) by (simp add: div_eq_0_iff less_mult_imp_div_less)
  then show ?thesis using assms(1) by (simp add: in_class_def div_le_mono)
qed

lemma whole_encoding:
  assumes "unat c < 2 ^ 31"
  shows "whole (encoding c)"
proof -
  obtain k where k: "in_class k (unat c)" using in_some_class [OF assms] .
  define b where "b = (of_nat (lead_base k + unat c div 64 ^ k) :: u8)"
  note L = lead_facts [OF k b_def]
  have e: "encoding c = b # follows k (unat c)" unfolding encoding_class [OF k] b_def ..
  have "allowed (encoding c) i" if "i < length (encoding c)" for i
  proof (cases i)
    case 0
    then show ?thesis using L(1) by (simp add: allowed_def e)
  next
    case (Suc j)
    then have j: "j < k" using that by (simp add: e)
    then have f: "isfollow (follows k (unat c) ! j)" using follows_isfollow by (metis nth_mem length_follows)
    have "low_follow b \<le> follows k (unat c) ! 0" if "j = 0"
    proof -
      obtain k' where k': "k = Suc k'" using j by (cases k) simp_all
      have v: "unat (follows k (unat c) ! 0) = 128 + unat c div 64 ^ k' mod 64" unfolding k' by (rule hd_follows)
      show ?thesis
      proof (cases "2 \<le> k \<and> unat c div 64 ^ k = 0")
        case True
        then show ?thesis using L(3) class_first_digit [of k' "unat c"] k
          unfolding word_le_nat_alt v by (simp add: k')
      next
        case False
        then show ?thesis using L(4) unfolding word_le_nat_alt v by auto
      qed
    qed
    then show ?thesis using f Suc by (auto simp: allowed_def e)
  qed
  then show ?thesis using L(2) by (simp add: whole_def e)
qed


text \<open>Conversely such a sequence is the encoding of a character.\<close>

lemma lead_split:
  assumes "lead_ok b" and "sizePfirst_utf8 b = Suc k"
  obtains h where "unat b = lead_base k + h" and "k \<le> 5" and "(h + 1) * 64 ^ k \<le> class_limit (Suc k)"
    and "k < 2 \<Longrightarrow> class_limit k \<le> h * 64 ^ k" and "h \<noteq> 0 \<Longrightarrow> class_limit k \<le> h * 64 ^ k"
proof -
  have b: "unat b < 256" by (rule unat_u8_bound)
  have k5: "k \<le> 5" using assms(2) sizePfirst_range [of b] by simp
  have "\<exists>h. unat b = lead_base k + h \<and> (h + 1) * 64 ^ k \<le> class_limit (Suc k) \<and>
    (k < 2 \<longrightarrow> class_limit k \<le> h * 64 ^ k) \<and> (h \<noteq> 0 \<longrightarrow> class_limit k \<le> h * 64 ^ k)"
  proof (rule exI [where x = "unat b - lead_base k"])
    show "unat b = lead_base k + (unat b - lead_base k) \<and> (unat b - lead_base k + 1) * 64 ^ k \<le> class_limit (Suc k) \<and>
      (k < 2 \<longrightarrow> class_limit k \<le> (unat b - lead_base k) * 64 ^ k) \<and>
      (unat b - lead_base k \<noteq> 0 \<longrightarrow> class_limit k \<le> (unat b - lead_base k) * 64 ^ k)"
      using class_cases [OF k5] assms(1,2) unfolding lead_ok_unat sizePfirst_unat
      by (elim disjE) (simp_all add: lead_base_def class_limit_def split: if_splits, (arith | simp)+)
  qed
  then show ?thesis using that k5 by blast
qed

lemma class_limit_dvd: "2 \<le> k \<Longrightarrow> k \<le> 5 \<Longrightarrow> class_limit k div 64 ^ (k - 1) * 64 ^ (k - 1) = class_limit k"
  using class_cases [of k] by (auto simp: class_limit_def)

lemma whole_is_encoding:
  assumes "whole xs"
  obtains c where "unat c < 2 ^ 31" and "xs = encoding c"
proof -
  obtain b fs where xs: "xs = b # fs" using assms by (cases xs) (auto simp: whole_def)
  define k where "k = length fs"
  have size: "sizePfirst_utf8 b = Suc k" and ok: "lead_ok b" and all: "\<forall>i < Suc k. allowed xs i"
    using assms by (auto simp: whole_def xs k_def allowed_def)
  have f: "isfollow (fs ! j)" if "j < k" for j
    using all [rule_format, of "Suc j"] that by (simp add: allowed_def xs)
  obtain h where h: "unat b = lead_base k + h" "k \<le> 5" "(h + 1) * 64 ^ k \<le> class_limit (Suc k)"
      "k < 2 \<Longrightarrow> class_limit k \<le> h * 64 ^ k" "h \<noteq> 0 \<Longrightarrow> class_limit k \<le> h * 64 ^ k"
    using lead_split [OF ok size] by metis
  define c where "c = follow_value fs h"
  have fc: "follows k c = fs" "c div 64 ^ k = h"
  proof -
    have "\<forall>b \<in> set fs. isfollow b" using f by (auto simp: in_set_conv_nth k_def)
    from follows_follow_value [OF this, of h] show "follows k c = fs" "c div 64 ^ k = h"
      by (simp_all add: c_def k_def)
  qed
  have ch: "c < (h + 1) * 64 ^ k" "h * 64 ^ k \<le> c"
  proof -
    have "c = h * 64 ^ k + c mod 64 ^ k" using fc(2) by (metis div_mult_mod_eq)
    moreover have "c mod 64 ^ k < 64 ^ k" by simp
    ultimately show "c < (h + 1) * 64 ^ k" "h * 64 ^ k \<le> c" by (simp_all add: algebra_simps; linarith)+
  qed
  have "class_limit k \<le> c"
  proof (cases "k < 2 \<or> h \<noteq> 0")
    case True
    then show ?thesis using h(4,5) ch(2) by linarith
  next
    case False
    then have k2: "2 \<le> k" and h0: "h = 0" by simp_all
    obtain k' where k': "k = Suc k'" using k2 by (cases k) simp_all
    have lb: "unat b = lead_base k" using h(1) h0 by simp
    have low: "unat (low_follow b) = 128 + class_limit k div 64 ^ (k - 1)"
      using class_cases [OF h(2)] k2 unfolding low_follow_unat lb by (auto simp: lead_base_def class_limit_def)
    have "low_follow b \<le> fs ! 0" using all [rule_format, of 1] k2 by (simp add: allowed_def xs)
    then have "128 + class_limit k div 64 ^ k' \<le> 128 + c div 64 ^ k' mod 64"
      using low hd_follows [of k' c] fc(1) by (simp add: word_le_nat_alt k')
    then have "class_limit k div 64 ^ k' \<le> c div 64 ^ k'"
      using mod_less_eq_dividend [of "c div 64 ^ k'" 64] by linarith
    then have "class_limit k div 64 ^ k' * 64 ^ k' \<le> c div 64 ^ k' * 64 ^ k'" by (rule mult_right_mono) simp
    also have "\<dots> \<le> c" by simp
    finally show ?thesis using class_limit_dvd [OF k2 h(2)] by (simp add: k')
  qed
  then have k: "in_class k c" using h(2,3) ch(1) by (simp add: in_class_def)
  have c31: "c < 2 ^ 31"
    using k class_cases [OF h(2)] by (auto simp: in_class_def class_limit_def)
  then have u: "unat (of_nat c :: u32) = c" by (simp add: unat_of_nat take_bit_eq_mod)
  have "of_nat (lead_base k + c div 64 ^ k) = b" unfolding fc(2) h(1) [symmetric] by simp
  then have "encoding (of_nat c) = xs"
    using encoding_class [of k "of_nat c"] k fc(1) unfolding u xs by simp
  then show ?thesis using that [of "of_nat c"] c31 u by simp
qed

section \<open>Texts\<close>

definition text_of :: "u32 list \<Rightarrow> u8 list" where
  "text_of cs = concat (map encoding cs)"

definition is_char :: "u32 \<Rightarrow> bool" where
  "is_char c \<longleftrightarrow> c \<le> maxchar_utf8"

lemma is_char_unat: "is_char c \<longleftrightarrow> unat c < 2 ^ 31"
  by (auto simp: is_char_def maxchar_utf8_def word_le_nat_alt)

lemma scan_encoding: "is_char c \<Longrightarrow> scan (encoding c @ ys) = shift_wrong (length (encoding c)) (scan ys)"
  using whole_encoding [of c] scan_skip_append [of "length (encoding c)" "encoding c" ys]
  by (simp add: is_char_unat whole_def first_wrong_None)

lemma scan_text: "\<forall>c \<in> set cs. is_char c \<Longrightarrow> scan (text_of cs @ ys) = shift_wrong (length (text_of cs)) (scan ys)"
  by (induction cs) (simp_all add: text_of_def scan_encoding)

text \<open>The reference scan accepts a text with a cut sequence behind it, and nothing else.\<close>

lemma scan_Rest_text:
  "scan xs = Rest p \<Longrightarrow> \<exists>cs. xs = text_of cs @ p \<and> (\<forall>c \<in> set cs. is_char c) \<and> (p = [] \<or> cut p)"
proof (induction xs rule: measure_induct_rule [where f = length])
  case (less xs)
  show ?case
  proof (cases "xs = []")
    case True
    then show ?thesis using less.prems by (intro exI [of _ "[]"]) (simp add: text_of_def)
  next
    case False
    then show ?thesis
    proof (cases rule: scan_cases)
      case rest
      then show ?thesis using less.prems by (intro exI [of _ "[]"]) (simp add: text_of_def)
    next
      case (skip n)
      then have r: "scan (drop n xs) = Rest p" using less.prems by (cases "scan (drop n xs)") simp_all
      have "length (drop n xs) < length xs" using skip False by simp
      from less.IH [OF this r] obtain cs where
        cs: "drop n xs = text_of cs @ p" "\<forall>c \<in> set cs. is_char c" "p = [] \<or> cut p" by blast
      have "whole (take n xs)"
      proof -
        have "allowed (take n xs) i = allowed xs i" if "i < n" for i
          using allowed_append [of i "take n xs" "drop n xs"] that skip(3) by simp
        then show ?thesis using skip False by (auto simp: whole_def first_wrong_None)
      qed
      then obtain c where c: "unat c < 2 ^ 31" "take n xs = encoding c" by (rule whole_is_encoding)
      have "xs = take n xs @ drop n xs" by simp
      then have "xs = text_of (c # cs) @ p" using cs(1) c(2) by (simp add: text_of_def)
      then show ?thesis using cs c by (intro exI [of _ "c # cs"]) (simp add: is_char_unat)
    qed (use less.prems in simp)
  qed
qed


text \<open>A cut sequence can be completed to an encoding.\<close>

definition completed :: "u8 list \<Rightarrow> u8 list" where
  "completed p = map (\<lambda>i. if i < length p then p ! i else if i = 1 then low_follow (p ! 0) else 0x80)
     [0..<sizePfirst_utf8 (p ! 0)]"

lemma isfollow_low: "isfollow (low_follow b)"
  by (simp add: low_follow_def isfollow_range)

lemma low_follow_le: "low_follow b \<le> 0x80 \<or> low_follow b > 0x80"
  by auto

lemma completed_whole:
  assumes "cut p"
  shows "whole (completed p)" and "completed p = p @ drop (length p) (completed p)" and "drop (length p) (completed p) \<noteq> []"
proof -
  have c: "p \<noteq> []" "length p < sizePfirst_utf8 (p ! 0)" "\<forall>i < length p. allowed p i" using assms by (simp_all add: cut_def)
  have len: "length (completed p) = sizePfirst_utf8 (p ! 0)" by (simp add: completed_def)
  have zero: "completed p ! 0 = p ! 0" using c by (simp add: completed_def)
  have nth: "i < length p \<Longrightarrow> completed p ! i = p ! i" for i using c by (simp add: completed_def)
  have new: "length p \<le> i \<Longrightarrow> i < sizePfirst_utf8 (p ! 0) \<Longrightarrow>
    completed p ! i = (if i = 1 then low_follow (p ! 0) else 0x80)" for i
    by (simp add: completed_def)
  have "allowed (completed p) i" if "i < sizePfirst_utf8 (p ! 0)" for i
  proof (cases "i < length p")
    case True
    have "i = 1 \<Longrightarrow> completed p ! 1 = p ! 1" using nth True by simp
    then show ?thesis using c(3) True zero nth [OF True] by (auto simp: allowed_def)
  next
    case False
    then have "i \<noteq> 0" using c(1) by (cases i) simp_all
    then show ?thesis using new [of i] False that zero isfollow_low
      by (auto simp: allowed_def isfollow_range)
  qed
  then show "whole (completed p)" using c(2) zero len by (auto simp: whole_def)
  have "take (length p) (completed p) = p"
    by (rule nth_equalityI) (use len c(2) nth in auto)
  then show "completed p = p @ drop (length p) (completed p)" by (metis append_take_drop_id)
  show "drop (length p) (completed p) \<noteq> []" using len c(2) by simp
qed

text \<open>The beginning of a text.\<close>

definition starts_text :: "u8 list \<Rightarrow> bool" where
  "starts_text xs \<longleftrightarrow> (\<exists>cs ys. (\<forall>c \<in> set cs. is_char c) \<and> xs @ ys = text_of cs)"

lemma scan_text_Nil: "\<forall>c \<in> set cs. is_char c \<Longrightarrow> scan (text_of cs) = Rest []"
  using scan_text [of cs "[]"] by simp

lemma starts_text_scan: "starts_text xs \<longleftrightarrow> (\<exists>p. scan xs = Rest p)"
proof
  assume "starts_text xs"
  then obtain cs ys where "\<forall>c \<in> set cs. is_char c" "xs @ ys = text_of cs" by (auto simp: starts_text_def)
  then have "scan (xs @ ys) = Rest []" using scan_text_Nil by simp
  then show "\<exists>p. scan xs = Rest p" using scan_Wrong_append [of xs _ ys] by (cases "scan xs") auto
next
  assume "\<exists>p. scan xs = Rest p"
  then obtain p cs where cs: "xs = text_of cs @ p" "\<forall>c \<in> set cs. is_char c" "p = [] \<or> cut p"
    using scan_Rest_text by blast
  show "starts_text xs"
  proof (cases "p = []")
    case True
    then show ?thesis using cs unfolding starts_text_def by (intro exI [of _ cs] exI [of _ "[]"]) simp
  next
    case False
    then have p: "cut p" using cs(3) by simp
    obtain c where c: "unat c < 2 ^ 31" "completed p = encoding c" using whole_is_encoding [OF completed_whole(1) [OF p]] .
    have "text_of (cs @ [c]) = text_of cs @ completed p" by (simp add: text_of_def c(2))
    also have "\<dots> = xs @ drop (length p) (completed p)"
      using completed_whole(2) [OF p] by (simp add: cs(1))
    finally show ?thesis using cs(2) c(1) unfolding starts_text_def
      by (intro exI [of _ "cs @ [c]"] exI [of _ "drop (length p) (completed p)"]) (auto simp: is_char_unat)
  qed
qed

lemma scan_Wrong_least:
  "scan xs = Wrong e \<Longrightarrow> (\<exists>p. scan (take e xs) = Rest p) \<and> scan (take (Suc e) xs) = Wrong e"
proof (induction xs arbitrary: e rule: measure_induct_rule [where f = length])
  case (less xs)
  have ne: "xs \<noteq> []" using less.prems by auto
  then show ?case
  proof (cases rule: scan_cases)
    case (wrong e')
    then have e: "e' = e" using less.prems by simp
    then have f: "e < sizePfirst_utf8 (xs ! 0)" "\<not> allowed xs e" "\<forall>i < e. allowed xs i"
      using wrong(2) by (simp_all add: first_wrong_Some)
    have al: "allowed (take m xs) i = allowed xs i" if "i < m" "m \<le> length xs" for i m
      using allowed_append [of i "take m xs" "drop m xs"] that by simp
    have "scan (take (Suc e) xs) = Wrong e"
    proof (rule scan_Wrong)
      have "\<not> allowed (take (Suc e) xs) e" "\<forall>i < e. allowed (take (Suc e) xs) i"
        using al [of _ "Suc e"] f wrong(1) e by simp_all
      then show "first_wrong (take (Suc e) xs) (sizePfirst_utf8 (take (Suc e) xs ! 0)) = Some e"
        using f(1) by (simp add: first_wrong_Some)
    qed (use wrong(1) e in simp)
    moreover have "\<exists>p. scan (take e xs) = Rest p"
    proof (cases "e = 0")
      case False
      then have "cut (take e xs)" using f wrong(1) e al [of _ e] ne by (simp add: cut_def)
      then show ?thesis using scan_cut by blast
    qed simp
    ultimately show ?thesis by simp
  next
    case (skip n)
    then obtain e' where r: "scan (drop n xs) = Wrong e'" "e = n + e'"
      using less.prems by (cases "scan (drop n xs)") simp_all
    have "length (drop n xs) < length xs" using skip ne by simp
    from less.IH [OF this r(1)] obtain p where
      ih: "scan (take e' (drop n xs)) = Rest p" "scan (take (Suc e') (drop n xs)) = Wrong e'" by blast
    have "scan (take m xs) = shift_wrong n (scan (take (m - n) (drop n xs)))" if "n \<le> m" for m
    proof -
      have fn: "first_wrong (take n xs) n = None"
      proof -
        have "allowed (take n xs) i = allowed xs i" if "i < n" for i
          using allowed_append [of i "take n xs" "drop n xs"] that skip(3) by simp
        then show ?thesis using skip(4) by (simp add: first_wrong_None)
      qed
      have "scan (take n xs @ take (m - n) (drop n xs)) = shift_wrong n (scan (drop n (take n xs) @ take (m - n) (drop n xs)))"
        by (rule scan_skip_append) (use skip fn ne in simp_all)
      moreover have "take m xs = take n xs @ take (m - n) (drop n xs)"
        using that by (metis le_add_diff_inverse take_add)
      ultimately show ?thesis by simp
    qed
    from this [of e] this [of "Suc e"] show ?thesis using ih r(2) by (simp add: Suc_diff_le)
  qed (use less.prems in simp)
qed

section \<open>Decoding\<close>

lemma follow_bits: "(ucast (of_nat (128 + unat c div 2 ^ n mod 64) :: u8) :: u32) = 0x80 XOR take_bit 6 (drop_bit n c)" for c :: u32
proof -
  define a :: u32 where "a = push_bit 7 1"
  have bit_a: "bit a i \<longleftrightarrow> i = 7" for i
    unfolding a_def by (auto simp only: bit_push_bit_iff bit_1_iff) simp
  have *: "(ucast (ucast (a OR (x AND mask 6)) :: u8) :: u32) = a XOR take_bit 6 x" for x
    by (rule bit_word_eqI) (auto simp: bit_simps bit_a)
  have "a = 0x80" by (simp add: a_def)
  then show ?thesis using * [of "drop_bit n c"]
    unfolding encode_follow [symmetric] by (simp add: mask_eq_exp_minus_1)
qed

lemma lead_bits:
  fixes c :: u32
  assumes "b = (of_nat (m * 2 ^ j + h) :: u8)" and "h < 2 ^ j" and "m * 2 ^ j + h < 256" and "h = unat (drop_bit n c)"
  shows "ucast (take_bit j b) = drop_bit n c"
proof -
  have ub: "unat b = m * 2 ^ j + h" unfolding assms(1) by (rule unat_of_nat_u8 [OF assms(3)])
  have "unat (take_bit j b) = unat b mod 2 ^ j"
    by (simp only: unsigned_take_bit_eq take_bit_eq_mod [where 'a = nat])
  then have "unat (take_bit j b) = h" unfolding ub using assms(2) by simp
  then have "unat (ucast (take_bit j b) :: u32) = h" by (subst unat_ucast_up) simp_all
  then show ?thesis by (simp only: word_unat_eq_iff assms(4))
qed

lemma join_bits:
  fixes c :: u32
  shows "push_bit (n + 6) (drop_bit (n + 6) c) XOR push_bit n (take_bit 6 (drop_bit n c)) = push_bit n (drop_bit n c)"
  by (rule bit_word_eqI) (auto simp: bit_simps)

lemma join_numerals:
  fixes c :: u32
  shows "push_bit 6 (drop_bit 6 c) XOR take_bit 6 c = c"
    and "push_bit 12 (drop_bit 12 c) XOR (push_bit 6 (take_bit 6 (drop_bit 6 c)) XOR z) = push_bit 6 (drop_bit 6 c) XOR z"
    and "push_bit 18 (drop_bit 18 c) XOR (push_bit 12 (take_bit 6 (drop_bit 12 c)) XOR z) = push_bit 12 (drop_bit 12 c) XOR z"
    and "push_bit 24 (drop_bit 24 c) XOR (push_bit 18 (take_bit 6 (drop_bit 18 c)) XOR z) = push_bit 18 (drop_bit 18 c) XOR z"
    and "push_bit 30 (drop_bit 30 c) XOR (push_bit 24 (take_bit 6 (drop_bit 24 c)) XOR z) = push_bit 24 (drop_bit 24 c) XOR z"
  using join_bits [of 0 c] join_bits [of 6 c] join_bits [of 12 c] join_bits [of 18 c] join_bits [of 24 c]
  by (simp_all add: xor.assoc [symmetric])

text \<open>The markers of the following bytes cancel out.\<close>

lemma cancel_markers:
  fixes l :: u32
  shows "((l XOR push_bit 6 (0x80 XOR x)) XOR (0x80 XOR y)) XOR (push_bit 6 0x80 OR 0x80) = l XOR (push_bit 6 x XOR y)"
    and "(((l XOR push_bit 12 (0x80 XOR w)) XOR push_bit 6 (0x80 XOR x)) XOR (0x80 XOR y))
        XOR (push_bit 6 (push_bit 6 0x80 OR 0x80) OR 0x80)
      = l XOR (push_bit 12 w XOR (push_bit 6 x XOR y))"
    and "((((l XOR push_bit 18 (0x80 XOR v)) XOR push_bit 12 (0x80 XOR w)) XOR push_bit 6 (0x80 XOR x)) XOR (0x80 XOR y))
        XOR (push_bit 6 (push_bit 6 (push_bit 6 0x80 OR 0x80) OR 0x80) OR 0x80)
      = l XOR (push_bit 18 v XOR (push_bit 12 w XOR (push_bit 6 x XOR y)))"
    and "(((((l XOR push_bit 24 (0x80 XOR u)) XOR push_bit 18 (0x80 XOR v)) XOR push_bit 12 (0x80 XOR w))
        XOR push_bit 6 (0x80 XOR x)) XOR (0x80 XOR y))
        XOR (push_bit 6 (push_bit 6 (push_bit 6 (push_bit 6 0x80 OR 0x80) OR 0x80) OR 0x80) OR 0x80)
      = l XOR (push_bit 24 u XOR (push_bit 18 v XOR (push_bit 12 w XOR (push_bit 6 x XOR y))))"
proof -
  have m: "push_bit 6 0x80 OR 0x80 = (push_bit 6 0x80 XOR 0x80 :: u32)"
    "push_bit 6 (push_bit 6 0x80 OR 0x80) OR 0x80 = (push_bit 12 0x80 XOR (push_bit 6 0x80 XOR 0x80) :: u32)"
    "push_bit 6 (push_bit 6 (push_bit 6 0x80 OR 0x80) OR 0x80) OR 0x80
      = (push_bit 18 0x80 XOR (push_bit 12 0x80 XOR (push_bit 6 0x80 XOR 0x80)) :: u32)"
    "push_bit 6 (push_bit 6 (push_bit 6 (push_bit 6 0x80 OR 0x80) OR 0x80) OR 0x80) OR 0x80
      = (push_bit 24 0x80 XOR (push_bit 18 0x80 XOR (push_bit 12 0x80 XOR (push_bit 6 0x80 XOR 0x80))) :: u32)"
    by simp_all
  have g: "((l XOR (a XOR p)) XOR (e XOR y)) XOR (a XOR e) = l XOR (p XOR y)"
    "(((l XOR (b XOR q)) XOR (a XOR p)) XOR (e XOR y)) XOR (b XOR (a XOR e)) = l XOR (q XOR (p XOR y))"
    "((((l XOR (c XOR r)) XOR (b XOR q)) XOR (a XOR p)) XOR (e XOR y)) XOR (c XOR (b XOR (a XOR e)))
      = l XOR (r XOR (q XOR (p XOR y)))"
    "(((((l XOR (d XOR s)) XOR (c XOR r)) XOR (b XOR q)) XOR (a XOR p)) XOR (e XOR y)) XOR (d XOR (c XOR (b XOR (a XOR e))))
      = l XOR (s XOR (r XOR (q XOR (p XOR y))))" for a b c d e p q r s :: u32
    by (simp_all add: xor.assoc xor.left_commute xor.commute)
  show "((l XOR push_bit 6 (0x80 XOR x)) XOR (0x80 XOR y)) XOR (push_bit 6 0x80 OR 0x80) = l XOR (push_bit 6 x XOR y)"
    by (subst m(1)) (simp only: push_bit_xor g)
  show "(((l XOR push_bit 12 (0x80 XOR w)) XOR push_bit 6 (0x80 XOR x)) XOR (0x80 XOR y))
        XOR (push_bit 6 (push_bit 6 0x80 OR 0x80) OR 0x80)
      = l XOR (push_bit 12 w XOR (push_bit 6 x XOR y))"
    by (subst m(2)) (simp only: push_bit_xor g)
  show "((((l XOR push_bit 18 (0x80 XOR v)) XOR push_bit 12 (0x80 XOR w)) XOR push_bit 6 (0x80 XOR x)) XOR (0x80 XOR y))
        XOR (push_bit 6 (push_bit 6 (push_bit 6 0x80 OR 0x80) OR 0x80) OR 0x80)
      = l XOR (push_bit 18 v XOR (push_bit 12 w XOR (push_bit 6 x XOR y)))"
    by (subst m(3)) (simp only: push_bit_xor g)
  show "(((((l XOR push_bit 24 (0x80 XOR u)) XOR push_bit 18 (0x80 XOR v)) XOR push_bit 12 (0x80 XOR w))
        XOR push_bit 6 (0x80 XOR x)) XOR (0x80 XOR y))
        XOR (push_bit 6 (push_bit 6 (push_bit 6 (push_bit 6 0x80 OR 0x80) OR 0x80) OR 0x80) OR 0x80)
      = l XOR (push_bit 24 u XOR (push_bit 18 v XOR (push_bit 12 w XOR (push_bit 6 x XOR y))))"
    by (subst m(4)) (simp only: push_bit_xor g)
qed

lemma decode_encoding:
  assumes "is_char c"
  shows "decodechar_utf8 (encoding c @ ys) = (length (encoding c), Some c)"
proof -
  have c31: "unat c < 2 ^ 31" using assms by (simp add: is_char_unat)
  obtain k where k: "in_class k (unat c)" using in_some_class [OF c31] .
  define h where "h = unat c div 64 ^ k"
  define b where "b = (of_nat (lead_base k + h) :: u8)"
  have e: "encoding c = b # follows k (unat c)" unfolding encoding_class [OF k] b_def h_def ..
  have cc: "k = 0 \<or> k = 1 \<or> k = 2 \<or> k = 3 \<or> k = 4 \<or> k = 5"
    using k class_cases [of k] by (simp add: in_class_def)
  have b256: "lead_base k + h < 256"
    using cc k by (auto simp: h_def in_class_def lead_base_def class_limit_def)
  then have ub: "unat b = lead_base k + h" unfolding b_def by (rule unat_of_nat_u8)
  note F = follow_bits [of c 0] follow_bits [of c 6] follow_bits [of c 12] follow_bits [of c 18] follow_bits [of c 24]
  show ?thesis
    using cc
  proof (elim disjE)
    assume "k = 0"
    then have "unat b = unat c" "unat c \<le> 127" using ub k by (simp_all add: h_def lead_base_def in_class_def class_limit_def)
    moreover from this have "ucast b = c" by (simp add: word_unat_eq_iff unat_ucast_up)
    ultimately show ?thesis using \<open>k = 0\<close> by (simp add: decodechar_utf8_def e word_le_nat_alt Let_def)
  next
    assume k1: "k = 1"
    have "ucast (take_bit 5 b) = drop_bit 6 c"
      by (rule lead_bits [where m = 6 and h = h])
        (use k k1 in \<open>simp_all add: b_def h_def lead_base_def in_class_def class_limit_def unat_drop_bit div_less_iff_less_mult\<close>)
    moreover have "b AND 0x1F = take_bit 5 b" by (simp add: take_bit_eq_mask mask_eq_exp_minus_1)
    moreover have "\<not> unat b \<le> 193" "unat b \<le> 223"
      using ub k k1 by (simp_all add: h_def lead_base_def in_class_def class_limit_def, linarith+)
    moreover have "(0x80 XOR t) XOR 0x80 = t" for t :: u32
      by (rule bit_word_eqI) (auto simp only: bit_xor_iff)
    moreover have "push_bit 6 (drop_bit 6 c) OR take_bit 6 c = c"
      by (rule bit_word_eqI) (auto simp: bit_simps)
    ultimately show ?thesis using k1 F
      by (simp add: decodechar_utf8_def e word_le_nat_alt Let_def unsigned_xor_eq del: of_nat_add)
  next
    assume k2: "k = 2"
    have "ucast (take_bit 4 b) = drop_bit 12 c"
      by (rule lead_bits [where m = 14 and h = h])
        (use k k2 in \<open>simp_all add: b_def h_def lead_base_def in_class_def class_limit_def unat_drop_bit div_less_iff_less_mult\<close>)
    moreover have "b AND 0xF = take_bit 4 b" by (simp add: take_bit_eq_mask mask_eq_exp_minus_1)
    moreover have "\<not> unat b \<le> 223" "unat b \<le> 239"
      using ub k k2 by (simp_all add: h_def lead_base_def in_class_def class_limit_def, linarith+)
    ultimately show ?thesis using k2 F join_numerals [of c]
        cancel_markers(1) [where l = "push_bit 12 (drop_bit 12 c)" and x = "take_bit 6 (drop_bit 6 c)" and y = "take_bit 6 c"]
      by (simp add: decodechar_utf8_def e word_le_nat_alt Let_def del: of_nat_add)
  next
    assume k3: "k = 3"
    have "ucast (take_bit 3 b) = drop_bit 18 c"
      by (rule lead_bits [where m = 30 and h = h])
        (use k k3 in \<open>simp_all add: b_def h_def lead_base_def in_class_def class_limit_def unat_drop_bit div_less_iff_less_mult\<close>)
    moreover have "b AND 0x7 = take_bit 3 b" by (simp add: take_bit_eq_mask mask_eq_exp_minus_1)
    moreover have "\<not> unat b \<le> 239" "unat b \<le> 247"
      using ub k k3 by (simp_all add: h_def lead_base_def in_class_def class_limit_def, linarith+)
    ultimately show ?thesis using k3 F join_numerals [of c]
        cancel_markers(2) [where l = "push_bit 18 (drop_bit 18 c)" and w = "take_bit 6 (drop_bit 12 c)" and x = "take_bit 6 (drop_bit 6 c)" and y = "take_bit 6 c"]
      by (simp add: decodechar_utf8_def e word_le_nat_alt Let_def del: of_nat_add)
  next
    assume k4: "k = 4"
    have "ucast (take_bit 2 b) = drop_bit 24 c"
      by (rule lead_bits [where m = 62 and h = h])
        (use k k4 in \<open>simp_all add: b_def h_def lead_base_def in_class_def class_limit_def unat_drop_bit div_less_iff_less_mult\<close>)
    moreover have "b AND 0x3 = take_bit 2 b" by (simp add: take_bit_eq_mask mask_eq_exp_minus_1)
    moreover have "\<not> unat b \<le> 247" "unat b \<le> 251"
      using ub k k4 by (simp_all add: h_def lead_base_def in_class_def class_limit_def, linarith+)
    ultimately show ?thesis using k4 F join_numerals [of c]
        cancel_markers(3) [where l = "push_bit 24 (drop_bit 24 c)"
          and v = "take_bit 6 (drop_bit 18 c)" and w = "take_bit 6 (drop_bit 12 c)" and x = "take_bit 6 (drop_bit 6 c)" and y = "take_bit 6 c"]
      by (simp add: decodechar_utf8_def e word_le_nat_alt Let_def del: of_nat_add)
  next
    assume k5: "k = 5"
    have "ucast (take_bit 1 b) = drop_bit 30 c"
      by (rule lead_bits [where m = 126 and h = h])
        (use k k5 in \<open>simp_all add: b_def h_def lead_base_def in_class_def class_limit_def unat_drop_bit div_less_iff_less_mult\<close>)
    moreover have "b AND 0x1 = take_bit 1 b" by (simp add: take_bit_eq_mask mask_eq_exp_minus_1)
    moreover have "\<not> unat b \<le> 251" "unat b \<le> 253"
      using ub k k5 by (simp_all add: h_def lead_base_def in_class_def class_limit_def, linarith+)
    ultimately show ?thesis using k5 F join_numerals [of c]
        cancel_markers(4) [where l = "push_bit 30 (drop_bit 30 c)" and u = "take_bit 6 (drop_bit 24 c)"
          and v = "take_bit 6 (drop_bit 18 c)" and w = "take_bit 6 (drop_bit 12 c)" and x = "take_bit 6 (drop_bit 6 c)" and y = "take_bit 6 c"]
      by (simp add: decodechar_utf8_def e word_le_nat_alt Let_def del: of_nat_add)
  qed
qed

section \<open>Length and search\<close>

text \<open>The number of characters when each first byte tells the size.\<close>

function nchars :: "u8 list \<Rightarrow> nat" where
  "nchars xs = (if xs = [] then 0 else 1 + nchars (drop (sizePfirst_utf8 (xs ! 0)) xs))"
  by pat_completeness auto

termination nchars
proof (relation "measure length", goal_cases)
  case (2 xs)
  then show ?case using sizePfirst_range [of "xs ! 0"] by (simp; linarith)
qed simp

declare nchars.simps [simp del]

lemma nchars_Nil [simp]: "nchars [] = 0"
  by (simp add: nchars.simps)

lemma nchars_at: "i < length str \<Longrightarrow> nchars (drop i str) = 1 + nchars (drop (i + sizePfirst_utf8 (str ! i)) str)"
  by (subst nchars.simps) (simp add: add.commute)

lemma length_loop2_nchars: "length_loop2 str nx len = len + nchars (drop nx str)"
proof (induction str nx len rule: length_loop2.induct)
  case (1 str nx len)
  show ?case
  proof (cases "nx < length str")
    case True
    then show ?thesis using 1 nchars_at [OF True]
      by (subst length_loop2.simps) (auto simp: Let_def)
  qed (simp add: length_loop2.simps)
qed

lemma length_loop1_nchars:
  "nx + 6 \<le> length str \<Longrightarrow> snd (length_loop1 str nx len) + nchars (drop (fst (length_loop1 str nx len)) str)
     = len + nchars (drop nx str)"
proof (induction str nx len rule: length_loop1.induct)
  case (1 str nx len)
  have n: "nchars (drop nx str) = 1 + nchars (drop (nx + sizePfirst_utf8 (str ! nx)) str)"
    by (rule nchars_at) (use 1(2) in simp)
  show ?case
  proof (cases "nx + sizePfirst_utf8 (str ! nx) \<le> length str - maxsize_utf8")
    case True
    have "length_loop1 str nx len = length_loop1 str (nx + sizePfirst_utf8 (str ! nx)) (len + 1)"
      using True by (subst length_loop1.simps) (simp add: Let_def)
    then show ?thesis using 1(1) [OF refl refl refl] True 1(2) n by (simp add: maxsize_utf8_def)
  next
    case False
    then have "length_loop1 str nx len = (nx + sizePfirst_utf8 (str ! nx), len + 1)"
      by (subst length_loop1.simps) (simp add: Let_def)
    then show ?thesis using n by simp
  qed
qed

lemma length_utf8_nchars: "length_utf8 str = nchars str"
  using length_loop1_nchars [of 0 str 0]
  by (auto simp: length_utf8_def length_loop2_nchars maxsize_utf8_def split_beta)

lemma nchars_text: "\<forall>c \<in> set cs. is_char c \<Longrightarrow> nchars (text_of cs) = length cs"
proof (induction cs)
  case (Cons c cs)
  have "whole (encoding c)" using Cons.prems whole_encoding by (simp add: is_char_unat)
  then have w: "encoding c \<noteq> []" "length (encoding c) = sizePfirst_utf8 (encoding c ! 0)" by (simp_all add: whole_def)
  have t: "text_of (c # cs) = encoding c @ text_of cs" by (simp add: text_of_def)
  have "(encoding c @ text_of cs) ! 0 = encoding c ! 0" using w(1) by (cases "encoding c") auto
  then show ?case using Cons w unfolding t by (subst nchars.simps) simp
qed (simp add: text_of_def)

text \<open>\<open>memchr\<close> from a position on.\<close>

lemma memchr_None: "memchr str from c = None \<longleftrightarrow> (\<forall>i. from \<le> i \<and> i < length str \<longrightarrow> str ! i \<noteq> c)"
  by (auto simp: memchr_def find_None_iff in_set_enumerate_eq)

lemma memchr_SomeI:
  assumes "from \<le> i" and "i < length str" and "str ! i = c" and "\<And>j. from \<le> j \<Longrightarrow> j < i \<Longrightarrow> str ! j \<noteq> c"
  shows "memchr str from c = Some i"
proof -
  have "find (\<lambda>(i, b). from \<le> i \<and> b = c) (enumerate 0 str) = Some (i, str ! i)"
    unfolding find_Some_iff using assms by (intro exI [of _ i]) (auto simp: nth_enumerate_eq)
  then show ?thesis by (simp add: memchr_def)
qed

lemma memchr_skip:
  assumes "\<And>j. from \<le> j \<Longrightarrow> j < from' \<Longrightarrow> j < length str \<Longrightarrow> str ! j \<noteq> c" and "from \<le> from'"
  shows "memchr str from c = memchr str from' c"
proof (cases "memchr str from c")
  case None
  then have "memchr str from' c = None" using assms(2) unfolding memchr_None by auto
  then show ?thesis using None by simp
next
  case (Some i)
  then have i: "from \<le> i" "i < length str" "str ! i = c" "\<forall>j. from \<le> j \<and> j < i \<longrightarrow> str ! j \<noteq> c"
    by (auto simp: memchr_def find_Some_iff nth_enumerate_eq)
  then have "from' \<le> i" using assms by (metis not_le)
  then have "memchr str from' c = Some i" using i assms(2) by (intro memchr_SomeI) auto
  then show ?thesis using Some by simp
qed

lemma same_bytes_append: "length u = length v \<Longrightarrow> same_bytes u (v @ w) = Some (u = v)"
  by (induction u v rule: list_induct2) auto

lemma encoding_inj: "is_char c \<Longrightarrow> is_char d \<Longrightarrow> encoding c = encoding d \<Longrightarrow> c = d"
  using decode_encoding [of c "[]"] decode_encoding [of d "[]"] by simp

lemma encoding_bytes:
  assumes "is_char c"
  obtains b fs where "encoding c = b # fs" and "\<not> isfollow b" and "\<forall>f \<in> set fs. isfollow f"
    and "length fs + 1 = sizePfirst_utf8 b"
proof -
  have w: "whole (encoding c)" using assms whole_encoding by (simp add: is_char_unat)
  then obtain b fs where e: "encoding c = b # fs" by (cases "encoding c") (auto simp: whole_def)
  have al: "\<forall>i < Suc (length fs). allowed (b # fs) i" "length fs + 1 = sizePfirst_utf8 b"
    using w by (simp_all add: whole_def e)
  have "lead_ok b" using al(1) by (auto simp: allowed_def)
  then have "\<not> isfollow b" by (auto simp: lead_ok_unat isfollow_unat)
  moreover have "\<forall>f \<in> set fs. isfollow f"
  proof
    fix f assume "f \<in> set fs"
    then obtain i where "i < length fs" "f = fs ! i" by (auto simp: in_set_conv_nth)
    then show "isfollow f" using al(1) [rule_format, of "Suc i"] by (simp add: allowed_def)
  qed
  ultimately show ?thesis using that e al(2) by blast
qed

lemma find_loop_text:
  assumes "is_char c" and "\<forall>d \<in> set cs. is_char d"
  shows "find_loop (encoding c) (pre @ text_of cs) (memchr (pre @ text_of cs) (length pre) (hd (encoding c))) =
    Some (if c \<in> set cs then Some (length pre + length (text_of (takeWhile ((\<noteq>) c) cs))) else None)"
  using assms(2)
proof (induction cs arbitrary: pre)
  case Nil
  have "memchr (pre @ text_of []) (length pre) (hd (encoding c)) = None"
    by (auto simp: memchr_None text_of_def)
  then show ?case by (simp add: find_loop.simps)
next
  case (Cons d ds)
  obtain b fs where d: "encoding d = b # fs" "\<not> isfollow b" "\<forall>f \<in> set fs. isfollow f" "length fs + 1 = sizePfirst_utf8 b"
    using encoding_bytes Cons.prems by (metis list.set_intros(1))
  obtain l gs where c: "encoding c = l # gs" "\<not> isfollow l" "length gs + 1 = sizePfirst_utf8 l"
    using encoding_bytes [OF assms(1)] by metis
  let ?str = "pre @ text_of (d # ds)" and ?pos = "length pre"
  have t: "text_of (d # ds) = encoding d @ text_of ds" by (simp add: text_of_def)
  have str: "?str = (pre @ encoding d) @ text_of ds" by (simp add: t)
  note ih = Cons.IH [of "pre @ encoding d", folded str]
  have next_from: "find_loop (encoding c) ?str (memchr ?str (?pos + length (encoding d)) (hd (encoding c))) =
    Some (if c \<in> set (d # ds) then Some (?pos + length (text_of (takeWhile ((\<noteq>) c) (d # ds)))) else None)"
    if "c \<noteq> d"
    using ih Cons.prems that by (simp add: text_of_def)
  show ?case
  proof (cases "b = l")
    case False
    then have "c \<noteq> d" using c(1) d(1) by auto
    have "?str ! j \<noteq> l" if "?pos \<le> j" "j < ?pos + length (encoding d)" for j
    proof -
      have "j - ?pos < length (encoding d)" using that by linarith
      then have "?str ! j = encoding d ! (j - ?pos)" using that unfolding t by (simp add: nth_append)
      moreover have "encoding d ! (j - ?pos) \<in> set (b # fs)" unfolding d(1) [symmetric]
        using that by (intro nth_mem) simp
      ultimately show ?thesis using False d(3) c(2) by auto
    qed
    then have "memchr ?str ?pos l = memchr ?str (?pos + length (encoding d)) l"
      by (intro memchr_skip) auto
    then show ?thesis using next_from [OF \<open>c \<noteq> d\<close>] c(1) by simp
  next
    case True
    have m: "memchr ?str ?pos (hd (encoding c)) = Some ?pos"
      by (rule memchr_SomeI) (use c(1) d(1) True in \<open>simp_all add: t nth_append\<close>)
    have len: "length (encoding c) = length (encoding d)" using c d True by simp
    have "drop (?pos + 1) ?str = fs @ text_of ds" by (simp add: t d(1))
    moreover have "length gs = length fs" using c(3) d(4) True by simp
    ultimately have same: "same_bytes (tl (encoding c)) (drop (?pos + 1) ?str) = Some (gs = fs)"
      using same_bytes_append by (simp add: c(1))
    have fit: "\<not> length ?str < ?pos + length (encoding c)" by (simp add: t len)
    have eq: "gs = fs \<longleftrightarrow> c = d"
      using encoding_inj [OF assms(1), of d] Cons.prems c(1) d(1) True by auto
    show ?thesis
    proof (cases "c = d")
      case True
      then show ?thesis unfolding m using same eq
        by (subst find_loop.simps) (simp add: text_of_def)
    next
      case False
      have "find_loop (encoding c) ?str (Some ?pos) =
        find_loop (encoding c) ?str (memchr ?str (?pos + length (encoding c)) (hd (encoding c)))"
        using same eq False fit by (subst find_loop.simps) simp
      then show ?thesis unfolding m using next_from [OF False] unfolding len by simp
    qed
  qed
qed

section \<open>Properties\<close>

lemma init_holds: "holds init_utf8validator []"
  by (simp add: holds_def init_utf8validator_def)

text \<open>C14: The validator never reads outside its arrays and ends for every sequence of blocks. The
  blocks are accepted, with nothing left at the end, exactly when they are the encoding of a
  list of characters.\<close>

theorem validator_accepts_texts:
  "\<exists>err v off. validate_blocks init_utf8validator ds = Some (err, v, off) \<and>
    ((err = Inr () \<and> fst (free_utf8validator v) = Inr ()) \<longleftrightarrow>
     (\<exists>cs. (\<forall>c \<in> set cs. is_char c) \<and> concat ds = text_of cs))"
proof -
  from validate_blocks_outcome [OF init_holds, of ds] obtain err v off where
    V: "validate_blocks init_utf8validator ds = Some (err, v, off)"
    and sc: "case scan (concat ds) of Rest q \<Rightarrow> err = Inr () \<and> holds v q | Wrong e \<Rightarrow> err = Inl EILSEQ \<and> holds v []"
    by (force split: scanned.splits)
  have "(err = Inr () \<and> fst (free_utf8validator v) = Inr ()) \<longleftrightarrow> scan (concat ds) = Rest []"
    using sc by (auto simp: free_utf8validator_def holds_def Let_def split: scanned.splits)
  also have "\<dots> \<longleftrightarrow> (\<exists>cs. (\<forall>c \<in> set cs. is_char c) \<and> concat ds = text_of cs)"
    using scan_text_Nil scan_Rest_text [of "concat ds" "[]"] by auto
  finally show ?thesis using V by blast
qed

lemma validator_accepts_texts_witness:
  "\<exists>cs. (\<forall>c \<in> set cs. is_char c) \<and> [0xE2, 0x82, 0xAC, 65] = text_of cs"
proof -
  have "validate_blocks init_utf8validator [[0xE2], [0x82, 0xAC, 65]] =
    Some (Inr (), \<lparr>sizeprefix = 0, prefix = [0xE2, 0x82, 0xAC, 0, 0, 0]\<rparr>, None)"
    by code_simp
  with validator_accepts_texts [of "[[0xE2], [0x82, 0xAC, 65]]"]
  show ?thesis by (auto simp: free_utf8validator_def)
qed

text \<open>C15: The blocks are refused as soon as they cannot be continued to a text, and the error offset
  is the position in its block of the first byte with which they cannot.\<close>

theorem validator_error_offset:
  assumes "validate_blocks init_utf8validator ds = Some (err, v, off)"
  shows "if starts_text (concat ds) then err = Inr ()
    else err = Inl EILSEQ \<and> (\<exists>ds1 d ds2 i. ds = ds1 @ d # ds2 \<and> off = Some (int i) \<and> i < length d \<and>
      starts_text (concat ds1 @ take i d) \<and> \<not> starts_text (concat ds1 @ take (Suc i) d))"
proof (cases "scan (concat ds)")
  case (Rest p)
  then show ?thesis using validate_blocks_outcome [OF init_holds, of ds] assms
    by (auto simp: starts_text_scan)
next
  case (Wrong e)
  with validate_blocks_outcome [OF init_holds, of ds] assms obtain ds1 d ds2 i where
    X: "err = Inl EILSEQ" "ds = ds1 @ d # ds2" "off = Some (int i)" "i < length d" "e = length (concat ds1) + i"
    by auto
  have take: "take (length (concat ds1) + j) (concat ds) = concat ds1 @ take j d" if "j \<le> length d" for j
    using that by (simp add: X(2))
  from scan_Wrong_least [OF Wrong] have "starts_text (concat ds1 @ take i d)" "\<not> starts_text (concat ds1 @ take (Suc i) d)"
    using take [of i] take [of "Suc i"] X(4,5) by (simp_all add: starts_text_scan)
  then show ?thesis using X Wrong by (auto simp: starts_text_scan)
qed

lemma validator_error_offset_witness:
  "\<not> starts_text [0xE2, 0x82, 0x41]"
proof -
  have "validate_blocks init_utf8validator [[0xE2], [0x82, 0x41]] =
    Some (Inl EILSEQ, \<lparr>sizeprefix = 0, prefix = [0xE2, 0x82, 0x41, 0, 0, 0]\<rparr>, Some 1)"
    by code_simp
  from validator_error_offset [OF this] show ?thesis by (simp split: if_splits)
qed

text \<open>C16: \<open>decodechar_utf8\<close> inverts \<open>encodechar_utf8\<close> for every character, whatever follows in the
  string, and all functions that determine the size of the encoding agree.\<close>

theorem decode_encode:
  assumes "c \<le> maxchar_utf8" and "sizechar_utf8 c \<le> strsize"
  shows "decodechar_utf8 (encodechar_utf8 c strsize @ rest) = (sizechar_utf8 c, Some c) \<and>
    length (encodechar_utf8 c strsize) = sizechar_utf8 c \<and>
    skipchar_utf8 (encodechar_utf8 c strsize @ rest) = sizechar_utf8 c"
proof (intro conjI)
  have c: "is_char c" using assms(1) by (simp add: is_char_def)
  have e: "encodechar_utf8 c strsize = encoding c"
    using assms(2) by (auto simp: encodechar_utf8_def sizechar_utf8_def maxsize_utf8_def Let_def
        word_le_nat_alt word_less_nat_alt of_bool_def split: if_splits)
  have l: "length (encoding c) = sizechar_utf8 c"
    using assms(1) by (auto simp: encodechar_utf8_def sizechar_utf8_def maxsize_utf8_def maxchar_utf8_def Let_def
        word_le_nat_alt word_less_nat_alt of_bool_def split: if_splits)
  have w: "whole (encoding c)" using whole_encoding [of c] c by (simp add: is_char_unat)
  show "decodechar_utf8 (encodechar_utf8 c strsize @ rest) = (sizechar_utf8 c, Some c)"
    using decode_encoding [OF c] by (simp add: e l)
  show "length (encodechar_utf8 c strsize) = sizechar_utf8 c" by (simp add: e l)
  show "skipchar_utf8 (encodechar_utf8 c strsize @ rest) = sizechar_utf8 c"
  proof -
    have "(encoding c @ rest) ! 0 = encoding c ! 0" using w by (cases "encoding c") (auto simp: whole_def)
    then show ?thesis using w l by (simp add: skipchar_utf8_def whole_def e)
  qed
qed

lemma decode_encode_witness:
  "decodechar_utf8 (encodechar_utf8 0x20AC 3 @ [65]) = (3, Some 0x20AC)"
proof -
  have s: "sizechar_utf8 0x20AC = 3" by (simp add: sizechar_utf8_def)
  have "0x20AC \<le> maxchar_utf8" "sizechar_utf8 0x20AC \<le> 3" by (simp_all add: s maxchar_utf8_def)
  from decode_encode [OF this, of "[65]"] show ?thesis by (simp add: s)
qed

text \<open>C17: \<open>length_utf8\<close> counts the characters of a text, and \<open>find_utf8\<close> finds the first occurrence
  of a character without reading behind the text.\<close>

theorem length_and_find_utf8:
  assumes "\<forall>d \<in> set cs. d \<le> maxchar_utf8"
  shows "length_utf8 (text_of cs) = length cs \<and>
    find_utf8 (text_of cs) c = Some (if c \<in> set cs then Some (length (text_of (takeWhile ((\<noteq>) c) cs))) else None)"
proof
  have cs: "\<forall>d \<in> set cs. is_char d" using assms by (simp add: is_char_def)
  show "length_utf8 (text_of cs) = length cs" using nchars_text [OF cs] by (simp add: length_utf8_nchars)
  show "find_utf8 (text_of cs) c = Some (if c \<in> set cs then Some (length (text_of (takeWhile ((\<noteq>) c) cs))) else None)"
  proof (cases "is_char c")
    case True
    then have "encoding c \<noteq> []" using encoding_bytes by (metis list.distinct(1))
    then show ?thesis using find_loop_text [OF True cs, of "[]"] by (simp add: find_utf8_def Let_def)
  next
    case False
    then have "encoding c = []"
      by (simp add: is_char_def maxchar_utf8_def encodechar_utf8_def word_le_nat_alt)
    moreover have "c \<notin> set cs" using cs False by blast
    ultimately show ?thesis by (simp add: find_utf8_def)
  qed
qed

lemma length_and_find_utf8_witness:
  "length_utf8 (text_of [65, 0x20AC, 0x1F600]) = 3 \<and> find_utf8 (text_of [65, 0x20AC, 0x1F600]) 0x1F600 = Some (Some 4)"
proof -
  have t: "text_of [65, 0x20AC] = [65, 0xE2, 0x82, 0xAC]"
    by (simp add: text_of_def encodechar_utf8_def maxsize_utf8_def)
  have "\<forall>d \<in> set [65, 0x20AC, 0x1F600]. d \<le> maxchar_utf8" by (simp add: maxchar_utf8_def)
  from length_and_find_utf8 [OF this, of "0x1F600"] show ?thesis by (simp add: t)
qed

end
