(* ===== verification/Str_Search.thy ===== *)
theory Str_Search
  imports Prelude "HOL-Library.Monad_Syntax"
begin

text \<open>
  The substring search of C-kern/string/strsearch.c: the failure table of a reverse
  Knuth-Morris-Pratt search, the shift table built with it, and the search that compares from the
  last character of the searched string on and remembers what it has already compared. An access
  outside an array, and a loop that does not end, is the result \<open>None\<close>; a found position is its
  offset in the text.
\<close>

section \<open>Array accesses\<close>

text \<open>The decrement of a 32 bit \<open>unsigned\<close>, and its difference.\<close>

definition sub_unsigned :: "nat \<Rightarrow> nat \<Rightarrow> nat" where
  "sub_unsigned a b = (a + (2 ^ 32 - b)) mod 2 ^ 32"

lemma sub_unsigned_eq [simp]: "b \<le> a \<Longrightarrow> a < 2 ^ 32 \<Longrightarrow> sub_unsigned a b = a - b"
proof -
  assume "b \<le> a" "a < 2 ^ 32"
  then have "a + (2 ^ 32 - b) = (a - b) + 2 ^ 32" by simp
  then show ?thesis
    using \<open>a < 2 ^ 32\<close> unfolding sub_unsigned_def by (metis less_imp_diff_less mod_add_self2 mod_less)
qed

section \<open>The failure table\<close>

text \<open>The \<open>while\<close> loop that follows the table until the character \<open>c\<close> fits.\<close>

partial_function (option) follow_sidx :: "nat \<Rightarrow> u8 list \<Rightarrow> u8 list \<Rightarrow> u8 \<Rightarrow> nat \<Rightarrow> nat option" where
  "follow_sidx findsize findstr sidx c spos =
     (if spos < findsize then do {
        x \<leftarrow> at findstr spos;
        if x \<noteq> c then do {
          i \<leftarrow> at sidx spos;
          follow_sidx findsize findstr sidx c (unat i) }
        else Some spos }
      else Some spos)"

declare follow_sidx.simps [code]

primrec sidx_loop :: "nat \<Rightarrow> u8 list \<Rightarrow> nat \<Rightarrow> nat \<Rightarrow> u8 list \<Rightarrow> u8 list option" where
  "sidx_loop findsize findstr 0 i2 sidx = Some sidx"
| "sidx_loop findsize findstr (Suc i) i2 sidx = do {
     c \<leftarrow> at findstr (Suc i);
     i2 \<leftarrow> follow_sidx findsize findstr sidx c i2;
     let i2 = sub_unsigned i2 1;
     sidx \<leftarrow> put_at sidx i (of_nat i2);
     sidx_loop findsize findstr i i2 sidx }"

definition buildtable_rsearchkmp :: "u8 \<Rightarrow> u8 list \<Rightarrow> u8 list \<Rightarrow> u8 list option" where
  "buildtable_rsearchkmp findsize findstr sidx =
     (let n = unat findsize
      in if n = 0 then None
         else do {
           sidx \<leftarrow> put_at sidx (n - 1) findsize;
           sidx_loop n findstr (n - 1) n sidx })"

section \<open>The shift table\<close>

text \<open>The comparison of one position, shared by the table and the reverse search.\<close>

definition kmp_step :: "nat \<Rightarrow> u8 list \<Rightarrow> u8 list \<Rightarrow> u8 \<Rightarrow> nat \<Rightarrow> nat option" where
  "kmp_step findsize findstr sidx c spos = do {
     x \<leftarrow> at findstr spos;
     if x \<noteq> c then do {
       i \<leftarrow> at sidx spos;
       follow_sidx findsize findstr sidx c (unat i) }
     else Some spos }"

primrec shift_inner :: "nat \<Rightarrow> u8 list \<Rightarrow> u8 list \<Rightarrow> nat \<Rightarrow> nat \<Rightarrow> nat \<Rightarrow> (nat \<times> nat) option" where
  "shift_inner findsize findstr sidx nrmatched 0 spos = Some (0, spos)"
| "shift_inner findsize findstr sidx nrmatched (Suc dpos) spos = do {
     let spos = sub_unsigned spos 1;
     c \<leftarrow> at findstr dpos;
     spos \<leftarrow> kmp_step findsize findstr sidx c spos;
     if nrmatched = sub_unsigned findsize spos then Some (dpos, spos)
     else shift_inner findsize findstr sidx nrmatched dpos spos }"

partial_function (option) shift_loop :: "nat \<Rightarrow> u8 list \<Rightarrow> u8 list \<Rightarrow> nat \<Rightarrow> nat \<Rightarrow> u8 list \<Rightarrow> u8 list option" where
  "shift_loop findsize findstr sidx nrmatched lastoff shift =
     (if nrmatched < findsize then do {
        lastoff \<leftarrow> if lastoff \<ge> nrmatched then do {
            let dpos = sub_unsigned lastoff nrmatched + 1;
            let spos = sub_unsigned findsize nrmatched + 1;
            (dpos, spos) \<leftarrow> shift_inner findsize findstr sidx nrmatched dpos spos;
            Some (if spos < findsize then dpos + sub_unsigned findsize spos else 0) }
          else Some lastoff;
        shift \<leftarrow> put_at shift nrmatched (of_nat (sub_unsigned findsize lastoff));
        shift_loop findsize findstr sidx (nrmatched + 1) lastoff shift }
      else Some shift)"

declare shift_loop.simps [code]

text \<open>\<open>sidx0\<close> is the uninitialized content of the local array \<open>sidx\<close>.\<close>

definition buildtable_strsearch :: "u8 list \<Rightarrow> u8 \<Rightarrow> u8 list \<Rightarrow> u8 list \<Rightarrow> u8 list option" where
  "buildtable_strsearch sidx0 findsize findstr shift = do {
     sidx \<leftarrow> buildtable_rsearchkmp findsize findstr sidx0;
     shift \<leftarrow> put_at shift 0 1;
     shift_loop (unat findsize) findstr sidx 1 (unat findsize - 1) shift }"

section \<open>The reverse search\<close>

primrec rsearch_loop :: "nat \<Rightarrow> u8 list \<Rightarrow> u8 list \<Rightarrow> u8 list \<Rightarrow> nat \<Rightarrow> nat \<Rightarrow> nat option option" where
  "rsearch_loop findsize findstr sidx data 0 spos = Some None"
| "rsearch_loop findsize findstr sidx data (Suc dpos) spos = do {
     let spos = sub_unsigned spos 1;
     c \<leftarrow> at data dpos;
     spos \<leftarrow> kmp_step findsize findstr sidx c spos;
     if spos = 0 then Some (Some dpos)
     else rsearch_loop findsize findstr sidx data dpos spos }"

definition rsearch_kmp :: "u8 list \<Rightarrow> nat \<Rightarrow> u8 list \<Rightarrow> u8 \<Rightarrow> u8 list \<Rightarrow> nat option option" where
  "rsearch_kmp sidx0 datasize data findsize findstr =
     (if findsize = 0 \<or> unat findsize > datasize then Some None
      else do {
        sidx \<leftarrow> buildtable_rsearchkmp findsize findstr sidx0;
        rsearch_loop (unat findsize) findstr sidx data datasize (unat findsize) })"

section \<open>The search\<close>

text \<open>
  The inner loop, on the \<open>int\<close> offsets of the code: \<open>None\<close> when the string is found, otherwise the
  offset of the mismatch.
\<close>

partial_function (option) compare_loop :: "u8 list \<Rightarrow> u8 list \<Rightarrow> nat \<Rightarrow> int \<Rightarrow> int \<Rightarrow> int \<Rightarrow> int option option" where
  "compare_loop findstr data pos skip eoff off = do {
     x \<leftarrow> at_int findstr off;
     y \<leftarrow> at_int data (int pos + off);
     if x = y then
       if off = eoff then
         if off \<le> skip then Some None
         else compare_loop findstr data pos skip 0 (off - skip - 1)
       else compare_loop findstr data pos skip eoff (off - 1)
     else Some (Some off) }"

declare compare_loop.simps [code]

partial_function (option) find_loop ::
  "int \<Rightarrow> u8 list \<Rightarrow> u8 list \<Rightarrow> u8 list \<Rightarrow> nat \<Rightarrow> nat \<Rightarrow> int \<Rightarrow> int \<Rightarrow> nat option option" where
  "find_loop findsize findstr shift data endpos pos skip eoff = do {
     r \<leftarrow> compare_loop findstr data pos skip eoff (findsize - 1);
     case r of
       None \<Rightarrow> Some (Some pos)
     | Some off \<Rightarrow> do {
         let nrmatched = findsize - 1 - off;
         pincr \<leftarrow> at_int shift nrmatched;
         let pos = pos + unat pincr;
         if pos < endpos then find_loop findsize findstr shift data endpos pos nrmatched (findsize - uint pincr)
         else Some None } }"

declare find_loop.simps [code]

definition memchr :: "u8 list \<Rightarrow> u8 \<Rightarrow> nat \<Rightarrow> nat option" where
  "memchr data c n = List.find (\<lambda>i. data ! i = c) [0..<n]"

record strsearch_t =
  shift :: "u8 list"
  findstr :: "u8 list"
  findsize :: u8

definition init_strsearch :: "u8 list \<Rightarrow> u8 \<Rightarrow> u8 list \<Rightarrow> u8 list \<Rightarrow> strsearch_t option" where
  "init_strsearch sidx0 fsize fstr sh = do {
     sh \<leftarrow> if unat fsize > 1 then buildtable_strsearch sidx0 fsize fstr sh else Some sh;
     Some \<lparr>shift = sh, findstr = fstr, findsize = fsize\<rparr> }"

definition find_strsearch :: "strsearch_t \<Rightarrow> nat \<Rightarrow> u8 list \<Rightarrow> nat option option" where
  "find_strsearch s datasize data =
     (let n = unat (findsize s)
      in if n > datasize then Some None
         else if n \<le> 1 then if n \<noteq> 0 then Some (memchr data (findstr s ! 0) datasize) else Some None
         else find_loop (int n) (findstr s) (shift s) data (datasize - (n - 1)) 0 0 0)"

text \<open>\<open>shift0\<close> is the uninitialized content of the local array \<open>shift\<close>.\<close>

definition strsearch :: "u8 list \<Rightarrow> u8 list \<Rightarrow> nat \<Rightarrow> u8 list \<Rightarrow> u8 \<Rightarrow> u8 list \<Rightarrow> nat option option" where
  "strsearch sidx0 shift0 datasize data fsize fstr =
     (let n = unat fsize
      in if n > datasize then Some None
         else if n \<le> 1 then if n \<noteq> 0 then Some (memchr data (fstr ! 0) datasize) else Some None
         else do {
           sh \<leftarrow> buildtable_strsearch sidx0 fsize fstr shift0;
           find_loop (int n) fstr sh data (datasize - (n - 1)) 0 0 0 })"

end
