(* ===== verification/Str_Search_First.thy ===== *)
theory Str_Search_First
  imports Str_Search
begin

text \<open>
  The searches of Str_Search find what they promise: the failure table holds the longest borders,
  the shift table the smallest admissible shifts, the search returns the first occurrence and the
  reverse search the last one, and no access leaves its array.
\<close>

section \<open>Borders\<close>

text \<open>
  \<open>tail_at p k t d\<close>: the last \<open>k\<close> characters of \<open>p\<close> stand in \<open>t\<close> at \<open>d\<close>. \<open>border p k j\<close>: the last \<open>j\<close>
  characters are a proper prefix of the last \<open>k\<close> characters.
\<close>

definition tail_at :: "'a list \<Rightarrow> nat \<Rightarrow> 'a list \<Rightarrow> nat \<Rightarrow> bool" where
  "tail_at p k t d \<longleftrightarrow> d + k \<le> length t \<and> (\<forall>i < k. t ! (d + i) = p ! (length p - k + i))"

definition border :: "'a list \<Rightarrow> nat \<Rightarrow> nat \<Rightarrow> bool" where
  "border p k j \<longleftrightarrow> j < k \<and> (\<forall>i < j. p ! (length p - k + i) = p ! (length p - j + i))"

lemma border_0 [simp]: "0 < k \<Longrightarrow> border p k 0"
  by (simp add: border_def)

lemma border_trans: "border p k j \<Longrightarrow> border p j i \<Longrightarrow> border p k i"
  by (auto simp: border_def)

lemma border_smaller: "border p k j \<Longrightarrow> border p k i \<Longrightarrow> i < j \<Longrightarrow> border p j i"
  by (auto simp: border_def)

lemma tail_at_border:
  assumes "tail_at p k t d" and "j < k"
  shows "tail_at p j t d \<longleftrightarrow> border p k j"
  using assms by (auto simp: tail_at_def border_def)

lemma tail_at_Suc:
  assumes "k < length p"
  shows "tail_at p (Suc k) t d \<longleftrightarrow> tail_at p k t (Suc d) \<and> d < length t \<and> t ! d = p ! (length p - Suc k)"
proof -
  have "(\<forall>i < Suc k. t ! (d + i) = p ! (length p - Suc k + i)) \<longleftrightarrow>
    t ! d = p ! (length p - Suc k) \<and> (\<forall>i < k. t ! (Suc d + i) = p ! (length p - k + i))"
    using assms by (subst All_less_Suc2) (simp add: Suc_diff_Suc)
  then show ?thesis by (auto simp: tail_at_def)
qed

lemma border_Suc:
  assumes "k < length p" and "j < k"
  shows "border p (Suc k) (Suc j) \<longleftrightarrow> border p k j \<and> p ! (length p - Suc k) = p ! (length p - Suc j)"
proof -
  have "(\<forall>i < Suc j. p ! (length p - Suc k + i) = p ! (length p - Suc j + i)) \<longleftrightarrow>
    p ! (length p - Suc k) = p ! (length p - Suc j) \<and> (\<forall>i < j. p ! (length p - k + i) = p ! (length p - j + i))"
    using assms by (subst All_less_Suc2) (simp add: Suc_diff_Suc)
  then show ?thesis using assms by (auto simp: border_def)
qed

section \<open>The failure table\<close>

text \<open>
  The entry for a mismatch at index \<open>i\<close>, when \<open>k = length p - 1 - i\<close> characters have matched: the end
  marker for \<open>k = 0\<close>, else the index below the longest border of these characters.
\<close>

definition entry_ok :: "u8 list \<Rightarrow> nat \<Rightarrow> nat \<Rightarrow> bool" where
  "entry_ok p k e \<longleftrightarrow> (if k = 0 then e = length p
     else \<exists>j. e = length p - Suc j \<and> border p k j \<and> (\<forall>i. border p k i \<longrightarrow> i \<le> j))"

definition table_ok :: "u8 list \<Rightarrow> nat \<Rightarrow> u8 list \<Rightarrow> bool" where
  "table_ok p n sidx \<longleftrightarrow> length sidx = length p \<and> length p < 256 \<and>
     (\<forall>k < n. entry_ok p k (unat (sidx ! (length p - Suc k))))"

text \<open>
  Followed from the index after \<open>k\<close> matched characters, the table leads to the longest of these
  characters and their borders that the character \<open>c\<close> extends, or to the end marker.
\<close>

definition extends :: "u8 list \<Rightarrow> u8 \<Rightarrow> nat \<Rightarrow> nat \<Rightarrow> bool" where
  "extends p c k j \<longleftrightarrow> (j = k \<or> border p k j) \<and> p ! (length p - Suc j) = c"

definition longest :: "u8 list \<Rightarrow> u8 \<Rightarrow> nat \<Rightarrow> nat \<Rightarrow> bool" where
  "longest p c k s \<longleftrightarrow> (if \<exists>j. extends p c k j
     then \<exists>j. s = length p - Suc j \<and> extends p c k j \<and> (\<forall>i. extends p c k i \<longrightarrow> i \<le> j)
     else s = length p)"

lemma longest_next:
  assumes "p ! (length p - Suc k) \<noteq> c" and "border p k j" and "\<forall>i. border p k i \<longrightarrow> i \<le> j"
  shows "longest p c k s \<longleftrightarrow> longest p c j s"
proof -
  have "extends p c k i \<longleftrightarrow> extends p c j i" for i
  proof
    assume e: "extends p c k i"
    then have "border p k i" using assms(1) by (auto simp: extends_def)
    then have "i = j \<or> border p j i" using assms(2,3) border_smaller by (metis le_neq_implies_less)
    then show "extends p c j i" using e by (simp add: extends_def)
  next
    assume "extends p c j i"
    then show "extends p c k i" using assms(2) border_trans by (auto simp: extends_def)
  qed
  then show ?thesis by (simp add: longest_def)
qed

lemma follow_sidx_longest:
  assumes "table_ok p n sidx"
  shows "k < n \<Longrightarrow> k < length p \<Longrightarrow>
    \<exists>s. follow_sidx (length p) p sidx c (length p - Suc k) = Some s \<and> longest p c k s"
proof (induction k rule: less_induct)
  case (less k)
  let ?s = "length p - Suc k"
  have s: "?s < length p" "?s < length sidx" using less.prems assms by (simp_all add: table_ok_def)
  show ?case
  proof (cases "p ! ?s = c")
    case True
    then have "extends p c k k" by (simp add: extends_def)
    moreover have "i \<le> k" if "extends p c k i" for i using that by (auto simp: extends_def border_def)
    ultimately have "longest p c k ?s" by (auto simp: longest_def)
    then show ?thesis using True s by (subst follow_sidx.simps) simp
  next
    case False
    have unf: "follow_sidx (length p) p sidx c ?s = follow_sidx (length p) p sidx c (unat (sidx ! ?s))"
      using False s by (subst follow_sidx.simps) simp
    have e: "entry_ok p k (unat (sidx ! ?s))" using assms less.prems by (simp add: table_ok_def)
    show ?thesis
    proof (cases "k = 0")
      case True
      then have "follow_sidx (length p) p sidx c (unat (sidx ! ?s)) = Some (length p)"
        using e by (subst follow_sidx.simps) (simp add: entry_ok_def)
      moreover have "longest p c k (length p)"
        using True False by (auto simp: longest_def extends_def border_def)
      ultimately show ?thesis using unf by auto
    next
      case False
      then obtain j where j: "unat (sidx ! ?s) = length p - Suc j" "border p k j" "\<forall>i. border p k i \<longrightarrow> i \<le> j"
        using e by (auto simp: entry_ok_def)
      then have jk: "j < k" by (simp add: border_def)
      then obtain s' where "follow_sidx (length p) p sidx c (length p - Suc j) = Some s'" "longest p c j s'"
        using less.IH [OF jk] less.prems by auto
      then show ?thesis using unf j longest_next [OF \<open>p ! ?s \<noteq> c\<close> j(2,3)] by simp
    qed
  qed
qed

lemma longest_le: "longest p c k s \<Longrightarrow> s \<le> length p"
  by (auto simp: longest_def split: if_splits)

lemma longest_pos: "longest p c k s \<Longrightarrow> Suc k < length p \<Longrightarrow> 0 < s"
  by (auto simp: longest_def extends_def border_def split: if_splits)

text \<open>
  One step of the reverse search: from \<open>k\<close> characters that match after \<open>d\<close>, the table leads to the
  longest match at \<open>d\<close> that ends not later.
\<close>

lemma longest_match:
  assumes l: "longest p (t ! d) k s" and k: "k < length p" and t: "tail_at p k t (Suc d)"
  shows "s \<le> length p" and "tail_at p (length p - s) t d" and "length p - s \<le> Suc k"
    and "i \<le> Suc k \<Longrightarrow> tail_at p i t d \<Longrightarrow> i \<le> length p - s"
proof -
  have d: "d < length t" using t by (simp add: tail_at_def)
  have ext: "extends p (t ! d) k j \<longleftrightarrow> j \<le> k \<and> tail_at p (Suc j) t d" for j
  proof (cases "j \<le> k")
    case True
    then have "(j = k \<or> border p k j) \<longleftrightarrow> tail_at p j t (Suc d)"
      using t tail_at_border [OF t, of j] by (cases "j = k") auto
    then show ?thesis using True k d tail_at_Suc [of j p t d] by (auto simp: extends_def)
  qed (auto simp: extends_def border_def)
  have "s \<le> length p \<and> tail_at p (length p - s) t d \<and> length p - s \<le> Suc k \<and>
    (\<forall>i \<le> Suc k. tail_at p i t d \<longrightarrow> i \<le> length p - s)"
  proof (cases "\<exists>j. extends p (t ! d) k j")
    case True
    then obtain j where j: "s = length p - Suc j" "extends p (t ! d) k j" "\<forall>i. extends p (t ! d) k i \<longrightarrow> i \<le> j"
      using l by (auto simp: longest_def)
    have "length p - s = Suc j" using j(1,2) ext k by auto
    moreover have "i \<le> Suc j" if "i \<le> Suc k" "tail_at p i t d" for i
      using that j(3) ext by (cases i) auto
    ultimately show ?thesis using j(2) ext by (simp add: j(1))
  next
    case False
    then have s: "s = length p" using l by (simp add: longest_def)
    have "i = 0" if "i \<le> Suc k" "tail_at p i t d" for i
      using that False ext by (cases i) auto
    then show ?thesis using s d by (auto simp: tail_at_def)
  qed
  then show "s \<le> length p" "tail_at p (length p - s) t d" "length p - s \<le> Suc k"
    "i \<le> Suc k \<Longrightarrow> tail_at p i t d \<Longrightarrow> i \<le> length p - s"
    by auto
qed

lemma border_tail_at: "k \<le> length p \<Longrightarrow> border p k j \<longleftrightarrow> j < k \<and> tail_at p j p (length p - k)"
  by (auto simp: border_def tail_at_def)

lemma entry_Suc:
  assumes e: "entry_ok p k i2" and k: "Suc k < length p" and n: "table_ok p (Suc k) sidx"
  shows "\<exists>s. follow_sidx (length p) p sidx (p ! (length p - Suc k)) i2 = Some s \<and>
    0 < s \<and> s \<le> length p \<and> entry_ok p (Suc k) (s - 1)"
proof (cases "k = 0")
  case True
  then have "i2 = length p" using e by (simp add: entry_ok_def)
  moreover have "entry_ok p (Suc k) (length p - 1)" using True by (auto simp: entry_ok_def border_def)
  moreover have "p \<noteq> []" using k by auto
  ultimately show ?thesis by (subst follow_sidx.simps) simp
next
  case False
  then obtain j where j: "i2 = length p - Suc j" "border p k j" "\<forall>i. border p k i \<longrightarrow> i \<le> j"
    using e by (auto simp: entry_ok_def)
  let ?d = "length p - Suc k"
  have jk: "j < k" using j(2) by (simp add: border_def)
  obtain s where s: "follow_sidx (length p) p sidx (p ! ?d) i2 = Some s" "longest p (p ! ?d) j s"
    using follow_sidx_longest [OF n, of j "p ! ?d"] jk k j(1) by auto
  have d: "Suc ?d = length p - k" using k by simp
  have t: "tail_at p j p (Suc ?d)" unfolding d using j(2) border_tail_at [of k p j] k by simp
  have jl: "j < length p" using jk k by simp
  note m = longest_match [OF s(2) jl t]
  have "0 < s" using m(3) jk k by simp
  moreover have "border p (Suc k) (length p - s)"
    using m(2,3) jk border_tail_at [of "Suc k" p "length p - s"] k by simp
  moreover have "i \<le> length p - s" if i: "border p (Suc k) i" for i
  proof -
    have ti: "tail_at p i p ?d" and ik: "i < Suc k" using i border_tail_at [of "Suc k" p i] k by simp_all
    have "i \<le> Suc j"
    proof (cases i)
      case (Suc i')
      then have "border p k i'" using i ik k border_Suc [of k p i'] by simp
      then show ?thesis using j(3) Suc by simp
    qed simp
    then show ?thesis using m(4) ti by blast
  qed
  moreover have "s - 1 = length p - Suc (length p - s)" using m(1) by simp
  ultimately have "entry_ok p (Suc k) (s - 1)" unfolding entry_ok_def by auto
  then show ?thesis using s(1) m(1) \<open>0 < s\<close> by blast
qed

lemma table_ok_extend:
  assumes "table_ok p (Suc k) sidx" and "entry_ok p (Suc k) e" and "Suc (Suc k) \<le> length p" and "e \<le> length p"
  shows "table_ok p (Suc (Suc k)) (sidx[length p - Suc (Suc k) := of_nat e])"
proof -
  have "unat (of_nat e :: u8) = e"
    using assms(1,4) by (simp add: table_ok_def unat_of_nat take_bit_eq_mod)
  then show ?thesis
    using assms by (auto simp: table_ok_def nth_list_update less_Suc_eq)
qed

lemma sidx_loop_ok:
  "table_ok p (Suc k) sidx \<Longrightarrow> entry_ok p k i2 \<Longrightarrow> i + Suc k = length p \<Longrightarrow>
   \<exists>sidx'. sidx_loop (length p) p i i2 sidx = Some sidx' \<and> table_ok p (length p) sidx'"
proof (induction i arbitrary: k sidx i2)
  case (Suc i)
  have k: "Suc k < length p" and i: "Suc i = length p - Suc k" "i = length p - Suc (Suc k)" using Suc.prems(3) by simp_all
  obtain s where s: "follow_sidx (length p) p sidx (p ! Suc i) i2 = Some s" "0 < s" "s \<le> length p"
    "entry_ok p (Suc k) (s - 1)"
    using entry_Suc [OF Suc.prems(2) k Suc.prems(1)] by (auto simp: i(1))
  have b: "length p < 256" "length sidx = length p" using Suc.prems(1) by (simp_all add: table_ok_def)
  have t: "table_ok p (Suc (Suc k)) (sidx[i := of_nat (s - 1)])"
    using table_ok_extend [OF Suc.prems(1) s(4)] k s(3) by (simp add: i(2))
  have "sidx_loop (length p) p (Suc i) i2 sidx = sidx_loop (length p) p i (s - 1) (sidx[i := of_nat (s - 1)])"
    using s(1-3) b Suc.prems(3) by simp
  then show ?case using Suc.IH [OF t s(4)] Suc.prems(3) by simp
qed auto

lemma buildtable_rsearchkmp_ok:
  assumes "length p = unat n" and "0 < n" and "length sidx0 = unat n"
  obtains sidx where "buildtable_rsearchkmp n p sidx0 = Some sidx" and "table_ok p (length p) sidx"
proof -
  have n: "0 < length p" "length p < 256" using assms(1,2) unat_u8_bound [of n] by (simp_all add: word_less_nat_alt)
  have t: "table_ok p (Suc 0) (sidx0[length p - 1 := n])"
    using n assms by (simp add: table_ok_def entry_ok_def)
  from sidx_loop_ok [OF t, of "length p" "length p - 1"] n obtain sidx where
    "sidx_loop (length p) p (length p - 1) (length p) (sidx0[length p - 1 := n]) = Some sidx" "table_ok p (length p) sidx"
    by (auto simp: entry_ok_def)
  then show thesis using that n assms by (simp add: buildtable_rsearchkmp_def Let_def)
qed

lemma kmp_step_longest:
  assumes "table_ok p (length p) sidx" and "k < length p"
  shows "\<exists>s. kmp_step (length p) p sidx c (length p - Suc k) = Some s \<and> longest p c k s"
proof -
  have "kmp_step (length p) p sidx c (length p - Suc k) = follow_sidx (length p) p sidx c (length p - Suc k)"
  proof -
    have "length p - Suc k < length p" using assms(2) by simp
    then show ?thesis by (subst follow_sidx.simps) (simp add: kmp_step_def)
  qed
  then show ?thesis using follow_sidx_longest [OF assms] assms(2) by simp
qed

section \<open>The shift table\<close>

text \<open>
  When \<open>nm\<close> characters have matched, \<open>l < length p\<close> characters of \<open>p\<close> may stay under the text if they end
  with the matched characters, as far as they reach. The shift keeps the largest such \<open>l\<close>.
\<close>

definition keeps :: "u8 list \<Rightarrow> nat \<Rightarrow> nat \<Rightarrow> bool" where
  "keeps p nm l \<longleftrightarrow> l < length p \<and> tail_at p (min nm l) p (l - min nm l)"

definition largest_kept :: "u8 list \<Rightarrow> nat \<Rightarrow> nat \<Rightarrow> bool" where
  "largest_kept p nm l \<longleftrightarrow> keeps p nm l \<and> (\<forall>i. keeps p nm i \<longrightarrow> i \<le> l)"

definition shifts_ok :: "u8 list \<Rightarrow> nat \<Rightarrow> u8 list \<Rightarrow> bool" where
  "shifts_ok p n sh \<longleftrightarrow> length sh = length p \<and> length p < 256 \<and>
     (\<forall>nm < n. \<exists>l. unat (sh ! nm) = length p - l \<and> largest_kept p nm l)"

lemma tail_at_shorter:
  assumes "tail_at p k t (l - k)" and "i \<le> k" and "k \<le> l" and "k \<le> length p"
  shows "tail_at p i t (l - i)"
  unfolding tail_at_def
proof (intro conjI allI impI)
  show "l - i + i \<le> length t" using assms by (simp add: tail_at_def)
  fix j
  assume "j < i"
  then have "k - i + j < k" using assms(2) by simp
  with assms(1) have "t ! (l - k + (k - i + j)) = p ! (length p - k + (k - i + j))"
    unfolding tail_at_def by blast
  moreover have "l - k + (k - i + j) = l - i + j" "length p - k + (k - i + j) = length p - i + j"
    using assms by simp_all
  ultimately show "t ! (l - i + j) = p ! (length p - i + j)" by simp
qed

lemma keeps_fewer: "keeps p nm l \<Longrightarrow> n \<le> nm \<Longrightarrow> keeps p n l"
  using tail_at_shorter [of p "min nm l" p l "min n l"] by (auto simp: keeps_def)

lemma keeps_tail: "keeps p nm l \<Longrightarrow> i \<le> nm \<Longrightarrow> i \<le> l \<Longrightarrow> tail_at p i p (l - i)"
  using tail_at_shorter [of p "min nm l" p l i] by (auto simp: keeps_def)

lemma shift_inner_ok:
  assumes t: "table_ok p (length p) sidx" and nm: "nm < length p"
  shows "k < nm \<Longrightarrow> tail_at p k p d \<Longrightarrow> d + k < length p \<Longrightarrow> \<forall>l. keeps p nm l \<longrightarrow> l \<le> d + k \<Longrightarrow>
    \<exists>d' s. shift_inner (length p) p sidx nm d (length p - k) = Some (d', s) \<and> s \<le> length p \<and>
      largest_kept p nm (d' + (length p - s)) \<and> (s = length p \<longrightarrow> d' = 0 \<or> d = 0)"
proof (induction d arbitrary: k)
  case 0
  then show ?case by (auto simp: largest_kept_def keeps_def min_def)
next
  case (Suc d)
  have b: "length p < 2 ^ 32" using t by (simp add: table_ok_def)
  have k: "k < length p" and d: "d < length p" using Suc.prems(1,3) nm by simp_all
  obtain s where s: "kmp_step (length p) p sidx (p ! d) (length p - Suc k) = Some s" "longest p (p ! d) k s"
    using kmp_step_longest [OF t k] by blast
  note m = longest_match [OF s(2) k Suc.prems(2)]
  have sub: "sub_unsigned (length p - k) 1 = length p - Suc k" "sub_unsigned (length p) s = length p - s"
    using k b m(1) by simp_all
  have unf: "shift_inner (length p) p sidx nm (Suc d) (length p - k) =
    (if nm = length p - s then Some (d, s) else shift_inner (length p) p sidx nm d s)"
    by (simp only: shift_inner.simps Let_def sub at_nth [OF d] Option.bind.simps s(1))
  have bound: "l \<le> d + (length p - s)" if "keeps p nm l" for l
  proof (cases "l \<le> d")
    case False
    have l: "l \<le> Suc d + k" using Suc.prems(4) that by blast
    then have "tail_at p (l - d) p (l - (l - d))" using keeps_tail [OF that, of "l - d"] Suc.prems(1) by simp
    then have "l - d \<le> length p - s" using m(4) [of "l - d"] l False by simp
    then show ?thesis by simp
  qed simp
  show ?case
  proof (cases "nm = length p - s")
    case True
    then have "keeps p nm (d + nm)" using m(2,3) Suc.prems(3) by (simp add: keeps_def)
    then show ?thesis using unf True m(1) bound Suc.prems(1) by (auto simp: largest_kept_def)
  next
    case False
    then have "length p - s < nm" using m(3) Suc.prems(1) by simp
    moreover have "d + (length p - s) < length p" using m(3) Suc.prems(3) by simp
    ultimately obtain d' s' where "shift_inner (length p) p sidx nm d (length p - (length p - s)) = Some (d', s')"
      "s' \<le> length p" "largest_kept p nm (d' + (length p - s'))" "s' = length p \<longrightarrow> d' = 0 \<or> d = 0"
      using Suc.IH [OF _ m(2)] bound by blast
    then show ?thesis using unf False m(1) by auto
  qed
qed

lemma largest_kept_same: "largest_kept p nm l \<Longrightarrow> l \<le> nm \<Longrightarrow> largest_kept p (Suc nm) l"
proof -
  assume l: "largest_kept p nm l" "l \<le> nm"
  then have "keeps p (Suc nm) l" by (simp add: largest_kept_def keeps_def min_absorb2)
  then show ?thesis using l(1) keeps_fewer [of p "Suc nm" _ nm] by (auto simp: largest_kept_def)
qed

lemma shift_loop_ok:
  assumes t: "table_ok p (length p) sidx"
  shows "0 < nm \<Longrightarrow> shifts_ok p nm sh \<Longrightarrow> largest_kept p (nm - 1) lo \<Longrightarrow> nm \<le> length p \<Longrightarrow>
    \<exists>sh'. shift_loop (length p) p sidx nm lo sh = Some sh' \<and> shifts_ok p (length p) sh'"
proof (induction "length p - nm" arbitrary: nm lo sh rule: less_induct)
  case less
  have b: "length p < 256" using t by (simp add: table_ok_def)
  show ?case
  proof (cases "nm < length p")
    case False
    then show ?thesis using less.prems by (subst shift_loop.simps) simp
  next
    case True
    have lo: "lo < length p" using less.prems(3) by (simp add: largest_kept_def keeps_def)
    obtain l where l: "(if lo \<ge> nm then do {
          let dpos = sub_unsigned lo nm + 1;
          let spos = sub_unsigned (length p) nm + 1;
          (dpos, spos) \<leftarrow> shift_inner (length p) p sidx nm dpos spos;
          Some (if spos < length p then dpos + sub_unsigned (length p) spos else 0) }
        else Some lo) = Some l" "largest_kept p nm l"
    proof (cases "lo \<ge> nm")
      case False
      then have "largest_kept p nm lo" using largest_kept_same [OF less.prems(3)] less.prems(1) by simp
      then show thesis using that False by simp
    next
      case ge: True
      have d: "sub_unsigned lo nm + 1 = lo - (nm - 1)" "sub_unsigned (length p) nm + 1 = length p - (nm - 1)"
        using ge lo b True less.prems(1) by simp_all
      have "tail_at p (nm - 1) p (lo - (nm - 1))"
        using less.prems(3) keeps_tail [of p "nm - 1" lo "nm - 1"] ge by (simp add: largest_kept_def)
      moreover have "\<forall>l. keeps p nm l \<longrightarrow> l \<le> lo - (nm - 1) + (nm - 1)"
        using less.prems(3) keeps_fewer [of p nm _ "nm - 1"] ge by (auto simp: largest_kept_def)
      ultimately obtain d' s where s: "shift_inner (length p) p sidx nm (lo - (nm - 1)) (length p - (nm - 1)) = Some (d', s)"
        "s \<le> length p" "largest_kept p nm (d' + (length p - s))" "s = length p \<longrightarrow> d' = 0"
        using shift_inner_ok [OF t True, of "nm - 1" "lo - (nm - 1)"] less.prems(1) lo ge by fastforce
      have "(if s < length p then d' + sub_unsigned (length p) s else 0) = d' + (length p - s)"
        using s(2,4) b by auto
      then show thesis using that [OF _ s(3)] ge s(1) by (simp only: if_True d Let_def Option.bind.simps prod.case)
    qed
    have ll: "l < length p" using l(2) by (simp add: largest_kept_def keeps_def)
    let ?sh = "sh[nm := of_nat (length p - l)]"
    have v: "unat (of_nat (length p - l) :: u8) = length p - l"
      using b by (simp add: unat_of_nat take_bit_eq_mod)
    have sh: "shifts_ok p (Suc nm) ?sh"
      using less.prems(2) l(2) True v by (auto simp: shifts_ok_def nth_list_update less_Suc_eq)
    have "nm < length sh" using less.prems(2) True by (simp add: shifts_ok_def)
    then have "shift_loop (length p) p sidx nm lo sh = shift_loop (length p) p sidx (nm + 1) l ?sh"
      using b ll by (subst shift_loop.simps) (simp only: True if_True l(1) Option.bind.simps, simp)
    then show ?thesis using less.hyps [of "Suc nm" ?sh l] sh l(2) True by simp
  qed
qed

lemma buildtable_strsearch_ok:
  assumes "length p = unat n" and "0 < n" and "length sidx0 = unat n" and "length sh = unat n"
  obtains sh' where "buildtable_strsearch sidx0 n p sh = Some sh'" and "shifts_ok p (length p) sh'"
proof -
  have n: "0 < length p" "length p < 256" using assms(1,2) unat_u8_bound [of n] by (simp_all add: word_less_nat_alt)
  obtain sidx where sidx: "buildtable_rsearchkmp n p sidx0 = Some sidx" "table_ok p (length p) sidx"
    using buildtable_rsearchkmp_ok [OF assms(1-3)] .
  have k: "largest_kept p 0 (length p - 1)"
    using n by (auto simp: largest_kept_def keeps_def tail_at_def)
  then have "shifts_ok p 1 (sh[0 := 1])"
    using n assms by (auto simp: shifts_ok_def intro!: exI [of _ "length p - 1"])
  with k obtain sh' where "shift_loop (length p) p sidx 1 (length p - 1) (sh[0 := 1]) = Some sh'" "shifts_ok p (length p) sh'"
    using shift_loop_ok [OF sidx(2), of 1 "sh[0 := 1]" "length p - 1"] n by auto
  then show thesis using that sidx(1) n assms by (simp add: buildtable_strsearch_def)
qed

section \<open>Occurrences\<close>

definition occurs :: "'a list \<Rightarrow> 'a list \<Rightarrow> nat \<Rightarrow> bool" where
  "occurs p t d \<longleftrightarrow> d + length p \<le> length t \<and> take (length p) (drop d t) = p"

definition first_occurrence :: "'a list \<Rightarrow> 'a list \<Rightarrow> nat option" where
  "first_occurrence p t = List.find (occurs p t) [0..<length t]"

definition last_occurrence :: "'a list \<Rightarrow> 'a list \<Rightarrow> nat option" where
  "last_occurrence p t = List.find (occurs p t) (rev [0..<length t])"

lemma occurs_nth: "occurs p t d \<longleftrightarrow> d + length p \<le> length t \<and> (\<forall>i < length p. t ! (d + i) = p ! i)"
  by (auto simp: occurs_def list_eq_iff_nth_eq)

lemma occurs_tail_at: "occurs p t d \<longleftrightarrow> tail_at p (length p) t d"
  by (simp add: occurs_nth tail_at_def)

lemma find_upt_first:
  assumes "P d" and "d < n" and "\<forall>i < d. \<not> P i"
  shows "List.find P [0..<n] = Some d"
  unfolding find_Some_iff using assms by (intro exI [of _ d]) auto

lemma find_rev_upt_last:
  assumes "P d" and "d < n" and "\<forall>i. d < i \<longrightarrow> i < n \<longrightarrow> \<not> P i"
  shows "List.find P (rev [0..<n]) = Some d"
  unfolding find_Some_iff using assms by (intro exI [of _ "n - Suc d"]) (auto simp: rev_nth)

lemma find_none: "\<forall>i \<in> set xs. \<not> P i \<Longrightarrow> List.find P xs = None"
  by (simp add: find_None_iff)

section \<open>The search\<close>

text \<open>The characters that \<open>compare_loop\<close> has seen: \<open>i\<close> is an offset in the searched string.\<close>

definition agrees :: "u8 list \<Rightarrow> u8 list \<Rightarrow> nat \<Rightarrow> int \<Rightarrow> bool" where
  "agrees p t pos i \<longleftrightarrow> t ! nat (int pos + i) = p ! nat i"

lemma compare_loop_ok:
  assumes n: "pos + length p \<le> length t" and skip: "0 \<le> skip"
  shows "0 \<le> eoff \<Longrightarrow> eoff \<le> off \<Longrightarrow> off < int (length p) \<Longrightarrow>
    \<forall>i. off < i \<and> i < int (length p) \<longrightarrow> agrees p t pos i \<Longrightarrow>
    \<forall>i. 0 \<le> i \<and> eoff - skip \<le> i \<and> i < eoff \<longrightarrow> agrees p t pos i \<Longrightarrow>
    (compare_loop p t pos skip eoff off = Some None \<and> occurs p t pos) \<or>
    (\<exists>x. compare_loop p t pos skip eoff off = Some (Some x) \<and> 0 \<le> x \<and> x < int (length p) \<and>
      \<not> agrees p t pos x \<and> (\<forall>i. x < i \<and> i < int (length p) \<longrightarrow> agrees p t pos i))"
proof (induction "nat off" arbitrary: off eoff rule: less_induct)
  case less
  have o: "0 \<le> off" using less.prems(1,2) by simp
  have a: "at_int p off = Some (p ! nat off)" "at_int t (int pos + off) = Some (t ! nat (int pos + off))"
    using o less.prems(3) n by (simp_all add: at_int_def)
  have unf: "compare_loop p t pos skip eoff off =
    (if agrees p t pos off then
       if off = eoff then
         if off \<le> skip then Some None else compare_loop p t pos skip 0 (off - skip - 1)
       else compare_loop p t pos skip eoff (off - 1)
     else Some (Some off))"
    by (subst compare_loop.simps) (simp add: a agrees_def eq_commute)
  show ?case
  proof (cases "agrees p t pos off")
    case False
    then show ?thesis using unf o less.prems(3,4) by auto
  next
    case True
    then have all: "agrees p t pos i" if "off \<le> i" "i < int (length p)" for i
      using less.prems(4) that by (cases "i = off") auto
    show ?thesis
    proof (cases "off = eoff")
      case eq: True
      then have low: "agrees p t pos i" if "0 \<le> i" "off - skip \<le> i" "i < int (length p)" for i
        using less.prems(5) all that by (cases "i < off") auto
      show ?thesis
      proof (cases "off \<le> skip")
        case sk: True
        have "t ! (pos + i) = p ! i" if "i < length p" for i
          using low [of "int i"] that sk by (simp add: agrees_def nat_int_add)
        then show ?thesis using unf True eq sk n by (simp add: occurs_nth)
      next
        case False
        then have "(compare_loop p t pos skip 0 (off - skip - 1) = Some None \<and> occurs p t pos) \<or>
          (\<exists>x. compare_loop p t pos skip 0 (off - skip - 1) = Some (Some x) \<and> 0 \<le> x \<and> x < int (length p) \<and>
            \<not> agrees p t pos x \<and> (\<forall>i. x < i \<and> i < int (length p) \<longrightarrow> agrees p t pos i))"
          using skip low less.prems(3) by (intro less.hyps) auto
        then show ?thesis using unf True eq False by simp
      qed
    next
      case False
      then have "(compare_loop p t pos skip eoff (off - 1) = Some None \<and> occurs p t pos) \<or>
          (\<exists>x. compare_loop p t pos skip eoff (off - 1) = Some (Some x) \<and> 0 \<le> x \<and> x < int (length p) \<and>
            \<not> agrees p t pos x \<and> (\<forall>i. x < i \<and> i < int (length p) \<longrightarrow> agrees p t pos i))"
        using less.prems all by (intro less.hyps) auto
      then show ?thesis using unf True False by simp
    qed
  qed
qed

text \<open>
  A shift skips no occurrence, and what it leaves under the text agrees.
\<close>

lemma agrees_int: "agrees p t pos (int i) \<longleftrightarrow> t ! (pos + i) = p ! i"
  by (simp add: agrees_def nat_int_add)

lemma agrees_above:
  assumes "\<forall>i. int m - 1 - int nm < i \<and> i < int m \<longrightarrow> agrees p t pos i" and "m - nm \<le> i" and "i < m" and "nm < m"
  shows "t ! (pos + i) = p ! i"
  using assms(1) [rule_format, of "int i"] assms(2-4) by (simp add: agrees_int)

lemma shift_skips:
  assumes k: "largest_kept p nm l" and m: "nm < length p" and n: "pos + length p \<le> length t"
    and a: "\<forall>i. int (length p) - 1 - int nm < i \<and> i < int (length p) \<longrightarrow> agrees p t pos i"
    and s: "0 < s" "s < length p - l"
  shows "\<not> occurs p t (pos + s)"
proof
  assume o: "occurs p t (pos + s)"
  define j where "j = length p - s"
  define q where "q = min nm j"
  have q: "q \<le> nm" "q \<le> j" "j \<le> length p" by (simp_all add: q_def j_def)
  have "tail_at p q p (j - q)"
    unfolding tail_at_def
  proof (intro conjI allI impI)
    show "j - q + q \<le> length p" using q by simp
    fix i
    assume i: "i < q"
    have "j - q + i < length p" using i q by linarith
    then have "p ! (j - q + i) = t ! (pos + s + (j - q + i))" using o unfolding occurs_nth by metis
    also have "pos + s + (j - q + i) = pos + (length p - q + i)" using q i s unfolding j_def by linarith
    also have "t ! \<dots> = p ! (length p - q + i)"
      by (rule agrees_above [OF a _ _ m]) (use q i in linarith)+
    finally show "p ! (j - q + i) = p ! (length p - q + i)" .
  qed
  then have "keeps p nm j" using s by (simp add: keeps_def q_def j_def)
  then show False using k s by (auto simp: largest_kept_def j_def)
qed

lemma shift_agrees:
  assumes k: "keeps p nm l" and m: "nm < length p" and n: "pos + length p \<le> length t"
    and a: "\<forall>i. int (length p) - 1 - int nm < i \<and> i < int (length p) \<longrightarrow> agrees p t pos i"
    and i: "0 \<le> i" "int l - int nm \<le> i" "i < int l"
  shows "agrees p t (pos + (length p - l)) i"
proof -
  define q where "q = min nm l"
  have l: "l < length p" using k by (simp add: keeps_def)
  have q: "q \<le> nm" "q \<le> l" by (simp_all add: q_def)
  define x where "x = nat i - (l - q)"
  have x: "nat i = l - q + x" "x < q" using i unfolding x_def q_def by linarith+
  have "p ! (l - q + x) = p ! (length p - q + x)"
    using k x(2) by (simp add: keeps_def tail_at_def flip: q_def)
  also have "\<dots> = t ! (pos + (length p - q + x))"
    by (rule agrees_above [OF a _ _ m, symmetric]) (use q l x(2) in linarith)+
  also have "pos + (length p - q + x) = nat (int (pos + (length p - l)) + i)"
    using x i l q by linarith
  finally show ?thesis by (simp add: agrees_def x(1))
qed

lemma find_loop_ok:
  assumes sh: "shifts_ok p (length p) sh" and p: "1 < length p" and t: "length p \<le> length t"
  shows "pos + length p \<le> length t \<Longrightarrow> 0 \<le> skip \<Longrightarrow> 0 \<le> eoff \<Longrightarrow> eoff < int (length p) \<Longrightarrow>
    \<forall>i. 0 \<le> i \<and> eoff - skip \<le> i \<and> i < eoff \<longrightarrow> agrees p t pos i \<Longrightarrow>
    \<forall>d < pos. \<not> occurs p t d \<Longrightarrow>
    find_loop (int (length p)) p sh t (length t - (length p - 1)) pos skip eoff = Some (first_occurrence p t)"
proof (induction "length t - pos" arbitrary: pos skip eoff rule: less_induct)
  case less
  have "(compare_loop p t pos skip eoff (int (length p) - 1) = Some None \<and> occurs p t pos) \<or>
    (\<exists>x. compare_loop p t pos skip eoff (int (length p) - 1) = Some (Some x) \<and> 0 \<le> x \<and> x < int (length p) \<and>
      \<not> agrees p t pos x \<and> (\<forall>i. x < i \<and> i < int (length p) \<longrightarrow> agrees p t pos i))"
    by (rule compare_loop_ok [OF less.prems(1,2,3)]) (use less.prems(4,5) in auto)
  then consider "compare_loop p t pos skip eoff (int (length p) - 1) = Some None" "occurs p t pos"
    | x where "compare_loop p t pos skip eoff (int (length p) - 1) = Some (Some x)" "0 \<le> x" "x < int (length p)"
      "\<not> agrees p t pos x" "\<forall>i. x < i \<and> i < int (length p) \<longrightarrow> agrees p t pos i"
    by blast
  then show ?case
  proof cases
    case 1
    have "pos < length t" using less.prems(1) p by simp
    then have "first_occurrence p t = Some pos"
      unfolding first_occurrence_def using find_upt_first [of "occurs p t" pos "length t"] 1(2) less.prems(6) by blast
    then show ?thesis using 1 by (subst find_loop.simps) simp
  next
    case x: 2
    define nm where "nm = nat (int (length p) - 1 - x)"
    have nm: "int (length p) - 1 - x = int nm" "nm < length p" using x(2,3) by (simp_all add: nm_def)
    obtain l where l: "unat (sh ! nm) = length p - l" "largest_kept p nm l"
      using sh nm(2) by (auto simp: shifts_ok_def)
    have k: "keeps p nm l" and lp: "l < length p" using l(2) by (simp_all add: largest_kept_def keeps_def)
    define pos' where "pos' = pos + (length p - l)"
    have a: "\<forall>i. int (length p) - 1 - int nm < i \<and> i < int (length p) \<longrightarrow> agrees p t pos i"
      using x(5) nm(1) by simp
    have no: "\<not> occurs p t d" if "d < pos'" for d
    proof -
      note d = that
      consider "d < pos" | "d = pos" | s where "0 < s" "s < length p - l" "d = pos + s"
      proof (cases "pos < d")
        case True
        then show thesis using that(3) [of "d - pos"] d by (simp add: pos'_def)
      qed (use that(1,2) in linarith)
      then show ?thesis
      proof cases
        case 1
        then show ?thesis using less.prems(6) by blast
      next
        case 2
        have "t ! (pos + nat x) \<noteq> p ! nat x" using x(2,4) by (simp add: agrees_def nat_add_distrib)
        moreover have "nat x < length p" using x(2,3) by simp
        ultimately show ?thesis using 2 unfolding occurs_nth by blast
      next
        case 3
        then show ?thesis using shift_skips [OF l(2) nm(2) less.prems(1) a 3(1,2)] by simp
      qed
    qed
    have "at_int sh (int nm) = Some (sh ! nm)" using sh nm(2) by (simp add: at_int_def shifts_ok_def)
    moreover have "int (length p) - uint (sh ! nm) = int l"
      using l(1) lp by (simp add: uint_nat of_nat_diff)
    ultimately have unf: "find_loop (int (length p)) p sh t (length t - (length p - 1)) pos skip eoff =
      (if pos' < length t - (length p - 1)
       then find_loop (int (length p)) p sh t (length t - (length p - 1)) pos' (int nm) (int l) else Some None)"
      by (subst find_loop.simps) (simp only: x(1) Option.bind.simps option.case nm(1) Let_def l(1) pos'_def)
    show ?thesis
    proof (cases "pos' < length t - (length p - 1)")
      case True
      have "find_loop (int (length p)) p sh t (length t - (length p - 1)) pos' (int nm) (int l) = Some (first_occurrence p t)"
      proof (rule less.hyps)
        show "length t - pos' < length t - pos" using True lp pos'_def by linarith
        show "pos' + length p \<le> length t" using True by linarith
        show "\<forall>i. 0 \<le> i \<and> int l - int nm \<le> i \<and> i < int l \<longrightarrow> agrees p t pos' i"
          unfolding pos'_def using shift_agrees [OF k nm(2) less.prems(1) a] by blast
        show "\<forall>d < pos'. \<not> occurs p t d" using no by blast
      qed (use lp in simp_all)
      then show ?thesis using unf True by simp
    next
      case False
      then have "\<not> occurs p t d" for d
        using no [of d] p by (cases "d < pos'") (auto simp: occurs_def)
      then have "first_occurrence p t = None" by (simp add: first_occurrence_def find_none)
      then show ?thesis using unf False by simp
    qed
  qed
qed

lemma memchr_first: "memchr t c (length t) = first_occurrence [c] t"
proof -
  have "List.find (\<lambda>i. t ! i = c) xs = List.find (occurs [c] t) xs" if "set xs \<subseteq> {..<length t}" for xs
    using that by (induction xs) (auto simp: occurs_nth)
  from this [of "[0..<length t]"] show ?thesis by (simp add: memchr_def first_occurrence_def atLeast_upt)
qed

lemma first_occurrence_long: "length t < length p \<Longrightarrow> first_occurrence p t = None"
  by (simp add: first_occurrence_def find_none occurs_def)

lemma find_loop_first:
  assumes "shifts_ok p (length p) sh" and "1 < length p" and "length p \<le> length t"
  shows "find_loop (int (length p)) p sh t (length t - (length p - 1)) 0 0 0 = Some (first_occurrence p t)"
  by (rule find_loop_ok [OF assms]) (use assms(2,3) in auto)

section \<open>The reverse search\<close>

lemma rsearch_loop_ok:
  assumes t: "table_ok p (length p) sidx"
  shows "k < length p \<Longrightarrow> tail_at p k t d \<Longrightarrow> \<forall>e. occurs p t e \<longrightarrow> e + length p \<le> d + k \<Longrightarrow>
    rsearch_loop (length p) p sidx t d (length p - k) = Some (last_occurrence p t)"
proof (induction d arbitrary: k)
  case 0
  then have "last_occurrence p t = None" by (fastforce simp: last_occurrence_def intro!: find_none)
  then show ?case by simp
next
  case (Suc d)
  note k = Suc.prems(1)
  have b: "length p < 2 ^ 32" using t by (simp add: table_ok_def)
  have d: "d < length t" using Suc.prems(2) by (simp add: tail_at_def)
  obtain s where s: "kmp_step (length p) p sidx (t ! d) (length p - Suc k) = Some s" "longest p (t ! d) k s"
    using kmp_step_longest [OF t k] by blast
  note m = longest_match [OF s(2) k Suc.prems(2)]
  have sub: "sub_unsigned (length p - k) 1 = length p - Suc k" using k b by simp
  have unf: "rsearch_loop (length p) p sidx t (Suc d) (length p - k) =
    (if s = 0 then Some (Some d) else rsearch_loop (length p) p sidx t d s)"
    by (simp only: rsearch_loop.simps Let_def sub at_nth [OF d] Option.bind.simps s(1))
  have bound: "e + length p \<le> d + (length p - s)" if e: "occurs p t e" for e
  proof (cases "e + length p \<le> d")
    case False
    have "tail_at p (length p) t (e + length p - length p)" using e by (simp add: occurs_tail_at)
    have l: "e + length p \<le> Suc d + k" using Suc.prems(3) e by blast
    have "tail_at p (e + length p - d) t (e + length p - (e + length p - d))"
      by (rule tail_at_shorter [OF \<open>tail_at p (length p) t (e + length p - length p)\<close>]) (use k False l in linarith)+
    moreover have "e + length p - (e + length p - d) = d" using False by simp
    ultimately have "e + length p - d \<le> length p - s" using m(4) [of "e + length p - d"] l by simp
    then show ?thesis by simp
  qed simp
  show ?case
  proof (cases "s = 0")
    case True
    then have "occurs p t d" using m(2) by (simp add: occurs_tail_at)
    then have "last_occurrence p t = Some d"
      unfolding last_occurrence_def using bound True d by (intro find_rev_upt_last) fastforce+
    then show ?thesis using unf True by simp
  next
    case False
    then have "rsearch_loop (length p) p sidx t d (length p - (length p - s)) = Some (last_occurrence p t)"
      using m(1,2) bound k by (intro Suc.IH) auto
    then show ?thesis using unf False m(1) by simp
  qed
qed

lemma strsearch_first:
  assumes "length p = unat n" and "length sidx0 = unat n" and "length shift0 = unat n"
  shows "strsearch sidx0 shift0 (length t) t n p = Some (if p = [] then None else first_occurrence p t)"
proof -
  have "length t < length p \<or> p = [] \<or> (\<exists>c. p = [c] \<and> 1 \<le> length t) \<or> (1 < length p \<and> length p \<le> length t)"
    by (cases p; cases "tl p") (auto simp: Suc_le_eq)
  then consider "length t < length p" | "p = []" | c where "p = [c]" "1 \<le> length t" | "1 < length p" "length p \<le> length t"
    by blast
  then show ?thesis
  proof cases
    case 4
    then have "0 < n" using assms(1) by (auto simp: word_gt_0)
    from buildtable_strsearch_ok [OF assms(1) this assms(2,3)] obtain sh where
      "buildtable_strsearch sidx0 n p shift0 = Some sh" "shifts_ok p (length p) sh" .
    then show ?thesis using 4 find_loop_first [of p sh t] assms(1) [symmetric] by (auto simp: strsearch_def Let_def)
  qed (use assms(1) [symmetric] in \<open>auto simp: strsearch_def Let_def first_occurrence_long memchr_first\<close>)
qed

lemma find_strsearch_first:
  assumes "length p = unat n" and "length sidx0 = unat n" and "length sh = unat n"
  shows "\<exists>s. init_strsearch sidx0 n p sh = Some s \<and>
    (\<forall>t. find_strsearch s (length t) t = Some (if p = [] then None else first_occurrence p t))"
proof (cases "1 < length p")
  case True
  then have "0 < n" using assms(1) by (auto simp: word_gt_0)
  from buildtable_strsearch_ok [OF assms(1) this assms(2,3)] obtain sh' where
    "buildtable_strsearch sidx0 n p sh = Some sh'" "shifts_ok p (length p) sh'" .
  then show ?thesis using True find_loop_first [of p sh'] assms(1) [symmetric]
    by (auto simp: init_strsearch_def find_strsearch_def Let_def first_occurrence_long)
next
  case False
  then consider "p = []" | c where "p = [c]" by (cases p; cases "tl p") auto
  then show ?thesis
    using assms(1) [symmetric]
    by cases (auto simp: init_strsearch_def find_strsearch_def Let_def memchr_first first_occurrence_long)
qed

lemma rsearch_kmp_last:
  assumes "length p = unat n" and "length sidx0 = unat n"
  shows "rsearch_kmp sidx0 (length t) t n p = Some (if p = [] then None else last_occurrence p t)"
proof (cases "n = 0 \<or> length t < length p")
  case True
  then show ?thesis
    using assms(1) by (auto simp: rsearch_kmp_def last_occurrence_def find_none occurs_def)
next
  case False
  then have "0 < n" by (simp add: word_gt_0)
  from buildtable_rsearchkmp_ok [OF assms(1) this assms(2)] obtain sidx where
    sidx: "buildtable_rsearchkmp n p sidx0 = Some sidx" "table_ok p (length p) sidx" .
  have p: "0 < length p" using \<open>0 < n\<close> assms(1) by (simp add: word_less_nat_alt)
  then have "p \<noteq> []" by simp
  have "\<forall>e. occurs p t e \<longrightarrow> e + length p \<le> length t + 0" by (simp add: occurs_def)
  from rsearch_loop_ok [OF sidx(2) p _ this] show ?thesis
    using False p \<open>p \<noteq> []\<close> sidx(1) assms(1) by (simp add: rsearch_kmp_def tail_at_def)
qed

section \<open>Property\<close>

text \<open>C4: \<open>strsearch\<close> returns the first occurrence of the searched string, whatever the text, and finds
  nothing for the empty string; an initialized \<open>strsearch_t\<close> does so for any number of texts; and
  \<open>rsearch_kmp\<close> returns the last occurrence. All accesses stay inside the arrays, whatever their
  initial content.
\<close>

theorem searches_find:
  assumes "length p = unat n" and "length sidx0 = unat n" and "length shift0 = unat n"
  shows "strsearch sidx0 shift0 (length t) t n p = Some (if p = [] then None else first_occurrence p t) \<and>
    (\<exists>s. init_strsearch sidx0 n p shift0 = Some s \<and>
       (\<forall>t. find_strsearch s (length t) t = Some (if p = [] then None else first_occurrence p t))) \<and>
    rsearch_kmp sidx0 (length t) t n p = Some (if p = [] then None else last_occurrence p t)"
  using strsearch_first [OF assms] find_strsearch_first [OF assms] rsearch_kmp_last [OF assms(1,2)] by blast

lemma searches_find_witness:
  "strsearch [0, 0] [0, 0] 5 [7, 1, 2, 1, 2] 2 [1, 2] = Some (Some 1) \<and>
   rsearch_kmp [0, 0] 5 [7, 1, 2, 1, 2] 2 [1, 2] = Some (Some 3)"
proof -
  have f: "first_occurrence [1, 2] [7, 1, 2, 1, 2 :: u8] = Some 1" "last_occurrence [1, 2] [7, 1, 2, 1, 2 :: u8] = Some 3"
    by (simp_all add: first_occurrence_def last_occurrence_def occurs_def upt_rec)
  have l: "length [1, 2 :: u8] = unat (2 :: u8)" "length [0, 0 :: u8] = unat (2 :: u8)" "length [7, 1, 2, 1, 2 :: u8] = 5"
    by simp_all
  from searches_find [OF l(1) l(2) l(2), of "[7, 1, 2, 1, 2]"] show ?thesis
    by (simp only: l(3) f list.distinct if_False simp_thms)
qed

end
