(* ===== verification/Ds_Compare.thy ===== *)
theory Ds_Compare
  imports Prelude
begin

text \<open>
  The contract of the comparison callbacks (\<open>heap_compare_f\<close> of api/ds/inmem/heap.h): the sign of
  the returned \<open>int\<close> orders the objects. Every client needs the same two laws, which make the
  comparison a total preorder on the objects it is called with: \<open>A\<close> is the set of these objects.
  The theory also holds the heap condition on arrays and the two local repairs of it, on which
  the proofs of Ds_Heap rest.
\<close>

section \<open>The contract\<close>

locale comparator =
  fixes cmp :: "'a \<Rightarrow> 'a \<Rightarrow> int" and A :: "'a set"
  assumes asym: "x \<in> A \<Longrightarrow> y \<in> A \<Longrightarrow> cmp x y < 0 \<Longrightarrow> 0 \<le> cmp y x"
    and trans: "x \<in> A \<Longrightarrow> y \<in> A \<Longrightarrow> z \<in> A \<Longrightarrow> 0 \<le> cmp x y \<Longrightarrow> 0 \<le> cmp y z \<Longrightarrow> 0 \<le> cmp x z"

section \<open>The heap condition\<close>

text \<open>
  Element \<open>c > 0\<close> has the parent \<open>(c - 1) div 2\<close>. \<open>ordered_from\<close> restricts the condition to parents
  from \<open>k\<close> on. \<open>ordered_but_children\<close> leaves out the edges below \<open>j\<close>, \<open>ordered_but_parent\<close> the edge
  above \<open>j\<close>; both keep the edges that skip \<open>j\<close>.
\<close>

definition above :: "nat \<Rightarrow> nat" where
  "above c = (c - 1) div 2"

definition ordered_from :: "('a \<Rightarrow> 'a \<Rightarrow> int) \<Rightarrow> nat \<Rightarrow> nat \<Rightarrow> 'a list \<Rightarrow> bool" where
  "ordered_from cmp k n xs \<longleftrightarrow> (\<forall>c \<in> {0<..<n}. k \<le> above c \<longrightarrow> 0 \<le> cmp (xs ! above c) (xs ! c))"

abbreviation heap_ordered :: "('a \<Rightarrow> 'a \<Rightarrow> int) \<Rightarrow> nat \<Rightarrow> 'a list \<Rightarrow> bool" where
  "heap_ordered cmp \<equiv> ordered_from cmp 0"

definition ordered_but_children :: "('a \<Rightarrow> 'a \<Rightarrow> int) \<Rightarrow> nat \<Rightarrow> nat \<Rightarrow> nat \<Rightarrow> 'a list \<Rightarrow> bool" where
  "ordered_but_children cmp k j n xs \<longleftrightarrow>
     (\<forall>c \<in> {0<..<n}. k \<le> above c \<and> above c \<noteq> j \<longrightarrow> 0 \<le> cmp (xs ! above c) (xs ! c)) \<and>
     (0 < j \<and> k \<le> above j \<longrightarrow> (\<forall>c \<in> {0<..<n}. above c = j \<longrightarrow> 0 \<le> cmp (xs ! above j) (xs ! c)))"

definition ordered_but_parent :: "('a \<Rightarrow> 'a \<Rightarrow> int) \<Rightarrow> nat \<Rightarrow> nat \<Rightarrow> 'a list \<Rightarrow> bool" where
  "ordered_but_parent cmp j n xs \<longleftrightarrow>
     (\<forall>c \<in> {0<..<n}. c \<noteq> j \<longrightarrow> 0 \<le> cmp (xs ! above c) (xs ! c)) \<and>
     (0 < j \<longrightarrow> (\<forall>c \<in> {0<..<n}. above c = j \<longrightarrow> 0 \<le> cmp (xs ! above j) (xs ! c)))"

definition exchange :: "nat \<Rightarrow> nat \<Rightarrow> 'a list \<Rightarrow> 'a list" where
  "exchange i j xs = xs[i := xs ! j, j := xs ! i]"

lemma length_exchange [simp]: "length (exchange i j xs) = length xs"
  by (simp add: exchange_def)

lemma nth_exchange:
  "i < length xs \<Longrightarrow> j < length xs \<Longrightarrow>
   exchange i j xs ! k = (if k = j then xs ! i else if k = i then xs ! j else xs ! k)"
  by (auto simp: exchange_def nth_list_update)

lemma mset_take_exchange:
  assumes "i < n" and "j < n" and "n \<le> length xs"
  shows "mset (take n (exchange i j xs)) = mset (take n xs)"
proof -
  have "take n (exchange i j xs) = (take n xs)[i := take n xs ! j, j := take n xs ! i]"
    using assms by (simp add: exchange_def take_update_swap)
  moreover have "mset ((take n xs)[i := take n xs ! j, j := take n xs ! i]) = mset (take n xs)"
    using assms by (intro mset_swap) simp_all
  ultimately show ?thesis by simp
qed

lemma drop_exchange:
  assumes "i < n" and "j < n"
  shows "drop n (exchange i j xs) = drop n xs"
  using assms by (simp add: exchange_def drop_update_cancel)

lemma set_exchange:
  assumes "i < length xs" and "j < length xs"
  shows "set (exchange i j xs) = set xs"
  using assms by (metis mset_take_exchange mset_eq_setD order_refl take_all length_exchange)

lemma above_less: "0 < c \<Longrightarrow> above c < c"
  by (simp add: above_def less_mult_imp_div_less)

lemma above_child: "above c = j \<and> 0 < c \<longleftrightarrow> c = 2 * j + 1 \<or> c = 2 * j + 2"
  by (auto simp: above_def)

lemma ordered_but_childrenI:
  "ordered_from cmp (Suc k) n xs \<Longrightarrow> ordered_but_children cmp k k n xs"
  using above_less [of k] by (auto simp: ordered_from_def ordered_but_children_def)

lemma ordered_but_parentI:
  assumes "heap_ordered cmp n xs"
  shows "ordered_but_parent cmp n (Suc n) (xs[n := x])"
proof -
  have edge: "0 \<le> cmp (xs[n := x] ! above c) (xs[n := x] ! c)" if "0 < c" "c < Suc n" "c \<noteq> n" for c
    using that assms above_less [of c] by (simp add: ordered_from_def)
  have "above c \<noteq> n" if "0 < c" "c < Suc n" for c
    using that above_less [of c] by simp
  then show ?thesis using edge by (simp add: ordered_but_parent_def)
qed

text \<open>
  The outcome of the choice among an element and its children: \<open>s\<close> is the element \<open>j\<close> that no child
  exceeds, or a child that exceeds it and that no child exceeds.
\<close>

definition chosen :: "('a \<Rightarrow> 'a \<Rightarrow> int) \<Rightarrow> nat \<Rightarrow> 'a list \<Rightarrow> nat \<Rightarrow> nat \<Rightarrow> bool" where
  "chosen cmp n xs j s \<longleftrightarrow>
     (\<forall>c \<in> {0<..<n}. above c = j \<longrightarrow> 0 \<le> cmp (xs ! s) (xs ! c)) \<and>
     (s = j \<or> 0 < s \<and> s < n \<and> above s = j \<and> cmp (xs ! j) (xs ! s) < 0)"

definition pick :: "('a \<Rightarrow> 'a \<Rightarrow> int) \<Rightarrow> 'a list \<Rightarrow> nat \<Rightarrow> nat \<Rightarrow> nat" where
  "pick cmp xs s c = (if cmp (xs ! s) (xs ! c) < 0 then c else s)"

context comparator begin

lemma refl: "x \<in> A \<Longrightarrow> 0 \<le> cmp x x"
  using asym [of x x] by linarith

lemma root_maximal:
  assumes "heap_ordered cmp n xs" and "set (take n xs) \<subseteq> A" and "n \<le> length xs" and "i < n"
  shows "0 \<le> cmp (xs ! 0) (xs ! i)"
  using assms(4)
proof (induction i rule: less_induct)
  case (less i)
  have el: "xs ! c \<in> A" if "c < n" for c
    using that assms(2,3) by (metis in_set_conv_nth length_take min.absorb2 nth_take subsetD)
  show ?case
  proof (cases "i = 0")
    case True
    then show ?thesis using el [OF less.prems] refl by simp
  next
    case False
    then have a: "above i < i" by (simp add: above_less)
    with less have "0 \<le> cmp (xs ! 0) (xs ! above i)" by simp
    moreover have "0 \<le> cmp (xs ! above i) (xs ! i)"
      using assms(1) False less.prems by (auto simp: ordered_from_def)
    ultimately show ?thesis using trans [OF el el el, of 0 "above i" i] a less.prems by simp
  qed
qed

lemma sift_down_done:
  assumes "ordered_but_children cmp k j n xs"
    and "\<And>c. 0 < c \<Longrightarrow> c < n \<Longrightarrow> above c = j \<Longrightarrow> 0 \<le> cmp (xs ! j) (xs ! c)"
  shows "ordered_from cmp k n xs"
  unfolding ordered_from_def
proof (intro ballI impI)
  fix c
  assume "c \<in> {0<..<n}" "k \<le> above c"
  then show "0 \<le> cmp (xs ! above c) (xs ! c)"
    using assms by (cases "above c = j") (auto simp: ordered_but_children_def)
qed

lemma sift_down_step:
  assumes inv: "ordered_but_children cmp k j n xs" and k: "k \<le> j"
    and el: "set (take n xs) \<subseteq> A" and n: "n \<le> length xs"
    and s: "0 < s" "s < n" "above s = j"
    and less: "cmp (xs ! j) (xs ! s) < 0"
    and best: "\<And>c. 0 < c \<Longrightarrow> c < n \<Longrightarrow> above c = j \<Longrightarrow> 0 \<le> cmp (xs ! s) (xs ! c)"
  shows "ordered_but_children cmp k s n (exchange j s xs)"
proof -
  have A: "xs ! c \<in> A" if "c < n" for c
    using that el n by (metis in_set_conv_nth length_take min.absorb2 nth_take subsetD)
  have js: "j < s" using s above_less by blast
  have ex: "exchange j s xs ! c = (if c = s then xs ! j else if c = j then xs ! s else xs ! c)" for c
    using nth_exchange [of j xs s c] js s n by simp
  have 1: "0 \<le> cmp (exchange j s xs ! above c) (exchange j s xs ! c)"
    if c: "0 < c" "c < n" "k \<le> above c" "above c \<noteq> s" for c
  proof -
    consider "c = s" | "c = j" | "above c = j" "c \<noteq> s" | "c \<noteq> s" "c \<noteq> j" "above c \<noteq> j" by blast
    then show ?thesis
    proof cases
      case 1
      then show ?thesis using asym [OF A A less] s js by (auto simp: ex)
    next
      case 2
      then have "above j \<noteq> j" "above j < n" using c above_less [of j] s js by auto
      then show ?thesis using 2 inv c s js by (auto simp: ex ordered_but_children_def)
    next
      case 3
      then have "c \<noteq> j" using c above_less [of c] by auto
      then show ?thesis using 3 best [of c] c js by (auto simp: ex)
    next
      case 4
      then show ?thesis using inv c by (auto simp: ex ordered_but_children_def)
    qed
  qed
  have 2: "0 \<le> cmp (exchange j s xs ! above s) (exchange j s xs ! c)"
    if c: "0 < c" "c < n" "above c = s" for c
  proof -
    have "c \<noteq> s" "c \<noteq> j" using above_less [of c] c js by auto
    then show ?thesis using inv c s js k by (auto simp: ex ordered_but_children_def)
  qed
  show ?thesis using 1 2 by (auto simp: ordered_but_children_def)
qed

lemma sift_up_done:
  assumes "ordered_but_parent cmp j n xs" and "j = 0 \<or> 0 \<le> cmp (xs ! above j) (xs ! j)"
  shows "heap_ordered cmp n xs"
  using assms by (auto simp: ordered_from_def ordered_but_parent_def)

lemma sift_up_step:
  assumes inv: "ordered_but_parent cmp j n xs" and el: "set (take n xs) \<subseteq> A" and n: "n \<le> length xs"
    and j: "0 < j" "j < n" and less: "cmp (xs ! above j) (xs ! j) < 0"
  shows "ordered_but_parent cmp (above j) n (exchange (above j) j xs)"
proof -
  define p where "p = above j"
  have A: "xs ! c \<in> A" if "c < n" for c
    using that el n by (metis in_set_conv_nth length_take min.absorb2 nth_take subsetD)
  have pj: "p < j" using j above_less by (simp add: p_def)
  have ex: "exchange p j xs ! c = (if c = j then xs ! p else if c = p then xs ! j else xs ! c)" for c
    using nth_exchange [of p xs j c] pj j n by simp
  have jp: "0 \<le> cmp (xs ! j) (xs ! p)" using asym [OF A A less] j pj by (simp add: p_def)
  have edge: "0 \<le> cmp (xs ! above c) (xs ! c)" if "0 < c" "c < n" "c \<noteq> j" for c
    using inv that by (auto simp: ordered_but_parent_def)
  have 1: "0 \<le> cmp (exchange p j xs ! above c) (exchange p j xs ! c)"
    if c: "0 < c" "c < n" "c \<noteq> p" for c
  proof -
    consider "c = j" | "above c = p" "c \<noteq> j" | "above c = j" | "c \<noteq> j" "above c \<noteq> p" "above c \<noteq> j" by blast
    then show ?thesis
    proof cases
      case 1
      then show ?thesis using jp pj by (simp add: ex flip: p_def)
    next
      case 2
      then have "0 \<le> cmp (xs ! j) (xs ! c)" using trans [OF A A A jp] edge [of c] c j pj by simp
      then show ?thesis using 2 c pj by (simp add: ex)
    next
      case 3
      then have "0 \<le> cmp (xs ! p) (xs ! c)" using inv c j by (auto simp: ordered_but_parent_def p_def)
      then show ?thesis using 3 c above_less [of c] by (simp add: ex)
    next
      case 4
      then show ?thesis using edge c by (simp add: ex)
    qed
  qed
  have 2: "0 \<le> cmp (exchange p j xs ! above p) (exchange p j xs ! c)"
    if p: "0 < p" and c: "0 < c" "c < n" "above c = p" for c
  proof -
    have up: "0 \<le> cmp (xs ! above p) (xs ! p)" using edge [of p] p pj j by simp
    have ap: "above p < p" using p by (rule above_less)
    show ?thesis
    proof (cases "c = j")
      case True
      then show ?thesis using up ap pj by (simp add: ex)
    next
      case False
      have "0 \<le> cmp (xs ! p) (xs ! c)" using edge [of c] c False by simp
      then have "0 \<le> cmp (xs ! above p) (xs ! c)" using trans [OF A A A up] ap pj j c by simp
      then show ?thesis using False ap pj c above_less [of c] by (simp add: ex)
    qed
  qed
  show ?thesis using 1 2 by (auto simp: ordered_but_parent_def p_def)
qed

lemma pick_geq:
  assumes "xs ! s \<in> A" and "xs ! c \<in> A"
  shows "0 \<le> cmp (xs ! pick cmp xs s c) (xs ! s)" and "0 \<le> cmp (xs ! pick cmp xs s c) (xs ! c)"
  using assms asym refl by (auto simp: pick_def)

text \<open>Comparing with one child after the other chooses, whichever child comes first.\<close>

lemma pick_chosen:
  assumes el: "set (take n xs) \<subseteq> A" "n \<le> length xs" and j: "j < n"
    and ab: "a = 2 * j + 1 \<and> b = 2 * j + 2 \<or> a = 2 * j + 2 \<and> b = 2 * j + 1"
    and t: "t = (if a < n then pick cmp xs j a else j)"
    and s: "s = (if b < n then pick cmp xs t b else t)"
  shows "chosen cmp n xs j s"
proof -
  have A: "xs ! c \<in> A" if "c < n" for c
    using that el by (metis in_set_conv_nth length_take min.absorb2 nth_take subsetD)
  have tn: "t < n" using t j by (simp add: pick_def)
  have sn: "s < n" using s tn by (simp add: pick_def)
  have ta: "0 \<le> cmp (xs ! t) (xs ! a)" if "a < n" using pick_geq(2) [OF A A, of j a] that t j by simp
  have st: "0 \<le> cmp (xs ! s) (xs ! t)" using pick_geq(1) [OF A A, of t b] refl [OF A] s tn by simp
  have sb: "0 \<le> cmp (xs ! s) (xs ! b)" if "b < n" using pick_geq(2) [OF A A, of t b] that s tn by simp
  have sa: "0 \<le> cmp (xs ! s) (xs ! a)" if "a < n" using trans [OF A A A st] ta that sn tn by simp
  have "0 \<le> cmp (xs ! s) (xs ! c)" if "0 < c" "c < n" "above c = j" for c
  proof -
    have "c = a \<or> c = b" using that above_child [of c j] ab by auto
    then show ?thesis using sa sb that by blast
  qed
  moreover have "s = j \<or> 0 < s \<and> s < n \<and> above s = j \<and> cmp (xs ! j) (xs ! s) < 0"
  proof (cases "s = t")
    case True
    then show ?thesis using t ab by (auto simp: pick_def above_def)
  next
    case False
    then have b: "s = b" "b < n" "cmp (xs ! t) (xs ! b) < 0" using s by (auto simp: pick_def split: if_splits)
    have "cmp (xs ! j) (xs ! b) < 0"
    proof (cases "t = j")
      case False
      then have a: "t = a" "a < n" "cmp (xs ! j) (xs ! a) < 0" using t by (auto simp: pick_def split: if_splits)
      have "0 \<le> cmp (xs ! b) (xs ! a)" using asym [OF A A] b a by simp
      then show ?thesis using trans [OF A A A, of j b a] a b j by (meson not_less)
    qed (use b in simp)
    then show ?thesis using b ab by (auto simp: above_def)
  qed
  ultimately show ?thesis by (auto simp: chosen_def)
qed

end

end
