(* ===== verification/Ds_Heap.thy ===== *)
theory Ds_Heap
  imports Ds_Compare "HOL-Library.Monad_Syntax"
begin

text \<open>
  The priority queue of C-kern/ds/inmem/heap.c: a maximum heap of elements of \<open>elemsize\<close> bytes in
  a caller supplied array of bytes. The model keeps the array as the list of its bytes and the
  byte offsets of the code, with \<open>size_t\<close> arithmetic; a read or write outside the array, and a
  loop that does not end, is the result \<open>None\<close>. The comparison callback is a field of the record,
  applied to \<open>cmpstate\<close> and the bytes of the two elements.
\<close>

section \<open>Memory accesses\<close>

definition load_bytes :: "nat \<Rightarrow> nat \<Rightarrow> u8 list \<Rightarrow> u8 list option" where
  "load_bytes n off mem = (if off + n \<le> length mem then Some (take n (drop off mem)) else None)"

definition store_bytes :: "nat \<Rightarrow> u8 list \<Rightarrow> u8 list \<Rightarrow> u8 list option" where
  "store_bytes off bs mem = (if off + length bs \<le> length mem then Some (blit off bs mem) else None)"

text \<open>
  The loops of the macros COPY and SWAP move \<open>n\<close> units of \<open>u\<close> bytes, lowest address first.
  \<open>copy_across\<close> reads from other memory than it writes to.
\<close>

primrec copy_within :: "nat \<Rightarrow> nat \<Rightarrow> nat \<Rightarrow> nat \<Rightarrow> u8 list \<Rightarrow> u8 list option" where
  "copy_within u dest src 0 mem = Some mem"
| "copy_within u dest src (Suc n) mem = do {
     mem \<leftarrow> copy_within u dest src n mem;
     bs \<leftarrow> load_bytes u (src + n * u) mem;
     store_bytes (dest + n * u) bs mem }"

primrec copy_across :: "nat \<Rightarrow> nat \<Rightarrow> nat \<Rightarrow> u8 list \<Rightarrow> nat \<Rightarrow> u8 list \<Rightarrow> u8 list option" where
  "copy_across u dest src from 0 mem = Some mem"
| "copy_across u dest src from (Suc n) mem = do {
     mem \<leftarrow> copy_across u dest src from n mem;
     bs \<leftarrow> load_bytes u (src + n * u) from;
     store_bytes (dest + n * u) bs mem }"

primrec swap_units :: "nat \<Rightarrow> nat \<Rightarrow> nat \<Rightarrow> nat \<Rightarrow> u8 list \<Rightarrow> u8 list option" where
  "swap_units u parent child 0 mem = Some mem"
| "swap_units u parent child (Suc n) mem = do {
     mem \<leftarrow> swap_units u parent child n mem;
     temp \<leftarrow> load_bytes u (parent + n * u) mem;
     bs \<leftarrow> load_bytes u (child + n * u) mem;
     mem \<leftarrow> store_bytes (parent + n * u) bs mem;
     store_bytes (child + n * u) temp mem }"

section \<open>The object\<close>

record 's heap_t =
  cmp :: "'s \<Rightarrow> u8 list \<Rightarrow> u8 list \<Rightarrow> int"
  cmpstate :: 's
  elemsize :: u8
  array :: "u8 list"
  nrofelem :: nat
  maxnrofelem :: nat

text \<open>\<open>esize\<close> is \<open>elemsize\<close> promoted to a wider type, as in every expression of the code.\<close>

abbreviation esize :: "'s heap_t \<Rightarrow> nat" where
  "esize h \<equiv> unat (elemsize h)"

definition elemsize_heap :: "'s heap_t \<Rightarrow> u8" where
  "elemsize_heap h = elemsize h"

definition maxnrofelem_heap :: "'s heap_t \<Rightarrow> nat" where
  "maxnrofelem_heap h = maxnrofelem h"

definition nrofelem_heap :: "'s heap_t \<Rightarrow> nat" where
  "nrofelem_heap h = nrofelem h"

definition free_heap :: "'s heap_t \<Rightarrow> unit cres \<times> 's heap_t" where
  "free_heap h = (Inr (), h\<lparr>maxnrofelem := 0\<rparr>)"

section \<open>The macros\<close>

text \<open>\<open>sizeof (long)\<close> is 8.\<close>

definition copytype :: "'s heap_t \<Rightarrow> nat" where
  "copytype h = (if esize h = 8 then 0 else if esize h mod 8 \<noteq> 0 then 2 else 1)"

definition unit_size :: "'s heap_t \<Rightarrow> nat" where
  "unit_size h = (if copytype h = 2 then 1 else 8)"

definition unit_count :: "'s heap_t \<Rightarrow> nat" where
  "unit_count h = (if copytype h = 0 then 1 else if copytype h = 1 then esize h div 8 else esize h)"

definition COPY_within :: "'s heap_t \<Rightarrow> nat \<Rightarrow> nat \<Rightarrow> 's heap_t option" where
  "COPY_within h dest src = do {
     mem \<leftarrow> copy_within (unit_size h) dest src (unit_count h) (array h);
     Some (h\<lparr>array := mem\<rparr>) }"

definition COPY_from :: "'s heap_t \<Rightarrow> nat \<Rightarrow> u8 list \<Rightarrow> 's heap_t option" where
  "COPY_from h dest elem = do {
     mem \<leftarrow> copy_across (unit_size h) dest 0 elem (unit_count h) (array h);
     Some (h\<lparr>array := mem\<rparr>) }"

definition COPY_to :: "'s heap_t \<Rightarrow> u8 list \<Rightarrow> nat \<Rightarrow> u8 list option" where
  "COPY_to h elem src = copy_across (unit_size h) 0 src (array h) (unit_count h) elem"

text \<open>
  SWAP counts its units down in a loop that tests behind the body: without a unit it would run out
  of the array.
\<close>

definition SWAP :: "'s heap_t \<Rightarrow> nat \<Rightarrow> nat \<Rightarrow> 's heap_t option" where
  "SWAP h parent child =
     (if unit_count h = 0 then None
      else do {
        mem \<leftarrow> swap_units (unit_size h) parent child (unit_count h) (array h);
        Some (h\<lparr>array := mem\<rparr>) })"

definition ELEM :: "'s heap_t \<Rightarrow> nat \<Rightarrow> u8 list option" where
  "ELEM h off = load_bytes (esize h) off (array h)"

definition ISSWAP :: "'s heap_t \<Rightarrow> u8 list \<Rightarrow> u8 list \<Rightarrow> bool" where
  "ISSWAP h parent child \<longleftrightarrow> cmp h (cmpstate h) parent child < 0"

definition isswap_at :: "'s heap_t \<Rightarrow> nat \<Rightarrow> nat \<Rightarrow> bool option" where
  "isswap_at h parent child = do {
     p \<leftarrow> ELEM h parent;
     c \<leftarrow> ELEM h child;
     Some (ISSWAP h p c) }"

section \<open>Query\<close>

partial_function (option) invariant_loop :: "'s heap_t \<Rightarrow> nat \<Rightarrow> unit cres option" where
  "invariant_loop h parent =
     (if parent = 0 then Some (Inr ())
      else
        let child = wrap_size (2 * parent);
            parent = sub_size parent (esize h)
        in do {
          b \<leftarrow> isswap_at h parent child;
          if b then Some (Inl EINVARIANT)
          else
            let child = sub_size child (esize h)
            in do {
              b \<leftarrow> isswap_at h parent child;
              if b then Some (Inl EINVARIANT) else invariant_loop h parent } })"

declare invariant_loop.simps [code]

definition invariant_heap :: "'s heap_t \<Rightarrow> unit cres option" where
  "invariant_heap h =
     (if nrofelem h > maxnrofelem h then Some (Inl EINVARIANT)
      else if nrofelem h \<le> 1 then Some (Inr ())
      else
        let cmaxoff = wrap_size (nrofelem h * esize h);
            pmaxoff = wrap_size (nrofelem h div 2 * esize h);
            parent = sub_size pmaxoff (esize h);
            child = wrap_size (2 * wrap_size (parent + esize h))
        in do {
          b \<leftarrow> if child < cmaxoff then isswap_at h parent child else Some False;
          if b then Some (Inl EINVARIANT)
          else
            let child = sub_size child (esize h)
            in do {
              b \<leftarrow> isswap_at h parent child;
              if b then Some (Inl EINVARIANT) else invariant_loop h parent } })"

section \<open>Update\<close>

text \<open>
  The choice of the element to swap with, which the code repeats: the right child first, if there
  is one, then the left child.
\<close>

definition choose_child :: "'s heap_t \<Rightarrow> nat \<Rightarrow> bool \<Rightarrow> nat \<Rightarrow> nat option" where
  "choose_child h parent right child = do {
     b \<leftarrow> if right then isswap_at h parent child else Some False;
     let swapelem = (if b then child else parent);
     let child = sub_size child (esize h);
     b \<leftarrow> isswap_at h swapelem child;
     Some (if b then child else swapelem) }"

partial_function (option) sift_loop :: "nat \<Rightarrow> nat \<Rightarrow> nat \<Rightarrow> nat \<Rightarrow> 's heap_t \<Rightarrow> 's heap_t option" where
  "sift_loop cmaxoff pmaxoff parent2 swapelem h =
     (if parent2 = swapelem then Some h
      else do {
        h \<leftarrow> SWAP h parent2 swapelem;
        let parent2 = swapelem;
        if parent2 \<ge> pmaxoff then Some h
        else do {
          let child = wrap_size (2 * wrap_size (parent2 + esize h));
          swapelem \<leftarrow> choose_child h parent2 (child < cmaxoff) child;
          sift_loop cmaxoff pmaxoff parent2 swapelem h } })"

declare sift_loop.simps [code]

partial_function (option) build_loop :: "nat \<Rightarrow> nat \<Rightarrow> nat \<Rightarrow> 's heap_t \<Rightarrow> 's heap_t option" where
  "build_loop cmaxoff pmaxoff parent h =
     (if parent = 0 then Some h
      else do {
        let child = wrap_size (2 * parent);
        let parent = sub_size parent (esize h);
        swapelem \<leftarrow> choose_child h parent True child;
        h \<leftarrow> sift_loop cmaxoff pmaxoff parent swapelem h;
        build_loop cmaxoff pmaxoff parent h })"

declare build_loop.simps [code]

definition build_heap :: "'s heap_t \<Rightarrow> 's heap_t option" where
  "build_heap h =
     (if nrofelem h \<le> 1 then Some h
      else do {
        let cmaxoff = wrap_size (nrofelem h * esize h);
        let pmaxoff = wrap_size (nrofelem h div 2 * esize h);
        let parent = sub_size pmaxoff (esize h);
        let child = wrap_size (2 * wrap_size (parent + esize h));
        swapelem \<leftarrow> choose_child h parent (child < cmaxoff) child;
        h \<leftarrow> if parent \<noteq> swapelem then SWAP h parent swapelem else Some h;
        build_loop cmaxoff pmaxoff parent h })"

partial_function (option) insert_loop :: "u8 list \<Rightarrow> nat \<Rightarrow> nat \<Rightarrow> 's heap_t \<Rightarrow> (nat \<times> 's heap_t) option" where
  "insert_loop elem i child h =
     (if i > 0 then do {
        let i = i - 1;
        let parent = sub_size child (esize h);
        let parent = (if odd i then sub_size parent (esize h) else parent);
        let i = i div 2;
        let parent = parent div 2;
        p \<leftarrow> ELEM h parent;
        if \<not> ISSWAP h p elem then Some (child, h)
        else do {
          h \<leftarrow> COPY_within h child parent;
          insert_loop elem i parent h } }
      else Some (child, h))"

declare insert_loop.simps [code]

definition insert_heap :: "'s heap_t \<Rightarrow> u8 list \<Rightarrow> (unit cres \<times> 's heap_t) option" where
  "insert_heap h elem =
     (if nrofelem h = maxnrofelem h then Some (Inl ENOMEM, h)
      else do {
        let i = nrofelem h;
        let h = h\<lparr>nrofelem := wrap_size (nrofelem h + 1)\<rparr>;
        let child = wrap_size (i * esize h);
        (child, h) \<leftarrow> insert_loop elem i child h;
        h \<leftarrow> COPY_from h child elem;
        Some (Inr (), h) })"

partial_function (option) remove_loop :: "nat \<Rightarrow> nat \<Rightarrow> nat \<Rightarrow> 's heap_t \<Rightarrow> (nat \<times> 's heap_t) option" where
  "remove_loop cmaxoff pmaxoff parent h =
     (if parent < pmaxoff then do {
        let child = wrap_size (wrap_size (2 * parent) + esize h);
        let swapelem = cmaxoff;
        b \<leftarrow> isswap_at h swapelem child;
        let swapelem = (if b then child else swapelem);
        let child = wrap_size (child + esize h);
        b \<leftarrow> if child < cmaxoff then isswap_at h swapelem child else Some False;
        let swapelem = (if b then child else swapelem);
        if swapelem = cmaxoff then Some (parent, h)
        else do {
          h \<leftarrow> COPY_within h parent swapelem;
          remove_loop cmaxoff pmaxoff swapelem h } }
      else Some (parent, h))"

declare remove_loop.simps [code]

text \<open>\<open>elem\<close> is the memory of the caller that receives the removed element.\<close>

definition remove_heap :: "'s heap_t \<Rightarrow> u8 list \<Rightarrow> (unit cres \<times> u8 list \<times> 's heap_t) option" where
  "remove_heap h elem =
     (if nrofelem h = 0 then Some (Inl ENODATA, elem, h)
      else do {
        elem \<leftarrow> COPY_to h elem 0;
        let h = h\<lparr>nrofelem := nrofelem h - 1\<rparr>;
        if nrofelem h \<noteq> 0 then do {
          let cmaxoff = wrap_size (nrofelem h * esize h);
          let pmaxoff = wrap_size (nrofelem h div 2 * esize h);
          (parent, h) \<leftarrow> remove_loop cmaxoff pmaxoff 0 h;
          h \<leftarrow> COPY_within h parent cmaxoff;
          Some (Inr (), elem, h) }
        else Some (Inr (), elem, h) })"

section \<open>Lifetime\<close>

text \<open>
  \<open>address\<close> is the address of \<open>array\<close>, \<open>None\<close> the null pointer for \<open>cmp\<close>. A refused call leaves
  the object unwritten.
\<close>

definition init_heap :: "u8 \<Rightarrow> nat \<Rightarrow> nat \<Rightarrow> nat \<Rightarrow> u8 list \<Rightarrow>
    ('s \<Rightarrow> u8 list \<Rightarrow> u8 list \<Rightarrow> int) option \<Rightarrow> 's \<Rightarrow> 's heap_t cres option" where
  "init_heap esz nr maxnr address mem compare state =
     (case compare of
        None \<Rightarrow> Some (Inl EINVAL)
      | Some f \<Rightarrow>
          if \<not> (esz > 0 \<and> nr \<le> maxnr \<and> 0 < maxnr) then Some (Inl EINVAL)
          else if \<not> (maxnr \<le> (2 ^ 64 - 1) div unat esz \<and>
                     wrap_size (address + wrap_size (maxnr * unat esz)) > address)
          then Some (Inl EINVAL)
          else do {
            h \<leftarrow> build_heap \<lparr>cmp = f, cmpstate = state, elemsize = esz, array = mem,
                              nrofelem = nr, maxnrofelem = maxnr\<rparr>;
            Some (Inr h) })"

section \<open>The elements\<close>

text \<open>
  The abstract value: the list of all \<open>maxnrofelem\<close> slots of the array, of which the first
  \<open>nrofelem\<close> are the queue.
\<close>

definition slots :: "'s heap_t \<Rightarrow> u8 list list" where
  "slots h = map (\<lambda>i. take (esize h) (drop (i * esize h) (array h))) [0..<maxnrofelem h]"

definition queued :: "'s heap_t \<Rightarrow> u8 list list" where
  "queued h = take (nrofelem h) (slots h)"

definition heap_wf :: "'s heap_t \<Rightarrow> bool" where
  "heap_wf h \<longleftrightarrow> elemsize h > 0 \<and> nrofelem h \<le> maxnrofelem h \<and>
     length (array h) = maxnrofelem h * esize h \<and> length (array h) < 2 ^ 64"

abbreviation order_of :: "'s heap_t \<Rightarrow> u8 list \<Rightarrow> u8 list \<Rightarrow> int" where
  "order_of h \<equiv> cmp h (cmpstate h)"

abbreviation elements_of :: "'s heap_t \<Rightarrow> u8 list set" where
  "elements_of h \<equiv> {e. length e = esize h}"

definition heap_inv :: "'s heap_t \<Rightarrow> bool" where
  "heap_inv h \<longleftrightarrow> heap_wf h \<and> heap_ordered (order_of h) (nrofelem h) (slots h)"

section \<open>Arrays of elements as concatenated bytes\<close>

lemma take_concat_uniform:
  "\<forall>e \<in> set E. length e = s \<Longrightarrow> i \<le> length E \<Longrightarrow> take (i * s) (concat E) = concat (take i E)"
proof (induction E arbitrary: i)
  case (Cons e E)
  then show ?case by (cases i) simp_all
qed simp

lemma drop_concat_uniform:
  "\<forall>e \<in> set E. length e = s \<Longrightarrow> i \<le> length E \<Longrightarrow> drop (i * s) (concat E) = concat (drop i E)"
proof (induction E arbitrary: i)
  case (Cons e E)
  then show ?case by (cases i) simp_all
qed simp

lemma length_concat_uniform: "\<forall>e \<in> set E. length e = s \<Longrightarrow> length (concat E) = length E * s"
  by (induction E) simp_all

lemma nth_concat_uniform:
  assumes "\<forall>e \<in> set E. length e = s" and "i < length E"
  shows "take s (drop (i * s) (concat E)) = E ! i"
proof -
  have "drop (i * s) (concat E) = concat (E ! i # drop (Suc i) E)"
    using assms by (simp add: drop_concat_uniform Cons_nth_drop_Suc)
  then show ?thesis using assms by simp
qed

lemma blit_concat_uniform:
  assumes "\<forall>e \<in> set E. length e = s" and "i < length E" and "length x = s"
  shows "blit (i * s) x (concat E) = concat (E[i := x])"
proof -
  have "i * s + length x = Suc i * s" using assms by simp
  then have "blit (i * s) x (concat E) = concat (take i E) @ x @ concat (drop (Suc i) E)"
    unfolding blit_def using assms take_concat_uniform [of E s i] drop_concat_uniform [of E s "Suc i"]
    by (simp add: add.commute)
  also have "\<dots> = concat (E[i := x])" using assms by (simp add: upd_conv_take_nth_drop)
  finally show ?thesis .
qed

lemma slot_fits: "i < (m::nat) \<Longrightarrow> i * s + s \<le> m * s"
  by (metis Suc_leI add.commute mult_Suc mult_le_mono1)

section \<open>The copy loops\<close>

text \<open>Copied in units, disjoint blocks arrive as a whole.\<close>

lemma blit_blit_adjacent:
  assumes "d + length a + length b \<le> length mem"
  shows "blit (d + length a) b (blit d a mem) = blit d (a @ b) mem"
proof -
  have t: "take d (blit d a mem) = take d mem" "take (d + length a) (blit d a mem) = take d mem @ a"
    using assms by (simp_all add: blit_def)
  have "drop (d + length a + length b) (blit d a mem) = drop (d + length a + length b) mem"
    using assms by (simp add: blit_def ac_simps)
  then show ?thesis unfolding blit_def [of "d + length a"] t by (simp add: blit_def add.assoc)
qed

lemma take_drop_blit_disjoint:
  assumes "d + length x \<le> s \<or> s + n \<le> d" and "d + length x \<le> length mem"
  shows "take n (drop s (blit d x mem)) = take n (drop s mem)"
  using assms(1)
proof
  assume "d + length x \<le> s"
  then have "drop s (blit d x mem) = drop s mem" using assms(2) by (simp add: blit_def)
  then show ?thesis by simp
next
  assume "s + n \<le> d"
  then have "take (s + n) (blit d x mem) = take (s + n) mem" using assms(2) by (simp add: blit_def)
  then show ?thesis by (metis take_drop add.commute)
qed

lemma take_extend: "take n (drop s mem) @ take u (drop (s + n) mem) = take (n + u) (drop s mem)"
  by (simp add: take_add add.commute)

lemma copy_across_block:
  assumes "src + n * u \<le> length from" and "dest + n * u \<le> length mem"
  shows "copy_across u dest src from n mem = Some (blit dest (take (n * u) (drop src from)) mem)"
  using assms
proof (induction n)
  case (Suc n)
  let ?b = "take (n * u) (drop src from)" and ?x = "take u (drop (src + n * u) from)"
  have IH: "copy_across u dest src from n mem = Some (blit dest ?b mem)" using Suc by simp
  have l: "length ?b = n * u" "length ?x = u" using Suc.prems by simp_all
  have "blit (dest + n * u) ?x (blit dest ?b mem) = blit dest (?b @ ?x) mem"
    using blit_blit_adjacent [of dest ?b ?x mem] Suc.prems l by (simp add: algebra_simps)
  also have "?b @ ?x = take (Suc n * u) (drop src from)" using take_extend [of "n * u" src "from" u] by (simp add: add.commute)
  finally show ?case
    using IH Suc.prems l by (simp add: load_bytes_def store_bytes_def algebra_simps)
qed simp

lemma copy_within_block:
  assumes "src + n * u \<le> length mem" and "dest + n * u \<le> length mem"
    and "dest + n * u \<le> src \<or> src + n * u \<le> dest"
  shows "copy_within u dest src n mem = Some (blit dest (take (n * u) (drop src mem)) mem)"
  using assms
proof (induction n)
  case (Suc n)
  let ?b = "take (n * u) (drop src mem)" and ?x = "take u (drop (src + n * u) mem)"
  have IH: "copy_within u dest src n mem = Some (blit dest ?b mem)" using Suc by auto
  have l: "length ?b = n * u" "length ?x = u" using Suc.prems by simp_all
  have x: "take u (drop (src + n * u) (blit dest ?b mem)) = ?x"
    using take_drop_blit_disjoint [of dest ?b "src + n * u" u mem] Suc.prems l by auto
  have "blit (dest + n * u) ?x (blit dest ?b mem) = blit dest (?b @ ?x) mem"
    using blit_blit_adjacent [of dest ?b ?x mem] Suc.prems l by (simp add: algebra_simps)
  also have "?b @ ?x = take (Suc n * u) (drop src mem)" using take_extend [of "n * u" src mem u] by (simp add: add.commute)
  finally show ?case
    using IH Suc.prems l x by (simp add: load_bytes_def store_bytes_def algebra_simps)
qed simp

lemma swap_units_block:
  assumes "q + n * u \<le> length mem" and "p + n * u \<le> q"
  shows "swap_units u p q n mem =
    Some (blit q (take (n * u) (drop p mem)) (blit p (take (n * u) (drop q mem)) mem))"
  using assms
proof (induction n)
  case (Suc n)
  let ?a = "take (n * u) (drop p mem)" and ?x = "take u (drop (p + n * u) mem)"
    and ?b = "take (n * u) (drop q mem)" and ?y = "take u (drop (q + n * u) mem)"
  define m where "m = blit q ?a (blit p ?b mem)"
  have IH: "swap_units u p q n mem = Some m" using Suc by (simp add: m_def)
  have l: "length ?a = n * u" "length ?x = u" "length ?b = n * u" "length ?y = u" using Suc.prems by simp_all
  have lp: "length (blit p ?b mem) = length mem" using Suc.prems l by simp
  have lm: "length m = length mem" using Suc.prems l lp by (simp add: m_def)
  have x: "take u (drop (p + n * u) m) = ?x" "take u (drop (q + n * u) m) = ?y"
    unfolding m_def using Suc.prems l lp by (simp_all add: take_drop_blit_disjoint)
  have "blit (p + n * u) ?y m = blit q ?a (blit (p + n * u) ?y (blit p ?b mem))"
    unfolding m_def using Suc.prems l lp by (intro nth_equalityI) (auto simp: nth_blit)
  also have "blit (p + n * u) ?y (blit p ?b mem) = blit p (?b @ ?y) mem"
    using blit_blit_adjacent [of p ?b ?y mem] Suc.prems l by (simp add: algebra_simps)
  finally have 1: "blit (p + n * u) ?y m = blit q ?a (blit p (?b @ ?y) mem)" .
  have "blit (q + n * u) ?x (blit (p + n * u) ?y m) = blit q (?a @ ?x) (blit p (?b @ ?y) mem)"
    using blit_blit_adjacent [of q ?a ?x "blit p (?b @ ?y) mem"] Suc.prems l by (simp add: 1 algebra_simps)
  also have "?a @ ?x = take (Suc n * u) (drop p mem)" using take_extend [of "n * u" p mem u] by (simp add: add.commute)
  also have "?b @ ?y = take (Suc n * u) (drop q mem)" using take_extend [of "n * u" q mem u] by (simp add: add.commute)
  finally show ?case
    using IH Suc.prems l x lm by (simp add: load_bytes_def store_bytes_def algebra_simps)
qed simp

lemma unit_total: "unit_count h * unit_size h = esize h"
  by (auto simp: unit_count_def unit_size_def copytype_def)

lemma unit_count_pos: "0 < esize h \<Longrightarrow> 0 < unit_count h"
  using unit_total [of h] by (metis gr0I mult_0 less_irrefl)

section \<open>The operations on elements\<close>

definition put :: "'s heap_t \<Rightarrow> u8 list list \<Rightarrow> 's heap_t" where
  "put h E = h\<lparr>array := concat E\<rparr>"

definition fits :: "'s heap_t \<Rightarrow> u8 list list \<Rightarrow> bool" where
  "fits h E \<longleftrightarrow> 0 < esize h \<and> length E = maxnrofelem h \<and> (\<forall>e \<in> set E. length e = esize h) \<and>
     maxnrofelem h * esize h < 2 ^ 64"

lemma put_sel [simp]:
  "cmp (put h E) = cmp h" "cmpstate (put h E) = cmpstate h" "elemsize (put h E) = elemsize h"
  "nrofelem (put h E) = nrofelem h" "maxnrofelem (put h E) = maxnrofelem h" "array (put h E) = concat E"
  "put (put h E) E' = put h E'" "(put h E)\<lparr>array := concat E'\<rparr> = put h E'" "unit_size (put h E) = unit_size h" "unit_count (put h E) = unit_count h"
  by (simp_all add: put_def unit_size_def unit_count_def copytype_def)

lemma fits_length: "fits h E \<Longrightarrow> length (concat E) = maxnrofelem h * esize h"
  using length_concat_uniform [of E "esize h"] by (simp add: fits_def)

lemma fits_update [intro]: "fits h E \<Longrightarrow> length x = esize h \<Longrightarrow> fits h (E[i := x])"
  using set_update_subset_insert [of E i x] by (auto simp: fits_def)

lemma fits_nth: "fits h E \<Longrightarrow> i < maxnrofelem h \<Longrightarrow> length (E ! i) = esize h"
  by (simp add: fits_def)

lemma fits_exchange [intro]: "fits h E \<Longrightarrow> i < maxnrofelem h \<Longrightarrow> j < maxnrofelem h \<Longrightarrow> fits h (exchange i j E)"
  by (simp add: fits_def set_exchange)

lemma slots_put: "fits h E \<Longrightarrow> slots (put h E) = E"
  by (intro nth_equalityI) (auto simp: slots_def fits_def nth_concat_uniform)

lemma fits_slots: "heap_wf h \<Longrightarrow> fits h (slots h)"
  using slot_fits [of _ "maxnrofelem h" "esize h"]
  by (fastforce simp: heap_wf_def fits_def slots_def word_less_nat_alt)

lemma put_same: "concat E = array h \<Longrightarrow> put h E = h"
  by (simp add: put_def)

lemma put_slots:
  assumes "heap_wf h"
  shows "put h (slots h) = h"
proof -
  have "concat (map (\<lambda>i. take s (drop (i * s) a)) [0..<m]) = take (m * s) a" for s m and a :: "u8 list"
    by (induction m) (simp_all add: take_extend [of "m * s" 0 a s for m, simplified] add.commute)
  then have "concat (slots h) = array h" using assms by (simp add: slots_def heap_wf_def)
  then show ?thesis by (simp add: put_def)
qed

lemma heap_wf_put: "fits h E \<Longrightarrow> nrofelem h \<le> maxnrofelem h \<Longrightarrow> heap_wf (put h E)"
  using fits_length [of h E] by (simp add: heap_wf_def fits_def word_less_nat_alt)

lemma slot_offset_bound:
  assumes "fits h E" and "i \<le> maxnrofelem h"
  shows "i * esize h < 2 ^ 64"
proof -
  have "i * esize h \<le> maxnrofelem h * esize h" using assms(2) by (rule mult_le_mono1)
  also have "\<dots> < 2 ^ 64" using assms(1) by (simp add: fits_def)
  finally show ?thesis .
qed

lemma ELEM_put:
  assumes "fits h E" and "i < maxnrofelem h"
  shows "ELEM (put h E) (i * esize h) = Some (E ! i)"
  using assms slot_fits [OF assms(2), of "esize h"] fits_length [OF assms(1)]
  by (simp add: ELEM_def load_bytes_def fits_def nth_concat_uniform)

lemma isswap_put:
  assumes "fits h E" and "i < maxnrofelem h" and "j < maxnrofelem h"
  shows "isswap_at (put h E) (i * esize h) (j * esize h) = Some (order_of h (E ! i) (E ! j) < 0)"
  using assms by (simp add: isswap_at_def ELEM_put ISSWAP_def)

lemma COPY_within_put:
  assumes f: "fits h E" and ij: "i < maxnrofelem h" "j < maxnrofelem h" "i \<noteq> j"
  shows "COPY_within (put h E) (i * esize h) (j * esize h) = Some (put h (E[i := E ! j]))"
proof -
  have "i * esize h + esize h \<le> j * esize h \<or> j * esize h + esize h \<le> i * esize h"
    using slot_fits [of i j] slot_fits [of j i] ij(3) by (meson linorder_neqE_nat)
  then have "copy_within (unit_size h) (i * esize h) (j * esize h) (unit_count h) (concat E) =
      Some (blit (i * esize h) (take (esize h) (drop (j * esize h) (concat E))) (concat E))"
    using copy_within_block [of "j * esize h" "unit_count h" "unit_size h" "concat E" "i * esize h"]
      slot_fits [OF ij(1), of "esize h"] slot_fits [OF ij(2), of "esize h"] fits_length [OF f]
    by (simp add: unit_total)
  also have "take (esize h) (drop (j * esize h) (concat E)) = E ! j"
    using f ij by (simp add: fits_def nth_concat_uniform)
  also have "blit (i * esize h) (E ! j) (concat E) = concat (E[i := E ! j])"
    using f ij by (simp add: fits_def blit_concat_uniform)
  finally show ?thesis by (simp add: COPY_within_def)
qed

lemma COPY_from_put:
  assumes f: "fits h E" and i: "i < maxnrofelem h" and x: "length x = esize h"
  shows "COPY_from (put h E) (i * esize h) x = Some (put h (E[i := x]))"
proof -
  have "copy_across (unit_size h) (i * esize h) 0 x (unit_count h) (concat E) = Some (blit (i * esize h) x (concat E))"
    using copy_across_block [of 0 "unit_count h" "unit_size h" x "i * esize h" "concat E"]
      slot_fits [OF i, of "esize h"] fits_length [OF f] x
    by (simp add: unit_total)
  also have "blit (i * esize h) x (concat E) = concat (E[i := x])"
    using f i x by (simp add: fits_def blit_concat_uniform)
  finally show ?thesis by (simp add: COPY_from_def)
qed

lemma COPY_to_put:
  assumes f: "fits h E" and i: "i < maxnrofelem h" and x: "length x = esize h"
  shows "COPY_to (put h E) x (i * esize h) = Some (E ! i)"
proof -
  have "copy_across (unit_size h) 0 (i * esize h) (concat E) (unit_count h) x =
      Some (blit 0 (take (esize h) (drop (i * esize h) (concat E))) x)"
    using copy_across_block [of "i * esize h" "unit_count h" "unit_size h" "concat E" 0 x]
      slot_fits [OF i, of "esize h"] fits_length [OF f] x
    by (simp add: unit_total)
  also have "take (esize h) (drop (i * esize h) (concat E)) = E ! i"
    using f i by (simp add: fits_def nth_concat_uniform)
  also have "blit 0 (E ! i) x = E ! i" using fits_nth [OF f i] x by (simp add: blit_def)
  finally show ?thesis by (simp add: COPY_to_def)
qed

lemma SWAP_put:
  assumes f: "fits h E" and ij: "i < j" "j < maxnrofelem h"
  shows "SWAP (put h E) (i * esize h) (j * esize h) = Some (put h (exchange i j E))"
proof -
  let ?s = "esize h"
  have i: "i < maxnrofelem h" using ij by simp
  have "swap_units (unit_size h) (i * ?s) (j * ?s) (unit_count h) (concat E) =
      Some (blit (j * ?s) (take ?s (drop (i * ?s) (concat E)))
             (blit (i * ?s) (take ?s (drop (j * ?s) (concat E))) (concat E)))"
    using swap_units_block [of "j * ?s" "unit_count h" "unit_size h" "concat E" "i * ?s"]
      slot_fits [OF ij(1), of ?s] slot_fits [OF ij(2), of ?s] fits_length [OF f]
    by (simp add: unit_total)
  also have "take ?s (drop (i * ?s) (concat E)) = E ! i"
    using f i by (simp add: fits_def nth_concat_uniform)
  also have "take ?s (drop (j * ?s) (concat E)) = E ! j"
    using f ij by (simp add: fits_def nth_concat_uniform)
  also have "blit (i * ?s) (E ! j) (concat E) = concat (E[i := E ! j])"
    using f i ij by (simp add: fits_def blit_concat_uniform)
  also have "blit (j * ?s) (E ! i) (concat (E[i := E ! j])) = concat (exchange i j E)"
    unfolding exchange_def
    by (rule blit_concat_uniform) (use f i ij fits_update [OF f, of "E ! j" i] in \<open>simp_all add: fits_def\<close>)
  finally show ?thesis
    using unit_count_pos [of h] f by (simp add: SWAP_def fits_def)
qed

section \<open>The loops on elements\<close>

text \<open>
  The offsets \<open>cmaxoff\<close> and \<open>pmaxoff\<close> of a queue of \<open>n\<close> elements, and the laws the comparison
  must fulfil.
\<close>

abbreviation ordering :: "'s heap_t \<Rightarrow> bool" where
  "ordering h \<equiv> comparator (order_of h) (elements_of h)"

lemma fits_elements: "fits h E \<Longrightarrow> set (take n E) \<subseteq> elements_of h"
  using set_take_subset [of n E] by (auto simp: fits_def)

lemma choose_child_put:
  assumes f: "fits h E" and n: "n \<le> maxnrofelem h" and j: "2 * j + 1 < n"
  shows "choose_child (put h E) (j * esize h) (2 * j + 2 < n) ((2 * j + 2) * esize h) =
    Some (pick (order_of h) E (if 2 * j + 2 < n then pick (order_of h) E j (2 * j + 2) else j) (2 * j + 1) * esize h)"
proof -
  define r where "r = (if 2 * j + 2 < n then pick (order_of h) E j (2 * j + 2) else j)"
  have r: "r < maxnrofelem h" using j n by (simp add: r_def pick_def)
  have sub: "sub_size ((2 * j + 2) * esize h) (esize h) = (2 * j + 1) * esize h"
    using slot_offset_bound [OF f, of "2 * j + 2"] j n by (simp add: algebra_simps)
  have 1: "(if 2 * j + 2 < n then isswap_at (put h E) (j * esize h) ((2 * j + 2) * esize h) else Some False) =
    Some (2 * j + 2 < n \<and> order_of h (E ! j) (E ! (2 * j + 2)) < 0)"
    using isswap_put [OF f, of j "2 * j + 2"] j n by simp
  have 2: "(if 2 * j + 2 < n \<and> order_of h (E ! j) (E ! (2 * j + 2)) < 0 then (2 * j + 2) * esize h else j * esize h)
    = r * esize h"
    by (simp add: r_def pick_def)
  have 3: "isswap_at (put h E) (r * esize h) ((2 * j + 1) * esize h) = Some (order_of h (E ! r) (E ! (2 * j + 1)) < 0)"
    using isswap_put [OF f r, of "2 * j + 1"] j n by simp
  show ?thesis
    unfolding choose_child_def 1 Option.bind.simps Let_def 2 put_sel sub 3 r_def [symmetric]
    by (simp add: pick_def)
qed

lemma choose_child_chosen:
  assumes "ordering h" and f: "fits h E" and n: "n \<le> maxnrofelem h" and j: "2 * j + 1 < n"
  obtains s where "choose_child (put h E) (j * esize h) (2 * j + 2 < n) ((2 * j + 2) * esize h) = Some (s * esize h)"
    and "chosen (order_of h) n E j s"
  using choose_child_put [OF f n j] comparator.pick_chosen [OF assms(1) fits_elements [OF f], of n j] f n j
  by (fastforce simp: fits_def)

lemma children_offset:
  assumes f: "fits h E" and n: "n \<le> maxnrofelem h" and j: "2 * j + 1 < n"
  shows "wrap_size (2 * wrap_size (j * esize h + esize h)) = (2 * j + 2) * esize h"
proof -
  have "(2 * j + 2) * esize h < 2 ^ 64" by (rule slot_offset_bound [OF f]) (use j n in simp)
  then show ?thesis by (simp add: algebra_simps)
qed

lemma sift_loop_put:
  assumes ord: "ordering h" and n: "n \<le> maxnrofelem h"
  shows "fits h E \<Longrightarrow> ordered_but_children (order_of h) k j n E \<Longrightarrow> k \<le> j \<Longrightarrow> j < n \<Longrightarrow>
    chosen (order_of h) n E j s \<Longrightarrow>
    \<exists>E'. sift_loop (n * esize h) (n div 2 * esize h) (j * esize h) (s * esize h) (put h E) = Some (put h E') \<and>
      fits h E' \<and> ordered_from (order_of h) k n E' \<and> mset (take n E') = mset (take n E) \<and> drop n E' = drop n E"
proof (induction "n - j" arbitrary: E j s rule: less_induct)
  case less
  note f = less.prems(1)
  have pos: "0 < esize h" and len: "length E = maxnrofelem h" using f by (simp_all add: fits_def)
  show ?case
  proof (cases "s = j")
    case True
    then have "ordered_from (order_of h) k n E"
      using comparator.sift_down_done [OF ord less.prems(2)] less.prems(5) by (simp add: chosen_def)
    then show ?thesis using True f by (subst sift_loop.simps) auto
  next
    case False
    then have s: "0 < s" "s < n" "above s = j" "order_of h (E ! j) (E ! s) < 0"
      and best: "\<And>c. 0 < c \<Longrightarrow> c < n \<Longrightarrow> above c = j \<Longrightarrow> 0 \<le> order_of h (E ! s) (E ! c)"
      using less.prems(5) by (auto simp: chosen_def)
    have js: "j < s" using s above_less by blast
    define E1 where "E1 = exchange j s E"
    have f1: "fits h E1" unfolding E1_def by (rule fits_exchange) (use f js s n in simp_all)
    have o1: "ordered_but_children (order_of h) k s n E1"
      unfolding E1_def
      by (rule comparator.sift_down_step [OF ord less.prems(2,3) fits_elements [OF f]])
        (use n len s best in simp_all)
    have m1: "mset (take n E1) = mset (take n E)" "drop n E1 = drop n E"
      using js s n len by (simp_all add: E1_def mset_take_exchange drop_exchange)
    have sw: "SWAP (put h E) (j * esize h) (s * esize h) = Some (put h E1)"
      unfolding E1_def by (rule SWAP_put [OF f js]) (use s n in simp)
    have ne: "j * esize h \<noteq> s * esize h" using js pos by simp
    show ?thesis
    proof (cases "n div 2 \<le> s")
      case True
      then have "n div 2 * esize h \<le> s * esize h" by simp
      then have "sift_loop (n * esize h) (n div 2 * esize h) (j * esize h) (s * esize h) (put h E) = Some (put h E1)"
        using ne sw by (subst sift_loop.simps) simp
      moreover have "ordered_from (order_of h) k n E1"
      proof (rule comparator.sift_down_done [OF ord o1])
        fix c
        assume "0 < c" "c < n" "above c = s"
        then show "0 \<le> order_of h (E1 ! s) (E1 ! c)" using True above_child [of c s] by auto
      qed
      ultimately show ?thesis using f1 m1 by auto
    next
      case False
      then have ch: "2 * s + 1 < n" and lt: "\<not> n div 2 * esize h \<le> s * esize h" using pos by simp_all
      obtain t where t: "choose_child (put h E1) (s * esize h) (2 * s + 2 < n) ((2 * s + 2) * esize h) = Some (t * esize h)"
        "chosen (order_of h) n E1 s t"
        using choose_child_chosen [OF ord f1 n ch] .
      note off = children_offset [OF f n ch]
      have cm: "(2 * s + 2) * esize h < n * esize h \<longleftrightarrow> 2 * s + 2 < n" using pos mult_less_cancel2 by blast
      have "sift_loop (n * esize h) (n div 2 * esize h) (j * esize h) (s * esize h) (put h E) =
          sift_loop (n * esize h) (n div 2 * esize h) (s * esize h) (t * esize h) (put h E1)"
        by (subst sift_loop.simps) (simp only: ne if_False sw Option.bind.simps Let_def lt put_sel off cm t)
      moreover have "\<exists>E'. sift_loop (n * esize h) (n div 2 * esize h) (s * esize h) (t * esize h) (put h E1) = Some (put h E') \<and>
        fits h E' \<and> ordered_from (order_of h) k n E' \<and> mset (take n E') = mset (take n E1) \<and> drop n E' = drop n E1"
        by (rule less.hyps [OF _ f1 o1 _ s(2) t(2)]) (use js s less.prems(3) in simp_all)
      ultimately show ?thesis using m1 by simp
    qed
  qed
qed

lemma double_offset:
  assumes "fits h E" and "2 * i \<le> maxnrofelem h"
  shows "wrap_size (2 * (i * esize h)) = 2 * i * esize h"
  using slot_offset_bound [OF assms] by (simp add: algebra_simps)

lemma pred_offset: "fits h E \<Longrightarrow> 0 < i \<Longrightarrow> i \<le> maxnrofelem h \<Longrightarrow> sub_size (i * esize h) (esize h) = (i - 1) * esize h"
  using slot_offset_bound [of h E i] by (cases i) simp_all

text \<open>The offsets of the last parent, with which building and checking start.\<close>

lemma last_parent_offsets:
  assumes f: "fits h E" and m: "m \<le> maxnrofelem h" and "m div 2 = Suc p"
  shows "wrap_size (m * esize h) = m * esize h" and "wrap_size (m div 2 * esize h) = m div 2 * esize h"
    and "sub_size (m div 2 * esize h) (esize h) = p * esize h"
proof -
  have h: "m div 2 \<le> maxnrofelem h" using m by linarith
  show "wrap_size (m * esize h) = m * esize h" "wrap_size (m div 2 * esize h) = m div 2 * esize h"
    by (simp_all only: wrap_size_id slot_offset_bound [OF f m] slot_offset_bound [OF f h])
  show "sub_size (m div 2 * esize h) (esize h) = p * esize h"
    using pred_offset [OF f _ h] assms(3) by simp
qed

lemma build_loop_put:
  assumes ord: "ordering h" and n: "n \<le> maxnrofelem h"
  shows "fits h E \<Longrightarrow> ordered_from (order_of h) p n E \<Longrightarrow> 2 * p < n \<Longrightarrow>
    \<exists>E'. build_loop (n * esize h) (n div 2 * esize h) (p * esize h) (put h E) = Some (put h E') \<and>
      fits h E' \<and> heap_ordered (order_of h) n E' \<and> mset (take n E') = mset (take n E) \<and> drop n E' = drop n E"
proof (induction p arbitrary: E)
  case 0
  then show ?case by (subst build_loop.simps) auto
next
  case (Suc p)
  note f = Suc.prems(1)
  have pos: "0 < esize h" using f by (simp add: fits_def)
  have ch: "2 * p + 1 < n" and r: "2 * p + 2 < n" using Suc.prems(3) by simp_all
  have off: "wrap_size (2 * (Suc p * esize h)) = (2 * p + 2) * esize h"
    using double_offset [OF f, of "Suc p"] Suc.prems(3) n by simp
  have par: "sub_size (Suc p * esize h) (esize h) = p * esize h"
    using pred_offset [OF f, of "Suc p"] Suc.prems(3) n by simp
  obtain s where s: "choose_child (put h E) (p * esize h) (2 * p + 2 < n) ((2 * p + 2) * esize h) = Some (s * esize h)"
    "chosen (order_of h) n E p s"
    using choose_child_chosen [OF ord f n ch] .
  have s': "choose_child (put h E) (p * esize h) True ((2 * p + 2) * esize h) = Some (s * esize h)"
    using s(1) r by simp
  obtain E1 where E1: "sift_loop (n * esize h) (n div 2 * esize h) (p * esize h) (s * esize h) (put h E) = Some (put h E1)"
    "fits h E1" "ordered_from (order_of h) p n E1" "mset (take n E1) = mset (take n E)" "drop n E1 = drop n E"
    using sift_loop_put [OF ord n f ordered_but_childrenI [OF Suc.prems(2)] order_refl _ s(2)] ch by auto
  have "Suc p * esize h \<noteq> 0" using pos by simp
  then have "build_loop (n * esize h) (n div 2 * esize h) (Suc p * esize h) (put h E) =
      build_loop (n * esize h) (n div 2 * esize h) (p * esize h) (put h E1)"
    by (subst build_loop.simps) (simp only: if_False Let_def off put_sel par s' Option.bind.simps E1(1))
  then show ?case using Suc.IH [OF E1(2,3)] E1(4,5) r by simp
qed

lemma build_heap_put:
  assumes ord: "ordering h" and n: "nrofelem h \<le> maxnrofelem h" and f: "fits h E"
  shows "\<exists>E'. build_heap (put h E) = Some (put h E') \<and> fits h E' \<and> heap_ordered (order_of h) (nrofelem h) E' \<and>
    mset (take (nrofelem h) E') = mset (take (nrofelem h) E) \<and> drop (nrofelem h) E' = drop (nrofelem h) E"
proof (cases "nrofelem h \<le> 1")
  case True
  then show ?thesis using f by (auto simp: build_heap_def ordered_from_def)
next
  case False
  define m where "m = nrofelem h"
  define p where "p = m div 2 - 1"
  have pos: "0 < esize h" using f by (simp add: fits_def)
  have m: "m \<le> maxnrofelem h" and m2: "2 \<le> m" using n False by (simp_all add: m_def)
  have ch: "2 * p + 1 < m" and pm: "m div 2 = Suc p" using m2 unfolding p_def by linarith+
  note c = last_parent_offsets(1,2) [OF f m pm] and par = last_parent_offsets(3) [OF f m pm]
    and off = children_offset [OF f m ch]
  have cm: "(2 * p + 2) * esize h < m * esize h \<longleftrightarrow> 2 * p + 2 < m" using pos mult_less_cancel2 by blast
  obtain s where s: "choose_child (put h E) (p * esize h) (2 * p + 2 < m) ((2 * p + 2) * esize h) = Some (s * esize h)"
    "chosen (order_of h) m E p s"
    using choose_child_chosen [OF ord f m ch] .
  have "ordered_from (order_of h) (Suc p) m E"
    using pm by (auto simp: ordered_from_def above_def)
  then obtain E1 where E1: "sift_loop (m * esize h) (m div 2 * esize h) (p * esize h) (s * esize h) (put h E) = Some (put h E1)"
    "fits h E1" "ordered_from (order_of h) p m E1" "mset (take m E1) = mset (take m E)" "drop m E1 = drop m E"
    using sift_loop_put [OF ord m f ordered_but_childrenI order_refl _ s(2)] ch by auto
  have "s = p \<or> p < s \<and> s < m \<and> m div 2 \<le> s"
    using s(2) above_child [of s p] unfolding pm chosen_def by linarith
  then have leaf: "s = p \<or> p < s \<and> s < m \<and> m div 2 * esize h \<le> s * esize h"
    using mult_le_mono1 by blast
  have one: "(if p * esize h \<noteq> s * esize h then SWAP (put h E) (p * esize h) (s * esize h) else Some (put h E)) =
    sift_loop (m * esize h) (m div 2 * esize h) (p * esize h) (s * esize h) (put h E)"
    using leaf
  proof
    assume "p < s \<and> s < m \<and> m div 2 * esize h \<le> s * esize h"
    then show ?thesis using SWAP_put [OF f, of p s] m pos by (subst sift_loop.simps) simp
  qed (subst sift_loop.simps, simp)
  have "build_heap (put h E) = build_loop (m * esize h) (m div 2 * esize h) (p * esize h) (put h E1)"
    unfolding build_heap_def put_sel m_def [symmetric] Let_def c par off cm s(1) Option.bind.simps one E1(1)
    using m2 by simp
  then show ?thesis using build_loop_put [OF ord m E1(2,3)] E1(4,5) ch unfolding m_def [symmetric] by simp
qed

lemma insert_loop_put:
  assumes ord: "ordering h" and n: "n \<le> maxnrofelem h" and x: "length x = esize h"
  shows "fits h E \<Longrightarrow> ordered_but_parent (order_of h) j n (E[j := x]) \<Longrightarrow> j < n \<Longrightarrow>
    \<exists>c E'. insert_loop x j (j * esize h) (put h E) = Some (c * esize h, put h E') \<and> c < n \<and>
      fits h E' \<and> heap_ordered (order_of h) n (E'[c := x]) \<and>
      mset (take n (E'[c := x])) = mset (take n (E[j := x])) \<and> drop n E' = drop n E"
proof (induction j arbitrary: E rule: less_induct)
  case (less j)
  note f = less.prems(1)
  have pos: "0 < esize h" and len: "length E = maxnrofelem h" using f by (simp_all add: fits_def)
  show ?case
  proof (cases "j = 0")
    case True
    then have "heap_ordered (order_of h) n (E[j := x])"
      using comparator.sift_up_done [OF ord less.prems(2)] by simp
    then show ?thesis using True f less.prems(3) by (subst insert_loop.simps) fastforce
  next
    case False
    define p where "p = above j"
    have pj: "p < j" using False above_less by (simp add: p_def)
    have odd_par: "(if odd (j - 1) then sub_size (sub_size (j * esize h) (esize h)) (esize h)
        else sub_size (j * esize h) (esize h)) div 2 = p * esize h"
    proof -
      have 1: "sub_size (j * esize h) (esize h) = (j - 1) * esize h"
        using pred_offset [OF f] False less.prems(3) n by simp
      have 2: "sub_size ((j - 1) * esize h) (esize h) = (j - 2) * esize h" if "odd (j - 1)"
      proof -
        have "0 < j - 1" using that by (cases "j - 1") simp_all
        then show ?thesis using pred_offset [OF f, of "j - 1"] less.prems(3) n by (simp add: numeral_2_eq_2)
      qed
      have e: "2 * q * esize h div 2 = q * esize h" for q by simp
      show ?thesis
      proof (cases "odd (j - 1)")
        case True
        then obtain q where "j - 1 = 2 * q + 1" by (elim oddE)
        then have "j - 2 = 2 * q" "p = q" by (simp_all add: p_def above_def)
        then show ?thesis by (simp only: 1 2 [OF True] True simp_thms if_True e)
      next
        case False
        then have "even (j - 1)" by blast
        then obtain q where "j - 1 = 2 * q" by (rule evenE)
        then have "p = q" by (simp add: p_def above_def)
        then show ?thesis unfolding 1 if_not_P [OF False] by (simp only: \<open>j - 1 = 2 * q\<close> e)
      qed
    qed
    have gt: "0 < j" and ip: "(j - 1) div 2 = p" using False by (simp_all add: p_def above_def)
    have el: "ELEM (put h E) (p * esize h) = Some (E ! p)"
      by (rule ELEM_put [OF f]) (use pj less.prems(3) n in simp)
    have nth: "E[j := x] ! p = E ! p" "E[j := x] ! j = x" using pj less.prems(3) n len by simp_all
    have unf: "insert_loop x j (j * esize h) (put h E) =
      (if \<not> ISSWAP (put h E) (E ! p) x then Some (j * esize h, put h E)
       else do { h' \<leftarrow> COPY_within (put h E) (j * esize h) (p * esize h); insert_loop x p (p * esize h) h' })"
      unfolding insert_loop.simps [of x j] Let_def put_sel odd_par el ip if_P [OF gt] Option.bind.simps
      by (rule refl)
    show ?thesis
    proof (cases "order_of h (E ! p) x < 0")
      case no: False
      then have "heap_ordered (order_of h) n (E[j := x])"
        using comparator.sift_up_done [OF ord less.prems(2)] nth by (simp add: p_def)
      then show ?thesis using unf no f less.prems(3) by (auto simp: ISSWAP_def)
    next
      case True
      define E1 where "E1 = E[j := E ! p]"
      have f1: "fits h E1" unfolding E1_def by (rule fits_update [OF f fits_nth [OF f]]) (use pj less.prems(3) n in simp)
      have ex: "E1[p := x] = exchange p j (E[j := x])"
        using pj less.prems(3) n len
        by (intro nth_equalityI) (auto simp: E1_def exchange_def nth nth_list_update)
      have fx: "fits h (E[j := x])" by (rule fits_update [OF f x])
      have o1: "ordered_but_parent (order_of h) p n (E1[p := x])"
        unfolding ex unfolding p_def
        by (rule comparator.sift_up_step [OF ord less.prems(2) fits_elements [OF fx]])
          (use False less.prems(3) n len True nth in \<open>simp_all add: p_def\<close>)
      have m1: "mset (take n (E1[p := x])) = mset (take n (E[j := x]))" "drop n E1 = drop n E"
        unfolding ex using pj less.prems(3) n len by (simp_all add: mset_take_exchange E1_def)
      have cp: "COPY_within (put h E) (j * esize h) (p * esize h) = Some (put h E1)"
        unfolding E1_def by (rule COPY_within_put [OF f]) (use pj less.prems(3) n in simp_all)
      have "insert_loop x j (j * esize h) (put h E) = insert_loop x p (p * esize h) (put h E1)"
        using unf True cp by (simp add: ISSWAP_def)
      then show ?thesis using less.IH [OF pj f1 o1] pj less.prems(3) m1 by simp
    qed
  qed
qed

lemma remove_loop_put:
  assumes ord: "ordering h" and n: "n < maxnrofelem h"
  shows "fits h F \<Longrightarrow> ordered_but_children (order_of h) 0 p n (F[p := F ! n]) \<Longrightarrow> p < n \<Longrightarrow>
    \<exists>c F'. remove_loop (n * esize h) (n div 2 * esize h) (p * esize h) (put h F) = Some (c * esize h, put h F') \<and>
      c < n \<and> fits h F' \<and> heap_ordered (order_of h) n (F'[c := F' ! n]) \<and>
      mset (take n (F'[c := F' ! n])) = mset (take n (F[p := F ! n])) \<and> drop n F' = drop n F"
proof (induction "n - p" arbitrary: F p rule: less_induct)
  case less
  note f = less.prems(1)
  define E where "E = F[p := F ! n]"
  have pos: "0 < esize h" and len: "length F = maxnrofelem h" using f by (simp_all add: fits_def)
  have fE: "fits h E" unfolding E_def by (rule fits_update [OF f fits_nth [OF f n]])
  have oE: "ordered_but_children (order_of h) 0 p n E" using less.prems(2) by (simp add: E_def)
  show ?case
  proof (cases "p < n div 2")
    case False
    then have "heap_ordered (order_of h) n E"
    proof (intro comparator.sift_down_done [OF ord oE])
      fix c
      assume "0 < c" "c < n" "above c = p"
      then show "0 \<le> order_of h (E ! p) (E ! c)" using False above_child [of c p] by auto
    qed
    then show ?thesis using False f pos less.prems(3) by (subst remove_loop.simps) (auto simp: E_def)
  next
    case True
    then have ch: "2 * p + 1 < n" by linarith
    define t where "t = pick (order_of h) E p (2 * p + 1)"
    define s where "s = (if 2 * p + 2 < n then pick (order_of h) E t (2 * p + 2) else t)"
    define at where "at = (\<lambda>k. if k = p then n else k)"
    have s: "chosen (order_of h) n E p s"
      using comparator.pick_chosen [OF ord fits_elements [OF fE] _ less.prems(3), of "2 * p + 1" "2 * p + 2" t s] ch n len
      by (simp add: t_def s_def E_def)
    have tn: "t < n" using less.prems(3) ch by (simp add: t_def pick_def)
    have at: "at k < maxnrofelem h" "F ! at k = E ! k" if "k < n" for k
      using that n len by (simp_all add: at_def E_def)
    have l: "wrap_size (wrap_size (2 * (p * esize h)) + esize h) = (2 * p + 1) * esize h"
      using double_offset [OF f, of p] slot_offset_bound [OF f, of "2 * p + 1"] ch n by simp
    have r: "wrap_size ((2 * p + 1) * esize h + esize h) = (2 * p + 2) * esize h"
      using slot_offset_bound [OF f, of "2 * p + 2"] ch n by simp
    have bl: "isswap_at (put h F) (n * esize h) ((2 * p + 1) * esize h) = Some (order_of h (E ! p) (E ! (2 * p + 1)) < 0)"
      using isswap_put [OF f n, of "2 * p + 1"] at(2) [of "2 * p + 1"] at(2) [of p] ch n less.prems(3)
      by (simp add: at_def)
    have et: "(if order_of h (E ! p) (E ! (2 * p + 1)) < 0 then (2 * p + 1) * esize h else n * esize h) = at t * esize h"
      by (simp add: t_def pick_def at_def)
    have cm: "(2 * p + 2) * esize h < n * esize h \<longleftrightarrow> 2 * p + 2 < n" using pos mult_less_cancel2 by blast
    have br: "(if 2 * p + 2 < n then isswap_at (put h F) (at t * esize h) ((2 * p + 2) * esize h) else Some False) =
      Some (2 * p + 2 < n \<and> order_of h (E ! t) (E ! (2 * p + 2)) < 0)"
      using isswap_put [OF f at(1) [OF tn], of "2 * p + 2"] at(2) [OF tn] at(2) [of "2 * p + 2"] n
      by (simp add: at_def)
    have es: "(if 2 * p + 2 < n \<and> order_of h (E ! t) (E ! (2 * p + 2)) < 0 then (2 * p + 2) * esize h else at t * esize h)
      = at s * esize h"
      by (simp add: s_def pick_def at_def)
    have lt: "p * esize h < n div 2 * esize h" using True pos by simp
    have unf: "remove_loop (n * esize h) (n div 2 * esize h) (p * esize h) (put h F) =
      (if at s * esize h = n * esize h then Some (p * esize h, put h F)
       else do { h' \<leftarrow> COPY_within (put h F) (p * esize h) (at s * esize h);
                 remove_loop (n * esize h) (n div 2 * esize h) (at s * esize h) h' })"
      apply (subst remove_loop.simps)
      unfolding Let_def lt [THEN eqTrueI] if_True put_sel l r bl Option.bind.simps et cm br es
      by (rule refl)
    show ?thesis
    proof (cases "s = p")
      case True
      then have "heap_ordered (order_of h) n E"
        using comparator.sift_down_done [OF ord oE] s by (simp add: chosen_def)
      then show ?thesis using True unf f less.prems(3) by (auto simp: at_def E_def)
    next
      case False
      then have s': "0 < s" "s < n" "above s = p" "order_of h (E ! p) (E ! s) < 0"
        and best: "\<And>c. 0 < c \<Longrightarrow> c < n \<Longrightarrow> above c = p \<Longrightarrow> 0 \<le> order_of h (E ! s) (E ! c)"
        using s by (auto simp: chosen_def)
      have ps: "p < s" using s' above_less by blast
      define F1 where "F1 = F[p := F ! s]"
      have f1: "fits h F1" unfolding F1_def by (rule fits_update [OF f fits_nth [OF f]]) (use s' n in simp)
      have ex: "F1[s := F1 ! n] = exchange p s E"
        using ps s' n len by (simp add: F1_def E_def exchange_def list_update_swap)
      have o1: "ordered_but_children (order_of h) 0 s n (F1[s := F1 ! n])"
        unfolding ex
        by (rule comparator.sift_down_step [OF ord oE _ fits_elements [OF fE]])
          (use n len s' best in \<open>simp_all add: E_def\<close>)
      have m1: "mset (take n (F1[s := F1 ! n])) = mset (take n E)" "drop n F1 = drop n F"
        unfolding ex using ps s' n len by (simp_all add: mset_take_exchange F1_def E_def)
      have cp: "COPY_within (put h F) (p * esize h) (s * esize h) = Some (put h F1)"
        unfolding F1_def by (rule COPY_within_put [OF f]) (use ps s' n in simp_all)
      have "remove_loop (n * esize h) (n div 2 * esize h) (p * esize h) (put h F) =
          remove_loop (n * esize h) (n div 2 * esize h) (s * esize h) (put h F1)"
        using unf False s'(2) pos cp by (simp add: at_def)
      then show ?thesis using less.hyps [OF _ f1 o1 s'(2)] ps s'(2) m1 by (simp add: E_def)
    qed
  qed
qed

lemma invariant_loop_put:
  assumes f: "fits h E" and n: "n \<le> maxnrofelem h"
  shows "2 * p < n \<Longrightarrow> invariant_loop (put h E) (p * esize h) =
    Some (if \<forall>c \<in> {0<..2 * p}. 0 \<le> order_of h (E ! above c) (E ! c) then Inr () else Inl EINVARIANT)"
proof (induction p)
  case 0
  then show ?case by (subst invariant_loop.simps) simp
next
  case (Suc p)
  have pos: "0 < esize h" using f by (simp add: fits_def)
  have off: "wrap_size (2 * (Suc p * esize h)) = (2 * p + 2) * esize h"
    using double_offset [OF f, of "Suc p"] Suc.prems n by simp
  have par: "sub_size (Suc p * esize h) (esize h) = p * esize h"
    using pred_offset [OF f, of "Suc p"] Suc.prems n by simp
  have left: "sub_size ((2 * p + 2) * esize h) (esize h) = (2 * p + 1) * esize h"
    using pred_offset [OF f, of "2 * p + 2"] Suc.prems n by simp
  have b: "isswap_at (put h E) (p * esize h) ((2 * p + 2) * esize h) = Some (order_of h (E ! p) (E ! (2 * p + 2)) < 0)"
    "isswap_at (put h E) (p * esize h) ((2 * p + 1) * esize h) = Some (order_of h (E ! p) (E ! (2 * p + 1)) < 0)"
    by (rule isswap_put [OF f]; use Suc.prems n in simp)+
  have ne: "(Suc p * esize h = 0) = False" using pos by simp
  have set: "{0<..2 * Suc p} = {0<..2 * p} \<union> {2 * p + 1, 2 * p + 2}" by auto
  have ab: "above (2 * p + 1) = p" "above (2 * p + 2) = p" by (simp_all add: above_def)
  have IH: "invariant_loop (put h E) (p * esize h) =
    Some (if \<forall>c \<in> {0<..2 * p}. 0 \<le> order_of h (E ! above c) (E ! c) then Inr () else Inl EINVARIANT)"
    using Suc by simp
  have all: "(\<forall>c \<in> {0<..2 * Suc p}. 0 \<le> order_of h (E ! above c) (E ! c)) \<longleftrightarrow>
    (\<forall>c \<in> {0<..2 * p}. 0 \<le> order_of h (E ! above c) (E ! c)) \<and>
    \<not> order_of h (E ! p) (E ! (2 * p + 1)) < 0 \<and> \<not> order_of h (E ! p) (E ! (2 * p + 2)) < 0"
    unfolding set using ab by auto
  show ?case
    unfolding all
    by (subst invariant_loop.simps)
      (simp only: ne if_False Let_def off par put_sel b left IH Option.bind.simps if_distrib split: if_split, simp)
qed

section \<open>The operations\<close>

lemma heap_wf_count:
  assumes "heap_wf h"
  shows "maxnrofelem h < 2 ^ 64"
proof -
  have "maxnrofelem h * 1 \<le> maxnrofelem h * esize h"
    using assms by (intro mult_le_mono2) (simp add: heap_wf_def word_less_nat_alt)
  also have "\<dots> < 2 ^ 64" using assms by (simp add: heap_wf_def)
  finally show ?thesis by simp
qed

lemma invariant_heap_put:
  assumes f: "fits h E" and n: "nrofelem h \<le> maxnrofelem h"
  shows "invariant_heap (put h E) =
    Some (if heap_ordered (order_of h) (nrofelem h) E then Inr () else Inl EINVARIANT)"
proof (cases "nrofelem h \<le> 1")
  case True
  then show ?thesis using n by (auto simp: invariant_heap_def ordered_from_def)
next
  case False
  define m where "m = nrofelem h"
  define p where "p = m div 2 - 1"
  have pos: "0 < esize h" using f by (simp add: fits_def)
  have m: "m \<le> maxnrofelem h" and m2: "2 \<le> m" using n False by (simp_all add: m_def)
  have ch: "2 * p + 1 < m" and pm: "m div 2 = Suc p" using m2 unfolding p_def by linarith+
  note c = last_parent_offsets(1,2) [OF f m pm] and par = last_parent_offsets(3) [OF f m pm]
    and off = children_offset [OF f m ch]
  have left: "sub_size ((2 * p + 2) * esize h) (esize h) = (2 * p + 1) * esize h"
    using pred_offset [OF f, of "2 * p + 2"] ch m by simp
  have cm: "(2 * p + 2) * esize h < m * esize h \<longleftrightarrow> 2 * p + 2 < m" using pos mult_less_cancel2 by blast
  have br: "(if 2 * p + 2 < m then isswap_at (put h E) (p * esize h) ((2 * p + 2) * esize h) else Some False) =
    Some (2 * p + 2 < m \<and> order_of h (E ! p) (E ! (2 * p + 2)) < 0)"
    using isswap_put [OF f, of p "2 * p + 2"] ch m by simp
  have bl: "isswap_at (put h E) (p * esize h) ((2 * p + 1) * esize h) = Some (order_of h (E ! p) (E ! (2 * p + 1)) < 0)"
    by (rule isswap_put [OF f]; use ch m in simp)
  have "{0<..<m} = {0<..2 * p} \<union> ({2 * p + 1, 2 * p + 2} \<inter> {..<m})" using ch pm by auto
  moreover have "above (2 * p + 1) = p" "above (2 * p + 2) = p" by (simp_all add: above_def)
  ultimately have all: "heap_ordered (order_of h) m E \<longleftrightarrow>
    (\<forall>c \<in> {0<..2 * p}. 0 \<le> order_of h (E ! above c) (E ! c)) \<and>
    \<not> order_of h (E ! p) (E ! (2 * p + 1)) < 0 \<and> \<not> (2 * p + 2 < m \<and> order_of h (E ! p) (E ! (2 * p + 2)) < 0)"
    using ch by (auto simp: ordered_from_def)
  have "invariant_heap (put h E) =
    (if 2 * p + 2 < m \<and> order_of h (E ! p) (E ! (2 * p + 2)) < 0 then Some (Inl EINVARIANT)
     else if order_of h (E ! p) (E ! (2 * p + 1)) < 0 then Some (Inl EINVARIANT)
     else invariant_loop (put h E) (p * esize h))"
    using n m2
    unfolding invariant_heap_def put_sel m_def [symmetric] Let_def c par off cm br left bl Option.bind.simps
    by simp
  then show ?thesis
    unfolding m_def [symmetric] all using invariant_loop_put [OF f m, of p] ch by simp
qed

text \<open>\<open>invariant_heap\<close> decides the heap condition.\<close>

lemma invariant_heap_decides:
  assumes "heap_wf h"
  shows "invariant_heap h = Some (if heap_inv h then Inr () else Inl EINVARIANT)"
  using invariant_heap_put [OF fits_slots [OF assms]] put_slots [OF assms] assms
  by (simp add: heap_inv_def heap_wf_def)

lemma heap_inv_put:
  "fits h E \<Longrightarrow> nrofelem h \<le> maxnrofelem h \<Longrightarrow> heap_ordered (order_of h) (nrofelem h) E \<Longrightarrow> heap_inv (put h E)"
  by (simp add: heap_inv_def heap_wf_put slots_put)

lemma queued_put: "fits h E \<Longrightarrow> queued (put h E) = take (nrofelem h) E"
  by (simp add: queued_def slots_put)

lemma queued_elements: "heap_wf h \<Longrightarrow> set (queued h) \<subseteq> elements_of h"
  using fits_elements [OF fits_slots] by (simp add: queued_def)

lemma length_queued: "heap_wf h \<Longrightarrow> length (queued h) = nrofelem h"
  by (simp add: queued_def slots_def heap_wf_def)

lemma build_heap_builds:
  assumes "ordering h" and "heap_wf h"
  obtains h' where "build_heap h = Some h'" and "heap_inv h'" and "mset (queued h') = mset (queued h)"
    and "drop (nrofelem h) (slots h') = drop (nrofelem h) (slots h)" and "h' = put h (slots h')"
proof -
  have n: "nrofelem h \<le> maxnrofelem h" using assms(2) by (simp add: heap_wf_def)
  from build_heap_put [OF assms(1) n fits_slots [OF assms(2)]] obtain E where
    E: "build_heap h = Some (put h E)" "fits h E" "heap_ordered (order_of h) (nrofelem h) E"
      "mset (take (nrofelem h) E) = mset (queued h)" "drop (nrofelem h) E = drop (nrofelem h) (slots h)"
    by (auto simp: put_slots [OF assms(2)] queued_def)
  show thesis
    by (rule that [of "put h E"])
      (use E n in \<open>simp_all add: heap_inv_put queued_put slots_put\<close>)
qed

lemma insert_heap_inserts:
  assumes ord: "ordering h" and inv: "heap_inv h" and room: "nrofelem h < maxnrofelem h" and x: "length x = esize h"
  obtains E where "insert_heap h x = Some (Inr (), put (h\<lparr>nrofelem := Suc (nrofelem h)\<rparr>) E)"
    and "heap_inv (put (h\<lparr>nrofelem := Suc (nrofelem h)\<rparr>) E)"
    and "mset (queued (put (h\<lparr>nrofelem := Suc (nrofelem h)\<rparr>) E)) = add_mset x (mset (queued h))"
proof -
  let ?n = "nrofelem h" and ?h = "h\<lparr>nrofelem := Suc (nrofelem h)\<rparr>"
  have wf: "heap_wf h" and ho: "heap_ordered (order_of h) ?n (slots h)" using inv by (simp_all add: heap_inv_def)
  have f: "fits ?h (slots h)" using fits_slots [OF wf] by (simp add: fits_def)
  have len: "length (slots h) = maxnrofelem h" by (simp add: slots_def)
  have put: "?h = put ?h (slots h)"
    by (rule put_same [symmetric]) (use arg_cong [OF put_slots [OF wf], of array] in simp)
  have w: "wrap_size (Suc ?n) = Suc ?n" using room heap_wf_count [OF wf] by simp
  have off: "wrap_size (?n * esize h) = ?n * esize h" using slot_offset_bound [OF f, of ?n] room by simp
  obtain c E where E: "insert_loop x ?n (?n * esize h) (put ?h (slots h)) = Some (c * esize h, put ?h E)" "c < Suc ?n"
    "fits ?h E" "heap_ordered (order_of h) (Suc ?n) (E[c := x])"
    "mset (take (Suc ?n) (E[c := x])) = mset (take (Suc ?n) ((slots h)[?n := x]))"
    using insert_loop_put [of ?h "Suc ?n" x "slots h" ?n] ord room x f ordered_but_parentI [OF ho] by auto
  have f': "fits ?h (E[c := x])" by (rule fits_update [OF E(3)]) (simp add: x)
  have cp: "COPY_from (put ?h E) (c * esize h) x = Some (put ?h (E[c := x]))"
    using COPY_from_put [OF E(3), of c x] E(2) room x by simp
  have "insert_heap h x = Some (Inr (), put ?h (E[c := x]))"
    using room E(1) cp put by (simp add: insert_heap_def w off)
  moreover have "heap_inv (put ?h (E[c := x]))"
    by (rule heap_inv_put [OF f']) (use E(4) room in simp_all)
  moreover have "mset (queued (put ?h (E[c := x]))) = add_mset x (mset (queued h))"
    by (subst queued_put [OF f']) (use E(5) room len in \<open>simp add: queued_def take_Suc_conv_app_nth\<close>)
  ultimately show thesis by (rule that)
qed

end
