(* ===== verification/Ds_Heap_Queue.thy ===== *)
theory Ds_Heap_Queue
  imports Ds_Heap
begin

text \<open>
  The contract of a priority queue as a locale, its client that empties a queue, the queue of
  C-kern/ds/inmem/heap.c as an instance of the contract, and the properties of the operations.
\<close>

section \<open>Removing\<close>

lemma heap_tail_ordered:
  "heap_ordered f (Suc n) F \<Longrightarrow> ordered_but_children f 0 0 n (F[0 := x])"
  by (auto simp: ordered_from_def ordered_but_children_def nth_list_update above_def)

lemma mset_replace_root:
  assumes "0 < n" and "n < length F"
  shows "mset (take (Suc n) F) = add_mset (F ! 0) (mset (take n (F[0 := F ! n])))"
proof -
  have "take n (F[0 := F ! n]) = (take n F)[0 := F ! n]" by (rule take_update_swap)
  then have "mset (take n (F[0 := F ! n])) = add_mset (F ! n) (mset (take n F) - {#F ! 0#})"
    using assms by (simp add: mset_update)
  moreover have "F ! 0 \<in># mset (take n F)"
    using assms by (auto simp: in_set_conv_nth)
  moreover have "mset (take (Suc n) F) = add_mset (F ! n) (mset (take n F))"
    using assms by (simp add: take_Suc_conv_app_nth)
  ultimately show ?thesis by (simp add: insert_DiffM add_mset_commute)
qed

lemma remove_heap_removes:
  assumes ord: "ordering h" and inv: "heap_inv h" and some: "0 < nrofelem h" and x: "length x = esize h"
  obtains E where "remove_heap h x = Some (Inr (), queued h ! 0, put (h\<lparr>nrofelem := nrofelem h - 1\<rparr>) E)"
    and "heap_inv (put (h\<lparr>nrofelem := nrofelem h - 1\<rparr>) E)"
    and "mset (queued h) = add_mset (queued h ! 0) (mset (queued (put (h\<lparr>nrofelem := nrofelem h - 1\<rparr>) E)))"
    and "\<forall>y \<in> set (queued h). 0 \<le> order_of h (queued h ! 0) y"
proof -
  define n where "n = nrofelem h - 1"
  define h1 where "h1 = h\<lparr>nrofelem := n\<rparr>"
  define F where "F = slots h"
  have wf: "heap_wf h" and ho: "heap_ordered (order_of h) (Suc n) F"
    using inv some by (simp_all add: heap_inv_def n_def F_def)
  have sel [simp]: "cmp h1 = cmp h" "cmpstate h1 = cmpstate h" "elemsize h1 = elemsize h"
    "nrofelem h1 = n" "maxnrofelem h1 = maxnrofelem h" "array h1 = array h"
    by (simp_all add: h1_def)
  have n: "n < maxnrofelem h" using wf some unfolding n_def heap_wf_def by linarith
  have f: "fits h F" and f1: "fits h1 F" using fits_slots [OF wf] by (simp_all add: F_def fits_def)
  have len: "length F = maxnrofelem h" by (simp add: F_def slots_def)
  have put: "put h F = h" using put_slots [OF wf] by (simp add: F_def)
  have put1: "put h1 F = h1" by (rule put_same) (use arg_cong [OF put, of array] in simp)
  have q: "queued h = take (Suc n) F" using some by (simp add: queued_def F_def n_def)
  have q0: "queued h ! 0 = F ! 0" by (simp add: q)
  have unf: "remove_heap h x = (if nrofelem h = 0 then Some (Inl ENODATA, x, h)
      else do {
        x' \<leftarrow> COPY_to h x 0;
        if n \<noteq> 0 then do {
          let cmaxoff = wrap_size (n * esize h);
          let pmaxoff = wrap_size (n div 2 * esize h);
          (parent, h') \<leftarrow> remove_loop cmaxoff pmaxoff 0 h1;
          h' \<leftarrow> COPY_within h' parent cmaxoff;
          Some (Inr (), x', h') }
        else Some (Inr (), x', h1) })"
    unfolding remove_heap_def n_def [symmetric] h1_def [symmetric] Let_def sel by (rule refl)
  have cp: "COPY_to h x 0 = Some (F ! 0)"
    using COPY_to_put [OF f _ x, of 0] n put by simp
  have max: "\<forall>y \<in> set (queued h). 0 \<le> order_of h (queued h ! 0) y"
    using comparator.root_maximal [OF ord ho fits_elements [OF f]] n len
    by (auto simp: q in_set_conv_nth)
  show thesis
  proof (cases "n = 0")
    case True
    have "remove_heap h x = Some (Inr (), F ! 0, put h1 F)"
      using some cp True put1 by (simp add: unf Let_def)
    moreover have "heap_inv (put h1 F)"
      by (rule heap_inv_put [OF f1]) (simp_all add: True ordered_from_def)
    moreover have "mset (queued h) = add_mset (F ! 0) (mset (queued (put h1 F)))"
      using len n by (simp add: q queued_put [OF f1] True take_Suc_conv_app_nth)
    ultimately show thesis using that [of F] max q0 by (simp add: h1_def n_def)
  next
    case False
    obtain c E where E: "remove_loop (n * esize h) (n div 2 * esize h) (0 * esize h) (put h1 F) = Some (c * esize h, put h1 E)"
      "c < n" "fits h1 E" "heap_ordered (order_of h) n (E[c := E ! n])"
      "mset (take n (E[c := E ! n])) = mset (take n (F[0 := F ! n]))"
      using remove_loop_put [of h1 n F 0] ord n f1 heap_tail_ordered [OF ho] False by auto
    define E' where "E' = E[c := E ! n]"
    have f': "fits h1 E'" unfolding E'_def by (rule fits_update [OF E(3) fits_nth [OF E(3)]]) (use n in simp)
    have cw: "COPY_within (put h1 E) (c * esize h) (n * esize h) = Some (put h1 E')"
      using COPY_within_put [OF E(3), of c n] E(2) n by (simp add: E'_def)
    have off: "wrap_size (n * esize h) = n * esize h" "wrap_size (n div 2 * esize h) = n div 2 * esize h"
      using slot_offset_bound [OF f, of n] slot_offset_bound [OF f, of "n div 2"] n by simp_all
    have "remove_heap h x = Some (Inr (), F ! 0, put h1 E')"
      using some cp False put1 E(1) cw off
      by (simp add: unf Let_def)
    moreover have "heap_inv (put h1 E')"
      by (rule heap_inv_put [OF f']) (use E(4) n in \<open>simp_all add: E'_def\<close>)
    moreover have "mset (queued h) = add_mset (F ! 0) (mset (queued (put h1 E')))"
      using mset_replace_root [of n F] False n len E(5) [folded E'_def] by (simp add: q queued_put [OF f'])
    ultimately show thesis using that [of E'] max q0 by (simp add: h1_def n_def)
  qed
qed

section \<open>The contract\<close>

text \<open>
  A queue that hands out a maximal element: \<open>elems\<close> is the multiset it holds. \<open>insert\<close> may refuse an
  element, and then changes nothing. The client \<open>drain\<close> removes \<open>n\<close> elements.
\<close>

primrec drain :: "('q \<Rightarrow> (unit cres \<times> 'a \<times> 'q) option) \<Rightarrow> nat \<Rightarrow> 'q \<Rightarrow> ('a list \<times> 'q) option" where
  "drain remove 0 q = Some ([], q)"
| "drain remove (Suc n) q = do {
     (err, x, q) \<leftarrow> remove q;
     (xs, q) \<leftarrow> drain remove n q;
     Some (x # xs, q) }"

locale max_queue = comparator cmp A for cmp :: "'a \<Rightarrow> 'a \<Rightarrow> int" and A :: "'a set" +
  fixes insert :: "'q \<Rightarrow> 'a \<Rightarrow> (unit cres \<times> 'q) option"
    and remove :: "'q \<Rightarrow> (unit cres \<times> 'a \<times> 'q) option"
    and inv :: "'q \<Rightarrow> bool"
    and elems :: "'q \<Rightarrow> 'a multiset"
    and room :: "'q \<Rightarrow> nat"
  assumes insert_ok: "inv q \<Longrightarrow> x \<in> A \<Longrightarrow> 0 < room q \<Longrightarrow>
      \<exists>q'. insert q x = Some (Inr (), q') \<and> inv q' \<and> elems q' = add_mset x (elems q) \<and> room q = Suc (room q')"
    and insert_full: "inv q \<Longrightarrow> x \<in> A \<Longrightarrow> room q = 0 \<Longrightarrow> insert q x = Some (Inl ENOMEM, q)"
    and remove_ok: "inv q \<Longrightarrow> elems q \<noteq> {#} \<Longrightarrow>
      \<exists>x q'. remove q = Some (Inr (), x, q') \<and> inv q' \<and> elems q = add_mset x (elems q') \<and>
        (\<forall>y \<in># elems q. 0 \<le> cmp x y)"
begin

lemma drain_descending:
  "inv q \<Longrightarrow> n = size (elems q) \<Longrightarrow>
   \<exists>xs q'. drain remove n q = Some (xs, q') \<and> inv q' \<and> elems q' = {#} \<and> mset xs = elems q \<and>
     sorted_wrt (\<lambda>x y. 0 \<le> cmp x y) xs"
proof (induction n arbitrary: q)
  case (Suc n)
  then have "elems q \<noteq> {#}" by auto
  then obtain x q1 where x: "remove q = Some (Inr (), x, q1)" "inv q1" "elems q = add_mset x (elems q1)"
    "\<forall>y \<in># elems q. 0 \<le> cmp x y"
    using remove_ok Suc.prems(1) by blast
  then have "n = size (elems q1)" using Suc.prems(2) by simp
  then obtain xs q' where q': "drain remove n q1 = Some (xs, q')" "inv q'" "elems q' = {#}" "mset xs = elems q1"
    "sorted_wrt (\<lambda>x y. 0 \<le> cmp x y) xs"
    using Suc.IH x(2) by blast
  have "\<forall>y \<in> set xs. 0 \<le> cmp x y" using x(3,4) q'(4) by (metis set_mset_mset union_iff add_mset_add_single)
  then show ?case using x q' by auto
qed auto

lemma insert_all:
  "inv q \<Longrightarrow> set xs \<subseteq> A \<Longrightarrow> length xs \<le> room q \<Longrightarrow>
   \<exists>q'. foldl (\<lambda>r x. do { (err, q) \<leftarrow> r; insert q x }) (Some (e, q)) xs =
       Some (if xs = [] then e else Inr (), q') \<and>
     inv q' \<and> elems q' = elems q + mset xs"
proof (induction xs arbitrary: q e)
  case (Cons x xs)
  then obtain q1 where "insert q x = Some (Inr (), q1)" "inv q1" "elems q1 = add_mset x (elems q)" "room q = Suc (room q1)"
    using insert_ok [of q x] by auto
  then show ?case using Cons.IH [of q1 "Inr ()"] Cons.prems by auto
qed simp

end

section \<open>The heap as a queue\<close>

definition heap_for :: "('s \<Rightarrow> u8 list \<Rightarrow> u8 list \<Rightarrow> int) \<Rightarrow> 's \<Rightarrow> u8 \<Rightarrow> 's heap_t \<Rightarrow> bool" where
  "heap_for f st esz h \<longleftrightarrow> heap_inv h \<and> cmp h = f \<and> cmpstate h = st \<and> elemsize h = esz"

lemma heap_is_max_queue:
  fixes f :: "'s \<Rightarrow> u8 list \<Rightarrow> u8 list \<Rightarrow> int"
  assumes "comparator (f st) {e. length e = unat esz}" and "length buf = unat esz"
  shows "max_queue (f st) {e. length e = unat esz} insert_heap (\<lambda>h. remove_heap h buf) (heap_for f st esz)
    (\<lambda>h. mset (queued h)) (\<lambda>h. maxnrofelem h - nrofelem h)"
proof (intro max_queue.intro [OF assms(1)] max_queue_axioms.intro)
  fix h :: "'s heap_t" and x :: "u8 list"
  assume h: "heap_for f st esz h"
  then have ord: "ordering h" and inv: "heap_inv h" and sel: "cmp h = f" "cmpstate h = st" "elemsize h = esz"
    using assms by (simp_all add: heap_for_def)
  have le: "nrofelem h \<le> maxnrofelem h" using inv by (simp add: heap_inv_def heap_wf_def)
  show "\<exists>h'. insert_heap h x = Some (Inr (), h') \<and> heap_for f st esz h' \<and>
      mset (queued h') = add_mset x (mset (queued h)) \<and>
      maxnrofelem h - nrofelem h = Suc (maxnrofelem h' - nrofelem h')"
    if "x \<in> {e. length e = unat esz}" and "0 < maxnrofelem h - nrofelem h"
  proof -
    have "nrofelem h < maxnrofelem h" "length x = esize h" using that sel by simp_all
    from insert_heap_inserts [OF ord inv this] obtain E where
      "insert_heap h x = Some (Inr (), put (h\<lparr>nrofelem := Suc (nrofelem h)\<rparr>) E)"
      "heap_inv (put (h\<lparr>nrofelem := Suc (nrofelem h)\<rparr>) E)"
      "mset (queued (put (h\<lparr>nrofelem := Suc (nrofelem h)\<rparr>) E)) = add_mset x (mset (queued h))" .
    then show ?thesis using that(2) sel
      by (intro exI [of _ "put (h\<lparr>nrofelem := Suc (nrofelem h)\<rparr>) E"]) (simp add: heap_for_def)
  qed
  show "insert_heap h x = Some (Inl ENOMEM, h)" if "maxnrofelem h - nrofelem h = 0"
    using le that by (simp add: insert_heap_def)
  show "\<exists>x h'. remove_heap h buf = Some (Inr (), x, h') \<and> heap_for f st esz h' \<and>
      mset (queued h) = add_mset x (mset (queued h')) \<and> (\<forall>y \<in># mset (queued h). 0 \<le> f st x y)"
    if "mset (queued h) \<noteq> {#}"
  proof -
    have "0 < nrofelem h" "length buf = esize h" using that sel assms(2) by (auto simp: queued_def)
    from remove_heap_removes [OF ord inv this] obtain E where R:
      "remove_heap h buf = Some (Inr (), queued h ! 0, put (h\<lparr>nrofelem := nrofelem h - 1\<rparr>) E)"
      "heap_inv (put (h\<lparr>nrofelem := nrofelem h - 1\<rparr>) E)"
      "mset (queued h) = add_mset (queued h ! 0) (mset (queued (put (h\<lparr>nrofelem := nrofelem h - 1\<rparr>) E)))"
      "\<forall>y \<in> set (queued h). 0 \<le> order_of h (queued h ! 0) y" .
    have "\<forall>y \<in># mset (queued h). 0 \<le> f st (queued h ! 0) y" using R(4) sel by (simp only: set_mset_mset)
    then show ?thesis using R(1-3) sel
      by (intro exI [of _ "queued h ! 0"] exI [of _ "put (h\<lparr>nrofelem := nrofelem h - 1\<rparr>) E"] conjI)
        (simp_all add: heap_for_def)
  qed
qed

text \<open>
  The comparison of the elements as values of type \<open>long\<close> (8 bytes, least significant first) and its
  reverse, with which the queue hands out the smallest value first.
\<close>

fun bytes_value :: "u8 list \<Rightarrow> nat" where
  "bytes_value [] = 0"
| "bytes_value (b # bs) = unat b + 256 * bytes_value bs"

definition long_at :: "u8 list \<Rightarrow> int" where
  "long_at e = signed_take_bit 63 (int (bytes_value (take 8 e)))"

definition compare_long :: "'s \<Rightarrow> u8 list \<Rightarrow> u8 list \<Rightarrow> int" where
  "compare_long state left right =
     (let l = long_at left; r = long_at right
      in if l < r then -1 else if l > r then 1 else 0)"

definition compare_long_revert :: "'s \<Rightarrow> u8 list \<Rightarrow> u8 list \<Rightarrow> int" where
  "compare_long_revert state left right =
     (let l = long_at left; r = long_at right
      in if l < r then 1 else if l > r then -1 else 0)"

lemma compare_long_geq: "0 \<le> compare_long u x y \<longleftrightarrow> long_at y \<le> long_at x"
  by (simp add: compare_long_def Let_def)

lemma compare_long_revert_geq: "0 \<le> compare_long_revert u x y \<longleftrightarrow> long_at x \<le> long_at y"
  by (simp add: compare_long_revert_def Let_def)

interpretation long: comparator "compare_long u" A for u A
  by unfold_locales (auto simp: compare_long_geq compare_long_def Let_def split: if_splits)

interpretation long_revert: comparator "compare_long_revert u" A for u A
  by unfold_locales (auto simp: compare_long_revert_geq compare_long_revert_def Let_def split: if_splits)

interpretation long_queue: max_queue "compare_long ()" "{e. length e = unat (8 :: u8)}" insert_heap
  "\<lambda>h. remove_heap h (replicate 8 0)" "heap_for compare_long () 8" "\<lambda>h. mset (queued h)"
  "\<lambda>h. maxnrofelem h - nrofelem h"
  by (rule heap_is_max_queue [OF long.comparator_axioms]) simp

section \<open>Properties\<close>

definition raw_heap :: "u8 \<Rightarrow> nat \<Rightarrow> nat \<Rightarrow> u8 list \<Rightarrow> ('s \<Rightarrow> u8 list \<Rightarrow> u8 list \<Rightarrow> int) \<Rightarrow> 's \<Rightarrow> 's heap_t" where
  "raw_heap esz nr maxnr mem f st = \<lparr>cmp = f, cmpstate = st, elemsize = esz, array = mem,
     nrofelem = nr, maxnrofelem = maxnr\<rparr>"

lemma init_heap_ok:
  assumes "comparator (f st) {e. length e = unat esz}" and "length mem = maxnr * unat esz"
    and "0 < esz" and "nr \<le> maxnr" and "0 < maxnr" and "address + maxnr * unat esz < 2 ^ 64"
  shows "\<exists>h. init_heap esz nr maxnr address mem (Some f) st = Some (Inr h) \<and>
    heap_for f st esz h \<and> nrofelem h = nr \<and> maxnrofelem h = maxnr \<and>
    mset (queued h) = mset (queued (raw_heap esz nr maxnr mem f st)) \<and>
    drop nr (slots h) = drop nr (slots (raw_heap esz nr maxnr mem f st))"
proof -
  let ?r = "raw_heap esz nr maxnr mem f st"
  have e: "0 < unat esz" using assms(3) by (simp add: word_less_nat_alt)
  have wf: "heap_wf ?r" and ord: "ordering ?r" using assms by (simp_all add: heap_wf_def raw_heap_def)
  from build_heap_builds [OF ord wf] obtain h where h: "build_heap ?r = Some h" "heap_inv h"
    "mset (queued h) = mset (queued ?r)" "drop (nrofelem ?r) (slots h) = drop (nrofelem ?r) (slots ?r)"
    "h = put ?r (slots h)" .
  have sel: "cmp h = f" "cmpstate h = st" "elemsize h = esz" "nrofelem h = nr" "maxnrofelem h = maxnr"
    by (subst h(5), simp add: raw_heap_def)+
  have m: "maxnr * unat esz < 2 ^ 64" using assms(6) by linarith
  then have "maxnr \<le> (2 ^ 64 - 1) div unat esz" using e by (simp add: less_eq_div_iff_mult_less_eq)
  moreover have "wrap_size (address + wrap_size (maxnr * unat esz)) > address"
    using assms(5,6) e m by (simp add: wrap_size_id)
  ultimately have "init_heap esz nr maxnr address mem (Some f) st = Some (Inr h)"
    using assms(3-5) h(1) by (simp add: init_heap_def raw_heap_def)
  then show ?thesis using h sel by (simp add: heap_for_def raw_heap_def)
qed

text \<open>C6: \<open>init_heap\<close> on an array at \<open>address\<close> refuses exactly the null comparison, empty elements, an empty
  or too short array and an array that does not fit the address space. Otherwise it turns the
  first \<open>nr\<close> elements into a queue, for every comparison that is a total preorder: the elements
  are rearranged, the rest of the array is untouched, and \<open>invariant_heap\<close> accepts the result.
  No access leaves the array.
\<close>

theorem init_heap_contract:
  assumes "comparator (f st) {e. length e = unat esz}" and "length mem = maxnr * unat esz" and "address < 2 ^ 64"
  shows "init_heap esz nr maxnr address mem None st = Some (Inl EINVAL) \<and>
    (if esz = 0 \<or> maxnr < nr \<or> maxnr = 0 \<or> 2 ^ 64 \<le> address + maxnr * unat esz
     then init_heap esz nr maxnr address mem (Some f) st = Some (Inl EINVAL)
     else \<exists>h. init_heap esz nr maxnr address mem (Some f) st = Some (Inr h) \<and>
       heap_for f st esz h \<and> invariant_heap h = Some (Inr ()) \<and> nrofelem h = nr \<and> maxnrofelem h = maxnr \<and>
       mset (queued h) = mset (queued (raw_heap esz nr maxnr mem f st)) \<and>
       drop nr (slots h) = drop nr (slots (raw_heap esz nr maxnr mem f st)))"
proof (cases "esz = 0 \<or> maxnr < nr \<or> maxnr = 0 \<or> 2 ^ 64 \<le> address + maxnr * unat esz")
  case False
  then have "0 < esz" "nr \<le> maxnr" "0 < maxnr" "address + maxnr * unat esz < 2 ^ 64"
    by (auto simp: word_neq_0_conv)
  from init_heap_ok [where f = f, OF assms(1,2) this] obtain h where h:
    "init_heap esz nr maxnr address mem (Some f) st = Some (Inr h)"
    "heap_for f st esz h" "nrofelem h = nr" "maxnrofelem h = maxnr"
    "mset (queued h) = mset (queued (raw_heap esz nr maxnr mem f st))"
    "drop nr (slots h) = drop nr (slots (raw_heap esz nr maxnr mem f st))"
    by blast
  moreover have "invariant_heap h = Some (Inr ())"
  proof -
    have "heap_inv h" using h(2) by (simp add: heap_for_def)
    moreover from this have "heap_wf h" by (simp add: heap_inv_def)
    ultimately show ?thesis using invariant_heap_decides [of h] by simp
  qed
  ultimately show ?thesis using False by (simp add: init_heap_def)
next
  case True
  have "init_heap esz nr maxnr address mem (Some f) st = Some (Inl EINVAL)"
    if valid: "0 < esz" "nr \<le> maxnr" "0 < maxnr" "maxnr \<le> (2 ^ 64 - 1) div unat esz"
  proof -
    have "maxnr * unat esz \<le> 2 ^ 64 - 1"
      using valid(1,4) by (simp add: less_eq_div_iff_mult_less_eq word_less_nat_alt)
    then have m: "maxnr * unat esz < 2 ^ 64" by simp
    moreover have "2 ^ 64 \<le> address + maxnr * unat esz" using True valid by auto
    ultimately have "wrap_size (address + maxnr * unat esz) = address + maxnr * unat esz - 2 ^ 64"
      using assms(3) by (simp add: wrap_size_def le_mod_geq)
    with m have "\<not> address < wrap_size (address + maxnr * unat esz)" by linarith
    then show ?thesis using valid m by (simp add: init_heap_def)
  qed
  then show ?thesis using True by (auto simp: init_heap_def)
qed

lemma init_heap_contract_witness:
  "\<exists>h. init_heap 8 2 3 1000 (replicate 24 7) (Some compare_long) () = Some (Inr h) \<and> invariant_heap h = Some (Inr ())"
  using init_heap_contract [where f = compare_long and st = "()", OF long.comparator_axioms, where esz = 8 and mem = "replicate 24 7" and maxnr = 3 and nr = 2
    and address = 1000]
  by auto

lemma insert_heap_result:
  assumes "comparator (f st) {e. length e = unat esz}" and "heap_for f st esz h" and "length x = unat esz"
  shows "\<exists>err h'. insert_heap h x = Some (err, h') \<and> heap_for f st esz h' \<and>
    (if nrofelem h = maxnrofelem h then err = Inl ENOMEM \<and> h' = h
     else err = Inr () \<and> mset (queued h') = add_mset x (mset (queued h)))"
proof -
  note q = heap_is_max_queue [where f = f, OF assms(1), of "replicate (unat esz) 0", simplified length_replicate, OF refl]
  have le: "nrofelem h \<le> maxnrofelem h" using assms(2) by (simp add: heap_for_def heap_inv_def heap_wf_def)
  show ?thesis
  proof (cases "nrofelem h = maxnrofelem h")
    case True
    then show ?thesis using max_queue.insert_full [OF q, of h x] assms by simp
  next
    case False
    then show ?thesis using max_queue.insert_ok [OF q, of h x] assms le by auto
  qed
qed

lemma remove_heap_result:
  assumes "comparator (f st) {e. length e = unat esz}" and "heap_for f st esz h" and "length buf = unat esz"
  shows "\<exists>err x h'. remove_heap h buf = Some (err, x, h') \<and> heap_for f st esz h' \<and>
    (if nrofelem h = 0 then err = Inl ENODATA \<and> x = buf \<and> h' = h
     else err = Inr () \<and> mset (queued h) = add_mset x (mset (queued h')) \<and> (\<forall>y \<in># mset (queued h). 0 \<le> f st x y))"
proof -
  note q = heap_is_max_queue [where f = f, OF assms(1,3)]
  have len: "length (queued h) = nrofelem h" using assms(2) by (simp add: heap_for_def heap_inv_def length_queued)
  show ?thesis
  proof (cases "nrofelem h = 0")
    case True
    then show ?thesis using assms(2) by (simp add: remove_heap_def)
  next
    case False
    then have "mset (queued h) \<noteq> {#}" using len by auto
    from max_queue.remove_ok [OF q assms(2) this] False show ?thesis by auto
  qed
qed

text \<open>C7: \<open>insert_heap\<close> refuses an element exactly when the array is full, \<open>remove_heap\<close> exactly when the queue
  is empty, and then nothing changes. Otherwise the queue gains the element, or hands out an
  element that no other exceeds, and stays an ordered queue.
\<close>

theorem heap_operations:
  assumes "comparator (f st) {e. length e = unat esz}" and "heap_for f st esz h" and "length x = unat esz"
  shows "(\<exists>err h'. insert_heap h x = Some (err, h') \<and> heap_for f st esz h' \<and>
      (if nrofelem h = maxnrofelem h then err = Inl ENOMEM \<and> h' = h
       else err = Inr () \<and> mset (queued h') = add_mset x (mset (queued h)))) \<and>
    (\<exists>err y h'. remove_heap h x = Some (err, y, h') \<and> heap_for f st esz h' \<and>
      (if nrofelem h = 0 then err = Inl ENODATA \<and> y = x \<and> h' = h
       else err = Inr () \<and> mset (queued h) = add_mset y (mset (queued h')) \<and>
         (\<forall>z \<in># mset (queued h). 0 \<le> f st y z)))"
  using insert_heap_result [where f = f, OF assms] remove_heap_result [where f = f, OF assms] by blast

lemma heap_operations_witness:
  "\<exists>err h'. insert_heap (raw_heap 8 0 1 (replicate 8 0) compare_long ()) [1, 0, 0, 0, 0, 0, 0, 0] = Some (err, h') \<and>
    heap_for compare_long () 8 h'"
proof -
  have "heap_for compare_long () 8 (raw_heap 8 0 1 (replicate 8 0) compare_long ())"
    by (simp add: heap_for_def heap_inv_def heap_wf_def raw_heap_def ordered_from_def)
  from heap_operations [where f = compare_long, OF long.comparator_axioms this, of "[1, 0, 0, 0, 0, 0, 0, 0]"]
  show ?thesis by auto
qed

text \<open>C5: Heapsort: an array turned into a queue and emptied again hands out its elements in descending
  order.
\<close>

theorem heap_sorts:
  assumes "comparator (f st) {e. length e = unat esz}" and "length mem = maxnr * unat esz"
    and "0 < esz" and "nr \<le> maxnr" and "0 < maxnr" and "address + maxnr * unat esz < 2 ^ 64"
    and "length buf = unat esz"
  shows "\<exists>h xs h'. init_heap esz nr maxnr address mem (Some f) st = Some (Inr h) \<and>
    drain (\<lambda>h. remove_heap h buf) nr h = Some (xs, h') \<and>
    mset xs = mset (queued (raw_heap esz nr maxnr mem f st)) \<and> sorted_wrt (\<lambda>x y. 0 \<le> f st x y) xs"
proof -
  obtain h where h: "init_heap esz nr maxnr address mem (Some f) st = Some (Inr h)"
    "heap_for f st esz h" "nrofelem h = nr" "mset (queued h) = mset (queued (raw_heap esz nr maxnr mem f st))"
    using init_heap_ok [where f = f, OF assms(1-6)] by blast
  have "size (mset (queued h)) = nr" using h(2,3) by (simp add: length_queued heap_for_def heap_inv_def)
  from max_queue.drain_descending [OF heap_is_max_queue [where f = f, OF assms(1,7)] h(2) this [symmetric]]
  show ?thesis using h by auto
qed

lemma heap_sorts_witness:
  "\<exists>h xs h'. init_heap 8 2 3 1000 (replicate 24 7) (Some compare_long) () = Some (Inr h) \<and>
    drain (\<lambda>h. remove_heap h (replicate 8 0)) 2 h = Some (xs, h') \<and> sorted_wrt (\<lambda>x y. long_at y \<le> long_at x) xs"
  using heap_sorts [where f = compare_long and st = "()", OF long.comparator_axioms, where esz = 8 and mem = "replicate 24 7"
      and maxnr = 3 and nr = 2 and address = 1000 and buf = "replicate 8 0"]
  by (fastforce simp: compare_long_geq)

end
