(* ===== verification/Ds_Mergesort_Search.thy ===== *)
theory Ds_Mergesort_Search
  imports Prelude "HOL-Library.Monad_Syntax"
begin

text \<open>
  The four searches of C-kern/ds/sort/mergesort_generic_impl.h in a sorted slice: two from its
  first element upwards and two from its last element downwards, each for the first element that is
  not less than (or greater than) a key. All of them double an index until an element stops them
  and then search in the interval that is left.

  A slice is given by the array it is part of, the index \<open>a\<close> of its first element and the number
  \<open>n\<close> of its elements; \<open>hit\<close> is the comparison with the key that stops a search. Byte offsets
  \<open>off = idx * ELEMSIZE\<close> are element offsets here. \<open>ELEM\<close> is the element itself: a comparison
  function is applied to the objects that the pointers it gets stand for.
\<close>

section \<open>The model\<close>

partial_function (option) search_double ::
  "('a \<Rightarrow> bool) \<Rightarrow> 'a list \<Rightarrow> nat \<Rightarrow> nat \<Rightarrow> nat \<Rightarrow> nat \<Rightarrow> (nat \<times> nat) option" where
  "search_double hit arr a n n_2 idx =
     (if idx \<le> n_2 then do {
        x \<leftarrow> at arr (a + idx);
        if hit x then Some (idx div 2, idx)
        else search_double hit arr a n n_2 (wrap_size (2 * idx)) }
      else Some (idx div 2, n))"

partial_function (option) search_binary ::
  "('a \<Rightarrow> bool) \<Rightarrow> 'a list \<Rightarrow> nat \<Rightarrow> nat \<Rightarrow> nat \<Rightarrow> nat option" where
  "search_binary hit arr a lastidx idx =
     (if lastidx < idx then do {
        let mid = lastidx + (idx - lastidx) div 2;
        x \<leftarrow> at arr (a + mid);
        if hit x then search_binary hit arr a lastidx mid
        else search_binary hit arr a (mid + 1) idx }
      else Some idx)"

definition search_up :: "('a \<Rightarrow> bool) \<Rightarrow> 'a list \<Rightarrow> nat \<Rightarrow> nat \<Rightarrow> nat option" where
  "search_up hit arr a n = do {
     x \<leftarrow> at arr a;
     if hit x then Some 0
     else do {
       (lastidx, idx) \<leftarrow> search_double hit arr a n (n div 2) 1;
       search_binary hit arr a (lastidx + 1) idx } }"

definition search_greatequal :: "('a \<Rightarrow> 'a \<Rightarrow> int) \<Rightarrow> 'a \<Rightarrow> nat \<Rightarrow> 'a list \<Rightarrow> nat \<Rightarrow> nat option" where
  "search_greatequal cmp key n arr a = search_up (\<lambda>x. 0 \<le> cmp x key) arr a n"

definition search_greater :: "('a \<Rightarrow> 'a \<Rightarrow> int) \<Rightarrow> 'a \<Rightarrow> nat \<Rightarrow> 'a list \<Rightarrow> nat \<Rightarrow> nat option" where
  "search_greater cmp key n arr a = search_up (\<lambda>x. 0 < cmp x key) arr a n"

text \<open>The searches from the end \<open>a + n\<close> of the slice.\<close>

partial_function (option) rsearch_double ::
  "('a \<Rightarrow> bool) \<Rightarrow> 'a list \<Rightarrow> nat \<Rightarrow> nat \<Rightarrow> nat \<Rightarrow> nat \<Rightarrow> (nat \<times> nat) option" where
  "rsearch_double hit arr enda n n_2 idx =
     (if idx \<le> n_2 then do {
        x \<leftarrow> at_int arr (int enda - int idx);
        if hit x then Some (idx div 2, idx)
        else rsearch_double hit arr enda n n_2 (wrap_size (2 * idx)) }
      else Some (idx div 2, wrap_size (n + 1)))"

partial_function (option) rsearch_binary ::
  "('a \<Rightarrow> bool) \<Rightarrow> 'a list \<Rightarrow> nat \<Rightarrow> nat \<Rightarrow> nat \<Rightarrow> nat option" where
  "rsearch_binary hit arr enda lastidx idx =
     (if lastidx < idx then do {
        let mid = lastidx + (idx - lastidx + 1) div 2;
        x \<leftarrow> at_int arr (int enda - int mid);
        if hit x then rsearch_binary hit arr enda lastidx (mid - 1)
        else rsearch_binary hit arr enda mid idx }
      else Some idx)"

definition search_down :: "('a \<Rightarrow> bool) \<Rightarrow> 'a list \<Rightarrow> nat \<Rightarrow> nat \<Rightarrow> nat option" where
  "search_down hit arr a n = do {
     let enda = a + n;
     x \<leftarrow> at_int arr (int enda - 1);
     if hit x then Some 0
     else do {
       (lastidx, idx) \<leftarrow> rsearch_double hit arr enda n (n div 2) 2;
       rsearch_binary hit arr enda lastidx (sub_size idx 1) } }"

definition rsearch_greatequal :: "('a \<Rightarrow> 'a \<Rightarrow> int) \<Rightarrow> 'a \<Rightarrow> nat \<Rightarrow> 'a list \<Rightarrow> nat \<Rightarrow> nat option" where
  "rsearch_greatequal cmp key n arr a = search_down (\<lambda>x. cmp x key < 0) arr a n"

definition rsearch_greater :: "('a \<Rightarrow> 'a \<Rightarrow> int) \<Rightarrow> 'a \<Rightarrow> nat \<Rightarrow> 'a list \<Rightarrow> nat \<Rightarrow> nat option" where
  "rsearch_greater cmp key n arr a = search_down (\<lambda>x. cmp x key \<le> 0) arr a n"

declare search_double.simps [code] search_binary.simps [code]
declare rsearch_double.simps [code] rsearch_binary.simps [code]

section \<open>What the searches find\<close>

text \<open>
  A search returns the number of elements in front of the first \<open>hit\<close>. Whatever \<open>hit\<close> is, it ends
  with a number of at most \<open>n\<close> and without an access outside the slice.
\<close>

definition until :: "('a \<Rightarrow> bool) \<Rightarrow> 'a list \<Rightarrow> nat" where
  "until hit xs = length (takeWhile (\<lambda>x. \<not> hit x) xs)"

definition upward :: "('a \<Rightarrow> bool) \<Rightarrow> 'a list \<Rightarrow> bool" where
  "upward hit xs \<longleftrightarrow> sorted_wrt (\<lambda>x y. hit x \<longrightarrow> hit y) xs"

lemma until_le: "until hit xs \<le> length xs"
  by (simp add: until_def length_takeWhile_le)

lemma untilI:
  assumes "upward hit xs" and "k \<le> length xs"
    and "0 < k \<Longrightarrow> \<not> hit (xs ! (k - 1))" and "k < length xs \<Longrightarrow> hit (xs ! k)"
  shows "until hit xs = k"
proof -
  have below: "\<not> hit (xs ! i)" if "i < k" for i
  proof (cases "i = k - 1")
    case False
    with that have "i < k - 1" "k - 1 < length xs" using assms(2) by auto
    then show ?thesis using assms(1,3) that by (auto simp: upward_def sorted_wrt_iff_nth_less)
  qed (use assms(3) that in auto)
  have "takeWhile (\<lambda>x. \<not> hit x) xs = take k xs"
    using assms(2,4) below by (intro takeWhile_eq_take_P_nth) auto
  then show ?thesis using assms(2) by (simp add: until_def)
qed

lemma nth_slice: "i < n \<Longrightarrow> take n (drop a arr) ! i = arr ! (a + i)" if "a + n \<le> length arr"
  using that by simp

lemma search_binary_ends:
  assumes "a + n \<le> length arr" and "l \<le> i" and "i \<le> n"
    and "0 < l \<Longrightarrow> \<not> hit (arr ! (a + (l - 1)))" and "i < n \<Longrightarrow> hit (arr ! (a + i))"
  shows "\<exists>k \<le> n. search_binary hit arr a l i = Some k \<and> l \<le> k \<and>
           (0 < k \<longrightarrow> \<not> hit (arr ! (a + (k - 1)))) \<and> (k < n \<longrightarrow> hit (arr ! (a + k)))"
  using assms(2-)
proof (induction "i - l" arbitrary: l i rule: less_induct)
  case less
  show ?case
  proof (cases "l < i")
    case False
    with less.prems show ?thesis by (intro exI [of _ i]) (auto simp: search_binary.simps)
  next
    case True
    define m where "m = l + (i - l) div 2"
    have m: "l \<le> m" "m < i" using True by (auto simp: m_def)
    then have am: "a + m < length arr" using less.prems assms(1) by simp
    show ?thesis
    proof (cases "hit (arr ! (a + m))")
      case hit: True
      have "search_binary hit arr a l i = search_binary hit arr a l m"
        using True am hit by (subst search_binary.simps) (simp add: Let_def m_def)
      then show ?thesis using less.hyps [of m l] less.prems m hit by auto
    next
      case hit: False
      have "search_binary hit arr a l i = search_binary hit arr a (m + 1) i"
        using True am hit by (subst search_binary.simps) (simp add: Let_def m_def)
      then show ?thesis using less.hyps [of i "m + 1"] less.prems m hit by fastforce
    qed
  qed
qed

lemma search_double_ends:
  assumes "a + n \<le> length arr" and "n < 2 ^ 64" and "0 < idx" and "idx div 2 < n"
    and "\<not> hit (arr ! (a + idx div 2))"
  shows "\<exists>l i. search_double hit arr a n (n div 2) idx = Some (l, i) \<and> l < i \<and> i \<le> n \<and>
           \<not> hit (arr ! (a + l)) \<and> (i < n \<longrightarrow> hit (arr ! (a + i)))"
  using assms(3-)
proof (induction "n - idx" arbitrary: idx rule: less_induct)
  case less
  show ?case
  proof (cases "idx \<le> n div 2")
    case False
    with less.prems show ?thesis by (simp add: search_double.simps)
  next
    case True
    then have am: "a + idx < length arr" "idx < n" using less.prems assms(1) by auto
    show ?thesis
    proof (cases "hit (arr ! (a + idx))")
      case hit: True
      then show ?thesis using True am less.prems by (simp add: search_double.simps)
    next
      case hit: False
      have "search_double hit arr a n (n div 2) idx = search_double hit arr a n (n div 2) (2 * idx)"
        using True am hit assms(2) by (subst search_double.simps) simp
      then show ?thesis using less.hyps [of "2 * idx"] less.prems am hit by simp
    qed
  qed
qed

lemma search_up_finds:
  assumes "1 \<le> n" and "a + n \<le> length arr" and "n < 2 ^ 64"
  shows "\<exists>k \<le> n. search_up hit arr a n = Some k \<and>
           (upward hit (take n (drop a arr)) \<longrightarrow> k = until hit (take n (drop a arr)))"
proof (cases "hit (arr ! a)")
  case True
  have "k = 0 \<Longrightarrow> upward hit (take n (drop a arr)) \<Longrightarrow> until hit (take n (drop a arr)) = k" for k
    using True assms by (intro untilI) (auto simp: nth_slice)
  then show ?thesis using True assms by (intro exI [of _ 0]) (auto simp: search_up_def)
next
  case False
  obtain l i where 1: "search_double hit arr a n (n div 2) 1 = Some (l, i)" and li: "l < i" "i \<le> n"
    "\<not> hit (arr ! (a + l))" "i < n \<longrightarrow> hit (arr ! (a + i))"
    using search_double_ends [of a n arr 1 hit] assms False by auto
  obtain k where k: "k \<le> n" "search_binary hit arr a (l + 1) i = Some k" "l + 1 \<le> k"
    "0 < k \<longrightarrow> \<not> hit (arr ! (a + (k - 1)))" "k < n \<longrightarrow> hit (arr ! (a + k))"
    using search_binary_ends [of a n arr "l + 1" i hit] assms(2) li by auto
  have "search_up hit arr a n = Some k"
    using False assms 1 k(2) by (simp add: search_up_def)
  moreover have "until hit (take n (drop a arr)) = k" if "upward hit (take n (drop a arr))"
    using that k assms(2) by (intro untilI) auto
  ultimately show ?thesis using k(1) by blast
qed

section \<open>The searches from the end\<close>

lemma nth_rev_slice:
  assumes "a + n \<le> length arr" and "i < n"
  shows "rev (take n (drop a arr)) ! i = arr ! (a + n - (i + 1))"
  using assms by (simp add: rev_nth)

lemma rsearch_binary_step:
  assumes "l < i" and m: "m = l + (i - l + 1) div 2" and read: "at_int arr (int e - int m) = Some x"
  shows "rsearch_binary hit arr e l i =
           (if hit x then rsearch_binary hit arr e l (m - 1) else rsearch_binary hit arr e m i)"
  unfolding rsearch_binary.simps [of hit arr e l i] Let_def m [symmetric] read using assms(1) by simp

lemma rsearch_binary_ends:
  assumes "e \<le> length arr" and "n \<le> e" and "l \<le> i" and "i \<le> n"
    and "0 < l \<Longrightarrow> \<not> hit (arr ! (e - l))" and "i < n \<Longrightarrow> hit (arr ! (e - (i + 1)))"
  shows "\<exists>k \<le> n. rsearch_binary hit arr e l i = Some k \<and>
           (0 < k \<longrightarrow> \<not> hit (arr ! (e - k))) \<and> (k < n \<longrightarrow> hit (arr ! (e - (k + 1))))"
  using assms(3-)
proof (induction "i - l" arbitrary: l i rule: less_induct)
  case less
  show ?case
  proof (cases "l < i")
    case False
    with less.prems show ?thesis by (intro exI [of _ i]) (auto simp: rsearch_binary.simps)
  next
    case True
    define m where "m = l + (i - l + 1) div 2"
    have m: "l < m" "m \<le> i" using True by (auto simp: m_def)
    then have em: "m \<le> e" "e - m < length arr" using less.prems assms(1,2) by auto
    have read: "at_int arr (int e - int m) = Some (arr ! (e - m))" using em by simp
    show ?thesis
    proof (cases "hit (arr ! (e - m))")
      case hit: True
      have "rsearch_binary hit arr e l i = rsearch_binary hit arr e l (m - 1)"
        using rsearch_binary_step [OF True m_def read] hit by simp
      then show ?thesis using less.hyps [of "m - 1" l] less.prems m hit by auto
    next
      case hit: False
      have "rsearch_binary hit arr e l i = rsearch_binary hit arr e m i"
        using rsearch_binary_step [OF True m_def read] hit by simp
      then show ?thesis using less.hyps [of i m] less.prems m hit by auto
    qed
  qed
qed

lemma rsearch_double_ends:
  assumes "e \<le> length arr" and "n \<le> e" and "n < 2 ^ 64" and "0 < idx" and "0 < idx div 2" and "idx div 2 \<le> n"
    and "\<not> hit (arr ! (e - idx div 2))"
  shows "\<exists>l i. rsearch_double hit arr e n (n div 2) idx = Some (l, wrap_size (i + 1)) \<and> l \<le> i \<and> i \<le> n \<and>
           0 < l \<and> \<not> hit (arr ! (e - l)) \<and> (i < n \<longrightarrow> hit (arr ! (e - (i + 1))))"
  using assms(4-)
proof (induction "n - idx" arbitrary: idx rule: less_induct)
  case less
  show ?case
  proof (cases "idx \<le> n div 2")
    case False
    with less.prems show ?thesis by (intro exI [of _ "idx div 2"] exI [of _ n]) (simp add: rsearch_double.simps)
  next
    case True
    then have em: "idx \<le> e" "e - idx < length arr" "idx < n" using less.prems assms(1,2) by auto
    have read: "at_int arr (int e - int idx) = Some (arr ! (e - idx))" using em by simp
    show ?thesis
    proof (cases "hit (arr ! (e - idx))")
      case hit: True
      have "rsearch_double hit arr e n (n div 2) idx = Some (idx div 2, wrap_size (idx - 1 + 1))"
        using True read hit less.prems(1) em assms(3) by (simp add: rsearch_double.simps)
      moreover have "idx div 2 \<le> idx - 1" "idx - 1 \<le> n" "hit (arr ! (e - (idx - 1 + 1)))"
        using less.prems(1) em hit by auto
      ultimately show ?thesis using less.prems by blast
    next
      case hit: False
      have "rsearch_double hit arr e n (n div 2) idx = rsearch_double hit arr e n (n div 2) (2 * idx)"
        using True read em hit assms(3) by (subst rsearch_double.simps) simp
      then show ?thesis using less.hyps [of "2 * idx"] less.prems em hit by simp
    qed
  qed
qed

lemma sub_size_wrap_Suc: "i < 2 ^ 64 \<Longrightarrow> sub_size (wrap_size (Suc i)) (Suc 0) = i"
  by (simp add: sub_size_def wrap_size_def mod_simps)

lemma search_down_finds:
  assumes "1 \<le> n" and "a + n \<le> length arr" and "n < 2 ^ 64"
  shows "\<exists>k \<le> n. search_down hit arr a n = Some k \<and>
           (upward hit (rev (take n (drop a arr))) \<longrightarrow> k = until hit (rev (take n (drop a arr))))"
proof -
  have read: "at_int arr (int (a + n) - 1) = Some (arr ! (a + n - 1))"
    using at_int_sub [of 1 "a + n" arr] assms by simp
  show ?thesis
  proof (cases "hit (arr ! (a + n - 1))")
    case True
    have "until hit (rev (take n (drop a arr))) = 0" if "upward hit (rev (take n (drop a arr)))"
      using that True assms by (intro untilI) (auto simp: nth_rev_slice)
    then show ?thesis using True read by (intro exI [of _ 0]) (auto simp: search_down_def Let_def)
  next
    case False
    obtain l i where 1: "rsearch_double hit arr (a + n) n (n div 2) 2 = Some (l, wrap_size (i + 1))"
      and li: "l \<le> i" "i \<le> n" "0 < l" "\<not> hit (arr ! (a + n - l))" "i < n \<longrightarrow> hit (arr ! (a + n - (i + 1)))"
      using rsearch_double_ends [of "a + n" arr n 2 hit] assms False by auto
    obtain k where k: "k \<le> n" "rsearch_binary hit arr (a + n) l i = Some k"
      "0 < k \<longrightarrow> \<not> hit (arr ! (a + n - k))" "k < n \<longrightarrow> hit (arr ! (a + n - (k + 1)))"
      using rsearch_binary_ends [of "a + n" arr n l i hit] assms(2) li by auto
    have "search_down hit arr a n = Some k"
      using False read 1 k(2) li assms(3) by (simp add: search_down_def Let_def sub_size_wrap_Suc del: of_nat_add)
    moreover have "until hit (rev (take n (drop a arr))) = k" if "upward hit (rev (take n (drop a arr)))"
      using that k assms(2) by (intro untilI) (auto simp: nth_rev_slice)
    ultimately show ?thesis using k(1) by blast
  qed
qed

end
