(* ===== verification/Mem_Vmpage.thy ===== *)
theory Mem_Vmpage
  imports Int_Bits
begin

text \<open>
  Mapped memory pages: \<open>vmpage_t\<close> of api/memory/vm.h and its operations in
  platform/Linux/vm.c. The system calls are a parameter: \<open>'v\<close> is the address space of the process
  as the kernel keeps it, and a call returns an error code or a value, and the address space after
  it.
\<close>

section \<open>The model\<close>

record vmpage_t =
  vm_addr :: u64
  vm_size :: u64

definition vmpage_FREE :: vmpage_t where
  "vmpage_FREE = \<lparr>vm_addr = 0, vm_size = 0\<rparr>"

definition isfree_vmpage :: "vmpage_t \<Rightarrow> bool" where
  "isfree_vmpage vmpage \<longleftrightarrow> vm_addr vmpage = 0 \<and> vm_size vmpage = 0"

text \<open>
  \<open>mmap (0, size, prot, flags, -1, 0)\<close>, \<open>munmap\<close>, \<open>mprotect\<close> and \<open>mremap\<close>; of the flags only
  \<open>MAP_SHARED\<close> and \<open>MREMAP_MAYMOVE\<close> vary.
\<close>

record 'v sys_t =
  pagesize_vm :: u64
  sys_mmap :: "u64 \<Rightarrow> u8 \<Rightarrow> bool \<Rightarrow> 'v \<Rightarrow> u64 cres \<times> 'v"
  sys_munmap :: "u64 \<Rightarrow> u64 \<Rightarrow> 'v \<Rightarrow> unit cres \<times> 'v"
  sys_mprotect :: "u64 \<Rightarrow> u64 \<Rightarrow> u8 \<Rightarrow> 'v \<Rightarrow> unit cres \<times> 'v"
  sys_mremap :: "u64 \<Rightarrow> u64 \<Rightarrow> u64 \<Rightarrow> bool \<Rightarrow> 'v \<Rightarrow> u64 cres \<times> 'v"

text \<open>\<open>accessmode_e\<close>, whose first three bits are those of \<open>PROT_READ\<close>, \<open>PROT_WRITE\<close>, \<open>PROT_EXEC\<close>.\<close>

definition accessmode_RDWR :: u8 where "accessmode_RDWR = 3"
definition accessmode_EXEC :: u8 where "accessmode_EXEC = 4"
definition accessmode_PRIVATE :: u8 where "accessmode_PRIVATE = 8"
definition accessmode_SHARED :: u8 where "accessmode_SHARED = 16"

definition SET_PROT :: "u8 \<Rightarrow> u8" where
  "SET_PROT access_mode = access_mode AND (accessmode_RDWR OR accessmode_EXEC)"

definition page_aligned :: "u64 \<Rightarrow> u64 \<Rightarrow> u64" where
  "page_aligned pgsize size_in_bytes = (size_in_bytes + (pgsize - 1)) AND NOT (pgsize - 1)"

definition init2_vmpage :: "'v sys_t \<Rightarrow> u64 \<Rightarrow> u8 \<Rightarrow> 'v \<Rightarrow> vmpage_t cres \<times> 'v" where
  "init2_vmpage sys size_in_bytes access_mode v =
     (let aligned_size = page_aligned (pagesize_vm sys) size_in_bytes
      in if access_mode AND NOT (accessmode_RDWR OR accessmode_EXEC OR accessmode_PRIVATE OR accessmode_SHARED) \<noteq> 0
         then (Inl EINVAL, v)
         else if \<not> 0 < size_in_bytes then (Inl EINVAL, v)
         else if \<not> size_in_bytes \<le> aligned_size then (Inl EINVAL, v)
         else case sys_mmap sys aligned_size (SET_PROT access_mode) (access_mode AND accessmode_SHARED \<noteq> 0) v of
             (Inl err, v) \<Rightarrow> (Inl err, v)
           | (Inr mapped_pages, v) \<Rightarrow> (Inr \<lparr>vm_addr = mapped_pages, vm_size = aligned_size\<rparr>, v))"

definition init_vmpage :: "'v sys_t \<Rightarrow> u64 \<Rightarrow> 'v \<Rightarrow> vmpage_t cres \<times> 'v" where
  "init_vmpage sys size_in_bytes v =
     init2_vmpage sys size_in_bytes (accessmode_RDWR OR accessmode_PRIVATE) v"

text \<open>Freeing resets the description of the page, whether or not the system call fails.\<close>

definition free_vmpage :: "'v sys_t \<Rightarrow> vmpage_t \<Rightarrow> 'v \<Rightarrow> unit cres \<times> vmpage_t \<times> 'v" where
  "free_vmpage sys vmpage v =
     (if vm_size vmpage \<noteq> 0 then
        case sys_munmap sys (vm_addr vmpage) (vm_size vmpage) v of (err, v) \<Rightarrow> (err, vmpage_FREE, v)
      else (Inr (), vmpage_FREE, v))"

section \<open>The size of a page mapping\<close>

lemma page_aligned_aligns:
  assumes "unat pgsize = 2 ^ k" and "unat n + 2 ^ k \<le> 2 ^ 64"
  shows "2 ^ k dvd unat (page_aligned pgsize n)" and "unat n \<le> unat (page_aligned pgsize n)"
    and "unat (page_aligned pgsize n) < unat n + 2 ^ k"
proof -
  have "page_aligned pgsize n = alignpower2_int n pgsize" by (simp add: page_aligned_def alignpower2_int_def Let_def)
  then show "2 ^ k dvd unat (page_aligned pgsize n)" "unat n \<le> unat (page_aligned pgsize n)"
    "unat (page_aligned pgsize n) < unat n + 2 ^ k"
    using alignpower2_int_aligns [of pgsize k n] assms by simp_all
qed

lemma init_vmpage_size:
  assumes "init_vmpage sys n v = (Inr page, v')"
  shows "n \<le> vm_size page"
  using assms by (auto simp: init_vmpage_def init2_vmpage_def Let_def split: if_splits prod.splits sum.splits)

end
