(* ===== verification/Ds_Mergesort_Merge.thy ===== *)
theory Ds_Mergesort_Merge
  imports Ds_Mergesort_Search Mem_Vmpage
begin

text \<open>
  The state of the mergesort of C-kern/ds/sort/mergesort.c, its temporary memory, and the two merge
  routines of mergesort_generic_impl.h. A merge copies the shorter slice into the temporary memory
  and then fills the gap this leaves in the array from one of its ends.

  The array is the list of its elements, and pointers into it are indices. A comparison function
  together with its \<open>cmpstate\<close> is a function on elements, and the C variable \<open>sort\<close> is \<open>ms\<close> here. An access outside the array or the
  temporary memory, and a loop that does not end, is the result \<open>None\<close>.
\<close>

section \<open>The state\<close>

text \<open>The value of \<open>sort->temp\<close>: 0, the address of \<open>sort->tempmem\<close>, or that of mapped memory.\<close>

datatype temp_t = Null | Tempmem | Mapped u64

record sortedslice_t =
  slice_base :: nat
  slice_len :: nat

record 'a mergesort_t =
  ms_compare :: "('a \<Rightarrow> 'a \<Rightarrow> int) option"
  ms_elemsize :: u8
  ms_temp :: temp_t
  ms_tempsize :: nat
  ms_stack :: "sortedslice_t list"
  ms_stacksize :: nat

definition MIN_BLK_LEN :: nat where "MIN_BLK_LEN = 7"

definition tempmem_size :: nat where "tempmem_size = 256 * 8"

section \<open>The temporary memory\<close>

text \<open>
  \<open>alloctemp_mergesort\<close> releases what was mapped before, and maps \<open>tempsize\<close> bytes unless this
  is 0. The result carries the state of the sort, which changes also when a call fails.
\<close>

definition release_temp :: "'v sys_t \<Rightarrow> 'a mergesort_t \<Rightarrow> 'v \<Rightarrow> unit cres \<times> 'a mergesort_t \<times> 'v" where
  "release_temp sys ms v =
     (let reset = ms\<lparr>ms_temp := Tempmem, ms_tempsize := tempmem_size\<rparr>;
          free = (\<lambda>a. case free_vmpage sys \<lparr>vm_addr = a, vm_size = of_nat (ms_tempsize ms)\<rparr> v of
                       (err, _, v) \<Rightarrow> (err, reset, v))
      in case ms_temp ms of
           Tempmem \<Rightarrow> (Inr (), ms, v)
         | Null \<Rightarrow> free 0
         | Mapped a \<Rightarrow> free a)"

definition alloctemp_mergesort ::
  "'v sys_t \<Rightarrow> 'a mergesort_t \<Rightarrow> nat \<Rightarrow> 'v \<Rightarrow> unit cres \<times> 'a mergesort_t \<times> 'v" where
  "alloctemp_mergesort sys ms tempsize v =
     (case release_temp sys ms v of
        (Inl err, ms, v) \<Rightarrow> (Inl err, ms, v)
      | (Inr _, ms, v) \<Rightarrow>
          if tempsize \<noteq> 0 then
            case init_vmpage sys (of_nat tempsize) v of
              (Inl err, v) \<Rightarrow> (Inl err, ms, v)
            | (Inr mblock, v) \<Rightarrow>
                (Inr (), ms\<lparr>ms_temp := Mapped (vm_addr mblock), ms_tempsize := unat (vm_size mblock)\<rparr>, v)
          else (Inr (), ms, v))"

definition ensuretempsize ::
  "'v sys_t \<Rightarrow> 'a mergesort_t \<Rightarrow> nat \<Rightarrow> 'v \<Rightarrow> unit cres \<times> 'a mergesort_t \<times> 'v" where
  "ensuretempsize sys ms tempsize v =
     (if tempsize \<le> ms_tempsize ms then (Inr (), ms, v)
      else alloctemp_mergesort sys ms tempsize v)"

section \<open>Copying elements\<close>

text \<open>The loop of \<open>COPYINCR\<close> and \<open>COPYDECR\<close>, which runs its body before it counts down.\<close>

primrec copy_loop :: "('s \<Rightarrow> 's option) \<Rightarrow> nat \<Rightarrow> 's \<Rightarrow> 's option" where
  "copy_loop f 0 s = None"
| "copy_loop f (Suc n) s = do { s \<leftarrow> f s; if n = 0 then Some s else copy_loop f n s }"

text \<open>Here \<open>G out bs s\<close> says that \<open>out\<close> has been moved and that the elements \<open>bs\<close> are next.\<close>

lemma copy_loop_moves:
  assumes step: "\<And>out b bs s. G out (b # bs) s \<Longrightarrow> \<exists>s'. f s = Some s' \<and> G (out @ [b]) bs s'"
  shows "G out bs s \<Longrightarrow> bs \<noteq> [] \<Longrightarrow> \<exists>s'. copy_loop f (length bs) s = Some s' \<and> G (out @ bs) [] s'"
proof (induction bs arbitrary: out s)
  case (Cons b bs)
  obtain s1 where s1: "f s = Some s1" "G (out @ [b]) bs s1" using step [OF Cons.prems(1)] by blast
  show ?case
  proof (cases "bs = []")
    case True
    then show ?thesis using s1 by simp
  next
    case False
    then show ?thesis using Cons.IH [OF s1(2) False] s1(1) by simp
  qed
qed simp

definition read_block :: "'a list \<Rightarrow> nat \<Rightarrow> nat \<Rightarrow> 'a list option" where
  "read_block xs a n = (if a + n \<le> length xs then Some (take n (drop a xs)) else None)"

definition write_block :: "'a list \<Rightarrow> nat \<Rightarrow> 'a list \<Rightarrow> 'a list option" where
  "write_block xs a src = (if a + length src \<le> length xs then Some (blit a src xs) else None)"

text \<open>
  The local variables of a merge, with the array and the temporary memory. \<open>merge_adjacent_slices\<close>
  moves \<open>left\<close> in the temporary memory and \<open>right\<close> in the array; \<open>rmerge_adjacent_slices\<close> moves
  \<open>lend\<close> in the array and \<open>rend\<close> in the temporary memory.
\<close>

record 'a merge_t =
  m_arr :: "'a list"
  m_temp :: "'a list"
  m_dest :: nat
  m_left :: nat
  m_llen :: nat
  m_right :: nat
  m_rlen :: nat
  m_minblklen :: nat

definition copyincr_left :: "'a merge_t \<Rightarrow> 'a merge_t option" where
  "copyincr_left s = do {
     x \<leftarrow> at (m_temp s) (m_left s);
     arr \<leftarrow> put_at (m_arr s) (m_dest s) x;
     Some (s\<lparr>m_arr := arr, m_dest := m_dest s + 1, m_left := m_left s + 1\<rparr>) }"

definition copyincr_right :: "'a merge_t \<Rightarrow> 'a merge_t option" where
  "copyincr_right s = do {
     x \<leftarrow> at (m_arr s) (m_right s);
     arr \<leftarrow> put_at (m_arr s) (m_dest s) x;
     Some (s\<lparr>m_arr := arr, m_dest := m_dest s + 1, m_right := m_right s + 1\<rparr>) }"

definition copydecr_lend :: "'a merge_t \<Rightarrow> 'a merge_t option" where
  "copydecr_lend s =
     (case (m_dest s, m_left s) of
        (Suc d, Suc l) \<Rightarrow> do {
          x \<leftarrow> at (m_arr s) l;
          arr \<leftarrow> put_at (m_arr s) d x;
          Some (s\<lparr>m_arr := arr, m_dest := d, m_left := l\<rparr>) }
      | _ \<Rightarrow> None)"

definition copydecr_rend :: "'a merge_t \<Rightarrow> 'a merge_t option" where
  "copydecr_rend s =
     (case (m_dest s, m_right s) of
        (Suc d, Suc r) \<Rightarrow> do {
          x \<leftarrow> at (m_temp s) r;
          arr \<leftarrow> put_at (m_arr s) d x;
          Some (s\<lparr>m_arr := arr, m_dest := d, m_right := r\<rparr>) }
      | _ \<Rightarrow> None)"

text \<open>\<open>COPYINCR (dest, left, n); llen -= n\<close> and the other three of this kind.\<close>

definition move_left :: "nat \<Rightarrow> 'a merge_t \<Rightarrow> 'a merge_t option" where
  "move_left n s = do {
     s \<leftarrow> copy_loop copyincr_left n s;
     Some (s\<lparr>m_llen := sub_size (m_llen s) n\<rparr>) }"

definition move_right :: "nat \<Rightarrow> 'a merge_t \<Rightarrow> 'a merge_t option" where
  "move_right n s = do {
     s \<leftarrow> copy_loop copyincr_right n s;
     Some (s\<lparr>m_rlen := sub_size (m_rlen s) n\<rparr>) }"

definition move_lend :: "nat \<Rightarrow> 'a merge_t \<Rightarrow> 'a merge_t option" where
  "move_lend n s = do {
     s \<leftarrow> copy_loop copydecr_lend n s;
     Some (s\<lparr>m_llen := sub_size (m_llen s) n\<rparr>) }"

definition move_rend :: "nat \<Rightarrow> 'a merge_t \<Rightarrow> 'a merge_t option" where
  "move_rend n s = do {
     s \<leftarrow> copy_loop copydecr_rend n s;
     Some (s\<lparr>m_rlen := sub_size (m_rlen s) n\<rparr>) }"

section \<open>Merging upwards\<close>

text \<open>
  The result of a loop is true when it has left for the label \<open>DONE\<close>, because one of the slices is
  used up.
\<close>

partial_function (option) merge_single ::
  "('a \<Rightarrow> 'a \<Rightarrow> int) \<Rightarrow> nat \<Rightarrow> nat \<Rightarrow> 'a merge_t \<Rightarrow> (bool \<times> 'a merge_t) option" where
  "merge_single cmp lblklen rblklen s = do {
     r \<leftarrow> at (m_arr s) (m_right s);
     l \<leftarrow> at (m_temp s) (m_left s);
     if cmp r l < 0 then do {
       s \<leftarrow> move_right 1 s;
       if m_rlen s = 0 then Some (True, s)
       else if m_minblklen s \<le> rblklen + 1 then Some (False, s)
       else merge_single cmp 0 (rblklen + 1) s }
     else do {
       s \<leftarrow> move_left 1 s;
       if m_llen s = 0 then Some (True, s)
       else if m_minblklen s \<le> lblklen + 1 then Some (False, s)
       else merge_single cmp (lblklen + 1) 0 s } }"

text \<open>
  The barrier \<open>minblklen\<close> of the block mode is lowered in every round:
  \<open>minblklen -= (MIN_BLK_LEN != 1)\<close>.
\<close>

partial_function (option) merge_blocks ::
  "('a \<Rightarrow> 'a \<Rightarrow> int) \<Rightarrow> 'a merge_t \<Rightarrow> (bool \<times> 'a merge_t) option" where
  "merge_blocks cmp s = do {
     let s = s\<lparr>m_minblklen := sub_size (m_minblklen s) (if MIN_BLK_LEN \<noteq> 1 then 1 else 0)\<rparr>;
     r \<leftarrow> at (m_arr s) (m_right s);
     lblklen \<leftarrow> search_greater cmp r (m_llen s) (m_temp s) (m_left s);
     s \<leftarrow> (if lblklen \<noteq> 0 then move_left lblklen s else Some s);
     if lblklen \<noteq> 0 \<and> m_llen s = 0 then Some (True, s) else do {
     s \<leftarrow> move_right 1 s;
     if m_rlen s = 0 then Some (True, s) else do {
     l \<leftarrow> at (m_temp s) (m_left s);
     rblklen \<leftarrow> search_greatequal cmp l (m_rlen s) (m_arr s) (m_right s);
     s \<leftarrow> (if rblklen \<noteq> 0 then move_right rblklen s else Some s);
     if rblklen \<noteq> 0 \<and> m_rlen s = 0 then Some (True, s) else do {
     s \<leftarrow> move_left 1 s;
     if m_llen s = 0 then Some (True, s)
     else if MIN_BLK_LEN \<le> lblklen \<or> MIN_BLK_LEN \<le> rblklen then merge_blocks cmp s
     else Some (False, s) } } } }"

partial_function (option) merge_loop :: "('a \<Rightarrow> 'a \<Rightarrow> int) \<Rightarrow> 'a merge_t \<Rightarrow> 'a merge_t option" where
  "merge_loop cmp s = do {
     (over, s) \<leftarrow> merge_single cmp 0 0 s;
     if over then Some s else do {
     (over, s) \<leftarrow> merge_blocks cmp s;
     if over then Some s
     else merge_loop cmp (s\<lparr>m_minblklen := wrap_size (m_minblklen s + 2)\<rparr>) } }"

definition merge_adjacent_slices ::
  "'v sys_t \<Rightarrow> 'a mergesort_t \<Rightarrow> 'a list \<Rightarrow> 'v \<Rightarrow> nat \<Rightarrow> nat \<Rightarrow> nat \<Rightarrow> nat
     \<Rightarrow> (unit cres \<times> 'a mergesort_t \<times> 'a list \<times> 'v) option" where
  "merge_adjacent_slices sys ms arr v left llen right rlen = do {
     cmp \<leftarrow> ms_compare ms;
     key \<leftarrow> at arr right;
     lblklen \<leftarrow> search_greater cmp key llen arr left;
     let left = left + lblklen;
     let llen = sub_size llen lblklen;
     if llen = 0 then Some (Inr (), ms, arr, v)
     else
       let nrofbytes = wrap_size ((right - left) * unat (ms_elemsize ms))
       in case ensuretempsize sys ms nrofbytes v of
            (Inl err, ms, v) \<Rightarrow> Some (Inl err, ms, arr, v)
          | (Inr _, ms, v) \<Rightarrow>
              if ms_tempsize ms < (right - left) * unat (ms_elemsize ms) then None else do {
              temp \<leftarrow> read_block arr left (right - left);
              s \<leftarrow> move_right 1 \<lparr>m_arr = arr, m_temp = temp, m_dest = left, m_left = 0, m_llen = llen,
                     m_right = right, m_rlen = rlen, m_minblklen = 2 * MIN_BLK_LEN\<rparr>;
              s \<leftarrow> (if m_rlen s = 0 then Some s else merge_loop cmp s);
              arr \<leftarrow> (if m_llen s \<noteq> 0 then do {
                        rest \<leftarrow> read_block (m_temp s) (m_left s) (m_llen s);
                        write_block (m_arr s) (m_dest s) rest }
                      else Some (m_arr s));
              Some (Inr (), ms, arr, v) } }"

section \<open>Merging downwards\<close>

text \<open>\<open>left\<close> is the index of the first element of the left slice in the array.\<close>

partial_function (option) rmerge_single ::
  "('a \<Rightarrow> 'a \<Rightarrow> int) \<Rightarrow> nat \<Rightarrow> nat \<Rightarrow> 'a merge_t \<Rightarrow> (bool \<times> 'a merge_t) option" where
  "rmerge_single cmp lblklen rblklen s = do {
     r \<leftarrow> at_int (m_temp s) (int (m_right s) - 1);
     l \<leftarrow> at_int (m_arr s) (int (m_left s) - 1);
     if cmp r l < 0 then do {
       s \<leftarrow> move_lend 1 s;
       if m_llen s = 0 then Some (True, s)
       else if m_minblklen s \<le> lblklen + 1 then Some (False, s)
       else rmerge_single cmp (lblklen + 1) 0 s }
     else do {
       s \<leftarrow> move_rend 1 s;
       if m_rlen s = 0 then Some (True, s)
       else if m_minblklen s \<le> rblklen + 1 then Some (False, s)
       else rmerge_single cmp 0 (rblklen + 1) s } }"

partial_function (option) rmerge_blocks ::
  "('a \<Rightarrow> 'a \<Rightarrow> int) \<Rightarrow> nat \<Rightarrow> 'a merge_t \<Rightarrow> (bool \<times> 'a merge_t) option" where
  "rmerge_blocks cmp left s = do {
     let s = s\<lparr>m_minblklen := sub_size (m_minblklen s) (if m_minblklen s \<noteq> 1 then 1 else 0)\<rparr>;
     r \<leftarrow> at_int (m_temp s) (int (m_right s) - 1);
     lblklen \<leftarrow> rsearch_greater cmp r (m_llen s) (m_arr s) left;
     s \<leftarrow> (if lblklen \<noteq> 0 then move_lend lblklen s else Some s);
     if lblklen \<noteq> 0 \<and> m_llen s = 0 then Some (True, s) else do {
     s \<leftarrow> move_rend 1 s;
     if m_rlen s = 0 then Some (True, s) else do {
     l \<leftarrow> at_int (m_arr s) (int (m_left s) - 1);
     rblklen \<leftarrow> rsearch_greatequal cmp l (m_rlen s) (m_temp s) 0;
     s \<leftarrow> (if rblklen \<noteq> 0 then move_rend rblklen s else Some s);
     if rblklen \<noteq> 0 \<and> m_rlen s = 0 then Some (True, s) else do {
     s \<leftarrow> move_lend 1 s;
     if m_llen s = 0 then Some (True, s)
     else if MIN_BLK_LEN \<le> lblklen \<or> MIN_BLK_LEN \<le> rblklen then rmerge_blocks cmp left s
     else Some (False, s) } } } }"

partial_function (option) rmerge_loop :: "('a \<Rightarrow> 'a \<Rightarrow> int) \<Rightarrow> nat \<Rightarrow> 'a merge_t \<Rightarrow> 'a merge_t option" where
  "rmerge_loop cmp left s = do {
     (over, s) \<leftarrow> rmerge_single cmp 0 0 s;
     if over then Some s else do {
     (over, s) \<leftarrow> rmerge_blocks cmp left s;
     if over then Some s
     else rmerge_loop cmp left (s\<lparr>m_minblklen := wrap_size (m_minblklen s + 2)\<rparr>) } }"

definition rmerge_adjacent_slices ::
  "'v sys_t \<Rightarrow> 'a mergesort_t \<Rightarrow> 'a list \<Rightarrow> 'v \<Rightarrow> nat \<Rightarrow> nat \<Rightarrow> nat \<Rightarrow> nat
     \<Rightarrow> (unit cres \<times> 'a mergesort_t \<times> 'a list \<times> 'v) option" where
  "rmerge_adjacent_slices sys ms arr v left llen right rlen = do {
     cmp \<leftarrow> ms_compare ms;
     key \<leftarrow> at_int arr (int right - 1);
     rblklen \<leftarrow> rsearch_greatequal cmp key rlen arr right;
     let rlen = sub_size rlen rblklen;
     if rlen = 0 then Some (Inr (), ms, arr, v)
     else
       let nrofbytes = wrap_size (rlen * unat (ms_elemsize ms))
       in case ensuretempsize sys ms nrofbytes v of
            (Inl err, ms, v) \<Rightarrow> Some (Inl err, ms, arr, v)
          | (Inr _, ms, v) \<Rightarrow>
              if ms_tempsize ms < rlen * unat (ms_elemsize ms) then None else do {
              temp \<leftarrow> read_block arr right rlen;
              s \<leftarrow> move_lend 1 \<lparr>m_arr = arr, m_temp = temp, m_dest = right + rlen, m_left = right,
                     m_llen = llen, m_right = rlen, m_rlen = rlen, m_minblklen = 2 * MIN_BLK_LEN\<rparr>;
              s \<leftarrow> (if m_llen s = 0 then Some s else rmerge_loop cmp left s);
              arr \<leftarrow> (if m_rlen s \<noteq> 0 then do {
                        rest \<leftarrow> read_block (m_temp s) 0 (m_rlen s);
                        write_block (m_arr s) left rest }
                      else Some (m_arr s));
              Some (Inr (), ms, arr, v) } }"

declare merge_single.simps [code] merge_blocks.simps [code] merge_loop.simps [code]
declare rmerge_single.simps [code] rmerge_blocks.simps [code] rmerge_loop.simps [code]

end
