(* ===== verification/Ds_Stable.thy ===== *)
theory Ds_Stable
  imports Ds_Compare
begin

text \<open>
  What it means to sort stably with a comparison function in the sense of \<open>sort_compare_f\<close>
  (api/ds/sort/mergesort.h), and the four ways in which the mergesort comes to a stably sorted
  slice: merging two of them from either end, inserting one element and reversing a descending run.
\<close>

section \<open>The contract\<close>

text \<open>
  The documented meaning of the sign of a comparison: on the objects \<open>A\<close> the function decides a
  total preorder, and exchanging its arguments exchanges \<open>less\<close> and \<open>greater\<close>.
\<close>

locale sort_order = comparator +
  assumes mirror: "x \<in> A \<Longrightarrow> y \<in> A \<Longrightarrow> 0 < cmp x y \<longleftrightarrow> cmp y x < 0"

definition sorted_by :: "('a \<Rightarrow> 'a \<Rightarrow> int) \<Rightarrow> 'a list \<Rightarrow> bool" where
  "sorted_by cmp xs \<longleftrightarrow> sorted_wrt (\<lambda>x y. cmp x y \<le> 0) xs"

text \<open>\<open>stable_sorting A cmp xs ys\<close>: \<open>ys\<close> is \<open>xs\<close> sorted, with equal elements in the order they had.\<close>

definition stable_sorting :: "'a set \<Rightarrow> ('a \<Rightarrow> 'a \<Rightarrow> int) \<Rightarrow> 'a list \<Rightarrow> 'a list \<Rightarrow> bool" where
  "stable_sorting A cmp xs ys \<longleftrightarrow>
     mset ys = mset xs \<and> sorted_by cmp ys \<and>
     (\<forall>x \<in> A. filter (\<lambda>y. cmp x y = 0) ys = filter (\<lambda>y. cmp x y = 0) xs)"

text \<open>
  Merging two lists from their heads: \<open>first x y\<close> says that the head \<open>x\<close> of the first list goes
  before the head \<open>y\<close> of the second one. \<open>smerge\<close> prefers the first list among equals.
\<close>

fun weave :: "('a \<Rightarrow> 'a \<Rightarrow> bool) \<Rightarrow> 'a list \<Rightarrow> 'a list \<Rightarrow> 'a list" where
  "weave first [] ys = ys"
| "weave first (x # xs) [] = x # xs"
| "weave first (x # xs) (y # ys) =
     (if first x y then x # weave first xs (y # ys) else y # weave first (x # xs) ys)"

abbreviation smerge :: "('a \<Rightarrow> 'a \<Rightarrow> int) \<Rightarrow> 'a list \<Rightarrow> 'a list \<Rightarrow> 'a list" where
  "smerge cmp \<equiv> weave (\<lambda>t r. \<not> cmp r t < 0)"

lemma weave_nil [simp]: "weave first xs [] = xs"
  by (cases xs) simp_all

lemma mset_weave: "mset (weave first xs ys) = mset xs + mset ys"
  by (induction first xs ys rule: weave.induct) simp_all

lemma set_weave: "set (weave first xs ys) = set xs \<union> set ys"
  using mset_weave [of first xs ys] by (metis set_mset_mset set_mset_union)

lemma weave_swap: "weave (\<lambda>x y. \<not> first y x) xs ys = weave first ys xs"
  by (induction first ys xs rule: weave.induct) simp_all

text \<open>A block of elements of one list that all come before the head of the other one.\<close>

lemma weave_block_first:
  "ys \<noteq> [] \<Longrightarrow> (\<And>b. b \<in> set bs \<Longrightarrow> first b (hd ys)) \<Longrightarrow> weave first (bs @ xs) ys = bs @ weave first xs ys"
proof (induction bs)
  case (Cons b bs)
  then show ?case by (cases ys) auto
qed simp

lemma weave_block_second:
  "xs \<noteq> [] \<Longrightarrow> (\<And>b. b \<in> set bs \<Longrightarrow> \<not> first (hd xs) b) \<Longrightarrow> weave first xs (bs @ ys) = bs @ weave first xs ys"
proof (induction bs)
  case (Cons b bs)
  then show ?case by (cases xs) auto
qed simp

lemma sorted_by_append:
  "sorted_by cmp (xs @ ys) \<longleftrightarrow>
   sorted_by cmp xs \<and> sorted_by cmp ys \<and> (\<forall>x \<in> set xs. \<forall>y \<in> set ys. cmp x y \<le> 0)"
  by (auto simp: sorted_by_def sorted_wrt_append)

lemma sorted_by_Cons:
  "sorted_by cmp (x # xs) \<longleftrightarrow> sorted_by cmp xs \<and> (\<forall>y \<in> set xs. cmp x y \<le> 0)"
  by (auto simp: sorted_by_def)

lemma sorted_by_rev: "sorted_by (\<lambda>x y. cmp y x) (rev xs) \<longleftrightarrow> sorted_by cmp xs"
  by (simp add: sorted_by_def sorted_wrt_rev)

lemma sorted_by_take: "sorted_by cmp xs \<Longrightarrow> sorted_by cmp (take k xs)"
  by (simp add: sorted_by_def sorted_wrt_take)

lemma sorted_by_drop: "sorted_by cmp xs \<Longrightarrow> sorted_by cmp (drop k xs)"
  by (simp add: sorted_by_def sorted_wrt_drop)

lemma stable_sorting_mset: "stable_sorting A cmp xs ys \<Longrightarrow> mset ys = mset xs"
  by (simp add: stable_sorting_def)

lemma stable_sorting_sorted: "stable_sorting A cmp xs ys \<Longrightarrow> sorted_by cmp ys"
  by (simp add: stable_sorting_def)

lemma stable_sorting_self: "sorted_by cmp xs \<Longrightarrow> stable_sorting A cmp xs xs"
  by (simp add: stable_sorting_def)

lemma stable_sorting_append:
  assumes "stable_sorting A cmp xs xs'" and "stable_sorting A cmp ys ys'"
    and "stable_sorting A cmp (xs' @ ys') zs"
  shows "stable_sorting A cmp (xs @ ys) zs"
  using assms by (simp add: stable_sorting_def)

context sort_order begin

lemma le_mirror: "x \<in> A \<Longrightarrow> y \<in> A \<Longrightarrow> cmp x y \<le> 0 \<longleftrightarrow> 0 \<le> cmp y x"
  using mirror [of x y] by linarith

lemma eq_mirror: "x \<in> A \<Longrightarrow> y \<in> A \<Longrightarrow> cmp x y = 0 \<longleftrightarrow> cmp y x = 0"
  using mirror [of x y] mirror [of y x] by linarith

lemma le_trans:
  "x \<in> A \<Longrightarrow> y \<in> A \<Longrightarrow> z \<in> A \<Longrightarrow> cmp x y \<le> 0 \<Longrightarrow> cmp y z \<le> 0 \<Longrightarrow> cmp x z \<le> 0"
  using trans [of z y x] by (simp add: le_mirror)

lemma eq_trans:
  "x \<in> A \<Longrightarrow> y \<in> A \<Longrightarrow> z \<in> A \<Longrightarrow> cmp x y = 0 \<Longrightarrow> cmp x z = 0 \<Longrightarrow> cmp y z = 0"
  using le_trans [of y x z] le_trans [of z x y] eq_mirror [of x y] eq_mirror [of x z] le_mirror [of y z]
    mirror [of y z] mirror [of z y] by fastforce

lemma less_le_trans:
  "x \<in> A \<Longrightarrow> y \<in> A \<Longrightarrow> z \<in> A \<Longrightarrow> cmp x y < 0 \<Longrightarrow> cmp y z \<le> 0 \<Longrightarrow> cmp x z < 0"
  using le_trans [of y z x] mirror [of x y] mirror [of z x] mirror [of y x] le_mirror [of z x] by fastforce

lemma le_less_trans:
  "x \<in> A \<Longrightarrow> y \<in> A \<Longrightarrow> z \<in> A \<Longrightarrow> cmp x y \<le> 0 \<Longrightarrow> cmp y z < 0 \<Longrightarrow> cmp x z < 0"
  using le_trans [of z x y] mirror [of y z] mirror [of z y] mirror [of z x] le_mirror [of z x] by fastforce

text \<open>The order of the opposite direction.\<close>

lemma flipped: "sort_order (\<lambda>x y. cmp y x) A"
proof
  show "0 \<le> cmp x y" if "x \<in> A" "y \<in> A" "cmp y x < 0" for x y
    using that asym by blast
  show "0 \<le> cmp z x" if "x \<in> A" "y \<in> A" "z \<in> A" "0 \<le> cmp y x" "0 \<le> cmp z y" for x y z
    using that trans by blast
  show "0 < cmp y x \<longleftrightarrow> cmp x y < 0" if "x \<in> A" "y \<in> A" for x y
    using that mirror by blast
qed

lemma stable_sorting_rev:
  assumes "set xs \<subseteq> A" and "stable_sorting A (\<lambda>x y. cmp y x) (rev xs) ys"
  shows "stable_sorting A cmp xs (rev ys)"
proof -
  have m: "mset ys = mset xs" using assms(2) by (simp add: stable_sorting_def)
  then have ys: "set ys \<subseteq> A" using assms(1) by (metis mset_eq_setD)
  have "filter (\<lambda>y. cmp x y = 0) (rev ys) = filter (\<lambda>y. cmp x y = 0) xs" if "x \<in> A" for x
  proof -
    have "filter (\<lambda>y. cmp y x = 0) ys = filter (\<lambda>y. cmp y x = 0) (rev xs)"
      using assms(2) that by (simp add: stable_sorting_def)
    moreover have "filter (\<lambda>y. cmp y x = 0) zs = filter (\<lambda>y. cmp x y = 0) zs" if "set zs \<subseteq> A" for zs
      using that \<open>x \<in> A\<close> eq_mirror by (intro filter_cong) auto
    ultimately have "filter (\<lambda>y. cmp x y = 0) ys = rev (filter (\<lambda>y. cmp x y = 0) xs)"
      using ys assms(1) by (simp add: rev_filter)
    then show ?thesis by (simp add: rev_filter [symmetric])
  qed
  moreover have "sorted_by cmp (rev ys)"
    using assms(2) sorted_by_rev [of cmp "rev ys"] by (simp add: stable_sorting_def)
  ultimately show ?thesis using m by (simp add: stable_sorting_def)
qed

lemma sorted_by_smerge:
  "sorted_by cmp ts \<Longrightarrow> sorted_by cmp rs \<Longrightarrow> set ts \<subseteq> A \<Longrightarrow> set rs \<subseteq> A \<Longrightarrow> sorted_by cmp (smerge cmp ts rs)"
proof (induction ts arbitrary: rs)
  case (Cons t ts)
  note outer = Cons.IH
  show ?case
    using Cons.prems
  proof (induction rs)
    case (Cons r rs)
    note prems = Cons.prems
    show ?case
    proof (cases "cmp r t < 0")
      case True
      have "cmp r u \<le> 0" if "u \<in> set (t # ts)" for u
        using that True prems less_le_trans [of r t u] by (fastforce simp: sorted_by_Cons)
      then show ?thesis using Cons.IH prems True by (auto simp: sorted_by_Cons set_weave)
    next
      case False
      then have tr: "cmp t r \<le> 0" using le_mirror [of t r] prems by simp
      have "cmp t u \<le> 0" if "u \<in> set (r # rs)" for u
        using that tr prems le_trans [of t r u] by (fastforce simp: sorted_by_Cons)
      then show ?thesis
        using prems outer [of "r # rs"] False
        by (auto simp: sorted_by_Cons set_weave)
    qed
  qed simp
qed simp

lemma filter_smerge:
  assumes "x \<in> A"
  shows "sorted_by cmp ts \<Longrightarrow> set ts \<subseteq> A \<Longrightarrow> set rs \<subseteq> A \<Longrightarrow>
    filter (\<lambda>y. cmp x y = 0) (smerge cmp ts rs) = filter (\<lambda>y. cmp x y = 0) (ts @ rs)"
proof (induction ts arbitrary: rs)
  case (Cons t ts)
  note outer = Cons.IH
  show ?case
    using Cons.prems
  proof (induction rs)
    case (Cons r rs)
    note prems = Cons.prems
    show ?case
    proof (cases "cmp r t < 0")
      case True
      have "cmp x u \<noteq> 0" if "u \<in> set (t # ts)" "cmp x r = 0" for u
      proof -
        have "cmp r u < 0"
          using that(1) True prems less_le_trans [of r t u] by (fastforce simp: sorted_by_Cons)
        then show ?thesis using eq_trans [of x r u] that assms prems by fastforce
      qed
      then have "filter (\<lambda>y. cmp x y = 0) (t # ts) = []" if "cmp x r = 0"
        using that by (auto simp: filter_empty_conv)
      then show ?thesis using Cons.IH prems True by (auto split: if_splits)
    next
      case False
      then show ?thesis using outer [of "r # rs"] prems by (auto simp: sorted_by_Cons)
    qed
  qed simp
qed simp

lemma smerge_stable:
  assumes "sorted_by cmp ts" and "sorted_by cmp rs" and "set ts \<subseteq> A" and "set rs \<subseteq> A"
  shows "stable_sorting A cmp (ts @ rs) (smerge cmp ts rs)"
  using assms sorted_by_smerge filter_smerge by (simp add: stable_sorting_def mset_weave)

text \<open>
  The merge that starts from the end: of two slices \<open>ls @ rs\<close>, read backwards, \<open>rs\<close> is the one that
  is preferred among equals.
\<close>

lemma smerge_stable_rev:
  assumes "sorted_by cmp ls" and "sorted_by cmp rs" and "set ls \<subseteq> A" and "set rs \<subseteq> A"
  shows "stable_sorting A cmp (ls @ rs) (rev (weave (\<lambda>l r. cmp r l < 0) (rev ls) (rev rs)))"
  using sort_order.smerge_stable [OF flipped, of "rev rs" "rev ls"] assms
  by (intro stable_sorting_rev) (simp_all add: sorted_by_rev weave_swap)

lemma insert_stable:
  assumes "sorted_by cmp xs" and "set xs \<subseteq> A" and "y \<in> A" and "k \<le> length xs"
    and before: "\<And>u. u \<in> set (take k xs) \<Longrightarrow> 0 \<le> cmp y u"
    and behind: "\<And>u. u \<in> set (drop k xs) \<Longrightarrow> cmp y u < 0"
  shows "stable_sorting A cmp (xs @ [y]) (take k xs @ y # drop k xs)"
proof -
  have xs: "xs = take k xs @ drop k xs" by simp
  have A: "u \<in> A" if "u \<in> set (take k xs) \<or> u \<in> set (drop k xs)" for u
    using that assms(2) by (meson in_set_dropD in_set_takeD subsetD)
  have "sorted_by cmp (take k xs @ drop k xs)" using assms(1) by simp
  then have "sorted_by cmp (take k xs @ y # drop k xs)"
    unfolding sorted_by_append sorted_by_Cons
    using before behind A assms(3) le_mirror by (auto simp: sorted_by_Cons less_imp_le)
  moreover have "filter (\<lambda>z. cmp x z = 0) (take k xs @ y # drop k xs) = filter (\<lambda>z. cmp x z = 0) (xs @ [y])"
    if x: "x \<in> A" for x
  proof (cases "cmp x y = 0")
    case True
    have "cmp x u \<noteq> 0" if "u \<in> set (drop k xs)" for u
      using that eq_trans [of x y u] True x A assms(3) behind [of u] by fastforce
    then have e: "filter (\<lambda>z. cmp x z = 0) (drop k xs) = []" by (auto simp: filter_empty_conv)
    have "filter (\<lambda>z. cmp x z = 0) xs = filter (\<lambda>z. cmp x z = 0) (take k xs @ drop k xs)" by simp
    then show ?thesis using True e by (simp del: append_take_drop_id)
  next
    case False
    have "filter (\<lambda>z. cmp x z = 0) xs = filter (\<lambda>z. cmp x z = 0) (take k xs @ drop k xs)" by simp
    then show ?thesis using False by (simp del: append_take_drop_id)
  qed
  moreover have "mset xs = mset (take k xs) + mset (drop k xs)"
    by (metis xs mset_append)
  then have "mset (take k xs @ y # drop k xs) = mset (xs @ [y])" by simp
  ultimately show ?thesis by (simp add: stable_sorting_def)
qed

text \<open>Of a descending run no two elements are equal, so that reversing it keeps the order of equals.\<close>

lemma reverse_stable:
  assumes "sorted_wrt (\<lambda>x y. cmp y x < 0) xs" and "set xs \<subseteq> A"
  shows "stable_sorting A cmp xs (rev xs)"
proof -
  have "sorted_by cmp (rev xs)"
    using assms(1) by (auto simp: sorted_by_def sorted_wrt_rev elim: sorted_wrt_mono_rel [rotated])
  moreover have "filter (\<lambda>y. cmp x y = 0) (rev xs) = filter (\<lambda>y. cmp x y = 0) xs" if "x \<in> A" for x
    using assms
  proof (induction xs)
    case (Cons y ys)
    have "filter (\<lambda>y. cmp x y = 0) ys = []" if "cmp x y = 0"
      using Cons.prems that eq_trans [of x _ y] \<open>x \<in> A\<close> by (fastforce simp: filter_empty_conv)
    then show ?case using Cons by auto
  qed simp
  ultimately show ?thesis by (simp add: stable_sorting_def)
qed

text \<open>There is only one way to sort a list stably.\<close>

lemma same: "x \<in> A \<Longrightarrow> cmp x x = 0"
  using mirror [of x x] by linarith

lemma stable_sorting_unique:
  "sorted_by cmp ys \<Longrightarrow> sorted_by cmp zs \<Longrightarrow> mset ys = mset zs \<Longrightarrow> set ys \<subseteq> A \<Longrightarrow>
   \<forall>x \<in> A. filter (\<lambda>y. cmp x y = 0) ys = filter (\<lambda>y. cmp x y = 0) zs \<Longrightarrow> ys = zs"
proof (induction ys arbitrary: zs)
  case (Cons y ys)
  obtain z zs' where zs: "zs = z # zs'" using Cons.prems(3) by (cases zs) auto
  have sets: "set (y # ys) = set zs" using Cons.prems(3) by (rule mset_eq_setD)
  have A: "y \<in> A" "z \<in> A" using Cons.prems(4) sets zs by auto
  have yy: "cmp y y = 0" using A by (simp add: same)
  have "z \<in> set (y # ys)" "y \<in> set (z # zs')" using sets zs by (metis list.set_intros(1))+
  note mem = this
  have "cmp y z \<le> 0" using Cons.prems(1) mem(1) yy by (auto simp: sorted_by_Cons)
  moreover have "cmp z z = 0" using A by (simp add: same)
  then have "cmp z y \<le> 0" using Cons.prems(2) mem(2) zs by (auto simp: sorted_by_Cons)
  ultimately have yz: "cmp y z = 0" using le_mirror [OF A(2) A(1)] by linarith
  have "filter (\<lambda>u. cmp y u = 0) (y # ys) = filter (\<lambda>u. cmp y u = 0) zs" using Cons.prems(5) A by blast
  then have "y = z" using yy yz zs by simp
  moreover have "ys = zs'"
  proof (rule Cons.IH)
    show "\<forall>x \<in> A. filter (\<lambda>y. cmp x y = 0) ys = filter (\<lambda>y. cmp x y = 0) zs'"
    proof
      fix x
      assume "x \<in> A"
      then have "filter (\<lambda>y. cmp x y = 0) (y # ys) = filter (\<lambda>y. cmp x y = 0) zs" using Cons.prems(5) by blast
      then show "filter (\<lambda>y. cmp x y = 0) ys = filter (\<lambda>y. cmp x y = 0) zs'"
        using zs \<open>y = z\<close> by (simp split: if_splits)
    qed
  qed (use Cons.prems zs \<open>y = z\<close> in \<open>auto simp: sorted_by_Cons\<close>)
  ultimately show ?case using zs by simp
qed simp

end

section \<open>A reference sort\<close>

definition insert_by :: "('a \<Rightarrow> 'a \<Rightarrow> int) \<Rightarrow> 'a \<Rightarrow> 'a list \<Rightarrow> 'a list" where
  "insert_by cmp x ys = takeWhile (\<lambda>y. cmp y x < 0) ys @ x # dropWhile (\<lambda>y. cmp y x < 0) ys"

definition isort :: "('a \<Rightarrow> 'a \<Rightarrow> int) \<Rightarrow> 'a list \<Rightarrow> 'a list" where
  "isort cmp xs = foldr (insert_by cmp) xs []"

context sort_order begin

lemma insert_by_stable:
  assumes "sorted_by cmp ys" and "set ys \<subseteq> A" and "x \<in> A"
  shows "stable_sorting A cmp (x # ys) (insert_by cmp x ys)"
proof -
  let ?low = "takeWhile (\<lambda>y. cmp y x < 0) ys" and ?high = "dropWhile (\<lambda>y. cmp y x < 0) ys"
  have low: "cmp u x < 0" if "u \<in> set ?low" for u using that by (meson set_takeWhileD)
  have lowA: "u \<in> A" if "u \<in> set ?low" for u using that assms(2) by (meson set_takeWhileD subsetD)
  have sorted: "sorted_by cmp (?low @ ?high)" using assms(1) by simp
  note parts = sorted [unfolded sorted_by_append]
  have high: "cmp x u \<le> 0" if "u \<in> set ?high" for u
  proof -
    have "?high \<noteq> []" using that by (rule length_pos_if_in_set [THEN length_greater_0_conv [THEN iffD1]])
    then obtain h hs where h: "?high = h # hs" by (meson neq_Nil_conv)
    have "\<not> cmp (hd ?high) x < 0" using \<open>?high \<noteq> []\<close> by (rule hd_dropWhile)
    then have "\<not> cmp h x < 0" by (simp only: h list.sel(1)) simp
    moreover have "h \<in> set ?high" by (simp only: h list.set_intros(1))
    then have hA: "h \<in> A" "u \<in> A" using that assms(2) by (meson set_dropWhileD subsetD)+
    ultimately have "cmp x h \<le> 0" using le_mirror [of x h] assms(3) by simp
    moreover have "cmp h u \<le> 0 \<or> u = h"
      using sorted that unfolding h sorted_by_append sorted_by_Cons by auto
    ultimately show ?thesis using le_trans [of x h u] hA assms(3) by blast
  qed
  have "sorted_by cmp (?low @ x # ?high)"
    using parts low high by (auto simp: sorted_by_append sorted_by_Cons intro: less_imp_le)
  moreover have "filter (\<lambda>y. cmp z y = 0) (?low @ x # ?high) = filter (\<lambda>y. cmp z y = 0) (x # ys)" if z: "z \<in> A" for z
  proof (cases "cmp z x = 0")
    case True
    have "cmp z u \<noteq> 0" if "u \<in> set ?low" for u
      using eq_trans [of z u x] low [OF that] lowA [OF that] True z assms(3) by auto
    then have none: "filter (\<lambda>y. cmp z y = 0) ?low = []" by (auto simp: filter_empty_conv)
    have "filter (\<lambda>y. cmp z y = 0) ys = filter (\<lambda>y. cmp z y = 0) (?low @ ?high)" by simp
    then show ?thesis using True none by (simp del: takeWhile_dropWhile_id)
  next
    case False
    have "filter (\<lambda>y. cmp z y = 0) ys = filter (\<lambda>y. cmp z y = 0) (?low @ ?high)" by simp
    then show ?thesis using False by (simp del: takeWhile_dropWhile_id)
  qed
  moreover have "mset ys = mset ?low + mset ?high" by (metis mset_append takeWhile_dropWhile_id)
  ultimately show ?thesis by (simp add: stable_sorting_def insert_by_def)
qed

lemma isort_stable: "set xs \<subseteq> A \<Longrightarrow> stable_sorting A cmp xs (isort cmp xs)"
proof (induction xs)
  case (Cons x xs)
  then have ih: "stable_sorting A cmp xs (isort cmp xs)" by simp
  then have "set (isort cmp xs) = set xs" by (meson mset_eq_setD stable_sorting_mset)
  then have "stable_sorting A cmp (x # isort cmp xs) (insert_by cmp x (isort cmp xs))"
    using insert_by_stable ih Cons.prems by (simp add: stable_sorting_def)
  then show ?case using ih by (simp add: stable_sorting_def isort_def)
qed (simp add: isort_def stable_sorting_def sorted_by_def)

lemma stable_sorting_isort:
  assumes "stable_sorting A cmp xs ys" and "set xs \<subseteq> A"
  shows "ys = isort cmp xs"
proof (rule stable_sorting_unique)
  note i = isort_stable [OF assms(2)]
  show "sorted_by cmp ys" "sorted_by cmp (isort cmp xs)" "mset ys = mset (isort cmp xs)"
    using assms(1) i by (simp_all add: stable_sorting_def)
  show "set ys \<subseteq> A" using assms by (metis mset_eq_setD stable_sorting_mset)
  show "\<forall>x \<in> A. filter (\<lambda>y. cmp x y = 0) ys = filter (\<lambda>y. cmp x y = 0) (isort cmp xs)"
    using assms(1) i by (simp add: stable_sorting_def)
qed

end

end
