(* ===== verification/Ds_Merge_Sides.thy ===== *)
theory Ds_Merge_Sides
  imports Ds_Stable "HOL-Library.Monad_Syntax"
begin

text \<open>
  Why both merge routines of the mergesort end, with the two slices woven together. They mirror each
  other, and so the argument is made once, for the interface they share: two sides \<open>x\<close> and \<open>y\<close>, of
  which elements are moved one by one or in blocks, two searches for the length of a block, and
  the three loops with their recursion equations.
\<close>

section \<open>The loops of a merge\<close>

text \<open>
  \<open>inv xs ys s\<close>: in the state \<open>s\<close> the elements \<open>xs\<close> and \<open>ys\<close> are left on the two sides, in the
  order in which they are moved. If the merge is \<open>good\<close> (the slices are sorted by a lawful
  comparison), then only elements that come before the head of the other side may be moved.
\<close>

locale merge_sides =
  fixes inv :: "'a list \<Rightarrow> 'a list \<Rightarrow> 's \<Rightarrow> bool" and first :: "'a \<Rightarrow> 'a \<Rightarrow> bool" and good :: bool
    and movex movey :: "nat \<Rightarrow> 's \<Rightarrow> 's option" and lenx leny :: "'s \<Rightarrow> nat" and minblk :: "'s \<Rightarrow> nat"
    and blkx blky :: "'s \<Rightarrow> nat option" and lower raise :: "'s \<Rightarrow> 's" and enough :: "nat \<Rightarrow> bool"
    and single :: "nat \<Rightarrow> nat \<Rightarrow> 's \<Rightarrow> (bool \<times> 's) option"
    and blocks :: "'s \<Rightarrow> (bool \<times> 's) option" and loop :: "'s \<Rightarrow> 's option"
  assumes movex: "inv (bs @ xs) ys s \<Longrightarrow> bs \<noteq> [] \<Longrightarrow> ys \<noteq> [] \<Longrightarrow>
        (good \<Longrightarrow> \<forall>b \<in> set bs. first b (hd ys)) \<Longrightarrow> \<exists>s'. movex (length bs) s = Some s' \<and> inv xs ys s'"
    and movey: "inv xs (bs @ ys) s \<Longrightarrow> bs \<noteq> [] \<Longrightarrow> xs \<noteq> [] \<Longrightarrow>
        (good \<Longrightarrow> \<forall>b \<in> set bs. \<not> first (hd xs) b) \<Longrightarrow> \<exists>s'. movey (length bs) s = Some s' \<and> inv xs ys s'"
    and lenx: "inv xs ys s \<Longrightarrow> lenx s = length xs"
    and leny: "inv xs ys s \<Longrightarrow> leny s = length ys"
    and lower: "inv xs ys s \<Longrightarrow> inv xs ys (lower s)"
    and raise: "inv xs ys s \<Longrightarrow> inv xs ys (raise s)"
    and blkx: "inv xs ys s \<Longrightarrow> xs \<noteq> [] \<Longrightarrow> ys \<noteq> [] \<Longrightarrow> \<exists>k \<le> length xs. blkx s = Some k \<and>
        (good \<longrightarrow> (\<forall>b \<in> set (take k xs). first b (hd ys)) \<and> (k < length xs \<longrightarrow> \<not> first (xs ! k) (hd ys)))"
    and blky: "inv xs ys s \<Longrightarrow> xs \<noteq> [] \<Longrightarrow> ys \<noteq> [] \<Longrightarrow> \<exists>k \<le> length ys. blky s = Some k \<and>
        (good \<longrightarrow> (\<forall>b \<in> set (take k ys). \<not> first (hd xs) b) \<and> (k < length ys \<longrightarrow> first (hd xs) (ys ! k)))"
    and single_x: "inv (x # xs) (y # ys) s \<Longrightarrow> first x y \<Longrightarrow> single cx cy s = do {
        s \<leftarrow> movex 1 s;
        if lenx s = 0 then Some (True, s)
        else if minblk s \<le> cx + 1 then Some (False, s)
        else single (cx + 1) 0 s }"
    and single_y: "inv (x # xs) (y # ys) s \<Longrightarrow> \<not> first x y \<Longrightarrow> single cx cy s = do {
        s \<leftarrow> movey 1 s;
        if leny s = 0 then Some (True, s)
        else if minblk s \<le> cy + 1 then Some (False, s)
        else single 0 (cy + 1) s }"
    and blocks: "inv xs ys s \<Longrightarrow> xs \<noteq> [] \<Longrightarrow> ys \<noteq> [] \<Longrightarrow> blocks s = do {
        let s = lower s;
        j \<leftarrow> blkx s;
        s \<leftarrow> (if j \<noteq> 0 then movex j s else Some s);
        if j \<noteq> 0 \<and> lenx s = 0 then Some (True, s) else do {
        s \<leftarrow> movey 1 s;
        if leny s = 0 then Some (True, s) else do {
        k \<leftarrow> blky s;
        s \<leftarrow> (if k \<noteq> 0 then movey k s else Some s);
        if k \<noteq> 0 \<and> leny s = 0 then Some (True, s) else do {
        s \<leftarrow> movex 1 s;
        if lenx s = 0 then Some (True, s)
        else if enough j \<or> enough k then blocks s
        else Some (False, s) } } } }"
    and loop: "loop s = do {
        (over, s) \<leftarrow> single 0 0 s;
        if over then Some s else do {
        (over, s) \<leftarrow> blocks s;
        if over then Some s else loop (raise s) } }"
begin

text \<open>A loop has ended with fewer than \<open>n\<close> elements left, over when one side is used up.\<close>

definition ended :: "nat \<Rightarrow> (bool \<times> 's) option \<Rightarrow> bool" where
  "ended n r \<longleftrightarrow> (\<exists>over s xs ys. r = Some (over, s) \<and> inv xs ys s \<and> length xs + length ys < n \<and>
     (over \<longleftrightarrow> xs = [] \<or> ys = []))"

lemma endedI:
  "inv xs ys s \<Longrightarrow> length xs + length ys < n \<Longrightarrow> over \<longleftrightarrow> xs = [] \<or> ys = [] \<Longrightarrow> ended n (Some (over, s))"
  by (auto simp: ended_def)

lemma ended_mono: "ended m r \<Longrightarrow> m \<le> n \<Longrightarrow> ended n r"
  by (fastforce simp: ended_def)

lemma one_x:
  assumes "inv (x # xs) ys s" and "ys \<noteq> []" and "good \<Longrightarrow> first x (hd ys)"
  shows "\<exists>s'. movex 1 s = Some s' \<and> inv xs ys s'"
  using movex [of "[x]" xs ys s] assms by simp

lemma one_y:
  assumes "inv xs (y # ys) s" and "xs \<noteq> []" and "good \<Longrightarrow> \<not> first (hd xs) y"
  shows "\<exists>s'. movey 1 s = Some s' \<and> inv xs ys s'"
  using movey [of xs "[y]" ys s] assms by simp

lemma block_x:
  assumes "inv xs ys s" and "xs \<noteq> []" and "ys \<noteq> []"
  shows "\<exists>k s' xs'. blkx s = Some k \<and> (if k \<noteq> 0 then movex k s else Some s) = Some s' \<and> inv xs' ys s' \<and>
    length xs' + k = length xs \<and> (good \<and> xs' \<noteq> [] \<longrightarrow> \<not> first (hd xs') (hd ys))"
proof -
  obtain k where k: "k \<le> length xs" "blkx s = Some k"
    and ord: "good \<Longrightarrow> \<forall>b \<in> set (take k xs). first b (hd ys)"
      "good \<Longrightarrow> k < length xs \<Longrightarrow> \<not> first (xs ! k) (hd ys)"
    using blkx [OF assms] by blast
  have "\<exists>s'. (if k \<noteq> 0 then movex k s else Some s) = Some s' \<and> inv (drop k xs) ys s'"
    using movex [of "take k xs" "drop k xs" ys s] assms k ord(1) by (cases "k = 0") (simp_all add: min_absorb2)
  moreover have "good \<and> drop k xs \<noteq> [] \<longrightarrow> \<not> first (hd (drop k xs)) (hd ys)"
    using ord(2) by (simp add: hd_drop_conv_nth)
  ultimately show ?thesis using k by (metis le_add_diff_inverse2 length_drop)
qed

lemma block_y:
  assumes "inv xs ys s" and "xs \<noteq> []" and "ys \<noteq> []"
  shows "\<exists>k s' ys'. blky s = Some k \<and> (if k \<noteq> 0 then movey k s else Some s) = Some s' \<and> inv xs ys' s' \<and>
    length ys' + k = length ys \<and> (good \<and> ys' \<noteq> [] \<longrightarrow> first (hd xs) (hd ys'))"
proof -
  obtain k where k: "k \<le> length ys" "blky s = Some k"
    and ord: "good \<Longrightarrow> \<forall>b \<in> set (take k ys). \<not> first (hd xs) b"
      "good \<Longrightarrow> k < length ys \<Longrightarrow> first (hd xs) (ys ! k)"
    using blky [OF assms] by blast
  have "\<exists>s'. (if k \<noteq> 0 then movey k s else Some s) = Some s' \<and> inv xs (drop k ys) s'"
    using movey [of xs "take k ys" "drop k ys" s] assms k ord(1) by (cases "k = 0") (simp_all add: min_absorb2)
  moreover have "good \<and> drop k ys \<noteq> [] \<longrightarrow> first (hd xs) (hd (drop k ys))"
    using ord(2) by (simp add: hd_drop_conv_nth)
  ultimately show ?thesis using k by (metis le_add_diff_inverse2 length_drop)
qed

text \<open>Each of the two inner loops moves at least one element and ends.\<close>

lemma single_ends:
  assumes "inv xs ys s" and "xs \<noteq> []" and "ys \<noteq> []"
  shows "ended (length xs + length ys) (single cx cy s)"
  using assms
proof (induction "length xs + length ys" arbitrary: xs ys s cx cy rule: less_induct)
  case less
  obtain x xs0 y ys0 where eq: "xs = x # xs0" "ys = y # ys0" using less.prems by (meson list.exhaust)
  note i = less.prems(1) [unfolded eq]
  show ?case
  proof (cases "first x y")
    case True
    then obtain s1 where s1: "movex 1 s = Some s1" "inv xs0 ys s1" using one_x [of x xs0 ys s] i eq by auto
    have len: "length xs0 + length ys < length xs + length ys" using eq by simp
    have "single cx cy s = (if xs0 = [] \<or> minblk s1 \<le> cx + 1 then Some (xs0 = [], s1) else single (cx + 1) 0 s1)"
      using single_x [OF i True, of cx cy] s1 lenx [OF s1(2)] by simp
    moreover have "ended (length xs + length ys) (single (cx + 1) 0 s1)" if "xs0 \<noteq> []"
      using ended_mono [OF less.hyps [OF len s1(2) that less.prems(3)]] len by simp
    ultimately show ?thesis using endedI [OF s1(2) len] less.prems(3) by simp
  next
    case False
    then obtain s1 where s1: "movey 1 s = Some s1" "inv xs ys0 s1" using one_y [of xs y ys0 s] i eq by auto
    have len: "length xs + length ys0 < length xs + length ys" using eq by simp
    have "single cx cy s = (if ys0 = [] \<or> minblk s1 \<le> cy + 1 then Some (ys0 = [], s1) else single 0 (cy + 1) s1)"
      using single_y [OF i False, of cx cy] s1 leny [OF s1(2)] by simp
    moreover have "ended (length xs + length ys) (single 0 (cy + 1) s1)" if "ys0 \<noteq> []"
      using ended_mono [OF less.hyps [OF len s1(2) less.prems(2) that]] len by simp
    ultimately show ?thesis using endedI [OF s1(2) len] less.prems(2) by simp
  qed
qed

lemma blocks_ends:
  assumes "inv xs ys s" and "xs \<noteq> []" and "ys \<noteq> []"
  shows "ended (length xs + length ys) (blocks s)"
  using assms
proof (induction "length xs + length ys" arbitrary: xs ys s rule: less_induct)
  case less
  note eq = blocks [OF less.prems] and ne = less.prems(2,3)
  obtain j s1 xs1 where 1: "blkx (lower s) = Some j" "(if j \<noteq> 0 then movex j (lower s) else Some (lower s)) = Some s1"
    "inv xs1 ys s1" "length xs1 + j = length xs" "good \<and> xs1 \<noteq> [] \<longrightarrow> \<not> first (hd xs1) (hd ys)"
    using block_x [OF lower [OF less.prems(1)]] less.prems(2,3) by blast
  show ?case
  proof (cases "xs1 = []")
    case True
    then have "j \<noteq> 0" using 1(4) ne by auto
    then have b: "blocks s = Some (True, s1)" using eq 1(1,2) True lenx [OF 1(3)] by simp
    show ?thesis unfolding b using endedI [OF 1(3)] True ne by simp
  next
    case x1: False
    obtain y ys2 where ys: "ys = y # ys2" using ne(2) by (cases ys) auto
    obtain s2 where 2: "movey 1 s1 = Some s2" "inv xs1 ys2 s2" using one_y [of xs1 y ys2 s1] 1 x1 ys by auto
    show ?thesis
    proof (cases "ys2 = []")
      case True
      then have b: "blocks s = Some (True, s2)" using eq 1(1,2) 2(1) x1 lenx [OF 1(3)] leny [OF 2(2)] by simp
      show ?thesis unfolding b using endedI [OF 2(2)] True 1(4) ys by simp
    next
      case y2: False
      obtain k s3 ys3 where 3: "blky s2 = Some k" "(if k \<noteq> 0 then movey k s2 else Some s2) = Some s3"
        "inv xs1 ys3 s3" "length ys3 + k = length ys2" "good \<and> ys3 \<noteq> [] \<longrightarrow> first (hd xs1) (hd ys3)"
        using block_y [OF 2(2) x1 y2] by blast
      show ?thesis
      proof (cases "ys3 = []")
        case True
        then have "k \<noteq> 0" using 3(4) y2 by auto
        then have b: "blocks s = Some (True, s3)"
          using eq 1(1,2) 2(1) 3(1,2) True x1 y2 lenx [OF 1(3)] leny [OF 2(2)] leny [OF 3(3)] by simp
        show ?thesis unfolding b using endedI [OF 3(3)] True 1(4) 3(4) ys by simp
      next
        case y3: False
        obtain x xs4 where xs1: "xs1 = x # xs4" using x1 by (cases xs1) auto
        obtain s4 where 4: "movex 1 s3 = Some s4" "inv xs4 ys3 s4" using one_x [of x xs4 ys3 s3] 3 y3 xs1 by auto
        have b: "blocks s = (if xs4 = [] then Some (True, s4)
            else if enough j \<or> enough k then blocks s4 else Some (False, s4))"
          using eq 1(1,2) 2(1) 3(1,2) 4(1) x1 y2 y3 lenx [OF 1(3)] leny [OF 2(2)] leny [OF 3(3)] lenx [OF 4(2)]
          by simp
        have len: "length xs4 + length ys3 < length xs + length ys" using 1(4) 3(4) xs1 ys by simp
        have "ended (length xs + length ys) (blocks s4)" if "xs4 \<noteq> []"
          using ended_mono [OF less.hyps [OF len 4(2) that y3]] len by simp
        then show ?thesis unfolding b using endedI [OF 4(2) len, of True] endedI [OF 4(2) len, of False] y3 by auto
      qed
    qed
  qed
qed

lemma loop_ends:
  assumes "inv xs ys s" and "xs \<noteq> []" and "ys \<noteq> []"
  shows "\<exists>s' xs' ys'. loop s = Some s' \<and> inv xs' ys' s' \<and> (xs' = [] \<or> ys' = [])"
  using assms
proof (induction "length xs + length ys" arbitrary: xs ys s rule: less_induct)
  case less
  obtain over s1 xs1 ys1 where 1: "single 0 0 s = Some (over, s1)" "inv xs1 ys1 s1"
    "length xs1 + length ys1 < length xs + length ys" "over \<longleftrightarrow> xs1 = [] \<or> ys1 = []"
    using single_ends [OF less.prems, of 0 0] unfolding ended_def by blast
  show ?case
  proof (cases over)
    case True
    then show ?thesis using loop [of s] 1 by auto
  next
    case n1: False
    then obtain over2 s2 xs2 ys2 where 2: "blocks s1 = Some (over2, s2)" "inv xs2 ys2 s2"
      "length xs2 + length ys2 < length xs1 + length ys1" "over2 \<longleftrightarrow> xs2 = [] \<or> ys2 = []"
      using blocks_ends [OF 1(2)] 1(4) unfolding ended_def by blast
    show ?thesis
    proof (cases over2)
      case True
      then show ?thesis using loop [of s] 1 2 n1 by auto
    next
      case False
      then have "loop s = loop (raise s2)" using loop [of s] 1 2 n1 by simp
      then show ?thesis using less.hyps [OF _ raise [OF 2(2)]] 1(3) 2(3,4) False by simp
    qed
  qed
qed

end

section \<open>What has been merged\<close>

text \<open>
  \<open>woven\<close>: the elements moved so far are a permutation of what is missing, and in a good merge they
  continue to the merge of the whole slices.
\<close>

definition woven :: "bool \<Rightarrow> ('a \<Rightarrow> 'a \<Rightarrow> bool) \<Rightarrow> 'a list \<Rightarrow> 'a list \<Rightarrow> 'a list \<Rightarrow> 'a list \<Rightarrow> bool" where
  "woven good first result out xs ys \<longleftrightarrow>
     mset out + mset xs + mset ys = mset result \<and> (good \<longrightarrow> out @ weave first xs ys = result)"

lemma woven_start: "woven good first (weave first xs ys) [] xs ys"
  by (simp add: woven_def mset_weave)

lemma woven_x:
  assumes "woven good first result out (bs @ xs) ys" and "ys \<noteq> []" and "good \<Longrightarrow> \<forall>b \<in> set bs. first b (hd ys)"
  shows "woven good first result (out @ bs) xs ys"
  using assms by (auto simp: woven_def weave_block_first ac_simps)

lemma woven_y:
  assumes "woven good first result out xs (bs @ ys)" and "xs \<noteq> []" and "good \<Longrightarrow> \<forall>b \<in> set bs. \<not> first (hd xs) b"
  shows "woven good first result (out @ bs) xs ys"
  using assms by (auto simp: woven_def weave_block_second ac_simps)

lemma woven_over:
  assumes "woven good first result out xs ys" and "xs = [] \<or> ys = []"
  shows "mset (out @ xs @ ys) = mset result" and "good \<Longrightarrow> out @ xs @ ys = result"
  using assms by (auto simp: woven_def ac_simps)

end
