(* ===== verification/Ds_Mergesort_Merged.thy ===== *)
theory Ds_Mergesort_Merged
  imports Ds_Mergesort_Merge Ds_Merge_Sides
begin

text \<open>
  Both merge routines of Ds_Mergesort_Merge as interpretations of the loops of Ds_Merge_Sides, and
  what a call of one of them leaves in the array.
\<close>

section \<open>Temporary memory\<close>

text \<open>
  \<open>grants sys n\<close>: mapping up to \<open>n\<close> bytes always succeeds, and so does every unmapping.
\<close>

definition grants :: "'v sys_t \<Rightarrow> nat \<Rightarrow> bool" where
  "grants sys n \<longleftrightarrow>
     (\<forall>k v. 0 < unat k \<and> unat k \<le> n \<longrightarrow> (\<exists>page v'. init_vmpage sys k v = (Inr page, v'))) \<and>
     (\<forall>a k v. \<exists>v'. sys_munmap sys a k v = (Inr (), v'))"

text \<open>
  The three states of the temporary memory: released, the array in the sort object, mapped pages.
\<close>

fun wf_temp :: "temp_t \<Rightarrow> nat \<Rightarrow> bool" where
  "wf_temp Null n = (n = 0)"
| "wf_temp Tempmem n = (n = tempmem_size)"
| "wf_temp (Mapped a) n = (0 < n \<and> n < 2 ^ 64)"

text \<open>The fields that neither the temporary memory nor a merge touches, and that its state stays well-formed.\<close>

definition same_setup :: "'a mergesort_t \<Rightarrow> 'a mergesort_t \<Rightarrow> bool" where
  "same_setup ms ms' \<longleftrightarrow> ms_compare ms' = ms_compare ms \<and> ms_elemsize ms' = ms_elemsize ms \<and>
     ms_stack ms' = ms_stack ms \<and> ms_stacksize ms' = ms_stacksize ms \<and>
     (wf_temp (ms_temp ms) (ms_tempsize ms) \<longrightarrow> wf_temp (ms_temp ms') (ms_tempsize ms'))"

lemma same_setup_refl [simp]: "same_setup ms ms"
  by (simp add: same_setup_def)

lemma same_setup_temp [simp]:
  "wf_temp t n \<Longrightarrow> same_setup ms ms1 \<Longrightarrow> same_setup ms (ms1\<lparr>ms_temp := t, ms_tempsize := n\<rparr>)"
  by (simp add: same_setup_def)

lemma free_vmpage_ends:
  "\<exists>r v'. free_vmpage sys page v = (r, vmpage_FREE, v') \<and> (grants sys n \<longrightarrow> r = Inr ())"
proof -
  obtain r v' where m: "sys_munmap sys (vm_addr page) (vm_size page) v = (r, v')" by fastforce
  have "grants sys n \<longrightarrow> r = Inr ()" using m unfolding grants_def by (metis prod.inject)
  then show ?thesis using m by (simp add: free_vmpage_def)
qed

lemma release_temp_ends:
  "\<exists>r ms' v'. release_temp sys ms v = (r, ms', v') \<and> same_setup ms ms' \<and> (grants sys n \<longrightarrow> r = Inr ())"
proof (cases "ms_temp ms = Tempmem")
  case True
  then show ?thesis by (simp add: release_temp_def)
next
  case False
  define a where "a = (case ms_temp ms of Mapped a \<Rightarrow> a | _ \<Rightarrow> 0)"
  obtain r v' where f: "free_vmpage sys \<lparr>vm_addr = a, vm_size = of_nat (ms_tempsize ms)\<rparr> v = (r, vmpage_FREE, v')"
    and g: "grants sys n \<longrightarrow> r = Inr ()"
    using free_vmpage_ends [of sys "\<lparr>vm_addr = a, vm_size = of_nat (ms_tempsize ms)\<rparr>" v n] by blast
  have "release_temp sys ms v = (r, ms\<lparr>ms_temp := Tempmem, ms_tempsize := tempmem_size\<rparr>, v')"
    using f False by (cases "ms_temp ms") (simp_all add: release_temp_def a_def)
  then show ?thesis using g by simp
qed

lemma ensuretempsize_ends:
  assumes "n < 2 ^ 64"
  shows "\<exists>r ms' v'. ensuretempsize sys ms n v = (r, ms', v') \<and> same_setup ms ms' \<and>
    (r = Inr () \<longrightarrow> n \<le> ms_tempsize ms') \<and> (grants sys n \<longrightarrow> r = Inr ())"
proof (cases "n \<le> ms_tempsize ms")
  case True
  then show ?thesis by (simp add: ensuretempsize_def)
next
  case False
  obtain r ms1 v1 where 1: "release_temp sys ms v = (r, ms1, v1)" "same_setup ms ms1" "grants sys n \<longrightarrow> r = Inr ()"
    using release_temp_ends [of sys ms v n] by blast
  show ?thesis
  proof (cases r)
    case (Inl e)
    then have "ensuretempsize sys ms n v = (Inl e, ms1, v1)"
      using 1(1) False by (simp add: ensuretempsize_def alloctemp_mergesort_def)
    then show ?thesis using 1 Inl by simp
  next
    case (Inr u)
    obtain p v2 where 2: "init_vmpage sys (of_nat n) v1 = (p, v2)" by fastforce
    have n: "unat (of_nat n :: u64) = n" using assms by (simp add: unat_of_nat)
    show ?thesis
    proof (cases p)
      case (Inl e)
      have "\<not> grants sys n"
        using 2 n False Inl unfolding grants_def by (metis gr0I le_0_eq order_refl prod.inject sum.distinct(1) zero_le)
      moreover have "ensuretempsize sys ms n v = (Inl e, ms1, v2)"
        using 1(1) 2 False Inr Inl by (simp add: ensuretempsize_def alloctemp_mergesort_def)
      ultimately show ?thesis using 1(2) by simp
    next
      case (Inr page)
      let ?ms2 = "ms1\<lparr>ms_temp := Mapped (vm_addr page), ms_tempsize := unat (vm_size page)\<rparr>"
      have "ensuretempsize sys ms n v = (Inr (), ?ms2, v2)"
        using 1(1) 2 False \<open>r = Inr u\<close> Inr by (simp add: ensuretempsize_def alloctemp_mergesort_def)
      moreover have large: "n \<le> ms_tempsize ?ms2"
        using init_vmpage_size [of sys "of_nat n" v1 page v2] 2 Inr n by (simp add: word_le_nat_alt)
      moreover have "unat (vm_size page) < 2 ^ 64" by (rule unat_u64_bound)
      then have "same_setup ms ?ms2"
        using 1(2) large False by (intro same_setup_temp) simp_all
      ultimately show ?thesis by blast
    qed
  qed
qed

section \<open>Moving blocks of elements\<close>

definition same_counts :: "'a merge_t \<Rightarrow> 'a merge_t \<Rightarrow> bool" where
  "same_counts s s' \<longleftrightarrow> m_llen s' = m_llen s \<and> m_rlen s' = m_rlen s"

text \<open>
  Merging upwards: the array is \<open>pre @ out\<close>, a gap for the elements \<open>ts\<close> that are left in the
  temporary memory, and \<open>rs @ post\<close>.
\<close>

definition gap_up :: "'a list \<Rightarrow> 'a list \<Rightarrow> 'a list \<Rightarrow> 'a list \<Rightarrow> 'a list \<Rightarrow> 'a merge_t \<Rightarrow> bool" where
  "gap_up pre post out ts rs s \<longleftrightarrow>
     take (m_dest s) (m_arr s) = pre @ out \<and> m_dest s = length pre + length out \<and>
     m_right s = m_dest s + length ts \<and> drop (m_right s) (m_arr s) = rs @ post \<and>
     length (m_arr s) = m_right s + length rs + length post \<and>
     drop (m_left s) (m_temp s) = ts \<and> length (m_temp s) = m_left s + length ts"

lemma gap_up_counts [simp]:
  "gap_up pre post out ts rs (s\<lparr>m_llen := n\<rparr>) = gap_up pre post out ts rs s"
  "gap_up pre post out ts rs (s\<lparr>m_rlen := n\<rparr>) = gap_up pre post out ts rs s"
  "gap_up pre post out ts rs (s\<lparr>m_minblklen := n\<rparr>) = gap_up pre post out ts rs s"
  by (simp_all add: gap_up_def)

lemma drop_Cons_nth: "drop n xs = y # ys \<Longrightarrow> n < length xs \<and> xs ! n = y \<and> drop (Suc n) xs = ys"
  by (metis Cons_nth_drop_Suc drop_all linorder_not_le list.distinct(1) list.inject)

lemma take_put: "d < length xs \<Longrightarrow> take (Suc d) (xs[d := x]) = take d xs @ [x]"
  by (simp add: take_Suc_conv_app_nth)

lemma gap_upD:
  assumes "gap_up pre post out ts rs s"
  shows "take (m_dest s) (m_arr s) = pre @ out" "m_dest s = length pre + length out"
    "m_right s = m_dest s + length ts" "drop (m_right s) (m_arr s) = rs @ post"
    "length (m_arr s) = m_right s + length rs + length post"
    "drop (m_left s) (m_temp s) = ts" "length (m_temp s) = m_left s + length ts"
  using assms unfolding gap_up_def by blast+

lemma gap_up_left:
  assumes "gap_up pre post out (t # ts) rs s"
  shows "\<exists>s'. copyincr_left s = Some s' \<and> gap_up pre post (out @ [t]) ts rs s' \<and> same_counts s s'"
proof -
  note g = gap_upD [OF assms]
  have l: "m_left s < length (m_temp s)" "m_temp s ! m_left s = t" "drop (Suc (m_left s)) (m_temp s) = ts"
    using drop_Cons_nth [OF g(6)] by blast+
  have d: "m_dest s < length (m_arr s)" "m_dest s < m_right s" using g(3,5) by simp_all
  let ?arr = "(m_arr s)[m_dest s := t]"
  have "copyincr_left s = Some (s\<lparr>m_arr := ?arr, m_dest := m_dest s + 1, m_left := m_left s + 1\<rparr>)"
    using l d by (simp add: copyincr_left_def)
  moreover have "take (Suc (m_dest s)) ?arr = pre @ out @ [t]" using take_put [OF d(1)] g(1) by simp
  moreover have "drop (m_right s) ?arr = rs @ post" using d(2) g(4) by (simp only: drop_update_cancel)
  ultimately show ?thesis using g(2,3,5,7) l(3) by (simp add: gap_up_def same_counts_def)
qed

lemma gap_up_right:
  assumes "gap_up pre post out ts (r # rs) s"
  shows "\<exists>s'. copyincr_right s = Some s' \<and> gap_up pre post (out @ [r]) ts rs s' \<and> same_counts s s'"
proof -
  note g = gap_upD [OF assms]
  have l: "m_right s < length (m_arr s)" "m_arr s ! m_right s = r" "drop (Suc (m_right s)) (m_arr s) = rs @ post"
    using drop_Cons_nth [OF g(4) [unfolded append_Cons]] by blast+
  have d: "m_dest s < length (m_arr s)" "m_dest s < Suc (m_right s)" using g(3,5) by simp_all
  let ?arr = "(m_arr s)[m_dest s := r]"
  have "copyincr_right s = Some (s\<lparr>m_arr := ?arr, m_dest := m_dest s + 1, m_right := m_right s + 1\<rparr>)"
    using l d by (simp add: copyincr_right_def)
  moreover have "take (Suc (m_dest s)) ?arr = pre @ out @ [r]" using take_put [OF d(1)] g(1) by simp
  moreover have "drop (Suc (m_right s)) ?arr = rs @ post" using d(2) l(3) by (simp only: drop_update_cancel)
  ultimately show ?thesis using g(2,3,5,6,7) by (simp add: gap_up_def same_counts_def)
qed

lemma move_left_gap:
  assumes "gap_up pre post out (bs @ ts) rs s" and "bs \<noteq> []" and "m_llen s = length (bs @ ts)"
    and "length (bs @ ts) < 2 ^ 64"
  shows "\<exists>s'. move_left (length bs) s = Some s' \<and> gap_up pre post (out @ bs) ts rs s' \<and>
    m_llen s' = length ts \<and> m_rlen s' = m_rlen s"
proof -
  let ?G = "\<lambda>out bs s'. gap_up pre post out (bs @ ts) rs s' \<and> same_counts s s'"
  have step: "?G out (b # bs) s1 \<Longrightarrow> \<exists>s'. copyincr_left s1 = Some s' \<and> ?G (out @ [b]) bs s'" for out b bs s1
    using gap_up_left [of pre post out b "bs @ ts" rs s1] by (auto simp: same_counts_def)
  have start: "?G out bs s" using assms(1) by (simp add: same_counts_def)
  obtain s' where s': "copy_loop copyincr_left (length bs) s = Some s'"
    "gap_up pre post (out @ bs) ts rs s'" "same_counts s s'"
    using copy_loop_moves [where G = ?G and f = copyincr_left, OF step start assms(2)] by auto
  then show ?thesis using assms(3,4) by (simp add: move_left_def same_counts_def)
qed

lemma move_right_gap:
  assumes "gap_up pre post out ts (bs @ rs) s" and "bs \<noteq> []" and "m_rlen s = length (bs @ rs)"
    and "length (bs @ rs) < 2 ^ 64"
  shows "\<exists>s'. move_right (length bs) s = Some s' \<and> gap_up pre post (out @ bs) ts rs s' \<and>
    m_rlen s' = length rs \<and> m_llen s' = m_llen s"
proof -
  let ?G = "\<lambda>out bs s'. gap_up pre post out ts (bs @ rs) s' \<and> same_counts s s'"
  have step: "?G out (b # bs) s1 \<Longrightarrow> \<exists>s'. copyincr_right s1 = Some s' \<and> ?G (out @ [b]) bs s'" for out b bs s1
    using gap_up_right [of pre post out ts b "bs @ rs" s1] by (auto simp: same_counts_def)
  have start: "?G out bs s" using assms(1) by (simp add: same_counts_def)
  obtain s' where s': "copy_loop copyincr_right (length bs) s = Some s'"
    "gap_up pre post (out @ bs) ts rs s'" "same_counts s s'"
    using copy_loop_moves [where G = ?G and f = copyincr_right, OF step start assms(2)] by auto
  then show ?thesis using assms(3,4) by (simp add: move_right_def same_counts_def)
qed

text \<open>
  The invariant of a merge upwards. A good merge is one of slices that are sorted by a lawful
  comparison.
\<close>

definition up_inv ::
  "bool \<Rightarrow> ('a \<Rightarrow> 'a \<Rightarrow> int) \<Rightarrow> 'a set \<Rightarrow> 'a list \<Rightarrow> 'a list \<Rightarrow> 'a list \<Rightarrow> 'a list \<Rightarrow> 'a list \<Rightarrow> 'a merge_t \<Rightarrow> bool" where
  "up_inv good cmp A pre post result ts rs s \<longleftrightarrow>
     (\<exists>out. gap_up pre post out ts rs s \<and> woven good (\<lambda>l r. \<not> cmp r l < 0) result out ts rs) \<and>
     m_llen s = length ts \<and> m_rlen s = length rs \<and> length ts + length rs < 2 ^ 64 \<and>
     (good \<longrightarrow> sort_order cmp A \<and> sorted_by cmp ts \<and> sorted_by cmp rs \<and> set ts \<subseteq> A \<and> set rs \<subseteq> A)"

lemma up_invE:
  assumes "up_inv good cmp A pre post result ts rs s"
  obtains out where "gap_up pre post out ts rs s" "woven good (\<lambda>l r. \<not> cmp r l < 0) result out ts rs"
    "m_llen s = length ts" "m_rlen s = length rs" "length ts + length rs < 2 ^ 64"
    "good \<longrightarrow> sort_order cmp A \<and> sorted_by cmp ts \<and> sorted_by cmp rs \<and> set ts \<subseteq> A \<and> set rs \<subseteq> A"
  using assms unfolding up_inv_def by blast

lemma gap_up_heads:
  assumes "gap_up pre post out ts rs s"
  shows "ts = t # ts' \<Longrightarrow> at (m_temp s) (m_left s) = Some t" and "rs = r # rs' \<Longrightarrow> at (m_arr s) (m_right s) = Some r"
proof -
  show "at (m_temp s) (m_left s) = Some t" if "ts = t # ts'"
    using drop_Cons_nth [of "m_left s" "m_temp s" t ts'] gap_upD(6) [OF assms] that by (metis at_nth)
  show "at (m_arr s) (m_right s) = Some r" if "rs = r # rs'"
    using drop_Cons_nth [of "m_right s" "m_arr s" r "rs' @ post"] gap_upD(4) [OF assms] that
    by (metis at_nth append_Cons)
qed

text \<open>The search of a good merge stops exactly at the first element that has to wait.\<close>

lemma until_block:
  assumes "until hit xs = k" and "k \<le> length xs"
  shows "\<forall>b \<in> set (take k xs). \<not> hit b" and "k < length xs \<Longrightarrow> hit (xs ! k)"
proof -
  have "take k xs = takeWhile (\<lambda>x. \<not> hit x) xs" using assms(1) by (metis takeWhile_eq_take until_def)
  then show "\<forall>b \<in> set (take k xs). \<not> hit b" by (metis set_takeWhileD)
  show "k < length xs \<Longrightarrow> hit (xs ! k)" using assms nth_length_takeWhile [of "\<lambda>x. \<not> hit x" xs] by (auto simp: until_def)
qed

context sort_order begin

lemma upward_greater:
  "sorted_by cmp xs \<Longrightarrow> set xs \<subseteq> A \<Longrightarrow> key \<in> A \<Longrightarrow> upward (\<lambda>x. 0 < cmp x key) xs"
  unfolding upward_def sorted_by_def
  by (erule sorted_wrt_mono_rel [rotated]) (metis less_le_trans mirror subsetD)

lemma upward_greatequal:
  "sorted_by cmp xs \<Longrightarrow> set xs \<subseteq> A \<Longrightarrow> key \<in> A \<Longrightarrow> upward (\<lambda>x. 0 \<le> cmp x key) xs"
  unfolding upward_def sorted_by_def
  by (erule sorted_wrt_mono_rel [rotated]) (metis le_mirror le_trans subsetD)

end


text \<open>The block searches and the change of the barrier in \<open>merge_blocks\<close>.\<close>

definition block_left :: "('a \<Rightarrow> 'a \<Rightarrow> int) \<Rightarrow> 'a merge_t \<Rightarrow> nat option" where
  "block_left cmp s = do {
     r \<leftarrow> at (m_arr s) (m_right s);
     search_greater cmp r (m_llen s) (m_temp s) (m_left s) }"

definition block_right :: "('a \<Rightarrow> 'a \<Rightarrow> int) \<Rightarrow> 'a merge_t \<Rightarrow> nat option" where
  "block_right cmp s = do {
     l \<leftarrow> at (m_temp s) (m_left s);
     search_greatequal cmp l (m_rlen s) (m_arr s) (m_right s) }"

definition lower_barrier :: "'a merge_t \<Rightarrow> 'a merge_t" where
  "lower_barrier s = s\<lparr>m_minblklen := sub_size (m_minblklen s) (if MIN_BLK_LEN \<noteq> 1 then 1 else 0)\<rparr>"

definition raise_barrier :: "'a merge_t \<Rightarrow> 'a merge_t" where
  "raise_barrier s = s\<lparr>m_minblklen := wrap_size (m_minblklen s + 2)\<rparr>"

lemma up_inv_barrier [simp]: "up_inv good cmp A pre post result ts rs (s\<lparr>m_minblklen := n\<rparr>) = up_inv good cmp A pre post result ts rs s"
  by (simp add: up_inv_def)

lemma gap_up_slices:
  assumes "gap_up pre post out ts rs s"
  shows "take (length ts) (drop (m_left s) (m_temp s)) = ts" "m_left s + length ts \<le> length (m_temp s)"
    "take (length rs) (drop (m_right s) (m_arr s)) = rs" "m_right s + length rs \<le> length (m_arr s)"
  using gap_upD [OF assms] by simp_all

lemma block_left_finds:
  assumes inv: "up_inv good cmp A pre post result ts rs s" and ne: "ts \<noteq> []" "rs \<noteq> []"
  shows "\<exists>k \<le> length ts. block_left cmp s = Some k \<and>
    (good \<longrightarrow> (\<forall>b \<in> set (take k ts). \<not> cmp (hd rs) b < 0) \<and> (k < length ts \<longrightarrow> \<not> \<not> cmp (hd rs) (ts ! k) < 0))"
proof -
  obtain r rs' where rs: "rs = r # rs'" using ne by (cases rs) auto
  obtain out where g: "gap_up pre post out ts rs s" and len: "m_llen s = length ts" "length ts + length rs < 2 ^ 64"
    and good: "good \<longrightarrow> sort_order cmp A \<and> sorted_by cmp ts \<and> sorted_by cmp rs \<and> set ts \<subseteq> A \<and> set rs \<subseteq> A"
    by (rule up_invE [OF inv]) blast
  have "1 \<le> length ts" using ne by (cases ts) auto
  with search_up_finds [of "length ts" "m_left s" "m_temp s" "\<lambda>x. 0 < cmp x r"] gap_up_slices [OF g] len
  obtain k where k: "k \<le> length ts" "search_greater cmp r (length ts) (m_temp s) (m_left s) = Some k"
    and until: "upward (\<lambda>x. 0 < cmp x r) ts \<longrightarrow> k = until (\<lambda>x. 0 < cmp x r) ts"
    by (auto simp: search_greater_def)
  have "(\<forall>b \<in> set (take k ts). \<not> cmp (hd rs) b < 0) \<and> (k < length ts \<longrightarrow> \<not> \<not> cmp (hd rs) (ts ! k) < 0)" if good
  proof -
    note c = good [rule_format, OF that]
    then have A: "r \<in> A" "\<And>b. b \<in> set ts \<Longrightarrow> b \<in> A" using rs by auto
    then have m: "0 < cmp b r \<longleftrightarrow> cmp r b < 0" if "b \<in> set ts" for b
      using that c sort_order.mirror by fastforce
    have "until (\<lambda>x. 0 < cmp x r) ts = k" using until sort_order.upward_greater [of cmp A ts r] c A by simp
    from until_block [OF this k(1)] show ?thesis
      using m rs by (auto dest: in_set_takeD)
  qed
  then show ?thesis using k gap_up_heads(2) [OF g rs] len by (auto simp: block_left_def)
qed

lemma block_right_finds:
  assumes inv: "up_inv good cmp A pre post result ts rs s" and ne: "ts \<noteq> []" "rs \<noteq> []"
  shows "\<exists>k \<le> length rs. block_right cmp s = Some k \<and>
    (good \<longrightarrow> (\<forall>b \<in> set (take k rs). \<not> \<not> cmp b (hd ts) < 0) \<and> (k < length rs \<longrightarrow> \<not> cmp (rs ! k) (hd ts) < 0))"
proof -
  obtain t ts' where ts: "ts = t # ts'" using ne by (cases ts) auto
  obtain out where g: "gap_up pre post out ts rs s" and len: "m_rlen s = length rs" "length ts + length rs < 2 ^ 64"
    and good: "good \<longrightarrow> sort_order cmp A \<and> sorted_by cmp ts \<and> sorted_by cmp rs \<and> set ts \<subseteq> A \<and> set rs \<subseteq> A"
    by (rule up_invE [OF inv]) blast
  have "1 \<le> length rs" using ne by (cases rs) auto
  with search_up_finds [of "length rs" "m_right s" "m_arr s" "\<lambda>x. 0 \<le> cmp x t"] gap_up_slices [OF g] len
  obtain k where k: "k \<le> length rs" "search_greatequal cmp t (length rs) (m_arr s) (m_right s) = Some k"
    and until: "upward (\<lambda>x. 0 \<le> cmp x t) rs \<longrightarrow> k = until (\<lambda>x. 0 \<le> cmp x t) rs"
    by (auto simp: search_greatequal_def)
  have "(\<forall>b \<in> set (take k rs). \<not> \<not> cmp b (hd ts) < 0) \<and> (k < length rs \<longrightarrow> \<not> cmp (rs ! k) (hd ts) < 0)" if good
  proof -
    have "until (\<lambda>x. 0 \<le> cmp x t) rs = k"
      using until sort_order.upward_greatequal good [rule_format, OF that] ts by fastforce
    from until_block [OF this k(1)] show ?thesis using ts by auto
  qed
  then show ?thesis using k gap_up_heads(1) [OF g ts] len by (auto simp: block_right_def)
qed

lemma merge_blocks_eq:
  "merge_blocks cmp s = do {
     let s = lower_barrier s;
     j \<leftarrow> block_left cmp s;
     s \<leftarrow> (if j \<noteq> 0 then move_left j s else Some s);
     if j \<noteq> 0 \<and> m_llen s = 0 then Some (True, s) else do {
     s \<leftarrow> move_right 1 s;
     if m_rlen s = 0 then Some (True, s) else do {
     k \<leftarrow> block_right cmp s;
     s \<leftarrow> (if k \<noteq> 0 then move_right k s else Some s);
     if k \<noteq> 0 \<and> m_rlen s = 0 then Some (True, s) else do {
     s \<leftarrow> move_left 1 s;
     if m_llen s = 0 then Some (True, s)
     else if MIN_BLK_LEN \<le> j \<or> MIN_BLK_LEN \<le> k then merge_blocks cmp s
     else Some (False, s) } } } }"
  by (subst merge_blocks.simps)
    (simp only: block_left_def block_right_def lower_barrier_def [symmetric] Let_def Option.bind_assoc)

lemma merge_loop_eq:
  "merge_loop cmp s = do {
     (over, s) \<leftarrow> merge_single cmp 0 0 s;
     if over then Some s else do {
     (over, s) \<leftarrow> merge_blocks cmp s;
     if over then Some s else merge_loop cmp (raise_barrier s) } }"
  by (subst merge_loop.simps) (simp only: raise_barrier_def)

lemma merge_single_eq:
  assumes "up_inv good cmp A pre post result (x # xs) (y # ys) s"
  shows "merge_single cmp cx cy s =
    (if \<not> cmp y x < 0 then do {
        s \<leftarrow> move_left 1 s;
        if m_llen s = 0 then Some (True, s)
        else if m_minblklen s \<le> cx + 1 then Some (False, s)
        else merge_single cmp (cx + 1) 0 s }
     else do {
        s \<leftarrow> move_right 1 s;
        if m_rlen s = 0 then Some (True, s)
        else if m_minblklen s \<le> cy + 1 then Some (False, s)
        else merge_single cmp 0 (cy + 1) s })"
proof -
  have "at (m_temp s) (m_left s) = Some x" "at (m_arr s) (m_right s) = Some y"
    using assms gap_up_heads by (metis up_invE)+
  then show ?thesis by (subst merge_single.simps) simp
qed

interpretation up: merge_sides "up_inv good cmp A pre post result" "\<lambda>l r. \<not> cmp r l < 0" good
  move_left move_right m_llen m_rlen m_minblklen "block_left cmp" "block_right cmp" lower_barrier raise_barrier
  "\<lambda>n. MIN_BLK_LEN \<le> n" "merge_single cmp" "merge_blocks cmp" "merge_loop cmp" for good cmp A pre post result
proof
  fix bs xs ys s
  assume a: "up_inv good cmp A pre post result (bs @ xs) ys s" "bs \<noteq> []" "ys \<noteq> []"
    "good \<Longrightarrow> \<forall>b \<in> set bs. \<not> cmp (hd ys) b < 0"
  obtain out where g: "gap_up pre post out (bs @ xs) ys s" and w: "woven good (\<lambda>l r. \<not> cmp r l < 0) result out (bs @ xs) ys"
    and len: "m_llen s = length (bs @ xs)" "m_rlen s = length ys" "length (bs @ xs) + length ys < 2 ^ 64"
    and good: "good \<longrightarrow> sort_order cmp A \<and> sorted_by cmp (bs @ xs) \<and> sorted_by cmp ys \<and> set (bs @ xs) \<subseteq> A \<and> set ys \<subseteq> A"
    by (rule up_invE [OF a(1)]) blast
  obtain s' where s': "move_left (length bs) s = Some s'" "gap_up pre post (out @ bs) xs ys s'"
    "m_llen s' = length xs" "m_rlen s' = length ys"
    using move_left_gap [OF g a(2) len(1)] len by auto
  have "woven good (\<lambda>l r. \<not> cmp r l < 0) result (out @ bs) xs ys" using woven_x [OF w a(3,4)] .
  then have "up_inv good cmp A pre post result xs ys s'"
    unfolding up_inv_def using s' len good by (auto simp: sorted_by_append)
  then show "\<exists>s'. move_left (length bs) s = Some s' \<and> up_inv good cmp A pre post result xs ys s'" using s' by blast
next
  fix bs xs ys s
  assume a: "up_inv good cmp A pre post result xs (bs @ ys) s" "bs \<noteq> []" "xs \<noteq> []"
    "good \<Longrightarrow> \<forall>b \<in> set bs. \<not> \<not> cmp b (hd xs) < 0"
  obtain out where g: "gap_up pre post out xs (bs @ ys) s" and w: "woven good (\<lambda>l r. \<not> cmp r l < 0) result out xs (bs @ ys)"
    and len: "m_llen s = length xs" "m_rlen s = length (bs @ ys)" "length xs + length (bs @ ys) < 2 ^ 64"
    and good: "good \<longrightarrow> sort_order cmp A \<and> sorted_by cmp xs \<and> sorted_by cmp (bs @ ys) \<and> set xs \<subseteq> A \<and> set (bs @ ys) \<subseteq> A"
    by (rule up_invE [OF a(1)]) blast
  obtain s' where s': "move_right (length bs) s = Some s'" "gap_up pre post (out @ bs) xs ys s'"
    "m_llen s' = length xs" "m_rlen s' = length ys"
    using move_right_gap [OF g a(2) len(2)] len by auto
  have "woven good (\<lambda>l r. \<not> cmp r l < 0) result (out @ bs) xs ys" using woven_y [OF w a(3,4)] .
  then have "up_inv good cmp A pre post result xs ys s'"
    unfolding up_inv_def using s' len good by (auto simp: sorted_by_append)
  then show "\<exists>s'. move_right (length bs) s = Some s' \<and> up_inv good cmp A pre post result xs ys s'" using s' by blast
next
  fix xs ys s
  assume a: "up_inv good cmp A pre post result xs ys s"
  then show "m_llen s = length xs" "m_rlen s = length ys" by (auto elim: up_invE)
  from a show "up_inv good cmp A pre post result xs ys (lower_barrier s)"
    "up_inv good cmp A pre post result xs ys (raise_barrier s)"
    by (simp_all add: lower_barrier_def raise_barrier_def)
  assume ne: "xs \<noteq> []" "ys \<noteq> []"
  show "\<exists>k \<le> length xs. block_left cmp s = Some k \<and>
      (good \<longrightarrow> (\<forall>b \<in> set (take k xs). \<not> cmp (hd ys) b < 0) \<and> (k < length xs \<longrightarrow> \<not> \<not> cmp (hd ys) (xs ! k) < 0))"
    using block_left_finds [OF a ne] .
  show "\<exists>k \<le> length ys. block_right cmp s = Some k \<and>
      (good \<longrightarrow> (\<forall>b \<in> set (take k ys). \<not> \<not> cmp b (hd xs) < 0) \<and> (k < length ys \<longrightarrow> \<not> cmp (ys ! k) (hd xs) < 0))"
    using block_right_finds [OF a ne] .
qed (simp_all only: merge_single_eq if_True if_False not_not not_True_eq_False not_False_eq_True merge_blocks_eq [symmetric] merge_loop_eq [symmetric])

section \<open>The contract of a merge\<close>

text \<open>
  The sort_outcome of merging the adjacent slices \<open>ls\<close> and \<open>rs\<close>: whatever the comparison does, the
  array holds a permutation of their elements between \<open>pre\<close> and \<open>post\<close>; if no error was returned
  and the slices were sorted by a lawful comparison, it is their stable sorting. \<open>n\<close> bytes of
  temporary memory are enough.
\<close>

definition merged :: "'v sys_t \<Rightarrow> nat \<Rightarrow> 'a mergesort_t \<Rightarrow> ('a \<Rightarrow> 'a \<Rightarrow> int) \<Rightarrow> 'a set
    \<Rightarrow> 'a list \<Rightarrow> 'a list \<Rightarrow> 'a list \<Rightarrow> 'a list \<Rightarrow> (unit cres \<times> 'a mergesort_t \<times> 'a list \<times> 'v) option \<Rightarrow> bool" where
  "merged sys n ms cmp A pre ls rs post res \<longleftrightarrow>
     (\<exists>r ms' zs v'. res = Some (r, ms', pre @ zs @ post, v') \<and> same_setup ms ms' \<and> mset zs = mset (ls @ rs) \<and>
        (r = Inr () \<and> sort_order cmp A \<and> sorted_by cmp ls \<and> sorted_by cmp rs \<and> set ls \<subseteq> A \<and> set rs \<subseteq> A \<longrightarrow>
           stable_sorting A cmp (ls @ rs) zs) \<and>
        (grants sys n \<longrightarrow> r = Inr ()))"

lemma mergedI:
  "same_setup ms ms' \<Longrightarrow> mset zs = mset (ls @ rs) \<Longrightarrow>
   (r = Inr () \<Longrightarrow> sort_order cmp A \<Longrightarrow> sorted_by cmp ls \<Longrightarrow> sorted_by cmp rs \<Longrightarrow> set ls \<subseteq> A \<Longrightarrow> set rs \<subseteq> A \<Longrightarrow>
      stable_sorting A cmp (ls @ rs) zs) \<Longrightarrow>
   (grants sys n \<Longrightarrow> r = Inr ()) \<Longrightarrow>
   merged sys n ms cmp A pre ls rs post (Some (r, ms', pre @ zs @ post, v'))"
  by (auto simp: merged_def)

lemma grants_mono: "grants sys n \<Longrightarrow> m \<le> n \<Longrightarrow> grants sys m"
  unfolding grants_def by (meson order_trans)

lemma up_finish:
  assumes inv: "up_inv good cmp A pre post result xs ys s" and over: "xs = [] \<or> ys = []"
  shows "\<exists>zs. (if m_llen s \<noteq> 0 then do {
                  rest \<leftarrow> read_block (m_temp s) (m_left s) (m_llen s);
                  write_block (m_arr s) (m_dest s) rest }
                else Some (m_arr s)) = Some (pre @ zs @ post) \<and> mset zs = mset result \<and> (good \<longrightarrow> zs = result)"
proof -
  obtain out where g: "gap_up pre post out xs ys s" and w: "woven good (\<lambda>l r. \<not> cmp r l < 0) result out xs ys"
    and len: "m_llen s = length xs"
    by (rule up_invE [OF inv]) blast
  note gd = gap_upD [OF g]
  have "(if m_llen s \<noteq> 0 then do {
                  rest \<leftarrow> read_block (m_temp s) (m_left s) (m_llen s);
                  write_block (m_arr s) (m_dest s) rest }
                else Some (m_arr s)) = Some (pre @ (out @ xs @ ys) @ post)"
  proof (cases "xs = []")
    case True
    have "m_arr s = take (m_dest s) (m_arr s) @ drop (m_dest s) (m_arr s)" by simp
    then show ?thesis using True len gd(1,3,4) by simp
  next
    case False
    then have "ys = []" using over by simp
    moreover have "read_block (m_temp s) (m_left s) (m_llen s) = Some xs"
      using gd(6,7) len by (simp add: read_block_def)
    moreover have "write_block (m_arr s) (m_dest s) xs = Some (take (m_dest s) (m_arr s) @ xs @ drop (m_right s) (m_arr s))"
      using gd(3,5) by (simp add: write_block_def blit_def)
    ultimately show ?thesis using False len gd(1,4) by simp
  qed
  then show ?thesis using woven_over [OF w over] by blast
qed

text \<open>The part of \<open>merge_adjacent_slices\<close> that follows the copy into the temporary memory.\<close>

definition merge_gap :: "('a \<Rightarrow> 'a \<Rightarrow> int) \<Rightarrow> 'a merge_t \<Rightarrow> 'a list option" where
  "merge_gap cmp s = do {
     s \<leftarrow> move_right 1 s;
     s \<leftarrow> (if m_rlen s = 0 then Some s else merge_loop cmp s);
     if m_llen s \<noteq> 0 then do {
       rest \<leftarrow> read_block (m_temp s) (m_left s) (m_llen s);
       write_block (m_arr s) (m_dest s) rest }
     else Some (m_arr s) }"

lemma merge_gap_ends:
  assumes inv: "up_inv good cmp A pre post result xs (key # ys) s0" and ne: "xs \<noteq> []"
    and head: "good \<Longrightarrow> cmp key (hd xs) < 0"
  shows "\<exists>zs. merge_gap cmp s0 = Some (pre @ zs @ post) \<and> mset zs = mset result \<and> (good \<longrightarrow> zs = result)"
proof -
  obtain s1 where s1: "move_right 1 s0 = Some s1" "up_inv good cmp A pre post result xs ys s1"
    using up.one_y [OF inv ne] head by auto
  have "\<exists>s2 xs' ys'. (if m_rlen s1 = 0 then Some s1 else merge_loop cmp s1) = Some s2 \<and>
      up_inv good cmp A pre post result xs' ys' s2 \<and> (xs' = [] \<or> ys' = [])"
  proof (cases "ys = []")
    case True
    then show ?thesis using s1(2) up.leny [OF s1(2)] by auto
  next
    case False
    then show ?thesis using up.loop_ends [OF s1(2) ne False] up.leny [OF s1(2)] by simp
  qed
  then obtain s2 xs' ys' where s2: "(if m_rlen s1 = 0 then Some s1 else merge_loop cmp s1) = Some s2"
    "up_inv good cmp A pre post result xs' ys' s2" "xs' = [] \<or> ys' = []" by blast
  show ?thesis using up_finish [OF s2(2,3)] s1(1) s2(1) by (simp add: merge_gap_def)
qed

lemma gap_up_start:
  "gap_up pre post [] ts rs \<lparr>m_arr = pre @ ts @ rs @ post, m_temp = ts, m_dest = length pre, m_left = 0,
     m_llen = l, m_right = length pre + length ts, m_rlen = r, m_minblklen = m\<rparr>"
  by (simp add: gap_up_def)

lemma merge_adjacent_merges:
  assumes cmp: "ms_compare ms = Some cmp" and ne: "ls \<noteq> []" "rs \<noteq> []" and es: "ms_elemsize ms \<noteq> 0"
    and size: "length (pre @ ls @ rs @ post) * unat (ms_elemsize ms) < 2 ^ 64"
  shows "merged sys (length ls * unat (ms_elemsize ms)) ms cmp A pre ls rs post
    (merge_adjacent_slices sys ms (pre @ ls @ rs @ post) v (length pre) (length ls) (length pre + length ls) (length rs))"
proof -
  define arr where "arr = pre @ ls @ rs @ post"
  define e where "e = unat (ms_elemsize ms)"
  have e: "1 \<le> e" using es by (simp add: e_def Suc_leI unat_gt_0)
  have len: "length arr * e < 2 ^ 64" using size by (simp only: arr_def e_def)
  have "length arr * 1 \<le> length arr * e" using e by (rule mult_le_mono2)
  then have len2: "length arr < 2 ^ 64" using len by linarith
  obtain key rs' where rs: "rs = key # rs'" using ne by (cases rs) auto
  have key: "at arr (length pre + length ls) = Some key" by (simp add: arr_def rs nth_append)
  have lsl: "1 \<le> length ls" using ne by (cases ls) auto
  have "take (length ls) (drop (length pre) arr) = ls" by (simp add: arr_def)
  with search_up_finds [of "length ls" "length pre" arr "\<lambda>x. 0 < cmp x key"] lsl len2
  obtain k where k: "k \<le> length ls" "search_greater cmp key (length ls) arr (length pre) = Some k"
    and until: "upward (\<lambda>x. 0 < cmp x key) ls \<longrightarrow> k = until (\<lambda>x. 0 < cmp x key) ls"
    by (auto simp: search_greater_def arr_def)
  define good where "good \<longleftrightarrow> sort_order cmp A \<and> sorted_by cmp ls \<and> sorted_by cmp rs \<and> set ls \<subseteq> A \<and> set rs \<subseteq> A"
  have mirror: "0 < cmp b key \<longleftrightarrow> cmp key b < 0" if "b \<in> set ls" good for b
    using sort_order.mirror [of cmp A b key] that rs by (auto simp: good_def)
  have "until (\<lambda>x. 0 < cmp x key) ls = k" if good
    using until that rs sort_order.upward_greater [of cmp A ls key] by (simp add: good_def)
  note found = until_block [OF this k(1)]
  define low where "low = take k ls"
  define ts where "ts = drop k ls"
  have ls: "ls = low @ ts" by (simp add: low_def ts_def)
  have lowl: "length low = k" using k(1) by (simp add: low_def)
  have low: "\<forall>b \<in> set low. \<not> cmp (hd rs) b < 0" if good
    using found(1) [OF that] mirror that rs by (auto simp: low_def dest: in_set_takeD)
  show ?thesis
  proof (cases "ts = []")
    case True
    then have "sub_size (length ls) k = 0" using ls lowl len2 by (simp add: arr_def)
    then have "merge_adjacent_slices sys ms arr v (length pre) (length ls) (length pre + length ls) (length rs) =
        Some (Inr (), ms, pre @ (ls @ rs) @ post, v)"
      using cmp key k by (simp add: merge_adjacent_slices_def Let_def arr_def)
    moreover have "stable_sorting A cmp (ls @ rs) (ls @ rs)" if good
    proof -
      have "weave (\<lambda>l r. \<not> cmp r l < 0) (ls @ []) rs = ls @ rs"
        using weave_block_first [of rs low "\<lambda>l r. \<not> cmp r l < 0" "[]"] low [OF that] ne True ls by simp
      then show ?thesis using sort_order.smerge_stable [of cmp A ls rs] that by (simp add: good_def)
    qed
    ultimately show ?thesis unfolding arr_def [symmetric]
      by (simp only:) (rule mergedI, auto simp: good_def)
  next
    case False
    then have tsl: "k < length ls" "length ts = length ls - k" "sub_size (length ls) k = length ts" "length ts \<noteq> 0"
      using k(1) len2 by (simp_all add: ts_def arr_def)
    have "length ts * e \<le> length ls * e" "length ls * e \<le> length arr * e"
      by (rule mult_le_mono1, simp add: ts_def arr_def)+
    then have n: "length ts * e \<le> length ls * e" "length ts * e < 2 ^ 64" using len by linarith+
    obtain r ms1 v1 where t: "ensuretempsize sys ms (length ts * e) v = (r, ms1, v1)" "same_setup ms ms1"
      "r = Inr () \<longrightarrow> length ts * e \<le> ms_tempsize ms1" "grants sys (length ts * e) \<longrightarrow> r = Inr ()"
      using ensuretempsize_ends [OF n(2), of sys ms v] by blast
    have es1: "unat (ms_elemsize ms1) = e" using t(2) by (simp add: same_setup_def e_def)
    have diff: "length pre + length ls - (length pre + k) = length ts" using tsl by simp
    define s0 where "s0 = \<lparr>m_arr = arr, m_temp = ts, m_dest = length pre + k, m_left = 0, m_llen = length ts,
                     m_right = length pre + length ls, m_rlen = length rs, m_minblklen = 2 * MIN_BLK_LEN\<rparr>"
    have read: "read_block arr (length pre + k) (length ts) = Some ts"
      using tsl by (simp add: read_block_def arr_def ts_def)
    have code: "merge_adjacent_slices sys ms arr v (length pre) (length ls) (length pre + length ls) (length rs) =
        (case r of Inl err \<Rightarrow> Some (Inl err, ms1, arr, v1)
         | Inr _ \<Rightarrow> map_option (\<lambda>arr. (Inr (), ms1, arr, v1)) (merge_gap cmp s0))"
      using cmp key k(2) tsl(3,4) t(1,3) wrap_size_id [OF n(2)] read es1
      by (cases r) (simp_all add: merge_adjacent_slices_def Let_def diff tsl(2) [symmetric] e_def [symmetric]
          merge_gap_def s0_def [symmetric] map_conv_bind_option comp_def)
    show ?thesis
    proof (cases r)
      case (Inl err)
      then have "\<not> grants sys (length ls * e)" using t(4) n(1) grants_mono by fastforce
      then show ?thesis unfolding arr_def [symmetric] code Inl sum.case e_def [symmetric]
        using t(2) mergedI [of ms ms1 "ls @ rs" ls rs "Inl err" cmp A sys "length ls * e" pre post v1]
        by (simp add: arr_def)
    next
      case (Inr u)
      let ?first = "\<lambda>l r. \<not> cmp r l < 0"
      let ?result = "weave ?first ts rs"
      have "gap_up (pre @ low) post [] ts rs s0"
      proof -
        have e: "arr = (pre @ low) @ ts @ rs @ post" "length pre + k = length (pre @ low)"
          "length pre + length ls = length (pre @ low) + length ts"
          using ls lowl by (simp_all add: arr_def)
        show ?thesis unfolding s0_def e by (rule gap_up_start)
      qed
      then have inv0: "up_inv good cmp A (pre @ low) post ?result ts rs s0"
        using woven_start [of good ?first ts rs] len2 ls unfolding up_inv_def
        by (auto simp: s0_def good_def arr_def sorted_by_append)
      have head: "cmp key (hd ts) < 0" if good
        using found(2) [OF that tsl(1)] mirror [of "ls ! k"] that tsl(1) by (simp add: ts_def hd_drop_conv_nth)
      obtain zs where z: "merge_gap cmp s0 = Some ((pre @ low) @ zs @ post)"
        and zs: "mset zs = mset ?result" "good \<longrightarrow> zs = ?result"
        using merge_gap_ends [OF inv0 [unfolded rs] False head] rs by auto
      then have res: "map_option (\<lambda>arr. (Inr (), ms1, arr, v1)) (merge_gap cmp s0) =
          Some (Inr (), ms1, pre @ (low @ zs) @ post, v1)"
        by simp
      have "stable_sorting A cmp (ls @ rs) (low @ zs)" if good
      proof -
        have "low @ zs = weave ?first ls rs"
          using weave_block_first [of rs low ?first ts] low [OF that] zs(2) that ne(2) ls by simp
        then show ?thesis using sort_order.smerge_stable [of cmp A ls rs] that by (simp add: good_def)
      qed
      moreover have "mset (low @ zs) = mset (ls @ rs)" using zs(1) ls by (simp add: mset_weave)
      ultimately show ?thesis unfolding arr_def [symmetric] code Inr sum.case res
        using t(2) by (intro mergedI) (auto simp: good_def)
    qed
  qed
qed

end
