(* ===== verification/Ds_Mergesort_Rmerged.thy ===== *)
theory Ds_Mergesort_Rmerged
  imports Ds_Mergesort_Merged
begin

text \<open>
  The merge routine that works downwards, as the second interpretation of the loops of
  Ds_Merge_Sides. Its sides are the two slices read from their ends.
\<close>

section \<open>Moving blocks of elements\<close>

text \<open>
  Merging downwards: the array is \<open>pre @ rev xs\<close>, a gap for the elements \<open>ys\<close> that are left in the
  temporary memory, and \<open>rev out @ post\<close>.
\<close>

definition gap_down :: "'a list \<Rightarrow> 'a list \<Rightarrow> 'a list \<Rightarrow> 'a list \<Rightarrow> 'a list \<Rightarrow> 'a merge_t \<Rightarrow> bool" where
  "gap_down pre post out xs ys s \<longleftrightarrow>
     take (m_left s) (m_arr s) = pre @ rev xs \<and> m_left s = length pre + length xs \<and>
     m_dest s = m_left s + length ys \<and> drop (m_dest s) (m_arr s) = rev out @ post \<and>
     length (m_arr s) = m_dest s + length out + length post \<and>
     take (m_right s) (m_temp s) = rev ys \<and> m_right s = length ys \<and> length ys \<le> length (m_temp s)"

lemma gap_downD:
  assumes "gap_down pre post out xs ys s"
  shows "take (m_left s) (m_arr s) = pre @ rev xs" "m_left s = length pre + length xs"
    "m_dest s = m_left s + length ys" "drop (m_dest s) (m_arr s) = rev out @ post"
    "length (m_arr s) = m_dest s + length out + length post"
    "take (m_right s) (m_temp s) = rev ys" "m_right s = length ys" "length ys \<le> length (m_temp s)"
  using assms unfolding gap_down_def by blast+

lemma gap_down_counts [simp]:
  "gap_down pre post out xs ys (s\<lparr>m_llen := n\<rparr>) = gap_down pre post out xs ys s"
  "gap_down pre post out xs ys (s\<lparr>m_rlen := n\<rparr>) = gap_down pre post out xs ys s"
  "gap_down pre post out xs ys (s\<lparr>m_minblklen := n\<rparr>) = gap_down pre post out xs ys s"
  by (simp_all add: gap_down_def)

lemma gap_down_start:
  "gap_down pre post [] (rev ls) (rev rs) \<lparr>m_arr = pre @ ls @ rs @ post, m_temp = rs,
     m_dest = length pre + length ls + length rs, m_left = length pre + length ls,
     m_llen = l, m_right = length rs, m_rlen = r, m_minblklen = m\<rparr>"
  by (simp add: gap_down_def)

lemma take_snoc_nth:
  assumes "take (Suc n) xs = ys @ [y]" and "n < length xs"
  shows "xs ! n = y" and "take n xs = ys"
  using assms by (simp_all add: take_Suc_conv_app_nth)

lemma drop_put: "d < length xs \<Longrightarrow> drop d (xs[d := x]) = x # drop (Suc d) xs"
  by (metis Cons_nth_drop_Suc drop_update_cancel length_list_update lessI nth_list_update_eq)

lemma gap_down_lend:
  assumes "gap_down pre post out (x # xs) ys s"
  shows "\<exists>s'. copydecr_lend s = Some s' \<and> gap_down pre post (out @ [x]) xs ys s' \<and> same_counts s s'"
proof -
  note g = gap_downD [OF assms]
  define l where "l = length pre + length xs"
  define d where "d = l + length ys"
  have eq: "m_left s = Suc l" "m_dest s = Suc d" using g(2,3) by (simp_all add: l_def d_def)
  have b: "l < length (m_arr s)" "d < length (m_arr s)" "l \<le> d" using g(5) eq by (simp_all add: d_def)
  have x: "m_arr s ! l = x" "take l (m_arr s) = pre @ rev xs"
    using take_snoc_nth [of l "m_arr s" "pre @ rev xs" x] g(1) b eq by simp_all
  let ?arr = "(m_arr s)[d := x]"
  have "copydecr_lend s = Some (s\<lparr>m_arr := ?arr, m_dest := d, m_left := l\<rparr>)"
    using eq b x by (simp add: copydecr_lend_def)
  moreover have "take l ?arr = pre @ rev xs" using x(2) b(3) by (simp add: take_update_cancel)
  moreover have "drop d ?arr = rev (out @ [x]) @ post" using drop_put [OF b(2)] g(4) eq by simp
  moreover have "length ?arr = d + length (out @ [x]) + length post" using g(5) eq by simp
  ultimately show ?thesis using g(6,7,8) by (simp add: gap_down_def same_counts_def l_def d_def)
qed

lemma gap_down_rend:
  assumes "gap_down pre post out xs (y # ys) s"
  shows "\<exists>s'. copydecr_rend s = Some s' \<and> gap_down pre post (out @ [y]) xs ys s' \<and> same_counts s s'"
proof -
  note g = gap_downD [OF assms]
  define r where "r = length ys"
  define d where "d = m_left s + r"
  have eq: "m_right s = Suc r" "m_dest s = Suc d" using g(3,7) by (simp_all add: r_def d_def)
  have b: "r < length (m_temp s)" "d < length (m_arr s)" "m_left s \<le> d" using g(5,8) eq by (simp_all add: d_def r_def)
  have y: "m_temp s ! r = y" "take r (m_temp s) = rev ys"
    using take_snoc_nth [of r "m_temp s" "rev ys" y] g(6) b eq by simp_all
  let ?arr = "(m_arr s)[d := y]"
  have "copydecr_rend s = Some (s\<lparr>m_arr := ?arr, m_dest := d, m_right := r\<rparr>)"
    using eq b y by (simp add: copydecr_rend_def)
  moreover have "take (m_left s) ?arr = pre @ rev xs" using g(1) b(3) by (simp add: take_update_cancel)
  moreover have "drop d ?arr = rev (out @ [y]) @ post" using drop_put [OF b(2)] g(4) eq by simp
  moreover have "length ?arr = d + length (out @ [y]) + length post" using g(5) eq by simp
  ultimately show ?thesis using g(2) y(2) b(1) by (simp add: gap_down_def same_counts_def r_def d_def)
qed

lemma move_lend_gap:
  assumes "gap_down pre post out (bs @ xs) ys s" and "bs \<noteq> []" and "m_llen s = length (bs @ xs)"
    and "length (bs @ xs) < 2 ^ 64"
  shows "\<exists>s'. move_lend (length bs) s = Some s' \<and> gap_down pre post (out @ bs) xs ys s' \<and>
    m_llen s' = length xs \<and> m_rlen s' = m_rlen s"
proof -
  let ?G = "\<lambda>out bs s'. gap_down pre post out (bs @ xs) ys s' \<and> same_counts s s'"
  have step: "?G out (b # bs) s1 \<Longrightarrow> \<exists>s'. copydecr_lend s1 = Some s' \<and> ?G (out @ [b]) bs s'" for out b bs s1
    using gap_down_lend [of pre post out b "bs @ xs" ys s1] by (auto simp: same_counts_def)
  have start: "?G out bs s" using assms(1) by (simp add: same_counts_def)
  obtain s' where s': "copy_loop copydecr_lend (length bs) s = Some s'"
    "gap_down pre post (out @ bs) xs ys s'" "same_counts s s'"
    using copy_loop_moves [where G = ?G and f = copydecr_lend, OF step start assms(2)] by auto
  then show ?thesis using assms(3,4) by (simp add: move_lend_def same_counts_def)
qed

lemma move_rend_gap:
  assumes "gap_down pre post out xs (bs @ ys) s" and "bs \<noteq> []" and "m_rlen s = length (bs @ ys)"
    and "length (bs @ ys) < 2 ^ 64"
  shows "\<exists>s'. move_rend (length bs) s = Some s' \<and> gap_down pre post (out @ bs) xs ys s' \<and>
    m_rlen s' = length ys \<and> m_llen s' = m_llen s"
proof -
  let ?G = "\<lambda>out bs s'. gap_down pre post out xs (bs @ ys) s' \<and> same_counts s s'"
  have step: "?G out (b # bs) s1 \<Longrightarrow> \<exists>s'. copydecr_rend s1 = Some s' \<and> ?G (out @ [b]) bs s'" for out b bs s1
    using gap_down_rend [of pre post out xs b "bs @ ys" s1] by (auto simp: same_counts_def)
  have start: "?G out bs s" using assms(1) by (simp add: same_counts_def)
  obtain s' where s': "copy_loop copydecr_rend (length bs) s = Some s'"
    "gap_down pre post (out @ bs) xs ys s'" "same_counts s s'"
    using copy_loop_moves [where G = ?G and f = copydecr_rend, OF step start assms(2)] by auto
  then show ?thesis using assms(3,4) by (simp add: move_rend_def same_counts_def)
qed

section \<open>The loops\<close>

definition down_inv ::
  "bool \<Rightarrow> ('a \<Rightarrow> 'a \<Rightarrow> int) \<Rightarrow> 'a set \<Rightarrow> 'a list \<Rightarrow> 'a list \<Rightarrow> 'a list \<Rightarrow> 'a list \<Rightarrow> 'a list \<Rightarrow> 'a merge_t \<Rightarrow> bool" where
  "down_inv good cmp A pre post result xs ys s \<longleftrightarrow>
     (\<exists>out. gap_down pre post out xs ys s \<and> woven good (\<lambda>l r. cmp r l < 0) result out xs ys) \<and>
     m_llen s = length xs \<and> m_rlen s = length ys \<and> length xs + length ys < 2 ^ 64 \<and>
     (good \<longrightarrow> sort_order cmp A \<and> sorted_by cmp (rev xs) \<and> sorted_by cmp (rev ys) \<and> set xs \<subseteq> A \<and> set ys \<subseteq> A)"

lemma down_invE:
  assumes "down_inv good cmp A pre post result xs ys s"
  obtains out where "gap_down pre post out xs ys s" "woven good (\<lambda>l r. cmp r l < 0) result out xs ys"
    "m_llen s = length xs" "m_rlen s = length ys" "length xs + length ys < 2 ^ 64"
    "good \<longrightarrow> sort_order cmp A \<and> sorted_by cmp (rev xs) \<and> sorted_by cmp (rev ys) \<and> set xs \<subseteq> A \<and> set ys \<subseteq> A"
  using assms unfolding down_inv_def by blast

lemma gap_down_heads:
  assumes "gap_down pre post out xs ys s"
  shows "xs = x # xs' \<Longrightarrow> at_int (m_arr s) (int (m_left s) - 1) = Some x"
    and "ys = y # ys' \<Longrightarrow> at_int (m_temp s) (int (m_right s) - 1) = Some y"
proof -
  note g = gap_downD [OF assms]
  show "at_int (m_arr s) (int (m_left s) - 1) = Some x" if xs: "xs = x # xs'"
  proof -
    define l where "l = length pre + length xs'"
    have l: "m_left s = Suc l" using g(2) xs by (simp add: l_def)
    have b: "l < length (m_arr s)" using g(3,5) l by simp
    then have "m_arr s ! l = x" using take_snoc_nth(1) [of l "m_arr s" "pre @ rev xs'" x] g(1) l xs by simp
    then show ?thesis using at_int_sub [of 1 "Suc l" "m_arr s"] l b by simp
  qed
  show "at_int (m_temp s) (int (m_right s) - 1) = Some y" if ys: "ys = y # ys'"
  proof -
    define r where "r = length ys'"
    have r: "m_right s = Suc r" using g(7) ys by (simp add: r_def)
    have b: "r < length (m_temp s)" using g(8) ys by (simp add: r_def)
    then have "m_temp s ! r = y" using take_snoc_nth(1) [of r "m_temp s" "rev ys'" y] g(6) r ys by simp
    then show ?thesis using at_int_sub [of 1 "Suc r" "m_temp s"] r b by simp
  qed
qed

lemma gap_down_slices:
  assumes "gap_down pre post out xs ys s"
  shows "rev (take (length xs) (drop (length pre) (m_arr s))) = xs" "length pre + length xs \<le> length (m_arr s)"
    "rev (take (length ys) (drop 0 (m_temp s))) = ys" "0 + length ys \<le> length (m_temp s)"
proof -
  note g = gap_downD [OF assms]
  have "take (length xs) (drop (length pre) (m_arr s)) = drop (length pre) (take (m_left s) (m_arr s))"
    using g(2) by (simp add: drop_take)
  also have "\<dots> = rev xs" unfolding g(1) by simp
  finally show "rev (take (length xs) (drop (length pre) (m_arr s))) = xs" by simp
  show "length pre + length xs \<le> length (m_arr s)" using g(2,3,5) by simp
  show "rev (take (length ys) (drop 0 (m_temp s))) = ys" using g(6,7) by simp
  show "0 + length ys \<le> length (m_temp s)" using g(8) by simp
qed

lemma down_inv_barrier [simp]:
  "down_inv good cmp A pre post result xs ys (s\<lparr>m_minblklen := n\<rparr>) = down_inv good cmp A pre post result xs ys s"
  by (simp add: down_inv_def)

text \<open>The block searches and the change of the barrier in \<open>rmerge_blocks\<close>.\<close>

definition block_lend :: "('a \<Rightarrow> 'a \<Rightarrow> int) \<Rightarrow> nat \<Rightarrow> 'a merge_t \<Rightarrow> nat option" where
  "block_lend cmp left s = do {
     r \<leftarrow> at_int (m_temp s) (int (m_right s) - 1);
     rsearch_greater cmp r (m_llen s) (m_arr s) left }"

definition block_rend :: "('a \<Rightarrow> 'a \<Rightarrow> int) \<Rightarrow> 'a merge_t \<Rightarrow> nat option" where
  "block_rend cmp s = do {
     l \<leftarrow> at_int (m_arr s) (int (m_left s) - 1);
     rsearch_greatequal cmp l (m_rlen s) (m_temp s) 0 }"

definition rlower_barrier :: "'a merge_t \<Rightarrow> 'a merge_t" where
  "rlower_barrier s = s\<lparr>m_minblklen := sub_size (m_minblklen s) (if m_minblklen s \<noteq> 1 then 1 else 0)\<rparr>"

context sort_order begin

lemma upward_le:
  assumes "sorted_by cmp (rev xs)" "set xs \<subseteq> A" "key \<in> A"
  shows "upward (\<lambda>x. cmp x key \<le> 0) xs"
proof -
  have "sorted_wrt (\<lambda>x y. cmp y x \<le> 0) xs" using assms(1) by (simp add: sorted_by_def sorted_wrt_rev)
  then show ?thesis unfolding upward_def
    by (rule sorted_wrt_mono_rel [rotated]) (metis le_trans assms(2,3) subsetD)
qed

lemma upward_less:
  assumes "sorted_by cmp (rev xs)" "set xs \<subseteq> A" "key \<in> A"
  shows "upward (\<lambda>x. cmp x key < 0) xs"
proof -
  have "sorted_wrt (\<lambda>x y. cmp y x \<le> 0) xs" using assms(1) by (simp add: sorted_by_def sorted_wrt_rev)
  then show ?thesis unfolding upward_def
    by (rule sorted_wrt_mono_rel [rotated]) (metis le_less_trans assms(2,3) subsetD)
qed

end

lemma block_lend_finds:
  assumes inv: "down_inv good cmp A pre post result xs ys s" and ne: "xs \<noteq> []" "ys \<noteq> []"
  shows "\<exists>k \<le> length xs. block_lend cmp (length pre) s = Some k \<and>
    (good \<longrightarrow> (\<forall>b \<in> set (take k xs). cmp (hd ys) b < 0) \<and> (k < length xs \<longrightarrow> \<not> cmp (hd ys) (xs ! k) < 0))"
proof -
  obtain r ys' where ys: "ys = r # ys'" using ne by (cases ys) auto
  obtain out where g: "gap_down pre post out xs ys s" and len: "m_llen s = length xs" "length xs + length ys < 2 ^ 64"
    and good: "good \<longrightarrow> sort_order cmp A \<and> sorted_by cmp (rev xs) \<and> sorted_by cmp (rev ys) \<and> set xs \<subseteq> A \<and> set ys \<subseteq> A"
    by (rule down_invE [OF inv]) blast
  have "1 \<le> length xs" using ne by (cases xs) auto
  with search_down_finds [of "length xs" "length pre" "m_arr s" "\<lambda>x. cmp x r \<le> 0"] gap_down_slices [OF g] len
  obtain k where k: "k \<le> length xs" "rsearch_greater cmp r (length xs) (m_arr s) (length pre) = Some k"
    and until: "upward (\<lambda>x. cmp x r \<le> 0) xs \<longrightarrow> k = until (\<lambda>x. cmp x r \<le> 0) xs"
    by (auto simp: rsearch_greater_def)
  have "(\<forall>b \<in> set (take k xs). cmp (hd ys) b < 0) \<and> (k < length xs \<longrightarrow> \<not> cmp (hd ys) (xs ! k) < 0)" if good
  proof -
    note c = good [rule_format, OF that]
    then have A: "r \<in> A" "\<And>b. b \<in> set xs \<Longrightarrow> b \<in> A" using ys by auto
    then have m: "0 < cmp b r \<longleftrightarrow> cmp r b < 0" if "b \<in> set xs" for b
      using that c sort_order.mirror by fastforce
    have "until (\<lambda>x. cmp x r \<le> 0) xs = k" using until sort_order.upward_le [of cmp A xs r] c A by simp
    from until_block [OF this k(1)] show ?thesis
      using m [of "xs ! k"] m ys by (fastforce dest: in_set_takeD simp: not_le)
  qed
  then show ?thesis using k gap_down_heads(2) [OF g ys] len by (auto simp: block_lend_def)
qed

lemma block_rend_finds:
  assumes inv: "down_inv good cmp A pre post result xs ys s" and ne: "xs \<noteq> []" "ys \<noteq> []"
  shows "\<exists>k \<le> length ys. block_rend cmp s = Some k \<and>
    (good \<longrightarrow> (\<forall>b \<in> set (take k ys). \<not> cmp b (hd xs) < 0) \<and> (k < length ys \<longrightarrow> cmp (ys ! k) (hd xs) < 0))"
proof -
  obtain l xs' where xs: "xs = l # xs'" using ne by (cases xs) auto
  obtain out where g: "gap_down pre post out xs ys s" and len: "m_rlen s = length ys" "length xs + length ys < 2 ^ 64"
    and good: "good \<longrightarrow> sort_order cmp A \<and> sorted_by cmp (rev xs) \<and> sorted_by cmp (rev ys) \<and> set xs \<subseteq> A \<and> set ys \<subseteq> A"
    by (rule down_invE [OF inv]) blast
  have "1 \<le> length ys" using ne by (cases ys) auto
  with search_down_finds [of "length ys" 0 "m_temp s" "\<lambda>x. cmp x l < 0"] gap_down_slices [OF g] len
  obtain k where k: "k \<le> length ys" "rsearch_greatequal cmp l (length ys) (m_temp s) 0 = Some k"
    and until: "upward (\<lambda>x. cmp x l < 0) ys \<longrightarrow> k = until (\<lambda>x. cmp x l < 0) ys"
    by (auto simp: rsearch_greatequal_def)
  have "(\<forall>b \<in> set (take k ys). \<not> cmp b (hd xs) < 0) \<and> (k < length ys \<longrightarrow> cmp (ys ! k) (hd xs) < 0)" if good
  proof -
    have "until (\<lambda>x. cmp x l < 0) ys = k"
      using until sort_order.upward_less [of cmp A ys l] good [rule_format, OF that] xs by simp
    from until_block [OF this k(1)] show ?thesis using xs by auto
  qed
  then show ?thesis using k gap_down_heads(1) [OF g xs] len by (auto simp: block_rend_def)
qed

lemma rmerge_blocks_eq:
  "rmerge_blocks cmp left s = do {
     let s = rlower_barrier s;
     j \<leftarrow> block_lend cmp left s;
     s \<leftarrow> (if j \<noteq> 0 then move_lend j s else Some s);
     if j \<noteq> 0 \<and> m_llen s = 0 then Some (True, s) else do {
     s \<leftarrow> move_rend 1 s;
     if m_rlen s = 0 then Some (True, s) else do {
     k \<leftarrow> block_rend cmp s;
     s \<leftarrow> (if k \<noteq> 0 then move_rend k s else Some s);
     if k \<noteq> 0 \<and> m_rlen s = 0 then Some (True, s) else do {
     s \<leftarrow> move_lend 1 s;
     if m_llen s = 0 then Some (True, s)
     else if MIN_BLK_LEN \<le> j \<or> MIN_BLK_LEN \<le> k then rmerge_blocks cmp left s
     else Some (False, s) } } } }"
  by (subst rmerge_blocks.simps)
    (simp only: block_lend_def block_rend_def rlower_barrier_def [symmetric] Let_def Option.bind_assoc)

lemma rmerge_loop_eq:
  "rmerge_loop cmp left s = do {
     (over, s) \<leftarrow> rmerge_single cmp 0 0 s;
     if over then Some s else do {
     (over, s) \<leftarrow> rmerge_blocks cmp left s;
     if over then Some s else rmerge_loop cmp left (raise_barrier s) } }"
  by (subst rmerge_loop.simps) (simp only: raise_barrier_def)

lemma rmerge_single_eq:
  assumes "down_inv good cmp A pre post result (x # xs) (y # ys) s"
  shows "rmerge_single cmp cx cy s =
    (if cmp y x < 0 then do {
        s \<leftarrow> move_lend 1 s;
        if m_llen s = 0 then Some (True, s)
        else if m_minblklen s \<le> cx + 1 then Some (False, s)
        else rmerge_single cmp (cx + 1) 0 s }
     else do {
        s \<leftarrow> move_rend 1 s;
        if m_rlen s = 0 then Some (True, s)
        else if m_minblklen s \<le> cy + 1 then Some (False, s)
        else rmerge_single cmp 0 (cy + 1) s })"
proof -
  obtain out where g: "gap_down pre post out (x # xs) (y # ys) s" by (rule down_invE [OF assms]) blast
  note heads = gap_down_heads(1) [OF g refl] gap_down_heads(2) [OF g refl]
  show ?thesis unfolding rmerge_single.simps [of cmp cx cy s] heads by simp
qed

interpretation down: merge_sides "down_inv good cmp A pre post result" "\<lambda>l r. cmp r l < 0" good
  move_lend move_rend m_llen m_rlen m_minblklen "block_lend cmp (length pre)" "block_rend cmp" rlower_barrier raise_barrier
  "\<lambda>n. MIN_BLK_LEN \<le> n" "rmerge_single cmp" "rmerge_blocks cmp (length pre)" "rmerge_loop cmp (length pre)"
  for good cmp A pre post result
proof
  fix bs xs ys s
  assume a: "down_inv good cmp A pre post result (bs @ xs) ys s" "bs \<noteq> []" "ys \<noteq> []"
    "good \<Longrightarrow> \<forall>b \<in> set bs. cmp (hd ys) b < 0"
  obtain out where g: "gap_down pre post out (bs @ xs) ys s" and w: "woven good (\<lambda>l r. cmp r l < 0) result out (bs @ xs) ys"
    and len: "m_llen s = length (bs @ xs)" "m_rlen s = length ys" "length (bs @ xs) + length ys < 2 ^ 64"
    and good: "good \<longrightarrow> sort_order cmp A \<and> sorted_by cmp (rev (bs @ xs)) \<and> sorted_by cmp (rev ys) \<and> set (bs @ xs) \<subseteq> A \<and> set ys \<subseteq> A"
    by (rule down_invE [OF a(1)]) blast
  obtain s' where s': "move_lend (length bs) s = Some s'" "gap_down pre post (out @ bs) xs ys s'"
    "m_llen s' = length xs" "m_rlen s' = length ys"
    using move_lend_gap [OF g a(2) len(1)] len by auto
  have "woven good (\<lambda>l r. cmp r l < 0) result (out @ bs) xs ys" using woven_x [OF w a(3,4)] .
  then have "down_inv good cmp A pre post result xs ys s'"
    unfolding down_inv_def using s' len good by (auto simp: sorted_by_append)
  then show "\<exists>s'. move_lend (length bs) s = Some s' \<and> down_inv good cmp A pre post result xs ys s'" using s' by blast
next
  fix bs xs ys s
  assume a: "down_inv good cmp A pre post result xs (bs @ ys) s" "bs \<noteq> []" "xs \<noteq> []"
    "good \<Longrightarrow> \<forall>b \<in> set bs. \<not> cmp b (hd xs) < 0"
  obtain out where g: "gap_down pre post out xs (bs @ ys) s" and w: "woven good (\<lambda>l r. cmp r l < 0) result out xs (bs @ ys)"
    and len: "m_llen s = length xs" "m_rlen s = length (bs @ ys)" "length xs + length (bs @ ys) < 2 ^ 64"
    and good: "good \<longrightarrow> sort_order cmp A \<and> sorted_by cmp (rev xs) \<and> sorted_by cmp (rev (bs @ ys)) \<and> set xs \<subseteq> A \<and> set (bs @ ys) \<subseteq> A"
    by (rule down_invE [OF a(1)]) blast
  obtain s' where s': "move_rend (length bs) s = Some s'" "gap_down pre post (out @ bs) xs ys s'"
    "m_llen s' = length xs" "m_rlen s' = length ys"
    using move_rend_gap [OF g a(2) len(2)] len by auto
  have "woven good (\<lambda>l r. cmp r l < 0) result (out @ bs) xs ys" using woven_y [OF w a(3,4)] .
  then have "down_inv good cmp A pre post result xs ys s'"
    unfolding down_inv_def using s' len good by (auto simp: sorted_by_append)
  then show "\<exists>s'. move_rend (length bs) s = Some s' \<and> down_inv good cmp A pre post result xs ys s'" using s' by blast
next
  fix xs ys s
  assume a: "down_inv good cmp A pre post result xs ys s"
  then show "m_llen s = length xs" "m_rlen s = length ys" by (auto elim: down_invE)
  from a show "down_inv good cmp A pre post result xs ys (rlower_barrier s)"
    "down_inv good cmp A pre post result xs ys (raise_barrier s)"
    by (simp_all add: rlower_barrier_def raise_barrier_def)
  assume ne: "xs \<noteq> []" "ys \<noteq> []"
  show "\<exists>k \<le> length xs. block_lend cmp (length pre) s = Some k \<and>
      (good \<longrightarrow> (\<forall>b \<in> set (take k xs). cmp (hd ys) b < 0) \<and> (k < length xs \<longrightarrow> \<not> cmp (hd ys) (xs ! k) < 0))"
    using block_lend_finds [OF a ne] .
  show "\<exists>k \<le> length ys. block_rend cmp s = Some k \<and>
      (good \<longrightarrow> (\<forall>b \<in> set (take k ys). \<not> cmp b (hd xs) < 0) \<and> (k < length ys \<longrightarrow> cmp (ys ! k) (hd xs) < 0))"
    using block_rend_finds [OF a ne] .
qed (simp_all only: rmerge_single_eq if_True if_False rmerge_blocks_eq [symmetric] rmerge_loop_eq [symmetric])

section \<open>The contract of a merge\<close>

text \<open>The part of \<open>rmerge_adjacent_slices\<close> that follows the copy into the temporary memory.\<close>

definition rmerge_gap :: "('a \<Rightarrow> 'a \<Rightarrow> int) \<Rightarrow> nat \<Rightarrow> 'a merge_t \<Rightarrow> 'a list option" where
  "rmerge_gap cmp left s = do {
     s \<leftarrow> move_lend 1 s;
     s \<leftarrow> (if m_llen s = 0 then Some s else rmerge_loop cmp left s);
     if m_rlen s \<noteq> 0 then do {
       rest \<leftarrow> read_block (m_temp s) 0 (m_rlen s);
       write_block (m_arr s) left rest }
     else Some (m_arr s) }"

lemma down_finish:
  assumes inv: "down_inv good cmp A pre post result xs ys s" and over: "xs = [] \<or> ys = []"
  shows "\<exists>zs. (if m_rlen s \<noteq> 0 then do {
                  rest \<leftarrow> read_block (m_temp s) 0 (m_rlen s);
                  write_block (m_arr s) (length pre) rest }
                else Some (m_arr s)) = Some (pre @ rev zs @ post) \<and> mset zs = mset result \<and> (good \<longrightarrow> zs = result)"
proof -
  obtain out where g: "gap_down pre post out xs ys s" and w: "woven good (\<lambda>l r. cmp r l < 0) result out xs ys"
    and len: "m_rlen s = length ys"
    by (rule down_invE [OF inv]) blast
  note gd = gap_downD [OF g]
  have "(if m_rlen s \<noteq> 0 then do {
                  rest \<leftarrow> read_block (m_temp s) 0 (m_rlen s);
                  write_block (m_arr s) (length pre) rest }
                else Some (m_arr s)) = Some (pre @ rev (out @ xs @ ys) @ post)"
  proof (cases "ys = []")
    case True
    have "m_arr s = take (m_left s) (m_arr s) @ drop (m_left s) (m_arr s)" by simp
    then show ?thesis using True len gd(1,3,4) by simp
  next
    case False
    then have xs: "xs = []" using over by simp
    have "read_block (m_temp s) 0 (m_rlen s) = Some (rev ys)"
      using gd(6,7,8) len by (simp add: read_block_def)
    moreover have "write_block (m_arr s) (length pre) (rev ys) =
        Some (take (m_left s) (m_arr s) @ rev ys @ drop (m_dest s) (m_arr s))"
      using gd(2,3,5) xs by (simp add: write_block_def blit_def)
    ultimately show ?thesis using False len gd(1,4) xs by simp
  qed
  then show ?thesis using woven_over [OF w over] by blast
qed

lemma rmerge_gap_ends:
  assumes inv: "down_inv good cmp A pre post result (key # xs) ys s0" and ne: "ys \<noteq> []"
    and head: "good \<Longrightarrow> cmp (hd ys) key < 0"
  shows "\<exists>zs. rmerge_gap cmp (length pre) s0 = Some (pre @ rev zs @ post) \<and> mset zs = mset result \<and> (good \<longrightarrow> zs = result)"
proof -
  obtain s1 where s1: "move_lend 1 s0 = Some s1" "down_inv good cmp A pre post result xs ys s1"
    using down.one_x [OF inv ne head] by auto
  have "\<exists>s2 xs' ys'. (if m_llen s1 = 0 then Some s1 else rmerge_loop cmp (length pre) s1) = Some s2 \<and>
      down_inv good cmp A pre post result xs' ys' s2 \<and> (xs' = [] \<or> ys' = [])"
  proof (cases "xs = []")
    case True
    then show ?thesis using s1(2) down.lenx [OF s1(2)] by auto
  next
    case False
    then show ?thesis using down.loop_ends [OF s1(2) False ne] down.lenx [OF s1(2)] by simp
  qed
  then obtain s2 xs' ys' where s2: "(if m_llen s1 = 0 then Some s1 else rmerge_loop cmp (length pre) s1) = Some s2"
    "down_inv good cmp A pre post result xs' ys' s2" "xs' = [] \<or> ys' = []" by blast
  show ?thesis using down_finish [OF s2(2,3)] s1(1) s2(1) by (simp add: rmerge_gap_def)
qed

lemma rmerge_adjacent_merges:
  assumes cmp: "ms_compare ms = Some cmp" and ne: "ls \<noteq> []" "rs \<noteq> []" and es: "ms_elemsize ms \<noteq> 0"
    and size: "length (pre @ ls @ rs @ post) * unat (ms_elemsize ms) < 2 ^ 64"
  shows "merged sys (length rs * unat (ms_elemsize ms)) ms cmp A pre ls rs post
    (rmerge_adjacent_slices sys ms (pre @ ls @ rs @ post) v (length pre) (length ls) (length pre + length ls) (length rs))"
proof -
  define arr where "arr = pre @ ls @ rs @ post"
  define e where "e = unat (ms_elemsize ms)"
  have e: "1 \<le> e" using es by (simp add: e_def Suc_leI unat_gt_0)
  have len: "length arr * e < 2 ^ 64" using size by (simp only: arr_def e_def)
  have "length arr * 1 \<le> length arr * e" using e by (rule mult_le_mono2)
  then have len2: "length arr < 2 ^ 64" using len by linarith
  obtain xs key where ls: "ls = xs @ [key]" using ne by (metis rev_exhaust)
  have key: "at_int arr (int (length pre + length ls) - 1) = Some key"
    using at_int_sub [of 1 "length pre + length ls" arr] by (simp add: arr_def ls nth_append)
  have rsl: "1 \<le> length rs" using ne by (cases rs) auto
  have "take (length rs) (drop (length pre + length ls) arr) = rs" by (simp add: arr_def)
  with search_down_finds [of "length rs" "length pre + length ls" arr "\<lambda>x. cmp x key < 0"] rsl len2
  obtain k where k: "k \<le> length rs" "rsearch_greatequal cmp key (length rs) arr (length pre + length ls) = Some k"
    and until: "upward (\<lambda>x. cmp x key < 0) (rev rs) \<longrightarrow> k = until (\<lambda>x. cmp x key < 0) (rev rs)"
    by (auto simp: rsearch_greatequal_def arr_def)
  define good where "good \<longleftrightarrow> sort_order cmp A \<and> sorted_by cmp ls \<and> sorted_by cmp rs \<and> set ls \<subseteq> A \<and> set rs \<subseteq> A"
  have "until (\<lambda>x. cmp x key < 0) (rev rs) = k" if good
    using until that ls sort_order.upward_less [of cmp A "rev rs" key] by (simp add: good_def)
  note found = until_block [OF this, unfolded length_rev, OF _ k(1)]
  define high where "high = rev (take k (rev rs))"
  define ts where "ts = rev (drop k (rev rs))"
  have rs: "rs = ts @ high"
    unfolding high_def ts_def rev_append [symmetric] append_take_drop_id by (rule rev_rev_ident [symmetric])
  have highl: "length high = k" "length ts = length rs - k" using k(1) by (simp_all add: high_def ts_def)
  let ?first = "\<lambda>l r. cmp r l < 0"
  have weave: "weave ?first (rev ls) (rev rs) = rev high @ weave ?first (rev ls) (rev ts)" if good
  proof -
    have "\<forall>b \<in> set (rev high). \<not> cmp b key < 0" using found(1) [OF that] by (simp add: high_def)
    then show ?thesis unfolding rs rev_append by (intro weave_block_second) (auto simp: ls)
  qed
  show ?thesis
  proof (cases "ts = []")
    case True
    then have "sub_size (length rs) k = 0" using rs highl len2 by (simp add: arr_def)
    then have "rmerge_adjacent_slices sys ms arr v (length pre) (length ls) (length pre + length ls) (length rs) =
        Some (Inr (), ms, pre @ (ls @ rs) @ post, v)"
      using cmp key k by (simp add: rmerge_adjacent_slices_def Let_def arr_def)
    moreover have "stable_sorting A cmp (ls @ rs) (ls @ rs)" if good
      using sort_order.smerge_stable_rev [of cmp A ls rs] weave [OF that] that True rs by (simp add: good_def)
    ultimately show ?thesis unfolding arr_def [symmetric]
      by (simp only:) (rule mergedI, auto simp: good_def)
  next
    case False
    have rsk: "k < length rs" "sub_size (length rs) k = length ts" using False rs highl k(1) len2 by (auto simp: arr_def)
    have "length ts * e \<le> length rs * e" "length rs * e \<le> length arr * e"
      by (rule mult_le_mono1, simp add: rs arr_def)+
    then have n: "length ts * e \<le> length rs * e" "length ts * e < 2 ^ 64" using len by linarith+
    obtain r ms1 v1 where t: "ensuretempsize sys ms (length ts * e) v = (r, ms1, v1)" "same_setup ms ms1"
      "r = Inr () \<longrightarrow> length ts * e \<le> ms_tempsize ms1" "grants sys (length ts * e) \<longrightarrow> r = Inr ()"
      using ensuretempsize_ends [OF n(2), of sys ms v] by blast
    have es1: "unat (ms_elemsize ms1) = e" using t(2) by (simp add: same_setup_def e_def)
    define s0 where "s0 = \<lparr>m_arr = arr, m_temp = ts, m_dest = length pre + length ls + length ts,
        m_left = length pre + length ls, m_llen = length ls, m_right = length ts, m_rlen = length ts,
        m_minblklen = 2 * MIN_BLK_LEN\<rparr>"
    have read: "read_block arr (length pre + length ls) (length ts) = Some ts"
      by (simp add: read_block_def arr_def rs)
    have code: "rmerge_adjacent_slices sys ms arr v (length pre) (length ls) (length pre + length ls) (length rs) =
        (case r of Inl err \<Rightarrow> Some (Inl err, ms1, arr, v1)
         | Inr _ \<Rightarrow> map_option (\<lambda>arr. (Inr (), ms1, arr, v1)) (rmerge_gap cmp (length pre) s0))"
      using cmp key k(2) rsk(2) False t(1,3) wrap_size_id [OF n(2)] read es1
      by (cases r) (simp_all add: rmerge_adjacent_slices_def Let_def e_def [symmetric] rmerge_gap_def
          s0_def [symmetric] map_conv_bind_option comp_def)
    show ?thesis
    proof (cases r)
      case (Inl err)
      then have "\<not> grants sys (length rs * e)" using t(4) n(1) grants_mono by fastforce
      then show ?thesis unfolding arr_def [symmetric] code Inl sum.case e_def [symmetric]
        using t(2) mergedI [of ms ms1 "ls @ rs" ls rs "Inl err" cmp A sys "length rs * e" pre post v1]
        by (simp add: arr_def)
    next
      case (Inr u)
      let ?result = "weave ?first (rev ls) (rev ts)"
      have a: "arr = pre @ ls @ ts @ high @ post" by (simp add: arr_def rs)
      have "gap_down pre (high @ post) [] (rev ls) (rev ts) s0"
        unfolding s0_def a by (rule gap_down_start)
      then have "down_inv good cmp A pre (high @ post) ?result (rev ls) (rev ts) s0"
        using woven_start [of good ?first "rev ls" "rev ts"] len2 rs unfolding down_inv_def
        by (auto simp: s0_def good_def arr_def sorted_by_append)
      then have inv0: "down_inv good cmp A pre (high @ post) ?result (key # rev xs) (rev ts) s0" by (simp add: ls)
      have "cmp (hd (rev ts)) key < 0" if good
        using found(2) [OF that rsk(1)] rsk(1) by (simp add: ts_def hd_drop_conv_nth)
      from rmerge_gap_ends [OF inv0 _ this] False obtain zs where
        z: "rmerge_gap cmp (length pre) s0 = Some (pre @ rev zs @ high @ post)"
        and zs: "mset zs = mset ?result" "good \<longrightarrow> zs = ?result"
        by auto
      have res: "map_option (\<lambda>arr. (Inr (), ms1, arr, v1)) (rmerge_gap cmp (length pre) s0) =
          Some (Inr (), ms1, pre @ (rev zs @ high) @ post, v1)"
        using z by simp
      have "stable_sorting A cmp (ls @ rs) (rev zs @ high)" if good
        using sort_order.smerge_stable_rev [of cmp A ls rs] weave [OF that] zs(2) that by (simp add: good_def)
      moreover have "mset (rev zs @ high) = mset (ls @ rs)" using zs(1) rs by (simp add: mset_weave)
      ultimately show ?thesis unfolding arr_def [symmetric] code Inr sum.case res
        using t(2) by (intro mergedI) (auto simp: good_def)
    qed
  qed
qed

end
