(* ===== verification/Ds_Mergesort.thy ===== *)
theory Ds_Mergesort
  imports Ds_Mergesort_Rmerged
begin

text \<open>
  The mergesort of C-kern/ds/sort/mergesort.c and mergesort_generic_impl.h around the merge
  routines: the search for presorted slices and their extension by insertion, the stack of slices
  and its invariant, and the three entry points. The variants for bytes, longs and pointers
  differ in how an element is copied and share one definition here.
\<close>

definition MIN_SLICE_LEN :: nat where "MIN_SLICE_LEN = 32"

definition stack_length :: nat where "stack_length = 85"

section \<open>The state\<close>

definition init_mergesort :: "'a mergesort_t \<Rightarrow> 'a mergesort_t" where
  "init_mergesort ms = ms\<lparr>ms_compare := None, ms_elemsize := 0, ms_temp := Tempmem,
     ms_tempsize := tempmem_size, ms_stacksize := 0\<rparr>"

definition free_mergesort :: "'v sys_t \<Rightarrow> 'a mergesort_t \<Rightarrow> 'v \<Rightarrow> unit cres \<times> 'a mergesort_t \<times> 'v" where
  "free_mergesort sys ms v =
     (if ms_temp ms \<noteq> Null then
        case alloctemp_mergesort sys ms 0 v of
          (err, ms, v) \<Rightarrow> (err, ms\<lparr>ms_temp := Null, ms_tempsize := 0, ms_stacksize := 0\<rparr>, v)
      else (Inr (), ms, v))"

definition setsortstate ::
  "'a mergesort_t \<Rightarrow> ('a \<Rightarrow> 'a \<Rightarrow> int) option \<Rightarrow> u8 \<Rightarrow> nat \<Rightarrow> 'a mergesort_t cres" where
  "setsortstate ms cmp elemsize array_len =
     (if cmp = None \<or> elemsize = 0 \<or> (2 ^ 64 - 1) div unat elemsize < array_len then Inl EINVAL
      else Inr (ms\<lparr>ms_compare := cmp, ms_elemsize := elemsize, ms_stacksize := 0\<rparr>))"

fun minslicelen_loop :: "nat \<Rightarrow> nat \<Rightarrow> nat" where
  "minslicelen_loop n r = (if 64 \<le> n then minslicelen_loop (n div 2) (r OR (n AND 1)) else n + r)"

declare minslicelen_loop.simps [simp del]

definition compute_minslicelen :: "nat \<Rightarrow> u8" where
  "compute_minslicelen n = of_nat (minslicelen_loop n 0)"

section \<open>Small slices\<close>

text \<open>The binary search of \<open>insertsort\<close> for the place of the element at \<open>nxt\<close>.\<close>

partial_function (option) insert_search ::
  "('a \<Rightarrow> 'a \<Rightarrow> int) \<Rightarrow> 'a list \<Rightarrow> nat \<Rightarrow> nat \<Rightarrow> nat \<Rightarrow> nat \<Rightarrow> nat option" where
  "insert_search cmp arr a nxt l r = do {
     let mid = (r + l) div 2;
     x \<leftarrow> at arr nxt;
     y \<leftarrow> at arr (a + mid);
     if cmp x y < 0 then (if l < mid then insert_search cmp arr a nxt l mid else Some l)
     else (if mid + 1 < r then insert_search cmp arr a nxt (mid + 1) r else Some (mid + 1)) }"

definition copydecr_elem :: "'a list \<times> nat \<times> nat \<Rightarrow> ('a list \<times> nat \<times> nat) option" where
  "copydecr_elem s =
     (case s of
        (arr, Suc dest, Suc src) \<Rightarrow> do {
          x \<leftarrow> at arr src;
          arr \<leftarrow> put_at arr dest x;
          Some (arr, dest, src) }
      | _ \<Rightarrow> None)"

text \<open>\<open>tempmem\<close> holds the element at \<open>nxt\<close> while the ones behind its place move up.\<close>

partial_function (option) insertsort_loop ::
  "('a \<Rightarrow> 'a \<Rightarrow> int) \<Rightarrow> 'a list \<Rightarrow> nat \<Rightarrow> nat \<Rightarrow> nat \<Rightarrow> nat \<Rightarrow> 'a list option" where
  "insertsort_loop cmp arr a nxt i len =
     (if i < len then do {
        l \<leftarrow> insert_search cmp arr a nxt 0 i;
        arr \<leftarrow> (if i \<noteq> l then do {
                  tempmem \<leftarrow> at arr nxt;
                  (arr, _, dest) \<leftarrow> copy_loop copydecr_elem (i - l) (arr, nxt + 1, nxt);
                  put_at arr dest tempmem }
                else Some arr);
        insertsort_loop cmp arr a (nxt + 1) (i + 1) len }
      else Some arr)"

definition insertsort :: "('a \<Rightarrow> 'a \<Rightarrow> int) \<Rightarrow> u8 \<Rightarrow> u8 \<Rightarrow> 'a list \<Rightarrow> nat \<Rightarrow> 'a list option" where
  "insertsort cmp start len arr a = insertsort_loop cmp arr a (a + unat start) (unat start) (unat len)"

partial_function (option) reverse_elements :: "'a list \<Rightarrow> nat \<Rightarrow> nat \<Rightarrow> 'a list option" where
  "reverse_elements arr lo hi = do {
     x \<leftarrow> at arr lo;
     y \<leftarrow> at arr hi;
     arr \<leftarrow> put_at arr lo y;
     arr \<leftarrow> put_at arr hi x;
     if lo + 1 < hi - 1 then reverse_elements arr (lo + 1) (hi - 1) else Some arr }"

text \<open>The two loops of \<open>count_presorted\<close>: the number of elements that are left, and where it ends.\<close>

primrec descending_loop :: "('a \<Rightarrow> 'a \<Rightarrow> int) \<Rightarrow> 'a list \<Rightarrow> nat \<Rightarrow> nat \<Rightarrow> (nat \<times> nat) option" where
  "descending_loop cmp arr 0 nxt = Some (0, nxt)"
| "descending_loop cmp arr (Suc n) nxt = do {
     x \<leftarrow> at arr (nxt + 1);
     y \<leftarrow> at arr nxt;
     if cmp x y < 0 then descending_loop cmp arr n (nxt + 1) else Some (Suc n, nxt) }"

primrec ascending_loop :: "('a \<Rightarrow> 'a \<Rightarrow> int) \<Rightarrow> 'a list \<Rightarrow> nat \<Rightarrow> nat \<Rightarrow> nat option" where
  "ascending_loop cmp arr 0 nxt = Some 0"
| "ascending_loop cmp arr (Suc n) nxt = do {
     let nxt = nxt + 1;
     x \<leftarrow> at arr (nxt + 1);
     y \<leftarrow> at arr nxt;
     if cmp x y < 0 then Some (Suc n) else ascending_loop cmp arr n nxt }"

definition count_presorted ::
  "('a \<Rightarrow> 'a \<Rightarrow> int) \<Rightarrow> nat \<Rightarrow> 'a list \<Rightarrow> nat \<Rightarrow> (nat \<times> 'a list) option" where
  "count_presorted cmp len arr a =
     (if len \<le> 1 then Some (len, arr)
      else do {
        x \<leftarrow> at arr (a + 1);
        y \<leftarrow> at arr a;
        if cmp x y < 0 then do {
          (n, nxt) \<leftarrow> descending_loop cmp arr (len - 2) (a + 1);
          arr \<leftarrow> reverse_elements arr a nxt;
          Some (len - n, arr) }
        else do {
          n \<leftarrow> ascending_loop cmp arr (len - 2) a;
          Some (len - n, arr) } })"

section \<open>The stack of slices\<close>

definition merge_topofstack ::
  "'v sys_t \<Rightarrow> 'a mergesort_t \<Rightarrow> 'a list \<Rightarrow> 'v \<Rightarrow> bool \<Rightarrow> (unit cres \<times> 'a mergesort_t \<times> 'a list \<times> 'v) option" where
  "merge_topofstack sys ms arr v isSecondTop = do {
     let stacksize = sub_size (ms_stacksize ms) 1;
     let n = sub_size stacksize (if isSecondTop then 1 else 0);
     l \<leftarrow> at (ms_stack ms) (sub_size n 1);
     r \<leftarrow> at (ms_stack ms) n;
     stack \<leftarrow> put_at (ms_stack ms) (sub_size n 1) (l\<lparr>slice_len := wrap_size (slice_len l + slice_len r)\<rparr>);
     stack \<leftarrow> (if isSecondTop then do { top \<leftarrow> at stack (n + 1); put_at stack n top } else Some stack);
     let ms = ms\<lparr>ms_stack := stack, ms_stacksize := stacksize\<rparr>;
     if slice_len l \<le> slice_len r
     then merge_adjacent_slices sys ms arr v (slice_base l) (slice_len l) (slice_base r) (slice_len r)
     else rmerge_adjacent_slices sys ms arr v (slice_base l) (slice_len l) (slice_base r) (slice_len r) }"

text \<open>
  One round of \<open>establish_stack_invariant\<close> decides which slices to merge: \<open>Some (Some b)\<close> stands for
  a merge with \<open>isSecondTop = b\<close> and \<open>Some None\<close> for leaving the loop.
\<close>

definition short_slice :: "sortedslice_t list \<Rightarrow> nat \<Rightarrow> bool option" where
  "short_slice stack i = do {
     x \<leftarrow> at stack i;
     y \<leftarrow> at stack (i + 1);
     z \<leftarrow> at stack (i + 2);
     Some (slice_len x \<le> wrap_size (slice_len y + slice_len z)) }"

definition choose_merge :: "sortedslice_t list \<Rightarrow> nat \<Rightarrow> bool option option" where
  "choose_merge stack n = do {
     short \<leftarrow> (if 2 < n then short_slice stack (n - 3) else Some False);
     short \<leftarrow> (if \<not> short \<and> 3 < n then short_slice stack (n - 4) else Some short);
     if short then do {
       x \<leftarrow> at stack (n - 3);
       z \<leftarrow> at stack (n - 1);
       Some (Some (slice_len x \<le> slice_len z)) }
     else do {
       y \<leftarrow> at stack (n - 2);
       z \<leftarrow> at stack (n - 1);
       Some (if slice_len z < slice_len y then None else Some False) } }"

partial_function (option) establish_stack_invariant ::
  "'v sys_t \<Rightarrow> 'a mergesort_t \<Rightarrow> 'a list \<Rightarrow> 'v \<Rightarrow> (unit cres \<times> 'a mergesort_t \<times> 'a list \<times> 'v) option" where
  "establish_stack_invariant sys ms arr v =
     (if 1 < ms_stacksize ms then do {
        choice \<leftarrow> choose_merge (ms_stack ms) (ms_stacksize ms);
        case choice of
          None \<Rightarrow> Some (Inr (), ms, arr, v)
        | Some isSecondTop \<Rightarrow> do {
            (r, ms, arr, v) \<leftarrow> merge_topofstack sys ms arr v isSecondTop;
            if r \<noteq> Inr () then Some (r, ms, arr, v) else establish_stack_invariant sys ms arr v } }
      else Some (Inr (), ms, arr, v))"

partial_function (option) merge_all ::
  "'v sys_t \<Rightarrow> 'a mergesort_t \<Rightarrow> 'a list \<Rightarrow> 'v \<Rightarrow> (unit cres \<times> 'a mergesort_t \<times> 'a list \<times> 'v) option" where
  "merge_all sys ms arr v =
     (if 1 < ms_stacksize ms then do {
        (r, ms, arr, v) \<leftarrow> merge_topofstack sys ms arr v False;
        if r \<noteq> Inr () then Some (r, ms, arr, v) else merge_all sys ms arr v }
      else Some (Inr (), ms, arr, v))"

section \<open>Sorting\<close>

definition next_slice :: "('a \<Rightarrow> 'a \<Rightarrow> int) \<Rightarrow> u8 \<Rightarrow> nat \<Rightarrow> 'a list \<Rightarrow> nat \<Rightarrow> (nat \<times> 'a list) option" where
  "next_slice cmp minlen nextlen arr nxt = do {
     (slice_len, arr) \<leftarrow> count_presorted cmp nextlen arr nxt;
     if slice_len < unat minlen then do {
       let extlen = (if nextlen \<le> unat minlen then of_nat nextlen else minlen);
       arr \<leftarrow> insertsort cmp (of_nat slice_len) extlen arr nxt;
       Some (unat extlen, arr) }
     else Some (slice_len, arr) }"

definition push_slice :: "'a mergesort_t \<Rightarrow> nat \<Rightarrow> nat \<Rightarrow> 'a mergesort_t option" where
  "push_slice ms base len = do {
     stack \<leftarrow> put_at (ms_stack ms) (ms_stacksize ms) \<lparr>slice_base = base, slice_len = len\<rparr>;
     Some (ms\<lparr>ms_stack := stack, ms_stacksize := wrap_size (ms_stacksize ms + 1)\<rparr>) }"

partial_function (option) sort_slices ::
  "'v sys_t \<Rightarrow> u8 \<Rightarrow> 'a mergesort_t \<Rightarrow> 'a list \<Rightarrow> 'v \<Rightarrow> nat \<Rightarrow> nat
     \<Rightarrow> (unit cres \<times> 'a mergesort_t \<times> 'a list \<times> 'v) option" where
  "sort_slices sys minlen ms arr v nxt nextlen = do {
     cmp \<leftarrow> ms_compare ms;
     (slice_len, arr) \<leftarrow> next_slice cmp minlen nextlen arr nxt;
     (r, ms, arr, v) \<leftarrow> (if ms_stacksize ms = stack_length then merge_topofstack sys ms arr v False
                         else Some (Inr (), ms, arr, v));
     if r \<noteq> Inr () then Some (r, ms, arr, v) else do {
     ms \<leftarrow> push_slice ms nxt slice_len;
     (r, ms, arr, v) \<leftarrow> establish_stack_invariant sys ms arr v;
     if r \<noteq> Inr () then Some (r, ms, arr, v)
     else if sub_size nextlen slice_len \<noteq> 0
     then sort_slices sys minlen ms arr v (nxt + slice_len) (sub_size nextlen slice_len)
     else merge_all sys ms arr v } }"

text \<open>The body that \<open>sortbytes_mergesort\<close>, \<open>sortlong_mergesort\<close> and \<open>sortptr_mergesort\<close> share.\<close>

definition sort_mergesort ::
  "'v sys_t \<Rightarrow> 'a mergesort_t \<Rightarrow> u8 \<Rightarrow> nat \<Rightarrow> 'a list \<Rightarrow> ('a \<Rightarrow> 'a \<Rightarrow> int) option \<Rightarrow> 'v
     \<Rightarrow> (unit cres \<times> 'a mergesort_t \<times> 'a list \<times> 'v) option" where
  "sort_mergesort sys ms elemsize len a cmp v =
     (if len < 2 then Some (Inr (), ms, a, v)
      else case setsortstate ms cmp elemsize len of
          Inl err \<Rightarrow> Some (Inl err, ms, a, v)
        | Inr ms \<Rightarrow> sort_slices sys (compute_minslicelen len) ms a v 0 len)"

definition sortbytes_mergesort ::
  "'v sys_t \<Rightarrow> 'a mergesort_t \<Rightarrow> u8 \<Rightarrow> nat \<Rightarrow> 'a list \<Rightarrow> ('a \<Rightarrow> 'a \<Rightarrow> int) option \<Rightarrow> 'v
     \<Rightarrow> (unit cres \<times> 'a mergesort_t \<times> 'a list \<times> 'v) option" where
  "sortbytes_mergesort sys ms elemsize len a cmp v = sort_mergesort sys ms elemsize len a cmp v"

definition sortlong_mergesort ::
  "'v sys_t \<Rightarrow> 'a mergesort_t \<Rightarrow> u8 \<Rightarrow> nat \<Rightarrow> 'a list \<Rightarrow> ('a \<Rightarrow> 'a \<Rightarrow> int) option \<Rightarrow> 'v
     \<Rightarrow> (unit cres \<times> 'a mergesort_t \<times> 'a list \<times> 'v) option" where
  "sortlong_mergesort sys ms elemsize len a cmp v = sort_mergesort sys ms elemsize len a cmp v"

definition sortptr_mergesort ::
  "'v sys_t \<Rightarrow> 'a mergesort_t \<Rightarrow> nat \<Rightarrow> 'a list \<Rightarrow> ('a \<Rightarrow> 'a \<Rightarrow> int) option \<Rightarrow> 'v
     \<Rightarrow> (unit cres \<times> 'a mergesort_t \<times> 'a list \<times> 'v) option" where
  "sortptr_mergesort sys ms len a cmp v = sort_mergesort sys ms 8 len a cmp v"

text \<open>\<open>sortblob_mergesort\<close> copies longs if the address of the array and the element size allow it.\<close>

definition sortblob_mergesort ::
  "'v sys_t \<Rightarrow> 'a mergesort_t \<Rightarrow> u8 \<Rightarrow> nat \<Rightarrow> u64 \<Rightarrow> 'a list \<Rightarrow> ('a \<Rightarrow> 'a \<Rightarrow> int) option \<Rightarrow> 'v
     \<Rightarrow> (unit cres \<times> 'a mergesort_t \<times> 'a list \<times> 'v) option" where
  "sortblob_mergesort sys ms elemsize len address a cmp v =
     (if address mod 8 = 0 \<and> elemsize mod 8 = 0 then sortlong_mergesort sys ms elemsize len a cmp v
      else sortbytes_mergesort sys ms elemsize len a cmp v)"

declare insert_search.simps [code] insertsort_loop.simps [code] reverse_elements.simps [code]
declare establish_stack_invariant.simps [code] merge_all.simps [code] sort_slices.simps [code]

end
