(* ===== verification/Ds_Mergesort_Slices.thy ===== *)
theory Ds_Mergesort_Slices
  imports Ds_Mergesort
begin

text \<open>
  The sorted slices the mergesort starts from: what \<open>insertsort\<close>, \<open>reverse_elements\<close> and
  \<open>count_presorted\<close> do to a part of the array, and the length and the order of the slice that
  \<open>next_slice\<close> finds.
\<close>

section \<open>Insertion\<close>

lemma until_behind: "upward hit xs \<Longrightarrow> u \<in> set (drop (until hit xs) xs) \<Longrightarrow> hit u"
proof (induction xs)
  case (Cons x xs)
  then show ?case by (cases "hit x") (auto simp: until_def upward_def)
qed simp

lemma insert_search_ends:
  assumes "nxt < length arr" and "a + n \<le> length arr" and "l < r" and "r \<le> n"
    and "0 < l \<Longrightarrow> \<not> cmp (arr ! nxt) (arr ! (a + (l - 1))) < 0" and "r < n \<Longrightarrow> cmp (arr ! nxt) (arr ! (a + r)) < 0"
  shows "\<exists>k \<le> n. insert_search cmp arr a nxt l r = Some k \<and>
    (0 < k \<longrightarrow> \<not> cmp (arr ! nxt) (arr ! (a + (k - 1))) < 0) \<and> (k < n \<longrightarrow> cmp (arr ! nxt) (arr ! (a + k)) < 0)"
  using assms(3-)
proof (induction "r - l" arbitrary: l r rule: less_induct)
  case less
  define m where "m = (r + l) div 2"
  have m: "l \<le> m" "m < r" using less.prems(1) by (auto simp: m_def)
  have b: "a + m < length arr" using m less.prems(2) assms(2) by simp
  have eq: "insert_search cmp arr a nxt l r =
     (if cmp (arr ! nxt) (arr ! (a + m)) < 0 then (if l < m then insert_search cmp arr a nxt l m else Some l)
     else (if m + 1 < r then insert_search cmp arr a nxt (m + 1) r else Some (m + 1)))"
    unfolding insert_search.simps [of cmp arr a nxt l r] Let_def m_def [symmetric] using b assms(1) by simp
  show ?case
  proof (cases "cmp (arr ! nxt) (arr ! (a + m)) < 0")
    case hit: True
    show ?thesis
    proof (cases "l < m")
      case True
      then show ?thesis using less.hyps [of m l] less.prems m hit eq by simp
    next
      case False
      then have "l = m" using m by simp
      then show ?thesis using eq hit less.prems m by (intro exI [of _ l]) auto
    qed
  next
    case hit: False
    show ?thesis
    proof (cases "m + 1 < r")
      case True
      then show ?thesis using less.hyps [of r "m + 1"] less.prems m hit eq by simp
    next
      case False
      then have "r = m + 1" using m by simp
      then show ?thesis using eq hit less.prems m by (intro exI [of _ r]) auto
    qed
  qed
qed

text \<open>The elements behind the place move up by one.\<close>

definition hole :: "'a list \<Rightarrow> 'a list \<Rightarrow> 'a list \<Rightarrow> 'a list \<Rightarrow> 'a list \<times> nat \<times> nat \<Rightarrow> bool" where
  "hole pre post out bs s \<longleftrightarrow>
     (\<exists>x. s = (pre @ rev bs @ [x] @ rev out @ post, length pre + length bs + 1, length pre + length bs))"

lemma copydecr_elem_hole:
  assumes "hole pre post out (b # bs) s"
  shows "\<exists>s'. copydecr_elem s = Some s' \<and> hole pre post (out @ [b]) bs s'"
proof -
  obtain x where s: "s = (pre @ (rev bs @ [b]) @ [x] @ rev out @ post, Suc (length pre + length bs + 1), Suc (length pre + length bs))"
    using assms by (auto simp: hole_def)
  let ?arr = "pre @ (rev bs @ [b]) @ [x] @ rev out @ post"
  have "?arr ! (length pre + length bs) = b" by (simp add: nth_append)
  moreover have "?arr[length pre + length bs + 1 := b] = pre @ rev bs @ [b] @ rev (out @ [b]) @ post"
    by (simp add: list_update_append)
  ultimately have "copydecr_elem s = Some (pre @ rev bs @ [b] @ rev (out @ [b]) @ post,
      length pre + length bs + 1, length pre + length bs)"
    unfolding s copydecr_elem_def by simp
  then show ?thesis by (auto simp: hole_def)
qed

lemma insert_move:
  assumes "arr = pre @ low @ high @ [y] @ post" and "high \<noteq> []"
    and "nxt = length pre + length low + length high" and "n = length high"
  shows "do {
      (arr, _, dest) \<leftarrow> copy_loop copydecr_elem n (arr, nxt + 1, nxt);
      put_at arr dest y } = Some (pre @ low @ [y] @ high @ post)"
proof -
  have start: "hole (pre @ low) post [] (rev high) (arr, nxt + 1, nxt)"
    using assms by (auto simp: hole_def)
  obtain s' where s': "copy_loop copydecr_elem n (arr, nxt + 1, nxt) = Some s'" "hole (pre @ low) post (rev high) [] s'"
    using copy_loop_moves [where G = "hole (pre @ low) post" and f = copydecr_elem, OF copydecr_elem_hole start] assms(2,4)
    by auto
  then obtain x where "s' = ((pre @ low) @ [x] @ high @ post, length (pre @ low) + 1, length (pre @ low))"
    by (auto simp: hole_def)
  then show ?thesis using s'(1) by (simp add: list_update_append)
qed

text \<open>
  \<open>insertsort\<close> on the part \<open>xs\<close> of the array, of which the first \<open>i\<close> elements \<open>ys\<close> have been sorted.
\<close>

lemma insertsort_loop_ends:
  assumes "0 < i" and "i \<le> length xs" and "length ys = i" and "mset ys = mset (take i xs)"
    and "good \<Longrightarrow> sort_order cmp A \<and> set xs \<subseteq> A \<and> stable_sorting A cmp (take i xs) ys"
  shows "\<exists>zs. insertsort_loop cmp (pre @ ys @ drop i xs @ post) (length pre) (length pre + i) i (length xs) =
      Some (pre @ zs @ post) \<and> mset zs = mset xs \<and> (good \<longrightarrow> stable_sorting A cmp xs zs)"
  using assms
proof (induction "length xs - i" arbitrary: i ys)
  case 0
  then show ?case by (simp add: insertsort_loop.simps)
next
  case (Suc d)
  define arr where "arr = pre @ ys @ drop i xs @ post"
  have i: "i < length xs" using Suc.hyps(2) by simp
  define y where "y = xs ! i"
  have drop: "drop i xs = y # drop (Suc i) xs" using i by (simp add: y_def Cons_nth_drop_Suc)
  have take: "take (Suc i) xs = take i xs @ [y]" using i by (simp add: y_def take_Suc_conv_app_nth)
  have y: "arr ! (length pre + i) = y" using Suc.prems(3) by (simp add: arr_def drop nth_append)
  have ysn: "arr ! (length pre + j) = ys ! j" if "j < i" for j
    using that Suc.prems(3) by (simp add: arr_def nth_append)
  obtain k where k: "k \<le> i" "insert_search cmp arr (length pre) (length pre + i) 0 i = Some k"
    and ends: "0 < k \<longrightarrow> \<not> cmp y (ys ! (k - 1)) < 0" "k < i \<longrightarrow> cmp y (ys ! k) < 0"
  proof -
    have "length pre + i < length arr" "length pre + i \<le> length arr" using Suc.prems(3) i by (simp_all add: arr_def)
    from insert_search_ends [OF this Suc.prems(1) order_refl, of cmp, unfolded y]
    obtain k where "k \<le> i" "insert_search cmp arr (length pre) (length pre + i) 0 i = Some k"
      "0 < k \<longrightarrow> \<not> cmp y (arr ! (length pre + (k - 1))) < 0" "k < i \<longrightarrow> cmp y (arr ! (length pre + k)) < 0"
      by blast
    then show ?thesis using that [of k] ysn [of "k - 1"] ysn [of k] by (cases k) auto
  qed
  define ys' where "ys' = take k ys @ y # drop k ys"
  have "insertsort_loop cmp arr (length pre) (length pre + i) i (length xs) =
      insertsort_loop cmp (pre @ ys' @ drop (Suc i) xs @ post) (length pre) (length pre + i + 1) (i + 1) (length xs)"
  proof (cases "i = k")
    case True
    then have "arr = pre @ ys' @ drop (Suc i) xs @ post" using Suc.prems(3) drop [unfolded True] by (simp add: arr_def ys'_def)
    then show ?thesis using True i k(2) by (subst insertsort_loop.simps) simp
  next
    case False
    have "do {
        (arr, _, dest) \<leftarrow> copy_loop copydecr_elem (i - k) (arr, length pre + i + 1, length pre + i);
        put_at arr dest y } = Some (pre @ take k ys @ [y] @ drop k ys @ (drop (Suc i) xs @ post))"
      using False k(1) Suc.prems(3)
      by (intro insert_move) (auto simp: arr_def drop)
    moreover have "at arr (length pre + i) = Some y" using y i Suc.prems(3) by (simp add: arr_def drop nth_append)
    ultimately show ?thesis using False i k(2) by (subst insertsort_loop.simps) (simp add: ys'_def)
  qed
  moreover have "\<exists>zs. insertsort_loop cmp (pre @ ys' @ drop (Suc i) xs @ post) (length pre) (length pre + Suc i) (Suc i) (length xs) =
      Some (pre @ zs @ post) \<and> mset zs = mset xs \<and> (good \<longrightarrow> stable_sorting A cmp xs zs)"
  proof (rule Suc.hyps(1))
    have "mset (take k ys) + mset (drop k ys) = mset ys" by (metis append_take_drop_id mset_append)
    then have "mset ys' = add_mset y (mset ys)" by (simp add: ys'_def)
    then show "mset ys' = mset (take (Suc i) xs)" using Suc.prems(4) by (simp add: take)
    show "length ys' = Suc i" using k(1) Suc.prems(3) by (simp add: ys'_def)
    show "sort_order cmp A \<and> set xs \<subseteq> A \<and> stable_sorting A cmp (take (Suc i) xs) ys'" if good
    proof -
      note g = Suc.prems(5) [OF that]
      have sorted: "sorted_by cmp ys" using g by (simp add: stable_sorting_def)
      have A: "set ys \<subseteq> A" "y \<in> A" using g Suc.prems(4) i by (auto simp: y_def dest: mset_eq_setD in_set_takeD)
      have up: "upward (\<lambda>u. cmp y u < 0) ys"
        using sorted unfolding upward_def sorted_by_def
        by (rule sorted_wrt_mono_rel [rotated]) (metis A g sort_order.less_le_trans subsetD)
      have u: "until (\<lambda>u. cmp y u < 0) ys = k" using untilI [OF up, of k] k(1) ends Suc.prems(3) by simp
      have "stable_sorting A cmp (ys @ [y]) ys'"
        unfolding ys'_def using g sorted A k(1) Suc.prems(3) until_block(1) [OF u] until_behind [OF up] u
        by (intro sort_order.insert_stable) (auto simp: not_less)
      moreover have "stable_sorting A cmp [y] [y]" by (simp add: stable_sorting_def sorted_by_def)
      ultimately show ?thesis using g stable_sorting_append [of A cmp "take i xs" ys "[y]" "[y]" ys'] by (simp add: take)
    qed
  qed (use Suc.hyps(2) i in auto)
  ultimately show ?case by (simp add: arr_def)
qed

lemma insertsort_sorts:
  assumes "0 < unat start" and "unat start \<le> unat len" and "length xs = unat len"
  shows "\<exists>zs. insertsort cmp start len (pre @ xs @ post) (length pre) = Some (pre @ zs @ post) \<and> mset zs = mset xs \<and>
    (sort_order cmp A \<and> set xs \<subseteq> A \<and> sorted_by cmp (take (unat start) xs) \<longrightarrow> stable_sorting A cmp xs zs)"
  using insertsort_loop_ends [of "unat start" xs "take (unat start) xs"
      "sort_order cmp A \<and> set xs \<subseteq> A \<and> sorted_by cmp (take (unat start) xs)" cmp A pre post] assms
  by (simp add: insertsort_def stable_sorting_self flip: append_assoc)

section \<open>Presorted slices\<close>

lemma reverse_elements_reverses:
  "2 \<le> length xs \<Longrightarrow> hi = length pre + length xs - 1 \<Longrightarrow>
   reverse_elements (pre @ xs @ post) (length pre) hi = Some (pre @ rev xs @ post)"
proof (induction "length xs" arbitrary: xs pre post hi rule: less_induct)
  case less
  obtain x ys where xs1: "xs = x # ys" using less.prems(1) by (cases xs) auto
  obtain m y where xs: "xs = x # m @ [y]" using less.prems(1) xs1 by (cases ys rule: rev_cases) auto
  define arr where "arr = pre @ xs @ post"
  have hi: "hi = length pre + Suc (length m)" using less.prems(2) xs by simp
  have "at arr (length pre) = Some x" "at arr hi = Some y" using hi by (simp_all add: arr_def xs nth_append)
  moreover have "put_at arr (length pre) y = Some (pre @ [y] @ m @ [y] @ post)" by (simp add: arr_def xs)
  moreover have "put_at (pre @ [y] @ m @ [y] @ post) hi x = Some (pre @ [y] @ m @ [x] @ post)"
    using hi by (simp add: list_update_append)
  ultimately have eq: "reverse_elements arr (length pre) hi =
      (if length pre + 1 < hi - 1 then reverse_elements (pre @ [y] @ m @ [x] @ post) (length pre + 1) (hi - 1)
       else Some (pre @ [y] @ m @ [x] @ post))"
    by (subst reverse_elements.simps) simp
  show ?case
  proof (cases "length pre + 1 < hi - 1")
    case True
    then have m: "2 \<le> length m" using hi by simp
    have "reverse_elements ((pre @ [y]) @ m @ ([x] @ post)) (length (pre @ [y])) (hi - 1) = Some ((pre @ [y]) @ rev m @ ([x] @ post))"
      using m xs hi by (intro less.hyps) auto
    then show ?thesis using eq True by (simp add: arr_def xs)
  next
    case False
    then have "length m \<le> 1" using hi by simp
    then have "rev m = m" by (cases m) auto
    then show ?thesis using eq False by (simp add: arr_def xs)
  qed
qed

lemma descending_loop_ends:
  "nxt + n < length arr \<Longrightarrow> \<exists>m \<le> n. descending_loop cmp arr n nxt = Some (n - m, nxt + m) \<and>
     (\<forall>j < m. cmp (arr ! (nxt + Suc j)) (arr ! (nxt + j)) < 0)"
proof (induction n arbitrary: nxt)
  case (Suc n)
  show ?case
  proof (cases "cmp (arr ! (nxt + 1)) (arr ! nxt) < 0")
    case True
    obtain m where m: "m \<le> n" "descending_loop cmp arr n (nxt + 1) = Some (n - m, nxt + 1 + m)"
      "\<forall>j < m. cmp (arr ! (nxt + 1 + Suc j)) (arr ! (nxt + 1 + j)) < 0"
      using Suc.IH [of "nxt + 1"] Suc.prems by auto
    have "cmp (arr ! (nxt + Suc j)) (arr ! (nxt + j)) < 0" if "j < Suc m" for j
      using that m(3) True by (cases j) auto
    then show ?thesis using m True Suc.prems by (intro exI [of _ "Suc m"]) auto
  next
    case False
    then show ?thesis using Suc.prems by (intro exI [of _ 0]) auto
  qed
qed simp

lemma ascending_loop_ends:
  "nxt + 1 + n < length arr \<Longrightarrow> \<exists>m \<le> n. ascending_loop cmp arr n nxt = Some (n - m) \<and>
     (\<forall>j < m. \<not> cmp (arr ! (nxt + 1 + Suc j)) (arr ! (nxt + 1 + j)) < 0)"
proof (induction n arbitrary: nxt)
  case (Suc n)
  show ?case
  proof (cases "cmp (arr ! (nxt + 2)) (arr ! (nxt + 1)) < 0")
    case False
    obtain m where m: "m \<le> n" "ascending_loop cmp arr n (nxt + 1) = Some (n - m)"
      "\<forall>j < m. \<not> cmp (arr ! (nxt + 1 + 1 + Suc j)) (arr ! (nxt + 1 + 1 + j)) < 0"
      using Suc.IH [of "nxt + 1"] Suc.prems by auto
    have "\<not> cmp (arr ! (nxt + 1 + Suc j)) (arr ! (nxt + 1 + j)) < 0" if "j < Suc m" for j
      using that m(3) False by (cases j) auto
    then show ?thesis using m False Suc.prems by (intro exI [of _ "Suc m"]) (auto simp: Let_def)
  next
    case True
    then show ?thesis using Suc.prems by (intro exI [of _ 0]) (auto simp: Let_def)
  qed
qed simp

context sort_order begin

lemma ascending_sorted:
  "set xs \<subseteq> A \<Longrightarrow> (\<And>j. Suc j < length xs \<Longrightarrow> \<not> cmp (xs ! Suc j) (xs ! j) < 0) \<Longrightarrow> sorted_by cmp xs"
proof (induction xs rule: induct_list012)
  case (3 x y zs)
  have "\<not> cmp ((y # zs) ! Suc j) ((y # zs) ! j) < 0" if "Suc j < length (y # zs)" for j
    using "3.prems"(2) [of "Suc j"] that by simp
  then have "sorted_by cmp (y # zs)" using "3.prems"(1) by (intro "3.IH"(2)) auto
  moreover have "cmp x y \<le> 0" using "3.prems"(2) [of 0] "3.prems"(1) le_mirror [of x y] by simp
  moreover from calculation have "cmp x z \<le> 0" if "z \<in> set zs" for z
    using that "3.prems"(1) le_trans [of x y z] by (auto simp: sorted_by_Cons)
  ultimately show ?case by (auto simp: sorted_by_Cons)
qed (simp_all add: sorted_by_def)

lemma descending_sorted:
  "set xs \<subseteq> A \<Longrightarrow> (\<And>j. Suc j < length xs \<Longrightarrow> cmp (xs ! Suc j) (xs ! j) < 0) \<Longrightarrow>
   sorted_wrt (\<lambda>x y. cmp y x < 0) xs"
proof (induction xs rule: induct_list012)
  case (3 x y zs)
  have "cmp ((y # zs) ! Suc j) ((y # zs) ! j) < 0" if "Suc j < length (y # zs)" for j
    using "3.prems"(2) [of "Suc j"] that by simp
  then have yz: "sorted_wrt (\<lambda>x y. cmp y x < 0) (y # zs)" using "3.prems"(1) by (intro "3.IH"(2)) auto
  have xy: "cmp y x < 0" using "3.prems"(2) [of 0] by simp
  have "cmp z x < 0" if "z \<in> set zs" for z
    using that yz xy "3.prems"(1) less_le_trans [of z y x] by (auto simp: less_imp_le)
  then show ?case using yz xy by auto
qed simp_all

end

text \<open>
  A slice of \<open>k\<close> elements has been sorted at the start of \<open>xs\<close>, the rest of which has not changed.
\<close>

definition slice_sorted :: "('a \<Rightarrow> 'a \<Rightarrow> int) \<Rightarrow> 'a set \<Rightarrow> 'a list \<Rightarrow> nat \<Rightarrow> 'a list \<Rightarrow> bool" where
  "slice_sorted cmp A xs k zs \<longleftrightarrow> 0 < k \<and> k \<le> length xs \<and> length zs = length xs \<and> drop k zs = drop k xs \<and>
     mset (take k zs) = mset (take k xs) \<and>
     (sort_order cmp A \<and> set xs \<subseteq> A \<longrightarrow> stable_sorting A cmp (take k xs) (take k zs))"

lemma count_presorted_sorts:
  assumes "xs \<noteq> []"
  shows "\<exists>k zs. count_presorted cmp (length xs) (pre @ xs @ post) (length pre) = Some (k, pre @ zs @ post) \<and>
    slice_sorted cmp A xs k zs"
proof (cases "length xs \<le> 1")
  case True
  then obtain x where "xs = [x]" using assms by (cases xs) auto
  then show ?thesis by (auto simp: count_presorted_def slice_sorted_def stable_sorting_def sorted_by_def)
next
  case False
  define arr where "arr = pre @ xs @ post"
  have nth: "arr ! (length pre + j) = xs ! j" if "j < length xs" for j
    using that by (simp add: arr_def nth_append)
  have reads: "at arr (length pre + 1) = Some (xs ! 1)" "at arr (length pre) = Some (xs ! 0)"
    using nth [of 0] nth [of 1] False assms by (simp_all add: at_def arr_def)
  have bound: "length pre + 1 + (length xs - 2) < length arr" using False by (simp add: arr_def)
  have A: "set (take k xs) \<subseteq> A" if "set xs \<subseteq> A" for k using that set_take_subset [of k xs] by blast
  show ?thesis
  proof (cases "cmp (xs ! 1) (xs ! 0) < 0")
    case True
    obtain m where m: "m \<le> length xs - 2"
      "descending_loop cmp arr (length xs - 2) (length pre + 1) = Some (length xs - 2 - m, length pre + 1 + m)"
      and less: "\<forall>j < m. cmp (arr ! (length pre + 1 + Suc j)) (arr ! (length pre + 1 + j)) < 0"
      using descending_loop_ends [OF bound, of cmp] by blast
    define k where "k = m + 2"
    have k: "k \<le> length xs" "length xs - (length xs - 2 - m) = k" using m(1) False by (simp_all add: k_def)
    have down: "cmp (xs ! Suc j) (xs ! j) < 0" if "Suc j < k" for j
    proof (cases j)
      case (Suc i)
      then have "cmp (arr ! (length pre + Suc j)) (arr ! (length pre + j)) < 0" using less that by (simp add: k_def)
      then show ?thesis using nth [of j] nth [of "Suc j"] that k by simp
    qed (use True in simp)
    have "reverse_elements (pre @ take k xs @ (drop k xs @ post)) (length pre) (length pre + 1 + m) =
        Some (pre @ rev (take k xs) @ (drop k xs @ post))"
      using k(1) by (intro reverse_elements_reverses) (simp_all add: k_def)
    then have "count_presorted cmp (length xs) arr (length pre) = Some (k, pre @ (rev (take k xs) @ drop k xs) @ post)"
      using reads m(2) True False k(2) by (simp add: count_presorted_def arr_def flip: append_assoc)
    moreover have "stable_sorting A cmp (take k xs) (rev (take k xs))" if "sort_order cmp A" "set xs \<subseteq> A"
      using sort_order.reverse_stable [OF that(1)] sort_order.descending_sorted [OF that(1) A [OF that(2)], of k] down k(1)
        A [OF that(2)] by simp
    moreover have "0 < k" by (simp add: k_def)
    ultimately show ?thesis using k(1) unfolding slice_sorted_def arr_def [symmetric]
      by (intro exI [of _ k] exI [of _ "rev (take k xs) @ drop k xs"]) simp
  next
    case up: False
    obtain m where m: "m \<le> length xs - 2"
      "ascending_loop cmp arr (length xs - 2) (length pre) = Some (length xs - 2 - m)"
      and less: "\<forall>j < m. \<not> cmp (arr ! (length pre + 1 + Suc j)) (arr ! (length pre + 1 + j)) < 0"
      using ascending_loop_ends [OF bound, of cmp] by blast
    define k where "k = m + 2"
    have k: "k \<le> length xs" "length xs - (length xs - 2 - m) = k" using m(1) False by (simp_all add: k_def)
    have ups: "\<not> cmp (xs ! Suc j) (xs ! j) < 0" if "Suc j < k" for j
    proof (cases j)
      case (Suc i)
      then have "\<not> cmp (arr ! (length pre + Suc j)) (arr ! (length pre + j)) < 0" using less that by (simp add: k_def)
      then show ?thesis using nth [of j] nth [of "Suc j"] that k by simp
    qed (use up in simp)
    have "count_presorted cmp (length xs) arr (length pre) = Some (k, pre @ xs @ post)"
      using reads m(2) up False k(2) by (simp add: count_presorted_def arr_def)
    moreover have "stable_sorting A cmp (take k xs) (take k xs)" if "sort_order cmp A" "set xs \<subseteq> A"
      using sort_order.ascending_sorted [OF that(1) A [OF that(2)], of k] ups k(1) by (intro stable_sorting_self) simp
    moreover have "0 < k" by (simp add: k_def)
    ultimately show ?thesis using k(1) unfolding slice_sorted_def arr_def [symmetric]
      by (intro exI [of _ k] exI [of _ xs]) (simp add: arr_def)
  qed
qed

lemma next_slice_sorts:
  assumes "xs \<noteq> []" and "0 < minlen"
  shows "\<exists>k zs. next_slice cmp minlen (length xs) (pre @ xs @ post) (length pre) = Some (k, pre @ zs @ post) \<and>
    slice_sorted cmp A xs k zs \<and> (k = length xs \<or> unat minlen \<le> k)"
proof -
  obtain k zs where c: "count_presorted cmp (length xs) (pre @ xs @ post) (length pre) = Some (k, pre @ zs @ post)"
    and s: "slice_sorted cmp A xs k zs" using count_presorted_sorts [OF assms(1)] by blast
  have min: "unat minlen < 256" using unsigned_less [of minlen] by simp
  show ?thesis
  proof (cases "k < unat minlen")
    case False
    then show ?thesis using c s by (auto simp: next_slice_def)
  next
    case True
    define extlen where "extlen = (if length xs \<le> unat minlen then of_nat (length xs) else minlen)"
    define m where "m = unat extlen"
    have m: "m = min (length xs) (unat minlen)" using min by (auto simp: m_def extlen_def unat_of_nat)
    have uk: "unat (of_nat k :: u8) = k" using True min by (simp add: unat_of_nat)
    have k: "0 < k" "k \<le> m" "m \<le> length xs" "length zs = length xs" "drop k zs = drop k xs"
      "mset (take k zs) = mset (take k xs)" using s True m by (auto simp: slice_sorted_def)
    have tz: "take m zs = take k zs @ take (m - k) (drop k xs)" "take m xs = take k xs @ take (m - k) (drop k xs)"
      using k(2,5) take_add [of k "m - k" zs] take_add [of k "m - k" xs] by simp_all
    have dz: "drop m zs = drop m xs"
      using k(2,5) drop_drop [of "m - k" k zs] drop_drop [of "m - k" k xs] by simp
    obtain ws where w: "insertsort cmp (of_nat k) extlen (pre @ take m zs @ (drop m zs @ post)) (length pre) =
        Some (pre @ ws @ (drop m zs @ post))" "mset ws = mset (take m zs)"
      "sort_order cmp A \<and> set (take m zs) \<subseteq> A \<and> sorted_by cmp (take k (take m zs)) \<longrightarrow> stable_sorting A cmp (take m zs) ws"
      using insertsort_sorts [of "of_nat k" extlen "take m zs" cmp pre "drop m zs @ post" A] uk k
      by (auto simp: m_def [symmetric] min_absorb2)
    have lw: "length ws = m" using w(2) k(3,4) by (metis length_take min_absorb2 mset_eq_length)
    have "next_slice cmp minlen (length xs) (pre @ xs @ post) (length pre) = Some (m, pre @ (ws @ drop m zs) @ post)"
      using c True w(1) by (simp add: next_slice_def Let_def extlen_def [symmetric] m_def [symmetric] flip: append_assoc)
    moreover have "stable_sorting A cmp (take m xs) ws" if "sort_order cmp A" "set xs \<subseteq> A"
    proof -
      have st: "stable_sorting A cmp (take k xs) (take k zs)" using s that by (simp add: slice_sorted_def)
      have "set (take m zs) = set (take m xs)" using k(6) tz by (metis mset_append mset_eq_setD)
      then have "set (take m zs) \<subseteq> A" using that(2) set_take_subset [of m xs] by blast
      then have "stable_sorting A cmp (take m zs) ws"
        using w(3) that(1) st k(2) by (simp add: stable_sorting_def min_absorb1)
      then show ?thesis using st unfolding tz by (simp add: stable_sorting_def)
    qed
    moreover have "mset ws = mset (take m xs)" using w(2) k(6) by (simp add: tz)
    ultimately have "slice_sorted cmp A xs m (ws @ drop m zs)" using k lw dz by (simp add: slice_sorted_def)
    moreover have "m = length xs \<or> unat minlen \<le> m" using m by auto
    ultimately show ?thesis
      using \<open>next_slice cmp minlen (length xs) (pre @ xs @ post) (length pre) = _\<close> by blast
  qed
qed

end
