(* ===== verification/Ds_Mergesort_Stack.thy ===== *)
theory Ds_Mergesort_Stack
  imports Ds_Mergesort_Slices
begin

text \<open>
  The stack of sorted slices: it describes the part of the array that has been scanned, merging its
  top entries keeps it so, \<open>establish_stack_invariant\<close> restores the documented size invariant, and
  under this invariant its 85 entries are enough for every array.
\<close>

section \<open>The slices on the stack\<close>

text \<open>
  \<open>slices\<close> are the contents of the slices from the bottom of the stack to its top; they lie one
  after the other at the start of the array.
\<close>

definition stacked :: "'a mergesort_t \<Rightarrow> 'a list list \<Rightarrow> bool" where
  "stacked ms slices \<longleftrightarrow> ms_stacksize ms = length slices \<and> length slices \<le> stack_length \<and>
     length (ms_stack ms) = stack_length \<and> [] \<notin> set slices \<and>
     (\<forall>i < length slices. ms_stack ms ! i =
        \<lparr>slice_base = length (concat (take i slices)), slice_len = length (slices ! i)\<rparr>)"

text \<open>The sort object between two calls.\<close>

definition wf_mergesort :: "'a mergesort_t \<Rightarrow> bool" where
  "wf_mergesort ms \<longleftrightarrow> length (ms_stack ms) = stack_length \<and> ms_stacksize ms \<le> stack_length \<and>
     wf_temp (ms_temp ms) (ms_tempsize ms)"

text \<open>
  The invariant of the whole sort of the array \<open>a\<close>: \<open>parts\<close> are the parts of \<open>a\<close> that the slices
  have been made of, \<open>rest\<close> is not scanned yet.
\<close>

definition sorting :: "bool \<Rightarrow> 'a set \<Rightarrow> ('a \<Rightarrow> 'a \<Rightarrow> int) \<Rightarrow> 'a list \<Rightarrow> 'a mergesort_t \<Rightarrow> 'a list
    \<Rightarrow> 'a list list \<Rightarrow> 'a list list \<Rightarrow> 'a list \<Rightarrow> bool" where
  "sorting good A cmp a ms arr parts slices rest \<longleftrightarrow>
     stacked ms slices \<and> arr = concat slices @ rest \<and> a = concat parts @ rest \<and>
     list_all2 (\<lambda>p z. mset z = mset p \<and> (good \<longrightarrow> stable_sorting A cmp p z)) parts slices \<and>
     ms_compare ms = Some cmp \<and> ms_elemsize ms \<noteq> 0 \<and> length a * unat (ms_elemsize ms) < 2 ^ 64 \<and>
     (good \<longrightarrow> sort_order cmp A \<and> set a \<subseteq> A) \<and> wf_temp (ms_temp ms) (ms_tempsize ms)"

lemma sortingD:
  assumes "sorting good A cmp a ms arr parts slices rest"
  shows "stacked ms slices" "arr = concat slices @ rest" "a = concat parts @ rest"
    "list_all2 (\<lambda>p z. mset z = mset p \<and> (good \<longrightarrow> stable_sorting A cmp p z)) parts slices"
    "ms_compare ms = Some cmp" "ms_elemsize ms \<noteq> 0" "length a * unat (ms_elemsize ms) < 2 ^ 64"
    "good \<Longrightarrow> sort_order cmp A \<and> set a \<subseteq> A" "wf_temp (ms_temp ms) (ms_tempsize ms)"
  using assms unfolding sorting_def by blast+

lemma stackedD:
  assumes "stacked ms slices"
  shows "ms_stacksize ms = length slices" "length slices \<le> stack_length" "length (ms_stack ms) = stack_length"
    "[] \<notin> set slices"
    "i < length slices \<Longrightarrow> ms_stack ms ! i = \<lparr>slice_base = length (concat (take i slices)), slice_len = length (slices ! i)\<rparr>"
  using assms unfolding stacked_def by blast+

lemma sorting_wf: "sorting good A cmp a ms arr parts slices rest \<Longrightarrow> wf_mergesort ms"
  by (frule sortingD(1)) (simp add: wf_mergesort_def stackedD sortingD(9))

lemma list_all2_mset_concat:
  "list_all2 (\<lambda>p z. mset z = mset p \<and> Q p z) parts slices \<Longrightarrow> mset (concat slices) = mset (concat parts)"
  by (induction rule: list_all2_induct) auto

lemma sorting_mset: "sorting good A cmp a ms arr parts slices rest \<Longrightarrow> mset arr = mset a"
  using list_all2_mset_concat [OF sortingD(4)] sortingD(2,3) by fastforce

lemma sorting_length: "sorting good A cmp a ms arr parts slices rest \<Longrightarrow> length arr = length a"
  using sorting_mset mset_eq_length by blast

lemma length_concat_bound: "s \<in> set slices \<Longrightarrow> length s \<le> length (concat slices)"
  by (induction slices) auto

lemma sorting_size:
  assumes "sorting good A cmp a ms arr parts slices rest"
  shows "length arr < 2 ^ 64"
proof -
  have "1 \<le> unat (ms_elemsize ms)" using sortingD(6) [OF assms] by (simp add: Suc_leI unat_gt_0)
  then have "length a * 1 \<le> length a * unat (ms_elemsize ms)" by (rule mult_le_mono2)
  then show ?thesis using sortingD(7) [OF assms] sorting_length [OF assms] by linarith
qed

section \<open>Merging at the top\<close>

text \<open>The stack after a merge of the slices \<open>ls\<close> and \<open>rs\<close>, which at most one slice covers.\<close>

lemma stacked_merge:
  assumes st: "stacked ms (S @ [ls, rs] @ T)" and T: "length T \<le> 1" and zs: "length zs = length ls + length rs"
    and l: "l = ms_stack ms ! length S"
    and stack1: "stack1 = (ms_stack ms)[length S := l\<lparr>slice_len := length ls + length rs\<rparr>]"
    and stack: "stack = (if T \<noteq> [] then stack1[length S + 1 := stack1 ! (length S + 2)] else stack1)"
    and ms': "ms_stack ms' = stack" "ms_stacksize ms' = length S + 1 + length T"
  shows "stacked ms' (S @ [zs] @ T)"
proof -
  note d = stackedD [OF st]
  have old: "ms_stack ms ! i = \<lparr>slice_base = length (concat (take i (S @ [ls, rs] @ T))), slice_len = length ((S @ [ls, rs] @ T) ! i)\<rparr>"
    if "i < length S + 2 + length T" for i using d(5) [of i] that by simp
  have len: "length S + 2 + length T \<le> length (ms_stack ms)" using d(2,3) by simp
  have "ms_stack ms' ! i = \<lparr>slice_base = length (concat (take i (S @ [zs] @ T))), slice_len = length ((S @ [zs] @ T) ! i)\<rparr>"
    if i: "i < length (S @ [zs] @ T)" for i
  proof -
    consider "i < length S" | "i = length S" | t where "i = length S + 1" "T = [t]"
      using i T by (cases T) (auto simp: less_Suc_eq)
    then show ?thesis
    proof cases
      case 1
      then show ?thesis using old [of i] len by (auto simp: ms' stack stack1 nth_append)
    next
      case 2
      then show ?thesis using old [of i] len zs by (auto simp: ms' stack stack1 l)
    next
      case 3
      then show ?thesis using old [of "i + 1"] len zs by (auto simp: ms' stack stack1 nth_append)
    qed
  qed
  moreover have "zs \<noteq> []" using zs d(4) by auto
  moreover have "length stack = stack_length" using d(3) by (simp add: stack stack1)
  ultimately show ?thesis using d(2,4) ms' unfolding stacked_def by auto
qed

lemma list_all2_merge:
  assumes "list_all2 P parts (S @ [ls, rs] @ T)"
  obtains pS pl pr pT where "parts = pS @ [pl, pr] @ pT" "list_all2 P pS S" "P pl ls" "P pr rs" "list_all2 P pT T"
  using assms by (auto simp: list_all2_append2 list_all2_Cons2)

lemma merge_topofstack_merges:
  assumes inv: "sorting good A cmp a ms arr parts (S @ [ls, rs] @ T) rest" and T: "length T \<le> 1"
  shows "\<exists>r ms' arr' v' parts' zs. merge_topofstack sys ms arr v (T \<noteq> []) = Some (r, ms', arr', v') \<and>
    sorting (good \<and> r = Inr ()) A cmp a ms' arr' parts' (S @ [zs] @ T) rest \<and>
    length zs = length ls + length rs \<and> same_setup (ms\<lparr>ms_stack := ms_stack ms', ms_stacksize := ms_stacksize ms'\<rparr>) ms' \<and>
    (grants sys (length a * unat (ms_elemsize ms) div 2) \<longrightarrow> r = Inr ())"
proof -
  note d = sortingD [OF inv] and st = stackedD [OF sortingD(1) [OF inv]]
  define pre where "pre = concat S"
  define post where "post = concat T @ rest"
  have arr: "arr = pre @ ls @ rs @ post" using d(2) by (simp add: pre_def post_def)
  have ne: "ls \<noteq> []" "rs \<noteq> []" using st(4) by auto
  have size: "length arr < 2 ^ 64" by (rule sorting_size [OF inv])
  have small: "length S + 2 + length T \<le> 85" using st(2) by (simp add: stack_length_def)
  define stack1 where "stack1 = (ms_stack ms)[length S := (ms_stack ms ! length S)\<lparr>slice_len := length ls + length rs\<rparr>]"
  define stack where "stack = (if T \<noteq> [] then stack1[length S + 1 := stack1 ! (length S + 2)] else stack1)"
  define ms1 where "ms1 = ms\<lparr>ms_stack := stack, ms_stacksize := length S + 1 + length T\<rparr>"
  have len: "length (ms_stack ms) = 85" "length stack1 = 85" using st(3) by (simp_all add: stack1_def stack_length_def)
  have l: "ms_stack ms ! length S = \<lparr>slice_base = length pre, slice_len = length ls\<rparr>"
    using st(5) [of "length S"] by (simp add: pre_def)
  have r: "ms_stack ms ! (length S + 1) = \<lparr>slice_base = length pre + length ls, slice_len = length rs\<rparr>"
    using st(5) [of "length S + 1"] by (simp add: pre_def nth_append)
  have n: "sub_size (ms_stacksize ms) 1 = length S + 1 + length T"
    "sub_size (length S + 1 + length T) (if T \<noteq> [] then 1 else 0) = length S + 1" "sub_size (length S + 1) 1 = length S"
    using st(1) small T by (cases T; simp)+
  have top: "(if T \<noteq> [] then do { top \<leftarrow> at stack1 (length S + 1 + 1); put_at stack1 (length S + 1) top } else Some stack1) = Some stack"
    using small len T by (cases T) (auto simp: stack_def)
  have wrap: "wrap_size (length ls + length rs) = length ls + length rs" using size arr by simp
  define res where "res = (if length ls \<le> length rs
      then merge_adjacent_slices sys ms1 arr v (length pre) (length ls) (length pre + length ls) (length rs)
      else rmerge_adjacent_slices sys ms1 arr v (length pre) (length ls) (length pre + length ls) (length rs))"
  have code: "merge_topofstack sys ms arr v (T \<noteq> []) = res"
  proof -
    have "at (ms_stack ms) (length S) = Some \<lparr>slice_base = length pre, slice_len = length ls\<rparr>"
      "at (ms_stack ms) (length S + 1) = Some \<lparr>slice_base = length pre + length ls, slice_len = length rs\<rparr>"
      using small len l r by simp_all
    moreover have "put_at (ms_stack ms) (length S) (\<lparr>slice_base = length pre, slice_len = length ls\<rparr>
        \<lparr>slice_len := wrap_size (length ls + length rs)\<rparr>) = Some stack1"
      using small len l wrap by (simp add: stack1_def)
    ultimately show ?thesis
      unfolding merge_topofstack_def Let_def n
      by (simp only: Option.bind.simps sortedslice_t.select_convs top ms1_def [symmetric] res_def)
  qed
  have conf: "ms_compare ms1 = Some cmp" "ms_elemsize ms1 \<noteq> 0"
    "length (pre @ ls @ rs @ post) * unat (ms_elemsize ms1) < 2 ^ 64"
    using d(5,6,7) sorting_length [OF inv] arr by (simp_all add: ms1_def)
  define n where "n = min (length ls) (length rs) * unat (ms_elemsize ms)"
  have "merged sys n ms1 cmp A pre ls rs post res"
    using merge_adjacent_merges [OF conf(1) ne conf(2,3), of sys A v]
      rmerge_adjacent_merges [OF conf(1) ne conf(2,3), of sys A v]
    unfolding res_def n_def arr by (auto simp: ms1_def min_def)
  then obtain e ms' zs v' where m: "res = Some (e, ms', pre @ zs @ post, v')" "same_setup ms1 ms'" "mset zs = mset (ls @ rs)"
    and ord: "e = Inr () \<and> sort_order cmp A \<and> sorted_by cmp ls \<and> sorted_by cmp rs \<and> set ls \<subseteq> A \<and> set rs \<subseteq> A \<longrightarrow>
        stable_sorting A cmp (ls @ rs) zs"
    and mem: "grants sys n \<longrightarrow> e = Inr ()"
    unfolding merged_def by blast
  have lz: "length zs = length ls + length rs" using mset_eq_length [OF m(3)] by simp
  have ms': "ms_stack ms' = stack" "ms_stacksize ms' = length S + 1 + length T" "ms_compare ms' = Some cmp"
    "ms_elemsize ms' = ms_elemsize ms"
    using m(2) d(5) by (simp_all add: same_setup_def ms1_def)
  let ?P = "\<lambda>p z. mset z = mset p \<and> (good \<longrightarrow> stable_sorting A cmp p z)"
  obtain pS pl pr pT where p: "parts = pS @ [pl, pr] @ pT" "list_all2 ?P pS S" "?P pl ls" "?P pr rs" "list_all2 ?P pT T"
    by (rule list_all2_merge [OF d(4)])
  have A: "set pl \<subseteq> A \<and> set pr \<subseteq> A" if good using d(8) [OF that] d(3) p(1) by auto
  have sets: "set ls = set pl" "set rs = set pr" using p(3,4) by (metis set_mset_mset)+
  have zs: "stable_sorting A cmp (pl @ pr) zs" if "good" "e = Inr ()"
  proof (rule stable_sorting_append)
    show "stable_sorting A cmp pl ls" "stable_sorting A cmp pr rs" using p(3,4) that by simp_all
    then show "stable_sorting A cmp (ls @ rs) zs"
      using ord that d(8) [OF that(1)] A [OF that(1)] sets by (simp add: stable_sorting_def)
  qed
  have weaken: "list_all2 (\<lambda>p z. mset z = mset p \<and> (good \<and> e = Inr () \<longrightarrow> stable_sorting A cmp p z)) ps qs"
    if "list_all2 (\<lambda>p z. mset z = mset p \<and> (good \<longrightarrow> stable_sorting A cmp p z)) ps qs" for ps qs
    using that by (rule list_all2_mono) simp
  have "sorting (good \<and> e = Inr ()) A cmp a ms' (pre @ zs @ post) (pS @ [pl @ pr] @ pT) (S @ [zs] @ T) rest"
    unfolding sorting_def
  proof (intro conjI)
    show "stacked ms' (S @ [zs] @ T)"
      using stacked_merge [OF d(1) T lz refl stack1_def stack_def ms'(1,2)] .
    show "list_all2 (\<lambda>p z. mset z = mset p \<and> (good \<and> e = Inr () \<longrightarrow> stable_sorting A cmp p z)) (pS @ [pl @ pr] @ pT) (S @ [zs] @ T)"
      using weaken [OF p(2)] weaken [OF p(5)] zs m(3) p(3,4) by (intro list_all2_appendI) simp_all
    show "wf_temp (ms_temp ms') (ms_tempsize ms')"
      using m(2) d(9) by (simp add: same_setup_def ms1_def)
  qed (use d(3,6,7,8) p(1) ms' in \<open>simp_all add: pre_def post_def\<close>)
  moreover have "n \<le> length a * unat (ms_elemsize ms) div 2"
  proof -
    have "2 * min (length ls) (length rs) \<le> length a" using sorting_length [OF inv] arr by simp
    then have "2 * min (length ls) (length rs) * unat (ms_elemsize ms) \<le> length a * unat (ms_elemsize ms)" by (rule mult_le_mono1)
    then have "n * 2 \<le> length a * unat (ms_elemsize ms)" by (simp only: n_def mult_ac)
    then show ?thesis by linarith
  qed
  then have "grants sys (length a * unat (ms_elemsize ms) div 2) \<longrightarrow> e = Inr ()" using mem grants_mono by blast
  moreover have "same_setup (ms\<lparr>ms_stack := ms_stack ms', ms_stacksize := ms_stacksize ms'\<rparr>) ms'"
    using m(2) by (simp add: same_setup_def ms1_def)
  ultimately show ?thesis using code m(1) lz by blast
qed

end
