(* ===== verification/Ds_Mergesort_Invariant.thy ===== *)
theory Ds_Mergesort_Invariant
  imports Ds_Mergesort_Stack
begin

text \<open>
  The size invariant of the stack of slices: \<open>establish_stack_invariant\<close> checks it only at the top
  and restores it for the whole stack, and a stack of slices of at least 32 elements that satisfies
  it describes more than \<open>2 ^ 64\<close> elements before its 85 entries are used up.
\<close>

section \<open>The invariant\<close>

text \<open>
  The documented invariant on the lengths of the slices, and the part of it that still holds after
  a slice has been pushed, and between two merges at the top.
\<close>

definition stack_invariant :: "nat list \<Rightarrow> bool" where
  "stack_invariant lens \<longleftrightarrow>
     (\<forall>i. i + 2 < length lens \<longrightarrow> lens ! (i + 1) + lens ! (i + 2) < lens ! i) \<and>
     (1 < length lens \<longrightarrow> lens ! (length lens - 1) < lens ! (length lens - 2))"

definition deep_invariant :: "nat list \<Rightarrow> bool" where
  "deep_invariant lens \<longleftrightarrow> (\<forall>i. i + 4 < length lens \<longrightarrow> lens ! (i + 1) + lens ! (i + 2) < lens ! i)"

lemma deep_invariant_push: "stack_invariant lens \<Longrightarrow> deep_invariant (lens @ [k])"
  by (auto simp: stack_invariant_def deep_invariant_def nth_append)

lemma deep_invariant_merge:
  assumes "deep_invariant (ks @ [l, r] @ ts)" and "length ts \<le> 1"
  shows "deep_invariant (ks @ [m] @ ts)"
  unfolding deep_invariant_def
proof (intro allI impI)
  fix i
  assume i: "i + 4 < length (ks @ [m] @ ts)"
  then have "i + 2 < length ks" using assms(2) by simp
  then show "(ks @ [m] @ ts) ! (i + 1) + (ks @ [m] @ ts) ! (i + 2) < (ks @ [m] @ ts) ! i"
    using assms(1) i by (auto simp: deep_invariant_def nth_append dest!: spec [of _ i])
qed

text \<open>The choice of \<open>choose_merge\<close> in terms of the lengths.\<close>

definition short_at :: "nat list \<Rightarrow> nat \<Rightarrow> bool" where
  "short_at lens i \<longleftrightarrow> lens ! i \<le> lens ! (i + 1) + lens ! (i + 2)"

definition choice :: "nat list \<Rightarrow> bool option" where
  "choice lens =
     (let n = length lens
      in if 2 < n \<and> short_at lens (n - 3) \<or> 3 < n \<and> short_at lens (n - 4)
         then Some (lens ! (n - 3) \<le> lens ! (n - 1))
         else if lens ! (n - 1) < lens ! (n - 2) then None else Some False)"

lemma choice_None:
  assumes "choice lens = None" and "deep_invariant lens" and "2 \<le> length lens"
  shows "stack_invariant lens"
proof -
  define n where "n = length lens"
  have c: "\<not> (2 < n \<and> short_at lens (n - 3))" "\<not> (3 < n \<and> short_at lens (n - 4))" "lens ! (n - 1) < lens ! (n - 2)"
    using assms(1) by (auto simp: choice_def Let_def n_def split: if_splits)
  have "lens ! (i + 1) + lens ! (i + 2) < lens ! i" if i: "i + 2 < n" for i
  proof -
    consider "i + 4 < n" | "i = n - 3" "2 < n" | "i = n - 4" "3 < n" using i by linarith
    then show ?thesis
    proof cases
      case 1
      then show ?thesis using assms(2) by (simp add: deep_invariant_def n_def)
    next
      case 2
      then show ?thesis using c(1) by (simp add: short_at_def not_le)
    next
      case 3
      then show ?thesis using c(2) by (simp add: short_at_def not_le)
    qed
  qed
  then show ?thesis using c(3) by (simp add: stack_invariant_def n_def)
qed

lemma choice_Some:
  assumes "choice lens = Some b" and "b"
  shows "2 < length lens"
  using assms by (auto simp: choice_def Let_def split: if_splits)

lemma short_slice_lens:
  assumes "stacked ms slices" and "i + 2 < length slices" and "length (concat slices) < 2 ^ 64"
  shows "short_slice (ms_stack ms) i = Some (short_at (map length slices) i)"
proof -
  note d = stackedD [OF assms(1)]
  have "slices = take (i + 1) slices @ slices ! (i + 1) # slices ! (i + 2) # drop (i + 3) slices"
    using assms(2) by (simp add: Cons_nth_drop_Suc numeral_3_eq_3)
  then have "length (concat slices) = length (concat (take (i + 1) slices)) + length (slices ! (i + 1)) +
      length (slices ! (i + 2)) + length (concat (drop (i + 3) slices))"
    by (metis (no_types, lifting) append.assoc concat.simps(2) concat_append length_append)
  then have "length (slices ! (i + 1)) + length (slices ! (i + 2)) < 2 ^ 64" using assms(3) by simp
  then show ?thesis using d assms(2) by (simp add: short_slice_def short_at_def)
qed

lemma choose_merge_choice:
  assumes st: "stacked ms slices" and n: "2 \<le> length slices" and size: "length (concat slices) < 2 ^ 64"
  shows "choose_merge (ms_stack ms) (length slices) = Some (choice (map length slices))"
proof -
  note d = stackedD [OF st]
  define lens where "lens = map length slices"
  have at: "at (ms_stack ms) i = Some \<lparr>slice_base = length (concat (take i slices)), slice_len = lens ! i\<rparr>"
    if "i < length slices" for i using that d by (simp add: lens_def)
  have 3: "(if 2 < length slices then short_slice (ms_stack ms) (length slices - 3) else Some False) =
      Some (2 < length slices \<and> short_at lens (length slices - 3))"
    using short_slice_lens [OF st _ size, of "length slices - 3"] by (simp add: lens_def)
  have 4: "(if \<not> s \<and> 3 < length slices then short_slice (ms_stack ms) (length slices - 4) else Some s) =
      Some (s \<or> 3 < length slices \<and> short_at lens (length slices - 4))" for s
  proof (cases "3 < length slices")
    case True
    then have "length slices - 4 + 2 < length slices" by arith
    from short_slice_lens [OF st this size] show ?thesis using True by (simp add: lens_def)
  qed simp
  have "length slices - 3 < length slices" "length slices - 2 < length slices" "length slices - 1 < length slices"
    using n by simp_all
  then show ?thesis
    unfolding choose_merge_def 3 Option.bind.simps 4 choice_def lens_def [symmetric]
    by (simp add: at lens_def Let_def)
qed

section \<open>Restoring the invariant\<close>

lemma split_top:
  assumes "n = length xs" and "2 \<le> n" and "b \<Longrightarrow> 2 < n"
  obtains S l r T where "xs = S @ [l, r] @ T" "b \<longleftrightarrow> T \<noteq> []" "length T \<le> 1"
proof (cases b)
  case False
  have "xs = take (n - 2) xs @ drop (n - 2) xs" by simp
  moreover obtain l r where "drop (n - 2) xs = [l, r]"
  proof -
    have "length (drop (n - 2) xs) = Suc (Suc 0)" using assms(1,2) by simp
    then show ?thesis using that unfolding length_Suc_conv by auto
  qed
  ultimately show ?thesis using that [of "take (n - 2) xs" l r "[]"] False by simp
next
  case True
  have "xs = take (n - 3) xs @ drop (n - 3) xs" by simp
  moreover obtain l r t where "drop (n - 3) xs = [l, r, t]"
  proof -
    have "length (drop (n - 3) xs) = Suc (Suc (Suc 0))" using assms(1,3) True by simp
    then show ?thesis using that unfolding length_Suc_conv by auto
  qed
  ultimately show ?thesis using that [of "take (n - 3) xs" l r "[t]"] True by simp
qed

text \<open>What is known of a state that the sort has reached from \<open>ms\<close>.\<close>

definition reached :: "'v sys_t \<Rightarrow> bool \<Rightarrow> 'a set \<Rightarrow> ('a \<Rightarrow> 'a \<Rightarrow> int) \<Rightarrow> 'a list \<Rightarrow> u8 \<Rightarrow> 'a list list \<Rightarrow> 'a list
    \<Rightarrow> (nat list \<Rightarrow> bool) \<Rightarrow> (unit cres \<times> 'a mergesort_t \<times> 'a list \<times> 'v) option \<Rightarrow> bool" where
  "reached sys good A cmp a es slices rest Q res \<longleftrightarrow>
     (\<exists>r ms' arr' v' parts' slices'. res = Some (r, ms', arr', v') \<and>
        sorting (good \<and> r = Inr ()) A cmp a ms' arr' parts' slices' rest \<and> ms_elemsize ms' = es \<and>
        (r = Inr () \<longrightarrow> Q (map length slices')) \<and> (slices \<noteq> [] \<longrightarrow> slices' \<noteq> []) \<and>
        (\<forall>m. (\<forall>s \<in> set slices. m \<le> length s) \<longrightarrow> (\<forall>s \<in> set slices'. m \<le> length s)) \<and>
        (grants sys (length a * unat es div 2) \<longrightarrow> r = Inr ()))"

lemma reachedI:
  "sorting (good \<and> r = Inr ()) A cmp a ms' arr' parts' slices' rest \<Longrightarrow> ms_elemsize ms' = es \<Longrightarrow>
   (r = Inr () \<Longrightarrow> Q (map length slices')) \<Longrightarrow> (slices \<noteq> [] \<Longrightarrow> slices' \<noteq> []) \<Longrightarrow>
   (\<And>m s. \<forall>s \<in> set slices. m \<le> length s \<Longrightarrow> s \<in> set slices' \<Longrightarrow> m \<le> length s) \<Longrightarrow>
   (grants sys (length a * unat es div 2) \<Longrightarrow> r = Inr ()) \<Longrightarrow>
   reached sys good A cmp a es slices rest Q (Some (r, ms', arr', v'))"
  unfolding reached_def by blast

lemma reachedE:
  assumes "reached sys good A cmp a es slices rest Q res"
  obtains r ms' arr' v' parts' slices' where "res = Some (r, ms', arr', v')"
    "sorting (good \<and> r = Inr ()) A cmp a ms' arr' parts' slices' rest" "ms_elemsize ms' = es"
    "r = Inr () \<longrightarrow> Q (map length slices')" "slices \<noteq> [] \<longrightarrow> slices' \<noteq> []"
    "\<forall>m. (\<forall>s \<in> set slices. m \<le> length s) \<longrightarrow> (\<forall>s \<in> set slices'. m \<le> length s)"
    "grants sys (length a * unat es div 2) \<longrightarrow> r = Inr ()"
  using assms unfolding reached_def by (elim exE conjE)

lemma reached_step:
  assumes "reached sys good A cmp a es (S @ [zs] @ T) rest Q res" and "length zs = length ls + length rs"
  shows "reached sys good A cmp a es (S @ [ls, rs] @ T) rest Q res"
proof -
  have "\<forall>s \<in> set (S @ [zs] @ T). m \<le> length s" if "\<forall>s \<in> set (S @ [ls, rs] @ T). m \<le> length s" for m
    using that assms(2) by auto
  moreover obtain r ms' arr' v' parts' slices' where res: "res = Some (r, ms', arr', v')"
    and inv: "sorting (good \<and> r = Inr ()) A cmp a ms' arr' parts' slices' rest" "ms_elemsize ms' = es"
    and Q: "r = Inr () \<longrightarrow> Q (map length slices')" and ne: "S @ [zs] @ T \<noteq> [] \<longrightarrow> slices' \<noteq> []"
    and min: "\<forall>m. (\<forall>s \<in> set (S @ [zs] @ T). m \<le> length s) \<longrightarrow> (\<forall>s \<in> set slices'. m \<le> length s)"
    and mem: "grants sys (length a * unat es div 2) \<longrightarrow> r = Inr ()"
    by (rule reachedE [OF assms(1)])
  ultimately show ?thesis
    unfolding res using inv by (intro reachedI [where parts' = parts' and slices' = slices']) (use Q ne mem min in blast)+
qed

lemma establish_stack_invariant_reaches:
  assumes "sorting good A cmp a ms arr parts slices rest" and "deep_invariant (map length slices)"
  shows "reached sys good A cmp a (ms_elemsize ms) slices rest stack_invariant (establish_stack_invariant sys ms arr v)"
  using assms
proof (induction "length slices" arbitrary: ms arr v parts slices rule: less_induct)
  case less
  note d = sortingD [OF less.prems(1)] and st = stackedD [OF sortingD(1) [OF less.prems(1)]]
  show ?case
  proof (cases "1 < length slices")
    case False
    then have "establish_stack_invariant sys ms arr v = Some (Inr (), ms, arr, v)"
      using st(1) by (simp add: establish_stack_invariant.simps)
    moreover have "stack_invariant (map length slices)" using False by (simp add: stack_invariant_def)
    ultimately show ?thesis using less.prems(1) by (auto intro!: reachedI)
  next
    case True
    have size: "length (concat slices) < 2 ^ 64" using sorting_size [OF less.prems(1)] d(2) by simp
    have c: "choose_merge (ms_stack ms) (ms_stacksize ms) = Some (choice (map length slices))"
      using choose_merge_choice [OF d(1) _ size] True st(1) by simp
    show ?thesis
    proof (cases "choice (map length slices)")
      case None
      then have "establish_stack_invariant sys ms arr v = Some (Inr (), ms, arr, v)"
        using c True st(1) by (simp add: establish_stack_invariant.simps)
      moreover have "stack_invariant (map length slices)"
        using choice_None [OF None less.prems(2)] True by simp
      ultimately show ?thesis using less.prems(1) by (auto intro!: reachedI)
    next
      case (Some b)
      have b: "b \<Longrightarrow> 2 < length slices" using choice_Some [OF Some] by simp
      obtain S ls rs T where sl: "slices = S @ [ls, rs] @ T" "b \<longleftrightarrow> T \<noteq> []" "length T \<le> 1"
        by (rule split_top [of "length slices" slices b]) (use True b in auto)
      obtain r ms1 arr1 v1 parts1 zs where m: "merge_topofstack sys ms arr v b = Some (r, ms1, arr1, v1)"
        "sorting (good \<and> r = Inr ()) A cmp a ms1 arr1 parts1 (S @ [zs] @ T) rest" "length zs = length ls + length rs"
        "same_setup (ms\<lparr>ms_stack := ms_stack ms1, ms_stacksize := ms_stacksize ms1\<rparr>) ms1"
        "grants sys (length a * unat (ms_elemsize ms) div 2) \<longrightarrow> r = Inr ()"
        using merge_topofstack_merges [OF less.prems(1) [unfolded sl(1)] sl(3), of sys v, folded sl(2)] by blast
      have es: "ms_elemsize ms1 = ms_elemsize ms" using m(4) by (simp add: same_setup_def)
      have eq: "establish_stack_invariant sys ms arr v =
          (if r \<noteq> Inr () then Some (r, ms1, arr1, v1) else establish_stack_invariant sys ms1 arr1 v1)"
        using c Some True st(1) m(1) by (subst establish_stack_invariant.simps) simp
      have "reached sys good A cmp a (ms_elemsize ms) (S @ [zs] @ T) rest stack_invariant (establish_stack_invariant sys ms arr v)"
      proof (cases "r = Inr ()")
        case False
        then show ?thesis using eq m(2,5) es by (auto intro!: reachedI)
      next
        case ok: True
        have "deep_invariant (map length S @ [length zs] @ map length T)"
          using less.prems(2) sl(1,3) by (intro deep_invariant_merge) auto
        then have "reached sys good A cmp a (ms_elemsize ms1) (S @ [zs] @ T) rest stack_invariant (establish_stack_invariant sys ms1 arr1 v1)"
          using m(2) ok sl(1) by (intro less.hyps [where parts = parts1]) auto
        then show ?thesis using eq ok es by simp
      qed
      then show ?thesis unfolding sl(1) using m(3) by (rule reached_step)
    qed
  qed
qed

lemma merge_all_reaches:
  assumes "sorting good A cmp a ms arr parts slices rest"
  shows "reached sys good A cmp a (ms_elemsize ms) slices rest (\<lambda>lens. length lens \<le> 1) (merge_all sys ms arr v)"
  using assms
proof (induction "length slices" arbitrary: ms arr v parts slices rule: less_induct)
  case less
  note st = stackedD [OF sortingD(1) [OF less.prems(1)]]
  show ?case
  proof (cases "1 < length slices")
    case False
    then have "merge_all sys ms arr v = Some (Inr (), ms, arr, v)" using st(1) by (simp add: merge_all.simps)
    then show ?thesis using less.prems(1) False by (auto intro!: reachedI)
  next
    case True
    obtain S ls rs T where sl: "slices = S @ [ls, rs] @ T" "False \<longleftrightarrow> T \<noteq> []" "length T \<le> 1"
      by (rule split_top [of "length slices" slices False]) (use True in auto)
    obtain r ms1 arr1 v1 parts1 zs where m: "merge_topofstack sys ms arr v False = Some (r, ms1, arr1, v1)"
      "sorting (good \<and> r = Inr ()) A cmp a ms1 arr1 parts1 (S @ [zs] @ T) rest" "length zs = length ls + length rs"
      "same_setup (ms\<lparr>ms_stack := ms_stack ms1, ms_stacksize := ms_stacksize ms1\<rparr>) ms1"
      "grants sys (length a * unat (ms_elemsize ms) div 2) \<longrightarrow> r = Inr ()"
      using merge_topofstack_merges [OF less.prems(1) [unfolded sl(1)] sl(3), of sys v] sl(2) by auto
    have es: "ms_elemsize ms1 = ms_elemsize ms" using m(4) by (simp add: same_setup_def)
    have eq: "merge_all sys ms arr v = (if r \<noteq> Inr () then Some (r, ms1, arr1, v1) else merge_all sys ms1 arr1 v1)"
      using True st(1) m(1) by (subst merge_all.simps) simp
    have "reached sys good A cmp a (ms_elemsize ms) (S @ [zs] @ T) rest (\<lambda>lens. length lens \<le> 1) (merge_all sys ms arr v)"
    proof (cases "r = Inr ()")
      case False
      then show ?thesis using eq m(2,5) es by (auto intro!: reachedI)
    next
      case ok: True
      have "reached sys good A cmp a (ms_elemsize ms1) (S @ [zs] @ T) rest (\<lambda>lens. length lens \<le> 1) (merge_all sys ms1 arr1 v1)"
        using m(2) ok sl(1) by (intro less.hyps [where parts = parts1]) auto
      then show ?thesis using eq ok es by simp
    qed
    then show ?thesis unfolding sl(1) using m(3) by (rule reached_step)
  qed
qed

section \<open>The size of the stack\<close>

text \<open>
  Lower bounds of the lengths from the top of the stack downwards: of slice \<open>k\<close>, of the one below
  it, and of the sum of the \<open>k\<close> slices above.
\<close>

primrec least_lengths :: "nat \<Rightarrow> nat \<times> nat \<times> nat" where
  "least_lengths 0 = (MIN_SLICE_LEN, MIN_SLICE_LEN + 1, 0)"
| "least_lengths (Suc k) = (case least_lengths k of (a, b, s) \<Rightarrow> (b, a + b + 1, s + a))"

lemma least_lengths_bound:
  assumes step: "\<And>i. i + 2 < length xs \<Longrightarrow> xs ! (i + 1) + xs ! i < xs ! (i + 2)"
    and start: "1 < length xs \<Longrightarrow> xs ! 0 < xs ! 1" and min: "\<And>x. x \<in> set xs \<Longrightarrow> MIN_SLICE_LEN \<le> x"
  shows "k \<le> length xs \<Longrightarrow> least_lengths k = (a, b, s) \<Longrightarrow>
    s \<le> sum_list (take k xs) \<and> (k < length xs \<longrightarrow> a \<le> xs ! k) \<and> (k + 1 < length xs \<longrightarrow> b \<le> xs ! (k + 1))"
proof (induction k arbitrary: a b s)
  case 0
  show ?case
  proof (cases "xs = []")
    case False
    then have "MIN_SLICE_LEN \<le> xs ! 0" using min by simp
    then show ?thesis using 0 start by auto
  qed (use 0 in simp)
next
  case (Suc k)
  obtain a' b' s' where p: "least_lengths k = (a', b', s')" by (metis prod_cases3)
  then have eq: "a = b'" "b = a' + b' + 1" "s = s' + a'" using Suc.prems(2) by simp_all
  have ih: "s' \<le> sum_list (take k xs)" "a' \<le> xs ! k" "Suc k < length xs \<Longrightarrow> b' \<le> xs ! (k + 1)"
    using Suc.IH [OF _ p] Suc.prems(1) by auto
  have "sum_list (take (Suc k) xs) = sum_list (take k xs) + xs ! k"
    using Suc.prems(1) by (simp add: take_Suc_conv_app_nth)
  moreover have "b \<le> xs ! (Suc k + 1)" if "Suc k + 1 < length xs"
    using step [of k] that ih(2,3) eq by simp
  ultimately show ?case using ih eq by simp
qed

lemma least_lengths_numeral:
  "least_lengths (numeral n) = (case least_lengths (pred_numeral n) of (a, b, s) \<Rightarrow> (b, a + b + 1, s + a))"
  by (simp add: numeral_eq_Suc)

lemma least_lengths_stack: "2 ^ 64 \<le> (case least_lengths stack_length of (_, _, s) \<Rightarrow> s)"
  unfolding stack_length_def by (simp add: least_lengths_numeral MIN_SLICE_LEN_def)

lemma stack_invariant_size:
  assumes "stack_invariant lens" and "\<forall>l \<in> set lens. MIN_SLICE_LEN \<le> l" and "length lens = stack_length"
  shows "2 ^ 64 \<le> sum_list lens"
proof -
  define n where "n = length lens"
  have rev: "rev lens ! i = lens ! (n - Suc i)" if "i < n" for i using that by (simp add: rev_nth n_def)
  obtain a b s where p: "least_lengths n = (a, b, s)" by (metis prod_cases3)
  have "s \<le> sum_list (take n (rev lens)) \<and> (n < length (rev lens) \<longrightarrow> a \<le> rev lens ! n) \<and> (n + 1 < length (rev lens) \<longrightarrow> b \<le> rev lens ! (n + 1))"
  proof (rule least_lengths_bound)
    fix i
    assume i: "i + 2 < length (rev lens)"
    have "n - Suc (i + 1) = n - Suc (i + 2) + 1" "n - Suc i = n - Suc (i + 2) + 2" using i by (simp_all add: n_def)
    moreover have "lens ! (n - Suc (i + 2) + 1) + lens ! (n - Suc (i + 2) + 2) < lens ! (n - Suc (i + 2))"
      using assms(1) i by (simp add: stack_invariant_def n_def)
    ultimately show "rev lens ! (i + 1) + rev lens ! i < rev lens ! (i + 2)" using rev i by (simp add: n_def)
  next
    assume "1 < length (rev lens)"
    then have n: "1 < n" by (simp add: n_def)
    then have "rev lens ! 0 = lens ! (n - 1)" "rev lens ! 1 = lens ! (n - 2)"
      using rev [of 0] rev [of 1] by (simp_all add: numeral_2_eq_2)
    then show "rev lens ! 0 < rev lens ! 1" using assms(1) n by (simp add: stack_invariant_def n_def)
  qed (use assms(2) p in \<open>auto simp: n_def\<close>)
  then show ?thesis using least_lengths_stack p assms(3) by (simp add: n_def)
qed

end
