(* ===== verification/Ds_Mergesort_Sorts.thy ===== *)
theory Ds_Mergesort_Sorts
  imports Ds_Mergesort_Invariant
begin

text \<open>
  What a call of the mergesort does: for every comparison function it stays within its arrays, ends
  and permutes the array, with at most half of its size as temporary memory; with a lawful one and
  without an error it sorts, and equal elements keep their order.
\<close>

section \<open>The least length of a slice\<close>

lemma or_bit: "r \<le> 1 \<Longrightarrow> r OR (n AND 1) = of_bool (r \<noteq> 0 \<or> odd n)" for r n :: nat
  by (cases "r = 0"; cases "odd n") (auto simp: and_one_eq odd_iff_mod_2_eq_one even_iff_mod_2_eq_zero le_Suc_eq)

lemma minslicelen_loop_shifts:
  "r \<le> 1 \<Longrightarrow> \<exists>s. (n < 64 \<longrightarrow> s = 0) \<and> (64 \<le> n \<longrightarrow> 0 < s \<and> 32 \<le> n div 2 ^ s) \<and> n div 2 ^ s < 64 \<and>
     minslicelen_loop n r = n div 2 ^ s + of_bool (r \<noteq> 0 \<or> n mod 2 ^ s \<noteq> 0)"
proof (induction n r rule: minslicelen_loop.induct)
  case (1 n r)
  show ?case
  proof (cases "64 \<le> n")
    case False
    then show ?thesis using "1.prems" by (intro exI [of _ 0]) (auto simp: minslicelen_loop.simps le_Suc_eq)
  next
    case True
    let ?r = "r OR (n AND 1)"
    obtain s where s: "n div 2 < 64 \<longrightarrow> s = 0" "64 \<le> n div 2 \<longrightarrow> 0 < s \<and> 32 \<le> n div 2 div 2 ^ s" "n div 2 div 2 ^ s < 64"
      "minslicelen_loop (n div 2) ?r = n div 2 div 2 ^ s + of_bool (?r \<noteq> 0 \<or> n div 2 mod 2 ^ s \<noteq> 0)"
    proof -
      have "?r \<le> 1" using or_bit [OF "1.prems", of n] by simp
      then show ?thesis using that "1.IH" [OF True] by blast
    qed
    have d: "n div 2 ^ Suc s = n div 2 div 2 ^ s" by (simp add: div_mult2_eq)
    have m: "n mod 2 ^ Suc s = 2 * (n div 2 mod 2 ^ s) + n mod 2" by (simp add: mod_mult2_eq)
    have "32 \<le> n div 2 div 2 ^ s" using s(1,2) True by (cases "64 \<le> n div 2") auto
    moreover have "(r \<noteq> 0 \<or> n mod 2 ^ Suc s \<noteq> 0) = (?r \<noteq> 0 \<or> n div 2 mod 2 ^ s \<noteq> 0)"
      unfolding m or_bit [OF "1.prems"] by (auto simp: odd_iff_mod_2_eq_one)
    ultimately show ?thesis using s True d by (intro exI [of _ "Suc s"]) (auto simp: minslicelen_loop.simps [of n r])
  qed
qed

lemma compute_minslicelen_cases:
  shows "n < 64 \<Longrightarrow> unat (compute_minslicelen n) = n"
    and "64 \<le> n \<Longrightarrow> 32 \<le> unat (compute_minslicelen n) \<and> unat (compute_minslicelen n) \<le> 64"
proof -
  obtain s where s: "n < 64 \<longrightarrow> s = 0" "64 \<le> n \<longrightarrow> 0 < s \<and> 32 \<le> n div 2 ^ s" "n div 2 ^ s < 64"
    "minslicelen_loop n 0 = n div 2 ^ s + of_bool ((0::nat) \<noteq> 0 \<or> n mod 2 ^ s \<noteq> 0)"
    using minslicelen_loop_shifts [of 0 n] by auto
  have u: "unat (compute_minslicelen n) = minslicelen_loop n 0"
  proof -
    have "minslicelen_loop n 0 \<le> 64" using s(3,4) by (simp add: of_bool_def)
    then show ?thesis by (simp add: compute_minslicelen_def unat_of_nat)
  qed
  show "n < 64 \<Longrightarrow> unat (compute_minslicelen n) = n" using u s by simp
  show "64 \<le> n \<Longrightarrow> 32 \<le> unat (compute_minslicelen n) \<and> unat (compute_minslicelen n) \<le> 64" using u s by auto
qed

section \<open>The loop over the slices\<close>

lemma stacked_push:
  assumes "stacked ms slices" and "length slices < stack_length" and "z \<noteq> []"
  shows "\<exists>ms'. push_slice ms (length (concat slices)) (length z) = Some ms' \<and> stacked ms' (slices @ [z]) \<and>
    ms_compare ms' = ms_compare ms \<and> ms_elemsize ms' = ms_elemsize ms \<and>
    ms_temp ms' = ms_temp ms \<and> ms_tempsize ms' = ms_tempsize ms"
proof -
  note d = stackedD [OF assms(1)]
  let ?slice = "\<lparr>slice_base = length (concat slices), slice_len = length z\<rparr>"
  let ?ms = "ms\<lparr>ms_stack := (ms_stack ms)[length slices := ?slice], ms_stacksize := length slices + 1\<rparr>"
  have "push_slice ms (length (concat slices)) (length z) = Some ?ms"
    using d(1,3) assms(2) by (simp add: push_slice_def stack_length_def)
  moreover have "stacked ?ms (slices @ [z])"
    using assms(2,3) d by (auto simp: stacked_def nth_append less_Suc_eq)
  ultimately show ?thesis by simp
qed

lemma sorting_push:
  assumes inv: "sorting good A cmp a ms arr parts slices rest"
    and z: "slice_sorted cmp A rest k zs" and small: "length slices < stack_length"
  shows "\<exists>ms'. push_slice ms (length (concat slices)) k = Some ms' \<and>
    sorting good A cmp a ms' (concat slices @ zs) (parts @ [take k rest]) (slices @ [take k zs]) (drop k rest) \<and>
    ms_elemsize ms' = ms_elemsize ms"
proof -
  note d = sortingD [OF inv]
  have k: "0 < k" "k \<le> length rest" "length zs = length rest" "drop k zs = drop k rest"
    "mset (take k zs) = mset (take k rest)" using z by (auto simp: slice_sorted_def)
  then have "take k zs \<noteq> []" "length (take k zs) = k" by auto
  then obtain ms' where ms': "push_slice ms (length (concat slices)) k = Some ms'" "stacked ms' (slices @ [take k zs])"
    "ms_compare ms' = ms_compare ms" "ms_elemsize ms' = ms_elemsize ms" "ms_temp ms' = ms_temp ms" "ms_tempsize ms' = ms_tempsize ms"
    using stacked_push [OF d(1) small] by metis
  have "stable_sorting A cmp (take k rest) (take k zs)" if good
    using z d(8) [OF that] d(3) by (auto simp: slice_sorted_def)
  then have "sorting good A cmp a ms' (concat slices @ zs) (parts @ [take k rest]) (slices @ [take k zs]) (drop k rest)"
    unfolding sorting_def using ms' d(3-7) k d(8,9)
    by (auto intro!: list_all2_appendI) (metis append_take_drop_id)+
  then show ?thesis using ms' by blast
qed

text \<open>The outcome of a sort of the array \<open>a\<close>.\<close>

definition sort_outcome :: "'v sys_t \<Rightarrow> bool \<Rightarrow> 'a set \<Rightarrow> ('a \<Rightarrow> 'a \<Rightarrow> int) \<Rightarrow> 'a list \<Rightarrow> u8
    \<Rightarrow> (unit cres \<times> 'a mergesort_t \<times> 'a list \<times> 'v) option \<Rightarrow> bool" where
  "sort_outcome sys good A cmp a es res \<longleftrightarrow>
     (\<exists>r ms' b v'. res = Some (r, ms', b, v') \<and> mset b = mset a \<and> wf_mergesort ms' \<and>
        (r = Inr () \<and> good \<longrightarrow> stable_sorting A cmp a b) \<and>
        (grants sys (length a * unat es div 2) \<longrightarrow> r = Inr ()))"

lemma reached_last:
  assumes "reached sys good A cmp a es slices [] (\<lambda>lens. length lens \<le> 1) res"
  shows "sort_outcome sys good A cmp a es res"
proof -
  obtain r ms' b v' parts' slices' where res: "res = Some (r, ms', b, v')"
    and inv: "sorting (good \<and> r = Inr ()) A cmp a ms' b parts' slices' []"
    and one: "r = Inr () \<longrightarrow> length slices' \<le> 1" and mem: "grants sys (length a * unat es div 2) \<longrightarrow> r = Inr ()"
    by (rule reachedE [OF assms]) (simp only: length_map)
  note d = sortingD [OF inv]
  have "stable_sorting A cmp a b" if "r = Inr ()" good
  proof (cases slices')
    case Nil
    then show ?thesis using d(2,3,4) by (simp add: stable_sorting_def sorted_by_def)
  next
    case (Cons z zs)
    then have "slices' = [z]" using one that by simp
    then show ?thesis using d(2,3,4) that by (auto simp: list_all2_Cons2)
  qed
  then show ?thesis unfolding sort_outcome_def using res sorting_mset [OF inv] sorting_wf [OF inv] mem by blast
qed

lemma sorting_outcome:
  assumes "sorting (good \<and> r = Inr ()) A cmp a ms arr parts slices rest" and "r \<noteq> Inr ()"
    and "grants sys (length a * unat es div 2) \<longrightarrow> r = Inr ()"
  shows "sort_outcome sys good A cmp a es (Some (r, ms, arr, v))"
  using sorting_mset [OF assms(1)] sorting_wf [OF assms(1)] assms(2,3) by (auto simp: sort_outcome_def)

text \<open>A stack of slices of the least length is never full when another one is found.\<close>

lemma stack_not_full:
  assumes inv: "sorting good A cmp a ms arr parts slices rest" and si: "stack_invariant (map length slices)"
    and min: "\<forall>s \<in> set slices. MIN_SLICE_LEN \<le> length s"
  shows "length slices < stack_length"
proof (rule ccontr)
  assume "\<not> length slices < stack_length"
  then have "length (map length slices) = stack_length" using stackedD(2) [OF sortingD(1) [OF inv]] by simp
  then have "2 ^ 64 \<le> sum_list (map length slices)" using stack_invariant_size [OF si] min by simp
  moreover have "sum_list (map length slices) \<le> length arr" using sortingD(2) [OF inv] by (simp add: length_concat)
  ultimately show False using sorting_size [OF inv] by simp
qed

lemma sort_slices_outcome:
  assumes "sorting good A cmp a ms arr parts slices rest" and "rest \<noteq> []" and "nxt = length (concat slices)"
    and "nextlen = length rest" and "0 < minlen" and "unat minlen < length a \<Longrightarrow> MIN_SLICE_LEN \<le> unat minlen"
    and "stack_invariant (map length slices)" and "\<forall>s \<in> set slices. unat minlen \<le> length s"
  shows "sort_outcome sys good A cmp a (ms_elemsize ms) (sort_slices sys minlen ms arr v nxt nextlen)"
  using assms
proof (induction "length rest" arbitrary: ms arr v parts slices rest nxt nextlen rule: less_induct)
  case less
  note inv = less.prems(1) and d = sortingD [OF less.prems(1)]
  have min: "\<forall>s \<in> set slices. MIN_SLICE_LEN \<le> length s"
  proof
    fix s
    assume s: "s \<in> set slices"
    have "length s < length arr" using length_concat_bound [OF s] d(2) less.prems(2) by (cases rest) auto
    then show "MIN_SLICE_LEN \<le> length s"
      using less.prems(6,8) s sorting_length [OF inv] by fastforce
  qed
  have small: "length slices < stack_length" using stack_not_full [OF inv less.prems(7) min] .
  obtain k zs where k: "next_slice cmp minlen (length rest) (concat slices @ rest @ []) (length (concat slices)) =
      Some (k, concat slices @ zs @ [])" "slice_sorted cmp A rest k zs" "k = length rest \<or> unat minlen \<le> k"
    using next_slice_sorts [OF less.prems(2,5), of cmp "concat slices" "[]" A] by blast
  have kr: "0 < k" "k \<le> length rest" "length zs = length rest" using k(2) by (auto simp: slice_sorted_def)
  obtain ms1 where ms1: "push_slice ms (length (concat slices)) k = Some ms1"
    "sorting good A cmp a ms1 (concat slices @ zs) (parts @ [take k rest]) (slices @ [take k zs]) (drop k rest)"
    "ms_elemsize ms1 = ms_elemsize ms"
    using sorting_push [OF inv k(2) small] by blast
  have "deep_invariant (map length (slices @ [take k zs]))" using deep_invariant_push [OF less.prems(7)] by simp
  then have reach: "reached sys good A cmp a (ms_elemsize ms) (slices @ [take k zs]) (drop k rest) stack_invariant
      (establish_stack_invariant sys ms1 (concat slices @ zs) v)"
    using establish_stack_invariant_reaches [OF ms1(2)] ms1(3) by metis
  obtain r ms2 arr2 v2 parts2 slices2 where e: "establish_stack_invariant sys ms1 (concat slices @ zs) v = Some (r, ms2, arr2, v2)"
    and inv2: "sorting (good \<and> r = Inr ()) A cmp a ms2 arr2 parts2 slices2 (drop k rest)" "ms_elemsize ms2 = ms_elemsize ms"
    and si2: "r = Inr () \<longrightarrow> stack_invariant (map length slices2)"
    and min2: "\<forall>m. (\<forall>s \<in> set (slices @ [take k zs]). m \<le> length s) \<longrightarrow> (\<forall>s \<in> set slices2. m \<le> length s)"
    and mem: "grants sys (length a * unat (ms_elemsize ms) div 2) \<longrightarrow> r = Inr ()"
    by (rule reachedE [OF reach])
  have "length rest < 2 ^ 64" using sorting_size [OF inv] d(2) by simp
  then have sub: "sub_size nextlen k = length rest - k" using less.prems(4) kr by simp
  have "ms_stacksize ms \<noteq> stack_length" using stackedD(1) [OF d(1)] small by simp
  then have eq: "sort_slices sys minlen ms arr v nxt nextlen =
      (if r \<noteq> Inr () then Some (r, ms2, arr2, v2)
       else if length rest - k \<noteq> 0 then sort_slices sys minlen ms2 arr2 v2 (nxt + k) (length rest - k)
       else merge_all sys ms2 arr2 v2)"
    using d(2,5) k(1) ms1(1) e sub less.prems(3,4) by (subst sort_slices.simps) simp
  show ?case
  proof (cases "r = Inr ()")
    case False
    then show ?thesis using eq sorting_outcome [OF inv2(1) False mem] by simp
  next
    case ok: True
    show ?thesis
    proof (cases "length rest - k = 0")
      case True
      then have "sort_outcome sys good A cmp a (ms_elemsize ms2) (merge_all sys ms2 arr2 v2)"
        using inv2(1) ok by (intro reached_last [OF merge_all_reaches]) simp
      then show ?thesis using eq ok True inv2(2) by simp
    next
      case go: False
      have "arr2 = concat slices2 @ drop k rest" using sortingD(2) [OF inv2(1)] .
      moreover have "length arr2 = length arr" using sorting_length inv inv2(1) by metis
      ultimately have n: "nxt + k = length (concat slices2)" using less.prems(3) d(2) kr by simp
      have "\<forall>s \<in> set (slices @ [take k zs]). unat minlen \<le> length s" using less.prems(8) k(3) kr go by auto
      then have mins: "\<forall>s \<in> set slices2. unat minlen \<le> length s" using min2 by blast
      have "sort_outcome sys good A cmp a (ms_elemsize ms2) (sort_slices sys minlen ms2 arr2 v2 (nxt + k) (length rest - k))"
      proof (rule less.hyps)
        show "sorting good A cmp a ms2 arr2 parts2 slices2 (drop k rest)" using inv2(1) ok by simp
        show "stack_invariant (map length slices2)" using si2 ok by simp
      qed (use go kr n mins less.prems(5,6) in auto)
      then show ?thesis using eq ok go inv2(2) by simp
    qed
  qed
qed

lemma sort_mergesort_outcome:
  assumes "wf_mergesort ms" and "elemsize \<noteq> 0" and "length a * unat elemsize < 2 ^ 64"
  shows "sort_outcome sys (sort_order cmp A \<and> set a \<subseteq> A) A cmp a elemsize
    (sort_mergesort sys ms elemsize (length a) a (Some cmp) v)"
proof (cases "length a < 2")
  case True
  then have "sorted_by cmp a" by (cases a) (auto simp: sorted_by_def)
  then show ?thesis using True assms(1) by (simp add: sort_mergesort_def sort_outcome_def stable_sorting_self)
next
  case False
  define ms1 where "ms1 = ms\<lparr>ms_compare := Some cmp, ms_elemsize := elemsize, ms_stacksize := 0\<rparr>"
  have e: "0 < unat elemsize" using assms(2) by (simp add: unat_gt_0)
  then have "length a \<le> (2 ^ 64 - 1) div unat elemsize" using assms(3) by (simp add: less_eq_div_iff_mult_less_eq)
  then have "setsortstate ms (Some cmp) elemsize (length a) = Inr ms1" using assms(2) by (simp add: setsortstate_def ms1_def)
  then have eq: "sort_mergesort sys ms elemsize (length a) a (Some cmp) v =
      sort_slices sys (compute_minslicelen (length a)) ms1 a v 0 (length a)"
    using False by (simp add: sort_mergesort_def)
  have "sorting (sort_order cmp A \<and> set a \<subseteq> A) A cmp a ms1 a [] [] a"
    using assms by (auto simp: sorting_def stacked_def ms1_def wf_mergesort_def)
  moreover have "a \<noteq> []" using False by auto
  moreover have "0 < compute_minslicelen (length a)"
    using compute_minslicelen_cases [of "length a"] False by (cases "length a < 64") (auto simp: word_less_nat_alt)
  moreover have "unat (compute_minslicelen (length a)) < length a \<Longrightarrow> MIN_SLICE_LEN \<le> unat (compute_minslicelen (length a))"
    using compute_minslicelen_cases [of "length a"] by (cases "length a < 64") (auto simp: MIN_SLICE_LEN_def)
  moreover have "stack_invariant []" by (simp add: stack_invariant_def)
  ultimately have "sort_outcome sys (sort_order cmp A \<and> set a \<subseteq> A) A cmp a (ms_elemsize ms1)
      (sort_slices sys (compute_minslicelen (length a)) ms1 a v 0 (length a))"
    by (intro sort_slices_outcome) auto
  then show ?thesis unfolding eq by (simp add: ms1_def)
qed

end
