(* ===== verification/Ds_Mergesort_Contract.thy ===== *)
theory Ds_Mergesort_Contract
  imports Ds_Mergesort_Sorts
begin

text \<open>
  The contract of the mergesort, with the comparison functions of its test as instances: what the
  entry points return, that the sort object stays well-formed, and that the invariant of its stack
  is established after every push.
\<close>

section \<open>Comparison functions\<close>

text \<open>
  The comparison functions of the test in mergesort.c, for pointers (which are compared by their
  address), for longs and for elements of at least two bytes. The versions with \<open>half\<close> ignore the
  lowest bit, so that elements are equal which can be told apart.
\<close>

definition test_compare_ptr :: "u64 \<Rightarrow> u64 \<Rightarrow> int" where
  "test_compare_ptr left right = (if left < right then -1 else if left > right then 1 else 0)"

definition test_compare_long :: "u64 \<Rightarrow> u64 \<Rightarrow> int" where
  "test_compare_long left right = (if sint left < sint right then -1 else if sint left > sint right then 1 else 0)"

definition test_compare_bytes :: "u8 list \<Rightarrow> u8 list \<Rightarrow> int" where
  "test_compare_bytes left right =
     (let lk = uint (left ! 0) * 256 + uint (left ! 1);
          rk = uint (right ! 0) * 256 + uint (right ! 1)
      in lk - rk)"

definition test_comparehalf_ptr :: "u64 \<Rightarrow> u64 \<Rightarrow> int" where
  "test_comparehalf_ptr left right =
     (let lk = left div 2; rk = right div 2 in if lk < rk then -1 else if lk > rk then 1 else 0)"

definition test_comparehalf_bytes :: "u8 list \<Rightarrow> u8 list \<Rightarrow> int" where
  "test_comparehalf_bytes left right =
     (let lk = uint (left ! 0) * 256 + uint (left ! 1);
          rk = uint (right ! 0) * 256 + uint (right ! 1)
      in lk div 2 - rk div 2)"

interpretation by_address: sort_order test_compare_ptr UNIV
  by unfold_locales (auto simp: test_compare_ptr_def split: if_splits)

interpretation by_long: sort_order test_compare_long UNIV
  by unfold_locales (auto simp: test_compare_long_def split: if_splits)

interpretation by_bytes: sort_order test_compare_bytes "{bs. 2 \<le> length bs}"
  by unfold_locales (auto simp: test_compare_bytes_def)

interpretation by_half_address: sort_order test_comparehalf_ptr UNIV
  by unfold_locales (auto simp: test_comparehalf_ptr_def Let_def split: if_splits)

interpretation by_half_bytes: sort_order test_comparehalf_bytes "{bs. 2 \<le> length bs}"
  by unfold_locales (auto simp: test_comparehalf_bytes_def)

section \<open>The entry points\<close>

text \<open>A system whose calls all succeed, for the concrete instances.\<close>

definition willing_sys :: "unit sys_t" where
  "willing_sys = \<lparr>pagesize_vm = 4096, sys_mmap = \<lambda>size prot shared v. (Inr 4096, v),
     sys_munmap = \<lambda>a size v. (Inr (), v), sys_mprotect = \<lambda>a size prot v. (Inr (), v),
     sys_mremap = \<lambda>a old new move v. (Inr a, v)\<rparr>"

definition new_mergesort :: "'a mergesort_t" where
  "new_mergesort = init_mergesort \<lparr>ms_compare = None, ms_elemsize = 0, ms_temp = Null, ms_tempsize = 0,
     ms_stack = replicate stack_length \<lparr>slice_base = 0, slice_len = 0\<rparr>, ms_stacksize = 0\<rparr>"

lemma init_mergesort_wf: "length (ms_stack ms) = stack_length \<Longrightarrow> wf_mergesort (init_mergesort ms)"
  by (simp add: init_mergesort_def wf_mergesort_def)

lemma new_mergesort_wf [simp]: "wf_mergesort new_mergesort"
  by (simp add: new_mergesort_def init_mergesort_wf)

lemma sortblob_is_sort:
  "sortblob_mergesort sys ms elemsize len address a cmp v = sort_mergesort sys ms elemsize len a cmp v"
  by (simp add: sortblob_mergesort_def sortlong_mergesort_def sortbytes_mergesort_def)

lemma sort_orderI:
  assumes "\<forall>x \<in> A. \<forall>y \<in> A. 0 < cmp x y \<longleftrightarrow> cmp y x < 0"
    and "\<forall>x \<in> A. \<forall>y \<in> A. \<forall>z \<in> A. 0 \<le> cmp x y \<and> 0 \<le> cmp y z \<longrightarrow> 0 \<le> cmp x z"
  shows "sort_order cmp A"
proof
  show "0 \<le> cmp y x" if "x \<in> A" "y \<in> A" "cmp x y < 0" for x y
    using assms(1) that by (simp add: less_imp_le)
qed (use assms in blast)+

text \<open>C1: Sorting stably: with a comparison function that orders the elements of the array, in an
  address space that can map half of its bytes, \<open>sortblob_mergesort\<close> succeeds and leaves exactly the
  list that insertion sort computes, so that the array is sorted and equal elements keep their order.
\<close>

theorem mergesort_sorts:
  assumes "wf_mergesort ms" and "elemsize \<noteq> 0" and "length a * unat elemsize < 2 ^ 64"
    and "\<forall>x \<in> set a. \<forall>y \<in> set a. 0 < cmp x y \<longleftrightarrow> cmp y x < 0"
    and "\<forall>x \<in> set a. \<forall>y \<in> set a. \<forall>z \<in> set a. 0 \<le> cmp x y \<and> 0 \<le> cmp y z \<longrightarrow> 0 \<le> cmp x z"
    and "grants sys (length a * unat elemsize div 2)"
  shows "\<exists>ms' v'. sortblob_mergesort sys ms elemsize (length a) address a (Some cmp) v =
      Some (Inr (), ms', isort cmp a, v') \<and> wf_mergesort ms'"
proof -
  have order: "sort_order cmp (set a)" using assms(4,5) by (rule sort_orderI)
  obtain r ms' b v' where "sort_mergesort sys ms elemsize (length a) a (Some cmp) v = Some (r, ms', b, v')"
    "wf_mergesort ms'" "r = Inr ()" "stable_sorting (set a) cmp a b"
    using sort_mergesort_outcome [OF assms(1-3), of sys cmp "set a" v] assms(6) order unfolding sort_outcome_def by blast
  then show ?thesis
    using sort_order.stable_sorting_isort [OF order] by (simp add: sortblob_is_sort)
qed

lemma willing_grants: "n < 2 ^ 63 \<Longrightarrow> grants willing_sys n"
proof -
  assume n: "n < 2 ^ 63"
  have "k \<le> page_aligned 4096 k" if "unat k \<le> n" for k
  proof -
    have "unat k + 2 ^ 12 \<le> 2 ^ 64" using that n by simp
    then show ?thesis
      using page_aligned_aligns(2) [of 4096 12 k] by (simp add: word_le_nat_alt)
  qed
  then show ?thesis
    by (auto simp: grants_def willing_sys_def init_vmpage_def init2_vmpage_def Let_def word_gt_0
      accessmode_RDWR_def accessmode_EXEC_def accessmode_PRIVATE_def accessmode_SHARED_def)
qed

lemma length_two: "length [x, y] = 2" and length_three: "length [x, y, z] = 3" and length_four: "length [x, y, z, u] = 4"
  by simp_all

theorem mergesort_sorts_witness:
  "\<exists>ms' v'. sortblob_mergesort willing_sys new_mergesort 8 4 0 [5, 2, 4, 3] (Some test_comparehalf_ptr) () =
     Some (Inr (), ms', [2, 3, 5, 4], v') \<and> wf_mergesort ms'"
proof -
  have "isort test_comparehalf_ptr [5, 2, 4, 3] = [2, 3, 5, 4]"
    by (simp add: isort_def insert_by_def test_comparehalf_ptr_def)
  moreover have "grants willing_sys (4 * unat (8 :: u8) div 2)" by (rule willing_grants) simp
  ultimately show ?thesis
    using mergesort_sorts [of new_mergesort 8 "[5, 2, 4, 3]" test_comparehalf_ptr willing_sys 0 "()", unfolded length_four]
      by_half_address.mirror by_half_address.trans by fastforce
qed

text \<open>C2: Safety with any comparison function, even one that contradicts itself, and in any address space:
  \<open>sortptr_mergesort\<close> never accesses anything outside of the array, the temporary memory and the stack
  of slices, it ends, and the array is a permutation of what it was, even after an error. A result
  without an error is sorted stably if the function is a lawful one.
\<close>

theorem mergesort_permutes:
  assumes "wf_mergesort ms" and "length a * 8 < 2 ^ 64"
  shows "\<exists>r ms' b v'. sortptr_mergesort sys ms (length a) a (Some cmp) v = Some (r, ms', b, v') \<and>
    mset b = mset a \<and> (r = Inr () \<and> sort_order cmp (set a) \<longrightarrow> stable_sorting (set a) cmp a b) \<and>
    (grants sys (length a * 4) \<longrightarrow> r = Inr ())"
proof -
  have n: "length a * unat (8 :: u8) div 2 = length a * 4" by simp
  have "sort_outcome sys (sort_order cmp (set a) \<and> set a \<subseteq> set a) (set a) cmp a 8 (sort_mergesort sys ms 8 (length a) a (Some cmp) v)"
    using assms by (intro sort_mergesort_outcome) simp_all
  then show ?thesis unfolding sort_outcome_def sortptr_mergesort_def n by blast
qed

theorem mergesort_permutes_witness:
  "\<exists>r ms' b v'. sortptr_mergesort willing_sys new_mergesort 3 [2, 1, 3 :: nat] (Some (\<lambda>x y. -1)) () = Some (r, ms', b, v') \<and>
     mset b = {#1, 2, 3#} \<and> r = Inr ()"
proof -
  have "grants willing_sys (3 * 4)" by (rule willing_grants) simp
  then show ?thesis
    using mergesort_permutes [of new_mergesort "[2, 1, 3 :: nat]" willing_sys "\<lambda>x y. -1" "()", unfolded length_three]
    by (auto simp: add_mset_commute)
qed

text \<open>C21: Refused calls: an array of two elements or more is refused with \<open>EINVAL\<close>, and neither the array nor the sort
  object changes, exactly when the comparison function is missing, the elements have size 0 or the array is larger than
  the address space. With valid parameters and enough memory the call succeeds, and an
  array of less than two elements is accepted without looking at the other parameters.
\<close>

theorem mergesort_refuses:
  assumes "wf_mergesort ms"
  shows "(len < 2 \<longrightarrow> sortblob_mergesort sys ms elemsize len address a cmp v = Some (Inr (), ms, a, v)) \<and>
   (2 \<le> len \<and> (cmp = None \<or> elemsize = 0 \<or> 2 ^ 64 \<le> len * unat elemsize) \<longrightarrow>
      sortblob_mergesort sys ms elemsize len address a cmp v = Some (Inl EINVAL, ms, a, v)) \<and>
   (cmp \<noteq> None \<and> elemsize \<noteq> 0 \<and> length a * unat elemsize < 2 ^ 64 \<and> grants sys (length a * unat elemsize div 2) \<longrightarrow>
      (\<exists>ms' b v'. sortblob_mergesort sys ms elemsize (length a) address a cmp v = Some (Inr (), ms', b, v')))"
proof -
  have "(2 ^ 64 - 1) div unat elemsize < len" if "2 ^ 64 \<le> len * unat elemsize" "elemsize \<noteq> 0"
  proof -
    have "0 < unat elemsize" using that(2) by (simp add: unat_gt_0)
    then show ?thesis using that(1) by (simp add: div_less_iff_less_mult)
  qed
  moreover have "\<exists>ms' b v'. sort_mergesort sys ms elemsize (length a) a (Some f) v = Some (Inr (), ms', b, v')"
    if "elemsize \<noteq> 0" "length a * unat elemsize < 2 ^ 64" "grants sys (length a * unat elemsize div 2)" for f
    using sort_mergesort_outcome [OF assms that(1,2), of sys f "set a" v] that(3) unfolding sort_outcome_def by blast
  ultimately show ?thesis by (auto simp: sortblob_is_sort sort_mergesort_def [of sys ms elemsize len] setsortstate_def)
qed

theorem mergesort_refuses_witness:
  "sortblob_mergesort willing_sys new_mergesort 0 2 0 [2, 1 :: nat] (Some (\<lambda>x y. 0)) () = Some (Inl EINVAL, new_mergesort, [2, 1], ()) \<and>
   sortblob_mergesort willing_sys new_mergesort 8 (2 ^ 61) 0 [2, 1 :: nat] (Some (\<lambda>x y. 0)) () = Some (Inl EINVAL, new_mergesort, [2, 1], ()) \<and>
   (\<exists>ms' b v'. sortblob_mergesort willing_sys new_mergesort 8 2 0 [2, 1 :: nat] (Some (\<lambda>x y. 0)) () = Some (Inr (), ms', b, v'))"
proof -
  have wf: "wf_mergesort (new_mergesort :: nat mergesort_t)" by simp
  have "grants willing_sys (2 * unat (8 :: u8) div 2)" by (rule willing_grants) simp
  then show ?thesis
    using mergesort_refuses [OF wf, of 2 willing_sys 0 0 "[2, 1]" "Some (\<lambda>x y. 0)" "()"]
      mergesort_refuses [OF wf, of "2 ^ 61" willing_sys 8 0 "[2, 1]" "Some (\<lambda>x y. 0)" "()", unfolded length_two]
    by simp
qed

text \<open>C3: The stack invariant: \<open>sorting\<close> describes the array as sorted slices, one for every entry of the
  stack, and the rest that is not scanned yet. When the lengths of the slices below the top satisfy
  the documented invariant, \<open>establish_stack_invariant\<close> ends with a description of the same array
  whose lengths all satisfy it, or with an error of the temporary memory.
\<close>

theorem establish_stack_invariant_establishes:
  assumes "sorting good A cmp a ms arr parts slices rest"
    and "stack_invariant (map length (butlast slices))"
  shows "\<exists>r ms' arr' v' parts' slices'. establish_stack_invariant sys ms arr v = Some (r, ms', arr', v') \<and>
    sorting (good \<and> r = Inr ()) A cmp a ms' arr' parts' slices' rest \<and>
    (r = Inr () \<longrightarrow> stack_invariant (map length slices')) \<and>
    (grants sys (length a * unat (ms_elemsize ms) div 2) \<longrightarrow> r = Inr ())"
proof -
  have "deep_invariant (map length slices)"
  proof (cases slices rule: rev_cases)
    case Nil
    then show ?thesis by (simp add: deep_invariant_def)
  next
    case (snoc ys y)
    then show ?thesis using assms(2) deep_invariant_push [of "map length ys" "length y"] by simp
  qed
  then show ?thesis
    using establish_stack_invariant_reaches [OF assms(1), of sys v] unfolding reached_def by blast
qed

lemma stack_invariant_single: "stack_invariant [n]"
  by (simp add: stack_invariant_def)

definition pushed_mergesort :: "u64 mergesort_t" where
  "pushed_mergesort = new_mergesort\<lparr>ms_compare := Some test_compare_ptr, ms_elemsize := 8, ms_stacksize := 2,
     ms_stack := \<lparr>slice_base = 0, slice_len = 1\<rparr> # \<lparr>slice_base = 1, slice_len = 2\<rparr> #
       replicate 83 \<lparr>slice_base = 0, slice_len = 0\<rparr>\<rparr>"

theorem establish_stack_invariant_establishes_witness:
  "\<exists>r ms' arr' v' parts' slices'. establish_stack_invariant willing_sys pushed_mergesort [7, 1, 9, 4] () = Some (r, ms', arr', v') \<and>
     sorting (r = Inr ()) UNIV test_compare_ptr [7, 1, 9, 4] ms' arr' parts' slices' [4] \<and>
     (r = Inr () \<longrightarrow> stack_invariant (map length slices'))"
proof -
  have "stable_sorting UNIV test_compare_ptr [7] [7]" "stable_sorting UNIV test_compare_ptr [1, 9] [1, 9]"
    by (simp_all add: stable_sorting_def sorted_by_def test_compare_ptr_def)
  then have "sorting True UNIV test_compare_ptr [7, 1, 9, 4] pushed_mergesort [7, 1, 9, 4] [[7], [1, 9]] [[7], [1, 9]] [4]"
    by (simp add: sorting_def stacked_def pushed_mergesort_def new_mergesort_def init_mergesort_def stack_length_def
      All_less_Suc by_address.sort_order_axioms)
  then show ?thesis
    using establish_stack_invariant_establishes [of True UNIV test_compare_ptr "[7, 1, 9, 4]" pushed_mergesort "[7, 1, 9, 4]"
        "[[7], [1, 9]]" "[[7], [1, 9]]" "[4]" willing_sys "()", unfolded simp_thms]
    by (simp only: butlast.simps list.simps if_True if_False simp_thms stack_invariant_single) blast
qed

text \<open>C22: The sort object: the temporary memory is released, the array in the object, or mapped pages of
  their recorded size. \<open>init_mergesort\<close> makes the object well-formed, a sort with any parameters keeps it so, and
  \<open>free_mergesort\<close> releases the memory even when unmapping fails; freeing again does nothing.
\<close>

theorem mergesort_stays_wf:
  assumes "wf_mergesort ms"
  shows "wf_mergesort (init_mergesort ms) \<and>
    (length a * unat elemsize < 2 ^ 64 \<longrightarrow> (\<exists>r ms' b v'.
       sortblob_mergesort sys ms elemsize (length a) address a cmp v = Some (r, ms', b, v') \<and> wf_mergesort ms')) \<and>
    (\<exists>r ms' v'. free_mergesort sys ms v = (r, ms', v') \<and> wf_mergesort ms' \<and> ms_temp ms' = Null \<and>
       free_mergesort sys ms' v' = (Inr (), ms', v'))"
proof (intro conjI impI)
  show "wf_mergesort (init_mergesort ms)" by (rule init_mergesort_wf) (use assms in \<open>simp add: wf_mergesort_def\<close>)
  show "\<exists>r ms' b v'. sortblob_mergesort sys ms elemsize (length a) address a cmp v = Some (r, ms', b, v') \<and> wf_mergesort ms'"
    if "length a * unat elemsize < 2 ^ 64"
  proof (cases "cmp = None \<or> elemsize = 0")
    case True
    then show ?thesis using assms by (auto simp: sortblob_is_sort sort_mergesort_def setsortstate_def)
  next
    case False
    then obtain f where "cmp = Some f" "elemsize \<noteq> 0" by (cases cmp) auto
    then show ?thesis
      using sort_mergesort_outcome [OF assms _ that, of sys f "{}" v] unfolding sortblob_is_sort sort_outcome_def by blast
  qed
  obtain r ms1 v1 where f: "release_temp sys ms v = (r, ms1, v1)" "same_setup ms ms1"
    using release_temp_ends [of sys ms v 0] by blast
  have "alloctemp_mergesort sys ms 0 v = (r, ms1, v1)"
    using f(1) by (cases r) (simp_all add: alloctemp_mergesort_def)
  then show "\<exists>r ms' v'. free_mergesort sys ms v = (r, ms', v') \<and> wf_mergesort ms' \<and> ms_temp ms' = Null \<and>
       free_mergesort sys ms' v' = (Inr (), ms', v')"
    using f(2) assms by (auto simp: free_mergesort_def wf_mergesort_def same_setup_def)
qed

theorem mergesort_stays_wf_witness:
  "(\<exists>r ms' b v'. sortblob_mergesort willing_sys new_mergesort 8 2 0 [2, 1] (Some test_compare_ptr) () = Some (r, ms', b, v') \<and>
      wf_mergesort ms') \<and>
   (\<exists>r ms' v'. free_mergesort willing_sys (new_mergesort :: u64 mergesort_t) () = (r, ms', v') \<and> ms_temp ms' = Null)"
  using mergesort_stays_wf [of "new_mergesort :: u64 mergesort_t" "[2, 1]" 8 willing_sys 0 "Some test_compare_ptr" "()", unfolded length_two]
  by auto

end
