(* ===== verification/Ds_Links.thy ===== *)
theory Ds_Links
  imports Prelude "HOL-Library.Monad_Syntax"
begin

text \<open>
  The store of the intrusive containers: a pointer is an address (0 is NULL), and a field of the nodes is
  a partial map from addresses to pointers, defined on the nodes that are allocated. Reading or
  writing a field at another address is undefined behaviour and gives \<open>None\<close>. The lemmas describe chains
  and rings of nodes through one field, and how an assignment cuts and joins them.
\<close>

section \<open>Fields\<close>

type_synonym field = "u64 \<rightharpoonup> u64"

definition put_field :: "field \<Rightarrow> u64 \<Rightarrow> u64 \<Rightarrow> field option" where
  "put_field f p v = (if p \<in> dom f then Some (f(p \<mapsto> v)) else None)"

lemma put_field_Some [simp]: "f p = Some v' \<Longrightarrow> put_field f p v = Some (f(p \<mapsto> v))"
  by (auto simp: put_field_def)

lemma put_field_dom: "p \<in> dom f \<Longrightarrow> put_field f p v = Some (f(p \<mapsto> v))"
  by (simp add: put_field_def)

text \<open>What an operation leaves alone.\<close>

definition same_outside :: "u64 set \<Rightarrow> field \<Rightarrow> field \<Rightarrow> bool" where
  "same_outside A f g \<longleftrightarrow> (\<forall>p. p \<notin> A \<longrightarrow> g p = f p)"

lemma same_outside_refl [simp]: "same_outside A f f"
  by (simp add: same_outside_def)

lemma same_outside_upd [simp]: "p \<in> A \<Longrightarrow> same_outside A f g \<Longrightarrow> same_outside A f (g(p := v))"
  by (auto simp: same_outside_def)

section \<open>Chains and rings\<close>

fun path :: "field \<Rightarrow> u64 list \<Rightarrow> bool" where
  "path f [] = True"
| "path f [x] = True"
| "path f (x # y # zs) \<longleftrightarrow> f x = Some y \<and> path f (y # zs)"

lemma path_Cons: "path f (x # xs) \<longleftrightarrow> (xs \<noteq> [] \<longrightarrow> f x = Some (hd xs)) \<and> path f xs"
  by (cases xs) auto

lemma path_append [simp]:
  "path f (xs @ ys) \<longleftrightarrow> path f xs \<and> path f ys \<and> (xs \<noteq> [] \<and> ys \<noteq> [] \<longrightarrow> f (last xs) = Some (hd ys))"
  by (induction xs) (auto simp: path_Cons hd_append)

lemma path_upd [simp]: "p \<notin> set xs \<Longrightarrow> path (f(p := v)) xs = path f xs"
  by (induction f xs rule: path.induct) auto

lemma path_cong: "(\<And>x. x \<in> set xs \<Longrightarrow> g x = f x) \<Longrightarrow> path g xs = path f xs"
  by (induction f xs rule: path.induct) auto

lemma ends_neq [simp]:
  "p \<notin> set xs \<Longrightarrow> xs \<noteq> [] \<Longrightarrow> last xs \<noteq> p" "p \<notin> set xs \<Longrightarrow> xs \<noteq> [] \<Longrightarrow> p \<noteq> last xs"
  "p \<notin> set xs \<Longrightarrow> xs \<noteq> [] \<Longrightarrow> hd xs \<noteq> p" "p \<notin> set xs \<Longrightarrow> xs \<noteq> [] \<Longrightarrow> p \<noteq> hd xs"
  by (auto dest: last_in_set)

lemma hd_snoc [simp]: "hd (xs @ y # z # zs) = hd (xs @ [y])" "hd (xs @ y # zs @ [z]) = hd (xs @ [y])"
  by (cases xs; simp)+

definition ring :: "field \<Rightarrow> u64 list \<Rightarrow> bool" where
  "ring f xs \<longleftrightarrow> path f xs \<and> (xs \<noteq> [] \<longrightarrow> f (last xs) = Some (hd xs))"

text \<open>A ring has no beginning, so that every assignment is one at its ends.\<close>

lemma ring_rotate: "ring f (xs @ ys) \<longleftrightarrow> ring f (ys @ xs)"
  by (cases "xs = []"; cases "ys = []") (auto simp: ring_def)

lemma ring_rotate1: "ring f (xs @ y # ys) \<longleftrightarrow> ring f (y # ys @ xs)"
  using ring_rotate [of f xs "y # ys"] by simp

lemma ring_upd [simp]: "p \<notin> set xs \<Longrightarrow> ring (f(p := v)) xs = ring f xs"
  by (auto simp: ring_def)

lemma ring_single [simp]: "ring f [x] \<longleftrightarrow> f x = Some x" "ring f []"
  by (simp_all add: ring_def)

lemma ring_next: "ring f (p # x # xs) \<Longrightarrow> f p = Some x"
  by (simp add: ring_def)

lemma ring_last: "ring f (x # xs) \<Longrightarrow> f (last (x # xs)) = Some x"
  by (simp add: ring_def)

lemma ring_dom: "ring f xs \<Longrightarrow> x \<in> set xs \<Longrightarrow> \<exists>y. f x = Some y \<and> y \<in> set xs"
proof -
  assume r: "ring f xs" and "x \<in> set xs"
  then obtain ys zs where xs: "xs = ys @ x # zs" by (meson split_list)
  then have "ring f (x # zs @ ys)" using r ring_rotate1 by simp
  show ?thesis
  proof (cases "zs @ ys")
    case (Cons a list)
    then have "a \<in> set (zs @ ys)" by (metis list.set_intros(1))
    then have "a \<in> set xs" using xs by auto
    moreover have "f x = Some a" using \<open>ring f (x # zs @ ys)\<close> Cons by (auto dest: ring_next)
    ultimately show ?thesis by blast
  qed (use \<open>ring f (x # zs @ ys)\<close> xs in auto)
qed

text \<open>Linking a node in behind \<open>p\<close>, and linking the node behind \<open>p\<close> out.\<close>

lemma ring_insert:
  assumes "ring f (p # xs)" and "distinct (p # xs)" and "x \<notin> set (p # xs)" and "f p = Some n"
  shows "ring (f(x \<mapsto> n, p \<mapsto> x)) (p # x # xs)"
  using assms by (cases xs rule: rev_cases) (auto simp: ring_def path_Cons)

lemma ring_remove:
  assumes "ring f (p # x # xs)" and "distinct (p # x # xs)" and "f x = Some n"
  shows "ring (f(p \<mapsto> n)) (p # xs)"
  using assms by (cases xs rule: rev_cases) (auto simp: ring_def path_Cons)

text \<open>Joining two rings by exchanging the successors of their last nodes, and the reverse.\<close>

lemma ring_join:
  assumes "ring f xs" and "ring f ys" and "distinct (xs @ ys)" and "xs \<noteq> []" and "ys \<noteq> []"
  shows "ring (f(last xs \<mapsto> hd ys, last ys \<mapsto> hd xs)) (xs @ ys)"
  using assms by (cases xs rule: rev_cases; cases ys rule: rev_cases) (auto simp: ring_def path_Cons)

lemma ring_split:
  assumes "ring f (xs @ ys)" and "distinct (xs @ ys)" and "xs \<noteq> []" and "ys \<noteq> []"
  shows "ring (f(last ys \<mapsto> hd ys, last xs \<mapsto> hd xs)) xs" and "ring (f(last ys \<mapsto> hd ys, last xs \<mapsto> hd xs)) ys"
  using assms by (cases xs rule: rev_cases; cases ys rule: rev_cases; auto simp: ring_def path_Cons)+

text \<open>The nodes of a ring, with the pointer to the last one that the list object keeps.\<close>

definition nodes :: "u64 \<Rightarrow> u64 list \<Rightarrow> bool" where
  "nodes l xs \<longleftrightarrow> l = (if xs = [] then 0 else last xs) \<and> distinct xs \<and> 0 \<notin> set xs"

lemma nodes_Nil [simp]: "nodes l [] \<longleftrightarrow> l = 0"
  by (simp add: nodes_def)

lemma nodes_null: "nodes l xs \<Longrightarrow> l = 0 \<longleftrightarrow> xs = []"
  by (auto simp: nodes_def dest: last_in_set)

text \<open>What an iterator keeps that has the nodes \<open>xs\<close> before it.\<close>

definition first :: "u64 list \<Rightarrow> u64" where "first xs = (if xs = [] then 0 else hd xs)"

lemma first_simps [simp]: "first [] = 0" "first (x # xs) = x" "xs \<noteq> [] \<Longrightarrow> first (xs @ ys) = first xs"
  by (simp_all add: first_def)

section \<open>Deleting the nodes\<close>

text \<open>
  The callback \<open>delete_object\<close> of the type adapter, or none. It may free the node, so that the model
  takes it out of the store. The last error of the calls is the one that is returned.
\<close>

type_synonym 's delete_t = "(u64 \<Rightarrow> 's \<Rightarrow> unit cres \<times> 's) option"

definition calldelete :: "'s delete_t \<Rightarrow> u64 \<Rightarrow> unit cres \<times> 's \<Rightarrow> unit cres \<times> 's" where
  "calldelete del node st =
     (case del of None \<Rightarrow> st
      | Some d \<Rightarrow> (case d node (snd st) of (err2, s) \<Rightarrow> (if err2 \<noteq> Inr () then err2 else fst st, s)))"

definition release :: "'s delete_t \<Rightarrow> u64 \<Rightarrow> field \<Rightarrow> field" where
  "release del node f = (if del = None then f else f(node := None))"

lemma release_other [simp]: "p \<noteq> node \<Longrightarrow> release del node f p = f p"
  by (simp add: release_def)

lemma release_path [simp]: "node \<notin> set xs \<Longrightarrow> path (release del node f) xs = path f xs"
  by (simp add: release_def)

text \<open>The fields of the nodes \<open>xs\<close> after they have been deleted.\<close>

definition cleared :: "'s delete_t \<Rightarrow> u64 list \<Rightarrow> field \<Rightarrow> field \<Rightarrow> bool" where
  "cleared del xs f g \<longleftrightarrow> (\<forall>p. g p = (if p \<notin> set xs then f p else if del = None then Some 0 else None))"

lemma cleared_Nil: "cleared del [] f f"
  by (simp add: cleared_def)

lemma cleared_Cons:
  "x \<notin> set xs \<Longrightarrow> cleared del xs (release del x (f(x \<mapsto> 0))) g \<Longrightarrow> cleared del (x # xs) f g"
  by (auto simp: cleared_def release_def)

end
