(* ===== verification/Ds_Slist.thy ===== *)
theory Ds_Slist
  imports Ds_Links
begin

text \<open>
  The single linked lists of ds/inmem/slist.c and api/ds/inmem/slist.h: a ring of nodes with a pointer
  to the last one.
\<close>

section \<open>The model\<close>

record slist_t =
  sl_last :: u64

text \<open>The iterator points to the list object, which its operations get as it is at that time.\<close>

record slist_iterator_t =
  sli_next :: u64

definition slist_INIT :: slist_t where "slist_INIT = \<lparr>sl_last = 0\<rparr>"

definition init_slist :: slist_t where "init_slist = slist_INIT"

definition isempty_slist :: "slist_t \<Rightarrow> bool" where "isempty_slist list \<longleftrightarrow> 0 = sl_last list"

definition next_slist :: "field \<Rightarrow> u64 \<Rightarrow> u64 option" where "next_slist nxt node = nxt node"

definition first_slist :: "field \<Rightarrow> slist_t \<Rightarrow> u64 option" where
  "first_slist nxt list = (if sl_last list \<noteq> 0 then next_slist nxt (sl_last list) else Some 0)"

definition last_slist :: "slist_t \<Rightarrow> u64" where "last_slist list = sl_last list"

definition isinlist_slist :: "field \<Rightarrow> u64 \<Rightarrow> bool option" where
  "isinlist_slist nxt node = do { p \<leftarrow> nxt node; Some (0 \<noteq> p) }"

definition initsingle_slist :: "field \<Rightarrow> u64 \<Rightarrow> (slist_t \<times> field) option" where
  "initsingle_slist nxt node = do { nxt \<leftarrow> put_field nxt node node; Some (\<lparr>sl_last = node\<rparr>, nxt) }"

text \<open>The results of \<open>initsplit_slist\<close> are \<open>list\<close>, \<open>list2\<close> and the store.\<close>

definition initsplit_slist :: "field \<Rightarrow> slist_t \<Rightarrow> u64 \<Rightarrow> (slist_t \<times> slist_t \<times> field) option" where
  "initsplit_slist nxt list2 after =
     (if sl_last list2 \<noteq> after then do {
        first \<leftarrow> nxt after;
        first2 \<leftarrow> nxt (sl_last list2);
        nxt \<leftarrow> put_field nxt (sl_last list2) first;
        nxt \<leftarrow> put_field nxt after first2;
        Some (\<lparr>sl_last = sl_last list2\<rparr>, \<lparr>sl_last = after\<rparr>, nxt) }
      else Some (slist_INIT, list2, nxt))"

partial_function (option) free_slist_loop ::
  "'s delete_t \<Rightarrow> u64 \<Rightarrow> u64 \<Rightarrow> field \<Rightarrow> unit cres \<times> 's \<Rightarrow> (field \<times> unit cres \<times> 's) option" where
  "free_slist_loop del l node nxt st = do {
     n \<leftarrow> nxt node;
     nxt \<leftarrow> put_field nxt node 0;
     let nxt = release del node nxt;
     let st = calldelete del node st;
     if l \<noteq> node then free_slist_loop del l n nxt st else Some (nxt, st) }"

definition free_slist ::
  "'s delete_t \<Rightarrow> field \<Rightarrow> slist_t \<Rightarrow> 's \<Rightarrow> (unit cres \<times> slist_t \<times> field \<times> 's) option" where
  "free_slist del nxt list s =
     (if sl_last list \<noteq> 0 then do {
        n \<leftarrow> nxt (sl_last list);
        (nxt, err, s) \<leftarrow> free_slist_loop del (sl_last list) n nxt (Inr (), s);
        Some (err, \<lparr>sl_last = 0\<rparr>, nxt, s) }
      else Some (Inr (), list, nxt, s))"

definition removeall_slist ::
  "'s delete_t \<Rightarrow> field \<Rightarrow> slist_t \<Rightarrow> 's \<Rightarrow> (unit cres \<times> slist_t \<times> field \<times> 's) option" where
  "removeall_slist del nxt list s = free_slist del nxt list s"

definition insertfirst_slist :: "field \<Rightarrow> slist_t \<Rightarrow> u64 \<Rightarrow> (slist_t \<times> field) option" where
  "insertfirst_slist nxt list new_node =
     (let l = sl_last list
      in if l = 0 then do {
           nxt \<leftarrow> put_field nxt new_node new_node;
           Some (list\<lparr>sl_last := new_node\<rparr>, nxt) }
         else do {
           n \<leftarrow> nxt l;
           nxt \<leftarrow> put_field nxt new_node n;
           nxt \<leftarrow> put_field nxt l new_node;
           Some (list, nxt) })"

definition insertlast_slist :: "field \<Rightarrow> slist_t \<Rightarrow> u64 \<Rightarrow> (slist_t \<times> field) option" where
  "insertlast_slist nxt list new_node =
     (let l = sl_last list
      in if l = 0 then do {
           nxt \<leftarrow> put_field nxt new_node new_node;
           Some (list\<lparr>sl_last := new_node\<rparr>, nxt) }
         else do {
           n \<leftarrow> nxt l;
           nxt \<leftarrow> put_field nxt new_node n;
           nxt \<leftarrow> put_field nxt l new_node;
           Some (list\<lparr>sl_last := new_node\<rparr>, nxt) })"

definition insertafter_slist :: "field \<Rightarrow> slist_t \<Rightarrow> u64 \<Rightarrow> u64 \<Rightarrow> (slist_t \<times> field) option" where
  "insertafter_slist nxt list prev_node new_node = do {
     n \<leftarrow> nxt prev_node;
     nxt \<leftarrow> put_field nxt new_node n;
     nxt \<leftarrow> put_field nxt prev_node new_node;
     Some (if sl_last list = prev_node then list\<lparr>sl_last := new_node\<rparr> else list, nxt) }"

definition insertnext_slist :: "field \<Rightarrow> u64 \<Rightarrow> u64 \<Rightarrow> field option" where
  "insertnext_slist nxt prev_node new_node = do {
     n \<leftarrow> nxt prev_node;
     nxt \<leftarrow> put_field nxt new_node n;
     put_field nxt prev_node new_node }"

definition removefirst_slist :: "field \<Rightarrow> slist_t \<Rightarrow> (u64 \<times> slist_t \<times> field) option" where
  "removefirst_slist nxt list = do {
     let l = sl_last list;
     first \<leftarrow> nxt l;
     (list, nxt) \<leftarrow> (if first = l then Some (list\<lparr>sl_last := 0\<rparr>, nxt)
                    else do { n \<leftarrow> nxt first; nxt \<leftarrow> put_field nxt l n; Some (list, nxt) });
     nxt \<leftarrow> put_field nxt first 0;
     Some (first, list, nxt) }"

definition removeafter_slist :: "field \<Rightarrow> slist_t \<Rightarrow> u64 \<Rightarrow> (u64 cres \<times> slist_t \<times> field) option" where
  "removeafter_slist nxt list prev_node = do {
     n \<leftarrow> nxt prev_node;
     if \<not> (0 \<noteq> n \<and> \<not> isempty_slist list) then Some (Inl EINVAL, list, nxt)
     else do {
       n2 \<leftarrow> nxt n;
       nxt \<leftarrow> put_field nxt prev_node n2;
       nxt \<leftarrow> put_field nxt n 0;
       let list = (if sl_last list = n then
                     if sl_last list = prev_node then list\<lparr>sl_last := 0\<rparr> else list\<lparr>sl_last := prev_node\<rparr>
                   else list);
       Some (Inr n, list, nxt) } }"

text \<open>The results are \<open>list\<close>, \<open>list2\<close> and the store.\<close>

definition insertfirstPlist_slist :: "field \<Rightarrow> slist_t \<Rightarrow> slist_t \<Rightarrow> (slist_t \<times> slist_t \<times> field) option" where
  "insertfirstPlist_slist nxt list list2 =
     (if \<not> isempty_slist list2 then
        if \<not> isempty_slist list then do {
          first \<leftarrow> nxt (sl_last list);
          first2 \<leftarrow> nxt (sl_last list2);
          nxt \<leftarrow> put_field nxt (sl_last list) first2;
          nxt \<leftarrow> put_field nxt (sl_last list2) first;
          Some (list, slist_INIT, nxt) }
        else Some (list2, slist_INIT, nxt)
      else Some (list, list2, nxt))"

definition insertlastPlist_slist :: "field \<Rightarrow> slist_t \<Rightarrow> slist_t \<Rightarrow> (slist_t \<times> slist_t \<times> field) option" where
  "insertlastPlist_slist nxt list list2 =
     (if \<not> isempty_slist list2 then do {
        nxt \<leftarrow> (if \<not> isempty_slist list then do {
                  first \<leftarrow> nxt (sl_last list);
                  first2 \<leftarrow> nxt (sl_last list2);
                  nxt \<leftarrow> put_field nxt (sl_last list) first2;
                  put_field nxt (sl_last list2) first }
                else Some nxt);
        Some (list2, slist_INIT, nxt) }
      else Some (list, list2, nxt))"

definition initfirst_slistiterator :: "field \<Rightarrow> slist_t \<Rightarrow> slist_iterator_t option" where
  "initfirst_slistiterator nxt list = do {
     first \<leftarrow> first_slist nxt list;
     Some \<lparr>sli_next = first\<rparr> }"

text \<open>The result is \<open>Some None\<close> when the iterator has no further node.\<close>

definition next_slistiterator :: "field \<Rightarrow> slist_t \<Rightarrow> slist_iterator_t \<Rightarrow> (u64 option \<times> slist_iterator_t) option" where
  "next_slistiterator nxt list iter =
     (if 0 \<noteq> sli_next iter then
        if sl_last list = sli_next iter then Some (Some (sli_next iter), iter\<lparr>sli_next := 0\<rparr>)
        else do {
          n \<leftarrow> next_slist nxt (sli_next iter);
          Some (Some (sli_next iter), iter\<lparr>sli_next := n\<rparr>) }
      else Some (None, iter))"

definition free_slistiterator :: "slist_iterator_t \<Rightarrow> slist_iterator_t" where
  "free_slistiterator iter = iter\<lparr>sli_next := 0\<rparr>"

section \<open>The sequence of a list\<close>

text \<open>The list object stands for the sequence \<open>xs\<close> of its nodes.\<close>

definition is_slist :: "field \<Rightarrow> slist_t \<Rightarrow> u64 list \<Rightarrow> bool" where
  "is_slist nxt list xs \<longleftrightarrow> nodes (sl_last list) xs \<and> ring nxt xs"

lemma is_slistD:
  assumes "is_slist nxt list xs"
  shows "distinct xs" "0 \<notin> set xs" "ring nxt xs" "sl_last list = 0 \<longleftrightarrow> xs = []" "xs \<noteq> [] \<Longrightarrow> sl_last list = last xs"
  using assms by (auto simp: is_slist_def nodes_def dest: last_in_set)

lemma is_slistI:
  "ring nxt xs \<Longrightarrow> distinct xs \<Longrightarrow> 0 \<notin> set xs \<Longrightarrow> l = (if xs = [] then 0 else last xs) \<Longrightarrow> is_slist nxt \<lparr>sl_last = l\<rparr> xs"
  by (simp add: is_slist_def nodes_def)

lemma is_slistI':
  "ring nxt xs \<Longrightarrow> distinct xs \<Longrightarrow> 0 \<notin> set xs \<Longrightarrow> sl_last list = (if xs = [] then 0 else last xs) \<Longrightarrow> is_slist nxt list xs"
  by (simp add: is_slist_def nodes_def)

lemma init_slist_empty [simp]: "is_slist nxt slist_INIT []" "is_slist nxt init_slist []"
  by (simp_all add: is_slist_def slist_INIT_def init_slist_def)

lemma isempty_slist_iff: "is_slist nxt list xs \<Longrightarrow> isempty_slist list \<longleftrightarrow> xs = []"
  by (auto simp: isempty_slist_def eq_commute [of 0] is_slistD)

text \<open>A node that is inserted is allocated and not part of the list.\<close>

definition fresh_snode :: "field \<Rightarrow> u64 list \<Rightarrow> u64 \<Rightarrow> bool" where
  "fresh_snode nxt xs x \<longleftrightarrow> x \<in> dom nxt \<and> x \<noteq> 0 \<and> x \<notin> set xs"

lemma insertafter_slist_after:
  assumes inv: "is_slist nxt list (ys @ p # zs)" and x: "fresh_snode nxt (ys @ p # zs) x"
  shows "\<exists>list' nxt'. insertafter_slist nxt list p x = Some (list', nxt') \<and> is_slist nxt' list' (ys @ p # x # zs) \<and>
    same_outside {p, x} nxt nxt'"
proof -
  note d = is_slistD [OF inv]
  obtain n where n: "nxt p = Some n" using ring_dom [OF d(3), of p] by auto
  let ?nxt = "nxt(x \<mapsto> n, p \<mapsto> x)"
  let ?list = "if sl_last list = p then list\<lparr>sl_last := x\<rparr> else list"
  have "ring ?nxt (p # x # zs @ ys)"
    using d(1,3) x n by (intro ring_insert) (auto simp: ring_rotate1 fresh_snode_def)
  then have "ring ?nxt (ys @ p # x # zs)" by (simp add: ring_rotate1)
  then have "is_slist ?nxt ?list (ys @ p # x # zs)"
    using d x by (intro is_slistI') (auto simp: fresh_snode_def)
  moreover have "insertafter_slist nxt list p x = Some (?list, ?nxt)"
    using n x by (auto simp: insertafter_slist_def fresh_snode_def put_field_dom)
  ultimately show ?thesis by auto
qed

lemma insertnext_slist_after:
  assumes "is_slist nxt list (ys @ p # zs)" and "zs \<noteq> []" and "fresh_snode nxt (ys @ p # zs) x"
  shows "\<exists>nxt'. insertnext_slist nxt p x = Some nxt' \<and> is_slist nxt' list (ys @ p # x # zs) \<and> same_outside {p, x} nxt nxt'"
proof -
  have "sl_last list \<noteq> p" using assms(2) is_slistD(1,5) [OF assms(1)] by auto
  then show ?thesis
    using insertafter_slist_after [OF assms(1,3)]
    by (auto simp: insertafter_slist_def insertnext_slist_def split: Option.bind_splits)
qed

lemma ring_insert_single:
  "fresh_snode nxt [] x \<Longrightarrow> put_field nxt x x = Some (nxt(x \<mapsto> x)) \<and> ring (nxt(x \<mapsto> x)) [x]"
  by (auto simp: fresh_snode_def put_field_def)

lemma insertfirst_slist_Cons:
  assumes inv: "is_slist nxt list xs" and x: "fresh_snode nxt xs x"
  shows "\<exists>list' nxt'. insertfirst_slist nxt list x = Some (list', nxt') \<and> is_slist nxt' list' (x # xs) \<and>
    same_outside (set (x # xs)) nxt nxt'"
proof (cases xs rule: rev_cases)
  case Nil
  then show ?thesis
    using x is_slistD(4) [OF inv] by (auto simp: insertfirst_slist_def fresh_snode_def put_field_def intro!: is_slistI')
next
  case (snoc ys l)
  note d = is_slistD [OF inv]
  have n: "nxt l = Some (hd xs)" using d(3) snoc by (simp add: ring_def)
  have "ring (nxt(x \<mapsto> hd xs, l \<mapsto> x)) (l # x # ys)"
    using d(1,3) x n snoc by (intro ring_insert) (auto simp: ring_rotate1 fresh_snode_def)
  then have "ring (nxt(x \<mapsto> hd xs, l \<mapsto> x)) (x # xs)"
    using ring_rotate1 [of _ "x # ys" l "[]"] snoc by simp
  then show ?thesis
    using d x n snoc by (auto simp: insertfirst_slist_def fresh_snode_def put_field_dom intro!: is_slistI')
qed

lemma insertlast_slist_append:
  assumes inv: "is_slist nxt list xs" and x: "fresh_snode nxt xs x"
  shows "\<exists>list' nxt'. insertlast_slist nxt list x = Some (list', nxt') \<and> is_slist nxt' list' (xs @ [x]) \<and>
    same_outside (set (x # xs)) nxt nxt'"
proof -
  obtain list1 nxt' where 1: "insertfirst_slist nxt list x = Some (list1, nxt')" "is_slist nxt' list1 (x # xs)"
    "same_outside (set (x # xs)) nxt nxt'"
    using insertfirst_slist_Cons [OF assms] by blast
  note d = is_slistD [OF 1(2)]
  have "is_slist nxt' (list\<lparr>sl_last := x\<rparr>) (xs @ [x])"
    using d ring_rotate [of nxt' "[x]" xs] by (intro is_slistI') auto
  moreover have "insertlast_slist nxt list x = Some (list\<lparr>sl_last := x\<rparr>, nxt')"
    using 1(1) by (auto simp: insertfirst_slist_def insertlast_slist_def Let_def split: Option.bind_splits if_splits)
  ultimately show ?thesis using 1(3) by blast
qed

lemma removefirst_slist_tl:
  assumes inv: "is_slist nxt list (x # xs)"
  shows "\<exists>list' nxt'. removefirst_slist nxt list = Some (x, list', nxt') \<and> is_slist nxt' list' xs \<and>
    nxt' x = Some 0 \<and> same_outside (set (x # xs)) nxt nxt'"
proof (cases xs rule: rev_cases)
  case Nil
  then show ?thesis
    using is_slistD [OF inv] by (auto simp: removefirst_slist_def intro!: is_slistI')
next
  case (snoc ys l)
  note d = is_slistD [OF inv]
  have l: "sl_last list = l" "nxt l = Some x" using d(3,5) snoc by (simp_all add: ring_def)
  obtain n where n: "nxt x = Some n" using ring_dom [OF d(3)] by auto
  have "ring (nxt(l \<mapsto> n)) (l # ys)"
    using d(1,3) n snoc ring_rotate1 [of nxt "x # ys" l "[]"] by (intro ring_remove) auto
  then have "ring (nxt(l \<mapsto> n, x \<mapsto> 0)) xs"
    using ring_rotate1 [of _ ys l "[]"] d(1) snoc by simp
  moreover have "removefirst_slist nxt list = Some (x, list, nxt(l \<mapsto> n, x \<mapsto> 0))"
    using l n d(1) snoc by (simp add: removefirst_slist_def)
  ultimately show ?thesis using d snoc l by (auto intro!: is_slistI')
qed

text \<open>The successor of the last node is the first one.\<close>

lemma removeafter_slist_next:
  assumes inv: "is_slist nxt list (ys @ p # x # zs)"
  shows "\<exists>list' nxt'. removeafter_slist nxt list p = Some (Inr x, list', nxt') \<and> is_slist nxt' list' (ys @ p # zs) \<and>
    nxt' x = Some 0 \<and> same_outside {p, x} nxt nxt'"
proof -
  note d = is_slistD [OF inv]
  have r: "ring nxt (p # x # zs @ ys)" using d(3) by (simp add: ring_rotate1)
  obtain n where n: "nxt x = Some n" using ring_dom [OF d(3), of x] by auto
  have "ring (nxt(p \<mapsto> n)) (p # zs @ ys)" using r d(1) n by (intro ring_remove) auto
  then have "ring (nxt(p \<mapsto> n, x \<mapsto> 0)) (ys @ p # zs)" using d(1) by (auto simp: ring_rotate1)
  then have "is_slist (nxt(p \<mapsto> n, x \<mapsto> 0)) (if sl_last list = x then list\<lparr>sl_last := p\<rparr> else list) (ys @ p # zs)"
    using d by (intro is_slistI') auto
  moreover have "removeafter_slist nxt list p =
      Some (Inr x, if sl_last list = x then list\<lparr>sl_last := p\<rparr> else list, nxt(p \<mapsto> n, x \<mapsto> 0))"
    using ring_next [OF r] n d by (auto simp: removeafter_slist_def isempty_slist_def)
  ultimately show ?thesis by auto
qed

lemma removeafter_slist_last:
  assumes inv: "is_slist nxt list (x # xs)"
  shows "\<exists>list' nxt'. removeafter_slist nxt list (last (x # xs)) = Some (Inr x, list', nxt') \<and> is_slist nxt' list' xs \<and>
    nxt' x = Some 0 \<and> same_outside (set (x # xs)) nxt nxt'"
proof -
  note d = is_slistD [OF inv]
  obtain list' nxt' where r: "removefirst_slist nxt list = Some (x, list', nxt')" "is_slist nxt' list' xs"
    "nxt' x = Some 0" "same_outside (set (x # xs)) nxt nxt'"
    using removefirst_slist_tl [OF inv] by blast
  obtain n where n: "nxt x = Some n" using ring_dom [OF d(3)] by auto
  have "removeafter_slist nxt list (last (x # xs)) = Some (Inr x, list', nxt')"
    using r(1) n d ring_last [OF d(3)]
    by (auto simp: removefirst_slist_def removeafter_slist_def isempty_slist_def split: if_splits)
  then show ?thesis using r by blast
qed


section \<open>Joining, splitting and freeing\<close>

lemma insertlastPlist_slist_append:
  assumes "is_slist nxt list xs" and "is_slist nxt list2 ys" and "set xs \<inter> set ys = {}"
  shows "\<exists>list' nxt'. insertlastPlist_slist nxt list list2 = Some (list', slist_INIT, nxt') \<and> is_slist nxt' list' (xs @ ys) \<and>
      same_outside (set xs \<union> set ys) nxt nxt' \<or> ys = [] \<and> insertlastPlist_slist nxt list list2 = Some (list, list2, nxt)"
proof -
  note d = is_slistD [OF assms(1)] and e = is_slistD [OF assms(2)]
  consider "ys = []" | "ys \<noteq> []" "xs = []" | "ys \<noteq> []" "xs \<noteq> []" by blast
  then show ?thesis
  proof cases
    case 3
    let ?nxt = "nxt(last xs \<mapsto> hd ys, last ys \<mapsto> hd xs)"
    have f: "nxt (last xs) = Some (hd xs)" "nxt (last ys) = Some (hd ys)" using 3 d(3) e(3) by (simp_all add: ring_def)
    have "last xs \<noteq> last ys" using 3 assms(3) by (metis disjoint_iff last_in_set)
    then have "insertlastPlist_slist nxt list list2 = Some (list2, slist_INIT, ?nxt)"
      using 3 d(4,5) e(4,5) f by (simp add: insertlastPlist_slist_def isempty_slist_def)
    moreover have "is_slist ?nxt list2 (xs @ ys)"
      using 3 d e assms(3) by (intro is_slistI' ring_join) auto
    ultimately show ?thesis using 3 by auto
  qed (use assms d e in \<open>auto simp: insertlastPlist_slist_def isempty_slist_def\<close>)
qed

lemma insertfirstPlist_slist_append:
  assumes "is_slist nxt list xs" and "is_slist nxt list2 ys" and "set xs \<inter> set ys = {}"
  shows "\<exists>list' nxt'. insertfirstPlist_slist nxt list list2 = Some (list', slist_INIT, nxt') \<and> is_slist nxt' list' (ys @ xs) \<and>
      same_outside (set xs \<union> set ys) nxt nxt' \<or> ys = [] \<and> insertfirstPlist_slist nxt list list2 = Some (list, list2, nxt)"
proof -
  note d = is_slistD [OF assms(1)] and e = is_slistD [OF assms(2)]
  consider "ys = []" | "ys \<noteq> []" "xs = []" | "ys \<noteq> []" "xs \<noteq> []" by blast
  then show ?thesis
  proof cases
    case 3
    let ?nxt = "nxt(last xs \<mapsto> hd ys, last ys \<mapsto> hd xs)"
    have f: "nxt (last xs) = Some (hd xs)" "nxt (last ys) = Some (hd ys)" using 3 d(3) e(3) by (simp_all add: ring_def)
    have "last xs \<noteq> last ys" using 3 assms(3) by (metis disjoint_iff last_in_set)
    then have "insertfirstPlist_slist nxt list list2 = Some (list, slist_INIT, ?nxt)"
      using 3 d(4,5) e(4,5) f by (simp add: insertfirstPlist_slist_def isempty_slist_def)
    moreover have "ring ?nxt (xs @ ys)" using 3 d e assms(3) by (intro ring_join) auto
    then have "is_slist ?nxt list (ys @ xs)"
      using 3 d e assms(3) ring_rotate [of ?nxt xs ys] by (intro is_slistI') auto
    ultimately show ?thesis using 3 by auto
  qed (use assms d e in \<open>auto simp: insertfirstPlist_slist_def isempty_slist_def\<close>)
qed

lemma initsplit_slist_splits:
  assumes inv: "is_slist nxt list2 (xs @ ys)" and "xs \<noteq> []"
  shows "\<exists>list list2' nxt'. initsplit_slist nxt list2 (last xs) = Some (list, list2', nxt') \<and>
    is_slist nxt' list ys \<and> is_slist nxt' list2' xs \<and> same_outside (set xs \<union> set ys) nxt nxt'"
proof (cases "ys = []")
  case True
  then show ?thesis using assms is_slistD(5) [OF inv] by (auto simp: initsplit_slist_def)
next
  case False
  note d = is_slistD [OF inv]
  let ?nxt = "nxt(last ys \<mapsto> hd ys, last xs \<mapsto> hd xs)"
  have "last xs \<in> set xs" "last ys \<in> set ys" using False assms(2) by simp_all
  then have ne: "last xs \<noteq> last ys" using d(1) by auto
  have "nxt (last xs) = Some (hd ys)" "nxt (last ys) = Some (hd xs)"
    using d(3) assms(2) False by (simp_all add: ring_def)
  then have "initsplit_slist nxt list2 (last xs) = Some (\<lparr>sl_last = last ys\<rparr>, \<lparr>sl_last = last xs\<rparr>, ?nxt)"
    using ne d(5) assms(2) False by (simp add: initsplit_slist_def)
  moreover have "is_slist ?nxt \<lparr>sl_last = last ys\<rparr> ys" "is_slist ?nxt \<lparr>sl_last = last xs\<rparr> xs"
    using ring_split [OF d(3,1) assms(2) False] d(1,2) assms(2) False by (auto intro!: is_slistI)
  ultimately show ?thesis using assms(2) False by auto
qed

lemma free_slist_loop_deletes:
  "path nxt (x # xs) \<Longrightarrow> distinct (x # xs) \<Longrightarrow> nxt (last (x # xs)) \<noteq> None \<Longrightarrow>
   \<exists>nxt'. free_slist_loop del (last (x # xs)) x nxt st = Some (nxt', fold (calldelete del) (x # xs) st) \<and>
     cleared del (x # xs) nxt nxt'"
proof (induction xs arbitrary: x nxt st)
  case Nil
  then show ?case
    by (auto simp: free_slist_loop.simps [of del x x] Let_def intro!: cleared_Cons cleared_Nil)
next
  case (Cons y ys)
  let ?nxt = "release del x (nxt(x \<mapsto> 0))"
  have ne: "last (y # ys) \<noteq> x" using Cons.prems(2) by (metis distinct.simps(2) last_in_set list.distinct(1))
  have "path ?nxt (y # ys)" "?nxt (last (y # ys)) \<noteq> None" using Cons.prems ne by simp_all
  then obtain nxt' where "free_slist_loop del (last (y # ys)) y ?nxt (calldelete del x st) =
      Some (nxt', fold (calldelete del) (y # ys) (calldelete del x st))" "cleared del (y # ys) ?nxt nxt'"
    using Cons.IH Cons.prems(2) by (metis distinct.simps(2))
  moreover have "free_slist_loop del (last (y # ys)) x nxt st = free_slist_loop del (last (y # ys)) y ?nxt (calldelete del x st)"
    using Cons.prems(1) ne [symmetric] by (subst free_slist_loop.simps) (auto simp: Let_def)
  moreover have "x \<notin> set (y # ys)" using Cons.prems(2) by simp
  ultimately show ?case using cleared_Cons [of x "y # ys" del nxt nxt'] by simp
qed

lemma free_slist_deletes:
  assumes "is_slist nxt list xs"
  shows "\<exists>nxt'. free_slist del nxt list s =
      Some (fst (fold (calldelete del) xs (Inr (), s)), slist_INIT, nxt', snd (fold (calldelete del) xs (Inr (), s))) \<and>
    cleared del xs nxt nxt'"
proof (cases xs)
  case Nil
  then show ?thesis using is_slistD [OF assms] by (cases list) (auto simp: free_slist_def slist_INIT_def cleared_Nil)
next
  case (Cons y ys)
  note d = is_slistD [OF assms]
  obtain nxt' where "free_slist_loop del (last xs) y nxt (Inr (), s) = Some (nxt', fold (calldelete del) xs (Inr (), s))"
    "cleared del xs nxt nxt'"
    using free_slist_loop_deletes [of nxt y ys del "(Inr (), s)"] d(1,3) Cons by (auto simp: ring_def)
  then show ?thesis
    using d(3-5) Cons by (auto simp: free_slist_def slist_INIT_def ring_def split: prod.splits)
qed

section \<open>Iterating\<close>

text \<open>All nodes that an iterator returns until it has no further one.\<close>

text \<open>The iterator in front of \<open>bs\<close> returns the first of these nodes.\<close>

lemma next_slistiterator_steps:
  assumes "is_slist nxt list (as @ bs)"
  shows "next_slistiterator nxt list \<lparr>sli_next = first bs\<rparr> =
    Some (case bs of [] \<Rightarrow> None | b # _ \<Rightarrow> Some b, \<lparr>sli_next = first (tl bs)\<rparr>)"
proof (cases bs)
  case (Cons b cs)
  note d = is_slistD [OF assms [unfolded Cons]]
  have "b \<noteq> 0" "sl_last list = last (b # cs)" using d(2,5) by auto
  moreover have "cs \<noteq> [] \<Longrightarrow> last cs \<noteq> b \<and> nxt b = Some (hd cs)" using d(1,3) by (auto simp: ring_def path_Cons)
  ultimately show ?thesis using Cons by (cases cs) (auto simp: next_slistiterator_def next_slist_def)
qed (simp add: next_slistiterator_def)

partial_function (option) iterate_slist :: "field \<Rightarrow> slist_t \<Rightarrow> slist_iterator_t \<Rightarrow> u64 list option" where
  "iterate_slist nxt list iter = do {
     (node, iter) \<leftarrow> next_slistiterator nxt list iter;
     case node of None \<Rightarrow> Some []
     | Some x \<Rightarrow> do { xs \<leftarrow> iterate_slist nxt list iter; Some (x # xs) } }"

lemma iterate_slist_rest: "is_slist nxt list (as @ bs) \<Longrightarrow> iterate_slist nxt list \<lparr>sli_next = first bs\<rparr> = Some bs"
proof (induction bs arbitrary: as)
  case Nil
  then show ?case using next_slistiterator_steps [OF Nil] by (subst iterate_slist.simps) simp
next
  case (Cons b bs)
  have "iterate_slist nxt list \<lparr>sli_next = first bs\<rparr> = Some bs" using Cons.IH [of "as @ [b]"] Cons.prems by simp
  then show ?case using next_slistiterator_steps [OF Cons.prems] by (subst iterate_slist.simps) simp
qed

lemma initfirst_slistiterator_first:
  "is_slist nxt list xs \<Longrightarrow> initfirst_slistiterator nxt list = Some \<lparr>sli_next = first xs\<rparr>"
  using is_slistD [of nxt list xs] by (cases xs) (auto simp: initfirst_slistiterator_def first_slist_def next_slist_def ring_def)

lemma queries_slist:
  assumes "is_slist nxt list xs"
  shows "first_slist nxt list = Some (first xs)" "last_slist list = first (rev xs)" "x \<in> set xs \<Longrightarrow> isinlist_slist nxt x = Some True"
proof -
  note d = is_slistD [OF assms]
  show "first_slist nxt list = Some (first xs)" using d by (cases xs) (auto simp: first_slist_def next_slist_def ring_def)
  show "last_slist list = first (rev xs)" using d by (cases xs rule: rev_cases) (auto simp: last_slist_def)
  show "isinlist_slist nxt x = Some True" if "x \<in> set xs" using ring_dom [OF d(3) that] d(2) by (auto simp: isinlist_slist_def)
qed

lemma initsingle_slist_single:
  "x \<in> dom nxt \<Longrightarrow> x \<noteq> 0 \<Longrightarrow> \<exists>list nxt'. initsingle_slist nxt x = Some (list, nxt') \<and> is_slist nxt' list [x]"
  by (auto simp: initsingle_slist_def put_field_dom intro!: is_slistI)

lemma insertnext_slist_wraps:
  assumes "is_slist nxt list (ys @ [p])" and "fresh_snode nxt (ys @ [p]) x"
  shows "\<exists>nxt'. insertnext_slist nxt p x = Some nxt' \<and> is_slist nxt' list (x # ys @ [p])"
proof -
  note d = is_slistD [OF assms(1)]
  have r: "ring nxt (p # ys)" using d(3) ring_rotate1 [of nxt ys p "[]"] by simp
  obtain n where n: "nxt p = Some n" using ring_dom [OF d(3), of p] by auto
  have "ring (nxt(x \<mapsto> n, p \<mapsto> x)) (p # x # ys)"
    by (rule ring_insert [OF r _ _ n]) (use d(1) assms(2) in \<open>auto simp: fresh_snode_def\<close>)
  then have "ring (nxt(x \<mapsto> n, p \<mapsto> x)) ((x # ys) @ [p])" using ring_rotate1 [of _ "x # ys" p "[]"] by simp
  then have "is_slist (nxt(x \<mapsto> n, p \<mapsto> x)) list (x # ys @ [p])"
    by (intro is_slistI') (use d assms(2) in \<open>auto simp: fresh_snode_def\<close>)
  moreover have "insertnext_slist nxt p x = Some (nxt(x \<mapsto> n, p \<mapsto> x))"
    using n assms(2) by (auto simp: insertnext_slist_def fresh_snode_def put_field_dom)
  ultimately show ?thesis by blast
qed

lemma removeafter_slist_refuses:
  assumes "is_slist nxt list xs" and "p \<in> dom nxt" and "xs = [] \<or> nxt p = Some 0"
  shows "removeafter_slist nxt list p = Some (Inl EINVAL, list, nxt)"
  using assms isempty_slist_iff [OF assms(1)] by (auto simp: removeafter_slist_def)

declare free_slist_loop.simps [code] iterate_slist.simps [code]

end
