(* ===== verification/Ds_Dlist.thy ===== *)
theory Ds_Dlist
  imports Ds_Links
begin

text \<open>
  The double linked lists of ds/inmem/dlist.c and api/ds/inmem/dlist.h: a ring of nodes in both
  directions with a pointer to the last one.
\<close>

section \<open>The model\<close>

record links_t =
  lnext :: field
  lprev :: field

record dlist_t =
  dl_last :: u64

text \<open>The iterator points to the list object, which its operations get as it is at that time.\<close>

record dlist_iterator_t =
  dli_next :: u64

definition set_next :: "links_t \<Rightarrow> u64 \<Rightarrow> u64 \<Rightarrow> links_t option" where
  "set_next st p v = do { f \<leftarrow> put_field (lnext st) p v; Some (st\<lparr>lnext := f\<rparr>) }"

definition set_prev :: "links_t \<Rightarrow> u64 \<Rightarrow> u64 \<Rightarrow> links_t option" where
  "set_prev st p v = do { f \<leftarrow> put_field (lprev st) p v; Some (st\<lparr>lprev := f\<rparr>) }"

definition dlist_INIT :: dlist_t where "dlist_INIT = \<lparr>dl_last = 0\<rparr>"

definition init_dlist :: dlist_t where "init_dlist = dlist_INIT"

definition isempty_dlist :: "dlist_t \<Rightarrow> bool" where "isempty_dlist list \<longleftrightarrow> 0 = dl_last list"

definition next_dlist :: "links_t \<Rightarrow> u64 \<Rightarrow> u64 option" where "next_dlist st node = lnext st node"

definition prev_dlist :: "links_t \<Rightarrow> u64 \<Rightarrow> u64 option" where "prev_dlist st node = lprev st node"

definition first_dlist :: "links_t \<Rightarrow> dlist_t \<Rightarrow> u64 option" where
  "first_dlist st list = (if dl_last list \<noteq> 0 then lnext st (dl_last list) else Some 0)"

definition last_dlist :: "dlist_t \<Rightarrow> u64" where "last_dlist list = dl_last list"

definition isinlist_dlist :: "links_t \<Rightarrow> u64 \<Rightarrow> bool option" where
  "isinlist_dlist st node = do { p \<leftarrow> lnext st node; Some (0 \<noteq> p) }"

text \<open>In \<open>free_dlist_loop\<close> the C variable \<open>next\<close> is the parameter \<open>node\<close>.\<close>

partial_function (option) free_dlist_loop ::
  "'s delete_t \<Rightarrow> u64 \<Rightarrow> u64 \<Rightarrow> links_t \<Rightarrow> unit cres \<times> 's \<Rightarrow> (links_t \<times> unit cres \<times> 's) option" where
  "free_dlist_loop del l node st acc = do {
     n \<leftarrow> lnext st node;
     st \<leftarrow> set_prev st node 0;
     st \<leftarrow> set_next st node 0;
     let st = \<lparr>lnext = release del node (lnext st), lprev = release del node (lprev st)\<rparr>;
     let acc = calldelete del node acc;
     if n \<noteq> l then free_dlist_loop del l n st acc else Some (st, acc) }"

definition free_dlist ::
  "'s delete_t \<Rightarrow> links_t \<Rightarrow> dlist_t \<Rightarrow> 's \<Rightarrow> (unit cres \<times> dlist_t \<times> links_t \<times> 's) option" where
  "free_dlist del st list s =
     (if dl_last list \<noteq> 0 then do {
        (st, err, s) \<leftarrow> free_dlist_loop del (dl_last list) (dl_last list) st (Inr (), s);
        Some (err, \<lparr>dl_last = 0\<rparr>, st, s) }
      else Some (Inr (), list, st, s))"

definition removeall_dlist ::
  "'s delete_t \<Rightarrow> links_t \<Rightarrow> dlist_t \<Rightarrow> 's \<Rightarrow> (unit cres \<times> dlist_t \<times> links_t \<times> 's) option" where
  "removeall_dlist del st list s = free_dlist del st list s"

definition insertfirst_dlist :: "links_t \<Rightarrow> dlist_t \<Rightarrow> u64 \<Rightarrow> (dlist_t \<times> links_t) option" where
  "insertfirst_dlist st list new_node =
     (if dl_last list \<noteq> 0 then do {
        st \<leftarrow> set_prev st new_node (dl_last list);
        head \<leftarrow> lnext st (dl_last list);
        st \<leftarrow> set_next st new_node head;
        st \<leftarrow> set_next st (dl_last list) new_node;
        n \<leftarrow> lnext st new_node;
        st \<leftarrow> set_prev st n new_node;
        Some (list, st) }
      else do {
        st \<leftarrow> set_prev st new_node new_node;
        st \<leftarrow> set_next st new_node new_node;
        Some (list\<lparr>dl_last := new_node\<rparr>, st) })"

definition insertlast_dlist :: "links_t \<Rightarrow> dlist_t \<Rightarrow> u64 \<Rightarrow> (dlist_t \<times> links_t) option" where
  "insertlast_dlist st list new_node = do {
     st \<leftarrow> (if dl_last list \<noteq> 0 then do {
              st \<leftarrow> set_prev st new_node (dl_last list);
              head \<leftarrow> lnext st (dl_last list);
              st \<leftarrow> set_next st new_node head;
              st \<leftarrow> set_next st (dl_last list) new_node;
              n \<leftarrow> lnext st new_node;
              set_prev st n new_node }
            else do {
              st \<leftarrow> set_prev st new_node new_node;
              set_next st new_node new_node });
     Some (list\<lparr>dl_last := new_node\<rparr>, st) }"

definition insertafter_dlist :: "links_t \<Rightarrow> dlist_t \<Rightarrow> u64 \<Rightarrow> u64 \<Rightarrow> (dlist_t \<times> links_t) option" where
  "insertafter_dlist st list prev_node new_node = do {
     st \<leftarrow> set_prev st new_node prev_node;
     n \<leftarrow> lnext st prev_node;
     st \<leftarrow> set_next st new_node n;
     st \<leftarrow> set_next st prev_node new_node;
     n \<leftarrow> lnext st new_node;
     st \<leftarrow> set_prev st n new_node;
     Some (if dl_last list = prev_node then list\<lparr>dl_last := new_node\<rparr> else list, st) }"

definition insertbefore_dlist :: "links_t \<Rightarrow> u64 \<Rightarrow> u64 \<Rightarrow> links_t option" where
  "insertbefore_dlist st next_node new_node = do {
     p \<leftarrow> lprev st next_node;
     st \<leftarrow> set_prev st new_node p;
     p \<leftarrow> lprev st new_node;
     st \<leftarrow> set_next st p new_node;
     st \<leftarrow> set_next st new_node next_node;
     set_prev st next_node new_node }"

definition removehelper_dlist :: "links_t \<Rightarrow> dlist_t \<Rightarrow> u64 \<Rightarrow> (dlist_t \<times> links_t) option" where
  "removehelper_dlist st list node = do {
     (list, st) \<leftarrow> (if node = dl_last list then Some (list\<lparr>dl_last := 0\<rparr>, st)
                  else do {
                    p \<leftarrow> lprev st node;
                    n \<leftarrow> lnext st node;
                    st \<leftarrow> set_next st p n;
                    n \<leftarrow> lnext st node;
                    p \<leftarrow> lprev st node;
                    st \<leftarrow> set_prev st n p;
                    Some (list, st) });
     st \<leftarrow> set_next st node 0;
     st \<leftarrow> set_prev st node 0;
     Some (list, st) }"

definition removefirst_dlist :: "links_t \<Rightarrow> dlist_t \<Rightarrow> (u64 \<times> dlist_t \<times> links_t) option" where
  "removefirst_dlist st list = do {
     first \<leftarrow> lnext st (dl_last list);
     (list, st) \<leftarrow> removehelper_dlist st list first;
     Some (first, list, st) }"

definition removelast_dlist :: "links_t \<Rightarrow> dlist_t \<Rightarrow> (u64 \<times> dlist_t \<times> links_t) option" where
  "removelast_dlist st list = do {
     let l = dl_last list;
     p \<leftarrow> lprev st l;
     (list, st) \<leftarrow> removehelper_dlist st (list\<lparr>dl_last := p\<rparr>) l;
     Some (l, list, st) }"

definition remove_dlist :: "links_t \<Rightarrow> dlist_t \<Rightarrow> u64 \<Rightarrow> (dlist_t \<times> links_t) option" where
  "remove_dlist st list node = do {
     list \<leftarrow> (if node = dl_last list then do { p \<leftarrow> lprev st node; Some (list\<lparr>dl_last := p\<rparr>) } else Some list);
     removehelper_dlist st list node }"

definition replacenode_dlist :: "links_t \<Rightarrow> dlist_t \<Rightarrow> u64 \<Rightarrow> u64 \<Rightarrow> (dlist_t \<times> links_t) option" where
  "replacenode_dlist st list oldnode newnode = do {
     let list = (if dl_last list = oldnode then list\<lparr>dl_last := newnode\<rparr> else list);
     n \<leftarrow> lnext st oldnode;
     st \<leftarrow> (if n = oldnode then do {
              st \<leftarrow> set_next st newnode newnode;
              set_prev st newnode newnode }
            else do {
              st \<leftarrow> set_next st newnode n;
              n \<leftarrow> lnext st oldnode;
              st \<leftarrow> set_prev st n newnode;
              p \<leftarrow> lprev st oldnode;
              st \<leftarrow> set_prev st newnode p;
              p \<leftarrow> lprev st oldnode;
              set_next st p newnode });
     st \<leftarrow> set_next st oldnode 0;
     st \<leftarrow> set_prev st oldnode 0;
     Some (list, st) }"

text \<open>The results are \<open>list\<close>, \<open>nodes\<close> and the store.\<close>

definition insertlastPlist_dlist :: "links_t \<Rightarrow> dlist_t \<Rightarrow> dlist_t \<Rightarrow> (dlist_t \<times> dlist_t \<times> links_t) option" where
  "insertlastPlist_dlist st list nds =
     (if dl_last list = 0 then Some (list\<lparr>dl_last := dl_last nds\<rparr>, nds\<lparr>dl_last := 0\<rparr>, st)
      else if dl_last nds \<noteq> 0 then do {
        first \<leftarrow> lnext st (dl_last list);
        n \<leftarrow> lnext st (dl_last nds);
        st \<leftarrow> set_next st (dl_last list) n;
        n \<leftarrow> lnext st (dl_last nds);
        st \<leftarrow> set_prev st n (dl_last list);
        st \<leftarrow> set_next st (dl_last nds) first;
        st \<leftarrow> set_prev st first (dl_last nds);
        Some (list\<lparr>dl_last := dl_last nds\<rparr>, nds\<lparr>dl_last := 0\<rparr>, st) }
      else Some (list, nds\<lparr>dl_last := 0\<rparr>, st))"

definition initfirst_dlistiterator :: "links_t \<Rightarrow> dlist_t \<Rightarrow> dlist_iterator_t cres option" where
  "initfirst_dlistiterator st list =
     (if dl_last list \<noteq> 0 then do {
        first \<leftarrow> first_dlist st list;
        Some (Inr \<lparr>dli_next = first\<rparr>) }
      else Some (Inl ENODATA))"

definition initlast_dlistiterator :: "dlist_t \<Rightarrow> dlist_iterator_t cres" where
  "initlast_dlistiterator list =
     (if dl_last list \<noteq> 0 then Inr \<lparr>dli_next = last_dlist list\<rparr> else Inl ENODATA)"

definition next_dlistiterator :: "links_t \<Rightarrow> dlist_t \<Rightarrow> dlist_iterator_t \<Rightarrow> (u64 option \<times> dlist_iterator_t) option" where
  "next_dlistiterator st list iter =
     (if 0 \<noteq> dli_next iter then
        if dl_last list = dli_next iter then Some (Some (dli_next iter), iter\<lparr>dli_next := 0\<rparr>)
        else do {
          n \<leftarrow> next_dlist st (dli_next iter);
          Some (Some (dli_next iter), iter\<lparr>dli_next := n\<rparr>) }
      else Some (None, iter))"

definition prev_dlistiterator :: "links_t \<Rightarrow> dlist_t \<Rightarrow> dlist_iterator_t \<Rightarrow> (u64 option \<times> dlist_iterator_t) option" where
  "prev_dlistiterator st list iter =
     (if 0 \<noteq> dli_next iter then do {
        p \<leftarrow> prev_dlist st (dli_next iter);
        Some (Some (dli_next iter), iter\<lparr>dli_next := if dl_last list = p then 0 else p\<rparr>) }
      else Some (None, iter))"

definition free_dlistiterator :: "dlist_iterator_t \<Rightarrow> dlist_iterator_t" where
  "free_dlistiterator iter = iter\<lparr>dli_next := 0\<rparr>"

section \<open>Rings in both directions\<close>

definition linked :: "links_t \<Rightarrow> u64 list \<Rightarrow> bool" where
  "linked st xs \<longleftrightarrow> ring (lnext st) xs \<and> ring (lprev st) (rev xs)"

lemma linked_rotate: "linked st (xs @ ys) \<longleftrightarrow> linked st (ys @ xs)"
  using ring_rotate [of "lnext st" xs ys] ring_rotate [of "lprev st" "rev xs" "rev ys"] by (simp add: linked_def)

lemma linked_rotate1: "linked st (xs @ y # ys) \<longleftrightarrow> linked st (y # ys @ xs)"
  using linked_rotate [of st xs "y # ys"] by simp

text \<open>The successor of \<open>p\<close> in a ring that begins with it.\<close>

lemma linked_around:
  assumes "linked st (p # ws)"
  shows "lnext st p = Some (hd (ws @ [p]))" "lprev st (hd (ws @ [p])) = Some p"
proof -
  show "lnext st p = Some (hd (ws @ [p]))" using assms by (cases ws) (auto simp: linked_def ring_def path_Cons)
  show "lprev st (hd (ws @ [p])) = Some p"
    using assms by (cases ws) (auto simp: linked_def ring_def path_Cons)
qed

lemma linked_dom: "linked st xs \<Longrightarrow> x \<in> set xs \<Longrightarrow> \<exists>n p. lnext st x = Some n \<and> lprev st x = Some p"
  using ring_dom [of "lnext st" xs x] ring_dom [of "lprev st" "rev xs" x] by (auto simp: linked_def)

text \<open>The store after \<open>x\<close> has been linked in between \<open>p\<close> and \<open>n\<close>, and after it has been linked out.\<close>

definition link_in :: "links_t \<Rightarrow> u64 \<Rightarrow> u64 \<Rightarrow> u64 \<Rightarrow> links_t" where
  "link_in st p x n = \<lparr>lnext = (lnext st)(x \<mapsto> n, p \<mapsto> x), lprev = (lprev st)(x \<mapsto> p, n \<mapsto> x)\<rparr>"

definition link_out :: "links_t \<Rightarrow> u64 \<Rightarrow> u64 \<Rightarrow> u64 \<Rightarrow> links_t" where
  "link_out st p x n = \<lparr>lnext = (lnext st)(p \<mapsto> n, x \<mapsto> 0), lprev = (lprev st)(n \<mapsto> p, x \<mapsto> 0)\<rparr>"

lemma linked_insert:
  assumes l: "linked st (p # ws)" and d: "distinct (p # ws)" and x: "x \<notin> set (p # ws)"
  shows "linked (link_in st p x (hd (ws @ [p]))) (p # x # ws)"
proof -
  have "ring ((lnext st)(x \<mapsto> hd (ws @ [p]), p \<mapsto> x)) (p # x # ws)"
    using l d x linked_around [OF l] by (intro ring_insert) (auto simp: linked_def)
  moreover have "ring ((lprev st)(x \<mapsto> p, hd (ws @ [p]) \<mapsto> x)) (rev (p # x # ws))"
  proof (cases ws)
    case Nil
    then show ?thesis using l x by (auto simp: linked_def ring_def)
  next
    case (Cons n vs)
    have "ring (lprev st) (n # p # rev vs)" using l Cons ring_rotate [of _ "rev vs" "[n, p]"] by (simp add: linked_def)
    then have "ring ((lprev st)(x \<mapsto> p, n \<mapsto> x)) (n # x # p # rev vs)"
      using d x Cons linked_around [OF l] by (intro ring_insert) auto
    then show ?thesis using Cons ring_rotate [of _ "rev vs" "[n, x, p]"] by simp
  qed
  ultimately show ?thesis by (simp add: linked_def link_in_def)
qed

lemma linked_remove:
  assumes l: "linked st (p # x # ws)" and d: "distinct (p # x # ws)"
  shows "linked (link_out st p x (hd (ws @ [p]))) (p # ws)" "lnext st x = Some (hd (ws @ [p]))" "lprev st x = Some p"
proof -
  have "linked st (x # ws @ [p])" using l linked_rotate [of st "[p]" "x # ws"] by simp
  then have n: "lnext st x = Some (hd (ws @ [p]))" using linked_around(1) [of st x "ws @ [p]"] by (cases ws) simp_all
  have p: "lprev st x = Some p" using linked_around(2) [OF l] by simp
  have "ring ((lnext st)(p \<mapsto> hd (ws @ [p]))) (p # ws)"
    using l d n by (intro ring_remove) (auto simp: linked_def)
  moreover have "ring ((lprev st)(hd (ws @ [p]) \<mapsto> p)) (rev (p # ws))"
  proof (cases ws)
    case Nil
    then show ?thesis using l by (auto simp: linked_def ring_def)
  next
    case (Cons n vs)
    have "ring (lprev st) (n # x # p # rev vs)" using l Cons ring_rotate [of _ "rev vs" "[n, x, p]"] by (simp add: linked_def)
    then have "ring ((lprev st)(n \<mapsto> p)) (n # p # rev vs)" using d Cons p by (intro ring_remove) auto
    then show ?thesis using Cons ring_rotate [of _ "rev vs" "[n, p]"] by simp
  qed
  ultimately show "linked (link_out st p x (hd (ws @ [p]))) (p # ws)"
    using d by (auto simp: linked_def link_out_def)
  show "lnext st x = Some (hd (ws @ [p]))" "lprev st x = Some p" by (fact n p)+
qed

lemma linked_join:
  assumes "linked st xs" and "linked st ys" and "distinct (xs @ ys)" and "xs \<noteq> []" and "ys \<noteq> []"
  shows "linked \<lparr>lnext = (lnext st)(last xs \<mapsto> hd ys, last ys \<mapsto> hd xs), lprev = (lprev st)(hd ys \<mapsto> last xs, hd xs \<mapsto> last ys)\<rparr> (xs @ ys)"
proof -
  have "ring ((lprev st)(last (rev ys) \<mapsto> hd (rev xs), last (rev xs) \<mapsto> hd (rev ys))) (rev ys @ rev xs)"
    using assms by (intro ring_join) (auto simp: linked_def)
  then show ?thesis using assms ring_join [of "lnext st" xs ys] by (simp add: linked_def last_rev hd_rev)
qed

section \<open>The sequence of a list\<close>

definition is_dlist :: "links_t \<Rightarrow> dlist_t \<Rightarrow> u64 list \<Rightarrow> bool" where
  "is_dlist st list xs \<longleftrightarrow> nodes (dl_last list) xs \<and> linked st xs"

lemma is_dlistD:
  assumes "is_dlist st list xs"
  shows "distinct xs" "0 \<notin> set xs" "linked st xs" "dl_last list = 0 \<longleftrightarrow> xs = []" "xs \<noteq> [] \<Longrightarrow> dl_last list = last xs"
  using assms by (auto simp: is_dlist_def nodes_def dest: last_in_set)

lemma is_dlistI:
  "linked st xs \<Longrightarrow> distinct xs \<Longrightarrow> 0 \<notin> set xs \<Longrightarrow> dl_last list = (if xs = [] then 0 else last xs) \<Longrightarrow> is_dlist st list xs"
  by (simp add: is_dlist_def nodes_def)

text \<open>A node that is inserted is allocated and not part of the list.\<close>

definition fresh_dnode :: "links_t \<Rightarrow> u64 list \<Rightarrow> u64 \<Rightarrow> bool" where
  "fresh_dnode st xs x \<longleftrightarrow> x \<in> dom (lnext st) \<and> x \<in> dom (lprev st) \<and> x \<noteq> 0 \<and> x \<notin> set xs"

definition same_links :: "u64 set \<Rightarrow> links_t \<Rightarrow> links_t \<Rightarrow> bool" where
  "same_links A st st' \<longleftrightarrow> same_outside A (lnext st) (lnext st') \<and> same_outside A (lprev st) (lprev st')"

lemma same_links_in: "{p, x, n} \<subseteq> A \<Longrightarrow> same_links A st (link_in st p x n)"
  by (simp add: same_links_def link_in_def)

lemma same_links_out: "{p, x, n} \<subseteq> A \<Longrightarrow> same_links A st (link_out st p x n)"
  by (simp add: same_links_def link_out_def)

lemmas set_links = set_next_def set_prev_def link_in_def link_out_def put_field_dom

section \<open>Inserting\<close>

text \<open>The last node is followed by the first one.\<close>

lemma linked_ends:
  assumes "linked st xs" and "xs \<noteq> []"
  shows "lnext st (last xs) = Some (hd xs)" "lprev st (hd xs) = Some (last xs)"
  using assms by (auto simp: linked_def ring_def last_rev hd_rev)

lemma linked_insert_first:
  assumes l: "linked st xs" and d: "distinct (x # xs)" and "xs \<noteq> []"
  shows "linked (link_in st (last xs) x (hd xs)) (x # xs)"
proof -
  obtain ws p where xs: "xs = ws @ [p]" using \<open>xs \<noteq> []\<close> by (cases xs rule: rev_cases) auto
  have "linked (link_in st p x (hd (ws @ [p]))) (p # x # ws)"
    using l d linked_rotate1 [of st ws p "[]"] by (intro linked_insert) (auto simp: xs)
  then show ?thesis using linked_rotate1 [of _ "x # ws" p "[]"] by (simp add: xs)
qed

lemma linked_insert_empty:
  "fresh_dnode st [] x \<Longrightarrow> linked \<lparr>lnext = (lnext st)(x \<mapsto> x), lprev = (lprev st)(x \<mapsto> x)\<rparr> [x]"
  by (simp add: linked_def)

lemma insertfirst_dlist_Cons:
  assumes inv: "is_dlist st list xs" and x: "fresh_dnode st xs x"
  shows "\<exists>list' st'. insertfirst_dlist st list x = Some (list', st') \<and> is_dlist st' list' (x # xs) \<and>
    same_links (set (x # xs)) st st'"
proof (cases "xs = []")
  case True
  then show ?thesis
    using x is_dlistD(4) [OF inv]
    by (auto simp: insertfirst_dlist_def set_links fresh_dnode_def put_field_def same_links_def linked_def intro!: is_dlistI)
next
  case False
  note d = is_dlistD [OF inv] and e = linked_ends [OF is_dlistD(3) [OF inv] False]
  have dom: "hd xs \<in> dom (lprev st)" "last xs \<in> dom (lnext st)" using e by blast+
  have ne: "last xs \<noteq> x" "hd xs \<noteq> x" using x False by (auto simp: fresh_dnode_def)
  have "insertfirst_dlist st list x = Some (list, link_in st (last xs) x (hd xs))"
    using x d(4,5) e dom ne False by (simp add: insertfirst_dlist_def set_links fresh_dnode_def)
  moreover have "is_dlist (link_in st (last xs) x (hd xs)) list (x # xs)"
    using d x False by (intro is_dlistI linked_insert_first) (auto simp: fresh_dnode_def)
  ultimately show ?thesis using False by (auto intro!: same_links_in)
qed

lemma insertlast_dlist_append:
  assumes inv: "is_dlist st list xs" and x: "fresh_dnode st xs x"
  shows "\<exists>list' st'. insertlast_dlist st list x = Some (list', st') \<and> is_dlist st' list' (xs @ [x]) \<and>
    same_links (set (x # xs)) st st'"
proof -
  obtain list1 st' where 1: "insertfirst_dlist st list x = Some (list1, st')" "is_dlist st' list1 (x # xs)"
    "same_links (set (x # xs)) st st'"
    using insertfirst_dlist_Cons [OF assms] by blast
  note d = is_dlistD [OF 1(2)]
  have "is_dlist st' (list\<lparr>dl_last := x\<rparr>) (xs @ [x])"
    using d linked_rotate [of st' "[x]" xs] by (intro is_dlistI) auto
  moreover have "insertlast_dlist st list x = Some (list\<lparr>dl_last := x\<rparr>, st')"
    using 1(1) by (auto simp: insertfirst_dlist_def insertlast_dlist_def split: Option.bind_splits if_splits)
  ultimately show ?thesis using 1(3) by blast
qed

lemma insertafter_dlist_after:
  assumes inv: "is_dlist st list (ys @ p # zs)" and x: "fresh_dnode st (ys @ p # zs) x"
  shows "\<exists>list' st'. insertafter_dlist st list p x = Some (list', st') \<and> is_dlist st' list' (ys @ p # x # zs) \<and>
    same_links (set (x # ys @ p # zs)) st st'"
proof -
  note d = is_dlistD [OF inv]
  define n where "n = hd (zs @ ys @ [p])"
  have l: "linked st (p # zs @ ys)" using d(3) linked_rotate1 by simp
  note a = linked_around [OF l, folded n_def, simplified, folded n_def]
  have n: "n \<in> set (ys @ p # zs)" by (cases zs; cases ys) (auto simp: n_def)
  have dom: "n \<in> dom (lprev st)" "p \<in> dom (lnext st)" using a by (auto simp: n_def)
  let ?list = "if dl_last list = p then list\<lparr>dl_last := x\<rparr> else list"
  have "linked (link_in st p x n) (p # x # zs @ ys)"
    using linked_insert [OF l, of x] d(1) x by (auto simp: fresh_dnode_def n_def)
  then have "is_dlist (link_in st p x n) ?list (ys @ p # x # zs)"
    using d x linked_rotate1 [of _ ys p "x # zs"] by (intro is_dlistI) (auto simp: fresh_dnode_def)
  moreover have "insertafter_dlist st list p x = Some (?list, link_in st p x n)"
    using x a dom n by (auto simp: insertafter_dlist_def set_links fresh_dnode_def n_def)
  moreover have "same_links (set (x # ys @ p # zs)) st (link_in st p x n)" using n by (intro same_links_in) auto
  ultimately show ?thesis by blast
qed

lemma insertbefore_dlist_before:
  assumes inv: "is_dlist st list (ys @ n # zs)" and x: "fresh_dnode st (ys @ n # zs) x"
  shows "\<exists>st'. insertbefore_dlist st n x = Some st' \<and> is_dlist st' list (ys @ x # n # zs) \<and>
    same_links (set (x # ys @ n # zs)) st st'"
proof -
  note d = is_dlistD [OF inv]
  define p where "p = last (n # zs @ ys)"
  have l: "linked st (n # zs @ ys)" using d(3) linked_rotate1 by simp
  have a: "lnext st p = Some n" "lprev st n = Some p" using linked_ends [OF l] by (simp_all add: p_def)
  have p: "p \<in> set (ys @ n # zs)" using last_in_set [of "n # zs @ ys"] by (auto simp: p_def)
  have "linked (link_in st p x n) (x # n # zs @ ys)"
  proof -
    have "distinct (x # n # zs @ ys)" using d(1) x by (auto simp: fresh_dnode_def)
    then show ?thesis using linked_insert_first [OF l, of x] by (simp add: p_def)
  qed
  then have "is_dlist (link_in st p x n) list (ys @ x # n # zs)"
    using d x linked_rotate1 [of _ ys x "n # zs"] by (intro is_dlistI) (auto simp: fresh_dnode_def)
  moreover have "insertbefore_dlist st n x = Some (link_in st p x n)"
  proof -
    have "p \<in> dom (lnext st)" "n \<in> dom (lprev st)" "p \<noteq> x" "n \<noteq> x" using a p x by (auto simp: fresh_dnode_def)
    then show ?thesis using x a by (auto simp: insertbefore_dlist_def set_links fresh_dnode_def fun_upd_twist)
  qed
  moreover have "same_links (set (x # ys @ n # zs)) st (link_in st p x n)" using p by (intro same_links_in) auto
  ultimately show ?thesis by blast
qed

section \<open>Removing\<close>

text \<open>Removing \<open>x\<close>: the helper is called with the list object whose last node is another one, or 
  with \<open>x\<close> as the only node.\<close>

lemma removehelper_single:
  assumes "linked st [x]" and "dl_last list = x"
  shows "removehelper_dlist st list x = Some (list\<lparr>dl_last := 0\<rparr>, \<lparr>lnext = (lnext st)(x \<mapsto> 0), lprev = (lprev st)(x \<mapsto> 0)\<rparr>)"
  using assms by (simp add: removehelper_dlist_def set_links linked_def)

lemma removehelper_other:
  assumes l: "linked st (p # x # ws)" and d: "distinct (p # x # ws)" and "dl_last list \<noteq> x"
  shows "removehelper_dlist st list x = Some (list, link_out st p x (hd (ws @ [p])))"
proof -
  note r = linked_remove(2,3) [OF l d]
  have "linked st (x # ws @ [p])" using l linked_rotate [of st "[p]" "x # ws"] by simp
  then have n: "lprev st (hd (ws @ [p])) = Some x" using linked_around(2) [of st x "ws @ [p]"] by (cases ws) simp_all
  have p: "lnext st p = Some x" using linked_around(1) [OF l] by simp
  have "p \<noteq> x" "hd (ws @ [p]) \<noteq> x" using d by (cases ws; auto)+
  then show ?thesis using r n p assms(3) by (auto simp: removehelper_dlist_def set_links put_field_def link_out_def)
qed

lemma remove_dlist_node:
  assumes inv: "is_dlist st list (ys @ x # zs)"
  shows "\<exists>list' st'. remove_dlist st list x = Some (list', st') \<and> is_dlist st' list' (ys @ zs) \<and>
    lnext st' x = Some 0 \<and> lprev st' x = Some 0 \<and> same_links (set (ys @ x # zs)) st st'"
proof -
  note d = is_dlistD [OF inv]
  have l: "linked st (x # zs @ ys)" using d(3) linked_rotate1 by simp
  show ?thesis
  proof (cases "zs @ ys" rule: rev_cases)
    case Nil
    then show ?thesis
      using removehelper_single [of st x "list\<lparr>dl_last := x\<rparr>"] l d
      by (auto simp: remove_dlist_def same_links_def linked_def intro!: is_dlistI)
  next
    case (snoc ws p)
    have l2: "linked st (p # x # ws)" using l linked_rotate1 [of st "x # ws" p "[]"] by (simp add: snoc)
    have sets: "distinct (x # zs @ ys)" using d(1) by auto
    then have d2: "distinct (p # x # ws)" by (auto simp only: snoc) auto
    have p: "p \<in> set (zs @ ys)" "x \<noteq> p" using d2 by (auto simp: snoc)
    let ?list = "if x = dl_last list then list\<lparr>dl_last := p\<rparr> else list"
    let ?st = "link_out st p x (hd (ws @ [p]))"
    have "remove_dlist st list x = Some (?list, ?st)"
      using linked_remove(3) [OF l2 d2] removehelper_other [OF l2 d2, of ?list] p by (auto simp: remove_dlist_def)
    moreover have "linked ?st (zs @ ys)"
      unfolding snoc using linked_remove(1) [OF l2 d2] linked_rotate1 [of ?st ws p "[]"] by simp
    then have "is_dlist ?st ?list (ys @ zs)"
    proof (intro is_dlistI)
      show "dl_last ?list = (if ys @ zs = [] then 0 else last (ys @ zs))"
      proof (cases "zs = []")
        case True
        then show ?thesis using d(5) snoc by auto
      next
        case False
        then show ?thesis using d(1,5) by auto
      qed
    qed (use d linked_rotate [of ?st zs ys] in auto)
    moreover have "same_links (set (ys @ x # zs)) st ?st"
    proof (intro same_links_out)
      have "hd (ws @ [p]) \<in> set (zs @ ys)" by (simp only: snoc) (cases ws; simp)
      then show "{p, x, hd (ws @ [p])} \<subseteq> set (ys @ x # zs)" using p by auto
    qed
    ultimately show ?thesis using p by (auto simp: link_out_def)
  qed
qed

lemma removefirst_dlist_tl:
  assumes inv: "is_dlist st list (x # xs)"
  shows "\<exists>list' st'. removefirst_dlist st list = Some (x, list', st') \<and> is_dlist st' list' xs \<and>
    lnext st' x = Some 0 \<and> lprev st' x = Some 0 \<and> same_links (set (x # xs)) st st'"
proof -
  note d = is_dlistD [OF inv]
  have f: "lnext st (dl_last list) = Some x" using linked_ends [OF d(3)] d(5) by simp
  show ?thesis
  proof (cases "xs = []")
    case True
    then show ?thesis
      using removehelper_single [of st x list] f d
      by (auto simp: removefirst_dlist_def same_links_def linked_def intro!: is_dlistI)
  next
    case False
    then have "dl_last list \<noteq> x" using d(1,5) by auto
    then have "removefirst_dlist st list = do { (list, st) \<leftarrow> remove_dlist st list x; Some (x, list, st) }"
      using f by (simp add: removefirst_dlist_def remove_dlist_def)
    then show ?thesis using remove_dlist_node [of st list "[]" x xs] inv by auto
  qed
qed

lemma removelast_dlist_butlast:
  assumes inv: "is_dlist st list (xs @ [x])"
  shows "\<exists>list' st'. removelast_dlist st list = Some (x, list', st') \<and> is_dlist st' list' xs \<and>
    lnext st' x = Some 0 \<and> lprev st' x = Some 0 \<and> same_links (set (xs @ [x])) st st'"
proof -
  note d = is_dlistD [OF inv]
  have x: "dl_last list = x" using d(5) by simp
  obtain p where p: "lprev st x = Some p" using linked_dom [OF d(3), of x] by auto
  have "removelast_dlist st list = do { (list, st) \<leftarrow> remove_dlist st list x; Some (x, list, st) }"
    using x p by (simp add: removelast_dlist_def remove_dlist_def)
  then show ?thesis using remove_dlist_node [OF inv] by auto
qed

text \<open>Replacing a node is linking the new node in behind it and linking it out.\<close>

lemma replacenode_dlist_replaces:
  assumes inv: "is_dlist st list (ys @ x # zs)" and y: "fresh_dnode st (ys @ x # zs) y"
  shows "\<exists>list' st'. replacenode_dlist st list x y = Some (list', st') \<and> is_dlist st' list' (ys @ y # zs) \<and>
    lnext st' x = Some 0 \<and> lprev st' x = Some 0 \<and> same_links (set (y # ys @ x # zs)) st st'"
proof -
  note d = is_dlistD [OF inv]
  have l: "linked st (x # zs @ ys)" using d(3) linked_rotate1 by simp
  let ?list = "if dl_last list = x then list\<lparr>dl_last := y\<rparr> else list"
  have xy: "x \<noteq> y" "y \<noteq> 0" "x \<notin> set zs" "x \<notin> set ys" using y d(1) by (auto simp: fresh_dnode_def)
  show ?thesis
  proof (cases "zs @ ys" rule: rev_cases)
    case Nil
    then show ?thesis
      using l y d xy
      by (auto simp: replacenode_dlist_def set_links fresh_dnode_def linked_def same_links_def put_field_def intro!: is_dlistI)
  next
    case (snoc ws p)
    define n where "n = hd (ws @ [p])"
    have lp: "linked st (p # x # ws)" using l linked_rotate1 [of st "x # ws" p "[]"] by (simp add: snoc)
    have "distinct (x # zs @ ys)" using d(1) by auto
    then have dp: "distinct (p # x # ws)" by (auto simp: snoc)
    have "y \<notin> set (zs @ ys)" using y by (auto simp: fresh_dnode_def)
    then have yp: "y \<noteq> p" "y \<notin> set ws" by (simp_all add: snoc)
    have ns: "n \<in> set (ws @ [p])" by (cases ws) (simp_all add: n_def)
    then have nxy: "n \<noteq> x" "n \<noteq> y" using dp yp by auto
    have a: "lnext st x = Some n" "lprev st x = Some p" "lnext st p = Some x" "lprev st n = Some x"
      using linked_remove(2,3) [OF lp dp] linked_around(1) [OF lp]
        linked_around(2) [of st x "ws @ [p]"] linked_rotate [of st "[p]" "x # ws"] lp by (cases ws; simp add: n_def)+
    let ?st = "\<lparr>lnext = (lnext st)(y \<mapsto> n, p \<mapsto> y, x \<mapsto> 0), lprev = (lprev st)(n \<mapsto> y, y \<mapsto> p, x \<mapsto> 0)\<rparr>"
    have "replacenode_dlist st list x y = Some (?list, ?st)"
      using a y xy nxy yp dp by (auto simp: replacenode_dlist_def set_links fresh_dnode_def put_field_def)
    moreover have "linked ?st (zs @ ys @ [y])"
    proof -
      have "linked (link_in st x y n) (x # y # ws @ [p])"
        using linked_insert [of st x "ws @ [p]" y] l snoc dp yp xy(1) by (cases ws) (auto simp: n_def)
      then have "linked (link_in st x y n) (p # x # y # ws)" using linked_rotate [of _ "x # y # ws" "[p]"] by simp
      then have "linked (link_out (link_in st x y n) p x y) (p # y # ws)"
        using linked_remove(1) [of "link_in st x y n" p x "y # ws"] dp yp xy(1) by simp
      moreover have "link_out (link_in st x y n) p x y = ?st"
        using nxy xy yp dp by (auto simp: link_out_def link_in_def fun_eq_iff)
      ultimately have "linked ?st (y # ws @ [p])" using linked_rotate [of ?st "[p]" "y # ws"] by simp
      then have "linked ?st (y # zs @ ys)" by (simp only: snoc)
      then show ?thesis using linked_rotate [of ?st "[y]" "zs @ ys"] by simp
    qed
    then have "is_dlist ?st ?list (ys @ y # zs)"
      using d y linked_rotate [of ?st "zs" "ys @ [y]"] linked_rotate [of ?st "ys @ [y]" zs] xy
      by (intro is_dlistI) (auto simp: fresh_dnode_def)
    moreover have "{p, n} \<subseteq> set (y # ys @ x # zs)"
    proof -
      have "{p, n} \<subseteq> set (zs @ ys)" using ns by (auto simp: snoc)
      then show ?thesis by auto
    qed
    ultimately show ?thesis using xy nxy yp dp by (auto simp: same_links_def)
  qed
qed

lemma insertlastPlist_dlist_append:
  assumes "is_dlist st list xs" and "is_dlist st nds ys" and "set xs \<inter> set ys = {}"
  shows "\<exists>list' st'. insertlastPlist_dlist st list nds = Some (list', dlist_INIT, st') \<and> is_dlist st' list' (xs @ ys) \<and>
    same_links (set xs \<union> set ys) st st'"
proof -
  note d = is_dlistD [OF assms(1)] and e = is_dlistD [OF assms(2)]
  have null: "nds\<lparr>dl_last := 0\<rparr> = dlist_INIT" by (simp add: dlist_INIT_def)
  consider "xs = []" | "xs \<noteq> []" "ys = []" | "xs \<noteq> []" "ys \<noteq> []" by blast
  then show ?thesis
  proof cases
    case 1
    then show ?thesis
      using d e by (auto simp: insertlastPlist_dlist_def null same_links_def intro!: is_dlistI)
  next
    case 2
    then show ?thesis using assms d e by (auto simp: insertlastPlist_dlist_def null same_links_def)
  next
    case 3
    let ?st = "\<lparr>lnext = (lnext st)(last xs \<mapsto> hd ys, last ys \<mapsto> hd xs), lprev = (lprev st)(hd ys \<mapsto> last xs, hd xs \<mapsto> last ys)\<rparr>"
    have f: "lnext st (last xs) = Some (hd xs)" "lnext st (last ys) = Some (hd ys)"
      "lprev st (hd xs) = Some (last xs)" "lprev st (hd ys) = Some (last ys)"
      using linked_ends 3 d(3) e(3) by blast+
    have "last xs \<in> set xs" "last ys \<in> set ys" "hd xs \<in> set xs" "hd ys \<in> set ys" using 3 by simp_all
    then have ne: "last xs \<noteq> last ys" "hd xs \<noteq> hd ys" using assms(3) by auto
    have "insertlastPlist_dlist st list nds = Some (list\<lparr>dl_last := last ys\<rparr>, dlist_INIT, ?st)"
      using 3 d(4,5) e(4,5) f ne by (simp add: insertlastPlist_dlist_def null set_links put_field_def dom_def)
    moreover have "is_dlist ?st (list\<lparr>dl_last := last ys\<rparr>) (xs @ ys)"
      using 3 d e assms(3) by (intro is_dlistI linked_join) auto
    ultimately show ?thesis using 3 by (auto simp: same_links_def)
  qed
qed

section \<open>Freeing and iterating\<close>

text \<open>The nodes are deleted from the last one on, then from the first one to the one before the last.\<close>

lemma release_Null: "release del x (f(x \<mapsto> 0)) p = (if p = x then if del = None then Some 0 else None else f p)"
  by (auto simp: release_def)

lemma free_dlist_loop_deletes:
  "path (lnext st) (x # xs) \<Longrightarrow> lnext st (last (x # xs)) = Some l \<Longrightarrow> distinct (x # xs) \<Longrightarrow> l \<notin> set xs \<Longrightarrow>
   set (x # xs) \<subseteq> dom (lprev st) \<Longrightarrow>
   \<exists>st'. free_dlist_loop del l x st acc = Some (st', fold (calldelete del) (x # xs) acc) \<and>
     cleared del (x # xs) (lnext st) (lnext st') \<and> cleared del (x # xs) (lprev st) (lprev st')"
proof (induction xs arbitrary: x st acc)
  case Nil
  then show ?case
    by (auto simp: free_dlist_loop.simps [of del l x] Let_def set_links intro!: cleared_Cons cleared_Nil)
next
  case (Cons y ys)
  let ?st = "\<lparr>lnext = release del x ((lnext st)(x \<mapsto> 0)), lprev = release del x ((lprev st)(x \<mapsto> 0))\<rparr>"
  have x: "x \<notin> set (y # ys)" using Cons.prems(3) by simp
  have ne: "last (y # ys) \<noteq> x" using x by (metis last_in_set list.distinct(1))
  have "path (lnext ?st) (y # ys)" "lnext ?st (last (y # ys)) = Some l" "set (y # ys) \<subseteq> dom (lprev ?st)"
    using Cons.prems(1,2,5) x ne by (auto simp: release_Null)
  then obtain st' where 1: "free_dlist_loop del l y ?st (calldelete del x acc) =
      Some (st', fold (calldelete del) (y # ys) (calldelete del x acc))"
    "cleared del (y # ys) (lnext ?st) (lnext st')" "cleared del (y # ys) (lprev ?st) (lprev st')"
    using Cons.IH [of ?st y "calldelete del x acc"] Cons.prems(3,4) by auto
  moreover have "free_dlist_loop del l x st acc = free_dlist_loop del l y ?st (calldelete del x acc)"
    using Cons.prems(1,4,5) by (subst free_dlist_loop.simps) (auto simp: Let_def set_links)
  ultimately show ?case
    using cleared_Cons [OF x, of del "lnext st" "lnext st'"] cleared_Cons [OF x, of del "lprev st" "lprev st'"] by simp
qed

lemma free_dlist_deletes:
  assumes inv: "is_dlist st list xs"
  shows "\<exists>st'. free_dlist del st list s = Some (fst (fold (calldelete del) (rotate (length xs - 1) xs) (Inr (), s)), dlist_INIT, st',
       snd (fold (calldelete del) (rotate (length xs - 1) xs) (Inr (), s))) \<and>
     cleared del xs (lnext st) (lnext st') \<and> cleared del xs (lprev st) (lprev st')"
proof (cases xs rule: rev_cases)
  case Nil
  then show ?thesis using is_dlistD [OF inv] by (cases list) (auto simp: free_dlist_def dlist_INIT_def cleared_Nil)
next
  case (snoc ys l)
  note d = is_dlistD [OF inv]
  have rot: "rotate (length xs - 1) xs = l # ys" using snoc rotate_append [of ys "[l]"] by simp
  have r: "linked st (l # ys)" using d(3) snoc linked_rotate1 [of st ys l "[]"] by simp
  then have "path (lnext st) (l # ys)" "lnext st (last (l # ys)) = Some l" by (auto simp: linked_def ring_def)
  moreover have "set (l # ys) \<subseteq> dom (lprev st)" using linked_dom [OF r] by blast
  moreover have "distinct (l # ys)" "l \<notin> set ys" using d(1) snoc by auto
  ultimately obtain st' where "free_dlist_loop del l l st (Inr (), s) = Some (st', fold (calldelete del) (l # ys) (Inr (), s))"
    "cleared del (l # ys) (lnext st) (lnext st')" "cleared del (l # ys) (lprev st) (lprev st')"
    using free_dlist_loop_deletes [of st l ys l del "(Inr (), s)"] by blast
  moreover have "cleared del (l # ys) f g = cleared del xs f g" for f g using snoc by (auto simp: cleared_def)
  moreover have "dl_last list = l" using d(5) snoc by simp
  ultimately show ?thesis unfolding rot using d(4) snoc by (auto simp: free_dlist_def dlist_INIT_def split: prod.splits)
qed

text \<open>The iterators in front of \<open>bs\<close> return the first of these nodes.\<close>

lemma next_dlistiterator_steps:
  assumes "is_dlist st list (as @ bs)"
  shows "next_dlistiterator st list \<lparr>dli_next = first bs\<rparr> =
    Some (case bs of [] \<Rightarrow> None | b # _ \<Rightarrow> Some b, \<lparr>dli_next = first (tl bs)\<rparr>)"
proof (cases bs)
  case (Cons b cs)
  note d = is_dlistD [OF assms [unfolded Cons]]
  have "b \<noteq> 0" "dl_last list = last (b # cs)" using d(2,5) by auto
  moreover have "cs \<noteq> [] \<Longrightarrow> last cs \<noteq> b \<and> lnext st b = Some (hd cs)" using d(1,3) by (auto simp: linked_def ring_def path_Cons)
  ultimately show ?thesis using Cons by (cases cs) (auto simp: next_dlistiterator_def next_dlist_def)
qed (simp add: next_dlistiterator_def)

lemma prev_dlistiterator_steps:
  assumes "is_dlist st list (rev (as @ bs))"
  shows "prev_dlistiterator st list \<lparr>dli_next = first bs\<rparr> =
    Some (case bs of [] \<Rightarrow> None | b # _ \<Rightarrow> Some b, \<lparr>dli_next = first (tl bs)\<rparr>)"
proof (cases bs)
  case (Cons b cs)
  note d = is_dlistD [OF assms [unfolded Cons]]
  have b: "b \<noteq> 0" using d(2) by auto
  have l: "dl_last list = hd (as @ [b])" using d(5) by (cases as) (auto simp: last_rev)
  have r: "ring (lprev st) (as @ b # cs)" using d(3) by (simp add: linked_def)
  show ?thesis
  proof (cases cs)
    case Nil
    have "lprev st b = Some (hd (as @ [b]))" using r Nil by (cases as) (auto simp: ring_def)
    then show ?thesis using Cons Nil b l by (simp add: prev_dlistiterator_def prev_dlist_def)
  next
    case (Cons e es)
    have "lprev st b = Some e" using r Cons by (auto simp: ring_def path_Cons)
    moreover have "hd (as @ [b]) \<noteq> e" using d(1) Cons by (cases as) auto
    ultimately show ?thesis using \<open>bs = b # cs\<close> Cons b l by (simp add: prev_dlistiterator_def prev_dlist_def)
  qed
qed (simp add: prev_dlistiterator_def)

partial_function (option) iterate_dlist :: "links_t \<Rightarrow> dlist_t \<Rightarrow> dlist_iterator_t \<Rightarrow> u64 list option" where
  "iterate_dlist st list iter = do {
     (node, iter) \<leftarrow> next_dlistiterator st list iter;
     case node of None \<Rightarrow> Some []
     | Some x \<Rightarrow> do { xs \<leftarrow> iterate_dlist st list iter; Some (x # xs) } }"

partial_function (option) iterate_back_dlist :: "links_t \<Rightarrow> dlist_t \<Rightarrow> dlist_iterator_t \<Rightarrow> u64 list option" where
  "iterate_back_dlist st list iter = do {
     (node, iter) \<leftarrow> prev_dlistiterator st list iter;
     case node of None \<Rightarrow> Some []
     | Some x \<Rightarrow> do { xs \<leftarrow> iterate_back_dlist st list iter; Some (x # xs) } }"

lemma iterate_dlist_rest: "is_dlist st list (as @ bs) \<Longrightarrow> iterate_dlist st list \<lparr>dli_next = first bs\<rparr> = Some bs"
proof (induction bs arbitrary: as)
  case Nil
  then show ?case using next_dlistiterator_steps [OF Nil] by (subst iterate_dlist.simps) simp
next
  case (Cons b bs)
  have "iterate_dlist st list \<lparr>dli_next = first bs\<rparr> = Some bs" using Cons.IH [of "as @ [b]"] Cons.prems by simp
  then show ?case using next_dlistiterator_steps [OF Cons.prems] by (subst iterate_dlist.simps) simp
qed

lemma iterate_back_dlist_rest: "is_dlist st list (rev (as @ bs)) \<Longrightarrow> iterate_back_dlist st list \<lparr>dli_next = first bs\<rparr> = Some bs"
proof (induction bs arbitrary: as)
  case Nil
  then show ?case using prev_dlistiterator_steps [OF Nil] by (subst iterate_back_dlist.simps) simp
next
  case (Cons b bs)
  have "iterate_back_dlist st list \<lparr>dli_next = first bs\<rparr> = Some bs" using Cons.IH [of "as @ [b]"] Cons.prems by simp
  then show ?case using prev_dlistiterator_steps [OF Cons.prems] by (subst iterate_back_dlist.simps) simp
qed

lemma queries_dlist:
  assumes "is_dlist st list xs"
  shows "isempty_dlist list \<longleftrightarrow> xs = []" "first_dlist st list = Some (first xs)" "last_dlist list = first (rev xs)"
    "x \<in> set xs \<Longrightarrow> isinlist_dlist st x = Some True"
proof -
  note d = is_dlistD [OF assms]
  show "isempty_dlist list \<longleftrightarrow> xs = []" using d(4) by (auto simp: isempty_dlist_def eq_commute [of 0])
  show "first_dlist st list = Some (first xs)" using d by (cases xs) (auto simp: first_dlist_def next_dlist_def linked_def ring_def)
  show "last_dlist list = first (rev xs)" using d by (cases xs rule: rev_cases) (auto simp: last_dlist_def)
  show "isinlist_dlist st x = Some True" if "x \<in> set xs"
    using ring_dom [of "lnext st" xs x] that d(2,3) by (auto simp: isinlist_dlist_def linked_def)
qed

lemma initiators_dlist:
  assumes "is_dlist st list xs"
  shows "initfirst_dlistiterator st list = Some (if xs = [] then Inl ENODATA else Inr \<lparr>dli_next = first xs\<rparr>)"
    and "initlast_dlistiterator list = (if xs = [] then Inl ENODATA else Inr \<lparr>dli_next = first (rev xs)\<rparr>)"
  using queries_dlist(2,3) [OF assms] is_dlistD(4) [OF assms] by (simp_all add: initfirst_dlistiterator_def initlast_dlistiterator_def)

declare free_dlist_loop.simps [code] iterate_dlist.simps [code] iterate_back_dlist.simps [code]

end
