(* ===== verification/Ds_Lists.thy ===== *)
theory Ds_Lists
  imports Ds_Slist Ds_Dlist
begin

text \<open>
  What the clients of the two lists rely on, as the locale \<open>node_list\<close> with a client that uses a list as
  a queue and as a stack, and the locale \<open>removing_iterator\<close> with the loop that removes nodes while it
  iterates; and the properties of both lists.
\<close>

section \<open>The interface\<close>

text \<open>
  \<open>holds st l xs\<close>: the list object \<open>l\<close> stands for the nodes \<open>xs\<close> in the store \<open>st\<close>; \<open>free st x\<close>: the node \<open>x\<close> is
  allocated.
\<close>

locale node_list =
  fixes holds :: "'st \<Rightarrow> 'l \<Rightarrow> u64 list \<Rightarrow> bool"
    and free :: "'st \<Rightarrow> u64 \<Rightarrow> bool"
    and insfirst :: "'st \<Rightarrow> 'l \<Rightarrow> u64 \<Rightarrow> ('l \<times> 'st) option"
    and inslast :: "'st \<Rightarrow> 'l \<Rightarrow> u64 \<Rightarrow> ('l \<times> 'st) option"
    and remfirst :: "'st \<Rightarrow> 'l \<Rightarrow> (u64 \<times> 'l \<times> 'st) option"
  assumes insfirst: "holds st l xs \<Longrightarrow> free st x \<Longrightarrow> x \<noteq> 0 \<Longrightarrow> x \<notin> set xs \<Longrightarrow>
      \<exists>l' st'. insfirst st l x = Some (l', st') \<and> holds st' l' (x # xs) \<and> (\<forall>y. free st y \<longrightarrow> free st' y)"
    and inslast: "holds st l xs \<Longrightarrow> free st x \<Longrightarrow> x \<noteq> 0 \<Longrightarrow> x \<notin> set xs \<Longrightarrow>
      \<exists>l' st'. inslast st l x = Some (l', st') \<and> holds st' l' (xs @ [x]) \<and> (\<forall>y. free st y \<longrightarrow> free st' y)"
    and remfirst: "holds st l (x # xs) \<Longrightarrow> \<exists>l' st'. remfirst st l = Some (x, l', st') \<and> holds st' l' xs"

text \<open>The client inserts the nodes one after the other and then takes out as many.\<close>

primrec fill_list :: "('st \<Rightarrow> 'l \<Rightarrow> u64 \<Rightarrow> ('l \<times> 'st) option) \<Rightarrow> 'st \<Rightarrow> 'l \<Rightarrow> u64 list \<Rightarrow> ('l \<times> 'st) option" where
  "fill_list ins st l [] = Some (l, st)"
| "fill_list ins st l (x # xs) = do { (l, st) \<leftarrow> ins st l x; fill_list ins st l xs }"

primrec drain_list :: "('st \<Rightarrow> 'l \<Rightarrow> (u64 \<times> 'l \<times> 'st) option) \<Rightarrow> 'st \<Rightarrow> 'l \<Rightarrow> nat \<Rightarrow> u64 list option" where
  "drain_list rem st l 0 = Some []"
| "drain_list rem st l (Suc n) = do { (x, l, st) \<leftarrow> rem st l; xs \<leftarrow> drain_list rem st l n; Some (x # xs) }"

context node_list begin

lemma drain_list_in_order: "holds st l xs \<Longrightarrow> drain_list remfirst st l (length xs) = Some xs"
proof (induction xs arbitrary: st l)
  case (Cons x xs)
  then obtain l' st' where "remfirst st l = Some (x, l', st')" "holds st' l' xs" using remfirst by blast
  then show ?case using Cons.IH by simp
qed simp

lemma fill_list_last:
  "holds st l ys \<Longrightarrow> distinct (ys @ xs) \<Longrightarrow> 0 \<notin> set xs \<Longrightarrow> \<forall>x \<in> set xs. free st x \<Longrightarrow>
   \<exists>l' st'. fill_list inslast st l xs = Some (l', st') \<and> holds st' l' (ys @ xs)"
proof (induction xs arbitrary: st l ys)
  case (Cons x xs)
  have "free st x" "x \<noteq> 0" "x \<notin> set ys" using Cons.prems by auto
  then obtain l1 st1 where 1: "inslast st l x = Some (l1, st1)" "holds st1 l1 (ys @ [x])" "\<forall>y. free st y \<longrightarrow> free st1 y"
    using inslast [OF Cons.prems(1)] by blast
  then show ?case using Cons.IH [OF 1(2)] Cons.prems by auto
qed simp

lemma fill_list_first:
  "holds st l ys \<Longrightarrow> distinct (ys @ xs) \<Longrightarrow> 0 \<notin> set xs \<Longrightarrow> \<forall>x \<in> set xs. free st x \<Longrightarrow>
   \<exists>l' st'. fill_list insfirst st l xs = Some (l', st') \<and> holds st' l' (rev xs @ ys)"
proof (induction xs arbitrary: st l ys)
  case (Cons x xs)
  have "free st x" "x \<noteq> 0" "x \<notin> set ys" using Cons.prems by auto
  then obtain l1 st1 where 1: "insfirst st l x = Some (l1, st1)" "holds st1 l1 (x # ys)" "\<forall>y. free st y \<longrightarrow> free st1 y"
    using insfirst [OF Cons.prems(1)] by blast
  then show ?case using Cons.IH [OF 1(2)] Cons.prems by auto
qed simp

lemma queue_in_order:
  assumes "holds st l []" and "distinct xs" and "0 \<notin> set xs" and "\<forall>x \<in> set xs. free st x"
  shows "\<exists>l' st'. fill_list inslast st l xs = Some (l', st') \<and> drain_list remfirst st' l' (length xs) = Some xs"
  using fill_list_last [OF assms(1), of xs] assms drain_list_in_order by fastforce

lemma stack_in_reverse:
  assumes "holds st l []" and "distinct xs" and "0 \<notin> set xs" and "\<forall>x \<in> set xs. free st x"
  shows "\<exists>l' st'. fill_list insfirst st l xs = Some (l', st') \<and> drain_list remfirst st' l' (length xs) = Some (rev xs)"
  using fill_list_first [OF assms(1), of xs] assms drain_list_in_order [of _ _ "rev xs"] by fastforce

end

text \<open>No operation deallocates a node.\<close>

lemma ring_same_dom:
  "ring f xs \<Longrightarrow> same_outside (set ys) f g \<Longrightarrow> ring g zs \<Longrightarrow> set ys \<subseteq> set zs \<Longrightarrow> f y \<noteq> None \<Longrightarrow> g y \<noteq> None"
  using ring_dom [of g zs y] by (cases "y \<in> set ys") (auto simp: same_outside_def)

interpretation sl: node_list is_slist "\<lambda>nxt x. x \<in> dom nxt" insertfirst_slist insertlast_slist removefirst_slist
proof
  fix nxt l xs and x :: u64
  assume a: "is_slist nxt l xs" "x \<in> dom nxt" "x \<noteq> 0" "x \<notin> set xs"
  then have f: "fresh_snode nxt xs x" by (simp add: fresh_snode_def)
  obtain l' nxt' where r: "insertfirst_slist nxt l x = Some (l', nxt')" "is_slist nxt' l' (x # xs)"
    "same_outside (set (x # xs)) nxt nxt'" using insertfirst_slist_Cons [OF a(1) f] by blast
  have "\<forall>y. y \<in> dom nxt \<longrightarrow> y \<in> dom nxt'"
    using ring_same_dom [OF is_slistD(3) [OF a(1)] r(3) is_slistD(3) [OF r(2)]] by auto
  then show "\<exists>l' nxt'. insertfirst_slist nxt l x = Some (l', nxt') \<and> is_slist nxt' l' (x # xs) \<and> (\<forall>y. y \<in> dom nxt \<longrightarrow> y \<in> dom nxt')"
    using r by blast
  obtain l' nxt' where r: "insertlast_slist nxt l x = Some (l', nxt')" "is_slist nxt' l' (xs @ [x])"
    "same_outside (set (x # xs)) nxt nxt'" using insertlast_slist_append [OF a(1) f] by blast
  have "\<forall>y. y \<in> dom nxt \<longrightarrow> y \<in> dom nxt'"
    using ring_same_dom [OF is_slistD(3) [OF a(1)] r(3) is_slistD(3) [OF r(2)]] by auto
  then show "\<exists>l' nxt'. insertlast_slist nxt l x = Some (l', nxt') \<and> is_slist nxt' l' (xs @ [x]) \<and> (\<forall>y. y \<in> dom nxt \<longrightarrow> y \<in> dom nxt')"
    using r by blast
next
  show "\<exists>l' nxt'. removefirst_slist nxt l = Some (x, l', nxt') \<and> is_slist nxt' l' xs" if "is_slist nxt l (x # xs)" for nxt l x xs
    using removefirst_slist_tl [OF that] by blast
qed

interpretation dl: node_list is_dlist "\<lambda>st x. x \<in> dom (lnext st) \<and> x \<in> dom (lprev st)"
  insertfirst_dlist insertlast_dlist removefirst_dlist
proof
  fix st l xs and x :: u64
  assume a: "is_dlist st l xs" "x \<in> dom (lnext st) \<and> x \<in> dom (lprev st)" "x \<noteq> 0" "x \<notin> set xs"
  then have f: "fresh_dnode st xs x" by (simp add: fresh_dnode_def)
  have dom: "y \<in> dom (lnext st') \<and> y \<in> dom (lprev st')"
    if "is_dlist st' l' zs" "same_links (set (x # xs)) st st'" "set (x # xs) \<subseteq> set zs"
      "y \<in> dom (lnext st) \<and> y \<in> dom (lprev st)" for st' l' zs y
    using linked_dom [OF is_dlistD(3) [OF that(1)], of y] that by (cases "y \<in> set (x # xs)") (auto simp: same_links_def same_outside_def)
  obtain l' st' where "insertfirst_dlist st l x = Some (l', st')" "is_dlist st' l' (x # xs)" "same_links (set (x # xs)) st st'"
    using insertfirst_dlist_Cons [OF a(1) f] by blast
  then show "\<exists>l' st'. insertfirst_dlist st l x = Some (l', st') \<and> is_dlist st' l' (x # xs) \<and>
      (\<forall>y. y \<in> dom (lnext st) \<and> y \<in> dom (lprev st) \<longrightarrow> y \<in> dom (lnext st') \<and> y \<in> dom (lprev st'))"
    using dom by blast
  obtain l' st' where r: "insertlast_dlist st l x = Some (l', st')" "is_dlist st' l' (xs @ [x])" "same_links (set (x # xs)) st st'"
    using insertlast_dlist_append [OF a(1) f] by blast
  moreover have "set (x # xs) \<subseteq> set (xs @ [x])" by auto
  ultimately show "\<exists>l' st'. insertlast_dlist st l x = Some (l', st') \<and> is_dlist st' l' (xs @ [x]) \<and>
      (\<forall>y. y \<in> dom (lnext st) \<and> y \<in> dom (lprev st) \<longrightarrow> y \<in> dom (lnext st') \<and> y \<in> dom (lprev st'))"
    using dom by blast
next
  show "\<exists>l' st'. removefirst_dlist st l = Some (x, l', st') \<and> is_dlist st' l' xs" if "is_dlist st l (x # xs)" for st l x xs
    using removefirst_dlist_tl [OF that] by blast
qed

section \<open>Removing while iterating\<close>

text \<open>
  The iterators support "removing or deleting of the current node". The locale states what the loop of
  the documentation needs: \<open>visits st l as bs\<close> means that the nodes \<open>as\<close> have been visited and kept and that the
  iterator stands before \<open>bs\<close>. \<open>prev\<close> is the node behind which a single linked list removes.
\<close>

definition before :: "u64 list \<Rightarrow> u64 list \<Rightarrow> u64" where
  "before as bs = (if as \<noteq> [] then last as else if bs \<noteq> [] then last bs else 0)"

locale removing_iterator =
  fixes visits :: "'st \<Rightarrow> 'l \<Rightarrow> u64 list \<Rightarrow> u64 list \<Rightarrow> bool"
    and step :: "'st \<Rightarrow> 'l \<Rightarrow> 'it \<Rightarrow> (u64 option \<times> 'it) option"
    and remove :: "'st \<Rightarrow> 'l \<Rightarrow> u64 \<Rightarrow> u64 \<Rightarrow> ('l \<times> 'st) option"
    and it :: "u64 list \<Rightarrow> 'it"
  assumes step: "visits st l as bs \<Longrightarrow> step st l (it bs) = Some (case bs of [] \<Rightarrow> None | b # _ \<Rightarrow> Some b, it (tl bs))"
    and keep: "visits st l as (b # bs) \<Longrightarrow> visits st l (as @ [b]) bs"
    and remove: "visits st l as (b # bs) \<Longrightarrow>
      \<exists>l' st'. remove st l (before as (b # bs)) b = Some (l', st') \<and> visits st' l' as bs"

text \<open>The loop: the nodes that \<open>need_to_remove\<close> selects are removed, the other ones are the next \<open>prev\<close>.\<close>

partial_function (option) filter_list ::
  "('st \<Rightarrow> 'l \<Rightarrow> 'it \<Rightarrow> (u64 option \<times> 'it) option) \<Rightarrow> ('st \<Rightarrow> 'l \<Rightarrow> u64 \<Rightarrow> u64 \<Rightarrow> ('l \<times> 'st) option) \<Rightarrow> (u64 \<Rightarrow> bool)
     \<Rightarrow> 'st \<Rightarrow> 'l \<Rightarrow> u64 \<Rightarrow> 'it \<Rightarrow> ('l \<times> 'st) option" where
  "filter_list step remove need_to_remove st l prev iter = do {
     (node, iter) \<leftarrow> step st l iter;
     case node of None \<Rightarrow> Some (l, st)
     | Some x \<Rightarrow>
         if need_to_remove x then do {
           (l, st) \<leftarrow> remove st l prev x;
           filter_list step remove need_to_remove st l prev iter }
         else filter_list step remove need_to_remove st l x iter }"

context removing_iterator begin

lemma filter_list_filters:
  "visits st l as bs \<Longrightarrow> bs = [] \<or> prev = before as bs \<Longrightarrow>
   \<exists>l' st'. filter_list step remove p st l prev (it bs) = Some (l', st') \<and> visits st' l' (as @ filter (\<lambda>x. \<not> p x) bs) []"
proof (induction bs arbitrary: st l as prev)
  case Nil
  then show ?case using step [OF Nil(1)] by (subst filter_list.simps) simp
next
  case (Cons b bs)
  note s = step [OF Cons.prems(1)]
  show ?case
  proof (cases "p b")
    case True
    obtain l1 st1 where r: "remove st l prev b = Some (l1, st1)" "visits st1 l1 as bs"
      using remove [OF Cons.prems(1)] Cons.prems(2) by auto
    have "bs = [] \<or> prev = before as bs" using Cons.prems(2) by (auto simp: before_def)
    from Cons.IH [OF r(2) this] show ?thesis using s r(1) True by (subst filter_list.simps) simp
  next
    case False
    have "bs = [] \<or> b = before (as @ [b]) bs" by (simp add: before_def)
    from Cons.IH [OF keep [OF Cons.prems(1)] this] show ?thesis using s False by (subst filter_list.simps) simp
  qed
qed

end

definition removeafter_visited :: "field \<Rightarrow> slist_t \<Rightarrow> u64 \<Rightarrow> u64 \<Rightarrow> (slist_t \<times> field) option" where
  "removeafter_visited nxt list prev x = do {
     (r, list, nxt) \<leftarrow> removeafter_slist nxt list prev;
     if r = Inr x then Some (list, nxt) else None }"

interpretation sl_it: removing_iterator "\<lambda>nxt l as bs. is_slist nxt l (as @ bs)" next_slistiterator removeafter_visited
  "\<lambda>bs. \<lparr>sli_next = first bs\<rparr>"
proof
  fix nxt l as bs and b :: u64
  assume inv: "is_slist nxt l (as @ b # bs)"
  show "\<exists>l' nxt'. removeafter_visited nxt l (before as (b # bs)) b = Some (l', nxt') \<and> is_slist nxt' l' (as @ bs)"
  proof (cases as rule: rev_cases)
    case Nil
    then have "is_slist nxt l (b # bs)" using inv by simp
    from removeafter_slist_last [OF this] show ?thesis using Nil by (auto simp: removeafter_visited_def before_def)
  next
    case (snoc as' p)
    then have "is_slist nxt l (as' @ p # b # bs)" using inv by simp
    from removeafter_slist_next [OF this] show ?thesis using snoc by (auto simp: removeafter_visited_def before_def)
  qed
qed (simp_all add: next_slistiterator_steps)

interpretation dl_it: removing_iterator "\<lambda>st l as bs. is_dlist st l (as @ bs)" next_dlistiterator "\<lambda>st l prev. remove_dlist st l"
  "\<lambda>bs. \<lparr>dli_next = first bs\<rparr>"
  using remove_dlist_node by unfold_locales (fastforce simp: next_dlistiterator_steps)+

interpretation dl_back: removing_iterator "\<lambda>st l as bs. is_dlist st l (rev (as @ bs))" prev_dlistiterator "\<lambda>st l prev. remove_dlist st l"
  "\<lambda>bs. \<lparr>dli_next = first bs\<rparr>"
proof
  show "\<exists>l' st'. remove_dlist st l b = Some (l', st') \<and> is_dlist st' l' (rev (as @ bs))"
    if "is_dlist st l (rev (as @ b # bs))" for st l as and b :: u64 and bs
    using remove_dlist_node [of st l "rev bs" b "rev as"] that by auto
qed (simp_all add: prev_dlistiterator_steps)

section \<open>The properties\<close>

text \<open>The loop of the documentation on each of the iterators.\<close>

lemma slist_filters:
  assumes "is_slist nxt list xs"
  shows "\<exists>iter l n. initfirst_slistiterator nxt list = Some iter \<and>
    filter_list next_slistiterator removeafter_visited p nxt list (last_slist list) iter = Some (l, n) \<and>
    is_slist n l (filter (\<lambda>x. \<not> p x) xs)"
  using sl_it.filter_list_filters [of nxt list "[]" xs "last_slist list" p] initfirst_slistiterator_first [OF assms] assms
    is_slistD(5) [OF assms] by (auto simp: before_def last_slist_def)

lemma dlist_filters:
  assumes "is_dlist st list xs" and "xs \<noteq> []"
  shows "\<exists>iter l s. initfirst_dlistiterator st list = Some (Inr iter) \<and>
      filter_list next_dlistiterator (\<lambda>st l prev. remove_dlist st l) p st list (before [] xs) iter = Some (l, s) \<and> is_dlist s l (filter (\<lambda>x. \<not> p x) xs)"
    and "\<exists>iter l s. initlast_dlistiterator list = Inr iter \<and>
      filter_list prev_dlistiterator (\<lambda>st l prev. remove_dlist st l) p st list (before [] (rev xs)) iter = Some (l, s) \<and> is_dlist s l (filter (\<lambda>x. \<not> p x) xs)"
  using dl_it.filter_list_filters [of st list "[]" xs "before [] xs" p] initiators_dlist [OF assms(1)] assms
    dl_back.filter_list_filters [of st list "[]" "rev xs" "before [] (rev xs)" p] by (auto simp: rev_filter)

text \<open>C9: Single linked lists: every operation of \<open>slist_t\<close> implements the operation on the sequence of nodes, on
  empty, one-element and longer lists and at every position, without an access to a node that is not
  allocated; a removed node is marked as not in a list. \<open>insertnext_slist\<close> does not know the list object, so that a
  node behind the last one becomes the first one. \<open>removeafter_slist\<close> refuses exactly the empty list and a node that is not
  in a list. The iterator visits the nodes in order, and the loop of the documentation, which removes nodes while it
  iterates, leaves exactly the other ones.
\<close>

theorem slist_operations:
  assumes "is_slist nxt list xs" and "x \<in> dom nxt" and "x \<noteq> 0" and "x \<notin> set xs"
  shows "(is_slist nxt init_slist [] \<and> isempty_slist list = (xs = []) \<and> first_slist nxt list = Some (first xs) \<and>
      last_slist list = first (rev xs) \<and> (\<forall>p \<in> set xs. isinlist_slist nxt p = Some True)) \<and>
    (\<exists>l n. initsingle_slist nxt x = Some (l, n) \<and> is_slist n l [x]) \<and>
    (\<exists>l n. insertfirst_slist nxt list x = Some (l, n) \<and> is_slist n l (x # xs)) \<and>
    (\<exists>l n. insertlast_slist nxt list x = Some (l, n) \<and> is_slist n l (xs @ [x])) \<and>
    (\<forall>ys p zs. xs = ys @ p # zs \<longrightarrow>
       (\<exists>l n. insertafter_slist nxt list p x = Some (l, n) \<and> is_slist n l (ys @ p # x # zs) \<and> same_outside {p, x} nxt n)) \<and>
    (\<forall>ys p zs. xs = ys @ p # zs \<longrightarrow>
       (\<exists>n. insertnext_slist nxt p x = Some n \<and> is_slist n list (if zs = [] then x # xs else ys @ p # x # zs))) \<and>
    (\<forall>y ys. xs = y # ys \<longrightarrow> (\<exists>l n. removefirst_slist nxt list = Some (y, l, n) \<and> is_slist n l ys \<and> isinlist_slist n y = Some False)) \<and>
    (\<forall>ys p y zs. xs = ys @ p # y # zs \<longrightarrow>
       (\<exists>l n. removeafter_slist nxt list p = Some (Inr y, l, n) \<and> is_slist n l (ys @ p # zs) \<and> isinlist_slist n y = Some False)) \<and>
    (\<forall>y ys. xs = y # ys \<longrightarrow>
       (\<exists>l n. removeafter_slist nxt list (last xs) = Some (Inr y, l, n) \<and> is_slist n l ys \<and> isinlist_slist n y = Some False)) \<and>
    (\<forall>p \<in> dom nxt. xs = [] \<or> isinlist_slist nxt p = Some False \<longrightarrow> removeafter_slist nxt list p = Some (Inl EINVAL, list, nxt)) \<and>
    (\<forall>ys zs. xs = ys @ zs \<and> ys \<noteq> [] \<longrightarrow>
       (\<exists>l l2 n. initsplit_slist nxt list (last ys) = Some (l, l2, n) \<and> is_slist n l zs \<and> is_slist n l2 ys)) \<and>
    (\<exists>iter. initfirst_slistiterator nxt list = Some iter \<and> iterate_slist nxt list iter = Some xs) \<and>
    (\<forall>p. \<exists>iter l n. initfirst_slistiterator nxt list = Some iter \<and>
       filter_list next_slistiterator removeafter_visited p nxt list (last_slist list) iter = Some (l, n) \<and>
       is_slist n l (filter (\<lambda>x. \<not> p x) xs))"
proof -
  have f: "fresh_snode nxt xs x" using assms by (simp add: fresh_snode_def)
  show ?thesis
  proof (intro conjI allI impI ballI)
    show "\<exists>l n. insertafter_slist nxt list p x = Some (l, n) \<and> is_slist n l (ys @ p # x # zs) \<and> same_outside {p, x} nxt n"
      if "xs = ys @ p # zs" for ys p zs using insertafter_slist_after [of nxt list ys p zs x] assms(1) f that by blast
    show "\<exists>n. insertnext_slist nxt p x = Some n \<and> is_slist n list (if zs = [] then x # xs else ys @ p # x # zs)"
      if "xs = ys @ p # zs" for ys p zs
      using insertnext_slist_after [of nxt list ys p zs x] insertnext_slist_wraps [of nxt list ys p x] assms(1) f that by (cases zs) auto
    show "\<exists>l n. removefirst_slist nxt list = Some (y, l, n) \<and> is_slist n l ys \<and> isinlist_slist n y = Some False"
      if "xs = y # ys" for y ys
      using removefirst_slist_tl [of nxt list y ys] assms(1) that unfolding isinlist_slist_def by force
    show "\<exists>l n. removeafter_slist nxt list p = Some (Inr y, l, n) \<and> is_slist n l (ys @ p # zs) \<and> isinlist_slist n y = Some False"
      if "xs = ys @ p # y # zs" for ys p y zs
      using removeafter_slist_next [of nxt list ys p y zs] assms(1) that unfolding isinlist_slist_def by force
    show "\<exists>l n. removeafter_slist nxt list (last xs) = Some (Inr y, l, n) \<and> is_slist n l ys \<and> isinlist_slist n y = Some False"
      if "xs = y # ys" for y ys
      using removeafter_slist_last [of nxt list y ys] assms(1) that unfolding isinlist_slist_def by force
    show "removeafter_slist nxt list p = Some (Inl EINVAL, list, nxt)"
      if "p \<in> dom nxt" "xs = [] \<or> isinlist_slist nxt p = Some False" for p
      using removeafter_slist_refuses [OF assms(1) that(1)] that by (auto simp: isinlist_slist_def)
    show "\<exists>l l2 n. initsplit_slist nxt list (last ys) = Some (l, l2, n) \<and> is_slist n l zs \<and> is_slist n l2 ys"
      if "xs = ys @ zs \<and> ys \<noteq> []" for ys zs using initsplit_slist_splits [of nxt list ys zs] assms(1) that by blast
    show "\<exists>iter. initfirst_slistiterator nxt list = Some iter \<and> iterate_slist nxt list iter = Some xs"
      using initfirst_slistiterator_first [OF assms(1)] iterate_slist_rest [of nxt list "[]" xs] assms(1) by simp
  qed (use init_slist_empty isempty_slist_iff [OF assms(1)] queries_slist [OF assms(1)] insertfirst_slist_Cons [OF assms(1) f]
      insertlast_slist_append [OF assms(1) f] slist_filters [OF assms(1)] initsingle_slist_single [OF assms(2,3)] in blast)+
qed

lemma ring_example: "is_slist [1 \<mapsto> 2, 2 \<mapsto> 1, 3 \<mapsto> 0] \<lparr>sl_last = 2\<rparr> [1, 2]"
  by (auto intro!: is_slistI simp: ring_def)

theorem slist_operations_witness:
  "\<exists>l n. insertlast_slist [1 \<mapsto> 2, 2 \<mapsto> 1, 3 \<mapsto> 0] \<lparr>sl_last = 2\<rparr> 3 = Some (l, n) \<and> is_slist n l [1, 2, 3]"
  using slist_operations [OF ring_example, of 3, THEN conjunct2, THEN conjunct2, THEN conjunct2, THEN conjunct1] by simp

text \<open>C8: Double linked lists: every operation of \<open>dlist_t\<close> implements the operation on the sequence of nodes, with the
  links in both directions. The iterators return the nodes in order and in reverse order, refuse an empty list with
  \<open>ENODATA\<close>, and support the removal of the current node in both directions (\<open>remove_dlist\<close> does not need the node
  before the current one that \<open>filter_list\<close> hands on).
\<close>

theorem dlist_operations:
  assumes "is_dlist st list xs" and "x \<in> dom (lnext st)" and "x \<in> dom (lprev st)" and "x \<noteq> 0" and "x \<notin> set xs"
  shows "(\<exists>l s. insertfirst_dlist st list x = Some (l, s) \<and> is_dlist s l (x # xs)) \<and>
    (\<exists>l s. insertlast_dlist st list x = Some (l, s) \<and> is_dlist s l (xs @ [x])) \<and>
    (\<forall>ys y zs. xs = ys @ y # zs \<longrightarrow>
       (\<exists>l s. insertafter_dlist st list y x = Some (l, s) \<and> is_dlist s l (ys @ y # x # zs)) \<and>
       (\<exists>s. insertbefore_dlist st y x = Some s \<and> is_dlist s list (ys @ x # y # zs)) \<and>
       (\<exists>l s. remove_dlist st list y = Some (l, s) \<and> is_dlist s l (ys @ zs) \<and> lnext s y = Some 0 \<and> lprev s y = Some 0) \<and>
       (\<exists>l s. replacenode_dlist st list y x = Some (l, s) \<and> is_dlist s l (ys @ x # zs) \<and> lnext s y = Some 0 \<and> lprev s y = Some 0)) \<and>
    (\<forall>y ys. xs = y # ys \<longrightarrow> (\<exists>l s. removefirst_dlist st list = Some (y, l, s) \<and> is_dlist s l ys)) \<and>
    (\<forall>ys y. xs = ys @ [y] \<longrightarrow> (\<exists>l s. removelast_dlist st list = Some (y, l, s) \<and> is_dlist s l ys)) \<and>
    (xs \<noteq> [] \<longrightarrow> (\<exists>iter. initfirst_dlistiterator st list = Some (Inr iter) \<and> iterate_dlist st list iter = Some xs) \<and>
       (\<exists>iter. initlast_dlistiterator list = Inr iter \<and> iterate_back_dlist st list iter = Some (rev xs))) \<and>
    (xs = [] \<longrightarrow> initfirst_dlistiterator st list = Some (Inl ENODATA) \<and> initlast_dlistiterator list = Inl ENODATA) \<and>
    (isempty_dlist list = (xs = []) \<and> first_dlist st list = Some (first xs) \<and> last_dlist list = first (rev xs) \<and>
       (\<forall>p \<in> set xs. isinlist_dlist st p = Some True)) \<and>
    (\<forall>p. xs \<noteq> [] \<longrightarrow> (\<exists>iter l s. initfirst_dlistiterator st list = Some (Inr iter) \<and>
          filter_list next_dlistiterator (\<lambda>st l prev. remove_dlist st l) p st list (before [] xs) iter = Some (l, s) \<and>
          is_dlist s l (filter (\<lambda>x. \<not> p x) xs)) \<and>
       (\<exists>iter l s. initlast_dlistiterator list = Inr iter \<and>
          filter_list prev_dlistiterator (\<lambda>st l prev. remove_dlist st l) p st list (before [] (rev xs)) iter = Some (l, s) \<and>
          is_dlist s l (filter (\<lambda>x. \<not> p x) xs)))"
proof -
  have f: "fresh_dnode st xs x" using assms by (simp add: fresh_dnode_def)
  show ?thesis
  proof (intro conjI allI impI ballI)
    fix ys y zs
    assume xs: "xs = ys @ y # zs"
    note i = assms(1) [unfolded xs] and g = f [unfolded xs]
    show "\<exists>l s. insertafter_dlist st list y x = Some (l, s) \<and> is_dlist s l (ys @ y # x # zs)"
      using insertafter_dlist_after [OF i g] by blast
    show "\<exists>s. insertbefore_dlist st y x = Some s \<and> is_dlist s list (ys @ x # y # zs)"
      using insertbefore_dlist_before [OF i g] by blast
    show "\<exists>l s. remove_dlist st list y = Some (l, s) \<and> is_dlist s l (ys @ zs) \<and> lnext s y = Some 0 \<and> lprev s y = Some 0"
      using remove_dlist_node [OF i] by blast
    show "\<exists>l s. replacenode_dlist st list y x = Some (l, s) \<and> is_dlist s l (ys @ x # zs) \<and> lnext s y = Some 0 \<and> lprev s y = Some 0"
      using replacenode_dlist_replaces [OF i g] by blast
  next
    show "\<exists>l s. removefirst_dlist st list = Some (y, l, s) \<and> is_dlist s l ys" if "xs = y # ys" for y ys
      using removefirst_dlist_tl [of st list y ys] assms(1) that by blast
    show "\<exists>l s. removelast_dlist st list = Some (y, l, s) \<and> is_dlist s l ys" if "xs = ys @ [y]" for ys y
      using removelast_dlist_butlast [of st list ys y] assms(1) that by blast
    show "\<exists>iter. initfirst_dlistiterator st list = Some (Inr iter) \<and> iterate_dlist st list iter = Some xs" if "xs \<noteq> []"
      using initiators_dlist(1) [OF assms(1)] iterate_dlist_rest [of st list "[]" xs] assms(1) that by simp
    show "\<exists>iter. initlast_dlistiterator list = Inr iter \<and> iterate_back_dlist st list iter = Some (rev xs)" if "xs \<noteq> []"
      using initiators_dlist(2) [OF assms(1)] iterate_back_dlist_rest [of st list "[]" "rev xs"] assms(1) that by simp
    show "initfirst_dlistiterator st list = Some (Inl ENODATA)" "initlast_dlistiterator list = Inl ENODATA" if "xs = []"
      using initiators_dlist [OF assms(1)] that by simp_all
  qed (use insertfirst_dlist_Cons [OF assms(1) f] insertlast_dlist_append [OF assms(1) f] queries_dlist [OF assms(1)]
      dlist_filters [OF assms(1)] in blast)+
qed

theorem dlist_operations_witness:
  "\<exists>l s. remove_dlist \<lparr>lnext = [1 \<mapsto> 2, 2 \<mapsto> 1, 3 \<mapsto> 0], lprev = [1 \<mapsto> 2, 2 \<mapsto> 1, 3 \<mapsto> 0]\<rparr> \<lparr>dl_last = 2\<rparr> 2 = Some (l, s) \<and>
     is_dlist s l [1]"
proof -
  let ?st = "\<lparr>lnext = [1 \<mapsto> 2, 2 \<mapsto> 1, 3 \<mapsto> 0], lprev = [1 \<mapsto> 2, 2 \<mapsto> 1, 3 \<mapsto> 0]\<rparr>"
  have "is_dlist ?st \<lparr>dl_last = 2\<rparr> [1, 2]" by (auto intro!: is_dlistI simp: linked_def ring_def)
  note t = dlist_operations [OF this, of 3]
  have "3 \<in> dom (lnext ?st)" "3 \<in> dom (lprev ?st)" "(3 :: u64) \<noteq> 0" "3 \<notin> set [1, 2 :: u64]" "[1, 2 :: u64] = [1] @ 2 # []"
    by simp_all
  note t [OF this(1-4), THEN conjunct2, THEN conjunct2, THEN conjunct1, THEN spec [of _ "[1]"], THEN spec [of _ 2], THEN spec [of _ "[]"],
      THEN mp, OF this(5), THEN conjunct2, THEN conjunct2, THEN conjunct1]
  then show ?thesis by (simp only: append_Nil2) blast
qed

text \<open>C10: Freeing and joining: \<open>free_slist\<close> and \<open>free_dlist\<close> call the delete function exactly once for every node, never touch a
  node after it has been deleted, return the last error and leave an empty list; the splice operations
  join two lists and leave the second one empty.
\<close>

theorem lists_freed_and_joined:
  assumes "is_slist nxt list xs" and "is_dlist st dlist ys"
  shows "(\<exists>n. free_slist del nxt list s =
        Some (fst (fold (calldelete del) xs (Inr (), s)), slist_INIT, n, snd (fold (calldelete del) xs (Inr (), s))) \<and> cleared del xs nxt n) \<and>
    (\<exists>s'. free_dlist del st dlist s =
        Some (fst (fold (calldelete del) (rotate (length ys - 1) ys) (Inr (), s)), dlist_INIT, s',
          snd (fold (calldelete del) (rotate (length ys - 1) ys) (Inr (), s))) \<and>
      cleared del ys (lnext st) (lnext s') \<and> cleared del ys (lprev st) (lprev s')) \<and>
    (\<forall>list2 zs. is_slist nxt list2 zs \<and> set xs \<inter> set zs = {} \<longrightarrow>
      (\<exists>l l2 n. insertlastPlist_slist nxt list list2 = Some (l, l2, n) \<and> is_slist n l (xs @ zs) \<and> is_slist n l2 []) \<and>
      (\<exists>l l2 n. insertfirstPlist_slist nxt list list2 = Some (l, l2, n) \<and> is_slist n l (zs @ xs) \<and> is_slist n l2 [])) \<and>
    (\<forall>nds zs. is_dlist st nds zs \<and> set ys \<inter> set zs = {} \<longrightarrow>
      (\<exists>l l2 s. insertlastPlist_dlist st dlist nds = Some (l, l2, s) \<and> is_dlist s l (ys @ zs) \<and> is_dlist s l2 []))"
proof (intro conjI allI impI)
  show "\<exists>l l2 n. insertlastPlist_slist nxt list list2 = Some (l, l2, n) \<and> is_slist n l (xs @ zs) \<and> is_slist n l2 []"
    if "is_slist nxt list2 zs \<and> set xs \<inter> set zs = {}" for list2 zs
    using insertlastPlist_slist_append [of nxt list xs list2 zs] assms(1) that by fastforce
  show "\<exists>l l2 n. insertfirstPlist_slist nxt list list2 = Some (l, l2, n) \<and> is_slist n l (zs @ xs) \<and> is_slist n l2 []"
    if "is_slist nxt list2 zs \<and> set xs \<inter> set zs = {}" for list2 zs
    using insertfirstPlist_slist_append [of nxt list xs list2 zs] assms(1) that by fastforce
  show "\<exists>l l2 s. insertlastPlist_dlist st dlist nds = Some (l, l2, s) \<and> is_dlist s l (ys @ zs) \<and> is_dlist s l2 []"
    if "is_dlist st nds zs \<and> set ys \<inter> set zs = {}" for nds zs
  proof -
    have "is_dlist s dlist_INIT []" for s by (simp add: is_dlist_def linked_def dlist_INIT_def)
    then show ?thesis using insertlastPlist_dlist_append [of st dlist ys nds zs] assms(2) that by blast
  qed
qed (rule free_slist_deletes [OF assms(1)] free_dlist_deletes [OF assms(2)])+

theorem lists_freed_and_joined_witness:
  "\<exists>n. free_slist (Some (\<lambda>x s. (if x = 1 then Inl EINVAL else Inr (), s @ [x]))) [1 \<mapsto> 2, 2 \<mapsto> 1, 3 \<mapsto> 0] \<lparr>sl_last = 2\<rparr> [] =
     Some (Inl EINVAL, slist_INIT, n, [1, 2])"
proof -
  have "is_dlist \<lparr>lnext = Map.empty, lprev = Map.empty\<rparr> dlist_INIT []" by (simp add: is_dlist_def linked_def dlist_INIT_def)
  then show ?thesis
    using lists_freed_and_joined [OF ring_example, of "\<lparr>lnext = Map.empty, lprev = Map.empty\<rparr>" dlist_INIT "[]"
        "Some (\<lambda>x s. (if x = 1 then Inl EINVAL else Inr (), s @ [x]))" "[]"]
    by (auto simp: calldelete_def)
qed

text \<open>C37: Both lists are queues and stacks: nodes that are inserted at the end of an empty list come out at its
  front in the same order, nodes that are inserted at the front come out in reverse order.
\<close>

theorem lists_are_queues_and_stacks:
  assumes "distinct xs" and "0 \<notin> set xs" and "set xs \<subseteq> dom nxt" and "set xs \<subseteq> dom (lnext st) \<inter> dom (lprev st)"
  shows "(\<exists>l n. fill_list insertlast_slist nxt slist_INIT xs = Some (l, n) \<and> drain_list removefirst_slist n l (length xs) = Some xs) \<and>
    (\<exists>l n. fill_list insertfirst_slist nxt slist_INIT xs = Some (l, n) \<and> drain_list removefirst_slist n l (length xs) = Some (rev xs)) \<and>
    (\<exists>l s. fill_list insertlast_dlist st dlist_INIT xs = Some (l, s) \<and> drain_list removefirst_dlist s l (length xs) = Some xs) \<and>
    (\<exists>l s. fill_list insertfirst_dlist st dlist_INIT xs = Some (l, s) \<and> drain_list removefirst_dlist s l (length xs) = Some (rev xs))"
proof -
  have e: "is_slist nxt slist_INIT []" "is_dlist st dlist_INIT []"
    by (simp_all add: is_dlist_def linked_def dlist_INIT_def)
  have "\<forall>x \<in> set xs. x \<in> dom nxt" "\<forall>x \<in> set xs. x \<in> dom (lnext st) \<and> x \<in> dom (lprev st)" using assms(3,4) by auto
  then show ?thesis
    using sl.queue_in_order [OF e(1) assms(1,2)] sl.stack_in_reverse [OF e(1) assms(1,2)]
      dl.queue_in_order [OF e(2) assms(1,2)] dl.stack_in_reverse [OF e(2) assms(1,2)] by blast
qed

theorem lists_are_queues_and_stacks_witness:
  "\<exists>l n. fill_list insertlast_slist [1 \<mapsto> 0, 2 \<mapsto> 0] slist_INIT [2, 1] = Some (l, n) \<and> drain_list removefirst_slist n l 2 = Some [2, 1]"
proof -
  have len: "length [2, 1 :: u64] = 2" by simp
  have "distinct [2, 1 :: u64]" "0 \<notin> set [2, 1 :: u64]" "set [2, 1 :: u64] \<subseteq> dom [1 \<mapsto> (0::u64), 2 \<mapsto> 0]"
    "set [2, 1 :: u64] \<subseteq> dom (lnext \<lparr>lnext = [1 \<mapsto> 0, 2 \<mapsto> 0], lprev = [1 \<mapsto> 0, 2 \<mapsto> 0]\<rparr>) \<inter>
      dom (lprev \<lparr>lnext = [1 \<mapsto> 0, 2 \<mapsto> 0], lprev = [1 \<mapsto> 0, 2 \<mapsto> 0]\<rparr>)"
    by simp_all
  note lists_are_queues_and_stacks [OF this, THEN conjunct1]
  then show ?thesis by (simp only: len)
qed

end
