(* ===== verification/Ds_Splaytree.thy ===== *)
theory Ds_Splaytree
  imports Ds_Links "HOL-Library.Tree"
begin

text \<open>
  The splay tree of ds/inmem/splaytree.c on a store of nodes with two fields. The comparison
  functions of the type adapter are parameters: \<open>cmp_key\<close> compares a key with the object of a node,
  \<open>cmp_obj\<close> compares the objects of two nodes. They are functions of the addresses, as the tree does not
  change the objects.
\<close>

section \<open>The store\<close>

record lrtree_t =
  sp_left :: field
  sp_right :: field

record splaytree_t =
  sp_root :: u64

record 'k comparator_t =
  cmp_key :: "'k \<Rightarrow> u64 \<Rightarrow> int"
  cmp_obj :: "u64 \<Rightarrow> u64 \<Rightarrow> int"

record splaytree_iterator_t =
  spi_next :: u64

definition set_left :: "lrtree_t \<Rightarrow> u64 \<Rightarrow> u64 \<Rightarrow> lrtree_t option" where
  "set_left st p v = do { f \<leftarrow> put_field (sp_left st) p v; Some (st\<lparr>sp_left := f\<rparr>) }"

definition set_right :: "lrtree_t \<Rightarrow> u64 \<Rightarrow> u64 \<Rightarrow> lrtree_t option" where
  "set_right st p v = do { f \<leftarrow> put_field (sp_right st) p v; Some (st\<lparr>sp_right := f\<rparr>) }"

definition init_splaytree :: splaytree_t where "init_splaytree = \<lparr>sp_root = 0\<rparr>"

definition getinistate_splaytree :: "splaytree_t \<Rightarrow> u64" where "getinistate_splaytree tree = sp_root tree"

definition isempty_splaytree :: "splaytree_t \<Rightarrow> bool" where "isempty_splaytree tree \<longleftrightarrow> 0 = sp_root tree"

section \<open>Splaying\<close>

text \<open>
  The local variables of the loop: the store, \<open>node\<close>, \<open>cmp\<close>, \<open>lowerAsKey\<close> and \<open>higherAsKey\<close>. \<open>c x\<close> is
  the comparison of the key with the object of node \<open>x\<close>. Result \<open>None\<close> of a round stands for \<open>break\<close>.
\<close>

record splay_t =
  s_store :: lrtree_t
  s_node :: u64
  s_cmp :: int
  s_lower :: u64
  s_higher :: u64

definition splay_right :: "(u64 \<Rightarrow> int) \<Rightarrow> splay_t \<Rightarrow> splay_t option option" where
  "splay_right c s = do {
     let node = s_node s;
     let st = s_store s;
     rightnode \<leftarrow> sp_right st node;
     if rightnode = 0 then Some None else do {
     let cmp = c rightnode;
     rr \<leftarrow> sp_right st rightnode;
     rl \<leftarrow> sp_left st rightnode;
     (st, node, rightnode, cmp, higher) \<leftarrow>
       (if cmp > 0 \<and> rr \<noteq> 0 then do {
          st \<leftarrow> set_right st node rl;
          st \<leftarrow> set_left st rightnode node;
          let node = rightnode;
          rightnode \<leftarrow> sp_right st node;
          Some (st, node, rightnode, c rightnode, s_higher s) }
        else if cmp < 0 \<and> rl \<noteq> 0 then do {
          st \<leftarrow> set_left st (s_higher s) rightnode;
          let higher = rightnode;
          rightnode \<leftarrow> sp_left st rightnode;
          Some (st, node, rightnode, c rightnode, higher) }
        else Some (st, node, rightnode, cmp, s_higher s));
     st \<leftarrow> set_right st (s_lower s) node;
     Some (Some \<lparr>s_store = st, s_node = rightnode, s_cmp = cmp, s_lower = node, s_higher = higher\<rparr>) } }"

definition splay_left :: "(u64 \<Rightarrow> int) \<Rightarrow> splay_t \<Rightarrow> splay_t option option" where
  "splay_left c s = do {
     let node = s_node s;
     let st = s_store s;
     leftnode \<leftarrow> sp_left st node;
     if leftnode = 0 then Some None else do {
     let cmp = c leftnode;
     ll \<leftarrow> sp_left st leftnode;
     lr \<leftarrow> sp_right st leftnode;
     (st, node, leftnode, cmp, lower) \<leftarrow>
       (if cmp < 0 \<and> ll \<noteq> 0 then do {
          st \<leftarrow> set_left st node lr;
          st \<leftarrow> set_right st leftnode node;
          let node = leftnode;
          leftnode \<leftarrow> sp_left st node;
          Some (st, node, leftnode, c leftnode, s_lower s) }
        else if cmp > 0 \<and> lr \<noteq> 0 then do {
          st \<leftarrow> set_right st (s_lower s) leftnode;
          let lower = leftnode;
          leftnode \<leftarrow> sp_right st leftnode;
          Some (st, node, leftnode, c leftnode, lower) }
        else Some (st, node, leftnode, cmp, s_lower s));
     st \<leftarrow> set_left st (s_higher s) node;
     Some (Some \<lparr>s_store = st, s_node = leftnode, s_cmp = cmp, s_lower = lower, s_higher = node\<rparr>) } }"

partial_function (option) splay_loop :: "(u64 \<Rightarrow> int) \<Rightarrow> splay_t \<Rightarrow> splay_t option" where
  "splay_loop c s = do {
     s' \<leftarrow> (if s_cmp s > 0 then splay_right c s
           else if s_cmp s < 0 then splay_left c s
           else Some None);
     case s' of None \<Rightarrow> Some s | Some s \<Rightarrow> splay_loop c s }"

text \<open>
  \<open>splaykey_splaytree\<close> and \<open>splaynode_splaytree\<close> have the same body. \<open>keyroot\<close> is the address of the local
  variable of this name, which exists during the call.
\<close>

definition splay :: "lrtree_t \<Rightarrow> u64 \<Rightarrow> splaytree_t \<Rightarrow> (u64 \<Rightarrow> int) \<Rightarrow> (int \<times> splaytree_t \<times> lrtree_t) option" where
  "splay st keyroot tree c = do {
     let st = \<lparr>sp_left = (sp_left st)(keyroot \<mapsto> 0), sp_right = (sp_right st)(keyroot \<mapsto> 0)\<rparr>;
     let node = sp_root tree;
     if node = 0 then None else do {
     s \<leftarrow> splay_loop c \<lparr>s_store = st, s_node = node, s_cmp = c node, s_lower = keyroot, s_higher = keyroot\<rparr>;
     let node = s_node s;
     r \<leftarrow> sp_right (s_store s) node;
     st \<leftarrow> set_left (s_store s) (s_higher s) r;
     l \<leftarrow> sp_left st node;
     st \<leftarrow> set_right st (s_lower s) l;
     kr \<leftarrow> sp_right st keyroot;
     st \<leftarrow> set_left st node kr;
     kl \<leftarrow> sp_left st keyroot;
     st \<leftarrow> set_right st node kl;
     let st = \<lparr>sp_left = (sp_left st)(keyroot := None), sp_right = (sp_right st)(keyroot := None)\<rparr>;
     Some (s_cmp s, tree\<lparr>sp_root := node\<rparr>, st) } }"

definition splaykey_splaytree ::
  "'k comparator_t \<Rightarrow> lrtree_t \<Rightarrow> u64 \<Rightarrow> splaytree_t \<Rightarrow> 'k \<Rightarrow> (unit cres \<times> splaytree_t \<times> lrtree_t) option" where
  "splaykey_splaytree ad st keyroot tree key = do {
     (cmp, tree, st) \<leftarrow> splay st keyroot tree (cmp_key ad key);
     Some (Inr (), tree, st) }"

definition splaynode_splaytree ::
  "'k comparator_t \<Rightarrow> lrtree_t \<Rightarrow> u64 \<Rightarrow> splaytree_t \<Rightarrow> u64 \<Rightarrow> (int cres \<times> splaytree_t \<times> lrtree_t) option" where
  "splaynode_splaytree ad st keyroot tree keynode = do {
     (cmp, tree, st) \<leftarrow> splay st keyroot tree (cmp_obj ad keynode);
     Some (Inr cmp, tree, st) }"

text \<open>
  The recursive version, which the unit test compares with; \<open>c\<close> is again the comparison with the key. The
  assignment at its end to the root of the tree is made by the outermost call only, as the node of an inner call
  is not the root.
\<close>

partial_function (option) recursivesplay :: "(u64 \<Rightarrow> int) \<Rightarrow> lrtree_t \<Rightarrow> u64 \<Rightarrow> (u64 \<times> lrtree_t) option" where
  "recursivesplay c st root = do {
     r \<leftarrow> sp_right st root;
     l \<leftarrow> sp_left st root;
     if c root > 0 \<and> r \<noteq> 0 then do {
       rr \<leftarrow> sp_right st r;
       rl \<leftarrow> sp_left st r;
       if c r > 0 \<and> rr \<noteq> 0 then do {
         (x, st) \<leftarrow> recursivesplay c st rr;
         r \<leftarrow> sp_right st root;
         xl \<leftarrow> sp_left st x;
         st \<leftarrow> set_right st r xl;
         st \<leftarrow> set_left st x r;
         xll \<leftarrow> sp_left st r;
         st \<leftarrow> set_right st root xll;
         st \<leftarrow> set_left st r root;
         Some (x, st) }
       else if c r < 0 \<and> rl \<noteq> 0 then do {
         (x, st) \<leftarrow> recursivesplay c st rl;
         r \<leftarrow> sp_right st root;
         xr \<leftarrow> sp_right st x;
         st \<leftarrow> set_left st r xr;
         st \<leftarrow> set_right st x r;
         xl \<leftarrow> sp_left st x;
         st \<leftarrow> set_right st root xl;
         st \<leftarrow> set_left st x root;
         Some (x, st) }
       else do {
         st \<leftarrow> set_right st root rl;
         st \<leftarrow> set_left st r root;
         Some (r, st) } }
     else if c root < 0 \<and> l \<noteq> 0 then do {
       ll \<leftarrow> sp_left st l;
       lr \<leftarrow> sp_right st l;
       if c l < 0 \<and> ll \<noteq> 0 then do {
         (x, st) \<leftarrow> recursivesplay c st ll;
         l \<leftarrow> sp_left st root;
         xr \<leftarrow> sp_right st x;
         st \<leftarrow> set_left st l xr;
         st \<leftarrow> set_right st x l;
         xrr \<leftarrow> sp_right st l;
         st \<leftarrow> set_left st root xrr;
         st \<leftarrow> set_right st l root;
         Some (x, st) }
       else if c l > 0 \<and> lr \<noteq> 0 then do {
         (x, st) \<leftarrow> recursivesplay c st lr;
         l \<leftarrow> sp_left st root;
         xl \<leftarrow> sp_left st x;
         st \<leftarrow> set_right st l xl;
         st \<leftarrow> set_left st x l;
         xr \<leftarrow> sp_right st x;
         st \<leftarrow> set_left st root xr;
         st \<leftarrow> set_right st x root;
         Some (x, st) }
       else do {
         st \<leftarrow> set_left st root lr;
         st \<leftarrow> set_right st l root;
         Some (l, st) } }
     else Some (root, st) }"

definition recursivesplay_splaytree ::
  "'k comparator_t \<Rightarrow> lrtree_t \<Rightarrow> splaytree_t \<Rightarrow> u64 \<Rightarrow> 'k \<Rightarrow> (u64 \<times> splaytree_t \<times> lrtree_t) option" where
  "recursivesplay_splaytree ad st tree root key = do {
     (x, st) \<leftarrow> recursivesplay (cmp_key ad key) st root;
     Some (x, if sp_root tree = root then tree\<lparr>sp_root := x\<rparr> else tree, st) }"

section \<open>Changing the tree\<close>

definition insert_splaytree ::
  "'k comparator_t \<Rightarrow> lrtree_t \<Rightarrow> u64 \<Rightarrow> splaytree_t \<Rightarrow> u64 \<Rightarrow> (unit cres \<times> splaytree_t \<times> lrtree_t) option" where
  "insert_splaytree ad st keyroot tree new_node =
     (if sp_root tree = 0 then do {
        st \<leftarrow> set_left st new_node 0;
        st \<leftarrow> set_right st new_node 0;
        Some (Inr (), tree\<lparr>sp_root := new_node\<rparr>, st) }
      else do {
        (err, tree, st) \<leftarrow> splaynode_splaytree ad st keyroot tree new_node;
        case err of Inl e \<Rightarrow> Some (Inl e, tree, st)
        | Inr cmp \<Rightarrow>
            if cmp = 0 then Some (Inl EEXIST, tree, st)
            else do {
              let root = sp_root tree;
              st \<leftarrow> (if cmp < 0 then do {
                       l \<leftarrow> sp_left st root;
                       st \<leftarrow> set_left st new_node l;
                       st \<leftarrow> set_right st new_node root;
                       set_left st root 0 }
                     else do {
                       r \<leftarrow> sp_right st root;
                       st \<leftarrow> set_right st new_node r;
                       st \<leftarrow> set_left st new_node root;
                       set_right st root 0 });
              Some (Inr (), tree\<lparr>sp_root := new_node\<rparr>, st) } })"

text \<open>The search for the lowest node below \<open>child\<close>, which has a left child; the result are \<open>parent\<close> and \<open>child\<close>.\<close>

partial_function (option) lowest_loop :: "lrtree_t \<Rightarrow> u64 \<Rightarrow> (u64 \<times> u64) option" where
  "lowest_loop st child = do {
     let parent = child;
     child \<leftarrow> sp_left st child;
     l \<leftarrow> sp_left st child;
     if l \<noteq> 0 then lowest_loop st child else Some (parent, child) }"

text \<open>The new root of the tree without its root, with the children of the old one below it.\<close>

definition join_children :: "lrtree_t \<Rightarrow> u64 \<Rightarrow> (u64 \<times> lrtree_t) option" where
  "join_children st root = do {
     l \<leftarrow> sp_left st root;
     r \<leftarrow> sp_right st root;
     if l = 0 then Some (r, st)
     else if r = 0 then Some (l, st)
     else do {
       let child = r;
       cl \<leftarrow> sp_left st child;
       if cl = 0 then do { st \<leftarrow> set_left st child l; Some (child, st) }
       else do {
         (parent, child) \<leftarrow> lowest_loop st child;
         cr \<leftarrow> sp_right st child;
         st \<leftarrow> set_left st parent cr;
         st \<leftarrow> set_left st child l;
         st \<leftarrow> set_right st child r;
         Some (child, st) } } }"

definition remove_splaytree ::
  "'k comparator_t \<Rightarrow> lrtree_t \<Rightarrow> u64 \<Rightarrow> splaytree_t \<Rightarrow> u64 \<Rightarrow> (unit cres \<times> splaytree_t \<times> lrtree_t) option" where
  "remove_splaytree ad st keyroot tree node =
     (if sp_root tree = 0 then Some (Inl ESRCH, tree, st)
      else do {
        (err, tree, st) \<leftarrow> splaynode_splaytree ad st keyroot tree node;
        case err of Inl e \<Rightarrow> Some (Inl e, tree, st)
        | Inr cmp \<Rightarrow>
            let root = sp_root tree
            in if root \<noteq> node then Some (Inl ESRCH, tree, st)
               else do {
                 (newroot, st) \<leftarrow> join_children st root;
                 st \<leftarrow> set_left st root 0;
                 st \<leftarrow> set_right st root 0;
                 Some (Inr (), tree\<lparr>sp_root := newroot\<rparr>, st) } })"

text \<open>Removing all nodes: the left pointers on the way down are turned into pointers to the parent.\<close>

partial_function (option) descend_loop :: "lrtree_t \<Rightarrow> u64 \<Rightarrow> u64 \<Rightarrow> (lrtree_t \<times> u64 \<times> u64) option" where
  "descend_loop st parent node = do {
     nodeleft \<leftarrow> sp_left st node;
     if nodeleft \<noteq> 0 then do {
       st \<leftarrow> set_left st node parent;
       descend_loop st node nodeleft }
     else Some (st, parent, node) }"

partial_function (option) removenodes_loop ::
  "'s delete_t \<Rightarrow> lrtree_t \<Rightarrow> u64 \<Rightarrow> u64 \<Rightarrow> unit cres \<times> 's \<Rightarrow> (lrtree_t \<times> unit cres \<times> 's) option" where
  "removenodes_loop del st parent node acc = do {
     (st, parent, node) \<leftarrow> descend_loop st parent node;
     let delnode = node;
     r \<leftarrow> sp_right st delnode;
     (st, parent, node) \<leftarrow>
       (if r \<noteq> 0 then do {
          st \<leftarrow> set_right st delnode 0;
          Some (st, parent, r) }
        else if parent \<noteq> 0 then do {
          p \<leftarrow> sp_left st parent;
          st \<leftarrow> set_left st parent 0;
          Some (st, p, parent) }
        else Some (st, parent, parent));
     let st = \<lparr>sp_left = release del delnode (sp_left st), sp_right = release del delnode (sp_right st)\<rparr>;
     let acc = calldelete del delnode acc;
     if node \<noteq> 0 then removenodes_loop del st parent node acc else Some (st, acc) }"

definition removenodes_splaytree ::
  "'s delete_t \<Rightarrow> lrtree_t \<Rightarrow> splaytree_t \<Rightarrow> 's \<Rightarrow> (unit cres \<times> splaytree_t \<times> lrtree_t \<times> 's) option" where
  "removenodes_splaytree del st tree s =
     (if sp_root tree \<noteq> 0 then do {
        (st, err, s) \<leftarrow> removenodes_loop del st 0 (sp_root tree) (Inr (), s);
        Some (err, tree\<lparr>sp_root := 0\<rparr>, st, s) }
      else Some (Inr (), tree\<lparr>sp_root := 0\<rparr>, st, s))"

definition free_splaytree ::
  "'s delete_t \<Rightarrow> lrtree_t \<Rightarrow> splaytree_t \<Rightarrow> 's \<Rightarrow> (unit cres \<times> splaytree_t \<times> lrtree_t \<times> 's) option" where
  "free_splaytree del st tree s = removenodes_splaytree del st tree s"

section \<open>Searching and iterating\<close>

definition find_splaytree ::
  "'k comparator_t \<Rightarrow> lrtree_t \<Rightarrow> u64 \<Rightarrow> splaytree_t \<Rightarrow> 'k \<Rightarrow> (u64 cres \<times> splaytree_t \<times> lrtree_t) option" where
  "find_splaytree ad st keyroot tree key =
     (if sp_root tree = 0 then Some (Inl ESRCH, tree, st)
      else do {
        (err, tree, st) \<leftarrow> splaykey_splaytree ad st keyroot tree key;
        case err of Inl e \<Rightarrow> Some (Inl e, tree, st)
        | Inr _ \<Rightarrow>
            if cmp_key ad key (sp_root tree) \<noteq> 0 then Some (Inl ESRCH, tree, st)
            else Some (Inr (sp_root tree), tree, st) })"

partial_function (option) leftmost_loop :: "lrtree_t \<Rightarrow> u64 \<Rightarrow> u64 option" where
  "leftmost_loop st node = do {
     l \<leftarrow> sp_left st node;
     if l \<noteq> 0 then leftmost_loop st l else Some node }"

partial_function (option) rightmost_loop :: "lrtree_t \<Rightarrow> u64 \<Rightarrow> u64 option" where
  "rightmost_loop st node = do {
     r \<leftarrow> sp_right st node;
     if r \<noteq> 0 then rightmost_loop st r else Some node }"

text \<open>The iterator keeps the next node; its tree and comparison are parameters.\<close>

definition initfirst_splaytreeiterator :: "lrtree_t \<Rightarrow> splaytree_t \<Rightarrow> splaytree_iterator_t option" where
  "initfirst_splaytreeiterator st tree = do {
     node \<leftarrow> (if sp_root tree \<noteq> 0 then leftmost_loop st (sp_root tree) else Some 0);
     Some \<lparr>spi_next = node\<rparr> }"

definition initlast_splaytreeiterator :: "lrtree_t \<Rightarrow> splaytree_t \<Rightarrow> splaytree_iterator_t option" where
  "initlast_splaytreeiterator st tree = do {
     node \<leftarrow> (if sp_root tree \<noteq> 0 then rightmost_loop st (sp_root tree) else Some 0);
     Some \<lparr>spi_next = node\<rparr> }"

definition free_splaytreeiterator :: "splaytree_iterator_t \<Rightarrow> splaytree_iterator_t" where
  "free_splaytreeiterator iter = iter\<lparr>spi_next := 0\<rparr>"

text \<open>The result carries the node, or none when the iterator has no further one.\<close>

definition next_splaytreeiterator ::
  "'k comparator_t \<Rightarrow> lrtree_t \<Rightarrow> u64 \<Rightarrow> splaytree_t \<Rightarrow> splaytree_iterator_t
     \<Rightarrow> (u64 option \<times> splaytree_iterator_t \<times> splaytree_t \<times> lrtree_t) option" where
  "next_splaytreeiterator ad st keyroot tree iter =
     (if spi_next iter = 0 then Some (None, iter, tree, st)
      else do {
        (err, tree, st) \<leftarrow> splaynode_splaytree ad st keyroot tree (spi_next iter);
        case err of Inl _ \<Rightarrow> Some (None, iter, tree, st)
        | Inr _ \<Rightarrow> do {
            nxt \<leftarrow> sp_right st (sp_root tree);
            nxt \<leftarrow> (if nxt \<noteq> 0 then leftmost_loop st nxt else Some 0);
            Some (Some (sp_root tree), iter\<lparr>spi_next := nxt\<rparr>, tree, st) } })"

definition prev_splaytreeiterator ::
  "'k comparator_t \<Rightarrow> lrtree_t \<Rightarrow> u64 \<Rightarrow> splaytree_t \<Rightarrow> splaytree_iterator_t
     \<Rightarrow> (u64 option \<times> splaytree_iterator_t \<times> splaytree_t \<times> lrtree_t) option" where
  "prev_splaytreeiterator ad st keyroot tree iter =
     (if spi_next iter = 0 then Some (None, iter, tree, st)
      else do {
        (err, tree, st) \<leftarrow> splaynode_splaytree ad st keyroot tree (spi_next iter);
        case err of Inl _ \<Rightarrow> Some (None, iter, tree, st)
        | Inr _ \<Rightarrow> do {
            nxt \<leftarrow> sp_left st (sp_root tree);
            nxt \<leftarrow> (if nxt \<noteq> 0 then rightmost_loop st nxt else Some 0);
            Some (Some (sp_root tree), iter\<lparr>spi_next := nxt\<rparr>, tree, st) } })"

declare splay_loop.simps [code] recursivesplay.simps [code] lowest_loop.simps [code] descend_loop.simps [code]
declare removenodes_loop.simps [code] leftmost_loop.simps [code] rightmost_loop.simps [code]

end
