(* ===== verification/Ds_Splay_Ref.thy ===== *)
theory Ds_Splay_Ref
  imports Ds_Splaytree
begin

text \<open>
  The tree that a pointer stands for, splaying as a function on trees, and the proof that the loop
  of \<open>splay\<close>, which works from the root down and never goes back, and the recursive version both
  compute it.
\<close>

section \<open>Trees in the store\<close>

fun tree_at :: "field \<Rightarrow> field \<Rightarrow> u64 \<Rightarrow> u64 tree \<Rightarrow> bool" where
  "tree_at L R p Leaf \<longleftrightarrow> p = 0"
| "tree_at L R p (Node l a r) \<longleftrightarrow> p = a \<and> a \<noteq> 0 \<and>
     (\<exists>x y. L a = Some x \<and> R a = Some y \<and> tree_at L R x l \<and> tree_at L R y r)"

lemma tree_at_upd [simp]:
  "p \<notin> set_tree t \<Longrightarrow> tree_at (L(p := v)) R q t = tree_at L R q t"
  "p \<notin> set_tree t \<Longrightarrow> tree_at L (R(p := v)) q t = tree_at L R q t"
  by (induction t arbitrary: q) auto

lemma tree_at_cong:
  "\<forall>p \<in> set_tree t. L' p = L p \<and> R' p = R p \<Longrightarrow> tree_at L' R' q t = tree_at L R q t"
  by (induction t arbitrary: q) auto

lemma tree_at_mirror: "tree_at R L p (mirror t) = tree_at L R p t"
  by (induction t arbitrary: p) auto

lemma tree_at_null: "tree_at L R p t \<Longrightarrow> p = 0 \<longleftrightarrow> t = Leaf"
  by (cases t) auto

lemma tree_at_root: "tree_at L R p t \<Longrightarrow> p \<noteq> 0 \<Longrightarrow> \<exists>l r. t = Node l p r"
  by (cases t) auto

lemma tree_at_Node:
  assumes "tree_at L R p t" and "p \<noteq> 0"
  obtains l r x y where "t = Node l p r" "L p = Some x" "R p = Some y" "tree_at L R x l" "tree_at L R y r"
  using assms by (cases t) auto

lemma tree_at_dom: "tree_at L R p t \<Longrightarrow> q \<in> set_tree t \<Longrightarrow> q \<in> dom L \<and> q \<in> dom R \<and> q \<noteq> 0"
  by (induction t arbitrary: p) auto

section \<open>Splaying trees\<close>

fun rsplay :: "(u64 \<Rightarrow> int) \<Rightarrow> u64 tree \<Rightarrow> u64 tree" where
  "rsplay c Leaf = Leaf"
| "rsplay c (Node l a r) =
     (if c a > 0 then
        (case r of Leaf \<Rightarrow> Node l a r
         | Node rl b rr \<Rightarrow>
             if c b > 0 \<and> rr \<noteq> Leaf then (case rsplay c rr of Leaf \<Rightarrow> Leaf | Node X x Y \<Rightarrow> Node (Node (Node l a rl) b X) x Y)
             else if c b < 0 \<and> rl \<noteq> Leaf then (case rsplay c rl of Leaf \<Rightarrow> Leaf | Node X x Y \<Rightarrow> Node (Node l a X) x (Node Y b rr))
             else Node (Node l a rl) b rr)
      else if c a < 0 then
        (case l of Leaf \<Rightarrow> Node l a r
         | Node ll b lr \<Rightarrow>
             if c b < 0 \<and> ll \<noteq> Leaf then (case rsplay c ll of Leaf \<Rightarrow> Leaf | Node X x Y \<Rightarrow> Node X x (Node Y b (Node lr a r)))
             else if c b > 0 \<and> lr \<noteq> Leaf then (case rsplay c lr of Leaf \<Rightarrow> Leaf | Node X x Y \<Rightarrow> Node (Node ll b X) x (Node Y a r))
             else Node ll b (Node lr a r))
      else Node l a r)"

declare rsplay.simps(2) [simp del]

text \<open>The equations of the rounds to the right.\<close>

lemma rsplay_right:
  assumes "c a > 0"
  shows "rsplay c (Node l a Leaf) = Node l a Leaf"
    and "c b > 0 \<Longrightarrow> rr \<noteq> Leaf \<Longrightarrow> rsplay c (Node l a (Node rl b rr)) =
      (case rsplay c rr of Leaf \<Rightarrow> Leaf | Node X x Y \<Rightarrow> Node (Node (Node l a rl) b X) x Y)"
    and "c b < 0 \<Longrightarrow> rl \<noteq> Leaf \<Longrightarrow> rsplay c (Node l a (Node rl b rr)) =
      (case rsplay c rl of Leaf \<Rightarrow> Leaf | Node X x Y \<Rightarrow> Node (Node l a X) x (Node Y b rr))"
    and "\<not> (c b > 0 \<and> rr \<noteq> Leaf) \<Longrightarrow> \<not> (c b < 0 \<and> rl \<noteq> Leaf) \<Longrightarrow> rsplay c (Node l a (Node rl b rr)) = Node (Node l a rl) b rr"
  using assms by (simp_all add: rsplay.simps)

lemma rsplay_left:
  assumes "c a < 0"
  shows "rsplay c (Node Leaf a r) = Node Leaf a r"
    and "c b < 0 \<Longrightarrow> ll \<noteq> Leaf \<Longrightarrow> rsplay c (Node (Node ll b lr) a r) =
      (case rsplay c ll of Leaf \<Rightarrow> Leaf | Node X x Y \<Rightarrow> Node X x (Node Y b (Node lr a r)))"
    and "c b > 0 \<Longrightarrow> lr \<noteq> Leaf \<Longrightarrow> rsplay c (Node (Node ll b lr) a r) =
      (case rsplay c lr of Leaf \<Rightarrow> Leaf | Node X x Y \<Rightarrow> Node (Node ll b X) x (Node Y a r))"
    and "\<not> (c b < 0 \<and> ll \<noteq> Leaf) \<Longrightarrow> \<not> (c b > 0 \<and> lr \<noteq> Leaf) \<Longrightarrow> rsplay c (Node (Node ll b lr) a r) = Node ll b (Node lr a r)"
  using assms by (simp_all add: rsplay.simps)

lemma rsplay_found: "c a = 0 \<Longrightarrow> rsplay c (Node l a r) = Node l a r"
  by (simp add: rsplay.simps)

text \<open>The cases of a round, and the induction that follows them.\<close>

lemma splay_induct [case_names Leaf Found RightEnd RightRight RightLeft Right LeftEnd LeftLeft LeftRight Left]:
  fixes c :: "u64 \<Rightarrow> int"
  assumes "P Leaf"
    and "\<And>l a r. c a = 0 \<Longrightarrow> P (Node l a r)"
    and "\<And>l a. c a > 0 \<Longrightarrow> P (Node l a Leaf)"
    and "\<And>l a rl b rr. c a > 0 \<Longrightarrow> c b > 0 \<Longrightarrow> rr \<noteq> Leaf \<Longrightarrow> P rr \<Longrightarrow> P (Node l a (Node rl b rr))"
    and "\<And>l a rl b rr. c a > 0 \<Longrightarrow> c b < 0 \<Longrightarrow> rl \<noteq> Leaf \<Longrightarrow> P rl \<Longrightarrow> P (Node l a (Node rl b rr))"
    and "\<And>l a rl b rr. c a > 0 \<Longrightarrow> \<not> (c b > 0 \<and> rr \<noteq> Leaf) \<Longrightarrow> \<not> (c b < 0 \<and> rl \<noteq> Leaf) \<Longrightarrow> P (Node l a (Node rl b rr))"
    and "\<And>a r. c a < 0 \<Longrightarrow> P (Node Leaf a r)"
    and "\<And>ll b lr a r. c a < 0 \<Longrightarrow> c b < 0 \<Longrightarrow> ll \<noteq> Leaf \<Longrightarrow> P ll \<Longrightarrow> P (Node (Node ll b lr) a r)"
    and "\<And>ll b lr a r. c a < 0 \<Longrightarrow> c b > 0 \<Longrightarrow> lr \<noteq> Leaf \<Longrightarrow> P lr \<Longrightarrow> P (Node (Node ll b lr) a r)"
    and "\<And>ll b lr a r. c a < 0 \<Longrightarrow> \<not> (c b < 0 \<and> ll \<noteq> Leaf) \<Longrightarrow> \<not> (c b > 0 \<and> lr \<noteq> Leaf) \<Longrightarrow> P (Node (Node ll b lr) a r)"
  shows "P t"
proof (induction "size t" arbitrary: t rule: less_induct)
  case less
  show ?case
  proof (cases t)
    case (Node l a r)
    consider "c a > 0" | "c a < 0" | "c a = 0" by linarith
    then show ?thesis
    proof cases
      case 1
      show ?thesis
      proof (cases r)
        case r: (Node rl b rr)
        have "P rr" "P rl" using less [of rr] less [of rl] Node r by simp_all
        then show ?thesis using assms(4-6) 1 unfolding Node r by blast
      qed (use assms(3) 1 Node in simp)
    next
      case 2
      show ?thesis
      proof (cases l)
        case l: (Node ll b lr)
        have "P ll" "P lr" using less [of ll] less [of lr] Node l by simp_all
        then show ?thesis using assms(8-10) 2 unfolding Node l by blast
      qed (use assms(7) 2 Node in simp)
    qed (use assms(2) Node in simp)
  qed (use assms(1) in simp)
qed

lemmas rsplay_simps = rsplay_found rsplay_right rsplay_left

lemma rsplay_Leaf [simp]: "rsplay c t = Leaf \<longleftrightarrow> t = Leaf"
  by (induction t rule: splay_induct [of _ c]) (auto simp: rsplay_simps split: tree.split)

lemma rsplay_Node: "t \<noteq> Leaf \<Longrightarrow> \<exists>X x Y. rsplay c t = Node X x Y"
  by (cases "rsplay c t") auto

lemma inorder_rsplay [simp]: "inorder (rsplay c t) = inorder t"
  by (induction t rule: splay_induct [of _ c]) (auto simp: rsplay_simps split: tree.split)

lemma set_rsplay [simp]: "set_tree (rsplay c t) = set_tree t"
  by (metis inorder_rsplay set_inorder)

lemma rsplay_mirror: "rsplay (\<lambda>x. - c x) (mirror t) = mirror (rsplay c t)"
  by (induction t rule: splay_induct [of _ c]) (auto simp: rsplay_simps split: tree.split)

section \<open>The two chains\<close>

text \<open>
  The nodes with a lower key hang below \<open>keyroot\<close> in a chain of right children, every one with its left
  subtree. The right child of the last one is written when the next node is appended. The chain of nodes
  with a higher key is the mirror image of one.
\<close>

fun chain :: "field \<Rightarrow> field \<Rightarrow> u64 \<Rightarrow> (u64 tree \<times> u64) list \<Rightarrow> u64 \<Rightarrow> bool" where
  "chain L R k [] q \<longleftrightarrow> q = k"
| "chain L R k ((A, a) # ls) q \<longleftrightarrow> R k = Some a \<and> a \<noteq> 0 \<and> R a \<noteq> None \<and> (\<exists>x. L a = Some x \<and> tree_at L R x A) \<and> chain L R a ls q"

definition chain_nodes :: "(u64 tree \<times> u64) list \<Rightarrow> u64 list" where
  "chain_nodes ls = concat (map (\<lambda>(A, a). inorder A @ [a]) ls)"

definition attach :: "(u64 tree \<times> u64) list \<Rightarrow> u64 tree \<Rightarrow> u64 tree" where
  "attach ls X = foldr (\<lambda>(A, a) X. Node A a X) ls X"

lemma chain_nodes_simps [simp]:
  "chain_nodes [] = []" "chain_nodes ((A, a) # ls) = inorder A @ a # chain_nodes ls"
  "chain_nodes (ls @ ls') = chain_nodes ls @ chain_nodes ls'"
  by (simp_all add: chain_nodes_def)

lemma attach_simps [simp]:
  "attach [] X = X" "attach ((A, a) # ls) X = Node A a (attach ls X)" "attach (ls @ ls') X = attach ls (attach ls' X)"
  by (simp_all add: attach_def)

lemma inorder_attach: "inorder (attach ls X) = chain_nodes ls @ inorder X"
  by (induction ls) auto

lemma chain_upd [simp]:
  "p \<notin> set (chain_nodes ls) \<Longrightarrow> chain (L(p := v)) R k ls q = chain L R k ls q"
  "p \<notin> set (chain_nodes ls) \<Longrightarrow> p \<noteq> k \<Longrightarrow> chain L (R(p := v)) k ls q = chain L R k ls q"
  by (induction ls arbitrary: k) auto

lemma chain_last: "chain L R k ls q \<Longrightarrow> q = k \<or> q \<in> set (chain_nodes ls)"
  by (induction ls arbitrary: k) auto

lemma chain_last_dom: "chain L R k ls q \<Longrightarrow> R k \<noteq> None \<Longrightarrow> R q \<noteq> None"
  by (induction ls arbitrary: k) fastforce+

text \<open>Appending the node \<open>n\<close> with its left subtree \<open>A\<close>.\<close>

lemma chain_append:
  assumes "chain L R k ls q" and "distinct (k # chain_nodes ls @ inorder A @ [n])"
    and "n \<noteq> 0" and "R n \<noteq> None" and "L n = Some x" and "tree_at L R x A"
  shows "chain L (R(q \<mapsto> n)) k (ls @ [(A, n)]) n"
  using assms
proof (induction ls arbitrary: k)
  case (Cons b ls)
  obtain B b' where b: "b = (B, b')" by (cases b)
  define R' where "R' = R(q \<mapsto> n)"
  have q: "q = b' \<or> q \<in> set (chain_nodes ls)" using chain_last [of L R b' ls q] Cons.prems(1) b by simp
  then have ne: "q \<noteq> k" "q \<notin> set_tree B" using Cons.prems(2) b by auto
  have "chain L R' b' (ls @ [(A, n)]) n"
    unfolding R'_def by (rule Cons.IH) (use Cons.prems b in auto)
  moreover have "R' k = R k" "R' b' \<noteq> None" "tree_at L R' p B = tree_at L R p B" for p
    using ne Cons.prems(1) b by (auto simp: R'_def)
  ultimately have "chain L R' k (b # ls @ [(A, n)]) n" using Cons.prems(1) b by simp
  then show ?case by (simp only: R'_def append_Cons)
qed auto

text \<open>The end of the loop: the chain becomes a tree that ends with \<open>X\<close>.\<close>

lemma chain_tree:
  assumes "chain L R k ls q" and "distinct (k # chain_nodes ls @ inorder X)" and "tree_at L R x X"
  shows "\<exists>y. (R(q \<mapsto> x)) k = Some y \<and> tree_at L (R(q \<mapsto> x)) y (attach ls X)"
  using assms
proof (induction ls arbitrary: k)
  case (Cons b ls)
  obtain B b' where b: "b = (B, b')" by (cases b)
  define R' where "R' = R(q \<mapsto> x)"
  have q: "q = b' \<or> q \<in> set (chain_nodes ls)" using chain_last [of L R b' ls q] Cons.prems(1) b by simp
  then have ne: "q \<noteq> k" "q \<notin> set_tree B" using Cons.prems(2) b by auto
  have "\<exists>y. R' b' = Some y \<and> tree_at L R' y (attach ls X)"
    unfolding R'_def by (rule Cons.IH) (use Cons.prems b in auto)
  moreover have "R' k = R k" "tree_at L R' p B = tree_at L R p B" for p
    using ne by (auto simp: R'_def)
  ultimately have "\<exists>y. R' k = Some y \<and> tree_at L R' y (attach (b # ls) X)" using Cons.prems(1) b by auto
  then show ?case by (simp only: R'_def)
qed auto

end
