(* ===== verification/Ds_Splay_Loop.thy ===== *)
theory Ds_Splay_Loop
  imports Ds_Splay_Ref
begin

text \<open>
  The loop of \<open>splay\<close> computes \<open>rsplay\<close>: every round moves one or two nodes from the tree to the two
  chains, and the tree that will be assembled at the end stays the same.
\<close>

section \<open>The invariant of the loop\<close>

definition splaying ::
  "field \<Rightarrow> field \<Rightarrow> u64 \<Rightarrow> u64 \<Rightarrow> u64 \<Rightarrow> u64 \<Rightarrow> (u64 tree \<times> u64) list \<Rightarrow> u64 tree \<Rightarrow> (u64 tree \<times> u64) list \<Rightarrow> bool" where
  "splaying L R k lo hi p ls t hs \<longleftrightarrow>
     tree_at L R p t \<and> t \<noteq> Leaf \<and> chain L R k ls lo \<and> chain R L k hs hi \<and>
     distinct (k # chain_nodes ls @ inorder t @ chain_nodes hs) \<and> L k \<noteq> None \<and> R k \<noteq> None"

lemma splayingD:
  assumes "splaying L R k lo hi p ls t hs"
  shows "tree_at L R p t" "t \<noteq> Leaf" "chain L R k ls lo" "chain R L k hs hi"
    "distinct (k # chain_nodes ls @ inorder t @ chain_nodes hs)" "L k \<noteq> None" "R k \<noteq> None"
  using assms unfolding splaying_def by blast+

lemma splaying_mirror: "splaying R L k hi lo p hs (mirror t) ls \<longleftrightarrow> splaying L R k lo hi p ls t hs"
proof -
  have "distinct (k # chain_nodes hs @ rev (inorder t) @ chain_nodes ls) = distinct (k # chain_nodes ls @ inorder t @ chain_nodes hs)"
    by auto
  then show ?thesis unfolding splaying_def tree_at_mirror inorder_mirror mirror_Leaf by blast
qed

lemma splaying_lower:
  assumes "splaying L R k lo hi p ls t hs"
  shows "R lo \<noteq> None" "lo \<notin> set_tree t" "lo \<notin> set (chain_nodes hs)" "lo \<in> insert k (set (chain_nodes ls))"
proof -
  note d = splayingD [OF assms]
  have q: "lo = k \<or> lo \<in> set (chain_nodes ls)" by (rule chain_last [OF d(3)])
  then show "lo \<in> insert k (set (chain_nodes ls))" by blast
  show "lo \<notin> set_tree t" using q d(5) by auto
  show "lo \<notin> set (chain_nodes hs)" using q d(5) by auto
  show "R lo \<noteq> None" by (rule chain_last_dom [OF d(3) d(7)])
qed

lemma splaying_higher:
  assumes "splaying L R k lo hi p ls t hs"
  shows "L hi \<noteq> None" "hi \<notin> set_tree t" "hi \<notin> set (chain_nodes ls)" "hi \<in> insert k (set (chain_nodes hs))"
  using splaying_lower [OF assms [folded splaying_mirror [of R L]]] inorder_mirror [of t]
  by (simp_all flip: set_inorder)

text \<open>Moving the root to the chain of the lower nodes, and a rotation to the left.\<close>

lemma splaying_link:
  assumes inv: "splaying L R k lo hi a ls (Node l a r) hs" and r: "r \<noteq> Leaf" "R a = Some b"
  shows "splaying L (R(lo \<mapsto> a)) k a hi b (ls @ [(l, a)]) r hs"
proof -
  note d = splayingD [OF inv] and low = splaying_lower [OF inv]
  obtain x where x: "L a = Some x" "tree_at L R x l" "tree_at L R b r" "a \<noteq> 0" using d(1) r(2) by auto
  have "chain L (R(lo \<mapsto> a)) k (ls @ [(l, a)]) a"
    by (rule chain_append [OF d(3)]) (use d(5) x r in auto)
  moreover have "tree_at L (R(lo \<mapsto> a)) b r" using low(2) x(3) by simp
  moreover have "chain (R(lo \<mapsto> a)) L k hs hi" using d(4) low(3) by simp
  moreover have "distinct (k # chain_nodes (ls @ [(l, a)]) @ inorder r @ chain_nodes hs)" using d(5) by simp
  moreover have "(R(lo \<mapsto> a)) k \<noteq> None" using d(7) by simp
  ultimately show ?thesis using r(1) d(6) unfolding splaying_def by blast
qed

lemma splaying_link_higher:
  assumes "splaying L R k lo hi a ls (Node l a r) hs" and "l \<noteq> Leaf" "L a = Some b"
  shows "splaying (L(hi \<mapsto> a)) R k lo a b ls l (hs @ [(mirror r, a)])"
proof -
  have "splaying R L k hi lo a hs (Node (mirror r) a (mirror l)) ls"
    using assms(1) splaying_mirror [of R L k hi lo a hs "Node l a r" ls] by simp
  moreover have "mirror l \<noteq> Leaf" using assms(2) by (cases l) auto
  ultimately have "splaying R (L(hi \<mapsto> a)) k a lo b (hs @ [(mirror r, a)]) (mirror l) ls"
    using assms(3) by (rule splaying_link)
  then show ?thesis by (simp only: splaying_mirror)
qed

lemma splaying_rotate:
  assumes inv: "splaying L R k lo hi a ls (Node l a (Node rl b rr)) hs" and b: "L b = Some u"
  shows "splaying (L(b \<mapsto> a)) (R(a \<mapsto> u)) k lo hi b ls (Node (Node l a rl) b rr) hs"
proof -
  note d = splayingD [OF inv]
  obtain x v where x: "L a = Some x" "R a = Some b" "a \<noteq> 0" "b \<noteq> 0" "R b = Some v" "tree_at L R x l" "tree_at L R u rl" "tree_at L R v rr"
    using d(1) b by auto
  have n: "a \<noteq> b" "a \<notin> set_tree l" "b \<notin> set_tree l" "a \<notin> set_tree rl" "b \<notin> set_tree rl" "a \<notin> set_tree rr" "b \<notin> set_tree rr"
    "a \<notin> set (chain_nodes ls)" "b \<notin> set (chain_nodes ls)" "a \<notin> set (chain_nodes hs)" "b \<notin> set (chain_nodes hs)" "k \<noteq> a" "k \<noteq> b"
    using d(5) by auto
  have "tree_at (L(b \<mapsto> a)) (R(a \<mapsto> u)) b (Node (Node l a rl) b rr)"
    using x n by simp
  moreover have "chain (L(b \<mapsto> a)) (R(a \<mapsto> u)) k ls lo" "chain (R(a \<mapsto> u)) (L(b \<mapsto> a)) k hs hi" using d(3,4) n by simp_all
  moreover have "distinct (k # chain_nodes ls @ inorder (Node (Node l a rl) b rr) @ chain_nodes hs)" using d(5) by simp
  moreover have "(L(b \<mapsto> a)) k \<noteq> None" "(R(a \<mapsto> u)) k \<noteq> None" using d(6,7) by simp_all
  ultimately show ?thesis unfolding splaying_def by blast
qed

section \<open>A round\<close>

text \<open>The tree that is assembled when the loop ends with \<open>t\<close>.\<close>

definition finish :: "(u64 tree \<times> u64) list \<Rightarrow> u64 tree \<Rightarrow> (u64 tree \<times> u64) list \<Rightarrow> u64 tree" where
  "finish ls t hs = (case t of Leaf \<Rightarrow> Leaf | Node X x Y \<Rightarrow> Node (attach ls X) x (mirror (attach hs (mirror Y))))"

lemma finish_Node [simp]: "finish ls (Node X x Y) hs = Node (attach ls X) x (mirror (attach hs (mirror Y)))"
  by (simp add: finish_def)

lemma finish_mirror: "finish hs (mirror t) ls = mirror (finish ls t hs)"
  by (cases t) (auto simp: finish_def)

definition splay_nodes :: "u64 \<Rightarrow> (u64 tree \<times> u64) list \<Rightarrow> u64 tree \<Rightarrow> (u64 tree \<times> u64) list \<Rightarrow> u64 set" where
  "splay_nodes k ls t hs = insert k (set (chain_nodes ls) \<union> set_tree t \<union> set (chain_nodes hs))"

lemma splay_nodes_mirror: "splay_nodes k hs (mirror t) ls = splay_nodes k ls t hs"
  using inorder_mirror [of t] by (auto simp: splay_nodes_def simp flip: set_inorder)

definition splay_state :: "field \<Rightarrow> field \<Rightarrow> u64 \<Rightarrow> u64 \<Rightarrow> u64 \<Rightarrow> int \<Rightarrow> splay_t" where
  "splay_state L R lo hi p x = \<lparr>s_store = \<lparr>sp_left = L, sp_right = R\<rparr>, s_node = p, s_cmp = x, s_lower = lo, s_higher = hi\<rparr>"

definition same_fields :: "u64 set \<Rightarrow> field \<Rightarrow> field \<Rightarrow> field \<Rightarrow> field \<Rightarrow> bool" where
  "same_fields A L R L' R' \<longleftrightarrow> same_outside A L L' \<and> same_outside A R R'"

definition splay_step :: "(u64 \<Rightarrow> int) \<Rightarrow> u64 \<Rightarrow> field \<Rightarrow> field \<Rightarrow> (u64 tree \<times> u64) list \<Rightarrow> u64 tree \<Rightarrow> (u64 tree \<times> u64) list
    \<Rightarrow> splay_t option option \<Rightarrow> bool" where
  "splay_step c k L R ls t hs res \<longleftrightarrow>
     (res = Some None \<and> rsplay c t = t) \<or>
     (\<exists>L' R' lo hi p ls' t' hs'. res = Some (Some (splay_state L' R' lo hi p (c p))) \<and>
        splaying L' R' k lo hi p ls' t' hs' \<and> size t' < size t \<and>
        finish ls' (rsplay c t') hs' = finish ls (rsplay c t) hs \<and> splay_nodes k ls' t' hs' = splay_nodes k ls t hs \<and>
        same_fields (splay_nodes k ls t hs) L R L' R')"

lemma splay_stepI:
  "res = Some (Some (splay_state L' R' lo hi p (c p))) \<Longrightarrow> splaying L' R' k lo hi p ls' t' hs' \<Longrightarrow> size t' < size t \<Longrightarrow>
   finish ls' (rsplay c t') hs' = finish ls (rsplay c t) hs \<Longrightarrow> splay_nodes k ls' t' hs' = splay_nodes k ls t hs \<Longrightarrow>
   same_fields (splay_nodes k ls t hs) L R L' R' \<Longrightarrow> splay_step c k L R ls t hs res"
  unfolding splay_step_def by blast

lemma put_field_defined [simp]: "f p \<noteq> None \<Longrightarrow> put_field f p v = Some (f(p \<mapsto> v))"
  by (auto simp: put_field_def)

lemma splay_right_step:
  assumes inv: "splaying L R k lo hi a ls (Node l a r) hs" and a: "c a > 0"
  shows "splay_step c k L R ls (Node l a r) hs (splay_right c (splay_state L R lo hi a (c a)))"
proof -
  note d = splayingD [OF inv] and low = splaying_lower [OF inv] and high = splaying_higher [OF inv]
  obtain x y where n: "a \<noteq> 0" "L a = Some x" "R a = Some y" "tree_at L R y r" using d(1) by auto
  show ?thesis
  proof (cases r)
    case Leaf
    then have "splay_right c (splay_state L R lo hi a (c a)) = Some None"
      using n by (simp add: splay_right_def splay_state_def Let_def)
    then show ?thesis using Leaf a by (simp add: splay_step_def rsplay_right)
  next
    case (Node rl b rr)
    obtain u v where b: "y = b" "b \<noteq> 0" "L b = Some u" "R b = Some v" "tree_at L R u rl" "tree_at L R v rr"
      using n(4) Node by auto
    have uv: "u = 0 \<longleftrightarrow> rl = Leaf" "v = 0 \<longleftrightarrow> rr = Leaf" using b(5,6) tree_at_null by blast+
    have ne: "lo \<noteq> a" "lo \<noteq> b" "hi \<noteq> a" "hi \<noteq> b" "a \<noteq> b" using low(2) high(2) d(5) Node by auto
    obtain lx hx where lh: "R lo = Some lx" "L hi = Some hx" using low(1) high(1) by auto
    have ra: "R a = Some b" using n b by simp
    consider "c b > 0" "rr \<noteq> Leaf" | "c b < 0" "rl \<noteq> Leaf" | "\<not> (c b > 0 \<and> rr \<noteq> Leaf)" "\<not> (c b < 0 \<and> rl \<noteq> Leaf)" by blast
    then show ?thesis
    proof cases
      case 1
      have st: "splaying (L(b \<mapsto> a)) (R(a \<mapsto> u, lo \<mapsto> b)) k b hi v (ls @ [(Node l a rl, b)]) rr hs"
        by (rule splaying_link [OF splaying_rotate [OF inv [unfolded Node] b(3)] 1(2)]) (use ne b in simp)
      show ?thesis
      proof (rule splay_stepI [OF _ st])
        show "splay_right c (splay_state L R lo hi a (c a)) = Some (Some (splay_state (L(b \<mapsto> a)) (R(a \<mapsto> u, lo \<mapsto> b)) b hi v (c v)))"
          using 1 ra n b uv lh ne by (simp add: splay_right_def splay_state_def Let_def set_right_def set_left_def)
        obtain X z Y where "rsplay c rr = Node X z Y" using rsplay_Node 1(2) by blast
        then show "finish (ls @ [(Node l a rl, b)]) (rsplay c rr) hs = finish ls (rsplay c (Node l a r)) hs"
          using 1 a Node by (simp add: rsplay_right)
      qed (use Node low(4) in \<open>auto simp: splay_nodes_def same_fields_def\<close>)
    next
      case 2
      have st1: "splaying L (R(lo \<mapsto> a)) k a hi b (ls @ [(l, a)]) (Node rl b rr) hs"
        using splaying_link [OF inv _ ra] Node by simp
      have st: "splaying (L(hi \<mapsto> b)) (R(lo \<mapsto> a)) k a b u (ls @ [(l, a)]) rl (hs @ [(mirror rr, b)])"
        by (rule splaying_link_higher [OF st1 2(2) b(3)])
      show ?thesis
      proof (rule splay_stepI [OF _ st])
        show "splay_right c (splay_state L R lo hi a (c a)) = Some (Some (splay_state (L(hi \<mapsto> b)) (R(lo \<mapsto> a)) a b u (c u)))"
          using 2 ra n b uv lh ne by (simp add: splay_right_def splay_state_def Let_def set_right_def set_left_def)
        obtain X z Y where "rsplay c rl = Node X z Y" using rsplay_Node 2(2) by blast
        then show "finish (ls @ [(l, a)]) (rsplay c rl) (hs @ [(mirror rr, b)]) = finish ls (rsplay c (Node l a r)) hs"
          using 2 a Node by (simp add: rsplay_right)
        show "splay_nodes k (ls @ [(l, a)]) rl (hs @ [(mirror rr, b)]) = splay_nodes k ls (Node l a r) hs"
          using Node inorder_mirror [of rr] by (auto simp: splay_nodes_def simp flip: set_inorder)
      qed (use Node low(4) high(4) in \<open>auto simp: splay_nodes_def same_fields_def\<close>)
    next
      case 3
      have st: "splaying L (R(lo \<mapsto> a)) k a hi b (ls @ [(l, a)]) r hs"
        using splaying_link [OF inv _ ra] Node by simp
      show ?thesis
      proof (rule splay_stepI [OF _ st])
        show "splay_right c (splay_state L R lo hi a (c a)) = Some (Some (splay_state L (R(lo \<mapsto> a)) a hi b (c b)))"
          using 3 ra n b uv lh ne by (simp add: splay_right_def splay_state_def Let_def set_right_def set_left_def)
        have "rsplay c r = r"
          using 3 Node by (cases "c b > 0"; cases "c b < 0") (auto simp: rsplay_simps)
        then show "finish (ls @ [(l, a)]) (rsplay c r) hs = finish ls (rsplay c (Node l a r)) hs"
          using 3 a Node by (simp add: rsplay_right)
      qed (use Node low(4) in \<open>auto simp: splay_nodes_def same_fields_def\<close>)
    qed
  qed
qed

text \<open>The rounds to the left are the mirror image.\<close>

definition swap :: "splay_t \<Rightarrow> splay_t" where
  "swap s = \<lparr>s_store = \<lparr>sp_left = sp_right (s_store s), sp_right = sp_left (s_store s)\<rparr>, s_node = s_node s, s_cmp = - s_cmp s,
     s_lower = s_higher s, s_higher = s_lower s\<rparr>"

lemma swap_state [simp]: "swap (splay_state L R lo hi p x) = splay_state R L hi lo p (- x)"
  by (simp add: swap_def splay_state_def)

lemma splay_left_right:
  "splay_left c (splay_state L R lo hi p x) = map_option (map_option swap) (splay_right (\<lambda>x. - c x) (splay_state R L hi lo p (- x)))"
proof (cases "L p")
  case (Some l)
  show ?thesis
  proof (cases "L l = None \<or> R l = None")
    case True
    then show ?thesis using Some by (cases "L l"; simp add: splay_left_def splay_right_def splay_state_def Let_def)
  next
    case False
    then obtain ll lr where "L l = Some ll" "R l = Some lr" by auto
    then show ?thesis
      using Some by (cases "c l < 0 \<and> ll \<noteq> 0"; cases "c l > 0 \<and> lr \<noteq> 0")
        (auto simp: splay_left_def splay_right_def splay_state_def swap_def set_left_def set_right_def Let_def put_field_def split: bind_split)
  qed
qed (simp add: splay_left_def splay_right_def splay_state_def Let_def)

lemma splay_step_mirror:
  assumes "splay_step (\<lambda>x. - c x) k R L hs (mirror t) ls res"
  shows "splay_step c k L R ls t hs (map_option (map_option swap) res)"
  using assms unfolding splay_step_def [of "\<lambda>x. - c x"]
proof (elim disjE conjE exE)
  assume "res = Some None" "rsplay (\<lambda>x. - c x) (mirror t) = mirror t"
  then have "mirror (mirror (rsplay c t)) = mirror (mirror t)" by (simp only: rsplay_mirror)
  then show ?thesis using \<open>res = Some None\<close> by (simp add: splay_step_def)
next
  fix L' R' lo hi p ls' t' hs'
  assume r: "res = Some (Some (splay_state L' R' lo hi p (- c p)))" "splaying L' R' k lo hi p ls' t' hs'" "size t' < size (mirror t)"
    and f: "finish ls' (rsplay (\<lambda>x. - c x) t') hs' = finish hs (rsplay (\<lambda>x. - c x) (mirror t)) ls"
    and n: "splay_nodes k ls' t' hs' = splay_nodes k hs (mirror t) ls" and s: "same_fields (splay_nodes k hs (mirror t) ls) R L L' R'"
  have "finish ls' (rsplay (\<lambda>x. - c x) (mirror (mirror t'))) hs' = finish hs (rsplay (\<lambda>x. - c x) (mirror t)) ls"
    using f by simp
  then have "mirror (finish hs' (rsplay c (mirror t')) ls') = mirror (finish ls (rsplay c t) hs)"
    unfolding rsplay_mirror finish_mirror .
  then have f': "finish hs' (rsplay c (mirror t')) ls' = finish ls (rsplay c t) hs" by (metis mirror_mirror)
  show ?thesis
  proof (rule splay_stepI [of _ R' L' hi lo p c k hs' "mirror t'" ls'])
    show "splaying R' L' k hi lo p hs' (mirror t') ls'" using r(2) by (simp only: splaying_mirror)
    show "splay_nodes k hs' (mirror t') ls' = splay_nodes k ls t hs" using n by (simp only: splay_nodes_mirror)
    show "same_fields (splay_nodes k ls t hs) L R R' L'" using s by (simp add: same_fields_def splay_nodes_mirror)
  qed (use r f' in simp_all)
qed

lemma splay_left_step:
  assumes inv: "splaying L R k lo hi a ls (Node l a r) hs" and a: "c a < 0"
  shows "splay_step c k L R ls (Node l a r) hs (splay_left c (splay_state L R lo hi a (c a)))"
  unfolding splay_left_right
proof (rule splay_step_mirror)
  have "splaying R L k hi lo a hs (Node (mirror r) a (mirror l)) ls"
    using inv splaying_mirror [of R L k hi lo a hs "Node l a r" ls] by simp
  then show "splay_step (\<lambda>x. - c x) k R L hs (mirror (Node l a r)) ls (splay_right (\<lambda>x. - c x) (splay_state R L hi lo a (- c a)))"
    using splay_right_step [of R L k hi lo a hs "mirror r" "mirror l" ls "\<lambda>x. - c x"] a by simp
qed

section \<open>The loop\<close>

lemma same_fields_trans: "same_fields A L R L1 R1 \<Longrightarrow> same_fields A L1 R1 L2 R2 \<Longrightarrow> same_fields A L R L2 R2"
  by (simp add: same_fields_def same_outside_def)

lemma same_fields_at: "same_fields A L R L' R' \<Longrightarrow> p \<notin> A \<Longrightarrow> L' p = L p \<and> R' p = R p"
  by (auto simp: same_fields_def same_outside_def)

lemma same_fields_tree:
  assumes "same_fields A L R L' R'" and "set_tree t \<inter> A = {}"
  shows "tree_at L' R' p t = tree_at L R p t"
  by (rule tree_at_cong) (use assms same_fields_at in blast)

lemma same_fields_upd: "same_fields A L R L' R' \<Longrightarrow> A \<subseteq> B \<Longrightarrow> same_fields B L R L' R'"
  "same_fields B L R L' R' \<Longrightarrow> p \<in> B \<Longrightarrow> same_fields B L R (L'(p := v)) R'"
  "same_fields B L R L' R' \<Longrightarrow> p \<in> B \<Longrightarrow> same_fields B L R L' (R'(p := v))"
  by (auto simp: same_fields_def same_outside_def)

lemma splay_loop_ends:
  assumes "splaying L R k lo hi p ls t hs"
  shows "\<exists>L' R' lo' hi' p' ls' t' hs'. splay_loop c (splay_state L R lo hi p (c p)) = Some (splay_state L' R' lo' hi' p' (c p')) \<and>
    splaying L' R' k lo' hi' p' ls' t' hs' \<and> finish ls' t' hs' = finish ls (rsplay c t) hs \<and>
    splay_nodes k ls' t' hs' = splay_nodes k ls t hs \<and> same_fields (splay_nodes k ls t hs) L R L' R'"
  using assms
proof (induction "size t" arbitrary: L R lo hi p ls t hs rule: less_induct)
  case less
  define res where "res = (if c p > 0 then splay_right c (splay_state L R lo hi p (c p))
    else if c p < 0 then splay_left c (splay_state L R lo hi p (c p)) else Some None)"
  have loop: "splay_loop c (splay_state L R lo hi p (c p)) =
      res \<bind> (\<lambda>s'. case s' of None \<Rightarrow> Some (splay_state L R lo hi p (c p)) | Some s \<Rightarrow> splay_loop c s)"
    unfolding res_def by (subst splay_loop.simps) (simp add: splay_state_def)
  obtain l r where t: "t = Node l p r"
    using splayingD(1,2) [OF less.prems] by (cases t) auto
  have "splay_step c k L R ls t hs res"
    using splay_right_step splay_left_step less.prems by (auto simp: res_def t splay_step_def [of _ _ _ _ _ _ _ "Some None"] rsplay_found)
  then show ?case
    unfolding splay_step_def
  proof (elim disjE conjE exE)
    assume "res = Some None" "rsplay c t = t"
    moreover from this have "splay_loop c (splay_state L R lo hi p (c p)) = Some (splay_state L R lo hi p (c p))" by (simp add: loop)
    moreover have "same_fields A L R L R" for A by (simp add: same_fields_def)
    ultimately show ?thesis using less.prems by metis
  next
    fix L' R' lo' hi' p' ls' t' hs'
    assume r: "res = Some (Some (splay_state L' R' lo' hi' p' (c p')))" and st: "splaying L' R' k lo' hi' p' ls' t' hs'"
      and "size t' < size t" and f: "finish ls' (rsplay c t') hs' = finish ls (rsplay c t) hs"
      and n: "splay_nodes k ls' t' hs' = splay_nodes k ls t hs" and s: "same_fields (splay_nodes k ls t hs) L R L' R'"
    have "splay_loop c (splay_state L R lo hi p (c p)) = splay_loop c (splay_state L' R' lo' hi' p' (c p'))"
      by (simp add: loop r)
    then show ?thesis
      using less.hyps [OF \<open>size t' < size t\<close> st] same_fields_trans [OF s] unfolding f n by metis
  qed
qed

end
