(* ===== verification/Ds_Splay_Tree.thy ===== *)
theory Ds_Splay_Tree
  imports Ds_Splay_Loop
begin

text \<open>
  What \<open>splay\<close> does to the tree: the store stands for \<open>rsplay c t\<close> afterwards and the fields of other
  nodes are unchanged; the root of a sorted tree separates the nodes below the key from those above it.
  The recursive version leaves the very same store.
\<close>

section \<open>The end of splaying\<close>

lemma set_attach: "set_tree (attach ls X) = set (chain_nodes ls) \<union> set_tree X"
  using inorder_attach [of ls X] by (metis set_append set_inorder)

lemma set_tree_mirror [simp]: "set_tree (mirror t) = set_tree t"
  using inorder_mirror [of t] by (simp flip: set_inorder)

lemma chain_tree_mirror:
  assumes "chain R L k hs hi" and "distinct (k # inorder Y @ chain_nodes hs)" and "tree_at L R y Y"
  shows "\<exists>z. (L(hi \<mapsto> y)) k = Some z \<and> tree_at (L(hi \<mapsto> y)) R z (mirror (attach hs (mirror Y)))"
proof -
  have "tree_at R L y (mirror Y)" using assms(3) by (simp add: tree_at_mirror)
  moreover have "distinct (k # chain_nodes hs @ inorder (mirror Y))" using assms(2) by (auto simp: inorder_mirror)
  ultimately obtain z where "(L(hi \<mapsto> y)) k = Some z" "tree_at R (L(hi \<mapsto> y)) z (attach hs (mirror Y))"
    using chain_tree [OF assms(1)] by blast
  then show ?thesis using tree_at_mirror by blast
qed

lemma splay_start:
  assumes "tree_at L R p t" "t \<noteq> Leaf" "distinct (inorder t)" "k \<notin> set_tree t"
  shows "splaying (L(k \<mapsto> u)) (R(k \<mapsto> v)) k k k p [] t []"
  using assms by (simp add: splaying_def)

lemma splay_rebuild:
  assumes inv: "splaying L R k lo hi p ls (Node X p Y) hs" and xy: "L p = Some x" "R p = Some y"
  shows "\<exists>a b. (R(lo \<mapsto> x)) k = Some a \<and> (L(hi \<mapsto> y)) k = Some b \<and>
    tree_at (L(hi \<mapsto> y, p \<mapsto> a, k := None)) (R(lo \<mapsto> x, p \<mapsto> b, k := None)) p (finish ls (Node X p Y) hs)"
proof -
  note d = splayingD [OF inv] and low = splaying_lower [OF inv] and high = splaying_higher [OF inv]
  have n: "tree_at L R x X" "tree_at L R y Y" "p \<noteq> 0" using d(1) xy by auto
  have dl: "distinct (k # chain_nodes ls @ inorder X)" and dh: "distinct (k # inorder Y @ chain_nodes hs)" and kp: "k \<noteq> p"
    and pl: "p \<notin> set (chain_nodes ls) \<union> set_tree X" and ph: "p \<notin> set (chain_nodes hs) \<union> set_tree Y"
    using d(5) by auto
  have lo: "lo \<notin> set (chain_nodes hs) \<union> set_tree Y" and hi: "hi \<notin> set (chain_nodes ls) \<union> set_tree X"
    using low(2,3) high(2,3) by auto
  obtain a where a: "(R(lo \<mapsto> x)) k = Some a" "tree_at L (R(lo \<mapsto> x)) a (attach ls X)"
    using chain_tree [OF d(3) dl n(1)] by blast
  obtain b where b: "(L(hi \<mapsto> y)) k = Some b" "tree_at (L(hi \<mapsto> y)) R b (mirror (attach hs (mirror Y)))"
    using chain_tree_mirror [OF d(4) dh n(2)] by blast
  define T where "T = attach ls X"
  define U where "U = mirror (attach hs (mirror Y))"
  have out: "hi \<notin> set_tree T" "p \<notin> set_tree T" "k \<notin> set_tree T" "lo \<notin> set_tree U" "p \<notin> set_tree U" "k \<notin> set_tree U"
    using lo hi pl ph dl dh by (auto simp: T_def U_def set_attach)
  have "tree_at (L(hi \<mapsto> y, p \<mapsto> a, k := None)) (R(lo \<mapsto> x, p \<mapsto> b, k := None)) a T"
    using a(2) out by (simp add: T_def [symmetric])
  moreover have "tree_at (L(hi \<mapsto> y, p \<mapsto> a, k := None)) (R(lo \<mapsto> x, p \<mapsto> b, k := None)) b U"
    using b(2) out by (simp add: U_def [symmetric])
  ultimately show ?thesis using a(1) b(1) n(3) kp by (simp add: T_def U_def)
qed

lemma splay_tree:
  assumes t: "tree_at L R (sp_root tree) t" "t \<noteq> Leaf" "distinct (inorder t)" and k: "k \<notin> set_tree t" "L k = None" "R k = None"
  shows "\<exists>q L' R'. splay \<lparr>sp_left = L, sp_right = R\<rparr> k tree c = Some (c q, tree\<lparr>sp_root := q\<rparr>, \<lparr>sp_left = L', sp_right = R'\<rparr>) \<and>
    tree_at L' R' q (rsplay c t) \<and> same_fields (set_tree t) L R L' R'"
proof -
  define L0 where "L0 = L(k \<mapsto> 0)"
  define R0 where "R0 = R(k \<mapsto> 0)"
  have "splaying L0 R0 k k k (sp_root tree) [] t []"
    unfolding L0_def R0_def by (rule splay_start [OF t k(1)])
  from splay_loop_ends [OF this, of c] obtain L1 R1 lo hi p ls t' hs where
    loop: "splay_loop c (splay_state L0 R0 k k (sp_root tree) (c (sp_root tree))) = Some (splay_state L1 R1 lo hi p (c p))"
    and inv: "splaying L1 R1 k lo hi p ls t' hs" and f: "finish ls t' hs = finish [] (rsplay c t) []"
    and n: "splay_nodes k ls t' hs = splay_nodes k [] t []" and s: "same_fields (splay_nodes k [] t []) L0 R0 L1 R1"
    by blast
  obtain X Y where t': "t' = Node X p Y" using splayingD(1,2) [OF inv] by (cases t') auto
  obtain x y where xy: "L1 p = Some x" "R1 p = Some y" using splayingD(1) [OF inv] t' by auto
  obtain a b where ab: "(R1(lo \<mapsto> x)) k = Some a" "(L1(hi \<mapsto> y)) k = Some b"
    and q: "tree_at (L1(hi \<mapsto> y, p \<mapsto> a, k := None)) (R1(lo \<mapsto> x, p \<mapsto> b, k := None)) p (finish ls t' hs)"
    using splay_rebuild [OF inv [unfolded t'] xy] t' by blast
  have nodes: "splay_nodes k ls t' hs = insert k (set_tree t)" using n by (simp add: splay_nodes_def)
  have low: "R1 lo \<noteq> None" "lo \<in> insert k (set_tree t)" "lo \<noteq> p"
    and high: "L1 hi \<noteq> None" "hi \<in> insert k (set_tree t)" "hi \<noteq> p"
    using splaying_lower [OF inv] splaying_higher [OF inv] nodes t' by (auto simp: splay_nodes_def)
  have pk: "p \<noteq> k" "p \<in> set_tree t" using splayingD(5) [OF inv] nodes t' by (auto simp: splay_nodes_def)
  have root: "sp_root tree \<noteq> 0" using tree_at_null [OF t(1)] t(2) by simp
  have "splay \<lparr>sp_left = L, sp_right = R\<rparr> k tree c = Some (c p, tree\<lparr>sp_root := p\<rparr>,
      \<lparr>sp_left = L1(hi \<mapsto> y, p \<mapsto> a, k := None), sp_right = R1(lo \<mapsto> x, p \<mapsto> b, k := None)\<rparr>)"
    using loop root xy ab low(1,3) high(1,3) pk
    by (auto simp: splay_def Let_def splay_state_def L0_def R0_def set_left_def set_right_def)
  moreover have "finish [] (rsplay c t) [] = rsplay c t" by (cases "rsplay c t") (auto simp: finish_def)
  moreover have "same_fields (set_tree t) L R (L1(hi \<mapsto> y, p \<mapsto> a, k := None)) (R1(lo \<mapsto> x, p \<mapsto> b, k := None))"
    using s low(2) high(2) pk(2) k by (auto simp: same_fields_def same_outside_def L0_def R0_def splay_nodes_def)
  ultimately show ?thesis using q f by metis
qed

section \<open>Order\<close>

text \<open>\<open>c\<close> compares a key with nodes that are in order.\<close>

definition in_order :: "(u64 \<Rightarrow> int) \<Rightarrow> u64 list \<Rightarrow> bool" where
  "in_order c xs \<longleftrightarrow> sorted_wrt (\<lambda>a b. c a > 0 \<or> c b < 0) xs"

lemma in_order_append: "in_order c (xs @ ys) \<longleftrightarrow> in_order c xs \<and> in_order c ys \<and> (\<forall>a \<in> set xs. \<forall>b \<in> set ys. c a > 0 \<or> c b < 0)"
  by (simp add: in_order_def sorted_wrt_append)

lemma in_order_Cons: "in_order c (x # xs) \<longleftrightarrow> (\<forall>b \<in> set xs. c x > 0 \<or> c b < 0) \<and> in_order c xs"
  by (simp add: in_order_def)

lemma rsplay_separates:
  assumes "in_order c (inorder t)" and "rsplay c t = Node X x Y"
  shows "(\<forall>a \<in> set_tree X. c a > 0) \<and> (\<forall>b \<in> set_tree Y. c b < 0)"
  using assms
proof (induction t arbitrary: X x Y rule: splay_induct [of _ c])
  case (RightRight l a rl b rr)
  obtain X' x' Y' where r: "rsplay c rr = Node X' x' Y'" using rsplay_Node RightRight(3) by blast
  then have "(\<forall>a \<in> set_tree X'. c a > 0) \<and> (\<forall>b \<in> set_tree Y'. c b < 0)"
    using RightRight.IH RightRight.prems(1) by (simp add: in_order_append in_order_Cons)
  then show ?case using RightRight r by (auto simp: rsplay_right in_order_append in_order_Cons)
next
  case (RightLeft l a rl b rr)
  obtain X' x' Y' where r: "rsplay c rl = Node X' x' Y'" using rsplay_Node RightLeft(3) by blast
  then have "(\<forall>a \<in> set_tree X'. c a > 0) \<and> (\<forall>b \<in> set_tree Y'. c b < 0)"
    using RightLeft.IH RightLeft.prems(1) by (simp add: in_order_append in_order_Cons)
  then show ?case using RightLeft r by (auto simp: rsplay_right in_order_append in_order_Cons)
next
  case (LeftLeft ll b lr a r)
  obtain X' x' Y' where l: "rsplay c ll = Node X' x' Y'" using rsplay_Node LeftLeft(3) by blast
  then have "(\<forall>a \<in> set_tree X'. c a > 0) \<and> (\<forall>b \<in> set_tree Y'. c b < 0)"
    using LeftLeft.IH LeftLeft.prems(1) by (simp add: in_order_append in_order_Cons)
  then show ?case using LeftLeft l by (auto simp: rsplay_left in_order_append in_order_Cons)
next
  case (LeftRight ll b lr a r)
  obtain X' x' Y' where l: "rsplay c lr = Node X' x' Y'" using rsplay_Node LeftRight(3) by blast
  then have "(\<forall>a \<in> set_tree X'. c a > 0) \<and> (\<forall>b \<in> set_tree Y'. c b < 0)"
    using LeftRight.IH LeftRight.prems(1) by (simp add: in_order_append in_order_Cons)
  then show ?case using LeftRight l by (auto simp: rsplay_left in_order_append in_order_Cons)
next
  case (Right l a rl b rr)
  then show ?case
    by (cases "c b > 0"; cases "c b < 0") (fastforce simp: rsplay_right in_order_append in_order_Cons)+
next
  case (Left ll b lr a r)
  then show ?case
    by (cases "c b > 0"; cases "c b < 0") (fastforce simp: rsplay_left in_order_append in_order_Cons)+
qed (auto simp: rsplay_simps in_order_append in_order_Cons)

end
