(* ===== verification/Ds_Splay_Ops.thy ===== *)
theory Ds_Splay_Ops
  imports Ds_Splay_Tree
begin

text \<open>
  The operations of the tree as operations on the sorted list of its nodes: inserting, removing,
  searching and iterating.
\<close>

section \<open>The tree as a sorted list\<close>

text \<open>\<open>c\<close> compares the key \<open>k\<close> with the keys of the nodes.\<close>

definition compares :: "(u64 \<Rightarrow> int) \<Rightarrow> 'k::linorder \<Rightarrow> (u64 \<Rightarrow> 'k) \<Rightarrow> bool" where
  "compares c k key \<longleftrightarrow> (\<forall>x. (c x < 0 \<longleftrightarrow> k < key x) \<and> (c x > 0 \<longleftrightarrow> key x < k))"

definition tree_order :: "'k::linorder comparator_t \<Rightarrow> (u64 \<Rightarrow> 'k) \<Rightarrow> bool" where
  "tree_order ad key \<longleftrightarrow> (\<forall>k. compares (cmp_key ad k) k key) \<and> (\<forall>n. compares (cmp_obj ad n) (key n) key)"

definition represents :: "(u64 \<Rightarrow> 'k::linorder) \<Rightarrow> lrtree_t \<Rightarrow> splaytree_t \<Rightarrow> u64 list \<Rightarrow> bool" where
  "represents key st tree xs \<longleftrightarrow>
     (\<exists>t. tree_at (sp_left st) (sp_right st) (sp_root tree) t \<and> inorder t = xs) \<and> sorted_wrt (\<lambda>a b. key a < key b) xs"

text \<open>Only fields of the nodes \<open>A\<close> have changed; the address \<open>k\<close> of \<open>keyroot\<close> is unused outside the call.\<close>

definition changed_in :: "u64 set \<Rightarrow> lrtree_t \<Rightarrow> lrtree_t \<Rightarrow> bool" where
  "changed_in A st st' \<longleftrightarrow> same_fields A (sp_left st) (sp_right st) (sp_left st') (sp_right st')"

definition unused :: "lrtree_t \<Rightarrow> u64 \<Rightarrow> bool" where
  "unused st k \<longleftrightarrow> sp_left st k = None \<and> sp_right st k = None"

lemma compares_zero: "compares c k key \<Longrightarrow> c x = 0 \<longleftrightarrow> key x = k"
  unfolding compares_def by (metis less_irrefl linorder_neqE)

lemma compares_in_order: "compares c k key \<Longrightarrow> sorted_wrt (\<lambda>a b. key a < key b) xs \<Longrightarrow> in_order c xs"
  unfolding in_order_def by (erule sorted_wrt_mono_rel [rotated]) (metis compares_def leI order_le_less_trans)

lemma sorted_keys_distinct: "sorted_wrt (\<lambda>a b. (key a :: 'k::linorder) < key b) xs \<Longrightarrow> distinct xs"
  by (induction xs) auto

lemma unused_fresh: "represents key st tree xs \<Longrightarrow> unused st k \<Longrightarrow> k \<notin> set xs"
  unfolding represents_def unused_def using tree_at_dom set_inorder by (metis domIff)

lemma represents_root: "represents key st tree xs \<Longrightarrow> sp_root tree = 0 \<longleftrightarrow> xs = []"
  unfolding represents_def using tree_at_null inorder.simps(1) by (metis eq_Nil_appendI inorder.elims append_is_Nil_conv list.distinct(1))

lemma representsI:
  "tree_at (sp_left st) (sp_right st) (sp_root tree) t \<Longrightarrow> inorder t = xs \<Longrightarrow> sorted_wrt (\<lambda>a b. key a < key b) xs \<Longrightarrow>
   represents key st tree xs"
  unfolding represents_def by blast

lemma represents_sorted: "represents key st tree xs \<Longrightarrow> sorted_wrt (\<lambda>a b. key a < key b) xs"
  by (simp add: represents_def)

text \<open>Splaying leaves the list and brings the place of the key to the root.\<close>

lemma splay_represents:
  assumes r: "represents key st tree xs" and k: "unused st k" and xs: "xs \<noteq> []" and c: "compares c m key"
  shows "\<exists>q L R X Y. splay st k tree c = Some (c q, tree\<lparr>sp_root := q\<rparr>, \<lparr>sp_left = L, sp_right = R\<rparr>) \<and>
    tree_at L R q (Node X q Y) \<and> inorder X @ q # inorder Y = xs \<and>
    (\<forall>a \<in> set_tree X. key a < m) \<and> (\<forall>b \<in> set_tree Y. m < key b) \<and>
    same_fields (set xs) (sp_left st) (sp_right st) L R"
proof -
  obtain t where t: "tree_at (sp_left st) (sp_right st) (sp_root tree) t" "inorder t = xs"
    and s: "sorted_wrt (\<lambda>a b. key a < key b) xs" using r unfolding represents_def by blast
  have d: "distinct (inorder t)" using sorted_keys_distinct [OF s] t(2) by simp
  have f: "k \<notin> set_tree t" "sp_left st k = None" "sp_right st k = None"
    using unused_fresh [OF r k] k t(2) by (auto simp: unused_def simp flip: set_inorder)
  have ne: "t \<noteq> Leaf" using xs t(2) by auto
  obtain q L R where q: "splay \<lparr>sp_left = sp_left st, sp_right = sp_right st\<rparr> k tree c = Some (c q, tree\<lparr>sp_root := q\<rparr>, \<lparr>sp_left = L, sp_right = R\<rparr>)"
    "tree_at L R q (rsplay c t)" "same_fields (set_tree t) (sp_left st) (sp_right st) L R"
    using splay_tree [OF t(1) ne d f, of c] by blast
  obtain X Y where X: "rsplay c t = Node X q Y" using rsplay_Node [OF ne, of c] q(2) by auto
  have "in_order c (inorder t)" using compares_in_order [OF c s] t(2) by simp
  from rsplay_separates [OF this X] have "(\<forall>a \<in> set_tree X. key a < m) \<and> (\<forall>b \<in> set_tree Y. m < key b)"
    using c unfolding compares_def by blast
  moreover have "inorder X @ q # inorder Y = xs" using inorder_rsplay [of c t] X t(2) by simp
  moreover have "set_tree t = set xs" using t(2) by (simp flip: set_inorder)
  moreover have "st = \<lparr>sp_left = sp_left st, sp_right = sp_right st\<rparr>" by simp
  ultimately show ?thesis using q X by metis
qed

section \<open>Searching\<close>

lemma find_middle: "(\<forall>a \<in> set as. \<not> P a) \<Longrightarrow> List.find P (as @ bs) = List.find P bs"
  by (induction as) auto

lemma find_None [simp]: "(\<forall>a \<in> set as. \<not> P a) \<Longrightarrow> List.find P as = None"
  by (induction as) auto

lemma find_splaytree_finds:
  assumes o: "tree_order ad key" and r: "represents key st tree xs" and k: "unused st k"
  shows "\<exists>tree' st'. find_splaytree ad st k tree m =
      Some (case List.find (\<lambda>x. key x = m) xs of None \<Rightarrow> Inl ESRCH | Some x \<Rightarrow> Inr x, tree', st') \<and>
    represents key st' tree' xs \<and> changed_in (set xs) st st'"
proof (cases "xs = []")
  case True
  then show ?thesis
    using r represents_root [OF r] by (auto simp: find_splaytree_def changed_in_def same_fields_def)
next
  case False
  have c: "compares (cmp_key ad m) m key" using o by (simp add: tree_order_def)
  obtain q L R X Y where q: "splay st k tree (cmp_key ad m) = Some (cmp_key ad m q, tree\<lparr>sp_root := q\<rparr>, \<lparr>sp_left = L, sp_right = R\<rparr>)"
    "tree_at L R q (Node X q Y)" "inorder X @ q # inorder Y = xs" "\<forall>a \<in> set_tree X. key a < m" "\<forall>b \<in> set_tree Y. m < key b"
    "same_fields (set xs) (sp_left st) (sp_right st) L R"
    using splay_represents [OF r k False c] by blast
  have "find_splaytree ad st k tree m = Some (if cmp_key ad m q \<noteq> 0 then Inl ESRCH else Inr q, tree\<lparr>sp_root := q\<rparr>, \<lparr>sp_left = L, sp_right = R\<rparr>)"
    using represents_root [OF r] False q(1) by (simp add: find_splaytree_def splaykey_splaytree_def)
  moreover have "List.find (\<lambda>x. key x = m) xs = (if key q = m then Some q else None)"
    unfolding q(3) [symmetric] using q(4,5) by (subst find_middle) (auto intro!: find_None)
  moreover have "represents key \<lparr>sp_left = L, sp_right = R\<rparr> (tree\<lparr>sp_root := q\<rparr>) xs"
    by (rule representsI [OF _ _ represents_sorted [OF r], of _ _ "Node X q Y"]) (use q(2,3) in simp_all)
  ultimately show ?thesis
    using compares_zero [OF c, of q] q(6) by (auto simp: changed_in_def)
qed

section \<open>Inserting\<close>

lemma insort_middle:
  "(\<forall>a \<in> set as. key a < key n) \<Longrightarrow> (\<forall>b \<in> set bs. key n < key b) \<Longrightarrow> insort_key key n (as @ bs) = as @ n # bs"
  by (induction as) (auto simp: insort_is_Cons less_imp_le)

lemma sorted_insort_strict:
  "sorted_wrt (\<lambda>a b. (key a :: 'k::linorder) < key b) xs \<Longrightarrow> key n \<notin> key ` set xs \<Longrightarrow>
   sorted_wrt (\<lambda>a b. key a < key b) (insort_key key n xs)"
  by (induction xs) (auto simp: set_insort_key)

lemma insert_splaytree_inserts:
  assumes o: "tree_order ad key" and r: "represents key st tree xs" and k: "unused st k"
    and n: "n \<noteq> 0" "n \<noteq> k" "sp_left st n \<noteq> None" "sp_right st n \<noteq> None"
  shows "\<exists>tree' st'. insert_splaytree ad st k tree n = Some (if key n \<in> key ` set xs then Inl EEXIST else Inr (), tree', st') \<and>
    represents key st' tree' (if key n \<in> key ` set xs then xs else insort_key key n xs) \<and> changed_in (insert n (set xs)) st st'"
proof (cases "xs = []")
  case True
  have "represents key (st\<lparr>sp_left := (sp_left st)(n \<mapsto> 0), sp_right := (sp_right st)(n \<mapsto> 0)\<rparr>) (tree\<lparr>sp_root := n\<rparr>) [n]"
    by (rule representsI [of _ _ "Node Leaf n Leaf"]) (use n in simp_all)
  then show ?thesis
    using True n represents_root [OF r]
    by (auto simp: insert_splaytree_def set_left_def set_right_def changed_in_def same_fields_def)
next
  case False
  have c: "compares (cmp_obj ad n) (key n) key" using o by (simp add: tree_order_def)
  obtain q L R X Y where q: "splay st k tree (cmp_obj ad n) = Some (cmp_obj ad n q, tree\<lparr>sp_root := q\<rparr>, \<lparr>sp_left = L, sp_right = R\<rparr>)"
    "tree_at L R q (Node X q Y)" "inorder X @ q # inorder Y = xs" "\<forall>a \<in> set_tree X. key a < key n" "\<forall>b \<in> set_tree Y. key n < key b"
    "same_fields (set xs) (sp_left st) (sp_right st) L R"
    using splay_represents [OF r k False c] by blast
  have root: "sp_root tree \<noteq> 0" using represents_root [OF r] False by simp
  note zero = compares_zero [OF c, of q]
  have xs: "set xs = insert q (set_tree X \<union> set_tree Y)" using q(3) by (auto simp flip: set_inorder)
  have ex: "key n \<in> key ` set xs \<longleftrightarrow> cmp_obj ad n q = 0" using q(4,5) zero by (auto simp: xs)
  have sorted: "sorted_wrt (\<lambda>a b. key a < key b) xs" by (rule represents_sorted [OF r])
  obtain x y where xy: "L q = Some x" "R q = Some y" "tree_at L R x X" "tree_at L R y Y" "q \<noteq> 0" using q(2) by auto
  show ?thesis
  proof (cases "cmp_obj ad n q = 0")
    case True
    have "represents key \<lparr>sp_left = L, sp_right = R\<rparr> (tree\<lparr>sp_root := q\<rparr>) xs"
      by (rule representsI [OF _ _ sorted, of _ _ "Node X q Y"]) (use q(2,3) in simp_all)
    then show ?thesis
      using True ex root q(1) same_fields_upd(1) [OF q(6), of "insert n (set xs)"]
      by (auto simp: insert_splaytree_def splaynode_splaytree_def changed_in_def)
  next
    case ne: False
    have nk: "key n \<notin> key ` set xs" using ex ne by simp
    have nx: "n \<notin> set xs" using ne ex by auto
    then have new: "n \<noteq> q" "n \<notin> set_tree X" "n \<notin> set_tree Y" using xs by auto
    have nf: "L n \<noteq> None" "R n \<noteq> None" using same_fields_at [OF q(6) nx] n by simp_all
    have qd: "q \<notin> set_tree X" "q \<notin> set_tree Y" using sorted_keys_distinct [OF sorted] by (auto simp flip: q(3))
    have si: "sorted_wrt (\<lambda>a b. key a < key b) (insort_key key n xs)"
      using sorted ne ex by (intro sorted_insort_strict) auto
    show ?thesis
    proof (cases "cmp_obj ad n q < 0")
      case True
      then have "key n < key q" using c unfolding compares_def by blast
      then have "insort_key key n (inorder X @ q # inorder Y) = inorder X @ n # q # inorder Y"
        by (intro insort_middle) (use q(4,5) in auto)
      then have I: "inorder (Node X n (Node Leaf q Y)) = insort_key key n xs" by (simp flip: q(3))
      have "tree_at (L(n \<mapsto> x, q \<mapsto> 0)) (R(n \<mapsto> q)) n (Node X n (Node Leaf q Y))" using xy new qd n(1) by auto
      then have "represents key \<lparr>sp_left = L(n \<mapsto> x, q \<mapsto> 0), sp_right = R(n \<mapsto> q)\<rparr> (tree\<lparr>sp_root := n\<rparr>) (insort_key key n xs)"
        by (intro representsI [OF _ I si]) simp
      moreover have "insert_splaytree ad st k tree n = Some (Inr (), tree\<lparr>sp_root := n\<rparr>, \<lparr>sp_left = L(n \<mapsto> x, q \<mapsto> 0), sp_right = R(n \<mapsto> q)\<rparr>)"
        using True root q(1) xy(1,2) nf new(1)
        by (simp add: insert_splaytree_def splaynode_splaytree_def set_left_def set_right_def Let_def)
      moreover have "changed_in (insert n (set xs)) st \<lparr>sp_left = L(n \<mapsto> x, q \<mapsto> 0), sp_right = R(n \<mapsto> q)\<rparr>"
        using same_fields_upd(1) [OF q(6) subset_insertI [of _ n]] by (simp add: changed_in_def xs same_fields_upd(2,3))
      ultimately show ?thesis unfolding if_not_P [OF nk] by blast
    next
      case False
      then have "cmp_obj ad n q > 0" using ne by linarith
      then have "key q < key n" using c unfolding compares_def by blast
      moreover have xs2: "(inorder X @ [q]) @ inorder Y = xs" using q(3) by simp
      ultimately have "insort_key key n xs = (inorder X @ [q]) @ n # inorder Y"
        unfolding xs2 [symmetric] by (intro insort_middle) (use q(4,5) in auto)
      then have I: "inorder (Node (Node X q Leaf) n Y) = insort_key key n xs" by simp
      have "tree_at (L(n \<mapsto> q)) (R(n \<mapsto> y, q \<mapsto> 0)) n (Node (Node X q Leaf) n Y)" using xy new qd n(1) by auto
      then have "represents key \<lparr>sp_left = L(n \<mapsto> q), sp_right = R(n \<mapsto> y, q \<mapsto> 0)\<rparr> (tree\<lparr>sp_root := n\<rparr>) (insort_key key n xs)"
        by (intro representsI [OF _ I si]) simp
      moreover have "insert_splaytree ad st k tree n = Some (Inr (), tree\<lparr>sp_root := n\<rparr>, \<lparr>sp_left = L(n \<mapsto> q), sp_right = R(n \<mapsto> y, q \<mapsto> 0)\<rparr>)"
        using False ne root q(1) xy(1,2) nf new(1)
        by (simp add: insert_splaytree_def splaynode_splaytree_def set_left_def set_right_def Let_def)
      moreover have "changed_in (insert n (set xs)) st \<lparr>sp_left = L(n \<mapsto> q), sp_right = R(n \<mapsto> y, q \<mapsto> 0)\<rparr>"
        using same_fields_upd(1) [OF q(6) subset_insertI [of _ n]] by (simp add: changed_in_def xs same_fields_upd(2,3))
      ultimately show ?thesis unfolding if_not_P [OF nk] by blast
    qed
  qed
qed

section \<open>Removing\<close>

text \<open>The lowest node of a tree with a left child, and the tree without it.\<close>

lemma lowest_loop_takes:
  assumes "tree_at L R a (Node l a r)" and "l \<noteq> Leaf" and "distinct (inorder (Node l a r))"
  shows "\<exists>p m x T. lowest_loop \<lparr>sp_left = L, sp_right = R\<rparr> a = Some (p, m) \<and> R m = Some x \<and> L m = Some 0 \<and> p \<in> set_tree (Node l a r) \<and>
    tree_at (L(p \<mapsto> x)) R a T \<and> inorder (Node l a r) = m # inorder T \<and> m \<noteq> 0"
  using assms
proof (induction l arbitrary: a r)
  case (Node ll b lr)
  obtain y u v where n: "L a = Some b" "R a = Some y" "tree_at L R y r" "a \<noteq> 0" "L b = Some u" "R b = Some v"
    "tree_at L R u ll" "tree_at L R v lr" "b \<noteq> 0" using Node.prems(1) by auto
  show ?case
  proof (cases "ll = Leaf")
    case True
    then have "u = 0" using n(7) by simp
    then have "lowest_loop \<lparr>sp_left = L, sp_right = R\<rparr> a = Some (a, b)"
      using n by (subst lowest_loop.simps) (simp add: Let_def)
    moreover have "tree_at (L(a \<mapsto> v)) R a (Node lr a r)" using n Node.prems(3) by simp
    moreover have "a \<in> set_tree (Node (Node ll b lr) a r)" "inorder (Node (Node ll b lr) a r) = b # inorder (Node lr a r)"
      using True by simp_all
    ultimately show ?thesis using n(5,6,9) \<open>u = 0\<close> by blast
  next
    case False
    have "u \<noteq> 0" using tree_at_null [OF n(7)] False by simp
    then have loop: "lowest_loop \<lparr>sp_left = L, sp_right = R\<rparr> a = lowest_loop \<lparr>sp_left = L, sp_right = R\<rparr> b"
      using n by (subst lowest_loop.simps) (simp add: Let_def)
    have "tree_at L R b (Node ll b lr)" "distinct (inorder (Node ll b lr))" using n Node.prems(3) by auto
    from Node.IH(1) [OF this(1) False this(2)] obtain p m x T where
      l: "lowest_loop \<lparr>sp_left = L, sp_right = R\<rparr> b = Some (p, m)" "R m = Some x" "L m = Some 0" "p \<in> set_tree (Node ll b lr)"
      "tree_at (L(p \<mapsto> x)) R b T" "inorder (Node ll b lr) = m # inorder T" "m \<noteq> 0" by blast
    have "p \<noteq> a" "p \<notin> set_tree r" using l(4) Node.prems(3) by auto
    then have "tree_at (L(p \<mapsto> x)) R a (Node T a r)" using n l(5) by simp
    moreover have "inorder (Node (Node ll b lr) a r) = m # inorder (Node T a r)" using l(6) by simp
    moreover have "p \<in> set_tree (Node (Node ll b lr) a r)" using l(4) by auto
    ultimately show ?thesis using loop l(1-3,7) by metis
  qed
qed simp

lemma join_children_joins:
  assumes t: "tree_at L R n (Node X n Y)" and d: "distinct (inorder X @ n # inorder Y)"
  shows "\<exists>q L' R' T. join_children \<lparr>sp_left = L, sp_right = R\<rparr> n = Some (q, \<lparr>sp_left = L', sp_right = R'\<rparr>) \<and>
    tree_at L' R' q T \<and> inorder T = inorder X @ inorder Y \<and> same_fields (set_tree X \<union> set_tree Y) L R L' R'"
proof -
  obtain x y where n: "L n = Some x" "R n = Some y" "tree_at L R x X" "tree_at L R y Y" using t by auto
  have null: "x = 0 \<longleftrightarrow> X = Leaf" "y = 0 \<longleftrightarrow> Y = Leaf" using tree_at_null n(3,4) by blast+
  have refl: "same_fields A L R L R" for A by (simp add: same_fields_def)
  consider "X = Leaf" | "X \<noteq> Leaf" "Y = Leaf" | l a r where "X \<noteq> Leaf" "Y = Node l a r" by (cases Y) auto
  then show ?thesis
  proof cases
    case 1
    then have "join_children \<lparr>sp_left = L, sp_right = R\<rparr> n = Some (y, \<lparr>sp_left = L, sp_right = R\<rparr>)" "inorder Y = inorder X @ inorder Y"
      using n null by (simp_all add: join_children_def)
    then show ?thesis using n(4) refl by blast
  next
    case 2
    then have "join_children \<lparr>sp_left = L, sp_right = R\<rparr> n = Some (x, \<lparr>sp_left = L, sp_right = R\<rparr>)" "inorder X = inorder X @ inorder Y"
      using n null by (simp_all add: join_children_def)
    then show ?thesis using n(3) refl by blast
  next
    case 3
    obtain u v where a: "y = a" "a \<noteq> 0" "L a = Some u" "R a = Some v" "tree_at L R u l" "tree_at L R v r" using n(4) 3 by auto
    have da: "a \<notin> set_tree X" "a \<notin> set_tree r" "set_tree X \<inter> set_tree Y = {}" using d 3 by auto
    show ?thesis
    proof (cases "l = Leaf")
      case True
      have "tree_at (L(a \<mapsto> x)) R a (Node X a r)" using a n(3) da by simp
      moreover have "join_children \<lparr>sp_left = L, sp_right = R\<rparr> n = Some (a, \<lparr>sp_left = L(a \<mapsto> x), sp_right = R\<rparr>)"
        using n a 3 null True by (simp add: join_children_def set_left_def Let_def)
      moreover have "same_fields (set_tree X \<union> set_tree Y) L R (L(a \<mapsto> x)) R" using 3 by (simp add: same_fields_def)
      ultimately show ?thesis using 3 True by (metis append_Nil inorder.simps(1,2))
    next
      case False
      have Y: "tree_at L R a (Node l a r)" "distinct (inorder (Node l a r))" using a d 3 by auto
      obtain p m z T where l: "lowest_loop \<lparr>sp_left = L, sp_right = R\<rparr> a = Some (p, m)" "R m = Some z" "L m = Some 0"
        "p \<in> set_tree Y" "tree_at (L(p \<mapsto> z)) R a T" "inorder Y = m # inorder T" "m \<noteq> 0"
        using lowest_loop_takes [OF Y(1) False Y(2)] 3 by blast
      have dm: "m \<in> set_tree Y" "m \<notin> set_tree T" "m \<notin> set_tree X" "p \<notin> set_tree X"
        using l(4,6) d da(3) by (auto simp flip: set_inorder)
      have "u \<noteq> 0" using tree_at_null [OF a(5)] False by simp
      moreover have "L p \<noteq> None" using tree_at_dom [OF n(4) l(4)] by auto
      ultimately have "join_children \<lparr>sp_left = L, sp_right = R\<rparr> n =
          Some (m, \<lparr>sp_left = L(p \<mapsto> z, m \<mapsto> x), sp_right = R(m \<mapsto> a)\<rparr>)"
        using n a 3 null l(1-3) by (simp add: join_children_def set_left_def set_right_def Let_def)
      moreover have "tree_at (L(p \<mapsto> z, m \<mapsto> x)) (R(m \<mapsto> a)) m (Node X m T)"
        using l(5,7) n(3) dm by simp
      moreover have "same_fields (set_tree X \<union> set_tree Y) L R (L(p \<mapsto> z, m \<mapsto> x)) (R(m \<mapsto> a))"
        using l(4) dm(1) by (simp add: same_fields_def)
      moreover have "inorder (Node X m T) = inorder X @ inorder Y" using l(6) by simp
      ultimately show ?thesis by blast
    qed
  qed
qed

lemma remove_splaytree_removes:
  assumes o: "tree_order ad key" and r: "represents key st tree xs" and k: "unused st k"
  shows "\<exists>tree' st'. remove_splaytree ad st k tree n = Some (if n \<in> set xs then Inr () else Inl ESRCH, tree', st') \<and>
    represents key st' tree' (remove1 n xs) \<and> changed_in (set xs) st st' \<and>
    (n \<in> set xs \<longrightarrow> sp_left st' n = Some 0 \<and> sp_right st' n = Some 0)"
proof (cases "xs = []")
  case True
  then show ?thesis
    using r represents_root [OF r] by (auto simp: remove_splaytree_def changed_in_def same_fields_def)
next
  case False
  have c: "compares (cmp_obj ad n) (key n) key" using o by (simp add: tree_order_def)
  obtain q L R X Y where q: "splay st k tree (cmp_obj ad n) = Some (cmp_obj ad n q, tree\<lparr>sp_root := q\<rparr>, \<lparr>sp_left = L, sp_right = R\<rparr>)"
    "tree_at L R q (Node X q Y)" "inorder X @ q # inorder Y = xs" "\<forall>a \<in> set_tree X. key a < key n" "\<forall>b \<in> set_tree Y. key n < key b"
    "same_fields (set xs) (sp_left st) (sp_right st) L R"
    using splay_represents [OF r k False c] by blast
  have root: "sp_root tree \<noteq> 0" using represents_root [OF r] False by simp
  have xs: "set xs = insert q (set_tree X \<union> set_tree Y)" using q(3) by (auto simp flip: set_inorder)
  have sorted: "sorted_wrt (\<lambda>a b. key a < key b) xs" by (rule represents_sorted [OF r])
  have nq: "n \<in> set xs \<longleftrightarrow> q = n" using q(4,5) xs by auto
  show ?thesis
  proof (cases "q = n")
    case False
    then have nx: "n \<notin> set xs" using nq by simp
    have "remove_splaytree ad st k tree n = Some (Inl ESRCH, tree\<lparr>sp_root := q\<rparr>, \<lparr>sp_left = L, sp_right = R\<rparr>)"
      using root q(1) False by (simp add: remove_splaytree_def splaynode_splaytree_def)
    moreover have "represents key \<lparr>sp_left = L, sp_right = R\<rparr> (tree\<lparr>sp_root := q\<rparr>) xs"
      by (rule representsI [OF _ _ sorted, of _ _ "Node X q Y"]) (use q(2,3) in simp_all)
    ultimately show ?thesis using nx q(6) by (auto simp: remove1_idem changed_in_def)
  next
    case True
    have nx: "n \<in> set xs" using nq True by simp
    have d: "distinct (inorder X @ n # inorder Y)" using sorted_keys_distinct [OF sorted] q(3) True by simp
    obtain m L1 R1 T where j: "join_children \<lparr>sp_left = L, sp_right = R\<rparr> n = Some (m, \<lparr>sp_left = L1, sp_right = R1\<rparr>)"
      "tree_at L1 R1 m T" "inorder T = inorder X @ inorder Y" "same_fields (set_tree X \<union> set_tree Y) L R L1 R1"
      using join_children_joins [OF q(2) [unfolded True] d] by blast
    have nT: "n \<notin> set_tree T" "n \<notin> set_tree X \<union> set_tree Y" using j(3) d by (auto simp flip: set_inorder)
    have nf: "L1 n \<noteq> None" "R1 n \<noteq> None" using same_fields_at [OF j(4) nT(2)] q(2) True by auto
    let ?st = "\<lparr>sp_left = L1(n \<mapsto> 0), sp_right = R1(n \<mapsto> 0)\<rparr>"
    have "remove_splaytree ad st k tree n = Some (Inr (), tree\<lparr>sp_root := m\<rparr>, ?st)"
      using root q(1) True j(1) nf by (simp add: remove_splaytree_def splaynode_splaytree_def set_left_def set_right_def Let_def)
    moreover have rm: "remove1 n xs = inorder T" using d j(3) True by (simp add: remove1_append flip: q(3))
    then have "sorted_wrt (\<lambda>a b. key a < key b) (remove1 n xs)" using sorted q(3) j(3) by (auto simp: sorted_wrt_append)
    then have "represents key ?st (tree\<lparr>sp_root := m\<rparr>) (remove1 n xs)"
      by (intro representsI [OF _ rm [symmetric]]) (use j(2) nT in simp_all)
    moreover have "changed_in (set xs) st ?st"
    proof -
      have "same_fields (set xs) L R L1 R1" by (rule same_fields_upd(1) [OF j(4)]) (simp add: xs subset_insertI)
      then have "same_fields (set xs) (sp_left st) (sp_right st) L1 R1" by (rule same_fields_trans [OF q(6)])
      then show ?thesis using nx by (simp add: changed_in_def same_fields_upd(2,3))
    qed
    ultimately show ?thesis unfolding if_P [OF nx] by (intro exI [of _ "tree\<lparr>sp_root := m\<rparr>"] exI [of _ ?st]) simp
  qed
qed

section \<open>Iterating\<close>

lemma inorder_Nil: "inorder t = [] \<longleftrightarrow> t = Leaf"
  by (cases t) auto

lemma leftmost_loop_first:
  "tree_at (sp_left st) (sp_right st) p t \<Longrightarrow> t \<noteq> Leaf \<Longrightarrow> leftmost_loop st p = Some (first (inorder t))"
proof (induction t arbitrary: p)
  case (Node l a r)
  obtain x where x: "sp_left st a = Some x" "tree_at (sp_left st) (sp_right st) x l" "p = a" using Node.prems(1) by auto
  then show ?case
    using Node.IH(1) [OF x(2)] tree_at_null [OF x(2)]
    by (subst leftmost_loop.simps) (cases "l = Leaf"; simp add: inorder_Nil)
qed simp

lemma rightmost_loop_last:
  "tree_at (sp_left st) (sp_right st) p t \<Longrightarrow> t \<noteq> Leaf \<Longrightarrow> rightmost_loop st p = Some (first (rev (inorder t)))"
proof (induction t arbitrary: p)
  case (Node l a r)
  obtain x where x: "sp_right st a = Some x" "tree_at (sp_left st) (sp_right st) x r" "p = a" using Node.prems(1) by auto
  then show ?case
    using Node.IH(2) [OF x(2)] tree_at_null [OF x(2)]
    by (subst rightmost_loop.simps) (cases "r = Leaf"; simp add: inorder_Nil)
qed simp

lemma leftmost_or_null:
  "tree_at (sp_left st) (sp_right st) p t \<Longrightarrow> (if p \<noteq> 0 then leftmost_loop st p else Some 0) = Some (first (inorder t))"
  using leftmost_loop_first tree_at_null by (cases "t = Leaf") auto

lemma rightmost_or_null:
  "tree_at (sp_left st) (sp_right st) p t \<Longrightarrow> (if p \<noteq> 0 then rightmost_loop st p else Some 0) = Some (first (rev (inorder t)))"
  using rightmost_loop_last tree_at_null by (cases "t = Leaf") auto

lemma splaytreeiterator_starts:
  assumes "represents key st tree xs"
  shows "initfirst_splaytreeiterator st tree = Some \<lparr>spi_next = first xs\<rparr>"
    and "initlast_splaytreeiterator st tree = Some \<lparr>spi_next = first (rev xs)\<rparr>"
proof -
  obtain t where t: "tree_at (sp_left st) (sp_right st) (sp_root tree) t" "inorder t = xs"
    using assms unfolding represents_def by blast
  show "initfirst_splaytreeiterator st tree = Some \<lparr>spi_next = first xs\<rparr>"
    unfolding initfirst_splaytreeiterator_def leftmost_or_null [OF t(1)] t(2) by simp
  show "initlast_splaytreeiterator st tree = Some \<lparr>spi_next = first (rev xs)\<rparr>"
    unfolding initlast_splaytreeiterator_def rightmost_or_null [OF t(1)] t(2) by simp
qed

text \<open>The node that the iterator keeps comes to the root, and its neighbour is the one at the end of a subtree.\<close>

lemma splay_to_node:
  assumes o: "tree_order ad key" and r: "represents key st tree (as @ n # bs)" and k: "unused st k"
  shows "\<exists>L R X Y. splaynode_splaytree ad st k tree n = Some (Inr 0, tree\<lparr>sp_root := n\<rparr>, \<lparr>sp_left = L, sp_right = R\<rparr>) \<and>
    tree_at L R n (Node X n Y) \<and> inorder X = as \<and> inorder Y = bs \<and>
    represents key \<lparr>sp_left = L, sp_right = R\<rparr> (tree\<lparr>sp_root := n\<rparr>) (as @ n # bs) \<and> changed_in (set (as @ n # bs)) st \<lparr>sp_left = L, sp_right = R\<rparr>"
proof -
  have c: "compares (cmp_obj ad n) (key n) key" using o by (simp add: tree_order_def)
  obtain q L R X Y where q: "splay st k tree (cmp_obj ad n) = Some (cmp_obj ad n q, tree\<lparr>sp_root := q\<rparr>, \<lparr>sp_left = L, sp_right = R\<rparr>)"
    "tree_at L R q (Node X q Y)" "inorder X @ q # inorder Y = as @ n # bs" "\<forall>a \<in> set_tree X. key a < key n" "\<forall>b \<in> set_tree Y. key n < key b"
    "same_fields (set (as @ n # bs)) (sp_left st) (sp_right st) L R"
    using splay_represents [OF r k _ c] by blast
  have sorted: "sorted_wrt (\<lambda>a b. key a < key b) (as @ n # bs)" by (rule represents_sorted [OF r])
  have "n \<in> set (inorder X @ q # inorder Y)" using q(3) by simp
  then have qn: "q = n" using q(4,5) by auto
  have d: "distinct (as @ n # bs)" using sorted_keys_distinct [OF sorted] .
  have "inorder X = as \<and> inorder Y = bs"
    using q(3) d unfolding qn by (metis append_Cons_eq_iff distinct.simps(2) distinct_append not_distinct_conv_prefix)
  moreover have "represents key \<lparr>sp_left = L, sp_right = R\<rparr> (tree\<lparr>sp_root := n\<rparr>) (as @ n # bs)"
    by (rule representsI [OF _ _ sorted, of _ _ "Node X n Y"]) (use q(2,3) qn in simp_all)
  moreover have "cmp_obj ad n n = 0" using compares_zero [OF c] by simp
  ultimately show ?thesis using q(1,2,6) qn by (auto simp: splaynode_splaytree_def changed_in_def)
qed

lemma next_splaytreeiterator_steps:
  assumes o: "tree_order ad key" and r: "represents key st tree (as @ bs)" and k: "unused st k"
  shows "\<exists>st' tree'. next_splaytreeiterator ad st k tree \<lparr>spi_next = first bs\<rparr> =
      Some (case bs of [] \<Rightarrow> None | b # _ \<Rightarrow> Some b, \<lparr>spi_next = first (tl bs)\<rparr>, tree', st') \<and>
    represents key st' tree' (as @ bs) \<and> changed_in (set (as @ bs)) st st'"
proof (cases bs)
  case Nil
  then show ?thesis using r by (auto simp: next_splaytreeiterator_def changed_in_def same_fields_def)
next
  case (Cons n cs)
  obtain L R X Y where s: "splaynode_splaytree ad st k tree n = Some (Inr 0, tree\<lparr>sp_root := n\<rparr>, \<lparr>sp_left = L, sp_right = R\<rparr>)"
    "tree_at L R n (Node X n Y)" "inorder X = as" "inorder Y = cs"
    and q: "represents key \<lparr>sp_left = L, sp_right = R\<rparr> (tree\<lparr>sp_root := n\<rparr>) (as @ bs)" "changed_in (set (as @ bs)) st \<lparr>sp_left = L, sp_right = R\<rparr>"
    using splay_to_node [OF o r [unfolded Cons] k] unfolding Cons by blast
  obtain y where y: "R n = Some y" "tree_at L R y Y" "n \<noteq> 0" using s(2) by auto
  have "next_splaytreeiterator ad st k tree \<lparr>spi_next = first bs\<rparr> =
      Some (Some n, \<lparr>spi_next = first cs\<rparr>, tree\<lparr>sp_root := n\<rparr>, \<lparr>sp_left = L, sp_right = R\<rparr>)"
    using s(1) y(1,3) leftmost_or_null [of "\<lparr>sp_left = L, sp_right = R\<rparr>" y Y] y(2) s(4) Cons
    by (simp add: next_splaytreeiterator_def)
  then show ?thesis using q Cons by auto
qed

lemma prev_splaytreeiterator_steps:
  assumes o: "tree_order ad key" and r: "represents key st tree (rev as @ bs)" and k: "unused st k"
  shows "\<exists>st' tree'. prev_splaytreeiterator ad st k tree \<lparr>spi_next = first as\<rparr> =
      Some (case as of [] \<Rightarrow> None | a # _ \<Rightarrow> Some a, \<lparr>spi_next = first (tl as)\<rparr>, tree', st') \<and>
    represents key st' tree' (rev as @ bs) \<and> changed_in (set (rev as @ bs)) st st'"
proof (cases as)
  case Nil
  then show ?thesis using r by (auto simp: prev_splaytreeiterator_def changed_in_def same_fields_def)
next
  case (Cons n cs)
  have l: "rev as @ bs = rev cs @ n # bs" using Cons by simp
  obtain L R X Y where s: "splaynode_splaytree ad st k tree n = Some (Inr 0, tree\<lparr>sp_root := n\<rparr>, \<lparr>sp_left = L, sp_right = R\<rparr>)"
    "tree_at L R n (Node X n Y)" "inorder X = rev cs" "inorder Y = bs"
    and q: "represents key \<lparr>sp_left = L, sp_right = R\<rparr> (tree\<lparr>sp_root := n\<rparr>) (rev as @ bs)" "changed_in (set (rev as @ bs)) st \<lparr>sp_left = L, sp_right = R\<rparr>"
    using splay_to_node [OF o r [unfolded l] k] unfolding l by blast
  obtain x where x: "L n = Some x" "tree_at L R x X" "n \<noteq> 0" using s(2) by auto
  have "prev_splaytreeiterator ad st k tree \<lparr>spi_next = first as\<rparr> =
      Some (Some n, \<lparr>spi_next = first cs\<rparr>, tree\<lparr>sp_root := n\<rparr>, \<lparr>sp_left = L, sp_right = R\<rparr>)"
    using s(1) x(1,3) rightmost_or_null [of "\<lparr>sp_left = L, sp_right = R\<rparr>" x X] x(2) s(3) Cons
    by (simp add: prev_splaytreeiterator_def)
  then show ?thesis using q Cons by auto
qed

end
