(* ===== verification/Ds_Splay_Free.thy ===== *)
theory Ds_Splay_Free
  imports Ds_Splay_Ops
begin

text \<open>
  Removing all nodes. The loop needs no stack: on the way down the left pointers are turned around.
  The invariant describes the nodes above the current one, whose left subtree is being deleted, by the
  list of these nodes with their right subtrees.
\<close>

fun upwards :: "field \<Rightarrow> field \<Rightarrow> u64 \<Rightarrow> (u64 \<times> u64 tree) list \<Rightarrow> bool" where
  "upwards L R p [] \<longleftrightarrow> p = 0"
| "upwards L R p ((a, r) # us) \<longleftrightarrow> p = a \<and> a \<noteq> 0 \<and> (\<exists>x y. L a = Some x \<and> R a = Some y \<and> tree_at L R y r \<and> upwards L R x us)"

definition up_nodes :: "(u64 \<times> u64 tree) list \<Rightarrow> u64 list" where
  "up_nodes us = concat (map (\<lambda>(a, r). a # inorder r) us)"

lemma up_nodes_simps [simp]: "up_nodes [] = []" "up_nodes ((a, r) # us) = a # inorder r @ up_nodes us"
  by (simp_all add: up_nodes_def)

lemma upwards_upd [simp]:
  "q \<notin> set (up_nodes us) \<Longrightarrow> upwards (L(q := v)) R p us = upwards L R p us"
  "q \<notin> set (up_nodes us) \<Longrightarrow> upwards L (R(q := v)) p us = upwards L R p us"
  by (induction us arbitrary: p) auto

lemma upwards_null: "upwards L R p us \<Longrightarrow> p = 0 \<longleftrightarrow> us = []"
  by (cases us) auto

text \<open>The node with the parents and their remaining trees, and the nodes that are deleted, in this order.\<close>

definition to_delete :: "field \<Rightarrow> field \<Rightarrow> u64 \<Rightarrow> u64 \<Rightarrow> u64 tree \<Rightarrow> (u64 \<times> u64 tree) list \<Rightarrow> bool" where
  "to_delete L R parent node t us \<longleftrightarrow> tree_at L R node t \<and> upwards L R parent us \<and> distinct (inorder t @ up_nodes us)"

lemma descend_loop_ends:
  assumes "to_delete L R parent node t us" and "t \<noteq> Leaf"
  shows "\<exists>L' p n r us'. descend_loop \<lparr>sp_left = L, sp_right = R\<rparr> parent node = Some (\<lparr>sp_left = L', sp_right = R\<rparr>, p, n) \<and>
    to_delete L' R p n (Node Leaf n r) us' \<and> inorder t @ up_nodes us = n # inorder r @ up_nodes us' \<and>
    same_outside (set (inorder t @ up_nodes us)) L L'"
  using assms
proof (induction t arbitrary: L parent node us)
  case (Node l a r)
  obtain x y where n: "node = a" "a \<noteq> 0" "L a = Some x" "R a = Some y" "tree_at L R x l" "tree_at L R y r"
    using Node.prems(1) by (auto simp: to_delete_def)
  have d: "distinct (inorder (Node l a r) @ up_nodes us)" and u: "upwards L R parent us"
    using Node.prems(1) by (simp_all add: to_delete_def)
  show ?case
  proof (cases "l = Leaf")
    case True
    then have "descend_loop \<lparr>sp_left = L, sp_right = R\<rparr> parent node = Some (\<lparr>sp_left = L, sp_right = R\<rparr>, parent, a)"
      using n by (subst descend_loop.simps) simp
    moreover have "to_delete L R parent a (Node Leaf a r) us" using Node.prems(1) n(1) True by simp
    ultimately show ?thesis using True by (metis append.assoc append_Cons append_Nil inorder.simps same_outside_refl)
  next
    case False
    have "x \<noteq> 0" using tree_at_null [OF n(5)] False by simp
    then have step: "descend_loop \<lparr>sp_left = L, sp_right = R\<rparr> parent node = descend_loop \<lparr>sp_left = L(a \<mapsto> parent), sp_right = R\<rparr> a x"
      using n by (subst descend_loop.simps) (simp add: set_left_def)
    have "to_delete (L(a \<mapsto> parent)) R a x l ((a, r) # us)"
      using n u d by (auto simp: to_delete_def)
    from Node.IH(1) [OF this False] obtain L' p m r' us' where
      s: "descend_loop \<lparr>sp_left = L(a \<mapsto> parent), sp_right = R\<rparr> a x = Some (\<lparr>sp_left = L', sp_right = R\<rparr>, p, m)"
      "to_delete L' R p m (Node Leaf m r') us'" "inorder l @ up_nodes ((a, r) # us) = m # inorder r' @ up_nodes us'"
      "same_outside (set (inorder l @ up_nodes ((a, r) # us))) (L(a \<mapsto> parent)) L'" by blast
    have "inorder l @ up_nodes ((a, r) # us) = inorder (Node l a r) @ up_nodes us" by simp
    moreover have "same_outside (set (inorder (Node l a r) @ up_nodes us)) L L'"
      using s(4) by (auto simp: same_outside_def)
    ultimately show ?thesis using step s(1-3) by metis
  qed
qed simp

text \<open>One round deletes the first node of the list and goes on with the rest.\<close>

lemma cleared_first:
  assumes "cleared del xs (release del n f) g" and "n \<notin> set xs" and "f n = Some 0" and "same_outside (insert n (set xs)) f0 f"
  shows "cleared del (n # xs) f0 g"
  using assms by (auto simp: cleared_def release_def same_outside_def)

lemma tree_at_release [simp]: "p \<notin> set_tree t \<Longrightarrow> tree_at (release del p L) (release del p R) q t = tree_at L R q t"
  by (simp add: release_def)

lemma upwards_release [simp]: "p \<notin> set (up_nodes us) \<Longrightarrow> upwards (release del p L) (release del p R) q us = upwards L R q us"
  by (simp add: release_def)

lemma to_delete_release:
  "n \<notin> set (inorder t @ up_nodes us) \<Longrightarrow> to_delete (release del n L) (release del n R) p q t us = to_delete L R p q t us"
  by (simp add: to_delete_def)

lemma removenodes_round:
  assumes "to_delete L R p n (Node Leaf n r) us"
  shows "\<exists>L' R' p' n' t' us'.
    (do { y \<leftarrow> R n;
          if y \<noteq> 0 then do { st \<leftarrow> set_right \<lparr>sp_left = L, sp_right = R\<rparr> n 0; Some (st, p, y) }
          else if p \<noteq> 0 then do { x \<leftarrow> L p; st \<leftarrow> set_left \<lparr>sp_left = L, sp_right = R\<rparr> p 0; Some (st, x, p) }
          else Some (\<lparr>sp_left = L, sp_right = R\<rparr>, p, p) }) = Some (\<lparr>sp_left = L', sp_right = R'\<rparr>, p', n') \<and>
    to_delete L' R' p' n' t' us' \<and> inorder r @ up_nodes us = inorder t' @ up_nodes us' \<and>
    (n' = 0 \<longleftrightarrow> inorder r @ up_nodes us = []) \<and> (t' = Leaf \<longleftrightarrow> n' = 0) \<and>
    L' n = Some 0 \<and> R' n = Some 0 \<and> same_fields (insert n (set (inorder r @ up_nodes us))) L R L' R'"
proof -
  obtain y where n: "L n = Some 0" "R n = Some y" "tree_at L R y r" "n \<noteq> 0" and u: "upwards L R p us"
    and d: "distinct (n # inorder r @ up_nodes us)" using assms by (auto simp: to_delete_def)
  have nr: "n \<notin> set_tree r" "n \<notin> set (up_nodes us)" using d by auto
  consider "r \<noteq> Leaf" | a ra vs where "r = Leaf" "us = (a, ra) # vs" | "r = Leaf" "us = []" by (cases us) auto
  then show ?thesis
  proof cases
    case 1
    then have "y \<noteq> 0" "inorder r \<noteq> []" using tree_at_null [OF n(3)] inorder_Nil by simp_all
    moreover have "to_delete L (R(n \<mapsto> 0)) p y r us" using n(3) u d nr by (simp add: to_delete_def)
    ultimately show ?thesis using 1 n(1,2)
      by (intro exI [of _ L] exI [of _ "R(n \<mapsto> 0)"] exI [of _ p] exI [of _ y] exI [of _ r] exI [of _ us])
        (simp add: set_right_def same_fields_def)
  next
    case 2
    then have "y = 0" using n(3) by simp
    obtain x z where a: "p = a" "a \<noteq> 0" "L a = Some x" "R a = Some z" "tree_at L R z ra" "upwards L R x vs" using u 2 by auto
    have "to_delete (L(a \<mapsto> 0)) R x a (Node Leaf a ra) vs" using a d 2 by (auto simp: to_delete_def)
    then show ?thesis using 2 n(1,2) a nr \<open>y = 0\<close>
      by (intro exI [of _ "L(a \<mapsto> 0)"] exI [of _ R] exI [of _ x] exI [of _ a] exI [of _ "Node Leaf a ra"] exI [of _ vs])
        (auto simp: set_left_def same_fields_def)
  next
    case 3
    then have "y = 0" "p = 0" using n(3) u by simp_all
    then show ?thesis using 3 n
      by (intro exI [of _ L] exI [of _ R] exI [of _ 0] exI [of _ 0] exI [of _ Leaf] exI [of _ "[]"])
        (simp add: same_fields_def to_delete_def)
  qed
qed

lemma removenodes_loop_deletes:
  assumes "to_delete L R parent node t us" and "t \<noteq> Leaf"
  shows "\<exists>L' R'. removenodes_loop del \<lparr>sp_left = L, sp_right = R\<rparr> parent node acc =
      Some (\<lparr>sp_left = L', sp_right = R'\<rparr>, fold (calldelete del) (inorder t @ up_nodes us) acc) \<and>
    cleared del (inorder t @ up_nodes us) L L' \<and> cleared del (inorder t @ up_nodes us) R R'"
  using assms
proof (induction "length (inorder t @ up_nodes us)" arbitrary: L R parent node t us acc rule: less_induct)
  case less
  obtain L1 p n r us1 where desc: "descend_loop \<lparr>sp_left = L, sp_right = R\<rparr> parent node = Some (\<lparr>sp_left = L1, sp_right = R\<rparr>, p, n)"
    "to_delete L1 R p n (Node Leaf n r) us1" "inorder t @ up_nodes us = n # inorder r @ up_nodes us1"
    "same_outside (set (inorder t @ up_nodes us)) L L1"
    using descend_loop_ends [OF less.prems] by blast
  define xs where "xs = inorder r @ up_nodes us1"
  obtain L2 R2 p2 n2 t2 us2 where round:
    "(do { y \<leftarrow> R n;
          if y \<noteq> 0 then do { st \<leftarrow> set_right \<lparr>sp_left = L1, sp_right = R\<rparr> n 0; Some (st, p, y) }
          else if p \<noteq> 0 then do { x \<leftarrow> L1 p; st \<leftarrow> set_left \<lparr>sp_left = L1, sp_right = R\<rparr> p 0; Some (st, x, p) }
          else Some (\<lparr>sp_left = L1, sp_right = R\<rparr>, p, p) }) = Some (\<lparr>sp_left = L2, sp_right = R2\<rparr>, p2, n2)"
    and td: "to_delete L2 R2 p2 n2 t2 us2" and xs: "xs = inorder t2 @ up_nodes us2" and e: "n2 = 0 \<longleftrightarrow> xs = []" "t2 = Leaf \<longleftrightarrow> n2 = 0"
    and z: "L2 n = Some 0" "R2 n = Some 0" and sf: "same_fields (insert n (set xs)) L1 R L2 R2"
    using removenodes_round [OF desc(2)] unfolding xs_def by blast
  have nx: "n \<notin> set xs" using desc(2) by (simp add: to_delete_def xs_def)
  have seq: "inorder t @ up_nodes us = n # xs" using desc(3) by (simp add: xs_def)
  have out: "same_outside (insert n (set xs)) L L2" "same_outside (insert n (set xs)) R R2"
    using sf desc(4) seq by (auto simp: same_fields_def same_outside_def)
  let ?st = "\<lparr>sp_left = release del n L2, sp_right = release del n R2\<rparr>"
  have loop: "removenodes_loop del \<lparr>sp_left = L, sp_right = R\<rparr> parent node acc =
      (if n2 \<noteq> 0 then removenodes_loop del ?st p2 n2 (calldelete del n acc) else Some (?st, calldelete del n acc))"
    using round
    by (subst removenodes_loop.simps) (auto simp: desc(1) Let_def bind_eq_Some_conv split: if_splits)
  show ?case
  proof (cases "n2 = 0")
    case True
    have "cleared del [] (release del n L2) (release del n L2)" "cleared del [] (release del n R2) (release del n R2)"
      by (simp_all add: cleared_Nil)
    then have "cleared del (n # xs) L (release del n L2)" "cleared del (n # xs) R (release del n R2)"
      using cleared_first [OF _ nx z(1) out(1)] cleared_first [OF _ nx z(2) out(2)] True e(1) by simp_all
    then show ?thesis using loop True e(1) unfolding seq by simp
  next
    case False
    have td': "to_delete (release del n L2) (release del n R2) p2 n2 t2 us2"
      using td nx xs by (simp add: to_delete_release)
    have "length (inorder t2 @ up_nodes us2) < length (inorder t @ up_nodes us)" unfolding seq xs [symmetric] by simp
    from less.hyps [OF this td'] False e(2) obtain L' R' where
      "removenodes_loop del ?st p2 n2 (calldelete del n acc) = Some (\<lparr>sp_left = L', sp_right = R'\<rparr>, fold (calldelete del) xs (calldelete del n acc))"
      "cleared del xs (release del n L2) L'" "cleared del xs (release del n R2) R'" unfolding xs by blast
    then show ?thesis
      using loop False cleared_first [OF _ nx z(1) out(1)] cleared_first [OF _ nx z(2) out(2)] unfolding seq by auto
  qed
qed

lemma free_splaytree_deletes:
  assumes "represents key st tree xs"
  shows "\<exists>st'. free_splaytree del st tree s =
      Some (fst (fold (calldelete del) xs (Inr (), s)), \<lparr>sp_root = 0\<rparr>, st', snd (fold (calldelete del) xs (Inr (), s))) \<and>
    cleared del xs (sp_left st) (sp_left st') \<and> cleared del xs (sp_right st) (sp_right st')"
proof -
  obtain t where t: "tree_at (sp_left st) (sp_right st) (sp_root tree) t" "inorder t = xs"
    using assms unfolding represents_def by blast
  have d: "distinct xs" using sorted_keys_distinct [OF represents_sorted [OF assms]] .
  show ?thesis
  proof (cases "t = Leaf")
    case True
    then show ?thesis using t by (cases tree) (auto simp: free_splaytree_def removenodes_splaytree_def cleared_Nil)
  next
    case False
    have "to_delete (sp_left st) (sp_right st) 0 (sp_root tree) t []" using t d by (simp add: to_delete_def)
    moreover have st: "\<lparr>sp_left = sp_left st, sp_right = sp_right st\<rparr> = st" by simp
    ultimately obtain L' R' where
      "removenodes_loop del st 0 (sp_root tree) (Inr (), s) = Some (\<lparr>sp_left = L', sp_right = R'\<rparr>, fold (calldelete del) xs (Inr (), s))"
      "cleared del xs (sp_left st) L'" "cleared del xs (sp_right st) R'"
      using removenodes_loop_deletes [of "sp_left st" "sp_right st" 0 "sp_root tree" t "[]" del "(Inr (), s)", OF _ False]
      unfolding t(2) up_nodes_simps append_Nil2 st by blast
    moreover have "sp_root tree \<noteq> 0" using tree_at_null [OF t(1)] False by simp
    ultimately show ?thesis
      by (cases tree) (auto simp: free_splaytree_def removenodes_splaytree_def split: prod.split)
  qed
qed

end
