(* ===== verification/Ds_Splay_Rec.thy ===== *)
theory Ds_Splay_Rec
  imports Ds_Splay_Ops
begin

text \<open>The recursive version of splaying, which the unit test compares with, leaves the very same store.\<close>

definition splayed :: "(u64 \<Rightarrow> int) \<Rightarrow> field \<Rightarrow> field \<Rightarrow> u64 \<Rightarrow> u64 tree \<Rightarrow> bool" where
  "splayed c L R p t \<longleftrightarrow> (\<exists>q L' R'. recursivesplay c \<lparr>sp_left = L, sp_right = R\<rparr> p = Some (q, \<lparr>sp_left = L', sp_right = R'\<rparr>) \<and>
    tree_at L' R' q (rsplay c t) \<and> same_fields (set_tree t) L R L' R')"

lemma splayedI:
  "recursivesplay c \<lparr>sp_left = L, sp_right = R\<rparr> p = Some (q, \<lparr>sp_left = L', sp_right = R'\<rparr>) \<Longrightarrow>
   tree_at L' R' q (rsplay c t) \<Longrightarrow> same_fields (set_tree t) L R L' R' \<Longrightarrow> splayed c L R p t"
  unfolding splayed_def by blast

lemma splayedE:
  assumes "splayed c L R p t" "t \<noteq> Leaf" "distinct (inorder t)"
  obtains q L' R' X Y x y where "recursivesplay c \<lparr>sp_left = L, sp_right = R\<rparr> p = Some (q, \<lparr>sp_left = L', sp_right = R'\<rparr>)"
    "rsplay c t = Node X q Y" "set_tree t = insert q (set_tree X \<union> set_tree Y)" "q \<notin> set_tree X" "q \<notin> set_tree Y"
    "q \<noteq> 0" "L' q = Some x" "R' q = Some y" "tree_at L' R' x X" "tree_at L' R' y Y" "same_fields (set_tree t) L R L' R'"
proof -
  obtain q L' R' where r: "recursivesplay c \<lparr>sp_left = L, sp_right = R\<rparr> p = Some (q, \<lparr>sp_left = L', sp_right = R'\<rparr>)"
    "tree_at L' R' q (rsplay c t)" "same_fields (set_tree t) L R L' R'" using assms(1) unfolding splayed_def by blast
  obtain X z Y where t: "rsplay c t = Node X z Y" using rsplay_Node assms(2) by blast
  have z: "z = q" "q \<noteq> 0" using r(2) t by simp_all
  obtain x y where "L' q = Some x" "R' q = Some y" "tree_at L' R' x X" "tree_at L' R' y Y" using r(2) t by auto
  moreover have "set_tree t = insert q (set_tree X \<union> set_tree Y)" using set_rsplay [of c t] t z by auto
  moreover have "distinct (inorder X @ q # inorder Y)" using inorder_rsplay [of c t] assms(3) t z by simp
  then have "q \<notin> set_tree X" "q \<notin> set_tree Y" by auto
  ultimately show ?thesis using that r(1,3) t z by blast
qed

lemma splayed_right_right:
  assumes c: "c a > 0" "c b > 0" "rr \<noteq> Leaf"
    and IH: "\<And>p. tree_at L R p rr \<Longrightarrow> distinct (inorder rr) \<Longrightarrow> splayed c L R p rr"
    and t: "tree_at L R p (Node l a (Node rl b rr))" "distinct (inorder (Node l a (Node rl b rr)))"
  shows "splayed c L R p (Node l a (Node rl b rr))"
proof -
  obtain x u v where n: "p = a" "a \<noteq> 0" "L a = Some x" "R a = Some b" "tree_at L R x l" "b \<noteq> 0" "L b = Some u" "R b = Some v"
    "tree_at L R u rl" "tree_at L R v rr" using t(1) by auto
  have v: "v \<noteq> 0" using tree_at_null [OF n(10)] c(3) by simp
  have d: "distinct (inorder rr)" using t(2) by simp
  from splayedE [OF IH [OF n(10) d] c(3) d] obtain q L' R' X Y xl xr where
    rec: "recursivesplay c \<lparr>sp_left = L, sp_right = R\<rparr> v = Some (q, \<lparr>sp_left = L', sp_right = R'\<rparr>)"
    and q: "rsplay c rr = Node X q Y" "set_tree rr = insert q (set_tree X \<union> set_tree Y)" "q \<notin> set_tree X" "q \<notin> set_tree Y"
    "q \<noteq> 0" "L' q = Some xl" "R' q = Some xr" "tree_at L' R' xl X" "tree_at L' R' xr Y" and s: "same_fields (set_tree rr) L R L' R'" .
  have out: "a \<notin> set_tree rr" "b \<notin> set_tree rr" "a \<noteq> b" "a \<notin> set_tree l" "b \<notin> set_tree l" "a \<notin> set_tree rl" "b \<notin> set_tree rl"
    "set_tree l \<inter> set_tree rr = {}" "set_tree rl \<inter> set_tree rr = {}"
    using t(2) by auto
  then have qq: "q \<noteq> a" "q \<noteq> b" "q \<notin> set_tree l" "q \<notin> set_tree rl" "a \<notin> set_tree X" "a \<notin> set_tree Y" "b \<notin> set_tree X" "b \<notin> set_tree Y"
    using q(2) by auto
  note ab = same_fields_at [OF s out(1)] same_fields_at [OF s out(2)] same_fields_tree [OF s out(8)] same_fields_tree [OF s out(9)]
  show ?thesis
  proof (rule splayedI)
    show "recursivesplay c \<lparr>sp_left = L, sp_right = R\<rparr> p = Some (q, \<lparr>sp_left = L'(q \<mapsto> b, b \<mapsto> a), sp_right = R'(b \<mapsto> xl, a \<mapsto> u)\<rparr>)"
      using c(1,2) rec n v ab q(5,6,7) qq(1,2) out(3) by (subst recursivesplay.simps) (simp add: set_left_def set_right_def)
    show "tree_at (L'(q \<mapsto> b, b \<mapsto> a)) (R'(b \<mapsto> xl, a \<mapsto> u)) q (rsplay c (Node l a (Node rl b rr)))"
      using c n ab q qq out(3-7) by (simp add: rsplay_right)
    show "same_fields (set_tree (Node l a (Node rl b rr))) L R (L'(q \<mapsto> b, b \<mapsto> a)) (R'(b \<mapsto> xl, a \<mapsto> u))"
      using q(2) by (auto intro!: same_fields_upd(2,3) same_fields_upd(1) [OF s])
  qed
qed

lemma splayed_right_left:
  assumes c: "c a > 0" "c b < 0" "rl \<noteq> Leaf"
    and IH: "\<And>p. tree_at L R p rl \<Longrightarrow> distinct (inorder rl) \<Longrightarrow> splayed c L R p rl"
    and t: "tree_at L R p (Node l a (Node rl b rr))" "distinct (inorder (Node l a (Node rl b rr)))"
  shows "splayed c L R p (Node l a (Node rl b rr))"
proof -
  obtain x u v where n: "p = a" "a \<noteq> 0" "L a = Some x" "R a = Some b" "tree_at L R x l" "b \<noteq> 0" "L b = Some u" "R b = Some v"
    "tree_at L R u rl" "tree_at L R v rr" using t(1) by auto
  have v: "u \<noteq> 0" using tree_at_null [OF n(9)] c(3) by simp
  have d: "distinct (inorder rl)" using t(2) by simp
  from splayedE [OF IH [OF n(9) d] c(3) d] obtain q L' R' X Y xl xr where
    rec: "recursivesplay c \<lparr>sp_left = L, sp_right = R\<rparr> u = Some (q, \<lparr>sp_left = L', sp_right = R'\<rparr>)"
    and q: "rsplay c rl = Node X q Y" "set_tree rl = insert q (set_tree X \<union> set_tree Y)" "q \<notin> set_tree X" "q \<notin> set_tree Y"
    "q \<noteq> 0" "L' q = Some xl" "R' q = Some xr" "tree_at L' R' xl X" "tree_at L' R' xr Y" and s: "same_fields (set_tree rl) L R L' R'" .
  have out: "a \<notin> set_tree rl" "b \<notin> set_tree rl" "a \<noteq> b" "a \<notin> set_tree l" "b \<notin> set_tree l" "a \<notin> set_tree rr" "b \<notin> set_tree rr"
    "set_tree l \<inter> set_tree rl = {}" "set_tree rr \<inter> set_tree rl = {}"
    using t(2) by auto
  then have qq: "q \<noteq> a" "q \<noteq> b" "q \<notin> set_tree l" "q \<notin> set_tree rr" "a \<notin> set_tree X" "a \<notin> set_tree Y" "b \<notin> set_tree X" "b \<notin> set_tree Y"
    using q(2) by auto
  note ab = same_fields_at [OF s out(1)] same_fields_at [OF s out(2)] same_fields_tree [OF s out(8)] same_fields_tree [OF s out(9)]
  show ?thesis
  proof (rule splayedI)
    show "recursivesplay c \<lparr>sp_left = L, sp_right = R\<rparr> p = Some (q, \<lparr>sp_left = L'(b \<mapsto> xr, q \<mapsto> a), sp_right = R'(q \<mapsto> b, a \<mapsto> xl)\<rparr>)"
      using c(1,2) rec n v ab q(5,6,7) qq(1,2) out(3) by (subst recursivesplay.simps) (simp add: set_left_def set_right_def)
    show "tree_at (L'(b \<mapsto> xr, q \<mapsto> a)) (R'(q \<mapsto> b, a \<mapsto> xl)) q (rsplay c (Node l a (Node rl b rr)))"
      using c n ab q qq out(3-7) by (simp add: rsplay_right)
    show "same_fields (set_tree (Node l a (Node rl b rr))) L R (L'(b \<mapsto> xr, q \<mapsto> a)) (R'(q \<mapsto> b, a \<mapsto> xl))"
      using q(2) by (auto intro!: same_fields_upd(2,3) same_fields_upd(1) [OF s])
  qed
qed

lemma splayed_right:
  assumes c: "c a > 0" "\<not> (c b > 0 \<and> rr \<noteq> Leaf)" "\<not> (c b < 0 \<and> rl \<noteq> Leaf)"
    and t: "tree_at L R p (Node l a (Node rl b rr))" "distinct (inorder (Node l a (Node rl b rr)))"
  shows "splayed c L R p (Node l a (Node rl b rr))"
proof -
  obtain x u v where n: "p = a" "a \<noteq> 0" "L a = Some x" "R a = Some b" "tree_at L R x l" "b \<noteq> 0" "L b = Some u" "R b = Some v"
    "tree_at L R u rl" "tree_at L R v rr" using t(1) by auto
  have v: "v = 0 \<longleftrightarrow> rr = Leaf" "u = 0 \<longleftrightarrow> rl = Leaf" using tree_at_null [OF n(10)] tree_at_null [OF n(9)] by simp_all
  have out: "a \<notin> set_tree rl" "b \<notin> set_tree rl" "a \<noteq> b" "a \<notin> set_tree l" "b \<notin> set_tree l" "a \<notin> set_tree rr" "b \<notin> set_tree rr"
    using t(2) by auto
  show ?thesis
  proof (rule splayedI)
    show "recursivesplay c \<lparr>sp_left = L, sp_right = R\<rparr> p = Some (b, \<lparr>sp_left = L(b \<mapsto> a), sp_right = R(a \<mapsto> u)\<rparr>)"
      using c n v out(3) by (subst recursivesplay.simps) (auto simp: set_left_def set_right_def)
    show "tree_at (L(b \<mapsto> a)) (R(a \<mapsto> u)) b (rsplay c (Node l a (Node rl b rr)))"
      using c n out by (simp add: rsplay_right)
    show "same_fields (set_tree (Node l a (Node rl b rr))) L R (L(b \<mapsto> a)) (R(a \<mapsto> u))"
      by (auto simp: same_fields_def)
  qed
qed

text \<open>The cases to the left are the mirror image.\<close>

definition mirror_store :: "lrtree_t \<Rightarrow> lrtree_t" where
  "mirror_store st = \<lparr>sp_left = sp_right st, sp_right = sp_left st\<rparr>"

lemma mirror_store_simps [simp]:
  "sp_left (mirror_store st) = sp_right st" "sp_right (mirror_store st) = sp_left st"
  "mirror_store \<lparr>sp_left = L, sp_right = R\<rparr> = \<lparr>sp_left = R, sp_right = L\<rparr>"
  "set_left (mirror_store st) p v = map_option mirror_store (set_right st p v)"
  "set_right (mirror_store st) p v = map_option mirror_store (set_left st p v)"
  by (auto simp: mirror_store_def set_left_def set_right_def split: bind_split)

lemma recursivesplay_mirror:
  assumes "recursivesplay d st p = Some y"
  shows "recursivesplay (\<lambda>x. - d x) (mirror_store st) p = Some (fst y, mirror_store (snd y))"
proof (rule recursivesplay.raw_induct [OF _ assms,
      where P = "\<lambda>d st p y. recursivesplay (\<lambda>x. - d x) (mirror_store st) p = Some (fst y, mirror_store (snd y))"], goal_cases)
  case (1 f c st root y)
  note IH = 1(1) and body = 1(2)
  obtain r l where rl: "sp_right st root = Some r" "sp_left st root = Some l" using body by (auto simp only: bind_eq_Some_conv)
  consider "c root > 0 \<and> r \<noteq> 0" | "c root < 0 \<and> l \<noteq> 0" | "\<not> (c root > 0 \<and> r \<noteq> 0)" "\<not> (c root < 0 \<and> l \<noteq> 0)" by blast
  then show ?case
  proof cases
    case 1
    obtain rr ll where r: "sp_right st r = Some rr" "sp_left st r = Some ll" using body rl 1 by (auto simp: bind_eq_Some_conv)
    show ?thesis
      using body rl 1 r
      by (subst recursivesplay.simps; cases "c r > 0 \<and> rr \<noteq> 0"; cases "c r < 0 \<and> ll \<noteq> 0")
        (simp_all add: bind_eq_Some_conv, (auto dest!: IH simp: bind_eq_Some_conv)+)
  next
    case 2
    obtain rr ll where l: "sp_right st l = Some rr" "sp_left st l = Some ll" using body rl 2 by (auto simp: bind_eq_Some_conv)
    show ?thesis
      using body rl 2 l
      by (subst recursivesplay.simps; cases "c l > 0 \<and> rr \<noteq> 0"; cases "c l < 0 \<and> ll \<noteq> 0")
        (simp_all add: bind_eq_Some_conv, (auto dest!: IH simp: bind_eq_Some_conv)+)
  next
    case 3
    then show ?thesis using body rl by (subst recursivesplay.simps) auto
  qed
qed

lemma splayed_mirror:
  assumes "splayed (\<lambda>x. - c x) R L p (mirror t)"
  shows "splayed c L R p t"
proof -
  obtain q L' R' where r: "recursivesplay (\<lambda>x. - c x) \<lparr>sp_left = R, sp_right = L\<rparr> p = Some (q, \<lparr>sp_left = R', sp_right = L'\<rparr>)"
    "tree_at R' L' q (rsplay (\<lambda>x. - c x) (mirror t))" "same_fields (set_tree (mirror t)) R L R' L'"
    using assms unfolding splayed_def by blast
  show ?thesis
  proof (rule splayedI)
    show "recursivesplay c \<lparr>sp_left = L, sp_right = R\<rparr> p = Some (q, \<lparr>sp_left = L', sp_right = R'\<rparr>)"
      using recursivesplay_mirror [OF r(1)] by simp
    show "tree_at L' R' q (rsplay c t)" using r(2) by (simp only: rsplay_mirror tree_at_mirror)
    show "same_fields (set_tree t) L R L' R'" using r(3) by (simp add: same_fields_def)
  qed
qed

lemma recursivesplay_ends:
  assumes "(c a > 0 \<and> r \<noteq> Leaf \<longrightarrow> False)" "(c a < 0 \<and> l \<noteq> Leaf \<longrightarrow> False)" "tree_at L R p (Node l a r)"
  shows "splayed c L R p (Node l a r)"
proof (rule splayedI)
  obtain x y where "p = a" "L a = Some x" "R a = Some y" "tree_at L R x l" "tree_at L R y r" using assms(3) by auto
  then show "recursivesplay c \<lparr>sp_left = L, sp_right = R\<rparr> p = Some (p, \<lparr>sp_left = L, sp_right = R\<rparr>)"
    using assms(1,2) tree_at_null [of L R x l] tree_at_null [of L R y r] by (subst recursivesplay.simps) auto
  show "tree_at L R p (rsplay c (Node l a r))"
    using assms by (cases "c a > 0"; cases "c a < 0") (auto simp: rsplay_simps)
qed (simp add: same_fields_def)

lemma recursivesplay_tree:
  assumes "tree_at L R p t" "t \<noteq> Leaf" "distinct (inorder t)"
  shows "splayed c L R p t"
  using assms
proof (induction "size t" arbitrary: L R p t c rule: less_induct)
  case less
  have right: "splayed c L R p (Node l a r)"
    if "c a > 0" "tree_at L R p (Node l a r)" "distinct (inorder (Node l a r))" "size (Node l a r) = size t" for c l a r L R
  proof (cases r)
    case Leaf
    then show ?thesis using that by (intro recursivesplay_ends) auto
  next
    case (Node rl b rr)
    have IH: "splayed c L R p s" if "size s < size r" "tree_at L R p s" "s \<noteq> Leaf" "distinct (inorder s)" for p s
      using less.hyps [of s] that \<open>size (Node l a r) = size t\<close> by simp
    consider "c b > 0" "rr \<noteq> Leaf" | "c b < 0" "rl \<noteq> Leaf" | "\<not> (c b > 0 \<and> rr \<noteq> Leaf)" "\<not> (c b < 0 \<and> rl \<noteq> Leaf)" by blast
    then show ?thesis
    proof cases
      case 1
      show ?thesis using splayed_right_right [OF that(1) 1] IH 1(2) that(2,3) Node by simp
    next
      case 2
      show ?thesis using splayed_right_left [OF that(1) 2] IH 2(2) that(2,3) Node by simp
    next
      case 3
      show ?thesis using splayed_right [OF that(1) 3] that(2,3) Node by simp
    qed
  qed
  obtain l r where t: "t = Node l p r" using less.prems(1,2) by (cases t) auto
  consider "c p > 0" | "c p < 0" | "c p = 0" by linarith
  then show ?case
  proof cases
    case 1
    then show ?thesis using right less.prems t by simp
  next
    case 2
    have "tree_at R L p (mirror t)" "distinct (inorder (mirror t))"
      using less.prems by (simp_all add: tree_at_mirror inorder_mirror)
    then have "splayed (\<lambda>x. - c x) R L p (mirror t)"
      using right [of "\<lambda>x. - c x" p R L "mirror r" "mirror l"] 2 t by simp
    then show ?thesis by (rule splayed_mirror)
  next
    case 3
    then show ?thesis using less.prems t by (intro recursivesplay_ends [of c p r l L R p, folded t]) auto
  qed
qed

section \<open>The two versions agree\<close>

lemma tree_at_unique:
  "tree_at L R p t \<Longrightarrow> tree_at L' R' q t \<Longrightarrow> p = q \<and> (\<forall>x \<in> set_tree t. L x = L' x \<and> R x = R' x)"
proof (induction t arbitrary: p q)
  case (Node l a r)
  obtain x y x' y' where n: "L a = Some x" "R a = Some y" "tree_at L R x l" "tree_at L R y r"
    "L' a = Some x'" "R' a = Some y'" "tree_at L' R' x' l" "tree_at L' R' y' r" using Node.prems by auto
  then have "x = x' \<and> (\<forall>z \<in> set_tree l. L z = L' z \<and> R z = R' z)" "y = y' \<and> (\<forall>z \<in> set_tree r. L z = L' z \<and> R z = R' z)"
    using Node.IH by blast+
  moreover have "p = a" "q = a" using Node.prems by simp_all
  ultimately show ?case using n by auto
qed simp

lemma same_tree_same_store:
  assumes "tree_at L1 R1 p t" "tree_at L2 R2 q t" "same_fields (set_tree t) L R L1 R1" "same_fields (set_tree t) L R L2 R2"
  shows "p = q \<and> L1 = L2 \<and> R1 = R2"
proof -
  have "L1 x = L2 x \<and> R1 x = R2 x" for x
  proof (cases "x \<in> set_tree t")
    case True
    then show ?thesis using tree_at_unique [OF assms(1,2)] by blast
  next
    case False
    then show ?thesis using same_fields_at [OF assms(3) False] same_fields_at [OF assms(4) False] by simp
  qed
  then show ?thesis using tree_at_unique [OF assms(1,2)] by auto
qed

lemma splay_and_recursivesplay:
  assumes "tree_at L R (sp_root tree) t" "t \<noteq> Leaf" "distinct (inorder t)" "k \<notin> set_tree t" "L k = None" "R k = None"
  shows "\<exists>q L' R'. recursivesplay c \<lparr>sp_left = L, sp_right = R\<rparr> (sp_root tree) = Some (q, \<lparr>sp_left = L', sp_right = R'\<rparr>) \<and>
    splay \<lparr>sp_left = L, sp_right = R\<rparr> k tree c = Some (c q, tree\<lparr>sp_root := q\<rparr>, \<lparr>sp_left = L', sp_right = R'\<rparr>) \<and>
    tree_at L' R' q (rsplay c t) \<and> same_fields (set_tree t) L R L' R'"
proof -
  obtain q L1 R1 where a: "splay \<lparr>sp_left = L, sp_right = R\<rparr> k tree c = Some (c q, tree\<lparr>sp_root := q\<rparr>, \<lparr>sp_left = L1, sp_right = R1\<rparr>)"
    "tree_at L1 R1 q (rsplay c t)" "same_fields (set_tree t) L R L1 R1" using splay_tree [OF assms, of c] by blast
  obtain q' L2 R2 where b: "recursivesplay c \<lparr>sp_left = L, sp_right = R\<rparr> (sp_root tree) = Some (q', \<lparr>sp_left = L2, sp_right = R2\<rparr>)"
    "tree_at L2 R2 q' (rsplay c t)" "same_fields (set_tree t) L R L2 R2"
    using recursivesplay_tree [OF assms(1-3), of c] unfolding splayed_def by blast
  have "q = q' \<and> L1 = L2 \<and> R1 = R2"
    using same_tree_same_store [OF a(2) b(2)] a(3) b(3) by simp
  then show ?thesis using a b by auto
qed

text \<open>The same on the sorted list of the nodes, with the order that the root makes.\<close>

definition separates :: "(u64 \<Rightarrow> 'k::linorder) \<Rightarrow> 'k \<Rightarrow> lrtree_t \<Rightarrow> u64 \<Rightarrow> bool" where
  "separates key m st q \<longleftrightarrow> (\<exists>l r. tree_at (sp_left st) (sp_right st) q (Node l q r) \<and>
     (\<forall>a \<in> set_tree l. key a < m) \<and> (\<forall>b \<in> set_tree r. m < key b))"

lemma splay_both:
  assumes r: "represents key st tree xs" and xs: "xs \<noteq> []" and k: "unused st k"
  shows "\<exists>q st'. recursivesplay c st (sp_root tree) = Some (q, st') \<and> splay st k tree c = Some (c q, tree\<lparr>sp_root := q\<rparr>, st') \<and>
    represents key st' (tree\<lparr>sp_root := q\<rparr>) xs \<and> changed_in (set xs) st st' \<and> (\<forall>m. compares c m key \<longrightarrow> separates key m st' q)"
proof -
  obtain t where t: "tree_at (sp_left st) (sp_right st) (sp_root tree) t" "inorder t = xs"
    using r unfolding represents_def by blast
  have s: "sorted_wrt (\<lambda>a b. key a < key b) xs" by (rule represents_sorted [OF r])
  have d: "distinct (inorder t)" using sorted_keys_distinct [OF s] t(2) by simp
  have f: "k \<notin> set_tree t" "sp_left st k = None" "sp_right st k = None"
    using unused_fresh [OF r k] k t(2) by (auto simp: unused_def simp flip: set_inorder)
  have ne: "t \<noteq> Leaf" using xs t(2) by auto
  have st: "\<lparr>sp_left = sp_left st, sp_right = sp_right st\<rparr> = st" by simp
  obtain q L R where q: "recursivesplay c st (sp_root tree) = Some (q, \<lparr>sp_left = L, sp_right = R\<rparr>)"
    "splay st k tree c = Some (c q, tree\<lparr>sp_root := q\<rparr>, \<lparr>sp_left = L, sp_right = R\<rparr>)"
    "tree_at L R q (rsplay c t)" "same_fields (set_tree t) (sp_left st) (sp_right st) L R"
    using splay_and_recursivesplay [OF t(1) ne d f, of c] unfolding st by blast
  have "represents key \<lparr>sp_left = L, sp_right = R\<rparr> (tree\<lparr>sp_root := q\<rparr>) xs"
    by (rule representsI [OF _ _ s, of _ _ "rsplay c t"]) (use q(3) t(2) in simp_all)
  moreover have "set_tree t = set xs" using t(2) by (simp flip: set_inorder)
  then have "changed_in (set xs) st \<lparr>sp_left = L, sp_right = R\<rparr>" using q(4) by (simp add: changed_in_def)
  moreover have "separates key m \<lparr>sp_left = L, sp_right = R\<rparr> q" if c: "compares c m key" for m
  proof -
    obtain X Y where X: "rsplay c t = Node X q Y" using rsplay_Node [OF ne, of c] q(3) by auto
    have "in_order c (inorder t)" using compares_in_order [OF c s] t(2) by simp
    from rsplay_separates [OF this X] have "(\<forall>a \<in> set_tree X. key a < m) \<and> (\<forall>b \<in> set_tree Y. m < key b)"
      using c unfolding compares_def by blast
    then show ?thesis using q(3) unfolding X separates_def lrtree_t.simps by blast
  qed
  ultimately show ?thesis using q(1,2) by blast
qed

end
