(* ===== verification/Ds_Splay_Contract.thy ===== *)
theory Ds_Splay_Contract
  imports Ds_Splay_Free Ds_Splay_Rec
begin

text \<open>The properties of the splay tree, and the example tree of their witnesses.\<close>

section \<open>Visiting all nodes\<close>

text \<open>
  The loop of the documentation: the nodes that the iterator returns until it ends. The nodes that
  \<open>need_to_remove\<close> selects are removed during the iteration.
\<close>

partial_function (option) foreach_next ::
  "'k comparator_t \<Rightarrow> (u64 \<Rightarrow> bool) \<Rightarrow> lrtree_t \<Rightarrow> u64 \<Rightarrow> splaytree_t \<Rightarrow> splaytree_iterator_t \<Rightarrow> (u64 list \<times> splaytree_t \<times> lrtree_t) option" where
  "foreach_next ad need_to_remove st k tree iter = do {
     (r, iter, tree, st) \<leftarrow> next_splaytreeiterator ad st k tree iter;
     case r of None \<Rightarrow> Some ([], tree, st)
     | Some n \<Rightarrow> do {
         (err, tree, st) \<leftarrow> (if need_to_remove n then remove_splaytree ad st k tree n else Some (Inr (), tree, st));
         (ns, tree, st) \<leftarrow> (if err = Inr () then foreach_next ad need_to_remove st k tree iter else None);
         Some (n # ns, tree, st) } }"

partial_function (option) foreach_prev ::
  "'k comparator_t \<Rightarrow> (u64 \<Rightarrow> bool) \<Rightarrow> lrtree_t \<Rightarrow> u64 \<Rightarrow> splaytree_t \<Rightarrow> splaytree_iterator_t \<Rightarrow> (u64 list \<times> splaytree_t \<times> lrtree_t) option" where
  "foreach_prev ad need_to_remove st k tree iter = do {
     (r, iter, tree, st) \<leftarrow> prev_splaytreeiterator ad st k tree iter;
     case r of None \<Rightarrow> Some ([], tree, st)
     | Some n \<Rightarrow> do {
         (err, tree, st) \<leftarrow> (if need_to_remove n then remove_splaytree ad st k tree n else Some (Inr (), tree, st));
         (ns, tree, st) \<leftarrow> (if err = Inr () then foreach_prev ad need_to_remove st k tree iter else None);
         Some (n # ns, tree, st) } }"

lemma unused_kept: "represents key st tree xs \<Longrightarrow> unused st k \<Longrightarrow> changed_in (set xs) st st' \<Longrightarrow> unused st' k"
  using unused_fresh by (fastforce simp: unused_def changed_in_def dest: same_fields_at)

lemma remove_selected:
  assumes "tree_order ad key" and "represents key st tree (as @ n # bs)" and "unused st k"
  shows "\<exists>tree' st'. (if p n then remove_splaytree ad st k tree n else Some (Inr (), tree, st)) = Some (Inr (), tree', st') \<and>
    represents key st' tree' (if p n then as @ bs else as @ n # bs) \<and> unused st' k"
proof (cases "p n")
  case True
  obtain tree' st' where "remove_splaytree ad st k tree n = Some (Inr (), tree', st')"
    "represents key st' tree' (remove1 n (as @ n # bs))" "changed_in (set (as @ n # bs)) st st'"
    using remove_splaytree_removes [OF assms, of n] by auto
  moreover have "n \<notin> set as" using sorted_keys_distinct [OF represents_sorted [OF assms(2)]] by simp
  ultimately show ?thesis using True unused_kept [OF assms(2,3)] by (auto simp: remove1_append)
qed (use assms in simp)

lemma foreach_next_rest:
  assumes o: "tree_order ad key" and "represents key st tree (as @ bs)" and "unused st k"
  shows "\<exists>tree' st'. foreach_next ad p st k tree \<lparr>spi_next = first bs\<rparr> = Some (bs, tree', st') \<and>
    represents key st' tree' (as @ filter (\<lambda>x. \<not> p x) bs)"
  using assms(2,3)
proof (induction bs arbitrary: as st tree)
  case Nil
  obtain st' tree' where "next_splaytreeiterator ad st k tree \<lparr>spi_next = first []\<rparr> = Some (None, \<lparr>spi_next = first (tl [])\<rparr>, tree', st')"
    "represents key st' tree' (as @ [])" using next_splaytreeiterator_steps [OF o Nil] by auto
  then show ?case by (subst foreach_next.simps) simp
next
  case (Cons b bs)
  obtain st1 tree1 where s: "next_splaytreeiterator ad st k tree \<lparr>spi_next = first (b # bs)\<rparr> = Some (Some b, \<lparr>spi_next = first bs\<rparr>, tree1, st1)"
    and r: "represents key st1 tree1 (as @ b # bs)" "changed_in (set (as @ b # bs)) st st1"
    using next_splaytreeiterator_steps [OF o Cons.prems] by auto
  obtain tree2 st2 where s2: "(if p b then remove_splaytree ad st1 k tree1 b else Some (Inr (), tree1, st1)) = Some (Inr (), tree2, st2)"
    and r2: "represents key st2 tree2 ((if p b then as else as @ [b]) @ bs)" "unused st2 k"
    using remove_selected [OF o r(1) unused_kept [OF Cons.prems r(2)], of p] by (auto split: if_splits)
  from Cons.IH [OF r2] s s2 show ?case by (subst foreach_next.simps) (auto split: if_splits)
qed

lemma foreach_prev_rest:
  assumes o: "tree_order ad key" and "represents key st tree (rev as @ bs)" and "unused st k"
  shows "\<exists>tree' st'. foreach_prev ad p st k tree \<lparr>spi_next = first as\<rparr> = Some (as, tree', st') \<and>
    represents key st' tree' (rev (filter (\<lambda>x. \<not> p x) as) @ bs)"
  using assms(2,3)
proof (induction as arbitrary: bs st tree)
  case Nil
  obtain st' tree' where "prev_splaytreeiterator ad st k tree \<lparr>spi_next = first []\<rparr> = Some (None, \<lparr>spi_next = first (tl [])\<rparr>, tree', st')"
    "represents key st' tree' (rev [] @ bs)" using prev_splaytreeiterator_steps [OF o Nil] by auto
  then show ?case by (subst foreach_prev.simps) simp
next
  case (Cons a as)
  obtain st1 tree1 where s: "prev_splaytreeiterator ad st k tree \<lparr>spi_next = first (a # as)\<rparr> = Some (Some a, \<lparr>spi_next = first as\<rparr>, tree1, st1)"
    and r: "represents key st1 tree1 (rev as @ a # bs)" "changed_in (set (rev (a # as) @ bs)) st st1"
    using prev_splaytreeiterator_steps [OF o Cons.prems] by auto
  obtain tree2 st2 where s2: "(if p a then remove_splaytree ad st1 k tree1 a else Some (Inr (), tree1, st1)) = Some (Inr (), tree2, st2)"
    and r2: "represents key st2 tree2 (rev as @ (if p a then bs else a # bs))" "unused st2 k"
    using remove_selected [OF o r(1) unused_kept [OF Cons.prems r(2)], of p] by (auto split: if_splits)
  from Cons.IH [OF r2] s s2 show ?case by (subst foreach_prev.simps) (auto split: if_splits)
qed

section \<open>An example\<close>

text \<open>Three nodes in a tree, one outside and a free address for \<open>keyroot\<close>; the keys are the addresses.\<close>

definition example_ad :: "int comparator_t" where
  "example_ad = \<lparr>cmp_key = \<lambda>k x. k - uint x, cmp_obj = \<lambda>a b. uint a - uint b\<rparr>"

definition example_store :: lrtree_t where
  "example_store = \<lparr>sp_left = [1 \<mapsto> 0, 2 \<mapsto> 1, 3 \<mapsto> 0, 4 \<mapsto> 0], sp_right = [1 \<mapsto> 0, 2 \<mapsto> 3, 3 \<mapsto> 0, 4 \<mapsto> 0]\<rparr>"

lemma example_order: "tree_order example_ad uint"
  by (simp add: tree_order_def compares_def example_ad_def)

lemma example_represents: "represents uint example_store \<lparr>sp_root = 2\<rparr> [1, 2, 3]"
  by (rule representsI [of _ _ "Node (Node Leaf 1 Leaf) 2 (Node Leaf 3 Leaf)"]) (simp_all add: example_store_def)

lemma example_unused: "unused example_store 5"
  by (simp add: unused_def example_store_def)

section \<open>The properties\<close>

text \<open>C11: For every comparison function that orders the nodes by a key, the tree is the sorted list of
  its nodes: \<open>find_splaytree\<close> returns the node with the key or \<open>ESRCH\<close>, \<open>insert_splaytree\<close> puts
  a node with a new key at its place and refuses a key that exists with \<open>EEXIST\<close>,
  \<open>remove_splaytree\<close> takes exactly the node out and refuses every other one with \<open>ESRCH\<close>. The list is
  unchanged otherwise, and only fields of the nodes in the tree and of the new node are written.
\<close>

theorem splaytree_operations:
  assumes "tree_order ad key" and "represents key st tree xs" and "unused st k"
    and "n \<noteq> 0" and "n \<noteq> k" and "sp_left st n \<noteq> None" and "sp_right st n \<noteq> None"
  shows "represents key st init_splaytree [] \<and> isempty_splaytree tree = (xs = []) \<and>
    (\<forall>m. \<exists>tree' st'. find_splaytree ad st k tree m =
        Some (case List.find (\<lambda>x. key x = m) xs of None \<Rightarrow> Inl ESRCH | Some x \<Rightarrow> Inr x, tree', st') \<and>
      represents key st' tree' xs \<and> changed_in (set xs) st st') \<and>
    (\<exists>tree' st'. insert_splaytree ad st k tree n = Some (if key n \<in> key ` set xs then Inl EEXIST else Inr (), tree', st') \<and>
      represents key st' tree' (if key n \<in> key ` set xs then xs else insort_key key n xs) \<and> changed_in (insert n (set xs)) st st') \<and>
    (\<forall>x. \<exists>tree' st'. remove_splaytree ad st k tree x = Some (if x \<in> set xs then Inr () else Inl ESRCH, tree', st') \<and>
      represents key st' tree' (remove1 x xs) \<and> changed_in (set xs) st st' \<and>
      (x \<in> set xs \<longrightarrow> sp_left st' x = Some 0 \<and> sp_right st' x = Some 0))"
proof (intro conjI allI)
  show "represents key st init_splaytree []"
    by (rule representsI [of _ _ Leaf]) (simp_all add: init_splaytree_def)
  show "isempty_splaytree tree = (xs = [])"
    using represents_root [OF assms(2)] by (auto simp: isempty_splaytree_def)
qed (rule find_splaytree_finds [OF assms(1-3)] insert_splaytree_inserts [OF assms] remove_splaytree_removes [OF assms(1-3)])+

theorem splaytree_operations_witness:
  "(\<exists>tree' st'. insert_splaytree example_ad example_store 5 \<lparr>sp_root = 2\<rparr> 4 = Some (Inr (), tree', st') \<and>
      represents uint st' tree' [1, 2, 3, 4]) \<and>
   (\<exists>tree' st'. remove_splaytree example_ad example_store 5 \<lparr>sp_root = 2\<rparr> 2 = Some (Inr (), tree', st') \<and>
      represents uint st' tree' [1, 3])"
proof -
  note ops = splaytree_operations [OF example_order example_represents example_unused, of 4]
  have h: "(4 :: u64) \<noteq> 0" "(4 :: u64) \<noteq> 5" "sp_left example_store 4 \<noteq> None" "sp_right example_store 4 \<noteq> None"
    by (simp_all add: example_store_def)
  show ?thesis
  proof
    show "\<exists>tree' st'. insert_splaytree example_ad example_store 5 \<lparr>sp_root = 2\<rparr> 4 = Some (Inr (), tree', st') \<and>
        represents uint st' tree' [1, 2, 3, 4]"
      using ops [OF h, THEN conjunct2, THEN conjunct2, THEN conjunct2, THEN conjunct1] by auto
    show "\<exists>tree' st'. remove_splaytree example_ad example_store 5 \<lparr>sp_root = 2\<rparr> 2 = Some (Inr (), tree', st') \<and>
        represents uint st' tree' [1, 3]"
      using ops [OF h, THEN conjunct2, THEN conjunct2, THEN conjunct2, THEN conjunct2, THEN spec [of _ 2]] by auto
  qed
qed

text \<open>C13: The iterators return all nodes in order, and in reverse order, splaying the tree on the way, and support
  the removal of the current node: the tree ends up with exactly the nodes that are not selected. \<open>free_splaytree\<close> calls
  the delete function exactly once for every node, in order, never touches a
  node after it has been deleted, returns the last error and leaves the empty tree.
\<close>

theorem splaytree_visits_all:
  assumes "tree_order ad key" and "represents key st tree xs" and "unused st k"
  shows "(\<exists>iter tree' st'. initfirst_splaytreeiterator st tree = Some iter \<and>
      foreach_next ad p st k tree iter = Some (xs, tree', st') \<and> represents key st' tree' (filter (\<lambda>x. \<not> p x) xs)) \<and>
    (\<exists>iter tree' st'. initlast_splaytreeiterator st tree = Some iter \<and>
      foreach_prev ad p st k tree iter = Some (rev xs, tree', st') \<and> represents key st' tree' (filter (\<lambda>x. \<not> p x) xs)) \<and>
    (\<exists>st'. free_splaytree del st tree s =
        Some (fst (fold (calldelete del) xs (Inr (), s)), \<lparr>sp_root = 0\<rparr>, st', snd (fold (calldelete del) xs (Inr (), s))) \<and>
      cleared del xs (sp_left st) (sp_left st') \<and> cleared del xs (sp_right st) (sp_right st'))"
  using splaytreeiterator_starts [OF assms(2)] foreach_next_rest [OF assms(1), of st tree "[]" xs k p]
    foreach_prev_rest [OF assms(1), of st tree "rev xs" "[]" k p] assms(2,3) free_splaytree_deletes [OF assms(2), of del s]
  by (simp add: rev_filter)

theorem splaytree_visits_all_witness:
  "(\<exists>iter tree' st'. initlast_splaytreeiterator example_store \<lparr>sp_root = 2\<rparr> = Some iter \<and>
      foreach_prev example_ad (\<lambda>x. x = 2) example_store 5 \<lparr>sp_root = 2\<rparr> iter = Some ([3, 2, 1], tree', st') \<and> represents uint st' tree' [1, 3]) \<and>
   (\<exists>st'. free_splaytree (Some (\<lambda>x s. (if x = 1 then Inl EINVAL else Inr (), s @ [x]))) example_store \<lparr>sp_root = 2\<rparr> [] =
      Some (Inl EINVAL, \<lparr>sp_root = 0\<rparr>, st', [1, 2, 3]) \<and> sp_left st' 2 = None)"
  using splaytree_visits_all [OF example_order example_represents example_unused,
      of "\<lambda>x. x = 2" "Some (\<lambda>x s. (if x = 1 then Inl EINVAL else Inr (), s @ [x]))" "[]"]
  by (auto simp: calldelete_def cleared_def)

text \<open>C12: The loops of \<open>splaykey_splaytree\<close> and \<open>splaynode_splaytree\<close>, which go down once with two chains of
  nodes, and the recursive version that the unit test compares with leave the very same store, for every comparison
  function. The nodes keep their order, only their fields are written, and when the comparison orders the nodes by a key,
  the new root separates the lower from the higher ones.
\<close>

theorem splay_is_recursivesplay:
  assumes "represents key st tree xs" and "xs \<noteq> []" and "unused st k"
  shows "(\<exists>q st'. recursivesplay_splaytree ad st tree (sp_root tree) m = Some (q, tree\<lparr>sp_root := q\<rparr>, st') \<and>
      splaykey_splaytree ad st k tree m = Some (Inr (), tree\<lparr>sp_root := q\<rparr>, st') \<and>
      represents key st' (tree\<lparr>sp_root := q\<rparr>) xs \<and> changed_in (set xs) st st' \<and>
      (compares (cmp_key ad m) m' key \<longrightarrow> separates key m' st' q)) \<and>
    (\<exists>q st'. recursivesplay (cmp_obj ad n) st (sp_root tree) = Some (q, st') \<and>
      splaynode_splaytree ad st k tree n = Some (Inr (cmp_obj ad n q), tree\<lparr>sp_root := q\<rparr>, st') \<and>
      represents key st' (tree\<lparr>sp_root := q\<rparr>) xs \<and> changed_in (set xs) st st' \<and>
      (compares (cmp_obj ad n) (key n) key \<longrightarrow> separates key (key n) st' q))"
proof
  show "\<exists>q st'. recursivesplay_splaytree ad st tree (sp_root tree) m = Some (q, tree\<lparr>sp_root := q\<rparr>, st') \<and>
      splaykey_splaytree ad st k tree m = Some (Inr (), tree\<lparr>sp_root := q\<rparr>, st') \<and>
      represents key st' (tree\<lparr>sp_root := q\<rparr>) xs \<and> changed_in (set xs) st st' \<and>
      (compares (cmp_key ad m) m' key \<longrightarrow> separates key m' st' q)"
    using splay_both [OF assms, of "cmp_key ad m"] unfolding splaykey_splaytree_def recursivesplay_splaytree_def by force
  show "\<exists>q st'. recursivesplay (cmp_obj ad n) st (sp_root tree) = Some (q, st') \<and>
      splaynode_splaytree ad st k tree n = Some (Inr (cmp_obj ad n q), tree\<lparr>sp_root := q\<rparr>, st') \<and>
      represents key st' (tree\<lparr>sp_root := q\<rparr>) xs \<and> changed_in (set xs) st st' \<and>
      (compares (cmp_obj ad n) (key n) key \<longrightarrow> separates key (key n) st' q)"
    using splay_both [OF assms, of "cmp_obj ad n"] unfolding splaynode_splaytree_def by force
qed

theorem splay_is_recursivesplay_witness:
  "\<exists>q st'. recursivesplay_splaytree example_ad example_store \<lparr>sp_root = 2\<rparr> 2 3 = Some (q, \<lparr>sp_root = q\<rparr>, st') \<and>
     splaykey_splaytree example_ad example_store 5 \<lparr>sp_root = 2\<rparr> 3 = Some (Inr (), \<lparr>sp_root = q\<rparr>, st') \<and> separates uint 3 st' q"
proof -
  have "compares (cmp_key example_ad 3) 3 uint" using example_order by (simp add: tree_order_def)
  then show ?thesis
    using splay_is_recursivesplay [OF example_represents _ example_unused, of example_ad 3 3 0, THEN conjunct1] by auto
qed

end
