(* ===== verification/Spec2Isabelle.thy ===== *)
theory Spec2Isabelle
  imports Int_Sqroot Int_Bits Int_Digits Int_Factorise Hash_Crc Hash_Sha1 Big_Divmod Big_Shift Str_Base64 Str_Utf8_Text
    Str_Search_First Ds_Heap_Queue Ds_Mergesort_Contract Ds_Lists Ds_Splay_Contract
begin

text \<open>
  A verification development for js-projekt, a C library of data structures, arithmetic, text
  processing and platform code. This theory is the root: it imports the component theories. File
  names are relative to the directory \<open>src\<close> of the repository; the headers of a component are under
  C-kern/api, its code under C-kern.

  \<^bold>\<open>The program.\<close> C-kern is a layered library. The arithmetic layer (math) has integer routines,
  hashes and big numbers without state of their own. The memory layer hands out memory blocks and,
  on top of them, write buffers that grow; the string layer encodes and decodes text into these
  buffers or in place. The containers (ds) are generic over a comparison or an adapter that the
  client supplies. Above them are the readers, the automata, tasks and threads and the wrappers of
  the operating system. A fallible function returns 0 or an error code, writes its results through
  out parameters and leaves them alone on an error. The models keep this: a result type
  \<open>errno + 'a\<close> (Prelude) for the return code, explicit state passing for objects.

  \<^bold>\<open>Conventions.\<close>
  \<^item> An integer of fixed width whose wrap-around matters is a word (\<open>u8\<close>, \<open>u16\<close>, \<open>u32\<close>, \<open>u64\<close>). Sizes
    and offsets that index lists are \<open>nat\<close> and wrap through \<open>wrap_size\<close>, \<open>sub_size\<close>, \<open>cast_uint16\<close>,
    \<open>cast_int16\<close> where the code can wrap.
  \<^item> An array is a list, a pointer into it a position, an object a record. Objects that operations
    change are returned updated; objects that share memory are not modelled as separate values.
  \<^item> Where an access can leave its array, the model is a function into an option type and \<open>None\<close> is
    such an access (Ds_Heap, Str_Search, the mergesort, the linked containers, and the shift and the division of big integers). The properties show that it does
    not happen.
  \<^item> A loop is a primitive recursion or a \<open>fun\<close> on the list it walks along, or an iteration of its
    body as often as the code repeats it. Where the bound is not structural, the function has a
    measure (\<open>multsplit_biginthelper\<close>, \<open>commonfactors_loop\<close>, \<open>trailing_loop\<close>), or it is a
    \<open>partial_function\<close> (Ds_Heap, Str_Search, the mergesort, the linked containers) with \<open>None\<close> for a loop that does not end; no fuel is
    used. The properties of these give a value \<open>Some\<close>, so they include termination.
  \<^item> A memory manager is a parameter (\<open>mm_t\<close> of Big_Base, the one of Mem_Wbuffer): it may refuse
    with any error, may move a block, and fills new memory with anything. The comparison of a heap
    or of a sort is a parameter, too, and so are the system calls behind Mem_Vmpage.
  \<^item> The properties are labelled C1, C2 and so on, in the order of their importance.

  \<^bold>\<open>Integers\<close> (math/int).
  \<^item> Int_Sqroot: \<open>sqroot_int\<close> in both widths (sqroot.c). The invariant of the digit by digit method
    gives the floor of the root.
  \<^item> Int_Bits: \<open>log2_int\<close>, the power of two macros, absolute value, sign, byte order, bit order,
    \<open>findzerobyte_int\<close> (headers of api/math/int), and the shift register of lfsr.c, whose states
    are different from each other and not 0 until the first one returns.
  \<^item> Int_Digits: \<open>log10_int\<close> (log10.c) and \<open>convert2bcd_int\<close> (bcd.c): floor of the logarithm, and the
    decimal digits by shift and add.
  \<^item> Int_Factorise: both gcd functions of factorise.c, for every word length at once, with Bezout's
    identity on the wrapped coefficients.

  \<^bold>\<open>Hashes\<close> (math/hash).
  \<^item> Hash_Crc: crc7.c, crc16.c, crc32.c. The locale \<open>crc_register\<close> has a linear shift register and a table; the three
    checksums are interpretations, with the literal tables of the source. The properties relate the
    table driven update to the bit by bit division.
  \<^item> Hash_Sha1: sha1.c. The unrolled steps with the rolling schedule refine the schedule of 80 words,
    splitting the input into pieces does not change the digest, padding is the one of the
    standard, and the counter of bits cannot overflow unnoticed, although a refused piece advances it.

  \<^bold>\<open>Big integers\<close> (math/int/bigint.c). An object is an array of 32 bit digits, a signed count of the
  digits in use and an exponent that counts lowest digits 0 which are not stored; \<open>bval\<close> is the
  integer it stands for and \<open>bigint_inv\<close> its invariant.
  \<^item> Big_Base: the record, the queries, the memory manager, \<open>allocate_bigint\<close>, \<open>bval\<close>, the invariant.
  \<^item> Big_Set: comparing, copying, setting from integers and arrays, changes in place.
  \<^item> Big_AddSub: \<open>add_bigint\<close>, \<open>sub_bigint\<close> with the alignment of operands of different exponents.
  \<^item> Big_Mul: multiplication by a digit, by rows, and by splitting (\<open>multsplit_biginthelper\<close>), which
    calls the addition and subtraction.
  \<^item> Big_Shift: shifts by bits. \<open>shiftright_bigint\<close> is in the option type: it writes through a pointer
    that was read before a reallocation, and \<open>None\<close> is that write.
  The predicate \<open>delivers\<close> is the contract of these operations: on success the result satisfies the invariant
  and has the expected value, on an error it is unchanged. The refinement properties state it for
  every operation, with the bounds on sizes under which the 16 bit exponent does not wrap, and that
  the operations succeed when the memory manager does not refuse and the sizes are small.
  \<^item> Big_Div_Ring: the digits of a quotient by estimation and correction, on a ring buffer of digits.
    The value of a state is the number in the register and the ring; one step of the loop computes
    the exact next digit and keeps the remainder below the divisor.
  \<^item> Big_Div: \<open>divmod_biginthelper\<close> and \<open>divmodui32_biginthelper\<close>, which store the results.
  \<^item> Big_Divmod: the operations. They deliver \<open>sdiv\<close> and \<open>smod\<close>; two lemmas compute the cases where the
    code fails (a wrapped number of digits, an exponent left in a number 0 after an error).

  \<^bold>\<open>Memory and text\<close> (memory, string).
  \<^item> Mem_Wbuffer: wbuffer.c, the object with its three implementations of the interface (a string, a
    memory block, a static buffer) and \<open>allocate_cstring\<close> of cstring.c. Appending keeps what has been
    appended and either reserves the memory or changes nothing.
  \<^item> Str_Base64: base64encode.c, which writes into a write buffer. Refinement of an encoding by
    digits to the base 64 and round trip.
  \<^item> Str_Utf8, Str_Utf8_Text: utf8.c. The first theory has the operations, the second the texts:
    which byte sequences are encodings, decoding of encodings, counting and searching, and the
    validator, a state machine fed with blocks of a text, which accepts exactly the encodings and reports
    the offset of the first error.
  \<^item> Str_Search, Str_Search_First: strsearch.c. Failure table and shift table are characterised by the longest borders of the
    pattern; the searches return the first (last) occurrence and read inside the arrays only.

  \<^bold>\<open>Containers\<close> (ds/inmem).
  \<^item> Ds_Compare: the contract of a comparison as the locale \<open>comparator\<close>, and the order of heaps on
    lists.
  \<^item> Ds_Heap: heap.c on the bytes of the array, offsets computed as in the code. The lemmas lift
    copies and swaps of bytes to lists of elements and show that the loops sink and lift an element.
  \<^item> Ds_Heap_Queue: the locale \<open>max_queue\<close> with a client that empties a queue, the interpretations on
    the heap of \<open>long\<close> values with two comparisons, and the properties for all comparisons.

  \<^item> Ds_Links, Ds_Slist, Ds_Dlist, Ds_Lists: the two linked lists on a store: every field of the nodes is a
    partial map from addresses to pointers, and an access to a node that is not allocated gives \<open>None\<close>.
    Chains and rings through one field, the operations as changes of rings, and the interface
    \<open>node_list\<close> of both lists with a client that uses them as queue and stack. The type adapter is the
    function that deletes an object, or none; a node that has been deleted leaves the store. The locale
    \<open>removing_iterator\<close> is what the iterators promise to a loop that removes the current node; its
    interpretations are the iterator of the single linked list and both directions of the other one.
  \<^item> Ds_Splaytree: splaytree.c on such a store, with the comparison functions of the type adapter as
    parameters. The local variable \<open>keyroot\<close> of splaying is a node at an address that is not in use.
  \<^item> Ds_Splay_Ref, Ds_Splay_Loop, Ds_Splay_Tree, Ds_Splay_Rec: splaying as a function on trees; the loop with its
    two chains of lower and higher nodes and the recursive version of the unit test both compute it and leave the same store.
    The rounds to the left are proved as the mirror image of those to the right.
  \<^item> Ds_Splay_Ops, Ds_Splay_Free, Ds_Splay_Contract: the tree as the sorted list of its nodes, one lemma per
    operation; removing all nodes with reversed pointers; the properties. The comparison functions have to order the
    nodes by a key (\<open>tree_order\<close>); splaying itself is proved for every comparison function.

  \<^bold>\<open>Sorting and pages\<close> (ds/sort, platform/Linux/vm.c).
  \<^item> Mem_Vmpage: the mapping of memory pages over the system calls, which are a parameter.
  \<^item> Ds_Stable: what it is to sort stably, the locale \<open>sort_order\<close> of lawful comparison functions and
    the reference sort \<open>isort\<close>.
  \<^item> Ds_Mergesort_Search, Ds_Mergesort_Merge, Ds_Mergesort: mergesort.c and mergesort_generic_impl.h, from
    the galloping searches over the two merge routines to the entry points. An array is the list of
    its elements, an offset in bytes the index of the element, and a comparison function together with its
    \<open>cmpstate\<close> a function on elements; so the variants for bytes, longs and pointers, which differ in how they copy
    an element, share one definition. \<open>None\<close> is an access outside the array, the temporary memory or the stack.
  \<^item> Ds_Merge_Sides, Ds_Mergesort_Merged, Ds_Mergesort_Rmerged: the locale \<open>merge_sides\<close> for what both directions
    of merging share, its two interpretations, and the contract of a merge. Merging ends for every
    comparison function, as every round moves an element.
  \<^item> Ds_Mergesort_Slices, Ds_Mergesort_Stack, Ds_Mergesort_Invariant, Ds_Mergesort_Sorts: sorted slices, the stack
    of slices and its size invariant (85 entries of at least 32 elements describe more than \<open>2 ^ 64\<close>), the loop over the array.
  \<^item> Ds_Mergesort_Contract: the comparison functions of the test as interpretations, and the properties.

  \<^bold>\<open>Not modelled.\<close>
  \<^item> Conversions of big integers to and from floating point and strings, and decimal.c, which is
    built on them.
  \<^item> The other linked containers (red black trees, tries, hash tables), the containers on pages and the automata.
  \<^item> \<open>invariant_splaytree\<close>, which only checks a tree, on a stack of pages.
  \<^item> The readers and uri.c, which work on mapped files and buffers of the operating system.
  \<^item> Page caches, object caches, tasks, threads, files, sockets, terminals, graphics: wrappers of
    system calls and of libraries that are not part of the repository, or code whose behaviour is
    that of the hardware.
  \<^item> The unit tests, which every C file contains under a conditional, and the tools that generate
    parts of the source at build time.
\<close>

end
